(* ===== verification/Prelude.thy ===== *)
theory Prelude
  imports Complex_Main "HOL-Library.Monad_Syntax" "HOL-Library.Word"
begin

text \<open>
  Shared vocabulary of the development: machine integer types, the effect of a failed
  \<^verbatim>\<open>assert\<close>, checked array accesses, and the generic lemmas about lists, options and
  words that the component theories use.

  \<^item> C code that can abort (a failed \<^verbatim>\<open>assert\<close>, a null dereference, an access outside an
    array) is modelled in the option monad: \<open>None\<close> is the abort.
  \<^item> C's fixed-width integers are words; \<open>int\<close> is used for C \<^verbatim>\<open>int\<close>s whose values are
    bounded by the code itself, as each theory says.
\<close>

unbundle bit_operations_syntax

type_synonym u8 = "8 word"
type_synonym u16 = "16 word"
type_synonym u32 = "32 word"
type_synonym u64 = "64 word"
type_synonym bytes = "8 word list"

named_theorems abort_simps \<open>unfolding of the checked operations of the option monad\<close>

text \<open>The number of secrets the proxy can be given.\<close>

definition MAX_MTFRONT_SECRETS :: nat where
  "MAX_MTFRONT_SECRETS = 128"

section \<open>Assertions and checked accesses\<close>

definition cassert :: "bool \<Rightarrow> unit option" where
  "cassert b = (if b then Some () else None)"

definition aget :: "'a list \<Rightarrow> nat \<Rightarrow> 'a option" where
  "aget xs i = (if i < length xs then Some (xs ! i) else None)"

definition aset :: "'a list \<Rightarrow> nat \<Rightarrow> 'a \<Rightarrow> 'a list option" where
  "aset xs i v = (if i < length xs then Some (xs[i := v]) else None)"

lemma cassert_True [simp]: "cassert True = Some ()"
  by (simp add: cassert_def)

lemma cassert_False [simp]: "cassert False = None"
  by (simp add: cassert_def)

lemma cassert_eq_Some [simp]: "cassert b = Some u \<longleftrightarrow> b"
  by (simp add: cassert_def)

lemma cassert_bind [abort_simps]: "(cassert b \<bind> f) = (if b then f () else None)"
  by (simp add: cassert_def)

lemma aget_Some [simp]: "aget xs i = Some x \<longleftrightarrow> i < length xs \<and> xs ! i = x"
  by (auto simp: aget_def)

lemma aget_None [simp]: "aget xs i = None \<longleftrightarrow> length xs \<le> i"
  by (auto simp: aget_def)

lemma aget_in [simp]: "i < length xs \<Longrightarrow> aget xs i = Some (xs ! i)"
  by (simp add: aget_def)

lemma aset_in [simp]: "i < length xs \<Longrightarrow> aset xs i v = Some (xs[i := v])"
  by (simp add: aset_def)

lemma aset_out [simp]: "length xs \<le> i \<Longrightarrow> aset xs i v = None"
  by (simp add: aset_def)

lemma aset_Some [simp]: "aset xs i v = Some ys \<longleftrightarrow> i < length xs \<and> ys = xs[i := v]"
  by (auto simp: aset_def)

lemmas bind_SomeE = bind_eq_Some_conv [THEN iffD1, elim_format]

section \<open>Singly linked lists\<close>

text \<open>
  \<open>chain nx p xs\<close>: following \<open>nx\<close> from the pointer \<open>p\<close> visits exactly \<open>xs\<close> and ends at the null
  pointer \<open>None\<close>.
\<close>

fun chain :: "('a \<Rightarrow> 'a option) \<Rightarrow> 'a option \<Rightarrow> 'a list \<Rightarrow> bool" where
  "chain nx p [] \<longleftrightarrow> p = None"
| "chain nx p (x # xs) \<longleftrightarrow> p = Some x \<and> chain nx (nx x) xs"

lemma chain_None [simp]: "chain nx None xs \<longleftrightarrow> xs = []"
  by (cases xs) auto

lemma chain_Some: "chain nx (Some x) xs \<longleftrightarrow> (\<exists>ys. xs = x # ys \<and> chain nx (nx x) ys)"
  by (cases xs) auto

lemma chain_det: "chain nx p xs \<Longrightarrow> chain nx p ys \<Longrightarrow> xs = ys"
  by (induction xs arbitrary: p ys) (auto simp: chain_Some)

lemma chain_cong: "chain nx p xs \<Longrightarrow> (\<And>x. x \<in> set xs \<Longrightarrow> nx' x = nx x) \<Longrightarrow> chain nx' p xs"
  by (induction xs arbitrary: p) auto

lemma chain_last: "chain nx p (xs @ [x]) \<Longrightarrow> nx x = None"
  by (induction xs arbitrary: p) auto

lemma chain_drop: "chain nx p (xs @ x # ys) \<Longrightarrow> chain nx (Some x) (x # ys)"
  by (induction xs arbitrary: p) auto

text \<open>Appending a node: the old last node (if any) is redirected to it.\<close>

lemma chain_snoc:
  assumes "chain nx p (xs @ [x])" "distinct (xs @ [x])" "y \<notin> set (xs @ [x])"
    "nx' x = Some y" "nx' y = None" "\<And>z. z \<in> set xs \<Longrightarrow> nx' z = nx z"
  shows "chain nx' p (xs @ [x, y])"
  using assms by (induction xs arbitrary: p) auto

text \<open>Cutting the chain before its last node.\<close>

lemma chain_cut:
  assumes "chain nx p (xs @ [x, y])" "nx' x = None" "\<And>z. z \<in> set xs \<Longrightarrow> nx' z = nx z"
  shows "chain nx' p (xs @ [x])"
  using assms by (induction xs arbitrary: p) auto

section \<open>Bit operations on natural numbers\<close>

lemma nat_or_less: "(x::nat) < 2 ^ n \<Longrightarrow> y < 2 ^ n \<Longrightarrow> x OR y < 2 ^ n"
  by (metis take_bit_nat_eq_self_iff take_bit_or)

lemma nat_and_mask_less: "(x::nat) AND (2 ^ n - 1) < 2 ^ n"
  by (metis mask_eq_exp_minus_1 take_bit_eq_mask take_bit_nat_less_exp)

lemma unat_u8_less [simp]: "unat (x :: u8) < 256"
  using unsigned_less [of x] by simp

end
