(* ===== verification/Timers.thy ===== *)
theory Timers
  imports Prelude
begin

text \<open>
  The per-thread timer heap of \<^verbatim>\<open>net/net-timers.c\<close>: an array-based binary heap of pointers
  to \<^verbatim>\<open>event_timer\<close> structures, indexed from 1, in which every armed timer records its own
  position in \<open>h_idx\<close> (0 means not armed).

  Timers live in a store \<open>timer_mem\<close> addressed by \<open>timer\<close>; the array holds pointers into it,
  \<open>None\<close> being the null pointer, and an unallocated array is the empty list. Doubles are
  rationals. The statistics counters of the module are kept as unbounded integers.
\<close>

section \<open>State\<close>

definition MAX_EVENT_TIMERS :: nat where
  "MAX_EVENT_TIMERS = 2 ^ 19"

type_synonym timer = nat

record event_timer =
  h_idx :: nat
  wakeup_time :: rat

record timers_state =
  et_heap :: "timer option list"
  et_heap_size :: nat
  timer_mem :: "timer \<Rightarrow> event_timer"
  event_timer_insert_ops :: int
  event_timer_remove_ops :: int
  event_timer_alarms :: int
  total_timers :: int

definition alloc_et_heap :: "timers_state \<Rightarrow> timers_state" where
  "alloc_et_heap s =
     (if et_heap s = [] then s\<lparr>et_heap := replicate MAX_EVENT_TIMERS None\<rparr> else s)"

definition et_at :: "timers_state \<Rightarrow> nat \<Rightarrow> timer option" where
  "et_at s i = do { p \<leftarrow> aget (et_heap s) i; p }"

abbreviation wtime :: "timers_state \<Rightarrow> timer \<Rightarrow> rat" where
  "wtime s p \<equiv> wakeup_time (timer_mem s p)"

abbreviation hidx :: "timers_state \<Rightarrow> timer \<Rightarrow> nat" where
  "hidx s p \<equiv> h_idx (timer_mem s p)"

definition set_h_idx :: "timers_state \<Rightarrow> timer \<Rightarrow> nat \<Rightarrow> timers_state" where
  "set_h_idx s p i = s\<lparr>timer_mem := (timer_mem s)(p := (timer_mem s p)\<lparr>h_idx := i\<rparr>)\<rparr>"

definition set_wakeup_time :: "timers_state \<Rightarrow> timer \<Rightarrow> rat \<Rightarrow> timers_state" where
  "set_wakeup_time s p t =
     s\<lparr>timer_mem := (timer_mem s)(p := (timer_mem s p)\<lparr>wakeup_time := t\<rparr>)\<rparr>"

section \<open>Operations\<close>

text \<open>One assignment pair \<^verbatim>\<open>et_heap[i] = p; p->h_idx = i\<close> of the sift loops.\<close>

definition put_at :: "timers_state \<Rightarrow> nat \<Rightarrow> timer \<Rightarrow> timers_state option" where
  "put_at s i p = do {
     h \<leftarrow> aset (et_heap s) i (Some p);
     Some (set_h_idx (s\<lparr>et_heap := h\<rparr>) p i) }"

function adjust_up :: "timers_state \<Rightarrow> timer \<Rightarrow> nat \<Rightarrow> (timers_state \<times> nat) option" where
  "adjust_up s et i =
     (if i > 1 then do {
        pj \<leftarrow> et_at s (i div 2);
        if wtime s pj \<le> wtime s et then Some (s, i)
        else do { s' \<leftarrow> put_at s i pj; adjust_up s' et (i div 2) } }
      else Some (s, i))"
  by pat_completeness auto
termination
  by (relation "measure (\<lambda>(s, et, i). i)") auto

partial_function (option) adjust_down ::
  "timers_state \<Rightarrow> timer \<Rightarrow> nat \<Rightarrow> (timers_state \<times> nat) option" where
  "adjust_down s et i =
     (let j = 2 * i in
      if j \<le> et_heap_size s then do {
        pj \<leftarrow> et_at s j;
        (j, pj) \<leftarrow>
          (if j < et_heap_size s then do {
             pk \<leftarrow> et_at s (j + 1);
             Some (if wtime s pj > wtime s pk then (j + 1, pk) else (j, pj)) }
           else Some (j, pj));
        if wtime s et \<le> wtime s pj then Some (s, i)
        else do { s' \<leftarrow> put_at s i pj; adjust_down s' et j } }
      else Some (s, i))"

definition basic_et_adjust :: "timers_state \<Rightarrow> timer \<Rightarrow> nat \<Rightarrow> (timers_state \<times> nat) option" where
  "basic_et_adjust s et i = do {
     (s, i) \<leftarrow> adjust_up s et i;
     (s, i) \<leftarrow> adjust_down s et i;
     s \<leftarrow> put_at s i et;
     Some (s, i) }"

definition insert_event_timer :: "timers_state \<Rightarrow> timer \<Rightarrow> (timers_state \<times> nat) option" where
  "insert_event_timer s et = (
     let s = alloc_et_heap s;
         s = s\<lparr>event_timer_insert_ops := event_timer_insert_ops s + 1\<rparr> in
     if hidx s et \<noteq> 0 then do {
       cassert (hidx s et > 0 \<and> hidx s et \<le> et_heap_size s \<and> et_at s (hidx s et) = Some et);
       basic_et_adjust s et (hidx s et) }
     else do {
       cassert (et_heap_size s < MAX_EVENT_TIMERS);
       let s = s\<lparr>total_timers := total_timers s + 1, et_heap_size := et_heap_size s + 1\<rparr>;
       basic_et_adjust s et (et_heap_size s) })"

definition remove_event_timer :: "timers_state \<Rightarrow> timer \<Rightarrow> (timers_state \<times> int) option" where
  "remove_event_timer s et = (
     let s = alloc_et_heap s; i = hidx s et in
     if i = 0 then Some (s, 0)
     else do {
       let s = s\<lparr>total_timers := total_timers s - 1,
                 event_timer_remove_ops := event_timer_remove_ops s + 1\<rparr>;
       cassert (i > 0 \<and> i \<le> et_heap_size s \<and> et_at s i = Some et);
       let s = set_h_idx s et 0;
       lst \<leftarrow> et_at s (et_heap_size s);
       let s = s\<lparr>et_heap_size := et_heap_size s - 1\<rparr>;
       if i > et_heap_size s then Some (s, 1)
       else do { (s, _) \<leftarrow> basic_et_adjust s lst i; Some (s, 1) } })"

definition timers_get_first :: "timers_state \<Rightarrow> rat option" where
  "timers_get_first s =
     (if et_heap_size s = 0 then Some 0 else do { p \<leftarrow> et_at s 1; Some (wtime s p) })"

text \<open>
  \<^verbatim>\<open>thread_run_timers\<close>: \<open>wakeup\<close> stands for the function pointers \<^verbatim>\<open>et->wakeup\<close>, which belong
  to the modules that own the timers and may arm or disarm timers.
\<close>

text \<open>The conversion to \<^verbatim>\<open>int\<close> is exact for a wait of less than $2^{31}$ milliseconds, which is some 24 days.\<close>

definition wait_ms :: "rat \<Rightarrow> int" where
  "wait_ms w = \<lfloor>w * 1000\<rfloor> + 1"

partial_function (option) run_due_timers ::
  "(timer \<Rightarrow> timers_state \<Rightarrow> timers_state option) \<Rightarrow> rat \<Rightarrow> timers_state \<Rightarrow> timers_state option" where
  "run_due_timers wakeup now s =
     (if et_heap_size s > 0 then do {
        et \<leftarrow> et_at s 1;
        if wtime s et \<le> now then do {
          cassert (hidx s et = 1);
          (s, _) \<leftarrow> remove_event_timer s et;
          s \<leftarrow> wakeup et s;
          run_due_timers wakeup now (s\<lparr>event_timer_alarms := event_timer_alarms s + 1\<rparr>) }
        else Some s }
      else Some s)"

definition thread_run_timers ::
  "(timer \<Rightarrow> timers_state \<Rightarrow> timers_state option) \<Rightarrow> rat \<Rightarrow> timers_state \<Rightarrow>
     (timers_state \<times> int) option" where
  "thread_run_timers wakeup now s = (
     let s = alloc_et_heap s in
     if et_heap_size s = 0 then Some (s, 100000)
     else do {
       et \<leftarrow> et_at s 1;
       if wtime s et - now > 0 then Some (s, wait_ms (wtime s et - now))
       else do {
         s \<leftarrow> run_due_timers wakeup now s;
         if et_heap_size s = 0 then Some (s, 100000)
         else do {
           et \<leftarrow> et_at s 1;
           cassert (wtime s et - now > 0);
           Some (s, wait_ms (wtime s et - now)) } } })"

section \<open>Invariant\<close>

text \<open>
  \<open>linked\<close>: the array slots \<open>1..et_heap_size\<close> hold exactly the armed timers, each at its own
  \<open>h_idx\<close>, and the array has room for the slot after the last. \<open>heap_ordered\<close>: no timer wakes
  up before its parent slot's timer.
\<close>

definition linked :: "timers_state \<Rightarrow> bool" where
  "linked s \<longleftrightarrow> et_heap_size s < length (et_heap s) \<and>
     (\<forall>k. 1 \<le> k \<and> k \<le> et_heap_size s \<longrightarrow> (\<exists>p. et_heap s ! k = Some p \<and> hidx s p = k)) \<and>
     (\<forall>p. hidx s p \<noteq> 0 \<longrightarrow> hidx s p \<le> et_heap_size s \<and> et_heap s ! hidx s p = Some p)"

abbreviation slot_time :: "timers_state \<Rightarrow> nat \<Rightarrow> rat" where
  "slot_time s k \<equiv> wtime s (the (et_heap s ! k))"

definition heap_ordered :: "timers_state \<Rightarrow> bool" where
  "heap_ordered s \<longleftrightarrow>
     (\<forall>k. 2 \<le> k \<and> k \<le> et_heap_size s \<longrightarrow> slot_time s (k div 2) \<le> slot_time s k)"

definition timers_inv :: "timers_state \<Rightarrow> bool" where
  "timers_inv s \<longleftrightarrow> linked s \<and> heap_ordered s \<and> length (et_heap s) = MAX_EVENT_TIMERS"

definition armed :: "timers_state \<Rightarrow> timer set" where
  "armed s = {p. hidx s p \<noteq> 0}"

section \<open>The sift loops\<close>

text \<open>
  While a loop runs, slot \<open>i\<close> is a hole: the timer \<open>et\<close> belongs there but has not been stored
  yet. \<open>hole\<close> is \<open>linked\<close> for every other slot and every other timer, and \<open>vtime\<close> reads the
  array as if \<open>et\<close> were in the hole.
\<close>

definition hole :: "timers_state \<Rightarrow> timer \<Rightarrow> nat \<Rightarrow> bool" where
  "hole s et i \<longleftrightarrow> et_heap_size s < length (et_heap s) \<and> 1 \<le> i \<and> i \<le> et_heap_size s \<and>
     (\<forall>k. 1 \<le> k \<and> k \<le> et_heap_size s \<and> k \<noteq> i \<longrightarrow>
        (\<exists>p. et_heap s ! k = Some p \<and> hidx s p = k \<and> p \<noteq> et)) \<and>
     (\<forall>p. p \<noteq> et \<and> hidx s p \<noteq> 0 \<longrightarrow>
        hidx s p \<le> et_heap_size s \<and> hidx s p \<noteq> i \<and> et_heap s ! hidx s p = Some p)"

definition vtime :: "timers_state \<Rightarrow> timer \<Rightarrow> nat \<Rightarrow> nat \<Rightarrow> rat" where
  "vtime s et i k = (if k = i then wtime s et else slot_time s k)"

text \<open>What the loops leave alone.\<close>

definition same_timers :: "timers_state \<Rightarrow> timer \<Rightarrow> timers_state \<Rightarrow> bool" where
  "same_timers s et s' \<longleftrightarrow> et_heap_size s' = et_heap_size s \<and>
     length (et_heap s') = length (et_heap s) \<and> total_timers s' = total_timers s \<and>
     (\<forall>p. wtime s' p = wtime s p) \<and> (\<forall>p. p \<noteq> et \<longrightarrow> (hidx s' p = 0 \<longleftrightarrow> hidx s p = 0))"

lemma same_timers_refl [simp]: "same_timers s et s"
  by (simp add: same_timers_def)

lemma same_timers_trans: "same_timers s et s' \<Longrightarrow> same_timers s' et s'' \<Longrightarrow> same_timers s et s''"
  by (simp add: same_timers_def)

lemma et_at_eq: "et_at s i = Some p \<longleftrightarrow> i < length (et_heap s) \<and> et_heap s ! i = Some p"
  by (auto simp: et_at_def bind_eq_Some_conv)

lemma et_at_upd [simp]:
  "et_at (s\<lparr>timer_mem := m\<rparr>) i = et_at s i" "et_at (s\<lparr>et_heap_size := n\<rparr>) i = et_at s i"
  "et_at (s\<lparr>total_timers := a\<rparr>) i = et_at s i" "et_at (s\<lparr>event_timer_insert_ops := a\<rparr>) i = et_at s i"
  "et_at (s\<lparr>event_timer_remove_ops := a\<rparr>) i = et_at s i"
  by (simp_all add: et_at_def)

lemma hole_slot:
  assumes "hole s et i" "1 \<le> k" "k \<le> et_heap_size s" "k \<noteq> i"
  obtains p where "et_heap s ! k = Some p" "hidx s p = k" "p \<noteq> et" "et_at s k = Some p"
    "wtime s p = vtime s et i k"
proof -
  from assms obtain p where "et_heap s ! k = Some p" "hidx s p = k" "p \<noteq> et"
    unfolding hole_def by blast
  moreover from this assms have "et_at s k = Some p" "wtime s p = vtime s et i k"
    by (auto simp: et_at_eq hole_def vtime_def)
  ultimately show thesis using that by blast
qed

text \<open>One loop iteration moves the hole from \<open>i\<close> to \<open>j\<close> and the timer at \<open>j\<close> into \<open>i\<close>.\<close>

lemma put_at_moves_hole:
  assumes h: "hole s et i" and j: "1 \<le> j" "j \<le> et_heap_size s" "j \<noteq> i"
    and p: "et_heap s ! j = Some p"
  obtains s' where "put_at s i p = Some s'" "hole s' et j" "same_timers s et s'"
    "\<And>k. 1 \<le> k \<Longrightarrow> k \<le> et_heap_size s \<Longrightarrow>
       vtime s' et j k = (if k = i then vtime s et i j else if k = j then wtime s et else vtime s et i k)"
proof -
  from h j p have idx: "hidx s p = j" "p \<noteq> et" "i < length (et_heap s)"
    unfolding hole_def by (force, force, force)
  define s' where "s' = set_h_idx (s\<lparr>et_heap := (et_heap s)[i := Some p]\<rparr>) p i"
  have 1: "put_at s i p = Some s'"
    using idx by (simp add: put_at_def s'_def)
  have 2: "hole s' et j"
    unfolding hole_def
  proof (intro conjI allI impI)
    fix k assume k: "1 \<le> k \<and> k \<le> et_heap_size s' \<and> k \<noteq> j"
    show "\<exists>q. et_heap s' ! k = Some q \<and> hidx s' q = k \<and> q \<noteq> et"
    proof (cases "k = i")
      case True with idx show ?thesis by (simp add: s'_def set_h_idx_def)
    next
      case False
      with h k obtain q where "et_heap s ! k = Some q" "hidx s q = k" "q \<noteq> et"
        by (auto simp: hole_def s'_def set_h_idx_def)
      with False k idx show ?thesis by (auto simp: s'_def set_h_idx_def)
    qed
  next
    fix q assume q: "q \<noteq> et \<and> hidx s' q \<noteq> 0"
    from h q idx show "hidx s' q \<le> et_heap_size s'" "hidx s' q \<noteq> j"
      "et_heap s' ! hidx s' q = Some q"
      using j p by (auto simp: hole_def s'_def set_h_idx_def nth_list_update split: if_splits)
  qed (use h j in \<open>auto simp: hole_def s'_def set_h_idx_def\<close>)
  have 3: "same_timers s et s'"
    using h idx j by (auto simp: same_timers_def s'_def set_h_idx_def hole_def)
  have 4: "vtime s' et j k = (if k = i then vtime s et i j else if k = j then wtime s et else vtime s et i k)"
    if "1 \<le> k" "k \<le> et_heap_size s" for k
    using that h j p idx by (auto simp: vtime_def s'_def set_h_idx_def nth_list_update hole_def)
  from 1 2 3 4 show thesis using that by blast
qed

text \<open>
  Loop invariants on the virtual array. Both say that the children of the hole are not before
  the hole's parent; the first leaves the order at the hole itself open, the second only
  leaves open whether the children of the hole are after \<open>et\<close>.
\<close>

definition up_inv :: "timers_state \<Rightarrow> timer \<Rightarrow> nat \<Rightarrow> bool" where
  "up_inv s et i \<longleftrightarrow>
     (\<forall>k. 2 \<le> k \<and> k \<le> et_heap_size s \<and> k \<noteq> i \<and> k div 2 \<noteq> i \<longrightarrow>
        vtime s et i (k div 2) \<le> vtime s et i k) \<and>
     (\<forall>k. 2 \<le> i \<and> k \<le> et_heap_size s \<and> k div 2 = i \<longrightarrow> vtime s et i (i div 2) \<le> vtime s et i k)"

definition down_inv :: "timers_state \<Rightarrow> timer \<Rightarrow> nat \<Rightarrow> bool" where
  "down_inv s et i \<longleftrightarrow>
     (\<forall>k. 2 \<le> k \<and> k \<le> et_heap_size s \<and> k div 2 \<noteq> i \<longrightarrow> vtime s et i (k div 2) \<le> vtime s et i k) \<and>
     (\<forall>k. 2 \<le> i \<and> k \<le> et_heap_size s \<and> k div 2 = i \<longrightarrow> vtime s et i (i div 2) \<le> vtime s et i k)"

declare adjust_up.simps [simp del]

lemma up_inv_step:
  assumes inv: "up_inv s et i" and i: "1 < i" "i \<le> et_heap_size s"
    and lt: "wtime s et < vtime s et i (i div 2)"
    and sz: "et_heap_size s' = et_heap_size s"
    and v: "\<And>k. 1 \<le> k \<Longrightarrow> k \<le> et_heap_size s \<Longrightarrow> vtime s' et (i div 2) k =
       (if k = i then vtime s et i (i div 2) else if k = i div 2 then wtime s et else vtime s et i k)"
  shows "up_inv s' et (i div 2)"
  unfolding up_inv_def sz
proof (intro conjI allI impI)
  fix k assume k: "2 \<le> k \<and> k \<le> et_heap_size s \<and> k \<noteq> i div 2 \<and> k div 2 \<noteq> i div 2"
  then have "1 \<le> k div 2" "k div 2 \<le> et_heap_size s" "k \<noteq> i" by auto
  moreover have "vtime s et i (if k div 2 = i then i div 2 else k div 2) \<le> vtime s et i k"
    using inv k i \<open>k \<noteq> i\<close> by (auto simp: up_inv_def)
  ultimately show "vtime s' et (i div 2) (k div 2) \<le> vtime s' et (i div 2) k"
    using v [of k] v [of "k div 2"] k by (auto split: if_splits)
next
  fix k assume k: "2 \<le> i div 2 \<and> k \<le> et_heap_size s \<and> k div 2 = i div 2"
  let ?g = "i div 2 div 2"
  have g: "vtime s et i ?g \<le> vtime s et i (i div 2)"
    using inv k i by (auto simp: up_inv_def)
  have sib: "k \<noteq> i \<Longrightarrow> vtime s et i (i div 2) \<le> vtime s et i k"
  proof -
    assume "k \<noteq> i"
    with k i have "2 \<le> k" "k div 2 \<noteq> i" by auto
    with inv k \<open>k \<noteq> i\<close> have "vtime s et i (k div 2) \<le> vtime s et i k" by (auto simp: up_inv_def)
    with k show ?thesis by simp
  qed
  from k i have "1 \<le> ?g" "?g \<le> et_heap_size s" "?g \<noteq> i" "?g \<noteq> i div 2" "1 \<le> k" "k \<noteq> i div 2"
    by auto
  then have vg: "vtime s' et (i div 2) ?g = vtime s et i ?g"
    and vk: "vtime s' et (i div 2) k = (if k = i then vtime s et i (i div 2) else vtime s et i k)"
    using v [of ?g] v [of k] k by simp_all
  show "vtime s' et (i div 2) ?g \<le> vtime s' et (i div 2) k"
    using g sib order_trans unfolding vg vk by (cases "k = i") auto
qed

lemma adjust_up_ok:
  assumes "hole s et i" "up_inv s et i"
  shows "\<exists>s' i'. adjust_up s et i = Some (s', i') \<and> hole s' et i' \<and> down_inv s' et i' \<and> same_timers s et s'"
  using assms
proof (induction i arbitrary: s rule: less_induct)
  case (less i)
  have sz: "1 \<le> i" "i \<le> et_heap_size s" using less.prems by (auto simp: hole_def)
  have stop: ?case if "\<not> i > 1 \<or> wtime s (the (et_heap s ! (i div 2))) \<le> wtime s et"
  proof -
    have "vtime s et i (k div 2) \<le> vtime s et i k"
      if k: "2 \<le> k" "k \<le> et_heap_size s" "k div 2 \<noteq> i" for k
    proof (cases "k = i")
      case True
      with k \<open>\<not> i > 1 \<or> _\<close> show ?thesis by (simp add: vtime_def)
    next
      case False
      with less.prems(2) k show ?thesis by (simp add: up_inv_def)
    qed
    with less.prems(2) have "down_inv s et i" by (simp add: down_inv_def up_inv_def)
    moreover have "adjust_up s et i = Some (s, i)"
    proof (cases "i > 1")
      case True
      then have "1 \<le> i div 2" "i div 2 \<le> et_heap_size s" "i div 2 \<noteq> i"
        using sz by auto
      then obtain p where "et_at s (i div 2) = Some p" "et_heap s ! (i div 2) = Some p"
        using hole_slot [OF less.prems(1)] by metis
      with True that show ?thesis by (subst adjust_up.simps) auto
    qed (subst adjust_up.simps, simp)
    ultimately show ?thesis using less.prems(1) by auto
  qed
  show ?case
  proof (cases "\<not> i > 1 \<or> wtime s (the (et_heap s ! (i div 2))) \<le> wtime s et")
    case True then show ?thesis by (rule stop)
  next
    case False
    then have i: "1 < i" and j: "1 \<le> i div 2" "i div 2 \<le> et_heap_size s" "i div 2 \<noteq> i"
      using sz by auto
    obtain p where p: "et_heap s ! (i div 2) = Some p" "et_at s (i div 2) = Some p"
      "wtime s p = vtime s et i (i div 2)"
      using hole_slot [OF less.prems(1) j] by metis
    obtain s' where s': "put_at s i p = Some s'" "hole s' et (i div 2)" "same_timers s et s'"
      and v: "\<And>k. 1 \<le> k \<Longrightarrow> k \<le> et_heap_size s \<Longrightarrow> vtime s' et (i div 2) k =
       (if k = i then vtime s et i (i div 2) else if k = i div 2 then wtime s et else vtime s et i k)"
      using put_at_moves_hole [OF less.prems(1) j p(1)] by metis
    have "up_inv s' et (i div 2)"
      using s'(3) v False p by (intro up_inv_step [OF less.prems(2) i sz(2)]) (auto simp: same_timers_def)
    then obtain s'' i'' where "adjust_up s' et (i div 2) = Some (s'', i'')" "hole s'' et i''"
      "down_inv s'' et i''" "same_timers s' et s''"
      using less.IH [of "i div 2" s'] s'(2) i by auto
    moreover have "adjust_up s et i = adjust_up s' et (i div 2)"
      using i p s'(1) False by (subst adjust_up.simps) auto
    ultimately show ?thesis using s'(3) by (metis same_timers_trans)
  qed
qed

lemma down_inv_step:
  assumes inv: "down_inv s et i" and i: "1 \<le> i" and j: "j div 2 = i" "j \<le> et_heap_size s"
    and le: "vtime s et i j < wtime s et"
    and least: "\<And>k. k \<le> et_heap_size s \<Longrightarrow> k div 2 = i \<Longrightarrow> vtime s et i j \<le> vtime s et i k"
    and sz: "et_heap_size s' = et_heap_size s"
    and v: "\<And>k. 1 \<le> k \<Longrightarrow> k \<le> et_heap_size s \<Longrightarrow> vtime s' et j k =
       (if k = i then vtime s et i j else if k = j then wtime s et else vtime s et i k)"
  shows "down_inv s' et j"
  unfolding down_inv_def sz
proof (intro conjI allI impI)
  fix k assume k: "2 \<le> k \<and> k \<le> et_heap_size s \<and> k div 2 \<noteq> j"
  then have "1 \<le> k div 2" "k div 2 \<le> et_heap_size s" by auto
  moreover have "k = i \<Longrightarrow> vtime s et i (i div 2) \<le> vtime s et i j"
    using inv k j by (auto simp: down_inv_def)
  moreover have "k div 2 \<noteq> i \<Longrightarrow> vtime s et i (k div 2) \<le> vtime s et i k"
    using inv k by (auto simp: down_inv_def)
  ultimately show "vtime s' et j (k div 2) \<le> vtime s' et j k"
    using v [of k] v [of "k div 2"] k j le least [of k] by (auto split: if_splits)
next
  fix k assume k: "2 \<le> j \<and> k \<le> et_heap_size s \<and> k div 2 = j"
  from k i j have neq: "k \<noteq> i" "k \<noteq> j" "2 \<le> k" "j \<noteq> i" by auto
  with inv k have le': "vtime s et i j \<le> vtime s et i k"
    unfolding down_inv_def by metis
  have "vtime s' et j k = vtime s et i k" using v [of k] k neq by simp
  moreover have "vtime s' et j (j div 2) = vtime s et i j" using v [of i] i j by simp
  ultimately show "vtime s' et j (j div 2) \<le> vtime s' et j k" using le' by simp
qed

text \<open>The child the loop compares with: the earlier of the two.\<close>

lemma least_child:
  assumes h: "hole s et i" and le: "2 * i \<le> et_heap_size s"
  obtains j p where "j div 2 = i" "j \<le> et_heap_size s" "j \<noteq> i" "1 \<le> j" "et_heap s ! j = Some p"
    "wtime s p = vtime s et i j"
    "\<And>k. k \<le> et_heap_size s \<Longrightarrow> k div 2 = i \<Longrightarrow> vtime s et i j \<le> vtime s et i k"
    "adjust_down s et i =
       (if wtime s et \<le> wtime s p then Some (s, i)
        else do { s' \<leftarrow> put_at s i p; adjust_down s' et j })"
proof -
  have i: "1 \<le> i" using h by (auto simp: hole_def)
  have kids: "k = 2 * i \<or> k = 2 * i + 1" if "k div 2 = i" for k
    using that by presburger
  obtain p where p: "et_heap s ! (2 * i) = Some p" "et_at s (2 * i) = Some p"
    "wtime s p = vtime s et i (2 * i)"
    using hole_slot [OF h, of "2 * i"] i le by force
  show thesis
  proof (cases "2 * i < et_heap_size s")
    case True
    obtain q where q: "et_heap s ! (2 * i + 1) = Some q" "et_at s (2 * i + 1) = Some q"
      "wtime s q = vtime s et i (2 * i + 1)"
      using hole_slot [OF h, of "2 * i + 1"] i True by force
    show thesis
    proof (cases "wtime s p > wtime s q")
      case gt: True
      have "adjust_down s et i = (if wtime s et \<le> wtime s q then Some (s, i)
        else do { s' \<leftarrow> put_at s i q; adjust_down s' et (2 * i + 1) })"
        using le True gt p q by (subst adjust_down.simps) (simp add: Let_def)
      moreover have "vtime s et i (2 * i + 1) \<le> vtime s et i k" if "k div 2 = i" for k
        using kids [OF that] gt p q by auto
      ultimately show thesis using that [of "2 * i + 1" q] i True q by force
    next
      case ngt: False
      have "adjust_down s et i = (if wtime s et \<le> wtime s p then Some (s, i)
        else do { s' \<leftarrow> put_at s i p; adjust_down s' et (2 * i) })"
        using le True ngt p q by (subst adjust_down.simps) (simp add: Let_def)
      moreover have "vtime s et i (2 * i) \<le> vtime s et i k" if "k div 2 = i" for k
        using kids [OF that] ngt p q by auto
      ultimately show thesis using that [of "2 * i" p] i le p by force
    qed
  next
    case False
    have "adjust_down s et i = (if wtime s et \<le> wtime s p then Some (s, i)
        else do { s' \<leftarrow> put_at s i p; adjust_down s' et (2 * i) })"
      using le False p by (subst adjust_down.simps) (simp add: Let_def)
    moreover have "vtime s et i (2 * i) \<le> vtime s et i k"
      if "k \<le> et_heap_size s" "k div 2 = i" for k
      using kids [OF that(2)] that(1) False by auto
    ultimately show thesis using that [of "2 * i" p] i le p by force
  qed
qed

lemma adjust_down_ok:
  assumes "hole s et i" "down_inv s et i"
  shows "\<exists>s' i'. adjust_down s et i = Some (s', i') \<and> hole s' et i' \<and> same_timers s et s' \<and>
     (\<forall>k. 2 \<le> k \<and> k \<le> et_heap_size s \<longrightarrow> vtime s' et i' (k div 2) \<le> vtime s' et i' k)"
  using assms
proof (induction "et_heap_size s - i" arbitrary: s i rule: less_induct)
  case less
  have i: "1 \<le> i" "i \<le> et_heap_size s" using less.prems(1) by (auto simp: hole_def)
  have fin: ?case if stop: "adjust_down s et i = Some (s, i)"
    and ok: "\<And>k. k \<le> et_heap_size s \<Longrightarrow> k div 2 = i \<Longrightarrow> wtime s et \<le> vtime s et i k"
  proof -
    have "vtime s et i (k div 2) \<le> vtime s et i k" if "2 \<le> k" "k \<le> et_heap_size s" for k
      using less.prems(2) that ok [of k] by (cases "k div 2 = i") (auto simp: down_inv_def vtime_def)
    with stop less.prems(1) show ?thesis by auto
  qed
  show ?case
  proof (cases "2 * i \<le> et_heap_size s")
    case False
    then show ?thesis by (intro fin) (subst adjust_down.simps, auto)
  next
    case True
    obtain j p where j: "j div 2 = i" "j \<le> et_heap_size s" "j \<noteq> i" "1 \<le> j" "et_heap s ! j = Some p"
      and p: "wtime s p = vtime s et i j"
      and least: "\<And>k. k \<le> et_heap_size s \<Longrightarrow> k div 2 = i \<Longrightarrow> vtime s et i j \<le> vtime s et i k"
      and eq: "adjust_down s et i = (if wtime s et \<le> wtime s p then Some (s, i)
        else do { s' \<leftarrow> put_at s i p; adjust_down s' et j })"
      using least_child [OF less.prems(1) True] by metis
    show ?thesis
    proof (cases "wtime s et \<le> wtime s p")
      case True
      then show ?thesis using eq p least by (intro fin) (auto intro: order_trans)
    next
      case False
      obtain s' where s': "put_at s i p = Some s'" "hole s' et j" "same_timers s et s'"
        and v: "\<And>k. 1 \<le> k \<Longrightarrow> k \<le> et_heap_size s \<Longrightarrow> vtime s' et j k =
           (if k = i then vtime s et i j else if k = j then wtime s et else vtime s et i k)"
        using put_at_moves_hole [OF less.prems(1) j(4,2,3,5)] by metis
      have sz: "et_heap_size s' = et_heap_size s" using s'(3) by (simp add: same_timers_def)
      have "down_inv s' et j"
        using False p by (intro down_inv_step [OF less.prems(2) i(1) j(1,2) _ least sz v]) auto
      moreover have "et_heap_size s' - j < et_heap_size s - i" using sz i j by auto
      ultimately obtain s'' i'' where "adjust_down s' et j = Some (s'', i'')" "hole s'' et i''"
        "same_timers s' et s''"
        "\<forall>k. 2 \<le> k \<and> k \<le> et_heap_size s \<longrightarrow> vtime s'' et i'' (k div 2) \<le> vtime s'' et i'' k"
        using less.hyps [of s' j] s'(2) sz by auto
      with False eq s' show ?thesis by (auto intro: same_timers_trans)
    qed
  qed
qed

lemma put_at_fills_hole:
  assumes h: "hole s et i"
    and ord: "\<forall>k. 2 \<le> k \<and> k \<le> et_heap_size s \<longrightarrow> vtime s et i (k div 2) \<le> vtime s et i k"
  shows "\<exists>s'. put_at s i et = Some s' \<and> linked s' \<and> heap_ordered s' \<and> same_timers s et s' \<and>
     hidx s' et = i \<and> 1 \<le> i"
proof -
  define s' where "s' = set_h_idx (s\<lparr>et_heap := (et_heap s)[i := Some et]\<rparr>) et i"
  have i: "i < length (et_heap s)" "1 \<le> i" "i \<le> et_heap_size s" using h by (auto simp: hole_def)
  have "linked s'"
    unfolding linked_def
  proof (intro conjI allI impI)
    fix k assume "1 \<le> k \<and> k \<le> et_heap_size s'"
    with h i show "\<exists>p. et_heap s' ! k = Some p \<and> hidx s' p = k"
      by (cases "k = i") (auto simp: hole_def s'_def set_h_idx_def)
  next
    fix p assume "hidx s' p \<noteq> 0"
    with h i show "hidx s' p \<le> et_heap_size s'" "et_heap s' ! hidx s' p = Some p"
      by (auto simp: hole_def s'_def set_h_idx_def)
  qed (use h in \<open>auto simp: hole_def s'_def set_h_idx_def\<close>)
  moreover have "slot_time s' k = vtime s et i k" for k
    using i by (auto simp: vtime_def s'_def set_h_idx_def nth_list_update)
  then have "heap_ordered s'"
    using ord by (simp add: heap_ordered_def) (simp add: s'_def set_h_idx_def)
  moreover have "put_at s i et = Some s'" "same_timers s et s'" "hidx s' et = i"
    using i by (auto simp: put_at_def s'_def set_h_idx_def same_timers_def)
  ultimately show ?thesis using i by blast
qed

lemma basic_et_adjust_ok:
  assumes "hole s et i" "up_inv s et i"
  shows "\<exists>s' i'. basic_et_adjust s et i = Some (s', i') \<and> linked s' \<and> heap_ordered s' \<and>
     same_timers s et s' \<and> hidx s' et = i' \<and> 1 \<le> i'"
proof -
  obtain s1 i1 where 1: "adjust_up s et i = Some (s1, i1)" "hole s1 et i1" "down_inv s1 et i1"
    "same_timers s et s1"
    using adjust_up_ok [OF assms] by blast
  obtain s2 i2 where 2: "adjust_down s1 et i1 = Some (s2, i2)" "hole s2 et i2" "same_timers s1 et s2"
    "\<forall>k. 2 \<le> k \<and> k \<le> et_heap_size s1 \<longrightarrow> vtime s2 et i2 (k div 2) \<le> vtime s2 et i2 k"
    using adjust_down_ok [OF 1(2,3)] by blast
  have "et_heap_size s2 = et_heap_size s1" using 2(3) by (simp add: same_timers_def)
  then obtain s3 where 3: "put_at s2 i2 et = Some s3" "linked s3" "heap_ordered s3"
    "same_timers s2 et s3" "hidx s3 et = i2" "1 \<le> i2"
    using put_at_fills_hole [OF 2(2)] 2(4) by auto
  have "same_timers s et s3"
    using 1(4) 2(3) 3(4) by (blast intro: same_timers_trans)
  with 1 2 3 show ?thesis by (auto simp: basic_et_adjust_def)
qed

lemma alloc_et_heap_inv [simp]: "timers_inv s \<Longrightarrow> alloc_et_heap s = s"
  by (auto simp: alloc_et_heap_def timers_inv_def linked_def)

lemma timers_inv_init [simp]:
  "et_heap_size s = 0 \<Longrightarrow> et_heap s = [] \<Longrightarrow> \<forall>p. hidx s p = 0 \<Longrightarrow> timers_inv (alloc_et_heap s)"
  by (simp add: timers_inv_def linked_def heap_ordered_def alloc_et_heap_def MAX_EVENT_TIMERS_def)

lemma linked_slot:
  "linked s \<Longrightarrow> 1 \<le> k \<Longrightarrow> k \<le> et_heap_size s \<Longrightarrow>
     \<exists>p. et_heap s ! k = Some p \<and> hidx s p = k \<and> et_at s k = Some p"
  by (auto simp: linked_def et_at_eq)

lemma linked_hidx:
  "linked s \<Longrightarrow> hidx s p \<noteq> 0 \<Longrightarrow>
     hidx s p \<le> et_heap_size s \<and> et_heap s ! hidx s p = Some p \<and> et_at s (hidx s p) = Some p"
  unfolding linked_def et_at_eq by (meson le_less_trans)

text \<open>
  Where the loops start: the array is ordered but for the slot \<open>i\<close>, whose timer may have
  changed its time or be new there.
\<close>

lemma up_inv_start:
  assumes ord: "heap_ordered s"
    and vt: "\<And>k. 1 \<le> k \<Longrightarrow> k \<le> et_heap_size s1 \<Longrightarrow> k \<noteq> i \<Longrightarrow>
       k \<le> et_heap_size s \<and> vtime s1 et i k = slot_time s k"
  shows "up_inv s1 et i"
  unfolding up_inv_def
proof (intro conjI allI impI)
  fix k assume k: "2 \<le> k \<and> k \<le> et_heap_size s1 \<and> k \<noteq> i \<and> k div 2 \<noteq> i"
  then have "k \<le> et_heap_size s" using vt [of k] by simp
  with ord k have "slot_time s (k div 2) \<le> slot_time s k" by (simp add: heap_ordered_def)
  moreover have "1 \<le> k div 2" "k div 2 \<le> et_heap_size s1" using k by auto
  ultimately show "vtime s1 et i (k div 2) \<le> vtime s1 et i k"
    using vt [of k] vt [of "k div 2"] k by simp
next
  fix k assume k: "2 \<le> i \<and> k \<le> et_heap_size s1 \<and> k div 2 = i"
  define g where "g = i div 2"
  from k have neq: "2 \<le> k" "k \<noteq> i" "1 \<le> g" "g \<le> et_heap_size s1" "g \<noteq> i" by (auto simp: g_def)
  then have "k \<le> et_heap_size s" "i \<le> et_heap_size s" using vt [of k] k by auto
  with ord k neq have "slot_time s g \<le> slot_time s i" "slot_time s i \<le> slot_time s k"
    unfolding heap_ordered_def g_def by (blast, metis)
  then show "vtime s1 et i (i div 2) \<le> vtime s1 et i k"
    using vt [of k] vt [of g] k neq by (simp add: g_def [symmetric])
qed

section \<open>Correctness of the operations\<close>

lemma insert_event_timer_ok:
  assumes inv: "timers_inv s" and room: "hidx s et \<noteq> 0 \<or> et_heap_size s + 1 < MAX_EVENT_TIMERS"
  shows "\<exists>s' i. insert_event_timer (set_wakeup_time s et t) et = Some (s', i) \<and> timers_inv s' \<and>
     hidx s' et = i \<and> armed s' = insert et (armed s) \<and> wtime s' et = t \<and>
     (\<forall>p. p \<noteq> et \<longrightarrow> wtime s' p = wtime s p)"
proof -
  have lnk: "linked s" and ord: "heap_ordered s" and len: "length (et_heap s) = MAX_EVENT_TIMERS"
    using inv by (auto simp: timers_inv_def)
  define n where "n = (if hidx s et \<noteq> 0 then et_heap_size s else et_heap_size s + 1)"
  define i where "i = (if hidx s et \<noteq> 0 then hidx s et else et_heap_size s + 1)"
  define s1 where "s1 = (set_wakeup_time s et t)
    \<lparr>event_timer_insert_ops := event_timer_insert_ops s + 1,
     total_timers := (if hidx s et \<noteq> 0 then total_timers s else total_timers s + 1),
     et_heap_size := n\<rparr>"
  have heap1: "et_heap s1 = et_heap s" "et_heap_size s1 = n" "hidx s1 p = hidx s p"
    "wtime s1 p = (if p = et then t else wtime s p)" for p
    by (auto simp: s1_def set_wakeup_time_def)
  have ins: "insert_event_timer (set_wakeup_time s et t) et = basic_et_adjust s1 et i"
  proof (cases "hidx s et = 0")
    case True
    have "et_heap s \<noteq> []" using lnk by (auto simp: linked_def)
    with True room show ?thesis
      by (simp add: insert_event_timer_def alloc_et_heap_def s1_def i_def n_def set_wakeup_time_def Let_def)
  next
    case False
    have "et_heap s \<noteq> []" using lnk by (auto simp: linked_def)
    with False linked_hidx [OF lnk False] show ?thesis
      by (simp add: insert_event_timer_def alloc_et_heap_def s1_def i_def n_def set_wakeup_time_def
          Let_def et_at_def)
  qed
  have h: "hole s1 et i"
    unfolding hole_def heap1
  proof (intro conjI allI impI)
    fix k assume k: "1 \<le> k \<and> k \<le> n \<and> k \<noteq> i"
    then have "k \<le> et_heap_size s" by (auto simp: n_def i_def split: if_splits)
    with k linked_slot [OF lnk] obtain p where "et_heap s ! k = Some p" "hidx s p = k" by blast
    with k show "\<exists>p. et_heap s ! k = Some p \<and> hidx s p = k \<and> p \<noteq> et"
      by (auto simp: i_def split: if_splits)
  next
    fix p assume p: "p \<noteq> et \<and> hidx s p \<noteq> 0"
    with linked_hidx [OF lnk, of p] linked_hidx [OF lnk, of et]
    show "hidx s p \<le> n" "hidx s p \<noteq> i" "et_heap s ! hidx s p = Some p"
      by (auto simp: n_def i_def)
  qed (use room lnk len linked_hidx [OF lnk, of et] in \<open>auto simp: n_def i_def linked_def\<close>)
  have vt: "vtime s1 et i k = slot_time s k" if "1 \<le> k" "k \<le> n" "k \<noteq> i" for k
    using that h heap1 by (auto simp: vtime_def hole_def)
  have "up_inv s1 et i"
    using vt by (intro up_inv_start [OF ord]) (auto simp: heap1 n_def i_def split: if_splits)
  from basic_et_adjust_ok [OF h this] obtain s' i' where
    r: "basic_et_adjust s1 et i = Some (s', i')" "linked s'" "heap_ordered s'" "hidx s' et = i'"
      "1 \<le> i'" and same: "same_timers s1 et s'"
    by blast
  have "timers_inv s'" using r same len by (simp add: timers_inv_def same_timers_def heap1)
  moreover have "hidx s' p = 0 \<longleftrightarrow> p \<noteq> et \<and> hidx s p = 0" for p
    using same r(4,5) by (cases "p = et") (auto simp: same_timers_def heap1)
  then have "armed s' = insert et (armed s)" by (simp add: armed_def set_eq_iff)
  moreover have "wtime s' p = (if p = et then t else wtime s p)" for p
    using same by (auto simp: same_timers_def heap1)
  moreover have "insert_event_timer (set_wakeup_time s et t) et = Some (s', i')"
    using ins r(1) by simp
  ultimately show ?thesis using r(4) by (intro exI [of _ s'] exI [of _ i']) simp
qed


text \<open>The state in which \<^verbatim>\<open>remove_event_timer\<close> has taken \<open>et\<close> out but not yet refilled its slot.\<close>

definition unlinked :: "timers_state \<Rightarrow> timer \<Rightarrow> timers_state" where
  "unlinked s et = (set_h_idx (s\<lparr>total_timers := total_timers s - 1,
     event_timer_remove_ops := event_timer_remove_ops s + 1\<rparr>) et 0)\<lparr>et_heap_size := et_heap_size s - 1\<rparr>"

lemma unlinked_fields [simp]:
  "et_heap (unlinked s et) = et_heap s" "et_heap_size (unlinked s et) = et_heap_size s - 1"
  "hidx (unlinked s et) p = (if p = et then 0 else hidx s p)" "wtime (unlinked s et) p = wtime s p"
  by (auto simp: unlinked_def set_h_idx_def)

lemma remove_event_timer_eq:
  assumes "timers_inv s" "hidx s et \<noteq> 0"
  shows "remove_event_timer s et =
     (if et_heap_size s - 1 < hidx s et then Some (unlinked s et, 1)
      else do { (s', _) \<leftarrow> basic_et_adjust (unlinked s et) (the (et_heap s ! et_heap_size s)) (hidx s et);
                Some (s', 1) })"
proof -
  have lnk: "linked s" using assms(1) by (simp add: timers_inv_def)
  note et = linked_hidx [OF lnk assms(2)]
  obtain l where "et_heap s ! et_heap_size s = Some l" "et_at s (et_heap_size s) = Some l"
    using linked_slot [OF lnk, of "et_heap_size s"] et assms(2) by auto
  with assms et show ?thesis
    by (simp add: remove_event_timer_def Let_def unlinked_def set_h_idx_def)
qed

lemma unlinked_last:
  assumes lnk: "linked s" and ord: "heap_ordered s" and i: "hidx s et = et_heap_size s" "hidx s et \<noteq> 0"
  shows "linked (unlinked s et)" "heap_ordered (unlinked s et)"
proof -
  show "linked (unlinked s et)"
    unfolding linked_def unlinked_fields
  proof (intro conjI allI impI)
    fix k assume k: "1 \<le> k \<and> k \<le> et_heap_size s - 1"
    then have "1 \<le> k" "k \<le> et_heap_size s" by auto
    with linked_slot [OF lnk] obtain p where "et_heap s ! k = Some p" "hidx s p = k" by blast
    with k i show "\<exists>p. et_heap s ! k = Some p \<and> (if p = et then 0 else hidx s p) = k" by auto
  next
    fix p assume "(if p = et then 0 else hidx s p) \<noteq> 0"
    then have p: "p \<noteq> et" "hidx s p \<noteq> 0" by (auto split: if_splits)
    note l = linked_hidx [OF lnk p(2)] linked_hidx [OF lnk i(2)]
    with p i have "hidx s p \<noteq> et_heap_size s" by auto
    with l p show "(if p = et then 0 else hidx s p) \<le> et_heap_size s - 1"
      "et_heap s ! (if p = et then 0 else hidx s p) = Some p" by auto
  qed (use lnk in \<open>auto simp: linked_def\<close>)
  show "heap_ordered (unlinked s et)"
    using ord unfolding heap_ordered_def unlinked_fields by (meson diff_le_self le_trans)
qed

lemma unlinked_hole:
  assumes lnk: "linked s" and i: "hidx s et \<noteq> 0" "hidx s et < et_heap_size s"
    and l: "et_heap s ! et_heap_size s = Some l"
  shows "hole (unlinked s et) l (hidx s et)"
  unfolding hole_def unlinked_fields
proof (intro conjI allI impI)
  have ll: "hidx s l = et_heap_size s" using linked_slot [OF lnk, of "et_heap_size s"] i l by auto
  {
    fix k assume k: "1 \<le> k \<and> k \<le> et_heap_size s - 1 \<and> k \<noteq> hidx s et"
    then have "1 \<le> k" "k \<le> et_heap_size s" by auto
    with linked_slot [OF lnk] obtain p where "et_heap s ! k = Some p" "hidx s p = k" by blast
    with k i ll show "\<exists>p. et_heap s ! k = Some p \<and> (if p = et then 0 else hidx s p) = k \<and> p \<noteq> l"
      by auto
  next
    fix p assume "p \<noteq> l \<and> (if p = et then 0 else hidx s p) \<noteq> 0"
    then have p: "p \<noteq> et" "hidx s p \<noteq> 0" "p \<noteq> l" by (auto split: if_splits)
    note h = linked_hidx [OF lnk p(2)] linked_hidx [OF lnk i(1)]
    with p l have "hidx s p \<noteq> et_heap_size s" "hidx s p \<noteq> hidx s et" by auto
    with h p show "(if p = et then 0 else hidx s p) \<le> et_heap_size s - 1"
      "(if p = et then 0 else hidx s p) \<noteq> hidx s et"
      "et_heap s ! (if p = et then 0 else hidx s p) = Some p" by auto
  }
qed (use lnk i in \<open>auto simp: linked_def\<close>)

lemma remove_event_timer_ok:
  assumes inv: "timers_inv s"
  shows "\<exists>s'. remove_event_timer s et = Some (s', if et \<in> armed s then 1 else 0) \<and> timers_inv s' \<and>
     armed s' = armed s - {et} \<and> (\<forall>p. wtime s' p = wtime s p)"
proof (cases "hidx s et = 0")
  case True
  then show ?thesis using inv by (auto simp: remove_event_timer_def Let_def armed_def)
next
  case False
  have lnk: "linked s" and ord: "heap_ordered s" and len: "length (et_heap s) = MAX_EVENT_TIMERS"
    using inv by (auto simp: timers_inv_def)
  have fin: ?thesis if r: "remove_event_timer s et = Some (s', 1)" "linked s'" "heap_ordered s'"
    "length (et_heap s') = length (et_heap s)" "\<And>p. wtime s' p = wtime s p"
    "\<And>p. hidx s' p = 0 \<longleftrightarrow> p = et \<or> hidx s p = 0" for s'
  proof -
    have "armed s' = armed s - {et}" using r(6) by (auto simp: armed_def set_eq_iff simp flip: neq0_conv)
    moreover have "timers_inv s'" using r len by (simp add: timers_inv_def)
    moreover have "et \<in> armed s" using False by (simp add: armed_def)
    ultimately show ?thesis using r(1,5) by (intro exI [of _ s']) simp
  qed
  show ?thesis
  proof (cases "et_heap_size s - 1 < hidx s et")
    case True
    with linked_hidx [OF lnk False] have "hidx s et = et_heap_size s" by linarith
    with unlinked_last [OF lnk ord] remove_event_timer_eq [OF inv False] True False
    show ?thesis by (intro fin [of "unlinked s et"]) auto
  next
    case lt: False
    have "1 \<le> et_heap_size s" using linked_hidx [OF lnk False] False by linarith
    then obtain l where l: "et_heap s ! et_heap_size s = Some l" "hidx s l = et_heap_size s"
      using linked_slot [OF lnk] by blast
    have "hole (unlinked s et) l (hidx s et)"
      using lt False l by (intro unlinked_hole [OF lnk]) auto
    moreover have "up_inv (unlinked s et) l (hidx s et)"
      by (rule up_inv_start [OF ord]) (auto simp: vtime_def)
    ultimately obtain s' i' where r: "basic_et_adjust (unlinked s et) l (hidx s et) = Some (s', i')"
      "linked s'" "heap_ordered s'" "same_timers (unlinked s et) l s'" "hidx s' l = i'" "1 \<le> i'"
      using basic_et_adjust_ok by blast
    have "hidx s' p = 0 \<longleftrightarrow> p = et \<or> hidx s p = 0" for p
      using r(4-6) l lt False by (cases "p = l") (auto simp: same_timers_def)
    with r remove_event_timer_eq [OF inv False] lt l show ?thesis
      by (intro fin [of s']) (auto simp: same_timers_def)
  qed
qed

text \<open>The root of the heap is a timer with the least wakeup time.\<close>

lemma root_le_slot:
  assumes "heap_ordered s" "1 \<le> k" "k \<le> et_heap_size s"
  shows "slot_time s 1 \<le> slot_time s k"
  using assms(2,3)
proof (induction k rule: less_induct)
  case (less k)
  show ?case
  proof (cases "k = 1")
    case False
    with less.prems have "1 \<le> k div 2" "k div 2 < k" "k div 2 \<le> et_heap_size s" by auto
    then have "slot_time s 1 \<le> slot_time s (k div 2)" by (intro less.IH)
    also have "\<dots> \<le> slot_time s k" using assms(1) less.prems False by (simp add: heap_ordered_def)
    finally show ?thesis .
  qed simp
qed

lemma first_timer:
  assumes inv: "timers_inv s" and ne: "et_heap_size s \<noteq> 0"
  obtains p where "et_at s 1 = Some p" "hidx s p = 1" "p \<in> armed s"
    "\<And>q. q \<in> armed s \<Longrightarrow> wtime s p \<le> wtime s q"
proof -
  have lnk: "linked s" and ord: "heap_ordered s" using inv by (auto simp: timers_inv_def)
  obtain p where p: "et_heap s ! 1 = Some p" "hidx s p = 1" "et_at s 1 = Some p"
    using linked_slot [OF lnk, of 1] ne by auto
  have "wtime s p \<le> wtime s q" if "q \<in> armed s" for q
    using root_le_slot [OF ord, of "hidx s q"] linked_hidx [OF lnk, of q] that p
    by (auto simp: armed_def)
  with p show thesis using that [of p] by (auto simp: armed_def)
qed

lemma size_0_armed: "timers_inv s \<Longrightarrow> et_heap_size s = 0 \<longleftrightarrow> armed s = {}"
  by (metis (mono_tags, lifting) armed_def empty_Collect_eq empty_iff first_timer le_zero_eq linked_hidx
      timers_inv_def)

lemma finite_armed: "timers_inv s \<Longrightarrow> finite (armed s)"
proof -
  assume inv: "timers_inv s"
  have "armed s \<subseteq> (\<lambda>k. the (et_heap s ! k)) ` {..et_heap_size s}"
  proof
    fix p assume "p \<in> armed s"
    then have "hidx s p \<le> et_heap_size s" "et_heap s ! hidx s p = Some p"
      using linked_hidx [of s p] inv by (auto simp: armed_def timers_inv_def)
    then show "p \<in> (\<lambda>k. the (et_heap s ! k)) ` {..et_heap_size s}"
      by (intro image_eqI [of _ _ "hidx s p"]) auto
  qed
  then show ?thesis by (rule finite_subset) simp
qed

text \<open>
  The interface the rest of the code uses: a set of armed timers with their times, from which
  the earliest can be read.
\<close>

locale timer_queue =
  fixes invar :: "'q \<Rightarrow> bool" and active :: "'q \<Rightarrow> 'p set" and time_of :: "'q \<Rightarrow> 'p \<Rightarrow> rat"
    and full :: "'q \<Rightarrow> bool"
    and arm :: "'q \<Rightarrow> 'p \<Rightarrow> rat \<Rightarrow> 'q option" and disarm :: "'q \<Rightarrow> 'p \<Rightarrow> 'q option"
    and first_time :: "'q \<Rightarrow> rat option"
  assumes fin: "invar q \<Longrightarrow> finite (active q)"
    and arm: "invar q \<Longrightarrow> p \<in> active q \<or> \<not> full q \<Longrightarrow>
      \<exists>q'. arm q p t = Some q' \<and> invar q' \<and> active q' = insert p (active q) \<and>
        time_of q' p = t \<and> (\<forall>r. r \<noteq> p \<longrightarrow> time_of q' r = time_of q r)"
    and disarm: "invar q \<Longrightarrow> \<exists>q'. disarm q p = Some q' \<and> invar q' \<and> active q' = active q - {p} \<and>
        (\<forall>r. time_of q' r = time_of q r)"
    and first: "invar q \<Longrightarrow> first_time q =
        Some (if active q = {} then 0 else Min (time_of q ` active q))"
begin

lemma arm_then_disarm:
  assumes "invar q" "\<not> full q" "p \<notin> active q"
  shows "\<exists>q1 q2. arm q p t = Some q1 \<and> disarm q1 p = Some q2 \<and> invar q2 \<and> active q2 = active q"
proof -
  obtain q1 where "arm q p t = Some q1" "invar q1" "active q1 = insert p (active q)"
    using arm [OF assms(1)] assms(2) by blast
  moreover obtain q2 where "disarm q1 p = Some q2" "invar q2" "active q2 = active q1 - {p}"
    using disarm [OF \<open>invar q1\<close>] by blast
  ultimately show ?thesis using assms(3) by auto
qed

lemma first_time_le:
  assumes "invar q" "p \<in> active q" "first_time q = Some t"
  shows "t \<le> time_of q p"
  using first [OF assms(1)] fin [OF assms(1)] assms(2,3) by auto

text \<open>Re-arming with an earlier time than every other makes the timer the first.\<close>

lemma arm_first:
  assumes "invar q" "p \<in> active q \<or> \<not> full q" "\<forall>r\<in>active q. t \<le> time_of q r"
  shows "\<exists>q'. arm q p t = Some q' \<and> first_time q' = Some t"
proof -
  obtain q' where q': "arm q p t = Some q'" "invar q'" "active q' = insert p (active q)"
    "time_of q' p = t" "\<forall>r. r \<noteq> p \<longrightarrow> time_of q' r = time_of q r"
    using arm [OF assms(1,2)] by blast
  have "Min (time_of q' ` active q') = t"
  proof (rule Min_eqI)
    show "finite (time_of q' ` active q')" using fin [OF q'(2)] by simp
    show "t \<in> time_of q' ` active q'" using q'(3,4) by auto
    fix y assume "y \<in> time_of q' ` active q'"
    then obtain r where "r \<in> active q'" "y = time_of q' r" by auto
    then show "t \<le> y" using q'(3,4,5) assms(3) by (cases "r = p") auto
  qed
  then show ?thesis using q' first [OF q'(2)] by auto
qed

end

interpretation timers: timer_queue timers_inv armed "\<lambda>s p. wtime s p"
  "\<lambda>s. MAX_EVENT_TIMERS \<le> et_heap_size s + 1"
  "\<lambda>s p t. map_option fst (insert_event_timer (set_wakeup_time s p t) p)"
  "\<lambda>s p. map_option fst (remove_event_timer s p)" timers_get_first
proof unfold_locales
  fix q :: timers_state and p t
  assume inv: "timers_inv q"
  show "finite (armed q)" by (rule finite_armed [OF inv])
  show "\<exists>q'. map_option fst (remove_event_timer q p) = Some q' \<and> timers_inv q' \<and>
     armed q' = armed q - {p} \<and> (\<forall>r. wtime q' r = wtime q r)"
    using remove_event_timer_ok [OF inv, of p] by auto
  show "timers_get_first q = Some (if armed q = {} then 0 else Min (wtime q ` armed q))"
  proof (cases "et_heap_size q = 0")
    case True
    then show ?thesis using size_0_armed [OF inv] by (simp add: timers_get_first_def)
  next
    case False
    obtain r where r: "et_at q 1 = Some r" "r \<in> armed q" "\<And>x. x \<in> armed q \<Longrightarrow> wtime q r \<le> wtime q x"
      using first_timer [OF inv False] by metis
    then have "Min (wtime q ` armed q) = wtime q r"
      using finite_armed [OF inv] by (intro Min_eqI) auto
    with r False show ?thesis by (auto simp: timers_get_first_def)
  qed
  assume "p \<in> armed q \<or> \<not> MAX_EVENT_TIMERS \<le> et_heap_size q + 1"
  then show "\<exists>q'. map_option fst (insert_event_timer (set_wakeup_time q p t) p) = Some q' \<and>
     timers_inv q' \<and> armed q' = insert p (armed q) \<and> wtime q' p = t \<and>
     (\<forall>r. r \<noteq> p \<longrightarrow> wtime q' r = wtime q r)"
    using insert_event_timer_ok [OF inv, of p t] by (force simp: armed_def)
qed

section \<open>Running the timers that are due\<close>

definition due :: "rat \<Rightarrow> timers_state \<Rightarrow> timer set" where
  "due now s = {p \<in> armed s. wtime s p \<le> now}"

lemma timers_inv_alarms [simp]: "timers_inv (s\<lparr>event_timer_alarms := a\<rparr>) = timers_inv s"
  by (simp add: timers_inv_def linked_def heap_ordered_def)

lemma due_alarms [simp]: "due now (s\<lparr>event_timer_alarms := a\<rparr>) = due now s"
  by (simp add: due_def armed_def)

lemma finite_due [simp]: "timers_inv s \<Longrightarrow> finite (due now s)"
  by (simp add: due_def finite_armed)

lemma run_due_timers_ok:
  assumes wk: "\<And>p s. timers_inv s \<Longrightarrow>
      \<exists>s'. wakeup p s = Some s' \<and> timers_inv s' \<and> due now s' \<subseteq> due now s"
    and inv: "timers_inv s"
  shows "\<exists>s'. run_due_timers wakeup now s = Some s' \<and> timers_inv s' \<and> due now s' = {}"
  using inv
proof (induction "card (due now s)" arbitrary: s rule: less_induct)
  case less
  show ?case
  proof (cases "et_heap_size s = 0")
    case True
    then have "due now s = {}" using size_0_armed [OF less.prems] by (simp add: due_def)
    with True less.prems show ?thesis by (subst run_due_timers.simps) simp
  next
    case False
    obtain p where p: "et_at s 1 = Some p" "hidx s p = 1" "p \<in> armed s"
      and least: "\<And>q. q \<in> armed s \<Longrightarrow> wtime s p \<le> wtime s q"
      using first_timer [OF less.prems False] by metis
    show ?thesis
    proof (cases "wtime s p \<le> now")
      case due: True
      obtain s1 r where s1: "remove_event_timer s p = Some (s1, r)" "timers_inv s1"
        "armed s1 = armed s - {p}" "\<forall>q. wtime s1 q = wtime s q"
        using remove_event_timer_ok [OF less.prems, of p] by blast
      obtain s2 where s2: "wakeup p s1 = Some s2" "timers_inv s2" "due now s2 \<subseteq> due now s1"
        using wk [OF s1(2)] by blast
      let ?s3 = "s2\<lparr>event_timer_alarms := event_timer_alarms s2 + 1\<rparr>"
      have "due now s2 \<subseteq> due now s - {p}" using s1 s2 by (auto simp: due_def)
      moreover have "p \<in> due now s" using p due by (simp add: due_def)
      ultimately have "card (due now ?s3) < card (due now s)"
        using psubset_card_mono [OF finite_due [OF less.prems], of "due now s2" now] by auto
      then obtain s' where "run_due_timers wakeup now ?s3 = Some s'" "timers_inv s'" "due now s' = {}"
        using less.hyps [of ?s3] s2 by auto
      with p due s1 s2 False show ?thesis by (subst run_due_timers.simps) simp
    next
      case nd: False
      then have "due now s = {}" using least by (force simp: due_def)
      with p nd False less.prems show ?thesis by (subst run_due_timers.simps) simp
    qed
  qed
qed

lemma no_due_first:
  assumes "timers_inv s" "due now s = {}" "et_heap_size s \<noteq> 0"
  obtains p where "et_at s 1 = Some p" "now < wtime s p" "Min (wtime s ` armed s) = wtime s p"
proof -
  obtain p where p: "et_at s 1 = Some p" "p \<in> armed s" "\<And>q. q \<in> armed s \<Longrightarrow> wtime s p \<le> wtime s q"
    using first_timer [OF assms(1,3)] by metis
  then have "Min (wtime s ` armed s) = wtime s p"
    using finite_armed [OF assms(1)] by (intro Min_eqI) auto
  moreover have "now < wtime s p" using assms(2) p(2) by (auto simp: due_def)
  ultimately show thesis using that p by blast
qed

section \<open>Properties\<close>

text \<open>
  C25. Arming a timer at time \<open>t\<close> (a new one while the array has room, or one already armed whose
  wakeup time the caller has just changed) succeeds, keeps the heap invariant, arms exactly
  that timer in addition, returns its position, and leaves all other wakeup times unchanged.
\<close>

theorem insert_event_timer_correct:
  assumes "timers_inv s" "et \<in> armed s \<or> et_heap_size s + 1 < MAX_EVENT_TIMERS"
  shows "\<exists>s' i. insert_event_timer (set_wakeup_time s et t) et = Some (s', i) \<and> timers_inv s' \<and>
     hidx s' et = i \<and> armed s' = insert et (armed s) \<and> wtime s' et = t \<and>
     (\<forall>p. p \<noteq> et \<longrightarrow> wtime s' p = wtime s p)"
  using assms by (intro insert_event_timer_ok) (auto simp: armed_def)

text \<open>
  C37. Removing a timer never fails: the result is 1 if it was armed and 0 otherwise, exactly
  that timer is disarmed, the heap invariant and all wakeup times are kept.
\<close>

theorem remove_event_timer_correct:
  assumes "timers_inv s"
  shows "\<exists>s'. remove_event_timer s et = Some (s', if et \<in> armed s then 1 else 0) \<and> timers_inv s' \<and>
     armed s' = armed s - {et} \<and> (\<forall>p. wtime s' p = wtime s p)"
  using assms by (rule remove_event_timer_ok)

text \<open>
  C31. If the wakeup callbacks keep the heap invariant and arm no timer that is already due,
  \<^verbatim>\<open>thread_run_timers\<close> returns without reaching its \<^verbatim>\<open>assert (0)\<close>; afterwards no armed timer is
  due, and the result is the time in milliseconds until the earliest remaining timer (100000
  when there is none).
\<close>

theorem thread_run_timers_correct:
  assumes "timers_inv s"
    and wk: "\<And>p s. timers_inv s \<Longrightarrow>
      \<exists>s'. wakeup p s = Some s' \<and> timers_inv s' \<and> due now s' \<subseteq> due now s"
  shows "\<exists>s'. thread_run_timers wakeup now s =
       Some (s', if armed s' = {} then 100000 else wait_ms (Min (wtime s' ` armed s') - now)) \<and>
     timers_inv s' \<and> (\<forall>p\<in>armed s'. now < wtime s' p)"
proof -
  have ret: "(if et_heap_size s' = 0 then Some (s', 100000) else do {
       et \<leftarrow> et_at s' 1; cassert (wtime s' et - now > 0); Some (s', wait_ms (wtime s' et - now)) }) =
     Some (s', if armed s' = {} then 100000 else wait_ms (Min (wtime s' ` armed s') - now))"
    if inv: "timers_inv s'" and nd: "due now s' = {}" for s'
  proof (cases "et_heap_size s' = 0")
    case True then show ?thesis using size_0_armed [OF inv] by simp
  next
    case False
    obtain p where "et_at s' 1 = Some p" "now < wtime s' p" "Min (wtime s' ` armed s') = wtime s' p"
      using no_due_first [OF inv nd False] by metis
    with False size_0_armed [OF inv] show ?thesis by simp
  qed
  have fin: ?thesis if "thread_run_timers wakeup now s = Some (s',
      if armed s' = {} then 100000 else wait_ms (Min (wtime s' ` armed s') - now))"
    "timers_inv s'" "due now s' = {}" for s'
    using that by (intro exI [of _ s']) (force simp: due_def)
  obtain s1 where s1: "run_due_timers wakeup now s = Some s1" "timers_inv s1" "due now s1 = {}"
    using run_due_timers_ok [of wakeup now s] wk assms(1) by blast
  show ?thesis
  proof (cases "due now s = {}")
    case True
    have "thread_run_timers wakeup now s = (if et_heap_size s = 0 then Some (s, 100000) else do {
       et \<leftarrow> et_at s 1; cassert (wtime s et - now > 0); Some (s, wait_ms (wtime s et - now)) })"
    proof (cases "et_heap_size s = 0")
      case False
      then obtain p where "et_at s 1 = Some p" "now < wtime s p"
        using no_due_first [OF assms(1) True] by metis
      with False assms(1) show ?thesis by (simp add: thread_run_timers_def Let_def)
    qed (use assms(1) in \<open>simp add: thread_run_timers_def Let_def\<close>)
    with ret [OF assms(1) True] True assms(1) show ?thesis by (intro fin [of s]) simp_all
  next
    case False
    then have ne: "et_heap_size s \<noteq> 0" using size_0_armed [OF assms(1)] by (auto simp: due_def)
    obtain p where p: "et_at s 1 = Some p" "\<And>q. q \<in> armed s \<Longrightarrow> wtime s p \<le> wtime s q"
      using first_timer [OF assms(1) ne] by metis
    with False have "wtime s p \<le> now" by (force simp: due_def)
    then have "thread_run_timers wakeup now s = (if et_heap_size s1 = 0 then Some (s1, 100000) else do {
       et \<leftarrow> et_at s1 1; cassert (wtime s1 et - now > 0); Some (s1, wait_ms (wtime s1 et - now)) })"
      using assms(1) ne p s1(1) by (simp add: thread_run_timers_def Let_def)
    with ret [OF s1(2,3)] s1 show ?thesis by (intro fin [of s1]) simp_all
  qed
qed

text \<open>
  Arming one more timer when \<^verbatim>\<open>MAX_EVENT_TIMERS - 1\<close> are armed passes the assertion
  \<^verbatim>\<open>et_heap_size < MAX_EVENT_TIMERS\<close> and then stores outside the array: slots are counted from 1,
  so slot \<^verbatim>\<open>MAX_EVENT_TIMERS\<close> does not exist.
\<close>

theorem insert_event_timer_overflow:
  assumes "timers_inv s" "et_heap_size s = MAX_EVENT_TIMERS - 1" "et \<notin> armed s"
  shows "et_heap_size s < MAX_EVENT_TIMERS \<and> insert_event_timer s et = None"
proof -
  have lt: "et_heap_size s < MAX_EVENT_TIMERS" using assms(2) by (simp add: MAX_EVENT_TIMERS_def)
  define s1 where "s1 = s\<lparr>event_timer_insert_ops := event_timer_insert_ops s + 1,
    total_timers := total_timers s + 1, et_heap_size := et_heap_size s + 1\<rparr>"
  let ?M = "MAX_EVENT_TIMERS"
  have M: "?M > 1" "et_heap_size s1 = ?M" "length (et_heap s1) = ?M"
    using assms by (auto simp: s1_def timers_inv_def MAX_EVENT_TIMERS_def)
  have put: "put_at s1 ?M p = None" for p using M by (simp add: put_at_def)
  have "adjust_up s1 et ?M = Some (s1, ?M) \<or> adjust_up s1 et ?M = None"
    using M(1) put by (subst (1 2) adjust_up.simps) (auto split: bind_splits)
  moreover have "adjust_down s1 et ?M = Some (s1, ?M)"
    using M by (subst adjust_down.simps) simp
  ultimately have "basic_et_adjust s1 et ?M = None"
    using put by (auto simp: basic_et_adjust_def)
  then show ?thesis
    using assms lt M(2) by (simp add: insert_event_timer_def armed_def s1_def Let_def)
qed

text \<open>Concrete states for the witnesses: two armed timers, and a full array.\<close>

definition two_timers :: timers_state where
  "two_timers = \<lparr>et_heap = [None, Some 7, Some 9] @ replicate (MAX_EVENT_TIMERS - 3) None,
     et_heap_size = 2,
     timer_mem = (\<lambda>p. if p = 7 then \<lparr>h_idx = 1, wakeup_time = 3\<rparr>
                      else if p = 9 then \<lparr>h_idx = 2, wakeup_time = 5\<rparr>
                      else \<lparr>h_idx = 0, wakeup_time = 0\<rparr>),
     event_timer_insert_ops = 2, event_timer_remove_ops = 0, event_timer_alarms = 0,
     total_timers = 2\<rparr>"

lemma two_timers_inv: "timers_inv two_timers"
proof -
  have "k = 1 \<or> k = 2" if "Suc 0 \<le> k" "k \<le> 2" for k :: nat using that by auto
  then have all: "(\<forall>k::nat. Suc 0 \<le> k \<and> k \<le> 2 \<longrightarrow> P k) \<longleftrightarrow> P 1 \<and> P 2" for P by auto
  show ?thesis
    by (auto simp: all two_timers_def timers_inv_def linked_def heap_ordered_def MAX_EVENT_TIMERS_def
        split: if_splits)
qed

lemma armed_two_timers: "armed two_timers = {7, 9}"
  by (auto simp: two_timers_def armed_def)

definition full_timers :: timers_state where
  "full_timers = \<lparr>et_heap = map Some [0..<MAX_EVENT_TIMERS], et_heap_size = MAX_EVENT_TIMERS - 1,
     timer_mem = (\<lambda>p. \<lparr>h_idx = (if p < MAX_EVENT_TIMERS then p else 0), wakeup_time = 0\<rparr>),
     event_timer_insert_ops = 0, event_timer_remove_ops = 0, event_timer_alarms = 0,
     total_timers = 0\<rparr>"

lemma full_timers_inv: "timers_inv full_timers"
proof -
  have "k < MAX_EVENT_TIMERS" if "k \<le> MAX_EVENT_TIMERS - 1" for k
    using that by (simp add: MAX_EVENT_TIMERS_def)
  then show ?thesis
    by (auto simp: full_timers_def timers_inv_def linked_def heap_ordered_def MAX_EVENT_TIMERS_def)
qed

theorem insert_event_timer_correct_witness:
  "(7::nat) \<in> {7, 9} \<and> (\<exists>s' i. insert_event_timer (set_wakeup_time two_timers 7 10) 7 = Some (s', i) \<and>
     timers_inv s' \<and> armed s' = {7, 9} \<and> wtime s' 7 = 10)"
  using insert_event_timer_correct [OF two_timers_inv, of 7 10] armed_two_timers by auto

theorem remove_event_timer_correct_witness:
  "\<exists>s'. remove_event_timer two_timers 7 = Some (s', 1) \<and> timers_inv s' \<and> armed s' = {9}"
  using remove_event_timer_correct [OF two_timers_inv, of 7] armed_two_timers by auto

theorem thread_run_timers_correct_witness:
  "\<exists>s' r. thread_run_timers (\<lambda>p s. Some s) 4 two_timers = Some (s', r) \<and> timers_inv s' \<and>
     (\<forall>p\<in>armed s'. 4 < wtime s' p)"
  using thread_run_timers_correct [OF two_timers_inv, of "\<lambda>p s. Some s" 4] by auto

theorem insert_event_timer_overflow_witness:
  "insert_event_timer full_timers (MAX_EVENT_TIMERS + 1) = None"
  using insert_event_timer_overflow [OF full_timers_inv, of "MAX_EVENT_TIMERS + 1"]
  by (simp add: full_timers_def armed_def)

end
