(* ===== verification/TlsBuffers.thy ===== *)
theory TlsBuffers
  imports Prelude
begin

text \<open>
  Checked accesses to the byte buffers in which \<^verbatim>\<open>net/net-tcp-rpc-ext-server.c\<close> builds and parses TLS
  messages. Every read goes through \<open>aget\<close>, \<open>mem_is\<close> or \<open>mem_get\<close> and every write is checked
  against the buffer's length, so that an access outside a buffer is \<open>None\<close>.
\<close>

section \<open>Buffers\<close>

definition mem_is :: "bytes \<Rightarrow> nat \<Rightarrow> bytes \<Rightarrow> bool option" where
  "mem_is buf pos str =
     (if pos + length str \<le> length buf then Some (take (length str) (drop pos buf) = str) else None)"

definition mem_copy :: "bytes \<Rightarrow> nat \<Rightarrow> bytes \<Rightarrow> bytes option" where
  "mem_copy buf pos data =
     (if pos + length data \<le> length buf then Some (take pos buf @ data @ drop (pos + length data) buf)
      else None)"

definition mem_get :: "bytes \<Rightarrow> nat \<Rightarrow> nat \<Rightarrow> bytes option" where
  "mem_get buf pos n = (if pos + n \<le> length buf then Some (take n (drop pos buf)) else None)"

definition byte :: "nat \<Rightarrow> u8" where
  "byte n = word_of_nat n"

definition read_length :: "bytes \<Rightarrow> nat \<Rightarrow> (nat \<times> nat) option" where
  "read_length response pos = do {
     a \<leftarrow> aget response pos;
     b \<leftarrow> aget response (pos + 1);
     Some (unat a * 256 + unat b, pos + 2) }"

definition u16_at :: "bytes \<Rightarrow> nat \<Rightarrow> nat" where
  "u16_at r pos = unat (r ! pos) * 256 + unat (r ! Suc pos)"

lemma read_length_in [simp]: "pos + 2 \<le> length r \<Longrightarrow> read_length r pos = Some (u16_at r pos, pos + 2)"
  by (simp add: read_length_def u16_at_def)

lemma u16_at_less: "u16_at r pos < 65536"
  using unat_u8_less [of "r ! pos"] unat_u8_less [of "r ! Suc pos"] by (simp add: u16_at_def del: unat_u8_less)

lemma u16_two_bytes: "n < 65536 \<Longrightarrow> unat (byte (n div 256)) * 256 + unat (byte (n mod 256)) = n"
  by (simp add: byte_def unat_of_nat div_mult_mod_eq)

end
