(* ===== verification/Domains.thy ===== *)
theory Domains
  imports TlsBuffers
begin

text \<open>
  The proxied domains of \<^verbatim>\<open>net/net-tcp-rpc-ext-server.c\<close>: the hash table of domains, what probing a
  domain records about its server, and the extraction of the server name from an incoming
  ClientHello (\<open>get_sni_domain_info\<close>).
\<close>

section \<open>The table of proxied domains\<close>

type_synonym dom_addr = nat

record domain_info =
  di_domain :: bytes
  di_target :: u32
  di_target_ipv6 :: bytes
  di_server_hello_encrypted_size :: u16
  di_use_random_encrypted_size :: bool
  di_is_reversed_extension_order :: bool
  di_next :: "dom_addr option"

record dom_state =
  dom_mem :: "dom_addr \<rightharpoonup> domain_info"
  domains :: "nat \<Rightarrow> dom_addr option"
  default_domain_info :: "dom_addr option"
  allow_only_tls :: bool
  dom_fresh :: dom_addr

definition dom_empty :: dom_state where
  "dom_empty = \<lparr>dom_mem = Map.empty, domains = (\<lambda>_. None), default_domain_info = None,
     allow_only_tls = False, dom_fresh = 0\<rparr>"

definition DOMAIN_HASH_MOD :: nat where
  "DOMAIN_HASH_MOD = 257"

definition get_domain_info_bucket :: "bytes \<Rightarrow> nat" where
  "get_domain_info_bucket domain =
     unat (foldl (\<lambda>hash c. hash * 239017 + ucast c) (0 :: u32) domain mod word_of_nat DOMAIN_HASH_MOD)"

partial_function (option) search_domain :: "dom_state \<Rightarrow> bytes \<Rightarrow> dom_addr option \<Rightarrow> dom_addr option option" where
  "search_domain s domain info =
     (case info of
        None \<Rightarrow> Some None
      | Some a \<Rightarrow> do {
          e \<leftarrow> dom_mem s a;
          if length (di_domain e) = length domain \<and> domain = di_domain e then Some (Some a)
          else search_domain s domain (di_next e) })"

definition get_domain_info :: "dom_state \<Rightarrow> bytes \<Rightarrow> dom_addr option option" where
  "get_domain_info s domain = search_domain s domain (domains s (get_domain_info_bucket domain))"

definition tcp_rpc_add_proxy_domain :: "dom_state \<Rightarrow> bytes \<Rightarrow> dom_state" where
  "tcp_rpc_add_proxy_domain s domain = (
     let info = dom_fresh s;
         b = get_domain_info_bucket domain;
         e = \<lparr>di_domain = domain, di_target = 0, di_target_ipv6 = replicate 16 0,
              di_server_hello_encrypted_size = 0, di_use_random_encrypted_size = False,
              di_is_reversed_extension_order = False, di_next = domains s b\<rparr>;
         s = s\<lparr>dom_fresh := info + 1, dom_mem := (dom_mem s)(info \<mapsto> e),
               domains := (domains s)(b := Some info)\<rparr>
     in if \<not> allow_only_tls s then s\<lparr>allow_only_tls := True, default_domain_info := Some info\<rparr> else s)"

text \<open>\<open>r\<close> is the result of \<^verbatim>\<open>rand ()\<close>; the size is a C \<^verbatim>\<open>short\<close>.\<close>

definition get_domain_server_hello_encrypted_size :: "domain_info \<Rightarrow> nat \<Rightarrow> int" where
  "get_domain_server_hello_encrypted_size info r =
     (if di_use_random_encrypted_size info
      then sint (di_server_hello_encrypted_size info) + int (drop_bit 1 r AND 1) - int (r AND 1)
      else sint (di_server_hello_encrypted_size info))"

text \<open>
  What \<^verbatim>\<open>update_domain_info\<close> makes of the answers of its \<^verbatim>\<open>TRIES\<close> probing connections, each answer
  given by the two values \<^verbatim>\<open>check_response\<close> stores; the connections themselves are not modelled.
\<close>

definition TRIES :: nat where
  "TRIES = 20"

record probe_stats =
  finished_count :: nat
  enc_min :: int
  enc_max :: int
  enc_sum :: int
  rev_min :: int
  rev_max :: int

definition probe_start :: probe_stats where
  "probe_start = \<lparr>finished_count = 0, enc_min = 0, enc_max = 0, enc_sum = 0, rev_min = 0, rev_max = 0\<rparr>"

definition probe_finished :: "probe_stats \<Rightarrow> int \<times> int \<Rightarrow> probe_stats" where
  "probe_finished p answer = (
     let (reversed, encrypted) = answer;
         p = (if finished_count p = 0 then
                p\<lparr>rev_min := reversed, rev_max := reversed, enc_min := encrypted, enc_max := encrypted\<rparr>
              else
                p\<lparr>rev_min := (if reversed < rev_min p then reversed else rev_min p),
                  rev_max := (if reversed > rev_max p then reversed else rev_max p),
                  enc_min := (if encrypted < enc_min p then encrypted else enc_min p),
                  enc_max := (if encrypted > enc_max p then encrypted else enc_max p)\<rparr>)
     in p\<lparr>enc_sum := enc_sum p + encrypted, finished_count := finished_count p + 1\<rparr>)"

definition update_domain_info :: "domain_info \<Rightarrow> (int \<times> int) list \<Rightarrow> bool \<times> domain_info" where
  "update_domain_info info answers = (
     let p = foldl probe_finished probe_start answers in
     if finished_count p \<noteq> TRIES then (False, info)
     else
       let info = info\<lparr>di_is_reversed_extension_order := (rev_min p \<noteq> 0)\<rparr> in
       (True,
        if enc_min p = enc_max p then
          info\<lparr>di_server_hello_encrypted_size := word_of_int (enc_min p),
               di_use_random_encrypted_size := False\<rparr>
        else if enc_max p - enc_min p \<le> 3 then
          info\<lparr>di_server_hello_encrypted_size := word_of_int (enc_max p - 1),
               di_use_random_encrypted_size := True\<rparr>
        else
          info\<lparr>di_server_hello_encrypted_size := word_of_int ((2 * enc_sum p + int TRIES) div (2 * int TRIES)),
               di_use_random_encrypted_size := True\<rparr>))"

section \<open>The server name of an incoming ClientHello\<close>

text \<open>
  The result of the walk over the extensions: the bytes of the server name, or \<open>None\<close> where
  the code returns \<^verbatim>\<open>NULL\<close>.
\<close>

function find_sni :: "bytes \<Rightarrow> nat \<Rightarrow> nat \<Rightarrow> bytes option option" where
  "find_sni request len pos =
     (if pos + 4 > len then Some None else do {
        extension_id \<leftarrow> read_length request pos;
        extension_length \<leftarrow> read_length request (pos + 2);
        let pos2 = pos + 4;
        if pos2 + fst extension_length > len then Some None
        else if fst extension_id = 0 then
          if pos2 + 5 > len then Some None else do {
            (inner_length, pos3) \<leftarrow> read_length request pos2;
            if int inner_length \<noteq> int (fst extension_length) - 2 then Some None else do {
              x \<leftarrow> aget request pos3;
              if x \<noteq> 0 then Some None else do {
                (domain_length, pos4) \<leftarrow> read_length request (pos3 + 1);
                if int domain_length \<noteq> int (fst extension_length) - 5 then Some None else do {
                  domain \<leftarrow> mem_get request pos4 domain_length;
                  if 0 \<in> set domain then Some None else Some (Some domain) } } } }
        else find_sni request len (pos2 + fst extension_length) })"
  by pat_completeness auto
termination
  by (relation "measure (\<lambda>(r, len, pos). len - pos)") auto

definition sni_name :: "bytes \<Rightarrow> nat \<Rightarrow> bytes option option" where
  "sni_name request len = (
     let pos = 11 + 32 + 1 + 32 in
     if pos + 2 > len then Some None else do {
       (cipher_suites_length, pos) \<leftarrow> read_length request pos;
       if pos + cipher_suites_length + 4 > len then Some None
       else find_sni request len (pos + cipher_suites_length + 4) })"

definition get_sni_domain_info :: "dom_state \<Rightarrow> bytes \<Rightarrow> nat \<Rightarrow> dom_addr option option" where
  "get_sni_domain_info s request len = do {
     name \<leftarrow> sni_name request len;
     case name of None \<Rightarrow> Some None | Some domain \<Rightarrow> get_domain_info s domain }"

declare find_sni.simps [simp del]

section \<open>Correctness of the name extraction\<close>

lemma find_sni_total: "len \<le> length request \<Longrightarrow> \<exists>r. find_sni request len pos = Some r"
proof (induction request len pos rule: find_sni.induct)
  case (1 request len pos)
  show ?case
  proof (cases "pos + 4 > len")
    case True then show ?thesis by (subst find_sni.simps) simp
  next
    case False
    have "\<exists>r. find_sni request len (pos + 4 + u16_at request (pos + 2)) = Some r"
      if "pos + 4 + u16_at request (pos + 2) \<le> len" "u16_at request pos \<noteq> 0"
      using 1(1) [OF False, of "(u16_at request pos, pos + 2)" "(u16_at request (pos + 2), pos + 4)" "pos + 4"]
        1(2) False that by simp
    then show ?thesis
      using False 1(2) by (subst find_sni.simps) (auto simp: Let_def mem_get_def)
  qed
qed

lemma sni_name_total: "len \<le> length request \<Longrightarrow> \<exists>r. sni_name request len = Some r"
  using find_sni_total [of len request] by (auto simp: sni_name_def Let_def)


section \<open>Correctness of the domain table\<close>

abbreviation dinfo :: "dom_state \<Rightarrow> dom_addr \<Rightarrow> domain_info" where
  "dinfo s a \<equiv> the (dom_mem s a)"

text \<open>\<open>as\<close> are the registered entries, oldest first; every bucket lists its entries newest first.\<close>

definition dom_inv :: "dom_state \<Rightarrow> dom_addr list \<Rightarrow> bool" where
  "dom_inv s as \<longleftrightarrow> dom (dom_mem s) = set as \<and> (\<forall>a\<in>set as. a < dom_fresh s) \<and>
     (\<forall>b. chain (\<lambda>a. di_next (dinfo s a)) (domains s b)
        (rev (filter (\<lambda>a. get_domain_info_bucket (di_domain (dinfo s a)) = b) as))) \<and>
     allow_only_tls s = (as \<noteq> []) \<and> default_domain_info s = (if as = [] then None else Some (hd as))"

lemma dom_inv_empty: "dom_inv dom_empty []"
  by (simp add: dom_inv_def dom_empty_def)

lemma dom_mem_Some: "dom_inv s as \<Longrightarrow> a \<in> set as \<Longrightarrow> \<exists>e. dom_mem s a = Some e"
  unfolding dom_inv_def by blast

lemma search_domain_chain:
  assumes "chain (\<lambda>a. di_next (dinfo s a)) p xs" "\<And>a. a \<in> set xs \<Longrightarrow> \<exists>e. dom_mem s a = Some e"
  shows "search_domain s d p = Some (find (\<lambda>a. di_domain (dinfo s a) = d) xs)"
  using assms
proof (induction xs arbitrary: p)
  case Nil
  then show ?case by (subst search_domain.simps) simp
next
  case (Cons x xs)
  then obtain e where "dom_mem s x = Some e" by auto
  with Cons show ?case by (subst search_domain.simps) auto
qed

lemma find_filter: "(\<And>x. P x \<Longrightarrow> Q x) \<Longrightarrow> find P (filter Q xs) = find P xs"
  by (induction xs) auto

lemma get_domain_info_ok:
  assumes "dom_inv s as"
  shows "get_domain_info s d = Some (find (\<lambda>a. di_domain (dinfo s a) = d) (rev as))"
proof -
  let ?xs = "rev (filter (\<lambda>a. get_domain_info_bucket (di_domain (dinfo s a)) = get_domain_info_bucket d) as)"
  have "search_domain s d (domains s (get_domain_info_bucket d)) = Some (find (\<lambda>a. di_domain (dinfo s a) = d) ?xs)"
    using assms dom_mem_Some [OF assms] by (intro search_domain_chain) (auto simp: dom_inv_def)
  also have "find (\<lambda>a. di_domain (dinfo s a) = d) ?xs = find (\<lambda>a. di_domain (dinfo s a) = d) (rev as)"
    unfolding rev_filter by (rule find_filter) simp
  finally show ?thesis by (simp add: get_domain_info_def)
qed

lemma add_proxy_domain_ok:
  assumes "dom_inv s as"
  shows "dom_inv (tcp_rpc_add_proxy_domain s d) (as @ [dom_fresh s])"
    and "di_domain (dinfo (tcp_rpc_add_proxy_domain s d) (dom_fresh s)) = d"
    and "a \<in> set as \<Longrightarrow> dinfo (tcp_rpc_add_proxy_domain s d) a = dinfo s a"
proof -
  let ?s = "tcp_rpc_add_proxy_domain s d" and ?n = "dom_fresh s" and ?b = "get_domain_info_bucket d"
  have mem: "dom_mem ?s = (dom_mem s)(?n \<mapsto> \<lparr>di_domain = d, di_target = 0, di_target_ipv6 = replicate 16 0,
              di_server_hello_encrypted_size = 0, di_use_random_encrypted_size = False,
              di_is_reversed_extension_order = False, di_next = domains s ?b\<rparr>)"
    and doms: "domains ?s = (domains s)(?b := Some ?n)" and fr: "dom_fresh ?s = ?n + 1"
    by (simp_all add: tcp_rpc_add_proxy_domain_def Let_def)
  have fresh: "?n \<notin> set as" using assms by (auto simp: dom_inv_def)
  then have same: "dinfo ?s x = dinfo s x" if "x \<in> set as" for x using that by (auto simp: mem)
  then show "a \<in> set as \<Longrightarrow> dinfo ?s a = dinfo s a" .
  show d: "di_domain (dinfo ?s ?n) = d" by (simp add: mem)
  have n: "di_next (dinfo ?s ?n) = domains s ?b" by (simp add: mem)
  have fl: "filter (\<lambda>a. get_domain_info_bucket (di_domain (dinfo ?s a)) = b) as =
      filter (\<lambda>a. get_domain_info_bucket (di_domain (dinfo s a)) = b) as" for b
    by (rule filter_cong) (auto simp: same)
  have "chain (\<lambda>a. di_next (dinfo ?s a)) (domains s b)
      (rev (filter (\<lambda>a. get_domain_info_bucket (di_domain (dinfo s a)) = b) as))" for b
  proof (rule chain_cong)
    show "chain (\<lambda>a. di_next (dinfo s a)) (domains s b)
      (rev (filter (\<lambda>a. get_domain_info_bucket (di_domain (dinfo s a)) = b) as))"
      using assms unfolding dom_inv_def by blast
  qed (simp add: same)
  then have "chain (\<lambda>a. di_next (dinfo ?s a)) (domains ?s b)
      (rev (filter (\<lambda>a. get_domain_info_bucket (di_domain (dinfo ?s a)) = b) (as @ [?n])))" for b
    using d n by (simp add: fl doms)
  moreover have "dom (dom_mem ?s) = set (as @ [?n])" "\<forall>a\<in>set (as @ [?n]). a < dom_fresh ?s"
    using assms by (auto simp: dom_inv_def mem fr)
  moreover have "allow_only_tls ?s" "default_domain_info ?s = Some (hd (as @ [?n]))"
    using assms by (auto simp: tcp_rpc_add_proxy_domain_def Let_def dom_inv_def)
  ultimately show "dom_inv ?s (as @ [?n])" unfolding dom_inv_def by simp
qed

lemma add_proxy_domains_ok:
  "\<exists>as. dom_inv (foldl tcp_rpc_add_proxy_domain dom_empty ds) as \<and>
     map (\<lambda>a. di_domain (dinfo (foldl tcp_rpc_add_proxy_domain dom_empty ds) a)) as = ds"
proof (induction ds rule: rev_induct)
  case Nil
  then show ?case using dom_inv_empty by fastforce
next
  case (snoc d ds)
  then obtain as where as: "dom_inv (foldl tcp_rpc_add_proxy_domain dom_empty ds) as"
    "map (\<lambda>a. di_domain (dinfo (foldl tcp_rpc_add_proxy_domain dom_empty ds) a)) as = ds" by blast
  let ?s = "foldl tcp_rpc_add_proxy_domain dom_empty ds"
  have "map (\<lambda>a. di_domain (dinfo (tcp_rpc_add_proxy_domain ?s d) a)) as = ds"
    using as(2) add_proxy_domain_ok(3) [OF as(1)] by (metis (mono_tags, lifting) map_eq_conv)
  then show ?case
    using add_proxy_domain_ok(1,2) [OF as(1), of d] by (intro exI [of _ "as @ [dom_fresh ?s]"]) simp
qed

text \<open>
  C30. After any sequence of registrations, the table answers every name: a registered
  domain is found in an entry that carries this name, any other name is not found; the first
  registered domain is the default one, and only with a registered domain is TLS required.
\<close>

theorem domain_table_correct:
  fixes ds :: "bytes list"
  defines "s \<equiv> foldl tcp_rpc_add_proxy_domain dom_empty ds"
  shows "(\<exists>r. get_domain_info s d = Some r \<and>
       map_option (\<lambda>a. di_domain (the (dom_mem s a))) r = (if d \<in> set ds then Some d else None)) \<and>
     map_option (\<lambda>a. di_domain (the (dom_mem s a))) (default_domain_info s) = (case ds of [] \<Rightarrow> None | d # _ \<Rightarrow> Some d) \<and>
     allow_only_tls s = (ds \<noteq> [])"
proof -
  obtain as where as: "dom_inv s as" "map (\<lambda>a. di_domain (dinfo s a)) as = ds"
    using add_proxy_domains_ok [of ds] by (auto simp: s_def)
  have "map_option (\<lambda>a. di_domain (dinfo s a)) (find (\<lambda>a. di_domain (dinfo s a) = d) xs) =
      (if d \<in> set (map (\<lambda>a. di_domain (dinfo s a)) xs) then Some d else None)" for xs
    by (induction xs) auto
  from this [of "rev as"] have "\<exists>r. get_domain_info s d = Some r \<and>
      map_option (\<lambda>a. di_domain (dinfo s a)) r = (if d \<in> set ds then Some d else None)"
    using get_domain_info_ok [OF as(1), of d] as(2) by (auto simp: image_iff)
  moreover have "allow_only_tls s = (as \<noteq> [])" "default_domain_info s = (if as = [] then None else Some (hd as))"
    using as(1) by (simp_all add: dom_inv_def)
  ultimately show ?thesis using as(2) by (cases as) auto
qed

text \<open>
  C29. Extracting the server name reads no byte outside the ClientHello, whatever
  a client sends, ends, and returns either nothing or a registered domain.
\<close>

theorem get_sni_domain_info_safe:
  assumes "len \<le> length request"
  shows "\<exists>r. get_sni_domain_info (foldl tcp_rpc_add_proxy_domain dom_empty ds) request len = Some r \<and>
     (\<forall>a. r = Some a \<longrightarrow> di_domain (the (dom_mem (foldl tcp_rpc_add_proxy_domain dom_empty ds) a)) \<in> set ds)"
proof -
  let ?s = "foldl tcp_rpc_add_proxy_domain dom_empty ds"
  obtain as where as: "dom_inv ?s as" "map (\<lambda>a. di_domain (dinfo ?s a)) as = ds"
    using add_proxy_domains_ok [of ds] by auto
  obtain n where n: "sni_name request len = Some n" using sni_name_total [OF assms] by auto
  have "di_domain (dinfo ?s a) \<in> set ds" if "find P (rev as) = Some a" for P a
  proof -
    have "a \<in> set as" using that by (metis find_Some_iff nth_mem set_rev)
    then show ?thesis using as(2) by (metis list.set_map imageI)
  qed
  then show ?thesis
    using n get_domain_info_ok [OF as(1)]
    by (auto simp: get_sni_domain_info_def split: option.splits)
qed

theorem get_sni_domain_info_safe_witness:
  "\<exists>r. get_sni_domain_info (foldl tcp_rpc_add_proxy_domain dom_empty [[0x61]]) (replicate 90 0xff) 90 = Some r \<and>
     (\<forall>a. r = Some a \<longrightarrow>
        di_domain (the (dom_mem (foldl tcp_rpc_add_proxy_domain dom_empty [[0x61]]) a)) \<in> set [[0x61]])"
  by (rule get_sni_domain_info_safe) simp

section \<open>Probing results\<close>

lemma probe_stats_range:
  assumes "\<forall>(r, e)\<in>set answers. a \<le> e \<and> e \<le> b" "answers \<noteq> []"
  shows "let p = foldl probe_finished probe_start answers in finished_count p = length answers \<and>
     a \<le> enc_min p \<and> enc_min p \<le> enc_max p \<and> enc_max p \<le> b \<and>
     a * int (length answers) \<le> enc_sum p \<and> enc_sum p \<le> b * int (length answers)"
  using assms
proof (induction answers rule: rev_induct)
  case (snoc x answers)
  show ?case
  proof (cases "answers = []")
    case True with snoc.prems show ?thesis by (auto simp: probe_finished_def probe_start_def Let_def)
  next
    case False
    have "a \<le> snd x" "snd x \<le> b" using snoc.prems by auto
    with snoc.IH snoc.prems False show ?thesis
      by (auto simp: probe_finished_def Let_def split_beta algebra_simps)
  qed
qed simp

lemma sint_u16: "0 \<le> x \<Longrightarrow> x < 32768 \<Longrightarrow> sint (word_of_int x :: u16) = x"
  by (simp add: signed_of_int signed_take_bit_int_eq_self)

text \<open>
  When every probing connection was answered with an application data record of
  between 1 and 32766 bytes, the size chosen for an emulated record, whatever the random number, is
  between 0 and 32767 and at most one off the observed range.
\<close>

theorem encrypted_size_range:
  assumes "length answers = TRIES" "\<forall>(r, e)\<in>set answers. a \<le> e \<and> e \<le> b" "1 \<le> a" "b \<le> 32766"
  shows "\<exists>info'. update_domain_info info answers = (True, info') \<and>
     a - 1 \<le> get_domain_server_hello_encrypted_size info' r \<and>
     get_domain_server_hello_encrypted_size info' r \<le> b + 1"
proof -
  define p where "p = foldl probe_finished probe_start answers"
  have ne: "answers \<noteq> []" using assms(1) by (auto simp: TRIES_def)
  have p: "finished_count p = TRIES" "a \<le> enc_min p" "enc_min p \<le> enc_max p" "enc_max p \<le> b"
    "a * 20 \<le> enc_sum p" "enc_sum p \<le> b * 20"
    using probe_stats_range [OF assms(2) ne] assms(1) by (simp_all add: p_def Let_def TRIES_def)
  have bit: "0 \<le> int (r AND 1)" "int (r AND 1) \<le> 1" for r :: nat
    by (simp_all add: and_one_eq mod_2_eq_odd)
  have mean: "a \<le> (2 * enc_sum p + 20) div 40" "(2 * enc_sum p + 20) div 40 \<le> b" using p by auto
  have fin: "a - 1 \<le> get_domain_server_hello_encrypted_size i r \<and> get_domain_server_hello_encrypted_size i r \<le> b + 1"
    if "di_server_hello_encrypted_size i = word_of_int x" "a \<le> x" "x \<le> b" for i x
    using that bit [of r] bit [of "drop_bit 1 r"] sint_u16 [of x] assms(3,4)
    by (auto simp: get_domain_server_hello_encrypted_size_def)
  define x where "x = (if enc_min p = enc_max p then enc_min p else if enc_max p - enc_min p \<le> 3
    then enc_max p - 1 else (2 * enc_sum p + 20) div 40)"
  have "\<exists>info'. update_domain_info info answers = (True, info') \<and>
      di_server_hello_encrypted_size info' = word_of_int x"
    using p(1) by (simp add: update_domain_info_def p_def [symmetric] Let_def TRIES_def x_def)
  moreover have "a \<le> x" "x \<le> b" using p mean by (auto simp: x_def)
  ultimately show ?thesis using fin by blast
qed

theorem encrypted_size_range_witness:
  "\<exists>info'. update_domain_info (the (dom_mem (tcp_rpc_add_proxy_domain dom_empty [0x61]) 0))
       (replicate 19 (0, 2500) @ [(0, 2503)]) = (True, info') \<and>
     2500 - 1 \<le> get_domain_server_hello_encrypted_size info' 5 \<and>
     get_domain_server_hello_encrypted_size info' 5 \<le> 2503 + 1"
  by (rule encrypted_size_range) (simp_all add: TRIES_def)

end
