(* ===== verification/ProbeHello.thy ===== *)
theory ProbeHello
  imports Domains
begin

text \<open>
  The ClientHello the proxy sends to probe a domain, \<open>create_request\<close> of
  \<^verbatim>\<open>net/net-tcp-rpc-ext-server.c\<close>. Bytes from \<^verbatim>\<open>RAND_bytes\<close> and \<^verbatim>\<open>generate_public_key\<close> are
  arguments. Correctness: the buffer is filled exactly, for every name that fits, and the proxy's own
  parser finds the name again.
\<close>

section \<open>The probing ClientHello\<close>

definition TLS_REQUEST_LENGTH :: nat where
  "TLS_REQUEST_LENGTH = 517"

text \<open>The buffer and the write position, \<^verbatim>\<open>str\<close> and \<^verbatim>\<open>*pos\<close>.\<close>

type_synonym out_buf = "bytes \<times> nat"

fun add_string :: "bytes \<Rightarrow> out_buf \<Rightarrow> out_buf option" where
  "add_string data (str, pos) = do {
     cassert (pos + length data \<le> TLS_REQUEST_LENGTH);
     str \<leftarrow> mem_copy str pos data;
     Some (str, pos + length data) }"

text \<open>\<open>rnd\<close> are the bytes \<^verbatim>\<open>RAND_bytes\<close> puts into the buffer.\<close>

fun add_random :: "bytes \<Rightarrow> nat \<Rightarrow> out_buf \<Rightarrow> out_buf option" where
  "add_random rnd random_len (str, pos) = do {
     cassert (pos + random_len \<le> TLS_REQUEST_LENGTH);
     str \<leftarrow> mem_copy str pos (take random_len rnd);
     Some (str, pos + random_len) }"

fun add_length :: "nat \<Rightarrow> out_buf \<Rightarrow> out_buf option" where
  "add_length len (str, pos) = do {
     cassert (pos + 2 \<le> TLS_REQUEST_LENGTH);
     str \<leftarrow> aset str (pos + 0) (byte (len div 256));
     str \<leftarrow> aset str (pos + 1) (byte (len mod 256));
     Some (str, pos + 2) }"

fun add_grease :: "bytes \<Rightarrow> nat \<Rightarrow> out_buf \<Rightarrow> out_buf option" where
  "add_grease greases num (str, pos) = do {
     cassert (pos + 2 \<le> TLS_REQUEST_LENGTH);
     g \<leftarrow> aget greases num;
     str \<leftarrow> aset str (pos + 0) g;
     str \<leftarrow> aset str (pos + 1) g;
     Some (str, pos + 2) }"

fun add_public_key :: "bytes \<Rightarrow> out_buf \<Rightarrow> out_buf option" where
  "add_public_key key (str, pos) = do {
     cassert (pos + 32 \<le> TLS_REQUEST_LENGTH);
     str \<leftarrow> mem_copy str pos (take 32 key);
     Some (str, pos + 32) }"

text \<open>The grease bytes: low nibble A, and within a pair the second one made different.\<close>

definition MAX_GREASE :: nat where
  "MAX_GREASE = 7"

definition fix_grease :: "bytes \<Rightarrow> nat \<Rightarrow> bytes" where
  "fix_grease g i = (if g ! i = g ! (i - 1) then g[i := 0x10 XOR g ! i] else g)"

definition make_greases :: "bytes \<Rightarrow> bytes" where
  "make_greases rnd = foldl fix_grease (map (\<lambda>b. (b AND 0xF0) + 0x0A) (take MAX_GREASE rnd)) [1, 3, 5]"

record hello_random =
  rnd_greases :: bytes
  rnd_client :: bytes
  rnd_session :: bytes
  rnd_key :: bytes

definition hello_part1 :: bytes where
  "hello_part1 = [0x16, 0x03, 0x01, 0x02, 0x00, 0x01, 0x00, 0x01, 0xfc, 0x03, 0x03]"

definition hello_part2 :: bytes where
  "hello_part2 = [0x13, 0x01, 0x13, 0x02, 0x13, 0x03, 0xc0, 0x2b, 0xc0, 0x2f, 0xc0, 0x2c, 0xc0, 0x30, 0xcc, 0xa9,
     0xcc, 0xa8, 0xc0, 0x13, 0xc0, 0x14, 0x00, 0x9c, 0x00, 0x9d, 0x00, 0x2f, 0x00, 0x35, 0x00, 0x0a, 0x01, 0x00,
     0x01, 0x91]"

definition hello_part3 :: bytes where
  "hello_part3 = [0x00, 0x17, 0x00, 0x00, 0xff, 0x01, 0x00, 0x01, 0x00, 0x00, 0x0a, 0x00, 0x0a, 0x00, 0x08]"

definition hello_part4 :: bytes where
  "hello_part4 = [0x00, 0x1d, 0x00, 0x17, 0x00, 0x18, 0x00, 0x0b, 0x00, 0x02, 0x01, 0x00, 0x00, 0x23, 0x00, 0x00,
     0x00, 0x10, 0x00, 0x0e, 0x00, 0x0c, 0x02, 0x68, 0x32, 0x08, 0x68, 0x74, 0x74, 0x70, 0x2f, 0x31, 0x2e, 0x31,
     0x00, 0x05, 0x00, 0x05, 0x01, 0x00, 0x00, 0x00, 0x00, 0x00, 0x0d, 0x00, 0x14, 0x00, 0x12, 0x04, 0x03, 0x08,
     0x04, 0x04, 0x01, 0x05, 0x03, 0x08, 0x05, 0x05, 0x01, 0x08, 0x06, 0x06, 0x01, 0x02, 0x01, 0x00, 0x12, 0x00,
     0x00, 0x00, 0x33, 0x00, 0x2b, 0x00, 0x29]"

definition hello_part5 :: bytes where
  "hello_part5 = [0x00, 0x2d, 0x00, 0x02, 0x01, 0x01, 0x00, 0x2b, 0x00, 0x0b, 0x0a]"

definition hello_part6 :: bytes where
  "hello_part6 = [0x03, 0x04, 0x03, 0x03, 0x03, 0x02, 0x03, 0x01, 0x00, 0x1b, 0x00, 0x03, 0x02, 0x00, 0x02]"

text \<open>\<open>buf\<close> is the uninitialised block \<^verbatim>\<open>malloc\<close> returns.\<close>

definition create_request :: "bytes \<Rightarrow> hello_random \<Rightarrow> bytes \<Rightarrow> bytes option" where
  "create_request buf rnd domain = do {
     let greases = make_greases (rnd_greases rnd);
     let domain_length = length domain;
     st \<leftarrow> add_string hello_part1 (buf, 0);
     st \<leftarrow> add_random (rnd_client rnd) 32 st;
     st \<leftarrow> add_string [0x20] st;
     st \<leftarrow> add_random (rnd_session rnd) 32 st;
     st \<leftarrow> add_string [0x00, 0x22] st;
     st \<leftarrow> add_grease greases 0 st;
     st \<leftarrow> add_string hello_part2 st;
     st \<leftarrow> add_grease greases 2 st;
     st \<leftarrow> add_string [0x00, 0x00, 0x00, 0x00] st;
     st \<leftarrow> add_length (domain_length + 5) st;
     st \<leftarrow> add_length (domain_length + 3) st;
     st \<leftarrow> add_string [0x00] st;
     st \<leftarrow> add_length domain_length st;
     st \<leftarrow> add_string domain st;
     st \<leftarrow> add_string hello_part3 st;
     st \<leftarrow> add_grease greases 4 st;
     st \<leftarrow> add_string hello_part4 st;
     st \<leftarrow> add_grease greases 4 st;
     st \<leftarrow> add_string [0x00, 0x01, 0x00, 0x00, 0x1d, 0x00, 0x20] st;
     st \<leftarrow> add_public_key (rnd_key rnd) st;
     st \<leftarrow> add_string hello_part5 st;
     st \<leftarrow> add_grease greases 6 st;
     st \<leftarrow> add_string hello_part6 st;
     st \<leftarrow> add_grease greases 3 st;
     st \<leftarrow> add_string [0x00, 0x01, 0x00, 0x00, 0x15] st;
     cassert (int TLS_REQUEST_LENGTH - 2 - int (snd st) \<ge> 0);
     (str, pos) \<leftarrow> add_length (TLS_REQUEST_LENGTH - 2 - snd st) st;
     mem_copy str pos (replicate (TLS_REQUEST_LENGTH - pos) 0) }"

section \<open>Correctness of the probing ClientHello\<close>

text \<open>\<open>written st acc\<close>: the bytes written so far are \<open>acc\<close>.\<close>

definition written :: "out_buf \<Rightarrow> bytes \<Rightarrow> bool" where
  "written st acc \<longleftrightarrow>
     (\<exists>rest. st = (acc @ rest, length acc) \<and> length acc + length rest = TLS_REQUEST_LENGTH)"

lemma written_start: "length buf = TLS_REQUEST_LENGTH \<Longrightarrow> written (buf, 0) []"
  by (simp add: written_def)

lemma mem_copy_append [simp]:
  "length d \<le> length rest \<Longrightarrow> mem_copy (acc @ rest) (length acc) d = Some (acc @ d @ drop (length d) rest)"
  by (simp add: mem_copy_def)

lemma add_random_written:
  assumes "written st acc" "length acc + n \<le> TLS_REQUEST_LENGTH" "n \<le> length r"
  shows "\<exists>st'. add_random r n st = Some st' \<and> written st' (acc @ take n r)"
proof -
  obtain rest where "st = (acc @ rest, length acc)" "length acc + length rest = TLS_REQUEST_LENGTH"
    using assms(1) by (auto simp: written_def)
  moreover from this have "length (take n r) \<le> length rest" using assms(2) by simp
  ultimately show ?thesis using assms(2,3) by (simp add: written_def)
qed

lemma add_string_eq: "add_string d st = add_random d (length d) st"
  by (cases st) simp

lemma add_public_key_eq: "add_public_key key st = add_random key 32 st"
  by (cases st) simp

lemma add_string_written:
  assumes "written st acc" "length acc + length d \<le> TLS_REQUEST_LENGTH"
  shows "\<exists>st'. add_string d st = Some st' \<and> written st' (acc @ d)"
  using add_random_written [OF assms, of d] by (simp add: add_string_eq)

lemma two_bytes_at:
  assumes "2 \<le> length rest"
  shows "(acc @ rest)[length acc := x, Suc (length acc) := y] = (acc @ [x, y]) @ drop 2 rest"
proof -
  obtain a b rest' where "rest = a # b # rest'" using assms by (metis Suc_le_length_iff numeral_2_eq_2)
  then show ?thesis by (simp add: list_update_append)
qed

lemma add_length_written:
  assumes "written st acc" "length acc + 2 \<le> TLS_REQUEST_LENGTH"
  shows "\<exists>st'. add_length n st = Some st' \<and> written st' (acc @ [byte (n div 256), byte (n mod 256)])"
proof -
  obtain rest where r: "st = (acc @ rest, length acc)" "length acc + length rest = TLS_REQUEST_LENGTH"
    using assms(1) by (auto simp: written_def)
  then have "2 \<le> length rest" using assms(2) by simp
  from two_bytes_at [OF this] this show ?thesis
    using r assms(2) by (simp add: written_def)
qed

lemma add_grease_written:
  assumes "written st acc" "length acc + 2 \<le> TLS_REQUEST_LENGTH" "num < length g"
  shows "\<exists>st'. add_grease g num st = Some st' \<and> written st' (acc @ [g ! num, g ! num])"
proof -
  obtain rest where r: "st = (acc @ rest, length acc)" "length acc + length rest = TLS_REQUEST_LENGTH"
    using assms(1) by (auto simp: written_def)
  then have "2 \<le> length rest" using assms(2) by simp
  from two_bytes_at [OF this] this show ?thesis
    using r assms(2,3) by (simp add: written_def)
qed

text \<open>The ClientHello with the parts in the order they are written.\<close>

definition hello_upto_sni :: "hello_random \<Rightarrow> bytes" where
  "hello_upto_sni rnd = (let g = make_greases (rnd_greases rnd) in
     hello_part1 @ take 32 (rnd_client rnd) @ [0x20] @ take 32 (rnd_session rnd) @ [0x00, 0x22] @
     [g ! 0, g ! 0] @ hello_part2 @ [g ! 2, g ! 2])"

definition two_bytes :: "nat \<Rightarrow> bytes" where
  "two_bytes n = [byte (n div 256), byte (n mod 256)]"

definition sni_extension :: "bytes \<Rightarrow> bytes" where
  "sni_extension domain = [0x00, 0x00, 0x00, 0x00] @ two_bytes (length domain + 5) @
     two_bytes (length domain + 3) @ [0x00] @ two_bytes (length domain) @ domain"

definition hello_after_sni :: "hello_random \<Rightarrow> bytes" where
  "hello_after_sni rnd = (let g = make_greases (rnd_greases rnd) in
     hello_part3 @ [g ! 4, g ! 4] @ hello_part4 @ [g ! 4, g ! 4] @
     [0x00, 0x01, 0x00, 0x00, 0x1d, 0x00, 0x20] @ take 32 (rnd_key rnd) @ hello_part5 @ [g ! 6, g ! 6] @
     hello_part6 @ [g ! 3, g ! 3] @ [0x00, 0x01, 0x00, 0x00, 0x15])"

definition request_bytes :: "hello_random \<Rightarrow> bytes \<Rightarrow> bytes" where
  "request_bytes rnd domain = hello_upto_sni rnd @ sni_extension domain @ hello_after_sni rnd @
     two_bytes (216 - length domain) @ replicate (216 - length domain) 0"

definition enough_random :: "hello_random \<Rightarrow> bool" where
  "enough_random rnd \<longleftrightarrow> 7 \<le> length (rnd_greases rnd) \<and> 32 \<le> length (rnd_client rnd) \<and>
     32 \<le> length (rnd_session rnd) \<and> 32 \<le> length (rnd_key rnd)"

lemma length_make_greases [simp]: "7 \<le> length r \<Longrightarrow> length (make_greases r) = 7"
  by (simp add: make_greases_def fix_grease_def MAX_GREASE_def)

lemmas hello_parts = hello_part1_def hello_part2_def hello_part3_def hello_part4_def hello_part5_def
  hello_part6_def

lemma length_hello_parts [simp]:
  "length hello_part1 = 11" "length hello_part2 = 36" "length hello_part3 = 15"
  "length hello_part4 = 77" "length hello_part5 = 11" "length hello_part6 = 15"
  by (simp_all add: hello_parts)

lemma written_bind:
  assumes "\<exists>st'. m = Some st' \<and> written st' acc" "\<And>st'. written st' acc \<Longrightarrow> f st' = r"
  shows "(m \<bind> f) = (r :: bytes option)"
  using assms by auto

lemmas writers = add_string_written add_random_written add_length_written add_grease_written

lemma finish_request:
  assumes "written st acc" "length acc = 299 + n" "n \<le> 216"
  shows "(do { cassert (int TLS_REQUEST_LENGTH - 2 - int (snd st) \<ge> 0);
     (str, pos) \<leftarrow> add_length (TLS_REQUEST_LENGTH - 2 - snd st) st;
     mem_copy str pos (replicate (TLS_REQUEST_LENGTH - pos) 0) }) =
     Some (acc @ two_bytes (216 - n) @ replicate (216 - n) 0)"
proof -
  have snd: "snd st = 299 + n" using assms by (auto simp: written_def)
  obtain st' where st': "add_length (216 - n) st = Some st'" "written st' (acc @ two_bytes (216 - n))"
    using add_length_written [OF assms(1), of "216 - n"] assms(2,3)
    by (auto simp: TLS_REQUEST_LENGTH_def two_bytes_def)
  have len: "length (acc @ two_bytes (216 - n)) = 301 + n" by (simp add: assms(2) two_bytes_def)
  from st'(2) obtain rest where "st' = ((acc @ two_bytes (216 - n)) @ rest, 301 + n)" "length rest = 216 - n"
    unfolding written_def len TLS_REQUEST_LENGTH_def by force
  moreover have "mem_copy ((acc @ two_bytes (216 - n)) @ rest) (301 + n) (replicate (216 - n) 0) =
      Some ((acc @ two_bytes (216 - n)) @ replicate (216 - n) 0)" if "length rest = 216 - n"
    using mem_copy_append [of "replicate (216 - n) 0" rest "acc @ two_bytes (216 - n)"] that
    unfolding len by simp
  ultimately show ?thesis
    using snd st'(1) assms(3) by (simp add: TLS_REQUEST_LENGTH_def)
qed

lemma create_request_written:
  assumes "length buf = TLS_REQUEST_LENGTH" "enough_random rnd" "length domain \<le> 216"
  shows "create_request buf rnd domain = Some (request_bytes rnd domain)"
  using assms(2,3) unfolding create_request_def Let_def add_public_key_eq enough_random_def
  apply -
  apply (rule written_bind, rule writers, rule written_start [OF assms(1)], simp add: TLS_REQUEST_LENGTH_def)
  apply (rule written_bind, rule writers, assumption, simp add: TLS_REQUEST_LENGTH_def, (simp; fail)?)+
  apply (subst finish_request [where n = "length domain"], assumption)
    apply (simp_all add: request_bytes_def hello_upto_sni_def sni_extension_def hello_after_sni_def Let_def two_bytes_def)
  done

lemma add_random_pos: "add_random r n st = Some st' \<Longrightarrow> snd st' = snd st + n"
  by (cases st) (auto simp: bind_eq_Some_conv)

lemma add_string_pos: "add_string d st = Some st' \<Longrightarrow> snd st' = snd st + length d"
  using add_random_pos by (auto simp: add_string_eq)

lemma add_length_pos: "add_length n st = Some st' \<Longrightarrow> snd st' = snd st + 2"
  by (cases st) (auto simp: bind_eq_Some_conv)

lemma add_grease_pos: "add_grease g n st = Some st' \<Longrightarrow> snd st' = snd st + 2"
  by (cases st) (auto simp: bind_eq_Some_conv)

lemmas adders_pos = add_string_pos add_random_pos add_length_pos add_grease_pos

lemma bind_NoneI: "(\<And>x. m = Some x \<Longrightarrow> f x = None) \<Longrightarrow> (m \<bind> f) = None"
  by (cases m) auto

lemma create_request_too_long:
  assumes "216 < length domain"
  shows "create_request buf rnd domain = None"
  using assms unfolding create_request_def Let_def add_public_key_eq
  apply -
  apply (rule bind_NoneI, drule adders_pos)+
  apply (simp add: TLS_REQUEST_LENGTH_def)
  done

section \<open>Round trip through the name extraction\<close>

text \<open>The name put into a ClientHello is the one found in it.\<close>

lemma grease_nibble: "((b AND 0xF0) + 0x0A) AND 0x0F = (0x0A :: u8)"
proof -
  have "(b AND 0xF0) + 0x0A = (b AND 0xF0) OR (0x0A :: u8)"
    by (rule disjunctive_add_eq_or) (simp add: and.assoc)
  then show ?thesis by (simp add: bit.conj_disj_distrib2 and.assoc)
qed

definition is_grease :: "u8 \<Rightarrow> bool" where
  "is_grease g \<longleftrightarrow> g AND 0x0F = 0x0A"

lemma fix_grease_keeps:
  "\<forall>x\<in>set g. is_grease x \<Longrightarrow> 0 < i \<Longrightarrow> i < length g \<Longrightarrow> \<forall>x\<in>set (fix_grease g i). is_grease x"
  using set_update_subset_insert [of g i "0x10 XOR g ! i"]
  by (auto simp: fix_grease_def is_grease_def bit.conj_xor_distrib2)

lemma length_fix_grease [simp]: "length (fix_grease g i) = length g"
  by (simp add: fix_grease_def)

lemma make_greases_grease:
  assumes "7 \<le> length r" "i < 7"
  shows "is_grease (make_greases r ! i)"
proof -
  let ?g = "map (\<lambda>b. (b AND 0xF0) + 0x0A) (take MAX_GREASE r)"
  have "\<forall>x\<in>set ?g. is_grease x" "length ?g = 7"
    using assms by (auto simp: grease_nibble is_grease_def MAX_GREASE_def)
  then have "\<forall>x\<in>set (make_greases r). is_grease x"
    unfolding make_greases_def foldl.simps by (intro fix_grease_keeps) auto
  then show ?thesis using assms by simp
qed

lemma length_hello_upto_sni: "enough_random rnd \<Longrightarrow> length (hello_upto_sni rnd) = 118"
  by (simp add: hello_upto_sni_def enough_random_def Let_def)

lemma length_request_bytes:
  "enough_random rnd \<Longrightarrow> length domain \<le> 216 \<Longrightarrow> length (request_bytes rnd domain) = 517"
  by (simp add: request_bytes_def length_hello_upto_sni sni_extension_def hello_after_sni_def two_bytes_def
      enough_random_def Let_def)

lemma request_bytes_fixed:
  assumes "enough_random rnd"
  shows "u16_at (request_bytes rnd domain) 76 = 34" "0 < u16_at (request_bytes rnd domain) 116"
proof -
  let ?u = "hello_upto_sni rnd"
  have u: "request_bytes rnd domain ! i = ?u ! i" if "i < 118" for i
    using that assms by (simp add: request_bytes_def nth_append length_hello_upto_sni)
  have "?u ! 76 = 0" "?u ! 77 = 0x22" "?u ! 116 = make_greases (rnd_greases rnd) ! 2"
    using assms by (simp_all add: hello_upto_sni_def enough_random_def Let_def nth_append)
  moreover have "is_grease (make_greases (rnd_greases rnd) ! 2)"
    using assms by (intro make_greases_grease) (simp_all add: enough_random_def)
  then have "0 < unat (make_greases (rnd_greases rnd) ! 2)"
    by (cases "make_greases (rnd_greases rnd) ! 2 = 0") (simp_all add: is_grease_def unat_gt_0)
  ultimately show "u16_at (request_bytes rnd domain) 76 = 34" "0 < u16_at (request_bytes rnd domain) 116"
    using u by (simp_all add: u16_at_def)
qed

lemma request_bytes_sni:
  assumes "enough_random rnd" "length domain \<le> 216"
  shows "u16_at (request_bytes rnd domain) 118 = 0" "u16_at (request_bytes rnd domain) 120 = 0"
    "u16_at (request_bytes rnd domain) 122 = length domain + 5"
    "u16_at (request_bytes rnd domain) 124 = length domain + 3"
    "request_bytes rnd domain ! 126 = 0"
    "u16_at (request_bytes rnd domain) 127 = length domain"
    "take (length domain) (drop 129 (request_bytes rnd domain)) = domain"
proof -
  let ?r = "hello_after_sni rnd @ two_bytes (216 - length domain) @ replicate (216 - length domain) 0"
  have c: "request_bytes rnd domain ! (118 + i) = (sni_extension domain @ ?r) ! i" for i
    using assms by (simp add: request_bytes_def nth_append length_hello_upto_sni)
  note at = c [of 0] c [of 1] c [of 2] c [of 3] c [of 4] c [of 5] c [of 6] c [of 7] c [of 8] c [of 9] c [of 10]
  show "u16_at (request_bytes rnd domain) 118 = 0" "u16_at (request_bytes rnd domain) 120 = 0"
    "request_bytes rnd domain ! 126 = 0"
    "u16_at (request_bytes rnd domain) 122 = length domain + 5"
    "u16_at (request_bytes rnd domain) 124 = length domain + 3"
    "u16_at (request_bytes rnd domain) 127 = length domain"
    using at assms(2) u16_two_bytes [of "length domain"] u16_two_bytes [of "length domain + 5"]
      u16_two_bytes [of "length domain + 3"]
    by (simp_all add: u16_at_def sni_extension_def two_bytes_def)
  have "drop 118 (request_bytes rnd domain) = sni_extension domain @ ?r"
    using assms by (simp add: request_bytes_def length_hello_upto_sni)
  then have "drop 11 (drop 118 (request_bytes rnd domain)) = domain @ ?r"
    by (simp add: sni_extension_def two_bytes_def)
  then show "take (length domain) (drop 129 (request_bytes rnd domain)) = domain"
    by (simp add: drop_drop)
qed

lemma sni_name_request_bytes:
  assumes "enough_random rnd" "length domain \<le> 216" "0 \<notin> set domain"
  shows "sni_name (request_bytes rnd domain) 517 = Some (Some domain)"
proof -
  note facts = request_bytes_fixed [OF assms(1), of domain] request_bytes_sni [OF assms(1,2)]
    length_request_bytes [OF assms(1,2)]
  have "find_sni (request_bytes rnd domain) 517 120 = Some (Some domain)"
    using facts assms by (subst find_sni.simps) (simp add: Let_def mem_get_def)
  then have "find_sni (request_bytes rnd domain) 517 116 = Some (Some domain)"
    using facts by (subst find_sni.simps) (simp add: Let_def)
  then show ?thesis
    using facts by (simp add: sni_name_def Let_def)
qed

section \<open>Properties\<close>

text \<open>
  C28. For every domain name of at most 216 bytes the probing ClientHello fills the
  517 bytes of its buffer exactly, and the proxy's own extraction finds that name in it: looking up
  the message gives the table entry of the name.
\<close>

theorem create_request_roundtrip:
  assumes "length buf = TLS_REQUEST_LENGTH" "enough_random rnd" "length domain \<le> 216" "0 \<notin> set domain"
  shows "\<exists>msg. create_request buf rnd domain = Some msg \<and> length msg = TLS_REQUEST_LENGTH \<and>
     get_sni_domain_info s msg TLS_REQUEST_LENGTH = get_domain_info s domain"
  using create_request_written [OF assms(1-3)] sni_name_request_bytes [OF assms(2-4)]
    length_request_bytes [OF assms(2,3)]
  by (simp add: get_sni_domain_info_def TLS_REQUEST_LENGTH_def)

theorem create_request_roundtrip_witness:
  "\<exists>msg. create_request (replicate 517 0xaa)
       \<lparr>rnd_greases = replicate 7 0, rnd_client = replicate 32 1, rnd_session = replicate 32 2, rnd_key = replicate 32 3\<rparr>
       [0x61, 0x2e, 0x62] = Some msg \<and> length msg = TLS_REQUEST_LENGTH \<and>
     get_sni_domain_info dom_empty msg TLS_REQUEST_LENGTH = get_domain_info dom_empty [0x61, 0x2e, 0x62]"
  by (rule create_request_roundtrip) (simp_all add: TLS_REQUEST_LENGTH_def enough_random_def)

text \<open>
  Probing aborts the process exactly for names longer than 216 bytes, although
  domain names of up to 253 bytes are valid.
\<close>

theorem create_request_aborts:
  assumes "length buf = TLS_REQUEST_LENGTH" "enough_random rnd"
  shows "create_request buf rnd domain = None \<longleftrightarrow> 216 < length domain"
  using create_request_written [OF assms, of domain] create_request_too_long [of domain buf rnd]
  by (cases "length domain \<le> 216") auto

theorem create_request_aborts_witness:
  "create_request (replicate 517 0)
     \<lparr>rnd_greases = replicate 7 0, rnd_client = replicate 32 1, rnd_session = replicate 32 2, rnd_key = replicate 32 3\<rparr>
     (replicate 250 0x61) = None"
  using create_request_aborts [of "replicate 517 0" "\<lparr>rnd_greases = replicate 7 0, rnd_client = replicate 32 1,
      rnd_session = replicate 32 2, rnd_key = replicate 32 3\<rparr>" "replicate 250 0x61"]
  by (simp add: TLS_REQUEST_LENGTH_def enough_random_def)

end
