(* ===== verification/ClientRandom.thy ===== *)
theory ClientRandom
  imports Prelude
begin

text \<open>
  The cache of TLS client randoms of \<^verbatim>\<open>net/net-tcp-rpc-ext-server.c\<close>, which protects the
  fake-TLS handshake against replays. Entries are heap objects that are at the same time on one
  list ordered by arrival (\<open>next_by_time\<close>, from \<open>first_client_random\<close> to
  \<open>last_client_random\<close>) and on the list of their hash bucket (\<open>next_by_hash\<close>).

  The heap is the map \<open>cr_mem\<close>; reading or writing an address outside its domain (after
  \<^verbatim>\<open>free\<close>) aborts. \<^verbatim>\<open>malloc\<close> hands out \<open>cr_fresh\<close>, an address never used before. Unix times are
  unbounded integers: the code adds at most 3 and subtracts at most two days.
\<close>

section \<open>State\<close>

type_synonym cr_addr = nat

record client_random =
  cr_random :: bytes
  cr_next_by_time :: "cr_addr option"
  cr_next_by_hash :: "cr_addr option"
  cr_time :: int

record cr_state =
  cr_mem :: "cr_addr \<rightharpoonup> client_random"
  client_randoms :: "nat \<Rightarrow> cr_addr option"
  first_client_random :: "cr_addr option"
  last_client_random :: "cr_addr option"
  cr_fresh :: cr_addr

definition cr_empty :: cr_state where
  "cr_empty = \<lparr>cr_mem = Map.empty, client_randoms = (\<lambda>_. None), first_client_random = None,
     last_client_random = None, cr_fresh = 0\<rparr>"

definition RANDOM_HASH_BITS :: nat where
  "RANDOM_HASH_BITS = 14"

definition MAX_CLIENT_RANDOM_CACHE_TIME :: int where
  "MAX_CLIENT_RANDOM_CACHE_TIME = 2 * 86400"

section \<open>Operations\<close>

function bucket_bits :: "bytes \<Rightarrow> nat \<Rightarrow> nat \<Rightarrow> nat \<Rightarrow> nat option" where
  "bucket_bits random i pos acc =
     (if i > 0 then do {
        let bits = (if i < 8 then i else 8);
        b \<leftarrow> aget random pos;
        bucket_bits random (i - bits) (pos + 1)
          (push_bit bits acc OR (unat b AND (push_bit bits 1 - 1))) }
      else Some acc)"
  by pat_completeness auto
termination
  by (relation "measure (\<lambda>(r, i, p, a). i)") auto

definition get_client_random_bucket :: "bytes \<Rightarrow> nat option" where
  "get_client_random_bucket random = do {
     n \<leftarrow> bucket_bits random RANDOM_HASH_BITS 0 0;
     cassert (n < 2 ^ RANDOM_HASH_BITS);
     Some n }"

partial_function (option) search_bucket :: "cr_state \<Rightarrow> bytes \<Rightarrow> cr_addr option \<Rightarrow> bool option" where
  "search_bucket s random cur =
     (case cur of
        None \<Rightarrow> Some False
      | Some a \<Rightarrow> do {
          e \<leftarrow> cr_mem s a;
          if take 16 random = cr_random e then Some True
          else search_bucket s random (cr_next_by_hash e) })"

definition have_client_random :: "cr_state \<Rightarrow> bytes \<Rightarrow> bool option" where
  "have_client_random s random = do {
     b \<leftarrow> get_client_random_bucket random;
     search_bucket s random (client_randoms s b) }"

definition add_client_random :: "cr_state \<Rightarrow> int \<Rightarrow> bytes \<Rightarrow> cr_state option" where
  "add_client_random s now random = do {
     let entry = cr_fresh s;
     let s = s\<lparr>cr_fresh := entry + 1,
       cr_mem := (cr_mem s)(entry \<mapsto> \<lparr>cr_random = take 16 random, cr_next_by_time = None,
         cr_next_by_hash = None, cr_time = now\<rparr>)\<rparr>;
     s \<leftarrow> (case last_client_random s of
        None \<Rightarrow> do {
          cassert (first_client_random s = None);
          Some (s\<lparr>first_client_random := Some entry, last_client_random := Some entry\<rparr>) }
      | Some l \<Rightarrow> do {
          e \<leftarrow> cr_mem s l;
          Some (s\<lparr>cr_mem := (cr_mem s)(l \<mapsto> e\<lparr>cr_next_by_time := Some entry\<rparr>),
            last_client_random := Some entry\<rparr>) });
     b \<leftarrow> get_client_random_bucket random;
     e \<leftarrow> cr_mem s entry;
     Some (s\<lparr>cr_mem := (cr_mem s)(entry \<mapsto> e\<lparr>cr_next_by_hash := client_randoms s b\<rparr>),
       client_randoms := (client_randoms s)(b := Some entry)\<rparr>) }"

text \<open>The pointer to a pointer \<^verbatim>\<open>cur\<close> of \<^verbatim>\<open>delete_old_client_randoms\<close>.\<close>

datatype cr_slot = Bucket nat | NextOf cr_addr

fun read_slot :: "cr_state \<Rightarrow> cr_slot \<Rightarrow> cr_addr option option" where
  "read_slot s (Bucket b) = Some (client_randoms s b)"
| "read_slot s (NextOf a) = do { e \<leftarrow> cr_mem s a; Some (cr_next_by_hash e) }"

fun clear_slot :: "cr_state \<Rightarrow> cr_slot \<Rightarrow> cr_state option" where
  "clear_slot s (Bucket b) = Some (s\<lparr>client_randoms := (client_randoms s)(b := None)\<rparr>)"
| "clear_slot s (NextOf a) = do {
     e \<leftarrow> cr_mem s a;
     Some (s\<lparr>cr_mem := (cr_mem s)(a \<mapsto> e\<lparr>cr_next_by_hash := None\<rparr>)\<rparr>) }"

partial_function (option) find_slot :: "cr_state \<Rightarrow> cr_addr \<Rightarrow> cr_slot \<Rightarrow> cr_slot option" where
  "find_slot s entry cur = do {
     p \<leftarrow> read_slot s cur;
     if p = Some entry then Some cur
     else do { a \<leftarrow> p; find_slot s entry (NextOf a) } }"

partial_function (option) delete_old_client_randoms :: "int \<Rightarrow> cr_state \<Rightarrow> cr_state option" where
  "delete_old_client_randoms now s =
     (if first_client_random s \<noteq> last_client_random s then do {
        entry \<leftarrow> first_client_random s;
        e \<leftarrow> cr_mem s entry;
        if cr_time e > now - MAX_CLIENT_RANDOM_CACHE_TIME then Some s
        else do {
          cassert (cr_next_by_hash e = None);
          let s = s\<lparr>first_client_random := cr_next_by_time e\<rparr>;
          b \<leftarrow> get_client_random_bucket (cr_random e);
          cur \<leftarrow> find_slot s entry (Bucket b);
          s \<leftarrow> clear_slot s cur;
          delete_old_client_randoms now (s\<lparr>cr_mem := (cr_mem s)(entry := None)\<rparr>) } }
      else Some s)"

definition is_allowed_timestamp :: "cr_state \<Rightarrow> int \<Rightarrow> int \<Rightarrow> bool option" where
  "is_allowed_timestamp s now timestamp = (
     if timestamp > now + 3 then Some False
     else do {
       recent \<leftarrow> (case first_client_random s of
          None \<Rightarrow> Some False
        | Some a \<Rightarrow> do { e \<leftarrow> cr_mem s a; Some (timestamp > cr_time e + 3) });
       if recent then Some True
       else if timestamp > now - 10 * 60 then Some True
       else Some False })"

section \<open>The bucket function\<close>

declare bucket_bits.simps [simp del]

definition bucket_of :: "bytes \<Rightarrow> nat" where
  "bucket_of r = push_bit 6 (unat (r ! 0) AND 255) OR (unat (r ! 1) AND 63)"

lemma bucket_of_less: "bucket_of r < 2 ^ 14"
proof -
  have "unat (r ! 0) AND 255 < 2 ^ 8" "unat (r ! 1) AND 63 < 2 ^ 6"
    using nat_and_mask_less [of _ 8] nat_and_mask_less [of _ 6] by simp_all
  then show ?thesis
    unfolding bucket_of_def by (intro nat_or_less) (simp_all add: push_bit_eq_mult)
qed

lemma get_client_random_bucket_eq:
  "2 \<le> length r \<Longrightarrow> get_client_random_bucket r = Some (bucket_of r)"
  using bucket_of_less [of r]
  by (cases r; cases "tl r") (simp_all add: get_client_random_bucket_def RANDOM_HASH_BITS_def bucket_bits.simps
      Let_def bucket_of_def push_bit_eq_mult aget_def)

lemma bucket_of_take [simp]: "bucket_of (take 16 r) = bucket_of r"
  by (simp add: bucket_of_def)

section \<open>Invariant and abstraction\<close>

text \<open>
  \<open>cr_inv s as\<close>: \<open>as\<close> are the live entries, oldest first; the arrival list visits them in this
  order, and every bucket list visits its entries in the opposite order, newest first.
\<close>

abbreviation ent :: "cr_state \<Rightarrow> cr_addr \<Rightarrow> client_random" where
  "ent s a \<equiv> the (cr_mem s a)"

definition bucket_list :: "cr_state \<Rightarrow> cr_addr list \<Rightarrow> nat \<Rightarrow> cr_addr list" where
  "bucket_list s as b = rev (filter (\<lambda>a. bucket_of (cr_random (ent s a)) = b) as)"

definition cr_inv :: "cr_state \<Rightarrow> cr_addr list \<Rightarrow> bool" where
  "cr_inv s as \<longleftrightarrow> distinct as \<and> dom (cr_mem s) = set as \<and> (\<forall>a\<in>set as. a < cr_fresh s) \<and>
     (\<forall>a\<in>set as. length (cr_random (ent s a)) = 16) \<and>
     first_client_random s = (if as = [] then None else Some (hd as)) \<and>
     last_client_random s = (if as = [] then None else Some (last as)) \<and>
     chain (\<lambda>a. cr_next_by_time (ent s a)) (first_client_random s) as \<and>
     (\<forall>b. chain (\<lambda>a. cr_next_by_hash (ent s a)) (client_randoms s b) (bucket_list s as b))"

definition content :: "cr_state \<Rightarrow> cr_addr list \<Rightarrow> (bytes \<times> int) list" where
  "content s as = map (\<lambda>a. (cr_random (ent s a), cr_time (ent s a))) as"

lemma cr_inv_empty: "cr_inv cr_empty []"
  by (simp add: cr_inv_def cr_empty_def bucket_list_def)

lemma cr_mem_ent: "cr_inv s as \<Longrightarrow> a \<in> set as \<Longrightarrow> cr_mem s a = Some (ent s a)"
  unfolding cr_inv_def by (metis domIff option.collapse)

lemma cr_inv_bucket:
  "cr_inv s as \<Longrightarrow> chain (\<lambda>a. cr_next_by_hash (ent s a)) (client_randoms s b) (bucket_list s as b)"
  unfolding cr_inv_def by blast

lemma bucket_list_subset: "x \<in> set (bucket_list s as b) \<Longrightarrow> x \<in> set as"
  by (simp add: bucket_list_def)

subsection \<open>Lookup\<close>

lemma search_bucket_chain:
  assumes "chain (\<lambda>a. cr_next_by_hash (ent s a)) p xs" "\<And>a. a \<in> set xs \<Longrightarrow> cr_mem s a \<noteq> None"
  shows "search_bucket s r p = Some (take 16 r \<in> (\<lambda>a. cr_random (ent s a)) ` set xs)"
  using assms
proof (induction xs arbitrary: p)
  case Nil
  then show ?case by (subst search_bucket.simps) simp
next
  case (Cons x xs)
  then obtain e where "cr_mem s x = Some e" by auto
  with Cons show ?case by (subst search_bucket.simps) auto
qed

lemma have_client_random_ok:
  assumes inv: "cr_inv s as" and len: "16 \<le> length r"
  shows "have_client_random s r = Some (take 16 r \<in> fst ` set (content s as))"
proof -
  let ?b = "bucket_of r"
  have "chain (\<lambda>a. cr_next_by_hash (ent s a)) (client_randoms s ?b) (bucket_list s as ?b)"
    using inv by (simp add: cr_inv_def)
  moreover have "cr_mem s a \<noteq> None" if "a \<in> set (bucket_list s as ?b)" for a
    using that cr_mem_ent [OF inv, of a] by (auto simp: bucket_list_def)
  ultimately have "search_bucket s r (client_randoms s ?b) =
      Some (take 16 r \<in> (\<lambda>a. cr_random (ent s a)) ` set (bucket_list s as ?b))"
    by (rule search_bucket_chain)
  moreover have "take 16 r \<in> (\<lambda>a. cr_random (ent s a)) ` set (bucket_list s as ?b) \<longleftrightarrow>
      take 16 r \<in> fst ` set (content s as)"
    unfolding bucket_list_def content_def
    by (auto simp: image_iff) (metis bucket_of_take)
  ultimately show ?thesis
    using len by (simp add: have_client_random_def get_client_random_bucket_eq)
qed

subsection \<open>Insertion\<close>

lemma add_client_random_ok:
  assumes inv: "cr_inv s as" and len: "16 \<le> length r"
  shows "\<exists>s'. add_client_random s now r = Some s' \<and> cr_inv s' (as @ [cr_fresh s]) \<and>
     content s' (as @ [cr_fresh s]) = content s as @ [(take 16 r, now)]"
proof -
  let ?n = "cr_fresh s" and ?b = "bucket_of r"
  let ?new = "\<lparr>cr_random = take 16 r, cr_next_by_time = None,
    cr_next_by_hash = client_randoms s ?b, cr_time = now\<rparr>"
  let ?link = "\<lambda>m. if as = [] then m else m(last as \<mapsto> (ent s (last as))\<lparr>cr_next_by_time := Some ?n\<rparr>)"
  define s' where "s' = (if as = [] then s\<lparr>first_client_random := Some ?n\<rparr> else s)
    \<lparr>cr_fresh := ?n + 1, cr_mem := (?link (cr_mem s))(?n \<mapsto> ?new), last_client_random := Some ?n, client_randoms := (client_randoms s)(?b := Some ?n)\<rparr>"
  have fresh: "?n \<notin> set as" using inv by (auto simp: cr_inv_def)
  have la: "as \<noteq> [] \<Longrightarrow> last as \<in> set as" by simp
  have add: "add_client_random s now r = Some s'"
  proof (cases "as = []")
    case True
    with inv len show ?thesis
      by (simp add: add_client_random_def s'_def cr_inv_def get_client_random_bucket_eq Let_def)
  next
    case False
    then obtain e where "cr_mem s (last as) = Some e" "last as \<noteq> ?n"
      using cr_mem_ent [OF inv la] la fresh by metis
    with inv len False show ?thesis
      by (simp add: add_client_random_def s'_def cr_inv_def get_client_random_bucket_eq Let_def
          fun_upd_twist)
  qed
  have old: "ent s' a = (if a = last as then (ent s a)\<lparr>cr_next_by_time := Some ?n\<rparr> else ent s a)"
    if "a \<in> set as" for a
    using that fresh by (auto simp: s'_def)
  have new: "ent s' ?n = ?new" by (simp add: s'_def)
  have rnd: "cr_random (ent s' a) = cr_random (ent s a)" "cr_time (ent s' a) = cr_time (ent s a)"
    "cr_next_by_hash (ent s' a) = cr_next_by_hash (ent s a)" if "a \<in> set as" for a
    using old [OF that] by auto
  have bl: "bucket_list s' (as @ [?n]) b = (if b = ?b then [?n] else []) @ bucket_list s as b" for b
    using rnd new by (auto simp: bucket_list_def intro!: filter_cong)
  have "chain (\<lambda>a. cr_next_by_time (ent s' a)) (first_client_random s') (as @ [?n])"
  proof (cases as rule: rev_cases)
    case Nil then show ?thesis using new by (simp add: s'_def)
  next
    case (snoc ys y)
    have "chain (\<lambda>a. cr_next_by_time (ent s' a)) (first_client_random s) (ys @ [y, ?n])"
    proof (rule chain_snoc)
      show "chain (\<lambda>a. cr_next_by_time (ent s a)) (first_client_random s) (ys @ [y])"
        "distinct (ys @ [y])" "?n \<notin> set (ys @ [y])"
        using inv fresh snoc unfolding cr_inv_def by blast+
      then show "cr_next_by_time (ent s' z) = cr_next_by_time (ent s z)" if "z \<in> set ys" for z
        using old [of z] snoc that by auto
      show "cr_next_by_time (ent s' y) = Some ?n" "cr_next_by_time (ent s' ?n) = None"
        using old [of y] snoc new by simp_all
    qed
    then show ?thesis using snoc by (simp add: s'_def)
  qed
  moreover have "chain (\<lambda>a. cr_next_by_hash (ent s' a)) (client_randoms s' b) (bucket_list s' (as @ [?n]) b)" for b
  proof -
    have "chain (\<lambda>a. cr_next_by_hash (ent s' a)) (client_randoms s b) (bucket_list s as b)"
      by (rule chain_cong [OF cr_inv_bucket [OF inv]]) (simp add: rnd bucket_list_subset)
    moreover have "client_randoms s' b = (if b = ?b then Some ?n else client_randoms s b)"
      by (simp add: s'_def)
    moreover have "cr_next_by_hash (ent s' ?n) = client_randoms s ?b" by (simp add: new)
    ultimately show ?thesis by (auto simp: bl)
  qed
  moreover have "dom (cr_mem s') = set (as @ [?n])" "distinct (as @ [?n])"
    using inv fresh la by (auto simp: s'_def cr_inv_def)
  moreover have "first_client_random s' = Some (hd (as @ [?n]))"
    using inv by (cases as) (auto simp: s'_def cr_inv_def)
  ultimately have "cr_inv s' (as @ [?n])"
    using inv len rnd new unfolding cr_inv_def by (auto simp: s'_def less_Suc_eq)
  moreover have "content s' (as @ [?n]) = content s as @ [(take 16 r, now)]"
    using rnd new by (simp add: content_def)
  ultimately show ?thesis using add by blast
qed

subsection \<open>Expiry\<close>

lemma find_slot_chain:
  assumes "chain (\<lambda>a. cr_next_by_hash (ent s a)) p (xs @ [a])" "read_slot s cur = Some p"
    "a \<notin> set xs" "\<And>x. x \<in> set xs \<Longrightarrow> cr_mem s x \<noteq> None"
  shows "find_slot s a cur = Some (if xs = [] then cur else NextOf (last xs))"
  using assms
proof (induction xs arbitrary: p cur)
  case Nil
  then show ?case by (subst find_slot.simps) simp
next
  case (Cons x xs)
  obtain e where "cr_mem s x = Some e" using Cons.prems(4) [of x] by auto
  then have "read_slot s (NextOf x) = Some (cr_next_by_hash (ent s x))" by simp
  then have "find_slot s a (NextOf x) = Some (if xs = [] then NextOf x else NextOf (last xs))"
    using Cons.prems by (intro Cons.IH [of "cr_next_by_hash (ent s x)"]) auto
  with Cons.prems show ?case by (subst find_slot.simps) auto
qed

text \<open>One iteration of the expiry loop: the oldest entry leaves both lists and is freed.\<close>

definition expire_one :: "cr_state \<Rightarrow> cr_addr \<Rightarrow> cr_state option" where
  "expire_one s a = do {
     let s1 = s\<lparr>first_client_random := cr_next_by_time (ent s a)\<rparr>;
     cur \<leftarrow> find_slot s1 a (Bucket (bucket_of (cr_random (ent s a))));
     s2 \<leftarrow> clear_slot s1 cur;
     Some (s2\<lparr>cr_mem := (cr_mem s2)(a := None)\<rparr>) }"

lemma bucket_list_Cons:
  "bucket_list s (a # as) b = bucket_list s as b @ (if bucket_of (cr_random (ent s a)) = b then [a] else [])"
  by (simp add: bucket_list_def)

lemma oldest_ends_bucket: "cr_inv s (a # as) \<Longrightarrow> cr_next_by_hash (ent s a) = None"
proof -
  assume inv: "cr_inv s (a # as)"
  let ?b = "bucket_of (cr_random (ent s a))"
  have "chain (\<lambda>a. cr_next_by_hash (ent s a)) (client_randoms s ?b) (bucket_list s (a # as) ?b)"
    using inv unfolding cr_inv_def by blast
  then show ?thesis by (auto simp: bucket_list_Cons dest: chain_last)
qed

lemma expire_one_eq:
  assumes inv: "cr_inv s (a # as)" and xs: "bucket_list s as (bucket_of (cr_random (ent s a))) = xs"
  shows "expire_one s a = Some (s\<lparr>first_client_random := cr_next_by_time (ent s a),
      client_randoms := (if xs = [] then (client_randoms s)(bucket_of (cr_random (ent s a)) := None)
                         else client_randoms s),
      cr_mem := (if xs = [] then cr_mem s
                 else (cr_mem s)(last xs \<mapsto> (ent s (last xs))\<lparr>cr_next_by_hash := None\<rparr>))(a := None)\<rparr>)"
proof -
  let ?b = "bucket_of (cr_random (ent s a))"
  let ?s1 = "s\<lparr>first_client_random := cr_next_by_time (ent s a)\<rparr>"
  have sub: "set xs \<subseteq> set as" using xs by (auto simp: bucket_list_def)
  have mem: "cr_mem s x \<noteq> None" if "x \<in> set xs" for x
    using sub that cr_mem_ent [OF inv, of x] by auto
  have "chain (\<lambda>a. cr_next_by_hash (ent ?s1 a)) (client_randoms s ?b) (xs @ [a])"
  proof -
    have "chain (\<lambda>a. cr_next_by_hash (ent s a)) (client_randoms s ?b) (bucket_list s (a # as) ?b)"
      using inv unfolding cr_inv_def by blast
    then show ?thesis using xs by (simp add: bucket_list_Cons)
  qed
  moreover have "a \<notin> set xs" using inv sub by (auto simp: cr_inv_def)
  ultimately have fs: "find_slot ?s1 a (Bucket ?b) = Some (if xs = [] then Bucket ?b else NextOf (last xs))"
    using mem by (intro find_slot_chain) auto
  show ?thesis
  proof (cases "xs = []")
    case True then show ?thesis using fs by (simp add: expire_one_def Let_def)
  next
    case False
    then obtain e where "cr_mem s (last xs) = Some e" using mem [of "last xs"] by auto
    with False fs show ?thesis by (simp add: expire_one_def Let_def)
  qed
qed

lemma expire_one_ok:
  assumes inv: "cr_inv s (a # as)" and ne: "as \<noteq> []"
  shows "\<exists>s'. expire_one s a = Some s' \<and> cr_inv s' as \<and> content s' as = content s as \<and>
     last_client_random s' = last_client_random s"
proof -
  let ?b = "bucket_of (cr_random (ent s a))"
  define xs where "xs = bucket_list s as ?b"
  obtain s' where s': "expire_one s a = Some s'" "s' = s\<lparr>first_client_random := cr_next_by_time (ent s a),
      client_randoms := (if xs = [] then (client_randoms s)(?b := None) else client_randoms s),
      cr_mem := (if xs = [] then cr_mem s
                 else (cr_mem s)(last xs \<mapsto> (ent s (last xs))\<lparr>cr_next_by_hash := None\<rparr>))(a := None)\<rparr>"
    using expire_one_eq [OF inv] xs_def by blast
  have sub: "set xs \<subseteq> set as" by (auto simp: xs_def bucket_list_def)
  have da: "distinct (a # as)" and dom: "dom (cr_mem s) = set (a # as)"
    and ct: "chain (\<lambda>a. cr_next_by_time (ent s a)) (first_client_random s) (a # as)"
    and ch: "\<And>b. chain (\<lambda>a. cr_next_by_hash (ent s a)) (client_randoms s b) (bucket_list s (a # as) b)"
    using inv unfolding cr_inv_def by blast+
  have e: "ent s' x = (if xs \<noteq> [] \<and> x = last xs then (ent s x)\<lparr>cr_next_by_hash := None\<rparr> else ent s x)"
    if "x \<in> set as" for x
    using that da s' by auto
  have same: "cr_random (ent s' x) = cr_random (ent s x)" "cr_time (ent s' x) = cr_time (ent s x)"
    "cr_next_by_time (ent s' x) = cr_next_by_time (ent s x)" if "x \<in> set as" for x
    using e [OF that] by auto
  have bl: "bucket_list s' as b = bucket_list s as b" for b
    unfolding bucket_list_def by (intro arg_cong [where f = rev] filter_cong) (auto simp: same)
  have "chain (\<lambda>a. cr_next_by_hash (ent s' a)) (client_randoms s' b) (bucket_list s' as b)" for b
  proof (cases "b = ?b")
    case False
    have "x \<noteq> last xs" if "x \<in> set (bucket_list s as b)" "xs \<noteq> []" for x
      using that False last_in_set [OF that(2)] by (auto simp: xs_def bucket_list_def)
    then have "cr_next_by_hash (ent s' x) = cr_next_by_hash (ent s x)" if "x \<in> set (bucket_list s as b)" for x
      using that e [of x] by (auto simp: bucket_list_def)
    moreover have "chain (\<lambda>a. cr_next_by_hash (ent s a)) (client_randoms s b) (bucket_list s as b)"
      using ch [of b] False by (simp add: bucket_list_Cons)
    moreover have "client_randoms s' b = client_randoms s b" using False s'(2) by simp
    ultimately show ?thesis unfolding bl by (metis (no_types, lifting) chain_cong)
  next
    case True
    show ?thesis
    proof (cases xs rule: rev_cases)
      case Nil
      then have "client_randoms s' b = None" "bucket_list s as b = []" using True s'(2) xs_def by auto
      then show ?thesis by (simp add: bl)
    next
      case (snoc ys y)
      have "chain (\<lambda>a. cr_next_by_hash (ent s' a)) (client_randoms s ?b) (ys @ [y])"
      proof (rule chain_cut)
        show "chain (\<lambda>a. cr_next_by_hash (ent s a)) (client_randoms s ?b) (ys @ [y, a])"
          using ch [of ?b] snoc by (simp add: bucket_list_Cons xs_def)
        show "cr_next_by_hash (ent s' y) = None" using e [of y] sub snoc by auto
        have "distinct xs" using da by (simp add: xs_def bucket_list_def)
        then show "cr_next_by_hash (ent s' z) = cr_next_by_hash (ent s z)" if "z \<in> set ys" for z
          using e [of z] sub snoc that by auto
      qed
      moreover have "client_randoms s' b = client_randoms s ?b" using True snoc s'(2) by simp
      moreover have "bucket_list s as b = ys @ [y]" using True snoc xs_def by simp
      ultimately show ?thesis unfolding bl by simp
    qed
  qed
  moreover have "chain (\<lambda>a. cr_next_by_time (ent s' a)) (cr_next_by_time (ent s a)) as"
    using ct same by (auto intro: chain_cong)
  moreover have "cr_next_by_time (ent s a) = Some (hd as)" using ct ne by (cases as) auto
  moreover have "dom (cr_mem s') = set as"
    using dom da sub s' last_in_set [of xs] by (auto simp del: last_in_set)
  ultimately have "cr_inv s' as"
    using inv ne same s' unfolding cr_inv_def by auto
  moreover have "content s' as = content s as" using same by (simp add: content_def)
  ultimately show ?thesis using s' by auto
qed

text \<open>
  What expiry does to the cached sequence: entries as old as the cache time leave at the front,
  but one entry always stays.
\<close>

fun drop_old :: "int \<Rightarrow> (bytes \<times> int) list \<Rightarrow> (bytes \<times> int) list" where
  "drop_old now (x # y # zs) =
     (if snd x > now - MAX_CLIENT_RANDOM_CACHE_TIME then x # y # zs else drop_old now (y # zs))"
| "drop_old now xs = xs"

lemma delete_old_step:
  assumes inv: "cr_inv s (a # as)" and ne: "as \<noteq> []"
    and old: "cr_time (ent s a) \<le> now - MAX_CLIENT_RANDOM_CACHE_TIME"
    and one: "expire_one s a = Some s'"
  shows "delete_old_client_randoms now s = delete_old_client_randoms now s'"
proof -
  have mem: "cr_mem s a = Some (ent s a)" using cr_mem_ent [OF inv] by simp
  have nh: "cr_next_by_hash (ent s a) = None" using oldest_ends_bucket [OF inv] .
  have len: "length (cr_random (ent s a)) = 16" and f: "first_client_random s = Some a"
    and l: "last_client_random s = Some (last as)" and "a \<notin> set as"
    using inv ne by (auto simp: cr_inv_def)
  moreover from ne have "last as \<in> set as" by simp
  ultimately have "first_client_random s \<noteq> last_client_random s" by auto
  moreover obtain e where "cr_mem s a = Some e" using mem by blast
  ultimately show ?thesis
    using one nh len f old
    by (subst delete_old_client_randoms.simps)
      (auto simp: expire_one_def Let_def get_client_random_bucket_eq bind_eq_Some_conv)
qed

lemma delete_old_client_randoms_ok:
  "cr_inv s as \<Longrightarrow> \<exists>s' as'. delete_old_client_randoms now s = Some s' \<and> cr_inv s' as' \<and>
     content s' as' = drop_old now (content s as)"
proof (induction as arbitrary: s)
  case Nil
  then have "delete_old_client_randoms now s = Some s"
    by (subst delete_old_client_randoms.simps) (simp add: cr_inv_def)
  with Nil show ?case by (auto simp: content_def)
next
  case (Cons a as)
  note mem = cr_mem_ent [OF Cons.prems, of a]
  consider "as = []"
    | b bs where "as = b # bs" "cr_time (ent s a) > now - MAX_CLIENT_RANDOM_CACHE_TIME"
    | b bs where "as = b # bs" "cr_time (ent s a) \<le> now - MAX_CLIENT_RANDOM_CACHE_TIME"
    by (metis linorder_not_less neq_Nil_conv)
  then show ?case
  proof cases
    case 1
    with Cons.prems have "delete_old_client_randoms now s = Some s"
      by (subst delete_old_client_randoms.simps) (simp add: cr_inv_def)
    with Cons.prems 1 show ?thesis by (auto simp: content_def)
  next
    case 2
    obtain e where "cr_mem s a = Some e" using mem by auto
    with 2 Cons.prems have "delete_old_client_randoms now s = Some s"
      by (subst delete_old_client_randoms.simps) (simp add: cr_inv_def)
    with Cons.prems 2 show ?thesis by (auto simp: content_def)
  next
    case 3
    then obtain s' where s': "expire_one s a = Some s'" "cr_inv s' as" "content s' as = content s as"
      using expire_one_ok [OF Cons.prems] by auto
    have "delete_old_client_randoms now s = delete_old_client_randoms now s'"
      using delete_old_step [OF Cons.prems _ _ s'(1)] 3 by auto
    moreover have "drop_old now (content s (a # as)) = drop_old now (content s as)"
      using 3 by (simp add: content_def)
    ultimately show ?thesis using Cons.IH [OF s'(2), of] s'(3) by auto
  qed
qed

lemma is_allowed_timestamp_ok:
  assumes "cr_inv s as"
  shows "is_allowed_timestamp s now ts = Some (ts \<le> now + 3 \<and>
     ((content s as \<noteq> [] \<and> ts > snd (hd (content s as)) + 3) \<or> ts > now - 10 * 60))"
proof (cases as)
  case Nil
  with assms show ?thesis by (auto simp: is_allowed_timestamp_def cr_inv_def content_def)
next
  case (Cons a as')
  obtain e where "cr_mem s a = Some e" using Cons cr_mem_ent [OF assms, of a] by auto
  moreover have "first_client_random s = Some a" using assms Cons by (auto simp: cr_inv_def)
  ultimately show ?thesis using Cons by (auto simp: is_allowed_timestamp_def content_def)
qed

section \<open>The interface the handshake relies on\<close>

text \<open>
  \<open>guarded r t now xs\<close>: a client random \<open>r\<close> first seen at \<open>t\<close> is still cached, or it was cached
  two days ago and everything cached is newer than it.
\<close>

definition times_ok :: "int \<Rightarrow> (bytes \<times> int) list \<Rightarrow> bool" where
  "times_ok now xs \<longleftrightarrow> sorted (map snd xs) \<and> (\<forall>x\<in>set xs. snd x \<le> now)"

definition guarded :: "bytes \<Rightarrow> int \<Rightarrow> int \<Rightarrow> (bytes \<times> int) list \<Rightarrow> bool" where
  "guarded r t now xs \<longleftrightarrow> (r, t) \<in> set xs \<or>
     (t \<le> now - MAX_CLIENT_RANDOM_CACHE_TIME \<and> (\<forall>x\<in>set xs. t \<le> snd x))"

lemma guarded_later: "guarded r t now xs \<Longrightarrow> now \<le> now' \<Longrightarrow> guarded r t now' xs"
  by (auto simp: guarded_def)

lemma times_ok_later: "times_ok now xs \<Longrightarrow> now \<le> now' \<Longrightarrow> times_ok now' xs"
  by (force simp: times_ok_def)

lemma times_ok_snoc: "times_ok now xs \<Longrightarrow> times_ok now (xs @ [(r, now)])"
  by (auto simp: times_ok_def sorted_append)

lemma guarded_snoc: "guarded r t now xs \<Longrightarrow> guarded r t now (xs @ [(r', now)])"
  by (auto simp: guarded_def MAX_CLIENT_RANDOM_CACHE_TIME_def)

lemma times_ok_drop_old: "times_ok now xs \<Longrightarrow> times_ok now (drop_old now xs)"
  by (induction now xs rule: drop_old.induct) (auto simp: times_ok_def)

lemma guarded_drop_old: "times_ok now xs \<Longrightarrow> guarded r t now xs \<Longrightarrow> guarded r t now (drop_old now xs)"
proof (induction now xs rule: drop_old.induct)
  case (1 now x y zs)
  have "guarded r t now (y # zs)" if "snd x \<le> now - MAX_CLIENT_RANDOM_CACHE_TIME"
    using 1 that by (fastforce simp: guarded_def times_ok_def)
  with 1 show ?case by (auto simp: times_ok_def)
qed auto

lemma set_drop_old: "set (drop_old now xs) \<subseteq> set xs"
  by (induction now xs rule: drop_old.induct) auto

lemma drop_old_nonempty [simp]: "drop_old now xs = [] \<longleftrightarrow> xs = []"
  by (induction now xs rule: drop_old.induct) auto

locale replay_cache =
  fixes rep :: "'s \<Rightarrow> (bytes \<times> int) list \<Rightarrow> bool"
    and have_random :: "'s \<Rightarrow> bytes \<Rightarrow> bool option"
    and add_random :: "'s \<Rightarrow> int \<Rightarrow> bytes \<Rightarrow> 's option"
    and expire :: "int \<Rightarrow> 's \<Rightarrow> 's option"
    and allowed :: "'s \<Rightarrow> int \<Rightarrow> int \<Rightarrow> bool option"
  assumes have_law: "rep s xs \<Longrightarrow> 16 \<le> length r \<Longrightarrow> have_random s r = Some (take 16 r \<in> fst ` set xs)"
    and add_law: "rep s xs \<Longrightarrow> 16 \<le> length r \<Longrightarrow>
      \<exists>s'. add_random s now r = Some s' \<and> rep s' (xs @ [(take 16 r, now)])"
    and expire_law: "rep s xs \<Longrightarrow> \<exists>s'. expire now s = Some s' \<and> rep s' (drop_old now xs)"
    and allowed_law: "rep s xs \<Longrightarrow> allowed s now ts = Some (ts \<le> now + 3 \<and>
      ((xs \<noteq> [] \<and> ts > snd (hd xs) + 3) \<or> ts > now - 10 * 60))"
begin

text \<open>
  Recording a client random and expiring old ones: everything guarded stays guarded, the new
  random becomes guarded.
\<close>

lemma record_random:
  assumes "rep s xs" "16 \<le> length r" "times_ok now xs"
  obtains s1 s2 ys where "add_random s now r = Some s1" "expire now s1 = Some s2" "rep s2 ys"
    "times_ok now ys" "guarded (take 16 r) now now ys"
    "\<forall>r' t'. guarded r' t' now xs \<longrightarrow> guarded r' t' now ys"
proof -
  let ?xs = "xs @ [(take 16 r, now)]"
  obtain s1 where s1: "add_random s now r = Some s1" "rep s1 ?xs"
    using add_law [OF assms(1,2)] by blast
  obtain s2 where s2: "expire now s1 = Some s2" "rep s2 (drop_old now ?xs)"
    using expire_law [OF s1(2)] by blast
  have "times_ok now ?xs" using times_ok_snoc [OF assms(3)] .
  moreover have "guarded (take 16 r) now now ?xs" by (simp add: guarded_def)
  ultimately show ?thesis
    using that [OF s1(1) s2] by (simp add: times_ok_drop_old guarded_drop_old guarded_snoc)
qed

text \<open>A random guarded since \<open>t\<close> is either still found, or its timestamp is refused.\<close>

lemma guarded_refused:
  assumes "rep s xs" "16 \<le> length r" "guarded (take 16 r) t now xs" "have_random s r = Some False"
    "ts \<le> t + 3" "add_random s now r = Some s1" "expire now s1 = Some s2"
  shows "allowed s2 now ts = Some False"
proof -
  have "take 16 r \<notin> fst ` set xs" using have_law [OF assms(1,2)] assms(4) by simp
  then have old: "t \<le> now - MAX_CLIENT_RANDOM_CACHE_TIME" and all: "\<forall>x\<in>set xs. t \<le> snd x"
    using assms(3) by (force simp: guarded_def)+
  let ?ys = "drop_old now (xs @ [(take 16 r, now)])"
  have "rep s1 (xs @ [(take 16 r, now)])" using add_law [OF assms(1,2), of now] assms(6) by auto
  from expire_law [OF this, of now] have "rep s2 ?ys" using assms(7) by auto
  moreover have "set ?ys \<subseteq> set (xs @ [(take 16 r, now)])" by (rule set_drop_old)
  then have "\<forall>x\<in>set ?ys. t \<le> snd x"
    using all old by (auto simp: MAX_CLIENT_RANDOM_CACHE_TIME_def)
  then have "t \<le> snd (hd ?ys)" by simp
  ultimately show ?thesis
    using allowed_law [of s2 ?ys now ts] assms(5) old by (simp add: MAX_CLIENT_RANDOM_CACHE_TIME_def)
qed

end

definition cr_rep :: "cr_state \<Rightarrow> (bytes \<times> int) list \<Rightarrow> bool" where
  "cr_rep s xs \<longleftrightarrow> (\<exists>as. cr_inv s as \<and> content s as = xs)"

interpretation randoms: replay_cache cr_rep have_client_random add_client_random
  delete_old_client_randoms is_allowed_timestamp
proof unfold_locales
  fix s xs and r :: bytes and now ts
  assume "cr_rep s xs"
  then obtain as where as: "cr_inv s as" "content s as = xs" by (auto simp: cr_rep_def)
  show "16 \<le> length r \<Longrightarrow> have_client_random s r = Some (take 16 r \<in> fst ` set xs)"
    using have_client_random_ok [OF as(1)] as(2) by simp
  show "16 \<le> length r \<Longrightarrow> \<exists>s'. add_client_random s now r = Some s' \<and> cr_rep s' (xs @ [(take 16 r, now)])"
    using add_client_random_ok [OF as(1)] as(2) by (fastforce simp: cr_rep_def)
  show "\<exists>s'. delete_old_client_randoms now s = Some s' \<and> cr_rep s' (drop_old now xs)"
    using delete_old_client_randoms_ok [OF as(1)] as(2) by (auto simp: cr_rep_def)
  show "is_allowed_timestamp s now ts = Some (ts \<le> now + 3 \<and>
      ((xs \<noteq> [] \<and> ts > snd (hd xs) + 3) \<or> ts > now - 10 * 60))"
    using is_allowed_timestamp_ok [OF as(1)] as(2) by simp
qed

end
