(* ===== verification/ServerHello.thy ===== *)
theory ServerHello
  imports Domains
begin

text \<open>
  TLS ServerHello messages in \<^verbatim>\<open>net/net-tcp-rpc-ext-server.c\<close>: the check of a probed server's
  answer (\<open>check_response\<close>) and the answer the proxy itself sends (\<open>make_server_hello\<close>).
\<close>

section \<open>Checking a server's answer\<close>

definition hello_retry_request :: bytes where
  "hello_retry_request = [0xcf, 0x21, 0xad, 0x74, 0xe5, 0x9a, 0x61, 0x11, 0xbe, 0x1d, 0x8c, 0x02, 0x1e, 0x65, 0xb8,
     0x91, 0xc2, 0xa2, 0x11, 0x16, 0x7a, 0xbb, 0x8c, 0x5e, 0x07, 0x9e, 0x09, 0xe2, 0xc8, 0xa8, 0x33, 0x9c]"

text \<open>
  The out-parameters of \<^verbatim>\<open>check_response\<close>: the result (\<open>ok\<close>), and the variables
  \<^verbatim>\<open>*is_reversed_extension_order\<close> and \<^verbatim>\<open>*encrypted_application_data_length\<close>.
\<close>

record check_result =
  cr_ok :: bool
  cr_reversed :: int
  cr_encrypted_length :: int

text \<open>
  The loop over the extensions: \<open>None\<close> in the inner option is a \<^verbatim>\<open>FAIL\<close>, otherwise the position
  and the sum; \<open>is_rev\<close> is threaded through.
\<close>

function check_extensions ::
  "bytes \<Rightarrow> nat \<Rightarrow> nat \<Rightarrow> int \<Rightarrow> nat \<Rightarrow> (int \<times> (nat \<times> nat) option) option" where
  "check_extensions response server_hello_length pos is_rev sum_ids =
     (if int pos < 5 + int server_hello_length - 4 then do {
        extension_id \<leftarrow> read_length response pos;
        let is_rev2 = (if pos + 2 = 83 then if fst extension_id = 0x2b then 1 else 0 else is_rev);
        if fst extension_id \<noteq> 0x33 \<and> fst extension_id \<noteq> 0x2b then Some (is_rev, None)
        else do {
          extension_length \<leftarrow> read_length response (pos + 2);
          if pos + 4 + fst extension_length > 5 + server_hello_length then Some (is_rev2, None)
          else if fst extension_length \<noteq> (if fst extension_id = 0x33 then 36 else 2) then Some (is_rev2, None)
          else check_extensions response server_hello_length (pos + 4 + fst extension_length) is_rev2
                 (sum_ids + fst extension_id) } }
      else Some (is_rev, Some (pos, sum_ids)))"
  by pat_completeness auto
termination
  by (relation "measure (\<lambda>(r, n, pos, rv, sm). 5 + n - pos)") auto

definition check_response ::
  "bytes \<Rightarrow> nat \<Rightarrow> bytes \<Rightarrow> int \<Rightarrow> int \<Rightarrow> check_result option" where
  "check_response response len request_session_id is_rev enc_len = (
     let fail = \<lparr>cr_ok = False, cr_reversed = is_rev, cr_encrypted_length = enc_len\<rparr>; pos = 0 in
     if pos + 3 > len then Some fail else do {
     b \<leftarrow> mem_is response 0 [0x16, 0x03, 0x03];
     if \<not> b then Some fail else let pos = pos + 3 in
     if pos + 2 > len then Some fail else do {
     (server_hello_length, pos) \<leftarrow> read_length response pos;
     if server_hello_length \<le> 39 then Some fail else
     if pos + server_hello_length > len then Some fail else do {
     b \<leftarrow> mem_is response 5 [0x02, 0x00];
     if \<not> b then Some fail else do {
     b \<leftarrow> mem_is response 9 [0x03, 0x03];
     if \<not> b then Some fail else do {
     b \<leftarrow> mem_is response 11 hello_retry_request;
     if b then Some fail else do {
     x \<leftarrow> aget response 43;
     if x = 0 then Some fail else do {
     b \<leftarrow> mem_is response 43 [0x20];
     if \<not> b then Some fail else
     if server_hello_length \<le> 75 then Some fail else do {
     b \<leftarrow> mem_is response 44 request_session_id;
     if \<not> b then Some fail else do {
     b \<leftarrow> mem_is response 76 [0x13, 0x01, 0x00];
     if \<not> b then Some fail else let pos = pos + 74 in do {
     (extensions_length, pos) \<leftarrow> read_length response pos;
     if extensions_length + 76 \<noteq> server_hello_length then Some fail else do {
     (is_rev, ext) \<leftarrow> check_extensions response server_hello_length pos is_rev 0;
     let fail = fail\<lparr>cr_reversed := is_rev\<rparr>;
     case ext of None \<Rightarrow> Some fail | Some (pos, sum_ids) \<Rightarrow>
     if sum_ids \<noteq> 0x33 + 0x2b then Some fail else
     if pos \<noteq> 5 + server_hello_length then Some fail else
     if pos + 9 > len then Some fail else do {
     b \<leftarrow> mem_is response pos [0x14, 0x03, 0x03, 0x00, 0x01, 0x01];
     if \<not> b then Some fail else do {
     b \<leftarrow> mem_is response (pos + 6) [0x17, 0x03, 0x03];
     if \<not> b then Some fail else let pos = pos + 9 in
     if pos + 2 > len then Some fail else do {
     (enc_len, pos) \<leftarrow> read_length response pos;
     let fail = fail\<lparr>cr_encrypted_length := int enc_len\<rparr>;
     if enc_len = 0 then Some fail else
     if pos + enc_len > len then Some fail else let pos = pos + enc_len in
     if pos \<noteq> len then Some fail else
     Some (fail\<lparr>cr_ok := True\<rparr>) }}}}}}}}}}}}}})"

section \<open>The ServerHello of the proxy\<close>

text \<open>
  Lines 1215 to 1259 of \<open>tcp_rpcs_compact_parse_execute\<close>: the buffer holds the client random and
  the response; \<open>key\<close> and \<open>noise\<close> are the generated public key and the random payload,
  \<open>hmac\<close> is \<^verbatim>\<open>sha256_hmac\<close> with the secret. \<open>None\<close> is a failed assertion or a write outside the
  buffer.
\<close>

fun put_extensions :: "nat list \<Rightarrow> bytes \<Rightarrow> bytes \<Rightarrow> nat \<Rightarrow> nat \<Rightarrow> (bytes \<times> nat) option" where
  "put_extensions [] key buf response_size pos = Some (buf, pos)"
| "put_extensions (e # es) key buf response_size pos =
     (if e = 0x33 then do {
        cassert (pos + 40 \<le> response_size);
        buf \<leftarrow> mem_copy buf pos [0x00, 0x33, 0x00, 0x24, 0x00, 0x1d, 0x00, 0x20];
        buf \<leftarrow> mem_copy buf (pos + 8) (take 32 key);
        put_extensions es key buf response_size (pos + 40) }
      else if e = 0x2b then do {
        cassert (pos + 5 \<le> response_size);
        buf \<leftarrow> mem_copy buf pos [0x00, 0x2b, 0x00, 0x02, 0x03, 0x04];
        put_extensions es key buf response_size (pos + 6) }
      else None)"

definition make_server_hello ::
  "(bytes \<Rightarrow> bytes) \<Rightarrow> domain_info \<Rightarrow> int \<Rightarrow> bytes \<Rightarrow> bytes \<Rightarrow> u8 \<Rightarrow> bytes \<Rightarrow> bytes \<Rightarrow> bytes \<Rightarrow> bytes option" where
  "make_server_hello hmac info encrypted_size client_random client_hello cipher_suite_id key noise buf0 = do {
     cassert (0 \<le> encrypted_size + 138 + 32);
     let response_size = nat (127 + 6 + 5 + encrypted_size);
     let buf = take response_size buf0;
     buf \<leftarrow> mem_copy buf 0 [0x16, 0x03, 0x03, 0x00, 0x7a, 0x02, 0x00, 0x00, 0x76, 0x03, 0x03];
     buf \<leftarrow> mem_copy buf 11 (replicate 32 0);
     buf \<leftarrow> aset buf 43 0x20;
     session_id \<leftarrow> mem_get client_hello 44 32;
     buf \<leftarrow> mem_copy buf 44 session_id;
     buf \<leftarrow> mem_copy buf 76 [0x13, 0x01, 0x00, 0x00, 0x2e];
     buf \<leftarrow> aset buf 77 cipher_suite_id;
     (buf, pos) \<leftarrow> put_extensions
        (if di_is_reversed_extension_order info then [0x2b, 0x33] else [0x33, 0x2b]) key buf response_size 81;
     cassert (pos = 127);
     buf \<leftarrow> mem_copy buf 127 [0x14, 0x03, 0x03, 0x00, 0x01, 0x01, 0x17, 0x03, 0x03];
     buf \<leftarrow> aset buf 136 (word_of_int (encrypted_size div 256));
     buf \<leftarrow> aset buf 137 (word_of_int (encrypted_size mod 256));
     cassert (138 + encrypted_size = int response_size);
     buf \<leftarrow> mem_copy buf 138 (take (nat encrypted_size) noise);
     mem_copy buf 11 (take 32 (hmac (take 32 client_random @ buf))) }"

section \<open>Correctness of the check\<close>

declare check_extensions.simps [simp del]

definition holds :: "bytes \<Rightarrow> nat \<Rightarrow> bytes \<Rightarrow> bool" where
  "holds buf pos str \<longleftrightarrow> take (length str) (drop pos buf) = str"

lemma mem_is_in [simp]: "pos + length str \<le> length buf \<Longrightarrow> mem_is buf pos str = Some (holds buf pos str)"
  by (simp add: mem_is_def holds_def)

lemma holds_nth:
  assumes "holds buf pos str" "i < length str"
  shows "buf ! (pos + i) = str ! i"
proof -
  have eq: "take (length str) (drop pos buf) = str" using assms(1) by (simp add: holds_def)
  have "length (take (length str) (drop pos buf)) = length str" by (simp only: eq)
  then have "pos \<le> length buf" using assms(2) by auto
  moreover have "str ! i = take (length str) (drop pos buf) ! i" by (simp only: eq)
  ultimately show ?thesis using assms(2) by simp
qed

lemma length_hrr [simp]: "length hello_retry_request = 32"
  by (simp add: hello_retry_request_def)

text \<open>The loop on a response that holds the whole ServerHello: no read is out of range.\<close>

definition rev_flag :: "nat \<Rightarrow> nat \<Rightarrow> int \<Rightarrow> int" where
  "rev_flag pos i v = (if pos + 2 = 83 then if i = 0x2b then 1 else 0 else v)"

lemma check_extensions_in:
  assumes "5 + n \<le> length r"
  shows "check_extensions r n pos v k =
    (if 5 + n \<le> pos + 4 then Some (v, Some (pos, k))
     else if u16_at r pos \<noteq> 0x33 \<and> u16_at r pos \<noteq> 0x2b then Some (v, None)
     else if 5 + n < pos + 4 + u16_at r (pos + 2) \<or> u16_at r (pos + 2) \<noteq> (if u16_at r pos = 0x33 then 36 else 2)
       then Some (rev_flag pos (u16_at r pos) v, None)
     else check_extensions r n (pos + 4 + u16_at r (pos + 2)) (rev_flag pos (u16_at r pos) v) (k + u16_at r pos))"
proof (cases "5 + n \<le> pos + 4")
  case True then show ?thesis by (subst check_extensions.simps) simp
next
  case False
  then have r: "read_length r pos = Some (u16_at r pos, pos + 2)"
    "read_length r (pos + 2) = Some (u16_at r (pos + 2), pos + 4)"
    using assms by simp_all
  have lt: "int pos < 5 + int n - 4" using False by simp
  show ?thesis
    unfolding check_extensions.simps [of r n pos v k] Let_def r if_P [OF lt] if_not_P [OF False]
    by (simp only: bind.simps fst_conv rev_flag_def [symmetric] disj_not1 imp_conv_disj if_bool_eq_disj)
      (auto split: if_split_asm)
qed

lemma check_extensions_total:
  "5 + n \<le> length r \<Longrightarrow> \<exists>x. check_extensions r n pos v k = Some x"
proof (induction "5 + n - pos" arbitrary: pos v k rule: less_induct)
  case less
  show ?case
  proof (cases "5 + n \<le> pos + 4")
    case True then show ?thesis using less.prems by (subst check_extensions_in) simp_all
  next
    case False
    with less show ?thesis by (subst check_extensions_in) auto
  qed
qed

text \<open>One iteration of the loop that does not fail.\<close>

definition ext_at :: "bytes \<Rightarrow> nat \<Rightarrow> nat \<Rightarrow> bool" where
  "ext_at r pos i \<longleftrightarrow> u16_at r pos = i \<and> u16_at r (pos + 2) = (if i = 0x33 then 36 else 2)"

lemma check_extensions_stop:
  "5 + n \<le> length r \<Longrightarrow> 5 + n \<le> pos + 4 \<Longrightarrow> check_extensions r n pos v k = Some (v, Some (pos, k))"
  by (subst check_extensions_in) simp_all

lemma check_extensions_go:
  assumes "5 + n \<le> length r" "\<not> 5 + n \<le> pos + 4"
    "check_extensions r n pos v k = Some (v', Some (p, m))"
  obtains i l where "i = 0x33 \<and> l = 40 \<or> i = 0x2b \<and> l = 6" "ext_at r pos i" "pos + l \<le> 5 + n"
    "check_extensions r n (pos + l) (rev_flag pos i v) (k + i) = Some (v', Some (p, m))"
proof -
  let ?i = "u16_at r pos" and ?l = "u16_at r (pos + 2)"
  have g: "?i = 0x33 \<or> ?i = 0x2b" "pos + 4 + ?l \<le> 5 + n" "?l = (if ?i = 0x33 then 36 else 2)"
    "check_extensions r n (pos + 4 + ?l) (rev_flag pos ?i v) (k + ?i) = Some (v', Some (p, m))"
    using assms(3) unfolding check_extensions_in [OF assms(1), of pos] if_not_P [OF assms(2)]
    by (auto split: if_split_asm)
  show ?thesis
    by (rule that [of ?i "4 + ?l"]) (use g in \<open>auto simp: ext_at_def add.assoc\<close>)
qed

lemma check_extensions_go_intro:
  assumes "5 + n \<le> length r" "i = 0x33 \<and> l = 40 \<or> i = 0x2b \<and> l = 6" "ext_at r pos i" "pos + l \<le> 5 + n"
  shows "check_extensions r n pos v k = check_extensions r n (pos + l) (rev_flag pos i v) (k + i)"
  using assms by (subst check_extensions_in) (auto simp: ext_at_def add.commute)

lemma check_extensions_sum_le:
  "5 + n \<le> length r \<Longrightarrow> check_extensions r n pos v k = Some (v', Some (p, m)) \<Longrightarrow> k \<le> m"
proof (induction "5 + n - pos" arbitrary: pos v k rule: less_induct)
  case less
  show ?case
  proof (cases "5 + n \<le> pos + 4")
    case True then show ?thesis using less.prems by (simp add: check_extensions_stop)
  next
    case False
    obtain i l where "i = 0x33 \<and> l = 40 \<or> i = 0x2b \<and> l = 6" "ext_at r pos i" "pos + l \<le> 5 + n"
      "check_extensions r n (pos + l) (rev_flag pos i v) (k + i) = Some (v', Some (p, m))"
      by (rule check_extensions_go [OF less.prems(1) False less.prems(2)])
    then have "k + i \<le> m" using less.hyps [of "pos + l"] less.prems(1) False by auto
    then show ?thesis by simp
  qed
qed

text \<open>
  With the sum of the identifiers fixed, exactly the two extensions occur, in one of two orders, and
  the ServerHello has 122 bytes.
\<close>

definition exts_ok :: "bytes \<Rightarrow> int \<Rightarrow> bool" where
  "exts_ok r v \<longleftrightarrow> v = 0 \<and> ext_at r 81 0x33 \<and> ext_at r 121 0x2b \<or>
     v = 1 \<and> ext_at r 81 0x2b \<and> ext_at r 87 0x33"

lemma check_extensions_two:
  assumes len: "5 + n \<le> length r" and n: "76 \<le> n"
    and run: "check_extensions r n 81 v 0 = Some (v', Some (5 + n, 94))"
  shows "n = 122 \<and> exts_ok r v'"
proof -
  have c1: "\<not> 5 + n \<le> 81 + 4"
    using run check_extensions_stop [OF len, of 81 v 0] by auto
  obtain i l where il: "i = 0x33 \<and> l = 40 \<or> i = 0x2b \<and> l = 6" "ext_at r 81 i" "81 + l \<le> 5 + n"
    and run1: "check_extensions r n (81 + l) (rev_flag 81 i v) (0 + i) = Some (v', Some (5 + n, 94))"
    by (rule check_extensions_go [OF len c1 run])
  have c2: "\<not> 5 + n \<le> 81 + l + 4"
    using run1 check_extensions_stop [OF len, of "81 + l"] il(1) by auto
  obtain j m where jm: "j = 0x33 \<and> m = 40 \<or> j = 0x2b \<and> m = 6" "ext_at r (81 + l) j" "81 + l + m \<le> 5 + n"
    and run2: "check_extensions r n (81 + l + m) (rev_flag (81 + l) j (rev_flag 81 i v)) (0 + i + j)
        = Some (v', Some (5 + n, 94))"
    by (rule check_extensions_go [OF len c2 run1])
  have c3: "5 + n \<le> 81 + l + m + 4"
  proof (rule ccontr)
    assume c: "\<not> ?thesis"
    obtain i3 l3 where "i3 = 0x33 \<and> l3 = 40 \<or> i3 = 0x2b \<and> l3 = 6" "ext_at r (81 + l + m) i3"
      "81 + l + m + l3 \<le> 5 + n"
      "check_extensions r n (81 + l + m + l3)
         (rev_flag (81 + l + m) i3 (rev_flag (81 + l) j (rev_flag 81 i v))) (0 + i + j + i3)
         = Some (v', Some (5 + n, 94))"
      by (rule check_extensions_go [OF len c run2])
    then have "i + j + i3 \<le> 94" "43 \<le> i3" using check_extensions_sum_le [OF len] by force+
    then show False using il(1) jm(1) by auto
  qed
  from run2 have fin: "v' = rev_flag (81 + l) j (rev_flag 81 i v)" "5 + n = 81 + l + m" "94 = i + j"
    unfolding check_extensions_stop [OF len c3] by simp_all
  then show ?thesis using il jm by (auto simp: exts_ok_def rev_flag_def)
qed

lemma check_extensions_run:
  assumes "127 \<le> length r" "exts_ok r v'"
  shows "check_extensions r 122 81 v 0 = Some (v', Some (127, 94))"
proof -
  have len: "5 + 122 \<le> length r" using assms by simp
  from assms(2) consider "v' = 0" "ext_at r 81 0x33" "ext_at r 121 0x2b"
    | "v' = 1" "ext_at r 81 0x2b" "ext_at r 87 0x33"
    unfolding exts_ok_def by blast
  then show ?thesis
  proof cases
    case 1
    then show ?thesis
      using check_extensions_go_intro [OF len, where i = 51 and l = 40 and pos = 81 and v = v and k = 0]
        check_extensions_go_intro [OF len, where i = 43 and l = 6 and pos = 121 and v = "rev_flag 81 51 v" and k = 51]
        check_extensions_stop [OF len, where pos = 127]
      by (simp add: rev_flag_def)
  next
    case 2
    then show ?thesis
      using check_extensions_go_intro [OF len, where i = 43 and l = 6 and pos = 81 and v = v and k = 0]
        check_extensions_go_intro [OF len, where i = 51 and l = 40 and pos = 87 and v = "rev_flag 81 43 v" and k = 43]
        check_extensions_stop [OF len, where pos = 127]
      by (simp add: rev_flag_def)
  qed
qed

text \<open>
  The answers that are accepted, position by position: the record header, the fixed parts of the
  ServerHello, the mirrored session id, the cipher suite, the two extensions, ChangeCipherSpec, and
  one application data record that ends the answer.
\<close>

definition accepted_answer :: "bytes \<Rightarrow> bytes \<Rightarrow> int \<Rightarrow> nat \<Rightarrow> bool" where
  "accepted_answer r session_id reversed n \<longleftrightarrow>
     length r = 138 + n \<and> 0 < n \<and>
     holds r 0 [0x16, 0x03, 0x03] \<and> u16_at r 3 = 122 \<and>
     holds r 5 [0x02, 0x00] \<and> holds r 9 [0x03, 0x03] \<and>
     \<not> holds r 11 hello_retry_request \<and> holds r 43 [0x20] \<and> holds r 44 session_id \<and>
     holds r 76 [0x13, 0x01, 0x00] \<and> u16_at r 79 = 46 \<and> exts_ok r reversed \<and>
     holds r 127 [0x14, 0x03, 0x03, 0x00, 0x01, 0x01] \<and> holds r 133 [0x17, 0x03, 0x03] \<and>
     u16_at r 136 = n"

lemma check_response_total:
  assumes len: "length r = len" and sid: "length sid = 32"
  shows "\<exists>c. check_response r len sid v e = Some c"
proof -
  let ?n = "u16_at r 3"
  have ext: "\<exists>a b. check_extensions r ?n 81 v 0 = Some (a, b)" if "5 + ?n \<le> length r"
    using check_extensions_total [OF that] by fastforce
  show ?thesis
    using len sid ext
    by (auto simp: check_response_def Let_def split: option.splits)
qed

lemma check_response_sound:
  assumes len: "length r = len" and sid: "length sid = 32"
    and run: "check_response r len sid v e = Some c" and ok: "cr_ok c"
  shows "accepted_answer r sid (cr_reversed c) (nat (cr_encrypted_length c))"
proof -
  let ?n = "u16_at r 3"
  have l5: "5 \<le> len" "39 < ?n" "5 + ?n \<le> len"
    using run ok len by (auto simp: check_response_def Let_def split: if_splits)
  obtain w x where ext: "check_extensions r ?n 81 v 0 = Some (w, x)"
    using check_extensions_total [of ?n r 81 v 0] l5 len by auto
  have f: "holds r 0 [0x16, 0x03, 0x03]" "holds r 5 [0x02, 0x00]" "holds r 9 [0x03, 0x03]"
    "\<not> holds r 11 hello_retry_request" "holds r 43 [0x20]" "75 < ?n"
    "holds r 44 sid" "holds r 76 [0x13, 0x01, 0x00]" "u16_at r 79 + 76 = ?n"
    using run ok len l5 sid ext
    by (auto simp: check_response_def Let_def split: if_splits)
  have x43: "r ! 43 = 0x20" using holds_nth [OF f(5), of 0] by simp
  have x: "x = Some (5 + ?n, 94)"
    using run ok len l5 sid ext f x43
    by (auto simp: check_response_def Let_def split: if_splits option.splits)
  then have n: "?n = 122" "exts_ok r w"
    using check_extensions_two [of ?n r v w] ext l5 f(6) len by auto
  have "holds r 127 [0x14, 0x03, 0x03, 0x00, 0x01, 0x01] \<and> holds r 133 [0x17, 0x03, 0x03] \<and>
    len = 138 + u16_at r 136 \<and> 0 < u16_at r 136 \<and> cr_reversed c = w \<and> cr_encrypted_length c = int (u16_at r 136)"
    using run ok len l5 sid ext f n x x43
    by (auto simp: check_response_def Let_def split: if_splits)
  then show ?thesis using f n len by (simp add: accepted_answer_def)
qed

lemma check_response_complete:
  assumes acc: "accepted_answer r sid w n" and sid: "length sid = 32"
  shows "check_response r (138 + n) sid v e = Some \<lparr>cr_ok = True, cr_reversed = w, cr_encrypted_length = int n\<rparr>"
proof -
  note a = acc [unfolded accepted_answer_def]
  have ext: "check_extensions r 122 81 v 0 = Some (w, Some (127, 94))"
    using a by (intro check_extensions_run) simp_all
  have "r ! 43 = 0x20" using holds_nth [of r 43 "[0x20]" 0] a by simp
  then show ?thesis
    using a sid ext by (simp add: check_response_def Let_def)
qed

section \<open>The answer of the proxy\<close>

definition sh_extensions :: "bool \<Rightarrow> bytes \<Rightarrow> bytes" where
  "sh_extensions reversed key = (
     let share = [0x00, 0x33, 0x00, 0x24, 0x00, 0x1d, 0x00, 0x20] @ take 32 key;
         versions = [0x00, 0x2b, 0x00, 0x02, 0x03, 0x04]
     in if reversed then versions @ share else share @ versions)"

definition sh_start :: bytes where
  "sh_start = [0x16, 0x03, 0x03, 0x00, 0x7a, 0x02, 0x00, 0x00, 0x76, 0x03, 0x03]"

definition sh_end :: bytes where
  "sh_end = [0x14, 0x03, 0x03, 0x00, 0x01, 0x01, 0x17, 0x03, 0x03]"

definition server_hello_bytes :: "bytes \<Rightarrow> bytes \<Rightarrow> u8 \<Rightarrow> bytes \<Rightarrow> bytes \<Rightarrow> bytes" where
  "server_hello_bytes server_random session_id cipher exts noise =
     sh_start @ server_random @ [0x20] @ session_id @ [0x13, cipher, 0x00, 0x00, 0x2e] @ exts @ sh_end @
     [byte (length noise div 256), byte (length noise mod 256)] @ noise"

lemma length_sh [simp]: "length sh_start = 11" "length sh_end = 9"
  by (simp_all add: sh_start_def sh_end_def)

lemma length_sh_extensions [simp]: "32 \<le> length key \<Longrightarrow> length (sh_extensions b key) = 46"
  by (simp add: sh_extensions_def Let_def)

lemma fill_copy:
  "length acc = p \<Longrightarrow> p + length d \<le> length b \<Longrightarrow>
     mem_copy (acc @ drop p b) p d = Some ((acc @ d) @ drop (p + length d) b)"
  by (auto simp: mem_copy_def add.commute)

lemma fill_set:
  "length acc = p \<Longrightarrow> p < length b \<Longrightarrow> aset (acc @ drop p b) p x = Some ((acc @ [x]) @ drop (p + 1) b)"
  by (auto simp: list_update_append Cons_nth_drop_Suc [symmetric])

lemma put_extensions_ok:
  assumes "length acc = 81" "127 \<le> length b" "32 \<le> length key" "127 \<le> n"
  shows "put_extensions (if r then [0x2b, 0x33] else [0x33, 0x2b]) key (acc @ drop 81 b) n 81 =
     Some ((acc @ sh_extensions r key) @ drop 127 b, 127)"
proof (cases r)
  case True
  have "mem_copy (acc @ drop 81 b) 81 [0x00, 0x2b, 0x00, 0x02, 0x03, 0x04] =
      Some ((acc @ [0x00, 0x2b, 0x00, 0x02, 0x03, 0x04]) @ drop 87 b)"
    using assms by (subst fill_copy) simp_all
  moreover have "mem_copy ((acc @ [0x00, 0x2b, 0x00, 0x02, 0x03, 0x04]) @ drop 87 b) 87
      [0x00, 0x33, 0x00, 0x24, 0x00, 0x1d, 0x00, 0x20] =
      Some (((acc @ [0x00, 0x2b, 0x00, 0x02, 0x03, 0x04]) @ [0x00, 0x33, 0x00, 0x24, 0x00, 0x1d, 0x00, 0x20]) @ drop 95 b)"
    using assms by (subst fill_copy) simp_all
  moreover have "mem_copy (((acc @ [0x00, 0x2b, 0x00, 0x02, 0x03, 0x04]) @ [0x00, 0x33, 0x00, 0x24, 0x00, 0x1d, 0x00, 0x20]) @ drop 95 b)
      95 (take 32 key) = Some ((((acc @ [0x00, 0x2b, 0x00, 0x02, 0x03, 0x04]) @
        [0x00, 0x33, 0x00, 0x24, 0x00, 0x1d, 0x00, 0x20]) @ take 32 key) @ drop 127 b)"
    using assms by (subst fill_copy) simp_all
  ultimately show ?thesis using True assms by (simp add: sh_extensions_def Let_def)
next
  case False
  have "mem_copy (acc @ drop 81 b) 81 [0x00, 0x33, 0x00, 0x24, 0x00, 0x1d, 0x00, 0x20] =
      Some ((acc @ [0x00, 0x33, 0x00, 0x24, 0x00, 0x1d, 0x00, 0x20]) @ drop 89 b)"
    using assms by (subst fill_copy) simp_all
  moreover have "mem_copy ((acc @ [0x00, 0x33, 0x00, 0x24, 0x00, 0x1d, 0x00, 0x20]) @ drop 89 b) 89 (take 32 key) =
      Some (((acc @ [0x00, 0x33, 0x00, 0x24, 0x00, 0x1d, 0x00, 0x20]) @ take 32 key) @ drop 121 b)"
    using assms by (subst fill_copy) simp_all
  moreover have "mem_copy (((acc @ [0x00, 0x33, 0x00, 0x24, 0x00, 0x1d, 0x00, 0x20]) @ take 32 key) @ drop 121 b)
      121 [0x00, 0x2b, 0x00, 0x02, 0x03, 0x04] = Some ((((acc @ [0x00, 0x33, 0x00, 0x24, 0x00, 0x1d, 0x00, 0x20]) @
        take 32 key) @ [0x00, 0x2b, 0x00, 0x02, 0x03, 0x04]) @ drop 127 b)"
    using assms by (subst fill_copy) simp_all
  ultimately show ?thesis using False assms by (simp add: sh_extensions_def Let_def)
qed

lemma word_of_int_byte:
  "word_of_int (int n div 256) = byte (n div 256)" "word_of_int (int n mod 256) = byte (n mod 256)"
proof -
  have "word_of_int (int m) = (word_of_nat m :: u8)" for m by simp
  from this [of "n div 256"] this [of "n mod 256"]
  show "word_of_int (int n div 256) = byte (n div 256)" "word_of_int (int n mod 256) = byte (n mod 256)"
    unfolding byte_def by (simp_all add: zdiv_int zmod_int)
qed

lemma make_server_hello_eq:
  assumes buf: "138 + n \<le> length buf0" and hello: "76 \<le> length hello" and key: "32 \<le> length key"
    and noise: "n \<le> length noise" and crnd: "32 \<le> length crnd" and hmac: "\<And>x. length (hmac x) = 32"
  shows "make_server_hello hmac info (int n) crnd hello cipher key noise buf0 =
     (let sid = take 32 (drop 44 hello); exts = sh_extensions (di_is_reversed_extension_order info) key;
          msg = \<lambda>rnd. server_hello_bytes rnd sid cipher exts (take n noise)
      in Some (msg (hmac (take 32 crnd @ msg (replicate 32 0)))))"
proof -
  define b where "b = take (138 + n) buf0"
  define sid where "sid = take 32 (drop 44 hello)"
  define exts where "exts = sh_extensions (di_is_reversed_extension_order info) key"
  let ?a1 = "sh_start @ replicate 32 0" let ?a2 = "?a1 @ [0x20]" let ?a3 = "?a2 @ sid"
  let ?a4 = "?a3 @ [0x13, cipher, 0x00, 0x00, 0x2e]" let ?a5 = "?a4 @ exts" let ?a6 = "?a5 @ sh_end"
  let ?a7 = "?a6 @ [byte (n div 256)]" let ?a8 = "?a7 @ [byte (n mod 256)]"
  have lb: "length b = 138 + n" using buf by (simp add: b_def)
  have ls: "length sid = 32" "mem_get hello 44 32 = Some sid" using hello by (simp_all add: sid_def mem_get_def)
  have le: "length exts = 46" using key by (simp add: exts_def)
  have "mem_copy b 0 sh_start = Some (sh_start @ drop 11 b)"
    using fill_copy [of "[]" 0 sh_start b] lb by simp
  moreover have "mem_copy (sh_start @ drop 11 b) 11 (replicate 32 0) = Some (?a1 @ drop 43 b)"
    using lb by (subst fill_copy) simp_all
  moreover have "aset (?a1 @ drop 43 b) 43 0x20 = Some (?a2 @ drop 44 b)"
    using lb by (subst fill_set) simp_all
  moreover have "mem_copy (?a2 @ drop 44 b) 44 sid = Some (?a3 @ drop 76 b)"
    using lb ls by (subst fill_copy) simp_all
  moreover have "mem_copy (?a3 @ drop 76 b) 76 [0x13, 0x01, 0x00, 0x00, 0x2e] =
      Some ((?a3 @ [0x13, 0x01, 0x00, 0x00, 0x2e]) @ drop 81 b)"
    using lb ls by (subst fill_copy) simp_all
  moreover have "aset ((?a3 @ [0x13, 0x01, 0x00, 0x00, 0x2e]) @ drop 81 b) 77 cipher = Some (?a4 @ drop 81 b)"
    using lb ls by (simp add: list_update_append)
  moreover have "put_extensions (if di_is_reversed_extension_order info then [0x2b, 0x33] else [0x33, 0x2b]) key
      (?a4 @ drop 81 b) (138 + n) 81 = Some (?a5 @ drop 127 b, 127)"
    unfolding exts_def using lb ls key by (subst put_extensions_ok) simp_all
  moreover have "mem_copy (?a5 @ drop 127 b) 127 sh_end = Some (?a6 @ drop 136 b)"
    using lb ls le by (subst fill_copy) simp_all
  moreover have "aset (?a6 @ drop 136 b) 136 (byte (n div 256)) = Some (?a7 @ drop 137 b)"
    using lb ls le by (subst fill_set) simp_all
  moreover have "aset (?a7 @ drop 137 b) 137 (byte (n mod 256)) = Some (?a8 @ drop 138 b)"
    using lb ls le by (subst fill_set) simp_all
  moreover have "mem_copy (?a8 @ drop 138 b) 138 (take n noise) = Some (?a8 @ take n noise)"
    using lb ls le noise by (subst fill_copy) simp_all
  moreover have "?a8 @ take n noise = server_hello_bytes (replicate 32 0) sid cipher exts (take n noise)"
    using noise by (simp add: server_hello_bytes_def)
  moreover have "mem_copy (server_hello_bytes (replicate 32 0) sid cipher exts (take n noise)) 11 h =
      Some (server_hello_bytes h sid cipher exts (take n noise))" if "length h = 32" for h
    using that by (simp add: server_hello_bytes_def mem_copy_def)
  moreover have "nat (127 + 6 + 5 + int n) = 138 + n" by simp
  ultimately show ?thesis
    using hmac unfolding make_server_hello_def Let_def sh_start_def [symmetric] sh_end_def [symmetric]
      sid_def [symmetric] exts_def [symmetric] word_of_int_byte
    by (simp only: b_def [symmetric] ls cassert_def bind.simps split) simp
qed

lemma accepted_server_hello_bytes:
  assumes "length rnd = 32" "rnd \<noteq> hello_retry_request" "length sid = 32" "32 \<le> length key"
    "noise \<noteq> []" "length noise < 65536"
  shows "accepted_answer (server_hello_bytes rnd sid 0x01 (sh_extensions rv key) noise) sid
     (if rv then 1 else 0) (length noise)" (is "accepted_answer ?r _ _ _")
proof -
  let ?e = "sh_extensions rv key" and ?n = "length noise"
  let ?t = "sh_end @ [byte (?n div 256), byte (?n mod 256)] @ noise"
  have len: "length ?r = 138 + ?n" using assms by (simp add: server_hello_bytes_def)
  have d: "drop 11 ?r = rnd @ [0x20] @ sid @ [0x13, 0x01, 0x00, 0x00, 0x2e] @ ?e @ ?t"
    "drop 43 ?r = [0x20] @ sid @ [0x13, 0x01, 0x00, 0x00, 0x2e] @ ?e @ ?t"
    "drop 44 ?r = sid @ [0x13, 0x01, 0x00, 0x00, 0x2e] @ ?e @ ?t"
    "drop 76 ?r = [0x13, 0x01, 0x00, 0x00, 0x2e] @ ?e @ ?t" "drop 81 ?r = ?e @ ?t" "drop 127 ?r = ?t"
    using assms by (simp_all add: server_hello_bytes_def)
  have at: "?r ! (p + i) = drop p ?r ! i" if "p \<le> 138 + ?n" for p i using that len by simp
  have "u16_at ?r 3 = 122" "holds ?r 0 [0x16, 0x03, 0x03]" "holds ?r 5 [0x02, 0x00]" "holds ?r 9 [0x03, 0x03]"
    by (simp_all add: server_hello_bytes_def sh_start_def u16_at_def holds_def)
  moreover have "\<not> holds ?r 11 hello_retry_request" "holds ?r 43 [0x20]" "holds ?r 44 sid"
    "holds ?r 76 [0x13, 0x01, 0x00]"
    using assms d by (simp_all add: holds_def)
  moreover have "u16_at ?r 79 = 46" using at [of 76 3] at [of 76 4] d by (simp add: u16_at_def)
  moreover have "holds ?r 127 [0x14, 0x03, 0x03, 0x00, 0x01, 0x01]" using d by (simp add: holds_def sh_end_def)
  moreover have "holds ?r 133 [0x17, 0x03, 0x03]"
  proof -
    have "drop 133 ?r = drop 6 (drop 127 ?r)" by simp
    then show ?thesis unfolding d by (simp add: holds_def sh_end_def)
  qed
  moreover have "u16_at ?r 136 = ?n"
    using at [of 127 9] at [of 127 10] d u16_two_bytes [of ?n] assms by (simp add: u16_at_def sh_end_def)
  moreover have "exts_ok ?r (if rv then 1 else 0)"
    using at [of 81 0] at [of 81 1] at [of 81 2] at [of 81 3] at [of 81 6] at [of 81 7] at [of 81 8]
      at [of 81 9] at [of 81 40] at [of 81 41] at [of 81 42] at [of 81 43] d assms
    by (simp add: exts_ok_def ext_at_def u16_at_def sh_extensions_def Let_def nth_append)
  ultimately show ?thesis using len assms by (simp add: accepted_answer_def)
qed

lemma mem_copy_length: "mem_copy b p d = Some b' \<Longrightarrow> length b' = length b"
  by (auto simp: mem_copy_def split: if_splits)

lemma put_extensions_length:
  "put_extensions es key b n p = Some (b', p') \<Longrightarrow> length b' = length b"
  by (induction es key b n p rule: put_extensions.induct)
    (auto simp: bind_eq_Some_conv mem_copy_length split: if_splits)

lemma make_server_hello_negative:
  assumes "e < 0"
  shows "make_server_hello hmac info e crnd hello cipher key noise buf0 = None"
proof (rule ccontr)
  assume "\<not> ?thesis"
  then obtain m where "make_server_hello hmac info e crnd hello cipher key noise buf0 = Some m" by auto
  then have "137 < nat (127 + 6 + 5 + e)"
    unfolding make_server_hello_def
    by (auto simp: bind_eq_Some_conv Let_def mem_copy_length dest!: mem_copy_length put_extensions_length)
  then show False using assms by simp
qed

section \<open>Properties\<close>

text \<open>
  C26. The check of a server's answer never reads outside the answer and accepts
  exactly the answers of the expected shape; what it stores are the order of the two extensions and
  the length of the application data record.
\<close>

theorem check_response_correct:
  assumes "length response = len" "length session_id = 32"
  shows "\<exists>c. check_response response len session_id v e = Some c \<and>
     (cr_ok c \<longleftrightarrow> (\<exists>n. accepted_answer response session_id (cr_reversed c) n \<and> cr_encrypted_length c = int n))"
proof -
  obtain c where c: "check_response response len session_id v e = Some c"
    using check_response_total [OF assms] by blast
  have "cr_ok c" if "accepted_answer response session_id (cr_reversed c) n" for n
  proof -
    have "len = 138 + n" using that assms(1) by (simp add: accepted_answer_def)
    then have "Some c = Some \<lparr>cr_ok = True, cr_reversed = cr_reversed c, cr_encrypted_length = int n\<rparr>"
      using check_response_complete [OF that assms(2), of v e] c by (simp only:)
    from arg_cong [OF this, of "\<lambda>x. cr_ok (the x)"] show ?thesis by simp
  qed
  moreover have "0 \<le> cr_encrypted_length c" if "cr_ok c"
  proof -
    let ?n = "nat (cr_encrypted_length c)"
    have a: "accepted_answer response session_id (cr_reversed c) ?n"
      using check_response_sound [OF assms c that] .
    then have "len = 138 + ?n" using assms(1) by (simp add: accepted_answer_def)
    then have "Some c = Some \<lparr>cr_ok = True, cr_reversed = cr_reversed c, cr_encrypted_length = int ?n\<rparr>"
      using check_response_complete [OF a assms(2), of v e] c by (simp only:)
    from arg_cong [OF this, of "\<lambda>x. cr_encrypted_length (the x)"] show ?thesis by (simp split: if_splits)
  qed
  ultimately show ?thesis
    using c check_response_sound [OF assms c] by (metis nat_0_le)
qed

theorem check_response_correct_witness:
  "\<exists>c. check_response (replicate 200 0x16) 200 (replicate 32 0) (-1) (-1) = Some c \<and>
     (cr_ok c \<longleftrightarrow> (\<exists>n. accepted_answer (replicate 200 0x16) (replicate 32 0) (cr_reversed c) n \<and>
        cr_encrypted_length c = int n))"
  by (rule check_response_correct) simp_all

text \<open>
  C27. The ServerHello the proxy answers with is built without leaving its buffer, whatever cipher suite the client is given. Its random is
  the HMAC, with the secret, of the client's random and of the answer itself with zeros for the random. The
  answer passes the check that the proxy applies to a genuine server, with the order of the extensions recorded for the domain and
  an application data record of the chosen size, except in the two cases in which that check rejects answers by design: the cipher suite
  is not the first one (the check accepts no other) or the HMAC is the value that marks a hello retry request.
\<close>

theorem make_server_hello_accepted:
  assumes "1 \<le> n" "n < 65536" "138 + n \<le> length buf0" "76 \<le> length hello" "32 \<le> length key"
    "n \<le> length noise" "32 \<le> length crnd" "\<And>x. length (hmac x) = 32"
  shows "\<exists>msg res. make_server_hello hmac info (int n) crnd hello cipher key noise buf0 = Some msg \<and>
     length msg = 138 + n \<and>
     take 32 (drop 11 msg) = hmac (take 32 crnd @ take 11 msg @ replicate 32 0 @ drop 43 msg) \<and>
     check_response msg (138 + n) (take 32 (drop 44 hello)) v e = Some res \<and>
     (cr_ok res \<longleftrightarrow> cipher = 0x01 \<and> take 32 (drop 11 msg) \<noteq> hello_retry_request) \<and>
     (cr_ok res \<longrightarrow> cr_reversed res = (if di_is_reversed_extension_order info then 1 else 0) \<and> cr_encrypted_length res = int n)"
proof -
  let ?sid = "take 32 (drop 44 hello)" and ?x = "sh_extensions (di_is_reversed_extension_order info) key"
  define rnd where "rnd = hmac (take 32 crnd @ server_hello_bytes (replicate 32 0) ?sid cipher ?x (take n noise))"
  define msg where "msg = server_hello_bytes rnd ?sid cipher ?x (take n noise)"
  have m: "make_server_hello hmac info (int n) crnd hello cipher key noise buf0 = Some msg"
    using make_server_hello_eq [OF assms(3-8)] by (simp add: Let_def msg_def rnd_def)
  have l: "length rnd = 32" "length ?sid = 32" "length (take n noise) = n" using assms by (simp_all add: rnd_def)
  have len: "length msg = 138 + n" using l assms(5) by (simp add: msg_def server_hello_bytes_def)
  have r: "take 32 (drop 11 msg) = rnd" "take 11 msg @ replicate 32 0 @ drop 43 msg = server_hello_bytes (replicate 32 0) ?sid cipher ?x (take n noise)"
    "holds msg 76 [0x13, 0x01, 0x00] \<longleftrightarrow> cipher = 0x01"
    using l by (simp_all add: msg_def server_hello_bytes_def holds_def sh_start_def)
  obtain res where c: "check_response msg (138 + n) ?sid v e = Some res" using check_response_total [OF len l(2)] by blast
  have no: "cipher = 0x01 \<and> rnd \<noteq> hello_retry_request" if "cr_ok res"
    using check_response_sound [OF len l(2) c that] r l by (auto simp: accepted_answer_def holds_def)
  have yes: "res = \<lparr>cr_ok = True, cr_reversed = (if di_is_reversed_extension_order info then 1 else 0), cr_encrypted_length = int n\<rparr>"
    if "cipher = 0x01" "rnd \<noteq> hello_retry_request"
  proof -
    have "accepted_answer msg ?sid (if di_is_reversed_extension_order info then 1 else 0) (length (take n noise))"
      unfolding msg_def that(1) by (rule accepted_server_hello_bytes) (use assms l that in auto)
    from check_response_complete [OF this [unfolded l(3)] l(2), of v e] show ?thesis using c by simp
  qed
  show ?thesis
    using m len r(1) c no yes by (intro exI [of _ msg] exI [of _ res]) (auto simp: r(2) rnd_def)
qed

theorem make_server_hello_accepted_witness:
  "\<exists>msg res. make_server_hello (\<lambda>_. replicate 32 7) (the (dom_mem (tcp_rpc_add_proxy_domain dom_empty [0x61]) 0))
       (int 9) (replicate 32 1) (replicate 517 2) 0x01 (replicate 32 3) (replicate 9 4) (replicate 147 0) = Some msg \<and>
     check_response msg (138 + 9) (take 32 (drop 44 (replicate 517 2))) (-1) (-1) = Some res \<and> cr_ok res"
proof -
  let ?hello = "replicate 517 2" and ?info = "the (dom_mem (tcp_rpc_add_proxy_domain dom_empty [0x61]) 0)"
  have "\<exists>msg res. make_server_hello (\<lambda>_. replicate 32 7) ?info (int 9) (replicate 32 1) ?hello 0x01 (replicate 32 3) (replicate 9 4) (replicate 147 0) = Some msg \<and>
     length msg = 138 + 9 \<and> take 32 (drop 11 msg) = replicate 32 7 \<and>
     check_response msg (138 + 9) (take 32 (drop 44 ?hello)) (-1) (-1) = Some res \<and>
     (cr_ok res \<longleftrightarrow> (0x01 :: u8) = 0x01 \<and> take 32 (drop 11 msg) \<noteq> hello_retry_request) \<and>
     (cr_ok res \<longrightarrow> cr_reversed res = (if di_is_reversed_extension_order ?info then 1 else 0) \<and> cr_encrypted_length res = int 9)"
    by (rule make_server_hello_accepted) simp_all
  moreover have "replicate 32 7 \<noteq> hello_retry_request" by (auto simp: hello_retry_request_def dest: arg_cong [where f = hd])
  ultimately show ?thesis by metis
qed

text \<open>
  The size of the emulated record is kept in a C short. When all answers of the
  probed server carry an application data record of 32768 bytes or more, the size becomes
  negative and answering a ClientHello for this domain aborts.
\<close>

theorem oversized_record_aborts:
  assumes "32768 \<le> n" "n < 65536"
  shows "\<exists>info'. update_domain_info info (replicate TRIES (0, int n)) = (True, info') \<and>
     make_server_hello hmac info' (get_domain_server_hello_encrypted_size info' r)
       crnd hello cipher key noise buf0 = None"
proof -
  define q where "q = foldl probe_finished probe_start (replicate TRIES (0, int n))"
  have q: "finished_count q = TRIES" "enc_min q = int n" "enc_max q = int n"
    using probe_stats_range [of "replicate TRIES (0, int n)" "int n" "int n"]
    by (auto simp: q_def TRIES_def Let_def)
  have "sint (word_of_int (int n - 65536) :: u16) = int n - 65536"
    using assms by (simp add: signed_of_int signed_take_bit_int_eq_self del: of_int_diff)
  moreover have "(word_of_int (int n - 65536) :: u16) = word_of_int (int n)" by simp
  ultimately have "sint (word_of_int (int n) :: u16) = int n - 65536" by (simp only:)
  then show ?thesis
    using q assms
    by (auto simp: update_domain_info_def q_def [symmetric] Let_def get_domain_server_hello_encrypted_size_def
        intro!: make_server_hello_negative)
qed

theorem oversized_record_aborts_witness:
  "\<exists>info'. update_domain_info (the (dom_mem (tcp_rpc_add_proxy_domain dom_empty [0x61]) 0))
       (replicate TRIES (0, int 40000)) = (True, info') \<and>
     make_server_hello (\<lambda>_. replicate 32 7) info' (get_domain_server_hello_encrypted_size info' 0)
       (replicate 32 1) (replicate 517 2) 1 (replicate 32 3) (replicate 9 4) (replicate 147 0) = None"
  by (rule oversized_record_aborts) simp_all

end
