(* ===== verification/TlsRecord.thy ===== *)
theory TlsRecord
  imports Prelude
begin

text \<open>
  The encryption stages of a connection, \<^verbatim>\<open>net/net-tcp-connections.c\<close>: AES-CTR for client connections,
  inside TLS application data records when the connection is in fake-TLS mode, and AES-CBC on whole
  blocks for connections to other RPC servers.

  The message chains are the byte sequences they hold. AES-CTR is xor with a key stream
  \<open>ks\<close>, which the EVP context advances; \<open>read_pos\<close> and \<open>write_pos\<close> are the positions in it. AES-CBC is
  a function \<open>cbc\<close> of the context and a whole number of blocks, which returns the new context.
\<close>

section \<open>State\<close>

record tcp_conn =
  c_in :: bytes
  c_in_u :: bytes
  c_out :: bytes
  c_out_p :: bytes
  c_is_tls :: bool
  left_tls_packet_length :: int
  c_error :: bool
  read_pos :: nat
  write_pos :: nat

definition crypt :: "(nat \<Rightarrow> u8) \<Rightarrow> nat \<Rightarrow> bytes \<Rightarrow> bytes" where
  "crypt ks pos xs = map2 (\<lambda>x k. x XOR k) xs (map ks [pos ..< pos + length xs])"

section \<open>Operations\<close>

definition MAX_PACKET_LENGTH :: nat where
  "MAX_PACKET_LENGTH = 1425"

partial_function (option) ctr128_encrypt_output :: "(nat \<Rightarrow> u8) \<Rightarrow> tcp_conn \<Rightarrow> tcp_conn option" where
  "ctr128_encrypt_output ks c =
     (if c_out c = [] then Some c else do {
        (len, c) \<leftarrow>
          (if c_is_tls c then do {
             cassert (left_tls_packet_length c \<ge> 0);
             let len = (if MAX_PACKET_LENGTH < length (c_out c) then MAX_PACKET_LENGTH else length (c_out c));
             Some (len, c\<lparr>c_out_p := c_out_p c @
               [0x17, 0x03, 0x03, word_of_nat (drop_bit 8 len), word_of_nat (len AND 255)]\<rparr>) }
           else Some (length (c_out c), c));
        ctr128_encrypt_output ks
          (c\<lparr>c_out_p := c_out_p c @ crypt ks (write_pos c) (take len (c_out c)),
             write_pos := write_pos c + len, c_out := drop len (c_out c)\<rparr>) })"

definition record_length :: "u8 \<Rightarrow> u8 \<Rightarrow> int" where
  "record_length a b = 256 * int (unat a) + int (unat b)"

definition clip :: "int \<Rightarrow> nat \<Rightarrow> nat" where
  "clip left len = (if left < int len then nat left else len)"

text \<open>The result is the number of bytes the parser still needs, and the connection.\<close>

partial_function (option) ctr128_decrypt_input :: "(nat \<Rightarrow> u8) \<Rightarrow> tcp_conn \<Rightarrow> (nat \<times> tcp_conn) option" where
  "ctr128_decrypt_input ks c =
     (if c_in_u c = [] then Some (0, c)
      else if c_is_tls c then do {
        cassert (left_tls_packet_length c \<ge> 0);
        if left_tls_packet_length c = 0 \<and> length (c_in_u c) < 5 then Some (5 - length (c_in_u c), c)
        else if left_tls_packet_length c = 0 \<and> take 3 (c_in_u c) \<noteq> [0x17, 0x03, 0x03] then
          Some (0, c\<lparr>c_error := True\<rparr>)
        else do {
          let c = (if left_tls_packet_length c = 0 then
                     c\<lparr>left_tls_packet_length := record_length (c_in_u c ! 3) (c_in_u c ! 4),
                       c_in_u := drop 5 (c_in_u c)\<rparr>
                   else c);
          let len = clip (left_tls_packet_length c) (length (c_in_u c));
          let c = c\<lparr>left_tls_packet_length := left_tls_packet_length c - int len\<rparr>;
          ctr128_decrypt_input ks
            (c\<lparr>c_in := c_in c @ crypt ks (read_pos c) (take len (c_in_u c)),
               read_pos := read_pos c + len, c_in_u := drop len (c_in_u c)\<rparr>) } }
      else ctr128_decrypt_input ks
        (c\<lparr>c_in := c_in c @ crypt ks (read_pos c) (c_in_u c),
           read_pos := read_pos c + length (c_in_u c), c_in_u := []\<rparr>))"

definition ctr128_needed_output_bytes :: "tcp_conn \<Rightarrow> nat" where
  "ctr128_needed_output_bytes c = 0"

text \<open>AES-CBC: only whole blocks of 16 bytes are processed.\<close>

definition aes_encrypt_output ::
  "('k \<Rightarrow> bytes \<Rightarrow> bytes \<times> 'k) \<Rightarrow> 'k \<Rightarrow> tcp_conn \<Rightarrow> nat \<times> 'k \<times> tcp_conn" where
  "aes_encrypt_output cbc key c = (
     let l = length (c_out c) - length (c_out c) mod 16;
         (enc, key) = (if l \<noteq> 0 then cbc key (take l (c_out c)) else ([], key));
         c = c\<lparr>c_out := drop l (c_out c), c_out_p := c_out_p c @ enc\<rparr>
     in ((16 - length (c_out c) mod 16) mod 16, key, c))"

definition aes_decrypt_input ::
  "('k \<Rightarrow> bytes \<Rightarrow> bytes \<times> 'k) \<Rightarrow> 'k \<Rightarrow> tcp_conn \<Rightarrow> nat \<times> 'k \<times> tcp_conn" where
  "aes_decrypt_input cbc key c = (
     let l = length (c_in_u c) - length (c_in_u c) mod 16;
         (dec, key) = (if l \<noteq> 0 then cbc key (take l (c_in_u c)) else ([], key));
         c = c\<lparr>c_in_u := drop l (c_in_u c), c_in := c_in c @ dec\<rparr>
     in ((16 - length (c_in_u c) mod 16) mod 16, key, c))"

definition aes_needed_output_bytes :: "tcp_conn \<Rightarrow> nat" where
  "aes_needed_output_bytes c = (16 - length (c_out c) mod 16) mod 16"

lemma record_length_nonneg [simp]: "0 \<le> record_length a b"
  by (simp add: record_length_def)

section \<open>The key stream\<close>

lemma length_crypt [simp]: "length (crypt ks p xs) = length xs"
  by (simp add: crypt_def)

lemma crypt_Nil [simp]: "crypt ks p [] = []"
  by (simp add: crypt_def)

lemma crypt_append: "crypt ks p (xs @ ys) = crypt ks p xs @ crypt ks (p + length xs) ys"
proof -
  have "[p ..< p + length (xs @ ys)] = [p ..< p + length xs] @ [p + length xs ..< p + length xs + length ys]"
    by (metis add.assoc length_append upt_add_eq_append le_add1)
  then show ?thesis by (simp add: crypt_def)
qed

lemma crypt_crypt [simp]: "crypt ks p (crypt ks p xs) = xs"
  by (rule nth_equalityI) (simp_all add: crypt_def xor.assoc)

section \<open>Decoding byte by byte\<close>

text \<open>
  The record decoder as an automaton that consumes one byte at a time; \<open>c_in_u\<close> collects the bytes
  of a record header that is not complete.
\<close>

definition decode_byte :: "(nat \<Rightarrow> u8) \<Rightarrow> tcp_conn \<Rightarrow> u8 \<Rightarrow> tcp_conn" where
  "decode_byte ks c b =
     (if \<not> c_is_tls c \<or> left_tls_packet_length c > 0 then
        c\<lparr>c_in := c_in c @ [b XOR ks (read_pos c)], read_pos := read_pos c + 1,
          left_tls_packet_length := left_tls_packet_length c - (if c_is_tls c then 1 else 0)\<rparr>
      else
        let h = c_in_u c @ [b] in
        if length h < 5 then c\<lparr>c_in_u := h\<rparr>
        else if take 3 h \<noteq> [0x17, 0x03, 0x03] then c\<lparr>c_in_u := h, c_error := True\<rparr>
        else c\<lparr>c_in_u := [], left_tls_packet_length := record_length (h ! 3) (h ! 4)\<rparr>)"

text \<open>States between two calls.\<close>

definition settled :: "tcp_conn \<Rightarrow> bool" where
  "settled c \<longleftrightarrow> left_tls_packet_length c \<ge> 0 \<and>
     (c_in_u c \<noteq> [] \<longrightarrow> c_is_tls c \<and> left_tls_packet_length c = 0 \<and>
       (length (c_in_u c) < 5 \<or> take 3 (c_in_u c) \<noteq> [0x17, 0x03, 0x03] \<and> c_error c))"

lemma decode_byte_settled: "settled c \<Longrightarrow> settled (decode_byte ks c b)"
  by (auto simp: settled_def decode_byte_def Let_def)

lemma decode_plain:
  "\<not> c_is_tls c \<Longrightarrow> foldl (decode_byte ks) c bs =
     c\<lparr>c_in := c_in c @ crypt ks (read_pos c) bs, read_pos := read_pos c + length bs\<rparr>"
proof (induction bs rule: rev_induct)
  case (snoc b bs)
  then show ?case by (simp add: decode_byte_def crypt_append) (simp add: crypt_def)
qed simp

lemma decode_payload:
  "c_is_tls c \<Longrightarrow> int (length bs) \<le> left_tls_packet_length c \<Longrightarrow> foldl (decode_byte ks) c bs =
     c\<lparr>c_in := c_in c @ crypt ks (read_pos c) bs, read_pos := read_pos c + length bs,
       left_tls_packet_length := left_tls_packet_length c - int (length bs)\<rparr>"
proof (induction bs rule: rev_induct)
  case (snoc b bs)
  then show ?case by (simp add: decode_byte_def crypt_append) (simp add: crypt_def)
qed simp

lemma decode_short_header:
  "c_is_tls c \<Longrightarrow> left_tls_packet_length c = 0 \<Longrightarrow> length (c_in_u c @ bs) < 5 \<Longrightarrow>
     foldl (decode_byte ks) c bs = c\<lparr>c_in_u := c_in_u c @ bs\<rparr>"
proof (induction bs rule: rev_induct)
  case (snoc b bs)
  then show ?case by (simp add: decode_byte_def Let_def)
qed simp

lemma decode_bad:
  "c_is_tls c \<Longrightarrow> left_tls_packet_length c = 0 \<Longrightarrow> 4 \<le> length (c_in_u c) \<Longrightarrow>
   take 3 (c_in_u c) \<noteq> [0x17, 0x03, 0x03] \<Longrightarrow> bs \<noteq> [] \<Longrightarrow>
     foldl (decode_byte ks) c bs = c\<lparr>c_in_u := c_in_u c @ bs, c_error := True\<rparr>"
proof (induction bs rule: rev_induct)
  case (snoc b bs)
  then show ?case by (cases "bs = []") (simp_all add: decode_byte_def Let_def)
qed simp

section \<open>The decoder refines the automaton\<close>

lemma decrypt_empty: "c_in_u c = [] \<Longrightarrow> ctr128_decrypt_input ks c = Some (0, c)"
  by (subst ctr128_decrypt_input.simps) simp

lemma upd_order:
  "c\<lparr>left_tls_packet_length := l, c_in := i, read_pos := p, c_in_u := u\<rparr> =
   c\<lparr>c_in := i, read_pos := p, c_in_u := u, left_tls_packet_length := l\<rparr>"
  by simp

lemma upd_order2:
  "c\<lparr>c_in := i, read_pos := p, c_in_u := u, left_tls_packet_length := l\<rparr> =
   c\<lparr>c_in := i, read_pos := p, left_tls_packet_length := l, c_in_u := u\<rparr>"
  by simp

lemma upd_order3:
  "c\<lparr>left_tls_packet_length := l, c_in_u := u\<rparr> = c\<lparr>c_in_u := u, left_tls_packet_length := l\<rparr>"
  by simp

lemma decrypt_payload:
  assumes "c_is_tls c" "left_tls_packet_length c > 0" "c_in_u c = xs @ ys" "xs \<noteq> []"
    "int (length xs) = left_tls_packet_length c \<or> int (length xs) < left_tls_packet_length c \<and> ys = []"
  shows "ctr128_decrypt_input ks c = ctr128_decrypt_input ks
     (c\<lparr>c_in := c_in c @ crypt ks (read_pos c) xs, read_pos := read_pos c + length xs, c_in_u := ys,
        left_tls_packet_length := left_tls_packet_length c - int (length xs)\<rparr>)"
proof -
  have len: "clip (left_tls_packet_length c) (length xs + length ys) = length xs"
    using assms by (auto simp: clip_def)
  have "ctr128_decrypt_input ks c = ctr128_decrypt_input ks
     (c\<lparr>left_tls_packet_length := left_tls_packet_length c - int (length xs),
        c_in := c_in c @ crypt ks (read_pos c) xs, read_pos := read_pos c + length xs, c_in_u := ys\<rparr>)"
    using assms(1-4) by (subst ctr128_decrypt_input.simps) (simp add: Let_def len)
  then show ?thesis by (simp add: upd_order)
qed

lemma decrypt_header_raw:
  fixes h defines "L \<equiv> record_length (h ! 3) (h ! 4)"
  assumes "c_is_tls c" "left_tls_packet_length c = 0" "c_in_u c = h @ ys" "length h = 5"
    "take 3 h = [0x17, 0x03, 0x03]"
  shows "ctr128_decrypt_input ks c = ctr128_decrypt_input ks
     (c\<lparr>c_in_u := ys, left_tls_packet_length := L,
        c_in := c_in c @ crypt ks (read_pos c) (take (clip L (length ys)) ys),
        read_pos := read_pos c + clip L (length ys),
        c_in_u := drop (clip L (length ys)) ys,
        left_tls_packet_length := L - int (clip L (length ys))\<rparr>)"
proof -
  have h: "(h @ ys) ! 3 = h ! 3" "(h @ ys) ! 4 = h ! 4" using assms(5) by (simp_all add: nth_append)
  have ne: "h @ ys \<noteq> []" "\<not> length (h @ ys) < 5" "take 3 (h @ ys) = [0x17, 0x03, 0x03]" "drop 5 (h @ ys) = ys"
    using assms by auto
  show ?thesis
    unfolding ctr128_decrypt_input.simps [of ks c] assms(4) Let_def
    using assms(2,3) ne by (simp add: h L_def [symmetric] upd_order del: append_is_Nil_conv)
qed

lemma decrypt_header:
  assumes "c_is_tls c" "left_tls_packet_length c = 0" "c_in_u c = h @ ys" "length h = 5"
    "take 3 h = [0x17, 0x03, 0x03]"
  shows "ctr128_decrypt_input ks c = ctr128_decrypt_input ks
     (c\<lparr>c_in_u := ys, left_tls_packet_length := record_length (h ! 3) (h ! 4)\<rparr>)"
    (is "_ = ctr128_decrypt_input ks ?c")
proof -
  let ?L = "record_length (h ! 3) (h ! 4)"
  let ?len = "clip ?L (length ys)"
  have "ctr128_decrypt_input ks c = ctr128_decrypt_input ks
     (?c\<lparr>c_in := c_in c @ crypt ks (read_pos c) (take ?len ys), read_pos := read_pos c + ?len,
         c_in_u := drop ?len ys, left_tls_packet_length := ?L - int ?len\<rparr>)"
    using decrypt_header_raw [OF assms] .
  also have "\<dots> = ctr128_decrypt_input ks ?c"
  proof (cases "?L = 0 \<or> ys = []")
    case True
    then have "?len = 0" by (auto simp: clip_def)
    then show ?thesis by (simp only:) (simp add: assms)
  next
    case False
    then have "?L > 0" "ys \<noteq> []" by (auto simp: less_le)
    moreover have "ctr128_decrypt_input ks ?c = ctr128_decrypt_input ks
        (?c\<lparr>c_in := c_in ?c @ crypt ks (read_pos ?c) (take ?len ys), read_pos := read_pos ?c + length (take ?len ys),
          c_in_u := drop ?len ys, left_tls_packet_length := left_tls_packet_length ?c - int (length (take ?len ys))\<rparr>)"
      using calculation assms by (intro decrypt_payload) (auto simp: clip_def)
    moreover have "length (take ?len ys) = ?len" by (simp add: clip_def)
    ultimately show ?thesis by simp
  qed
  finally show ?thesis .
qed

lemma decrypt_bad:
  assumes "c_is_tls c" "left_tls_packet_length c = 0" "5 \<le> length (c_in_u c)"
    "take 3 (c_in_u c) \<noteq> [0x17, 0x03, 0x03]"
  shows "ctr128_decrypt_input ks c = Some (0, c\<lparr>c_error := True\<rparr>)"
  using assms by (subst ctr128_decrypt_input.simps) auto

lemma decrypt_short:
  assumes "c_is_tls c" "left_tls_packet_length c = 0" "length (c_in_u c) < 5" "c_in_u c \<noteq> []"
  shows "ctr128_decrypt_input ks c = Some (5 - length (c_in_u c), c)"
  using assms by (subst ctr128_decrypt_input.simps) auto

text \<open>The last byte of a header.\<close>

lemma decode_header_byte:
  assumes "c_is_tls c" "left_tls_packet_length c = 0" "length (c_in_u c) = 4"
    "take 3 (c_in_u c) = [0x17, 0x03, 0x03]"
  shows "decode_byte ks c b = c\<lparr>c_in_u := [], left_tls_packet_length :=
     record_length (c_in_u c ! 3) b\<rparr>"
  using assms by (simp add: decode_byte_def Let_def nth_append)

lemma decrypt_refines:
  "settled c \<Longrightarrow> \<exists>n. ctr128_decrypt_input ks (c\<lparr>c_in_u := c_in_u c @ bs\<rparr>) = Some (n, foldl (decode_byte ks) c bs)"
proof (induction "length bs" arbitrary: c bs rule: less_induct)
  case less
  let ?c = "c\<lparr>c_in_u := c_in_u c @ bs\<rparr>"
  consider (plain) "\<not> c_is_tls c" "c_in_u c = []"
    | (payload) "c_is_tls c" "left_tls_packet_length c > 0" "c_in_u c = []"
    | (short) "c_is_tls c" "left_tls_packet_length c = 0" "length (c_in_u c @ bs) < 5"
    | (dead) "c_is_tls c" "left_tls_packet_length c = 0" "5 \<le> length (c_in_u c)"
        "take 3 (c_in_u c) \<noteq> [0x17, 0x03, 0x03]" "c_error c"
    | (header) "c_is_tls c" "left_tls_packet_length c = 0" "length (c_in_u c) < 5" "5 \<le> length (c_in_u c @ bs)"
    using less.prems unfolding settled_def
    by (cases "c_is_tls c"; cases "left_tls_packet_length c = 0"; cases "length (c_in_u c @ bs) < 5"; force)
  then show ?case
  proof cases
    case plain
    show ?thesis
    proof (cases "bs = []")
      case False
      with plain show ?thesis
        by (subst ctr128_decrypt_input.simps) (simp add: decrypt_empty decode_plain)
    qed (use plain in \<open>simp add: decrypt_empty\<close>)
  next
    case payload
    show ?thesis
    proof (cases "bs = []")
      case False
      define k where "k = min (nat (left_tls_packet_length c)) (length bs)"
      have k: "0 < k" "k \<le> length bs" "int k \<le> left_tls_packet_length c"
        using False payload by (auto simp: k_def)
      let ?d = "foldl (decode_byte ks) c (take k bs)"
      have d: "?d = c\<lparr>c_in := c_in c @ crypt ks (read_pos c) (take k bs), read_pos := read_pos c + k,
          left_tls_packet_length := left_tls_packet_length c - int k\<rparr>"
        using decode_payload [OF payload(1), of "take k bs"] k by simp
      have st: "settled ?d" using d payload k by (simp add: settled_def)
      have "length (drop k bs) < length bs" using k by simp
      from less.hyps [OF this st] obtain n where n: "ctr128_decrypt_input ks (?d\<lparr>c_in_u := c_in_u ?d @ drop k bs\<rparr>) =
          Some (n, foldl (decode_byte ks) ?d (drop k bs))"
        by blast
      have "ctr128_decrypt_input ks ?c = ctr128_decrypt_input ks
          (?c\<lparr>c_in := c_in ?c @ crypt ks (read_pos ?c) (take k bs), read_pos := read_pos ?c + length (take k bs),
             c_in_u := drop k bs, left_tls_packet_length := left_tls_packet_length ?c - int (length (take k bs))\<rparr>)"
        using payload k False by (intro decrypt_payload) (auto simp: k_def)
      moreover have "foldl (decode_byte ks) ?d (drop k bs) = foldl (decode_byte ks) c bs"
        by (metis append_take_drop_id foldl_append)
      ultimately show ?thesis using n d k payload by (simp add: upd_order2)
    qed (use payload in \<open>simp add: decrypt_empty\<close>)
  next
    case short
    then show ?thesis
      using decode_short_header [OF short, of ks] decrypt_short [of ?c ks] decrypt_empty [of ?c ks]
      by (cases "c_in_u c @ bs = []") auto
  next
    case dead
    then show ?thesis
      using decode_bad [of c bs ks] decrypt_bad [of ?c ks] by (cases "bs = []") auto
  next
    case header
    define k where "k = 4 - length (c_in_u c)"
    let ?b1 = "take k bs"
    obtain b b2 where b: "drop k bs = b # b2" using header by (cases "drop k bs") (auto simp: k_def)
    have bs: "bs = ?b1 @ b # b2" using b by (metis append_take_drop_id)
    have l4: "length (c_in_u c @ ?b1) = 4" using header by (auto simp: k_def)
    let ?d = "c\<lparr>c_in_u := c_in_u c @ ?b1\<rparr>"
    have d: "foldl (decode_byte ks) c ?b1 = ?d" using header l4 by (intro decode_short_header) auto
    have fold: "foldl (decode_byte ks) c bs = foldl (decode_byte ks) ?d (b # b2)"
      using d by (subst bs) simp
    show ?thesis
    proof (cases "take 3 (c_in_u c @ ?b1) = [0x17, 0x03, 0x03]")
      case False
      have "take 3 (c_in_u ?c) = take 3 (c_in_u c @ ?b1)" using l4 by (subst bs) simp
      with False have "ctr128_decrypt_input ks ?c = Some (0, ?c\<lparr>c_error := True\<rparr>)"
        using header by (intro decrypt_bad) auto
      moreover have "foldl (decode_byte ks) ?d (b # b2) = ?d\<lparr>c_in_u := c_in_u ?d @ b # b2, c_error := True\<rparr>"
        using False header l4 by (intro decode_bad) auto
      moreover have "c_in_u ?d @ b # b2 = c_in_u c @ bs" by (subst (2) bs) simp
      ultimately show ?thesis using fold by simp
    next
      case True
      let ?h = "(c_in_u c @ ?b1) @ [b]"
      let ?e = "c\<lparr>c_in_u := [], left_tls_packet_length := record_length (?h ! 3) (?h ! 4)\<rparr>"
      have h: "?h ! 3 = (c_in_u c @ ?b1) ! 3" "?h ! 4 = b" using l4 by (auto simp: nth_append)
      have e: "decode_byte ks ?d b = ?e"
        using decode_header_byte [of ?d ks b] header l4 True h by simp
      have "c_in_u ?c = ?h @ b2" by (simp, subst bs) simp
      then have "ctr128_decrypt_input ks ?c = ctr128_decrypt_input ks
          (?c\<lparr>c_in_u := b2, left_tls_packet_length := record_length (?h ! 3) (?h ! 4)\<rparr>)"
        using header True l4 by (intro decrypt_header) auto
      moreover have "length b2 < length bs"
        using b by (metis Suc_le_eq length_Cons length_drop diff_le_self)
      from less.hyps [OF this, of ?e]
      obtain n where "ctr128_decrypt_input ks (?e\<lparr>c_in_u := c_in_u ?e @ b2\<rparr>) =
          Some (n, foldl (decode_byte ks) ?e b2)"
        by (auto simp: settled_def)
      ultimately show ?thesis using fold e by (simp add: upd_order3)
    qed
  qed
qed

section \<open>Sending\<close>

lemma record_length_bytes:
  assumes "len < 65536"
  shows "record_length (word_of_nat (drop_bit 8 len)) (word_of_nat (len AND 255)) = int len"
proof -
  have "len AND 255 = len mod 256"
    using take_bit_eq_mask [of 8 len] by (simp add: mask_eq_exp_minus_1 take_bit_eq_mod)
  moreover have "drop_bit 8 len = len div 256" by (simp add: drop_bit_eq_div)
  ultimately show ?thesis
    using assms by (simp add: record_length_def unat_of_nat zdiv_int zmod_int)
qed

lemma decode_record:
  assumes "c_is_tls d" "c_in_u d = []" "left_tls_packet_length d = 0" "length xs < 65536"
  shows "foldl (decode_byte ks) d
     ([0x17, 0x03, 0x03, word_of_nat (drop_bit 8 (length xs)), word_of_nat (length xs AND 255)] @ crypt ks (read_pos d) xs) =
     d\<lparr>c_in := c_in d @ xs, read_pos := read_pos d + length xs\<rparr>"
proof -
  let ?b3 = "word_of_nat (drop_bit 8 (length xs))" and ?b4 = "word_of_nat (length xs AND 255)"
  let ?d4 = "d\<lparr>c_in_u := [0x17, 0x03, 0x03, ?b3]\<rparr>" and ?d5 = "d\<lparr>left_tls_packet_length := int (length xs)\<rparr>"
  have "foldl (decode_byte ks) d [0x17, 0x03, 0x03, ?b3] = ?d4"
    using decode_short_header [of d "[0x17, 0x03, 0x03, ?b3]" ks] assms by simp
  moreover have "decode_byte ks ?d4 ?b4 = ?d5"
    using decode_header_byte [of ?d4 ks ?b4] assms record_length_bytes [OF assms(4)] by simp
  moreover have "foldl (decode_byte ks) ?d5 (crypt ks (read_pos d) xs) = d\<lparr>c_in := c_in d @ xs, read_pos := read_pos d + length xs\<rparr>"
    using decode_payload [of ?d5 "crypt ks (read_pos d) xs" ks] assms by simp
  ultimately show ?thesis by simp
qed

text \<open>\<open>peer c d\<close>: \<open>d\<close> is at the other end of \<open>c\<close>, in the same mode, at a record boundary.\<close>

definition peer :: "tcp_conn \<Rightarrow> tcp_conn \<Rightarrow> bool" where
  "peer c d \<longleftrightarrow> c_is_tls d = c_is_tls c \<and> c_in_u d = [] \<and> left_tls_packet_length d = 0 \<and> read_pos d = write_pos c"

lemma encrypt_ok:
  assumes "left_tls_packet_length c \<ge> 0"
  shows "\<exists>wire. ctr128_encrypt_output ks c = Some (c\<lparr>c_out := [], c_out_p := c_out_p c @ wire,
       write_pos := write_pos c + length (c_out c)\<rparr>) \<and>
     (\<forall>d. peer c d \<longrightarrow> foldl (decode_byte ks) d wire =
        d\<lparr>c_in := c_in d @ c_out c, read_pos := read_pos d + length (c_out c)\<rparr>)"
  using assms
proof (induction "length (c_out c)" arbitrary: c rule: less_induct)
  case less
  consider (emp) "c_out c = []" | (plain) "c_out c \<noteq> []" "\<not> c_is_tls c" | (tls) "c_out c \<noteq> []" "c_is_tls c"
    by blast
  then show ?case
  proof cases
    case emp
    then have "ctr128_encrypt_output ks c = Some c" by (subst ctr128_encrypt_output.simps) simp
    with emp show ?thesis by (intro exI [of _ "[]"]) simp
  next
    case plain
    let ?wire = "crypt ks (write_pos c) (c_out c)"
    let ?c = "c\<lparr>c_out_p := c_out_p c @ ?wire, write_pos := write_pos c + length (c_out c), c_out := []\<rparr>"
    have "ctr128_encrypt_output ks ?c = Some ?c" by (subst ctr128_encrypt_output.simps) simp
    with plain have "ctr128_encrypt_output ks c = Some ?c" by (subst ctr128_encrypt_output.simps) simp
    with plain show ?thesis
      by (intro exI [of _ ?wire]) (simp add: decode_plain peer_def)
  next
    case tls
    define len where "len = (if MAX_PACKET_LENGTH < length (c_out c) then MAX_PACKET_LENGTH else length (c_out c))"
    have len: "0 < len" "len \<le> length (c_out c)" "len < 65536" "length (take len (c_out c)) = len"
      using tls by (auto simp: len_def MAX_PACKET_LENGTH_def)
    define rec where "rec = [0x17, 0x03, 0x03, word_of_nat (drop_bit 8 len), word_of_nat (len AND 255)] @
      crypt ks (write_pos c) (take len (c_out c))"
    let ?c = "c\<lparr>c_out_p := c_out_p c @ rec, write_pos := write_pos c + len, c_out := drop len (c_out c)\<rparr>"
    have step: "ctr128_encrypt_output ks c = ctr128_encrypt_output ks ?c"
      using tls less.prems
      by (subst ctr128_encrypt_output.simps) (simp add: Let_def len_def [symmetric] rec_def)
    have "length (c_out ?c) < length (c_out c)" "left_tls_packet_length ?c \<ge> 0" using len less.prems by auto
    from less.hyps [OF this]
    obtain wire where wire: "ctr128_encrypt_output ks ?c = Some (?c\<lparr>c_out := [], c_out_p := c_out_p ?c @ wire,
        write_pos := write_pos ?c + length (c_out ?c)\<rparr>)"
      "\<And>d. peer ?c d \<Longrightarrow> foldl (decode_byte ks) d wire =
        d\<lparr>c_in := c_in d @ c_out ?c, read_pos := read_pos d + length (c_out ?c)\<rparr>"
      by blast
    have "foldl (decode_byte ks) d (rec @ wire) =
        d\<lparr>c_in := c_in d @ c_out c, read_pos := read_pos d + length (c_out c)\<rparr>" if "peer c d" for d
    proof -
      have r: "foldl (decode_byte ks) d rec = d\<lparr>c_in := c_in d @ take len (c_out c), read_pos := read_pos d + len\<rparr>"
        using decode_record [of d "take len (c_out c)" ks] that tls len by (simp add: peer_def rec_def)
      moreover have "peer ?c (d\<lparr>c_in := c_in d @ take len (c_out c), read_pos := read_pos d + len\<rparr>)"
        using that by (simp add: peer_def)
      ultimately show ?thesis using wire(2) len by simp
    qed
    then show ?thesis
      using step wire(1) len by (intro exI [of _ "rec @ wire"]) simp
  qed
qed

section \<open>Properties\<close>

text \<open>
  Receiving one piece of the stream: the reader appends it to \<open>in_u\<close> and decrypts what it can.
\<close>

definition receive :: "(nat \<Rightarrow> u8) \<Rightarrow> tcp_conn \<Rightarrow> bytes \<Rightarrow> tcp_conn option" where
  "receive ks c raw = do {
     (res, c) \<leftarrow> ctr128_decrypt_input ks (c\<lparr>c_in_u := c_in_u c @ raw\<rparr>);
     cassert (0 \<le> res);
     Some c }"

fun receive_all :: "(nat \<Rightarrow> u8) \<Rightarrow> tcp_conn \<Rightarrow> bytes list \<Rightarrow> tcp_conn option" where
  "receive_all ks c [] = Some c"
| "receive_all ks c (raw # raws) = do { c \<leftarrow> receive ks c raw; receive_all ks c raws }"

lemma foldl_decode_settled: "settled c \<Longrightarrow> settled (foldl (decode_byte ks) c bs)"
  by (induction bs arbitrary: c) (simp_all add: decode_byte_settled)

lemma receive_all_eq:
  "settled c \<Longrightarrow> receive_all ks c raws = Some (foldl (decode_byte ks) c (concat raws))"
proof (induction raws arbitrary: c)
  case (Cons raw raws)
  obtain n where "ctr128_decrypt_input ks (c\<lparr>c_in_u := c_in_u c @ raw\<rparr>) = Some (n, foldl (decode_byte ks) c raw)"
    using decrypt_refines [OF Cons.prems] by blast
  then show ?case
    using Cons.IH [OF foldl_decode_settled [OF Cons.prems]] by (simp add: receive_def)
qed simp

text \<open>
  C15. Decoding the encrypted stream of a client does not depend on how the network
  cuts it into pieces, never fails an assertion, and is the byte-wise record decoder.
\<close>

theorem decrypt_fragmentation:
  assumes "settled c" "concat raws = concat raws'"
  shows "receive_all ks c raws = receive_all ks c raws' \<and>
     receive_all ks c raws = Some (foldl (decode_byte ks) c (concat raws))"
  using assms by (simp add: receive_all_eq)

theorem decrypt_fragmentation_witness:
  "receive_all (\<lambda>_. 1) \<lparr>c_in = [], c_in_u = [], c_out = [], c_out_p = [], c_is_tls = True,
       left_tls_packet_length = 0, c_error = False, read_pos = 64, write_pos = 0\<rparr>
       [[0x17, 0x03], [0x03, 0x00, 0x02, 0x07], [0x08]] =
   receive_all (\<lambda>_. 1) \<lparr>c_in = [], c_in_u = [], c_out = [], c_out_p = [], c_is_tls = True,
       left_tls_packet_length = 0, c_error = False, read_pos = 64, write_pos = 0\<rparr>
       [[0x17, 0x03, 0x03, 0x00, 0x02, 0x07, 0x08]]"
  using decrypt_fragmentation [of "\<lparr>c_in = [], c_in_u = [], c_out = [], c_out_p = [], c_is_tls = True,
       left_tls_packet_length = 0, c_error = False, read_pos = 64, write_pos = 0\<rparr>"
       "[[0x17, 0x03], [0x03, 0x00, 0x02, 0x07], [0x08]]" "[[0x17, 0x03, 0x03, 0x00, 0x02, 0x07, 0x08]]" "\<lambda>_. 1"]
  by (simp add: settled_def)

text \<open>
  C14. What one end sends in fake-TLS mode (or plain) is what the other end
  with the same key stream receives, byte for byte, however the stream is cut on the way: the
  records carry exactly the data, and afterwards both ends are in step again.
\<close>

theorem tls_record_roundtrip:
  assumes "left_tls_packet_length c \<ge> 0" "c_out_p c = []" "peer c d"
  shows "\<exists>c'. ctr128_encrypt_output ks c = Some c' \<and> c_out c' = [] \<and>
     (\<forall>raws. concat raws = c_out_p c' \<longrightarrow>
        (\<exists>d'. receive_all ks d raws = Some d' \<and> c_in d' = c_in d @ c_out c \<and> peer c' d'))"
proof -
  obtain wire where w: "ctr128_encrypt_output ks c = Some (c\<lparr>c_out := [], c_out_p := wire,
       write_pos := write_pos c + length (c_out c)\<rparr>)"
    "foldl (decode_byte ks) d wire = d\<lparr>c_in := c_in d @ c_out c, read_pos := read_pos d + length (c_out c)\<rparr>"
    using encrypt_ok [OF assms(1), of ks] assms(2,3) by auto
  have "settled d" using assms(3) by (simp add: settled_def peer_def)
  then show ?thesis
    using w assms(3) receive_all_eq [of d ks] by (auto simp: peer_def)
qed

theorem tls_record_roundtrip_witness:
  "\<exists>c'. ctr128_encrypt_output (\<lambda>i. word_of_nat i) \<lparr>c_in = [], c_in_u = [], c_out = [1, 2, 3], c_out_p = [],
       c_is_tls = True, left_tls_packet_length = 0, c_error = False, read_pos = 64, write_pos = 0\<rparr> = Some c' \<and>
     c_out c' = [] \<and>
     (\<forall>raws. concat raws = c_out_p c' \<longrightarrow>
        (\<exists>d'. receive_all (\<lambda>i. word_of_nat i) \<lparr>c_in = [9], c_in_u = [], c_out = [], c_out_p = [],
             c_is_tls = True, left_tls_packet_length = 0, c_error = False, read_pos = 0, write_pos = 7\<rparr> raws = Some d' \<and>
           c_in d' = [9, 1, 2, 3] \<and> peer c' d'))"
  using tls_record_roundtrip [of "\<lparr>c_in = [], c_in_u = [], c_out = [1, 2, 3], c_out_p = [],
       c_is_tls = True, left_tls_packet_length = 0, c_error = False, read_pos = 64, write_pos = 0\<rparr>"
     "\<lparr>c_in = [9], c_in_u = [], c_out = [], c_out_p = [],
       c_is_tls = True, left_tls_packet_length = 0, c_error = False, read_pos = 0, write_pos = 7\<rparr>" "\<lambda>i. word_of_nat i"]
  by (simp add: peer_def)

end
