(* ===== verification/RpcFrame.thy ===== *)
theory RpcFrame
  imports Prelude
begin

text \<open>
  Packet framing on client connections: the length prefix and padding written by
  \<open>tcp_rpc_write_packet_compact\<close> (\<^verbatim>\<open>net/net-tcp-rpc-common.c\<close>) and read by the packet part of
  \<open>tcp_rpcs_compact_parse_execute\<close> (\<^verbatim>\<open>net/net-tcp-rpc-ext-server.c\<close>), and the framing with
  sequence number and checksum of connections between RPC servers (\<open>tcp_rpc_write_packet\<close>).

  Lengths and flags are 32-bit words; C \<^verbatim>\<open>int\<close> comparisons are signed.
\<close>

section \<open>Constants\<close>

definition NEED_MORE_BYTES :: int where
  "NEED_MORE_BYTES = 0x7fffffff"

definition RPC_PING :: u32 where
  "RPC_PING = 0x5730a2df"

definition RPC_PONG :: u32 where
  "RPC_PONG = 0x8430eaa7"

section \<open>Little-endian integers\<close>

definition le32 :: "bytes \<Rightarrow> u32" where
  "le32 bs = ucast (bs ! 0) OR push_bit 8 (ucast (bs ! 1)) OR push_bit 16 (ucast (bs ! 2)) OR
     push_bit 24 (ucast (bs ! 3))"

definition bytes32 :: "u32 \<Rightarrow> bytes" where
  "bytes32 w = [ucast w, ucast (drop_bit 8 w), ucast (drop_bit 16 w), ucast (drop_bit 24 w)]"

definition fetch32 :: "bytes \<Rightarrow> u32 option" where
  "fetch32 bs = (if 4 \<le> length bs then Some (le32 bs) else None)"

lemma length_bytes32 [simp]: "length (bytes32 w) = 4"
  by (simp add: bytes32_def)

lemma le32_bytes32 [simp]: "le32 (bytes32 w @ r) = w"
proof (rule bit_word_eqI)
  fix n assume "n < LENGTH(32)"
  then consider "n < 8" | "8 \<le> n" "n < 16" | "16 \<le> n" "n < 24" | "24 \<le> n" "n < 32" by fastforce
  then show "bit (le32 (bytes32 w @ r)) n = bit w n"
    by cases (auto simp: le32_def bytes32_def bit_simps)
qed

lemma le32_and_low:
  assumes "m AND 0xff = m"
  shows "le32 bs AND m = ucast (bs ! 0) AND m"
proof (rule bit_word_eqI)
  fix n assume n: "n < LENGTH(32)"
  show "bit (le32 bs AND m) n = bit (ucast (bs ! 0) AND m) n"
  proof (cases "bit m n")
    case True
    with assms have "bit (0xff :: u32) n" by (metis bit_and_iff)
    then have "bit (mask 8 :: u32) n" by (simp add: mask_eq_exp_minus_1)
    then have "n < 8" by (simp add: bit_simps)
    then show ?thesis by (auto simp: le32_def bit_simps)
  qed (simp add: bit_simps)
qed

section \<open>Flags\<close>

definition RPC_F_PAD :: u32 where "RPC_F_PAD = 0x8000000"
definition RPC_F_MEDIUM :: u32 where "RPC_F_MEDIUM = 0x20000000"
definition RPC_F_COMPACT :: u32 where "RPC_F_COMPACT = 0x40000000"
definition RPC_F_QUICKACK :: u32 where "RPC_F_QUICKACK = 0x80000000"
definition RPC_F_EXTMODE2 :: u32 where "RPC_F_EXTMODE2 = 0x20000"

lemmas rpc_flags = RPC_F_PAD_def RPC_F_MEDIUM_def RPC_F_COMPACT_def RPC_F_QUICKACK_def RPC_F_EXTMODE2_def

definition has_flag :: "u32 \<Rightarrow> u32 \<Rightarrow> bool" where
  "has_flag flags f \<longleftrightarrow> flags AND f \<noteq> 0"

section \<open>Reading a packet\<close>

text \<open>
  The length prefix: the new flags, and the length with the size of the prefix, or \<open>None\<close> for an
  overlong encoding, on which the connection is failed.
\<close>

definition read_packet_len :: "u32 \<Rightarrow> u32 \<Rightarrow> u32 \<times> (u32 \<times> nat) option" where
  "read_packet_len flags packet_len =
     (if has_flag flags RPC_F_MEDIUM then
        ((flags AND NOT RPC_F_QUICKACK) OR (packet_len AND RPC_F_QUICKACK),
         Some (packet_len AND NOT RPC_F_QUICKACK, 4))
      else
        let (flags, packet_len) =
              (if packet_len AND 0x80 \<noteq> 0 then (flags OR RPC_F_QUICKACK, packet_len AND NOT 0x80)
               else (flags AND NOT RPC_F_QUICKACK, packet_len))
        in if packet_len AND 0xff = 0x7f then
             let packet_len = drop_bit 8 packet_len in
             if packet_len < 0x7f then (flags, None) else (flags, Some (push_bit 2 packet_len, 4))
           else (flags, Some (push_bit 2 (packet_len AND 0x7f), 1)))"

datatype frame = FrameFail | FrameNeed nat | FramePacket u32 bytes bytes

definition packet_len_bad :: "u32 \<Rightarrow> int \<Rightarrow> u32 \<Rightarrow> bool" where
  "packet_len_bad flags max_packet_len packet_len \<longleftrightarrow>
     sint packet_len \<le> 0 \<or> packet_len AND 0xc0000000 \<noteq> 0 \<or>
     (\<not> has_flag flags RPC_F_PAD \<and> packet_len AND 3 \<noteq> 0) \<or>
     (sint packet_len > max_packet_len \<and> max_packet_len > 0)"

text \<open>
  One packet from the front of \<open>inp\<close>: its type, its bytes and the rest. \<open>None\<close> is the failed assertion
  that a packet holds the four bytes of its type.
\<close>

definition read_frame :: "u32 \<Rightarrow> int \<Rightarrow> bytes \<Rightarrow> (u32 \<times> frame) option" where
  "read_frame flags max_packet_len inp = do {
     w \<leftarrow> fetch32 inp;
     let (flags, r) = read_packet_len flags w;
     case r of
       None \<Rightarrow> Some (flags, FrameFail)
     | Some (packet_len, packet_len_bytes) \<Rightarrow>
         if packet_len_bad flags max_packet_len packet_len then Some (flags, FrameFail)
         else if length inp < unat packet_len + packet_len_bytes then
           Some (flags, FrameNeed (unat packet_len + packet_len_bytes - length inp))
         else do {
           let inp = drop packet_len_bytes inp;
           let msg = take (unat packet_len) inp;
           let msg = (if has_flag flags RPC_F_PAD then take (unat (packet_len AND NOT 3)) msg else msg);
           packet_type \<leftarrow> fetch32 msg;
           Some (flags, FramePacket packet_type msg (drop (unat packet_len) inp)) } }"

section \<open>Writing a packet\<close>

text \<open>\<open>x\<close> and \<open>y\<close> are the random padding bytes and the random number of them.\<close>

definition write_packet_compact :: "u32 \<Rightarrow> bytes \<Rightarrow> nat \<Rightarrow> bytes \<Rightarrow> bytes option" where
  "write_packet_compact flags x y raw = do {
     let raw = (if has_flag flags RPC_F_PAD then raw @ take (y mod 4) x else raw);
     let len = (word_of_nat (length raw) :: u32);
     cassert (len AND 0xfc000000 = 0);
     cassert (has_flag flags RPC_F_PAD \<or> len AND 3 = 0);
     Some (if has_flag flags RPC_F_MEDIUM then bytes32 len @ raw
           else if len \<le> 0x7e * 4 then [ucast (drop_bit 2 len)] @ raw
           else bytes32 (push_bit 6 len OR 0x7f) @ raw) }"

text \<open>Quick acknowledgements and bytes before the TLS handshake is finished go out without a frame.\<close>

definition tcp_rpc_write_packet :: "(bytes \<Rightarrow> u32) \<Rightarrow> u32 \<Rightarrow> u32 \<Rightarrow> bytes \<Rightarrow> u32 \<times> bytes" where
  "tcp_rpc_write_packet crc flags out_packet_num raw =
     (if \<not> has_flag flags (RPC_F_COMPACT OR RPC_F_MEDIUM) then
        let raw = bytes32 (word_of_nat (length raw + 12)) @ bytes32 out_packet_num @ raw
        in (out_packet_num + 1, raw @ bytes32 (crc raw))
      else (out_packet_num, []))"

definition tcp_rpc_write_packet_compact ::
  "(bytes \<Rightarrow> u32) \<Rightarrow> u32 \<Rightarrow> bool \<Rightarrow> u32 \<Rightarrow> bytes \<Rightarrow> nat \<Rightarrow> bytes \<Rightarrow> (u32 \<times> bytes) option" where
  "tcp_rpc_write_packet_compact crc flags uninited_tls out_packet_num x y raw =
     (if length raw = 5 then do {
        flag \<leftarrow> aget raw 0;
        cassert (flag = 0xdd);
        Some (out_packet_num, drop 1 raw) }
      else if uninited_tls then Some (out_packet_num, raw)
      else if \<not> has_flag flags (RPC_F_COMPACT OR RPC_F_MEDIUM) then
        Some (tcp_rpc_write_packet crc flags out_packet_num raw)
      else do {
        r \<leftarrow> write_packet_compact flags x y raw;
        Some (out_packet_num, r) })"

text \<open>
  \<open>tcp_rpc_flush\<close>: what is appended to the output so that it fills whole cipher blocks.
\<close>

definition tcp_rpc_flush :: "nat option \<Rightarrow> bytes option" where
  "tcp_rpc_flush needed =
     (case needed of
        None \<Rightarrow> Some []
      | Some pad_bytes \<Rightarrow>
          if pad_bytes > 0 then do {
            cassert (pad_bytes mod 4 = 0);
            cassert (pad_bytes \<le> 12);
            Some (take pad_bytes (bytes32 4 @ bytes32 4 @ bytes32 4)) }
          else Some [])"

section \<open>Word lemmas\<close>

lemma and_not_disjoint:
  assumes "a AND b = 0"
  shows "a AND NOT b = (a :: u32)"
proof (rule bit_word_eqI)
  fix n assume "n < LENGTH(32)"
  moreover have "\<not> bit (a AND b) n" by (simp add: assms)
  ultimately show "bit (a AND NOT b) n = bit a n" by (auto simp: bit_simps)
qed

lemma and_high_zero:
  assumes "unat (w :: u32) < 2 ^ 26"
  shows "w AND 0xfc000000 = 0" "w AND 0xc0000000 = 0" "w AND RPC_F_QUICKACK = 0" "w AND NOT RPC_F_QUICKACK = w"
proof -
  have tb: "take_bit 26 w = w"
    using assms by (simp add: word_unat_eq_iff unsigned_take_bit_eq take_bit_nat_eq_self)
  show "w AND 0xfc000000 = 0"
    by (subst tb [symmetric]) (simp add: take_bit_eq_mask and.assoc mask_eq_exp_minus_1)
  show "w AND 0xc0000000 = 0"
    by (subst tb [symmetric]) (simp add: take_bit_eq_mask and.assoc mask_eq_exp_minus_1)
  show "w AND RPC_F_QUICKACK = 0"
    by (subst tb [symmetric]) (simp add: take_bit_eq_mask and.assoc RPC_F_QUICKACK_def mask_eq_exp_minus_1)
  then show "w AND NOT RPC_F_QUICKACK = w" by (rule and_not_disjoint)
qed

lemma unat_len: "n < 2 ^ 26 \<Longrightarrow> unat (word_of_nat n :: u32) = n"
  by (simp add: unat_of_nat)

lemma sint_len: "unat (w :: u32) < 2 ^ 26 \<Longrightarrow> sint w = int (unat w)"
proof -
  assume "unat w < 2 ^ 26"
  then have "unat w < 67108864" by simp
  moreover have "uint w = int (unat w)" by simp
  ultimately have "uint w < 2147483648" "- 2147483648 \<le> uint w" by linarith+
  then show ?thesis by (simp add: sint_uint signed_take_bit_int_eq_self)
qed

lemma and_3_mod: "unat (w AND 3) = unat (w :: u32) mod 4"
proof -
  have "w AND 3 = take_bit 2 w" by (simp add: take_bit_eq_mask mask_eq_exp_minus_1)
  then show ?thesis by (simp add: unat_mod_distrib take_bit_eq_mod)
qed

lemma unat_lt_2_32: "unat (w :: u32) < 2 ^ 32"
  using unsigned_less [of w] by simp

lemma unat_drop_bit_2: "unat (drop_bit 2 (w :: u32)) = unat w div 4"
  by (simp add: drop_bit_eq_div unat_div_distrib)

lemma Suc_diff_2: "2 \<le> n \<Longrightarrow> Suc (Suc (n - 2)) = n"
  by simp

lemma and_not_3: "unat (w AND NOT 3) = unat (w :: u32) - unat w mod 4"
proof -
  have "w AND NOT 3 = w AND NOT (mask 2)" by (simp add: mask_eq_exp_minus_1)
  also have "\<dots> = push_bit 2 (drop_bit 2 w)"
    by (rule bit_word_eqI) (auto simp: bit_simps Suc_diff_2)
  finally have "unat (w AND NOT 3) = take_bit 32 (push_bit 2 (drop_bit 2 (take_bit 32 (unat w))))"
    by (simp only: unsigned_push_bit_eq unsigned_drop_bit_eq) simp
  moreover have u: "unat w < 2 ^ 32" using unat_lt_2_32 .
  then have "take_bit 32 (unat w) = unat w" by (rule take_bit_nat_eq_self)
  moreover have "push_bit 2 (drop_bit 2 (unat w)) = unat w div 4 * 4"
    by (simp add: push_bit_eq_mult drop_bit_eq_div)
  ultimately have "unat (w AND NOT 3) = take_bit 32 (unat w div 4 * 4)" by (simp only:)
  moreover have "unat w div 4 * 4 < 2 ^ 32" using div_times_less_eq_dividend [of "unat w" 4] u by linarith
  ultimately have "unat (w AND NOT 3) = unat w div 4 * 4" by (simp only: take_bit_nat_eq_self)
  then show ?thesis by (metis minus_mod_eq_div_mult)
qed

lemma len_good:
  assumes "0 < n" "n < 2 ^ 26" "has_flag flags RPC_F_PAD \<or> n mod 4 = 0" "m \<le> 0 \<or> int n \<le> m"
  shows "\<not> packet_len_bad flags m (word_of_nat n)"
proof -
  let ?w = "word_of_nat n :: u32"
  have u: "unat ?w = n" using assms by (simp add: unat_len)
  then have "sint ?w = int n" "?w AND 0xc0000000 = 0" "unat (?w AND 3) = n mod 4"
    using assms by (simp_all add: sint_len and_high_zero and_3_mod)
  then show ?thesis
    using assms by (auto simp: packet_len_bad_def unat_eq_0)
qed

text \<open>A whole frame with prefix \<open>p\<close> that reads as the length of \<open>raw @ pad\<close>.\<close>

lemma read_frame_packet:
  assumes prefix: "read_packet_len flags (le32 (p @ raw @ pad @ rest)) = (flags', Some (word_of_nat (length raw + length pad), length p))"
    and len: "4 \<le> length raw" "length raw mod 4 = 0" "length pad < 4" "length (raw @ pad) < 2 ^ 26"
    and max: "m \<le> 0 \<or> int (length (raw @ pad)) \<le> m"
    and pad: "pad = [] \<or> has_flag flags' RPC_F_PAD"
  shows "read_frame flags m (p @ raw @ pad @ rest) = Some (flags', FramePacket (le32 raw) raw rest)"
proof -
  let ?n = "length raw + length pad"
  have u: "unat (word_of_nat ?n :: u32) = ?n" using len unat_len [of ?n] by (simp del: of_nat_add)
  have good: "\<not> packet_len_bad flags' m (word_of_nat ?n)"
    using len max pad by (intro len_good) auto
  have nn: "unat ((word_of_nat ?n :: u32) AND NOT 3) = length raw"
    unfolding and_not_3 u using len by (metis add_diff_cancel_right' mod_add_left_eq mod_less add_0)
  have f: "fetch32 (p @ raw @ pad @ rest) = Some (le32 (p @ raw @ pad @ rest))" "fetch32 raw = Some (le32 raw)"
    using len by (simp_all add: fetch32_def)
  show ?thesis
    unfolding read_frame_def f bind.simps Let_def prefix
    using good u f(2) nn pad by (auto simp: Let_def)
qed

lemma has_flag_medium_quickack: "has_flag (flags AND NOT RPC_F_QUICKACK) RPC_F_PAD = has_flag flags RPC_F_PAD"
  by (simp add: has_flag_def rpc_flags and.assoc)

lemma prefix_medium:
  assumes "has_flag flags RPC_F_MEDIUM" "n < 2 ^ 26"
  shows "read_packet_len flags (le32 (bytes32 (word_of_nat n) @ r)) =
     (flags AND NOT RPC_F_QUICKACK, Some (word_of_nat n, 4))"
  using assms by (simp add: read_packet_len_def and_high_zero unat_len)

lemma and_superset: "(w :: u32) = w AND a \<Longrightarrow> a AND m = a \<Longrightarrow> w AND m = w"
  by (metis and.assoc)

lemma prefix_byte:
  assumes "\<not> has_flag flags RPC_F_MEDIUM" "n mod 4 = 0" "n \<le> 504"
  shows "read_packet_len flags (le32 (ucast (drop_bit 2 (word_of_nat n :: u32)) # r)) =
     (flags AND NOT RPC_F_QUICKACK, Some (word_of_nat n, 1))"
proof -
  define k where "k = n div 4"
  have n: "n = 4 * k" "k \<le> 126" using assms by (auto simp: k_def)
  have d: "drop_bit 2 (word_of_nat n :: u32) = word_of_nat k"
    unfolding word_unat_eq_iff unat_drop_bit_2 using n unat_len [of n] by (simp add: unat_of_nat del: of_nat_mult)
  let ?b = "ucast (word_of_nat k :: u32) :: u8"
  have b: "(ucast ?b :: u32) = word_of_nat k"
    unfolding word_unat_eq_iff unsigned_ucast_eq using n by (simp add: unat_of_nat take_bit_nat_eq_self unsigned_take_bit_eq)
  have "(word_of_nat k :: u32) = take_bit 7 (word_of_nat k)"
    using n by (simp add: word_unat_eq_iff unsigned_take_bit_eq unat_of_nat take_bit_nat_eq_self)
  then have w: "(word_of_nat k :: u32) = word_of_nat k AND 0x7f" by (simp add: take_bit_eq_mask mask_eq_exp_minus_1)
  have "(word_of_nat k :: u32) AND 0x80 = 0" by (subst w) (simp add: and.assoc)
  moreover have "(word_of_nat k :: u32) AND 0xff = word_of_nat k" by (rule and_superset [OF w]) simp
  moreover have "(word_of_nat k :: u32) \<noteq> 0x7f" using n by (simp add: word_unat_eq_iff unat_of_nat)
  moreover have "push_bit 2 (word_of_nat k :: u32) = word_of_nat n"
    using n by (simp add: push_bit_eq_mult)
  ultimately show ?thesis
    using assms(1) w by (simp add: read_packet_len_def d le32_and_low b Let_def)
qed

lemma push_bit_8_low:
  assumes "m AND 0xff = m"
  shows "push_bit 8 k AND m = (0 :: u32)"
proof (rule bit_word_eqI)
  fix n assume n: "n < LENGTH(32)"
  have "n < 8" if "bit m n"
  proof -
    have "bit (0xff :: u32) n" using that assms by (metis bit_and_iff)
    then have "bit (mask 8 :: u32) n" by (simp add: mask_eq_exp_minus_1)
    then show ?thesis by (simp add: bit_simps)
  qed
  then show "bit (push_bit 8 k AND m) n = bit (0 :: u32) n" by (auto simp: bit_simps)
qed

lemma drop_bit_8_prefix:
  assumes "unat (k :: u32) < 2 ^ 24"
  shows "drop_bit 8 (push_bit 8 k OR 0x7f) = k"
proof (rule bit_word_eqI)
  fix n assume n: "n < LENGTH(32)"
  have tb: "take_bit 24 k = k"
    using assms by (simp add: word_unat_eq_iff unsigned_take_bit_eq take_bit_nat_eq_self)
  have "bit k n \<Longrightarrow> n < 24" by (metis tb bit_take_bit_iff)
  moreover have "\<not> bit (0x7f :: u32) (8 + n)"
  proof -
    have "(0x7f :: u32) = mask 7" by (simp add: mask_eq_exp_minus_1)
    then have "bit (0x7f :: u32) (8 + n) = bit (mask 7 :: u32) (8 + n)" by (simp only:)
    then show ?thesis by (simp only: bit_mask_iff) simp
  qed
  ultimately show "bit (drop_bit 8 (push_bit 8 k OR 0x7f)) n = bit k n"
    by (auto simp: bit_simps)
qed

lemma prefix_long:
  assumes "\<not> has_flag flags RPC_F_MEDIUM" "n mod 4 = 0" "504 < n" "n < 2 ^ 26"
  shows "read_packet_len flags (le32 (bytes32 (push_bit 6 (word_of_nat n) OR 0x7f) @ r)) =
     (flags AND NOT RPC_F_QUICKACK, Some (word_of_nat n, 4))"
proof -
  define k where "k = n div 4"
  have n: "n = 4 * k" "127 \<le> k" "k < 2 ^ 24" using assms by (auto simp: k_def)
  let ?k = "word_of_nat k :: u32"
  have u: "unat ?k = k" using n by (simp add: unat_of_nat)
  have p: "push_bit 6 (word_of_nat n :: u32) = push_bit 8 ?k"
    using n by (simp add: push_bit_eq_mult)
  let ?w = "push_bit 8 ?k OR 0x7f :: u32"
  have "?w AND 0x80 = 0" "?w AND 0xff = 0x7f"
    by (simp_all add: bit.conj_disj_distrib2 push_bit_8_low)
  moreover have "drop_bit 8 ?w = ?k" using n u by (intro drop_bit_8_prefix) simp
  moreover have "\<not> ?k < 0x7f" using n u by (simp add: word_less_nat_alt)
  moreover have "push_bit 2 ?k = word_of_nat n" using n by (simp add: push_bit_eq_mult)
  ultimately show ?thesis
    unfolding p le32_bytes32 using assms(1) by (simp add: read_packet_len_def Let_def)
qed

section \<open>Properties\<close>

text \<open>
  C16. Every packet the proxy frames for a client is read back by the packet parser
  unchanged, in medium, padded and compact mode, for every amount of random padding, whatever
  follows it in the stream: same bytes, the padding removed, and the following bytes left.
\<close>

theorem frame_roundtrip:
  assumes "has_flag flags RPC_F_PAD \<longrightarrow> has_flag flags RPC_F_MEDIUM"
    "length raw mod 4 = 0" "4 \<le> length raw" "length raw + 3 < 2 ^ 26" "m \<le> 0 \<or> int (length raw) + 3 \<le> m"
  shows "\<exists>out. write_packet_compact flags x y raw = Some out \<and>
     read_frame flags m (out @ rest) =
       Some (flags AND NOT RPC_F_QUICKACK, FramePacket (le32 raw) raw rest)"
proof -
  define pad where "pad = (if has_flag flags RPC_F_PAD then take (y mod 4) x else [])"
  let ?n = "length raw + length pad"
  have lp: "length pad < 4" by (auto simp: pad_def intro: le_less_trans [OF min.cobounded2])
  have n: "?n < 2 ^ 26" using assms lp by simp
  have m: "m \<le> 0 \<or> int (length (raw @ pad)) \<le> m" using assms lp by auto
  have padflag: "pad = [] \<or> has_flag (flags AND NOT RPC_F_QUICKACK) RPC_F_PAD"
    by (auto simp: pad_def has_flag_medium_quickack)
  have n4: "has_flag flags RPC_F_PAD \<or> ?n mod 4 = 0" using assms(2) by (simp add: pad_def)
  have u: "unat (word_of_nat ?n :: u32) = ?n" using n unat_len by blast
  have ok: "(word_of_nat ?n :: u32) AND 0xfc000000 = 0"
    "has_flag flags RPC_F_PAD \<or> (word_of_nat ?n :: u32) AND 3 = 0"
    using and_high_zero(1) [of "word_of_nat ?n"] and_3_mod [of "word_of_nat ?n"] u n n4
    by (simp_all only: unat_eq_0 [symmetric])
  have w: "write_packet_compact flags x y raw =
    Some ((if has_flag flags RPC_F_MEDIUM then bytes32 (word_of_nat ?n)
      else if (word_of_nat ?n :: u32) \<le> 0x7e * 4 then [ucast (drop_bit 2 (word_of_nat ?n :: u32))]
      else bytes32 (push_bit 6 (word_of_nat ?n) OR 0x7f)) @ raw @ pad)"
    using ok by (auto simp: write_packet_compact_def pad_def Let_def cassert_def)
  have le: "(word_of_nat ?n :: u32) \<le> 0x7e * 4 \<longleftrightarrow> ?n \<le> 504" using u by (simp add: word_le_nat_alt del: of_nat_add)
  note read = read_frame_packet [OF _ assms(3,2) lp _ m padflag, simplified append_assoc]
  consider "has_flag flags RPC_F_MEDIUM" | "\<not> has_flag flags RPC_F_MEDIUM" "?n \<le> 504"
    | "\<not> has_flag flags RPC_F_MEDIUM" "504 < ?n" by linarith
  then show ?thesis
  proof cases
    case 1
    then show ?thesis using w n prefix_medium [OF 1 n] read by simp
  next
    case 2
    then have "?n mod 4 = 0" using assms(1) n4 by blast
    from prefix_byte [OF 2(1) this 2(2)] 2 show ?thesis
      using w n read [where p = "[ucast (drop_bit 2 (word_of_nat ?n :: u32))]"] le by simp
  next
    case 3
    then have "?n mod 4 = 0" using assms(1) n4 by blast
    from prefix_long [OF 3(1) this 3(2) n] 3 show ?thesis using w n read le by simp
  qed
qed

theorem frame_roundtrip_witness:
  "\<exists>out. write_packet_compact (RPC_F_MEDIUM OR RPC_F_PAD) [7, 7, 7] 2 [1, 2, 3, 4] = Some out \<and>
     read_frame (RPC_F_MEDIUM OR RPC_F_PAD) 0 (out @ [9]) =
       Some ((RPC_F_MEDIUM OR RPC_F_PAD) AND NOT RPC_F_QUICKACK, FramePacket (le32 [1, 2, 3, 4]) [1, 2, 3, 4] [9])"
  by (rule frame_roundtrip) (simp_all add: has_flag_def rpc_flags)

text \<open>
  The packet parser aborts only on one kind of input: in padded mode, a packet
  of one to three bytes passes all length checks, is cut to zero bytes and fails the assertion that
  it holds a packet type. In every other case it returns a decision.
\<close>

theorem read_frame_aborts:
  assumes "4 \<le> length inp"
  shows "read_frame flags m inp = None \<longleftrightarrow>
     (\<exists>flags' len k. read_packet_len flags (le32 inp) = (flags', Some (len, k)) \<and>
        \<not> packet_len_bad flags' m len \<and> unat len + k \<le> length inp \<and> has_flag flags' RPC_F_PAD \<and> unat len < 4)"
proof -
  obtain flags' r where r: "read_packet_len flags (le32 inp) = (flags', r)" by fastforce
  show ?thesis
  proof (cases r)
    case None then show ?thesis using r assms by (simp add: read_frame_def fetch32_def)
  next
    case (Some p)
    obtain len k where p: "p = (len, k)" by fastforce
    let ?n = "unat len"
    have pos: "0 < ?n" if "\<not> packet_len_bad flags' m len"
      using that by (metis packet_len_bad_def gr0I unat_eq_0 signed_0 order_refl)
    have four: "4 \<le> ?n" if "\<not> packet_len_bad flags' m len" "\<not> has_flag flags' RPC_F_PAD"
    proof -
      have "unat (len AND 3) = 0" using that by (simp add: packet_len_bad_def)
      then have "?n mod 4 = 0" by (simp add: and_3_mod)
      then show ?thesis using pos [OF that(1)] by (metis dvd_imp_le mod_0_imp_dvd)
    qed
    have "length (take (unat (len AND NOT 3)) (take ?n (drop k inp))) < 4 \<longleftrightarrow> ?n < 4"
      if "?n + k \<le> length inp"
    proof -
      have "4 \<le> ?n - ?n mod 4 \<longleftrightarrow> 4 \<le> ?n" by presburger
      moreover have "?n - ?n mod 4 \<le> length inp - k" "?n \<le> length inp - k" using that by linarith+
      ultimately show ?thesis unfolding length_take length_drop and_not_3 by (simp add: min_def) linarith
    qed
    moreover have "packet_len_bad flags' m len \<or> has_flag flags' RPC_F_PAD \<or> 4 \<le> ?n" using four by blast
    moreover have "?n + k \<le> length inp \<longrightarrow> ?n \<le> length inp - k" by linarith
    ultimately show ?thesis
      using r Some p assms
      by (auto simp: read_frame_def fetch32_def Let_def not_less)
  qed
qed

theorem read_frame_aborts_witness:
  "read_frame (RPC_F_MEDIUM OR RPC_F_PAD) 0 ([2, 0, 0, 0] @ replicate 8 0) = None"
proof -
  have l: "le32 ([2, 0, 0, 0] @ replicate 8 0) = 2" by (simp add: le32_def)
  have "read_packet_len (RPC_F_MEDIUM OR RPC_F_PAD) 2 = (RPC_F_MEDIUM OR RPC_F_PAD, Some (2, 4))"
    by (simp add: read_packet_len_def has_flag_def rpc_flags)
  moreover have "\<not> packet_len_bad (RPC_F_MEDIUM OR RPC_F_PAD) 0 2" "has_flag (RPC_F_MEDIUM OR RPC_F_PAD) RPC_F_PAD"
    by (simp_all add: packet_len_bad_def has_flag_def rpc_flags)
  ultimately show ?thesis
    using read_frame_aborts [of "[2, 0, 0, 0] @ replicate 8 0" "RPC_F_MEDIUM OR RPC_F_PAD" 0]
    unfolding l by simp
qed

end
