(* ===== verification/ExtServer.thy ===== *)
theory ExtServer
  imports ClientRandom ServerHello TlsRecord RpcFrame
begin

text \<open>
  The server side of client connections, \<open>tcp_rpcs_compact_parse_execute\<close> and its helpers in
  \<^verbatim>\<open>net/net-tcp-rpc-ext-server.c\<close>: detection of the transport (fake TLS, obfuscated), the fake-TLS
  handshake, hiding behind a proxied domain (\<open>proxy_connection\<close>), and the packet loop. The code is
  built with \<^verbatim>\<open>__ALLOW_UNOBFS__\<close> 0, so the branches for unobfuscated transports are absent.

  The cryptographic functions, the random numbers of one call, the outcome of connecting to a domain,
  the packet handler \<^verbatim>\<open>execute\<close> and the parser for connections with compact mode off are fields of
  \<open>ext_env\<close>.
\<close>

section \<open>State\<close>

record ext_state =
  x_conn :: tcp_conn
  x_crypto :: "((nat \<Rightarrow> u8) \<times> (nat \<Rightarrow> u8)) option"
  x_flags :: u32
  x_in_packet_num :: int
  x_compact_off :: bool
  x_extra_int2 :: int
  x_extra_int3 :: int
  x_extra_int4 :: int
  x_stop_parse :: bool
  x_our_port :: nat
  x_timer :: bool
  x_sent :: "bytes list"
  x_proxied :: "(dom_addr \<times> bytes) option"
  x_secrets :: "bytes list"
  x_doms :: dom_state
  x_randoms :: cr_state

datatype connect_result = Connected | SocketFailed | AllocFailed

record ext_env =
  e_sha256 :: "bytes \<Rightarrow> bytes"
  e_hmac :: "bytes \<Rightarrow> bytes \<Rightarrow> bytes"
  e_ctr :: "bytes \<Rightarrow> bytes \<Rightarrow> nat \<Rightarrow> u8"
  e_now :: int
  e_rand :: nat
  e_key :: bytes
  e_noise :: bytes
  e_buf :: bytes
  e_connect :: "dom_addr \<Rightarrow> nat \<Rightarrow> connect_result"
  e_execute :: "u32 \<Rightarrow> bytes \<Rightarrow> ext_state \<Rightarrow> ext_state"
  e_default_execute :: "u32 \<Rightarrow> bytes \<Rightarrow> ext_state \<Rightarrow> ext_state"
  e_max_packet_len :: int
  e_plain_parse :: "ext_state \<Rightarrow> (int \<times> ext_state) option"

text \<open>The outcome of one iteration of the parse loop.\<close>

datatype step = Ret int | Next

section \<open>Secrets\<close>

definition tcp_rpcs_set_ext_secret :: "ext_state \<Rightarrow> bytes \<Rightarrow> ext_state option" where
  "tcp_rpcs_set_ext_secret s secret = do {
     cassert (length (x_secrets s) < MAX_MTFRONT_SECRETS);
     Some (s\<lparr>x_secrets := x_secrets s @ [take 16 secret]\<rparr>) }"

text \<open>The hooks are defined in \<^verbatim>\<open>mtproto/mtproto-proxy.c\<close> and do nothing.\<close>

definition mtfront_on_secret_connection_open :: "nat \<Rightarrow> ext_state \<Rightarrow> ext_state" where
  "mtfront_on_secret_connection_open i s = s"

definition mtfront_on_secret_connection_close :: "nat \<Rightarrow> ext_state \<Rightarrow> ext_state" where
  "mtfront_on_secret_connection_close i s = s"

text \<open>Binding a connection to a secret, once (\<open>extra_int3\<close> is the mark).\<close>

definition bind_secret :: "nat \<Rightarrow> ext_state \<Rightarrow> ext_state" where
  "bind_secret i s = (
     let s = s\<lparr>x_extra_int2 := int i + 1\<rparr> in
     if x_extra_int3 s = 0 then mtfront_on_secret_connection_open i (s\<lparr>x_extra_int3 := 1\<rparr>) else s)"

section \<open>Hiding behind a domain\<close>

definition fail_connection :: "ext_state \<Rightarrow> ext_state" where
  "fail_connection s = s\<lparr>x_conn := (x_conn s)\<lparr>c_error := True\<rparr>\<rparr>"

definition tcp_proxy_pass_parse_execute :: "dom_addr \<Rightarrow> ext_state \<Rightarrow> int \<times> ext_state" where
  "tcp_proxy_pass_parse_execute target s =
     (0, s\<lparr>x_proxied := Some (target, (case x_proxied s of None \<Rightarrow> [] | Some (_, b) \<Rightarrow> b) @ c_in (x_conn s)),
           x_conn := (x_conn s)\<lparr>c_in := []\<rparr>\<rparr>)"

definition proxy_connection :: "ext_env \<Rightarrow> ext_state \<Rightarrow> dom_addr \<Rightarrow> (int \<times> ext_state) option" where
  "proxy_connection env s info = do {
     i \<leftarrow> dom_mem (x_doms s) info;
     let s = (if x_extra_int3 s \<noteq> 0 then
                (mtfront_on_secret_connection_close (nat (x_extra_int2 s - 1)) s)\<lparr>x_extra_int3 := 0\<rparr>
              else s);
     if di_target i = 0 \<and> di_target_ipv6 i = replicate 16 0 then Some (0, fail_connection s)
     else
       let port = (if x_our_port s = 80 then 80 else 443) in
       case e_connect env info port of
         SocketFailed \<Rightarrow> Some (0, fail_connection s)
       | AllocFailed \<Rightarrow> Some (0, fail_connection (s\<lparr>x_crypto := None\<rparr>))
       | Connected \<Rightarrow> Some (tcp_proxy_pass_parse_execute info (s\<lparr>x_crypto := None\<rparr>)) }"

definition tcp_rpcs_ext_alarm :: "ext_env \<Rightarrow> ext_state \<Rightarrow> (int \<times> ext_state) option" where
  "tcp_rpcs_ext_alarm env s =
     (case default_domain_info (x_doms s) of
        Some d \<Rightarrow> if x_in_packet_num s = -3 then proxy_connection env s d else Some (0, s)
      | None \<Rightarrow> Some (0, s))"

definition tcp_rpcs_ext_init_accepted :: "ext_state \<Rightarrow> ext_state" where
  "tcp_rpcs_ext_init_accepted s = s\<lparr>x_extra_int2 := 0, x_extra_int3 := 0, x_timer := True, x_in_packet_num := -3\<rparr>"

definition proxy_step :: "ext_env \<Rightarrow> ext_state \<Rightarrow> dom_addr option \<Rightarrow> (step \<times> ext_state) option" where
  "proxy_step env s d = do { a \<leftarrow> d; (r, s) \<leftarrow> proxy_connection env s a; Some (Ret r, s) }"

section \<open>The fake-TLS handshake\<close>

text \<open>
  Replay cache, secret and time of a ClientHello: the new cache, and the secret whose HMAC matches with
  the verdict on the timestamp.
\<close>

definition check_client_hello ::
  "(bytes \<Rightarrow> bytes \<Rightarrow> bytes) \<Rightarrow> bytes list \<Rightarrow> int \<Rightarrow> bytes \<Rightarrow> cr_state \<Rightarrow> (cr_state \<times> (nat \<times> bool) option) option" where
  "check_client_hello hmac secrets now hello randoms = do {
     crandom \<leftarrow> mem_get hello 11 32;
     hello0 \<leftarrow> mem_copy hello 11 (replicate 32 0);
     h \<leftarrow> have_client_random randoms crandom;
     if h then Some (randoms, None)
     else do {
       randoms \<leftarrow> add_client_random randoms now crandom;
       randoms \<leftarrow> delete_old_client_randoms now randoms;
       case find (\<lambda>i. take 28 (hmac (secrets ! i) hello0) = take 28 crandom) [0 ..< length secrets] of
         None \<Rightarrow> Some (randoms, None)
       | Some i \<Rightarrow> do {
           let timestamp = sint (le32 (drop 28 (hmac (secrets ! i) hello0)) XOR le32 (drop 28 crandom));
           ok \<leftarrow> is_allowed_timestamp randoms now timestamp;
           Some (randoms, Some (i, ok)) } } }"

function skip_grease :: "bytes \<Rightarrow> nat \<Rightarrow> nat \<Rightarrow> (nat \<times> nat) option" where
  "skip_grease hello cipher_suites_length pos =
     (if cipher_suites_length \<ge> 2 then do {
        a \<leftarrow> aget hello pos;
        b \<leftarrow> aget hello (pos + 1);
        if a AND 0x0F = 0x0A \<and> b AND 0x0F = 0x0A then skip_grease hello (cipher_suites_length - 2) (pos + 2)
        else Some (cipher_suites_length, pos) }
      else Some (cipher_suites_length, pos))"
  by pat_completeness auto
termination
  by (relation "measure (\<lambda>(h, n, p). n)") auto

text \<open>The cipher suite: \<open>None\<close> inside when no supported one is found.\<close>

definition choose_cipher_suite :: "bytes \<Rightarrow> nat \<Rightarrow> u8 option option" where
  "choose_cipher_suite hello read_len = do {
     (cipher_suites_length, pos) \<leftarrow> read_length hello 76;
     if pos + cipher_suites_length > read_len then Some None
     else do {
       (cipher_suites_length, pos) \<leftarrow> skip_grease hello cipher_suites_length pos;
       if cipher_suites_length \<le> 1 then Some None
       else do {
         a \<leftarrow> aget hello pos;
         b \<leftarrow> aget hello (pos + 1);
         if a \<noteq> 0x13 \<or> b < 0x01 \<or> b > 0x03 then Some None else Some (Some b) } } }"

text \<open>Answering an accepted ClientHello.\<close>

definition answer_hello ::
  "ext_env \<Rightarrow> ext_state \<Rightarrow> domain_info \<Rightarrow> nat \<Rightarrow> bytes \<Rightarrow> bytes \<Rightarrow> u8 \<Rightarrow> (step \<times> ext_state) option" where
  "answer_hello env s info secret_id crandom hello cipher_suite_id = do {
     let s = s\<lparr>x_conn := (x_conn s)\<lparr>c_in := drop (length hello) (c_in (x_conn s)), c_is_tls := True,
               left_tls_packet_length := -1\<rparr>\<rparr>;
     let encrypted_size = get_domain_server_hello_encrypted_size info (e_rand env);
     msg \<leftarrow> make_server_hello (e_hmac env (x_secrets s ! secret_id)) info encrypted_size crandom hello
              cipher_suite_id (e_key env) (e_noise env) (e_buf env);
     Some (Ret 11, s\<lparr>x_sent := x_sent s @ [msg]\<rparr>) }"

text \<open>A ClientHello for the domain at \<open>a\<close> that came complete and alone.\<close>

definition handle_hello :: "ext_env \<Rightarrow> ext_state \<Rightarrow> dom_addr \<Rightarrow> bytes \<Rightarrow> (step \<times> ext_state) option" where
  "handle_hello env s a client_hello = do {
     crandom \<leftarrow> mem_get client_hello 11 32;
     hello0 \<leftarrow> mem_copy client_hello 11 (replicate 32 0);
     (randoms, r) \<leftarrow> check_client_hello (e_hmac env) (x_secrets s) (e_now env) client_hello (x_randoms s);
     let s = s\<lparr>x_randoms := randoms\<rparr>;
     case r of
       None \<Rightarrow> proxy_step env s (Some a)
     | Some (secret_id, ok) \<Rightarrow>
         let s = bind_secret secret_id s in
         if \<not> ok then proxy_step env s (Some a)
         else do {
           c \<leftarrow> choose_cipher_suite hello0 (length client_hello);
           case c of
             None \<Rightarrow> proxy_step env s (Some a)
           | Some cipher_suite_id \<Rightarrow> do {
               i \<leftarrow> dom_mem (x_doms s) a;
               answer_hello env s i secret_id crandom hello0 cipher_suite_id } } }"

definition client_hello_step :: "ext_env \<Rightarrow> ext_state \<Rightarrow> (step \<times> ext_state) option" where
  "client_hello_step env s = (
     let inp = c_in (x_conn s); len = length inp in do {
     (l, _) \<leftarrow> read_length inp 3;
     let min_len = 5 + l;
     if len < min_len then Some (Ret (int (min_len - len)), s)
     else do {
       let read_len = (if len \<le> 4096 then len else 4096);
       let client_hello = take read_len inp;
       info \<leftarrow> get_sni_domain_info (x_doms s) client_hello read_len;
       case info of
         None \<Rightarrow> proxy_step env s (default_domain_info (x_doms s))
       | Some a \<Rightarrow>
           if x_our_port s = 80 then proxy_step env s (Some a)
           else if len > min_len then proxy_step env s (Some a)
           else if len \<noteq> read_len then proxy_step env s (Some a)
           else handle_hello env s a client_hello } })"

section \<open>The obfuscated header\<close>

definition TAG_PAD :: u32 where "TAG_PAD = 0xdddddddd"
definition TAG_MEDIUM :: u32 where "TAG_MEDIUM = 0xeeeeeeee"
definition TAG_COMPACT :: u32 where "TAG_COMPACT = 0xefefefef"

text \<open>Keys and initial vectors for reading and writing, from the header and a secret.\<close>

definition derive_keys :: "ext_env \<Rightarrow> bytes \<Rightarrow> bytes option \<Rightarrow> (nat \<Rightarrow> u8) \<times> (nat \<Rightarrow> u8)" where
  "derive_keys env header secret = (
     let raw_read = take 32 (drop 8 header);
         raw_write = rev (take 32 (drop 24 header));
         hash = (\<lambda>k. case secret of None \<Rightarrow> k | Some z \<Rightarrow> e_sha256 env (k @ z))
     in (e_ctr env (hash raw_read) (take 16 (drop 40 header)),
         e_ctr env (hash raw_write) (rev (take 16 (drop 8 header)))))"

definition tag_flags :: "u32 \<Rightarrow> u32" where
  "tag_flags tag =
     (if tag = TAG_MEDIUM then RPC_F_MEDIUM OR RPC_F_EXTMODE2
      else if tag = TAG_PAD then RPC_F_MEDIUM OR RPC_F_EXTMODE2 OR RPC_F_PAD
      else RPC_F_COMPACT OR RPC_F_EXTMODE2)"

definition accept_header :: "ext_state \<Rightarrow> (nat \<Rightarrow> u8) \<times> (nat \<Rightarrow> u8) \<Rightarrow> nat \<Rightarrow> bytes \<Rightarrow> u32 \<Rightarrow> ext_state option" where
  "accept_header s keys secret_id header tag = do {
     let c = x_conn s;
     let c = c\<lparr>c_in_u := c_in_u c @ drop 64 (c_in c), c_in := [], read_pos := 64, write_pos := 0\<rparr>;
     (res, c) \<leftarrow> ctr128_decrypt_input (fst keys) c;
     cassert (0 \<le> res);
     let s = s\<lparr>x_conn := c, x_crypto := Some keys, x_in_packet_num := 0, x_flags := x_flags s OR tag_flags tag,
               x_extra_int4 := sint (ucast (header ! 60) OR push_bit 8 (ucast (header ! 61)) :: u16)\<rparr>;
     Some (if x_secrets s \<noteq> [] then bind_secret secret_id s else s) }"

fun try_secrets :: "ext_env \<Rightarrow> ext_state \<Rightarrow> bytes \<Rightarrow> nat list \<Rightarrow> (step \<times> ext_state) option" where
  "try_secrets env s header [] = Some (Ret (- (2 ^ 28)), s)"
| "try_secrets env s header (secret_id # ids) = (
     let keys = derive_keys env header (if x_secrets s = [] then None else Some (x_secrets s ! secret_id));
         plain = crypt (fst keys) 0 header;
         tag = le32 (drop 56 plain)
     in if tag = TAG_PAD \<or> tag = TAG_MEDIUM \<or> tag = TAG_COMPACT then
          if tag \<noteq> TAG_PAD \<and> allow_only_tls (x_doms s) then
            proxy_step env (s\<lparr>x_crypto := Some keys, x_conn := (x_conn s)\<lparr>read_pos := 64, write_pos := 0\<rparr>\<rparr>)
              (default_domain_info (x_doms s))
          else do { s \<leftarrow> accept_header s keys secret_id plain tag; Some (Next, s) }
        else try_secrets env s header ids)"

definition header_step :: "ext_env \<Rightarrow> ext_state \<Rightarrow> (step \<times> ext_state) option" where
  "header_step env s = (
     let len = length (c_in (x_conn s)) in
     if allow_only_tls (x_doms s) \<and> \<not> c_is_tls (x_conn s) then proxy_step env s (default_domain_info (x_doms s))
     else if len < 64 then do {
       cassert (\<not> c_is_tls (x_conn s));
       Some (Ret (int (64 - len)), s) }
     else try_secrets env s (take 64 (c_in (x_conn s)))
            [0 ..< (if x_secrets s = [] then 1 else length (x_secrets s))])"

text \<open>The first record of the client after the handshake.\<close>

definition first_record_step :: "ext_env \<Rightarrow> ext_state \<Rightarrow> (step \<times> ext_state) option" where
  "first_record_step env s = (
     let inp = c_in (x_conn s); len = length inp in
     if len < 11 then Some (Ret (int (11 - len)), s)
     else if take 9 inp \<noteq> [0x14, 0x03, 0x03, 0x00, 0x01, 0x01, 0x17, 0x03, 0x03] then
       Some (Ret 0, fail_connection s)
     else
       let l = 256 * unat (inp ! 9) + unat (inp ! 10) in
       if len < 11 + l then Some (Ret (int (11 + l - len)), s)
       else
         let s = s\<lparr>x_conn := (x_conn s)\<lparr>c_in := drop 11 inp, left_tls_packet_length := int l\<rparr>\<rparr> in
         if l < 64 then Some (Ret 0, fail_connection s)
         else header_step env (s\<lparr>x_conn := (x_conn s)\<lparr>left_tls_packet_length := int l - 64\<rparr>\<rparr>))"

section \<open>The parse loop\<close>

definition detect_step :: "ext_env \<Rightarrow> ext_state \<Rightarrow> u32 \<Rightarrow> (step \<times> ext_state) option" where
  "detect_step env s packet_len =
     (if c_is_tls (x_conn s) then first_record_step env s
      else if packet_len AND 0xFFFFFF = 0x010316 \<and> sint packet_len div 2 ^ 24 \<ge> 2 \<and> x_secrets s \<noteq> [] \<and>
              allow_only_tls (x_doms s) then client_hello_step env s
      else header_step env s)"

definition packet_step :: "ext_env \<Rightarrow> ext_state \<Rightarrow> (step \<times> ext_state) option" where
  "packet_step env s = do {
     (flags, f) \<leftarrow> read_frame (x_flags s) (e_max_packet_len env) (c_in (x_conn s));
     let s = s\<lparr>x_flags := flags\<rparr>;
     case f of
       FrameFail \<Rightarrow> Some (Ret 0, fail_connection s)
     | FrameNeed n \<Rightarrow> Some (Ret (int n), s)
     | FramePacket packet_type msg rest \<Rightarrow> do {
         let s = s\<lparr>x_conn := (x_conn s)\<lparr>c_in := rest\<rparr>\<rparr>;
         cassert (x_in_packet_num s \<ge> 0 \<or> x_in_packet_num s = -3);
         let s = (if x_in_packet_num s < 0 then s\<lparr>x_in_packet_num := 0\<rparr> else s);
         let s = (if packet_type = RPC_PING then e_default_execute env packet_type msg s
                  else e_execute env packet_type msg s);
         Some (Next, s\<lparr>x_in_packet_num := x_in_packet_num s + 1\<rparr>) } }"

definition parse_step :: "ext_env \<Rightarrow> ext_state \<Rightarrow> (step \<times> ext_state) option" where
  "parse_step env s = (
     let s = (if x_in_packet_num s \<noteq> -3 then s\<lparr>x_timer := False\<rparr> else s);
         len = length (c_in (x_conn s)) in
     if c_error (x_conn s) then Some (Ret NEED_MORE_BYTES, s)
     else if x_stop_parse s then Some (Ret NEED_MORE_BYTES, s)
     else if len = 0 then Some (Ret NEED_MORE_BYTES, s)
     else
       let min_len = (if has_flag (x_flags s) RPC_F_MEDIUM then 4 else 1) in
       if len < min_len + 8 then Some (Ret (int (min_len + 8 - len)), s)
       else do {
         packet_len \<leftarrow> fetch32 (c_in (x_conn s));
         if x_in_packet_num s = -3 then detect_step env s packet_len else packet_step env s })"

partial_function (option) parse_loop :: "ext_env \<Rightarrow> ext_state \<Rightarrow> (int \<times> ext_state) option" where
  "parse_loop env s = do {
     (r, s) \<leftarrow> parse_step env s;
     case r of Ret n \<Rightarrow> Some (n, s) | Next \<Rightarrow> parse_loop env s }"

definition tcp_rpcs_compact_parse_execute :: "ext_env \<Rightarrow> ext_state \<Rightarrow> (int \<times> ext_state) option" where
  "tcp_rpcs_compact_parse_execute env s =
     (if x_compact_off s then
        e_plain_parse env (if x_in_packet_num s \<noteq> -3 then s\<lparr>x_timer := False\<rparr> else s)
      else parse_loop env s)"

section \<open>Replay protection\<close>

text \<open>What a ClientHello says by itself: the matching secret and its timestamp.\<close>

definition hello_random16 :: "bytes \<Rightarrow> bytes" where
  "hello_random16 hello = take 16 (take 32 (drop 11 hello))"

definition hello_claim :: "(bytes \<Rightarrow> bytes \<Rightarrow> bytes) \<Rightarrow> bytes list \<Rightarrow> bytes \<Rightarrow> (nat \<times> int) option" where
  "hello_claim hmac secrets hello = (
     let crandom = take 32 (drop 11 hello);
         hello0 = take 11 hello @ replicate 32 0 @ drop 43 hello
     in map_option (\<lambda>i. (i, sint (le32 (drop 28 (hmac (secrets ! i) hello0)) XOR le32 (drop 28 crandom))))
          (find (\<lambda>i. take 28 (hmac (secrets ! i) hello0) = take 28 crandom) [0 ..< length secrets]))"

definition accepted :: "(nat \<times> bool) option \<Rightarrow> bool" where
  "accepted v \<longleftrightarrow> (\<exists>i. v = Some (i, True))"

lemma check_client_hello_eq:
  assumes "43 \<le> length hello"
  shows "check_client_hello hmac secrets now hello randoms = do {
     h \<leftarrow> have_client_random randoms (take 32 (drop 11 hello));
     if h then Some (randoms, None)
     else do {
       randoms \<leftarrow> add_client_random randoms now (take 32 (drop 11 hello));
       randoms \<leftarrow> delete_old_client_randoms now randoms;
       case hello_claim hmac secrets hello of
         None \<Rightarrow> Some (randoms, None)
       | Some (i, ts) \<Rightarrow> do { ok \<leftarrow> is_allowed_timestamp randoms now ts; Some (randoms, Some (i, ok)) } } }"
proof -
  let ?h0 = "take 11 hello @ replicate 32 0 @ drop 43 hello" and ?c = "take 32 (drop 11 hello)"
  let ?f = "find (\<lambda>i. take 28 (hmac (secrets ! i) ?h0) = take 28 ?c) [0 ..< length secrets]"
  have m: "mem_get hello 11 32 = Some ?c" "mem_copy hello 11 (replicate 32 0) = Some ?h0"
    using assms by (simp_all add: mem_get_def mem_copy_def)
  obtain f where f: "?f = f" by blast
  show ?thesis
    unfolding check_client_hello_def m bind.simps hello_claim_def Let_def f
    by (cases f) (simp_all cong: if_cong)
qed

text \<open>The requests accepted so far stay guarded by the cache.\<close>

definition all_guarded ::
  "(bytes \<Rightarrow> bytes \<Rightarrow> bytes) \<Rightarrow> bytes list \<Rightarrow> bytes set \<Rightarrow> int \<Rightarrow> (bytes \<times> int) list \<Rightarrow> bool" where
  "all_guarded hmac secrets H now xs \<longleftrightarrow> (\<forall>h\<in>H. \<exists>i ts t. hello_claim hmac secrets h = Some (i, ts) \<and>
     ts \<le> t + 3 \<and> guarded (hello_random16 h) t now xs)"

lemma all_guarded_later: "all_guarded hmac secrets H now xs \<Longrightarrow> now \<le> now' \<Longrightarrow> all_guarded hmac secrets H now' xs"
  unfolding all_guarded_def using guarded_later by meson

lemma check_client_hello_step:
  assumes rep: "cr_rep r xs" and ok: "times_ok now xs" and len: "43 \<le> length hello"
    and g: "all_guarded hmac secrets H now xs"
  shows "\<exists>r' v ys. check_client_hello hmac secrets now hello r = Some (r', v) \<and> cr_rep r' ys \<and> times_ok now ys \<and>
     all_guarded hmac secrets (if accepted v then insert hello H else H) now ys \<and> (accepted v \<longrightarrow> hello \<notin> H)"
proof -
  let ?c = "take 32 (drop 11 hello)"
  have l: "16 \<le> length ?c" using len by simp
  have r16: "take 16 ?c = hello_random16 hello" by (simp add: hello_random16_def)
  show ?thesis
  proof (cases "have_client_random r ?c = Some True")
    case True
    then have "check_client_hello hmac secrets now hello r = Some (r, None)"
      by (simp add: check_client_hello_eq [OF len])
    then show ?thesis using rep ok g by (auto simp: accepted_def)
  next
    case False
    then have nh: "have_client_random r ?c = Some False" using randoms.have_law [OF rep l] by auto
    obtain s1 s2 ys where st: "add_client_random r now ?c = Some s1" "delete_old_client_randoms now s1 = Some s2"
        "cr_rep s2 ys" "times_ok now ys" "guarded (take 16 ?c) now now ys"
        "\<forall>r' t'. guarded r' t' now xs \<longrightarrow> guarded r' t' now ys"
      by (rule randoms.record_random [OF rep l ok])
    have keep: "all_guarded hmac secrets H now ys"
      using g st(6) unfolding all_guarded_def by meson
    note chk = check_client_hello_eq [OF len, of hmac secrets now r] nh st(1,2)
    show ?thesis
    proof (cases "hello_claim hmac secrets hello")
      case None
      then have "check_client_hello hmac secrets now hello r = Some (s2, None)" using chk by simp
      then show ?thesis using st keep by (auto simp: accepted_def)
    next
      case (Some p)
      then obtain i ts where p: "hello_claim hmac secrets hello = Some (i, ts)" by (cases p) auto
      obtain b where b: "is_allowed_timestamp s2 now ts = Some b" "b \<Longrightarrow> ts \<le> now + 3"
        using randoms.allowed_law [OF st(3), of now ts] by auto
      have "check_client_hello hmac secrets now hello r = Some (s2, Some (i, b))" using chk p b(1) by simp
      moreover have "hello \<notin> H" if "b"
      proof
        assume "hello \<in> H"
        then obtain t where "ts \<le> t + 3" "guarded (take 16 ?c) t now xs"
          using g p unfolding all_guarded_def r16 by force
        then have "is_allowed_timestamp s2 now ts = Some False"
          using randoms.guarded_refused [OF rep l _ nh _ st(1,2)] by blast
        then show False using b(1) that by simp
      qed
      moreover have "all_guarded hmac secrets (insert hello H) now ys" if "b"
        using keep st(5) p b(2) [OF that] unfolding all_guarded_def r16 by blast
      ultimately show ?thesis using st keep by (auto simp: accepted_def)
    qed
  qed
qed

text \<open>A run of the server: ClientHellos with the times at which they arrive, and which are accepted.\<close>

fun run_hellos ::
  "(bytes \<Rightarrow> bytes \<Rightarrow> bytes) \<Rightarrow> bytes list \<Rightarrow> cr_state \<Rightarrow> (int \<times> bytes) list \<Rightarrow> (cr_state \<times> bytes list) option" where
  "run_hellos hmac secrets r [] = Some (r, [])"
| "run_hellos hmac secrets r ((now, hello) # evs) = do {
     (r, v) \<leftarrow> check_client_hello hmac secrets now hello r;
     (r, acc) \<leftarrow> run_hellos hmac secrets r evs;
     Some (r, if accepted v then hello # acc else acc) }"

lemma run_hellos_distinct:
  assumes "cr_rep r xs" "times_ok t0 xs" "all_guarded hmac secrets H t0 xs" "sorted (t0 # map fst evs)"
    "\<forall>e\<in>set evs. 43 \<le> length (snd e)"
  shows "\<exists>r' acc. run_hellos hmac secrets r evs = Some (r', acc) \<and> distinct acc \<and> set acc \<inter> H = {}"
  using assms
proof (induction evs arbitrary: r xs t0 H)
  case (Cons e evs)
  obtain now hello where e: "e = (now, hello)" by fastforce
  have now: "t0 \<le> now" and sorted: "sorted (now # map fst evs)" and len: "43 \<le> length hello"
    using Cons.prems(4,5) by (auto simp: e)
  obtain r' v ys where st: "check_client_hello hmac secrets now hello r = Some (r', v)" "cr_rep r' ys" "times_ok now ys"
    "all_guarded hmac secrets (if accepted v then insert hello H else H) now ys" "accepted v \<longrightarrow> hello \<notin> H"
    using check_client_hello_step [OF Cons.prems(1) times_ok_later [OF Cons.prems(2) now] len
        all_guarded_later [OF Cons.prems(3) now]] by blast
  obtain r2 acc where "run_hellos hmac secrets r' evs = Some (r2, acc)" "distinct acc"
    "set acc \<inter> (if accepted v then insert hello H else H) = {}"
    using Cons.IH [OF st(2-4) sorted] Cons.prems(5) by auto
  with st show ?case by (auto simp: e)
qed simp

text \<open>
  C1. No ClientHello is accepted twice. Starting with an empty cache, with a clock
  that does not go back, and for any sequence of ClientHellos from any clients, checking them always
  returns and the accepted ones are pairwise different, although the cache forgets entries after two
  days.
\<close>

theorem no_replay:
  assumes "sorted (map fst evs)" "\<forall>e\<in>set evs. 43 \<le> length (snd e)"
  shows "\<exists>r acc. run_hellos hmac secrets cr_empty evs = Some (r, acc) \<and> distinct acc"
proof (cases evs)
  case (Cons e es)
  have "cr_rep cr_empty []" using cr_inv_empty by (auto simp: cr_rep_def content_def)
  moreover have "sorted (fst e # map fst evs)" using assms(1) Cons by simp
  ultimately show ?thesis
    using run_hellos_distinct [of cr_empty "[]" "fst e" hmac secrets "{}" evs] assms(2)
    by (auto simp: times_ok_def all_guarded_def)
qed simp

theorem no_replay_witness:
  "\<exists>r acc. run_hellos (\<lambda>k x. replicate 28 7 @ [5, 0, 0, 0]) [replicate 16 1] cr_empty
     [(0, replicate 11 0 @ replicate 28 7 @ replicate 20 0), (1, replicate 11 0 @ replicate 28 7 @ replicate 20 0)] =
     Some (r, acc) \<and> distinct acc"
  by (rule no_replay) simp_all

section \<open>What an unauthenticated peer can see\<close>

text \<open>
  \<open>hidden s s'\<close>: nothing of the proxy's own was sent; everything received went to the domain unchanged,
  or the connection is closed.
\<close>

definition hidden :: "ext_state \<Rightarrow> ext_state \<Rightarrow> bool" where
  "hidden s s' \<longleftrightarrow> x_sent s' = x_sent s \<and>
     ((\<exists>a. x_proxied s' = Some (a, c_in (x_conn s)) \<and> c_in (x_conn s') = []) \<or> c_error (x_conn s'))"

definition ext_wf :: "ext_env \<Rightarrow> ext_state \<Rightarrow> bool" where
  "ext_wf env s \<longleftrightarrow> (\<exists>xs. cr_rep (x_randoms s) xs \<and> times_ok (e_now env) xs) \<and> (\<exists>as. dom_inv (x_doms s) as) \<and>
     (\<forall>a i. dom_mem (x_doms s) a = Some i \<longrightarrow> 0 \<le> get_domain_server_hello_encrypted_size i (e_rand env) \<and>
        nat (get_domain_server_hello_encrypted_size i (e_rand env)) \<le> length (e_noise env) \<and>
        138 + nat (get_domain_server_hello_encrypted_size i (e_rand env)) \<le> length (e_buf env)) \<and>
     32 \<le> length (e_key env) \<and> (\<forall>k x. length (e_hmac env k x) = 32)"

lemma hidden_cong:
  "x_sent s1 = x_sent s \<Longrightarrow> c_in (x_conn s1) = c_in (x_conn s) \<Longrightarrow> hidden s1 s' = hidden s s'"
  by (simp add: hidden_def)

lemma proxy_step_hidden:
  assumes "dom_mem (x_doms s) a = Some i" "x_proxied s = None"
  shows "\<exists>s'. proxy_step env s (Some a) = Some (Ret 0, s') \<and> hidden s s'"
proof -
  have "\<exists>s'. proxy_connection env s a = Some (0, s') \<and> hidden s s'"
    using assms
    by (simp add: proxy_connection_def Let_def hidden_def fail_connection_def tcp_proxy_pass_parse_execute_def
        mtfront_on_secret_connection_close_def split: connect_result.split)
  then show ?thesis by (auto simp: proxy_step_def)
qed

lemma dom_addr_mem:
  assumes "dom_inv (x_doms s) as" "get_sni_domain_info (x_doms s) hello n = Some (Some a)"
  obtains i where "dom_mem (x_doms s) a = Some i"
proof -
  obtain d where "get_domain_info (x_doms s) d = Some (Some a)"
    using assms(2) by (auto simp: get_sni_domain_info_def bind_eq_Some_conv split: option.splits)
  then have "find (\<lambda>x. di_domain (the (dom_mem (x_doms s) x)) = d) (rev as) = Some a"
    using get_domain_info_ok [OF assms(1)] by simp
  then have "a \<in> set as" by (metis find_Some_iff nth_mem set_rev)
  then show ?thesis using dom_mem_Some [OF assms(1)] that by blast
qed

lemma default_mem:
  assumes "dom_inv (x_doms s) as" "allow_only_tls (x_doms s)"
  obtains a i where "default_domain_info (x_doms s) = Some a" "dom_mem (x_doms s) a = Some i"
proof -
  have "as \<noteq> []" "default_domain_info (x_doms s) = (if as = [] then None else Some (hd as))"
    using assms by (auto simp: dom_inv_def)
  then show ?thesis using dom_mem_Some [OF assms(1), of "hd as"] that by auto
qed

declare skip_grease.simps [simp del]

lemma skip_grease_total:
  "pos + n \<le> length hello \<Longrightarrow> \<exists>n' pos'. skip_grease hello n pos = Some (n', pos') \<and> pos' + n' \<le> length hello"
proof (induction hello n pos rule: skip_grease.induct)
  case (1 hello n pos)
  show ?case
  proof (cases "n \<ge> 2")
    case True
    let ?a = "hello ! pos" and ?b = "hello ! Suc pos"
    have r: "aget hello pos = Some ?a" "aget hello (pos + 1) = Some ?b" using True 1(2) by auto
    show ?thesis
    proof (cases "?a AND 0x0F = 0x0A \<and> ?b AND 0x0F = 0x0A")
      case False
      then show ?thesis using True 1(2) r by (subst skip_grease.simps) auto
    next
      case grease: True
      have "\<exists>n' pos'. skip_grease hello (n - 2) (pos + 2) = Some (n', pos') \<and> pos' + n' \<le> length hello"
        using 1(1) [OF True r grease] 1(2) True by simp
      then show ?thesis using True r grease by (subst skip_grease.simps) simp
    qed
  next
    case False then show ?thesis using 1(2) by (subst skip_grease.simps) simp
  qed
qed

lemma choose_cipher_suite_total:
  assumes "78 \<le> length hello" "length hello = n"
  shows "\<exists>c. choose_cipher_suite hello n = Some c"
proof (cases "78 + u16_at hello 76 > n")
  case True then show ?thesis using assms by (simp add: choose_cipher_suite_def)
next
  case False
  then obtain n' pos' where "skip_grease hello (u16_at hello 76) 78 = Some (n', pos')" "pos' + n' \<le> length hello"
    using skip_grease_total [of 78 "u16_at hello 76" hello] assms by auto
  with False assms show ?thesis by (auto simp: choose_cipher_suite_def)
qed

lemma claim_of_verdict:
  "43 \<le> length hello \<Longrightarrow> check_client_hello hmac secrets now hello r = Some (r', Some (i, b)) \<Longrightarrow>
     \<exists>ts. hello_claim hmac secrets hello = Some (i, ts)"
  by (auto simp: check_client_hello_eq bind_eq_Some_conv split: if_splits option.splits prod.splits)

lemma drop_bit_24_le32: "drop_bit 24 (le32 bs) = ucast (bs ! 3)"
proof (rule bit_word_eqI)
  fix n assume "n < LENGTH(32)"
  then show "bit (drop_bit 24 (le32 bs)) n = bit (ucast (bs ! 3) :: u32) n"
    by (auto simp: le32_def bit_simps dest: bit_imp_le_length)
qed

lemma header_byte_ge_2:
  assumes "2 \<le> sint (le32 bs) div 2 ^ 24"
  shows "2 \<le> unat (bs ! 3)"
proof -
  let ?w = "le32 bs"
  have "0 \<le> sint ?w" using assms by simp
  moreover have "sint ?w < 2 ^ 32" using sint_lt [of ?w] by simp
  ultimately have "uint ?w = sint ?w" by (simp add: uint_sint take_bit_int_eq_self)
  then have "uint (drop_bit 24 ?w) = sint ?w div 2 ^ 24"
    by (simp add: unsigned_drop_bit_eq drop_bit_eq_div take_bit_int_eq_self uint_div_distrib)
  then have "2 \<le> uint (ucast (bs ! 3) :: u32)" using assms by (simp add: drop_bit_24_le32)
  then have "2 \<le> unat (ucast (bs ! 3) :: u32)" using of_nat_unat [of "ucast (bs ! 3) :: u32", where ?'a = int] by linarith
  then show ?thesis
    by (auto simp: unsigned_ucast_eq intro: order_trans [OF _ take_bit_nat_less_eq_self])
qed

text \<open>An accepted ClientHello is answered.\<close>

lemma answer_hello_total:
  assumes "ext_wf env s0" "dom_mem (x_doms s0) a = Some i" "76 \<le> length hello" "length crandom = 32"
  shows "\<exists>s' msg. answer_hello env s i k crandom hello cipher = Some (Ret 11, s') \<and> x_sent s' = x_sent s @ [msg]"
proof -
  let ?e = "get_domain_server_hello_encrypted_size i (e_rand env)"
  have e: "int (nat ?e) = ?e" "nat ?e \<le> length (e_noise env)" "138 + nat ?e \<le> length (e_buf env)"
    "32 \<le> length (e_key env)" "\<And>x. length (e_hmac env (x_secrets s ! k) x) = 32"
    using assms(1,2) unfolding ext_wf_def by auto
  have "\<exists>m. make_server_hello (e_hmac env (x_secrets s ! k)) i (int (nat ?e)) crandom hello cipher (e_key env)
      (e_noise env) (e_buf env) = Some m"
    using make_server_hello_eq [OF e(3) assms(3) e(4) e(2) _ e(5), where crnd = crandom and info = i and cipher = cipher]
      assms(4) by (simp add: Let_def)
  then obtain m where "make_server_hello (e_hmac env (x_secrets s ! k)) i ?e crandom hello cipher (e_key env)
      (e_noise env) (e_buf env) = Some m" unfolding e(1) by blast
  then show ?thesis by (simp add: answer_hello_def Let_def)
qed

lemma get_sni_total:
  assumes "dom_inv s as" "len \<le> length r"
  shows "\<exists>x. get_sni_domain_info s r len = Some x"
proof -
  obtain n where "sni_name r len = Some n" using sni_name_total [OF assms(2)] by blast
  then show ?thesis
    using get_domain_info_ok [OF assms(1)] by (cases n) (simp_all add: get_sni_domain_info_def)
qed

text \<open>The outcome of a step of an unauthenticated connection.\<close>

definition outcome :: "ext_env \<Rightarrow> ext_state \<Rightarrow> int \<Rightarrow> ext_state \<Rightarrow> bool" where
  "outcome env s r s' \<longleftrightarrow> r > 0 \<and> s' = s \<or> r = 0 \<and> hidden s s' \<or>
     r = 11 \<and> hello_claim (e_hmac env) (x_secrets s) (c_in (x_conn s)) \<noteq> None \<and> (\<exists>msg. x_sent s' = x_sent s @ [msg])"

lemma proxy_step_outcome:
  assumes "dom_mem (x_doms s) a = Some i" "x_proxied s = None"
    "x_sent s1 = x_sent s" "x_conn s1 = x_conn s" "x_doms s1 = x_doms s" "x_proxied s1 = x_proxied s"
  shows "\<exists>r s'. proxy_step env s1 (Some a) = Some (Ret r, s') \<and> outcome env s r s'"
  using proxy_step_hidden [of s1 a i env] hidden_cong [of s1 s] assms by (auto simp: outcome_def)

lemma handle_hello_outcome:
  assumes wf: "ext_wf env s" and i: "dom_mem (x_doms s) a = Some i" and prox: "x_proxied s = None"
    and len: "78 \<le> length (c_in (x_conn s))"
  shows "\<exists>r s'. handle_hello env s a (c_in (x_conn s)) = Some (Ret r, s') \<and> outcome env s r s'"
proof -
  let ?inp = "c_in (x_conn s)"
  let ?c = "take 32 (drop 11 ?inp)" and ?h0 = "take 11 ?inp @ replicate 32 0 @ drop 43 ?inp"
  have l43: "43 \<le> length ?inp" using len by simp
  obtain xs where xs: "cr_rep (x_randoms s) xs" "times_ok (e_now env) xs" using wf by (auto simp: ext_wf_def)
  obtain rd v where rv: "check_client_hello (e_hmac env) (x_secrets s) (e_now env) ?inp (x_randoms s) = Some (rd, v)"
    using check_client_hello_step [OF xs l43, of "e_hmac env" "x_secrets s" "{}"] by (auto simp: all_guarded_def)
  have m: "mem_get ?inp 11 32 = Some ?c" "mem_copy ?inp 11 (replicate 32 0) = Some ?h0" "length ?h0 = length ?inp"
    using len by (simp_all add: mem_get_def mem_copy_def)
  obtain c where c: "choose_cipher_suite ?h0 (length ?inp) = Some c"
    using choose_cipher_suite_total [of ?h0] m(3) len by auto
  note start = handle_hello_def m bind.simps rv split Let_def
  show ?thesis
  proof (cases v)
    case None
    show ?thesis unfolding start None option.case
      by (rule proxy_step_outcome [OF i prox]) simp_all
  next
    case (Some p)
    obtain k ok where p: "p = (k, ok)" by fastforce
    let ?s = "bind_secret k (s\<lparr>x_randoms := rd\<rparr>)"
    have sb: "x_sent ?s = x_sent s" "x_conn ?s = x_conn s" "x_doms ?s = x_doms s" "x_proxied ?s = x_proxied s"
      by (simp_all add: bind_secret_def mtfront_on_secret_connection_open_def Let_def)
    have hide: "\<exists>r s'. proxy_step env ?s (Some a) = Some (Ret r, s') \<and> outcome env s r s'"
      by (rule proxy_step_outcome [OF i prox sb])
    have claim: "hello_claim (e_hmac env) (x_secrets s) ?inp \<noteq> None"
      using claim_of_verdict [OF l43] rv Some p by fastforce
    have ans: "\<exists>r s'. answer_hello env ?s i k ?c ?h0 cs = Some (Ret r, s') \<and> outcome env s r s'" for cs
      using answer_hello_total [OF wf i, of ?h0 ?c ?s k cs] m(3) len claim sb(1)
      by (auto simp: outcome_def)
    show ?thesis
      unfolding start Some p option.case c using hide ans i sb(3)
      by (cases ok; cases c) simp_all
  qed
qed

lemma client_hello_step_outcome:
  assumes wf: "ext_wf env s" and only: "allow_only_tls (x_doms s)" and prox: "x_proxied s = None"
    and len: "5 \<le> length (c_in (x_conn s))" and two: "2 \<le> unat (c_in (x_conn s) ! 3)"
  shows "\<exists>r s'. client_hello_step env s = Some (Ret r, s') \<and> outcome env s r s'"
proof -
  let ?inp = "c_in (x_conn s)" and ?l = "u16_at (c_in (x_conn s)) 3"
  let ?n = "if length ?inp \<le> 4096 then length ?inp else 4096"
  obtain as where as: "dom_inv (x_doms s) as" using wf by (auto simp: ext_wf_def)
  have rl: "read_length ?inp 3 = Some (?l, 5)" using len by simp
  have l512: "512 \<le> ?l" using two by (simp add: u16_at_def)
  show ?thesis
  proof (cases "length ?inp < 5 + ?l")
    case True
    then show ?thesis using rl by (auto simp: client_hello_step_def Let_def outcome_def)
  next
    case big: False
    have n: "517 \<le> length ?inp" "?n \<le> length (take ?n ?inp)" using big l512 by auto
    obtain info where info: "get_sni_domain_info (x_doms s) (take ?n ?inp) ?n = Some info"
      using get_sni_total [OF as n(2)] by blast
    note start = client_hello_step_def Let_def rl bind.simps split if_not_P [OF big] info
    show ?thesis
    proof (cases info)
      case None
      obtain a i where d: "default_domain_info (x_doms s) = Some a" "dom_mem (x_doms s) a = Some i"
        using default_mem [OF as only] .
      show ?thesis unfolding start None option.case d(1)
        by (rule proxy_step_outcome [OF d(2) prox]) simp_all
    next
      case (Some a)
      obtain i where i: "dom_mem (x_doms s) a = Some i" using dom_addr_mem [OF as] info Some by blast
      have hide: "\<exists>r s'. proxy_step env s (Some a) = Some (Ret r, s') \<and> outcome env s r s'"
        by (rule proxy_step_outcome [OF i prox]) simp_all
      have "\<exists>r s'. handle_hello env s a ?inp = Some (Ret r, s') \<and> outcome env s r s'"
        using handle_hello_outcome [OF wf i prox] n by simp
      then show ?thesis unfolding start Some option.case using hide by auto
    qed
  qed
qed

text \<open>
  C10. Active probing: on a connection that has not completed the handshake of a
  proxy with TLS domains, whatever bytes arrive, processing them never fails an assertion or leaves a
  buffer, and the proxy sends nothing of its own unless the bytes are a ClientHello that carries
  the HMAC under one of the secrets; otherwise it waits for more bytes, or everything
  received is passed on unchanged to a real domain, or the connection is closed.
\<close>

theorem probing_sees_domain:
  assumes "ext_wf env s" "allow_only_tls (x_doms s)" "\<not> c_is_tls (x_conn s)" "x_in_packet_num s = -3"
    "\<not> c_error (x_conn s)" "x_proxied s = None"
  shows "\<exists>r s'. parse_step env s = Some (Ret r, s') \<and>
     (r > 0 \<and> s' = s \<or> r = 0 \<and> hidden s s' \<or>
      r = 11 \<and> hello_claim (e_hmac env) (x_secrets s) (c_in (x_conn s)) \<noteq> None \<and>
        (\<exists>msg. x_sent s' = x_sent s @ [msg]))"
proof -
  obtain as where as: "dom_inv (x_doms s) as" using assms(1) by (auto simp: ext_wf_def)
  obtain a i where d: "default_domain_info (x_doms s) = Some a" "dom_mem (x_doms s) a = Some i"
    using default_mem [OF as assms(2)] .
  let ?inp = "c_in (x_conn s)"
  have hdr: "\<exists>r s'. header_step env s = Some (Ret r, s') \<and> outcome env s r s'"
    using proxy_step_outcome [OF d(2) assms(6), of s env] assms(2,3) d(1) by (simp add: header_step_def)
  have cl: "\<exists>r s'. client_hello_step env s = Some (Ret r, s') \<and> outcome env s r s'"
    if "sint (le32 ?inp) div 2 ^ 24 \<ge> 2" "5 \<le> length ?inp"
  proof -
    have "2 \<le> unat (?inp ! 3)" by (rule header_byte_ge_2 [OF that(1)])
    then show ?thesis using client_hello_step_outcome [OF assms(1,2,6) that(2)] by blast
  qed
  have "\<exists>r s'. parse_step env s = Some (Ret r, s') \<and> outcome env s r s'"
    using assms(3-5) hdr cl
    by (auto simp: parse_step_def Let_def detect_step_def fetch32_def outcome_def NEED_MORE_BYTES_def)
  then show ?thesis unfolding outcome_def .
qed

definition sample_env :: ext_env where
  "sample_env = \<lparr>e_sha256 = (\<lambda>_. replicate 32 1), e_hmac = (\<lambda>k x. replicate 32 2), e_ctr = (\<lambda>k iv i. 3), e_now = 1000,
     e_rand = 0, e_key = replicate 32 4, e_noise = [], e_buf = replicate 138 0, e_connect = (\<lambda>a p. Connected),
     e_execute = (\<lambda>t m s. s), e_default_execute = (\<lambda>t m s. s), e_max_packet_len = 0, e_plain_parse = (\<lambda>s. Some (0, s))\<rparr>"

definition sample_state :: "bytes \<Rightarrow> ext_state" where
  "sample_state inp = \<lparr>x_conn = \<lparr>c_in = inp, c_in_u = [], c_out = [], c_out_p = [], c_is_tls = False,
       left_tls_packet_length = 0, c_error = False, read_pos = 0, write_pos = 0\<rparr>, x_crypto = None, x_flags = 0,
     x_in_packet_num = -3, x_compact_off = False, x_extra_int2 = 0, x_extra_int3 = 0, x_extra_int4 = 0,
     x_stop_parse = False, x_our_port = 443, x_timer = True, x_sent = [], x_proxied = None,
     x_secrets = [replicate 16 9], x_doms = tcp_rpc_add_proxy_domain dom_empty [0x61], x_randoms = cr_empty\<rparr>"

lemma sample_wf: "ext_wf sample_env (sample_state inp)"
proof -
  have "cr_rep cr_empty []" using cr_inv_empty by (auto simp: cr_rep_def content_def)
  moreover have "dom_inv (tcp_rpc_add_proxy_domain dom_empty [0x61]) [0]"
    using add_proxy_domain_ok(1) [OF dom_inv_empty, of "[0x61]"] by (simp add: dom_empty_def)
  moreover have "dom_mem (tcp_rpc_add_proxy_domain dom_empty [0x61]) a = Some i \<Longrightarrow>
      get_domain_server_hello_encrypted_size i 0 = 0" for a i
    by (auto simp: tcp_rpc_add_proxy_domain_def dom_empty_def Let_def get_domain_server_hello_encrypted_size_def
        split: if_splits)
  ultimately show ?thesis
    unfolding ext_wf_def sample_env_def sample_state_def
    by (fastforce simp: times_ok_def)
qed

theorem probing_sees_domain_witness:
  "\<exists>r s'. parse_step sample_env (sample_state (replicate 20 0x41)) = Some (Ret r, s') \<and>
     (r > 0 \<and> s' = sample_state (replicate 20 0x41) \<or> r = 0 \<and> hidden (sample_state (replicate 20 0x41)) s' \<or>
      r = 11 \<and> hello_claim (e_hmac sample_env) (x_secrets (sample_state (replicate 20 0x41)))
          (c_in (x_conn (sample_state (replicate 20 0x41)))) \<noteq> None \<and>
        (\<exists>msg. x_sent s' = x_sent (sample_state (replicate 20 0x41)) @ [msg]))"
  by (rule probing_sees_domain)
    (simp_all add: sample_wf, simp_all add: sample_state_def tcp_rpc_add_proxy_domain_def dom_empty_def Let_def)

section \<open>The packet loop\<close>

text \<open>
  A handler that leaves the connection buffers and the framing state alone; what one packet does to
  the state.
\<close>

definition quiet :: "(u32 \<Rightarrow> bytes \<Rightarrow> ext_state \<Rightarrow> ext_state) \<Rightarrow> bool" where
  "quiet f \<longleftrightarrow> (\<forall>t m s. x_conn (f t m s) = x_conn s \<and> x_flags (f t m s) = x_flags s \<and>
     x_stop_parse (f t m s) = x_stop_parse s \<and> x_in_packet_num (f t m s) = x_in_packet_num s)"

definition deliver :: "ext_env \<Rightarrow> u32 \<Rightarrow> bytes \<Rightarrow> ext_state \<Rightarrow> ext_state" where
  "deliver env t m s = (let s = (if t = RPC_PING then e_default_execute env t m s else e_execute env t m s)
     in s\<lparr>x_in_packet_num := x_in_packet_num s + 1\<rparr>)"

text \<open>The state in which a message is handed to its handler, when \<open>rest\<close> follows it.\<close>

definition before_packet :: "bytes \<Rightarrow> ext_state \<Rightarrow> ext_state" where
  "before_packet rest s = s\<lparr>x_timer := False, x_flags := x_flags s AND NOT RPC_F_QUICKACK,
     x_conn := (x_conn s)\<lparr>c_in := rest\<rparr>\<rparr>"

fun deliver_all :: "ext_env \<Rightarrow> (bytes \<times> bytes) list \<Rightarrow> ext_state \<Rightarrow> ext_state" where
  "deliver_all env [] s = s"
| "deliver_all env ((m, rest) # ms) s = deliver_all env ms (deliver env (le32 m) m (before_packet rest s))"

text \<open>
  The stream of framed messages, each with the padding \<open>x\<close>, \<open>y\<close> that its sender chose, and for each message what
  follows it.
\<close>

fun framed :: "u32 \<Rightarrow> (bytes \<times> bytes \<times> nat) list \<Rightarrow> bytes option" where
  "framed flags [] = Some []"
| "framed flags ((m, x, y) # ms) = do {
     out \<leftarrow> write_packet_compact flags x y m;
     rest \<leftarrow> framed flags ms;
     Some (out @ rest) }"

fun with_rest :: "u32 \<Rightarrow> (bytes \<times> bytes \<times> nat) list \<Rightarrow> (bytes \<times> bytes) list" where
  "with_rest flags [] = []"
| "with_rest flags ((m, x, y) # ms) = (m, the (framed flags ms)) # with_rest flags ms"

definition ready :: "ext_state \<Rightarrow> bool" where
  "ready s \<longleftrightarrow> 0 \<le> x_in_packet_num s \<and> \<not> c_error (x_conn s) \<and> \<not> x_stop_parse s \<and>
     x_flags s AND RPC_F_QUICKACK = 0 \<and> (has_flag (x_flags s) RPC_F_PAD \<longrightarrow> has_flag (x_flags s) RPC_F_MEDIUM)"

definition good_message :: "ext_env \<Rightarrow> bytes \<Rightarrow> bool" where
  "good_message env m \<longleftrightarrow> length m mod 4 = 0 \<and> 8 \<le> length m \<and> length m + 3 < 2 ^ 26 \<and>
     (e_max_packet_len env \<le> 0 \<or> int (length m) + 3 \<le> e_max_packet_len env)"

lemma frame_length:
  "write_packet_compact flags x y m = Some out \<Longrightarrow>
     length m + (if has_flag flags RPC_F_MEDIUM then 4 else 1) \<le> length out"
  by (auto simp: write_packet_compact_def Let_def abort_simps split: if_splits)

lemma packet_step_delivers:
  assumes "ready s" "good_message env m" "write_packet_compact (x_flags s) x y m = Some out"
    "c_in (x_conn s) = out @ rest"
  shows "parse_step env s = Some (Next, deliver env (le32 m) m (before_packet rest s))"
proof -
  have fl: "x_flags s AND NOT RPC_F_QUICKACK = x_flags s" using assms(1) by (simp add: ready_def and_not_disjoint)
  have rf: "read_frame (x_flags s) (e_max_packet_len env) (out @ rest) =
      Some (x_flags s, FramePacket (le32 m) m rest)"
    using frame_roundtrip [of "x_flags s" m "e_max_packet_len env" x y rest] assms fl
    by (auto simp: good_message_def ready_def)
  have len: "8 + (if has_flag (x_flags s) RPC_F_MEDIUM then 4 else 1) \<le> length (out @ rest)"
    using frame_length [OF assms(3)] assms(2) by (simp add: good_message_def)
  then have "4 \<le> length (out @ rest)" by (simp split: if_splits)
  then have ft: "fetch32 (out @ rest) = Some (le32 (out @ rest))" by (simp add: fetch32_def)
  have flags: "0 \<le> x_in_packet_num s" "\<not> c_error (x_conn s)" "\<not> x_stop_parse s"
    using assms(1) by (auto simp: ready_def)
  have neq: "length (out @ rest) \<noteq> 0"
    "\<not> length (out @ rest) < (if has_flag (x_flags s) RPC_F_MEDIUM then 4 else 1) + 8"
    using len by (auto split: if_splits)
  have n3: "x_in_packet_num s \<noteq> -3" using flags by simp
  have "parse_step env s = packet_step env (s\<lparr>x_timer := False\<rparr>)"
    unfolding parse_step_def Let_def if_P [OF n3] using flags neq n3 ft by (auto simp: assms(4))
  also have "\<dots> = Some (Next, deliver env (le32 m) m (before_packet rest s))"
    using flags by (simp add: assms(4) packet_step_def rf deliver_def before_packet_def fl Let_def)
  finally show ?thesis .
qed

lemma ready_deliver:
  assumes "ready s" "quiet (e_execute env)" "quiet (e_default_execute env)"
  shows "ready (deliver env t m (before_packet rest s))"
    "x_flags (deliver env t m (before_packet rest s)) = x_flags s"
    "c_in (x_conn (deliver env t m (before_packet rest s))) = rest"
proof -
  have fl: "x_flags s AND NOT RPC_F_QUICKACK = x_flags s" using assms(1) by (simp add: ready_def and_not_disjoint)
  show "ready (deliver env t m (before_packet rest s))"
    "x_flags (deliver env t m (before_packet rest s)) = x_flags s"
    "c_in (x_conn (deliver env t m (before_packet rest s))) = rest"
    using assms fl by (auto simp: ready_def quiet_def deliver_def before_packet_def Let_def)
qed

lemma parse_loop_Next: "parse_step env s = Some (Next, s') \<Longrightarrow> parse_loop env s = parse_loop env s'"
  by (subst parse_loop.simps) simp

lemma parse_loop_Ret: "parse_step env s = Some (Ret r, s') \<Longrightarrow> parse_loop env s = Some (r, s')"
  by (subst parse_loop.simps) simp

text \<open>
  C11. After the handshake, when the input buffer holds a sequence of complete packets, each framed by
  \<open>write_packet_compact\<close> with padding of its own, one call of the parser hands exactly these messages to the handlers, each once
  and in order, consumes the whole buffer, and returns asking for more bytes. The messages have at least 8 bytes (the
  parser does not look at a packet before 8 bytes follow its length, so that a last message of 4 bytes would wait for more
  input), a length that is a multiple of 4 and that the limits on a packet admit; none asks for a quick acknowledgement; and the
  handlers leave the connection and the state of the framing alone.
\<close>

theorem packets_delivered_in_order:
  assumes "ready s" "quiet (e_execute env)" "quiet (e_default_execute env)" "\<forall>(m, x, y)\<in>set ms. good_message env m"
    "framed (x_flags s) ms = Some (c_in (x_conn s))"
  shows "parse_loop env s =
     Some (NEED_MORE_BYTES, (deliver_all env (with_rest (x_flags s) ms) s)\<lparr>x_timer := False\<rparr>)"
  using assms
proof (induction ms arbitrary: s)
  case Nil
  then have "parse_step env s = Some (Ret NEED_MORE_BYTES, s\<lparr>x_timer := False\<rparr>)"
    by (auto simp: parse_step_def Let_def ready_def)
  then show ?case by (simp add: parse_loop_Ret)
next
  case (Cons a ms)
  obtain m x y where a: "a = (m, x, y)" by (cases a)
  obtain out rest where w: "write_packet_compact (x_flags s) x y m = Some out" "framed (x_flags s) ms = Some rest"
    "c_in (x_conn s) = out @ rest"
    using Cons.prems(5) by (auto simp: a bind_eq_Some_conv)
  let ?s = "deliver env (le32 m) m (before_packet rest s)"
  have "parse_step env s = Some (Next, ?s)"
    using packet_step_delivers [OF Cons.prems(1) _ w(1,3)] Cons.prems(4) a by simp
  moreover note ready_deliver [OF Cons.prems(1-3), of "le32 m" m rest]
  ultimately show ?case
    using Cons.IH [of ?s] Cons.prems w a by (simp add: parse_loop_Next)
qed

theorem packets_delivered_in_order_witness:
  "parse_loop sample_env (sample_state (([8, 0, 0, 0] @ replicate 8 1) @ [12, 0, 0, 0] @ replicate 12 2)
       \<lparr>x_in_packet_num := 0, x_flags := RPC_F_MEDIUM\<rparr>) =
     Some (NEED_MORE_BYTES, (deliver_all sample_env (with_rest RPC_F_MEDIUM [(replicate 8 1, [], 0), (replicate 12 2, [], 0)])
       (sample_state (([8, 0, 0, 0] @ replicate 8 1) @ [12, 0, 0, 0] @ replicate 12 2)\<lparr>x_in_packet_num := 0, x_flags := RPC_F_MEDIUM\<rparr>))\<lparr>x_timer := False\<rparr>)"
proof -
  let ?ms = "[(replicate 8 1, [], 0), (replicate 12 2, [], 0)]"
  let ?s = "sample_state (([8, 0, 0, 0] @ replicate 8 1) @ [12, 0, 0, 0] @ replicate 12 2)\<lparr>x_in_packet_num := 0, x_flags := RPC_F_MEDIUM\<rparr>"
  have "ready ?s" by (simp add: ready_def sample_state_def has_flag_def rpc_flags)
  moreover have "quiet (e_execute sample_env)" "quiet (e_default_execute sample_env)"
    by (simp_all add: quiet_def sample_env_def)
  moreover have "\<forall>(m, x, y)\<in>set ?ms. good_message sample_env m"
    by (simp add: good_message_def sample_env_def)
  moreover have "framed (x_flags ?s) ?ms = Some (c_in (x_conn ?s))"
    by (simp add: write_packet_compact_def sample_state_def has_flag_def rpc_flags bytes32_def)
  ultimately show ?thesis using packets_delivered_in_order [of ?s sample_env ?ms] by simp
qed

end
