(* ===== verification/LinkRings.thy ===== *)
theory LinkRings
  imports Prelude
begin

text \<open>
  Circular doubly linked lists with a head node, as \<^verbatim>\<open>mtproto/mtproto-proxy.c\<close> keeps them: the
  external connections of an incoming connection, those of an outgoing connection, and the list of
  connections by time of use. A pair of fields \<^verbatim>\<open>x_next\<close>, \<^verbatim>\<open>x_prev\<close> is a pair of partial functions
  on the nodes; \<open>None\<close> is the null pointer.
\<close>

datatype node = Ext nat | Head int | ConnLRU

type_synonym links = "(node \<rightharpoonup> node) \<times> (node \<rightharpoonup> node)"

section \<open>Operations\<close>

text \<open>Unlinking as in \<^verbatim>\<open>get_ext_connection_by_in_conn_id\<close>: nothing happens to a node that is not linked.\<close>

definition unlink_node :: "node \<Rightarrow> links \<Rightarrow> links option" where
  "unlink_node x l = (case l of (nx, pv) \<Rightarrow>
     case nx x of
       None \<Rightarrow> Some (nx, pv)
     | Some n \<Rightarrow> do {
         let pv = pv(n := pv x);
         p \<leftarrow> pv x;
         let nx = nx(p := nx x);
         Some (nx(x := None), pv(x := None)) })"

text \<open>Linking before the head, i.e. at the end of the list.\<close>

definition link_node :: "node \<Rightarrow> node \<Rightarrow> links \<Rightarrow> links option" where
  "link_node x h l = (case l of (nx, pv) \<Rightarrow> do {
     let nx = nx(x \<mapsto> h);
     let pv = pv(x := pv h);
     p \<leftarrow> pv h;
     Some (nx(p \<mapsto> x), pv(h \<mapsto> x)) })"

section \<open>Rings\<close>

fun lseg :: "links \<Rightarrow> node \<Rightarrow> node list \<Rightarrow> node \<Rightarrow> bool" where
  "lseg l a [] b \<longleftrightarrow> fst l a = Some b \<and> snd l b = Some a"
| "lseg l a (x # xs) b \<longleftrightarrow> fst l a = Some x \<and> snd l x = Some a \<and> lseg l x xs b"

definition ring :: "links \<Rightarrow> node \<Rightarrow> node list \<Rightarrow> bool" where
  "ring l h xs \<longleftrightarrow> lseg l h xs h \<and> distinct (h # xs)"

lemma lseg_append: "lseg l a (xs @ y # ys) b \<longleftrightarrow> lseg l a xs y \<and> lseg l y ys b"
  by (induction xs arbitrary: a) auto

lemma lseg_cong:
  assumes "lseg l a xs b" "\<And>p. p \<in> set (a # xs) \<Longrightarrow> fst l' p = fst l p" "\<And>p. p \<in> set (b # xs) \<Longrightarrow> snd l' p = snd l p"
  shows "lseg l' a xs b"
  using assms by (induction xs arbitrary: a) auto

lemma lseg_first: "lseg l a xs b \<Longrightarrow> fst l a = Some (hd (xs @ [b]))"
  by (cases xs) auto

lemma lseg_last: "lseg l a xs b \<Longrightarrow> snd l b = Some (last (a # xs))"
  by (induction xs arbitrary: a) auto

lemma lseg_relink_last:
  assumes "lseg l a xs b" "distinct (a # xs)" "fst l' (last (a # xs)) = Some c" "snd l' c = Some (last (a # xs))"
    "\<And>p. p \<in> set (a # xs) \<Longrightarrow> p \<noteq> last (a # xs) \<Longrightarrow> fst l' p = fst l p" "\<And>p. p \<in> set xs \<Longrightarrow> snd l' p = snd l p"
  shows "lseg l' a xs c"
  using assms
proof (induction xs arbitrary: a)
  case (Cons x xs)
  have "lseg l' x xs c" using Cons.prems by (intro Cons.IH) auto
  moreover have "a \<noteq> last (x # xs)" using Cons.prems(2) last_in_set [of "x # xs"] by auto
  ultimately show ?case using Cons.prems by auto
qed simp

lemma ring_unlink:
  assumes r: "ring l h (as @ x # bs)"
  shows "\<exists>l'. unlink_node x l = Some l' \<and> ring l' h (as @ bs) \<and> fst l' x = None \<and> snd l' x = None \<and>
    (\<forall>p. p \<notin> set (h # as @ x # bs) \<longrightarrow> fst l' p = fst l p \<and> snd l' p = snd l p)"
proof -
  obtain nx pv where l: "l = (nx, pv)" by fastforce
  let ?p = "last (h # as)" and ?n = "hd (bs @ [h])"
  have s: "lseg l h as x" "lseg l x bs h" and d: "distinct (h # as @ x # bs)"
    using r by (auto simp: ring_def lseg_append)
  have n: "nx x = Some ?n" and p: "pv x = Some ?p"
    using lseg_first [OF s(2)] lseg_last [OF s(1)] l by simp_all
  have nm: "?n \<in> set (h # bs)" by (cases bs) auto
  have pm: "?p \<in> set (h # as)" by (metis last_in_set list.distinct(1))
  have ne: "?n \<noteq> x" "?p \<noteq> x" using d nm pm by auto
  define l' where "l' = (nx(?p \<mapsto> ?n, x := None), pv(?n \<mapsto> ?p, x := None))"
  have u: "unlink_node x l = Some l'"
    using n p ne by (simp add: unlink_node_def l l'_def)
  have "lseg l' h (as @ bs) h"
  proof (cases bs)
    case Nil
    have "lseg l' h as h"
    proof (rule lseg_relink_last [OF s(1)])
      show "distinct (h # as)" using d by auto
      show "fst l' (last (h # as)) = Some h" "snd l' h = Some (last (h # as))"
        using Nil ne d by (auto simp: l'_def)
      fix q
      show "q \<in> set (h # as) \<Longrightarrow> q \<noteq> last (h # as) \<Longrightarrow> fst l' q = fst l q"
        using d l unfolding l'_def by auto
      show "q \<in> set as \<Longrightarrow> snd l' q = snd l q" using d Nil l by (auto simp: l'_def)
    qed
    then show ?thesis using Nil by simp
  next
    case (Cons n bs')
    have "lseg l' h as n"
    proof (rule lseg_relink_last [OF s(1)])
      show "distinct (h # as)" using d by auto
      show "fst l' (last (h # as)) = Some n" "snd l' n = Some (last (h # as))"
        using Cons ne d by (auto simp: l'_def)
      fix q
      show "q \<in> set (h # as) \<Longrightarrow> q \<noteq> last (h # as) \<Longrightarrow> fst l' q = fst l q"
        using d l unfolding l'_def by auto
      show "q \<in> set as \<Longrightarrow> snd l' q = snd l q" using d Cons l by (auto simp: l'_def)
    qed
    moreover have "lseg l' n bs' h"
    proof (rule lseg_cong [of l])
      show "lseg l n bs' h" using s(2) Cons by simp
      show "fst l' q = fst l q" if "q \<in> set (n # bs')" for q
      proof -
        have "q \<noteq> last (h # as)" "q \<noteq> x" using that pm Cons d by auto
        then show ?thesis by (simp add: l'_def l)
      qed
      show "snd l' q = snd l q" if "q \<in> set (h # bs')" for q
      proof -
        have "q \<noteq> n" "q \<noteq> x" using that Cons d by auto
        then show ?thesis using Cons by (simp add: l'_def l)
      qed
    qed
    ultimately show ?thesis using Cons by (simp add: lseg_append)
  qed
  moreover have "\<forall>p. p \<notin> set (h # as @ x # bs) \<longrightarrow> fst l' p = fst l p \<and> snd l' p = snd l p"
    using nm pm l by (auto simp: l'_def)
  ultimately show ?thesis using u d by (auto simp: ring_def l'_def)
qed

lemma ring_link:
  assumes r: "ring l h xs" and x: "x \<notin> set (h # xs)"
  shows "\<exists>l'. link_node x h l = Some l' \<and> ring l' h (xs @ [x]) \<and>
    (\<forall>p. p \<notin> set (h # xs) \<and> p \<noteq> x \<longrightarrow> fst l' p = fst l p \<and> snd l' p = snd l p)"
proof -
  obtain nx pv where l: "l = (nx, pv)" by fastforce
  let ?p = "last (h # xs)"
  have s: "lseg l h xs h" and d: "distinct (h # xs)" using r by (auto simp: ring_def)
  have p: "pv h = Some ?p" using lseg_last [OF s] l by simp
  have pm: "?p \<in> set (h # xs)" by (metis last_in_set list.distinct(1))
  define l' where "l' = (nx(x \<mapsto> h, ?p \<mapsto> x), pv(x \<mapsto> ?p, h \<mapsto> x))"
  have "link_node x h l = Some l'"
    using p x by (simp add: link_node_def l l'_def)
  moreover have "lseg l' h xs x"
  proof (rule lseg_relink_last [OF s d])
    show "fst l' ?p = Some x" "snd l' x = Some ?p" using x by (auto simp: l'_def)
    fix q
    show "q \<in> set (h # xs) \<Longrightarrow> q \<noteq> last (h # xs) \<Longrightarrow> fst l' q = fst l q"
      using x l unfolding l'_def by auto
    show "q \<in> set xs \<Longrightarrow> snd l' q = snd l q" using d x l by (auto simp: l'_def)
  qed
  then have "lseg l' h (xs @ [x]) h"
    using pm x by (auto simp: lseg_append l'_def)
  moreover have "\<forall>p. p \<notin> set (h # xs) \<and> p \<noteq> x \<longrightarrow> fst l' p = fst l p \<and> snd l' p = snd l p"
    using pm l by (auto simp: l'_def)
  ultimately show ?thesis using d x by (auto simp: ring_def)
qed

lemma ring_cong:
  assumes "ring l h xs" "\<And>p. p \<in> set (h # xs) \<Longrightarrow> fst l' p = fst l p \<and> snd l' p = snd l p"
  shows "ring l' h xs"
  using assms lseg_cong [of l h xs h l'] by (auto simp: ring_def)

section \<open>A family of rings, one per connection\<close>

text \<open>
  \<open>own e\<close> is the connection whose list holds node \<open>e\<close>. The head of a connection that is not in use
  may be unlinked.
\<close>

definition family :: "links \<Rightarrow> (nat \<rightharpoonup> int) \<Rightarrow> int \<Rightarrow> bool" where
  "family l own fd \<longleftrightarrow>
     (if fst l (Head fd) = None then snd l (Head fd) = None \<and> (\<forall>e. own e \<noteq> Some fd)
      else \<exists>xs. ring l (Head fd) xs \<and> set xs = Ext ` {e. own e = Some fd})"

definition rings :: "links \<Rightarrow> (nat \<rightharpoonup> int) \<Rightarrow> bool" where
  "rings l own \<longleftrightarrow> (\<forall>fd. family l own fd) \<and> (\<forall>e. own e = None \<longrightarrow> fst l (Ext e) = None \<and> snd l (Ext e) = None)"

lemma ring_head: "ring l h xs \<Longrightarrow> fst l h = Some (hd (xs @ [h])) \<and> snd l h = Some (last (h # xs))"
  using lseg_first lseg_last by (auto simp: ring_def)

lemma familyI:
  assumes "ring l (Head fd) xs" "set xs = Ext ` {e. own e = Some fd}"
  shows "family l own fd"
  using assms ring_head [OF assms(1)] unfolding family_def by auto

lemma rings_in:
  assumes "rings l own" "own e = Some fd"
  obtains xs where "ring l (Head fd) xs" "set xs = Ext ` {e. own e = Some fd}"
  using assms unfolding rings_def family_def by (metis (mono_tags))

lemma ring_next_Some: "ring l h xs \<Longrightarrow> x \<in> set xs \<Longrightarrow> fst l x \<noteq> None"
  by (metis append_is_Nil_conv lseg_append lseg_first option.distinct(1) ring_def split_list)

lemma rings_linked:
  assumes R: "rings l own"
  shows "fst l (Ext e) \<noteq> None \<longleftrightarrow> own e \<noteq> None"
proof (cases "own e")
  case None
  then show ?thesis using R by (simp add: rings_def)
next
  case (Some fd)
  obtain xs where xs: "ring l (Head fd) xs" "set xs = Ext ` {e. own e = Some fd}"
    using rings_in [OF R Some] .
  have "Ext e \<in> set xs" using xs(2) Some by simp
  then show ?thesis using ring_next_Some [OF xs(1)] Some by simp
qed

lemma family_cong:
  assumes f: "family l own fd" and o: "{e. own' e = Some fd} = {e. own e = Some fd}"
    and h: "fst l' (Head fd) = fst l (Head fd)" "snd l' (Head fd) = snd l (Head fd)"
    and x: "\<And>e. own e = Some fd \<Longrightarrow> fst l' (Ext e) = fst l (Ext e) \<and> snd l' (Ext e) = snd l (Ext e)"
  shows "family l' own' fd"
proof (cases "fst l (Head fd)")
  case None
  then show ?thesis using f o h by (auto simp: family_def)
next
  case (Some n)
  then obtain xs where xs: "ring l (Head fd) xs" "set xs = Ext ` {e. own e = Some fd}"
    using f by (auto simp: family_def)
  have "ring l' (Head fd) xs"
  proof (rule ring_cong [OF xs(1)])
    fix p assume "p \<in> set (Head fd # xs)"
    then consider "p = Head fd" | e where "p = Ext e" "own e = Some fd" using xs(2) by auto
    then show "fst l' p = fst l p \<and> snd l' p = snd l p" using h x by cases simp_all
  qed
  then show ?thesis using xs(2) o by (intro familyI) simp_all
qed

lemma rings_unlink:
  assumes R: "rings l own" and e: "own e = Some fd"
  shows "\<exists>l'. unlink_node (Ext e) l = Some l' \<and> rings l' (own(e := None)) \<and>
    (\<forall>g. fst l' (Head g) = None \<longleftrightarrow> fst l (Head g) = None)"
proof -
  obtain xs where xs: "ring l (Head fd) xs" "set xs = Ext ` {e. own e = Some fd}"
    using rings_in [OF R e] .
  obtain as bs where s: "xs = as @ Ext e # bs"
    using xs(2) e split_list [of "Ext e" xs] by auto
  obtain l' where l': "unlink_node (Ext e) l = Some l'" "ring l' (Head fd) (as @ bs)" "fst l' (Ext e) = None" "snd l' (Ext e) = None"
    "\<And>p. p \<notin> set (Head fd # as @ Ext e # bs) \<Longrightarrow> fst l' p = fst l p \<and> snd l' p = snd l p"
    using ring_unlink xs(1) unfolding s by blast
  have sub: "set (as @ bs) = Ext ` {e'. (own(e := None)) e' = Some fd}"
  proof -
    have "distinct xs" using xs(1) by (simp add: ring_def)
    then have "set (as @ bs) = set xs - {Ext e}" using s by auto
    also have "\<dots> = Ext ` {e'. (own(e := None)) e' = Some fd}" using xs(2) by auto
    finally show ?thesis .
  qed
  have out: "fst l' p = fst l p \<and> snd l' p = snd l p" if "p \<noteq> Head fd" "\<And>e. p = Ext e \<Longrightarrow> own e \<noteq> Some fd" for p
    using that xs(2) by (intro l'(5)) (auto simp: s)
  have hd: "fst l' (Head g) = None \<longleftrightarrow> fst l (Head g) = None" for g
    using out [of "Head g"] ring_head [OF l'(2)] ring_head [OF xs(1)] by (cases "g = fd") auto
  have "family l' (own(e := None)) g" for g
  proof (cases "g = fd")
    case True
    then show ?thesis using familyI [OF l'(2) sub] by (simp only: True)
  next
    case False
    show ?thesis
    proof (rule family_cong [of l own])
      show "family l own g" using R by (simp add: rings_def)
    qed (use False e out in \<open>force+\<close>)
  qed
  moreover have "fst l' (Ext x) = None \<and> snd l' (Ext x) = None" if "(own(e := None)) x = None" for x
    using that R l'(3,4) out [of "Ext x"] by (cases "x = e") (auto simp: rings_def)
  ultimately show ?thesis using l'(1) hd by (auto simp: rings_def)
qed

lemma rings_unlink_none:
  assumes R: "rings l own" and e: "own e = None"
  shows "unlink_node (Ext e) l = Some l"
  using assms by (cases l) (auto simp: rings_def unlink_node_def)

lemma rings_link:
  assumes R: "rings l own" and e: "own e = None" and h: "fst l (Head fd) \<noteq> None"
  shows "\<exists>l'. link_node (Ext e) (Head fd) l = Some l' \<and> rings l' (own(e \<mapsto> fd)) \<and>
    (\<forall>g. fst l' (Head g) = None \<longleftrightarrow> fst l (Head g) = None)"
proof -
  obtain xs where xs: "ring l (Head fd) xs" "set xs = Ext ` {e. own e = Some fd}"
    using R h unfolding rings_def family_def by meson
  have x: "Ext e \<notin> set (Head fd # xs)" using xs(2) e by auto
  obtain l' where l': "link_node (Ext e) (Head fd) l = Some l'" "ring l' (Head fd) (xs @ [Ext e])"
    "\<And>p. p \<notin> set (Head fd # xs) \<and> p \<noteq> Ext e \<Longrightarrow> fst l' p = fst l p \<and> snd l' p = snd l p"
    using ring_link [OF xs(1) x] by blast
  have out: "fst l' p = fst l p \<and> snd l' p = snd l p" if "p \<noteq> Head fd" "p \<noteq> Ext e" "\<And>e. p = Ext e \<Longrightarrow> own e \<noteq> Some fd" for p
    using that xs(2) by (intro l'(3)) auto
  have hd: "fst l' (Head g) = None \<longleftrightarrow> fst l (Head g) = None" for g
    using out [of "Head g"] ring_head [OF l'(2)] h by (cases "g = fd") auto
  have "family l' (own(e \<mapsto> fd)) g" for g
  proof (cases "g = fd")
    case True
    have "set (xs @ [Ext e]) = Ext ` {x. (own(e \<mapsto> fd)) x = Some fd}" using xs(2) by auto
    then show ?thesis using familyI [OF l'(2)] True by (simp only: True)
  next
    case False
    show ?thesis
    proof (rule family_cong [of l own])
      show "family l own g" using R by (simp add: rings_def)
    qed (use False e out in \<open>force+\<close>)
  qed
  moreover have "fst l' (Ext x) = None \<and> snd l' (Ext x) = None" if "(own(e \<mapsto> fd)) x = None" for x
    using that R out [of "Ext x"] by (auto simp: rings_def split: if_splits)
  ultimately show ?thesis using l'(1) hd by (auto simp: rings_def)
qed

text \<open>Opening and closing an empty list.\<close>

lemma rings_open:
  assumes R: "rings (nx, pv) own" and h: "nx (Head fd) = None"
  shows "rings (nx(Head fd \<mapsto> Head fd), pv(Head fd \<mapsto> Head fd)) own"
proof -
  let ?l = "(nx(Head fd \<mapsto> Head fd), pv(Head fd \<mapsto> Head fd))"
  have none: "\<And>e. own e \<noteq> Some fd" using R h by (simp add: rings_def family_def split: if_splits)
  have "family ?l own g" for g
  proof (cases "g = fd")
    case True
    have "ring ?l (Head fd) []" by (simp add: ring_def)
    then show ?thesis using none True by (auto intro: familyI)
  next
    case False
    have "family (nx, pv) own g" using R by (simp add: rings_def)
    then show ?thesis by (rule family_cong) (use False in simp_all)
  qed
  then show ?thesis using R by (simp add: rings_def)
qed

lemma rings_close:
  assumes R: "rings (nx, pv) own" and none: "\<And>e. own e \<noteq> Some fd"
  shows "rings (nx(Head fd := None), pv(Head fd := None)) own"
proof -
  have "family (nx(Head fd := None), pv(Head fd := None)) own g" for g
  proof (cases "g = fd")
    case False
    have "family (nx, pv) own g" using R by (simp add: rings_def)
    then show ?thesis by (rule family_cong) (use False in simp_all)
  qed (simp add: family_def none)
  then show ?thesis using R by (simp add: rings_def)
qed

lemma rings_empty_head:
  assumes "rings l own" "\<And>e. own e \<noteq> Some fd" "fst l (Head fd) \<noteq> None"
  shows "fst l (Head fd) = Some (Head fd)" "snd l (Head fd) = Some (Head fd)"
proof -
  obtain xs where "ring l (Head fd) xs" "set xs = Ext ` {e. own e = Some fd}"
    using assms unfolding rings_def family_def by meson
  then have "ring l (Head fd) []" using assms(2) by simp
  then show "fst l (Head fd) = Some (Head fd)" "snd l (Head fd) = Some (Head fd)" by (simp_all add: ring_def)
qed

text \<open>A list of one node.\<close>

lemma rings_single:
  assumes "rings l own" "own e = Some fd" "\<forall>e'. own e' = Some fd \<longrightarrow> e' = e"
  shows "fst l (Head fd) = Some (Ext e)" "snd l (Head fd) = Some (Ext e)"
proof -
  obtain xs where xs: "ring l (Head fd) xs" "set xs = Ext ` {e. own e = Some fd}"
    using rings_in [OF assms(1,2)] .
  have "{e'. own e' = Some fd} = {e}" using assms(2,3) by blast
  then have "set xs = {Ext e}" using xs(2) by simp
  moreover have "distinct xs" using xs(1) by (simp add: ring_def)
  ultimately have "length xs = 1" using distinct_card [of xs] by simp
  then have "xs = [Ext e]" using \<open>set xs = {Ext e}\<close> by (cases xs) auto
  then show "fst l (Head fd) = Some (Ext e)" "snd l (Head fd) = Some (Ext e)" using xs(1) by (simp_all add: ring_def)
qed

end
