(* ===== verification/SecretTrack.thy ===== *)
theory SecretTrack
  imports Prelude
begin

text \<open>
  Per-secret statistics of \<^verbatim>\<open>mtproto/mtproto-proxy.c\<close>: for every secret the number of different
  authorisation keys and of different client addresses in use. Two hash tables count, for each
  (secret, key) and (secret, address), the external connections that use it; each connection
  remembers what it is counted under.

  The tables' nodes are reachable only through their chains, so a chain is the list of its nodes, in
  order. A connection count is a natural number, the per-secret counters are integers.
\<close>

section \<open>Reference tables\<close>

type_synonym 'k ref_table = "nat \<Rightarrow> ('k \<times> nat) list"

text \<open>Find or append the node of a key and count one more; the flag tells a new node.\<close>

fun incr_ref :: "'k \<Rightarrow> ('k \<times> nat) list \<Rightarrow> ('k \<times> nat) list \<times> bool" where
  "incr_ref k [] = ([(k, 1)], True)"
| "incr_ref k ((k', n) # refs) =
     (if k' = k then ((k', n + 1) # refs, False)
      else let (refs, new) = incr_ref k refs in ((k', n) # refs, new))"

text \<open>
  Count one less and unlink the node at zero; the flag tells that it was unlinked. \<open>Some None\<close>:
  no such node; \<open>None\<close>: the assertion that the count is positive failed.
\<close>

fun decr_ref :: "'k \<Rightarrow> ('k \<times> nat) list \<Rightarrow> (('k \<times> nat) list \<times> bool) option option" where
  "decr_ref k [] = Some None"
| "decr_ref k ((k', n) # refs) =
     (if k' = k then do {
        cassert (n > 0);
        Some (Some (if n - 1 = 0 then (refs, True) else ((k', n - 1) # refs, False))) }
      else do {
        r \<leftarrow> decr_ref k refs;
        Some (map_option (\<lambda>(refs, gone). ((k', n) # refs, gone)) r) })"

definition tab_incr :: "('k \<Rightarrow> nat) \<Rightarrow> 'k \<Rightarrow> 'k ref_table \<Rightarrow> 'k ref_table \<times> bool" where
  "tab_incr hash k t = (let (refs, new) = incr_ref k (t (hash k)) in (t(hash k := refs), new))"

definition tab_decr :: "('k \<Rightarrow> nat) \<Rightarrow> 'k \<Rightarrow> 'k ref_table \<Rightarrow> ('k ref_table \<times> bool) option option" where
  "tab_decr hash k t = do {
     r \<leftarrow> decr_ref k (t (hash k));
     Some (map_option (\<lambda>(refs, gone). (t(hash k := refs), gone)) r) }"

section \<open>The statistics\<close>

definition SECRET_DEVICE_HASH_SIZE :: nat where
  "SECRET_DEVICE_HASH_SIZE = 2 ^ 14"

definition secret_auth_key_hash :: "int \<times> u64 \<Rightarrow> nat" where
  "secret_auth_key_hash k = (case k of (secret_id, auth_key_id) \<Rightarrow>
     unat ((word_of_int secret_id * 11400714819323198485 + auth_key_id * 13043817825332782213 :: u64)
       AND word_of_nat (SECRET_DEVICE_HASH_SIZE - 1)))"

definition secret_client_hash :: "int \<times> bytes \<Rightarrow> nat" where
  "secret_client_hash k = (case k of (secret_id, client_ipv6) \<Rightarrow>
     unat (foldl (\<lambda>h b. (h XOR ucast b) * 1099511628211) (word_of_int secret_id * 1469598103934665603 :: u64) client_ipv6
       AND word_of_nat (SECRET_DEVICE_HASH_SIZE - 1)))"

record track_state =
  SecretDeviceHash :: "(int \<times> u64) ref_table"
  SecretClientHash :: "(int \<times> bytes) ref_table"
  active_connections_per_secret :: "int \<Rightarrow> int"
  active_auth_keys_per_secret :: "int \<Rightarrow> int"

text \<open>The fields of \<^verbatim>\<open>struct ext_connection\<close> that say what a connection is counted under.\<close>

record ext_track =
  tracked_auth_key_id :: u64
  tracked_auth_secret_id :: int
  tracked_client_secret_id :: int
  tracked_client_valid :: bool
  tracked_client_ipv6 :: bytes

definition track_empty :: track_state where
  "track_empty = \<lparr>SecretDeviceHash = (\<lambda>_. []), SecretClientHash = (\<lambda>_. []),
     active_connections_per_secret = (\<lambda>_. 0), active_auth_keys_per_secret = (\<lambda>_. 0)\<rparr>"

definition no_track :: ext_track where
  "no_track = \<lparr>tracked_auth_key_id = 0, tracked_auth_secret_id = 0, tracked_client_secret_id = 0,
     tracked_client_valid = False, tracked_client_ipv6 = replicate 16 0\<rparr>"

definition valid_secret :: "int \<Rightarrow> bool" where
  "valid_secret secret_id \<longleftrightarrow> 0 \<le> secret_id \<and> secret_id < int MAX_MTFRONT_SECRETS"

definition mtfront_untrack_secret_auth_key :: "track_state \<times> ext_track \<Rightarrow> (track_state \<times> ext_track) option" where
  "mtfront_untrack_secret_auth_key st = (case st of (s, ex) \<Rightarrow>
     if tracked_auth_key_id ex = 0 then Some (s, ex)
     else
       let secret_id = tracked_auth_secret_id ex; auth_key_id = tracked_auth_key_id ex;
           ex = ex\<lparr>tracked_auth_secret_id := 0, tracked_auth_key_id := 0\<rparr>
       in if \<not> valid_secret secret_id then Some (s, ex)
          else do {
            r \<leftarrow> tab_decr secret_auth_key_hash (secret_id, auth_key_id) (SecretDeviceHash s);
            case r of
              None \<Rightarrow> Some (s, ex)
            | Some (t, gone) \<Rightarrow> do {
                let s = s\<lparr>SecretDeviceHash := t\<rparr>;
                if gone then do {
                  cassert (active_auth_keys_per_secret s secret_id > 0);
                  Some (s\<lparr>active_auth_keys_per_secret := (active_auth_keys_per_secret s)
                    (secret_id := active_auth_keys_per_secret s secret_id - 1)\<rparr>, ex) }
                else Some (s, ex) } })"

definition mtfront_track_secret_auth_key ::
  "int \<Rightarrow> u64 \<Rightarrow> track_state \<times> ext_track \<Rightarrow> (track_state \<times> ext_track) option" where
  "mtfront_track_secret_auth_key secret_id auth_key_id st =
     (if tracked_auth_key_id (snd st) = auth_key_id \<and> tracked_auth_secret_id (snd st) = secret_id then Some st
      else do {
        (s, ex) \<leftarrow> mtfront_untrack_secret_auth_key st;
        if \<not> valid_secret secret_id \<or> auth_key_id = 0 then Some (s, ex)
        else
          let (t, new) = tab_incr secret_auth_key_hash (secret_id, auth_key_id) (SecretDeviceHash s);
              s = s\<lparr>SecretDeviceHash := t\<rparr>;
              s = (if new then s\<lparr>active_auth_keys_per_secret := (active_auth_keys_per_secret s)
                     (secret_id := active_auth_keys_per_secret s secret_id + 1)\<rparr> else s)
          in Some (s, ex\<lparr>tracked_auth_secret_id := secret_id, tracked_auth_key_id := auth_key_id\<rparr>) })"

definition mtfront_untrack_secret_client :: "track_state \<times> ext_track \<Rightarrow> (track_state \<times> ext_track) option" where
  "mtfront_untrack_secret_client st = (case st of (s, ex) \<Rightarrow>
     if \<not> tracked_client_valid ex then Some (s, ex)
     else
       let secret_id = tracked_client_secret_id ex; client_ipv6 = tracked_client_ipv6 ex;
           ex = ex\<lparr>tracked_client_secret_id := 0, tracked_client_valid := False,
                   tracked_client_ipv6 := replicate 16 0\<rparr>
       in if \<not> valid_secret secret_id then Some (s, ex)
          else do {
            r \<leftarrow> tab_decr secret_client_hash (secret_id, client_ipv6) (SecretClientHash s);
            case r of
              None \<Rightarrow> Some (s, ex)
            | Some (t, gone) \<Rightarrow> do {
                let s = s\<lparr>SecretClientHash := t\<rparr>;
                if gone then do {
                  cassert (active_connections_per_secret s secret_id > 0);
                  Some (s\<lparr>active_connections_per_secret := (active_connections_per_secret s)
                    (secret_id := active_connections_per_secret s secret_id - 1)\<rparr>, ex) }
                else Some (s, ex) } })"

text \<open>\<open>client_ipv6\<close> is what \<open>mtfront_extract_client_ipv6\<close> finds for the connection.\<close>

definition mtfront_track_secret_client ::
  "bytes \<Rightarrow> int \<Rightarrow> track_state \<times> ext_track \<Rightarrow> (track_state \<times> ext_track) option" where
  "mtfront_track_secret_client client_ipv6 secret_id st =
     (if \<not> valid_secret secret_id then mtfront_untrack_secret_client st
      else if tracked_client_valid (snd st) \<and> tracked_client_secret_id (snd st) = secret_id \<and>
              tracked_client_ipv6 (snd st) = client_ipv6 then Some st
      else do {
        (s, ex) \<leftarrow> mtfront_untrack_secret_client st;
        let (t, new) = tab_incr secret_client_hash (secret_id, client_ipv6) (SecretClientHash s);
        let s = s\<lparr>SecretClientHash := t\<rparr>;
        let s = (if new then s\<lparr>active_connections_per_secret := (active_connections_per_secret s)
                   (secret_id := active_connections_per_secret s secret_id + 1)\<rparr> else s);
        Some (s, ex\<lparr>tracked_client_secret_id := secret_id, tracked_client_valid := True,
                    tracked_client_ipv6 := client_ipv6\<rparr>) })"

text \<open>
  \<open>mtfront_extract_client_ipv6\<close>: the IPv4 address \<open>remote_ip\<close> (host order) as a 4-in-6 address, or the
  IPv6 address.
\<close>

definition mtfront_extract_client_ipv6 :: "u32 \<Rightarrow> bytes \<Rightarrow> bytes" where
  "mtfront_extract_client_ipv6 remote_ip remote_ipv6 =
     (if remote_ip \<noteq> 0 then
        replicate 10 0 @ [0xff, 0xff] @
        [ucast (drop_bit 24 remote_ip), ucast (drop_bit 16 remote_ip), ucast (drop_bit 8 remote_ip), ucast remote_ip]
      else take 16 remote_ipv6)"

section \<open>Counting with references\<close>

lemma finite_dom_upd: "finite (dom H) \<Longrightarrow> finite (dom (H(e := v)))"
  by simp

lemma if_fun_upd: "(if b then f(x := y) else f) z = (if b \<and> x = z then y else f z)"
  by simp

text \<open>
  The contract of a reference table: \<open>cnt\<close> is the number of references to a key; the flags of the two
  operations tell the first and the last reference.
\<close>

locale ref_counting =
  fixes ok :: "'t \<Rightarrow> bool"
    and cnt :: "'t \<Rightarrow> 'k \<Rightarrow> nat"
    and incr :: "'k \<Rightarrow> 't \<Rightarrow> 't \<times> bool"
    and decr :: "'k \<Rightarrow> 't \<Rightarrow> ('t \<times> bool) option option"
  assumes incr_law: "ok t \<Longrightarrow> incr k t = (t', new) \<Longrightarrow>
      ok t' \<and> cnt t' = (cnt t)(k := cnt t k + 1) \<and> new = (cnt t k = 0)"
    and decr_law: "ok t \<Longrightarrow> cnt t k > 0 \<Longrightarrow>
      \<exists>t'. decr k t = Some (Some (t', cnt t k = 1)) \<and> ok t' \<and> cnt t' = (cnt t)(k := cnt t k - 1)"
begin

text \<open>
  Balanced: every key is counted as often as there are holders of it, and the counter of every group
  is the number of different keys held in it.
\<close>

definition balanced :: "('k \<Rightarrow> 'g) \<Rightarrow> 't \<Rightarrow> ('g \<Rightarrow> int) \<Rightarrow> ('e \<rightharpoonup> 'k) \<Rightarrow> bool" where
  "balanced grp t act H \<longleftrightarrow> ok t \<and> finite (dom H) \<and> (\<forall>k. cnt t k = card {e. H e = Some k}) \<and>
     (\<forall>g. act g = int (card {k \<in> ran H. grp k = g}))"

lemma cnt_pos_iff: "balanced grp t act H \<Longrightarrow> cnt t k > 0 \<longleftrightarrow> k \<in> ran H"
proof -
  assume b: "balanced grp t act H"
  then have "finite {e. H e = Some k}"
    unfolding balanced_def by (auto intro: finite_subset [of _ "dom H"])
  then show ?thesis
    using b by (auto simp: balanced_def card_gt_0_iff ran_def)
qed

lemma hold:
  assumes b: "balanced grp t act H" and e: "H e = None" and i: "incr k t = (t', new)"
  shows "balanced grp t' (if new then act(grp k := act (grp k) + 1) else act) (H(e \<mapsto> k))"
proof -
  have law: "ok t'" "cnt t' = (cnt t)(k := cnt t k + 1)" "new = (cnt t k = 0)"
    using incr_law [OF _ i] b by (auto simp: balanced_def)
  have fin: "finite (dom H)" using b by (simp add: balanced_def)
  have "card {x. (H(e \<mapsto> k)) x = Some k'} = card {x. H x = Some k'} + (if k' = k then 1 else 0)" for k'
  proof -
    have "{x. (H(e \<mapsto> k)) x = Some k'} = (if k' = k then insert e {x. H x = Some k'} else {x. H x = Some k'})"
      using e by auto
    moreover have "finite {x. H x = Some k'}" using fin by (auto intro: finite_subset [of _ "dom H"])
    ultimately show ?thesis using e by (cases "k' = k") (simp_all add: card_insert_if)
  qed
  then have "\<forall>k'. cnt t' k' = card {x. (H(e \<mapsto> k)) x = Some k'}"
    using b law(2) by (simp add: balanced_def)
  moreover have r: "ran (H(e \<mapsto> k)) = insert k (ran H)" using e by simp
  have fr: "finite (ran H)" using fin by (simp add: finite_ran)
  have "int (card {x \<in> insert k (ran H). grp x = g}) = act g + (if new \<and> grp k = g then 1 else 0)" for g
  proof (cases "grp k = g")
    case True
    then have "{x \<in> insert k (ran H). grp x = g} = insert k {x \<in> ran H. grp x = g}" by auto
    then show ?thesis
      using True b law(3) fr cnt_pos_iff [OF b, of k] by (auto simp: balanced_def card_insert_if)
  next
    case False
    then have "{x \<in> insert k (ran H). grp x = g} = {x \<in> ran H. grp x = g}" by auto
    then show ?thesis using False b by (simp add: balanced_def)
  qed
  ultimately show ?thesis
    using law(1) fin unfolding balanced_def r by (simp del: dom_fun_upd add: finite_dom_upd)
qed

lemma release:
  assumes b: "balanced grp t act H" and e: "H e = Some k"
  shows "\<exists>t' gone. decr k t = Some (Some (t', gone)) \<and> (gone \<longrightarrow> act (grp k) > 0) \<and>
     balanced grp t' (if gone then act(grp k := act (grp k) - 1) else act) (H(e := None))"
proof -
  have fin: "finite (dom H)" using b by (simp add: balanced_def)
  then have fr: "finite (ran H)" by (simp add: finite_ran)
  have k: "k \<in> ran H" using e by (auto simp: ran_def)
  then have pos: "cnt t k > 0" using cnt_pos_iff [OF b] by simp
  obtain t' where t': "decr k t = Some (Some (t', cnt t k = 1))" "ok t'" "cnt t' = (cnt t)(k := cnt t k - 1)"
    using decr_law [OF _ pos] b by (auto simp: balanced_def)
  have cd: "card {x. (H(e := None)) x = Some k'} = card {x. H x = Some k'} - (if k' = k then 1 else 0)" for k'
  proof -
    have "{x. (H(e := None)) x = Some k'} = {x. H x = Some k'} - {e}" by auto
    then show ?thesis using e by auto
  qed
  then have c: "\<forall>k'. cnt t' k' = card {x. (H(e := None)) x = Some k'}"
    using b t'(3) by (simp add: balanced_def)
  have finS: "finite {x. (H(e := None)) x = Some k}" using fin by (auto intro: finite_subset [of _ "dom H"])
  have gone: "cnt t k = 1 \<longleftrightarrow> k \<notin> ran (H(e := None))"
  proof -
    have "card {x. (H(e := None)) x = Some k} = cnt t k - 1"
      unfolding cd using b by (simp add: balanced_def)
    then have "cnt t k = 1 \<longleftrightarrow> {x. (H(e := None)) x = Some k} = {}"
      using pos card_0_eq [OF finS] by linarith
    then show ?thesis by (auto simp: ran_def)
  qed
  have "ran (H(e := None)) \<subseteq> ran H" by (auto simp: ran_def)
  moreover have "ran H \<subseteq> insert k (ran (H(e := None)))"
  proof
    fix x assume "x \<in> ran H"
    then obtain y where "H y = Some x" by (auto simp: ran_def)
    then show "x \<in> insert k (ran (H(e := None)))" using e by (cases "y = e") (auto simp: ran_def)
  qed
  ultimately have r: "ran (H(e := None)) = (if cnt t k = 1 then ran H - {k} else ran H)"
    using gone k by (cases "cnt t k = 1") auto
  have act: "int (card {x \<in> ran (H(e := None)). grp x = g}) = act g - (if cnt t k = 1 \<and> grp k = g then 1 else 0)" for g
  proof (cases "cnt t k = 1 \<and> grp k = g")
    case True
    then have "{x \<in> ran (H(e := None)). grp x = g} = {x \<in> ran H. grp x = g} - {k}" using r by auto
    moreover have "k \<in> {x \<in> ran H. grp x = g}" using k True by simp
    moreover have "0 < card {x \<in> ran H. grp x = g}" using k True fr by (auto simp: card_gt_0_iff)
    ultimately show ?thesis using True b fr by (simp add: balanced_def of_nat_diff)
  next
    case False
    then have "{x \<in> ran (H(e := None)). grp x = g} = {x \<in> ran H. grp x = g}" using r by auto
    then show ?thesis using False b by (simp add: balanced_def)
  qed
  have "act (grp k) > 0" using b k fr by (auto simp: balanced_def card_gt_0_iff)
  moreover have "balanced grp t' (if cnt t k = 1 then act(grp k := act (grp k) - 1) else act) (H(e := None))"
    using t'(2) c act fin unfolding balanced_def by (simp del: dom_fun_upd fun_upd_apply add: finite_dom_upd if_fun_upd)
  ultimately show ?thesis using t'(1) by blast
qed

end

section \<open>The chained tables keep the contract\<close>

definition ref_cnt :: "('k \<Rightarrow> nat) \<Rightarrow> 'k ref_table \<Rightarrow> 'k \<Rightarrow> nat" where
  "ref_cnt hash t k = (case map_of (t (hash k)) k of None \<Rightarrow> 0 | Some n \<Rightarrow> n)"

definition ref_ok :: "('k \<Rightarrow> nat) \<Rightarrow> 'k ref_table \<Rightarrow> bool" where
  "ref_ok hash t \<longleftrightarrow> (\<forall>h. distinct (map fst (t h)) \<and> (\<forall>(k, n)\<in>set (t h). hash k = h \<and> 0 < n))"

lemma incr_ref_keys: "set (map fst (fst (incr_ref k xs))) = insert k (set (map fst xs))"
proof (induction k xs rule: incr_ref.induct)
  case (2 k k' n refs)
  obtain ys new where "incr_ref k refs = (ys, new)" by fastforce
  with 2 show ?case by (cases "k' = k") (simp_all add: insert_commute del: set_map)
qed simp

lemma incr_ref_ok:
  assumes "distinct (map fst xs)" "\<forall>(k, n)\<in>set xs. P k \<and> 0 < n" "P k" "incr_ref k xs = (ys, new)"
  shows "distinct (map fst ys) \<and> (\<forall>(k, n)\<in>set ys. P k \<and> 0 < n) \<and> new = (map_of xs k = None) \<and>
     map_of ys = (map_of xs)(k \<mapsto> (case map_of xs k of None \<Rightarrow> 1 | Some n \<Rightarrow> n + 1))"
  using assms
proof (induction k xs arbitrary: ys new rule: incr_ref.induct)
  case (2 k k' n refs)
  show ?case
  proof (cases "k' = k")
    case True with 2 show ?thesis by (auto simp: map_of_eq_None_iff)
  next
    case False
    obtain ys' new' where r: "incr_ref k refs = (ys', new')" by fastforce
    have "k' \<notin> set (map fst ys')" using incr_ref_keys [of k refs] r 2(2) False by (simp del: set_map)
    with 2 r False show ?thesis by (auto simp: fun_upd_twist)
  qed
qed auto

lemma decr_ref_ok:
  assumes "distinct (map fst xs)" "\<forall>(k, n)\<in>set xs. P k \<and> 0 < n" "map_of xs k = Some n"
  shows "\<exists>ys. decr_ref k xs = Some (Some (ys, n = 1)) \<and> distinct (map fst ys) \<and> (\<forall>(k, n)\<in>set ys. P k \<and> 0 < n) \<and>
     fst ` set ys \<subseteq> fst ` set xs \<and> map_of ys = (if n = 1 then (map_of xs)(k := None) else (map_of xs)(k \<mapsto> n - 1))"
  using assms
proof (induction k xs rule: decr_ref.induct)
  case (2 k k' m refs)
  show ?case
  proof (cases "k' = k")
    case True
    with 2(2-4) show ?thesis by (auto simp: map_of_eq_None_iff fun_upd_idem)
  next
    case False
    then obtain ys where ys: "decr_ref k refs = Some (Some (ys, n = 1))" "distinct (map fst ys)"
      "\<forall>(k, n)\<in>set ys. P k \<and> 0 < n" "fst ` set ys \<subseteq> fst ` set refs"
      "map_of ys = (if n = 1 then (map_of refs)(k := None) else (map_of refs)(k \<mapsto> n - 1))"
      using 2 by auto
    moreover have "k' \<notin> fst ` set ys" using ys(4) 2(2) by auto
    ultimately show ?thesis using False 2(2-4) by (auto simp: fun_upd_twist)
  qed
qed auto

lemma ref_tables: "ref_counting (ref_ok hash) (ref_cnt hash) (tab_incr hash) (tab_decr hash)"
proof
  fix t t' and k :: 'a and new
  assume ok: "ref_ok hash t" and inc: "tab_incr hash k t = (t', new)"
  obtain ys where ys: "incr_ref k (t (hash k)) = (ys, new)" "t' = t(hash k := ys)"
    using inc by (auto simp: tab_incr_def split: prod.splits)
  have "distinct (map fst ys) \<and> (\<forall>(k', n)\<in>set ys. hash k' = hash k \<and> 0 < n) \<and> new = (map_of (t (hash k)) k = None) \<and>
     map_of ys = (map_of (t (hash k)))(k \<mapsto> (case map_of (t (hash k)) k of None \<Rightarrow> 1 | Some n \<Rightarrow> n + 1))"
    using ok ys by (intro incr_ref_ok) (auto simp: ref_ok_def)
  moreover have "map_of (t (hash k)) k \<noteq> Some 0"
    using ok by (fastforce simp: ref_ok_def dest: map_of_SomeD)
  ultimately show "ref_ok hash t' \<and> ref_cnt hash t' = (ref_cnt hash t)(k := ref_cnt hash t k + 1) \<and>
      new = (ref_cnt hash t k = 0)"
    using ok ys(2) by (auto simp: ref_ok_def ref_cnt_def fun_eq_iff split: option.splits)
next
  fix t and k :: 'a
  assume ok: "ref_ok hash t" and pos: "0 < ref_cnt hash t k"
  obtain n where n: "map_of (t (hash k)) k = Some n"
    using pos by (auto simp: ref_cnt_def split: option.splits)
  obtain ys where ys: "decr_ref k (t (hash k)) = Some (Some (ys, n = 1))" "distinct (map fst ys)"
    "\<forall>(k', n)\<in>set ys. hash k' = hash k \<and> 0 < n"
    "map_of ys = (if n = 1 then (map_of (t (hash k)))(k := None) else (map_of (t (hash k)))(k \<mapsto> n - 1))"
    using decr_ref_ok [of "t (hash k)" "\<lambda>k'. hash k' = hash k" k n] ok n by (auto simp: ref_ok_def)
  have rc: "ref_cnt hash t k = n" using n by (simp add: ref_cnt_def)
  have "ref_ok hash (t(hash k := ys))" using ok ys(2,3) by (auto simp: ref_ok_def)
  moreover have "ref_cnt hash (t(hash k := ys)) = (ref_cnt hash t)(k := ref_cnt hash t k - 1)"
    using ys(4) n by (auto simp: ref_cnt_def fun_eq_iff split: option.splits)
  moreover have "tab_decr hash k t = Some (Some (t(hash k := ys), ref_cnt hash t k = 1))"
    using ys(1) rc by (simp add: tab_decr_def)
  ultimately show "\<exists>t'. tab_decr hash k t = Some (Some (t', ref_cnt hash t k = 1)) \<and> ref_ok hash t' \<and>
      ref_cnt hash t' = (ref_cnt hash t)(k := ref_cnt hash t k - 1)"
    by blast
qed

interpretation devices: ref_counting "ref_ok secret_auth_key_hash" "ref_cnt secret_auth_key_hash"
  "tab_incr secret_auth_key_hash" "tab_decr secret_auth_key_hash"
  by (rule ref_tables)

interpretation clients: ref_counting "ref_ok secret_client_hash" "ref_cnt secret_client_hash"
  "tab_incr secret_client_hash" "tab_decr secret_client_hash"
  by (rule ref_tables)

section \<open>The connections and the counters\<close>

text \<open>What a connection is counted under, in the two tables.\<close>

definition held_key :: "(nat \<Rightarrow> ext_track) \<Rightarrow> nat \<rightharpoonup> int \<times> u64" where
  "held_key E e = (if tracked_auth_key_id (E e) = 0 then None
     else Some (tracked_auth_secret_id (E e), tracked_auth_key_id (E e)))"

definition held_client :: "(nat \<Rightarrow> ext_track) \<Rightarrow> nat \<rightharpoonup> int \<times> bytes" where
  "held_client E e = (if tracked_client_valid (E e)
     then Some (tracked_client_secret_id (E e), tracked_client_ipv6 (E e)) else None)"

definition track_inv :: "track_state \<Rightarrow> (nat \<Rightarrow> ext_track) \<Rightarrow> bool" where
  "track_inv s E \<longleftrightarrow>
     devices.balanced fst (SecretDeviceHash s) (active_auth_keys_per_secret s) (held_key E) \<and>
     clients.balanced fst (SecretClientHash s) (active_connections_per_secret s) (held_client E) \<and>
     (\<forall>e k. held_key E e = Some k \<longrightarrow> valid_secret (fst k)) \<and>
     (\<forall>e k. held_client E e = Some k \<longrightarrow> valid_secret (fst k))"

text \<open>
  The calls a connection goes through: it is counted under a key and under its address when a packet
  is forwarded, and under nothing when it is removed.
\<close>

datatype track_call =
  TrackKey nat int u64
| TrackClient nat bytes int
| UntrackKey nat
| UntrackClient nat

fun track_step :: "track_call \<Rightarrow> track_state \<times> (nat \<Rightarrow> ext_track) \<Rightarrow> (track_state \<times> (nat \<Rightarrow> ext_track)) option" where
  "track_step (TrackKey e secret_id key) (s, E) =
     map_option (\<lambda>(s, ex). (s, E(e := ex))) (mtfront_track_secret_auth_key secret_id key (s, E e))"
| "track_step (TrackClient e ipv6 secret_id) (s, E) =
     map_option (\<lambda>(s, ex). (s, E(e := ex))) (mtfront_track_secret_client ipv6 secret_id (s, E e))"
| "track_step (UntrackKey e) (s, E) =
     map_option (\<lambda>(s, ex). (s, E(e := ex))) (mtfront_untrack_secret_auth_key (s, E e))"
| "track_step (UntrackClient e) (s, E) =
     map_option (\<lambda>(s, ex). (s, E(e := ex))) (mtfront_untrack_secret_client (s, E e))"

fun track_run :: "track_call list \<Rightarrow> track_state \<times> (nat \<Rightarrow> ext_track) \<Rightarrow> (track_state \<times> (nat \<Rightarrow> ext_track)) option" where
  "track_run [] st = Some st"
| "track_run (c # cs) st = track_step c st \<bind> track_run cs"

lemma track_invD:
  assumes "track_inv s E"
  shows "devices.balanced fst (SecretDeviceHash s) (active_auth_keys_per_secret s) (held_key E)"
    and "clients.balanced fst (SecretClientHash s) (active_connections_per_secret s) (held_client E)"
  using assms by (simp_all add: track_inv_def)

lemma untrack_key_inv:
  assumes I: "track_inv s E"
  shows "\<exists>s' ex. mtfront_untrack_secret_auth_key (s, E e) = Some (s', ex) \<and> track_inv s' (E(e := ex)) \<and>
    held_key (E(e := ex)) e = None"
proof (cases "held_key E e")
  case None
  then have "tracked_auth_key_id (E e) = 0" by (simp add: held_key_def split: if_splits)
  then show ?thesis using I None by (simp add: mtfront_untrack_secret_auth_key_def)
next
  case (Some k)
  then have k: "tracked_auth_key_id (E e) \<noteq> 0" "k = (tracked_auth_secret_id (E e), tracked_auth_key_id (E e))"
    by (auto simp: held_key_def split: if_splits)
  have v: "valid_secret (tracked_auth_secret_id (E e))" using I Some k(2) by (fastforce simp: track_inv_def)
  obtain t gone where r: "tab_decr secret_auth_key_hash k (SecretDeviceHash s) = Some (Some (t, gone))"
    "gone \<longrightarrow> active_auth_keys_per_secret s (fst k) > 0"
    "devices.balanced fst t (if gone then (active_auth_keys_per_secret s)(fst k := active_auth_keys_per_secret s (fst k) - 1)
       else active_auth_keys_per_secret s) ((held_key E)(e := None))"
    using devices.release [OF track_invD(1) [OF I] Some] by blast
  define ex where "ex = (E e)\<lparr>tracked_auth_secret_id := 0, tracked_auth_key_id := 0\<rparr>"
  define s' where "s' = s\<lparr>SecretDeviceHash := t, active_auth_keys_per_secret :=
    (if gone then (active_auth_keys_per_secret s)(fst k := active_auth_keys_per_secret s (fst k) - 1)
     else active_auth_keys_per_secret s)\<rparr>"
  have h: "held_key (E(e := ex)) = (held_key E)(e := None)" "held_client (E(e := ex)) = held_client E"
    by (auto simp: held_key_def held_client_def ex_def fun_eq_iff)
  have "mtfront_untrack_secret_auth_key (s, E e) = Some (s', ex)"
    using k v r(1,2) by (auto simp: mtfront_untrack_secret_auth_key_def Let_def s'_def ex_def)
  moreover have "track_inv s' (E(e := ex))"
    using I r(3) unfolding track_inv_def h by (simp add: s'_def)
  ultimately show ?thesis using h(1) by auto
qed

lemma track_key_inv:
  assumes I: "track_inv s E"
  shows "\<exists>s' ex. mtfront_track_secret_auth_key secret_id key (s, E e) = Some (s', ex) \<and> track_inv s' (E(e := ex))"
proof (cases "tracked_auth_key_id (E e) = key \<and> tracked_auth_secret_id (E e) = secret_id")
  case True
  then show ?thesis using I by (simp add: mtfront_track_secret_auth_key_def)
next
  case False
  obtain s1 ex1 where u: "mtfront_untrack_secret_auth_key (s, E e) = Some (s1, ex1)" "track_inv s1 (E(e := ex1))"
    "held_key (E(e := ex1)) e = None"
    using untrack_key_inv [OF I] by blast
  show ?thesis
  proof (cases "\<not> valid_secret secret_id \<or> key = 0")
    case True
    then show ?thesis using u False by (auto simp: mtfront_track_secret_auth_key_def)
  next
    case ok: False
    define k where "k = (secret_id, key)"
    obtain t new where i: "tab_incr secret_auth_key_hash k (SecretDeviceHash s1) = (t, new)" by fastforce
    let ?act = "if new then (active_auth_keys_per_secret s1)(fst k := active_auth_keys_per_secret s1 (fst k) + 1)
       else active_auth_keys_per_secret s1"
    have b: "devices.balanced fst t ?act ((held_key (E(e := ex1)))(e \<mapsto> k))"
      using devices.hold [OF track_invD(1) [OF u(2)] u(3) i] .
    define ex where "ex = ex1\<lparr>tracked_auth_secret_id := secret_id, tracked_auth_key_id := key\<rparr>"
    have h: "held_key (E(e := ex)) = (held_key (E(e := ex1)))(e \<mapsto> k)" "held_client (E(e := ex)) = held_client (E(e := ex1))"
      using ok by (auto simp: held_key_def held_client_def ex_def fun_eq_iff k_def)
    define s' where "s' = s1\<lparr>SecretDeviceHash := t, active_auth_keys_per_secret := ?act\<rparr>"
    have "mtfront_track_secret_auth_key secret_id key (s, E e) = Some (s', ex)"
      using False ok u(1) i by (auto simp: mtfront_track_secret_auth_key_def Let_def k_def s'_def ex_def)
    moreover have "track_inv s' (E(e := ex))"
      using u(2) b ok unfolding track_inv_def h by (simp add: s'_def k_def)
    ultimately show ?thesis by blast
  qed
qed

lemma untrack_client_inv:
  assumes I: "track_inv s E"
  shows "\<exists>s' ex. mtfront_untrack_secret_client (s, E e) = Some (s', ex) \<and> track_inv s' (E(e := ex)) \<and>
    held_client (E(e := ex)) e = None"
proof (cases "held_client E e")
  case None
  then have "\<not> tracked_client_valid (E e)" by (simp add: held_client_def split: if_splits)
  then show ?thesis using I None by (simp add: mtfront_untrack_secret_client_def)
next
  case (Some k)
  then have k: "tracked_client_valid (E e)" "k = (tracked_client_secret_id (E e), tracked_client_ipv6 (E e))"
    by (auto simp: held_client_def split: if_splits)
  have v: "valid_secret (tracked_client_secret_id (E e))" using I Some k(2) by (fastforce simp: track_inv_def)
  obtain t gone where r: "tab_decr secret_client_hash k (SecretClientHash s) = Some (Some (t, gone))"
    "gone \<longrightarrow> active_connections_per_secret s (fst k) > 0"
    "clients.balanced fst t (if gone then (active_connections_per_secret s)(fst k := active_connections_per_secret s (fst k) - 1)
       else active_connections_per_secret s) ((held_client E)(e := None))"
    using clients.release [OF track_invD(2) [OF I] Some] by blast
  define ex where "ex = (E e)\<lparr>tracked_client_secret_id := 0, tracked_client_valid := False,
    tracked_client_ipv6 := replicate 16 0\<rparr>"
  define s' where "s' = s\<lparr>SecretClientHash := t, active_connections_per_secret :=
    (if gone then (active_connections_per_secret s)(fst k := active_connections_per_secret s (fst k) - 1)
     else active_connections_per_secret s)\<rparr>"
  have h: "held_client (E(e := ex)) = (held_client E)(e := None)" "held_key (E(e := ex)) = held_key E"
    by (auto simp: held_key_def held_client_def ex_def fun_eq_iff)
  have "mtfront_untrack_secret_client (s, E e) = Some (s', ex)"
    using k v r(1,2) by (auto simp: mtfront_untrack_secret_client_def Let_def s'_def ex_def)
  moreover have "track_inv s' (E(e := ex))"
    using I r(3) unfolding track_inv_def h by (simp add: s'_def)
  ultimately show ?thesis using h(1) by auto
qed

lemma track_client_inv:
  assumes I: "track_inv s E"
  shows "\<exists>s' ex. mtfront_track_secret_client ipv6 secret_id (s, E e) = Some (s', ex) \<and> track_inv s' (E(e := ex))"
proof -
  obtain s1 ex1 where u: "mtfront_untrack_secret_client (s, E e) = Some (s1, ex1)" "track_inv s1 (E(e := ex1))"
    "held_client (E(e := ex1)) e = None"
    using untrack_client_inv [OF I] by blast
  consider "\<not> valid_secret secret_id" | "valid_secret secret_id" "tracked_client_valid (E e)"
      "tracked_client_secret_id (E e) = secret_id" "tracked_client_ipv6 (E e) = ipv6"
    | (new) "valid_secret secret_id" "\<not> (tracked_client_valid (E e) \<and> tracked_client_secret_id (E e) = secret_id \<and>
         tracked_client_ipv6 (E e) = ipv6)"
    by blast
  then show ?thesis
  proof cases
    case new
    define k where "k = (secret_id, ipv6)"
    obtain t new' where i: "tab_incr secret_client_hash k (SecretClientHash s1) = (t, new')" by fastforce
    let ?act = "if new' then (active_connections_per_secret s1)(fst k := active_connections_per_secret s1 (fst k) + 1)
       else active_connections_per_secret s1"
    have b: "clients.balanced fst t ?act ((held_client (E(e := ex1)))(e \<mapsto> k))"
      using clients.hold [OF track_invD(2) [OF u(2)] u(3) i] .
    define ex where "ex = ex1\<lparr>tracked_client_secret_id := secret_id, tracked_client_valid := True,
      tracked_client_ipv6 := ipv6\<rparr>"
    have h: "held_client (E(e := ex)) = (held_client (E(e := ex1)))(e \<mapsto> k)" "held_key (E(e := ex)) = held_key (E(e := ex1))"
      by (auto simp: held_key_def held_client_def ex_def fun_eq_iff k_def)
    define s' where "s' = s1\<lparr>SecretClientHash := t, active_connections_per_secret := ?act\<rparr>"
    have "mtfront_track_secret_client ipv6 secret_id (s, E e) = Some (s', ex)"
      using new u(1) i by (auto simp: mtfront_track_secret_client_def Let_def k_def s'_def ex_def)
    moreover have "track_inv s' (E(e := ex))"
      using u(2) b new unfolding track_inv_def h by (simp add: s'_def k_def)
    ultimately show ?thesis by blast
  qed (use I u in \<open>auto simp: mtfront_track_secret_client_def\<close>)
qed

lemma track_step_inv: "track_inv s E \<Longrightarrow> \<exists>s' E'. track_step c (s, E) = Some (s', E') \<and> track_inv s' E'"
  using track_key_inv untrack_key_inv track_client_inv untrack_client_inv by (cases c) fastforce+

lemma track_run_inv: "track_inv s E \<Longrightarrow> \<exists>s' E'. track_run cs (s, E) = Some (s', E') \<and> track_inv s' E'"
proof (induction cs arbitrary: s E)
  case (Cons c cs)
  then show ?case using track_step_inv [of s E c] by (metis bind.bind_lunit track_run.simps(2))
qed simp

lemma track_empty_inv: "track_inv track_empty (\<lambda>_. no_track)"
proof -
  have h: "held_key (\<lambda>_. no_track) = (\<lambda>_. None)" "held_client (\<lambda>_. no_track) = (\<lambda>_. None)"
    by (auto simp: held_key_def held_client_def no_track_def)
  show ?thesis
    by (simp add: track_inv_def h devices.balanced_def clients.balanced_def track_empty_def ref_ok_def ref_cnt_def ran_def)
qed

text \<open>
  C7. Whatever sequence of tracking calls the connections make, no assertion fails, and afterwards
  the counters of every secret are the number of different authorisation keys and the number of
  different client addresses that its connections are counted under; in particular both return to
  zero with the last connection.
\<close>

theorem secret_counters_exact:
  "\<exists>s E. track_run cs (track_empty, \<lambda>_. no_track) = Some (s, E) \<and>
     (\<forall>secret. active_auth_keys_per_secret s secret = int (card {k. \<exists>e. held_key E e = Some (secret, k)}) \<and>
        active_connections_per_secret s secret = int (card {a. \<exists>e. held_client E e = Some (secret, a)}))"
proof -
  obtain s E where r: "track_run cs (track_empty, \<lambda>_. no_track) = Some (s, E)" "track_inv s E"
    using track_run_inv [OF track_empty_inv] by blast
  have c: "card {k \<in> ran H. fst k = secret} = card {k. \<exists>e. H e = Some (secret, k)}"
    for H :: "nat \<rightharpoonup> int \<times> 'b" and secret
  proof -
    have "{k \<in> ran H. fst k = secret} = Pair secret ` {k. \<exists>e. H e = Some (secret, k)}"
      by (force simp: ran_def)
    then show ?thesis by (simp add: card_image inj_on_def)
  qed
  show ?thesis
    using r by (intro exI [of _ s] exI [of _ E])
      (simp add: track_inv_def devices.balanced_def clients.balanced_def c [symmetric])
qed

end
