(* ===== verification/ExtConn.thy ===== *)
theory ExtConn
  imports LinkRings SecretTrack
begin

text \<open>
  The table of external connections of \<^verbatim>\<open>mtproto/mtproto-proxy.c\<close>: one \<^verbatim>\<open>struct ext_connection\<close> for
  every client whose packets are forwarded, linking the client's connection (\<^verbatim>\<open>in_fd\<close>) with the
  connection to the middle proxy (\<^verbatim>\<open>out_fd\<close>). The middle proxy names it by the \<^verbatim>\<open>out_conn_id\<close> that the
  proxy chose for it.

  Objects are numbers (addresses), \<open>exts\<close> the allocated ones; the list fields are the links of theory
  \<^verbatim>\<open>LinkRings\<close>; a hash chain (\<^verbatim>\<open>h_next\<close>) is the list of its objects. The address that \<^verbatim>\<open>calloc\<close> returns
  and the values of \<^verbatim>\<open>lrand48\<close> are arguments. File descriptors and counters are integers, an
  \<^verbatim>\<open>out_conn_id\<close> a 64-bit word.
\<close>

section \<open>State\<close>

definition EXT_CONN_TABLE_SIZE :: nat where
  "EXT_CONN_TABLE_SIZE = 2 ^ 22"

definition EXT_CONN_HASH_SHIFT :: nat where
  "EXT_CONN_HASH_SHIFT = 20"

definition MAX_CONNECTIONS :: int where
  "MAX_CONNECTIONS = 65536"

record ext_connection =
  in_fd :: int
  in_gen :: int
  out_fd :: int
  out_gen :: int
  in_conn_id :: u64
  out_conn_id :: u64
  auth_key_id :: u64
  tracked :: ext_track

definition calloc_ext :: ext_connection where
  "calloc_ext = \<lparr>in_fd = 0, in_gen = 0, out_fd = 0, out_gen = 0, in_conn_id = 0, out_conn_id = 0,
     auth_key_id = 0, tracked = no_track\<rparr>"

record ext_table =
  exts :: "nat \<rightharpoonup> ext_connection"
  i_links :: links
  o_links :: links
  lru_links :: links
  InExtConnectionHash :: "nat \<Rightarrow> nat list"
  OutExtConnections :: "nat \<Rightarrow> nat option \<times> u64"
  ext_connections :: int
  ext_connections_created :: int
  secret_stats :: track_state

definition ext_empty :: ext_table where
  "ext_empty = \<lparr>exts = Map.empty, i_links = (Map.empty, Map.empty), o_links = (Map.empty, Map.empty),
     lru_links = ([ConnLRU \<mapsto> ConnLRU], [ConnLRU \<mapsto> ConnLRU]), InExtConnectionHash = (\<lambda>_. []),
     OutExtConnections = (\<lambda>_. (None, 0)), ext_connections = 0, ext_connections_created = 0,
     secret_stats = track_empty\<rparr>"

definition valid_fd :: "int \<Rightarrow> bool" where
  "valid_fd fd \<longleftrightarrow> 0 \<le> fd \<and> fd < MAX_CONNECTIONS"

definition ext_conn_hash :: "int \<Rightarrow> u64 \<Rightarrow> nat" where
  "ext_conn_hash fd conn_id =
     unat (drop_bit (64 - EXT_CONN_HASH_SHIFT)
       (word_of_int fd * 11400714819323198485 + conn_id * 13043817825332782213 :: u64))"

text \<open>\<^verbatim>\<open>h & (EXT_CONN_TABLE_SIZE - 1)\<close>\<close>

definition out_slot :: "u64 \<Rightarrow> nat" where
  "out_slot cid = unat (cid AND word_of_nat (EXT_CONN_TABLE_SIZE - 1))"

section \<open>The list by time of use\<close>

definition lru_delete_ext_conn :: "nat \<Rightarrow> ext_table \<Rightarrow> ext_table option" where
  "lru_delete_ext_conn e s = do {
     (nx, pv) \<leftarrow> unlink_node (Ext e) (lru_links s);
     Some (s\<lparr>lru_links := (nx(Ext e := None), pv(Ext e := None))\<rparr>) }"

definition lru_insert_ext_conn :: "nat \<Rightarrow> ext_table \<Rightarrow> ext_table option" where
  "lru_insert_ext_conn e s = do {
     s \<leftarrow> lru_delete_ext_conn e s;
     l \<leftarrow> link_node (Ext e) ConnLRU (lru_links s);
     Some (s\<lparr>lru_links := l\<rparr>) }"

section \<open>Lookup, creation, deletion\<close>

definition get_ext_connection_by_in_fd :: "int \<Rightarrow> ext_table \<Rightarrow> nat option option" where
  "get_ext_connection_by_in_fd fd s = do {
     cassert (valid_fd fd);
     let Ex = fst (i_links s) (Head fd);
     cassert (Ex = snd (i_links s) (Head fd));
     case Ex of
       Some (Ext e) \<Rightarrow> do {
         x \<leftarrow> exts s e;
         cassert (in_fd x = fd);
         Some (Some e) }
     | _ \<Rightarrow> Some None }"

definition find_ext_connection_by_out_conn_id :: "u64 \<Rightarrow> ext_table \<Rightarrow> nat option option" where
  "find_ext_connection_by_out_conn_id cid s =
     (case OutExtConnections s (out_slot cid) of
        (Some e, cid') \<Rightarrow>
          if cid' \<noteq> cid then Some None
          else do {
            x \<leftarrow> exts s e;
            cassert (out_conn_id x = cid);
            Some (Some e) }
      | (None, _) \<Rightarrow> Some None)"

text \<open>The chain of the hash table searched for a key.\<close>

definition hash_lookup :: "int \<Rightarrow> u64 \<Rightarrow> ext_table \<Rightarrow> nat option" where
  "hash_lookup fd conn_id s = find (\<lambda>e. case exts s e of
       Some x \<Rightarrow> in_fd x = fd \<and> in_conn_id x = conn_id | None \<Rightarrow> False)
     (InExtConnectionHash s (ext_conn_hash fd conn_id))"

definition untrack_ext :: "nat \<Rightarrow> ext_table \<Rightarrow> ext_table option" where
  "untrack_ext e s = do {
     x \<leftarrow> exts s e;
     st \<leftarrow> mtfront_untrack_secret_auth_key (secret_stats s, tracked x);
     (t, tr) \<leftarrow> mtfront_untrack_secret_client st;
     Some (s\<lparr>exts := (exts s)(e \<mapsto> x\<lparr>tracked := tr\<rparr>), secret_stats := t\<rparr>) }"

text \<open>The branch of \<open>get_ext_connection_by_in_conn_id\<close> that deletes (\<^verbatim>\<open>mode\<close> 1).\<close>

definition delete_ext :: "nat \<Rightarrow> int \<Rightarrow> u64 \<Rightarrow> ext_table \<Rightarrow> ext_table option" where
  "delete_ext e fd conn_id s = do {
     s \<leftarrow> untrack_ext e s;
     il \<leftarrow> unlink_node (Ext e) (i_links s);
     ol \<leftarrow> unlink_node (Ext e) (o_links s);
     s \<leftarrow> lru_delete_ext_conn e (s\<lparr>i_links := il, o_links := ol\<rparr>);
     let ch = ext_conn_hash fd conn_id;
     let s = s\<lparr>InExtConnectionHash := (InExtConnectionHash s)(ch := remove1 e (InExtConnectionHash s ch))\<rparr>;
     x \<leftarrow> exts s e;
     let h = out_slot (out_conn_id x);
     cassert (fst (OutExtConnections s h) = Some e);
     cassert (snd (OutExtConnections s h) = out_conn_id x);
     Some (s\<lparr>OutExtConnections := (OutExtConnections s)(h := (None, snd (OutExtConnections s h))),
             exts := (exts s)(e := None), ext_connections := ext_connections s - 1\<rparr>) }"

text \<open>The search for a free slot; \<open>None\<close> if the given random numbers do not lead to one.\<close>

fun find_out_slot :: "(nat \<Rightarrow> nat option \<times> u64) \<Rightarrow> u64 \<Rightarrow> u64 list \<Rightarrow> nat option" where
  "find_out_slot out h rnd =
     (if fst (out (out_slot h)) = None then Some (out_slot h)
      else case rnd of [] \<Rightarrow> None | r # rnd \<Rightarrow> find_out_slot out r rnd)"

declare find_out_slot.simps [simp del]

definition next_out_conn_id :: "u64 \<Rightarrow> nat \<Rightarrow> u64" where
  "next_out_conn_id cid h = (cid OR word_of_nat (EXT_CONN_TABLE_SIZE - 1)) + 1 + word_of_nat h"

text \<open>The first slot tried is random, or the descriptor if there is no connection number.\<close>

definition draw_slot :: "(nat \<Rightarrow> nat option \<times> u64) \<Rightarrow> int \<Rightarrow> u64 \<Rightarrow> u64 list \<Rightarrow> nat option" where
  "draw_slot out fd conn_id rnd =
     (if conn_id \<noteq> 0 then case rnd of [] \<Rightarrow> None | r # rnd \<Rightarrow> find_out_slot out r rnd
      else find_out_slot out (word_of_int fd) rnd)"

text \<open>The new object enters the list of its incoming connection, which must be empty.\<close>

definition link_in :: "nat \<Rightarrow> int \<Rightarrow> links \<Rightarrow> links option" where
  "link_in new fd l = (if fd = 0 then Some l else case l of (nx, pv) \<Rightarrow> do {
     let l = (if nx (Head fd) = None then (nx(Head fd \<mapsto> Head fd), pv(Head fd \<mapsto> Head fd)) else (nx, pv));
     cassert (fst l (Head fd) = Some (Head fd));
     link_node (Ext new) (Head fd) l })"

text \<open>The part of \<open>get_ext_connection_by_in_conn_id\<close> that creates (\<^verbatim>\<open>mode\<close> 2 and 3): \<open>new\<close> is the
  address allocated, \<open>rnd\<close> the random numbers drawn.\<close>

definition insert_ext :: "nat \<Rightarrow> u64 list \<Rightarrow> int \<Rightarrow> int \<Rightarrow> u64 \<Rightarrow> ext_table \<Rightarrow> ext_table option" where
  "insert_ext new rnd fd gen conn_id s = do {
     cassert (ext_connections s < int (EXT_CONN_TABLE_SIZE div 2));
     let ch = ext_conn_hash fd conn_id;
     let s = s\<lparr>InExtConnectionHash := (InExtConnectionHash s)(ch := new # InExtConnectionHash s ch)\<rparr>;
     cassert (valid_fd fd);
     il \<leftarrow> link_in new fd (i_links s);
     h \<leftarrow> draw_slot (OutExtConnections s) fd conn_id rnd;
     let cid = next_out_conn_id (snd (OutExtConnections s h)) h;
     cassert (cid \<noteq> 0);
     Some (s\<lparr>i_links := il, OutExtConnections := (OutExtConnections s)(h := (Some new, cid)),
       exts := (exts s)(new \<mapsto> calloc_ext\<lparr>in_fd := fd, in_gen := gen, in_conn_id := conn_id, out_conn_id := cid\<rparr>),
       ext_connections := ext_connections s + 1, ext_connections_created := ext_connections_created s + 1\<rparr>) }"

text \<open>The values of the pointer that \<open>get_ext_connection_by_in_conn_id\<close> returns.\<close>

datatype ext_result = Null | Deleted | Object nat

definition get_ext_connection_by_in_conn_id ::
  "nat \<Rightarrow> u64 list \<Rightarrow> int \<Rightarrow> int \<Rightarrow> u64 \<Rightarrow> nat \<Rightarrow> ext_table \<Rightarrow> (ext_result \<times> ext_table) option" where
  "get_ext_connection_by_in_conn_id new rnd fd gen conn_id mode s =
     (case hash_lookup fd conn_id s of
        Some e \<Rightarrow> do {
          x \<leftarrow> exts s e;
          cassert (out_conn_id x \<noteq> 0);
          if mode = 0 \<or> mode = 3 then Some (Object e, s)
          else if mode \<noteq> 1 then Some (Null, s)
          else do { s \<leftarrow> delete_ext e fd conn_id s; Some (Deleted, s) } }
      | None \<Rightarrow>
          if mode \<noteq> 2 \<and> mode \<noteq> 3 then Some (Null, s)
          else do { s \<leftarrow> insert_ext new rnd fd gen conn_id s; Some (Object new, s) })"

text \<open>
  \<open>create_ext_connection\<close>: \<open>CI\<close> and \<open>CO\<close> are the descriptor and generation of the two connections;
  \<^verbatim>\<open>CO\<close> may be null.
\<close>

definition create_ext_connection ::
  "nat \<Rightarrow> u64 list \<Rightarrow> int \<times> int \<Rightarrow> u64 \<Rightarrow> (int \<times> int) option \<Rightarrow> u64 \<Rightarrow> ext_table \<Rightarrow> (nat \<times> ext_table) option" where
  "create_ext_connection new rnd CI conn_id CO key s = do {
     (r, s) \<leftarrow> get_ext_connection_by_in_conn_id new rnd (fst CI) (snd CI) conn_id 2 s;
     case r of
       Object e \<Rightarrow> do {
         x \<leftarrow> exts s e;
         cassert (out_fd x = 0 \<and> fst (o_links s) (Ext e) = None \<and> auth_key_id x = 0);
         cassert (case CO of None \<Rightarrow> True | Some (fd, gen) \<Rightarrow> valid_fd fd);
         cassert (CO \<noteq> Some CI);
         case CO of
           None \<Rightarrow> Some (e, s\<lparr>exts := (exts s)(e \<mapsto> x\<lparr>auth_key_id := key\<rparr>)\<rparr>)
         | Some (fd, gen) \<Rightarrow> do {
             cassert (fst (o_links s) (Head fd) \<noteq> None);
             ol \<leftarrow> link_node (Ext e) (Head fd) (o_links s);
             Some (e, s\<lparr>o_links := ol,
               exts := (exts s)(e \<mapsto> x\<lparr>out_fd := fd, out_gen := gen, auth_key_id := key\<rparr>)\<rparr>) } }
     | _ \<Rightarrow> None }"

text \<open>
  What a removal does outside the table: the middle proxy is told, the client's connection is failed.
  \<open>alive fd gen\<close> stands for \<^verbatim>\<open>connection_get_by_fd_generation\<close> finding the connection.
\<close>

datatype ext_action =
  NotifyRemoteClosed int int u64
| FailConnection int int int

definition remove_ext_connection ::
  "(int \<Rightarrow> int \<Rightarrow> bool) \<Rightarrow> nat \<Rightarrow> nat \<Rightarrow> ext_table \<Rightarrow> (ext_action list \<times> ext_table) option" where
  "remove_ext_connection alive e send_notifications s = do {
     x \<leftarrow> exts s e;
     cassert (out_conn_id x \<noteq> 0);
     f \<leftarrow> find_ext_connection_by_out_conn_id (out_conn_id x) s;
     cassert (f = Some e);
     out \<leftarrow> (if out_fd x \<noteq> 0 then do {
         cassert (valid_fd (out_fd x));
         cassert (fst (o_links s) (Ext e) \<noteq> None);
         Some (if odd send_notifications \<and> alive (out_fd x) (out_gen x)
               then [NotifyRemoteClosed (out_fd x) (out_gen x) (out_conn_id x)] else []) }
       else Some []);
     inp \<leftarrow> (if in_fd x \<noteq> 0 then do {
         cassert (valid_fd (in_fd x));
         cassert (fst (i_links s) (Ext e) \<noteq> None);
         if odd (send_notifications div 2) then do {
           cassert (in_conn_id x = 0);
           Some (if alive (in_fd x) (in_gen x) then [FailConnection (in_fd x) (in_gen x) (-33)] else []) }
         else Some [] }
       else Some []);
     (r, s) \<leftarrow> get_ext_connection_by_in_conn_id 0 [] (in_fd x) (in_gen x) (in_conn_id x) 1 s;
     cassert (r = Deleted);
     Some (out @ inp, s) }"

section \<open>Connection numbers\<close>

lemma table_mask: "(word_of_nat (EXT_CONN_TABLE_SIZE - 1) :: u64) = mask 22"
  by (simp add: EXT_CONN_TABLE_SIZE_def mask_eq_exp_minus_1)

lemma out_slot_eq: "out_slot cid = unat cid mod 2 ^ 22"
  unfolding out_slot_def table_mask take_bit_eq_mask [symmetric] unsigned_take_bit_eq by (simp add: take_bit_nat_def)

lemma out_slot_less [simp]: "out_slot cid < 4194304"
  by (simp add: out_slot_eq)

text \<open>The next number of a slot is the next multiple of the table size, plus the slot.\<close>

lemma unat_next_out_conn_id:
  assumes h: "h < 2 ^ 22" and b: "unat cid < 2 ^ 22 * c" "2 ^ 22 * (c + 1) \<le> (2 :: nat) ^ 63"
  shows "unat (next_out_conn_id cid h) = (unat cid div 2 ^ 22 + 1) * 2 ^ 22 + h"
proof -
  define q where "q = unat cid div 2 ^ 22"
  have "cid OR mask 22 = push_bit 22 (drop_bit 22 cid) + mask 22"
  proof -
    have "push_bit 22 (drop_bit 22 cid) AND mask 22 = (0 :: u64)"
      by (rule bit_word_eqI) (auto simp: bit_simps)
    then have "push_bit 22 (drop_bit 22 cid) + mask 22 = push_bit 22 (drop_bit 22 cid) OR (mask 22 :: u64)"
      by (rule disjunctive_add_eq_or)
    also have "\<dots> = cid OR mask 22"
      by (rule bit_word_eqI) (auto simp: bit_simps)
    finally show ?thesis by simp
  qed
  moreover have "push_bit 22 (drop_bit 22 cid) = word_of_nat (q * 2 ^ 22)"
    by (simp add: q_def push_bit_eq_mult drop_bit_eq_div word_arith_nat_div mult.commute)
  ultimately have "next_out_conn_id cid h = word_of_nat (q * 2 ^ 22 + (2 ^ 22 - 1) + 1 + h)"
    unfolding next_out_conn_id_def table_mask by (simp add: mask_eq_exp_minus_1)
  also have "\<dots> = word_of_nat ((q + 1) * 2 ^ 22 + h)"
    by (simp add: algebra_simps)
  finally have e: "next_out_conn_id cid h = word_of_nat ((q + 1) * 2 ^ 22 + h)" .
  have "q < c" using b(1) by (simp add: q_def less_mult_imp_div_less mult.commute)
  then have "(q + 1) * 2 ^ 22 + h < 2 ^ 22 * (c + 1)" using h by simp
  then have "(q + 1) * 2 ^ 22 + h < 2 ^ 64" using b(2) by simp
  moreover have "unat (word_of_nat n :: u64) = n" if "n < 2 ^ 64" for n
    using that by (simp add: unsigned_of_nat take_bit_nat_def)
  ultimately show ?thesis unfolding e q_def [symmetric] by blast
qed

section \<open>The invariant of the table\<close>

text \<open>The connection whose list holds an object, for the two families of lists (0 is no connection).\<close>

definition in_owner :: "ext_table \<Rightarrow> nat \<rightharpoonup> int" where
  "in_owner s e = (case exts s e of None \<Rightarrow> None | Some x \<Rightarrow> if in_fd x = 0 then None else Some (in_fd x))"

definition out_owner :: "ext_table \<Rightarrow> nat \<rightharpoonup> int" where
  "out_owner s e = (case exts s e of None \<Rightarrow> None | Some x \<Rightarrow> if out_fd x = 0 then None else Some (out_fd x))"

definition trackers :: "ext_table \<Rightarrow> nat \<Rightarrow> ext_track" where
  "trackers s e = (case exts s e of None \<Rightarrow> no_track | Some x \<Rightarrow> tracked x)"

definition hash_ok :: "ext_table \<Rightarrow> bool" where
  "hash_ok s \<longleftrightarrow> (\<forall>h. distinct (InExtConnectionHash s h) \<and> set (InExtConnectionHash s h) =
     {e. \<exists>x. exts s e = Some x \<and> ext_conn_hash (in_fd x) (in_conn_id x) = h})"

text \<open>No two objects share their key; an incoming connection has at most one object.\<close>

definition keys_ok :: "ext_table \<Rightarrow> bool" where
  "keys_ok s \<longleftrightarrow>
     (\<forall>e e' x x'. exts s e = Some x \<and> exts s e' = Some x' \<and> in_fd x = in_fd x' \<and>
        (in_conn_id x = in_conn_id x' \<or> in_fd x \<noteq> 0) \<longrightarrow> e = e') \<and>
     (\<forall>e x. exts s e = Some x \<longrightarrow> valid_fd (in_fd x) \<and> valid_fd (out_fd x))"

text \<open>
  A slot of \<^verbatim>\<open>OutExtConnections\<close> refers to the object whose number has that slot, and holds that number;
  every number is bounded by the count of objects created.
\<close>

definition out_ok :: "ext_table \<Rightarrow> bool" where
  "out_ok s \<longleftrightarrow>
     (\<forall>e x. exts s e = Some x \<longrightarrow> out_conn_id x \<noteq> 0 \<and>
        OutExtConnections s (out_slot (out_conn_id x)) = (Some e, out_conn_id x)) \<and>
     (\<forall>h e. fst (OutExtConnections s h) = Some e \<longrightarrow> (\<exists>x. exts s e = Some x \<and> out_slot (out_conn_id x) = h)) \<and>
     0 \<le> ext_connections_created s \<and>
     (\<forall>h. int (unat (snd (OutExtConnections s h))) < 2 ^ 22 * (ext_connections_created s + 1))"

definition lru_ok :: "ext_table \<Rightarrow> bool" where
  "lru_ok s \<longleftrightarrow> (\<exists>es. ring (lru_links s) ConnLRU (map Ext es) \<and> set es \<subseteq> dom (exts s) \<and>
     (\<forall>e. e \<notin> set es \<longrightarrow> fst (lru_links s) (Ext e) = None))"

definition ext_inv :: "ext_table \<Rightarrow> bool" where
  "ext_inv s \<longleftrightarrow> finite (dom (exts s)) \<and> ext_connections s = int (card (dom (exts s))) \<and>
     hash_ok s \<and> keys_ok s \<and> out_ok s \<and> lru_ok s \<and>
     rings (i_links s) (in_owner s) \<and> rings (o_links s) (out_owner s) \<and>
     track_inv (secret_stats s) (trackers s)"

lemma ext_invD:
  assumes "ext_inv s"
  shows "finite (dom (exts s))" "ext_connections s = int (card (dom (exts s)))" "hash_ok s" "keys_ok s" "out_ok s"
    "lru_ok s" "rings (i_links s) (in_owner s)" "rings (o_links s) (out_owner s)"
    "track_inv (secret_stats s) (trackers s)"
  using assms by (simp_all add: ext_inv_def)

lemma ext_empty_inv: "ext_inv ext_empty"
proof -
  have "lru_ok ext_empty"
    unfolding lru_ok_def by (intro exI [of _ "[]"]) (simp add: ext_empty_def ring_def)
  moreover have "in_owner ext_empty = (\<lambda>_. None)" "out_owner ext_empty = (\<lambda>_. None)" "trackers ext_empty = (\<lambda>_. no_track)"
    by (auto simp: in_owner_def out_owner_def trackers_def ext_empty_def)
  moreover have "rings (Map.empty, Map.empty) (\<lambda>_. None)" by (simp add: rings_def family_def)
  ultimately show ?thesis
    using track_empty_inv by (simp add: ext_inv_def) (simp add: ext_empty_def hash_ok_def keys_ok_def out_ok_def)
qed

subsection \<open>Lookups\<close>

lemma in_owner_iff: "in_owner s e = Some fd \<longleftrightarrow> (\<exists>x. exts s e = Some x \<and> in_fd x = fd) \<and> fd \<noteq> 0"
  by (auto simp: in_owner_def split: option.splits)

lemma out_owner_iff: "out_owner s e = Some fd \<longleftrightarrow> (\<exists>x. exts s e = Some x \<and> out_fd x = fd) \<and> fd \<noteq> 0"
  by (auto simp: out_owner_def split: option.splits)

lemma out_okD1:
  "out_ok s \<Longrightarrow> exts s e = Some x \<Longrightarrow> out_conn_id x \<noteq> 0 \<and>
     OutExtConnections s (out_slot (out_conn_id x)) = (Some e, out_conn_id x)"
  by (simp add: out_ok_def)

lemma out_okD2:
  "out_ok s \<Longrightarrow> fst (OutExtConnections s h) = Some e \<Longrightarrow> \<exists>x. exts s e = Some x \<and> out_slot (out_conn_id x) = h"
  by (simp add: out_ok_def)

lemma find_out:
  assumes I: "out_ok s"
  shows "find_ext_connection_by_out_conn_id cid s = Some f \<longleftrightarrow>
    (case f of None \<Rightarrow> \<not> (\<exists>e x. exts s e = Some x \<and> out_conn_id x = cid)
     | Some e \<Rightarrow> \<exists>x. exts s e = Some x \<and> out_conn_id x = cid)"
proof -
  obtain r n where slot: "OutExtConnections s (out_slot cid) = (r, n)" by fastforce
  have live: "out_conn_id x \<noteq> 0 \<and> OutExtConnections s (out_slot (out_conn_id x)) = (Some e, out_conn_id x)"
    if "exts s e = Some x" for e x
    using out_okD1 [OF I that] .
  show ?thesis
  proof (cases "\<exists>e x. exts s e = Some x \<and> out_conn_id x = cid")
    case True
    then obtain e x where e: "exts s e = Some x" "out_conn_id x = cid" by blast
    then have r: "r = Some e" "n = cid" using live [of e x] slot by auto
    then have f: "find_ext_connection_by_out_conn_id cid s = Some (Some e)"
      using e slot by (simp add: find_ext_connection_by_out_conn_id_def)
    have "\<forall>e' x'. exts s e' = Some x' \<and> out_conn_id x' = cid \<longrightarrow> e' = e"
      using live slot r(1) by force
    then show ?thesis unfolding f using e by (auto split: option.splits)
  next
    case False
    have "find_ext_connection_by_out_conn_id cid s = Some None"
    proof (cases r)
      case (Some e)
      then obtain x where x: "exts s e = Some x" "out_slot (out_conn_id x) = out_slot cid"
        using out_okD2 [OF I, of "out_slot cid" e] slot by auto
      then have "n = out_conn_id x" using live [OF x(1)] slot by auto
      then show ?thesis using False x Some slot by (auto simp: find_ext_connection_by_out_conn_id_def)
    qed (use slot in \<open>simp add: find_ext_connection_by_out_conn_id_def\<close>)
    then show ?thesis using False by (auto split: option.splits)
  qed
qed

lemma get_by_in_fd:
  assumes I: "ext_inv s" and fd: "valid_fd fd" "fd \<noteq> 0"
  shows "\<exists>f. get_ext_connection_by_in_fd fd s = Some f \<and>
    (case f of None \<Rightarrow> \<not> (\<exists>e x. exts s e = Some x \<and> in_fd x = fd)
     | Some e \<Rightarrow> \<exists>x. exts s e = Some x \<and> in_fd x = fd)"
proof (cases "\<exists>e x. exts s e = Some x \<and> in_fd x = fd")
  case True
  then obtain e x where e: "exts s e = Some x" "in_fd x = fd" by blast
  then have o: "in_owner s e = Some fd" using fd by (simp add: in_owner_iff)
  moreover have "\<forall>e'. in_owner s e' = Some fd \<longrightarrow> e' = e"
    using ext_invD(4) [OF I] e unfolding keys_ok_def by (metis in_owner_iff)
  ultimately have "fst (i_links s) (Head fd) = Some (Ext e)" "snd (i_links s) (Head fd) = Some (Ext e)"
    using rings_single [OF ext_invD(7) [OF I]] by blast+
  then show ?thesis using e fd by (auto simp: get_ext_connection_by_in_fd_def)
next
  case False
  then have none: "\<And>e. in_owner s e \<noteq> Some fd" by (auto simp: in_owner_iff)
  have "fst (i_links s) (Head fd) = None \<and> snd (i_links s) (Head fd) = None \<or>
    fst (i_links s) (Head fd) = Some (Head fd) \<and> snd (i_links s) (Head fd) = Some (Head fd)"
  proof (cases "fst (i_links s) (Head fd)")
    case None
    then show ?thesis using ext_invD(7) [OF I] by (auto simp: rings_def family_def dest: spec [of _ fd])
  next
    case (Some _)
    then show ?thesis using rings_empty_head [OF ext_invD(7) [OF I] none] by auto
  qed
  then have "get_ext_connection_by_in_fd fd s = Some None"
    using fd by (auto simp: get_ext_connection_by_in_fd_def)
  then show ?thesis using False by auto
qed

lemma hash_lookup_iff:
  assumes h: "hash_ok s" and k: "keys_ok s"
  shows "hash_lookup fd conn_id s = Some e \<longleftrightarrow> (\<exists>x. exts s e = Some x \<and> in_fd x = fd \<and> in_conn_id x = conn_id)"
proof
  assume "hash_lookup fd conn_id s = Some e"
  then show "\<exists>x. exts s e = Some x \<and> in_fd x = fd \<and> in_conn_id x = conn_id"
    by (auto simp: hash_lookup_def find_Some_iff split: option.splits)
next
  assume "\<exists>x. exts s e = Some x \<and> in_fd x = fd \<and> in_conn_id x = conn_id"
  then obtain x where x: "exts s e = Some x" "in_fd x = fd" "in_conn_id x = conn_id" by blast
  then have "e \<in> set (InExtConnectionHash s (ext_conn_hash fd conn_id))" using h by (auto simp: hash_ok_def)
  then have "hash_lookup fd conn_id s \<noteq> None" using x by (auto simp: hash_lookup_def find_None_iff)
  then obtain e' where e': "hash_lookup fd conn_id s = Some e'" by blast
  then obtain x' where "exts s e' = Some x'" "in_fd x' = fd" "in_conn_id x' = conn_id"
    by (auto simp: hash_lookup_def find_Some_iff split: option.splits)
  then have "e' = e" using k x unfolding keys_ok_def by metis
  then show "hash_lookup fd conn_id s = Some e" using e' by simp
qed

subsection \<open>Deletion\<close>

lemma track_inv_held:
  "track_inv s E \<Longrightarrow> held_key E' = held_key E \<Longrightarrow> held_client E' = held_client E \<Longrightarrow> track_inv s E'"
  by (simp add: track_inv_def)

lemma untrack_client_keeps_key:
  assumes "mtfront_untrack_secret_client (s, ex) = Some (s', ex')"
  shows "tracked_auth_key_id ex' = tracked_auth_key_id ex"
proof (cases "tracked_client_valid ex \<and> valid_secret (tracked_client_secret_id ex)")
  case True
  with assms show ?thesis
    by (cases "tab_decr secret_client_hash (tracked_client_secret_id ex, tracked_client_ipv6 ex) (SecretClientHash s)")
      (auto simp: mtfront_untrack_secret_client_def Let_def abort_simps split: option.split_asm if_split_asm)
next
  case False
  with assms show ?thesis by (auto simp: mtfront_untrack_secret_client_def Let_def split: if_split_asm)
qed

lemma untrack_both:
  assumes I: "track_inv s E"
  shows "\<exists>st s' ex. mtfront_untrack_secret_auth_key (s, E e) = Some st \<and>
    mtfront_untrack_secret_client st = Some (s', ex) \<and> track_inv s' (E(e := no_track))"
proof -
  obtain s1 ex1 where 1: "mtfront_untrack_secret_auth_key (s, E e) = Some (s1, ex1)" "track_inv s1 (E(e := ex1))"
    "held_key (E(e := ex1)) e = None"
    using untrack_key_inv [OF I] by blast
  obtain s2 ex2 where 2: "mtfront_untrack_secret_client (s1, ex1) = Some (s2, ex2)" "track_inv s2 (E(e := ex2))"
    "held_client (E(e := ex2)) e = None"
    using untrack_client_inv [OF 1(2), of e] by auto
  have "tracked_auth_key_id ex2 = 0"
    using untrack_client_keeps_key [OF 2(1)] 1(3) by (simp add: held_key_def split: if_splits)
  then have "held_key (E(e := no_track)) = held_key (E(e := ex2))"
    by (auto simp: held_key_def no_track_def fun_eq_iff)
  moreover have "held_client (E(e := no_track)) = held_client (E(e := ex2))"
    using 2(3) by (auto simp: held_client_def no_track_def fun_eq_iff split: if_splits)
  ultimately have "track_inv s2 (E(e := no_track))" using track_inv_held [OF 2(2)] by blast
  then show ?thesis using 1(1) 2(1) by blast
qed

lemma rings_unlink_any:
  assumes R: "rings l own"
  shows "\<exists>l'. unlink_node (Ext e) l = Some l' \<and> rings l' (own(e := None)) \<and>
    (\<forall>g. fst l' (Head g) = None \<longleftrightarrow> fst l (Head g) = None)"
proof (cases "own e")
  case None
  then have "own(e := None) = own" by auto
  then show ?thesis using rings_unlink_none [OF R None] R by auto
next
  case (Some fd)
  then show ?thesis using rings_unlink [OF R] by blast
qed

lemma lru_delete_ok:
  assumes "lru_ok s"
  shows "\<exists>l. lru_delete_ext_conn e s = Some (s\<lparr>lru_links := l\<rparr>) \<and>
    (\<exists>es. ring l ConnLRU (map Ext es) \<and> set es \<subseteq> dom (exts s) - {e} \<and> (\<forall>e. e \<notin> set es \<longrightarrow> fst l (Ext e) = None))"
proof -
  obtain es where es: "ring (lru_links s) ConnLRU (map Ext es)" "set es \<subseteq> dom (exts s)"
    "\<And>e. e \<notin> set es \<Longrightarrow> fst (lru_links s) (Ext e) = None"
    using assms by (auto simp: lru_ok_def)
  show ?thesis
  proof (cases "e \<in> set es")
    case True
    then obtain as bs where s: "es = as @ e # bs" by (meson split_list)
    obtain l where l: "unlink_node (Ext e) (lru_links s) = Some l" "ring l ConnLRU (map Ext (as @ bs))"
      "fst l (Ext e) = None" "snd l (Ext e) = None"
      "\<And>p. p \<notin> set (ConnLRU # map Ext es) \<Longrightarrow> fst l p = fst (lru_links s) p \<and> snd l p = snd (lru_links s) p"
      using ring_unlink [of "lru_links s" ConnLRU "map Ext as" "Ext e" "map Ext bs"] es(1) s by auto
    have "distinct es" using es(1) by (auto simp: ring_def distinct_map)
    have le: "((fst l)(Ext e := None), (snd l)(Ext e := None)) = l" using l(3,4) by (simp add: fun_upd_idem)
    have "fst l (Ext e') = None" if "e' \<notin> set (as @ bs)" for e'
      using that l(3) l(5) [of "Ext e'"] es(3) [of e'] s by (cases "e' = e") auto
    moreover have "set (as @ bs) \<subseteq> dom (exts s) - {e}" using es(2) s \<open>distinct es\<close> by auto
    moreover have "lru_delete_ext_conn e s = Some (s\<lparr>lru_links := l\<rparr>)"
      using l(1) le by (cases l) (simp add: lru_delete_ext_conn_def)
    ultimately show ?thesis using l(2) by blast
  next
    case False
    obtain nx pv where l: "lru_links s = (nx, pv)" by fastforce
    have "nx (Ext e) = None" using es(3) [OF False] l by simp
    then have u: "lru_delete_ext_conn e s = Some (s\<lparr>lru_links := (nx(Ext e := None), pv(Ext e := None))\<rparr>)"
      using l by (simp add: lru_delete_ext_conn_def unlink_node_def)
    have "ring (nx(Ext e := None), pv(Ext e := None)) ConnLRU (map Ext es)"
      by (rule ring_cong [OF es(1)]) (use l False in auto)
    moreover have "\<forall>e'. e' \<notin> set es \<longrightarrow> fst (nx(Ext e := None), pv(Ext e := None)) (Ext e') = None"
      using es(3) l by auto
    ultimately show ?thesis using u es(2) False by blast
  qed
qed

text \<open>Deletion of an object that exists succeeds, removes it and nothing else, and keeps the invariant.\<close>

lemma delete_ext_inv:
  assumes I: "ext_inv s" and x: "exts s e = Some x"
  shows "\<exists>s'. delete_ext e (in_fd x) (in_conn_id x) s = Some s' \<and> ext_inv s' \<and> exts s' = (exts s)(e := None) \<and>
    ext_connections_created s' = ext_connections_created s \<and>
    (\<forall>h. snd (OutExtConnections s' h) = snd (OutExtConnections s h)) \<and>
    unlink_node (Ext e) (i_links s) = Some (i_links s') \<and> unlink_node (Ext e) (o_links s) = Some (o_links s') \<and>
    (\<forall>g. fst (i_links s') (Head g) = None \<longleftrightarrow> fst (i_links s) (Head g) = None) \<and>
    (\<forall>g. fst (o_links s') (Head g) = None \<longleftrightarrow> fst (o_links s) (Head g) = None)"
proof -
  note inv = ext_invD [OF I]
  obtain st t tr where u: "mtfront_untrack_secret_auth_key (secret_stats s, tracked x) = Some st"
    "mtfront_untrack_secret_client st = Some (t, tr)" "track_inv t ((trackers s)(e := no_track))"
    using untrack_both [OF inv(9), of e] x by (auto simp: trackers_def)
  obtain il where il: "unlink_node (Ext e) (i_links s) = Some il" "rings il ((in_owner s)(e := None))"
    "\<forall>g. fst il (Head g) = None \<longleftrightarrow> fst (i_links s) (Head g) = None"
    using rings_unlink_any [OF inv(7)] by blast
  obtain ol where ol: "unlink_node (Ext e) (o_links s) = Some ol" "rings ol ((out_owner s)(e := None))"
    "\<forall>g. fst ol (Head g) = None \<longleftrightarrow> fst (o_links s) (Head g) = None"
    using rings_unlink_any [OF inv(8)] by blast
  define s1 where "s1 = s\<lparr>exts := (exts s)(e \<mapsto> x\<lparr>tracked := tr\<rparr>), secret_stats := t\<rparr>\<lparr>i_links := il, o_links := ol\<rparr>"
  have dom1: "dom (exts s1) = dom (exts s)" using x by (auto simp: s1_def)
  have "lru_ok s1" using inv(6) dom1 unfolding lru_ok_def by (simp add: s1_def)
  then obtain l es where l: "lru_delete_ext_conn e s1 = Some (s1\<lparr>lru_links := l\<rparr>)" "ring l ConnLRU (map Ext es)"
    "set es \<subseteq> dom (exts s1) - {e}" "\<forall>e. e \<notin> set es \<longrightarrow> fst l (Ext e) = None"
    using lru_delete_ok by blast
  define ch where "ch = ext_conn_hash (in_fd x) (in_conn_id x)"
  define h where "h = out_slot (out_conn_id x)"
  have out: "OutExtConnections s h = (Some e, out_conn_id x)" using out_okD1 [OF inv(5) x] by (simp add: h_def)
  define s' where "s' = s\<lparr>secret_stats := t, i_links := il, o_links := ol, lru_links := l,
    InExtConnectionHash := (InExtConnectionHash s)(ch := remove1 e (InExtConnectionHash s ch)),
    OutExtConnections := (OutExtConnections s)(h := (None, out_conn_id x)), exts := (exts s)(e := None),
    ext_connections := ext_connections s - 1\<rparr>"
  have "delete_ext e (in_fd x) (in_conn_id x) s = Some s'"
    using x u(1,2) il(1) ol(1) l(1) out
    by (simp add: delete_ext_def untrack_ext_def s1_def s'_def ch_def h_def Let_def)
  moreover have "ext_inv s'"
    unfolding ext_inv_def
  proof (intro conjI)
    have ex: "exts s' = (exts s)(e := None)" by (simp add: s'_def)
    show "finite (dom (exts s'))" using inv(1) by (simp add: ex)
    have "0 < card (dom (exts s))" using inv(1) x by (auto simp: card_gt_0_iff)
    then show "ext_connections s' = int (card (dom (exts s')))"
      using inv(1,2) x by (simp add: s'_def domI of_nat_diff)
    show "hash_ok s'"
      using inv(3) x unfolding hash_ok_def ex by (auto simp: s'_def ch_def)
    show "keys_ok s'"
      using inv(4) unfolding keys_ok_def ex by (auto split: if_split_asm)
    show "lru_ok s'" unfolding lru_ok_def using l(2-4) dom1 by (auto simp: s'_def)
    have "in_owner s' = (in_owner s)(e := None)" "out_owner s' = (out_owner s)(e := None)"
      "trackers s' = (trackers s)(e := no_track)"
      by (auto simp: in_owner_def out_owner_def trackers_def ex fun_eq_iff)
    then show "rings (i_links s') (in_owner s')" "rings (o_links s') (out_owner s')"
      "track_inv (secret_stats s') (trackers s')"
      using il(2) ol(2) u(3) by (simp_all add: s'_def)
    have snd_out: "snd (OutExtConnections s' h') = snd (OutExtConnections s h')" for h'
      using out by (simp add: s'_def)
    show "out_ok s'"
      unfolding out_ok_def
    proof (intro conjI allI impI)
      fix e' x' assume "exts s' e' = Some x'"
      then have e': "e' \<noteq> e" "exts s e' = Some x'" by (auto simp: ex split: if_split_asm)
      then have "out_slot (out_conn_id x') \<noteq> h" using out_okD1 [OF inv(5) e'(2)] out by auto
      then show "out_conn_id x' \<noteq> 0" "OutExtConnections s' (out_slot (out_conn_id x')) = (Some e', out_conn_id x')"
        using out_okD1 [OF inv(5) e'(2)] by (simp_all add: s'_def)
    next
      fix h' e' assume h': "fst (OutExtConnections s' h') = Some e'"
      then have "h' \<noteq> h" "fst (OutExtConnections s h') = Some e'" by (auto simp: s'_def split: if_split_asm)
      then obtain x' where x': "exts s e' = Some x'" "out_slot (out_conn_id x') = h'"
        using out_okD2 [OF inv(5)] by blast
      moreover have "e' \<noteq> e" using x x' \<open>h' \<noteq> h\<close> by (auto simp: h_def)
      ultimately show "\<exists>x. exts s' e' = Some x \<and> out_slot (out_conn_id x) = h'" by (simp add: ex)
    next
      show "0 \<le> ext_connections_created s'" using inv(5) by (simp add: out_ok_def s'_def)
      show "int (unat (snd (OutExtConnections s' h'))) < 2 ^ 22 * (ext_connections_created s' + 1)" for h'
        unfolding snd_out using inv(5) by (simp add: out_ok_def s'_def)
    qed
  qed
  ultimately show ?thesis using il(1,3) ol(1,3) out by (auto simp: s'_def)
qed

text \<open>Removal of an object: what is sent, and what it does to the table.\<close>

lemma remove_ext_connection_inv:
  assumes I: "ext_inv s" and x: "exts s e = Some x" and n: "odd (n div 2) \<longrightarrow> in_fd x = 0 \<or> in_conn_id x = 0"
  shows "\<exists>s'. remove_ext_connection alive e n s = Some
      ((if out_fd x \<noteq> 0 \<and> odd n \<and> alive (out_fd x) (out_gen x)
        then [NotifyRemoteClosed (out_fd x) (out_gen x) (out_conn_id x)] else []) @
       (if in_fd x \<noteq> 0 \<and> odd (n div 2) \<and> alive (in_fd x) (in_gen x)
        then [FailConnection (in_fd x) (in_gen x) (-33)] else []), s') \<and>
    ext_inv s' \<and> exts s' = (exts s)(e := None) \<and> ext_connections_created s' = ext_connections_created s \<and>
    (\<forall>h. snd (OutExtConnections s' h) = snd (OutExtConnections s h)) \<and>
    unlink_node (Ext e) (i_links s) = Some (i_links s') \<and> unlink_node (Ext e) (o_links s) = Some (o_links s') \<and>
    (\<forall>g. fst (i_links s') (Head g) = None \<longleftrightarrow> fst (i_links s) (Head g) = None) \<and>
    (\<forall>g. fst (o_links s') (Head g) = None \<longleftrightarrow> fst (o_links s) (Head g) = None)"
proof -
  note inv = ext_invD [OF I]
  obtain s' where s': "delete_ext e (in_fd x) (in_conn_id x) s = Some s'" "ext_inv s' \<and> exts s' = (exts s)(e := None) \<and>
    ext_connections_created s' = ext_connections_created s \<and>
    (\<forall>h. snd (OutExtConnections s' h) = snd (OutExtConnections s h)) \<and>
    unlink_node (Ext e) (i_links s) = Some (i_links s') \<and> unlink_node (Ext e) (o_links s) = Some (o_links s') \<and>
    (\<forall>g. fst (i_links s') (Head g) = None \<longleftrightarrow> fst (i_links s) (Head g) = None) \<and>
    (\<forall>g. fst (o_links s') (Head g) = None \<longleftrightarrow> fst (o_links s) (Head g) = None)"
    using delete_ext_inv [OF I x] by blast
  have nz: "out_conn_id x \<noteq> 0" using out_okD1 [OF inv(5) x] by simp
  have f: "find_ext_connection_by_out_conn_id (out_conn_id x) s = Some (Some e)"
    using find_out [OF inv(5), of "out_conn_id x" "Some e"] x by simp
  have hl: "hash_lookup (in_fd x) (in_conn_id x) s = Some e"
    using hash_lookup_iff [OF inv(3,4)] x by simp
  have v: "valid_fd (in_fd x)" "valid_fd (out_fd x)" using inv(4) x unfolding keys_ok_def by blast+
  have "in_fd x \<noteq> 0 \<Longrightarrow> fst (i_links s) (Ext e) \<noteq> None"
    using rings_linked [OF inv(7), of e] x by (simp add: in_owner_def)
  moreover have "out_fd x \<noteq> 0 \<Longrightarrow> fst (o_links s) (Ext e) \<noteq> None"
    using rings_linked [OF inv(8), of e] x by (simp add: out_owner_def)
  moreover have "get_ext_connection_by_in_conn_id 0 [] (in_fd x) (in_gen x) (in_conn_id x) 1 s = Some (Deleted, s')"
    using x hl nz s'(1) by (simp add: get_ext_connection_by_in_conn_id_def)
  ultimately have "remove_ext_connection alive e n s = Some
      ((if out_fd x \<noteq> 0 \<and> odd n \<and> alive (out_fd x) (out_gen x)
        then [NotifyRemoteClosed (out_fd x) (out_gen x) (out_conn_id x)] else []) @
       (if in_fd x \<noteq> 0 \<and> odd (n div 2) \<and> alive (in_fd x) (in_gen x)
        then [FailConnection (in_fd x) (in_gen x) (-33)] else []), s')"
    using x nz f v n by (auto simp: remove_ext_connection_def)
  then show ?thesis using s'(2) by blast
qed

subsection \<open>Creation\<close>

lemma find_out_slot_iff:
  "find_out_slot out h rnd \<noteq> None \<longleftrightarrow> (\<exists>r\<in>set (h # rnd). fst (out (out_slot r)) = None)"
proof (induction rnd arbitrary: h)
  case Nil
  show ?case by (subst find_out_slot.simps) auto
next
  case (Cons r rnd)
  show ?case by (subst find_out_slot.simps) (use Cons in auto)
qed

lemma find_out_slot_free: "find_out_slot out h rnd = Some k \<Longrightarrow> k < 2 ^ 22 \<and> fst (out k) = None"
proof (induction rnd arbitrary: h)
  case Nil
  then show ?case by (subst (asm) find_out_slot.simps) (auto split: if_split_asm)
next
  case (Cons r rnd)
  then show ?case by (subst (asm) find_out_slot.simps) (auto split: if_split_asm)
qed

lemma draw_slot_free: "draw_slot out fd conn_id rnd = Some k \<Longrightarrow> k < 2 ^ 22 \<and> fst (out k) = None"
  using find_out_slot_free by (auto simp: draw_slot_def split: if_split_asm list.split_asm)

text \<open>A connection may be created for a client that has none.\<close>

definition can_insert :: "nat \<Rightarrow> u64 list \<Rightarrow> int \<Rightarrow> u64 \<Rightarrow> ext_table \<Rightarrow> bool" where
  "can_insert new rnd fd conn_id s \<longleftrightarrow> valid_fd fd \<and> exts s new = None \<and>
     (\<forall>e x. exts s e = Some x \<longrightarrow> in_fd x \<noteq> fd \<or> (fd = 0 \<and> in_conn_id x \<noteq> conn_id)) \<and>
     ext_connections s < 2 ^ 21 \<and> ext_connections_created s < 2 ^ 40 \<and>
     draw_slot (OutExtConnections s) fd conn_id rnd \<noteq> None"

lemma next_id:
  assumes o: "out_ok s" and c: "ext_connections_created s < 2 ^ 40" and h: "h < 2 ^ 22"
  defines "cid \<equiv> next_out_conn_id (snd (OutExtConnections s h)) h"
  shows "out_slot cid = h" "unat (snd (OutExtConnections s h)) < unat cid" "cid \<noteq> 0"
    "int (unat cid) < 2 ^ 22 * (ext_connections_created s + 2)"
proof -
  let ?n = "unat (snd (OutExtConnections s h))"
  define c' where "c' = nat (ext_connections_created s + 1)"
  have ci: "int c' = ext_connections_created s + 1" and b: "int ?n < 2 ^ 22 * (ext_connections_created s + 1)"
    using o unfolding out_ok_def c'_def by auto
  have "int ?n < int (2 ^ 22 * c')" using b ci by simp
  then have lt: "?n < 2 ^ 22 * c'" by (simp only: of_nat_less_iff)
  have "c' \<le> 2 ^ 40" using ci c by simp
  then have "2 ^ 22 * (c' + 1) \<le> (2 :: nat) ^ 63" by simp
  then have u: "unat cid = (?n div 2 ^ 22 + 1) * 2 ^ 22 + h"
    unfolding cid_def using unat_next_out_conn_id [OF h lt] by simp
  have "((q + 1) * 2 ^ 22 + h) mod 2 ^ 22 = h" for q
    using h mod_mult_self3 [of "q + 1" "2 ^ 22" h] by simp
  then show "out_slot cid = h" unfolding out_slot_eq u .
  have "?n < (?n div 2 ^ 22 + 1) * 2 ^ 22" using dividend_less_div_times [of "2 ^ 22" ?n] by simp
  then show l: "?n < unat cid" unfolding u by simp
  then show "cid \<noteq> 0" by auto
  have "?n div 2 ^ 22 < c'" using lt by (simp add: less_mult_imp_div_less mult.commute)
  then have "unat cid < 2 ^ 22 * (c' + 1)" unfolding u using h by simp
  then have "int (unat cid) < int (2 ^ 22 * (c' + 1))" by (simp only: of_nat_less_iff)
  then show "int (unat cid) < 2 ^ 22 * (ext_connections_created s + 2)" using ci by (simp add: algebra_simps)
qed

lemma insert_ext_inv:
  assumes I: "ext_inv s" and can: "can_insert new rnd fd conn_id s"
  obtains h cid s' where "draw_slot (OutExtConnections s) fd conn_id rnd = Some h"
    "cid = next_out_conn_id (snd (OutExtConnections s h)) h"
    "insert_ext new rnd fd gen conn_id s = Some s'" "ext_inv s'"
    "exts s' = (exts s)(new \<mapsto> calloc_ext\<lparr>in_fd := fd, in_gen := gen, in_conn_id := conn_id, out_conn_id := cid\<rparr>)"
    "ext_connections_created s' = ext_connections_created s + 1" "o_links s' = o_links s"
    "OutExtConnections s' = (OutExtConnections s)(h := (Some new, cid))"
proof -
  note inv = ext_invD [OF I]
  have c: "valid_fd fd" "exts s new = None" "\<And>e x. exts s e = Some x \<Longrightarrow> in_fd x \<noteq> fd \<or> (fd = 0 \<and> in_conn_id x \<noteq> conn_id)"
    "ext_connections s < 2 ^ 21" "ext_connections_created s < 2 ^ 40"
    using can unfolding can_insert_def by blast+
  obtain h where h: "draw_slot (OutExtConnections s) fd conn_id rnd = Some h" using can by (auto simp: can_insert_def)
  then have hf: "h < 2 ^ 22" "fst (OutExtConnections s h) = None" using draw_slot_free by blast+
  define cid where "cid = next_out_conn_id (snd (OutExtConnections s h)) h"
  note cid = next_id [OF inv(5) c(5) hf(1), folded cid_def]
  have none: "in_owner s e \<noteq> Some fd" for e using c(3) by (auto simp: in_owner_iff)
  have nown: "in_owner s new = None" "out_owner s new = None" using c(2) by (simp_all add: in_owner_def out_owner_def)
  obtain il where il: "link_in new fd (i_links s) = Some il"
    "rings il ((in_owner s)(new := (if fd = 0 then None else Some fd)))"
  proof (cases "fd = 0")
    case True
    then show thesis using inv(7) nown(1) by (intro that [of "i_links s"]) (simp_all add: link_in_def fun_upd_idem)
  next
    case False
    obtain nx pv where l: "i_links s = (nx, pv)" by fastforce
    define l1 where "l1 = (if nx (Head fd) = None then (nx(Head fd \<mapsto> Head fd), pv(Head fd \<mapsto> Head fd)) else (nx, pv))"
    have r1: "rings l1 (in_owner s)"
      using inv(7) rings_open [of nx pv "in_owner s" fd] l by (simp add: l1_def)
    have nz: "fst l1 (Head fd) \<noteq> None" by (simp add: l1_def)
    have hd: "fst l1 (Head fd) = Some (Head fd)" using rings_empty_head(1) [OF r1 none nz] .
    obtain l2 where "link_node (Ext new) (Head fd) l1 = Some l2" "rings l2 ((in_owner s)(new \<mapsto> fd))"
      using rings_link [OF r1 nown(1) nz] by blast
    moreover from this have "link_in new fd (i_links s) = Some l2"
      using hd False unfolding link_in_def l by (simp add: l1_def [symmetric])
    ultimately show thesis using False by (intro that [of l2]) simp_all
  qed
  define ch where "ch = ext_conn_hash fd conn_id"
  define x where "x = calloc_ext\<lparr>in_fd := fd, in_gen := gen, in_conn_id := conn_id, out_conn_id := cid\<rparr>"
  define s' where "s' = s\<lparr>InExtConnectionHash := (InExtConnectionHash s)(ch := new # InExtConnectionHash s ch),
    i_links := il, OutExtConnections := (OutExtConnections s)(h := (Some new, cid)), exts := (exts s)(new \<mapsto> x),
    ext_connections := ext_connections s + 1, ext_connections_created := ext_connections_created s + 1\<rparr>"
  have "insert_ext new rnd fd gen conn_id s = Some s'"
  proof -
    have "ext_connections s < int (EXT_CONN_TABLE_SIZE div 2)" using c(4) by (simp add: EXT_CONN_TABLE_SIZE_def)
    then show ?thesis
      by (simp add: insert_ext_def c(1) h cid(3) il(1) Let_def cid_def [symmetric] s'_def x_def ch_def)
  qed
  moreover have "ext_inv s'"
    unfolding ext_inv_def
  proof (intro conjI)
    have ex: "exts s' = (exts s)(new \<mapsto> x)" by (simp add: s'_def)
    have xf: "in_fd x = fd" "in_conn_id x = conn_id" "out_conn_id x = cid" "out_fd x = 0" "tracked x = no_track"
      by (simp_all add: x_def calloc_ext_def)
    show "finite (dom (exts s'))" using inv(1) by (simp add: ex)
    show "ext_connections s' = int (card (dom (exts s')))"
      using inv(1,2) c(2) by (simp add: s'_def domIff)
    show "hash_ok s'"
      using inv(3) c(2) xf(1,2) unfolding hash_ok_def ex by (auto simp: s'_def ch_def)
    have old: "exts s e = Some y \<Longrightarrow> \<not> (in_fd y = fd \<and> (in_conn_id y = conn_id \<or> fd \<noteq> 0))" for e y
      using c(3) [of e y] by auto
    show "keys_ok s'"
      unfolding keys_ok_def
    proof (intro conjI allI impI)
      fix e e' y y'
      assume a: "exts s' e = Some y \<and> exts s' e' = Some y' \<and> in_fd y = in_fd y' \<and> (in_conn_id y = in_conn_id y' \<or> in_fd y \<noteq> 0)"
      show "e = e'"
      proof (cases "e = new \<or> e' = new")
        case True
        then show ?thesis using a old [of e y] old [of e' y'] xf(1,2) by (auto simp: ex split: if_split_asm)
      next
        case False
        then show ?thesis using a inv(4) unfolding keys_ok_def ex by auto
      qed
    next
      fix e y assume "exts s' e = Some y"
      then show "valid_fd (in_fd y)" "valid_fd (out_fd y)"
        using inv(4) c(1) xf(1,4) unfolding keys_ok_def ex
        by (auto simp: valid_fd_def MAX_CONNECTIONS_def split: if_split_asm)
    qed
    obtain es where es: "ring (lru_links s) ConnLRU (map Ext es)" "set es \<subseteq> dom (exts s)"
      "\<forall>e. e \<notin> set es \<longrightarrow> fst (lru_links s) (Ext e) = None"
      using inv(6) by (auto simp: lru_ok_def)
    then have "set es \<subseteq> dom (exts s')" by (auto simp: ex)
    then show "lru_ok s'" unfolding lru_ok_def using es by (auto simp: s'_def)
    have "in_owner s' = (in_owner s)(new := (if fd = 0 then None else Some fd))" "out_owner s' = out_owner s"
      "trackers s' = trackers s"
      using xf c(2) by (auto simp: in_owner_def out_owner_def trackers_def ex fun_eq_iff)
    then show "rings (i_links s') (in_owner s')" "rings (o_links s') (out_owner s')"
      "track_inv (secret_stats s') (trackers s')"
      using il(2) inv(8,9) by (simp_all add: s'_def)
    show "out_ok s'"
      unfolding out_ok_def
    proof (intro conjI allI impI)
      fix e' x' assume e': "exts s' e' = Some x'"
      have "out_conn_id x' \<noteq> 0 \<and> OutExtConnections s' (out_slot (out_conn_id x')) = (Some e', out_conn_id x')"
      proof (cases "e' = new")
        case True
        then show ?thesis using e' cid(1,3) xf(3) by (simp add: ex s'_def)
      next
        case False
        then have old: "exts s e' = Some x'" using e' by (simp add: ex)
        then have "out_slot (out_conn_id x') \<noteq> h" using out_okD1 [OF inv(5) old] hf(2) by auto
        then show ?thesis using out_okD1 [OF inv(5) old] by (simp add: s'_def)
      qed
      then show "out_conn_id x' \<noteq> 0" "OutExtConnections s' (out_slot (out_conn_id x')) = (Some e', out_conn_id x')"
        by simp_all
    next
      fix h' e' assume h': "fst (OutExtConnections s' h') = Some e'"
      show "\<exists>x. exts s' e' = Some x \<and> out_slot (out_conn_id x) = h'"
      proof (cases "h' = h")
        case True
        then show ?thesis using h' cid(1) xf(3) by (simp add: ex s'_def)
      next
        case False
        then have "fst (OutExtConnections s h') = Some e'" using h' by (simp add: s'_def)
        then obtain x' where "exts s e' = Some x'" "out_slot (out_conn_id x') = h'"
          using out_okD2 [OF inv(5)] by blast
        moreover from this have "e' \<noteq> new" using c(2) by auto
        ultimately show ?thesis by (simp add: ex)
      qed
    next
      show "0 \<le> ext_connections_created s'" using inv(5) by (simp add: out_ok_def s'_def)
      have "int (unat (snd (OutExtConnections s h'))) < 2 ^ 22 * (ext_connections_created s + 1)" for h'
        using inv(5) unfolding out_ok_def by blast
      moreover have "2 ^ 22 * (ext_connections_created s + 1) \<le> 2 ^ 22 * (ext_connections_created s + 2)" by simp
      ultimately have "int (unat (snd (OutExtConnections s h'))) < 2 ^ 22 * (ext_connections_created s + 2)" for h'
        by (meson less_le_trans)
      then show "int (unat (snd (OutExtConnections s' h'))) < 2 ^ 22 * (ext_connections_created s' + 1)" for h'
        using cid(4) by (simp add: s'_def algebra_simps)
    qed
  qed
  ultimately show thesis using h by (intro that [of h cid s']) (simp_all add: cid_def s'_def x_def)
qed

end
