(* ===== verification/ProxyConn.thy ===== *)
theory ProxyConn
  imports ExtConn
begin

text \<open>
  The life of connections in \<^verbatim>\<open>mtproto/mtproto-proxy.c\<close> as the table of external connections sees it: a
  connection to a middle proxy becomes ready and closes, a client's connection closes, packets bind a
  client to a middle proxy, and connections are failed when memory is short.

  A connection is given by its descriptor, its generation and the tag \<^verbatim>\<open>extra_int\<close> of its RPC data.
  \<open>alive fd gen\<close> tells whether \<^verbatim>\<open>connection_get_by_fd_generation\<close> finds the connection.
\<close>

record rpc_conn =
  conn_fd :: int
  conn_generation :: int
  conn_extra_int :: int

definition get_conn_tag :: "rpc_conn \<Rightarrow> int" where
  "get_conn_tag C = 1 + (conn_generation C AND 0xffffff)"

section \<open>Middle proxies\<close>

definition mtfront_client_ready :: "rpc_conn \<Rightarrow> ext_table \<Rightarrow> (rpc_conn \<times> ext_table) option" where
  "mtfront_client_ready C s = do {
     let fd = conn_fd C;
     cassert (valid_fd fd);
     cassert (conn_extra_int C = 0);
     let C = C\<lparr>conn_extra_int := get_conn_tag C\<rparr>;
     let (nx, pv) = o_links s;
     cassert (pv (Head fd) = None);
     Some (C, s\<lparr>o_links := (nx(Head fd \<mapsto> Head fd), pv(Head fd \<mapsto> Head fd))\<rparr>) }"

text \<open>
  The loop over the clients of a middle proxy. The first argument bounds the number of iterations;
  \<open>None\<close> is also the result when the bound is reached, and \<open>close_out_loop_ok\<close> shows that one more than the
  number of objects is enough.
\<close>

fun close_out_loop ::
  "nat \<Rightarrow> (int \<Rightarrow> int \<Rightarrow> bool) \<Rightarrow> int \<Rightarrow> node \<Rightarrow> ext_table \<Rightarrow> (ext_action list \<times> ext_table) option" where
  "close_out_loop 0 alive fd p s = None"
| "close_out_loop (Suc n) alive fd p s =
     (if p = Head fd then Some ([], s)
      else case p of
        Ext e \<Rightarrow> do {
          Ex_next \<leftarrow> fst (o_links s) p;
          x \<leftarrow> exts s e;
          cassert (out_fd x = fd);
          (a, s) \<leftarrow> remove_ext_connection alive e 2 s;
          (b, s) \<leftarrow> close_out_loop n alive fd Ex_next s;
          Some (a @ b, s) }
      | _ \<Rightarrow> None)"

definition mtfront_client_close ::
  "(int \<Rightarrow> int \<Rightarrow> bool) \<Rightarrow> rpc_conn \<Rightarrow> ext_table \<Rightarrow> (ext_action list \<times> rpc_conn \<times> ext_table) option" where
  "mtfront_client_close alive C s = do {
     let fd = conn_fd C;
     cassert (valid_fd fd);
     (a, s) \<leftarrow> (if conn_extra_int C \<noteq> 0 then do {
         cassert (conn_extra_int C = get_conn_tag C);
         first \<leftarrow> fst (o_links s) (Head fd);
         (a, s) \<leftarrow> close_out_loop (Suc (nat (ext_connections s))) alive fd first s;
         let (nx, pv) = o_links s;
         cassert (nx (Head fd) = Some (Head fd) \<and> pv (Head fd) = Some (Head fd));
         Some (a, s\<lparr>o_links := (nx(Head fd := None), pv(Head fd := None))\<rparr>) }
       else Some ([], s));
     Some (a, C\<lparr>conn_extra_int := 0\<rparr>, s) }"

section \<open>Clients\<close>

text \<open>The part of \<open>mtproto_ext_rpc_close\<close> and the callback \<open>do_close_in_ext_conn\<close> that drop the object of a client.\<close>

definition do_close_in_ext_conn ::
  "(int \<Rightarrow> int \<Rightarrow> bool) \<Rightarrow> int \<Rightarrow> ext_table \<Rightarrow> (ext_action list \<times> ext_table) option" where
  "do_close_in_ext_conn alive fd s = do {
     Ex \<leftarrow> get_ext_connection_by_in_fd fd s;
     case Ex of
       None \<Rightarrow> Some ([], s)
     | Some e \<Rightarrow> remove_ext_connection alive e 1 s }"

definition lru_delete_conn :: "rpc_conn \<Rightarrow> ext_table \<Rightarrow> ext_table option" where
  "lru_delete_conn C s = do {
     Ex \<leftarrow> get_ext_connection_by_in_fd (conn_fd C) s;
     case Ex of
       None \<Rightarrow> Some s
     | Some e \<Rightarrow> do {
         x \<leftarrow> exts s e;
         if in_fd x = conn_fd C then lru_delete_ext_conn e s else Some s } }"

definition lru_insert_conn :: "rpc_conn \<Rightarrow> ext_table \<Rightarrow> ext_table option" where
  "lru_insert_conn C s = do {
     Ex \<leftarrow> get_ext_connection_by_in_fd (conn_fd C) s;
     case Ex of
       None \<Rightarrow> Some s
     | Some e \<Rightarrow> do {
         x \<leftarrow> exts s e;
         if in_fd x = conn_fd C \<and> in_gen x = conn_generation C then lru_insert_ext_conn e s else Some s } }"

text \<open>
  \<open>check_all_conn_buffers\<close>: \<open>used fd gen\<close> is the sum of the buffer sizes of that connection, \<open>None\<close> if it is
  not found, and twice this sum is computed in 32 bits. The result is the connections failed, in order, the state and the increment of
  \<^verbatim>\<open>connections_failed_lru\<close>.
\<close>

definition int32 :: "int \<Rightarrow> int" where
  "int32 i = sint (word_of_int i :: u32)"

fun free_buffers_loop ::
  "nat \<Rightarrow> (int \<Rightarrow> int \<Rightarrow> int option) \<Rightarrow> int \<Rightarrow> ext_table \<Rightarrow> (ext_action list \<times> ext_table \<times> nat) option" where
  "free_buffers_loop 0 used to_free s = None"
| "free_buffers_loop (Suc n) used to_free s = do {
     p \<leftarrow> fst (lru_links s) ConnLRU;
     if to_free > 0 \<and> p \<noteq> ConnLRU then
       case p of
         Ext e \<Rightarrow> do {
           x \<leftarrow> exts s e;
           let (a, to_free) = (case used (in_fd x) (in_gen x) of
               None \<Rightarrow> ([], to_free)
             | Some tot_used_bytes \<Rightarrow> ([FailConnection (in_fd x) (in_gen x) (-500)], to_free - int32 (tot_used_bytes * 2)));
           s \<leftarrow> lru_delete_ext_conn e s;
           (b, s, k) \<leftarrow> free_buffers_loop n used to_free s;
           Some (a @ b, s, k + 1) }
       | _ \<Rightarrow> None
     else Some ([], s, 0) }"

definition MSG_BUFFERS_CHUNK_SIZE :: int where
  "MSG_BUFFERS_CHUNK_SIZE = 2 ^ 21 - 64"

definition check_all_conn_buffers ::
  "(int \<Rightarrow> int \<Rightarrow> int option) \<Rightarrow> int \<Rightarrow> int \<Rightarrow> ext_table \<Rightarrow> (ext_action list \<times> ext_table \<times> nat) option" where
  "check_all_conn_buffers used total_used_buffers_size max_buffer_chunks s =
     (let max_buffer_memory = max_buffer_chunks * MSG_BUFFERS_CHUNK_SIZE;
          to_free = total_used_buffers_size - max_buffer_memory * 3 div 4
      in free_buffers_loop (Suc (nat (ext_connections s))) used to_free s)"

definition MAX_CONNECTION_BUFFER_SPACE :: int where
  "MAX_CONNECTION_BUFFER_SPACE = 2 ^ 25"

text \<open>\<open>check_conn_buffers\<close>: the connection to fail, if any, and the result.\<close>

definition check_conn_buffers :: "rpc_conn \<Rightarrow> int \<Rightarrow> ext_action list \<times> int" where
  "check_conn_buffers C tot_used_bytes =
     (if tot_used_bytes > MAX_CONNECTION_BUFFER_SPACE
      then ([FailConnection (conn_fd C) (conn_generation C) (-429)], -1) else ([], 0))"

text \<open>
  What \<open>forward_tcp_query\<close> does to the object of a client: it stores the key of the packet, and counts
  the object under the secret of the connection.
\<close>

definition store_auth_key :: "nat \<Rightarrow> u64 \<Rightarrow> ext_table \<Rightarrow> ext_table option" where
  "store_auth_key e key s = do {
     x \<leftarrow> exts s e;
     if key \<noteq> 0 \<and> auth_key_id x \<noteq> key then Some (s\<lparr>exts := (exts s)(e \<mapsto> x\<lparr>auth_key_id := key\<rparr>)\<rparr>) else Some s }"

definition track_ext :: "nat \<Rightarrow> int \<Rightarrow> bytes \<Rightarrow> ext_table \<Rightarrow> ext_table option" where
  "track_ext e secret_id client_ipv6 s = do {
     x \<leftarrow> exts s e;
     st \<leftarrow> mtfront_track_secret_auth_key secret_id (auth_key_id x) (secret_stats s, tracked x);
     (t, tr) \<leftarrow> mtfront_track_secret_client client_ipv6 secret_id st;
     Some (s\<lparr>exts := (exts s)(e \<mapsto> x\<lparr>tracked := tr\<rparr>), secret_stats := t\<rparr>) }"

section \<open>Every operation keeps the table consistent\<close>

text \<open>
  The proxy binds every object to a client (with no connection number of its own) and to a middle
  proxy.
\<close>

definition proxy_inv :: "ext_table \<Rightarrow> bool" where
  "proxy_inv s \<longleftrightarrow> ext_inv s \<and>
     (\<forall>e x. exts s e = Some x \<longrightarrow> in_fd x \<noteq> 0 \<and> in_conn_id x = 0 \<and> out_fd x \<noteq> 0)"

lemma proxy_invD:
  assumes "proxy_inv s"
  shows "ext_inv s" "exts s e = Some x \<Longrightarrow> in_fd x \<noteq> 0 \<and> in_conn_id x = 0 \<and> out_fd x \<noteq> 0"
  using assms by (auto simp: proxy_inv_def)

lemma ext_empty_proxy_inv: "proxy_inv ext_empty"
  by (simp add: proxy_inv_def ext_empty_inv) (simp add: ext_empty_def)

text \<open>The list fields are read by their own part of the invariant only.\<close>

lemma o_links_views [simp]:
  "in_owner (s\<lparr>o_links := l\<rparr>) = in_owner s" "out_owner (s\<lparr>o_links := l\<rparr>) = out_owner s"
  "trackers (s\<lparr>o_links := l\<rparr>) = trackers s" "hash_ok (s\<lparr>o_links := l\<rparr>) = hash_ok s"
  "keys_ok (s\<lparr>o_links := l\<rparr>) = keys_ok s" "out_ok (s\<lparr>o_links := l\<rparr>) = out_ok s" "lru_ok (s\<lparr>o_links := l\<rparr>) = lru_ok s"
  by (simp_all add: in_owner_def out_owner_def trackers_def hash_ok_def keys_ok_def out_ok_def lru_ok_def fun_eq_iff)

lemma lru_links_views [simp]:
  "in_owner (s\<lparr>lru_links := l\<rparr>) = in_owner s" "out_owner (s\<lparr>lru_links := l\<rparr>) = out_owner s"
  "trackers (s\<lparr>lru_links := l\<rparr>) = trackers s" "hash_ok (s\<lparr>lru_links := l\<rparr>) = hash_ok s"
  "keys_ok (s\<lparr>lru_links := l\<rparr>) = keys_ok s" "out_ok (s\<lparr>lru_links := l\<rparr>) = out_ok s"
  by (simp_all add: in_owner_def out_owner_def trackers_def hash_ok_def keys_ok_def out_ok_def fun_eq_iff)

text \<open>What stays of a table when objects are only removed.\<close>

definition shrunk :: "(nat \<Rightarrow> bool) \<Rightarrow> ext_table \<Rightarrow> ext_table \<Rightarrow> bool" where
  "shrunk keep s s' \<longleftrightarrow> exts s' = (\<lambda>e. if keep e then exts s e else None) \<and>
     ext_connections_created s' = ext_connections_created s \<and>
     (\<forall>h. snd (OutExtConnections s' h) = snd (OutExtConnections s h)) \<and>
     (\<forall>g. fst (o_links s') (Head g) = None \<longleftrightarrow> fst (o_links s) (Head g) = None)"

lemma shrunk_proxy_inv: "shrunk keep s s' \<Longrightarrow> ext_inv s' \<Longrightarrow> proxy_inv s \<Longrightarrow> proxy_inv s'"
  by (auto simp: shrunk_def proxy_inv_def split: if_split_asm)

lemma remove_inv:
  assumes P: "proxy_inv s" and x: "exts s e = Some x"
  shows "\<exists>s'. remove_ext_connection alive e n s = Some
      ((if odd n \<and> alive (out_fd x) (out_gen x) then [NotifyRemoteClosed (out_fd x) (out_gen x) (out_conn_id x)] else []) @
       (if odd (n div 2) \<and> alive (in_fd x) (in_gen x) then [FailConnection (in_fd x) (in_gen x) (-33)] else []), s') \<and>
    proxy_inv s' \<and> shrunk (\<lambda>e'. e' \<noteq> e) s s' \<and> unlink_node (Ext e) (o_links s) = Some (o_links s')"
proof -
  have z: "in_fd x \<noteq> 0" "in_conn_id x = 0" "out_fd x \<noteq> 0" using proxy_invD(2) [OF P x] by auto
  then obtain s' where s': "remove_ext_connection alive e n s = Some
      ((if odd n \<and> alive (out_fd x) (out_gen x) then [NotifyRemoteClosed (out_fd x) (out_gen x) (out_conn_id x)] else []) @
       (if odd (n div 2) \<and> alive (in_fd x) (in_gen x) then [FailConnection (in_fd x) (in_gen x) (-33)] else []), s')"
    "ext_inv s'" "exts s' = (exts s)(e := None)" "ext_connections_created s' = ext_connections_created s"
    "\<forall>h. snd (OutExtConnections s' h) = snd (OutExtConnections s h)" "unlink_node (Ext e) (o_links s) = Some (o_links s')"
    "\<forall>g. fst (o_links s') (Head g) = None \<longleftrightarrow> fst (o_links s) (Head g) = None"
    using remove_ext_connection_inv [OF proxy_invD(1) [OF P] x, of n alive] by auto
  have "shrunk (\<lambda>e'. e' \<noteq> e) s s'" using s'(3-5,7) by (auto simp: shrunk_def)
  then show ?thesis using s'(1,6) shrunk_proxy_inv [OF _ s'(2) P] by blast
qed

lemma close_out_loop_ok:
  assumes "proxy_inv s" "ring (o_links s) (Head fd) (map Ext es)" "set es = {e. out_owner s e = Some fd}" "length es < n"
  shows "\<exists>a s'. close_out_loop n alive fd (hd (map Ext es @ [Head fd])) s = Some (a, s') \<and> proxy_inv s' \<and>
    shrunk (\<lambda>e. out_owner s e \<noteq> Some fd) s s' \<and>
    set a = {FailConnection (in_fd x) (in_gen x) (-33) | e x. exts s e = Some x \<and> out_fd x = fd \<and> alive (in_fd x) (in_gen x)}"
  using assms
proof (induction es arbitrary: n s)
  case Nil
  then obtain m where "n = Suc m" by (cases n) auto
  moreover have o: "out_owner s e \<noteq> Some fd" for e using Nil.prems(3) by auto
  moreover have "exts s e = Some x \<Longrightarrow> out_fd x \<noteq> fd" for e x
    using o [of e] proxy_invD(2) [OF Nil.prems(1)] by (auto simp: out_owner_iff)
  ultimately show ?case using Nil.prems(1) by (auto simp: shrunk_def)
next
  case (Cons e es)
  obtain m where n: "n = Suc m" "length es < m" using Cons.prems(4) by (cases n) auto
  have oe: "out_owner s e = Some fd" using Cons.prems(3) by auto
  then obtain x where x: "exts s e = Some x" "out_fd x = fd" by (auto simp: out_owner_iff)
  have nx: "fst (o_links s) (Ext e) = Some (hd (map Ext es @ [Head fd]))"
    using Cons.prems(2) lseg_first by (auto simp: ring_def)
  define acts where "acts = (if alive (in_fd x) (in_gen x) then [FailConnection (in_fd x) (in_gen x) (-33)] else [])"
  obtain s1 where s1: "remove_ext_connection alive e 2 s = Some (acts, s1)" "proxy_inv s1" "shrunk (\<lambda>e'. e' \<noteq> e) s s1"
    "unlink_node (Ext e) (o_links s) = Some (o_links s1)"
    using remove_inv [OF Cons.prems(1) x(1), of alive 2] by (auto simp: acts_def)
  have ex1: "exts s1 = (exts s)(e := None)" using s1(3) by (auto simp: shrunk_def)
  have "ring (o_links s1) (Head fd) (map Ext es)"
    using ring_unlink [of "o_links s" "Head fd" "[]" "Ext e" "map Ext es"] Cons.prems(2) s1(4) by auto
  moreover have "distinct (e # es)" using Cons.prems(2) by (auto simp: ring_def distinct_map)
  then have "set es = {e'. out_owner s1 e' = Some fd}"
    using Cons.prems(3) by (auto simp: out_owner_def ex1)
  ultimately obtain b s' where l: "close_out_loop m alive fd (hd (map Ext es @ [Head fd])) s1 = Some (b, s')" "proxy_inv s'"
    "shrunk (\<lambda>e. out_owner s1 e \<noteq> Some fd) s1 s'"
    "set b = {FailConnection (in_fd x) (in_gen x) (-33) | e x. exts s1 e = Some x \<and> out_fd x = fd \<and> alive (in_fd x) (in_gen x)}"
    using Cons.IH [OF s1(2) _ _ n(2)] by blast
  have "shrunk (\<lambda>e. out_owner s e \<noteq> Some fd) s s'"
    using s1(3) l(3) oe unfolding shrunk_def by (auto simp: fun_eq_iff out_owner_def ex1)
  moreover have "set (acts @ b) =
      {FailConnection (in_fd x) (in_gen x) (-33) | e x. exts s e = Some x \<and> out_fd x = fd \<and> alive (in_fd x) (in_gen x)}"
    (is "_ = ?R")
  proof
    show "set (acts @ b) \<subseteq> ?R"
      unfolding set_append l(4) using x by (auto simp: acts_def ex1 split: if_split_asm)
    show "?R \<subseteq> set (acts @ b)"
    proof
      fix v assume "v \<in> ?R"
      then obtain e' x' where v: "v = FailConnection (in_fd x') (in_gen x') (-33)" "exts s e' = Some x'" "out_fd x' = fd"
        "alive (in_fd x') (in_gen x')" by blast
      show "v \<in> set (acts @ b)"
      proof (cases "e' = e")
        case True
        then show ?thesis using v x by (simp add: acts_def)
      next
        case False
        then have "exts s1 e' = Some x'" using v(2) by (simp add: ex1)
        then have "v \<in> set b" unfolding l(4) using v by blast
        then show ?thesis by simp
      qed
    qed
  qed
  moreover have "close_out_loop n alive fd (hd (map Ext (e # es) @ [Head fd])) s = Some (acts @ b, s')"
    using nx x s1(1) l(1) by (simp add: n(1))
  ultimately show ?case using l(2) by blast
qed

lemma mtfront_client_close_ok:
  assumes P: "proxy_inv s" and fd: "valid_fd (conn_fd C)" "conn_fd C \<noteq> 0"
    and r: "conn_extra_int C = get_conn_tag C" "get_conn_tag C \<noteq> 0" "fst (o_links s) (Head (conn_fd C)) \<noteq> None"
  shows "\<exists>a s'. mtfront_client_close alive C s = Some (a, C\<lparr>conn_extra_int := 0\<rparr>, s') \<and> proxy_inv s' \<and>
    exts s' = (\<lambda>e. if out_owner s e = Some (conn_fd C) then None else exts s e) \<and>
    ext_connections_created s' = ext_connections_created s \<and>
    (\<forall>h. snd (OutExtConnections s' h) = snd (OutExtConnections s h)) \<and>
    set a = {FailConnection (in_fd x) (in_gen x) (-33) | e x. exts s e = Some x \<and> out_fd x = conn_fd C \<and> alive (in_fd x) (in_gen x)}"
proof -
  let ?fd = "conn_fd C"
  note inv = ext_invD [OF proxy_invD(1) [OF P]]
  obtain xs where xs: "ring (o_links s) (Head ?fd) xs" "set xs = Ext ` {e. out_owner s e = Some ?fd}"
    using inv(8) r(3) unfolding rings_def family_def by meson
  then obtain es where es: "xs = map Ext es" by (metis (no_types, lifting) ex_map_conv imageE)
  have ses: "set es = {e. out_owner s e = Some ?fd}" using xs(2) es by (auto simp: image_iff)
  have "distinct es" using xs(1) es by (auto simp: ring_def distinct_map)
  then have "length es = card {e. out_owner s e = Some ?fd}" using ses distinct_card by fastforce
  also have "\<dots> \<le> card (dom (exts s))" using inv(1) by (auto intro!: card_mono simp: out_owner_iff)
  finally have len: "length es < Suc (nat (ext_connections s))" using inv(2) by simp
  obtain a s1 where l: "close_out_loop (Suc (nat (ext_connections s))) alive ?fd (hd (map Ext es @ [Head ?fd])) s = Some (a, s1)"
    "proxy_inv s1" "shrunk (\<lambda>e. out_owner s e \<noteq> Some ?fd) s s1"
    "set a = {FailConnection (in_fd x) (in_gen x) (-33) | e x. exts s e = Some x \<and> out_fd x = ?fd \<and> alive (in_fd x) (in_gen x)}"
    using close_out_loop_ok [OF P xs(1) [unfolded es] ses len] by blast
  have first: "fst (o_links s) (Head ?fd) = Some (hd (map Ext es @ [Head ?fd]))" using ring_head [OF xs(1)] es by simp
  have ex1: "exts s1 = (\<lambda>e. if out_owner s e \<noteq> Some ?fd then exts s e else None)" using l(3) by (simp add: shrunk_def)
  have none: "out_owner s1 e \<noteq> Some ?fd" for e by (auto simp: out_owner_iff ex1)
  obtain nx pv where ol: "o_links s1 = (nx, pv)" by fastforce
  have nz: "fst (o_links s1) (Head ?fd) \<noteq> None" using l(3) r(3) by (simp add: shrunk_def)
  note inv1 = ext_invD [OF proxy_invD(1) [OF l(2)]]
  have h: "nx (Head ?fd) = Some (Head ?fd)" "pv (Head ?fd) = Some (Head ?fd)"
    using rings_empty_head [OF inv1(8) none nz] ol by simp_all
  define s' where "s' = s1\<lparr>o_links := (nx(Head ?fd := None), pv(Head ?fd := None))\<rparr>"
  have "rings (o_links s') (out_owner s')"
    using rings_close [of nx pv "out_owner s1" ?fd] inv1(8) none ol by (simp add: s'_def)
  then have "ext_inv s'"
    using proxy_invD(1) [OF l(2)]
    by (simp add: ext_inv_def s'_def)
  then have P': "proxy_inv s'" using l(2) by (auto simp: proxy_inv_def s'_def)
  have "mtfront_client_close alive C s = Some (a, C\<lparr>conn_extra_int := 0\<rparr>, s')"
    using fd r first l(1) h ol by (simp add: mtfront_client_close_def s'_def Let_def del: close_out_loop.simps)
  moreover have "exts s' = (\<lambda>e. if out_owner s e = Some ?fd then None else exts s e)" by (auto simp: s'_def ex1)
  ultimately show ?thesis using P' l(3,4) by (auto simp: s'_def shrunk_def)
qed

lemma mtfront_client_ready_ok:
  assumes P: "proxy_inv s" and fd: "valid_fd (conn_fd C)" and r: "conn_extra_int C = 0" "fst (o_links s) (Head (conn_fd C)) = None"
  shows "\<exists>s'. mtfront_client_ready C s = Some (C\<lparr>conn_extra_int := get_conn_tag C\<rparr>, s') \<and> proxy_inv s' \<and>
    exts s' = exts s \<and> OutExtConnections s' = OutExtConnections s \<and> ext_connections_created s' = ext_connections_created s \<and>
    fst (o_links s') (Head (conn_fd C)) \<noteq> None"
proof -
  let ?fd = "conn_fd C"
  note inv = ext_invD [OF proxy_invD(1) [OF P]]
  obtain nx pv where ol: "o_links s = (nx, pv)" by fastforce
  have "family (o_links s) (out_owner s) ?fd" using inv(8) by (simp add: rings_def)
  then have pv: "pv (Head ?fd) = None" using r(2) ol by (simp add: family_def)
  define s' where "s' = s\<lparr>o_links := (nx(Head ?fd \<mapsto> Head ?fd), pv(Head ?fd \<mapsto> Head ?fd))\<rparr>"
  have "rings (o_links s') (out_owner s')"
    using rings_open [of nx pv "out_owner s" ?fd] inv(8) r(2) ol by (simp add: s'_def)
  then have "ext_inv s'"
    using proxy_invD(1) [OF P]
    by (simp add: ext_inv_def s'_def)
  then have "proxy_inv s'" using P by (auto simp: proxy_inv_def s'_def)
  moreover have "mtfront_client_ready C s = Some (C\<lparr>conn_extra_int := get_conn_tag C\<rparr>, s')"
    using fd r ol pv by (simp add: mtfront_client_ready_def s'_def Let_def)
  ultimately show ?thesis by (auto simp: s'_def)
qed

lemma create_ext_connection_ok:
  assumes P: "proxy_inv s" and can: "can_insert new rnd (fst CI) 0 s" and fd: "fst CI \<noteq> 0"
    and CO: "valid_fd (fst CO)" "fst CO \<noteq> 0" "CO \<noteq> CI" "fst (o_links s) (Head (fst CO)) \<noteq> None"
  shows "\<exists>h cid s'. draw_slot (OutExtConnections s) (fst CI) 0 rnd = Some h \<and>
    cid = next_out_conn_id (snd (OutExtConnections s h)) h \<and>
    create_ext_connection new rnd CI 0 (Some CO) key s = Some (new, s') \<and> proxy_inv s' \<and>
    exts s' = (exts s)(new \<mapsto> calloc_ext\<lparr>in_fd := fst CI, in_gen := snd CI, out_conn_id := cid,
       out_fd := fst CO, out_gen := snd CO, auth_key_id := key\<rparr>) \<and>
    ext_connections_created s' = ext_connections_created s + 1 \<and>
    OutExtConnections s' = (OutExtConnections s)(h := (Some new, cid)) \<and>
    (\<forall>g. fst (o_links s') (Head g) = None \<longleftrightarrow> fst (o_links s) (Head g) = None)"
proof -
  note inv = ext_invD [OF proxy_invD(1) [OF P]]
  obtain h cid s1 where s1: "draw_slot (OutExtConnections s) (fst CI) 0 rnd = Some h"
    "cid = next_out_conn_id (snd (OutExtConnections s h)) h"
    "insert_ext new rnd (fst CI) (snd CI) 0 s = Some s1" "ext_inv s1"
    "exts s1 = (exts s)(new \<mapsto> calloc_ext\<lparr>in_fd := fst CI, in_gen := snd CI, in_conn_id := 0, out_conn_id := cid\<rparr>)"
    "ext_connections_created s1 = ext_connections_created s + 1" "o_links s1 = o_links s"
    "OutExtConnections s1 = (OutExtConnections s)(h := (Some new, cid))"
    using insert_ext_inv [OF proxy_invD(1) [OF P] can] by metis
  have "hash_lookup (fst CI) 0 s = None"
  proof (rule ccontr)
    assume "hash_lookup (fst CI) 0 s \<noteq> None"
    then obtain e where "hash_lookup (fst CI) 0 s = Some e" by blast
    then show False using hash_lookup_iff [OF inv(3,4)] can fd by (auto simp: can_insert_def)
  qed
  then have g: "get_ext_connection_by_in_conn_id new rnd (fst CI) (snd CI) 0 2 s = Some (Object new, s1)"
    using s1(3) by (simp add: get_ext_connection_by_in_conn_id_def)
  define x where "x = calloc_ext\<lparr>in_fd := fst CI, in_gen := snd CI, in_conn_id := 0, out_conn_id := cid\<rparr>"
  have x1: "exts s1 new = Some x" and xf: "out_fd x = 0" "auth_key_id x = 0"
    using s1(5) by (simp_all add: x_def calloc_ext_def)
  note inv1 = ext_invD [OF s1(4)]
  have own: "out_owner s1 new = None" using x1 xf by (simp add: out_owner_def)
  then have nl: "fst (o_links s1) (Ext new) = None" using inv1(8) by (simp add: rings_def)
  obtain ol where ol: "link_node (Ext new) (Head (fst CO)) (o_links s1) = Some ol" "rings ol ((out_owner s1)(new \<mapsto> fst CO))"
    "\<forall>g. fst ol (Head g) = None \<longleftrightarrow> fst (o_links s1) (Head g) = None"
    using rings_link [OF inv1(8) own] CO(4) s1(7) by metis
  define y where "y = x\<lparr>out_fd := fst CO, out_gen := snd CO, auth_key_id := key\<rparr>"
  define s' where "s' = s1\<lparr>o_links := ol, exts := (exts s1)(new \<mapsto> y)\<rparr>"
  have same: "in_fd y = in_fd x" "in_conn_id y = in_conn_id x" "out_conn_id y = out_conn_id x" "tracked y = tracked x"
    by (simp_all add: y_def)
  have dom: "dom (exts s') = dom (exts s1)" using x1 by (auto simp: s'_def)
  have "ext_inv s'"
    unfolding ext_inv_def dom
  proof (intro conjI)
    have ex: "exts s' = (exts s1)(new \<mapsto> y)" by (simp add: s'_def)
    show "finite (dom (exts s1))" "ext_connections s' = int (card (dom (exts s1)))" using inv1(1,2) by (simp_all add: s'_def)
    show "hash_ok s'" using inv1(3) x1 same unfolding hash_ok_def ex by (auto simp: s'_def)
    show "keys_ok s'" unfolding keys_ok_def
    proof (intro conjI allI impI)
      fix e e' z z'
      assume a: "exts s' e = Some z \<and> exts s' e' = Some z' \<and> in_fd z = in_fd z' \<and> (in_conn_id z = in_conn_id z' \<or> in_fd z \<noteq> 0)"
      define w where "w = (if e = new then x else z)"
      define w' where "w' = (if e' = new then x else z')"
      have "exts s1 e = Some w" "exts s1 e' = Some w'" "in_fd w = in_fd z" "in_fd w' = in_fd z'"
        "in_conn_id w = in_conn_id z" "in_conn_id w' = in_conn_id z'"
        using a x1 same by (auto simp: w_def w'_def ex split: if_split_asm)
      then show "e = e'" using inv1(4) a unfolding keys_ok_def by metis
    next
      fix e z assume "exts s' e = Some z"
      then show "valid_fd (in_fd z)" "valid_fd (out_fd z)"
        using inv1(4) x1 same CO(1) unfolding keys_ok_def ex by (auto simp: y_def split: if_split_asm)
    qed
    have view: "(\<exists>z. exts s' e = Some z \<and> Q (out_conn_id z)) \<longleftrightarrow> (\<exists>z. exts s1 e = Some z \<and> Q (out_conn_id z))" for e Q
      using x1 same(3) by (simp add: ex)
    show "out_ok s'"
      unfolding out_ok_def
    proof (intro conjI allI impI)
      fix e z assume "exts s' e = Some z"
      then obtain z' where z': "exts s1 e = Some z'" "out_conn_id z' = out_conn_id z"
        using view [of e "\<lambda>c. c = out_conn_id z"] by auto
      show "out_conn_id z \<noteq> 0" "OutExtConnections s' (out_slot (out_conn_id z)) = (Some e, out_conn_id z)"
        using out_okD1 [OF inv1(5) z'(1)] z'(2) by (simp_all add: s'_def)
    next
      fix k e assume "fst (OutExtConnections s' k) = Some e"
      then show "\<exists>z. exts s' e = Some z \<and> out_slot (out_conn_id z) = k"
        using out_okD2 [OF inv1(5), of k e] view [of e "\<lambda>c. out_slot c = k"] by (simp add: s'_def)
    next
      show "0 \<le> ext_connections_created s'" using inv1(5) by (simp add: out_ok_def s'_def)
      show "int (unat (snd (OutExtConnections s' k))) < 2 ^ 22 * (ext_connections_created s' + 1)" for k
        using inv1(5) by (simp add: out_ok_def s'_def)
    qed
    show "lru_ok s'" using inv1(6) dom unfolding lru_ok_def by (simp add: s'_def)
    have "in_owner s' = in_owner s1" "out_owner s' = (out_owner s1)(new \<mapsto> fst CO)" "trackers s' = trackers s1"
      using x1 same CO(2) by (auto simp: in_owner_def out_owner_def trackers_def ex y_def fun_eq_iff)
    then show "rings (i_links s') (in_owner s')" "rings (o_links s') (out_owner s')"
      "track_inv (secret_stats s') (trackers s')"
      using inv1(7,9) ol(2) by (simp_all add: s'_def)
  qed
  moreover have ex: "exts s' = (exts s)(new \<mapsto> y)" by (simp add: s'_def s1(5))
  ultimately have "proxy_inv s'"
    using P fd CO(2) by (auto simp: proxy_inv_def y_def x_def split: if_split_asm)
  moreover have "create_ext_connection new rnd CI 0 (Some CO) key s = Some (new, s')"
    using g x1 xf nl CO s1(7) ol(1) by (cases CO) (simp add: create_ext_connection_def s'_def y_def)
  ultimately show ?thesis
    using s1 ol(3) ex by (intro exI [of _ h] exI [of _ cid] exI [of _ s']) (simp add: s'_def y_def x_def calloc_ext_def)
qed

text \<open>The part of an object that the table is about.\<close>

definition core :: "ext_connection \<Rightarrow> (int \<times> int) \<times> (int \<times> int) \<times> u64 \<times> u64" where
  "core x = ((in_fd x, in_gen x), (out_fd x, out_gen x), in_conn_id x, out_conn_id x)"

lemma core_eq: "core y = core x \<Longrightarrow> in_fd y = in_fd x \<and> in_gen y = in_gen x \<and> out_fd y = out_fd x \<and>
    out_gen y = out_gen x \<and> in_conn_id y = in_conn_id x \<and> out_conn_id y = out_conn_id x"
  by (simp add: core_def)

lemma update_obj:
  assumes P: "proxy_inv s" and x: "exts s e = Some x" and y: "core y = core x"
    and t: "track_inv t ((trackers s)(e := tracked y))"
  shows "proxy_inv (s\<lparr>exts := (exts s)(e \<mapsto> y), secret_stats := t\<rparr>)" (is "proxy_inv ?s")
proof -
  note inv = ext_invD [OF proxy_invD(1) [OF P]]
  note same = core_eq [OF y]
  have view: "(\<exists>z. exts ?s e' = Some z \<and> Q (core z)) \<longleftrightarrow> (\<exists>z. exts s e' = Some z \<and> Q (core z))" for e' Q
    using x y by simp
  have orig: "\<exists>z'. exts s e' = Some z' \<and> core z' = core z" if "exts ?s e' = Some z" for e' z
    using view [of e' "\<lambda>c. c = core z"] that by blast
  have dom: "dom (exts ?s) = dom (exts s)" using x by auto
  have "ext_inv ?s"
    unfolding ext_inv_def dom
  proof (intro conjI)
    show "finite (dom (exts s))" "ext_connections ?s = int (card (dom (exts s)))" using inv(1,2) by simp_all
    show "hash_ok ?s" using inv(3) x same unfolding hash_ok_def by auto
    show "keys_ok ?s" unfolding keys_ok_def
    proof (intro conjI allI impI)
      fix a b z z'
      assume a: "exts ?s a = Some z \<and> exts ?s b = Some z' \<and> in_fd z = in_fd z' \<and> (in_conn_id z = in_conn_id z' \<or> in_fd z \<noteq> 0)"
      then obtain w w' where w: "exts s a = Some w" "core w = core z" "exts s b = Some w'" "core w' = core z'"
        using orig by blast
      have "in_fd w = in_fd z" "in_fd w' = in_fd z'" "in_conn_id w = in_conn_id z" "in_conn_id w' = in_conn_id z'"
        using core_eq [OF w(2)] core_eq [OF w(4)] by simp_all
      then show "a = b" using inv(4) a w(1,3) unfolding keys_ok_def by metis
    next
      fix a z assume "exts ?s a = Some z"
      then obtain w where w: "exts s a = Some w" "core w = core z" using orig by blast
      have "valid_fd (in_fd w) \<and> valid_fd (out_fd w)" using inv(4) w(1) unfolding keys_ok_def by blast
      then show "valid_fd (in_fd z)" "valid_fd (out_fd z)" using core_eq [OF w(2)] by simp_all
    qed
    show "out_ok ?s"
      unfolding out_ok_def
    proof (intro conjI allI impI)
      fix a z assume "exts ?s a = Some z"
      then obtain w where w: "exts s a = Some w" "core w = core z" using orig by blast
      show "out_conn_id z \<noteq> 0" "OutExtConnections ?s (out_slot (out_conn_id z)) = (Some a, out_conn_id z)"
        using out_okD1 [OF inv(5) w(1)] core_eq [OF w(2)] by simp_all
    next
      fix k a assume "fst (OutExtConnections ?s k) = Some a"
      then show "\<exists>z. exts ?s a = Some z \<and> out_slot (out_conn_id z) = k"
        using out_okD2 [OF inv(5), of k a] x same by auto
    next
      show "0 \<le> ext_connections_created ?s" using inv(5) by (simp add: out_ok_def)
      show "int (unat (snd (OutExtConnections ?s k))) < 2 ^ 22 * (ext_connections_created ?s + 1)" for k
        using inv(5) by (simp add: out_ok_def)
    qed
    show "lru_ok ?s" using inv(6) dom unfolding lru_ok_def by simp
    have "in_owner ?s = in_owner s" "out_owner ?s = out_owner s" "trackers ?s = (trackers s)(e := tracked y)"
      using x same by (auto simp: in_owner_def out_owner_def trackers_def fun_eq_iff)
    then show "rings (i_links ?s) (in_owner ?s)" "rings (o_links ?s) (out_owner ?s)" "track_inv (secret_stats ?s) (trackers ?s)"
      using inv(7,8) t by simp_all
  qed
  then show ?thesis using P x same by (auto simp: proxy_inv_def split: if_split_asm)
qed

text \<open>Operations that change nothing of the table but the keys and the counters.\<close>

definition same_core :: "ext_table \<Rightarrow> ext_table \<Rightarrow> bool" where
  "same_core s s' \<longleftrightarrow> (\<forall>e. map_option core (exts s' e) = map_option core (exts s e)) \<and>
     OutExtConnections s' = OutExtConnections s \<and> ext_connections_created s' = ext_connections_created s \<and>
     o_links s' = o_links s"

lemma store_auth_key_ok:
  assumes P: "proxy_inv s" and x: "exts s e = Some x"
  shows "\<exists>s' y. store_auth_key e key s = Some s' \<and> proxy_inv s' \<and> same_core s s' \<and> exts s' e = Some y \<and> core y = core x \<and>
    auth_key_id y = (if key = 0 then auth_key_id x else key)"
proof (cases "key \<noteq> 0 \<and> auth_key_id x \<noteq> key")
  case True
  let ?y = "x\<lparr>auth_key_id := key\<rparr>"
  have "(trackers s)(e := tracked ?y) = trackers s" using x by (auto simp: trackers_def)
  then have "proxy_inv (s\<lparr>exts := (exts s)(e \<mapsto> ?y), secret_stats := secret_stats s\<rparr>)"
    using ext_invD(9) [OF proxy_invD(1) [OF P]] by (intro update_obj [OF P x]) (simp_all add: core_def)
  moreover have "s\<lparr>exts := (exts s)(e \<mapsto> ?y), secret_stats := secret_stats s\<rparr> = s\<lparr>exts := (exts s)(e \<mapsto> ?y)\<rparr>" by simp
  ultimately show ?thesis using True x by (auto simp: store_auth_key_def same_core_def core_def)
qed (use P x in \<open>auto simp: store_auth_key_def same_core_def\<close>)

lemma track_ext_ok:
  assumes P: "proxy_inv s" and x: "exts s e = Some x"
  shows "\<exists>s'. track_ext e secret_id ipv6 s = Some s' \<and> proxy_inv s' \<and> same_core s s'"
proof -
  have tx: "trackers s e = tracked x" using x by (simp add: trackers_def)
  obtain t1 tr1 where 1: "mtfront_track_secret_auth_key secret_id (auth_key_id x) (secret_stats s, tracked x) = Some (t1, tr1)"
    "track_inv t1 ((trackers s)(e := tr1))"
    using track_key_inv [OF ext_invD(9) [OF proxy_invD(1) [OF P]], of secret_id "auth_key_id x" e] tx by auto
  obtain t2 tr2 where 2: "mtfront_track_secret_client ipv6 secret_id (t1, tr1) = Some (t2, tr2)"
    "track_inv t2 ((trackers s)(e := tr2))"
    using track_client_inv [OF 1(2), of ipv6 secret_id e] by auto
  let ?y = "x\<lparr>tracked := tr2\<rparr>"
  have "proxy_inv (s\<lparr>exts := (exts s)(e \<mapsto> ?y), secret_stats := t2\<rparr>)"
    using 2(2) by (intro update_obj [OF P x]) (simp_all add: core_def)
  then show ?thesis using x 1(1) 2(1) by (auto simp: track_ext_def same_core_def core_def)
qed

section \<open>The list by time of use\<close>

definition lru_list :: "ext_table \<Rightarrow> nat list \<Rightarrow> bool" where
  "lru_list s es \<longleftrightarrow> ring (lru_links s) ConnLRU (map Ext es)"

lemma lru_ok_list: "lru_ok s \<Longrightarrow> \<exists>es. lru_list s es \<and> set es \<subseteq> dom (exts s)"
  by (auto simp: lru_ok_def lru_list_def)

lemma lseg_det: "lseg l a xs b \<Longrightarrow> lseg l a ys b \<Longrightarrow> b \<notin> set xs \<Longrightarrow> b \<notin> set ys \<Longrightarrow> xs = ys"
proof (induction xs arbitrary: a ys)
  case Nil
  then show ?case by (cases ys) auto
next
  case (Cons x xs)
  then show ?case by (cases ys) auto
qed

lemma lru_list_det: "lru_list s es \<Longrightarrow> lru_list s fs \<Longrightarrow> es = fs"
  using lseg_det [of "lru_links s" ConnLRU "map Ext es" ConnLRU "map Ext fs"]
  by (auto simp: lru_list_def ring_def inj_on_def map_inj_on intro: map_inj_on)

lemma lru_delete_list:
  assumes "lru_list s (as @ e # bs)"
  shows "\<exists>s'. lru_delete_ext_conn e s = Some s' \<and> lru_list s' (as @ bs)"
proof -
  obtain l where l: "unlink_node (Ext e) (lru_links s) = Some l" "ring l ConnLRU (map Ext (as @ bs))"
    "fst l (Ext e) = None" "snd l (Ext e) = None"
    using ring_unlink [of "lru_links s" ConnLRU "map Ext as" "Ext e" "map Ext bs"] assms by (auto simp: lru_list_def)
  have "((fst l)(Ext e := None), (snd l)(Ext e := None)) = l" using l(3,4) by (simp add: fun_upd_idem)
  then show ?thesis using l(1,2) by (cases l) (auto simp: lru_delete_ext_conn_def lru_list_def)
qed

lemma lru_delete_inv:
  assumes P: "proxy_inv s"
  shows "\<exists>l. lru_delete_ext_conn e s = Some (s\<lparr>lru_links := l\<rparr>) \<and> proxy_inv (s\<lparr>lru_links := l\<rparr>)"
proof -
  note inv = ext_invD [OF proxy_invD(1) [OF P]]
  obtain l es where l: "lru_delete_ext_conn e s = Some (s\<lparr>lru_links := l\<rparr>)" "ring l ConnLRU (map Ext es)"
    "set es \<subseteq> dom (exts s) - {e}" "\<forall>e. e \<notin> set es \<longrightarrow> fst l (Ext e) = None"
    using lru_delete_ok [OF inv(6)] by blast
  have "lru_ok (s\<lparr>lru_links := l\<rparr>)" unfolding lru_ok_def using l(2-4) by auto
  then have "proxy_inv (s\<lparr>lru_links := l\<rparr>)" using P by (simp add: proxy_inv_def ext_inv_def)
  then show ?thesis using l(1) by blast
qed

text \<open>An object that is used moves to the end of the list.\<close>

lemma lru_insert_inv:
  assumes P: "proxy_inv s" and x: "exts s e = Some x" and es: "lru_list s es"
  shows "\<exists>l. lru_insert_ext_conn e s = Some (s\<lparr>lru_links := l\<rparr>) \<and> proxy_inv (s\<lparr>lru_links := l\<rparr>) \<and>
    lru_list (s\<lparr>lru_links := l\<rparr>) (removeAll e es @ [e])"
proof -
  note inv = ext_invD [OF proxy_invD(1) [OF P]]
  obtain l fs where l: "lru_delete_ext_conn e s = Some (s\<lparr>lru_links := l\<rparr>)" "ring l ConnLRU (map Ext fs)"
    "set fs \<subseteq> dom (exts s) - {e}" "\<forall>e. e \<notin> set fs \<longrightarrow> fst l (Ext e) = None"
    using lru_delete_ok [OF inv(6)] by blast
  have "lru_list (s\<lparr>lru_links := l\<rparr>) (removeAll e es)"
  proof (cases "e \<in> set es")
    case True
    then obtain as bs where s: "es = as @ e # bs" by (meson split_list)
    have "distinct es" using es by (auto simp: lru_list_def ring_def distinct_map)
    then have "removeAll e es = as @ bs" using s by simp
    then show ?thesis using lru_delete_list [OF es [unfolded s]] l(1) by simp
  next
    case False
    obtain nx pv where n: "lru_links s = (nx, pv)" by fastforce
    have "nx (Ext e) = None"
    proof -
      obtain gs where "ring (lru_links s) ConnLRU (map Ext gs)" "\<forall>e. e \<notin> set gs \<longrightarrow> fst (lru_links s) (Ext e) = None"
        using inv(6) by (auto simp: lru_ok_def)
      moreover from this have "gs = es" using lru_list_det es by (auto simp: lru_list_def)
      ultimately show ?thesis using False n by simp
    qed
    then have "s\<lparr>lru_links := l\<rparr> = s\<lparr>lru_links := (nx(Ext e := None), pv(Ext e := None))\<rparr>"
      using l(1) n by (simp add: lru_delete_ext_conn_def unlink_node_def)
    from arg_cong [OF this, of lru_links] have l2: "l = (nx(Ext e := None), pv(Ext e := None))" by simp
    have "ring l ConnLRU (map Ext es)"
      by (rule ring_cong [OF es [unfolded lru_list_def]]) (use n False l2 in auto)
    then show ?thesis using False by (simp add: lru_list_def)
  qed
  then have "removeAll e es = fs"
    using lru_list_det [of "s\<lparr>lru_links := l\<rparr>" "removeAll e es" fs] l(2) by (simp add: lru_list_def)
  have "Ext e \<notin> set (ConnLRU # map Ext fs)" using l(3) by auto
  then obtain l' where l': "link_node (Ext e) ConnLRU l = Some l'" "ring l' ConnLRU (map Ext fs @ [Ext e])"
    "\<And>p. p \<notin> set (ConnLRU # map Ext fs) \<and> p \<noteq> Ext e \<Longrightarrow> fst l' p = fst l p \<and> snd l' p = snd l p"
    using ring_link [OF l(2)] by blast
  have "fst l' (Ext e') = None" if "e' \<notin> set (fs @ [e])" for e'
    using l'(3) [of "Ext e'"] l(4) that by auto
  then have "lru_ok (s\<lparr>lru_links := l'\<rparr>)"
    unfolding lru_ok_def using l'(2) l(3) x by (intro exI [of _ "fs @ [e]"]) auto
  then have "proxy_inv (s\<lparr>lru_links := l'\<rparr>)" using P by (simp add: proxy_inv_def ext_inv_def)
  moreover have "lru_insert_ext_conn e s = Some (s\<lparr>lru_links := l'\<rparr>)"
    using l(1) l'(1) by (simp add: lru_insert_ext_conn_def)
  moreover have "lru_list (s\<lparr>lru_links := l'\<rparr>) (removeAll e es @ [e])"
    using l'(2) \<open>removeAll e es = fs\<close> by (simp add: lru_list_def)
  ultimately show ?thesis by blast
qed

lemma lru_list_short:
  assumes P: "proxy_inv s" and es: "lru_list s es" "set es \<subseteq> dom (exts s)"
  shows "length es < Suc (nat (ext_connections s))"
proof -
  note inv = ext_invD [OF proxy_invD(1) [OF P]]
  have "distinct es" using es(1) by (auto simp: lru_list_def ring_def distinct_map)
  then have "length es = card (set es)" by (simp add: distinct_card)
  also have "\<dots> \<le> card (dom (exts s))" using inv(1) es(2) by (intro card_mono)
  finally show ?thesis using inv(2) by simp
qed

text \<open>What failing a connection of the list is counted as, and the call that fails it.\<close>

definition buffer_use :: "(int \<Rightarrow> int \<Rightarrow> int option) \<Rightarrow> ext_table \<Rightarrow> nat \<Rightarrow> int" where
  "buffer_use used s e = (case exts s e of None \<Rightarrow> 0
     | Some x \<Rightarrow> (case used (in_fd x) (in_gen x) of None \<Rightarrow> 0 | Some b \<Rightarrow> int32 (b * 2)))"

definition lru_failure :: "(int \<Rightarrow> int \<Rightarrow> int option) \<Rightarrow> ext_table \<Rightarrow> nat \<Rightarrow> ext_action list" where
  "lru_failure used s e = (case exts s e of None \<Rightarrow> []
     | Some x \<Rightarrow> if used (in_fd x) (in_gen x) = None then [] else [FailConnection (in_fd x) (in_gen x) (-500)])"

lemma free_buffers_loop_ok:
  assumes "proxy_inv s" "lru_list s es" "length es < n"
  shows "\<exists>k s'. free_buffers_loop n used f s = Some (concat (map (lru_failure used s) (take k es)), s', k) \<and>
    proxy_inv s' \<and> exts s' = exts s \<and> lru_list s' (drop k es) \<and> k \<le> length es \<and>
    (k = length es \<or> f \<le> sum_list (map (buffer_use used s) (take k es))) \<and>
    (\<forall>j<k. f > sum_list (map (buffer_use used s) (take j es)))"
  using assms
proof (induction es arbitrary: n s f)
  case Nil
  then obtain m where "n = Suc m" by (cases n) auto
  then show ?case using Nil.prems by (auto simp: lru_list_def ring_def)
next
  case (Cons e es)
  obtain m where n: "n = Suc m" "length es < m" using Cons.prems(3) by (cases n) auto
  have first: "fst (lru_links s) ConnLRU = Some (Ext e)" using Cons.prems(2) by (simp add: lru_list_def ring_def)
  show ?case
  proof (cases "f > 0")
    case False
    then have "free_buffers_loop n used f s = Some ([], s, 0)" using first n by simp
    then show ?thesis using Cons.prems(1,2) False by (intro exI [of _ 0] exI [of _ s]) simp
  next
    case True
    obtain fs where fs: "ring (lru_links s) ConnLRU (map Ext fs)" "set fs \<subseteq> dom (exts s)"
      using ext_invD(6) [OF proxy_invD(1) [OF Cons.prems(1)]] by (auto simp: lru_ok_def)
    then have "fs = e # es" using lru_list_det [of s fs "e # es"] Cons.prems(2) by (simp add: lru_list_def)
    then obtain x where x: "exts s e = Some x" using fs(2) by auto
    obtain l where l: "lru_delete_ext_conn e s = Some (s\<lparr>lru_links := l\<rparr>)" "proxy_inv (s\<lparr>lru_links := l\<rparr>)"
      using lru_delete_inv [OF Cons.prems(1)] by blast
    let ?s = "s\<lparr>lru_links := l\<rparr>"
    have ls: "lru_list ?s es" using lru_delete_list [of s "[]" e es] Cons.prems(2) l(1) by simp
    define g where "g = f - buffer_use used s e"
    have views: "lru_failure used ?s = lru_failure used s" "buffer_use used ?s = buffer_use used s"
      by (auto simp: lru_failure_def buffer_use_def)
    obtain k s' where k: "free_buffers_loop m used g ?s = Some (concat (map (lru_failure used s) (take k es)), s', k)"
      "proxy_inv s'" "exts s' = exts s" "lru_list s' (drop k es)" "k \<le> length es"
      "k = length es \<or> g \<le> sum_list (map (buffer_use used s) (take k es))"
      "\<forall>j<k. g > sum_list (map (buffer_use used s) (take j es))"
      using Cons.IH [OF l(2) ls n(2), of g] unfolding views by auto
    have step: "(case used (in_fd x) (in_gen x) of None \<Rightarrow> ([], f)
        | Some b \<Rightarrow> ([FailConnection (in_fd x) (in_gen x) (-500)], f - int32 (b * 2))) = (lru_failure used s e, g)"
      using x by (auto simp: lru_failure_def buffer_use_def g_def split: option.splits)
    have "free_buffers_loop n used f s = Some (lru_failure used s e @ concat (map (lru_failure used s) (take k es)), s', k + 1)"
      using first True x l(1) k(1) unfolding n(1) by (simp add: step)
    moreover have "\<forall>j<Suc k. f > sum_list (map (buffer_use used s) (take j (e # es)))"
      using k(7) True by (auto simp: g_def less_Suc_eq_0_disj)
    ultimately show ?thesis
      using k by (intro exI [of _ "Suc k"] exI [of _ s']) (auto simp: g_def)
  qed
qed

end
