(* ===== verification/TlParse.thy ===== *)
theory TlParse
  imports RpcFrame
begin

text \<open>
  The TL serialisation layer, \<^verbatim>\<open>common/tl-parse.h\<close> and \<^verbatim>\<open>common/tl-parse.c\<close>: reading and writing
  integers, strings and query headers.

  An input state holds the bytes from the read pointer on: the rest of the buffer for
  \<^verbatim>\<open>tl_type_str\<close>, the bytes of the message for \<^verbatim>\<open>tl_type_raw_msg\<close>. An output state holds the bytes
  written. Values read are words of their width; positions, lengths and error numbers are integers; of
  an input error only the number is kept. No caller passes a negative length; it counts as a failure. \<open>None\<close> is a failed assertion or an access outside the data.
\<close>

section \<open>Constants\<close>

definition TL_ERROR_SYNTAX :: int where "TL_ERROR_SYNTAX = -1000"
definition TL_ERROR_EXTRA_DATA :: int where "TL_ERROR_EXTRA_DATA = -1001"
definition TL_ERROR_HEADER :: int where "TL_ERROR_HEADER = -1002"
definition TL_ERROR_NOT_ENOUGH_DATA :: int where "TL_ERROR_NOT_ENOUGH_DATA = -1004"
definition TL_ERROR_TOO_LONG_STRING :: int where "TL_ERROR_TOO_LONG_STRING = -2003"
definition TL_ERROR_VALUE_NOT_IN_RANGE :: int where "TL_ERROR_VALUE_NOT_IN_RANGE = -2004"
definition TL_ERROR_INTERNAL :: int where "TL_ERROR_INTERNAL = -3003"

definition RPC_INVOKE_REQ :: u32 where "RPC_INVOKE_REQ = 0x2374df3d"
definition RPC_INVOKE_KPHP_REQ :: u32 where "RPC_INVOKE_KPHP_REQ = 0x99a37fda"
definition RPC_REQ_ERROR :: u32 where "RPC_REQ_ERROR = 0x7ae432f5"
definition RPC_REQ_ERROR_WRAPPED :: u32 where "RPC_REQ_ERROR_WRAPPED = RPC_REQ_ERROR + 1"
definition RPC_REQ_RESULT :: u32 where "RPC_REQ_RESULT = 0x63aeda4e"
definition RPC_DEST_ACTOR :: u32 where "RPC_DEST_ACTOR = 0x7568aabd"
definition RPC_DEST_ACTOR_FLAGS :: u32 where "RPC_DEST_ACTOR_FLAGS = 0xf0a5acf7"
definition RPC_DEST_FLAGS :: u32 where "RPC_DEST_FLAGS = 0xe352035e"
definition RPC_REQ_RESULT_FLAGS :: u32 where "RPC_REQ_RESULT_FLAGS = 0x8cc84ce1"

lemmas tl_ops = RPC_INVOKE_REQ_def RPC_INVOKE_KPHP_REQ_def RPC_REQ_ERROR_def RPC_REQ_ERROR_WRAPPED_def
  RPC_REQ_RESULT_def RPC_DEST_ACTOR_def RPC_DEST_ACTOR_FLAGS_def RPC_DEST_FLAGS_def RPC_REQ_RESULT_FLAGS_def

section \<open>Integers of eight bytes\<close>

definition le64 :: "bytes \<Rightarrow> u64" where
  "le64 bs = ucast (le32 bs) OR push_bit 32 (ucast (le32 (drop 4 bs)))"

definition bytes64 :: "u64 \<Rightarrow> bytes" where
  "bytes64 w = bytes32 (ucast w) @ bytes32 (ucast (drop_bit 32 w))"

lemma length_bytes64 [simp]: "length (bytes64 w) = 8"
  by (simp add: bytes64_def)

lemma le64_bytes64 [simp]: "le64 (bytes64 w @ r) = w"
proof -
  have "le64 (bytes64 w @ r) = ucast (ucast w :: u32) OR push_bit 32 (ucast (ucast (drop_bit 32 w) :: u32))"
    by (simp add: le64_def bytes64_def)
  also have "\<dots> = w"
    by (rule bit_word_eqI) (auto simp: bit_simps)
  finally show ?thesis .
qed

section \<open>Input\<close>

datatype tl_type = tl_type_none | tl_type_str | tl_type_raw_msg | tl_type_tcp_raw_msg

record tl_in_state =
  in_type :: tl_type
  in_data :: bytes
  in_mark :: "bytes option"
  in_remaining :: int
  in_pos :: int
  in_mark_pos :: int
  in_flags :: u32
  in_error :: "int option"

definition tl_in_state_alloc :: tl_in_state where
  "tl_in_state_alloc = \<lparr>in_type = tl_type_none, in_data = [], in_mark = None, in_remaining = 0, in_pos = 0,
     in_mark_pos = 0, in_flags = 0, in_error = None\<rparr>"

definition tl_fetch_init :: "tl_in_state \<Rightarrow> bytes \<Rightarrow> tl_type \<Rightarrow> int \<Rightarrow> tl_in_state option" where
  "tl_fetch_init t data type sz = do {
     cassert (in_type t = tl_type_none);
     Some (t\<lparr>in_type := type, in_data := data, in_remaining := sz, in_pos := 0, in_flags := 0, in_error := None\<rparr>) }"

definition tlf_init_raw_message :: "tl_in_state \<Rightarrow> bytes \<Rightarrow> int \<Rightarrow> tl_in_state option" where
  "tlf_init_raw_message t msg sz = tl_fetch_init t msg tl_type_raw_msg sz"

definition tlf_init_str :: "tl_in_state \<Rightarrow> bytes \<Rightarrow> int \<Rightarrow> tl_in_state option" where
  "tlf_init_str t s sz = tl_fetch_init t s tl_type_str sz"

definition tlf_set_error :: "tl_in_state \<Rightarrow> int \<Rightarrow> tl_in_state" where
  "tlf_set_error t errnum = (if in_error t \<noteq> None then t else t\<lparr>in_error := Some errnum\<rparr>)"

subsection \<open>The methods of an input\<close>

definition fetch_raw_data :: "int \<Rightarrow> tl_in_state \<Rightarrow> (bytes \<times> tl_in_state) option" where
  "fetch_raw_data len t = do {
     cassert (0 \<le> len \<and> nat len \<le> length (in_data t));
     Some (take (nat len) (in_data t), t\<lparr>in_data := drop (nat len) (in_data t)\<rparr>) }"

definition fetch_move :: "int \<Rightarrow> tl_in_state \<Rightarrow> tl_in_state option" where
  "fetch_move len t = do {
     cassert (0 \<le> len \<and> nat len \<le> length (in_data t));
     Some (t\<lparr>in_data := drop (nat len) (in_data t)\<rparr>) }"

definition fetch_lookup :: "int \<Rightarrow> tl_in_state \<Rightarrow> bytes option" where
  "fetch_lookup len t = do {
     cassert (0 \<le> len \<and> nat len \<le> length (in_data t));
     Some (take (nat len) (in_data t)) }"

definition fetch_mark :: "tl_in_state \<Rightarrow> tl_in_state option" where
  "fetch_mark t = do {
     cassert (in_mark t = None);
     Some (t\<lparr>in_mark := Some (in_data t), in_mark_pos := in_pos t\<rparr>) }"

definition fetch_mark_restore :: "tl_in_state \<Rightarrow> tl_in_state option" where
  "fetch_mark_restore t = do {
     d \<leftarrow> in_mark t;
     let x = in_pos t - in_mark_pos t;
     Some (t\<lparr>in_data := d, in_mark := None, in_pos := in_pos t - x, in_remaining := in_remaining t + x\<rparr>) }"

definition fetch_mark_delete :: "tl_in_state \<Rightarrow> tl_in_state option" where
  "fetch_mark_delete t = do {
     cassert (in_mark t \<noteq> None);
     Some (t\<lparr>in_mark := None\<rparr>) }"

subsection \<open>Fetching\<close>

definition tlf_check :: "int \<Rightarrow> tl_in_state \<Rightarrow> bool \<times> tl_in_state" where
  "tlf_check nbytes t =
     (if in_type t = tl_type_none then (False, tlf_set_error t TL_ERROR_INTERNAL)
      else if nbytes \<ge> 0 \<and> in_remaining t < nbytes then (False, tlf_set_error t TL_ERROR_NOT_ENOUGH_DATA)
      else if nbytes < 0 \<and> in_pos t < - nbytes then (False, tlf_set_error t TL_ERROR_NOT_ENOUGH_DATA)
      else (in_error t = None, t))"

definition tlf_raw_data_unchecked :: "int \<Rightarrow> tl_in_state \<Rightarrow> (bytes \<times> tl_in_state) option" where
  "tlf_raw_data_unchecked sz t = do {
     (d, t) \<leftarrow> fetch_raw_data sz t;
     Some (d, t\<lparr>in_pos := in_pos t + sz, in_remaining := in_remaining t - sz\<rparr>) }"

definition tlf_skip_raw_data :: "int \<Rightarrow> tl_in_state \<Rightarrow> tl_in_state option" where
  "tlf_skip_raw_data sz t = do {
     t \<leftarrow> fetch_move sz t;
     Some (t\<lparr>in_pos := in_pos t + sz, in_remaining := in_remaining t - sz\<rparr>) }"

definition tlf_lookup_int :: "tl_in_state \<Rightarrow> (u32 \<times> tl_in_state) option" where
  "tlf_lookup_int t = (case tlf_check 4 t of (ok, t) \<Rightarrow>
     if \<not> ok then Some (-1, t) else do { d \<leftarrow> fetch_lookup 4 t; Some (le32 d, t) })"

definition tlf_lookup_second_int :: "tl_in_state \<Rightarrow> (u32 \<times> tl_in_state) option" where
  "tlf_lookup_second_int t = (case tlf_check 8 t of (ok, t) \<Rightarrow>
     if \<not> ok then Some (-1, t) else do { d \<leftarrow> fetch_lookup 8 t; Some (le32 (drop 4 d), t) })"

definition tlf_lookup_long :: "tl_in_state \<Rightarrow> (u64 \<times> tl_in_state) option" where
  "tlf_lookup_long t = (case tlf_check 8 t of (ok, t) \<Rightarrow>
     if \<not> ok then Some (-1, t) else do { d \<leftarrow> fetch_lookup 8 t; Some (le64 d, t) })"

text \<open>Functions that fill a buffer return their result and the bytes put there.\<close>

definition tlf_lookup_data :: "int \<Rightarrow> tl_in_state \<Rightarrow> (int \<times> bytes \<times> tl_in_state) option" where
  "tlf_lookup_data len t = (case tlf_check len t of (ok, t) \<Rightarrow>
     if \<not> ok then Some (-1, [], t) else do { d \<leftarrow> fetch_lookup len t; Some (len, d, t) })"

definition tlf_int :: "tl_in_state \<Rightarrow> (u32 \<times> tl_in_state) option" where
  "tlf_int t = (case tlf_check 4 t of (ok, t) \<Rightarrow>
     if \<not> ok then Some (-1, t) else do { (d, t) \<leftarrow> tlf_raw_data_unchecked 4 t; Some (le32 d, t) })"

definition tlf_long :: "tl_in_state \<Rightarrow> (u64 \<times> tl_in_state) option" where
  "tlf_long t = (case tlf_check 8 t of (ok, t) \<Rightarrow>
     if \<not> ok then Some (-1, t) else do { (d, t) \<leftarrow> tlf_raw_data_unchecked 8 t; Some (le64 d, t) })"

definition tlf_string_len :: "int \<Rightarrow> tl_in_state \<Rightarrow> (int \<times> tl_in_state) option" where
  "tlf_string_len max_len t = (case tlf_check 4 t of (ok, t) \<Rightarrow>
     if \<not> ok then Some (-1, t)
     else do {
       (d, t) \<leftarrow> tlf_raw_data_unchecked 1 t;
       let x = int (unat (d ! 0));
       if x = 255 then Some (-1, tlf_set_error t TL_ERROR_SYNTAX)
       else do {
         (x, t) \<leftarrow> (if x = 254 then do {
             (d, t) \<leftarrow> tlf_raw_data_unchecked 3 t;
             Some (int (unat (le32 (d @ [0]))), t) }
           else Some (x, t));
         if x > max_len then Some (-1, tlf_set_error t TL_ERROR_TOO_LONG_STRING)
         else if x > in_remaining t then Some (-1, tlf_set_error t TL_ERROR_NOT_ENOUGH_DATA)
         else Some (x, t) } })"

definition tlf_pad :: "tl_in_state \<Rightarrow> (int \<times> tl_in_state) option" where
  "tlf_pad t = (let pad = (- in_pos t) AND 3 in
     case tlf_check pad t of (ok, t) \<Rightarrow>
       if \<not> ok then Some (-1, t)
       else do {
         cassert (in_remaining t \<ge> pad);
         (d, t) \<leftarrow> tlf_raw_data_unchecked pad t;
         if \<exists>b\<in>set d. b \<noteq> 0 then Some (-1, tlf_set_error t TL_ERROR_SYNTAX) else Some (pad, t) })"

definition tlf_raw_data :: "int \<Rightarrow> tl_in_state \<Rightarrow> (int \<times> bytes \<times> tl_in_state) option" where
  "tlf_raw_data len t = do {
     cassert (len AND 3 = 0);
     case tlf_check len t of (ok, t) \<Rightarrow>
       if \<not> ok then Some (-1, [], t)
       else do { (d, t) \<leftarrow> tlf_raw_data_unchecked len t; Some (len, d, t) } }"

definition tlf_string_data :: "int \<Rightarrow> tl_in_state \<Rightarrow> (int \<times> bytes \<times> tl_in_state) option" where
  "tlf_string_data len t = (case tlf_check len t of (ok, t) \<Rightarrow>
     if \<not> ok then Some (-1, [], t)
     else do {
       (d, t) \<leftarrow> tlf_raw_data_unchecked len t;
       (r, t) \<leftarrow> tlf_pad t;
       Some (if r < 0 then -1 else len, d, t) })"

definition tlf_skip_string_data :: "int \<Rightarrow> tl_in_state \<Rightarrow> (int \<times> tl_in_state) option" where
  "tlf_skip_string_data len t = (case tlf_check len t of (ok, t) \<Rightarrow>
     if \<not> ok then Some (-1, t)
     else do {
       t \<leftarrow> tlf_skip_raw_data len t;
       (r, t) \<leftarrow> tlf_pad t;
       Some (if r < 0 then -1 else len, t) })"

definition tlf_string :: "int \<Rightarrow> tl_in_state \<Rightarrow> (int \<times> bytes \<times> tl_in_state) option" where
  "tlf_string max_len t = do {
     (l, t) \<leftarrow> tlf_string_len max_len t;
     if l < 0 then Some (-1, [], t)
     else do {
       (r, d, t) \<leftarrow> tlf_string_data l t;
       Some (if r < 0 then -1 else l, d, t) } }"

definition tlf_skip_string :: "int \<Rightarrow> tl_in_state \<Rightarrow> (int \<times> tl_in_state) option" where
  "tlf_skip_string max_len t = do {
     (l, t) \<leftarrow> tlf_string_len max_len t;
     if l < 0 then Some (-1, t)
     else do {
       (r, t) \<leftarrow> tlf_skip_string_data l t;
       Some (if r < 0 then -1 else l, t) } }"

text \<open>\<open>tlf_string0\<close> ends the bytes in the buffer with a zero.\<close>

definition tlf_string0 :: "int \<Rightarrow> tl_in_state \<Rightarrow> (int \<times> bytes \<times> tl_in_state) option" where
  "tlf_string0 max_len t = do {
     (l, t) \<leftarrow> tlf_string_len max_len t;
     if l < 0 then Some (-1, [], t)
     else do {
       (r, d, t) \<leftarrow> tlf_string_data l t;
       Some (if r < 0 then (-1, d, t) else (l, d @ [0], t)) } }"

definition tlf_end :: "tl_in_state \<Rightarrow> int \<times> tl_in_state" where
  "tlf_end t = (if in_remaining t \<noteq> 0 \<and> in_flags t AND 1 = 0 then (-1, tlf_set_error t TL_ERROR_EXTRA_DATA) else (1, t))"

definition tlf_check_str_end :: "int \<Rightarrow> tl_in_state \<Rightarrow> int \<times> tl_in_state" where
  "tlf_check_str_end sz t =
     (if in_remaining t \<noteq> sz + ((- sz - in_pos t) AND 3) then (-1, tlf_set_error t TL_ERROR_EXTRA_DATA) else (1, t))"

definition tlf_skip :: "int \<Rightarrow> tl_in_state \<Rightarrow> (int \<times> tl_in_state) option" where
  "tlf_skip len t = (case tlf_check len t of (ok, t) \<Rightarrow>
     if \<not> ok then Some (-1, t) else do { t \<leftarrow> tlf_skip_raw_data len t; Some (len, t) })"

definition tlf_int_range :: "int \<Rightarrow> int \<Rightarrow> tl_in_state \<Rightarrow> (u32 \<times> tl_in_state) option" where
  "tlf_int_range lo hi t = do {
     (x, t) \<leftarrow> tlf_int t;
     Some (x, if sint x < lo \<or> sint x > hi then tlf_set_error t TL_ERROR_VALUE_NOT_IN_RANGE else t) }"

definition tlf_int_subset :: "u32 \<Rightarrow> tl_in_state \<Rightarrow> (u32 \<times> tl_in_state) option" where
  "tlf_int_subset bits t = do {
     (x, t) \<leftarrow> tlf_int t;
     Some (x, if x AND NOT bits \<noteq> 0 then tlf_set_error t TL_ERROR_VALUE_NOT_IN_RANGE else t) }"

definition tlf_long_range :: "int \<Rightarrow> int \<Rightarrow> tl_in_state \<Rightarrow> (u64 \<times> tl_in_state) option" where
  "tlf_long_range lo hi t = do {
     (x, t) \<leftarrow> tlf_long t;
     Some (x, if sint x < lo \<or> sint x > hi then tlf_set_error t TL_ERROR_VALUE_NOT_IN_RANGE else t) }"

text \<open>The message cut off (or, without \<^verbatim>\<open>advance\<close>, copied) from the front of the input.\<close>

definition tlf_raw_message :: "int \<Rightarrow> bool \<Rightarrow> tl_in_state \<Rightarrow> (int \<times> bytes \<times> tl_in_state) option" where
  "tlf_raw_message len advance t = (case tlf_check len t of (ok, t) \<Rightarrow>
     if \<not> ok then Some (-1, [], t)
     else if advance then do { (d, t) \<leftarrow> tlf_raw_data_unchecked len t; Some (0, d, t) }
     else do { d \<leftarrow> fetch_lookup len t; Some (0, d, t) })"

section \<open>Query headers\<close>

record tl_query_header =
  h_qid :: u64
  h_actor_id :: u64
  h_flags :: u32
  h_op :: u32
  h_real_op :: u32
  h_ref_cnt :: int

definition tl_query_header_zero :: tl_query_header where
  "tl_query_header_zero = \<lparr>h_qid = 0, h_actor_id = 0, h_flags = 0, h_op = 0, h_real_op = 0, h_ref_cnt = 0\<rparr>"

definition tlf_query_flags :: "tl_query_header \<Rightarrow> tl_in_state \<Rightarrow> (int \<times> tl_query_header \<times> tl_in_state) option" where
  "tlf_query_flags h t = do {
     (flags, t) \<leftarrow> tlf_int t;
     if in_error t \<noteq> None then Some (-1, h, t)
     else if h_flags h AND flags \<noteq> 0 then Some (-1, h, tlf_set_error t TL_ERROR_HEADER)
     else if flags \<noteq> 0 then Some (-1, h, tlf_set_error t TL_ERROR_HEADER)
     else Some (0, h\<lparr>h_flags := h_flags h OR flags\<rparr>, t) }"

text \<open>
  The loops over the optional parts of a header are partial functions whose result \<open>None\<close> means that
  the loop does not return; \<open>Some None\<close> is a failed assertion.

  One iteration of the loop of \<open>tlf_query_header\<close>: whether it goes on, the header and the input.
\<close>

definition query_header_step :: "tl_query_header \<Rightarrow> tl_in_state \<Rightarrow> (bool \<times> tl_query_header \<times> tl_in_state) option" where
  "query_header_step h t = do {
     (opc, t) \<leftarrow> tlf_lookup_int t;
     if opc = RPC_DEST_ACTOR then do {
       (x, t) \<leftarrow> tlf_int t;
       cassert (x = RPC_DEST_ACTOR);
       (a, t) \<leftarrow> tlf_long t;
       Some (True, h\<lparr>h_actor_id := a\<rparr>, t) }
     else if opc = RPC_DEST_ACTOR_FLAGS then do {
       (x, t) \<leftarrow> tlf_int t;
       cassert (x = RPC_DEST_ACTOR_FLAGS);
       (a, t) \<leftarrow> tlf_long t;
       (r, h, t) \<leftarrow> tlf_query_flags (h\<lparr>h_actor_id := a\<rparr>) t;
       Some (True, h, t) }
     else if opc = RPC_DEST_FLAGS then do {
       (x, t) \<leftarrow> tlf_int t;
       cassert (x = RPC_DEST_FLAGS);
       (r, h, t) \<leftarrow> tlf_query_flags h t;
       Some (True, h, t) }
     else Some (False, h, t) }"

partial_function (option) query_header_loop ::
  "int \<Rightarrow> tl_query_header \<Rightarrow> tl_in_state \<Rightarrow> (int \<times> tl_query_header \<times> tl_in_state) option option" where
  [code]: "query_header_loop unread h t =
     (case query_header_step h t of
        None \<Rightarrow> Some None
      | Some (again, h, t) \<Rightarrow>
          if in_error t \<noteq> None then Some (Some (-1, h, t))
          else if \<not> again then Some (Some (unread - in_remaining t, h, t))
          else query_header_loop unread h t)"

definition tlf_query_header :: "tl_in_state \<Rightarrow> (int \<times> tl_query_header \<times> tl_in_state) option option" where
  "tlf_query_header t =
     (let unread = in_remaining t in
      case tlf_int t of
        None \<Rightarrow> Some None
      | Some (opc, t) \<Rightarrow>
          let h = tl_query_header_zero\<lparr>h_op := opc, h_real_op := opc, h_ref_cnt := 1\<rparr> in
          if opc \<noteq> RPC_INVOKE_REQ \<and> opc \<noteq> RPC_INVOKE_KPHP_REQ then Some (Some (-1, h, tlf_set_error t TL_ERROR_HEADER))
          else case tlf_long t of
            None \<Rightarrow> Some None
          | Some (q, t) \<Rightarrow>
              let h = h\<lparr>h_qid := q\<rparr> in
              if opc = RPC_INVOKE_KPHP_REQ then
                (if in_error t \<noteq> None then Some (Some (-1, h, t)) else Some (Some (unread - in_remaining t, h, t)))
              else query_header_loop unread h t)"

definition answer_header_step :: "tl_query_header \<Rightarrow> tl_in_state \<Rightarrow> (bool \<times> tl_query_header \<times> tl_in_state) option" where
  "answer_header_step h t =
     (if h_op h \<noteq> RPC_REQ_ERROR then do {
        (opc, t) \<leftarrow> tlf_lookup_int t;
        if opc = RPC_REQ_ERROR then do {
          (x, t) \<leftarrow> tlf_int t;
          cassert (x = RPC_REQ_ERROR);
          (q, t) \<leftarrow> tlf_long t;
          Some (True, h\<lparr>h_op := RPC_REQ_ERROR_WRAPPED\<rparr>, t) }
        else if opc = RPC_REQ_ERROR_WRAPPED then Some (True, h\<lparr>h_op := RPC_REQ_ERROR_WRAPPED\<rparr>, t)
        else if opc = RPC_REQ_RESULT_FLAGS then do {
          (x, t) \<leftarrow> tlf_int t;
          cassert (x = RPC_REQ_RESULT_FLAGS);
          (r, h, t) \<leftarrow> tlf_query_flags h t;
          Some (True, h, t) }
        else Some (False, h, t) }
      else Some (False, h, t))"

partial_function (option) answer_header_loop ::
  "int \<Rightarrow> tl_query_header \<Rightarrow> tl_in_state \<Rightarrow> (int \<times> tl_query_header \<times> tl_in_state) option option" where
  [code]: "answer_header_loop unread h t =
     (case answer_header_step h t of
        None \<Rightarrow> Some None
      | Some (again, h, t) \<Rightarrow>
          if in_error t \<noteq> None then Some (Some (-1, h, t))
          else if \<not> again then Some (Some (unread - in_remaining t, h, t))
          else answer_header_loop unread h t)"

definition tlf_query_answer_header :: "tl_in_state \<Rightarrow> (int \<times> tl_query_header \<times> tl_in_state) option option" where
  "tlf_query_answer_header t =
     (let unread = in_remaining t in
      case tlf_int t of
        None \<Rightarrow> Some None
      | Some (opc, t) \<Rightarrow>
          let h = tl_query_header_zero\<lparr>h_op := opc, h_real_op := opc, h_ref_cnt := 1\<rparr> in
          if opc \<noteq> RPC_REQ_ERROR \<and> opc \<noteq> RPC_REQ_RESULT then Some (Some (-1, h, tlf_set_error t TL_ERROR_HEADER))
          else case tlf_long t of
            None \<Rightarrow> Some None
          | Some (q, t) \<Rightarrow> answer_header_loop unread (h\<lparr>h_qid := q\<rparr>) t)"

section \<open>Output\<close>

text \<open>The tables of methods; \<open>OutNone\<close> is \<^verbatim>\<open>tl_type_none\<close>. All others allow to prepend and prepend no bytes of their own.\<close>

datatype tl_out_methods = OutNone | OutStr | OutRawMsg | OutRawMsgNosend | OutTcp | OutTcpUnaligned

record tl_out_state =
  out_methods :: tl_out_methods
  out_data :: bytes
  out_pos :: int
  out_remaining :: int
  out_qid :: u64
  out_error :: "(int \<times> bytes) option"

definition tl_store_init :: "tl_out_methods \<Rightarrow> int \<Rightarrow> u64 \<Rightarrow> tl_out_state" where
  "tl_store_init m sz qid =
     \<lparr>out_methods = m, out_data = [], out_pos = 0, out_remaining = sz, out_qid = qid, out_error = None\<rparr>"

text \<open>\<open>tls_init_tcp_raw_msg\<close> and its variants; without a connection the output is \<^verbatim>\<open>tl_type_none\<close>.\<close>

definition tls_init_tcp_raw_msg :: "bool \<Rightarrow> u64 \<Rightarrow> tl_out_state" where
  "tls_init_tcp_raw_msg conn qid = tl_store_init (if conn then OutTcp else OutNone) (2 ^ 27) qid"

definition tls_init_tcp_raw_msg_unaligned :: "bool \<Rightarrow> u64 \<Rightarrow> tl_out_state" where
  "tls_init_tcp_raw_msg_unaligned conn qid = tl_store_init (if conn then OutTcpUnaligned else OutNone) (2 ^ 27) qid"

definition tls_init_str :: "u64 \<Rightarrow> int \<Rightarrow> tl_out_state" where
  "tls_init_str qid sz = tl_store_init OutStr sz qid"

definition tls_set_error :: "tl_out_state \<Rightarrow> int \<Rightarrow> bytes \<Rightarrow> tl_out_state" where
  "tls_set_error t errnum msg = (if out_error t \<noteq> None then t else t\<lparr>out_error := Some (errnum, msg)\<rparr>)"

definition tls_check :: "int \<Rightarrow> tl_out_state \<Rightarrow> bool" where
  "tls_check sz t \<longleftrightarrow> out_methods t \<noteq> OutNone \<and> sz \<le> out_remaining t"

definition tls_raw_data_unchecked :: "bytes \<Rightarrow> tl_out_state \<Rightarrow> tl_out_state" where
  "tls_raw_data_unchecked s t = t\<lparr>out_data := out_data t @ s, out_pos := out_pos t + int (length s),
     out_remaining := out_remaining t - int (length s)\<rparr>"

text \<open>Also \<^verbatim>\<open>tls_get_ptr\<close> followed by the store through the pointer.\<close>

definition tls_raw_data :: "bytes \<Rightarrow> tl_out_state \<Rightarrow> tl_out_state option" where
  "tls_raw_data s t = do {
     cassert (tls_check (int (length s)) t);
     Some (tls_raw_data_unchecked s t) }"

text \<open>\<open>tls_get_prepend_ptr\<close> followed by the store of \<open>s\<close>.\<close>

definition tls_prepend :: "bytes \<Rightarrow> tl_out_state \<Rightarrow> tl_out_state option" where
  "tls_prepend s t = do {
     cassert (tls_check (int (length s)) t);
     Some (t\<lparr>out_data := s @ out_data t, out_pos := out_pos t + int (length s),
       out_remaining := out_remaining t - int (length s)\<rparr>) }"

definition tls_int :: "u32 \<Rightarrow> tl_out_state \<Rightarrow> tl_out_state option" where
  "tls_int x t = tls_raw_data (bytes32 x) t"

definition tls_long :: "u64 \<Rightarrow> tl_out_state \<Rightarrow> tl_out_state option" where
  "tls_long x t = tls_raw_data (bytes64 x) t"

definition tls_string_len :: "nat \<Rightarrow> tl_out_state \<Rightarrow> tl_out_state option" where
  "tls_string_len len t = do {
     cassert (tls_check 4 t);
     if len < 254 then Some (tls_raw_data_unchecked [word_of_nat len] t)
     else do {
       cassert (len < 2 ^ 24);
       Some (tls_raw_data_unchecked (bytes32 (push_bit 8 (word_of_nat len) + 0xfe)) t) } }"

definition tls_pad :: "tl_out_state \<Rightarrow> tl_out_state option" where
  "tls_pad t = do {
     cassert (tls_check 0 t);
     Some (tls_raw_data_unchecked (replicate (nat ((- out_pos t) AND 3)) 0) t) }"

definition tls_string_data :: "bytes \<Rightarrow> tl_out_state \<Rightarrow> tl_out_state option" where
  "tls_string_data s t = do {
     cassert (tls_check (int (length s)) t);
     tls_pad (tls_raw_data_unchecked s t) }"

definition tls_string :: "bytes \<Rightarrow> tl_out_state \<Rightarrow> tl_out_state option" where
  "tls_string s t = do {
     t \<leftarrow> tls_string_len (length s) t;
     tls_string_data s t }"

definition tls_raw_msg :: "bytes \<Rightarrow> tl_out_state \<Rightarrow> tl_out_state option" where
  "tls_raw_msg raw t = do {
     cassert (tls_check (int (length raw)) t);
     Some (tls_raw_data_unchecked raw t) }"

definition tls_clean :: "tl_out_state \<Rightarrow> tl_out_state option" where
  "tls_clean t = do {
     cassert (out_methods t \<noteq> OutNone);
     Some (t\<lparr>out_data := take (length (out_data t) - nat (out_pos t)) (out_data t),
       out_remaining := out_remaining t + out_pos t, out_pos := 0\<rparr>) }"

definition tls_header :: "tl_query_header \<Rightarrow> tl_out_state \<Rightarrow> tl_out_state option" where
  "tls_header h t = do {
     cassert (tls_check 0 t);
     cassert (h_op h = RPC_REQ_ERROR \<or> h_op h = RPC_REQ_RESULT \<or> h_op h = RPC_INVOKE_REQ \<or> h_op h = RPC_REQ_ERROR_WRAPPED);
     if h_op h = RPC_INVOKE_REQ then
       if h_flags h \<noteq> 0 then do {
         t \<leftarrow> tls_int RPC_DEST_ACTOR_FLAGS t;
         t \<leftarrow> tls_long (h_actor_id h) t;
         tls_int (h_flags h) t }
       else if h_actor_id h \<noteq> 0 then do {
         t \<leftarrow> tls_int RPC_DEST_ACTOR t;
         tls_long (h_actor_id h) t }
       else Some t
     else if h_op h = RPC_REQ_ERROR_WRAPPED then do {
       t \<leftarrow> tls_int RPC_REQ_ERROR t;
       tls_long (out_qid t) t }
     else if h_op h = RPC_REQ_RESULT then
       if h_flags h \<noteq> 0 then do {
         t \<leftarrow> tls_int RPC_REQ_RESULT_FLAGS t;
         tls_int (h_flags h) t }
       else Some t
     else Some t }"

text \<open>
  \<open>tls_end_ext\<close>: the finished message and, for a connection, the flags of \<^verbatim>\<open>tcp_rpc_conn_send\<close>; nothing for
  \<^verbatim>\<open>tl_type_none\<close>. Flushing a plain raw message is an \<^verbatim>\<open>assert (0)\<close>, and the table without sending has no
  flush.
\<close>

definition tls_end_ext :: "tl_out_state \<Rightarrow> u32 \<Rightarrow> (bytes \<times> nat) option option" where
  "tls_end_ext t opc =
     (if out_methods t = OutNone then Some None
      else do {
        t \<leftarrow> (case out_error t of
            None \<Rightarrow> Some t
          | Some (errnum, msg) \<Rightarrow> do {
              t \<leftarrow> tls_clean t;
              t \<leftarrow> tls_int RPC_REQ_ERROR t;
              t \<leftarrow> tls_long (out_qid t) t;
              t \<leftarrow> tls_int (word_of_int errnum) t;
              tls_string msg t });
        cassert (out_methods t = OutTcpUnaligned \<or> out_pos t AND 3 = 0);
        t \<leftarrow> (if out_qid t \<noteq> 0 then do {
            cassert (opc \<noteq> 0);
            tls_prepend (bytes32 opc @ bytes64 (out_qid t)) t }
          else Some t);
        case out_methods t of
          OutStr \<Rightarrow> Some (Some (out_data t, 0))
        | OutTcp \<Rightarrow> Some (Some (out_data t, 4))
        | OutTcpUnaligned \<Rightarrow> Some (Some (out_data t, 12))
        | _ \<Rightarrow> None })"

section \<open>Copying from input to output\<close>

text \<open>
  The methods \<^verbatim>\<open>copy_through\<close> by type of the input. A string input is advanced by the value of the flag
  \<^verbatim>\<open>advance\<close>, a message by the bytes copied.
\<close>

definition copy_through :: "int \<Rightarrow> nat \<Rightarrow> tl_in_state \<Rightarrow> tl_out_state \<Rightarrow> (tl_in_state \<times> tl_out_state) option" where
  "copy_through len advance ti to = do {
     d \<leftarrow> fetch_lookup len ti;
     let n = (if in_type ti = tl_type_str then advance else if advance \<noteq> 0 then nat len else 0);
     Some (ti\<lparr>in_data := drop n (in_data ti)\<rparr>, to\<lparr>out_data := out_data to @ d\<rparr>) }"

definition tl_copy_through ::
  "int \<Rightarrow> nat \<Rightarrow> tl_in_state \<Rightarrow> tl_out_state \<Rightarrow> (int \<times> tl_in_state \<times> tl_out_state) option" where
  "tl_copy_through len advance ti to =
     (if in_type ti = tl_type_none \<or> out_methods to = OutNone then Some (-1, ti, to)
      else case tlf_check len ti of (ok, ti) \<Rightarrow>
        if \<not> ok \<or> \<not> tls_check len to then Some (-1, ti, to)
        else do {
          (ti, to) \<leftarrow> copy_through len advance ti to;
          let ti = (if advance \<noteq> 0 then ti\<lparr>in_pos := in_pos ti + len, in_remaining := in_remaining ti - len\<rparr> else ti);
          Some (len, ti, to\<lparr>out_pos := out_pos to + len, out_remaining := out_remaining to - len\<rparr>) })"

section \<open>Reading is safe\<close>

text \<open>The input stands at \<open>in_pos\<close> in the message.\<close>

definition reads :: "bytes \<Rightarrow> tl_in_state \<Rightarrow> bool" where
  "reads msg t \<longleftrightarrow> 0 \<le> in_pos t \<and> 0 \<le> in_remaining t \<and> in_pos t + in_remaining t = int (length msg) \<and>
     in_data t = drop (nat (in_pos t)) msg"

text \<open>What a fetch may do: move forward; after an error, nothing.\<close>

definition moves :: "bytes \<Rightarrow> tl_in_state \<Rightarrow> tl_in_state \<Rightarrow> bool" where
  "moves msg t t' \<longleftrightarrow> reads msg t' \<and> in_pos t \<le> in_pos t' \<and> (in_error t \<noteq> None \<longrightarrow> t' = t) \<and>
     in_type t' = in_type t \<and> in_flags t' = in_flags t \<and> in_mark t' = in_mark t \<and> in_mark_pos t' = in_mark_pos t"

lemma reads_length: "reads msg t \<Longrightarrow> n \<le> in_remaining t \<Longrightarrow> nat n \<le> length (in_data t)"
  by (auto simp: reads_def)

lemma moves_refl: "reads msg t \<Longrightarrow> moves msg t t"
  by (simp add: moves_def)

lemma moves_trans: "moves msg t t' \<Longrightarrow> moves msg t' t'' \<Longrightarrow> moves msg t t''"
  by (auto simp: moves_def)

lemma moves_reads: "moves msg t t' \<Longrightarrow> reads msg t'"
  by (simp add: moves_def)

lemma moves_error: "reads msg t \<Longrightarrow> moves msg t (tlf_set_error t e)"
  by (simp add: moves_def reads_def tlf_set_error_def)

lemma moves_set_error: "moves msg t t' \<Longrightarrow> moves msg t (tlf_set_error t' e)"
  using moves_trans moves_error moves_reads by blast

lemma set_error_Some [simp]: "\<exists>y. in_error (tlf_set_error t e) = Some y"
  by (auto simp: tlf_set_error_def)

lemma tlf_check_ok:
  assumes "0 \<le> n"
  shows "fst (tlf_check n t) \<longleftrightarrow> in_type t \<noteq> tl_type_none \<and> n \<le> in_remaining t \<and> in_error t = None"
  using assms by (auto simp: tlf_check_def)

lemma tlf_check_True: "tlf_check n t = (True, t') \<Longrightarrow> t' = t"
  by (auto simp: tlf_check_def split: if_split_asm)

lemma tlf_check_moves: "reads msg t \<Longrightarrow> tlf_check n t = (ok, t') \<Longrightarrow> moves msg t t' \<and> (\<not> ok \<longrightarrow> in_error t' \<noteq> None)"
  by (auto simp: tlf_check_def moves_refl moves_error simp del: not_None_eq split: if_split_asm)

lemma check_cases:
  assumes r: "reads msg t" and n: "0 \<le> n"
  obtains (fail) t' where "tlf_check n t = (False, t')" "moves msg t t'" "in_error t' \<noteq> None"
  | (ok) "tlf_check n t = (True, t)" "n \<le> in_remaining t" "in_error t = None" "in_type t \<noteq> tl_type_none"
proof -
  obtain b t' where c: "tlf_check n t = (b, t')" by fastforce
  show thesis
  proof (cases b)
    case True
    then show thesis using c tlf_check_True tlf_check_ok [OF n, of t] by (intro ok) auto
  next
    case False
    then show thesis using c tlf_check_moves [OF r c] by (intro fail) auto
  qed
qed

lemma raw_data_moves:
  assumes r: "reads msg t" and n: "0 \<le> n" "n \<le> in_remaining t" and e: "in_error t = None"
  shows "\<exists>t'. tlf_raw_data_unchecked n t = Some (take (nat n) (in_data t), t') \<and> moves msg t t' \<and>
    in_pos t' = in_pos t + n \<and> in_error t' = None \<and> in_data t' = drop (nat n) (in_data t)"
proof -
  have "nat n \<le> length (in_data t)" using reads_length [OF r n(2)] .
  moreover have "drop (nat n) (in_data t) = drop (nat (in_pos t + n)) msg"
    using r n by (simp add: reads_def nat_add_distrib add.commute)
  ultimately show ?thesis
    using r n e by (auto simp: tlf_raw_data_unchecked_def fetch_raw_data_def moves_def reads_def)
qed

lemma skip_raw_data_moves:
  assumes r: "reads msg t" and n: "0 \<le> n" "n \<le> in_remaining t" and e: "in_error t = None"
  shows "\<exists>t'. tlf_skip_raw_data n t = Some t' \<and> moves msg t t' \<and> in_error t' = None"
proof -
  have "nat n \<le> length (in_data t)" using reads_length [OF r n(2)] .
  moreover have "drop (nat n) (in_data t) = drop (nat (in_pos t + n)) msg"
    using r n by (simp add: reads_def nat_add_distrib add.commute)
  ultimately show ?thesis
    using r n e by (auto simp: tlf_skip_raw_data_def fetch_move_def moves_def reads_def)
qed

lemma fetch_lookup_ok: "reads msg t \<Longrightarrow> 0 \<le> n \<Longrightarrow> n \<le> in_remaining t \<Longrightarrow> fetch_lookup n t = Some (take (nat n) (in_data t))"
  using reads_length [of msg t n] by (simp add: fetch_lookup_def)

lemma lookup_int_moves: "reads msg t \<Longrightarrow> \<exists>r t'. tlf_lookup_int t = Some (r, t') \<and> moves msg t t'"
  by (rule check_cases [of msg t 4]) (auto simp: tlf_lookup_int_def fetch_lookup_ok moves_refl)

lemma lookup_second_int_moves: "reads msg t \<Longrightarrow> \<exists>r t'. tlf_lookup_second_int t = Some (r, t') \<and> moves msg t t'"
  by (rule check_cases [of msg t 8]) (auto simp: tlf_lookup_second_int_def fetch_lookup_ok moves_refl)

lemma lookup_long_moves: "reads msg t \<Longrightarrow> \<exists>r t'. tlf_lookup_long t = Some (r, t') \<and> moves msg t t'"
  by (rule check_cases [of msg t 8]) (auto simp: tlf_lookup_long_def fetch_lookup_ok moves_refl)

lemma lookup_data_moves: "reads msg t \<Longrightarrow> 0 \<le> n \<Longrightarrow> \<exists>r d t'. tlf_lookup_data n t = Some (r, d, t') \<and> moves msg t t'"
  by (rule check_cases [of msg t n]) (auto simp: tlf_lookup_data_def fetch_lookup_ok moves_refl)

lemma int_moves: "reads msg t \<Longrightarrow> \<exists>r t'. tlf_int t = Some (r, t') \<and> moves msg t t'"
  by (rule check_cases [of msg t 4]) (use raw_data_moves [of msg t 4] in \<open>auto simp: tlf_int_def\<close>)

lemma long_moves: "reads msg t \<Longrightarrow> \<exists>r t'. tlf_long t = Some (r, t') \<and> moves msg t t'"
  by (rule check_cases [of msg t 8]) (use raw_data_moves [of msg t 8] in \<open>auto simp: tlf_long_def\<close>)

lemma int_range_moves: "reads msg t \<Longrightarrow> \<exists>r t'. tlf_int_range lo hi t = Some (r, t') \<and> moves msg t t'"
  using int_moves [of msg t] by (auto simp: tlf_int_range_def intro: moves_set_error)

lemma int_subset_moves: "reads msg t \<Longrightarrow> \<exists>r t'. tlf_int_subset bits t = Some (r, t') \<and> moves msg t t'"
  using int_moves [of msg t] by (auto simp: tlf_int_subset_def intro: moves_set_error)

lemma long_range_moves: "reads msg t \<Longrightarrow> \<exists>r t'. tlf_long_range lo hi t = Some (r, t') \<and> moves msg t t'"
  using long_moves [of msg t] by (auto simp: tlf_long_range_def intro: moves_set_error)

lemma skip_moves: "reads msg t \<Longrightarrow> 0 \<le> n \<Longrightarrow> \<exists>r t'. tlf_skip n t = Some (r, t') \<and> moves msg t t'"
  by (rule check_cases [of msg t n]) (use skip_raw_data_moves [of msg t n] in \<open>auto simp: tlf_skip_def\<close>)

lemma raw_moves: "reads msg t \<Longrightarrow> 0 \<le> n \<Longrightarrow> n AND 3 = 0 \<Longrightarrow> \<exists>r d t'. tlf_raw_data n t = Some (r, d, t') \<and> moves msg t t'"
  by (rule check_cases [of msg t n]) (use raw_data_moves [of msg t n] in \<open>auto simp: tlf_raw_data_def\<close>)

lemma raw_message_moves: "reads msg t \<Longrightarrow> 0 \<le> n \<Longrightarrow> \<exists>r d t'. tlf_raw_message n a t = Some (r, d, t') \<and> moves msg t t'"
  by (rule check_cases [of msg t n])
    (use raw_data_moves [of msg t n] in \<open>auto simp: tlf_raw_message_def fetch_lookup_ok moves_refl\<close>)

lemma and3: "(x :: int) AND 3 = x mod 4"
proof -
  have "x AND mask 2 = x mod 2 ^ 2" by (simp add: take_bit_eq_mask [symmetric] take_bit_eq_mod)
  then show ?thesis by (simp add: mask_eq_exp_minus_1)
qed

lemma pad_moves: "reads msg t \<Longrightarrow> \<exists>r t'. tlf_pad t = Some (r, t') \<and> moves msg t t'"
proof -
  assume r: "reads msg t"
  let ?n = "(- in_pos t) mod 4"
  show ?thesis
  proof (rule check_cases [OF r, of ?n])
    show "0 \<le> ?n" by simp
    fix t' assume "tlf_check ?n t = (False, t')" "moves msg t t'"
    then show ?thesis by (auto simp: tlf_pad_def and3)
  next
    assume c: "tlf_check ?n t = (True, t)" "?n \<le> in_remaining t" "in_error t = None"
    obtain t' where "tlf_raw_data_unchecked ?n t = Some (take (nat ?n) (in_data t), t')" "moves msg t t'"
      using raw_data_moves [OF r _ c(2,3)] by auto
    then show ?thesis using c by (auto simp: tlf_pad_def and3 Let_def intro: moves_set_error)
  qed
qed

lemma string_len_moves:
  assumes r: "reads msg t"
  shows "\<exists>l t'. tlf_string_len m t = Some (l, t') \<and> moves msg t t' \<and> (0 \<le> l \<longrightarrow> l \<le> in_remaining t')"
proof (rule check_cases [OF r, of 4])
  fix t' assume "tlf_check 4 t = (False, t')" "moves msg t t'"
  then show ?thesis by (auto simp: tlf_string_len_def)
next
  assume c: "tlf_check 4 t = (True, t)" "4 \<le> in_remaining t" "in_error t = None"
  obtain t1 where t1: "tlf_raw_data_unchecked 1 t = Some (take 1 (in_data t), t1)" "moves msg t t1" "in_pos t1 = in_pos t + 1"
    "in_error t1 = None" using raw_data_moves [OF r, of 1] c by auto
  have rem: "3 \<le> in_remaining t1" using t1(2,3) r c(2) by (auto simp: moves_def reads_def)
  obtain t2 where t2: "tlf_raw_data_unchecked 3 t1 = Some (take 3 (in_data t1), t2)" "moves msg t1 t2"
    using raw_data_moves [OF moves_reads [OF t1(2)], of 3] rem t1(4) by auto
  have m2: "moves msg t t2" using moves_trans [OF t1(2) t2(2)] .
  note facts = t1(1,2) t2(1) m2
  show ?thesis
    unfolding tlf_string_len_def c(1) using facts
    by (auto simp: Let_def intro: moves_set_error)
qed simp

lemma string_data_moves:
  assumes r: "reads msg t" and n: "0 \<le> n"
  shows "\<exists>l d t'. tlf_string_data n t = Some (l, d, t') \<and> moves msg t t'"
proof (rule check_cases [OF r n])
  fix t' assume "tlf_check n t = (False, t')" "moves msg t t'"
  then show ?thesis by (auto simp: tlf_string_data_def)
next
  assume c: "tlf_check n t = (True, t)" "n \<le> in_remaining t" "in_error t = None"
  obtain t1 where t1: "tlf_raw_data_unchecked n t = Some (take (nat n) (in_data t), t1)" "moves msg t t1"
    using raw_data_moves [OF r n c(2,3)] by auto
  obtain l t2 where t2: "tlf_pad t1 = Some (l, t2)" "moves msg t1 t2" using pad_moves [OF moves_reads [OF t1(2)]] by auto
  then show ?thesis using c(1) t1 moves_trans [OF t1(2) t2(2)] by (auto simp: tlf_string_data_def)
qed

lemma skip_string_data_moves:
  assumes r: "reads msg t" and n: "0 \<le> n"
  shows "\<exists>l t'. tlf_skip_string_data n t = Some (l, t') \<and> moves msg t t'"
proof (rule check_cases [OF r n])
  fix t' assume "tlf_check n t = (False, t')" "moves msg t t'"
  then show ?thesis by (auto simp: tlf_skip_string_data_def)
next
  assume c: "tlf_check n t = (True, t)" "n \<le> in_remaining t" "in_error t = None"
  obtain t1 where t1: "tlf_skip_raw_data n t = Some t1" "moves msg t t1"
    using skip_raw_data_moves [OF r n c(2,3)] by auto
  obtain l t2 where t2: "tlf_pad t1 = Some (l, t2)" "moves msg t1 t2" using pad_moves [OF moves_reads [OF t1(2)]] by auto
  then show ?thesis using c(1) t1 moves_trans [OF t1(2) t2(2)] by (auto simp: tlf_skip_string_data_def)
qed

lemma string_moves:
  assumes r: "reads msg t"
  shows "\<exists>l d t'. tlf_string m t = Some (l, d, t') \<and> moves msg t t'"
    and "\<exists>l d t'. tlf_string0 m t = Some (l, d, t') \<and> moves msg t t'"
    and "\<exists>l t'. tlf_skip_string m t = Some (l, t') \<and> moves msg t t'"
proof -
  obtain l t1 where 1: "tlf_string_len m t = Some (l, t1)" "moves msg t t1" using string_len_moves [OF r] by blast
  show "\<exists>l d t'. tlf_string m t = Some (l, d, t') \<and> moves msg t t'"
    "\<exists>l d t'. tlf_string0 m t = Some (l, d, t') \<and> moves msg t t'"
    "\<exists>l t'. tlf_skip_string m t = Some (l, t') \<and> moves msg t t'"
  proof -
    show "\<exists>l d t'. tlf_string m t = Some (l, d, t') \<and> moves msg t t'"
      using 1 string_data_moves [OF moves_reads [OF 1(2)], of l] moves_trans [OF 1(2)]
      by (cases "l < 0") (auto simp: tlf_string_def)
    show "\<exists>l d t'. tlf_string0 m t = Some (l, d, t') \<and> moves msg t t'"
      using 1 string_data_moves [OF moves_reads [OF 1(2)], of l] moves_trans [OF 1(2)]
      by (cases "l < 0") (auto simp: tlf_string0_def)
    show "\<exists>l t'. tlf_skip_string m t = Some (l, t') \<and> moves msg t t'"
      using 1 skip_string_data_moves [OF moves_reads [OF 1(2)], of l] moves_trans [OF 1(2)]
      by (cases "l < 0") (auto simp: tlf_skip_string_def)
  qed
qed

text \<open>The fetches of a parser of messages, with their arguments.\<close>

datatype tl_fetch_call =
  FInt | FLong | FLookupInt | FLookupSecondInt | FLookupLong | FLookupData nat | FString int | FString0 int
| FSkipString int | FRawData nat | FSkip nat | FRawMessage nat bool | FIntRange int int | FIntSubset u32 | FLongRange int int
| FEnd | FCheckStrEnd int

fun tl_fetch :: "tl_fetch_call \<Rightarrow> tl_in_state \<Rightarrow> tl_in_state option" where
  "tl_fetch FInt t = map_option snd (tlf_int t)"
| "tl_fetch FLong t = map_option snd (tlf_long t)"
| "tl_fetch FLookupInt t = map_option snd (tlf_lookup_int t)"
| "tl_fetch FLookupSecondInt t = map_option snd (tlf_lookup_second_int t)"
| "tl_fetch FLookupLong t = map_option snd (tlf_lookup_long t)"
| "tl_fetch (FLookupData n) t = map_option (snd \<circ> snd) (tlf_lookup_data (int n) t)"
| "tl_fetch (FString m) t = map_option (snd \<circ> snd) (tlf_string m t)"
| "tl_fetch (FString0 m) t = map_option (snd \<circ> snd) (tlf_string0 m t)"
| "tl_fetch (FSkipString m) t = map_option snd (tlf_skip_string m t)"
| "tl_fetch (FRawData n) t = map_option (snd \<circ> snd) (tlf_raw_data (4 * int n) t)"
| "tl_fetch (FSkip n) t = map_option snd (tlf_skip (int n) t)"
| "tl_fetch (FRawMessage n a) t = map_option (snd \<circ> snd) (tlf_raw_message (int n) a t)"
| "tl_fetch (FIntRange lo hi) t = map_option snd (tlf_int_range lo hi t)"
| "tl_fetch (FIntSubset b) t = map_option snd (tlf_int_subset b t)"
| "tl_fetch (FLongRange lo hi) t = map_option snd (tlf_long_range lo hi t)"
| "tl_fetch FEnd t = Some (snd (tlf_end t))"
| "tl_fetch (FCheckStrEnd n) t = Some (snd (tlf_check_str_end n t))"

fun tl_fetches :: "tl_fetch_call list \<Rightarrow> tl_in_state \<Rightarrow> tl_in_state option" where
  "tl_fetches [] t = Some t"
| "tl_fetches (f # fs) t = tl_fetch f t \<bind> tl_fetches fs"

lemma tl_fetch_moves:
  assumes r: "reads msg t"
  shows "\<exists>t'. tl_fetch f t = Some t' \<and> moves msg t t'"
proof (cases f)
  case FInt then show ?thesis using int_moves [OF r] by auto
next
  case FLong then show ?thesis using long_moves [OF r] by auto
next
  case FLookupInt then show ?thesis using lookup_int_moves [OF r] by auto
next
  case FLookupSecondInt then show ?thesis using lookup_second_int_moves [OF r] by auto
next
  case FLookupLong then show ?thesis using lookup_long_moves [OF r] by auto
next
  case (FLookupData n) then show ?thesis using lookup_data_moves [OF r, of "int n"] by auto
next
  case (FString m) then show ?thesis using string_moves(1) [OF r, of m] by auto
next
  case (FString0 m) then show ?thesis using string_moves(2) [OF r, of m] by auto
next
  case (FSkipString m) then show ?thesis using string_moves(3) [OF r, of m] by auto
next
  case (FRawData n) then show ?thesis using raw_moves [OF r, of "4 * int n"] by (auto simp: and3)
next
  case (FSkip n) then show ?thesis using skip_moves [OF r, of "int n"] by auto
next
  case (FRawMessage n a) then show ?thesis using raw_message_moves [OF r, of "int n" a] by auto
next
  case (FIntRange lo hi) then show ?thesis using int_range_moves [OF r, of lo hi] by auto
next
  case (FIntSubset b) then show ?thesis using int_subset_moves [OF r, of b] by auto
next
  case (FLongRange lo hi) then show ?thesis using long_range_moves [OF r, of lo hi] by auto
next
  case FEnd then show ?thesis using moves_refl [OF r] moves_error [OF r] by (auto simp: tlf_end_def)
next
  case (FCheckStrEnd n) then show ?thesis using moves_refl [OF r] moves_error [OF r] by (auto simp: tlf_check_str_end_def)
qed

lemma tl_fetches_moves: "reads msg t \<Longrightarrow> \<exists>t'. tl_fetches fs t = Some t' \<and> moves msg t t'"
proof (induction fs arbitrary: t)
  case Nil
  then show ?case by (simp add: moves_refl)
next
  case (Cons f fs)
  obtain t1 where 1: "tl_fetch f t = Some t1" "moves msg t t1" using tl_fetch_moves [OF Cons.prems] by blast
  obtain t2 where 2: "tl_fetches fs t1 = Some t2" "moves msg t1 t2" using Cons.IH [OF moves_reads [OF 1(2)]] by blast
  show ?case using 1(1) 2(1) moves_trans [OF 1(2) 2(2)] by auto
qed

lemma tlf_init_reads: "tlf_init_raw_message tl_in_state_alloc msg (int (length msg)) =
    Some (tl_in_state_alloc\<lparr>in_type := tl_type_raw_msg, in_data := msg, in_remaining := int (length msg)\<rparr>)"
  by (simp add: tlf_init_raw_message_def tl_fetch_init_def tl_in_state_alloc_def)

text \<open>
  C19. A parser may apply any sequence of fetches to any message: no assertion fails and nothing
  outside the message is read; position and rest always add up to the message and the read pointer is at the
  position; and once an error is recorded, nothing more is consumed and the first error is kept.
\<close>

theorem tl_fetch_safe:
  "\<exists>t. tlf_init_raw_message tl_in_state_alloc msg (int (length msg)) = Some t \<and>
     (\<exists>t1. tl_fetches fs t = Some t1 \<and> 0 \<le> in_pos t1 \<and> in_pos t1 + in_remaining t1 = int (length msg) \<and>
        in_data t1 = drop (nat (in_pos t1)) msg \<and>
        (\<exists>t2. tl_fetches gs t1 = Some t2 \<and> in_pos t1 \<le> in_pos t2 \<and>
           (case in_error t1 of Some e \<Rightarrow> t2 = t1 | None \<Rightarrow> True)))"
proof -
  let ?t = "tl_in_state_alloc\<lparr>in_type := tl_type_raw_msg, in_data := msg, in_remaining := int (length msg)\<rparr>"
  have "reads msg ?t" by (simp add: reads_def tl_in_state_alloc_def)
  then obtain t1 where 1: "tl_fetches fs ?t = Some t1" "moves msg ?t t1" using tl_fetches_moves by blast
  then obtain t2 where 2: "tl_fetches gs t1 = Some t2" "moves msg t1 t2" using tl_fetches_moves moves_reads by blast
  show ?thesis
    using 1 2 unfolding tlf_init_reads by (auto simp: moves_def reads_def split: option.splits)
qed

section \<open>Query headers are parsed in finite time\<close>

text \<open>A look ahead that succeeds is confirmed by the fetch.\<close>

lemma lookup_then_int:
  assumes r: "reads msg t" and l: "tlf_lookup_int t = Some (x, t1)" and x: "x \<noteq> -1"
  shows "t1 = t \<and> (\<exists>t2. tlf_int t = Some (x, t2) \<and> moves msg t t2 \<and> in_pos t2 = in_pos t + 4)"
proof (rule check_cases [OF r, of 4])
  fix t' assume "tlf_check 4 t = (False, t')"
  then show ?thesis using l x by (simp add: tlf_lookup_int_def)
next
  assume c: "tlf_check 4 t = (True, t)" "4 \<le> in_remaining t" "in_error t = None"
  obtain t2 where t2: "tlf_raw_data_unchecked 4 t = Some (take 4 (in_data t), t2)" "moves msg t t2" "in_pos t2 = in_pos t + 4"
    using raw_data_moves [OF r, of 4] c by auto
  have "x = le32 (take 4 (in_data t)) \<and> t1 = t"
    using l c fetch_lookup_ok [OF r, of 4] by (auto simp: tlf_lookup_int_def)
  then show ?thesis using t2 c by (simp add: tlf_int_def)
qed simp

lemma query_flags_moves:
  assumes r: "reads msg t"
  shows "\<exists>n h' t'. tlf_query_flags h t = Some (n, h', t') \<and> moves msg t t'"
proof -
  obtain f t1 where "tlf_int t = Some (f, t1)" "moves msg t t1" using int_moves [OF r] by blast
  then show ?thesis by (auto simp: tlf_query_flags_def intro: moves_set_error)
qed

lemma tl_ops_not_error: "RPC_DEST_ACTOR \<noteq> -1" "RPC_DEST_ACTOR_FLAGS \<noteq> -1" "RPC_DEST_FLAGS \<noteq> -1"
  "RPC_REQ_ERROR \<noteq> -1" "RPC_REQ_ERROR_WRAPPED \<noteq> -1" "RPC_REQ_RESULT_FLAGS \<noteq> -1"
  by (simp_all add: tl_ops)

lemma query_header_step_moves:
  assumes r: "reads msg t"
  shows "\<exists>b h' t'. query_header_step h t = Some (b, h', t') \<and> moves msg t t' \<and> (b \<longrightarrow> in_pos t < in_pos t')"
proof -
  obtain x t1 where l: "tlf_lookup_int t = Some (x, t1)" "moves msg t t1" using lookup_int_moves [OF r] by blast
  show ?thesis
  proof (cases "x \<in> {RPC_DEST_ACTOR, RPC_DEST_ACTOR_FLAGS, RPC_DEST_FLAGS}")
    case False
    then show ?thesis using l by (auto simp: query_header_step_def)
  next
    case True
    then have "x \<noteq> -1" using tl_ops_not_error by auto
    then obtain t2 where t2: "t1 = t" "tlf_int t = Some (x, t2)" "moves msg t t2" "in_pos t < in_pos t2"
      using lookup_then_int [OF r l(1)] by auto
    obtain a t3 where t3: "tlf_long t2 = Some (a, t3)" "moves msg t2 t3" using long_moves [OF moves_reads [OF t2(3)]] by blast
    have m3: "moves msg t t3" "in_pos t < in_pos t3" using moves_trans [OF t2(3) t3(2)] t2(4) t3(2) by (auto simp: moves_def)
    obtain n4 h4 t4 where t4: "tlf_query_flags (h\<lparr>h_actor_id := a\<rparr>) t3 = Some (n4, h4, t4)" "moves msg t3 t4"
      using query_flags_moves [OF moves_reads [OF t3(2)]] by blast
    have m4: "moves msg t t4" "in_pos t < in_pos t4" using moves_trans [OF m3(1) t4(2)] m3(2) t4(2) by (auto simp: moves_def)
    obtain n5 h5 t5 where t5: "tlf_query_flags h t2 = Some (n5, h5, t5)" "moves msg t2 t5"
      using query_flags_moves [OF moves_reads [OF t2(3)]] by blast
    have m5: "moves msg t t5" "in_pos t < in_pos t5" using moves_trans [OF t2(3) t5(2)] t2(4) t5(2) by (auto simp: moves_def)
    show ?thesis
      using True l(1) t2(1,2) t3(1) t4(1) t5(1) m3 m4 m5 by (auto simp: query_header_step_def)
  qed
qed

lemma query_header_loop_returns:
  assumes "reads msg t"
  shows "\<exists>h' t'. query_header_loop u h t = Some (Some (case in_error t' of None \<Rightarrow> u - in_remaining t' | Some e \<Rightarrow> -1, h', t')) \<and>
    moves msg t t'"
  using assms
proof (induction "nat (in_remaining t)" arbitrary: h t rule: less_induct)
  case less
  obtain b h1 t1 where s: "query_header_step h t = Some (b, h1, t1)" "moves msg t t1" "b \<longrightarrow> in_pos t < in_pos t1"
    using query_header_step_moves [OF less.prems] by blast
  show ?case
  proof (cases "in_error t1 \<noteq> None \<or> \<not> b")
    case True
    then show ?thesis using s by (subst query_header_loop.simps) (auto split: option.splits)
  next
    case False
    then have "nat (in_remaining t1) < nat (in_remaining t)"
      using s less.prems by (auto simp: moves_def reads_def)
    then obtain h' t' where "query_header_loop u h1 t1 =
        Some (Some (case in_error t' of None \<Rightarrow> u - in_remaining t' | Some e \<Rightarrow> -1, h', t'))" "moves msg t1 t'"
      using less.hyps [OF _ moves_reads [OF s(2)]] by blast
    then show ?thesis using s False moves_trans by (subst query_header_loop.simps) auto
  qed
qed

text \<open>
  C20. Parsing a query header returns on every message: the loop over its optional parts ends, no
  assertion fails, and it is a success exactly if no error is recorded, in which case its result is the number of bytes
  consumed.
\<close>

theorem tlf_query_header_total:
  "\<exists>t n h t'. tlf_init_raw_message tl_in_state_alloc msg (int (length msg)) = Some t \<and>
     tlf_query_header t = Some (Some (n, h, t')) \<and> in_data t' = drop (nat (in_pos t')) msg \<and>
     0 \<le> in_pos t' \<and> in_pos t' + in_remaining t' = int (length msg) \<and>
     n = (case in_error t' of None \<Rightarrow> in_pos t' | Some e \<Rightarrow> -1)"
proof -
  let ?t = "tl_in_state_alloc\<lparr>in_type := tl_type_raw_msg, in_data := msg, in_remaining := int (length msg)\<rparr>"
  have r: "reads msg ?t" by (simp add: reads_def tl_in_state_alloc_def)
  obtain x t1 where 1: "tlf_int ?t = Some (x, t1)" "moves msg ?t t1" using int_moves [OF r] by blast
  obtain q t2 where 2: "tlf_long t1 = Some (q, t2)" "moves msg t1 t2" using long_moves [OF moves_reads [OF 1(2)]] by blast
  define h where "h = tl_query_header_zero\<lparr>h_op := x, h_real_op := x, h_ref_cnt := 1\<rparr>"
  obtain h' t' where 3: "query_header_loop (int (length msg)) (h\<lparr>h_qid := q\<rparr>) t2 =
      Some (Some (case in_error t' of None \<Rightarrow> int (length msg) - in_remaining t' | Some e \<Rightarrow> -1, h', t'))" "moves msg t2 t'"
    using query_header_loop_returns [OF moves_reads [OF 2(2)]] by blast
  have m: "moves msg ?t (tlf_set_error t1 TL_ERROR_HEADER)" "moves msg ?t t2" "moves msg ?t t'"
    using moves_set_error [OF 1(2)] moves_trans [OF 1(2) 2(2)] moves_trans [OF moves_trans [OF 1(2) 2(2)] 3(2)] by auto
  obtain g t'' where g: "tlf_query_header ?t =
      Some (Some (case in_error t'' of None \<Rightarrow> int (length msg) - in_remaining t'' | Some e \<Rightarrow> -1, g, t''))" "moves msg ?t t''"
  proof (cases "x = RPC_INVOKE_REQ \<or> x = RPC_INVOKE_KPHP_REQ")
    case False
    obtain e where e: "in_error (tlf_set_error t1 TL_ERROR_HEADER) = Some e" using set_error_Some by blast
    show thesis
      using False 1 m(1)
      by (intro that [of "tlf_set_error t1 TL_ERROR_HEADER" h]) (auto simp: tlf_query_header_def Let_def h_def e)
  next
    case True
    show thesis
    proof (cases "x = RPC_INVOKE_KPHP_REQ")
      case True
      then show thesis using 1 2 m(2)
        by (intro that [of t2 "h\<lparr>h_qid := q\<rparr>"]) (auto simp: tlf_query_header_def Let_def h_def split: option.splits)
    next
      case False
      then have "tlf_query_header ?t = query_header_loop (int (length msg)) (h\<lparr>h_qid := q\<rparr>) t2"
        using True 1(1) 2(1) by (simp add: tlf_query_header_def Let_def h_def)
      then show thesis using 3(1) m(3) by (intro that [of t' h']) simp_all
    qed
  qed
  have "in_pos t'' + in_remaining t'' = int (length msg)" "0 \<le> in_pos t''" "in_data t'' = drop (nat (in_pos t'')) msg"
    using g(2) by (auto simp: moves_def reads_def)
  then show ?thesis unfolding tlf_init_reads using g(1) by (auto split: option.splits)
qed

section \<open>An answer header that is never parsed to the end\<close>

text \<open>
  The loop of \<open>tlf_query_answer_header\<close> consumes nothing on the constructor \<^verbatim>\<open>RPC_REQ_ERROR_WRAPPED\<close> and
  goes on.
\<close>

lemma answer_step_wrapped:
  assumes "tlf_lookup_int t = Some (RPC_REQ_ERROR_WRAPPED, t)" "h_op h \<noteq> RPC_REQ_ERROR"
  shows "answer_header_step h t = Some (True, h\<lparr>h_op := RPC_REQ_ERROR_WRAPPED\<rparr>, t)"
  using assms by (simp add: answer_header_step_def) (simp add: tl_ops)

text \<open>From a state that steps to itself the loop has no result: by induction on the approximations of the function.\<close>

lemma answer_loop_stuck:
  assumes "answer_header_loop u h t = Some r"
  shows "tlf_lookup_int t = Some (RPC_REQ_ERROR_WRAPPED, t) \<longrightarrow> in_error t = None \<longrightarrow> h_op h = RPC_REQ_ERROR"
proof (rule answer_header_loop.raw_induct [OF _ assms], intro impI, rule ccontr)
  fix loop u h t r
  assume IH: "\<And>u h t r. loop u h t = Some r \<Longrightarrow>
      tlf_lookup_int t = Some (RPC_REQ_ERROR_WRAPPED, t) \<longrightarrow> in_error t = None \<longrightarrow> h_op h = RPC_REQ_ERROR"
    and s: "(case answer_header_step h t of None \<Rightarrow> Some None
      | Some (again, h, t) \<Rightarrow>
          if in_error t \<noteq> None then Some (Some (- 1, h, t))
          else if \<not> again then Some (Some (u - in_remaining t, h, t)) else loop u h t) = Some r"
    and l: "tlf_lookup_int t = Some (RPC_REQ_ERROR_WRAPPED, t)" and e: "in_error t = None" and h: "h_op h \<noteq> RPC_REQ_ERROR"
  have "loop u (h\<lparr>h_op := RPC_REQ_ERROR_WRAPPED\<rparr>) t = Some r"
    using s e by (simp add: answer_step_wrapped [OF l h])
  then show False using IH l e by (fastforce simp: tl_ops)
qed

lemma fetch_front:
  assumes "in_type t \<noteq> tl_type_none" "in_error t = None" "in_data t = d @ r" "in_remaining t = int (length (d @ r))"
  shows "tlf_raw_data_unchecked (int (length d)) t =
    Some (d, t\<lparr>in_data := r, in_pos := in_pos t + int (length d), in_remaining := int (length r)\<rparr>)"
  using assms by (simp add: tlf_raw_data_unchecked_def fetch_raw_data_def)

lemma tlf_int_front:
  assumes "in_type t \<noteq> tl_type_none" "in_error t = None" "in_data t = bytes32 x @ r" "in_remaining t = 4 + int (length r)"
  shows "tlf_int t = Some (x, t\<lparr>in_data := r, in_pos := in_pos t + 4, in_remaining := int (length r)\<rparr>)"
  using assms fetch_front [of t "bytes32 x" r] le32_bytes32 [of x "[]"] by (simp add: tlf_int_def tlf_check_def)

lemma tlf_long_front:
  assumes "in_type t \<noteq> tl_type_none" "in_error t = None" "in_data t = bytes64 x @ r" "in_remaining t = 8 + int (length r)"
  shows "tlf_long t = Some (x, t\<lparr>in_data := r, in_pos := in_pos t + 8, in_remaining := int (length r)\<rparr>)"
  using assms fetch_front [of t "bytes64 x" r] le64_bytes64 [of x "[]"] by (simp add: tlf_long_def tlf_check_def)

lemma tlf_lookup_int_front:
  assumes "in_type t \<noteq> tl_type_none" "in_error t = None" "in_data t = bytes32 x @ r" "in_remaining t = 4 + int (length r)"
  shows "tlf_lookup_int t = Some (x, t)"
  using assms le32_bytes32 [of x "[]"] by (simp add: tlf_lookup_int_def tlf_check_def fetch_lookup_def)

text \<open>
  C38. On an answer whose first constructor after the query number is \<^verbatim>\<open>RPC_REQ_ERROR_WRAPPED\<close>,
  \<open>tlf_query_answer_header\<close> does not return: the branch for this constructor neither consumes it nor ends the loop.
\<close>

theorem answer_header_diverges:
  "\<exists>t. tlf_init_raw_message tl_in_state_alloc
       (bytes32 RPC_REQ_RESULT @ bytes64 qid @ bytes32 RPC_REQ_ERROR_WRAPPED @ rest) (16 + int (length rest)) = Some t \<and>
     tlf_query_answer_header t = None"
proof -
  let ?msg = "bytes32 RPC_REQ_RESULT @ bytes64 qid @ bytes32 RPC_REQ_ERROR_WRAPPED @ rest"
  define t where "t = tl_in_state_alloc\<lparr>in_type := tl_type_raw_msg, in_data := ?msg, in_remaining := 16 + int (length rest)\<rparr>"
  have i: "tlf_init_raw_message tl_in_state_alloc ?msg (16 + int (length rest)) = Some t"
    using tlf_init_reads [of ?msg] by (simp add: t_def)
  define t1 where "t1 = t\<lparr>in_data := bytes64 qid @ bytes32 RPC_REQ_ERROR_WRAPPED @ rest, in_pos := 4, in_remaining := 12 + int (length rest)\<rparr>"
  define t2 where "t2 = t1\<lparr>in_data := bytes32 RPC_REQ_ERROR_WRAPPED @ rest, in_pos := 12, in_remaining := 4 + int (length rest)\<rparr>"
  define h where "h = tl_query_header_zero\<lparr>h_op := RPC_REQ_RESULT, h_real_op := RPC_REQ_RESULT, h_ref_cnt := 1\<rparr>"
  have 1: "tlf_int t = Some (RPC_REQ_RESULT, t1)"
    by (subst tlf_int_front) (auto simp: t_def t1_def tl_in_state_alloc_def)
  have 2: "tlf_long t1 = Some (qid, t2)"
    by (subst tlf_long_front) (auto simp: t_def t1_def t2_def tl_in_state_alloc_def)
  have 3: "tlf_lookup_int t2 = Some (RPC_REQ_ERROR_WRAPPED, t2)" "in_error t2 = None"
    by (rule tlf_lookup_int_front) (auto simp: t_def t1_def t2_def tl_in_state_alloc_def)
  have "h_op (h\<lparr>h_qid := qid\<rparr>) \<noteq> RPC_REQ_ERROR" by (simp add: h_def tl_ops)
  then have "answer_header_loop (in_remaining t) (h\<lparr>h_qid := qid\<rparr>) t2 = None"
    using answer_loop_stuck 3 by (meson not_Some_eq)
  then have "tlf_query_answer_header t = None"
    using 1 2 by (simp add: tlf_query_answer_header_def Let_def h_def)
  then show ?thesis using i by blast
qed

section \<open>What is written is read back\<close>

lemma tls_raw_data_ok [simp]:
  "out_methods t \<noteq> OutNone \<Longrightarrow> int (length s) \<le> out_remaining t \<Longrightarrow> tls_raw_data s t = Some (tls_raw_data_unchecked s t)"
  by (simp add: tls_raw_data_def tls_check_def)

lemma tls_raw_data_unchecked_simps [simp]:
  "out_methods (tls_raw_data_unchecked s t) = out_methods t" "out_data (tls_raw_data_unchecked s t) = out_data t @ s"
  "out_pos (tls_raw_data_unchecked s t) = out_pos t + int (length s)"
  "out_remaining (tls_raw_data_unchecked s t) = out_remaining t - int (length s)"
  "out_qid (tls_raw_data_unchecked s t) = out_qid t" "out_error (tls_raw_data_unchecked s t) = out_error t"
  by (simp_all add: tls_raw_data_unchecked_def)

text \<open>The prefix with the length of a string, and the encoding of a string written at position \<open>p\<close>.\<close>

definition string_prefix :: "nat \<Rightarrow> bytes" where
  "string_prefix len = (if len < 254 then [word_of_nat len] else bytes32 (push_bit 8 (word_of_nat len) + 0xfe))"

definition string_pad :: "int \<Rightarrow> bytes \<Rightarrow> bytes" where
  "string_pad p s = replicate (nat ((- (p + int (length (string_prefix (length s)) + length s))) mod 4)) 0"

definition string_bytes :: "int \<Rightarrow> bytes \<Rightarrow> bytes" where
  "string_bytes p s = string_prefix (length s) @ s @ string_pad p s"

lemma length_string_prefix: "length (string_prefix n) = (if n < 254 then 1 else 4)"
  by (simp add: string_prefix_def)

lemma tls_string_ok:
  assumes m: "out_methods t \<noteq> OutNone" and len: "length s < 2 ^ 24" and room: "int (length s) + 7 \<le> out_remaining t"
  shows "tls_string s t = Some (tls_raw_data_unchecked (string_bytes (out_pos t) s) t)"
proof -
  have p: "tls_string_len (length s) t = Some (tls_raw_data_unchecked (string_prefix (length s)) t)"
    using m len room by (simp add: tls_string_len_def tls_check_def string_prefix_def)
  have "length (string_prefix (length s)) \<le> 4" by (simp add: length_string_prefix)
  then have r: "int (length s) \<le> out_remaining t - int (length (string_prefix (length s)))"
    "0 \<le> out_remaining t - int (length (string_prefix (length s))) - int (length s)" using room by auto
  then have d: "tls_string_data s (tls_raw_data_unchecked (string_prefix (length s)) t) =
      Some (tls_raw_data_unchecked (string_bytes (out_pos t) s) t)"
    using m by (simp add: tls_string_data_def tls_pad_def tls_check_def string_bytes_def string_pad_def and3
        tls_raw_data_unchecked_def algebra_simps)
  show ?thesis using p d by (simp add: tls_string_def)
qed

text \<open>The three length bytes of a long string.\<close>

lemma long_prefix:
  assumes "n < 2 ^ 24"
  shows "\<exists>a b c. bytes32 (push_bit 8 (word_of_nat n) + 0xfe) = [254, a, b, c] \<and> unat (le32 [a, b, c, 0]) = n"
proof -
  define w :: u32 where "w = word_of_nat n"
  have wn: "unat w = n" using assms by (simp add: w_def unat_of_nat unsigned_of_nat take_bit_nat_def)
  have fe: "(0xfe :: u32) = mask 8 AND NOT (mask 1)" "(254 :: u8) = mask 8 AND NOT (mask 1)" by (simp_all add: mask_eq_exp_minus_1)
  have high: "\<not> bit w k" if "24 \<le> k" for k
  proof -
    have "w = take_bit 24 w" using assms wn by (simp add: word_unat_eq_iff unsigned_take_bit_eq take_bit_nat_def)
    then show ?thesis using that by (metis bit_take_bit_iff linorder_not_less)
  qed
  have "push_bit 8 w AND 0xfe = (0 :: u32)" unfolding fe by (rule bit_word_eqI) (auto simp: bit_simps)
  then have v: "push_bit 8 w + 0xfe = push_bit 8 w OR (mask 8 AND NOT (mask 1))" unfolding fe by (rule disjunctive_add_eq_or)
  have b: "ucast (push_bit 8 w OR (mask 8 AND NOT (mask 1)) :: u32) = (254 :: u8)"
    "ucast (drop_bit 8 (push_bit 8 w OR (mask 8 AND NOT (mask 1)) :: u32)) = (ucast w :: u8)"
    "ucast (drop_bit 16 (push_bit 8 w OR (mask 8 AND NOT (mask 1)) :: u32)) = (ucast (drop_bit 8 w) :: u8)"
    "ucast (drop_bit 24 (push_bit 8 w OR (mask 8 AND NOT (mask 1)) :: u32)) = (ucast (drop_bit 16 w) :: u8)"
    "ucast (drop_bit 24 w) = (0 :: u8)"
    unfolding fe by (rule bit_word_eqI; auto simp: bit_simps high)+
  have "le32 [ucast w, ucast (drop_bit 8 w), ucast (drop_bit 16 w), 0] = w"
    using le32_bytes32 [of w "[]"] by (simp add: bytes32_def b(5))
  moreover have "bytes32 (push_bit 8 w + 0xfe) = [254, ucast w, ucast (drop_bit 8 w), ucast (drop_bit 16 w)]"
    unfolding bytes32_def v b by (rule refl)
  ultimately show ?thesis using wn unfolding w_def [symmetric] by metis
qed

lemma tlf_string_ok:
  assumes t: "in_type t \<noteq> tl_type_none" "in_error t = None"
    and d: "in_data t = string_bytes (in_pos t) s @ r" "in_remaining t = int (length (in_data t))"
    and len: "length s < 2 ^ 24" "int (length s) \<le> m"
    and room: "4 \<le> length (in_data t)"
  shows "tlf_string m t = Some (int (length s), s,
    t\<lparr>in_data := r, in_pos := in_pos t + int (length (string_bytes (in_pos t) s)), in_remaining := int (length r)\<rparr>)"
proof -
  let ?pre = "string_prefix (length s)" and ?pad = "string_pad (in_pos t) s"
  define t1 where "t1 = t\<lparr>in_data := s @ ?pad @ r, in_pos := in_pos t + int (length ?pre), in_remaining := int (length (s @ ?pad @ r))\<rparr>"
  have sl: "tlf_string_len m t = Some (int (length s), t1)"
  proof (cases "length s < 254")
    case True
    then have pre: "?pre = [word_of_nat (length s)]" by (simp add: string_prefix_def)
    have "unat (word_of_nat (length s) :: u8) = length s" using True by (simp add: unsigned_of_nat take_bit_nat_def)
    then have w: "uint (word_of_nat (length s) :: u8) = int (length s)" by (metis uint_nat)
    have "tlf_raw_data_unchecked 1 t = Some ([word_of_nat (length s)], t1)"
      using fetch_front [of t ?pre "s @ ?pad @ r"] t d by (simp add: pre string_bytes_def t1_def)
    then show ?thesis using t d room w True len(2)
      by (simp add: tlf_string_len_def tlf_check_def Let_def t1_def)
  next
    case False
    then obtain a b c where pre: "?pre = [254, a, b, c]" "unat (le32 [a, b, c, 0]) = length s"
      using long_prefix [OF len(1)] by (auto simp: string_prefix_def)
    define t0 where "t0 = t\<lparr>in_data := [a, b, c] @ s @ ?pad @ r, in_pos := in_pos t + 1, in_remaining := int (length ([a, b, c] @ s @ ?pad @ r))\<rparr>"
    have f0: "tlf_raw_data_unchecked 1 t = Some ([254], t0)"
      using fetch_front [of t "[254]" "[a, b, c] @ s @ ?pad @ r"] t d by (simp add: pre(1) string_bytes_def t0_def)
    have f1: "tlf_raw_data_unchecked 3 t0 = Some ([a, b, c], t1)"
      using fetch_front [of t0 "[a, b, c]" "s @ ?pad @ r"] t by (simp add: t0_def t1_def pre(1))
    have u: "uint (le32 [a, b, c, 0]) = int (length s)" using pre(2) by (metis uint_nat)
    have "tlf_check 4 t = (True, t)" using t d(2) room by (simp add: tlf_check_def)
    then show ?thesis using f0 f1 u len(2) by (simp add: tlf_string_len_def Let_def t1_def)
  qed
  define t2 where "t2 = t1\<lparr>in_data := ?pad @ r, in_pos := in_pos t1 + int (length s), in_remaining := int (length (?pad @ r))\<rparr>"
  define t3 where "t3 = t2\<lparr>in_data := r, in_pos := in_pos t2 + int (length ?pad), in_remaining := int (length r)\<rparr>"
  have f2: "tlf_raw_data_unchecked (int (length s)) t1 = Some (s, t2)"
    using fetch_front [of t1 s "?pad @ r"] t by (simp add: t1_def t2_def)
  have f3: "tlf_raw_data_unchecked (int (length ?pad)) t2 = Some (?pad, t3)"
    using fetch_front [of t2 "?pad" r] t by (simp add: t1_def t2_def t3_def)
  have pl: "(- in_pos t2) mod 4 = int (length ?pad)"
    by (simp add: t2_def t1_def string_pad_def algebra_simps)
  have "tlf_pad t2 = Some (int (length ?pad), t3)"
  proof -
    have "tlf_check (int (length ?pad)) t2 = (True, t2)" using t by (simp add: tlf_check_def t2_def t1_def)
    moreover have "int (length ?pad) \<le> in_remaining t2" by (simp add: t2_def)
    moreover have "\<not> (\<exists>b\<in>set ?pad. b \<noteq> 0)" by (simp add: string_pad_def)
    ultimately show ?thesis using f3 unfolding tlf_pad_def and3 pl Let_def by simp
  qed
  then have "tlf_string_data (int (length s)) t1 = Some (int (length s), s, t3)"
    using f2 t by (simp add: tlf_string_data_def tlf_check_def t1_def)
  moreover have "t3 = t\<lparr>in_data := r, in_pos := in_pos t + int (length (string_bytes (in_pos t) s)), in_remaining := int (length r)\<rparr>"
    by (simp add: t3_def t2_def t1_def string_bytes_def)
  ultimately show ?thesis using sl by (simp add: tlf_string_def)
qed

lemma string_pad_aligned:
  assumes "p mod 4 = 0" "q mod 4 = (0 :: int)"
  shows "string_pad p s = string_pad q s"
proof -
  have "(- (p + k)) mod 4 = (- (q + k)) mod 4" for k using assms by presburger
  then show ?thesis by (simp only: string_pad_def)
qed

lemma string_bytes_aligned:
  assumes "p mod 4 = (0 :: int)"
  shows "(p + int (length (string_bytes p s))) mod 4 = 0" "4 \<le> length (string_bytes p s)"
proof -
  define k where "k = int (length (string_prefix (length s)) + length s)"
  have l: "int (length (string_bytes p s)) = k + (- (p + k)) mod 4"
    by (simp add: string_bytes_def string_pad_def k_def)
  show "(p + int (length (string_bytes p s))) mod 4 = 0"
    unfolding l by (metis add.assoc add.right_inverse mod_0 mod_add_right_eq)
  have "k > 0" by (simp add: k_def length_string_prefix)
  have "int (length (string_bytes p s)) mod 4 = 0"
    using \<open>(p + int (length (string_bytes p s))) mod 4 = 0\<close> assms by presburger
  moreover have "0 < int (length (string_bytes p s))" unfolding l using \<open>k > 0\<close> by (simp add: add_pos_nonneg)
  ultimately show "4 \<le> length (string_bytes p s)" by presburger
qed

text \<open>
  C22. A string of less than \<open>2 ^ 24\<close> bytes that is stored at an aligned position is fetched back
  unchanged from an aligned position, for both forms of the length prefix; storing and fetching leave both sides
  aligned and consume exactly the bytes stored.
\<close>

theorem tl_string_roundtrip:
  assumes o: "out_methods t \<noteq> OutNone" "out_pos t mod 4 = 0" "int (length s) + 7 \<le> out_remaining t"
    and i: "in_type i \<noteq> tl_type_none" "in_error i = None" "in_pos i mod 4 = 0"
    and s: "length s < 2 ^ 24" "int (length s) \<le> m"
  shows "\<exists>t' w i'. tls_string s t = Some t' \<and> out_data t' = out_data t @ w \<and> out_pos t' mod 4 = 0 \<and>
    tlf_string m (i\<lparr>in_data := w @ r, in_remaining := int (length (w @ r))\<rparr>) = Some (int (length s), s, i') \<and>
    in_data i' = r \<and> in_remaining i' = int (length r) \<and> in_pos i' mod 4 = 0 \<and> in_error i' = None"
proof -
  define w where "w = string_bytes (in_pos i) s"
  have w: "string_bytes (out_pos t) s = w"
    by (simp add: w_def string_bytes_def string_pad_aligned [OF o(2) i(3)])
  define j where "j = i\<lparr>in_data := w @ r, in_remaining := int (length (w @ r))\<rparr>"
  have st: "tls_string s t = Some (tls_raw_data_unchecked w t)" using tls_string_ok [OF o(1) s(1) o(3)] w by simp
  have f: "tlf_string m j = Some (int (length s), s,
      j\<lparr>in_data := r, in_pos := in_pos j + int (length w), in_remaining := int (length r)\<rparr>)"
    using tlf_string_ok [of j s r m] i s string_bytes_aligned(2) [OF i(3), of s] by (simp add: j_def w_def)
  have a: "(out_pos t + int (length w)) mod 4 = 0" "(in_pos i + int (length w)) mod 4 = 0"
    using string_bytes_aligned(1) [OF o(2), of s] string_bytes_aligned(1) [OF i(3), of s] w by (simp_all add: w_def)
  show ?thesis
    unfolding j_def [symmetric] using st f a i(2)
    by (intro exI [of _ "tls_raw_data_unchecked w t"] exI [of _ w]
        exI [of _ "j\<lparr>in_data := r, in_pos := in_pos j + int (length w), in_remaining := int (length r)\<rparr>"])
      (simp add: j_def)
qed

theorem tl_string_roundtrip_witness:
  "\<exists>t' w i'. tls_string [104, 105] (tls_init_tcp_raw_msg True 0) = Some t' \<and>
    out_data t' = out_data (tls_init_tcp_raw_msg True 0) @ w \<and> out_pos t' mod 4 = 0 \<and>
    tlf_string 100 (tl_in_state_alloc\<lparr>in_type := tl_type_raw_msg, in_data := w @ [7], in_remaining := int (length (w @ [7]))\<rparr>) =
      Some (int (length [104, 105 :: u8]), [104, 105], i') \<and>
    in_data i' = [7] \<and> in_remaining i' = int (length [7 :: u8]) \<and> in_pos i' mod 4 = 0 \<and> in_error i' = None"
  using tl_string_roundtrip [of "tls_init_tcp_raw_msg True 0" "[104, 105]"
      "tl_in_state_alloc\<lparr>in_type := tl_type_raw_msg\<rparr>" 100 "[7]"]
  by (simp add: tls_init_tcp_raw_msg_def tl_store_init_def tl_in_state_alloc_def)

lemma query_header_step_end:
  assumes "in_type t \<noteq> tl_type_none" "in_error t = None" "in_data t = b" "in_remaining t = int (length b)" "4 \<le> length b"
    "le32 (take 4 b) \<notin> {RPC_DEST_ACTOR, RPC_DEST_ACTOR_FLAGS, RPC_DEST_FLAGS}"
  shows "query_header_step h t = Some (False, h, t)"
  using assms by (simp add: query_header_step_def tlf_lookup_int_def tlf_check_def fetch_lookup_def)

lemma query_header_step_actor:
  assumes "in_type t \<noteq> tl_type_none" "in_error t = None" "in_data t = bytes32 RPC_DEST_ACTOR @ bytes64 a @ b"
    "in_remaining t = 12 + int (length b)"
  shows "query_header_step h t = Some (True, h\<lparr>h_actor_id := a\<rparr>,
    t\<lparr>in_data := b, in_pos := in_pos t + 12, in_remaining := int (length b)\<rparr>)"
proof -
  have 1: "tlf_lookup_int t = Some (RPC_DEST_ACTOR, t)"
    using assms by (intro tlf_lookup_int_front [of _ _ "bytes64 a @ b"]) auto
  define t1 where "t1 = t\<lparr>in_data := bytes64 a @ b, in_pos := in_pos t + 4, in_remaining := 8 + int (length b)\<rparr>"
  have 2: "tlf_int t = Some (RPC_DEST_ACTOR, t1)"
    using assms tlf_int_front [of t RPC_DEST_ACTOR "bytes64 a @ b"] by (simp add: t1_def)
  have 3: "tlf_long t1 = Some (a, t\<lparr>in_data := b, in_pos := in_pos t + 12, in_remaining := int (length b)\<rparr>)"
    using assms tlf_long_front [of t1 a b] by (simp add: t1_def)
  show ?thesis using 1 2 3 by (simp add: query_header_step_def)
qed

lemma query_header_step_flags:
  assumes "in_type t \<noteq> tl_type_none" "in_error t = None" "in_data t = bytes32 RPC_DEST_ACTOR_FLAGS @ bytes64 a @ bytes32 f @ b"
    "in_remaining t = 16 + int (length b)" "f \<noteq> 0"
  shows "\<exists>h' t'. query_header_step h t = Some (True, h', t') \<and> in_error t' = Some TL_ERROR_HEADER"
proof -
  have 1: "tlf_lookup_int t = Some (RPC_DEST_ACTOR_FLAGS, t)"
    using assms by (intro tlf_lookup_int_front [of _ _ "bytes64 a @ bytes32 f @ b"]) auto
  define t1 where "t1 = t\<lparr>in_data := bytes64 a @ bytes32 f @ b, in_pos := in_pos t + 4, in_remaining := 12 + int (length b)\<rparr>"
  define t2 where "t2 = t\<lparr>in_data := bytes32 f @ b, in_pos := in_pos t + 12, in_remaining := 4 + int (length b)\<rparr>"
  define t3 where "t3 = t\<lparr>in_data := b, in_pos := in_pos t + 16, in_remaining := int (length b)\<rparr>"
  have 2: "tlf_int t = Some (RPC_DEST_ACTOR_FLAGS, t1)"
    using assms tlf_int_front [of t RPC_DEST_ACTOR_FLAGS "bytes64 a @ bytes32 f @ b"] by (simp add: t1_def)
  have 3: "tlf_long t1 = Some (a, t2)" using assms tlf_long_front [of t1 a "bytes32 f @ b"] by (simp add: t1_def t2_def)
  have 4: "tlf_int t2 = Some (f, t3)" using assms tlf_int_front [of t2 f b] by (simp add: t2_def t3_def)
  have e: "in_error t3 = None" using assms(2) by (simp add: t3_def)
  then show ?thesis using 1 2 3 4 assms(5) by (simp add: query_header_step_def tlf_query_flags_def tlf_set_error_def tl_ops)
qed

text \<open>What \<open>tls_header\<close> writes for a query.\<close>

definition query_header_bytes :: "tl_query_header \<Rightarrow> bytes" where
  "query_header_bytes h =
     (if h_flags h \<noteq> 0 then bytes32 RPC_DEST_ACTOR_FLAGS @ bytes64 (h_actor_id h) @ bytes32 (h_flags h)
      else if h_actor_id h \<noteq> 0 then bytes32 RPC_DEST_ACTOR @ bytes64 (h_actor_id h)
      else [])"

lemma query_header_written:
  assumes h: "h_op h = RPC_INVOKE_REQ" and q: "qid \<noteq> 0" and b: "length body mod 4 = 0" "length body + 28 \<le> 2 ^ 27"
  shows "\<exists>t1 t2. tls_header h (tls_init_tcp_raw_msg True qid) = Some t1 \<and> tls_raw_msg body t1 = Some t2 \<and>
    tls_end_ext t2 RPC_INVOKE_REQ = Some (Some (bytes32 RPC_INVOKE_REQ @ bytes64 qid @ query_header_bytes h @ body, 4))"
proof -
  define act where "act = query_header_bytes h"
  define t0 where "t0 = tls_init_tcp_raw_msg True qid"
  define t2 where "t2 = tls_raw_data_unchecked body (tls_raw_data_unchecked act t0)"
  have t0: "out_methods t0 = OutTcp" "out_remaining t0 = 2 ^ 27" "out_pos t0 = 0" "out_data t0 = []" "out_qid t0 = qid" "out_error t0 = None"
    by (simp_all add: t0_def tls_init_tcp_raw_msg_def tl_store_init_def)
  have la: "length act \<in> {0, 12, 16}" by (simp add: act_def query_header_bytes_def)
  have 1: "tls_header h t0 = Some (tls_raw_data_unchecked act t0)"
    using h t0 by (simp add: tls_header_def tls_check_def tls_int_def tls_long_def act_def query_header_bytes_def tls_raw_data_unchecked_def)
  have 2: "tls_raw_msg body (tls_raw_data_unchecked act t0) = Some t2"
    using t0 b la by (auto simp: tls_raw_msg_def tls_check_def t2_def)
  have pos: "out_pos t2 mod 4 = 0" using la b(1) t0 by (auto simp: t2_def)
  have "tls_end_ext t2 RPC_INVOKE_REQ = Some (Some (bytes32 RPC_INVOKE_REQ @ bytes64 qid @ act @ body, 4))"
    using t0 pos q b la by (auto simp: tls_end_ext_def t2_def and3 tls_prepend_def tls_check_def tl_ops)
  then show ?thesis using 1 2 by (auto simp: t0_def act_def)
qed

lemma query_header_read:
  assumes "4 \<le> length body" "le32 (take 4 body) \<notin> {RPC_DEST_ACTOR, RPC_DEST_ACTOR_FLAGS, RPC_DEST_FLAGS}"
    and msg: "msg = bytes32 RPC_INVOKE_REQ @ bytes64 qid @ query_header_bytes h @ body"
  shows "\<exists>h' t'. (if h_flags h = 0
    then tlf_query_header (tl_in_state_alloc\<lparr>in_type := tl_type_raw_msg, in_data := msg, in_remaining := int (length msg)\<rparr>) =
        Some (Some (int (length msg) - int (length body), h', t')) \<and>
      h_qid h' = qid \<and> h_actor_id h' = h_actor_id h \<and> h_flags h' = 0 \<and> in_data t' = body
    else tlf_query_header (tl_in_state_alloc\<lparr>in_type := tl_type_raw_msg, in_data := msg, in_remaining := int (length msg)\<rparr>) =
        Some (Some (-1, h', t')) \<and> in_error t' = Some TL_ERROR_HEADER)"
proof -
  define act where "act = query_header_bytes h"
  define t where "t = tl_in_state_alloc\<lparr>in_type := tl_type_raw_msg, in_data := msg, in_remaining := int (length msg)\<rparr>"
  have lm: "int (length msg) = 12 + int (length (act @ body))" by (simp add: msg act_def)
  define u where "u = t\<lparr>in_data := act @ body, in_pos := 12, in_remaining := int (length (act @ body))\<rparr>"
  define v where "v = t\<lparr>in_data := body, in_pos := 12 + int (length act), in_remaining := int (length body)\<rparr>"
  define g where "g = tl_query_header_zero\<lparr>h_op := RPC_INVOKE_REQ, h_real_op := RPC_INVOKE_REQ, h_ref_cnt := 1\<rparr>\<lparr>h_qid := qid\<rparr>"
  have tt: "in_type t = tl_type_raw_msg" "in_error t = None" "in_pos t = 0" by (simp_all add: t_def tl_in_state_alloc_def)
  have "tlf_int t = Some (RPC_INVOKE_REQ, t\<lparr>in_data := bytes64 qid @ act @ body, in_pos := 4, in_remaining := 8 + int (length (act @ body))\<rparr>)"
    using tlf_int_front [of t RPC_INVOKE_REQ "bytes64 qid @ act @ body"] tt lm by (simp add: t_def msg act_def)
  moreover have "tlf_long (t\<lparr>in_data := bytes64 qid @ act @ body, in_pos := 4, in_remaining := 8 + int (length (act @ body))\<rparr>) = Some (qid, u)"
    by (subst tlf_long_front [of _ qid "act @ body"]) (use tt in \<open>simp_all add: u_def\<close>)
  ultimately have 1: "tlf_query_header t = query_header_loop (int (length msg)) g u"
    unfolding tlf_query_header_def Let_def by (simp add: g_def t_def tl_ops)
  have last: "query_header_loop n g' v = Some (Some (n - int (length body), g', v))" for n g'
    using query_header_step_end [of v body g'] assms(1,2) tt by (subst query_header_loop.simps) (simp add: v_def)
  consider "h_flags h \<noteq> 0" | "h_flags h = 0" "h_actor_id h = 0" | "h_flags h = 0" "h_actor_id h \<noteq> 0" by blast
  then show ?thesis
  proof cases
    case 1
    then obtain h' t' where "query_header_step g u = Some (True, h', t')" "in_error t' = Some TL_ERROR_HEADER"
      using query_header_step_flags [of u "h_actor_id h" "h_flags h" body g] tt by (auto simp: u_def act_def query_header_bytes_def)
    then have "query_header_loop (int (length msg)) g u = Some (Some (-1, h', t'))" by (subst query_header_loop.simps) simp
    then show ?thesis using 1 \<open>tlf_query_header t = _\<close> \<open>in_error t' = _\<close> by (auto simp: t_def)
  next
    case 2
    then have "u = v" by (simp add: u_def v_def act_def query_header_bytes_def)
    then show ?thesis using 2 \<open>tlf_query_header t = _\<close> last [of "int (length msg)" g]
      by (intro exI [of _ g] exI [of _ v]) (simp add: t_def [symmetric] g_def tl_query_header_zero_def v_def)
  next
    case 3
    have "query_header_step g u = Some (True, g\<lparr>h_actor_id := h_actor_id h\<rparr>, v)"
      using 3 tt query_header_step_actor [of u "h_actor_id h" body g] by (simp add: u_def v_def act_def query_header_bytes_def)
    moreover have "in_error v = None" using tt by (simp add: v_def)
    ultimately have "query_header_loop (int (length msg)) g u = Some (Some (int (length msg) - int (length body), g\<lparr>h_actor_id := h_actor_id h\<rparr>, v))"
      using last by (subst query_header_loop.simps) simp
    then show ?thesis using 3 \<open>tlf_query_header t = _\<close>
      by (intro exI [of _ "g\<lparr>h_actor_id := h_actor_id h\<rparr>"] exI [of _ v]) (simp add: t_def [symmetric] g_def tl_query_header_zero_def v_def)
  qed
qed

text \<open>
  C21. A query written with \<open>tls_header\<close> and \<open>tls_end_ext\<close>, whose body is a number of 32-bit words and begins with none of the three
  constructors of a header, is read by \<open>tlf_query_header\<close>. Without flags it is parsed back: the query number and the actor are those of
  the sender, the result is the size of the header and the rest of the input is the body. With flags it is refused with the error
  \<open>TL_ERROR_HEADER\<close>: \<open>tls_header\<close> writes them, but \<open>tlf_query_flags\<close> supports none.
\<close>

theorem query_header_roundtrip:
  assumes h: "h_op h = RPC_INVOKE_REQ" and q: "qid \<noteq> 0"
    and b: "4 \<le> length body" "length body mod 4 = 0" "length body + 28 \<le> 2 ^ 27"
      "le32 (take 4 body) \<notin> {RPC_DEST_ACTOR, RPC_DEST_ACTOR_FLAGS, RPC_DEST_FLAGS}"
  shows "\<exists>t1 t2 msg t h' t'. tls_header h (tls_init_tcp_raw_msg True qid) = Some t1 \<and> tls_raw_msg body t1 = Some t2 \<and>
    tls_end_ext t2 RPC_INVOKE_REQ = Some (Some (msg, 4)) \<and>
    tlf_init_raw_message tl_in_state_alloc msg (int (length msg)) = Some t \<and>
    (if h_flags h = 0
     then tlf_query_header t = Some (Some (int (length msg) - int (length body), h', t')) \<and>
       h_qid h' = qid \<and> h_actor_id h' = h_actor_id h \<and> h_flags h' = 0 \<and> in_data t' = body
     else tlf_query_header t = Some (Some (-1, h', t')) \<and> in_error t' = Some TL_ERROR_HEADER)"
proof -
  let ?msg = "bytes32 RPC_INVOKE_REQ @ bytes64 qid @ query_header_bytes h @ body"
  let ?t = "tl_in_state_alloc\<lparr>in_type := tl_type_raw_msg, in_data := ?msg, in_remaining := int (length ?msg)\<rparr>"
  have "tlf_init_raw_message tl_in_state_alloc ?msg (int (length ?msg)) = Some ?t" by (rule tlf_init_reads)
  then show ?thesis using query_header_written [OF h q b(2,3)] query_header_read [OF b(1,4) refl, where qid = qid and h = h] by blast
qed

theorem query_header_roundtrip_witness:
  "\<exists>t1 t2 msg t h' t'. tls_header (tl_query_header_zero\<lparr>h_op := RPC_INVOKE_REQ, h_actor_id := 5\<rparr>) (tls_init_tcp_raw_msg True 9) = Some t1 \<and>
    tls_raw_msg [1, 0, 0, 0] t1 = Some t2 \<and> tls_end_ext t2 RPC_INVOKE_REQ = Some (Some (msg, 4)) \<and>
    tlf_init_raw_message tl_in_state_alloc msg (int (length msg)) = Some t \<and>
    tlf_query_header t = Some (Some (int (length msg) - int (length [1 :: u8, 0, 0, 0]), h', t')) \<and>
    h_qid h' = 9 \<and> h_actor_id h' = 5 \<and> h_flags h' = 0 \<and> in_data t' = [1, 0, 0, 0]"
  using query_header_roundtrip [of "tl_query_header_zero\<lparr>h_op := RPC_INVOKE_REQ, h_actor_id := 5\<rparr>" 9 "[1, 0, 0, 0]"]
  by (simp add: tl_query_header_zero_def tl_ops le32_def)

text \<open>
  \<open>tl_copy_through\<close> with \<^verbatim>\<open>advance\<close> from a string input: the bytes are copied and the position moves
  behind them, but the read pointer moves by a single byte, so the next fetch returns bytes that were copied already.
\<close>

theorem copy_through_str_pointer:
  assumes "in_type ti = tl_type_str" "in_error ti = None" "in_data ti = d @ r" "in_remaining ti = int (length (d @ r))"
    "out_methods to \<noteq> OutNone" "int (length d) \<le> out_remaining to"
  shows "\<exists>ti' to'. tl_copy_through (int (length d)) 1 ti to = Some (int (length d), ti', to') \<and>
    out_data to' = out_data to @ d \<and> in_pos ti' = in_pos ti + int (length d) \<and> in_remaining ti' = int (length r) \<and>
    in_data ti' = drop 1 (d @ r)"
  using assms by (simp add: tl_copy_through_def copy_through_def fetch_lookup_def tlf_check_def tls_check_def)

theorem copy_through_str_pointer_witness:
  "\<exists>ti' to'. tl_copy_through (int (length [1 :: u8, 2, 3, 4])) 1
      (tl_in_state_alloc\<lparr>in_type := tl_type_str, in_data := [1, 2, 3, 4] @ [5, 6], in_remaining := 6\<rparr>) (tls_init_tcp_raw_msg True 0) =
      Some (int (length [1 :: u8, 2, 3, 4]), ti', to') \<and>
    out_data to' = out_data (tls_init_tcp_raw_msg True 0) @ [1, 2, 3, 4] \<and>
    in_pos ti' = in_pos (tl_in_state_alloc\<lparr>in_type := tl_type_str, in_data := [1, 2, 3, 4] @ [5, 6], in_remaining := 6\<rparr>) +
      int (length [1 :: u8, 2, 3, 4]) \<and>
    in_remaining ti' = int (length [5 :: u8, 6]) \<and> in_data ti' = drop 1 ([1, 2, 3, 4] @ [5, 6])"
  by (rule copy_through_str_pointer) (simp_all add: tl_in_state_alloc_def tls_init_tcp_raw_msg_def tl_store_init_def)

end
