(* ===== verification/Forward.thy ===== *)
theory Forward
  imports ProxyConn TlParse
begin

text \<open>
  Forwarding of \<^verbatim>\<open>mtproto/mtproto-proxy.c\<close>: a client's packet becomes an \<^verbatim>\<open>RPC_PROXY_REQ\<close> on a connection
  to a middle proxy (\<open>do_rpcs_execute\<close>, \<open>forward_mtproto_packet\<close>, \<open>forward_tcp_query\<close>), and an answer of a middle
  proxy goes to the client it is for (\<open>process_client_packet\<close>).

  Connections are given by descriptor and generation. The environment says which of them exist; the
  connections that \<^verbatim>\<open>rpc_target_choose_random_connections\<close> returns, the address of a new object and the random numbers
  are arguments. What a handler does outside the table is a list of actions.
\<close>

section \<open>State\<close>

definition RPC_F_DROPPED :: u32 where "RPC_F_DROPPED = 0x10000000"
definition RPC_F_COMPACT_MEDIUM :: u32 where "RPC_F_COMPACT_MEDIUM = RPC_F_COMPACT OR RPC_F_MEDIUM"
definition RPC_F_EXTMODE3 :: u32 where "RPC_F_EXTMODE3 = 0x30000"
definition RPC_PROXY_REQ :: u32 where "RPC_PROXY_REQ = 0x36cef1ee"
definition RPC_PROXY_ANS :: u32 where "RPC_PROXY_ANS = 0x4403da0d"
definition RPC_CLOSE_CONN :: u32 where "RPC_CLOSE_CONN = 0x1fcf425d"
definition RPC_CLOSE_EXT :: u32 where "RPC_CLOSE_EXT = 0x5eb634a2"
definition RPC_SIMPLE_ACK :: u32 where "RPC_SIMPLE_ACK = 0x3bac409b"
definition TL_PROXY_TAG :: u32 where "TL_PROXY_TAG = 0xdb1e26ae"
definition TL_HTTP_QUERY_INFO :: u32 where "TL_HTTP_QUERY_INFO = 0xd45ab381"
definition CODE_req_pq :: u32 where "CODE_req_pq = 0x60469778"
definition CODE_req_pq_multi :: u32 where "CODE_req_pq_multi = 0xbe7e8ef1"
definition CODE_req_DH_params :: u32 where "CODE_req_DH_params = 0xd712e4be"
definition CODE_set_client_DH_params :: u32 where "CODE_set_client_DH_params = 0xf5045f1f"
definition SKIP_ALL_BYTES :: int where "SKIP_ALL_BYTES = - (2 ^ 31)"
definition MAX_POST_SIZE :: int where "MAX_POST_SIZE = 262144 * 4 - 4096"

datatype conn_type = ExtServerConn | HttpServerConn | OtherConn

record client_conn =
  cl_type :: conn_type
  cl_fd :: int
  cl_generation :: int
  cl_flags :: u32
  cl_extra_int2 :: int
  cl_extra_int4 :: int
  cl_remote_ip :: u32
  cl_remote_ipv6 :: bytes
  cl_remote_port :: u32
  cl_our_ip :: u32
  cl_our_ipv6 :: bytes
  cl_our_port :: u32
  cl_pending_queries :: int
  cl_used_bytes :: int

text \<open>
  The configuration: the proxy tag, the headers of the current HTTP query, the address translation
  rules; which connections are found and are connections to a target, and the client connections that are found.

  The actions: those of the table; a message given to \<^verbatim>\<open>tcp_rpc_conn_send\<close> with its flags, or pushed to
  the output queue as it is; an HTTP error; the job that ends an HTTP answer.
\<close>

record proxy_env =
  proxy_tag :: "bytes option"
  http_origin :: bytes
  http_referer :: bytes
  http_user_agent :: bytes
  nat_info :: "(u32 \<times> u32) list"
  alive :: "int \<Rightarrow> int \<Rightarrow> bool"
  has_target :: "int \<Rightarrow> int \<Rightarrow> bool"
  client_of :: "int \<Rightarrow> int \<Rightarrow> client_conn option"

datatype proxy_action =
  Table ext_action
| SendTo int int bytes nat
| PushRaw int int bytes
| HttpError int int int
| HttpFinish int int

fun nat_translate_ip :: "(u32 \<times> u32) list \<Rightarrow> u32 \<Rightarrow> u32" where
  "nat_translate_ip [] local_ip = local_ip"
| "nat_translate_ip ((a, b) # rules) local_ip = (if a = local_ip then b else nat_translate_ip rules local_ip)"

section \<open>The request to the middle proxy\<close>

text \<open>Four bytes in network order.\<close>

definition htonl_bytes :: "u32 \<Rightarrow> bytes" where
  "htonl_bytes w = [ucast (drop_bit 24 w), ucast (drop_bit 16 w), ucast (drop_bit 8 w), ucast w]"

text \<open>An address and a port: \<open>Some ip\<close> is written as a 4-in-6 address.\<close>

definition store_address :: "u32 option \<Rightarrow> bytes \<Rightarrow> u32 \<Rightarrow> tl_out_state \<Rightarrow> tl_out_state option" where
  "store_address ipv4 ipv6 port t = do {
     t \<leftarrow> (case ipv4 of
         Some ip \<Rightarrow> do {
           t \<leftarrow> tls_long 0 t;
           t \<leftarrow> tls_int (- 0x10000) t;
           tls_raw_data (htonl_bytes ip) t }
       | None \<Rightarrow> tls_raw_data (take 16 ipv6) t);
     tls_int port t }"

text \<open>
  The extra fields. Their size goes into the word reserved before them, so they are written to a copy
  of the output first.
\<close>

definition store_extra_fields :: "proxy_env \<Rightarrow> u32 \<Rightarrow> tl_out_state \<Rightarrow> tl_out_state option" where
  "store_extra_fields env flags t = do {
     t \<leftarrow> (if flags AND 8 \<noteq> 0 then do {
         t \<leftarrow> tls_int TL_PROXY_TAG t;
         tls_string (case proxy_tag env of Some tag \<Rightarrow> tag | None \<Rightarrow> replicate 16 0) t }
       else Some t);
     if flags AND 4 \<noteq> 0 then do {
       t \<leftarrow> tls_int TL_HTTP_QUERY_INFO t;
       t \<leftarrow> tls_string (http_origin env) t;
       t \<leftarrow> tls_string (http_referer env) t;
       tls_string (http_user_agent env) t }
     else Some t }"

definition store_extra :: "proxy_env \<Rightarrow> u32 \<Rightarrow> tl_out_state \<Rightarrow> tl_out_state option" where
  "store_extra env flags t =
     (if flags AND 12 \<noteq> 0 then do {
        t0 \<leftarrow> tls_int 0 t;
        t1 \<leftarrow> store_extra_fields env flags t0;
        t \<leftarrow> tls_int (word_of_int (out_pos t1 - out_pos t0)) t;
        store_extra_fields env flags t }
      else Some t)"

definition store_proxy_req ::
  "proxy_env \<Rightarrow> client_conn \<Rightarrow> u32 \<Rightarrow> u64 \<Rightarrow> bytes option \<Rightarrow> bytes option \<Rightarrow> tl_in_state \<Rightarrow> (tl_in_state \<times> (bytes \<times> nat) option) option" where
  "store_proxy_req env c flags cid remote_ip_port our_ip_port tlio_in = do {
     let t = tls_init_tcp_raw_msg True 0;
     t \<leftarrow> tls_int RPC_PROXY_REQ t;
     t \<leftarrow> tls_int flags t;
     t \<leftarrow> tls_long cid t;
     t \<leftarrow> (case remote_ip_port of
         Some a \<Rightarrow> tls_raw_data (take 20 a) t
       | None \<Rightarrow> store_address (if cl_remote_ip c \<noteq> 0 then Some (cl_remote_ip c) else None) (cl_remote_ipv6 c) (cl_remote_port c) t);
     t \<leftarrow> (case our_ip_port of
         Some a \<Rightarrow> tls_raw_data (take 20 a) t
       | None \<Rightarrow> store_address (if cl_our_ip c \<noteq> 0 then Some (nat_translate_ip (nat_info env) (cl_our_ip c)) else None)
           (cl_our_ipv6 c) (cl_our_port c) t);
     t \<leftarrow> store_extra env flags t;
     let len = in_remaining tlio_in;
     (r, tlio_in, t) \<leftarrow> tl_copy_through len 1 tlio_in t;
     cassert (r = len);
     out \<leftarrow> tls_end_ext t 0;
     Some (tlio_in, out) }"

section \<open>Forwarding a packet\<close>

text \<open>The first of at most five choices that is a ready connection; no choices if there is no target.\<close>

fun choose_connection :: "nat \<Rightarrow> rpc_conn option list \<Rightarrow> rpc_conn option" where
  "choose_connection 0 choices = None"
| "choose_connection (Suc attempts) [] = None"
| "choose_connection (Suc attempts) (d # choices) =
     (case d of
        Some C \<Rightarrow> if conn_extra_int C = get_conn_tag C then Some C else choose_connection attempts choices
      | None \<Rightarrow> choose_connection attempts choices)"

text \<open>
  The object of the client and its connection to a middle proxy, if that still exists; otherwise the
  object is removed.
\<close>

definition existing_ext ::
  "proxy_env \<Rightarrow> nat option \<Rightarrow> ext_table \<Rightarrow> (ext_action list \<times> (nat \<times> int \<times> int) option \<times> ext_table) option" where
  "existing_ext env ex s = (case ex of
       None \<Rightarrow> Some ([], None, s)
     | Some e \<Rightarrow> do {
         x \<leftarrow> exts s e;
         cassert (0 < out_fd x \<and> out_fd x < MAX_CONNECTIONS);
         if has_target env (out_fd x) (out_gen x) then Some ([], Some (e, out_fd x, out_gen x), s)
         else do {
           (a, s) \<leftarrow> remove_ext_connection (alive env) e 1 s;
           Some (a, None, s) } })"

text \<open>The flags and the secret number that \<open>forward_tcp_query\<close> derives from the client's connection.\<close>

definition query_flags :: "client_conn \<Rightarrow> u32 \<Rightarrow> u32" where
  "query_flags c flags = (case cl_type c of
       ExtServerConn \<Rightarrow> flags OR (cl_flags c AND RPC_F_DROPPED) OR 0x1000
     | HttpServerConn \<Rightarrow> flags OR 0x3005
     | OtherConn \<Rightarrow> flags)"

definition query_secret :: "client_conn \<Rightarrow> int" where
  "query_secret c = (if cl_type c = ExtServerConn then cl_extra_int2 c - 1 else -1)"

record forward_result =
  fw_result :: int
  fw_actions :: "proxy_action list"
  fw_conn :: client_conn
  fw_in :: tl_in_state
  fw_table :: ext_table

text \<open>The last part: count the object, write the request and send it.\<close>

definition send_query ::
  "proxy_env \<Rightarrow> client_conn \<Rightarrow> u32 \<Rightarrow> bytes option \<Rightarrow> bytes option \<Rightarrow> tl_in_state \<Rightarrow> proxy_action list \<Rightarrow>
   nat \<times> int \<times> int \<Rightarrow> ext_table \<Rightarrow> forward_result option" where
  "send_query env c flags remote_ip_port our_ip_port tlio_in acts target s = (case target of (e, dfd, dgen) \<Rightarrow> do {
     s \<leftarrow> track_ext e (query_secret c) (mtfront_extract_client_ipv6 (cl_remote_ip c) (cl_remote_ipv6 c)) s;
     let flags = (if proxy_tag env \<noteq> None then flags OR 8 else flags);
     x \<leftarrow> exts s e;
     (tlio_in, out) \<leftarrow> store_proxy_req env c flags (out_conn_id x) remote_ip_port our_ip_port tlio_in;
     (msg, send_flags) \<leftarrow> out;
     cassert (cl_type c = HttpServerConn \<longrightarrow> cl_pending_queries c = 1);
     Some \<lparr>fw_result = 1, fw_actions = acts @ [SendTo dfd dgen msg send_flags], fw_conn = c, fw_in = tlio_in, fw_table = s\<rparr> })"

definition forward_tcp_query ::
  "proxy_env \<Rightarrow> nat \<Rightarrow> u64 list \<Rightarrow> rpc_conn option list \<Rightarrow> tl_in_state \<Rightarrow> client_conn \<Rightarrow> u32 \<Rightarrow> u64 \<Rightarrow> bytes option \<Rightarrow>
   bytes option \<Rightarrow> ext_table \<Rightarrow> forward_result option" where
  "forward_tcp_query env new rnd choices tlio_in c flags key remote_ip_port our_ip_port s = do {
     Ex \<leftarrow> get_ext_connection_by_in_fd (cl_fd c) s;
     let flags = query_flags c flags;
     s \<leftarrow> (case Ex of None \<Rightarrow> Some s | Some e \<Rightarrow> store_auth_key e key s);
     (a, found, s) \<leftarrow> existing_ext env Ex s;
     let acts = map Table a;
     case found of
       Some target \<Rightarrow> send_query env c flags remote_ip_port our_ip_port tlio_in acts target s
     | None \<Rightarrow>
         (case choose_connection 5 choices of
            None \<Rightarrow>
              let c = (if cl_type c = ExtServerConn then c\<lparr>cl_flags := cl_flags c OR RPC_F_DROPPED\<rparr> else c)
              in Some \<lparr>fw_result = 0, fw_actions = acts, fw_conn = c, fw_in = tlio_in, fw_table = s\<rparr>
          | Some d \<Rightarrow>
              if flags AND RPC_F_DROPPED \<noteq> 0 then
                Some \<lparr>fw_result = 0, fw_actions = acts @ [Table (FailConnection (cl_fd c) (cl_generation c) (-35))],
                  fw_conn = c, fw_in = tlio_in, fw_table = s\<rparr>
              else do {
                (e, s) \<leftarrow> create_ext_connection new rnd (cl_fd c, cl_generation c) 0 (Some (conn_fd d, conn_generation d)) key s;
                send_query env c flags remote_ip_port our_ip_port tlio_in acts (e, conn_fd d, conn_generation d) s }) }"

text \<open>
  A packet is encrypted (a key number) or one of the four messages of the key exchange. The sum
  \<^verbatim>\<open>inner_len + 20\<close> is computed in 32 bits and wraps around.
\<close>

definition forward_mtproto_packet ::
  "proxy_env \<Rightarrow> nat \<Rightarrow> u64 list \<Rightarrow> rpc_conn option list \<Rightarrow> tl_in_state \<Rightarrow> client_conn \<Rightarrow> int \<Rightarrow> bytes option \<Rightarrow> u32 \<Rightarrow>
   ext_table \<Rightarrow> forward_result option" where
  "forward_mtproto_packet env new rnd choices tlio_in c len remote_ip_port rpc_flags s =
     (let drop = Some \<lparr>fw_result = 0, fw_actions = [], fw_conn = c, fw_in = tlio_in, fw_table = s\<rparr> in
      if len < 28 \<or> len AND 3 \<noteq> 0 then drop
      else do {
        (r, header, tlio_in) \<leftarrow> tlf_lookup_data 28 tlio_in;
        cassert (r = 28);
        let key = le64 header;
        if key \<noteq> 0 then
          if len < 56 then drop
          else do {
            cassert (in_remaining tlio_in = len);
            forward_tcp_query env new rnd choices tlio_in c rpc_flags key remote_ip_port None s }
        else
          let inner_len = sint (le32 (List.drop 16 header)); function = le32 (List.drop 20 header) in
          if sint (le32 (List.drop 16 header) + 20) > len then drop
          else if inner_len < 20 then drop
          else if function \<notin> {CODE_req_pq, CODE_req_pq_multi, CODE_req_DH_params, CODE_set_client_DH_params} then drop
          else do {
            cassert (len = in_remaining tlio_in);
            forward_tcp_query env new rnd choices tlio_in c (2 OR rpc_flags) 0 remote_ip_port None s } })"

text \<open>The engine job of a packet from a client; the packet is dropped if nothing comes of it.\<close>

definition do_rpcs_execute ::
  "proxy_env \<Rightarrow> nat \<Rightarrow> u64 list \<Rightarrow> rpc_conn option list \<Rightarrow> bytes \<Rightarrow> client_conn \<Rightarrow> u32 \<Rightarrow> ext_table \<Rightarrow> forward_result option" where
  "do_rpcs_execute env new rnd choices msg c rpc_flags s = do {
     s \<leftarrow> lru_insert_conn \<lparr>conn_fd = cl_fd c, conn_generation = cl_generation c, conn_extra_int = 0\<rparr> s;
     let len = int (length msg);
     tlio_in \<leftarrow> tlf_init_raw_message tl_in_state_alloc msg len;
     forward_mtproto_packet env new rnd choices tlio_in c len None rpc_flags s }"

text \<open>\<open>ext_rpcs_execute\<close>: the result, the actions, and the flags with which the job is scheduled.\<close>

definition ext_rpcs_execute :: "client_conn \<Rightarrow> bytes \<Rightarrow> int \<times> ext_action list \<times> u32 option" where
  "ext_rpcs_execute c msg =
     (if int (length msg) > MAX_POST_SIZE then (SKIP_ALL_BYTES, [], None)
      else case check_conn_buffers \<lparr>conn_fd = cl_fd c, conn_generation = cl_generation c, conn_extra_int = 0\<rparr> (cl_used_bytes c) of
        (a, r) \<Rightarrow>
          if r < 0 then (SKIP_ALL_BYTES, a, None)
          else (1, a, Some (cl_flags c AND (RPC_F_QUICKACK OR RPC_F_DROPPED OR RPC_F_COMPACT_MEDIUM OR RPC_F_EXTMODE3))))"

section \<open>Answers\<close>

text \<open>The text of a number, as \<^verbatim>\<open>printf ("%d")\<close> prints it.\<close>

fun dec_digits :: "nat \<Rightarrow> bytes" where
  "dec_digits n = (if n < 10 then [word_of_nat (48 + n)] else dec_digits (n div 10) @ [word_of_nat (48 + n mod 10)])"

declare dec_digits.simps [simp del]

definition text_bytes :: "string \<Rightarrow> bytes" where
  "text_bytes s = map (\<lambda>c. word_of_nat (of_char c)) s"

definition crlf :: bytes where
  "crlf = [13, 10]"

definition mtproto_cors_http_headers :: bytes where
  "mtproto_cors_http_headers =
     text_bytes ''Access-Control-Allow-Origin: *'' @ crlf @
     text_bytes ''Access-Control-Allow-Methods: POST, OPTIONS'' @ crlf @
     text_bytes ''Access-Control-Allow-Headers: origin, content-type'' @ crlf @
     text_bytes ''Access-Control-Max-Age: 1728000'' @ crlf"

definition http_response_header :: "bool \<Rightarrow> bool \<Rightarrow> nat \<Rightarrow> bytes" where
  "http_response_header keepalive extra_headers len =
     text_bytes ''HTTP/1.1 200 OK'' @ crlf @
     text_bytes ''Connection: '' @ text_bytes (if keepalive then ''keep-alive'' else ''close'') @ crlf @
     text_bytes ''Content-type: application/octet-stream'' @ crlf @
     text_bytes ''Pragma: no-cache'' @ crlf @
     text_bytes ''Cache-control: no-store'' @ crlf @
     (if extra_headers then mtproto_cors_http_headers else []) @
     text_bytes ''Content-length: '' @ dec_digits len @ crlf @ crlf"

text \<open>
  \<open>keepalive\<close> and \<open>extra_headers\<close> are the bits \<^verbatim>\<open>QF_KEEPALIVE\<close> and \<^verbatim>\<open>QF_EXTRA_HEADERS\<close> of the
  query.
\<close>

definition http_send_message ::
  "proxy_env \<Rightarrow> bool \<Rightarrow> bool \<Rightarrow> client_conn \<Rightarrow> tl_in_state \<Rightarrow> u32 \<Rightarrow> ext_table \<Rightarrow> (proxy_action list \<times> ext_table) option" where
  "http_send_message env keepalive extra_headers C tlio_in flags s = do {
     a \<leftarrow> (if flags AND 0x10 \<noteq> 0 \<and> in_remaining tlio_in = 4 then do {
         (error_code, tlio_in) \<leftarrow> tlf_int tlio_in;
         Some [HttpError (cl_fd C) (cl_generation C) (- sint error_code)] }
       else do {
         let len = in_remaining tlio_in;
         t \<leftarrow> tls_raw_data (http_response_header keepalive extra_headers (nat len)) (tls_init_tcp_raw_msg_unaligned True 0);
         (r, tlio_in, t) \<leftarrow> tl_copy_through len 1 tlio_in t;
         cassert (r = len);
         out \<leftarrow> tls_end_ext t 0;
         (msg, fl) \<leftarrow> out;
         Some [SendTo (cl_fd C) (cl_generation C) msg fl] });
     cassert (cl_pending_queries C = 1);
     cassert (valid_fd (cl_fd C));
     (b, s) \<leftarrow> do_close_in_ext_conn (alive env) (cl_fd C) s;
     Some (a @ map Table b @ [HttpFinish (cl_fd C) (cl_generation C)], s) }"

text \<open>\<open>used_after\<close> is the size of the connection's buffers after the message was queued.\<close>

definition client_send_message ::
  "proxy_env \<Rightarrow> bool \<Rightarrow> bool \<Rightarrow> int \<Rightarrow> client_conn \<Rightarrow> u64 \<Rightarrow> tl_in_state \<Rightarrow> u32 \<Rightarrow> ext_table \<Rightarrow>
   (int \<times> proxy_action list \<times> ext_table) option" where
  "client_send_message env keepalive extra_headers used_after C conn_id tlio_in flags s =
     (let conn = \<lparr>conn_fd = cl_fd C, conn_generation = cl_generation C, conn_extra_int = 0\<rparr> in
      case check_conn_buffers conn (cl_used_bytes C) of (f, r) \<Rightarrow>
      if r < 0 then Some (-1, map Table f, s)
      else do {
        cassert (conn_id = 0);
        if cl_type C = HttpServerConn then do {
          (a, s) \<leftarrow> http_send_message env keepalive extra_headers C tlio_in flags s;
          Some (1, a, s) }
        else do {
          (r, tlio_in, t) \<leftarrow> tl_copy_through (in_remaining tlio_in) 1 tlio_in (tls_init_tcp_raw_msg True 0);
          cassert (r \<ge> 0);
          out \<leftarrow> tls_end_ext t 0;
          (msg, fl) \<leftarrow> out;
          let (g, r) = check_conn_buffers conn used_after;
          Some (if r < 0 then -1 else 1, SendTo (cl_fd C) (cl_generation C) msg fl # map Table g, s) } })"

text \<open>
  \<open>push_rpc_confirmation\<close>: \<open>coin\<close> is the first random bit, \<open>p1\<close> and \<open>p2\<close> the random words appended to the two
  messages (none or one each).
\<close>

definition push_rpc_confirmation ::
  "bool \<Rightarrow> u32 option \<Rightarrow> u32 option \<Rightarrow> client_conn \<Rightarrow> u32 \<Rightarrow> proxy_action list" where
  "push_rpc_confirmation coin p1 p2 C confirm =
     (if coin \<or> \<not> has_flag (cl_flags C) RPC_F_PAD then [PushRaw (cl_fd C) (cl_generation C) (0xdd # bytes32 confirm)]
      else
        let pad = (\<lambda>p. case p of Some w \<Rightarrow> bytes32 w | None \<Rightarrow> []) in
        [SendTo (cl_fd C) (cl_generation C) (bytes32 (-1) @ bytes32 confirm @ pad p1) 0,
         SendTo (cl_fd C) (cl_generation C) (bytes32 0 @ pad p2) 0])"

definition bswap32 :: "u32 \<Rightarrow> u32" where
  "bswap32 w = le32 (rev (bytes32 w))"

definition notify_remote_closed :: "int \<Rightarrow> int \<Rightarrow> u64 \<Rightarrow> proxy_action" where
  "notify_remote_closed fd gen cid = Table (NotifyRemoteClosed fd gen cid)"

text \<open>The client an object of the middle proxy's connection belongs to: object and connection.\<close>

definition answer_target :: "proxy_env \<Rightarrow> int \<Rightarrow> int \<Rightarrow> u64 \<Rightarrow> ext_table \<Rightarrow> (ext_connection \<times> client_conn) option option" where
  "answer_target env fd gen cid s = do {
     f \<leftarrow> find_ext_connection_by_out_conn_id cid s;
     case f of
       None \<Rightarrow> Some None
     | Some e \<Rightarrow> do {
         x \<leftarrow> exts s e;
         Some (if out_fd x = fd \<and> out_gen x = gen
               then map_option (Pair x) (client_of env (in_fd x) (in_gen x)) else None) } }"

record answer_random =
  ar_keepalive :: bool
  ar_extra_headers :: bool
  ar_used_after :: int
  ar_coin :: bool
  ar_pad1 :: "u32 option"
  ar_pad2 :: "u32 option"

text \<open>\<open>process_client_packet\<close>: the packet \<open>tlio_in\<close> with type \<open>opc\<close> from the middle proxy \<open>(fd, gen)\<close>.\<close>

definition process_client_packet ::
  "proxy_env \<Rightarrow> answer_random \<Rightarrow> tl_in_state \<Rightarrow> u32 \<Rightarrow> int \<Rightarrow> int \<Rightarrow> ext_table \<Rightarrow> (int \<times> proxy_action list \<times> ext_table) option" where
  "process_client_packet env ar tlio_in opc fd gen s = do {
     let len = in_remaining tlio_in;
     (x, tlio_in) \<leftarrow> tlf_int tlio_in;
     cassert (opc = x);
     if opc = RPC_PONG then Some (1, [], s)
     else if opc = RPC_PROXY_ANS \<and> len \<ge> 16 then do {
       (flags, tlio_in) \<leftarrow> tlf_int tlio_in;
       (cid, tlio_in) \<leftarrow> tlf_long tlio_in;
       cassert (in_remaining tlio_in = len - 16);
       d \<leftarrow> answer_target env fd gen cid s;
       case d of
         Some (x, C) \<Rightarrow> do {
           (r, a, s) \<leftarrow> client_send_message env (ar_keepalive ar) (ar_extra_headers ar) (ar_used_after ar) C (in_conn_id x) tlio_in flags s;
           Some (1, a, s) }
       | None \<Rightarrow> Some (1, [notify_remote_closed fd gen cid], s) }
     else if opc = RPC_SIMPLE_ACK \<and> len = 16 then do {
       (cid, tlio_in) \<leftarrow> tlf_long tlio_in;
       (confirm, tlio_in) \<leftarrow> tlf_int tlio_in;
       d \<leftarrow> answer_target env fd gen cid s;
       case d of
         Some (x, C) \<Rightarrow> do {
           cassert (in_conn_id x = 0);
           let confirm = (if has_flag (cl_flags C) RPC_F_COMPACT then bswap32 confirm else confirm);
           Some (1, push_rpc_confirmation (ar_coin ar) (ar_pad1 ar) (ar_pad2 ar) C confirm, s) }
       | None \<Rightarrow> Some (1, [notify_remote_closed fd gen cid], s) }
     else if opc = RPC_CLOSE_EXT \<and> len = 12 then do {
       (cid, tlio_in) \<leftarrow> tlf_long tlio_in;
       f \<leftarrow> find_ext_connection_by_out_conn_id cid s;
       case f of
         Some e \<Rightarrow> do { (a, s) \<leftarrow> remove_ext_connection (alive env) e 2 s; Some (1, map Table a, s) }
       | None \<Rightarrow> Some (1, [], s) }
     else Some (0, [], s) }"

end
