(* ===== verification/ProxySafety.thy ===== *)
theory ProxySafety
  imports Forward
begin

text \<open>
  Properties of forwarding: the request that reaches the middle proxy, that handling a packet never
  fails an assertion and keeps the table of external connections consistent, and that answers reach
  only the client they are for.
\<close>

section \<open>The layout of a request\<close>

definition addr_bytes :: "u32 option \<Rightarrow> bytes \<Rightarrow> u32 \<Rightarrow> bytes" where
  "addr_bytes ipv4 ipv6 port =
     (case ipv4 of Some ip \<Rightarrow> replicate 10 0 @ [0xff, 0xff] @ htonl_bytes ip | None \<Rightarrow> ipv6) @ bytes32 port"

definition extra_bytes :: "proxy_env \<Rightarrow> u32 \<Rightarrow> bytes" where
  "extra_bytes env flags =
     (if flags AND 8 \<noteq> 0 then bytes32 TL_PROXY_TAG @ string_bytes 0 (case proxy_tag env of Some tag \<Rightarrow> tag | None \<Rightarrow> replicate 16 0) else []) @
     (if flags AND 4 \<noteq> 0 then bytes32 TL_HTTP_QUERY_INFO @ string_bytes 0 (http_origin env) @
        string_bytes 0 (http_referer env) @ string_bytes 0 (http_user_agent env) else [])"

definition proxy_req_bytes :: "proxy_env \<Rightarrow> client_conn \<Rightarrow> u32 \<Rightarrow> u64 \<Rightarrow> bytes \<Rightarrow> bytes" where
  "proxy_req_bytes env c flags cid payload =
     bytes32 RPC_PROXY_REQ @ bytes32 flags @ bytes64 cid @
     addr_bytes (if cl_remote_ip c \<noteq> 0 then Some (cl_remote_ip c) else None) (cl_remote_ipv6 c) (cl_remote_port c) @
     addr_bytes (if cl_our_ip c \<noteq> 0 then Some (nat_translate_ip (nat_info env) (cl_our_ip c)) else None) (cl_our_ipv6 c) (cl_our_port c) @
     (if flags AND 12 \<noteq> 0 then bytes32 (word_of_nat (length (extra_bytes env flags))) @ extra_bytes env flags else []) @
     payload"

text \<open>The sizes that the configuration and the connections of the program respect.\<close>

definition env_ok :: "proxy_env \<Rightarrow> bool" where
  "env_ok env \<longleftrightarrow> (\<forall>tag. proxy_tag env = Some tag \<longrightarrow> length tag = 16) \<and>
     length (http_origin env) < 2 ^ 20 \<and> length (http_referer env) < 2 ^ 20 \<and> length (http_user_agent env) < 2 ^ 20"

definition conn_ok :: "client_conn \<Rightarrow> bool" where
  "conn_ok c \<longleftrightarrow> length (cl_remote_ipv6 c) = 16 \<and> length (cl_our_ipv6 c) = 16"

lemma write_append [simp]: "tls_raw_data_unchecked b (tls_raw_data_unchecked a t) = tls_raw_data_unchecked (a @ b) t"
  by (simp add: tls_raw_data_unchecked_def)

lemma tls_int_ok [simp]: "out_methods t \<noteq> OutNone \<Longrightarrow> 4 \<le> out_remaining t \<Longrightarrow> tls_int x t = Some (tls_raw_data_unchecked (bytes32 x) t)"
  by (simp add: tls_int_def)

lemma tls_long_ok [simp]: "out_methods t \<noteq> OutNone \<Longrightarrow> 8 \<le> out_remaining t \<Longrightarrow> tls_long x t = Some (tls_raw_data_unchecked (bytes64 x) t)"
  by (simp add: tls_long_def)

lemma htonl_length [simp]: "length (htonl_bytes w) = 4"
  by (simp add: htonl_bytes_def)

lemma v4_prefix: "bytes64 0 @ bytes32 (- 0x10000) = replicate 10 0 @ [0xff, 0xff]"
  by code_simp

lemma store_address_ok:
  assumes "out_methods t \<noteq> OutNone" "20 \<le> out_remaining t" "length ipv6 = 16"
  shows "store_address ipv4 ipv6 port t = Some (tls_raw_data_unchecked (addr_bytes ipv4 ipv6 port) t)"
proof (cases ipv4)
  case None
  then show ?thesis using assms by (simp add: store_address_def addr_bytes_def)
next
  case (Some ip)
  have "bytes64 0 @ bytes32 (- 0x10000) @ r = replicate 10 0 @ [0xff, 0xff] @ r" for r
    using v4_prefix by (metis append.assoc)
  then show ?thesis using Some assms by (simp add: store_address_def addr_bytes_def)
qed

lemma length_addr_bytes: "length ipv6 = 16 \<Longrightarrow> length (addr_bytes ipv4 ipv6 port) = 20"
  by (simp add: addr_bytes_def split: option.splits)

lemma length_string_bytes: "p mod 4 = 0 \<Longrightarrow> length (string_bytes p s) \<le> length s + 7 \<and> length (string_bytes p s) mod 4 = 0"
proof -
  assume p: "p mod (4 :: int) = 0"
  have "(- (p + int (length (string_prefix (length s)) + length s))) mod 4 < 4" by simp
  then have "length (string_pad p s) \<le> 3" by (simp add: string_pad_def)
  then have "length (string_bytes p s) \<le> length s + 7" by (simp add: string_bytes_def length_string_prefix)
  moreover have "int (length (string_bytes p s)) mod 4 = 0" using string_bytes_aligned(1) [OF p, of s] p by presburger
  then have "length (string_bytes p s) mod 4 = 0" by presburger
  ultimately show ?thesis by simp
qed

lemma string_bytes_eq: "p mod 4 = 0 \<Longrightarrow> string_bytes p s = string_bytes 0 s"
  using string_pad_aligned [of p 0 s] by (simp add: string_bytes_def)

lemma tls_string_aligned:
  assumes "out_methods t \<noteq> OutNone" "length s < 2 ^ 24" "int (length s) + 7 \<le> out_remaining t" "out_pos t mod 4 = 0"
  shows "tls_string s t = Some (tls_raw_data_unchecked (string_bytes 0 s) t)"
  using tls_string_ok [OF assms(1-3)] string_bytes_eq [OF assms(4)] by simp

lemma extra_fields_ok:
  assumes m: "out_methods t \<noteq> OutNone" and r: "2 ^ 24 \<le> out_remaining t" and p: "out_pos t mod 4 = 0" and e: "env_ok env"
  shows "store_extra_fields env flags t = Some (tls_raw_data_unchecked (extra_bytes env flags) t)"
proof -
  define tag where "tag = (case proxy_tag env of Some tag \<Rightarrow> tag | None \<Rightarrow> replicate 16 0)"
  have lt: "length tag = 16" using e by (auto simp: tag_def env_ok_def split: option.splits)
  let ?tb = "bytes32 TL_PROXY_TAG @ string_bytes 0 tag"
  define A where "A = (if flags AND 8 \<noteq> 0 then ?tb else [])"
  have la: "length A \<le> 27" "length A mod 4 = 0"
    using length_string_bytes [of 0 tag] lt by (auto simp: A_def)
  have 1: "(if flags AND 8 \<noteq> 0 then tls_int TL_PROXY_TAG t \<bind> tls_string tag else Some t) = Some (tls_raw_data_unchecked A t)"
  proof (cases "flags AND 8 = 0")
    case True
    then show ?thesis by (simp add: A_def tls_raw_data_unchecked_def)
  next
    case False
    have "(out_pos t + 4) mod 4 = 0" using p by presburger
    then have "tls_string tag (tls_raw_data_unchecked (bytes32 TL_PROXY_TAG) t) = Some (tls_raw_data_unchecked ?tb t)"
      using m r lt by (subst tls_string_aligned) auto
    then show ?thesis using False m r by (simp add: A_def)
  qed
  let ?t = "tls_raw_data_unchecked A t"
  have pa: "(out_pos t + int (length A)) mod 4 = 0" using p la(2) by presburger
  define b0 where "b0 = bytes32 TL_HTTP_QUERY_INFO"
  define b1 where "b1 = b0 @ string_bytes 0 (http_origin env)"
  define b2 where "b2 = b1 @ string_bytes 0 (http_referer env)"
  define b3 where "b3 = b2 @ string_bytes 0 (http_user_agent env)"
  have len: "length (http_origin env) < 2 ^ 20" "length (http_referer env) < 2 ^ 20" "length (http_user_agent env) < 2 ^ 20"
    using e by (auto simp: env_ok_def)
  note sb = length_string_bytes [of 0 "http_origin env"] length_string_bytes [of 0 "http_referer env"]
  have l0: "length b0 = 4" and l1: "length b1 \<le> 2 ^ 20 + 11" "length b1 mod 4 = 0" and l2: "length b2 \<le> 2 ^ 21 + 18" "length b2 mod 4 = 0"
    using sb len by (auto simp: b0_def b1_def b2_def mod_add_eq [symmetric])
  have q: "(out_pos t + int (length A) + int (length b)) mod 4 = 0" if "length b mod 4 = 0" for b :: bytes
    using pa that by presburger
  have 2: "tls_string (http_origin env) (tls_raw_data_unchecked (A @ b0) t) = Some (tls_raw_data_unchecked (A @ b1) t)"
    using m r la l0 len q [of b0] by (subst tls_string_aligned) (auto simp: b1_def algebra_simps)
  have 3: "tls_string (http_referer env) (tls_raw_data_unchecked (A @ b1) t) = Some (tls_raw_data_unchecked (A @ b2) t)"
    using m r la l1 len q [of b1] by (subst tls_string_aligned) (auto simp: b2_def algebra_simps)
  have 4: "tls_string (http_user_agent env) (tls_raw_data_unchecked (A @ b2) t) = Some (tls_raw_data_unchecked (A @ b3) t)"
    using m r la l2 len q [of b2] by (subst tls_string_aligned) (auto simp: b3_def algebra_simps)
  have 5: "tls_int TL_HTTP_QUERY_INFO (tls_raw_data_unchecked A t) = Some (tls_raw_data_unchecked (A @ b0) t)"
    using m r la by (simp add: b0_def)
  have ex: "extra_bytes env flags = A @ (if flags AND 4 \<noteq> 0 then b3 else [])"
    by (simp add: extra_bytes_def A_def tag_def b3_def b2_def b1_def b0_def)
  show ?thesis
    unfolding store_extra_fields_def tag_def [symmetric] 1 ex using 2 3 4 5 by simp
qed

lemma extra_bytes_size:
  assumes "env_ok env"
  shows "length (extra_bytes env flags) \<le> 2 ^ 22 - 64" "length (extra_bytes env flags) mod 4 = 0"
proof -
  define tag where "tag = (case proxy_tag env of Some tag \<Rightarrow> tag | None \<Rightarrow> replicate 16 0)"
  have lt: "length tag = 16" using assms by (auto simp: tag_def env_ok_def split: option.splits)
  note sb = length_string_bytes [of 0 "http_origin env"] length_string_bytes [of 0 "http_referer env"]
    length_string_bytes [of 0 "http_user_agent env"] length_string_bytes [of 0 tag]
  show "length (extra_bytes env flags) \<le> 2 ^ 22 - 64"
    using sb assms lt unfolding extra_bytes_def tag_def [symmetric] env_ok_def by auto
  have "4 dvd length (string_bytes 0 s)" for s using length_string_bytes [of 0 s] by (simp add: mod_eq_0_iff_dvd)
  then have "4 dvd length (extra_bytes env flags)"
    by (simp add: extra_bytes_def dvd_add)
  then show "length (extra_bytes env flags) mod 4 = 0" by (simp add: mod_eq_0_iff_dvd)
qed

lemma store_extra_ok:
  assumes m: "out_methods t \<noteq> OutNone" and r: "2 ^ 25 \<le> out_remaining t" and p: "out_pos t mod 4 = 0" and e: "env_ok env"
  shows "store_extra env flags t = Some (tls_raw_data_unchecked
    (if flags AND 12 \<noteq> 0 then bytes32 (word_of_nat (length (extra_bytes env flags))) @ extra_bytes env flags else []) t)"
proof -
  have p4: "(out_pos t + 4) mod 4 = 0" using p by presburger
  have f: "store_extra_fields env flags (tls_raw_data_unchecked (bytes32 x) t) =
      Some (tls_raw_data_unchecked (bytes32 x @ extra_bytes env flags) t)" for x
    using m r p4 e by (subst extra_fields_ok) auto
  show ?thesis
    using m r f by (simp add: store_extra_def tls_raw_data_unchecked_def)
qed

text \<open>
  The message that \<open>store_proxy_req\<close> hands to \<^verbatim>\<open>tcp_rpc_conn_send\<close>, for an input that is a message of at
  most \<^verbatim>\<open>MAX_POST_SIZE\<close> bytes, a multiple of four.
\<close>

lemma store_proxy_req_ok:
  assumes e: "env_ok env" and c: "conn_ok c"
    and i: "in_type i = tl_type_raw_msg" "in_error i = None" "in_data i = payload" "in_remaining i = int (length payload)"
    and l: "length payload mod 4 = 0" "int (length payload) \<le> MAX_POST_SIZE"
  shows "store_proxy_req env c flags cid None None i =
    Some (i\<lparr>in_data := [], in_pos := in_pos i + int (length payload), in_remaining := 0\<rparr>, Some (proxy_req_bytes env c flags cid payload, 4))"
proof -
  define t0 where "t0 = tls_init_tcp_raw_msg True 0"
  have t0: "out_methods t0 = OutTcp" "out_remaining t0 = 2 ^ 27" "out_pos t0 = 0" "out_data t0 = []" "out_qid t0 = 0" "out_error t0 = None"
    by (simp_all add: t0_def tls_init_tcp_raw_msg_def tl_store_init_def)
  define A1 where "A1 = addr_bytes (if cl_remote_ip c \<noteq> 0 then Some (cl_remote_ip c) else None) (cl_remote_ipv6 c) (cl_remote_port c)"
  define A2 where "A2 = addr_bytes (if cl_our_ip c \<noteq> 0 then Some (nat_translate_ip (nat_info env) (cl_our_ip c)) else None) (cl_our_ipv6 c) (cl_our_port c)"
  define X where "X = (if flags AND 12 \<noteq> 0 then bytes32 (word_of_nat (length (extra_bytes env flags))) @ extra_bytes env flags else [])"
  define h where "h = bytes32 RPC_PROXY_REQ @ bytes32 flags @ bytes64 cid"
  have la: "length A1 = 20" "length A2 = 20" using c length_addr_bytes by (auto simp: A1_def A2_def conn_ok_def)
  have lx: "length X \<le> 2 ^ 22" "length X mod 4 = 0"
    using extra_bytes_size [OF e, of flags] by (auto simp: X_def)
  have lh: "length h = 16" by (simp add: h_def)
  have 1: "store_address (if cl_remote_ip c \<noteq> 0 then Some (cl_remote_ip c) else None) (cl_remote_ipv6 c) (cl_remote_port c)
      (tls_raw_data_unchecked h t0) = Some (tls_raw_data_unchecked (h @ A1) t0)"
    using t0 lh c by (subst store_address_ok) (auto simp: A1_def conn_ok_def)
  have 2: "store_address (if cl_our_ip c \<noteq> 0 then Some (nat_translate_ip (nat_info env) (cl_our_ip c)) else None) (cl_our_ipv6 c) (cl_our_port c)
      (tls_raw_data_unchecked (h @ A1) t0) = Some (tls_raw_data_unchecked (h @ A1 @ A2) t0)"
    using t0 lh la c by (subst store_address_ok) (auto simp: A2_def conn_ok_def)
  have 3: "store_extra env flags (tls_raw_data_unchecked (h @ A1 @ A2) t0) = Some (tls_raw_data_unchecked (h @ A1 @ A2 @ X) t0)"
    using t0 lh la e by (subst store_extra_ok) (auto simp: X_def)
  define t4 where "t4 = tls_raw_data_unchecked (h @ A1 @ A2 @ X) t0"
  have t4: "out_methods t4 = OutTcp" "out_pos t4 = 56 + int (length X)" "out_remaining t4 = 2 ^ 27 - (56 + int (length X))"
    "out_data t4 = h @ A1 @ A2 @ X" "out_qid t4 = 0" "out_error t4 = None"
    using t0 lh la by (simp_all add: t4_def)
  define i' where "i' = i\<lparr>in_data := [], in_pos := in_pos i + int (length payload), in_remaining := 0\<rparr>"
  define t5 where "t5 = t4\<lparr>out_data := out_data t4 @ payload, out_pos := out_pos t4 + int (length payload), out_remaining := out_remaining t4 - int (length payload)\<rparr>"
  have room: "int (length payload) \<le> out_remaining t4" using t4(3) lx(1) l(2) by (simp add: MAX_POST_SIZE_def)
  have 4: "tl_copy_through (int (length payload)) 1 i t4 = Some (int (length payload), i', t5)"
    using i t4(1) room by (simp add: tl_copy_through_def copy_through_def fetch_lookup_def tlf_check_def tls_check_def i'_def t5_def)
  have "out_pos t5 mod 4 = 0" using lx(2) l(1) t4(2) by (simp add: t5_def) presburger
  then have 5: "tls_end_ext t5 0 = Some (Some (h @ A1 @ A2 @ X @ payload, 4))"
    using t4 by (simp add: tls_end_ext_def t5_def and3)
  have req: "proxy_req_bytes env c flags cid payload = h @ A1 @ A2 @ X @ payload"
    by (simp add: proxy_req_bytes_def h_def A1_def A2_def X_def)
  have hd: "tls_int RPC_PROXY_REQ t0 = Some (tls_raw_data_unchecked (bytes32 RPC_PROXY_REQ) t0)"
    "tls_int flags (tls_raw_data_unchecked (bytes32 RPC_PROXY_REQ) t0) = Some (tls_raw_data_unchecked (bytes32 RPC_PROXY_REQ @ bytes32 flags) t0)"
    "tls_long cid (tls_raw_data_unchecked (bytes32 RPC_PROXY_REQ @ bytes32 flags) t0) = Some (tls_raw_data_unchecked h t0)"
    using t0 by (simp_all add: h_def)
  show ?thesis
    unfolding store_proxy_req_def t0_def [symmetric] Let_def
    by (simp only: hd bind.bind_lunit 1 2 3 option.case t4_def [symmetric] i(4) 4 5 cassert_True simp_thms prod.case req i'_def)
qed

section \<open>What handlers keep\<close>

text \<open>
  A handler that creates nothing: the table stays consistent, objects may disappear but keep their
  identity, and no connection number is drawn.
\<close>

definition keeps :: "ext_table \<Rightarrow> ext_table \<Rightarrow> bool" where
  "keeps s s' \<longleftrightarrow> proxy_inv s' \<and> (\<forall>e x'. exts s' e = Some x' \<longrightarrow> (\<exists>x. exts s e = Some x \<and> core x = core x')) \<and>
     (\<forall>h. snd (OutExtConnections s' h) = snd (OutExtConnections s h)) \<and>
     (\<forall>h. fst (OutExtConnections s h) = None \<longrightarrow> fst (OutExtConnections s' h) = None) \<and>
     ext_connections_created s' = ext_connections_created s \<and>
     (\<forall>g. fst (o_links s') (Head g) = None \<longleftrightarrow> fst (o_links s) (Head g) = None)"

lemma keeps_refl: "proxy_inv s \<Longrightarrow> keeps s s"
  by (auto simp: keeps_def)

lemma keeps_inv: "keeps s s' \<Longrightarrow> proxy_inv s'"
  by (simp add: keeps_def)

lemma keeps_trans: "keeps s s' \<Longrightarrow> keeps s' s'' \<Longrightarrow> keeps s s''"
  unfolding keeps_def by (metis (no_types, lifting))

lemma slots_of_objects:
  assumes P: "proxy_inv s" "proxy_inv s'" and sub: "\<forall>e x'. exts s' e = Some x' \<longrightarrow> (\<exists>x. exts s e = Some x \<and> core x = core x')"
    and h: "fst (OutExtConnections s h) = None"
  shows "fst (OutExtConnections s' h) = None"
proof (rule ccontr)
  assume "fst (OutExtConnections s' h) \<noteq> None"
  then obtain e where "fst (OutExtConnections s' h) = Some e" by blast
  then obtain x' where x': "exts s' e = Some x'" "out_slot (out_conn_id x') = h"
    using out_okD2 [OF ext_invD(5) [OF proxy_invD(1) [OF P(2)]]] by blast
  then obtain x where "exts s e = Some x" "core x = core x'" using sub by blast
  then have "OutExtConnections s h = (Some e, out_conn_id x)"
    using out_okD1 [OF ext_invD(5) [OF proxy_invD(1) [OF P(1)]]] core_eq x'(2) by metis
  then show False using h by simp
qed

lemma keepsI:
  assumes "proxy_inv s" "proxy_inv s'" "\<forall>e x'. exts s' e = Some x' \<longrightarrow> (\<exists>x. exts s e = Some x \<and> core x = core x')"
    "\<forall>h. snd (OutExtConnections s' h) = snd (OutExtConnections s h)" "ext_connections_created s' = ext_connections_created s"
    "\<forall>g. fst (o_links s') (Head g) = None \<longleftrightarrow> fst (o_links s) (Head g) = None"
  shows "keeps s s'"
  using assms slots_of_objects [OF assms(1-3)] unfolding keeps_def by blast

lemma shrunk_keeps: "proxy_inv s \<Longrightarrow> proxy_inv s' \<Longrightarrow> shrunk k s s' \<Longrightarrow> keeps s s'"
  by (rule keepsI) (auto simp: shrunk_def split: if_split_asm)

lemma same_core_keeps: "proxy_inv s \<Longrightarrow> proxy_inv s' \<Longrightarrow> same_core s s' \<Longrightarrow> keeps s s'"
proof (rule keepsI)
  assume "same_core s s'"
  then have sc: "\<And>e. map_option core (exts s' e) = map_option core (exts s e)" by (simp add: same_core_def)
  show "\<forall>e x'. exts s' e = Some x' \<longrightarrow> (\<exists>x. exts s e = Some x \<and> core x = core x')"
  proof (intro allI impI)
    fix e x' assume "exts s' e = Some x'"
    then show "\<exists>x. exts s e = Some x \<and> core x = core x'" using sc [of e] by (cases "exts s e") auto
  qed
qed (auto simp: same_core_def)

lemma links_keeps: "proxy_inv s \<Longrightarrow> proxy_inv (s\<lparr>lru_links := l\<rparr>) \<Longrightarrow> keeps s (s\<lparr>lru_links := l\<rparr>)"
  by (rule keepsI) auto

lemma remove_keeps:
  assumes P: "proxy_inv s" and x: "exts s e = Some x"
  shows "\<exists>a s'. remove_ext_connection al e n s = Some (a, s') \<and> keeps s s' \<and> exts s' = (exts s)(e := None)"
proof -
  obtain a s' where r: "remove_ext_connection al e n s = Some (a, s')" "proxy_inv s'" "shrunk (\<lambda>e'. e' \<noteq> e) s s'"
    using remove_inv [OF P x] by blast
  have "exts s' = (exts s)(e := None)" using r(3) by (auto simp: shrunk_def)
  then show ?thesis using r shrunk_keeps [OF P r(2,3)] by blast
qed

lemma lru_insert_conn_keeps:
  assumes P: "proxy_inv s" and fd: "valid_fd (conn_fd C)" "conn_fd C \<noteq> 0"
  shows "\<exists>s'. lru_insert_conn C s = Some s' \<and> keeps s s' \<and> exts s' = exts s \<and> ext_connections s' = ext_connections s"
proof -
  obtain f where f: "get_ext_connection_by_in_fd (conn_fd C) s = Some f"
    "case f of None \<Rightarrow> \<not> (\<exists>e x. exts s e = Some x \<and> in_fd x = conn_fd C) | Some e \<Rightarrow> \<exists>x. exts s e = Some x \<and> in_fd x = conn_fd C"
    using get_by_in_fd [OF proxy_invD(1) [OF P] fd] by blast
  show ?thesis
  proof (cases f)
    case None
    then show ?thesis using f(1) keeps_refl [OF P] by (simp add: lru_insert_conn_def)
  next
    case (Some e)
    then obtain x where x: "exts s e = Some x" using f(2) by auto
    obtain es where es: "lru_list s es" using lru_ok_list ext_invD(6) [OF proxy_invD(1) [OF P]] by blast
    obtain l where l: "lru_insert_ext_conn e s = Some (s\<lparr>lru_links := l\<rparr>)" "proxy_inv (s\<lparr>lru_links := l\<rparr>)"
      using lru_insert_inv [OF P x es] by blast
    have k: "keeps s (s\<lparr>lru_links := l\<rparr>)" using links_keeps [OF P l(2)] .
    show ?thesis
    proof (cases "in_fd x = conn_fd C \<and> in_gen x = conn_generation C")
      case True
      then have "lru_insert_conn C s = Some (s\<lparr>lru_links := l\<rparr>)" using f(1) Some x l(1) by (simp add: lru_insert_conn_def)
      then show ?thesis using k by auto
    next
      case False
      then have "lru_insert_conn C s = Some s" using f(1) Some x by (auto simp: lru_insert_conn_def)
      then show ?thesis using keeps_refl [OF P] by auto
    qed
  qed
qed

section \<open>Forwarding succeeds\<close>

text \<open>A handler that creates the object \<open>x\<close> at \<open>new\<close>: its number is larger than every number its slot had before.\<close>

definition draws :: "ext_table \<Rightarrow> ext_table \<Rightarrow> nat \<Rightarrow> ext_connection \<Rightarrow> bool" where
  "draws s s' new x \<longleftrightarrow> proxy_inv s' \<and> (\<exists>x'. exts s' new = Some x' \<and> core x' = core x) \<and>
     (\<forall>e x'. exts s' e = Some x' \<and> e \<noteq> new \<longrightarrow> (\<exists>y. exts s e = Some y \<and> core y = core x')) \<and>
     (\<forall>h. snd (OutExtConnections s' h) = (if h = out_slot (out_conn_id x) then out_conn_id x else snd (OutExtConnections s h))) \<and>
     unat (snd (OutExtConnections s (out_slot (out_conn_id x)))) < unat (out_conn_id x)"

lemma draws_same_core:
  assumes d: "draws s s' new x" and c: "same_core s' s''" and P: "proxy_inv s''"
  shows "draws s s'' new x"
proof -
  have o: "\<exists>z. exts s' e = Some z \<and> core z = core x'" if "exts s'' e = Some x'" for e x'
    using c that unfolding same_core_def by (metis (no_types, lifting) map_option_eq_Some)
  have f: "\<exists>z. exts s'' e = Some z \<and> core z = core x'" if "exts s' e = Some x'" for e x'
    using c that unfolding same_core_def by (metis (no_types, lifting) map_option_eq_Some)
  have out: "OutExtConnections s'' = OutExtConnections s'" using c by (simp add: same_core_def)
  show ?thesis
    using d P unfolding draws_def out by (metis o f)
qed

lemma keeps_draws: "keeps s s' \<Longrightarrow> draws s' s'' new x \<Longrightarrow> draws s s'' new x"
  unfolding keeps_def draws_def by (metis (no_types, lifting))

text \<open>
  What the environment provides: sizes of the configuration, a fresh address, a table that is not full,
  a random number that leads to a free slot, and ready connections among the choices only.
\<close>

definition can_forward :: "proxy_env \<Rightarrow> nat \<Rightarrow> u64 list \<Rightarrow> rpc_conn option list \<Rightarrow> client_conn \<Rightarrow> ext_table \<Rightarrow> bool" where
  "can_forward env new rnd choices c s \<longleftrightarrow> env_ok env \<and> conn_ok c \<and> valid_fd (cl_fd c) \<and> cl_fd c \<noteq> 0 \<and>
     exts s new = None \<and> ext_connections s < 2 ^ 21 \<and> ext_connections_created s < 2 ^ 40 \<and>
     find_out_slot (OutExtConnections s) (word_of_int (cl_fd c)) rnd \<noteq> None \<and>
     (cl_type c = HttpServerConn \<longrightarrow> cl_pending_queries c = 1) \<and>
     (\<forall>C. Some C \<in> set choices \<and> conn_extra_int C = get_conn_tag C \<longrightarrow>
        valid_fd (conn_fd C) \<and> conn_fd C \<noteq> 0 \<and> conn_fd C \<noteq> cl_fd c \<and> fst (o_links s) (Head (conn_fd C)) \<noteq> None)"

lemma can_forward_keeps:
  assumes k: "keeps s s'" and P: "proxy_inv s" and c: "can_forward env new rnd choices c s"
  shows "can_forward env new rnd choices c s'"
proof -
  have sub: "dom (exts s') \<subseteq> dom (exts s)" using k by (fastforce simp: keeps_def)
  have "ext_connections s' \<le> ext_connections s"
    using ext_invD(1,2) [OF proxy_invD(1) [OF P]] ext_invD(2) [OF proxy_invD(1) [OF keeps_inv [OF k]]] card_mono [OF _ sub]
    by simp
  moreover have "find_out_slot (OutExtConnections s') h rnd \<noteq> None" if "find_out_slot (OutExtConnections s) h rnd \<noteq> None" for h
    using k that unfolding find_out_slot_iff keeps_def by blast
  moreover have "exts s' new = None" using sub c by (auto simp: can_forward_def domIff)
  ultimately show ?thesis using c k by (auto simp: can_forward_def keeps_def)
qed

lemma choose_connection_ready:
  "choose_connection n choices = Some C \<Longrightarrow> Some C \<in> set choices \<and> conn_extra_int C = get_conn_tag C"
  by (induction n choices rule: choose_connection.induct) (auto split: option.split_asm if_split_asm)

lemma existing_ext_ok:
  assumes P: "proxy_inv s" and f: "case f of None \<Rightarrow> \<not> (\<exists>e x. exts s e = Some x \<and> in_fd x = fd) | Some e \<Rightarrow> \<exists>x. exts s e = Some x \<and> in_fd x = fd"
  shows "\<exists>a r s'. existing_ext env f s = Some (a, r, s') \<and> keeps s s' \<and>
    (case r of
       Some (e, dfd, dgen) \<Rightarrow> s' = s \<and> f = Some e \<and> has_target env dfd dgen \<and>
         (\<exists>x. exts s e = Some x \<and> in_fd x = fd \<and> out_fd x = dfd \<and> out_gen x = dgen)
     | None \<Rightarrow> \<not> (\<exists>e x. exts s' e = Some x \<and> in_fd x = fd))"
proof (cases f)
  case None
  then show ?thesis using f keeps_refl [OF P] by (simp add: existing_ext_def)
next
  case (Some e)
  then obtain x where x: "exts s e = Some x" "in_fd x = fd" using f by auto
  have pos: "0 < out_fd x \<and> out_fd x < MAX_CONNECTIONS"
    using proxy_invD(2) [OF P x(1)] ext_invD(4) [OF proxy_invD(1) [OF P]] x(1) unfolding keys_ok_def valid_fd_def
    by (metis order_less_le)
  show ?thesis
  proof (cases "has_target env (out_fd x) (out_gen x)")
    case True
    then show ?thesis using Some x pos keeps_refl [OF P] by (simp add: existing_ext_def)
  next
    case False
    obtain a s' where r: "remove_ext_connection (alive env) e 1 s = Some (a, s')" "keeps s s'" "exts s' = (exts s)(e := None)"
      using remove_keeps [OF P x(1)] by blast
    have "\<not> (\<exists>e x. exts s' e = Some x \<and> in_fd x = fd)"
    proof
      assume "\<exists>e x. exts s' e = Some x \<and> in_fd x = fd"
      then obtain e' x' where e': "e' \<noteq> e" "exts s e' = Some x'" "in_fd x' = fd" using r(3) by (auto split: if_split_asm)
      have "in_fd x' \<noteq> 0" using proxy_invD(2) [OF P e'(2)] by simp
      then show False using ext_invD(4) [OF proxy_invD(1) [OF P]] x e' unfolding keys_ok_def by metis
    qed
    then show ?thesis using Some x pos False r by (simp add: existing_ext_def)
  qed
qed

lemma send_query_ok:
  assumes P: "proxy_inv s" and x: "exts s e = Some x" and ok: "env_ok env" "conn_ok c"
    and pend: "cl_type c = HttpServerConn \<longrightarrow> cl_pending_queries c = 1"
    and i: "in_type i = tl_type_raw_msg" "in_error i = None" "in_data i = payload" "in_remaining i = int (length payload)"
    and l: "length payload mod 4 = 0" "int (length payload) \<le> MAX_POST_SIZE"
  shows "\<exists>i' s'. send_query env c flags None None i acts (e, dfd, dgen) s =
      Some \<lparr>fw_result = 1, fw_actions = acts @ [SendTo dfd dgen (proxy_req_bytes env c
          (if proxy_tag env \<noteq> None then flags OR 8 else flags) (out_conn_id x) payload) 4],
        fw_conn = c, fw_in = i', fw_table = s'\<rparr> \<and> proxy_inv s' \<and> same_core s s'"
proof -
  obtain s' where s': "track_ext e (query_secret c) (mtfront_extract_client_ipv6 (cl_remote_ip c) (cl_remote_ipv6 c)) s = Some s'"
    "proxy_inv s'" "same_core s s'" using track_ext_ok [OF P x] by blast
  have "map_option core (exts s' e) = Some (core x)" using s'(3) x by (simp add: same_core_def)
  then obtain y where y: "exts s' e = Some y" "core y = core x" by auto
  have id: "out_conn_id y = out_conn_id x" using core_eq [OF y(2)] by simp
  define fl where "fl = (if proxy_tag env \<noteq> None then flags OR 8 else flags)"
  have "store_proxy_req env c fl (out_conn_id x) None None i =
    Some (i\<lparr>in_data := [], in_pos := in_pos i + int (length payload), in_remaining := 0\<rparr>, Some (proxy_req_bytes env c fl (out_conn_id x) payload, 4))"
    using store_proxy_req_ok [OF ok i l] .
  then show ?thesis
    using s' y(1) id pend unfolding send_query_def Let_def prod.case fl_def [symmetric] by simp
qed

text \<open>
  The outcome of a packet: dropped, or sent as a request with the packet as payload to the middle proxy
  to which the object of the client is bound, under the number of that object.
\<close>

definition forward_outcome :: "proxy_env \<Rightarrow> nat \<Rightarrow> client_conn \<Rightarrow> bytes \<Rightarrow> ext_table \<Rightarrow> forward_result \<Rightarrow> bool" where
  "forward_outcome env new c payload s r \<longleftrightarrow>
     (keeps s (fw_table r) \<or> (\<exists>x. draws s (fw_table r) new x \<and> in_fd x = cl_fd c \<and> in_gen x = cl_generation c)) \<and>
     (fw_result r = 0 \<longrightarrow> (\<forall>f g m n. SendTo f g m n \<notin> set (fw_actions r))) \<and>
     (fw_result r \<noteq> 0 \<longrightarrow> fw_result r = 1 \<and> (\<exists>a e x flags. exts (fw_table r) e = Some x \<and> in_fd x = cl_fd c \<and>
        fw_actions r = map Table a @ [SendTo (out_fd x) (out_gen x) (proxy_req_bytes env c flags (out_conn_id x) payload) 4]))"

lemma forward_outcome_keeps:
  assumes "keeps s s'" "forward_outcome env new c payload s' r"
  shows "forward_outcome env new c payload s r"
  using assms keeps_trans keeps_draws unfolding forward_outcome_def by blast

lemma sent_outcome:
  assumes "keeps s s' \<or> (\<exists>x. draws s s' new x \<and> in_fd x = cl_fd c \<and> in_gen x = cl_generation c)"
    "exts s' e = Some y" "in_fd y = cl_fd c" "dfd = out_fd y" "dgen = out_gen y" "cid = out_conn_id y"
  shows "forward_outcome env new c payload s \<lparr>fw_result = 1,
    fw_actions = map Table a @ [SendTo dfd dgen (proxy_req_bytes env c flags cid payload) 4], fw_conn = c', fw_in = i', fw_table = s'\<rparr>"
  using assms unfolding forward_outcome_def by fastforce

lemma forward_tcp_query_ok:
  assumes P: "proxy_inv s" and can: "can_forward env new rnd choices c s"
    and i: "in_type i = tl_type_raw_msg" "in_error i = None" "in_data i = payload" "in_remaining i = int (length payload)"
    and l: "length payload mod 4 = 0" "int (length payload) \<le> MAX_POST_SIZE"
  shows "\<exists>r. forward_tcp_query env new rnd choices i c flags key None None s = Some r \<and> forward_outcome env new c payload s r"
proof -
  have fd: "valid_fd (cl_fd c)" "cl_fd c \<noteq> 0" and ok: "env_ok env" "conn_ok c"
    and pend: "cl_type c = HttpServerConn \<longrightarrow> cl_pending_queries c = 1"
    using can by (auto simp: can_forward_def)
  obtain f where f: "get_ext_connection_by_in_fd (cl_fd c) s = Some f"
    "case f of None \<Rightarrow> \<not> (\<exists>e x. exts s e = Some x \<and> in_fd x = cl_fd c) | Some e \<Rightarrow> \<exists>x. exts s e = Some x \<and> in_fd x = cl_fd c"
    using get_by_in_fd [OF proxy_invD(1) [OF P] fd] by blast
  obtain s1 where s1: "(case f of None \<Rightarrow> Some s | Some e \<Rightarrow> store_auth_key e key s) = Some s1" "keeps s s1"
    "case f of None \<Rightarrow> \<not> (\<exists>e x. exts s1 e = Some x \<and> in_fd x = cl_fd c) | Some e \<Rightarrow> \<exists>x. exts s1 e = Some x \<and> in_fd x = cl_fd c"
  proof (cases f)
    case None
    then show thesis using f(2) keeps_refl [OF P] by (intro that [of s]) auto
  next
    case (Some e)
    then obtain x where x: "exts s e = Some x" "in_fd x = cl_fd c" using f(2) by auto
    obtain s' y where y: "store_auth_key e key s = Some s'" "proxy_inv s'" "same_core s s'" "exts s' e = Some y" "core y = core x"
      using store_auth_key_ok [OF P x(1)] by blast
    then show thesis using Some x same_core_keeps [OF P y(2,3)] core_eq [OF y(5)] by (intro that [of s']) auto
  qed
  have P1: "proxy_inv s1" using keeps_inv [OF s1(2)] .
  obtain a r s2 where s2: "existing_ext env f s1 = Some (a, r, s2)" "keeps s1 s2"
    "case r of Some (e, dfd, dgen) \<Rightarrow> s2 = s1 \<and> f = Some e \<and> has_target env dfd dgen \<and>
         (\<exists>x. exts s1 e = Some x \<and> in_fd x = cl_fd c \<and> out_fd x = dfd \<and> out_gen x = dgen)
     | None \<Rightarrow> \<not> (\<exists>e x. exts s2 e = Some x \<and> in_fd x = cl_fd c)"
    using existing_ext_ok [OF P1 s1(3)] by blast
  have k2: "keeps s s2" using keeps_trans [OF s1(2) s2(2)] .
  have P2: "proxy_inv s2" using keeps_inv [OF k2] .
  have can2: "can_forward env new rnd choices c s2" using can_forward_keeps [OF k2 P can] .
  let ?fl = "query_flags c flags"
  let ?fl' = "if proxy_tag env \<noteq> None then ?fl OR 8 else ?fl"
  show ?thesis
  proof (cases r)
    case (Some tgt)
    obtain e dfd dgen where tgt: "tgt = (e, dfd, dgen)" by (cases tgt) auto
    then obtain x where x: "exts s2 e = Some x" "in_fd x = cl_fd c" "out_fd x = dfd" "out_gen x = dgen" using s2(3) Some by auto
    obtain i' s3 where s3: "send_query env c ?fl None None i (map Table a) (e, dfd, dgen) s2 =
        Some \<lparr>fw_result = 1, fw_actions = map Table a @ [SendTo dfd dgen (proxy_req_bytes env c ?fl' (out_conn_id x) payload) 4],
          fw_conn = c, fw_in = i', fw_table = s3\<rparr>" "proxy_inv s3" "same_core s2 s3"
      using send_query_ok [OF P2 x(1) ok pend i l] by blast
    have "map_option core (exts s3 e) = Some (core x)" using s3(3) x(1) by (simp add: same_core_def)
    then obtain y where y: "exts s3 e = Some y" "core y = core x" by auto
    have "keeps s s3" using keeps_trans [OF k2 same_core_keeps [OF P2 s3(2,3)]] .
    then have "forward_outcome env new c payload s \<lparr>fw_result = 1, fw_actions = map Table a @ [SendTo dfd dgen
        (proxy_req_bytes env c ?fl' (out_conn_id x) payload) 4], fw_conn = c, fw_in = i', fw_table = s3\<rparr>"
      using y x core_eq [OF y(2)] by (intro sent_outcome [of _ _ _ _ e y]) auto
    moreover have "forward_tcp_query env new rnd choices i c flags key None None s =
        send_query env c ?fl None None i (map Table a) (e, dfd, dgen) s2"
      using f(1) s1(1) s2(1) Some tgt by (simp add: forward_tcp_query_def Let_def)
    ultimately show ?thesis using s3(1) by auto
  next
    case None
    then have free: "\<not> (\<exists>e x. exts s2 e = Some x \<and> in_fd x = cl_fd c)" using s2(3) by simp
    show ?thesis
    proof (cases "choose_connection 5 choices")
      case no: None
      show ?thesis
        using f(1) s1(1) s2(1) None no k2 by (auto simp: forward_tcp_query_def forward_outcome_def Let_def)
    next
      case (Some d)
      show ?thesis
      proof (cases "?fl AND RPC_F_DROPPED \<noteq> 0")
        case True
        then show ?thesis
          using f(1) s1(1) s2(1) None Some k2 by (auto simp: forward_tcp_query_def forward_outcome_def Let_def)
      next
        case False
        have d: "valid_fd (conn_fd d)" "conn_fd d \<noteq> 0" "conn_fd d \<noteq> cl_fd c" "fst (o_links s2) (Head (conn_fd d)) \<noteq> None"
          using can2 choose_connection_ready [OF Some] unfolding can_forward_def by blast+
        have ci: "can_insert new rnd (fst (cl_fd c, cl_generation c)) 0 s2"
          using can2 free fd by (auto simp: can_insert_def can_forward_def draw_slot_def)
        obtain h cid s3 where s3: "draw_slot (OutExtConnections s2) (fst (cl_fd c, cl_generation c)) 0 rnd = Some h"
          "cid = next_out_conn_id (snd (OutExtConnections s2 h)) h"
          "create_ext_connection new rnd (cl_fd c, cl_generation c) 0 (Some (conn_fd d, conn_generation d)) key s2 = Some (new, s3)"
          "proxy_inv s3"
          "exts s3 = (exts s2)(new \<mapsto> calloc_ext\<lparr>in_fd := cl_fd c, in_gen := cl_generation c, out_conn_id := cid,
             out_fd := conn_fd d, out_gen := conn_generation d, auth_key_id := key\<rparr>)"
          "OutExtConnections s3 = (OutExtConnections s2)(h := (Some new, cid))"
          using create_ext_connection_ok [OF P2 ci _ _ _ _ _, of "(conn_fd d, conn_generation d)" key] fd d by auto
        define x where "x = calloc_ext\<lparr>in_fd := cl_fd c, in_gen := cl_generation c, out_conn_id := cid,
             out_fd := conn_fd d, out_gen := conn_generation d, auth_key_id := key\<rparr>"
        have x: "exts s3 new = Some x" and xf: "in_fd x = cl_fd c" "in_gen x = cl_generation c" "out_conn_id x = cid"
          "out_fd x = conn_fd d" "out_gen x = conn_generation d" using s3(5) by (simp_all add: x_def)
        have hl: "h < 2 ^ 22" using draw_slot_free [OF s3(1)] by simp
        have "ext_connections_created s2 < 2 ^ 40" using can2 by (simp add: can_forward_def)
        note nid = next_id [OF ext_invD(5) [OF proxy_invD(1) [OF P2]] this hl, folded s3(2)]
        have dr: "draws s2 s3 new x"
          using s3(4,5,6) x xf nid by (auto simp: draws_def split: if_split_asm)
        obtain i' s4 where s4: "send_query env c ?fl None None i (map Table a) (new, conn_fd d, conn_generation d) s3 =
            Some \<lparr>fw_result = 1, fw_actions = map Table a @ [SendTo (conn_fd d) (conn_generation d) (proxy_req_bytes env c ?fl' (out_conn_id x) payload) 4],
              fw_conn = c, fw_in = i', fw_table = s4\<rparr>" "proxy_inv s4" "same_core s3 s4"
          using send_query_ok [OF s3(4) x ok pend i l] by blast
        have "map_option core (exts s4 new) = Some (core x)" using s4(3) x by (simp add: same_core_def)
        then obtain y where y: "exts s4 new = Some y" "core y = core x" by auto
        have "draws s s4 new x" using keeps_draws [OF k2 draws_same_core [OF dr s4(3,2)]] .
        then have "forward_outcome env new c payload s \<lparr>fw_result = 1, fw_actions = map Table a @ [SendTo (conn_fd d) (conn_generation d)
            (proxy_req_bytes env c ?fl' (out_conn_id x) payload) 4], fw_conn = c, fw_in = i', fw_table = s4\<rparr>"
          using y xf core_eq [OF y(2)] by (intro sent_outcome [of _ _ _ _ new y]) auto
        moreover have "forward_tcp_query env new rnd choices i c flags key None None s =
            send_query env c ?fl None None i (map Table a) (new, conn_fd d, conn_generation d) s3"
          using f(1) s1(1) s2(1) None Some False s3(3) by (simp add: forward_tcp_query_def Let_def)
        ultimately show ?thesis using s4(1) by auto
      qed
    qed
  qed
qed

text \<open>A packet that the proxy forwards: encrypted, or the beginning of a key exchange.\<close>

definition mtproto_packet :: "bytes \<Rightarrow> bool" where
  "mtproto_packet msg \<longleftrightarrow> 28 \<le> length msg \<and> length msg mod 4 = 0 \<and>
     (if le64 msg \<noteq> 0 then 56 \<le> length msg
      else 20 \<le> sint (le32 (drop 16 msg)) \<and> sint (le32 (drop 16 msg) + 20) \<le> int (length msg) \<and>
        le32 (drop 20 msg) \<in> {CODE_req_pq, CODE_req_pq_multi, CODE_req_DH_params, CODE_set_client_DH_params})"

lemma le32_take: "4 \<le> n \<Longrightarrow> le32 (take n xs) = le32 xs"
  by (simp add: le32_def)

lemma le64_take: "8 \<le> n \<Longrightarrow> le64 (take n xs) = le64 xs"
  by (simp add: le64_def le32_take drop_take)

lemma dropped_outcome:
  "keeps s s' \<Longrightarrow> forward_outcome env new c payload s \<lparr>fw_result = 0, fw_actions = [], fw_conn = c', fw_in = i', fw_table = s'\<rparr>"
  by (simp add: forward_outcome_def)

lemma forward_mtproto_packet_ok:
  assumes P: "proxy_inv s" and can: "can_forward env new rnd choices c s"
    and i: "in_type i = tl_type_raw_msg" "in_error i = None" "in_data i = msg" "in_remaining i = int (length msg)"
    and l: "int (length msg) \<le> MAX_POST_SIZE"
  shows "\<exists>r. forward_mtproto_packet env new rnd choices i c (int (length msg)) None rpc_flags s = Some r \<and>
    forward_outcome env new c msg s r \<and> (fw_result r \<noteq> 0 \<longrightarrow> mtproto_packet msg)"
proof -
  define drp where "drp = \<lparr>fw_result = 0, fw_actions = [], fw_conn = c, fw_in = i, fw_table = s\<rparr>"
  have drp: "forward_outcome env new c msg s drp" "fw_result drp = 0"
    unfolding drp_def using dropped_outcome [OF keeps_refl [OF P]] by simp_all
  show ?thesis
  proof (cases "length msg < 28 \<or> length msg mod 4 \<noteq> 0")
    case True
    then have "int (length msg) < 28 \<or> int (length msg) mod 4 \<noteq> 0" by presburger
    then have "forward_mtproto_packet env new rnd choices i c (int (length msg)) None rpc_flags s = Some drp"
      by (auto simp: forward_mtproto_packet_def Let_def and3 drp_def)
    then show ?thesis using drp by auto
  next
    case False
    then have len: "28 \<le> length msg" "length msg mod 4 = 0" by auto
    then have g: "\<not> (int (length msg) < 28 \<or> int (length msg) AND 3 \<noteq> 0)" unfolding and3 by presburger
    have lk: "tlf_lookup_data 28 i = Some (28, take 28 msg, i)"
      using i len by (simp add: tlf_lookup_data_def tlf_check_def fetch_lookup_def)
    have fw: "\<exists>r. forward_tcp_query env new rnd choices i c fl key None None s = Some r \<and> forward_outcome env new c msg s r" for fl key
      using forward_tcp_query_ok [OF P can i len(2) l] .
    have hdr: "le64 (take 28 msg) = le64 msg" "le32 (drop 16 (take 28 msg)) = le32 (drop 16 msg)" "le32 (drop 20 (take 28 msg)) = le32 (drop 20 msg)"
      by (simp_all add: le64_take le32_take drop_take)
    have u: "forward_mtproto_packet env new rnd choices i c (int (length msg)) None rpc_flags s =
      (if le64 msg \<noteq> 0 then
         if int (length msg) < 56 then Some drp else forward_tcp_query env new rnd choices i c rpc_flags (le64 msg) None None s
       else if sint (le32 (drop 16 msg) + 20) > int (length msg) then Some drp
       else if sint (le32 (drop 16 msg)) < 20 then Some drp
       else if le32 (drop 20 msg) \<notin> {CODE_req_pq, CODE_req_pq_multi, CODE_req_DH_params, CODE_set_client_DH_params} then Some drp
       else forward_tcp_query env new rnd choices i c (2 OR rpc_flags) 0 None None s)"
      unfolding forward_mtproto_packet_def Let_def lk using g i(4) by (simp add: hdr drp_def [symmetric])
    show ?thesis
    proof (cases "mtproto_packet msg")
      case True
      then obtain fl key where "forward_mtproto_packet env new rnd choices i c (int (length msg)) None rpc_flags s =
          forward_tcp_query env new rnd choices i c fl key None None s"
        unfolding u mtproto_packet_def by (auto split: if_split_asm)
      then show ?thesis using fw [of fl key] True by auto
    next
      case False
      then have "forward_mtproto_packet env new rnd choices i c (int (length msg)) None rpc_flags s = Some drp"
        unfolding u mtproto_packet_def using len by auto
      then show ?thesis using drp by auto
    qed
  qed
qed

lemma do_rpcs_execute_outcome:
  assumes P: "proxy_inv s" and can: "can_forward env new rnd choices c s" and l: "int (length msg) \<le> MAX_POST_SIZE"
  shows "\<exists>r. do_rpcs_execute env new rnd choices msg c rpc_flags s = Some r \<and>
    forward_outcome env new c msg s r \<and> (fw_result r \<noteq> 0 \<longrightarrow> mtproto_packet msg)"
proof -
  let ?C = "\<lparr>conn_fd = cl_fd c, conn_generation = cl_generation c, conn_extra_int = 0\<rparr>"
  obtain s1 where s1: "lru_insert_conn ?C s = Some s1" "keeps s s1"
    using lru_insert_conn_keeps [OF P, of ?C] can by (auto simp: can_forward_def)
  let ?i = "tl_in_state_alloc\<lparr>in_type := tl_type_raw_msg, in_data := msg, in_remaining := int (length msg)\<rparr>"
  obtain r where r: "forward_mtproto_packet env new rnd choices ?i c (int (length msg)) None rpc_flags s1 = Some r"
    "forward_outcome env new c msg s1 r" "fw_result r \<noteq> 0 \<longrightarrow> mtproto_packet msg"
    using forward_mtproto_packet_ok [OF keeps_inv [OF s1(2)] can_forward_keeps [OF s1(2) P can], of ?i msg rpc_flags] l
    by (auto simp: tl_in_state_alloc_def)
  have "do_rpcs_execute env new rnd choices msg c rpc_flags s = Some r"
    using s1(1) r(1) by (simp add: do_rpcs_execute_def tlf_init_reads)
  then show ?thesis using r(3) forward_outcome_keeps [OF s1(2) r(2)] by blast
qed

text \<open>
  C6. A packet of a client, of any content and of up to \<^verbatim>\<open>MAX_POST_SIZE\<close> bytes, is handled to the end: no
  assertion fails on the way, the table of connections stays consistent, and the packet is either dropped or sent to
  the middle proxy its client is bound to, as the payload of a request with the number of the client's object and the
  addresses of the connection. Only packets that are encrypted or begin a key exchange are sent.
\<close>

theorem client_packet_forwarded:
  assumes P: "proxy_inv s" and can: "can_forward env new rnd choices c s" and l: "int (length msg) \<le> MAX_POST_SIZE"
  shows "\<exists>r. do_rpcs_execute env new rnd choices msg c rpc_flags s = Some r \<and> proxy_inv (fw_table r) \<and>
    (if fw_result r = 0 then \<forall>f g m n. SendTo f g m n \<notin> set (fw_actions r)
     else mtproto_packet msg \<and> (\<exists>a e x flags. exts (fw_table r) e = Some x \<and> in_fd x = cl_fd c \<and>
       fw_actions r = map Table a @ [SendTo (out_fd x) (out_gen x) (proxy_req_bytes env c flags (out_conn_id x) msg) 4]))"
proof -
  obtain r where r: "do_rpcs_execute env new rnd choices msg c rpc_flags s = Some r" "forward_outcome env new c msg s r"
    "fw_result r \<noteq> 0 \<longrightarrow> mtproto_packet msg"
    using do_rpcs_execute_outcome [OF assms, of rpc_flags] by blast
  moreover have "proxy_inv (fw_table r)" using r(2) by (auto simp: forward_outcome_def keeps_def draws_def)
  ultimately show ?thesis unfolding forward_outcome_def by auto
qed

subsection \<open>A concrete instance\<close>

definition sample_target :: rpc_conn where
  "sample_target = \<lparr>conn_fd = 7, conn_generation = 1, conn_extra_int = 2\<rparr>"

definition sample_table :: ext_table where
  "sample_table = ext_empty\<lparr>o_links := ([Head 7 \<mapsto> Head 7], [Head 7 \<mapsto> Head 7])\<rparr>"

definition sample_client :: client_conn where
  "sample_client = \<lparr>cl_type = ExtServerConn, cl_fd = 5, cl_generation = 3, cl_flags = 0, cl_extra_int2 = 1, cl_extra_int4 = 2,
     cl_remote_ip = 0x7f000001, cl_remote_ipv6 = replicate 16 0, cl_remote_port = 4000, cl_our_ip = 0x0a000001,
     cl_our_ipv6 = replicate 16 0, cl_our_port = 443, cl_pending_queries = 0, cl_used_bytes = 0\<rparr>"

definition sample_proxy_env :: proxy_env where
  "sample_proxy_env = \<lparr>proxy_tag = Some (replicate 16 1), http_origin = [], http_referer = [], http_user_agent = [],
     nat_info = [(0x0a000001, 0x01020304)], alive = (\<lambda>_ _. True), has_target = (\<lambda>_ _. True),
     client_of = (\<lambda>f g. if f = 5 \<and> g = 3 then Some sample_client else None)\<rparr>"

lemma sample_table_inv: "proxy_inv sample_table"
proof -
  have "mtfront_client_ready \<lparr>conn_fd = 7, conn_generation = 1, conn_extra_int = 0\<rparr> ext_empty =
      Some (\<lparr>conn_fd = 7, conn_generation = 1, conn_extra_int = 2\<rparr>, sample_table)"
    by (simp add: mtfront_client_ready_def valid_fd_def MAX_CONNECTIONS_def ext_empty_def get_conn_tag_def sample_table_def)
  moreover have "fst (o_links ext_empty) (Head 7) = None" by (simp add: ext_empty_def)
  ultimately show ?thesis
    using mtfront_client_ready_ok [OF ext_empty_proxy_inv, of "\<lparr>conn_fd = 7, conn_generation = 1, conn_extra_int = 0\<rparr>"]
    by (simp add: valid_fd_def MAX_CONNECTIONS_def)
qed

lemma sample_can_forward: "can_forward sample_proxy_env 0 [] [Some sample_target] sample_client sample_table"
proof -
  have "find_out_slot (OutExtConnections sample_table) h [] \<noteq> None" for h
    unfolding find_out_slot_iff by (simp add: sample_table_def ext_empty_def)
  then show ?thesis
    by (simp add: can_forward_def env_ok_def conn_ok_def sample_proxy_env_def sample_client_def sample_target_def
        valid_fd_def MAX_CONNECTIONS_def) (simp add: sample_table_def ext_empty_def)
qed

theorem client_packet_forwarded_witness:
  "\<exists>r. do_rpcs_execute sample_proxy_env 0 [] [Some sample_target] (1 # replicate 55 0) sample_client 0 sample_table = Some r \<and>
    proxy_inv (fw_table r) \<and>
    (if fw_result r = 0 then \<forall>f g m n. SendTo f g m n \<notin> set (fw_actions r)
     else mtproto_packet (1 # replicate 55 0) \<and> (\<exists>a e x flags. exts (fw_table r) e = Some x \<and> in_fd x = cl_fd sample_client \<and>
       fw_actions r = map Table a @
         [SendTo (out_fd x) (out_gen x) (proxy_req_bytes sample_proxy_env sample_client flags (out_conn_id x) (1 # replicate 55 0)) 4]))"
  using client_packet_forwarded [OF sample_table_inv sample_can_forward, of "1 # replicate 55 0" 0]
  by (simp add: MAX_POST_SIZE_def)

section \<open>Answers\<close>

text \<open>The client \<open>(f, g)\<close> has an object with number \<open>cid\<close> that is bound to the middle proxy \<open>(fd, gen)\<close>.\<close>

definition receives :: "ext_table \<Rightarrow> int \<Rightarrow> int \<Rightarrow> u64 \<Rightarrow> int \<Rightarrow> int \<Rightarrow> bool" where
  "receives s fd gen cid f g \<longleftrightarrow> (\<exists>e x. exts s e = Some x \<and> out_conn_id x = cid \<and> out_fd x = fd \<and> out_gen x = gen \<and>
     in_fd x = f \<and> in_gen x = g)"

text \<open>The connection number in a packet from a middle proxy.\<close>

definition answer_number :: "u32 \<Rightarrow> bytes \<Rightarrow> u64" where
  "answer_number opc msg = (if opc = RPC_PROXY_ANS then le64 (drop 8 msg) else le64 (drop 4 msg))"

fun addressed :: "(int \<Rightarrow> int \<Rightarrow> bool) \<Rightarrow> proxy_action \<Rightarrow> bool" where
  "addressed R (SendTo f g m n) = R f g"
| "addressed R (PushRaw f g m) = R f g"
| "addressed R (HttpError f g n) = R f g"
| "addressed R (HttpFinish f g) = R f g"
| "addressed R (Table a) = True"

definition clients_ok :: "proxy_env \<Rightarrow> bool" where
  "clients_ok env \<longleftrightarrow> (\<forall>f g C. client_of env f g = Some C \<longrightarrow> cl_fd C = f \<and> cl_generation C = g \<and>
     (cl_type C = HttpServerConn \<longrightarrow> cl_pending_queries C = 1))"

lemma answer_target_ok:
  assumes P: "proxy_inv s" and ok: "clients_ok env"
  shows "\<exists>d. answer_target env fd gen cid s = Some d \<and>
    (case d of None \<Rightarrow> True | Some (x, C) \<Rightarrow> receives s fd gen cid (cl_fd C) (cl_generation C) \<and> in_conn_id x = 0 \<and>
       valid_fd (cl_fd C) \<and> cl_fd C \<noteq> 0 \<and> (cl_type C = HttpServerConn \<longrightarrow> cl_pending_queries C = 1))"
proof -
  note inv = ext_invD [OF proxy_invD(1) [OF P]]
  show ?thesis
  proof (cases "\<exists>e x. exts s e = Some x \<and> out_conn_id x = cid")
    case False
    then have "find_ext_connection_by_out_conn_id cid s = Some None" using find_out [OF inv(5), of cid None] by simp
    then show ?thesis by (simp add: answer_target_def)
  next
    case True
    then obtain e x where x: "exts s e = Some x" "out_conn_id x = cid" by blast
    then have f: "find_ext_connection_by_out_conn_id cid s = Some (Some e)" using find_out [OF inv(5), of cid "Some e"] by simp
    show ?thesis
    proof (cases "out_fd x = fd \<and> out_gen x = gen \<and> client_of env (in_fd x) (in_gen x) \<noteq> None")
      case False
      then show ?thesis using f x by (auto simp: answer_target_def)
    next
      case True
      then obtain C where C: "client_of env (in_fd x) (in_gen x) = Some C" by blast
      have "valid_fd (in_fd x)" using inv(4) x(1) unfolding keys_ok_def by blast
      then show ?thesis
        using True f x C ok proxy_invD(2) [OF P x(1)] by (auto simp: answer_target_def receives_def clients_ok_def)
    qed
  qed
qed

lemma answer_target_found:
  assumes P: "proxy_inv s" and r: "receives s fd gen cid f g" and C: "client_of env f g = Some C"
  shows "\<exists>x. answer_target env fd gen cid s = Some (Some (x, C))"
proof -
  obtain e x where x: "exts s e = Some x" "out_conn_id x = cid" "out_fd x = fd" "out_gen x = gen" "in_fd x = f" "in_gen x = g"
    using r unfolding receives_def by blast
  have "find_ext_connection_by_out_conn_id cid s = Some (Some e)"
    using find_out [OF ext_invD(5) [OF proxy_invD(1) [OF P]], of cid "Some e"] x by simp
  then show ?thesis using x C by (simp add: answer_target_def)
qed

definition reading :: "bytes \<Rightarrow> tl_in_state \<Rightarrow> bool" where
  "reading d t \<longleftrightarrow> in_type t = tl_type_raw_msg \<and> in_error t = None \<and> in_data t = d \<and> in_remaining t = int (length d)"

lemma reading_init: "reading msg (tl_in_state_alloc\<lparr>in_type := tl_type_raw_msg, in_data := msg, in_remaining := int (length msg)\<rparr>)"
  by (simp add: reading_def tl_in_state_alloc_def)

lemma reading_int: "reading d t \<Longrightarrow> 4 \<le> length d \<Longrightarrow> \<exists>t'. tlf_int t = Some (le32 d, t') \<and> reading (drop 4 d) t'"
  by (auto simp: reading_def tlf_int_def tlf_check_def tlf_raw_data_unchecked_def fetch_raw_data_def le32_take)

lemma reading_long: "reading d t \<Longrightarrow> 8 \<le> length d \<Longrightarrow> \<exists>t'. tlf_long t = Some (le64 d, t') \<and> reading (drop 8 d) t'"
  by (auto simp: reading_def tlf_long_def tlf_check_def tlf_raw_data_unchecked_def fetch_raw_data_def le64_take)

lemma reading_remaining: "reading d t \<Longrightarrow> in_remaining t = int (length d)"
  by (simp add: reading_def)

lemma reading_copy:
  assumes "reading d t" "out_methods u \<noteq> OutNone" "int (length d) \<le> out_remaining u"
  shows "\<exists>t'. tl_copy_through (int (length d)) 1 t u = Some (int (length d), t',
    u\<lparr>out_data := out_data u @ d, out_pos := out_pos u + int (length d), out_remaining := out_remaining u - int (length d)\<rparr>)"
  using assms by (simp add: reading_def tl_copy_through_def copy_through_def fetch_lookup_def tlf_check_def tls_check_def)

lemma do_close_keeps:
  assumes P: "proxy_inv s" and fd: "valid_fd fd" "fd \<noteq> 0"
  shows "\<exists>a s'. do_close_in_ext_conn al fd s = Some (a, s') \<and> keeps s s'"
proof -
  obtain f where f: "get_ext_connection_by_in_fd fd s = Some f"
    "case f of None \<Rightarrow> \<not> (\<exists>e x. exts s e = Some x \<and> in_fd x = fd) | Some e \<Rightarrow> \<exists>x. exts s e = Some x \<and> in_fd x = fd"
    using get_by_in_fd [OF proxy_invD(1) [OF P] fd] by blast
  show ?thesis
  proof (cases f)
    case None
    then show ?thesis using f(1) keeps_refl [OF P] by (simp add: do_close_in_ext_conn_def)
  next
    case (Some e)
    then show ?thesis using f remove_keeps [OF P, of e _ al 1] by (fastforce simp: do_close_in_ext_conn_def)
  qed
qed

lemma length_dec_digits: "length (dec_digits n) \<le> n + 1"
  by (induction n rule: dec_digits.induct) (subst dec_digits.simps, force)

lemma length_http_response_header: "length (http_response_header k x n) \<le> n + 400"
  using length_dec_digits [of n]
  by (simp add: http_response_header_def text_bytes_def crlf_def mtproto_cors_http_headers_def)

lemma http_send_message_ok:
  assumes P: "proxy_inv s" and t: "reading d t" "length d \<le> 2 ^ 25"
    and C: "valid_fd (cl_fd C)" "cl_fd C \<noteq> 0" "cl_pending_queries C = 1"
  shows "\<exists>a b s'. http_send_message env ka eh C t flags s =
      Some (a @ map Table b @ [HttpFinish (cl_fd C) (cl_generation C)], s') \<and> keeps s s' \<and>
    a = (if flags AND 0x10 \<noteq> 0 \<and> length d = 4 then [HttpError (cl_fd C) (cl_generation C) (- sint (le32 d))]
         else [SendTo (cl_fd C) (cl_generation C) (http_response_header ka eh (length d) @ d) 12])"
proof -
  obtain b s' where b: "do_close_in_ext_conn (alive env) (cl_fd C) s = Some (b, s')" "keeps s s'"
    using do_close_keeps [OF P C(1,2)] by blast
  note rem = reading_remaining [OF t(1)]
  show ?thesis
  proof (cases "flags AND 0x10 \<noteq> 0 \<and> length d = 4")
    case True
    then obtain t' where "tlf_int t = Some (le32 d, t')" using reading_int [OF t(1)] by auto
    then show ?thesis using True b C rem by (auto simp: http_send_message_def)
  next
    case False
    define h where "h = http_response_header ka eh (length d)"
    define u where "u = tls_raw_data_unchecked h (tls_init_tcp_raw_msg_unaligned True 0)"
    have lh: "length h \<le> length d + 400" unfolding h_def by (rule length_http_response_header)
    have w: "tls_raw_data h (tls_init_tcp_raw_msg_unaligned True 0) = Some u"
      using lh t(2) by (simp add: u_def tls_init_tcp_raw_msg_unaligned_def tl_store_init_def)
    have u: "out_methods u = OutTcpUnaligned" "out_remaining u = 2 ^ 27 - int (length h)" "out_data u = h" "out_error u = None" "out_qid u = 0"
      by (simp_all add: u_def tls_init_tcp_raw_msg_unaligned_def tl_store_init_def)
    obtain t' where c: "tl_copy_through (int (length d)) 1 t u = Some (int (length d), t',
        u\<lparr>out_data := out_data u @ d, out_pos := out_pos u + int (length d), out_remaining := out_remaining u - int (length d)\<rparr>)"
      using reading_copy [OF t(1), of u] u(1,2) lh t(2) by auto
    have e: "tls_end_ext (u\<lparr>out_data := out_data u @ d, out_pos := out_pos u + int (length d), out_remaining := out_remaining u - int (length d)\<rparr>) 0 =
        Some (Some (h @ d, 12))"
      using u by (simp add: tls_end_ext_def)
    have g: "\<not> (flags AND 0x10 \<noteq> 0 \<and> in_remaining t = 4)" using False rem by auto
    show ?thesis
      unfolding http_send_message_def if_not_P [OF g] Let_def rem nat_int h_def [symmetric]
      using False w c e b C by auto
  qed
qed

text \<open>
  What a client is sent for the payload \<open>d\<close>, when its buffers are not full: the payload itself over TCP, an answer
  with the payload as its body over HTTP.
\<close>

definition answer_actions :: "answer_random \<Rightarrow> client_conn \<Rightarrow> u32 \<Rightarrow> bytes \<Rightarrow> proxy_action" where
  "answer_actions ar C flags d =
     (if cl_type C \<noteq> HttpServerConn then SendTo (cl_fd C) (cl_generation C) d 4
      else if flags AND 0x10 \<noteq> 0 \<and> length d = 4 then HttpError (cl_fd C) (cl_generation C) (- sint (le32 d))
      else SendTo (cl_fd C) (cl_generation C) (http_response_header (ar_keepalive ar) (ar_extra_headers ar) (length d) @ d) 12)"

lemma client_send_message_ok:
  assumes P: "proxy_inv s" and t: "reading d t" "length d \<le> 2 ^ 25" "length d mod 4 = 0"
    and C: "valid_fd (cl_fd C)" "cl_fd C \<noteq> 0" "cl_type C = HttpServerConn \<longrightarrow> cl_pending_queries C = 1"
  shows "\<exists>r a s'. client_send_message env (ar_keepalive ar) (ar_extra_headers ar) (ar_used_after ar) C 0 t flags s = Some (r, a, s') \<and>
    keeps s s' \<and> (\<forall>act\<in>set a. addressed (\<lambda>f g. f = cl_fd C \<and> g = cl_generation C) act) \<and>
    (cl_used_bytes C \<le> MAX_CONNECTION_BUFFER_SPACE \<longrightarrow> answer_actions ar C flags d \<in> set a)"
proof (cases "cl_used_bytes C > MAX_CONNECTION_BUFFER_SPACE")
  case True
  then show ?thesis using keeps_refl [OF P] by (auto simp: client_send_message_def check_conn_buffers_def)
next
  case False
  show ?thesis
  proof (cases "cl_type C = HttpServerConn")
    case True
    obtain a b s' where h: "http_send_message env (ar_keepalive ar) (ar_extra_headers ar) C t flags s =
        Some (a @ map Table b @ [HttpFinish (cl_fd C) (cl_generation C)], s')" "keeps s s'"
      "a = (if flags AND 0x10 \<noteq> 0 \<and> length d = 4 then [HttpError (cl_fd C) (cl_generation C) (- sint (le32 d))]
         else [SendTo (cl_fd C) (cl_generation C) (http_response_header (ar_keepalive ar) (ar_extra_headers ar) (length d) @ d) 12])"
      using http_send_message_ok [OF P t(1,2) C(1,2)] C(3) True by blast
    have "a = [answer_actions ar C flags d]" using h(3) True by (simp add: answer_actions_def)
    moreover from this have "addressed (\<lambda>f g. f = cl_fd C \<and> g = cl_generation C) (answer_actions ar C flags d)"
      by (simp add: answer_actions_def)
    ultimately show ?thesis using False True h(1,2) by (auto simp: client_send_message_def check_conn_buffers_def)
  next
    case http: False
    define u where "u = tls_init_tcp_raw_msg True 0"
    have u: "out_methods u = OutTcp" "out_remaining u = 2 ^ 27" "out_data u = []" "out_error u = None" "out_qid u = 0" "out_pos u = 0"
      by (simp_all add: u_def tls_init_tcp_raw_msg_def tl_store_init_def)
    define u' where "u' = u\<lparr>out_data := out_data u @ d, out_pos := out_pos u + int (length d), out_remaining := out_remaining u - int (length d)\<rparr>"
    obtain t' where c: "tl_copy_through (int (length d)) 1 t u = Some (int (length d), t', u')"
      using reading_copy [OF t(1), of u] u(1,2) t(2) by (auto simp: u'_def)
    have "int (length d) mod 4 = 0" using t(3) by presburger
    then have e: "tls_end_ext u' 0 = Some (Some (d, 4))" using u by (simp add: u'_def tls_end_ext_def and3)
    show ?thesis
      unfolding client_send_message_def u_def [symmetric] reading_remaining [OF t(1)]
      using False http c e keeps_refl [OF P] by (auto simp: check_conn_buffers_def answer_actions_def Let_def)
  qed
qed

lemma addressed_mono: "addressed R act \<Longrightarrow> (\<And>f g. R f g \<Longrightarrow> S f g) \<Longrightarrow> addressed S act"
  by (cases act) auto

lemma push_rpc_confirmation_addressed:
  "act \<in> set (push_rpc_confirmation coin p1 p2 C w) \<Longrightarrow> addressed (\<lambda>f g. f = cl_fd C \<and> g = cl_generation C) act"
  by (auto simp: push_rpc_confirmation_def Let_def split: if_split_asm)

lemma close_ext_keeps:
  assumes P: "proxy_inv s"
  shows "\<exists>a s'. (case find_ext_connection_by_out_conn_id cid s of None \<Rightarrow> None | Some None \<Rightarrow> Some ([], s)
      | Some (Some e) \<Rightarrow> remove_ext_connection al e 2 s) = Some (a, s') \<and> keeps s s' \<and>
      (\<forall>e x. exts s' e = Some x \<longrightarrow> out_conn_id x \<noteq> cid)"
proof (cases "\<exists>e x. exts s e = Some x \<and> out_conn_id x = cid")
  case False
  then have "find_ext_connection_by_out_conn_id cid s = Some None"
    using find_out [OF ext_invD(5) [OF proxy_invD(1) [OF P]], of cid None] by simp
  then show ?thesis using keeps_refl [OF P] False by auto
next
  case True
  then obtain e x where x: "exts s e = Some x" "out_conn_id x = cid" by blast
  note fo = find_out [OF ext_invD(5) [OF proxy_invD(1) [OF P]], of cid]
  have f: "find_ext_connection_by_out_conn_id cid s = Some (Some e)" using fo [of "Some e"] x by simp
  obtain a s' where r: "remove_ext_connection al e 2 s = Some (a, s')" "keeps s s'" "exts s' = (exts s)(e := None)"
    using remove_keeps [OF P x(1)] by blast
  have "out_conn_id y \<noteq> cid" if y: "exts s' e' = Some y" for e' y
  proof
    assume "out_conn_id y = cid"
    then have "find_ext_connection_by_out_conn_id cid s = Some (Some e')"
      using fo [of "Some e'"] y r(3) by (auto split: if_split_asm)
    then show False using f y r(3) by auto
  qed
  then show ?thesis using f r by auto
qed

definition packet_in :: "bytes \<Rightarrow> tl_in_state" where
  "packet_in msg = tl_in_state_alloc\<lparr>in_type := tl_type_raw_msg, in_data := msg, in_remaining := int (length msg)\<rparr>"

definition handled :: "proxy_env \<Rightarrow> int \<Rightarrow> int \<Rightarrow> u64 \<Rightarrow> ext_table \<Rightarrow> (int \<times> proxy_action list \<times> ext_table) option \<Rightarrow> bool" where
  "handled env fd gen cid s r \<longleftrightarrow> (\<exists>n a s'. r = Some (n, a, s') \<and> keeps s s' \<and> (\<forall>act\<in>set a. addressed (receives s fd gen cid) act))"

lemma handled_empty: "proxy_inv s \<Longrightarrow> handled env fd gen cid s (Some (n, [], s))"
  by (simp add: handled_def keeps_refl)

lemma handled_notify: "proxy_inv s \<Longrightarrow> handled env fd gen cid s (Some (n, [notify_remote_closed f g c], s))"
  by (simp add: handled_def keeps_refl notify_remote_closed_def)

lemma process_ans:
  assumes P: "proxy_inv s" and ok: "clients_ok env" and l: "16 \<le> length msg" "length msg \<le> 2 ^ 25" "length msg mod 4 = 0"
    and opc: "le32 msg = RPC_PROXY_ANS"
  shows "\<exists>n a s'. process_client_packet env ar (packet_in msg) RPC_PROXY_ANS fd gen s = Some (n, a, s') \<and> keeps s s' \<and>
    (\<forall>act\<in>set a. addressed (receives s fd gen (le64 (drop 8 msg))) act) \<and>
    (\<forall>f g C. receives s fd gen (le64 (drop 8 msg)) f g \<and> client_of env f g = Some C \<and> cl_used_bytes C \<le> MAX_CONNECTION_BUFFER_SPACE \<longrightarrow>
       answer_actions ar C (le32 (drop 4 msg)) (drop 16 msg) \<in> set a)"
proof -
  let ?cid = "le64 (drop 8 msg)"
  have r0: "reading msg (packet_in msg)" unfolding packet_in_def by (rule reading_init)
  have ln: "4 \<le> length (drop 4 msg)" "8 \<le> length (drop 8 msg)" using l(1) by simp_all
  obtain t1 where t1: "tlf_int (packet_in msg) = Some (le32 msg, t1)" "reading (drop 4 msg) t1"
    using reading_int [OF r0] l by auto
  obtain t2 where t2: "tlf_int t1 = Some (le32 (drop 4 msg), t2)" "reading (drop 8 msg) t2"
    using reading_int [OF t1(2) ln(1)] by auto
  obtain t3 where t3: "tlf_long t2 = Some (?cid, t3)" "reading (drop 16 msg) t3"
    using reading_long [OF t2(2) ln(2)] by auto
  obtain d where d: "answer_target env fd gen ?cid s = Some d"
    "case d of None \<Rightarrow> True | Some (x, C) \<Rightarrow> receives s fd gen ?cid (cl_fd C) (cl_generation C) \<and> in_conn_id x = 0 \<and>
       valid_fd (cl_fd C) \<and> cl_fd C \<noteq> 0 \<and> (cl_type C = HttpServerConn \<longrightarrow> cl_pending_queries C = 1)"
    using answer_target_ok [OF P ok] by blast
  have u: "process_client_packet env ar (packet_in msg) RPC_PROXY_ANS fd gen s =
    (case d of Some (x, C) \<Rightarrow> do {
           (r, a, s) \<leftarrow> client_send_message env (ar_keepalive ar) (ar_extra_headers ar) (ar_used_after ar) C (in_conn_id x) t3 (le32 (drop 4 msg)) s;
           Some (1, a, s) }
       | None \<Rightarrow> Some (1, [notify_remote_closed fd gen ?cid], s))"
    using t1(1) t2(1) t3(1) d(1) l(1) opc reading_remaining [OF r0] reading_remaining [OF t3(2)]
    by (simp add: process_client_packet_def Let_def RPC_PROXY_ANS_def RPC_PONG_def)
  have tgt: "\<exists>x. d = Some (x, C)" if "receives s fd gen ?cid f g" "client_of env f g = Some C" for f g C
    using answer_target_found [OF P that] d(1) by auto
  show ?thesis
  proof (cases d)
    case None
    then show ?thesis using u tgt keeps_refl [OF P] by (fastforce simp: notify_remote_closed_def)
  next
    case (Some p)
    obtain x C where p: "d = Some (x, C)" using Some by (cases p) auto
    have l16: "length (drop 16 msg) \<le> 2 ^ 25" "length (drop 16 msg) mod 4 = 0" using l by (simp_all, presburger)
    have C: "valid_fd (cl_fd C)" "cl_fd C \<noteq> 0" "cl_type C = HttpServerConn \<longrightarrow> cl_pending_queries C = 1" "in_conn_id x = 0"
      using d(2) p by auto
    obtain n a s' where m: "client_send_message env (ar_keepalive ar) (ar_extra_headers ar) (ar_used_after ar) C 0 t3 (le32 (drop 4 msg)) s = Some (n, a, s')"
      "keeps s s'" "\<forall>act\<in>set a. addressed (\<lambda>f g. f = cl_fd C \<and> g = cl_generation C) act"
      "cl_used_bytes C \<le> MAX_CONNECTION_BUFFER_SPACE \<longrightarrow> answer_actions ar C (le32 (drop 4 msg)) (drop 16 msg) \<in> set a"
      using client_send_message_ok [OF P t3(2) l16 C(1-3)] by blast
    have "addressed (receives s fd gen ?cid) act" if "act \<in> set a" for act
      using m(3) that d(2) p by (auto intro: addressed_mono)
    moreover have "C' = C" if "receives s fd gen ?cid f g" "client_of env f g = Some C'" for f g C'
      using tgt [OF that] p by auto
    ultimately show ?thesis using u p m(1,2,4) C(4) by auto
  qed
qed

lemma process_ack:
  assumes P: "proxy_inv s" and ok: "clients_ok env" and l: "length msg = 16" and opc: "le32 msg = RPC_SIMPLE_ACK"
  shows "handled env fd gen (le64 (drop 4 msg)) s (process_client_packet env ar (packet_in msg) RPC_SIMPLE_ACK fd gen s)"
proof -
  let ?cid = "le64 (drop 4 msg)"
  have r0: "reading msg (packet_in msg)" unfolding packet_in_def by (rule reading_init)
  obtain t1 where t1: "tlf_int (packet_in msg) = Some (le32 msg, t1)" "reading (drop 4 msg) t1"
    using reading_int [OF r0] l by auto
  obtain t2 where t2: "tlf_long t1 = Some (?cid, t2)" "reading (drop 12 msg) t2"
    using reading_long [OF t1(2)] l by auto
  obtain t3 where t3: "tlf_int t2 = Some (le32 (drop 12 msg), t3)"
    using reading_int [OF t2(2)] l by auto
  obtain d where d: "answer_target env fd gen ?cid s = Some d"
    "case d of None \<Rightarrow> True | Some (x, C) \<Rightarrow> receives s fd gen ?cid (cl_fd C) (cl_generation C) \<and> in_conn_id x = 0 \<and>
       valid_fd (cl_fd C) \<and> cl_fd C \<noteq> 0 \<and> (cl_type C = HttpServerConn \<longrightarrow> cl_pending_queries C = 1)"
    using answer_target_ok [OF P ok] by blast
  define w where "w = le32 (drop 12 msg)"
  have "\<exists>x C c. d = Some (x, C) \<and> process_client_packet env ar (packet_in msg) RPC_SIMPLE_ACK fd gen s =
      Some (1, push_rpc_confirmation (ar_coin ar) (ar_pad1 ar) (ar_pad2 ar) C c, s)" if "d \<noteq> None"
    using that t1(1) t2(1) t3(1) d l opc reading_remaining [OF r0]
    by (auto simp: process_client_packet_def Let_def RPC_PROXY_ANS_def RPC_PONG_def RPC_SIMPLE_ACK_def)
  moreover have "process_client_packet env ar (packet_in msg) RPC_SIMPLE_ACK fd gen s = Some (1, [notify_remote_closed fd gen ?cid], s)" if "d = None"
    using that t1(1) t2(1) t3(1) d(1) l opc reading_remaining [OF r0]
    by (simp add: process_client_packet_def Let_def RPC_PROXY_ANS_def RPC_PONG_def RPC_SIMPLE_ACK_def)
  ultimately show ?thesis
    using handled_notify [OF P] keeps_refl [OF P] d(2)
    by (cases d) (auto simp: handled_def dest!: push_rpc_confirmation_addressed elim!: addressed_mono)
qed

lemma process_close:
  assumes P: "proxy_inv s" and l: "length msg = 12" and opc: "le32 msg = RPC_CLOSE_EXT"
  shows "handled env fd gen (le64 (drop 4 msg)) s (process_client_packet env ar (packet_in msg) RPC_CLOSE_EXT fd gen s)"
proof -
  let ?cid = "le64 (drop 4 msg)"
  have r0: "reading msg (packet_in msg)" unfolding packet_in_def by (rule reading_init)
  obtain t1 where t1: "tlf_int (packet_in msg) = Some (le32 msg, t1)" "reading (drop 4 msg) t1"
    using reading_int [OF r0] l by auto
  obtain t2 where t2: "tlf_long t1 = Some (?cid, t2)" "reading (drop 12 msg) t2"
    using reading_long [OF t1(2)] l by auto
  obtain a s' where c: "(case find_ext_connection_by_out_conn_id ?cid s of None \<Rightarrow> None | Some None \<Rightarrow> Some ([], s)
      | Some (Some e) \<Rightarrow> remove_ext_connection (alive env) e 2 s) = Some (a, s')" "keeps s s'"
    using close_ext_keeps [OF P] by blast
  have "process_client_packet env ar (packet_in msg) RPC_CLOSE_EXT fd gen s = Some (1, map Table a, s')"
    using c(1) t1(1) t2(1) l opc reading_remaining [OF r0]
    by (auto simp: process_client_packet_def Let_def RPC_PROXY_ANS_def RPC_PONG_def RPC_SIMPLE_ACK_def RPC_CLOSE_EXT_def split: option.splits)
  then show ?thesis using c(2) by (auto simp: handled_def)
qed

text \<open>Every packet of a middle proxy, whatever its type and length.\<close>

lemma process_client_packet_handled:
  assumes P: "proxy_inv s" and ok: "clients_ok env" and l: "4 \<le> length msg" "length msg \<le> 2 ^ 25" "length msg mod 4 = 0"
  shows "handled env fd gen (answer_number (le32 msg) msg) s (process_client_packet env ar (packet_in msg) (le32 msg) fd gen s)"
proof -
  consider (ans) "le32 msg = RPC_PROXY_ANS" "16 \<le> length msg" | (ack) "le32 msg = RPC_SIMPLE_ACK" "length msg = 16"
    | (close) "le32 msg = RPC_CLOSE_EXT" "length msg = 12"
    | (other) "\<not> (le32 msg = RPC_PROXY_ANS \<and> 16 \<le> length msg)" "\<not> (le32 msg = RPC_SIMPLE_ACK \<and> length msg = 16)"
        "\<not> (le32 msg = RPC_CLOSE_EXT \<and> length msg = 12)"
    by blast
  then show ?thesis
  proof cases
    case ans
    then show ?thesis using process_ans [OF P ok ans(2) l(2,3) ans(1), of ar fd gen] by (auto simp: handled_def answer_number_def)
  next
    case ack
    then show ?thesis using process_ack [OF P ok ack(2,1)] by (simp add: answer_number_def RPC_SIMPLE_ACK_def RPC_PROXY_ANS_def)
  next
    case close
    then show ?thesis using process_close [OF P close(2,1)] by (simp add: answer_number_def RPC_CLOSE_EXT_def RPC_PROXY_ANS_def)
  next
    case other
    have r0: "reading msg (packet_in msg)" unfolding packet_in_def by (rule reading_init)
    obtain t1 where t1: "tlf_int (packet_in msg) = Some (le32 msg, t1)" using reading_int [OF r0 l(1)] by blast
    have "process_client_packet env ar (packet_in msg) (le32 msg) fd gen s = Some (if le32 msg = RPC_PONG then 1 else 0, [], s)"
      using other t1 reading_remaining [OF r0] by (auto simp: process_client_packet_def Let_def)
    then show ?thesis using handled_empty [OF P] by simp
  qed
qed


definition sample_random :: answer_random where
  "sample_random = \<lparr>ar_keepalive = True, ar_extra_headers = False, ar_used_after = 0, ar_coin = True, ar_pad1 = None, ar_pad2 = None\<rparr>"

text \<open>A client whose object is bound to a middle proxy.\<close>

lemma sample_bound: "\<exists>s cid. proxy_inv s \<and> receives s 7 1 cid 5 3"
proof -
  have "find_out_slot (OutExtConnections sample_table) h [] \<noteq> None" for h
    unfolding find_out_slot_iff by (simp add: sample_table_def ext_empty_def)
  then have d: "draw_slot (OutExtConnections sample_table) 5 0 [] \<noteq> None" by (simp add: draw_slot_def)
  have c: "can_insert 0 [] (fst (5, 3)) 0 sample_table"
    using d by (simp add: can_insert_def valid_fd_def MAX_CONNECTIONS_def) (simp add: sample_table_def ext_empty_def)
  show ?thesis
    using create_ext_connection_ok [OF sample_table_inv c, of "(7, 1)" 0]
    by (fastforce simp: receives_def sample_table_def valid_fd_def MAX_CONNECTIONS_def)
qed


end
