(* ===== verification/ProxyRun.thy ===== *)
theory ProxyRun
  imports ProxySafety
begin

text \<open>
  Runs of the proxy: the handlers of the program, in any order, on the table of external connections. A run
  records the connection numbers it hands out. The theorems are about every run: numbers are never reused, and an
  answer reaches only the client its number was handed out for. The last section is about the handlers that
  drop connections.
\<close>

section \<open>Runs\<close>

text \<open>The number of the object at \<open>new\<close>, if a handler has created it, with the client it belongs to.\<close>

definition issued :: "nat \<Rightarrow> ext_table \<Rightarrow> ext_table \<Rightarrow> (u64 \<times> int \<times> int) list" where
  "issued new s s' = (case exts s' new of
     Some x \<Rightarrow> if exts s new = None then [(out_conn_id x, in_fd x, in_gen x)] else []
   | None \<Rightarrow> [])"

inductive proxy_run :: "ext_table \<Rightarrow> (u64 \<times> int \<times> int) list \<Rightarrow> bool" where
  start: "proxy_run ext_empty []"
| client_packet: "proxy_run s ids \<Longrightarrow> can_forward env new rnd choices c s \<Longrightarrow> int (length msg) \<le> MAX_POST_SIZE \<Longrightarrow>
    do_rpcs_execute env new rnd choices msg c rpc_flags s = Some r \<Longrightarrow> proxy_run (fw_table r) (issued new s (fw_table r) @ ids)"
| proxy_packet: "proxy_run s ids \<Longrightarrow> clients_ok env \<Longrightarrow> 4 \<le> length msg \<Longrightarrow> length msg \<le> 2 ^ 25 \<Longrightarrow> length msg mod 4 = 0 \<Longrightarrow>
    process_client_packet env ar (packet_in msg) (le32 msg) fd gen s = Some (n, a, s') \<Longrightarrow> proxy_run s' ids"
| proxy_ready: "proxy_run s ids \<Longrightarrow> valid_fd (conn_fd C) \<Longrightarrow> fst (o_links s) (Head (conn_fd C)) = None \<Longrightarrow>
    mtfront_client_ready C s = Some (C', s') \<Longrightarrow> proxy_run s' ids"
| proxy_close: "proxy_run s ids \<Longrightarrow> conn_fd C \<noteq> 0 \<Longrightarrow> fst (o_links s) (Head (conn_fd C)) \<noteq> None \<Longrightarrow>
    mtfront_client_close al C s = Some (a, C', s') \<Longrightarrow> proxy_run s' ids"
| client_close: "proxy_run s ids \<Longrightarrow> valid_fd fd \<Longrightarrow> fd \<noteq> 0 \<Longrightarrow>
    do_close_in_ext_conn al fd s = Some (a, s') \<Longrightarrow> proxy_run s' ids"
| free_buffers: "proxy_run s ids \<Longrightarrow> check_all_conn_buffers used total_used chunks s = Some (a, s', k) \<Longrightarrow> proxy_run s' ids"

text \<open>No object appears and no number is drawn.\<close>

definition retains :: "ext_table \<Rightarrow> ext_table \<Rightarrow> bool" where
  "retains s s' \<longleftrightarrow> proxy_inv s' \<and> (\<forall>e x'. exts s' e = Some x' \<longrightarrow> (\<exists>x. exts s e = Some x \<and> core x = core x')) \<and>
     (\<forall>h. snd (OutExtConnections s' h) = snd (OutExtConnections s h))"

definition run_inv :: "ext_table \<Rightarrow> (u64 \<times> int \<times> int) list \<Rightarrow> bool" where
  "run_inv s ids \<longleftrightarrow> proxy_inv s \<and> distinct (map fst ids) \<and>
     (\<forall>(cid, f, g)\<in>set ids. unat cid \<le> unat (snd (OutExtConnections s (out_slot cid)))) \<and>
     (\<forall>e x. exts s e = Some x \<longrightarrow> (out_conn_id x, in_fd x, in_gen x) \<in> set ids)"

lemma keeps_retains: "keeps s s' \<Longrightarrow> retains s s'"
  by (simp add: keeps_def retains_def)

lemma run_inv_logged: "run_inv s ids \<Longrightarrow> exts s e = Some x \<Longrightarrow> (out_conn_id x, in_fd x, in_gen x) \<in> set ids"
  unfolding run_inv_def by blast

lemma run_inv_retains: "run_inv s ids \<Longrightarrow> retains s s' \<Longrightarrow> run_inv s' ids"
proof -
  assume I: "run_inv s ids" and r: "retains s s'"
  have "(out_conn_id y, in_fd y, in_gen y) \<in> set ids" if y: "exts s' e = Some y" for e y
  proof -
    obtain x where x: "exts s e = Some x" "core x = core y" using r y unfolding retains_def by blast
    show ?thesis using run_inv_logged [OF I x(1)] core_eq [OF x(2)] by simp
  qed
  then show ?thesis using I r by (auto simp: run_inv_def retains_def)
qed

lemma run_inv_draws:
  assumes I: "run_inv s ids" and d: "draws s s' new x"
  shows "run_inv s' ((out_conn_id x, in_fd x, in_gen x) # ids)"
proof -
  have lt: "unat (snd (OutExtConnections s (out_slot (out_conn_id x)))) < unat (out_conn_id x)"
    and snd: "snd (OutExtConnections s' h) = (if h = out_slot (out_conn_id x) then out_conn_id x else snd (OutExtConnections s h))" for h
    using d by (auto simp: draws_def)
  have le: "unat cid \<le> unat (snd (OutExtConnections s (out_slot cid)))" if "(cid, f, g) \<in> set ids" for cid f g
    using I that by (auto simp: run_inv_def)
  have "out_conn_id x \<notin> fst ` set ids" using le lt by fastforce
  moreover have "unat cid \<le> unat (snd (OutExtConnections s' (out_slot cid)))" if "(cid, f, g) \<in> set ids" for cid f g
    using le [OF that] lt snd by (metis le_less_trans less_imp_le)
  moreover have "(out_conn_id y, in_fd y, in_gen y) \<in> set ((out_conn_id x, in_fd x, in_gen x) # ids)" if y: "exts s' e = Some y" for e y
  proof (cases "e = new")
    case True
    then have "core y = core x" using d y unfolding draws_def by fastforce
    then show ?thesis using core_eq [of y x] by simp
  next
    case False
    then obtain z where z: "exts s e = Some z" "core z = core y" using d y unfolding draws_def by blast
    then show ?thesis using run_inv_logged [OF I z(1)] core_eq [OF z(2)] by simp
  qed
  moreover have "unat (out_conn_id x) \<le> unat (snd (OutExtConnections s' (out_slot (out_conn_id x))))" using snd by simp
  moreover have "proxy_inv s'" "distinct (map fst ids)" using I d by (simp_all add: run_inv_def draws_def)
  ultimately show ?thesis unfolding run_inv_def by auto
qed

lemma free_buffers_loop_frame: "free_buffers_loop n used f s = Some (a, s', k) \<Longrightarrow> \<exists>l. s' = s\<lparr>lru_links := l\<rparr>"
proof (induction n arbitrary: f s a k)
  case (Suc n)
  obtain p where p: "fst (lru_links s) ConnLRU = Some p" using Suc.prems by (auto split: bind_split_asm)
  show ?case
  proof (cases "f > 0 \<and> p \<noteq> ConnLRU")
    case False
    then have "s' = s" using Suc.prems p by auto
    then show ?thesis by (intro exI [of _ "lru_links s"]) simp
  next
    case True
    then obtain e where e: "p = Ext e" using Suc.prems p by (cases p) auto
    obtain g b l j where "free_buffers_loop n used g (s\<lparr>lru_links := l\<rparr>) = Some (b, s', j)"
      using Suc.prems p True e
      by (auto simp: lru_delete_ext_conn_def Let_def split: bind_split_asm option.split_asm prod.split_asm)
    then show ?thesis using Suc.IH by fastforce
  qed
qed simp

lemma free_buffers_retains:
  assumes P: "proxy_inv s" and c: "check_all_conn_buffers used total_used chunks s = Some (a, s', k)"
  shows "retains s s'"
proof -
  obtain es where es: "lru_list s es" "set es \<subseteq> dom (exts s)" using lru_ok_list ext_invD(6) [OF proxy_invD(1) [OF P]] by blast
  have "length es < Suc (nat (ext_connections s))" using lru_list_short [OF P es] .
  from free_buffers_loop_ok [OF P es(1) this, of used "total_used - chunks * MSG_BUFFERS_CHUNK_SIZE * 3 div 4"]
  have "proxy_inv s' \<and> exts s' = exts s" using c by (auto simp: check_all_conn_buffers_def Let_def simp del: free_buffers_loop.simps)
  moreover obtain l where "s' = s\<lparr>lru_links := l\<rparr>"
    using c free_buffers_loop_frame unfolding check_all_conn_buffers_def Let_def by blast
  ultimately show ?thesis by (auto simp: retains_def)
qed

lemma client_close_retains:
  assumes P: "proxy_inv s" and C: "conn_fd C \<noteq> 0" "fst (o_links s) (Head (conn_fd C)) \<noteq> None"
    and c: "mtfront_client_close al C s = Some (a, C', s')"
  shows "retains s s'"
proof -
  have fd: "valid_fd (conn_fd C)" using c by (cases "valid_fd (conn_fd C)") (simp_all add: mtfront_client_close_def)
  show ?thesis
  proof (cases "conn_extra_int C = 0")
    case True
    then have "s' = s" using c fd by (simp add: mtfront_client_close_def)
    then show ?thesis using keeps_retains [OF keeps_refl [OF P]] by simp
  next
    case False
    then have t: "conn_extra_int C = get_conn_tag C" using c fd
      by (cases "conn_extra_int C = get_conn_tag C") (simp_all add: mtfront_client_close_def Let_def)
    then have "get_conn_tag C \<noteq> 0" using False by simp
    then obtain a' s1 where "mtfront_client_close al C s = Some (a', C\<lparr>conn_extra_int := 0\<rparr>, s1)" "proxy_inv s1"
      "exts s1 = (\<lambda>e. if out_owner s e = Some (conn_fd C) then None else exts s e)"
      "\<forall>h. snd (OutExtConnections s1 h) = snd (OutExtConnections s h)"
      using mtfront_client_close_ok [OF P fd C(1) t _ C(2), of al] by blast
    then show ?thesis using c by (auto simp: retains_def)
  qed
qed

lemma proxy_run_inv: "proxy_run s ids \<Longrightarrow> run_inv s ids"
proof (induction rule: proxy_run.induct)
  case start
  show ?case using ext_empty_proxy_inv by (simp add: run_inv_def) (simp add: ext_empty_def)
next
  case (client_packet s ids env new rnd choices c msg rpc_flags r)
  have P: "proxy_inv s" using client_packet.IH by (simp add: run_inv_def)
  have n: "exts s new = None" using client_packet.hyps(2) by (simp add: can_forward_def)
  have "forward_outcome env new c msg s r"
    using do_rpcs_execute_outcome [OF P client_packet.hyps(2,3), of rpc_flags] client_packet.hyps(4) by auto
  then consider "keeps s (fw_table r)" | x where "draws s (fw_table r) new x" unfolding forward_outcome_def by blast
  then show ?case
  proof cases
    case 1
    then have "exts (fw_table r) new = None" using n unfolding keeps_def by (metis not_None_eq)
    then show ?thesis using run_inv_retains [OF client_packet.IH keeps_retains [OF 1]] by (simp add: issued_def)
  next
    case 2
    then obtain y where y: "exts (fw_table r) new = Some y" "core y = core x" unfolding draws_def by blast
    then show ?thesis using run_inv_draws [OF client_packet.IH 2] n core_eq [OF y(2)] by (simp add: issued_def)
  qed
next
  case (proxy_packet s ids env msg ar fd gen n a s')
  have P: "proxy_inv s" using proxy_packet.IH by (simp add: run_inv_def)
  have "keeps s s'"
    using process_client_packet_handled [OF P proxy_packet.hyps(2-5), of fd gen ar] proxy_packet.hyps(6) by (auto simp: handled_def)
  then show ?case using run_inv_retains [OF proxy_packet.IH] keeps_retains by blast
next
  case (proxy_ready s ids C C' s')
  have P: "proxy_inv s" using proxy_ready.IH by (simp add: run_inv_def)
  have "conn_extra_int C = 0" using proxy_ready.hyps(2,4)
    by (cases "conn_extra_int C = 0") (simp_all add: mtfront_client_ready_def Let_def)
  then have "proxy_inv s'" "exts s' = exts s" "OutExtConnections s' = OutExtConnections s"
    using mtfront_client_ready_ok [OF P proxy_ready.hyps(2) _ proxy_ready.hyps(3)] proxy_ready.hyps(4) by auto
  then have "retains s s'" by (auto simp: retains_def)
  then show ?case using run_inv_retains [OF proxy_ready.IH] by blast
next
  case (proxy_close s ids C al a C' s')
  then show ?case using run_inv_retains client_close_retains by (meson run_inv_def)
next
  case (client_close s ids fd al a s')
  have P: "proxy_inv s" using client_close.IH by (simp add: run_inv_def)
  have "keeps s s'" using do_close_keeps [OF P client_close.hyps(2,3), of al] client_close.hyps(4) by auto
  then show ?case using run_inv_retains [OF client_close.IH] keeps_retains by blast
next
  case (free_buffers s ids used total_used chunks a s' k)
  then show ?case using run_inv_retains free_buffers_retains by (meson run_inv_def)
qed

text \<open>
  C2. In every run of the proxy, over any interleaving of packets of clients and of middle proxies and of
  connections that come and go, no connection number is handed out twice, and a packet of a middle proxy is handled
  without failing an assertion and causes data to be sent to no client but the one its connection number was
  handed out for.
\<close>

theorem answers_reach_their_client:
  assumes run: "proxy_run s ids" and p: "clients_ok env" "4 \<le> length msg" "length msg \<le> 2 ^ 25" "length msg mod 4 = 0"
  shows "distinct (map fst ids) \<and>
    (\<exists>n a s'. process_client_packet env ar (packet_in msg) (le32 msg) fd gen s = Some (n, a, s') \<and>
      (\<forall>act\<in>set a. addressed (\<lambda>f g. (answer_number (le32 msg) msg, f, g) \<in> set ids) act))"
proof -
  have I: "run_inv s ids" using proxy_run_inv [OF run] .
  then have P: "proxy_inv s" by (simp add: run_inv_def)
  have r: "(cid, f, g) \<in> set ids" if "receives s fd gen cid f g" for cid f g
    using that run_inv_logged [OF I] unfolding receives_def by blast
  show ?thesis
    using process_client_packet_handled [OF P p, of fd gen ar] I r
    unfolding handled_def run_inv_def by (metis (no_types, lifting) addressed_mono)
qed

text \<open>A run in which one middle proxy is connected.\<close>

lemma sample_run: "proxy_run sample_table []"
proof -
  have "mtfront_client_ready \<lparr>conn_fd = 7, conn_generation = 1, conn_extra_int = 0\<rparr> ext_empty =
      Some (\<lparr>conn_fd = 7, conn_generation = 1, conn_extra_int = 2\<rparr>, sample_table)"
    by (simp add: mtfront_client_ready_def valid_fd_def MAX_CONNECTIONS_def ext_empty_def get_conn_tag_def sample_table_def)
  then show ?thesis
    by (rule proxy_ready [OF start, rotated 2]) (simp_all add: valid_fd_def MAX_CONNECTIONS_def ext_empty_def)
qed

lemma sample_clients_ok: "clients_ok sample_proxy_env"
  by (auto simp: clients_ok_def sample_proxy_env_def sample_client_def split: if_split_asm)

theorem answers_reach_their_client_witness:
  "distinct (map fst ([] :: (u64 \<times> int \<times> int) list)) \<and>
    (\<exists>n a s'. process_client_packet sample_proxy_env sample_random (packet_in (bytes32 RPC_CLOSE_EXT @ bytes64 5))
        (le32 (bytes32 RPC_CLOSE_EXT @ bytes64 5)) 7 1 sample_table = Some (n, a, s') \<and>
      (\<forall>act\<in>set a. addressed (\<lambda>f g. (answer_number (le32 (bytes32 RPC_CLOSE_EXT @ bytes64 5)) (bytes32 RPC_CLOSE_EXT @ bytes64 5), f, g) \<in> set []) act))"
  by (rule answers_reach_their_client [OF sample_run sample_clients_ok]) simp_all

section \<open>Connections that are dropped\<close>

text \<open>
  C17. When the connection to a middle proxy is lost, all objects bound to it are dropped and no others, the clients
  of exactly these objects are failed, and the list of the connection ends empty: none of the assertions on the
  lists fails. The loop ends for any number of clients.
\<close>

theorem middle_proxy_lost:
  assumes "proxy_inv s" "valid_fd (conn_fd C)" "conn_fd C \<noteq> 0" "conn_extra_int C = get_conn_tag C" "get_conn_tag C \<noteq> 0"
    "fst (o_links s) (Head (conn_fd C)) \<noteq> None"
  shows "\<exists>a s'. mtfront_client_close al C s = Some (a, C\<lparr>conn_extra_int := 0\<rparr>, s') \<and> proxy_inv s' \<and>
    (\<forall>e. exts s' e = (case exts s e of None \<Rightarrow> None | Some x \<Rightarrow> if out_fd x = conn_fd C then None else Some x)) \<and>
    set a = {FailConnection (in_fd x) (in_gen x) (-33) | e x. exts s e = Some x \<and> out_fd x = conn_fd C \<and> al (in_fd x) (in_gen x)}"
proof -
  have "(if out_owner s e = Some (conn_fd C) then None else exts s e) =
      (case exts s e of None \<Rightarrow> None | Some x \<Rightarrow> if out_fd x = conn_fd C then None else Some x)" for e
    using assms(3) by (auto simp: out_owner_iff split: option.split)
  then show ?thesis using mtfront_client_close_ok [OF assms, of al] by auto
qed

theorem middle_proxy_lost_witness:
  "\<exists>a s'. mtfront_client_close (\<lambda>_ _. True) sample_target sample_table = Some (a, sample_target\<lparr>conn_extra_int := 0\<rparr>, s') \<and> proxy_inv s' \<and>
    (\<forall>e. exts s' e = (case exts sample_table e of None \<Rightarrow> None | Some x \<Rightarrow> if out_fd x = conn_fd sample_target then None else Some x)) \<and>
    set a = {FailConnection (in_fd x) (in_gen x) (-33) | e x. exts sample_table e = Some x \<and> out_fd x = conn_fd sample_target}"
  using middle_proxy_lost [OF sample_table_inv, of sample_target "\<lambda>_ _. True"]
  by (simp add: sample_target_def valid_fd_def MAX_CONNECTIONS_def get_conn_tag_def) (simp add: sample_table_def ext_empty_def)

lemma int32_small: "0 \<le> i \<Longrightarrow> i < 2 ^ 31 \<Longrightarrow> int32 i = i"
  by (simp add: int32_def sint_sbintrunc' signed_take_bit_int_eq_self)

text \<open>The bytes in the buffers of the client of an object.\<close>

definition client_bytes :: "(int \<Rightarrow> int \<Rightarrow> int option) \<Rightarrow> ext_table \<Rightarrow> nat \<Rightarrow> int" where
  "client_bytes used s e = (case exts s e of None \<Rightarrow> 0
     | Some x \<Rightarrow> (case used (in_fd x) (in_gen x) of None \<Rightarrow> 0 | Some b \<Rightarrow> b))"

text \<open>
  C18. When the buffers of the process exceed three quarters of their limit, connections are failed in the order
  of last use, the least recently used first, until twice the bytes they hold cover the excess or no connection is
  left, and not one connection more. The loop always ends, and the table stays consistent.
\<close>

theorem buffers_freed:
  fixes total_used chunks :: int
  assumes P: "proxy_inv s" and used: "\<And>f g b. used f g = Some b \<Longrightarrow> 0 \<le> b \<and> b < 2 ^ 30"
  defines "excess \<equiv> total_used - chunks * MSG_BUFFERS_CHUNK_SIZE * 3 div 4"
  shows "\<exists>es k s'. lru_list s es \<and> k \<le> length es \<and>
    check_all_conn_buffers used total_used chunks s = Some (concat (map (lru_failure used s) (take k es)), s', k) \<and>
    proxy_inv s' \<and> exts s' = exts s \<and> lru_list s' (drop k es) \<and>
    (k = length es \<or> excess \<le> 2 * sum_list (map (client_bytes used s) (take k es))) \<and>
    (\<forall>j<k. excess > 2 * sum_list (map (client_bytes used s) (take j es)))"
proof -
  obtain es where es: "lru_list s es" "set es \<subseteq> dom (exts s)" using lru_ok_list ext_invD(6) [OF proxy_invD(1) [OF P]] by blast
  have "buffer_use used s e = 2 * client_bytes used s e" for e
    using used int32_small by (auto simp: buffer_use_def client_bytes_def split: option.split)
  then have "buffer_use used s = (\<lambda>e. 2 * client_bytes used s e)" by blast
  then have sums: "sum_list (map (buffer_use used s) xs) = 2 * sum_list (map (client_bytes used s) xs)" for xs
    by (simp add: sum_list_const_mult)
  show ?thesis
    using free_buffers_loop_ok [OF P es(1) lru_list_short [OF P es], of used excess] es(1)
    unfolding check_all_conn_buffers_def Let_def excess_def [symmetric] sums by blast
qed

theorem buffers_freed_witness:
  "\<exists>es k s'. lru_list sample_table es \<and> k \<le> length es \<and>
    check_all_conn_buffers (\<lambda>_ _. Some 1000) (2 ^ 28) 1 sample_table =
      Some (concat (map (lru_failure (\<lambda>_ _. Some 1000) sample_table) (take k es)), s', k) \<and>
    proxy_inv s' \<and> exts s' = exts sample_table \<and> lru_list s' (drop k es) \<and>
    (k = length es \<or> 2 ^ 28 - 1 * MSG_BUFFERS_CHUNK_SIZE * 3 div 4 \<le> 2 * sum_list (map (client_bytes (\<lambda>_ _. Some 1000) sample_table) (take k es))) \<and>
    (\<forall>j<k. 2 ^ 28 - 1 * MSG_BUFFERS_CHUNK_SIZE * 3 div 4 > 2 * sum_list (map (client_bytes (\<lambda>_ _. Some 1000) sample_table) (take j es)))"
  by (rule buffers_freed [OF sample_table_inv]) simp

end
