(* ===== verification/NetMsg.thy ===== *)
theory NetMsg
  imports Prelude
begin

text \<open>
  Raw messages (\<^verbatim>\<open>net/net-msg.c\<close>): a message is a chain of parts, each a window into a buffer. Parts and
  buffers have reference counts and are shared between messages: a message can be cloned, split and appended
  without copying data. The heap maps the addresses of parts and buffers to their values; a freed
  object is not in the heap, and using it is the failure \<open>None\<close>. Locks of parts (\<^verbatim>\<open>MSG_PART_LOCKED_MAGIC\<close>) are kept,
  the operations run one at a time.
\<close>

section \<open>Buffers\<close>

definition MSG_STD_BUFFER :: int where "MSG_STD_BUFFER = 2048"
definition MSG_SMALL_BUFFER :: int where "MSG_SMALL_BUFFER = 512"
definition RM_PREPEND_RESERVE :: int where "RM_PREPEND_RESERVE = 128"

record msg_buffer =
  mb_refcnt :: int
  mb_data :: bytes

record msg_part =
  mp_refcnt :: int
  mp_locked :: bool
  mp_next :: "nat option"
  mp_part :: nat
  mp_offset :: int
  mp_data_end :: int

text \<open>
  \<open>mh_fresh\<close> is the next free address, \<open>mh_fails\<close> says which of the next calls of \<open>alloc_msg_buffer\<close> find no memory
  (none when the list is used up), \<open>mh_junk\<close> is what a new buffer holds.
\<close>

record msg_heap =
  mparts :: "nat \<Rightarrow> msg_part option"
  mbufs :: "nat \<Rightarrow> msg_buffer option"
  mh_fresh :: nat
  mh_fails :: "bool list"
  mh_junk :: "nat \<Rightarrow> u8"

definition default_buffer_sizes :: "int list" where
  "default_buffer_sizes = [48, 512, 2048, 16384, 262144]"

text \<open>The size of the buffers that \<open>alloc_msg_buffer\<close> takes: the smallest that fits, or the largest.\<close>

fun pick_size :: "int list \<Rightarrow> int \<Rightarrow> int" where
  "pick_size [] hint = 0"
| "pick_size [s] hint = s"
| "pick_size (s # ss) hint = (if s \<ge> hint then s else pick_size ss hint)"

definition buffer_size_for :: "int \<Rightarrow> int" where
  "buffer_size_for size_hint =
     (if size_hint \<ge> 0 then pick_size default_buffer_sizes size_hint else last default_buffer_sizes)"

definition alloc_msg_buffer :: "int \<Rightarrow> msg_heap \<Rightarrow> nat option \<times> msg_heap" where
  "alloc_msg_buffer size_hint h =
     (case mh_fails h of
        True # fs \<Rightarrow> (None, h\<lparr>mh_fails := fs\<rparr>)
      | fs \<Rightarrow>
          (Some (mh_fresh h),
           h\<lparr>mbufs := (mbufs h)(mh_fresh h \<mapsto> \<lparr>mb_refcnt = 1, mb_data = map (mh_junk h) [0 ..< nat (buffer_size_for size_hint)]\<rparr>),
             mh_fresh := Suc (mh_fresh h), mh_fails := drop 1 fs\<rparr>))"

definition msg_buffer_incref :: "nat \<Rightarrow> msg_heap \<Rightarrow> msg_heap option" where
  "msg_buffer_incref b h = do {
     x \<leftarrow> mbufs h b;
     Some (h\<lparr>mbufs := (mbufs h)(b \<mapsto> x\<lparr>mb_refcnt := mb_refcnt x + 1\<rparr>)\<rparr>) }"

definition msg_buffer_decref :: "nat \<Rightarrow> msg_heap \<Rightarrow> msg_heap option" where
  "msg_buffer_decref b h = do {
     x \<leftarrow> mbufs h b;
     Some (h\<lparr>mbufs := (if mb_refcnt x = 1 then (mbufs h)(b := None)
       else (mbufs h)(b \<mapsto> x\<lparr>mb_refcnt := mb_refcnt x - 1\<rparr>))\<rparr>) }"

definition buffer_size :: "msg_buffer \<Rightarrow> int" where
  "buffer_size x = int (length (mb_data x))"

text \<open>Reading and writing \<open>data\<close>; outside the buffer this is a failure.\<close>

definition get_bytes :: "nat \<Rightarrow> int \<Rightarrow> int \<Rightarrow> msg_heap \<Rightarrow> bytes option" where
  "get_bytes b pos len h = do {
     x \<leftarrow> mbufs h b;
     cassert (0 \<le> pos \<and> 0 \<le> len \<and> pos + len \<le> buffer_size x);
     Some (take (nat len) (drop (nat pos) (mb_data x))) }"

definition put_bytes :: "nat \<Rightarrow> int \<Rightarrow> bytes \<Rightarrow> msg_heap \<Rightarrow> msg_heap option" where
  "put_bytes b pos d h = do {
     x \<leftarrow> mbufs h b;
     cassert (0 \<le> pos \<and> pos + int (length d) \<le> buffer_size x);
     Some (h\<lparr>mbufs := (mbufs h)(b \<mapsto> x\<lparr>mb_data := take (nat pos) (mb_data x) @ d @ drop (nat pos + length d) (mb_data x)\<rparr>)\<rparr>) }"

section \<open>Parts\<close>

definition upd_part :: "nat \<Rightarrow> (msg_part \<Rightarrow> msg_part) \<Rightarrow> msg_heap \<Rightarrow> msg_heap option" where
  "upd_part p f h = do {
     x \<leftarrow> mparts h p;
     Some (h\<lparr>mparts := (mparts h)(p \<mapsto> f x)\<rparr>) }"

definition new_msg_part :: "nat \<Rightarrow> msg_heap \<Rightarrow> nat \<times> msg_heap" where
  "new_msg_part X h =
     (mh_fresh h,
      h\<lparr>mparts := (mparts h)(mh_fresh h \<mapsto>
          \<lparr>mp_refcnt = 1, mp_locked = False, mp_next = None, mp_part = X, mp_offset = 0, mp_data_end = 0\<rparr>),
        mh_fresh := Suc (mh_fresh h)\<rparr>)"

definition msg_part_incref :: "nat \<Rightarrow> msg_heap \<Rightarrow> msg_heap option" where
  "msg_part_incref p h = upd_part p (\<lambda>x. x\<lparr>mp_refcnt := mp_refcnt x + 1\<rparr>) h"

text \<open>\<open>msg_part_decref\<close> runs down the chain as long as it frees parts; the result is their number.\<close>

partial_function (option) msg_part_decref :: "nat option \<Rightarrow> msg_heap \<Rightarrow> (int \<times> msg_heap) option" where
  "msg_part_decref mp h = (case mp of
     None \<Rightarrow> Some (0, h)
   | Some p \<Rightarrow> do {
       x \<leftarrow> mparts h p;
       if mp_refcnt x > 1 then Some (0, h\<lparr>mparts := (mparts h)(p \<mapsto> x\<lparr>mp_refcnt := mp_refcnt x - 1\<rparr>)\<rparr>)
       else do {
         cassert (\<not> mp_locked x \<and> mp_refcnt x = 1);
         h \<leftarrow> msg_buffer_decref (mp_part x) h;
         (cnt, h) \<leftarrow> msg_part_decref (mp_next x) (h\<lparr>mparts := (mparts h)(p := None)\<rparr>);
         Some (cnt + 1, h) } })"

section \<open>Messages\<close>

datatype rm_magic = RM_INIT_MAGIC | RM_TMP_MAGIC | RM_NO_MAGIC

text \<open>
  The counts and offsets are values of type \<^verbatim>\<open>int\<close> in the code and integers here; the programs of \<open>MsgStore\<close> keep all lengths below
  $2^{31}$, where both agree.
\<close>

record raw_message =
  rm_first :: "nat option"
  rm_last :: "nat option"
  rm_total_bytes :: int
  rm_magic :: rm_magic
  rm_first_offset :: int
  rm_last_offset :: int

definition rm_zero :: raw_message where
  "rm_zero = \<lparr>rm_first = None, rm_last = None, rm_total_bytes = 0, rm_magic = RM_NO_MAGIC, rm_first_offset = 0, rm_last_offset = 0\<rparr>"

definition rm_live :: "raw_message \<Rightarrow> bool" where
  "rm_live raw \<longleftrightarrow> rm_magic raw = RM_INIT_MAGIC \<or> rm_magic raw = RM_TMP_MAGIC"

text \<open>Where the data of a message begin and end in one of its parts.\<close>

definition part_start :: "raw_message \<Rightarrow> nat \<Rightarrow> msg_part \<Rightarrow> int" where
  "part_start raw p x = (if rm_first raw = Some p then rm_first_offset raw else mp_offset x)"

definition part_end :: "raw_message \<Rightarrow> nat \<Rightarrow> msg_part \<Rightarrow> int" where
  "part_end raw p x = (if rm_last raw = Some p then rm_last_offset raw else mp_data_end x)"

definition rwm_free :: "raw_message \<Rightarrow> msg_heap \<Rightarrow> (int \<times> raw_message \<times> msg_heap) option" where
  "rwm_free raw h = do {
     cassert (rm_live raw);
     (cnt, h) \<leftarrow> (if rm_magic raw = RM_TMP_MAGIC then Some (0, h) else msg_part_decref (rm_first raw) h);
     Some (cnt, rm_zero, h) }"

definition rwm_clean :: "raw_message \<Rightarrow> raw_message" where
  "rwm_clean raw = raw\<lparr>rm_first := None, rm_last := None, rm_first_offset := 0, rm_last_offset := 0, rm_total_bytes := 0\<rparr>"

definition rwm_clear :: "raw_message \<Rightarrow> msg_heap \<Rightarrow> (raw_message \<times> msg_heap) option" where
  "rwm_clear raw h = do {
     cassert (rm_live raw);
     (cnt, h) \<leftarrow> (if rm_first raw \<noteq> None \<and> rm_magic raw = RM_INIT_MAGIC then msg_part_decref (rm_first raw) h else Some (0, h));
     Some (rwm_clean raw, h) }"

definition rwm_clone :: "raw_message \<Rightarrow> msg_heap \<Rightarrow> (raw_message \<times> msg_heap) option" where
  "rwm_clone src_raw h = do {
     cassert (rm_live src_raw);
     h \<leftarrow> (case rm_first src_raw of
         Some p \<Rightarrow> if rm_magic src_raw = RM_INIT_MAGIC then msg_part_incref p h else Some h
       | None \<Rightarrow> Some h);
     Some (src_raw, h) }"

text \<open>The destination and the source.\<close>

definition rwm_move :: "raw_message \<Rightarrow> (raw_message \<times> raw_message) option" where
  "rwm_move src_raw = do {
     cassert (rm_live src_raw);
     Some (src_raw, rm_zero) }"

section \<open>Unsharing\<close>

text \<open>
  \<open>fork_message_chain\<close>. Its first loop passes over the parts that only this message refers to: the part it stops at, the one
  before, and the bytes that remain. Its second loop copies parts, without their data.
\<close>

partial_function (option) fork_skip :: "nat option \<Rightarrow> nat \<Rightarrow> nat option \<Rightarrow> int \<Rightarrow> msg_heap \<Rightarrow> (nat \<times> nat option \<times> int) option" where
  "fork_skip lst mp mpl left h = do {
     x \<leftarrow> mparts h mp;
     if Some mp \<noteq> lst \<and> mp_refcnt x = 1 then do {
       cassert (\<not> mp_locked x);
       n \<leftarrow> mp_next x;
       fork_skip lst n (Some mp) (left - (mp_data_end x - mp_offset x)) h }
     else Some (mp, mpl, left) }"

definition set_next :: "nat option \<Rightarrow> nat \<Rightarrow> raw_message \<Rightarrow> msg_heap \<Rightarrow> (raw_message \<times> msg_heap) option" where
  "set_next mpl c raw h = (case mpl of
     None \<Rightarrow> Some (raw\<lparr>rm_first := Some c\<rparr>, h)
   | Some q \<Rightarrow> do { h \<leftarrow> upd_part q (\<lambda>y. y\<lparr>mp_next := Some c\<rparr>) h; Some (raw, h) })"

partial_function (option) fork_copy ::
  "nat option \<Rightarrow> nat option \<Rightarrow> raw_message \<Rightarrow> int \<Rightarrow> int \<Rightarrow> msg_heap \<Rightarrow> (raw_message \<times> int \<times> int \<times> msg_heap) option" where
  "fork_copy mp mpl raw left res h = do {
     p \<leftarrow> mp;
     x \<leftarrow> mparts h p;
     let (c, h) = new_msg_part (mp_part x) h;
     h \<leftarrow> msg_buffer_incref (mp_part x) h;
     let off = part_start raw p x;
     let data_end = part_end raw p x;
     let copy_last = (rm_last raw = Some p);
     h \<leftarrow> upd_part c (\<lambda>y. y\<lparr>mp_offset := off, mp_data_end := data_end\<rparr>) h;
     let raw = (if copy_last then raw\<lparr>rm_last := Some c\<rparr> else raw);
     (raw, h) \<leftarrow> set_next mpl c raw h;
     let left = left - (data_end - off);
     if copy_last then Some (raw, left, res + 1, h)
     else fork_copy (mp_next x) (Some c) raw left (res + 1) h }"

definition fork_message_chain :: "raw_message \<Rightarrow> msg_heap \<Rightarrow> (int \<times> raw_message \<times> msg_heap) option" where
  "fork_message_chain raw h = do {
     cassert (rm_magic raw = RM_INIT_MAGIC);
     case rm_first raw of
       None \<Rightarrow> Some (0, raw, h)
     | Some f \<Rightarrow> do {
         x \<leftarrow> mparts h f;
         let own = (rm_first_offset raw = mp_offset x \<or> mp_refcnt x = 1);
         h \<leftarrow> (if own then upd_part f (\<lambda>y. y\<lparr>mp_offset := rm_first_offset raw\<rparr>) h else Some h);
         (mp, mpl, left) \<leftarrow> (if own then fork_skip (rm_last raw) f None (rm_total_bytes raw) h
                              else Some (f, None, rm_total_bytes raw));
         y \<leftarrow> mparts h mp;
         (res, left, raw, h) \<leftarrow> (if \<not> own \<or> mp_refcnt y \<noteq> 1 \<or> Some mp \<noteq> rm_last raw then do {
             (raw, left, res, h) \<leftarrow> fork_copy (Some mp) mpl raw left 0 h;
             (cnt, h) \<leftarrow> msg_part_decref (Some mp) h;
             Some (res, left, raw, h) }
           else do {
             cassert (\<not> mp_locked y);
             h \<leftarrow> upd_part mp (\<lambda>z. z\<lparr>mp_data_end := rm_last_offset raw\<rparr>) h;
             (cnt, h) \<leftarrow> msg_part_decref (mp_next y) h;
             h \<leftarrow> upd_part mp (\<lambda>z. z\<lparr>mp_next := None\<rparr>) h;
             Some (0, left - (rm_last_offset raw - mp_offset y), raw, h) });
         cassert (left = 0);
         Some (res, raw, h) } }"

text \<open>The part that was locked, the message and the heap.\<close>

definition rwm_lock_last_part :: "raw_message \<Rightarrow> msg_heap \<Rightarrow> (nat option \<times> raw_message \<times> msg_heap) option" where
  "rwm_lock_last_part raw h = do {
     cassert (rm_magic raw = RM_INIT_MAGIC);
     if rm_first raw = None then Some (None, raw, h)
     else do {
       l \<leftarrow> rm_last raw;
       x \<leftarrow> mparts h l;
       if mp_next x \<noteq> None \<or> rm_last_offset raw \<noteq> mp_data_end x then do {
         cassert (rm_last_offset raw \<le> mp_data_end x);
         (res, raw, h) \<leftarrow> fork_message_chain raw h;
         Some (None, raw, h) }
       else if mp_locked x then do {
         (res, raw, h) \<leftarrow> fork_message_chain raw h;
         Some (None, raw, h) }
       else do {
         h \<leftarrow> upd_part l (\<lambda>y. y\<lparr>mp_locked := True\<rparr>) h;
         Some (Some l, raw, h) } } }"

definition unlock_part :: "nat option \<Rightarrow> msg_heap \<Rightarrow> msg_heap option" where
  "unlock_part locked h = (case locked of
     None \<Rightarrow> Some h
   | Some p \<Rightarrow> upd_part p (\<lambda>y. y\<lparr>mp_locked := False\<rparr>) h)"

definition rwm_lock_first_part :: "raw_message \<Rightarrow> msg_heap \<Rightarrow> (raw_message \<times> msg_heap) option" where
  "rwm_lock_first_part raw h = do {
     cassert (rm_magic raw = RM_INIT_MAGIC);
     case rm_first raw of
       None \<Rightarrow> Some (raw, h)
     | Some f \<Rightarrow> do {
         x \<leftarrow> mparts h f;
         if mp_refcnt x = 1 then do {
           h \<leftarrow> upd_part f (\<lambda>y. y\<lparr>mp_offset := rm_first_offset raw\<rparr>) h;
           Some (raw, h) }
         else if mp_offset x = rm_first_offset raw then Some (raw, h)
         else do {
           h \<leftarrow> msg_buffer_incref (mp_part x) h;
           let (c, h) = new_msg_part (mp_part x) h;
           (raw, h) \<leftarrow> (if rm_last raw = rm_first raw then do {
               h \<leftarrow> upd_part c (\<lambda>y. y\<lparr>mp_offset := rm_first_offset raw, mp_data_end := rm_last_offset raw\<rparr>) h;
               Some (raw\<lparr>rm_last := Some c\<rparr>, h) }
             else do {
               n \<leftarrow> mp_next x;
               h \<leftarrow> upd_part c (\<lambda>y. y\<lparr>mp_offset := rm_first_offset raw, mp_data_end := mp_data_end x, mp_next := Some n\<rparr>) h;
               h \<leftarrow> msg_part_incref n h;
               Some (raw, h) });
           (cnt, h) \<leftarrow> msg_part_decref (Some f) h;
           Some (raw\<lparr>rm_first := Some c\<rparr>, h) } } }"

section \<open>Appending and prepending data\<close>

text \<open>
  \<open>data\<close> is \<open>None\<close> for the null pointer: room is made and left as it is. \<open>copy_in\<close> copies the first \<open>n\<close> bytes.
\<close>

definition copy_in :: "nat \<Rightarrow> int \<Rightarrow> bytes option \<Rightarrow> int \<Rightarrow> msg_heap \<Rightarrow> msg_heap option" where
  "copy_in b pos data n h = (case data of
     None \<Rightarrow> Some h
   | Some d \<Rightarrow> do {
       cassert (0 \<le> n \<and> n \<le> int (length d));
       put_bytes b pos (take (nat n) d) h })"

definition data_advance :: "int \<Rightarrow> bytes option \<Rightarrow> bytes option" where
  "data_advance n data = map_option (drop (nat n)) data"

partial_function (option) push_loop ::
  "nat \<Rightarrow> raw_message \<Rightarrow> bytes option \<Rightarrow> int \<Rightarrow> int \<Rightarrow> int \<Rightarrow> int \<Rightarrow> msg_heap \<Rightarrow> (int \<times> raw_message \<times> msg_heap) option" where
  "push_loop mp raw data alloc_bytes res small_buffer std_buffer h =
     (if alloc_bytes > 0 then
        case alloc_msg_buffer (if rm_total_bytes raw + alloc_bytes \<ge> std_buffer then std_buffer else small_buffer) h of
          (None, h) \<Rightarrow> Some (res, raw, h)
        | (Some X, h) \<Rightarrow> do {
            let (c, h) = new_msg_part X h;
            h \<leftarrow> upd_part mp (\<lambda>y. y\<lparr>mp_next := Some c\<rparr>) h;
            b \<leftarrow> mbufs h X;
            let n = (if buffer_size b \<ge> alloc_bytes then alloc_bytes else buffer_size b);
            h \<leftarrow> upd_part c (\<lambda>y. y\<lparr>mp_data_end := n\<rparr>) h;
            h \<leftarrow> copy_in X 0 data n h;
            let raw = raw\<lparr>rm_last := Some c, rm_total_bytes := rm_total_bytes raw + n, rm_last_offset := n\<rparr>;
            if buffer_size b \<ge> alloc_bytes then Some (res + n, raw, h)
            else push_loop c raw (data_advance n data) (alloc_bytes - n) (res + n) small_buffer std_buffer h }
      else Some (res, raw, h))"

text \<open>The first part of an empty message; \<open>None\<close> inside means that there is no memory.\<close>

definition push_first ::
  "raw_message \<Rightarrow> bytes option \<Rightarrow> int \<Rightarrow> int \<Rightarrow> int \<Rightarrow> int \<Rightarrow> msg_heap \<Rightarrow> ((nat \<times> int \<times> raw_message) option \<times> msg_heap) option" where
  "push_first raw data alloc_bytes prepend small_buffer std_buffer h =
     (case alloc_msg_buffer (if alloc_bytes \<ge> small_buffer - prepend then std_buffer else small_buffer) h of
        (None, h) \<Rightarrow> Some (None, h)
      | (Some X, h) \<Rightarrow> do {
          let (mp, h) = new_msg_part X h;
          let prepend = (if alloc_bytes \<le> std_buffer \<and> prepend > std_buffer - alloc_bytes then std_buffer - alloc_bytes else prepend);
          b \<leftarrow> mbufs h X;
          let sz = buffer_size b - prepend;
          let n = (if sz \<ge> alloc_bytes then alloc_bytes else sz);
          h \<leftarrow> upd_part mp (\<lambda>y. y\<lparr>mp_offset := prepend, mp_data_end := prepend + n\<rparr>) h;
          h \<leftarrow> copy_in X prepend data n h;
          Some (Some (mp, n, raw\<lparr>rm_first := Some mp, rm_last := Some mp, rm_first_offset := prepend,
            rm_total_bytes := n, rm_last_offset := n + prepend\<rparr>), h) })"

text \<open>The free bytes at the end of the last part; how many were used.\<close>

definition push_room :: "raw_message \<Rightarrow> bytes option \<Rightarrow> int \<Rightarrow> msg_heap \<Rightarrow> (nat \<times> int \<times> raw_message \<times> msg_heap) option" where
  "push_room raw data alloc_bytes h = do {
     mp \<leftarrow> rm_last raw;
     x \<leftarrow> mparts h mp;
     cassert (mp_next x = None \<and> rm_last_offset raw = mp_data_end x);
     b \<leftarrow> mbufs h (mp_part x);
     if mb_refcnt b = 1 then do {
       let sz = buffer_size b - rm_last_offset raw;
       cassert (0 \<le> sz \<and> sz \<le> buffer_size b);
       let n = (if sz \<ge> alloc_bytes then alloc_bytes else sz);
       h \<leftarrow> copy_in (mp_part x) (rm_last_offset raw) data n h;
       h \<leftarrow> upd_part mp (\<lambda>y. y\<lparr>mp_data_end := mp_data_end y + n\<rparr>) h;
       Some (mp, n, raw\<lparr>rm_total_bytes := rm_total_bytes raw + n, rm_last_offset := rm_last_offset raw + n\<rparr>, h) }
     else Some (mp, 0, raw, h) }"

definition rwm_push_data_ext ::
  "raw_message \<Rightarrow> bytes option \<Rightarrow> int \<Rightarrow> int \<Rightarrow> int \<Rightarrow> int \<Rightarrow> msg_heap \<Rightarrow> (int \<times> raw_message \<times> msg_heap) option" where
  "rwm_push_data_ext raw data alloc_bytes prepend small_buffer std_buffer h = do {
     cassert (rm_magic raw = RM_INIT_MAGIC);
     cassert (alloc_bytes \<ge> 0);
     if alloc_bytes = 0 then Some (0, raw, h)
     else if rm_first raw = None then do {
       (r, h) \<leftarrow> push_first raw data alloc_bytes prepend small_buffer std_buffer h;
       case r of
         None \<Rightarrow> Some (0, raw, h)
       | Some (mp, n, raw) \<Rightarrow> push_loop mp raw (data_advance n data) (alloc_bytes - n) n small_buffer std_buffer h }
     else do {
       (locked, raw, h) \<leftarrow> rwm_lock_last_part raw h;
       (mp, n, raw, h) \<leftarrow> push_room raw data alloc_bytes h;
       (res, raw, h) \<leftarrow> push_loop mp raw (data_advance n data) (alloc_bytes - n) n small_buffer std_buffer h;
       h \<leftarrow> unlock_part locked h;
       Some (res, raw, h) } }"

definition rwm_push_data :: "raw_message \<Rightarrow> bytes option \<Rightarrow> int \<Rightarrow> msg_heap \<Rightarrow> (int \<times> raw_message \<times> msg_heap) option" where
  "rwm_push_data raw data alloc_bytes h =
     rwm_push_data_ext raw data alloc_bytes RM_PREPEND_RESERVE MSG_SMALL_BUFFER MSG_STD_BUFFER h"

definition rwm_create :: "bytes option \<Rightarrow> int \<Rightarrow> msg_heap \<Rightarrow> (int \<times> raw_message \<times> msg_heap) option" where
  "rwm_create data alloc_bytes h = rwm_push_data (rm_zero\<lparr>rm_magic := RM_INIT_MAGIC\<rparr>) data alloc_bytes h"

definition rwm_init :: "int \<Rightarrow> msg_heap \<Rightarrow> (int \<times> raw_message \<times> msg_heap) option" where
  "rwm_init alloc_bytes h = rwm_create None alloc_bytes h"

text \<open>
  \<open>rwm_push_data_front\<close> fills the buffers from the back; \<open>alloc_bytes\<close> counts the bytes of \<open>data\<close> that are left. The bytes
  that the pointer \<open>data\<close> designates are a function of the message, as callers pass the address of its field \<open>total_bytes\<close>.
\<close>

partial_function (option) push_front_loop :: "raw_message \<Rightarrow> (raw_message \<Rightarrow> bytes) \<Rightarrow> int \<Rightarrow> msg_heap \<Rightarrow> (raw_message \<times> msg_heap) option" where
  "push_front_loop raw data alloc_bytes h =
     (if alloc_bytes \<noteq> 0 then
        case alloc_msg_buffer (if alloc_bytes \<ge> MSG_SMALL_BUFFER then MSG_STD_BUFFER else MSG_SMALL_BUFFER) h of
          (None, h) \<Rightarrow> None
        | (Some X, h) \<Rightarrow> do {
            let (c, h) = new_msg_part X h;
            b \<leftarrow> mbufs h X;
            let sz = buffer_size b;
            let n = (if alloc_bytes > sz then sz else alloc_bytes);
            h \<leftarrow> upd_part c (\<lambda>y. y\<lparr>mp_next := rm_first raw, mp_data_end := sz, mp_offset := sz - n\<rparr>) h;
            cassert (0 \<le> n \<and> n \<le> alloc_bytes \<and> alloc_bytes \<le> int (length (data raw)));
            h \<leftarrow> put_bytes X (sz - n) (take (nat n) (drop (nat (alloc_bytes - n)) (data raw))) h;
            let raw = raw\<lparr>rm_first := Some c, rm_total_bytes := rm_total_bytes raw + n\<rparr>;
            let raw = (if rm_last raw = None then raw\<lparr>rm_last := Some c, rm_last_offset := sz\<rparr> else raw);
            if alloc_bytes > sz then push_front_loop raw data (alloc_bytes - n) h
            else Some (raw\<lparr>rm_first_offset := sz - n\<rparr>, h) }
      else None)"

definition rwm_push_data_front :: "raw_message \<Rightarrow> (raw_message \<Rightarrow> bytes) \<Rightarrow> int \<Rightarrow> msg_heap \<Rightarrow> (int \<times> raw_message \<times> msg_heap) option" where
  "rwm_push_data_front raw data alloc_bytes h = do {
     cassert (rm_magic raw = RM_INIT_MAGIC);
     cassert (alloc_bytes \<ge> 0);
     if alloc_bytes = 0 then Some (0, raw, h)
     else case rm_first raw of
       None \<Rightarrow> do { (raw, h) \<leftarrow> push_front_loop raw data alloc_bytes h; Some (alloc_bytes, raw, h) }
     | Some f0 \<Rightarrow> do {
         (raw, h) \<leftarrow> rwm_lock_first_part raw h;
         f \<leftarrow> rm_first raw;
         x \<leftarrow> mparts h f;
         b \<leftarrow> mbufs h (mp_part x);
         if mb_refcnt b = 1 \<and> mp_refcnt x = 1 then do {
           let sz = rm_first_offset raw;
           let n = (if alloc_bytes > sz then sz else alloc_bytes);
           cassert (0 \<le> n \<and> alloc_bytes \<le> int (length (data raw)));
           h \<leftarrow> put_bytes (mp_part x) (sz - n) (take (nat n) (drop (nat (alloc_bytes - n)) (data raw))) h;
           let off = (if alloc_bytes > sz then 0 else mp_offset x - alloc_bytes);
           h \<leftarrow> upd_part f (\<lambda>y. y\<lparr>mp_offset := off\<rparr>) h;
           let raw = raw\<lparr>rm_first_offset := off, rm_total_bytes := rm_total_bytes raw + n\<rparr>;
           if alloc_bytes > sz then do {
             (raw, h) \<leftarrow> push_front_loop raw data (alloc_bytes - n) h;
             Some (alloc_bytes, raw, h) }
           else Some (alloc_bytes, raw, h) }
         else do {
           (raw, h) \<leftarrow> push_front_loop raw data alloc_bytes h;
           Some (alloc_bytes, raw, h) } } }"

section \<open>Reading\<close>

text \<open>
  \<open>rwm_process_ex\<close> gives the bytes from \<open>offset\<close> on to a callback, block by block, and then removes the bytes up to the last
  one processed, or those from \<open>offset\<close> on. The callback has a state of its own and may change the heap.

  The first loop finds the part that holds the position \<open>offset\<close>; its flag says that no part up to there is shared.
\<close>

type_synonym 'e block_fun = "'e \<Rightarrow> bytes \<Rightarrow> msg_heap \<Rightarrow> (int \<times> 'e \<times> msg_heap) option"

definition RMPF_ADVANCE :: nat where "RMPF_ADVANCE = 1"
definition RMPF_TRUNCATE :: nat where "RMPF_TRUNCATE = 2"

partial_function (option) process_seek ::
  "raw_message \<Rightarrow> nat option \<Rightarrow> bool \<Rightarrow> int \<Rightarrow> msg_heap \<Rightarrow> (nat \<times> bool \<times> int \<times> int) option" where
  "process_seek raw mp unshared offset h = do {
     p \<leftarrow> mp;
     x \<leftarrow> mparts h p;
     let unshared = (unshared \<and> mp_refcnt x = 1);
     let start = part_start raw p x;
     let len = part_end raw p x - start;
     if len \<ge> offset then Some (p, unshared, start + offset, len - offset)
     else process_seek raw (mp_next x) unshared (offset - len) h }"

text \<open>
  The second loop: the result of the callback, the last part visited, where the data processed in it begin and their length,
  whether no part up to there is shared.
\<close>

partial_function (option) process_blocks ::
  "('e \<Rightarrow> bytes \<Rightarrow> msg_heap \<Rightarrow> (int \<times> 'e \<times> msg_heap) option) \<Rightarrow> raw_message \<Rightarrow> nat \<Rightarrow> bool \<Rightarrow> int \<Rightarrow> int \<Rightarrow> int \<Rightarrow> 'e \<Rightarrow> msg_heap \<Rightarrow>
   (int \<times> nat \<times> bool \<times> int \<times> int \<times> 'e \<times> msg_heap) option" where
  "process_blocks process_block raw p unshared start len bytes extra h = do {
     x \<leftarrow> mparts h p;
     let n = (if len \<ge> bytes then bytes else len);
     (r, extra, h) \<leftarrow> (if n > 0 then do { d \<leftarrow> get_bytes (mp_part x) start n h; process_block extra d h } else Some (0, extra, h));
     if r < 0 \<or> len \<ge> bytes then Some (r, p, unshared, start, n, extra, h)
     else do {
       x \<leftarrow> mparts h p;
       q \<leftarrow> mp_next x;
       y \<leftarrow> mparts h q;
       let start = part_start raw q y;
       process_blocks process_block raw q (unshared \<and> mp_refcnt y = 1) start (part_end raw q y - start) (bytes - n) extra h } }"

definition advance_to :: "raw_message \<Rightarrow> nat \<Rightarrow> bool \<Rightarrow> int \<Rightarrow> int \<Rightarrow> msg_heap \<Rightarrow> (raw_message \<times> msg_heap) option" where
  "advance_to raw p unshared pos gone h =
     (if gone = rm_total_bytes raw then rwm_clear raw h
      else do {
        h \<leftarrow> (if rm_magic raw = RM_INIT_MAGIC \<and> rm_first raw \<noteq> Some p then do {
            h \<leftarrow> msg_part_incref p h;
            (cnt, h) \<leftarrow> msg_part_decref (rm_first raw) h;
            Some h }
          else Some h);
        h \<leftarrow> (if unshared \<and> rm_magic raw = RM_INIT_MAGIC then upd_part p (\<lambda>y. y\<lparr>mp_offset := pos\<rparr>) h else Some h);
        Some (raw\<lparr>rm_first := Some p, rm_first_offset := pos, rm_total_bytes := rm_total_bytes raw - gone\<rparr>, h) })"

definition truncate_at :: "raw_message \<Rightarrow> nat \<Rightarrow> bool \<Rightarrow> int \<Rightarrow> int \<Rightarrow> msg_heap \<Rightarrow> (raw_message \<times> msg_heap) option" where
  "truncate_at raw p unshared pos offset h =
     (if offset = 0 then rwm_clear raw h
      else do {
        let raw = raw\<lparr>rm_total_bytes := offset, rm_last := Some p, rm_last_offset := pos\<rparr>;
        if unshared then do {
          x \<leftarrow> mparts h p;
          h \<leftarrow> upd_part p (\<lambda>y. y\<lparr>mp_data_end := pos\<rparr>) h;
          (cnt, h) \<leftarrow> msg_part_decref (mp_next x) h;
          h \<leftarrow> upd_part p (\<lambda>y. y\<lparr>mp_next := None\<rparr>) h;
          Some (raw, h) }
        else Some (raw, h) })"

text \<open>The case in which all bytes from \<open>offset\<close> on are in the last part.\<close>

definition process_last ::
  "raw_message \<Rightarrow> nat \<Rightarrow> int \<Rightarrow> int \<Rightarrow> nat \<Rightarrow> 'e block_fun \<Rightarrow> 'e \<Rightarrow> msg_heap \<Rightarrow> (int \<times> raw_message \<times> 'e \<times> msg_heap) option" where
  "process_last raw l bytes offset flags process_block extra h = do {
     y \<leftarrow> mparts h l;
     let x = rm_total_bytes raw - offset;
     d \<leftarrow> get_bytes (mp_part y) (rm_last_offset raw - x) bytes h;
     (r, extra, h) \<leftarrow> process_block extra d h;
     if r \<ge> 0 then do {
       (raw, h) \<leftarrow> (if flags AND RMPF_ADVANCE \<noteq> 0 then do {
           h \<leftarrow> (if rm_magic raw = RM_INIT_MAGIC then do {
               h \<leftarrow> msg_part_incref l h;
               (cnt, h) \<leftarrow> msg_part_decref (rm_first raw) h;
               Some h }
             else Some h);
           Some (raw\<lparr>rm_first := Some l, rm_first_offset := rm_last_offset raw - x + bytes,
             rm_total_bytes := rm_total_bytes raw - (offset + bytes)\<rparr>, h) }
         else Some (raw, h));
       let raw = (if flags AND RMPF_TRUNCATE \<noteq> 0
         then raw\<lparr>rm_total_bytes := rm_total_bytes raw - x, rm_last_offset := rm_last_offset raw - x\<rparr> else raw);
       Some (bytes, raw, extra, h) }
     else Some (r, raw, extra, h) }"

definition process_chain ::
  "raw_message \<Rightarrow> int \<Rightarrow> int \<Rightarrow> nat \<Rightarrow> 'e block_fun \<Rightarrow> 'e \<Rightarrow> msg_heap \<Rightarrow> (int \<times> raw_message \<times> 'e \<times> msg_heap) option" where
  "process_chain raw bytes offset flags process_block extra h = do {
     (np, unshared, start, len) \<leftarrow> process_seek raw (rm_first raw) True offset h;
     (r, p, unshared2, start2, len2, extra, h) \<leftarrow> process_blocks process_block raw np unshared start len bytes extra h;
     if r < 0 then Some (r, raw, extra, h)
     else do {
       (raw, h) \<leftarrow> (if flags AND RMPF_ADVANCE \<noteq> 0 then advance_to raw p unshared2 (start2 + len2) (offset + bytes) h else Some (raw, h));
       (raw, h) \<leftarrow> (if flags AND RMPF_TRUNCATE \<noteq> 0 then truncate_at raw np unshared start offset h else Some (raw, h));
       (raw, h) \<leftarrow> (if rm_total_bytes raw = 0 then rwm_clear raw h else Some (raw, h));
       Some (bytes, raw, extra, h) } }"

definition rwm_process_ex ::
  "raw_message \<Rightarrow> int \<Rightarrow> int \<Rightarrow> nat \<Rightarrow> 'e block_fun \<Rightarrow> 'e \<Rightarrow> msg_heap \<Rightarrow> (int \<times> raw_message \<times> 'e \<times> msg_heap) option" where
  "rwm_process_ex raw bytes offset flags process_block extra h = do {
     cassert (rm_live raw);
     cassert (bytes \<ge> 0);
     cassert (offset \<ge> 0);
     let bytes = (if bytes + offset > rm_total_bytes raw then rm_total_bytes raw - offset else bytes);
     if bytes \<le> 0 then Some (0, raw, extra, h)
     else do {
       l \<leftarrow> rm_last raw;
       y \<leftarrow> mparts h l;
       if rm_total_bytes raw - offset \<le> rm_last_offset raw - mp_offset y
       then process_last raw l bytes offset flags process_block extra h
       else process_chain raw bytes offset flags process_block extra h } }"

text \<open>The callbacks that copy and that do nothing; the bytes copied are collected.\<close>

definition rwm_process_memcpy :: "bytes block_fun" where
  "rwm_process_memcpy extra data h = Some (0, extra @ data, h)"

definition rwm_process_nop :: "bytes block_fun" where
  "rwm_process_nop extra data h = Some (0, extra, h)"

definition rwm_process_and_advance ::
  "raw_message \<Rightarrow> int \<Rightarrow> 'e block_fun \<Rightarrow> 'e \<Rightarrow> msg_heap \<Rightarrow> (int \<times> raw_message \<times> 'e \<times> msg_heap) option" where
  "rwm_process_and_advance raw bytes = rwm_process_ex raw bytes 0 RMPF_ADVANCE"

definition rwm_process ::
  "raw_message \<Rightarrow> int \<Rightarrow> 'e block_fun \<Rightarrow> 'e \<Rightarrow> msg_heap \<Rightarrow> (int \<times> raw_message \<times> 'e \<times> msg_heap) option" where
  "rwm_process raw bytes = rwm_process_ex raw bytes 0 0"

definition rwm_process_from_offset ::
  "raw_message \<Rightarrow> int \<Rightarrow> int \<Rightarrow> 'e block_fun \<Rightarrow> 'e \<Rightarrow> msg_heap \<Rightarrow> (int \<times> raw_message \<times> 'e \<times> msg_heap) option" where
  "rwm_process_from_offset raw bytes offset = rwm_process_ex raw bytes offset 0"

definition rwm_fetch_data :: "raw_message \<Rightarrow> int \<Rightarrow> msg_heap \<Rightarrow> (int \<times> raw_message \<times> bytes \<times> msg_heap) option" where
  "rwm_fetch_data raw bytes h = rwm_process_and_advance raw bytes rwm_process_memcpy [] h"

definition rwm_skip_data :: "raw_message \<Rightarrow> int \<Rightarrow> msg_heap \<Rightarrow> (int \<times> raw_message \<times> bytes \<times> msg_heap) option" where
  "rwm_skip_data raw bytes h = rwm_process_and_advance raw bytes rwm_process_nop [] h"

definition rwm_fetch_lookup :: "raw_message \<Rightarrow> int \<Rightarrow> msg_heap \<Rightarrow> (int \<times> raw_message \<times> bytes \<times> msg_heap) option" where
  "rwm_fetch_lookup raw bytes h = rwm_process raw bytes rwm_process_memcpy [] h"

definition rwm_fetch_data_back :: "raw_message \<Rightarrow> int \<Rightarrow> msg_heap \<Rightarrow> (int \<times> raw_message \<times> bytes \<times> msg_heap) option" where
  "rwm_fetch_data_back raw bytes h = do {
     cassert (rm_live raw);
     let bytes = (if bytes > rm_total_bytes raw then rm_total_bytes raw else bytes);
     cassert (bytes \<ge> 0);
     if bytes = 0 then Some (0, raw, [], h)
     else rwm_process_ex raw bytes (rm_total_bytes raw - bytes) RMPF_TRUNCATE rwm_process_memcpy [] h }"

definition rwm_fetch_lookup_back :: "raw_message \<Rightarrow> int \<Rightarrow> msg_heap \<Rightarrow> (int \<times> raw_message \<times> bytes \<times> msg_heap) option" where
  "rwm_fetch_lookup_back raw bytes h = do {
     cassert (rm_live raw);
     let bytes = (if bytes > rm_total_bytes raw then rm_total_bytes raw else bytes);
     cassert (bytes \<ge> 0);
     if bytes = 0 then Some (0, raw, [], h)
     else rwm_process_ex raw bytes (rm_total_bytes raw - bytes) 0 rwm_process_memcpy [] h }"

definition rwm_trunc :: "raw_message \<Rightarrow> int \<Rightarrow> msg_heap \<Rightarrow> (int \<times> raw_message \<times> msg_heap) option" where
  "rwm_trunc raw len h = do {
     cassert (rm_live raw);
     if len \<ge> rm_total_bytes raw then Some (rm_total_bytes raw, raw, h)
     else do {
       (r, raw, d, h) \<leftarrow> rwm_fetch_data_back raw (rm_total_bytes raw - len) h;
       Some (len, raw, h) } }"

section \<open>Splitting and joining\<close>

text \<open>\<open>rwm_split\<close> keeps the first \<open>bytes\<close> bytes in \<open>raw\<close>; the rest becomes \<open>tail\<close>, a structure
  of the caller that it fills in. The loop finds the part where it is cut.\<close>

partial_function (option) split_seek :: "raw_message \<Rightarrow> nat option \<Rightarrow> int \<Rightarrow> msg_heap \<Rightarrow> (nat \<times> int) option" where
  "split_seek raw mp bytes h = do {
     p \<leftarrow> mp;
     x \<leftarrow> mparts h p;
     let sz = part_end raw p x - part_start raw p x;
     if sz < bytes then split_seek raw (mp_next x) (bytes - sz) h
     else Some (p, part_start raw p x + bytes) }"

definition rwm_split :: "raw_message \<Rightarrow> raw_message \<Rightarrow> int \<Rightarrow> msg_heap \<Rightarrow> (int \<times> raw_message \<times> raw_message \<times> msg_heap) option" where
  "rwm_split raw tail bytes h = do {
     cassert (rm_live raw);
     cassert (bytes \<ge> 0);
     let tail = tail\<lparr>rm_magic := rm_magic raw\<rparr>;
     if bytes \<ge> rm_total_bytes raw
     then Some (if bytes = rm_total_bytes raw then 0 else -1, raw, rwm_clean tail, h)
     else do {
       l \<leftarrow> rm_last raw;
       y \<leftarrow> mparts h l;
       if rm_total_bytes raw - bytes \<le> rm_last_offset raw - mp_offset y then do {
         let s = rm_total_bytes raw - bytes;
         h \<leftarrow> (if rm_magic raw = RM_INIT_MAGIC then msg_part_incref l h else Some h);
         Some (0, raw\<lparr>rm_last_offset := rm_last_offset raw - s, rm_total_bytes := rm_total_bytes raw - s\<rparr>,
           tail\<lparr>rm_first := Some l, rm_last := Some l, rm_first_offset := rm_last_offset raw - s,
             rm_last_offset := rm_last_offset raw, rm_total_bytes := s\<rparr>, h) }
       else do {
         let tail = tail\<lparr>rm_total_bytes := rm_total_bytes raw - bytes\<rparr>;
         if bytes = 0 then Some (0, raw\<lparr>rm_total_bytes := 0\<rparr>, tail, h)
         else do {
           (p, pos) \<leftarrow> split_seek raw (rm_first raw) bytes h;
           h \<leftarrow> (if rm_magic raw = RM_INIT_MAGIC then msg_part_incref p h else Some h);
           Some (0, raw\<lparr>rm_total_bytes := bytes, rm_last := Some p, rm_last_offset := pos\<rparr>,
             tail\<lparr>rm_first := Some p, rm_last := rm_last raw, rm_first_offset := pos, rm_last_offset := rm_last_offset raw\<rparr>, h) } } } }"

text \<open>\<open>rwm_split_head\<close>: the first \<open>bytes\<close> bytes become \<open>head\<close>, the rest stays in \<open>raw\<close>; the result in this order.\<close>

definition rwm_split_head :: "raw_message \<Rightarrow> int \<Rightarrow> msg_heap \<Rightarrow> (int \<times> raw_message \<times> raw_message \<times> msg_heap) option" where
  "rwm_split_head raw bytes h = do {
     cassert (rm_live raw);
     rwm_split raw raw bytes h }"

text \<open>\<open>rwm_union\<close>: \<open>raw\<close> and what becomes of \<open>tail\<close>.\<close>

definition rwm_union :: "raw_message \<Rightarrow> raw_message \<Rightarrow> msg_heap \<Rightarrow> (raw_message \<times> raw_message \<times> msg_heap) option" where
  "rwm_union raw tail h = do {
     cassert (rm_magic raw = RM_INIT_MAGIC);
     if rm_last raw = None then Some (tail, tail\<lparr>rm_magic := RM_NO_MAGIC\<rparr>, h)
     else do {
       (locked, raw, tail, h) \<leftarrow> (if rm_first tail \<noteq> None then do {
           (locked, raw, h) \<leftarrow> rwm_lock_last_part raw h;
           (l2, tail, h) \<leftarrow> rwm_lock_last_part tail h;
           h \<leftarrow> unlock_part l2 h;
           (tail, h) \<leftarrow> rwm_lock_first_part tail h;
           l \<leftarrow> rm_last raw;
           f \<leftarrow> rm_first tail;
           h \<leftarrow> upd_part l (\<lambda>y. y\<lparr>mp_next := Some f\<rparr>) h;
           h \<leftarrow> msg_part_incref f h;
           Some (locked, raw\<lparr>rm_last_offset := rm_last_offset tail, rm_last := rm_last tail,
             rm_total_bytes := rm_total_bytes raw + rm_total_bytes tail\<rparr>, tail, h) }
         else Some (None, raw, tail, h));
       (cnt, tail, h) \<leftarrow> rwm_free tail h;
       h \<leftarrow> unlock_part locked h;
       Some (raw, tail, h) } }"

section \<open>Other operations\<close>

text \<open>The pointers that \<open>rwm_prepend_alloc\<close> and \<open>rwm_postpone_alloc\<close> return are a buffer and a position.\<close>

definition rwm_prepend_alloc :: "raw_message \<Rightarrow> int \<Rightarrow> msg_heap \<Rightarrow> ((nat \<times> int) option \<times> raw_message \<times> msg_heap) option" where
  "rwm_prepend_alloc raw alloc_bytes h = do {
     cassert (rm_magic raw = RM_INIT_MAGIC);
     cassert (alloc_bytes \<ge> 0);
     if alloc_bytes = 0 \<or> alloc_bytes > MSG_STD_BUFFER then Some (None, raw, h)
     else if rm_first raw = None then do {
       (r, raw, h) \<leftarrow> rwm_push_data raw None alloc_bytes h;
       cassert (rm_first raw = rm_last raw);
       cassert (rm_total_bytes raw = alloc_bytes);
       f \<leftarrow> rm_first raw;
       x \<leftarrow> mparts h f;
       Some (Some (mp_part x, rm_first_offset raw), raw, h) }
     else do {
       (raw, h) \<leftarrow> rwm_lock_first_part raw h;
       f \<leftarrow> rm_first raw;
       x \<leftarrow> mparts h f;
       cassert (rm_first_offset raw = mp_offset x);
       b \<leftarrow> mbufs h (mp_part x);
       if mp_refcnt x = 1 \<and> mp_offset x \<ge> alloc_bytes \<and> mb_refcnt b = 1 then do {
         h \<leftarrow> upd_part f (\<lambda>y. y\<lparr>mp_offset := mp_offset y - alloc_bytes\<rparr>) h;
         let raw = raw\<lparr>rm_first_offset := rm_first_offset raw - alloc_bytes, rm_total_bytes := rm_total_bytes raw + alloc_bytes\<rparr>;
         Some (Some (mp_part x, rm_first_offset raw), raw, h) }
       else case alloc_msg_buffer alloc_bytes h of
         (None, h) \<Rightarrow> None
       | (Some X, h) \<Rightarrow> do {
           b \<leftarrow> mbufs h X;
           cassert (buffer_size b \<ge> alloc_bytes);
           let (c, h) = new_msg_part X h;
           h \<leftarrow> upd_part c (\<lambda>y. y\<lparr>mp_next := rm_first raw, mp_data_end := buffer_size b, mp_offset := buffer_size b - alloc_bytes\<rparr>) h;
           Some (Some (X, buffer_size b - alloc_bytes), raw\<lparr>rm_first := Some c, rm_first_offset := buffer_size b - alloc_bytes,
             rm_total_bytes := rm_total_bytes raw + alloc_bytes\<rparr>, h) } } }"

definition rwm_postpone_alloc :: "raw_message \<Rightarrow> int \<Rightarrow> msg_heap \<Rightarrow> ((nat \<times> int) option \<times> raw_message \<times> msg_heap) option" where
  "rwm_postpone_alloc raw alloc_bytes h = do {
     cassert (rm_magic raw = RM_INIT_MAGIC);
     cassert (alloc_bytes \<ge> 0);
     if alloc_bytes = 0 \<or> alloc_bytes > MSG_STD_BUFFER then Some (None, raw, h)
     else if rm_first raw = None then do {
       (r, raw, h) \<leftarrow> rwm_push_data raw None alloc_bytes h;
       cassert (rm_first raw = rm_last raw);
       cassert (rm_total_bytes raw = alloc_bytes);
       f \<leftarrow> rm_first raw;
       x \<leftarrow> mparts h f;
       Some (Some (mp_part x, rm_first_offset raw), raw, h) }
     else do {
       (locked, raw, h) \<leftarrow> rwm_lock_last_part raw h;
       mp \<leftarrow> rm_last raw;
       x \<leftarrow> mparts h mp;
       b \<leftarrow> mbufs h (mp_part x);
       if buffer_size b - mp_data_end x \<ge> alloc_bytes \<and> mb_refcnt b = 1 then do {
         h \<leftarrow> upd_part mp (\<lambda>y. y\<lparr>mp_data_end := mp_data_end y + alloc_bytes\<rparr>) h;
         h \<leftarrow> unlock_part locked h;
         Some (Some (mp_part x, mp_data_end x), raw\<lparr>rm_total_bytes := rm_total_bytes raw + alloc_bytes,
           rm_last_offset := rm_last_offset raw + alloc_bytes\<rparr>, h) }
       else case alloc_msg_buffer alloc_bytes h of
         (None, h) \<Rightarrow> None
       | (Some X, h) \<Rightarrow> do {
           b \<leftarrow> mbufs h X;
           cassert (buffer_size b \<ge> alloc_bytes);
           let (c, h) = new_msg_part X h;
           h \<leftarrow> upd_part mp (\<lambda>y. y\<lparr>mp_next := Some c\<rparr>) h;
           h \<leftarrow> upd_part c (\<lambda>y. y\<lparr>mp_data_end := alloc_bytes\<rparr>) h;
           h \<leftarrow> unlock_part locked h;
           Some (Some (X, 0), raw\<lparr>rm_last := Some c, rm_last_offset := alloc_bytes,
             rm_total_bytes := rm_total_bytes raw + alloc_bytes\<rparr>, h) } } }"

text \<open>\<open>rwm_prepare_iovec\<close>: the vectors are buffer, position and length; \<open>None\<close> inside is the result \<open>-1\<close>.\<close>

partial_function (option) iovec_loop ::
  "raw_message \<Rightarrow> nat option \<Rightarrow> int \<Rightarrow> int \<Rightarrow> int \<Rightarrow> int \<Rightarrow> msg_heap \<Rightarrow> (nat \<times> int \<times> int) list option option" where
  "iovec_loop raw mp first_offset iov_len bytes left h =
     (if bytes > 0 then do {
        p \<leftarrow> mp;
        if iov_len = 0 then Some None
        else do {
          x \<leftarrow> mparts h p;
          let sz = part_end raw p x - first_offset;
          if bytes < sz then Some (Some [(mp_part x, first_offset, bytes)])
          else case mp_next x of
            None \<Rightarrow> do {
              cassert (rm_last raw = Some p \<and> bytes - sz = 0 \<and> left - sz = 0);
              Some (Some [(mp_part x, first_offset, sz)]) }
          | Some q \<Rightarrow> do {
              y \<leftarrow> mparts h q;
              r \<leftarrow> iovec_loop raw (Some q) (mp_offset y) (iov_len - 1) (bytes - sz) (left - sz) h;
              Some (map_option (Cons (mp_part x, first_offset, sz)) r) } } }
      else Some (Some []))"

definition rwm_prepare_iovec :: "raw_message \<Rightarrow> int \<Rightarrow> int \<Rightarrow> msg_heap \<Rightarrow> (nat \<times> int \<times> int) list option option" where
  "rwm_prepare_iovec raw iov_len bytes h = do {
     cassert (rm_live raw);
     let bytes = (if bytes > rm_total_bytes raw then rm_total_bytes raw else bytes);
     cassert (bytes \<ge> 0);
     iovec_loop raw (rm_first raw) (rm_first_offset raw) iov_len bytes (rm_total_bytes raw) h }"

text \<open>\<open>rwm_check\<close>, the consistency check of the code.\<close>

partial_function (option) check_loop :: "raw_message \<Rightarrow> nat option \<Rightarrow> int \<Rightarrow> msg_heap \<Rightarrow> int option" where
  "check_loop raw mp left h = do {
     p \<leftarrow> mp;
     x \<leftarrow> mparts h p;
     b \<leftarrow> mbufs h (mp_part x);
     cassert (mp_offset x \<ge> 0 \<and> mp_data_end x \<le> buffer_size b);
     let left = left + (part_end raw p x - part_start raw p x);
     if rm_last raw = Some p then Some left else check_loop raw (mp_next x) left h }"

definition rwm_check :: "raw_message \<Rightarrow> msg_heap \<Rightarrow> int option" where
  "rwm_check raw h = do {
     cassert (rm_live raw);
     case rm_first raw of
       None \<Rightarrow> do { cassert (rm_total_bytes raw = 0); Some 0 }
     | Some f \<Rightarrow> do {
         x \<leftarrow> mparts h f;
         l \<leftarrow> rm_last raw;
         y \<leftarrow> mparts h l;
         cassert (rm_first_offset raw \<ge> mp_offset x);
         cassert (rm_last_offset raw \<le> mp_data_end y);
         total_size \<leftarrow> check_loop raw (Some f) 0 h;
         cassert (total_size = rm_total_bytes raw);
         Some 0 } }"

text \<open>
  \<open>rwm_get_block_ptr_bytes\<close>: parts without data at the front are dropped. The next part is read from the part that was just
  released, \<open>mp = mp->next\<close> after \<open>msg_part_decref (mp)\<close>.
\<close>

partial_function (option) block_ptr_loop :: "raw_message \<Rightarrow> nat option \<Rightarrow> msg_heap \<Rightarrow> (int \<times> raw_message \<times> msg_heap) option" where
  "block_ptr_loop raw mp h = do {
     p \<leftarrow> mp;
     x \<leftarrow> mparts h p;
     let bytes = part_end raw p x - rm_first_offset raw;
     if bytes \<noteq> 0 then Some (bytes, raw, h)
     else do {
       cassert (rm_last raw \<noteq> Some p);
       let raw = raw\<lparr>rm_first := mp_next x\<rparr>;
       n \<leftarrow> mp_next x;
       h \<leftarrow> (if mp_refcnt x = 1 then upd_part p (\<lambda>y. y\<lparr>mp_next := None\<rparr>) h else msg_part_incref n h);
       (cnt, h) \<leftarrow> msg_part_decref (Some p) h;
       y \<leftarrow> mparts h n;
       let raw = raw\<lparr>rm_first_offset := mp_offset y\<rparr>;
       x \<leftarrow> mparts h p;
       block_ptr_loop raw (mp_next x) h } }"

definition rwm_get_block_ptr_bytes :: "raw_message \<Rightarrow> msg_heap \<Rightarrow> (int \<times> raw_message \<times> msg_heap) option" where
  "rwm_get_block_ptr_bytes raw h =
     (if rm_total_bytes raw = 0 then Some (0, raw, h) else block_ptr_loop raw (rm_first raw) h)"

definition int_bytes :: "int \<Rightarrow> bytes" where
  "int_bytes i = map (\<lambda>k. word_of_int (i div 2 ^ (8 * k))) [0, 1, 2, 3]"

definition rwm_to_tl_string :: "raw_message \<Rightarrow> msg_heap \<Rightarrow> (raw_message \<times> msg_heap) option" where
  "rwm_to_tl_string raw h = do {
     cassert (rm_magic raw = RM_INIT_MAGIC);
     (raw, h) \<leftarrow> (if rm_total_bytes raw < 0xfe then do {
         (r, raw, h) \<leftarrow> rwm_push_data_front raw (\<lambda>raw. int_bytes (rm_total_bytes raw)) 1 h;
         cassert (r = 1);
         Some (raw, h) }
       else do {
         (r, raw, h) \<leftarrow> rwm_push_data_front raw (\<lambda>raw. int_bytes (rm_total_bytes raw)) 3 h;
         cassert (r = 3);
         (r, raw, h) \<leftarrow> rwm_push_data_front raw (\<lambda>raw. int_bytes 0xfe) 1 h;
         cassert (r = 1);
         Some (raw, h) });
     let pad = (- rm_total_bytes raw) AND 3;
     if pad \<noteq> 0 then do {
       (r, raw, h) \<leftarrow> rwm_push_data raw (Some (int_bytes 0)) pad h;
       cassert (r = pad);
       Some (raw, h) }
     else Some (raw, h) }"

definition bytes_int :: "bytes \<Rightarrow> int" where
  "bytes_int bs = (\<Sum>k<length bs. uint (bs ! k) * 2 ^ (8 * k))"

definition rwm_from_tl_string :: "raw_message \<Rightarrow> msg_heap \<Rightarrow> (raw_message \<times> msg_heap) option" where
  "rwm_from_tl_string raw h = do {
     cassert (rm_magic raw = RM_INIT_MAGIC);
     cassert (rm_total_bytes raw > 0);
     (r, raw, d, h) \<leftarrow> rwm_fetch_data raw 1 h;
     cassert (r = 1);
     let x = bytes_int d;
     cassert (x \<noteq> 0xff);
     (x, raw, h) \<leftarrow> (if x = 0xfe then do {
         cassert (rm_total_bytes raw \<ge> 3);
         (r, raw, d, h) \<leftarrow> rwm_fetch_data raw 3 h;
         cassert (r = 3);
         Some (bytes_int d, raw, h) }
       else Some (x, raw, h));
     cassert (rm_total_bytes raw \<ge> x);
     (r, raw, h) \<leftarrow> rwm_trunc raw x h;
     Some (raw, h) }"

end
