(* ===== verification/MsgHeap.thy ===== *)
theory MsgHeap
  imports NetMsg
begin

text \<open>
  The invariant of the heap of message parts. Reference counts are exact: the count of a part is the number of parts whose
  \<open>next\<close> it is plus the number \<open>R p\<close> of references from messages, the count of a buffer is the number of parts in it. The
  steps of which the operations on messages are made are shown to keep the invariant and, for the parts that
  messages counted in \<open>R\<close> can reach, everything these messages can see.
\<close>

section \<open>Links and counts\<close>

definition nxt :: "msg_heap \<Rightarrow> nat \<Rightarrow> nat option" where
  "nxt h p = (case mparts h p of None \<Rightarrow> None | Some x \<Rightarrow> mp_next x)"

definition preds :: "msg_heap \<Rightarrow> nat \<Rightarrow> nat set" where
  "preds h p = {q. nxt h q = Some p}"

definition users :: "msg_heap \<Rightarrow> nat \<Rightarrow> nat set" where
  "users h b = {p. \<exists>x. mparts h p = Some x \<and> mp_part x = b}"

definition part_ok :: "msg_heap \<Rightarrow> (nat \<Rightarrow> nat) \<Rightarrow> nat set \<Rightarrow> nat \<Rightarrow> msg_part \<Rightarrow> bool" where
  "part_ok h R L p x \<longleftrightarrow> (mp_locked x \<longleftrightarrow> p \<in> L) \<and> 0 \<le> mp_offset x \<and> mp_offset x \<le> mp_data_end x \<and>
     (\<exists>y. mbufs h (mp_part x) = Some y \<and> mp_data_end x \<le> buffer_size y) \<and>
     (\<forall>q. mp_next x = Some q \<longrightarrow> q \<in> dom (mparts h)) \<and>
     mp_refcnt x = int (R p + card (preds h p)) \<and> mp_refcnt x > 0"

definition heap_ok :: "msg_heap \<Rightarrow> (nat \<Rightarrow> nat) \<Rightarrow> nat set \<Rightarrow> bool" where
  "heap_ok h R L \<longleftrightarrow> finite (dom (mparts h)) \<and> (\<forall>p. mparts h p \<noteq> None \<longrightarrow> p < mh_fresh h) \<and>
     (\<forall>b. mbufs h b \<noteq> None \<longrightarrow> b < mh_fresh h) \<and>
     (\<forall>p x. mparts h p = Some x \<longrightarrow> part_ok h R L p x) \<and>
     (\<forall>b y. mbufs h b = Some y \<longrightarrow> mb_refcnt y = int (card (users h b)) \<and> users h b \<noteq> {}) \<and>
     (\<forall>p. R p > 0 \<longrightarrow> mparts h p \<noteq> None) \<and>
     (\<forall>p. mparts h p \<noteq> None \<longrightarrow> (\<exists>cs. chain (nxt h) (Some p) cs))"

lemma heap_okD:
  assumes "heap_ok h R L"
  shows "finite (dom (mparts h))" "mparts h p \<noteq> None \<Longrightarrow> p < mh_fresh h" "mbufs h b \<noteq> None \<Longrightarrow> b < mh_fresh h"
    "mparts h p = Some x \<Longrightarrow> part_ok h R L p x"
    "mbufs h b = Some y \<Longrightarrow> mb_refcnt y = int (card (users h b)) \<and> users h b \<noteq> {}"
    "R p > 0 \<Longrightarrow> mparts h p \<noteq> None" "mparts h p \<noteq> None \<Longrightarrow> \<exists>cs. chain (nxt h) (Some p) cs"
  using assms unfolding heap_ok_def by blast+

lemma part_okD:
  assumes "part_ok h R L p x"
  shows "mp_locked x \<longleftrightarrow> p \<in> L" "0 \<le> mp_offset x" "mp_offset x \<le> mp_data_end x"
    "\<exists>y. mbufs h (mp_part x) = Some y \<and> mp_data_end x \<le> buffer_size y"
    "mp_next x = Some q \<Longrightarrow> \<exists>z. mparts h q = Some z"
    "mp_refcnt x = int (R p + card (preds h p))" "mp_refcnt x > 0"
  using assms unfolding part_ok_def by blast+

lemma nxt_Some: "nxt h p = Some q \<longleftrightarrow> (\<exists>x. mparts h p = Some x \<and> mp_next x = Some q)"
  by (auto simp: nxt_def split: option.split)

lemma preds_sub: "preds h p \<subseteq> dom (mparts h)"
  by (auto simp: preds_def nxt_Some)

lemma users_sub: "users h b \<subseteq> dom (mparts h)"
  by (auto simp: users_def)

lemma finite_preds: "heap_ok h R L \<Longrightarrow> finite (preds h p)"
  using heap_okD(1) preds_sub finite_subset by metis

lemma finite_users: "heap_ok h R L \<Longrightarrow> finite (users h b)"
  using heap_okD(1) users_sub finite_subset by metis

lemma chain_distinct: "chain nx p cs \<Longrightarrow> distinct cs"
proof (induction cs arbitrary: p)
  case (Cons c cs)
  have "c \<notin> set cs"
  proof
    assume "c \<in> set cs"
    then obtain us vs where cs: "cs = us @ c # vs" using split_list by metis
    then have "chain nx (Some c) (c # vs)" using Cons.prems chain_drop [of nx p "c # us" c vs] by simp
    moreover have "chain nx (Some c) (c # us @ c # vs)" using Cons.prems cs by simp
    ultimately have "c # vs = c # us @ c # vs" using chain_det by blast
    then show False by simp
  qed
  then show ?case using Cons by auto
qed simp

section \<open>What messages can reach\<close>

inductive_set mreach :: "msg_heap \<Rightarrow> (nat \<Rightarrow> nat) \<Rightarrow> nat set" for h R where
  mreach_ref: "R p > 0 \<Longrightarrow> p \<in> mreach h R"
| mreach_next: "q \<in> mreach h R \<Longrightarrow> nxt h q = Some p \<Longrightarrow> p \<in> mreach h R"

lemma mreach_closed:
  assumes H: "heap_ok h R L" and p: "p \<in> mreach h R'" and R: "\<And>p. R' p > 0 \<Longrightarrow> mparts h p \<noteq> None"
  shows "mparts h p \<noteq> None"
  using p
proof (induction rule: mreach.induct)
  case (mreach_next q p)
  then obtain x where x: "mparts h q = Some x" "mp_next x = Some p" using nxt_Some by blast
  then show ?case using part_okD(5) [OF heap_okD(4) [OF H x(1)] x(2)] by simp
qed (rule R)

lemma mreach_dom:
  assumes H: "heap_ok h R L" and p: "p \<in> mreach h R'" and le: "\<And>p. R' p \<le> R p"
  shows "mparts h p \<noteq> None"
  using mreach_closed [OF H p] heap_okD(6) [OF H] le by (metis order_less_le_trans)

lemma mreach_mono: "p \<in> mreach h R \<Longrightarrow> (\<And>q. R q \<le> R' q) \<Longrightarrow> p \<in> mreach h R'"
proof (induction rule: mreach.induct)
  case (mreach_ref p)
  then show ?case by (metis mreach.mreach_ref order_less_le_trans)
next
  case (mreach_next q p)
  then show ?case using mreach.mreach_next by blast
qed

lemma mreach_links:
  assumes "p \<in> mreach h R" "\<And>q r. q \<in> mreach h R \<Longrightarrow> nxt h q = Some r \<Longrightarrow> nxt h' q = Some r"
  shows "p \<in> mreach h' R"
  using assms(1) by induction (auto intro: mreach.intros assms(2))

text \<open>
  A part looks the same to a message: it may only have got longer, or got a successor, at its end, and then it was the end of
  its chain.
\<close>

definition same_view :: "msg_heap \<Rightarrow> msg_heap \<Rightarrow> nat \<Rightarrow> bool" where
  "same_view h h' p \<longleftrightarrow> (\<exists>x x' y y'. mparts h p = Some x \<and> mparts h' p = Some x' \<and> mp_part x' = mp_part x \<and>
     mp_offset x' = mp_offset x \<and> mp_data_end x \<le> mp_data_end x' \<and>
     (mp_next x' = mp_next x \<and> mp_data_end x' = mp_data_end x \<or> mp_next x = None) \<and>
     mbufs h (mp_part x) = Some y \<and> mbufs h' (mp_part x) = Some y' \<and>
     take (nat (mp_data_end x)) (mb_data y') = take (nat (mp_data_end x)) (mb_data y))"

definition mframe :: "msg_heap \<Rightarrow> (nat \<Rightarrow> nat) \<Rightarrow> msg_heap \<Rightarrow> bool" where
  "mframe h R h' \<longleftrightarrow> (\<forall>p\<in>mreach h R. same_view h h' p)"

lemma same_view_refl: "heap_ok h R L \<Longrightarrow> mparts h p \<noteq> None \<Longrightarrow> same_view h h p"
  using part_okD(4) [OF heap_okD(4)] by (fastforce simp: same_view_def)

lemma same_view_next: "same_view h h' p \<Longrightarrow> nxt h p = Some q \<Longrightarrow> nxt h' p = Some q"
  by (auto simp: same_view_def nxt_def)

lemma same_view_trans:
  assumes "same_view h h' p" "same_view h' h'' p"
  shows "same_view h h'' p"
proof -
  obtain x x' y y' where 1: "mparts h p = Some x" "mparts h' p = Some x'" "mp_part x' = mp_part x" "mp_offset x' = mp_offset x"
    "mp_data_end x \<le> mp_data_end x'" "mp_next x' = mp_next x \<and> mp_data_end x' = mp_data_end x \<or> mp_next x = None"
    "mbufs h (mp_part x) = Some y" "mbufs h' (mp_part x) = Some y'"
    "take (nat (mp_data_end x)) (mb_data y') = take (nat (mp_data_end x)) (mb_data y)"
    using assms(1) unfolding same_view_def by blast
  obtain x'' y'' where 2: "mparts h'' p = Some x''" "mp_part x'' = mp_part x'" "mp_offset x'' = mp_offset x'"
    "mp_data_end x' \<le> mp_data_end x''" "mp_next x'' = mp_next x' \<and> mp_data_end x'' = mp_data_end x' \<or> mp_next x' = None"
    "mbufs h'' (mp_part x') = Some y''" "take (nat (mp_data_end x')) (mb_data y'') = take (nat (mp_data_end x')) (mb_data y')"
    using assms(2) 1(2,3,8) unfolding same_view_def by auto
  have "nat (mp_data_end x) \<le> nat (mp_data_end x')" using 1(5) by simp
  then have "take (nat (mp_data_end x)) (mb_data y'') = take (nat (mp_data_end x)) (mb_data y)"
    using 1(9) 2(7) by (metis min.absorb1 take_take)
  then show ?thesis
    unfolding same_view_def using 1 2
    by (intro exI [of _ x] exI [of _ x''] exI [of _ y] exI [of _ y'']) auto
qed

lemma frame_refl: "heap_ok h R L \<Longrightarrow> (\<And>p. R' p \<le> R p) \<Longrightarrow> mframe h R' h"
  unfolding mframe_def using mreach_dom same_view_refl by metis

lemma frame_reach: "mframe h R h' \<Longrightarrow> mreach h R \<subseteq> mreach h' R"
  unfolding mframe_def using mreach_links [of _ h R h'] same_view_next by blast

lemma frame_trans: "mframe h R h' \<Longrightarrow> mframe h' R h'' \<Longrightarrow> mframe h R h''"
  using frame_reach [of h R h'] same_view_trans [of h h' _ h''] unfolding mframe_def by blast

lemma frame_mono: "mframe h R h' \<Longrightarrow> (\<And>p. R' p \<le> R p) \<Longrightarrow> mframe h R' h'"
  unfolding mframe_def using mreach_mono by blast

section \<open>Counting references\<close>

definition plus_ref :: "nat option \<Rightarrow> (nat \<Rightarrow> nat) \<Rightarrow> nat \<Rightarrow> nat" where
  "plus_ref r R = (case r of None \<Rightarrow> R | Some p \<Rightarrow> R(p := R p + 1))"

lemma plus_ref_simps [simp]: "plus_ref None R = R" "plus_ref (Some p) R = R(p := R p + 1)"
  by (simp_all add: plus_ref_def)

lemma plus_ref_le: "R q \<le> plus_ref r R q"
  by (cases r) auto

text \<open>Only counts changed, and some parts and buffers are gone.\<close>

definition trimmed :: "msg_heap \<Rightarrow> msg_heap \<Rightarrow> bool" where
  "trimmed h h' \<longleftrightarrow> (\<forall>p x'. mparts h' p = Some x' \<longrightarrow> (\<exists>x. mparts h p = Some x \<and> x' = x\<lparr>mp_refcnt := mp_refcnt x'\<rparr>)) \<and>
     (\<forall>b y'. mbufs h' b = Some y' \<longrightarrow> (\<exists>y. mbufs h b = Some y \<and> mb_data y' = mb_data y)) \<and>
     mh_fresh h' = mh_fresh h \<and> mh_fails h' = mh_fails h \<and> mh_junk h' = mh_junk h"

lemma trimmed_trans: "trimmed h h' \<Longrightarrow> trimmed h' h'' \<Longrightarrow> trimmed h h''"
  unfolding trimmed_def
proof (intro conjI allI impI)
  assume a: "(\<forall>p x'. mparts h' p = Some x' \<longrightarrow> (\<exists>x. mparts h p = Some x \<and> x' = x\<lparr>mp_refcnt := mp_refcnt x'\<rparr>)) \<and>
     (\<forall>b y'. mbufs h' b = Some y' \<longrightarrow> (\<exists>y. mbufs h b = Some y \<and> mb_data y' = mb_data y)) \<and>
     mh_fresh h' = mh_fresh h \<and> mh_fails h' = mh_fails h \<and> mh_junk h' = mh_junk h"
    and b: "(\<forall>p x'. mparts h'' p = Some x' \<longrightarrow> (\<exists>x. mparts h' p = Some x \<and> x' = x\<lparr>mp_refcnt := mp_refcnt x'\<rparr>)) \<and>
     (\<forall>b y'. mbufs h'' b = Some y' \<longrightarrow> (\<exists>y. mbufs h' b = Some y \<and> mb_data y' = mb_data y)) \<and>
     mh_fresh h'' = mh_fresh h' \<and> mh_fails h'' = mh_fails h' \<and> mh_junk h'' = mh_junk h'"
  show "\<exists>x. mparts h p = Some x \<and> x'' = x\<lparr>mp_refcnt := mp_refcnt x''\<rparr>" if x'': "mparts h'' p = Some x''" for p x''
  proof -
    obtain x' where x': "mparts h' p = Some x'" "x'' = x'\<lparr>mp_refcnt := mp_refcnt x''\<rparr>" using b x'' by blast
    obtain x where x: "mparts h p = Some x" "x' = x\<lparr>mp_refcnt := mp_refcnt x'\<rparr>" using a x'(1) by blast
    have "x'' = x\<lparr>mp_refcnt := mp_refcnt x''\<rparr>" by (subst x'(2), subst x(2)) simp
    then show ?thesis using x(1) by blast
  qed
  show "\<exists>y. mbufs h b' = Some y \<and> mb_data y'' = mb_data y" if "mbufs h'' b' = Some y''" for b' y''
    using a b that by metis
qed (simp_all)

lemma trimmed_part:
  assumes "trimmed h h'" "mparts h' p = Some x'"
  shows "\<exists>x. mparts h p = Some x \<and> mp_locked x' = mp_locked x \<and> mp_next x' = mp_next x \<and> mp_part x' = mp_part x \<and>
    mp_offset x' = mp_offset x \<and> mp_data_end x' = mp_data_end x"
proof -
  obtain x where x: "mparts h p = Some x" "x' = x\<lparr>mp_refcnt := mp_refcnt x'\<rparr>" using assms unfolding trimmed_def by blast
  show ?thesis using x(1) by (intro exI [of _ x], subst (1 2 3 4 5) x(2)) simp
qed

lemma trimmed_view:
  assumes t: "trimmed h h'" and H: "heap_ok h' R L" and p: "mparts h' p \<noteq> None"
  shows "same_view h h' p"
proof -
  obtain x' where x': "mparts h' p = Some x'" using p by blast
  obtain x where x: "mparts h p = Some x" "mp_next x' = mp_next x" "mp_part x' = mp_part x" "mp_offset x' = mp_offset x" "mp_data_end x' = mp_data_end x"
    using trimmed_part [OF t x'] by blast
  obtain y' where y': "mbufs h' (mp_part x) = Some y'" using part_okD(4) [OF heap_okD(4) [OF H x']] x(3) by auto
  then obtain y where "mbufs h (mp_part x) = Some y" "mb_data y' = mb_data y" using t unfolding trimmed_def by blast
  then show ?thesis using x x' y' by (auto simp: same_view_def)
qed

lemma trimmed_frame: "trimmed h h' \<Longrightarrow> heap_ok h' R' L \<Longrightarrow> (\<And>p. p \<in> mreach h R \<Longrightarrow> mparts h' p \<noteq> None) \<Longrightarrow> mframe h R h'"
  unfolding mframe_def using trimmed_view by blast

lemma msg_part_incref_ok:
  assumes H: "heap_ok h R L" and p: "mparts h p = Some x"
  shows "\<exists>h'. msg_part_incref p h = Some h' \<and> heap_ok h' (plus_ref (Some p) R) L \<and> trimmed h h' \<and> dom (mparts h') = dom (mparts h)"
proof -
  define h' where "h' = h\<lparr>mparts := (mparts h)(p \<mapsto> x\<lparr>mp_refcnt := mp_refcnt x + 1\<rparr>)\<rparr>"
  have m: "mparts h' = (mparts h)(p \<mapsto> x\<lparr>mp_refcnt := mp_refcnt x + 1\<rparr>)" "mbufs h' = mbufs h" "mh_fresh h' = mh_fresh h"
    by (simp_all add: h'_def)
  have n: "nxt h' = nxt h" using p m by (auto simp: nxt_def fun_eq_iff)
  then have pr: "preds h' = preds h" by (simp add: preds_def fun_eq_iff)
  have u: "users h' = users h" using p m by (auto simp: users_def fun_eq_iff)
  have po: "part_ok h' (plus_ref (Some p) R) L q z" if q: "mparts h' q = Some z" for q z
  proof (cases "q = p")
    case True
    then have z: "z = x\<lparr>mp_refcnt := mp_refcnt x + 1\<rparr>" using q m by simp
    note old = part_okD [OF heap_okD(4) [OF H p]]
    have "\<forall>r. mp_next x = Some r \<longrightarrow> r \<in> dom (mparts h')" using old(5) m by auto
    then show ?thesis using old(1-4,6,7) True unfolding part_ok_def pr m(2) z by simp
  next
    case False
    then have z: "mparts h q = Some z" using q m by simp
    note old = part_okD [OF heap_okD(4) [OF H z]]
    have "\<forall>r. mp_next z = Some r \<longrightarrow> r \<in> dom (mparts h')" using old(5) m by auto
    then show ?thesis using old(1-4,6,7) False unfolding part_ok_def pr m(2) by simp
  qed
  have R: "mparts h' q \<noteq> None" if "plus_ref (Some p) R q > 0" for q
    using that heap_okD(6) [OF H, of q] m by (auto split: if_split_asm)
  have "heap_ok h' (plus_ref (Some p) R) L"
    unfolding heap_ok_def n u using heap_okD(1,2,3,5,7) [OF H] p po R m by (auto simp: fun_upd_apply)
  moreover have "trimmed h h'" using p m by (auto simp: trimmed_def h'_def)
  ultimately show ?thesis using p m by (auto simp: msg_part_incref_def upd_part_def h'_def)
qed

text \<open>Taking one part that nothing refers to out of the heap, with its reference to the buffer.\<close>

lemma drop_part_ok:
  assumes H: "heap_ok h (plus_ref (Some p) R) L" and p: "mparts h p = Some x" "mp_refcnt x = 1" "p \<notin> L"
  shows "\<exists>h1. msg_buffer_decref (mp_part x) h = Some h1 \<and>
    (let h' = h1\<lparr>mparts := (mparts h1)(p := None)\<rparr> in
     heap_ok h' (plus_ref (mp_next x) R) L \<and> trimmed h h' \<and> dom (mparts h') = dom (mparts h) - {p} \<and>
     (\<forall>q. q \<noteq> p \<longrightarrow> nxt h' q = nxt h q) \<and> R p = 0 \<and> preds h p = {})"
proof -
  note part = part_okD [OF heap_okD(4) [OF H p(1)]]
  have "R p = 0 \<and> card (preds h p) = 0" using part(6) p(2) by simp
  then have cnt: "R p = 0" "preds h p = {}" using finite_preds [OF H, of p] by simp_all
  obtain y where y: "mbufs h (mp_part x) = Some y" using part(4) by blast
  have ry: "mb_refcnt y = int (card (users h (mp_part x)))" using heap_okD(5) [OF H y] by simp
  let ?b = "mp_part x"
  define h1 where "h1 = h\<lparr>mbufs := (if mb_refcnt y = 1 then (mbufs h)(?b := None) else (mbufs h)(?b \<mapsto> y\<lparr>mb_refcnt := mb_refcnt y - 1\<rparr>))\<rparr>"
  define h' where "h' = h1\<lparr>mparts := (mparts h1)(p := None)\<rparr>"
  have m: "mparts h' = (mparts h)(p := None)" by (simp add: h'_def h1_def)
  have bu: "mbufs h' = mbufs h1" by (simp add: h'_def)
  have n: "nxt h' = (nxt h)(p := None)" by (auto simp: nxt_def m fun_eq_iff)
  have pr: "preds h' q = preds h q - {p}" for q using n by (auto simp: preds_def)
  have us: "users h' c = users h c - {p}" for c by (auto simp: users_def m)
  have pu: "p \<in> users h c \<longleftrightarrow> c = ?b" for c using p(1) by (auto simp: users_def)
  have nb: "mbufs h' c \<noteq> None" if q: "mparts h' q = Some z" "mp_part z = c" for q z c
  proof -
    have qu: "q \<in> users h c" "q \<noteq> p" using q m by (auto simp: users_def split: if_split_asm)
    have "mbufs h c \<noteq> None" using part_okD(4) [OF heap_okD(4) [OF H, of q z]] q m by (auto split: if_split_asm)
    moreover have "mb_refcnt y \<noteq> 1" if c: "c = ?b"
    proof
      assume "mb_refcnt y = 1"
      then have "card (users h ?b) = 1" using ry by simp
      then obtain u where "users h ?b = {u}" using card_1_singletonE by blast
      then show False using qu pu [of ?b] c by auto
    qed
    ultimately show ?thesis by (auto simp: bu h1_def)
  qed
  have sz: "mbufs h' c = Some y' \<Longrightarrow> \<exists>y0. mbufs h c = Some y0 \<and> mb_data y' = mb_data y0" for c y'
    using y by (auto simp: bu h1_def split: if_split_asm)
  have nd: "mp_next z \<noteq> Some p" if "mparts h q = Some z" for q z
    using cnt(2) that by (auto simp: preds_def nxt_Some)
  have cp: "card (preds h q - {p}) + (if nxt h p = Some q then 1 else 0) = card (preds h q)" for q
    using finite_preds [OF H, of q] card_Suc_Diff1 [of "preds h q" p] by (auto simp: preds_def)
  have po: "part_ok h' (plus_ref (mp_next x) R) L q z" if q: "mparts h' q = Some z" for q z
  proof -
    have qz: "mparts h q = Some z" "q \<noteq> p" using q m by (auto split: if_split_asm)
    note old = part_okD [OF heap_okD(4) [OF H qz(1)]]
    obtain y' where y': "mbufs h' (mp_part z) = Some y'" using nb [OF q] by auto
    then obtain y0 where y0: "mbufs h (mp_part z) = Some y0" "mb_data y' = mb_data y0" using sz by blast
    have "mp_data_end z \<le> buffer_size y'" using old(4) y0 by (auto simp: buffer_size_def)
    moreover have "mp_refcnt z = int (plus_ref (mp_next x) R q + card (preds h' q))"
      using old(6) qz(2) cp [of q] p(1) pr [of q] by (cases "mp_next x") (auto simp: nxt_def split: if_split_asm)
    moreover have "r \<in> dom (mparts h')" if "mp_next z = Some r" for r
      using old(5) [OF that] nd [OF qz(1)] that m by auto
    ultimately show ?thesis using old(1,2,3,7) y' by (auto simp: part_ok_def)
  qed
  have cs: "\<exists>cs. chain (nxt h') (Some q) cs" if q: "mparts h' q \<noteq> None" for q
  proof -
    obtain ds where ds: "chain (nxt h) (Some q) ds" using heap_okD(7) [OF H, of q] q m by (auto split: if_split_asm)
    have "p \<notin> set ds"
    proof
      assume "p \<in> set ds"
      then obtain us vs where us: "ds = us @ p # vs" using split_list by metis
      then have "us \<noteq> []" using ds q m by (auto split: if_split_asm)
      then obtain us' u where "us = us' @ [u]" using rev_exhaust by blast
      then have "chain (nxt h) (Some u) (u # p # vs)" using ds us chain_drop [of "nxt h" "Some q" us' u "p # vs"] by simp
      then show False using cnt(2) by (auto simp: preds_def)
    qed
    then have "nxt h' c = nxt h c" if "c \<in> set ds" for c using n that by auto
    then have "chain (nxt h') (Some q) ds" using chain_cong [OF ds] by blast
    then show ?thesis by blast
  qed
  have bc: "mb_refcnt y' = int (card (users h' c)) \<and> users h' c \<noteq> {}" if c: "mbufs h' c = Some y'" for c y'
  proof (cases "c = ?b")
    case False
    then have "mbufs h c = Some y'" "users h' c = users h c" using c bu us [of c] pu [of c] by (auto simp: h1_def split: if_split_asm)
    then show ?thesis using heap_okD(5) [OF H] by simp
  next
    case True
    then have ne: "mb_refcnt y \<noteq> 1" "y' = y\<lparr>mb_refcnt := mb_refcnt y - 1\<rparr>" using c by (auto simp: bu h1_def split: if_split_asm)
    have "card (users h' c) = card (users h c) - 1" using us [of c] pu [of c] True finite_users [OF H, of c] by simp
    moreover have "card (users h c) > 1"
      using ry ne(1) True pu [of c] finite_users [OF H, of c] by (metis One_nat_def card_gt_0_iff empty_iff linorder_neqE_nat less_one of_nat_1 less_numeral_extra(3))
    ultimately show ?thesis using ry ne(2) True by (auto simp: card_gt_0_iff)
  qed
  have R: "mparts h' q \<noteq> None" if q: "plus_ref (mp_next x) R q > 0" for q
  proof -
    have "mparts h q \<noteq> None"
    proof (cases "R q > 0")
      case True
      then show ?thesis using heap_okD(6) [OF H, of q] by (auto split: if_split_asm)
    next
      case False
      then have "mp_next x = Some q" using q by (cases "mp_next x") (auto split: if_split_asm)
      then show ?thesis using part(5) by auto
    qed
    moreover have "q \<noteq> p" using q cnt(1) nd [OF p(1)] by (cases "mp_next x") auto
    ultimately show ?thesis using m by simp
  qed
  have fr: "mh_fresh h' = mh_fresh h" by (simp add: h'_def h1_def)
  have "finite (dom (mparts h'))" using heap_okD(1) [OF H] m by simp
  moreover have "q < mh_fresh h'" if "mparts h' q \<noteq> None" for q
    using that heap_okD(2) [OF H, of q] m fr by (auto split: if_split_asm)
  moreover have "c < mh_fresh h'" if "mbufs h' c \<noteq> None" for c
    using that sz heap_okD(3) [OF H, of c] fr by auto
  ultimately have "heap_ok h' (plus_ref (mp_next x) R) L"
    unfolding heap_ok_def using po bc R cs by blast
  moreover have "mh_fails h' = mh_fails h" "mh_junk h' = mh_junk h" by (simp_all add: h'_def h1_def)
  then have "trimmed h h'" using sz m fr by (auto simp: trimmed_def split: if_split_asm)
  moreover have "msg_buffer_decref ?b h = Some h1" using y by (simp add: msg_buffer_decref_def h1_def)
  moreover have "dom (mparts h') = dom (mparts h) - {p}" "\<forall>q. q \<noteq> p \<longrightarrow> nxt h' q = nxt h q" using m n by auto
  ultimately show ?thesis using cnt unfolding Let_def h'_def by blast
qed

lemma less_count:
  assumes H: "heap_ok h (plus_ref (Some p) R) L" and p: "mparts h p = Some x" "mp_refcnt x > 1"
  defines "h' \<equiv> h\<lparr>mparts := (mparts h)(p \<mapsto> x\<lparr>mp_refcnt := mp_refcnt x - 1\<rparr>)\<rparr>"
  shows "heap_ok h' R L \<and> trimmed h h'"
proof -
  have m: "mparts h' = (mparts h)(p \<mapsto> x\<lparr>mp_refcnt := mp_refcnt x - 1\<rparr>)" "mbufs h' = mbufs h" "mh_fresh h' = mh_fresh h"
    by (simp_all add: h'_def)
  have n: "nxt h' = nxt h" using p m by (auto simp: nxt_def fun_eq_iff)
  then have pr: "preds h' = preds h" by (simp add: preds_def fun_eq_iff)
  have u: "users h' = users h" using p m by (auto simp: users_def fun_eq_iff)
  have po: "part_ok h' R L q z" if q: "mparts h' q = Some z" for q z
  proof (cases "q = p")
    case True
    then have z: "z = x\<lparr>mp_refcnt := mp_refcnt x - 1\<rparr>" using q m by simp
    note old = part_okD [OF heap_okD(4) [OF H p(1)]]
    have "\<forall>r. mp_next x = Some r \<longrightarrow> r \<in> dom (mparts h')" using old(5) m by auto
    then show ?thesis using old(1-4,6,7) True p(2) unfolding part_ok_def pr m(2) z by simp
  next
    case False
    then have z: "mparts h q = Some z" using q m by simp
    note old = part_okD [OF heap_okD(4) [OF H z]]
    have "\<forall>r. mp_next z = Some r \<longrightarrow> r \<in> dom (mparts h')" using old(5) m by auto
    then show ?thesis using old(1-4,6,7) False unfolding part_ok_def pr m(2) by simp
  qed
  have R: "mparts h' q \<noteq> None" if "R q > 0" for q
    using that heap_okD(6) [OF H, of q] m by (auto split: if_split_asm)
  have "heap_ok h' R L"
    unfolding heap_ok_def n u using heap_okD(1,2,3,5,7) [OF H] p po R m by (auto simp: fun_upd_apply)
  moreover have "trimmed h h'" using p m by (auto simp: trimmed_def h'_def)
  ultimately show ?thesis by blast
qed

lemma msg_part_decref_None [simp]: "msg_part_decref None h = Some (0, h)"
  by (subst msg_part_decref.simps) simp

lemma decref_last:
  assumes "mparts h p = Some x" "mp_refcnt x = 1" "\<not> mp_locked x" "msg_buffer_decref (mp_part x) h = Some h1"
    "msg_part_decref (mp_next x) (h1\<lparr>mparts := (mparts h1)(p := None)\<rparr>) = Some (k, h3)"
  shows "msg_part_decref (Some p) h = Some (k + 1, h3)"
  using assms by (subst msg_part_decref.simps) simp

lemma chain_but: "chain nx p cs \<Longrightarrow> c \<notin> set cs \<Longrightarrow> \<forall>q. q \<noteq> c \<longrightarrow> nx' q = nx q \<Longrightarrow> chain nx' p cs"
  by (induction cs arbitrary: p) auto

lemma chain_reroute:
  assumes "chain nx p cs" "\<forall>q. q \<noteq> c \<longrightarrow> nx' q = nx q" "chain nx' (nx' c) es"
  shows "\<exists>ds. chain nx' p ds"
  using assms(1)
proof (induction cs arbitrary: p)
  case (Cons a cs)
  show ?case
  proof (cases "a = c")
    case True
    then have "chain nx' p (a # es)" using Cons.prems assms(3) by simp
    then show ?thesis by blast
  next
    case False
    obtain ds where "chain nx' (nx a) ds" using Cons by auto
    then have "chain nx' p (a # ds)" using Cons.prems False assms(2) by simp
    then show ?thesis by blast
  qed
qed auto

lemma mreach_drop:
  assumes "p \<notin> mreach h R" "\<And>q. q \<noteq> p \<Longrightarrow> nxt h' q = nxt h q"
  shows "mreach h R \<subseteq> mreach h' R"
proof
  fix q
  assume "q \<in> mreach h R"
  then show "q \<in> mreach h' R"
    by (rule mreach_links) (metis assms mreach.mreach_next)
qed

text \<open>Releasing a reference: the parts that nothing refers to any more are freed, the others stay as they are.\<close>

lemma msg_part_decref_ok:
  assumes "heap_ok h (plus_ref (Some p) R) L" "L \<subseteq> mreach h R"
  shows "\<exists>n h'. msg_part_decref (Some p) h = Some (n, h') \<and> heap_ok h' R L \<and> trimmed h h' \<and>
    (\<forall>q\<in>mreach h R. mparts h' q \<noteq> None)"
proof -
  have "mparts h p \<noteq> None" using heap_okD(6) [OF assms(1), of p] by simp
  then obtain cs where "chain (nxt h) (Some p) cs" using heap_okD(7) [OF assms(1)] by blast
  then show ?thesis using assms
  proof (induction cs arbitrary: p h R)
    case Nil
    then show ?case by simp
  next
    case (Cons c cs)
    have c: "c = p" using Cons.prems(1) by simp
    obtain x where x: "mparts h p = Some x" using heap_okD(6) [OF Cons.prems(2), of p] by auto
    note part = part_okD [OF heap_okD(4) [OF Cons.prems(2) x]]
    show ?case
    proof (cases "mp_refcnt x > 1")
      case True
      let ?h = "h\<lparr>mparts := (mparts h)(p \<mapsto> x\<lparr>mp_refcnt := mp_refcnt x - 1\<rparr>)\<rparr>"
      have "msg_part_decref (Some p) h = Some (0, ?h)" using x True by (subst msg_part_decref.simps) simp
      moreover have "heap_ok ?h R L \<and> trimmed h ?h" using less_count [OF Cons.prems(2) x True] .
      moreover have "\<forall>q\<in>mreach h R. mparts ?h q \<noteq> None"
        using mreach_dom [OF Cons.prems(2)] plus_ref_le by simp
      ultimately show ?thesis by blast
    next
      case False
      have pL: "p \<notin> mreach h R"
      proof
        assume "p \<in> mreach h R"
        moreover have "R p + 1 + card (preds h p) \<le> 1" using part(6) False by simp
        then have "R p = 0 \<and> preds h p = {}" using finite_preds [OF Cons.prems(2), of p] by simp
        ultimately show False by cases (auto simp: preds_def)
      qed
      have r1: "mp_refcnt x = 1" using False part(7) by simp
      have nL: "p \<notin> L" using pL Cons.prems(3) by blast
      obtain h1 where h1: "msg_buffer_decref (mp_part x) h = Some h1" and
        h': "heap_ok (h1\<lparr>mparts := (mparts h1)(p := None)\<rparr>) (plus_ref (mp_next x) R) L"
          "trimmed h (h1\<lparr>mparts := (mparts h1)(p := None)\<rparr>)" "dom (mparts (h1\<lparr>mparts := (mparts h1)(p := None)\<rparr>)) = dom (mparts h) - {p}"
          "\<forall>q. q \<noteq> p \<longrightarrow> nxt (h1\<lparr>mparts := (mparts h1)(p := None)\<rparr>) q = nxt h q"
        using drop_part_ok [OF Cons.prems(2) x r1 nL] unfolding Let_def by blast
      define h2 where "h2 = h1\<lparr>mparts := (mparts h1)(p := None)\<rparr>"
      note h2 = h' [folded h2_def]
      have re: "mreach h R \<subseteq> mreach h2 R" using mreach_drop [OF pL] h2(4) by blast
      show ?thesis
      proof (cases "mp_next x")
        case None
        then have "msg_part_decref (Some p) h = Some (0 + 1, h2)"
          using part(1) nL by (intro decref_last [OF x r1 _ h1]) (simp_all add: h2_def)
        moreover have "mparts h2 q \<noteq> None" if q: "q \<in> mreach h R" for q
        proof -
          have "q \<in> dom (mparts h)" using mreach_dom [OF Cons.prems(2) q] plus_ref_le by blast
          moreover have "q \<noteq> p" using q pL by blast
          ultimately have "q \<in> dom (mparts h2)" unfolding h2(3) by blast
          then show ?thesis by blast
        qed
        ultimately show ?thesis using h2(1,2) None by auto
      next
        case (Some n)
        have "nxt h p = Some n" using x Some by (simp add: nxt_def)
        then have "chain (nxt h) (Some n) cs" using Cons.prems(1) c by simp
        moreover have "p \<notin> set cs" using chain_distinct [OF Cons.prems(1)] c by simp
        ultimately have ch: "chain (nxt h2) (Some n) cs" using chain_but [OF _ _ h2(4)] by blast
        obtain k h3 where h3: "msg_part_decref (Some n) h2 = Some (k, h3)" "heap_ok h3 R L" "trimmed h2 h3"
          "\<forall>q\<in>mreach h2 R. mparts h3 q \<noteq> None"
          using Cons.IH [OF ch h2(1) [unfolded Some] subset_trans [OF Cons.prems(3) re]] by blast
        have "msg_part_decref (Some p) h = Some (k + 1, h3)"
          using part(1) nL Some h3(1) by (intro decref_last [OF x r1 _ h1]) (simp_all add: h2_def)
        then show ?thesis using h3(2,4) trimmed_trans [OF h2(2) h3(3)] re by blast
      qed
    qed
  qed
qed

section \<open>Changing a part\<close>

text \<open>The window and the lock of a part.\<close>

lemma set_window_ok:
  assumes H: "heap_ok h R L" and p: "mparts h p = Some x"
    and x': "mp_refcnt x' = mp_refcnt x" "mp_next x' = mp_next x" "mp_part x' = mp_part x" "mp_locked x' \<longleftrightarrow> p \<in> L'"
    and w: "0 \<le> mp_offset x'" "mp_offset x' \<le> mp_data_end x'" "\<And>y. mbufs h (mp_part x) = Some y \<Longrightarrow> mp_data_end x' \<le> buffer_size y"
    and L: "\<And>q. q \<noteq> p \<Longrightarrow> q \<in> L' \<longleftrightarrow> q \<in> L"
  shows "heap_ok (h\<lparr>mparts := (mparts h)(p \<mapsto> x')\<rparr>) R L'"
proof -
  define h' where "h' = h\<lparr>mparts := (mparts h)(p \<mapsto> x')\<rparr>"
  have m: "mparts h' = (mparts h)(p \<mapsto> x')" "mbufs h' = mbufs h" "mh_fresh h' = mh_fresh h" by (simp_all add: h'_def)
  have n: "nxt h' = nxt h" using p m x'(2) by (auto simp: nxt_def fun_eq_iff)
  then have pr: "preds h' = preds h" by (simp add: preds_def fun_eq_iff)
  have u: "users h' = users h" using p m x'(3) by (auto simp: users_def fun_eq_iff)
  have po: "part_ok h' R L' q z" if q: "mparts h' q = Some z" for q z
  proof (cases "q = p")
    case True
    then have z: "z = x'" using q m by simp
    note old = part_okD [OF heap_okD(4) [OF H p]]
    have "\<forall>r. mp_next x = Some r \<longrightarrow> r \<in> dom (mparts h')" using old(5) m by auto
    moreover have "\<exists>y. mbufs h (mp_part x) = Some y \<and> mp_data_end x' \<le> buffer_size y" using old(4) w(3) by blast
    ultimately show ?thesis using old(6,7) True w(1,2) x' unfolding part_ok_def pr m(2) z by simp
  next
    case False
    then have z: "mparts h q = Some z" using q m by simp
    note old = part_okD [OF heap_okD(4) [OF H z]]
    have "\<forall>r. mp_next z = Some r \<longrightarrow> r \<in> dom (mparts h')" using old(5) m by auto
    then show ?thesis using old(1-4,6,7) False L unfolding part_ok_def pr m(2) by simp
  qed
  have "heap_ok h' R L'"
    unfolding heap_ok_def n u using heap_okD(1,2,3,5,6,7) [OF H] p po m by (auto simp: fun_upd_apply)
  then show ?thesis by (simp add: h'_def)
qed

lemma same_view_other: "heap_ok h R L \<Longrightarrow> q \<noteq> p \<Longrightarrow> mparts h q \<noteq> None \<Longrightarrow> same_view h (h\<lparr>mparts := (mparts h)(p \<mapsto> x')\<rparr>) q"
  using part_okD(4) [OF heap_okD(4)] by (fastforce simp: same_view_def)

lemma frame_upd:
  assumes H: "heap_ok h R L" and le: "\<And>q. R' q \<le> R q"
    and p: "p \<in> mreach h R' \<Longrightarrow> same_view h (h\<lparr>mparts := (mparts h)(p \<mapsto> x')\<rparr>) p"
  shows "mframe h R' (h\<lparr>mparts := (mparts h)(p \<mapsto> x')\<rparr>)"
  unfolding mframe_def
proof
  fix q
  assume q: "q \<in> mreach h R'"
  then have "mparts h q \<noteq> None" using mreach_dom [OF H _ le] by blast
  then show "same_view h (h\<lparr>mparts := (mparts h)(p \<mapsto> x')\<rparr>) q"
    using same_view_other [OF H] p q by (cases "q = p") auto
qed

text \<open>A part that only one message refers to is out of the reach of the others.\<close>

lemma not_reached:
  assumes "R p = 0" "\<And>q. nxt h q = Some p \<Longrightarrow> q \<notin> mreach h R"
  shows "p \<notin> mreach h R"
proof
  assume "p \<in> mreach h R"
  then show False using assms by cases auto
qed

lemma chain_in_dom:
  assumes H: "heap_ok h R L"
  shows "chain (nxt h) (Some p) cs \<Longrightarrow> mparts h p \<noteq> None \<Longrightarrow> c \<in> set cs \<Longrightarrow> mparts h c \<noteq> None"
proof (induction cs arbitrary: p)
  case (Cons a cs)
  then obtain x where x: "mparts h p = Some x" by blast
  show ?case
  proof (cases "c = p")
    case False
    then have "c \<in> set cs" using Cons.prems by auto
    moreover from this obtain q where q: "nxt h p = Some q" using Cons.prems(1) by (cases "nxt h p") auto
    moreover have "mparts h q \<noteq> None" using part_okD(5) [OF heap_okD(4) [OF H x]] q x by (auto simp: nxt_def)
    ultimately show ?thesis using Cons.IH [of q] Cons.prems(1) by auto
  qed (use x in simp)
qed simp

text \<open>Another successor: the reference held to the new one becomes a link, that to the old one is free.\<close>

lemma relink_ok:
  assumes H: "heap_ok h (plus_ref n R) L" and p: "mparts h p = Some x" "mp_next x = r"
    and acyclic: "\<And>c cs. n = Some c \<Longrightarrow> chain (nxt h) (Some c) cs \<Longrightarrow> p \<notin> set cs"
  shows "heap_ok (h\<lparr>mparts := (mparts h)(p \<mapsto> x\<lparr>mp_next := n\<rparr>)\<rparr>) (plus_ref r R) L"
proof -
  define h' where "h' = h\<lparr>mparts := (mparts h)(p \<mapsto> x\<lparr>mp_next := n\<rparr>)\<rparr>"
  have m: "mparts h' = (mparts h)(p \<mapsto> x\<lparr>mp_next := n\<rparr>)" "mbufs h' = mbufs h" "mh_fresh h' = mh_fresh h" by (simp_all add: h'_def)
  have np: "nxt h p = r" using p by (simp add: nxt_def)
  have n': "nxt h' = (nxt h)(p := n)" using p m by (auto simp: nxt_def fun_eq_iff)
  have u: "users h' = users h" using p m by (auto simp: users_def fun_eq_iff)
  have cp: "plus_ref r R q + card (preds h' q) = plus_ref n R q + card (preds h q)" for q
  proof -
    have fin: "finite (preds h q)" using finite_preds [OF H] .
    have a: "preds h q = (preds h q - {p}) \<union> (if r = Some q then {p} else {})" using np by (auto simp: preds_def)
    have b: "preds h' q = (preds h q - {p}) \<union> (if n = Some q then {p} else {})" using n' by (auto simp: preds_def)
    have s: "finite (preds h q - {p})" "p \<notin> preds h q - {p}" using fin by simp_all
    have "card (preds h q) = card (preds h q - {p}) + (if r = Some q then 1 else 0)"
      using arg_cong [OF a, of card] card_insert_disjoint [OF s] by (auto split: if_split_asm)
    moreover have "card (preds h' q) = card (preds h q - {p}) + (if n = Some q then 1 else 0)"
      using arg_cong [OF b, of card] card_insert_disjoint [OF s] by (auto split: if_split_asm)
    ultimately show ?thesis by (cases r; cases n) auto
  qed
  have nd: "mparts h c \<noteq> None" if "n = Some c" for c using heap_okD(6) [OF H, of c] that by simp
  have po: "part_ok h' (plus_ref r R) L q z" if q: "mparts h' q = Some z" for q z
  proof (cases "q = p")
    case True
    then have z: "z = x\<lparr>mp_next := n\<rparr>" using q m by simp
    note old = part_okD [OF heap_okD(4) [OF H p(1)]]
    have "\<forall>r. n = Some r \<longrightarrow> r \<in> dom (mparts h')" using nd m by auto
    then show ?thesis using old(1-4,6,7) True cp [of p] unfolding part_ok_def m(2) z by simp
  next
    case False
    then have z: "mparts h q = Some z" using q m by simp
    note old = part_okD [OF heap_okD(4) [OF H z]]
    have "\<forall>r. mp_next z = Some r \<longrightarrow> r \<in> dom (mparts h')" using old(5) m by auto
    then show ?thesis using old(1-4,6,7) False cp [of q] unfolding part_ok_def m(2) by simp
  qed
  have R: "mparts h' q \<noteq> None" if q: "plus_ref r R q > 0" for q
  proof (cases "R q > 0")
    case True
    then have "plus_ref n R q > 0" using plus_ref_le [of R q n] by simp
    then show ?thesis using heap_okD(6) [OF H, of q] m by simp
  next
    case False
    then have "r = Some q" using q by (cases r) (auto split: if_split_asm)
    then show ?thesis using part_okD(5) [OF heap_okD(4) [OF H p(1)]] p(2) m by auto
  qed
  have nc: "\<exists>cs. chain (nxt h') n cs \<and> p \<notin> set cs"
  proof (cases n)
    case (Some c)
    then obtain cs where "chain (nxt h) (Some c) cs" using heap_okD(7) [OF H nd] by blast
    then show ?thesis using acyclic [OF Some] chain_but [of "nxt h" "Some c" cs p "nxt h'"] n' Some by auto
  qed auto
  have cs: "\<exists>cs. chain (nxt h') (Some q) cs" if q: "mparts h' q \<noteq> None" for q
  proof -
    have "mparts h q \<noteq> None" using q p m by (auto split: if_split_asm)
    then obtain ds where ds: "chain (nxt h) (Some q) ds" using heap_okD(7) [OF H] by blast
    obtain es where es: "chain (nxt h') n es" using nc by blast
    show ?thesis using chain_reroute [OF ds, of p "nxt h'" es] n' es by auto
  qed
  have "heap_ok h' (plus_ref r R) L"
    unfolding heap_ok_def u using heap_okD(1,2,3,5) [OF H] p po R cs m by (auto simp: fun_upd_apply)
  then show ?thesis by (simp add: h'_def)
qed

section \<open>New parts\<close>

text \<open>
  A new part \<open>c\<close>, in a buffer that is new or that has one more user. The reference held to its successor becomes a link; the
  reference to \<open>c\<close> is held.
\<close>

lemma add_part_ok:
  assumes H: "heap_ok h (plus_ref n R) L"
    and m: "mparts h' = (mparts h)(c \<mapsto> x)" "mparts h c = None" "c \<notin> L"
    and x: "mp_refcnt x = 1" "\<not> mp_locked x" "mp_next x = n" "mp_part x = X" "0 \<le> mp_offset x" "mp_offset x \<le> mp_data_end x"
    and B: "mbufs h' X = Some y" "mb_refcnt y = int (card (users h X)) + 1" "mp_data_end x \<le> buffer_size y"
      "\<And>y0. mbufs h X = Some y0 \<Longrightarrow> mb_data y = mb_data y0" "\<And>b. b \<noteq> X \<Longrightarrow> mbufs h' b = mbufs h b"
    and F: "c < mh_fresh h'" "X < mh_fresh h'" "mh_fresh h \<le> mh_fresh h'"
  shows "heap_ok h' (plus_ref (Some c) R) L \<and> (\<forall>q. mparts h q \<noteq> None \<longrightarrow> same_view h h' q)"
proof -
  have n': "nxt h' = (nxt h)(c := n)" using m x(3) by (auto simp: nxt_def fun_eq_iff)
  have nc: "nxt h c = None" using m by (simp add: nxt_def)
  have ne: "n \<noteq> Some c" using heap_okD(6) [OF H, of c] m(2) by auto
  have Rc: "R c = 0" using heap_okD(6) [OF H, of c] plus_ref_le [of R c n] m(2) by (cases "R c") auto
  have to_c: "nxt h q \<noteq> Some c" for q
  proof
    assume "nxt h q = Some c"
    then obtain z where "mparts h q = Some z" "mp_next z = Some c" by (auto simp: nxt_Some)
    then show False using part_okD(5) [OF heap_okD(4) [OF H]] m(2) by fastforce
  qed
  have pr: "preds h' q = (if n = Some q then insert c (preds h q) else preds h q)" for q
    using n' nc by (auto simp: preds_def)
  have prc: "preds h' c = {}" using pr [of c] ne to_c by (auto simp: preds_def)
  have cp: "card (preds h' q) = card (preds h q) + (if n = Some q then 1 else 0)" for q
    using pr [of q] finite_preds [OF H, of q] nc by (auto simp: preds_def)
  have us: "users h' b = (if b = X then insert c (users h b) else users h b)" for b
    using m x(4) by (auto simp: users_def)
  have cu: "c \<notin> users h b" for b using m by (auto simp: users_def)
  have buf: "\<exists>y'. mbufs h' b = Some y' \<and> mb_data y' = mb_data y0" if "mbufs h b = Some y0" for b y0
    using that B by (cases "b = X") auto
  have nd: "mparts h q \<noteq> None" if "n = Some q" for q using heap_okD(6) [OF H, of q] that by simp
  have po: "part_ok h' (plus_ref (Some c) R) L q z" if q: "mparts h' q = Some z" for q z
  proof (cases "q = c")
    case True
    then have z: "z = x" using q m by simp
    have "\<forall>r. n = Some r \<longrightarrow> r \<in> dom (mparts h')" using nd m by auto
    then show ?thesis using x B(1,3) m(3) Rc True prc unfolding part_ok_def z by auto
  next
    case False
    then have z: "mparts h q = Some z" using q m by simp
    note old = part_okD [OF heap_okD(4) [OF H z]]
    have "\<forall>r. mp_next z = Some r \<longrightarrow> r \<in> dom (mparts h')" using old(5) m by auto
    moreover have "\<exists>y. mbufs h' (mp_part z) = Some y \<and> mp_data_end z \<le> buffer_size y"
      using old(4) buf by (fastforce simp: buffer_size_def)
    moreover have "plus_ref (Some c) R q + card (preds h' q) = plus_ref n R q + card (preds h q)"
      using False cp [of q] by (cases n) auto
    ultimately show ?thesis using old(1-3,6,7) unfolding part_ok_def by simp
  qed
  have bc: "mb_refcnt y' = int (card (users h' b)) \<and> users h' b \<noteq> {}" if b: "mbufs h' b = Some y'" for b y'
    using b B(1,2,5) us [of b] cu [of b] heap_okD(5) [OF H, of b y'] finite_users [OF H, of b] by (cases "b = X") auto
  have cs: "\<exists>cs. chain (nxt h') (Some q) cs" if q: "mparts h' q \<noteq> None" for q
  proof -
    have old: "\<exists>cs. chain (nxt h') (Some r) cs" if r: "mparts h r \<noteq> None" for r
    proof -
      obtain cs where cs: "chain (nxt h) (Some r) cs" using heap_okD(7) [OF H r] by blast
      then have "c \<notin> set cs" using chain_in_dom [OF H cs r] m(2) by blast
      then show ?thesis using chain_but [OF cs, of c "nxt h'"] n' by auto
    qed
    show ?thesis
    proof (cases "q = c")
      case True
      show ?thesis
      proof (cases n)
        case None
        then have "chain (nxt h') (Some c) [c]" using n' by simp
        then show ?thesis using True by blast
      next
        case (Some r)
        then obtain cs where "chain (nxt h') (Some r) cs" using old nd by blast
        then have "chain (nxt h') (Some c) (c # cs)" using n' Some by simp
        then show ?thesis using True by blast
      qed
    qed (use q m old in auto)
  qed
  have "mparts h' q \<noteq> None" if q: "plus_ref (Some c) R q > 0" for q
  proof (cases "q = c")
    case False
    then have "plus_ref n R q > 0" using q plus_ref_le [of R q n] by simp
    then show ?thesis using heap_okD(6) [OF H] m False by simp
  qed (use m in simp)
  moreover have "finite (dom (mparts h'))" using heap_okD(1) [OF H] m by simp
  moreover have "q < mh_fresh h'" if "mparts h' q \<noteq> None" for q
    using that heap_okD(2) [OF H, of q] m F by (auto split: if_split_asm)
  moreover have "b < mh_fresh h'" if "mbufs h' b \<noteq> None" for b
    using that heap_okD(3) [OF H, of b] B(5) F by (cases "b = X") auto
  ultimately have "heap_ok h' (plus_ref (Some c) R) L" unfolding heap_ok_def using po bc cs by blast
  moreover have "same_view h h' q" if q: "mparts h q \<noteq> None" for q
  proof -
    obtain z where z: "mparts h q = Some z" using q by blast
    obtain y0 where y0: "mbufs h (mp_part z) = Some y0" using part_okD(4) [OF heap_okD(4) [OF H z]] by blast
    obtain y1 where "mbufs h' (mp_part z) = Some y1" "mb_data y1 = mb_data y0" using buf [OF y0] by blast
    then show ?thesis using z y0 m q by (auto simp: same_view_def)
  qed
  ultimately show ?thesis by blast
qed

section \<open>Writing data\<close>

lemma write_ok:
  assumes H: "heap_ok h R L" and b: "mbufs h b = Some y" and y': "mb_refcnt y' = mb_refcnt y" "length (mb_data y') = length (mb_data y)"
  shows "heap_ok (h\<lparr>mbufs := (mbufs h)(b \<mapsto> y')\<rparr>) R L"
proof -
  define h' where "h' = h\<lparr>mbufs := (mbufs h)(b \<mapsto> y')\<rparr>"
  have m: "mparts h' = mparts h" "mbufs h' = (mbufs h)(b \<mapsto> y')" "mh_fresh h' = mh_fresh h" by (simp_all add: h'_def)
  have n: "nxt h' = nxt h" "preds h' = preds h" "users h' = users h" using m by (auto simp: nxt_def preds_def users_def fun_eq_iff)
  have po: "part_ok h' R L q z" if q: "mparts h' q = Some z" for q z
  proof -
    note old = part_okD [OF heap_okD(4) [OF H q [unfolded m]]]
    have "\<exists>y. mbufs h' (mp_part z) = Some y \<and> mp_data_end z \<le> buffer_size y"
      using old(4) b y'(2) m by (cases "mp_part z = b") (auto simp: buffer_size_def)
    moreover have "\<forall>r. mp_next z = Some r \<longrightarrow> r \<in> dom (mparts h)" using old(5) by auto
    ultimately show ?thesis using old(1-3,6,7) unfolding part_ok_def n m by simp
  qed
  have "mb_refcnt z = int (card (users h c)) \<and> users h c \<noteq> {}" if "mbufs h' c = Some z" for c z
    using that heap_okD(5) [OF H, of c] b y'(1) m by (cases "c = b") auto
  moreover have "c < mh_fresh h'" if "mbufs h' c \<noteq> None" for c
    using that heap_okD(3) [OF H, of c] b m by (cases "c = b") auto
  ultimately have "heap_ok h' R L"
    unfolding heap_ok_def n using heap_okD(1,2,6,7) [OF H] po m by auto
  then show ?thesis by (simp add: h'_def)
qed

lemma put_bytes_some:
  assumes "mbufs h b = Some y" "0 \<le> pos" "pos + int (length d) \<le> buffer_size y"
  shows "put_bytes b pos d h = Some (h\<lparr>mbufs := (mbufs h)(b \<mapsto> y\<lparr>mb_data := take (nat pos) (mb_data y) @ d @ drop (nat pos + length d) (mb_data y)\<rparr>)\<rparr>)"
  using assms by (simp add: put_bytes_def)

lemma put_length:
  assumes "0 \<le> pos" "pos + int (length d) \<le> int (length xs)"
  shows "length (take (nat pos) xs @ d @ drop (nat pos + length d) xs) = length xs"
  using assms by simp

end
