(* ===== verification/MsgRep.thy ===== *)
theory MsgRep
  imports MsgHeap
begin

text \<open>
  The bytes of a message, and the operations that do not write data: a message is represented by the list of its parts, its
  content is the concatenation of its windows. Every operation is shown to succeed, to do to the content what it does to a
  list of bytes, and to change nothing for any other message.
\<close>

section \<open>The content of a message\<close>

definition prt :: "msg_heap \<Rightarrow> nat \<Rightarrow> msg_part" where
  "prt h p = the (mparts h p)"

definition bdata :: "msg_heap \<Rightarrow> nat \<Rightarrow> bytes" where
  "bdata h b = mb_data (the (mbufs h b))"

definition mslice :: "bytes \<Rightarrow> int \<Rightarrow> int \<Rightarrow> bytes" where
  "mslice d s e = take (nat (e - s)) (drop (nat s) d)"

definition win_start :: "msg_heap \<Rightarrow> raw_message \<Rightarrow> nat \<Rightarrow> int" where
  "win_start h m p = part_start m p (prt h p)"

definition win_end :: "msg_heap \<Rightarrow> raw_message \<Rightarrow> nat \<Rightarrow> int" where
  "win_end h m p = part_end m p (prt h p)"

definition win_bytes :: "msg_heap \<Rightarrow> raw_message \<Rightarrow> nat \<Rightarrow> bytes" where
  "win_bytes h m p = mslice (bdata h (mp_part (prt h p))) (win_start h m p) (win_end h m p)"

definition wins_bytes :: "msg_heap \<Rightarrow> raw_message \<Rightarrow> nat list \<Rightarrow> bytes" where
  "wins_bytes h m ps = concat (map (win_bytes h m) ps)"

fun mpath :: "msg_heap \<Rightarrow> nat list \<Rightarrow> bool" where
  "mpath h [] = True"
| "mpath h [p] \<longleftrightarrow> mparts h p \<noteq> None"
| "mpath h (p # q # ps) \<longleftrightarrow> nxt h p = Some q \<and> mpath h (q # ps)"

definition msg_ok :: "msg_heap \<Rightarrow> raw_message \<Rightarrow> nat list \<Rightarrow> bool" where
  "msg_ok h m ps \<longleftrightarrow> rm_magic m = RM_INIT_MAGIC \<and>
     (if rm_first m = None then ps = [] \<and> rm_last m = None \<and> rm_total_bytes m = 0
      else ps \<noteq> [] \<and> rm_first m = Some (hd ps) \<and> rm_last m = Some (last ps) \<and> mpath h ps \<and> distinct ps \<and>
        mp_offset (prt h (hd ps)) \<le> rm_first_offset m \<and> rm_last_offset m \<le> mp_data_end (prt h (last ps)) \<and>
        (\<forall>p\<in>set ps. win_start h m p \<le> win_end h m p) \<and>
        rm_total_bytes m = (\<Sum>p\<leftarrow>ps. win_end h m p - win_start h m p))"

lemma msg_okD:
  assumes "msg_ok h m ps"
  shows "rm_magic m = RM_INIT_MAGIC" "ps = [] \<longleftrightarrow> rm_first m = None" "ps = [] \<Longrightarrow> rm_last m = None \<and> rm_total_bytes m = 0"
    "ps \<noteq> [] \<Longrightarrow> rm_first m = Some (hd ps) \<and> rm_last m = Some (last ps)" "mpath h ps" "distinct ps"
    "ps \<noteq> [] \<Longrightarrow> mp_offset (prt h (hd ps)) \<le> rm_first_offset m \<and> rm_last_offset m \<le> mp_data_end (prt h (last ps))"
    "p \<in> set ps \<Longrightarrow> win_start h m p \<le> win_end h m p"
    "rm_total_bytes m = (\<Sum>p\<leftarrow>ps. win_end h m p - win_start h m p)"
  using assms by (auto simp: msg_ok_def split: if_split_asm)

lemma mpath_append:
  "mpath h (ps @ q # qs) \<longleftrightarrow> mpath h ps \<and> mpath h (q # qs) \<and> (ps \<noteq> [] \<longrightarrow> nxt h (last ps) = Some q)"
proof (induction ps)
  case (Cons p ps)
  then show ?case by (cases ps) (auto simp: nxt_Some)
qed simp

lemma mpath_dom: "mpath h ps \<Longrightarrow> p \<in> set ps \<Longrightarrow> mparts h p \<noteq> None"
  by (induction h ps rule: mpath.induct) (auto simp: nxt_Some)

lemma mpath_next: "mpath h (us @ p # q # vs) \<Longrightarrow> nxt h p = Some q"
  by (simp add: mpath_append)

lemma prt_some: "mparts h p = Some x \<Longrightarrow> prt h p = x"
  by (simp add: prt_def)

lemma bdata_some: "mbufs h b = Some y \<Longrightarrow> bdata h b = mb_data y"
  by (simp add: bdata_def)

text \<open>Windows lie inside the part, and so inside the buffer.\<close>

lemma win_bounds:
  assumes H: "heap_ok h R L" and M: "msg_ok h m ps" and p: "p \<in> set ps"
  shows "0 \<le> win_start h m p \<and> win_start h m p \<le> win_end h m p \<and> win_end h m p \<le> mp_data_end (prt h p) \<and>
    mp_offset (prt h p) \<le> win_start h m p \<and> mp_data_end (prt h p) \<le> int (length (bdata h (mp_part (prt h p))))"
proof -
  note m = msg_okD [OF M]
  have ne: "ps \<noteq> []" using p by auto
  obtain x where x: "mparts h p = Some x" using mpath_dom [OF m(5) p] by blast
  note part = part_okD [OF heap_okD(4) [OF H x]]
  obtain y where y: "mbufs h (mp_part x) = Some y" "mp_data_end x \<le> buffer_size y" using part(4) by blast
  have "mp_offset x \<le> win_start h m p" using m(4,7) [OF ne] x by (auto simp: win_start_def part_start_def prt_def)
  moreover have "win_end h m p \<le> mp_data_end x" using m(4,7) [OF ne] x by (auto simp: win_end_def part_end_def prt_def)
  ultimately show ?thesis using part(2,3) m(8) [OF p] x y by (auto simp: prt_def bdata_def buffer_size_def)
qed

lemma length_slice: "0 \<le> s \<Longrightarrow> s \<le> e \<Longrightarrow> e \<le> int (length d) \<Longrightarrow> int (length (mslice d s e)) = e - s"
  by (simp add: mslice_def)

lemma slice_append: "0 \<le> s \<Longrightarrow> s \<le> t \<Longrightarrow> t \<le> e \<Longrightarrow> mslice d s t @ mslice d t e = mslice d s e"
proof -
  assume a: "0 \<le> s" "s \<le> t" "t \<le> e"
  then have n: "nat (e - s) = nat (t - s) + nat (e - t)" "nat t = nat s + nat (t - s)" by auto
  show ?thesis unfolding mslice_def n take_add by (simp add: add.commute)
qed

lemma slice_drop:
  assumes "0 \<le> s" "s \<le> t" "t \<le> e" "e \<le> int (length d)"
  shows "mslice d t e = drop (nat (t - s)) (mslice d s e)"
proof -
  have "length (mslice d s t) = nat (t - s)" using length_slice [of s t d] assms by simp
  then show ?thesis using slice_append [OF assms(1-3), of d] by (metis append_eq_conv_conj)
qed

lemma slice_take: "0 \<le> s \<Longrightarrow> s \<le> t \<Longrightarrow> t \<le> e \<Longrightarrow> mslice d s t = take (nat (t - s)) (mslice d s e)"
  by (simp add: mslice_def min_def)

lemma length_win_bytes:
  assumes "heap_ok h R L" "msg_ok h m ps" "p \<in> set ps"
  shows "int (length (win_bytes h m p)) = win_end h m p - win_start h m p"
  using win_bounds [OF assms] by (simp add: win_bytes_def length_slice)

lemma length_wins_bytes:
  assumes H: "heap_ok h R L" and M: "msg_ok h m ps" and qs: "set qs \<subseteq> set ps"
  shows "int (length (wins_bytes h m qs)) = (\<Sum>p\<leftarrow>qs. win_end h m p - win_start h m p)"
  using qs by (induction qs) (auto simp: wins_bytes_def length_win_bytes [OF H M])

lemma total_bytes: "heap_ok h R L \<Longrightarrow> msg_ok h m ps \<Longrightarrow> rm_total_bytes m = int (length (wins_bytes h m ps))"
  using length_wins_bytes [of h R L m ps ps] msg_okD(9) by simp

section \<open>Messages that an operation does not touch\<close>

lemma msg_reached:
  assumes "msg_ok h m ps" "\<And>p. rm_first m = Some p \<Longrightarrow> R p > 0"
  shows "set ps \<subseteq> mreach h R"
proof -
  have "set qs \<subseteq> mreach h R" if "mpath h qs" "qs \<noteq> [] \<Longrightarrow> hd qs \<in> mreach h R" for qs
    using that
  proof (induction h qs rule: mpath.induct)
    case (3 h p q ps)
    then show ?case by (auto intro: mreach.mreach_next)
  qed auto
  then show ?thesis using msg_okD(2,4,5) [OF assms(1)] assms(2) by (metis empty_iff empty_set mreach.mreach_ref)
qed

lemma same_view_win:
  assumes v: "same_view h h' p" and m: "rm_last m = Some p \<longrightarrow> rm_last_offset m \<le> mp_data_end (prt h p)"
    and n: "rm_last m \<noteq> Some p \<longrightarrow> nxt h p \<noteq> None"
  shows "win_start h' m p = win_start h m p \<and> win_end h' m p = win_end h m p \<and>
    mp_offset (prt h' p) = mp_offset (prt h p) \<and> mp_data_end (prt h p) \<le> mp_data_end (prt h' p) \<and>
    (0 \<le> win_start h m p \<longrightarrow> win_bytes h' m p = win_bytes h m p)"
proof -
  obtain x x' y y' where x: "mparts h p = Some x" "mparts h' p = Some x'" "mp_part x' = mp_part x" "mp_offset x' = mp_offset x"
    "mp_data_end x \<le> mp_data_end x'" "mp_next x' = mp_next x \<and> mp_data_end x' = mp_data_end x \<or> mp_next x = None"
    "mbufs h (mp_part x) = Some y" "mbufs h' (mp_part x) = Some y'"
    "take (nat (mp_data_end x)) (mb_data y') = take (nat (mp_data_end x)) (mb_data y)"
    using v unfolding same_view_def by blast
  have s: "win_start h' m p = win_start h m p" using x by (simp add: win_start_def part_start_def prt_def)
  have e: "win_end h' m p = win_end h m p" "win_end h m p \<le> mp_data_end x"
    using x m n by (auto simp: win_end_def part_end_def prt_def nxt_def)
  have "mslice (mb_data y') (win_start h m p) (win_end h m p) = mslice (mb_data y) (win_start h m p) (win_end h m p)"
    if "0 \<le> win_start h m p"
  proof -
    have cut: "mslice d i j = mslice (take (nat k) d) i j" if "0 \<le> i" "j \<le> k" for d i j k
      using that by (simp add: mslice_def drop_take min_def)
    show ?thesis using cut [OF that e(2)] x(9) by metis
  qed
  then show ?thesis using s e x by (auto simp: win_bytes_def prt_def bdata_def)
qed

text \<open>What a message sees of the heap determines it.\<close>

lemma msg_cong:
  assumes M: "msg_ok h m ps"
    and w: "\<And>p. p \<in> set ps \<Longrightarrow> mparts h' p \<noteq> None \<and> win_start h' m p = win_start h m p \<and> win_end h' m p = win_end h m p \<and>
      win_bytes h' m p = win_bytes h m p"
    and n: "\<And>p. p \<in> set ps \<Longrightarrow> p \<noteq> last ps \<Longrightarrow> nxt h' p = nxt h p"
    and b: "ps \<noteq> [] \<Longrightarrow> mp_offset (prt h' (hd ps)) \<le> rm_first_offset m \<and> rm_last_offset m \<le> mp_data_end (prt h' (last ps))"
  shows "msg_ok h' m ps \<and> wins_bytes h' m ps = wins_bytes h m ps"
proof -
  note m = msg_okD [OF M]
  have path: "mpath h' qs" if "mpath h qs" "us @ qs = ps" for us qs
    using that
  proof (induction qs arbitrary: us)
    case (Cons p qs)
    show ?case
    proof (cases qs)
      case Nil
      then show ?thesis using w [of p] Cons.prems(2) by auto
    next
      case (Cons q rs)
      have "last ps \<in> set (q # rs)" using Cons.prems(2) Cons by (metis last_appendR last_in_set last_ConsR list.distinct(1))
      then have "p \<noteq> last ps" using m(6) Cons.prems(2) Cons by auto
      then have "nxt h' p = Some q" using n [of p] Cons.prems Cons by auto
      then show ?thesis using Cons.IH [of "us @ [p]"] Cons.prems Cons by simp
    qed
  qed simp
  have "map (win_bytes h' m) ps = map (win_bytes h m) ps" by (rule map_cong) (simp_all add: w)
  then have bytes: "wins_bytes h' m ps = wins_bytes h m ps" unfolding wins_bytes_def by (rule arg_cong)
  have "map (\<lambda>p. win_end h' m p - win_start h' m p) ps = map (\<lambda>p. win_end h m p - win_start h m p) ps"
    by (rule map_cong) (simp_all add: w)
  then have "(\<Sum>p\<leftarrow>ps. win_end h' m p - win_start h' m p) = (\<Sum>p\<leftarrow>ps. win_end h m p - win_start h m p)" by (rule arg_cong)
  moreover have "win_start h' m p \<le> win_end h' m p" if "p \<in> set ps" for p using w [OF that] m(8) [OF that] by simp
  ultimately show ?thesis using m(1-4,6,9) path [OF m(5), of "[]"] bytes b by (cases "ps = []") (auto simp: msg_ok_def)
qed

lemma frame_reached:
  assumes H: "heap_ok h R0 L" and v: "\<And>p. p \<in> set ps \<Longrightarrow> same_view h h' p" and M: "msg_ok h m ps"
  shows "msg_ok h' m ps \<and> wins_bytes h' m ps = wins_bytes h m ps"
proof -
  note m = msg_okD [OF M]
  have w: "win_start h' m p = win_start h m p \<and> win_end h' m p = win_end h m p \<and>
      mp_offset (prt h' p) = mp_offset (prt h p) \<and> mp_data_end (prt h p) \<le> mp_data_end (prt h' p) \<and>
      win_bytes h' m p = win_bytes h m p" if p: "p \<in> set ps" for p
  proof -
    have ne: "ps \<noteq> []" using p by auto
    have "nxt h p \<noteq> None" if l: "rm_last m \<noteq> Some p"
    proof -
      obtain us vs where us: "ps = us @ p # vs" using split_list [OF p] by blast
      then obtain q ws where "vs = q # ws" using m(4) [OF ne] l by (cases vs) auto
      then show ?thesis using mpath_next [of h us p q ws] m(5) us by simp
    qed
    then show ?thesis
      using same_view_win [OF v [OF p], of m] m(4,7) [OF ne] win_bounds [OF H M p] by auto
  qed
  have "mparts h' p \<noteq> None \<and> win_start h' m p = win_start h m p \<and> win_end h' m p = win_end h m p \<and>
      win_bytes h' m p = win_bytes h m p" if "p \<in> set ps" for p
    using w [OF that] v [OF that] by (auto simp: same_view_def)
  moreover have "nxt h' p = nxt h p" if p: "p \<in> set ps" "p \<noteq> last ps" for p
  proof -
    obtain us vs where us: "ps = us @ p # vs" using split_list [OF p(1)] by blast
    then obtain q ws where "vs = q # ws" using p(2) by (cases vs) auto
    then have "nxt h p = Some q" using mpath_next [of h us p q ws] m(5) us by simp
    then show ?thesis using same_view_next [OF v [OF p(1)]] by simp
  qed
  moreover have "rm_last_offset m \<le> mp_data_end (prt h' (last ps))" "mp_offset (prt h' (hd ps)) \<le> rm_first_offset m" if "ps \<noteq> []"
    using w [of "last ps"] w [of "hd ps"] m(7) [OF that] that by auto
  ultimately show ?thesis by (intro msg_cong [OF M]) auto
qed

lemma frame_msg:
  assumes H: "heap_ok h R0 L" and F: "mframe h R h'" and M: "msg_ok h m ps" and R: "\<And>p. rm_first m = Some p \<Longrightarrow> R p > 0"
  shows "msg_ok h' m ps \<and> wins_bytes h' m ps = wins_bytes h m ps"
  using frame_reached [OF H _ M] F msg_reached [OF M, of R] R unfolding mframe_def by blast

section \<open>The beginning and the end of a message\<close>

lemma win_cong:
  assumes "rm_first m' = Some p \<longleftrightarrow> rm_first m = Some p" "rm_last m' = Some p \<longleftrightarrow> rm_last m = Some p"
    "rm_first m = Some p \<Longrightarrow> rm_first_offset m' = rm_first_offset m" "rm_last m = Some p \<Longrightarrow> rm_last_offset m' = rm_last_offset m"
  shows "win_start h m' p = win_start h m p \<and> win_end h m' p = win_end h m p \<and> win_bytes h m' p = win_bytes h m p"
  using assms by (auto simp: win_start_def win_end_def win_bytes_def part_start_def part_end_def)

lemma wins_cong:
  assumes "\<And>p. p \<in> set ps \<Longrightarrow> win_start h m' p = win_start h m p \<and> win_end h m' p = win_end h m p \<and> win_bytes h m' p = win_bytes h m p"
  shows "wins_bytes h m' ps = wins_bytes h m ps \<and>
    (\<Sum>p\<leftarrow>ps. win_end h m' p - win_start h m' p) = (\<Sum>p\<leftarrow>ps. win_end h m p - win_start h m p)"
  using assms by (induction ps) (auto simp: wins_bytes_def)

lemma wins_bytes_simps [simp]: "wins_bytes h m [] = []" "wins_bytes h m (p # ps) = win_bytes h m p @ wins_bytes h m ps"
  "wins_bytes h m (ps @ qs) = wins_bytes h m ps @ wins_bytes h m qs"
  by (simp_all add: wins_bytes_def)

lemma drop_skip: "length a = n \<Longrightarrow> drop (n + k) (a @ b) = drop k b"
  by auto

lemma msg_suffix:
  assumes H: "heap_ok h R L" and M: "msg_ok h m (us @ p # vs)" and pos: "win_start h m p \<le> pos" "pos \<le> win_end h m p"
    and gone: "gone = (\<Sum>q\<leftarrow>us. win_end h m q - win_start h m q) + (pos - win_start h m p)"
  defines "m2 \<equiv> m\<lparr>rm_first := Some p, rm_first_offset := pos, rm_total_bytes := rm_total_bytes m - gone\<rparr>"
  shows "msg_ok h m2 (p # vs) \<and> wins_bytes h m2 (p # vs) = drop (nat gone) (wins_bytes h m (us @ p # vs))"
proof -
  note m = msg_okD [OF M]
  have fst: "rm_first m = Some (hd (us @ [p]))" "rm_last m = Some (last (p # vs))" using m(4) by (cases us; simp)+
  have d: "p \<notin> set us" "p \<notin> set vs" "set us \<inter> set vs = {}" "distinct vs" using m(6) by auto
  have w: "win_start h m2 q = win_start h m q \<and> win_end h m2 q = win_end h m q \<and> win_bytes h m2 q = win_bytes h m q" if "q \<in> set vs" for q
    using that d fst(1) by (intro win_cong) (cases us; auto simp: m2_def)+
  have s2: "win_start h m2 p = pos" "win_end h m2 p = win_end h m p"
    by (simp_all add: m2_def win_start_def win_end_def part_start_def part_end_def)
  note bp = win_bounds [OF H M, of p]
  have tot: "rm_total_bytes m2 = (\<Sum>q\<leftarrow>p # vs. win_end h m2 q - win_start h m2 q)"
    using m(9) wins_cong [of vs h m2 m] w gone s2 by (simp add: m2_def)
  have "mpath h (p # vs)" using m(5) by (simp add: mpath_append)
  moreover have "rm_last_offset m \<le> mp_data_end (prt h (last (p # vs)))" using m(7) by simp
  moreover have "mp_offset (prt h p) \<le> pos" using bp pos by simp
  moreover have "\<forall>q\<in>set (p # vs). win_start h m2 q \<le> win_end h m2 q" using w s2 pos m(8) by auto
  ultimately have "msg_ok h m2 (p # vs)"
    using m(1) tot d fst(2) unfolding msg_ok_def by (auto simp: m2_def)
  moreover have "win_bytes h m2 p = drop (nat (pos - win_start h m p)) (win_bytes h m p)"
    using pos bp slice_drop [of "win_start h m p" pos "win_end h m p"] by (simp add: win_bytes_def s2)
  moreover have "length (win_bytes h m p) \<ge> nat (pos - win_start h m p)"
    using length_win_bytes [OF H M, of p] pos by simp
  moreover have ng: "nat gone = length (wins_bytes h m us) + nat (pos - win_start h m p)"
  proof -
    have "int (length (wins_bytes h m us)) = (\<Sum>q\<leftarrow>us. win_end h m q - win_start h m q)"
      using length_wins_bytes [OF H M, of us] by auto
    then show ?thesis using gone pos(1) by linarith
  qed
  ultimately show ?thesis using wins_cong [of vs h m2 m] w by (simp add: ng drop_skip)
qed

lemma msg_prefix:
  assumes H: "heap_ok h R L" and M: "msg_ok h m (us @ p # vs)" and pos: "win_start h m p \<le> pos" "pos \<le> win_end h m p"
    and keep: "keep = (\<Sum>q\<leftarrow>us. win_end h m q - win_start h m q) + (pos - win_start h m p)"
  defines "m2 \<equiv> m\<lparr>rm_last := Some p, rm_last_offset := pos, rm_total_bytes := keep\<rparr>"
  shows "msg_ok h m2 (us @ [p]) \<and> wins_bytes h m2 (us @ [p]) = take (nat keep) (wins_bytes h m (us @ p # vs))"
proof -
  note m = msg_okD [OF M]
  have fst: "rm_first m = Some (hd (us @ [p]))" "rm_last m = Some (last (p # vs))" using m(4) by (cases us; simp)+
  have d: "p \<notin> set us" "p \<notin> set vs" "set us \<inter> set vs = {}" "distinct us" using m(6) by auto
  have l: "last (p # vs) \<notin> set us" using d by (cases vs rule: rev_cases) auto
  have w: "win_start h m2 q = win_start h m q \<and> win_end h m2 q = win_end h m q \<and> win_bytes h m2 q = win_bytes h m q" if "q \<in> set us" for q
    using that d l fst(2) by (intro win_cong) (auto simp: m2_def)
  have s2: "win_end h m2 p = pos" "win_start h m2 p = win_start h m p"
    by (simp_all add: m2_def win_start_def win_end_def part_start_def part_end_def)
  note bp = win_bounds [OF H M, of p]
  have tot: "rm_total_bytes m2 = (\<Sum>q\<leftarrow>us @ [p]. win_end h m2 q - win_start h m2 q)"
    using wins_cong [of us h m2 m] w keep s2 by (simp add: m2_def)
  have "mpath h (us @ [p])" using m(5) mpath_dom [OF m(5), of p] by (simp add: mpath_append)
  moreover have "mp_offset (prt h (hd (us @ [p]))) \<le> rm_first_offset m" using m(7) by (cases us) auto
  moreover have "pos \<le> mp_data_end (prt h p)" using bp pos by simp
  moreover have "\<forall>q\<in>set (us @ [p]). win_start h m2 q \<le> win_end h m2 q" using w s2 pos m(8) by auto
  ultimately have "msg_ok h m2 (us @ [p])"
    using m(1) tot d fst(1) unfolding msg_ok_def by (auto simp: m2_def)
  moreover have "win_bytes h m2 p = take (nat (pos - win_start h m p)) (win_bytes h m p)"
    using pos bp by (simp add: win_bytes_def s2 mslice_def min_def nat_le_eq_zle)
  moreover have "length (win_bytes h m p) \<ge> nat (pos - win_start h m p)"
    using length_win_bytes [OF H M, of p] pos by simp
  moreover have nk: "nat keep = length (wins_bytes h m us) + nat (pos - win_start h m p)"
  proof -
    have "int (length (wins_bytes h m us)) = (\<Sum>q\<leftarrow>us. win_end h m q - win_start h m q)"
      using length_wins_bytes [OF H M, of us] by auto
    then show ?thesis using keep pos(1) by linarith
  qed
  ultimately show ?thesis using wins_cong [of us h m2 m] w by (simp add: nk)
qed

section \<open>What an operation is to do\<close>

text \<open>
  \<open>mholds h R L m d\<close>: the message \<open>m\<close> has the content \<open>d\<close>; \<open>R\<close> counts the references of the other messages, \<open>L\<close> are the locked
  parts.
\<close>

definition mholds :: "msg_heap \<Rightarrow> (nat \<Rightarrow> nat) \<Rightarrow> nat set \<Rightarrow> raw_message \<Rightarrow> bytes \<Rightarrow> bool" where
  "mholds h R L m d \<longleftrightarrow> heap_ok h (plus_ref (rm_first m) R) L \<and> (\<exists>ps. msg_ok h m ps \<and> wins_bytes h m ps = d)"

lemma holds_frame:
  assumes "heap_ok h R0 L0" "\<exists>ps. msg_ok h m ps \<and> wins_bytes h m ps = d" "mframe h R h'"
    "\<And>p. rm_first m = Some p \<Longrightarrow> R p > 0" "heap_ok h' (plus_ref (rm_first m) R') L"
  shows "mholds h' R' L m d"
  using assms frame_msg [of h R0 L0 R h' m] unfolding mholds_def by blast

lemma holds_empty: "heap_ok h R L \<Longrightarrow> rm_first m = None \<Longrightarrow> rm_last m = None \<Longrightarrow> rm_total_bytes m = 0 \<Longrightarrow>
    rm_magic m = RM_INIT_MAGIC \<Longrightarrow> mholds h R L m []"
  by (auto simp: mholds_def msg_ok_def wins_bytes_def intro: exI [of _ "[]"])

lemma holds_total: "mholds h R L m d \<Longrightarrow> rm_total_bytes m = int (length d)"
  using total_bytes unfolding mholds_def by blast

lemma holds_magic: "mholds h R L m d \<Longrightarrow> rm_magic m = RM_INIT_MAGIC"
  using msg_okD(1) unfolding mholds_def by blast

text \<open>Releasing a reference does not change what others see.\<close>

lemma decref_frame:
  assumes "heap_ok h (plus_ref r R) L" "L \<subseteq> mreach h R"
  shows "\<exists>n h'. msg_part_decref r h = Some (n, h') \<and> heap_ok h' R L \<and> mframe h R h' \<and> trimmed h h'"
proof (cases r)
  case None
  have "trimmed h h" by (simp add: trimmed_def)
  then show ?thesis using None assms(1) frame_refl [of h R L R] by auto
next
  case (Some p)
  then show ?thesis using msg_part_decref_ok [of h p R L] assms trimmed_frame by blast
qed

lemma incref_frame:
  assumes H: "heap_ok h R L" and p: "mparts h p \<noteq> None"
  shows "\<exists>h'. msg_part_incref p h = Some h' \<and> heap_ok h' (plus_ref (Some p) R) L \<and> trimmed h h' \<and>
    dom (mparts h') = dom (mparts h) \<and> mframe h (plus_ref (Some p) R) h'"
proof -
  obtain x where x: "mparts h p = Some x" using p by blast
  obtain h' where h': "msg_part_incref p h = Some h'" "heap_ok h' (plus_ref (Some p) R) L" "trimmed h h'" "dom (mparts h') = dom (mparts h)"
    using msg_part_incref_ok [OF H x] by blast
  have "mparts h' q \<noteq> None" if q: "q \<in> mreach h (plus_ref (Some p) R)" for q
  proof -
    have "mparts h r \<noteq> None" if "plus_ref (Some p) R r > 0" for r
      using heap_okD(6) [OF H, of r] p that by (auto split: if_split_asm)
    then have "q \<in> dom (mparts h)" using mreach_closed [OF H q] by blast
    then show ?thesis using h'(4) by blast
  qed
  then show ?thesis using h' trimmed_frame [OF h'(3,2)] by blast
qed

lemma rwm_clone_ok:
  assumes m: "mholds h R L m d"
  shows "\<exists>h'. rwm_clone m h = Some (m, h') \<and> mholds h' (plus_ref (rm_first m) R) L m d \<and> mframe h (plus_ref (rm_first m) R) h'"
proof -
  have H: "heap_ok h (plus_ref (rm_first m) R) L" and M: "\<exists>ps. msg_ok h m ps \<and> wins_bytes h m ps = d"
    using m unfolding mholds_def by auto
  have g: "rm_magic m = RM_INIT_MAGIC" using holds_magic [OF m] .
  show ?thesis
  proof (cases "rm_first m")
    case None
    then show ?thesis using m g frame_refl [OF H, of R] by (auto simp: rwm_clone_def rm_live_def)
  next
    case (Some p)
    have p: "mparts h p \<noteq> None" using heap_okD(6) [OF H, of p] Some by simp
    obtain h' where h': "msg_part_incref p h = Some h'" "heap_ok h' (plus_ref (Some p) (plus_ref (rm_first m) R)) L"
      and F: "mframe h (plus_ref (Some p) (plus_ref (rm_first m) R)) h'"
      using incref_frame [OF H p] by blast
    have h'3: "mframe h (plus_ref (rm_first m) R) h'" using F plus_ref_le by (rule frame_mono)
    have "mholds h' (plus_ref (rm_first m) R) L m d"
      using holds_frame [OF H M h'3, of "plus_ref (rm_first m) R" L] h'(2) Some by simp
    then show ?thesis using h' h'3 g Some by (auto simp: rwm_clone_def rm_live_def)
  qed
qed

lemma rwm_free_ok:
  assumes m: "mholds h R L m d" and L: "L \<subseteq> mreach h R"
  shows "\<exists>n h'. rwm_free m h = Some (n, rm_zero, h') \<and> heap_ok h' R L \<and> mframe h R h'"
  using m decref_frame [of h "rm_first m" R L] L holds_magic [OF m] unfolding mholds_def by (auto simp: rwm_free_def rm_live_def)

lemma rwm_clear_ok:
  assumes m: "mholds h R L m d" and L: "L \<subseteq> mreach h R"
  shows "\<exists>h'. rwm_clear m h = Some (rwm_clean m, h') \<and> mholds h' R L (rwm_clean m) [] \<and> mframe h R h'"
proof -
  have g: "rm_magic m = RM_INIT_MAGIC" using holds_magic [OF m] .
  obtain n h' where h': "msg_part_decref (rm_first m) h = Some (n, h')" "heap_ok h' R L" "mframe h R h'"
    using m decref_frame [of h "rm_first m" R L] L unfolding mholds_def by blast
  have "mholds h' R L (rwm_clean m) []" using h'(2) g by (intro holds_empty) (simp_all add: rwm_clean_def)
  moreover have "rwm_clear m h = Some (rwm_clean m, h')"
    using h'(1) g by (auto simp: rwm_clear_def rm_live_def)
  ultimately show ?thesis using h'(3) by blast
qed

section \<open>Finding a position\<close>

abbreviation win_size :: "msg_heap \<Rightarrow> raw_message \<Rightarrow> nat \<Rightarrow> int" where
  "win_size h m p \<equiv> win_end h m p - win_start h m p"

lemma win_some: "mparts h p = Some x \<Longrightarrow> part_start m p x = win_start h m p \<and> part_end m p x = win_end h m p"
  by (simp add: win_start_def win_end_def prt_def)

lemma process_seek_ok:
  assumes M: "msg_ok h m (us0 @ qs)" and off: "qs \<noteq> []" "0 \<le> off" "off \<le> (\<Sum>q\<leftarrow>qs. win_size h m q)"
  shows "\<exists>us p vs. qs = us @ p # vs \<and>
    process_seek m (Some (hd qs)) unshared off h = Some (p, unshared \<and> (\<forall>u\<in>set (us @ [p]). mp_refcnt (prt h u) = 1),
      win_start h m p + (off - (\<Sum>q\<leftarrow>us. win_size h m q)), win_size h m p - (off - (\<Sum>q\<leftarrow>us. win_size h m q))) \<and>
    0 \<le> off - (\<Sum>q\<leftarrow>us. win_size h m q) \<and> off - (\<Sum>q\<leftarrow>us. win_size h m q) \<le> win_size h m p"
  using assms
proof (induction qs arbitrary: us0 off unshared)
  case (Cons q qs)
  obtain x where x: "mparts h q = Some x" using mpath_dom [OF msg_okD(5) [OF Cons.prems(1)], of q] by auto
  show ?case
  proof (cases "win_size h m q \<ge> off")
    case True
    then show ?thesis
      using Cons.prems(3) x win_some [OF x, of m]
      by (rule_tac x = "[]" in exI, rule_tac x = q in exI, rule_tac x = qs in exI, subst process_seek.simps) (simp add: prt_def Let_def)
  next
    case False
    have ne: "qs \<noteq> []" using False Cons.prems(4) by auto
    have nx: "mp_next x = Some (hd qs)"
      using mpath_next [of h us0 q "hd qs" "tl qs"] msg_okD(5) [OF Cons.prems(1)] ne x by (simp add: nxt_def)
    define o2 where "o2 = off - win_size h m q"
    have "msg_ok h m ((us0 @ [q]) @ qs)" "0 \<le> o2" "o2 \<le> (\<Sum>q\<leftarrow>qs. win_size h m q)"
      using Cons.prems False by (simp_all add: o2_def)
    from Cons.IH [OF this(1) ne this(2,3), of "unshared \<and> mp_refcnt x = 1"] obtain us p vs where
      r: "qs = us @ p # vs" "process_seek m (Some (hd qs)) (unshared \<and> mp_refcnt x = 1) o2 h =
        Some (p, (unshared \<and> mp_refcnt x = 1) \<and> (\<forall>u\<in>set (us @ [p]). mp_refcnt (prt h u) = 1),
          win_start h m p + (o2 - (\<Sum>q\<leftarrow>us. win_size h m q)), win_size h m p - (o2 - (\<Sum>q\<leftarrow>us. win_size h m q)))"
      "0 \<le> o2 - (\<Sum>q\<leftarrow>us. win_size h m q)" "o2 - (\<Sum>q\<leftarrow>us. win_size h m q) \<le> win_size h m p"
      by blast
    have s: "o2 - (\<Sum>q\<leftarrow>us. win_size h m q) = off - (\<Sum>q\<leftarrow>q # us. win_size h m q)" by (simp add: o2_def)
    have "process_seek m (Some (hd (q # qs))) unshared off h = process_seek m (Some (hd qs)) (unshared \<and> mp_refcnt x = 1) o2 h"
      using x nx False win_some [OF x, of m] by (subst process_seek.simps) (simp add: o2_def Let_def)
    moreover have "((unshared \<and> mp_refcnt x = 1) \<and> (\<forall>u\<in>set (us @ [p]). mp_refcnt (prt h u) = 1)) =
        (unshared \<and> (\<forall>u\<in>set ((q # us) @ [p]). mp_refcnt (prt h u) = 1))" using x by (auto simp: prt_def)
    ultimately show ?thesis using r unfolding s by (rule_tac x = "q # us" in exI, rule_tac x = p in exI, rule_tac x = vs in exI) simp
  qed
qed simp

lemma split_seek_ok:
  assumes M: "msg_ok h m (us0 @ qs)" and off: "qs \<noteq> []" "0 \<le> off" "off \<le> (\<Sum>q\<leftarrow>qs. win_size h m q)"
  shows "\<exists>us p vs. qs = us @ p # vs \<and>
    split_seek m (Some (hd qs)) off h = Some (p, win_start h m p + (off - (\<Sum>q\<leftarrow>us. win_size h m q))) \<and>
    0 \<le> off - (\<Sum>q\<leftarrow>us. win_size h m q) \<and> off - (\<Sum>q\<leftarrow>us. win_size h m q) \<le> win_size h m p"
  using assms
proof (induction qs arbitrary: us0 off)
  case (Cons q qs)
  obtain x where x: "mparts h q = Some x" using mpath_dom [OF msg_okD(5) [OF Cons.prems(1)], of q] by auto
  show ?case
  proof (cases "win_size h m q \<ge> off")
    case True
    then show ?thesis
      using Cons.prems(3) x win_some [OF x, of m]
      by (rule_tac x = "[]" in exI, rule_tac x = q in exI, rule_tac x = qs in exI, subst split_seek.simps) (simp add: Let_def)
  next
    case False
    have ne: "qs \<noteq> []" using False Cons.prems(4) by auto
    have nx: "mp_next x = Some (hd qs)"
      using mpath_next [of h us0 q "hd qs" "tl qs"] msg_okD(5) [OF Cons.prems(1)] ne x by (simp add: nxt_def)
    define o2 where "o2 = off - win_size h m q"
    have "msg_ok h m ((us0 @ [q]) @ qs)" "0 \<le> o2" "o2 \<le> (\<Sum>q\<leftarrow>qs. win_size h m q)"
      using Cons.prems False by (simp_all add: o2_def)
    from Cons.IH [OF this(1) ne this(2,3)] obtain us p vs where
      r: "qs = us @ p # vs" "split_seek m (Some (hd qs)) o2 h = Some (p, win_start h m p + (o2 - (\<Sum>q\<leftarrow>us. win_size h m q)))"
      "0 \<le> o2 - (\<Sum>q\<leftarrow>us. win_size h m q)" "o2 - (\<Sum>q\<leftarrow>us. win_size h m q) \<le> win_size h m p"
      by blast
    have s: "o2 - (\<Sum>q\<leftarrow>us. win_size h m q) = off - (\<Sum>q\<leftarrow>q # us. win_size h m q)" by (simp add: o2_def)
    have "split_seek m (Some (hd (q # qs))) off h = split_seek m (Some (hd qs)) o2 h"
      using x nx False win_some [OF x, of m] by (subst split_seek.simps) (simp add: o2_def Let_def)
    then show ?thesis using r unfolding s by (rule_tac x = "q # us" in exI, rule_tac x = p in exI, rule_tac x = vs in exI) simp
  qed
qed simp

section \<open>Visiting blocks\<close>

text \<open>
  A callback that reads only: it makes \<open>f e d\<close> of its state \<open>e\<close> and the block \<open>d\<close>, and does not depend on how the data are cut
  into blocks.
\<close>

definition reads_blocks :: "('e \<Rightarrow> bytes \<Rightarrow> 'e) \<Rightarrow> 'e block_fun \<Rightarrow> bool" where
  "reads_blocks f pb \<longleftrightarrow> (\<forall>e d h. pb e d h = Some (0, f e d, h)) \<and> (\<forall>e a b. f (f e a) b = f e (a @ b)) \<and> (\<forall>e. f e [] = e)"

lemma memcpy_reads: "reads_blocks (\<lambda>e d. e @ d) rwm_process_memcpy"
  by (simp add: reads_blocks_def rwm_process_memcpy_def)

lemma nop_reads: "reads_blocks (\<lambda>e d. e) rwm_process_nop"
  by (simp add: reads_blocks_def rwm_process_nop_def)

lemma get_bytes_win:
  assumes H: "heap_ok h R L" and x: "mparts h p = Some x" and s: "0 \<le> s" "0 \<le> n" "s + n \<le> mp_data_end x"
  shows "get_bytes (mp_part x) s n h = Some (mslice (bdata h (mp_part x)) s (s + n))"
proof -
  obtain y where "mbufs h (mp_part x) = Some y" "mp_data_end x \<le> buffer_size y" using part_okD(4) [OF heap_okD(4) [OF H x]] by blast
  then show ?thesis using s by (simp add: get_bytes_def mslice_def bdata_def)
qed

lemma process_blocks_ok:
  assumes H: "heap_ok h R L" and M: "msg_ok h m (us0 @ p # vs)" and pb: "reads_blocks f pb"
    and s: "win_start h m p \<le> start" "start \<le> win_end h m p"
    and n: "0 < bytes" "bytes \<le> (win_end h m p - start) + (\<Sum>q\<leftarrow>vs. win_size h m q)"
  shows "\<exists>us p' vs' start'. p # vs = us @ p' # vs' \<and>
    process_blocks pb m p unshared start (win_end h m p - start) bytes e h =
      Some (0, p', unshared \<and> (\<forall>u\<in>set (tl (us @ [p'])). mp_refcnt (prt h u) = 1), start',
        bytes - ((\<Sum>q\<leftarrow>us. win_size h m q) - (if us = [] then 0 else start - win_start h m p)),
        f e (take (nat bytes) (mslice (bdata h (mp_part (prt h p))) start (win_end h m p) @ wins_bytes h m vs)), h) \<and>
    start' = (if us = [] then start else win_start h m p') \<and>
    0 \<le> bytes - ((\<Sum>q\<leftarrow>us. win_size h m q) - (if us = [] then 0 else start - win_start h m p)) \<and>
    start' + (bytes - ((\<Sum>q\<leftarrow>us. win_size h m q) - (if us = [] then 0 else start - win_start h m p))) \<le> win_end h m p'"
  using M s n
proof (induction vs arbitrary: us0 p start bytes unshared e)
  case Nil
  obtain x where x: "mparts h p = Some x" using mpath_dom [OF msg_okD(5) [OF Nil.prems(1)], of p] by auto
  note bp = win_bounds [OF H Nil.prems(1), of p]
  have g: "get_bytes (mp_part x) start bytes h = Some (mslice (bdata h (mp_part x)) start (start + bytes))"
    using get_bytes_win [OF H x, of start bytes] bp Nil.prems x by (simp add: prt_def)
  have "mslice (bdata h (mp_part x)) start (start + bytes) = take (nat bytes) (mslice (bdata h (mp_part x)) start (win_end h m p))"
    using slice_take [of start "start + bytes" "win_end h m p"] bp Nil.prems by simp
  then show ?case
    using Nil.prems x g pb
    by (rule_tac x = "[]" in exI, rule_tac x = p in exI, rule_tac x = "[]" in exI, rule_tac x = start in exI, subst process_blocks.simps)
      (simp add: reads_blocks_def prt_def Let_def)
next
  case (Cons q vs)
  obtain x where x: "mparts h p = Some x" using mpath_dom [OF msg_okD(5) [OF Cons.prems(1)], of p] by auto
  note bp = win_bounds [OF H Cons.prems(1), of p]
  let ?len = "win_end h m p - start"
  let ?d = "bdata h (mp_part x)"
  show ?case
  proof (cases "?len \<ge> bytes")
    case True
    have g: "get_bytes (mp_part x) start bytes h = Some (mslice ?d start (start + bytes))"
      using get_bytes_win [OF H x, of start bytes] bp Cons.prems True x by (simp add: prt_def)
    have "mslice ?d start (start + bytes) = take (nat bytes) (mslice ?d start (win_end h m p))"
      using slice_take [of start "start + bytes" "win_end h m p"] bp Cons.prems True by simp
    moreover have "nat bytes \<le> length (mslice ?d start (win_end h m p))"
      using length_slice [of start "win_end h m p" ?d] bp Cons.prems True x by (simp add: prt_def)
    ultimately show ?thesis
      using Cons.prems True x g pb
      by (rule_tac x = "[]" in exI, rule_tac x = p in exI, rule_tac x = "q # vs" in exI, rule_tac x = start in exI, subst process_blocks.simps)
        (simp add: reads_blocks_def prt_def Let_def)
  next
    case False
    obtain y where y: "mparts h q = Some y" using mpath_dom [OF msg_okD(5) [OF Cons.prems(1)], of q] by auto
    note bq = win_bounds [OF H Cons.prems(1), of q]
    have nx: "mp_next x = Some q" using mpath_next [of h us0 p q vs] msg_okD(5) [OF Cons.prems(1)] x by (simp add: nxt_def)
    have sl: "mslice ?d start (win_end h m p) = mslice ?d start (start + ?len)" by simp
    have b1: "(if ?len > 0 then do { d \<leftarrow> get_bytes (mp_part x) start ?len h; pb e d h } else Some (0, e, h)) =
        Some (0, f e (mslice ?d start (win_end h m p)), h)"
      using get_bytes_win [OF H x, of start ?len] bp Cons.prems x pb by (auto simp: reads_blocks_def prt_def mslice_def)
    define e2 where "e2 = f e (mslice ?d start (win_end h m p))"
    define n2 where "n2 = bytes - ?len"
    have "msg_ok h m ((us0 @ [p]) @ q # vs)" "win_start h m q \<le> win_start h m q" "win_start h m q \<le> win_end h m q" "0 < n2"
      "n2 \<le> (win_end h m q - win_start h m q) + (\<Sum>q\<leftarrow>vs. win_size h m q)"
      using False Cons.prems(1,4,5) bq by (simp_all add: n2_def)
    from Cons.IH [OF this, of "unshared \<and> mp_refcnt y = 1" e2] obtain us p' vs' start' where r0: "q # vs = us @ p' # vs'"
      "process_blocks pb m q (unshared \<and> mp_refcnt y = 1) (win_start h m q) (win_size h m q) n2 e2 h =
        Some (0, p', (unshared \<and> mp_refcnt y = 1) \<and> (\<forall>u\<in>set (tl (us @ [p'])). mp_refcnt (prt h u) = 1), start',
          n2 - ((\<Sum>q\<leftarrow>us. win_size h m q) - (if us = [] then 0 else win_start h m q - win_start h m q)),
          f e2 (take (nat n2) (mslice (bdata h (mp_part (prt h q))) (win_start h m q) (win_end h m q) @ wins_bytes h m vs)), h)"
      "start' = (if us = [] then win_start h m q else win_start h m p')"
      "0 \<le> n2 - ((\<Sum>q\<leftarrow>us. win_size h m q) - (if us = [] then 0 else win_start h m q - win_start h m q))"
      "start' + (n2 - ((\<Sum>q\<leftarrow>us. win_size h m q) - (if us = [] then 0 else win_start h m q - win_start h m q))) \<le> win_end h m p'"
      by (elim exE conjE) (rule that)
    have z: "(if us = [] then 0 else win_start h m q - win_start h m q) = 0" by simp
    note r = r0 [unfolded z]
    have st: "start' = win_start h m p'" using r(1,3) by (cases us) auto
    have hd: "hd (us @ [p']) = q" using r(1) by (cases us) auto
    have sh: "((unshared \<and> mp_refcnt y = 1) \<and> (\<forall>u\<in>set (tl (us @ [p'])). mp_refcnt (prt h u) = 1)) =
        (unshared \<and> (\<forall>u\<in>set (tl ((p # us) @ [p'])). mp_refcnt (prt h u) = 1))"
      using hd y by (cases us) (auto simp: prt_def)
    have len: "nat bytes = length (mslice ?d start (win_end h m p)) + nat n2"
      using length_slice [of start "win_end h m p" ?d] bp Cons.prems(2,3,4) x False by (simp add: prt_def n2_def)
    have data: "f e2 (take (nat n2) (mslice (bdata h (mp_part (prt h q))) (win_start h m q) (win_end h m q) @ wins_bytes h m vs)) =
        f e (take (nat bytes) (mslice (bdata h (mp_part (prt h p))) start (win_end h m p) @ wins_bytes h m (q # vs)))"
      using pb x unfolding e2_def reads_blocks_def len by (simp add: prt_def win_bytes_def)
    have step: "process_blocks pb m p unshared start ?len bytes e h =
        process_blocks pb m q (unshared \<and> mp_refcnt y = 1) (win_start h m q) (win_size h m q) n2 e2 h"
      using x y nx False b1 win_some [OF y, of m] by (subst process_blocks.simps) (simp add: e2_def n2_def Let_def)
    have amt: "n2 - (\<Sum>q\<leftarrow>us. win_size h m q) = bytes - ((\<Sum>q\<leftarrow>p # us. win_size h m q) - (start - win_start h m p))"
      by (simp add: n2_def)
    show ?thesis
      using r(1,2,4,5) st unfolding step sh data amt diff_zero
      by (rule_tac x = "p # us" in exI, rule_tac x = p' in exI, rule_tac x = vs' in exI, rule_tac x = start' in exI) simp
  qed
qed

section \<open>Parts that belong to one message\<close>

lemma unshared_unreached:
  assumes H: "heap_ok h (plus_ref (Some f) R) L" and "mpath h qs" "qs \<noteq> [] \<Longrightarrow> hd qs = f"
    and "\<And>u. u \<in> set qs \<Longrightarrow> mp_refcnt (prt h u) = 1"
  shows "u \<in> set qs \<Longrightarrow> u \<notin> mreach h R"
  using assms(2-)
proof (induction qs arbitrary: u rule: rev_induct)
  case (snoc v qs)
  have path: "mpath h qs" using snoc.prems(2) by (simp add: mpath_append)
  have IH: "u \<notin> mreach h R" if "u \<in> set qs" for u
    using snoc.IH [OF that path] snoc.prems(3,4) by (cases qs) auto
  obtain x where x: "mparts h v = Some x" using mpath_dom [OF snoc.prems(2), of v] by auto
  have c: "plus_ref (Some f) R v + card (preds h v) = 1"
    using part_okD(6) [OF heap_okD(4) [OF H x]] snoc.prems(4) [of v] x by (simp add: prt_def)
  have fin: "finite (preds h v)" using finite_preds [OF H] .
  have "v \<notin> mreach h R"
  proof (cases "qs = []")
    case True
    then have "v = f" using snoc.prems(3) by simp
    then have "R v = 0 \<and> preds h v = {}" using c fin by simp
    then show ?thesis by (rule_tac not_reached) (auto simp: preds_def)
  next
    case False
    then have l: "nxt h (last qs) = Some v" using snoc.prems(2) by (simp add: mpath_append)
    then have "last qs \<in> preds h v" by (simp add: preds_def)
    then have "card (preds h v) > 0" unfolding card_gt_0_iff using fin by blast
    then have z: "plus_ref (Some f) R v = 0" using c by linarith
    then have o: "card (preds h v) = 1" using c by linarith
    have R: "R v = 0" using z plus_ref_le [of R v "Some f"] by linarith
    have sg: "preds h v = {last qs}" using card_1_singletonE [OF o] \<open>last qs \<in> preds h v\<close> by (metis singletonD)
    have "q \<notin> mreach h R" if "nxt h q = Some v" for q
    proof -
      have "q \<in> preds h v" using that by (simp add: preds_def)
      then show ?thesis using IH [of "last qs"] False unfolding sg by simp
    qed
    with R show ?thesis by (rule not_reached)
  qed
  then show ?case using snoc.prems(1) IH by auto
qed simp

lemma trimmed_reach: "trimmed h h' \<Longrightarrow> p \<in> mreach h' R \<Longrightarrow> p \<in> mreach h R"
proof (rule mreach_links [of p h' R h])
  fix q r
  assume t: "trimmed h h'" and "nxt h' q = Some r"
  then obtain x' where x': "mparts h' q = Some x'" "mp_next x' = Some r" by (auto simp: nxt_Some)
  then show "nxt h q = Some r" using trimmed_part [OF t x'(1)] by (auto simp: nxt_Some)
qed

text \<open>The windows of the first and of the last part can be cut to those of the message.\<close>

lemma upd_part_some: "mparts h p = Some x \<Longrightarrow> upd_part p g h = Some (h\<lparr>mparts := (mparts h)(p \<mapsto> g x)\<rparr>)"
  by (simp add: upd_part_def)

lemma window_msg:
  assumes M: "msg_ok h m ps" and p: "p \<in> set ps" "mparts h p = Some x"
    and x': "mp_part x' = mp_part x" "p \<noteq> last ps \<Longrightarrow> mp_next x' = mp_next x"
    and s: "rm_first m \<noteq> Some p \<Longrightarrow> mp_offset x' = mp_offset x" "rm_first m = Some p \<Longrightarrow> mp_offset x' \<le> rm_first_offset m"
    and e: "rm_last m \<noteq> Some p \<Longrightarrow> mp_data_end x' = mp_data_end x" "rm_last m = Some p \<Longrightarrow> rm_last_offset m \<le> mp_data_end x'"
  defines "h' \<equiv> h\<lparr>mparts := (mparts h)(p \<mapsto> x')\<rparr>"
  shows "msg_ok h' m ps \<and> wins_bytes h' m ps = wins_bytes h m ps"
proof (rule msg_cong [OF M])
  note m = msg_okD [OF M]
  have ne: "ps \<noteq> []" using p by auto
  have q: "prt h' q = (if q = p then x' else prt h q)" "bdata h' = bdata h" "prt h p = x" for q
    using p(2) by (auto simp: h'_def prt_def bdata_def)
  show "mparts h' q \<noteq> None \<and> win_start h' m q = win_start h m q \<and> win_end h' m q = win_end h m q \<and> win_bytes h' m q = win_bytes h m q"
    if "q \<in> set ps" for q
  proof -
    have "mparts h' q \<noteq> None" using mpath_dom [OF m(5) that] by (auto simp: h'_def)
    moreover have "win_start h' m q = win_start h m q" "win_end h' m q = win_end h m q"
      using s(1) e(1) by (auto simp: q win_start_def win_end_def part_start_def part_end_def)
    ultimately show ?thesis using x'(1) p(2) by (auto simp: win_bytes_def q)
  qed
  show "nxt h' q = nxt h q" if "q \<in> set ps" "q \<noteq> last ps" for q
    using that x'(2) p(2) by (auto simp: nxt_def h'_def)
  show "mp_offset (prt h' (hd ps)) \<le> rm_first_offset m \<and> rm_last_offset m \<le> mp_data_end (prt h' (last ps))"
    using m(4,7) [OF ne] s(2) e(2) by (auto simp: q)
qed

lemma cut_front:
  assumes H: "heap_ok h (plus_ref (rm_first m) R) L" and M: "msg_ok h m (p # vs)" and u: "p \<notin> mreach h R"
  shows "\<exists>h'. upd_part p (\<lambda>y. y\<lparr>mp_offset := rm_first_offset m\<rparr>) h = Some h' \<and> heap_ok h' (plus_ref (rm_first m) R) L \<and>
    msg_ok h' m (p # vs) \<and> wins_bytes h' m (p # vs) = wins_bytes h m (p # vs) \<and> mframe h R h' \<and>
    (\<forall>q x. mparts h q = Some x \<longrightarrow> mparts h' q = Some (if q = p then x\<lparr>mp_offset := rm_first_offset m\<rparr> else x)) \<and> mbufs h' = mbufs h"
proof -
  obtain x where x: "mparts h p = Some x" using mpath_dom [OF msg_okD(5) [OF M], of p] by auto
  note bp = win_bounds [OF H M, of p] and part = part_okD [OF heap_okD(4) [OF H x]]
  have f: "rm_first m = Some p" "rm_last m = Some (last (p # vs))" using msg_okD(4) [OF M] by auto
  have s: "win_start h m p = rm_first_offset m" using f by (simp add: win_start_def part_start_def)
  let ?x = "x\<lparr>mp_offset := rm_first_offset m\<rparr>"
  define h' where "h' = h\<lparr>mparts := (mparts h)(p \<mapsto> ?x)\<rparr>"
  have "heap_ok h' (plus_ref (rm_first m) R) L"
    unfolding h'_def using bp s x part(1,4) by (intro set_window_ok [OF H x]) (auto simp: prt_def)
  moreover have "msg_ok h' m (p # vs) \<and> wins_bytes h' m (p # vs) = wins_bytes h m (p # vs)"
    unfolding h'_def using msg_okD(7) [OF M] x f by (intro window_msg [OF M _ x]) (auto simp: prt_def split: if_split_asm)
  moreover have "mframe h R h'" unfolding h'_def using frame_upd [OF H, of R p ?x] plus_ref_le u by blast
  ultimately show ?thesis using x by (auto simp: upd_part_some [OF x] h'_def)
qed

lemma cut_back:
  assumes H: "heap_ok h (plus_ref (rm_first m) R) L" and M: "msg_ok h m (us @ [p])" and u: "p \<notin> mreach h R"
  shows "\<exists>h'. upd_part p (\<lambda>y. y\<lparr>mp_data_end := rm_last_offset m\<rparr>) h = Some h' \<and> heap_ok h' (plus_ref (rm_first m) R) L \<and>
    msg_ok h' m (us @ [p]) \<and> wins_bytes h' m (us @ [p]) = wins_bytes h m (us @ [p]) \<and> mframe h R h' \<and>
    (\<forall>q x. mparts h q = Some x \<longrightarrow> mparts h' q = Some (if q = p then x\<lparr>mp_data_end := rm_last_offset m\<rparr> else x)) \<and> mbufs h' = mbufs h"
proof -
  obtain x where x: "mparts h p = Some x" using mpath_dom [OF msg_okD(5) [OF M], of p] by auto
  note bp = win_bounds [OF H M, of p] and part = part_okD [OF heap_okD(4) [OF H x]]
  have f: "rm_last m = Some p" using msg_okD(4) [OF M] by auto
  have s: "win_end h m p = rm_last_offset m" using f by (simp add: win_end_def part_end_def)
  let ?x = "x\<lparr>mp_data_end := rm_last_offset m\<rparr>"
  define h' where "h' = h\<lparr>mparts := (mparts h)(p \<mapsto> ?x)\<rparr>"
  have "heap_ok h' (plus_ref (rm_first m) R) L"
    unfolding h'_def using bp s x part by (intro set_window_ok [OF H x]) (auto simp: prt_def)
  moreover have "msg_ok h' m (us @ [p]) \<and> wins_bytes h' m (us @ [p]) = wins_bytes h m (us @ [p])"
    unfolding h'_def using msg_okD(4,7) [OF M] x f by (intro window_msg [OF M _ x]) (auto simp: prt_def hd_append split: if_split_asm)
  moreover have "mframe h R h'" unfolding h'_def using frame_upd [OF H, of R p ?x] plus_ref_le u by blast
  ultimately show ?thesis using x by (auto simp: upd_part_some [OF x] h'_def)
qed

end
