(* ===== verification/MsgRead.thy ===== *)
theory MsgRead
  imports MsgRep
begin

text \<open>
  Reading from messages: \<open>rwm_process_ex\<close> and the operations made of it give the callback the right bytes, drop the right bytes
  from the message, and change nothing for any other message.
\<close>

section \<open>Moving the reference of a message\<close>

lemma plus_ref_commute: "plus_ref a (plus_ref b R) = plus_ref b (plus_ref a R)"
  by (cases a; cases b) (auto simp: fun_eq_iff)

lemma frame_less: "mframe h (plus_ref r R) h' \<Longrightarrow> mframe h R h'"
  by (rule frame_mono) (auto intro: plus_ref_le)

lemma frame_self: "heap_ok h (plus_ref r R) L \<Longrightarrow> mframe h R h"
  by (rule frame_refl) (auto intro: plus_ref_le)

lemma reach_more: "p \<in> mreach h R \<Longrightarrow> p \<in> mreach h (plus_ref r R)"
  by (rule mreach_mono) (auto intro: plus_ref_le)

lemma locked_reach: "L \<subseteq> mreach h R \<Longrightarrow> mframe h R h' \<Longrightarrow> L \<subseteq> mreach h' (plus_ref r R)"
  using frame_reach [of h R h'] reach_more by blast

lemma swap_first_ok:
  assumes H: "heap_ok h (plus_ref r R) L" and L: "L \<subseteq> mreach h R" and p: "mparts h p \<noteq> None"
  shows "\<exists>h1 n h2. msg_part_incref p h = Some h1 \<and> msg_part_decref r h1 = Some (n, h2) \<and>
    heap_ok h2 (plus_ref (Some p) R) L \<and> mframe h (plus_ref (Some p) R) h2 \<and> trimmed h h2"
proof -
  obtain h1 where h1: "msg_part_incref p h = Some h1" "heap_ok h1 (plus_ref (Some p) (plus_ref r R)) L" "trimmed h h1"
    and F0: "mframe h (plus_ref (Some p) (plus_ref r R)) h1"
    using incref_frame [OF H p] by blast
  have F1: "mframe h (plus_ref (Some p) R) h1"
    using F0 frame_less plus_ref_commute [of "Some p" r R] by metis
  have "L \<subseteq> mreach h1 (plus_ref (Some p) R)"
    using locked_reach [OF L frame_less [OF F1]] .
  then obtain n h2 where h2: "msg_part_decref r h1 = Some (n, h2)" "heap_ok h2 (plus_ref (Some p) R) L"
    "mframe h1 (plus_ref (Some p) R) h2" "trimmed h1 h2"
    using decref_frame [of h1 r "plus_ref (Some p) R" L] h1(2) plus_ref_commute by metis
  show ?thesis using h1(1) h2 frame_trans [OF F1 h2(3)] trimmed_trans [OF h1(3) h2(4)] by blast
qed

section \<open>Dropping bytes at the front\<close>

lemma advance_part_ok:
  assumes H: "heap_ok h (plus_ref (rm_first m) R) L" and L: "L \<subseteq> mreach h R" and M: "msg_ok h m (us @ p # vs)"
    and pos: "win_start h m p \<le> pos" "pos \<le> win_end h m p"
    and gone: "gone = (\<Sum>q\<leftarrow>us. win_size h m q) + (pos - win_start h m p)"
    and swap: "swap \<or> us = []"
  shows "\<exists>h2. (if swap then do { h1 \<leftarrow> msg_part_incref p h; (n, h2) \<leftarrow> msg_part_decref (rm_first m) h1; Some h2 } else Some h) = Some h2 \<and>
    (let m2 = m\<lparr>rm_first := Some p, rm_first_offset := pos, rm_total_bytes := rm_total_bytes m - gone\<rparr> in
     heap_ok h2 (plus_ref (Some p) R) L \<and> msg_ok h2 m2 (p # vs) \<and>
     wins_bytes h2 m2 (p # vs) = drop (nat gone) (wins_bytes h m (us @ p # vs)) \<and> mframe h R h2 \<and> trimmed h h2)"
proof -
  define m2 where "m2 = m\<lparr>rm_first := Some p, rm_first_offset := pos, rm_total_bytes := rm_total_bytes m - gone\<rparr>"
  have M2: "msg_ok h m2 (p # vs)" "wins_bytes h m2 (p # vs) = drop (nat gone) (wins_bytes h m (us @ p # vs))"
    using msg_suffix [OF H M pos gone] by (simp_all add: m2_def)
  have p: "mparts h p \<noteq> None" using mpath_dom [OF msg_okD(5) [OF M], of p] by simp
  show ?thesis
  proof (cases swap)
    case True
    obtain h1 n h2 where h: "msg_part_incref p h = Some h1" "msg_part_decref (rm_first m) h1 = Some (n, h2)"
      "heap_ok h2 (plus_ref (Some p) R) L" "mframe h (plus_ref (Some p) R) h2" "trimmed h h2"
      using swap_first_ok [OF H L p] by blast
    have "msg_ok h2 m2 (p # vs) \<and> wins_bytes h2 m2 (p # vs) = wins_bytes h m2 (p # vs)"
      using frame_msg [OF H h(4) M2(1)] by (simp add: m2_def)
    moreover have "mframe h R h2" using frame_less [OF h(4)] .
    ultimately show ?thesis using True h M2(2) unfolding m2_def [symmetric] Let_def by simp
  next
    case False
    then have us: "us = []" using swap by simp
    then have "rm_first m = Some p" using msg_okD(4) [OF M] by simp
    then show ?thesis
      using False H M2 frame_self [OF H] unfolding m2_def [symmetric] Let_def by (simp add: trimmed_def)
  qed
qed

lemma advance_to_ok:
  assumes H: "heap_ok h (plus_ref (rm_first m) R) L" and L: "L \<subseteq> mreach h R" and M: "msg_ok h m (us @ p # vs)"
    and pos: "win_start h m p \<le> pos" "pos \<le> win_end h m p"
    and gone: "gone = (\<Sum>q\<leftarrow>us. win_size h m q) + (pos - win_start h m p)"
    and u: "unshared \<Longrightarrow> \<forall>u\<in>set (us @ [p]). mp_refcnt (prt h u) = 1"
  shows "\<exists>m' h'. advance_to m p unshared pos gone h = Some (m', h') \<and>
    mholds h' R L m' (drop (nat gone) (wins_bytes h m (us @ p # vs))) \<and> mframe h R h'"
proof (cases "gone = rm_total_bytes m")
  case True
  have "mholds h R L m (wins_bytes h m (us @ p # vs))" using H M by (auto simp: mholds_def)
  from rwm_clear_ok [OF this L] show ?thesis
    using True total_bytes [OF H M] by (auto simp: advance_to_def)
next
  case False
  define m2 where "m2 = m\<lparr>rm_first := Some p, rm_first_offset := pos, rm_total_bytes := rm_total_bytes m - gone\<rparr>"
  let ?swap = "rm_first m \<noteq> Some p"
  let ?d = "drop (nat gone) (wins_bytes h m (us @ p # vs))"
  have s: "?swap \<or> us = []" using msg_okD(4,6) [OF M] by (cases us) auto
  obtain h2 where h2: "(if ?swap then do { h1 \<leftarrow> msg_part_incref p h; (n, h2) \<leftarrow> msg_part_decref (rm_first m) h1; Some h2 } else Some h) = Some h2"
    "heap_ok h2 (plus_ref (Some p) R) L" "msg_ok h2 m2 (p # vs)" "wins_bytes h2 m2 (p # vs) = ?d" "mframe h R h2" "trimmed h h2"
    using advance_part_ok [OF H L M pos gone s] unfolding m2_def [symmetric] Let_def by blast
  have mm: "rm_magic m = RM_INIT_MAGIC" using msg_okD(1) [OF M] .
  have f2: "rm_first m2 = Some p" "rm_first_offset m2 = pos" by (simp_all add: m2_def)
  show ?thesis
  proof (cases unshared)
    case True
    have "mpath h (us @ [p])" using msg_okD(5) [OF M] mpath_dom [OF msg_okD(5) [OF M], of p] by (simp add: mpath_append)
    moreover have "hd (us @ [p]) = the (rm_first m)" "rm_first m \<noteq> None" using msg_okD(4) [OF M] by (cases us; simp)+
    ultimately have "p \<notin> mreach h R" using unshared_unreached [of h "hd (us @ [p])" R L "us @ [p]" p] H u [OF True] by auto
    then have np: "p \<notin> mreach h2 R" using trimmed_reach [OF h2(6)] by blast
    obtain h3 where h3: "upd_part p (\<lambda>y. y\<lparr>mp_offset := pos\<rparr>) h2 = Some h3" "heap_ok h3 (plus_ref (Some p) R) L"
      "msg_ok h3 m2 (p # vs)" "wins_bytes h3 m2 (p # vs) = ?d" "mframe h2 R h3"
      using cut_front [of h2 m2 R L p vs] h2(2,3,4) np unfolding f2 by auto
    have "mholds h3 R L m2 ?d" using h3 unfolding mholds_def f2 by blast
    moreover have "advance_to m p unshared pos gone h = Some (m2, h3)"
      using False True mm h2(1) h3(1) by (auto simp: advance_to_def m2_def split: if_split_asm)
    ultimately show ?thesis using frame_trans [OF h2(5) h3(5)] by blast
  next
    case ns: False
    have "mholds h2 R L m2 ?d" using h2 unfolding mholds_def f2 by blast
    moreover have "advance_to m p unshared pos gone h = Some (m2, h2)"
      using False ns mm h2(1) by (auto simp: advance_to_def m2_def split: if_split_asm)
    ultimately show ?thesis using h2(5) by blast
  qed
qed

section \<open>Dropping bytes at the end\<close>

text \<open>Releasing a reference does not look at parts that are not in its chain.\<close>

lemma buffer_decref_upd:
  "msg_buffer_decref b (h\<lparr>mparts := f\<rparr>) = map_option (\<lambda>h'. h'\<lparr>mparts := f\<rparr>) (msg_buffer_decref b h)"
  "msg_buffer_decref b h = Some h' \<Longrightarrow> mparts h' = mparts h"
  by (cases "mbufs h b"; auto simp: msg_buffer_decref_def)+

lemma decref_upd:
  assumes "chain (nxt h) r cs" "p \<notin> set cs" "mparts h p = Some x" "msg_part_decref r h = Some (n, h')"
  shows "mparts h' p = Some x \<and>
    msg_part_decref r (h\<lparr>mparts := (mparts h)(p \<mapsto> y)\<rparr>) = Some (n, h'\<lparr>mparts := (mparts h')(p \<mapsto> y)\<rparr>)"
  using assms
proof (induction cs arbitrary: r h n)
  case (Cons c cs)
  have c: "r = Some c" "c \<noteq> p" using Cons.prems by auto
  from Cons.prems(4) c obtain z where z: "mparts h c = Some z" by (subst (asm) msg_part_decref.simps) (auto simp: bind_eq_Some_conv)
  show ?case
  proof (cases "mp_refcnt z > 1")
    case True
    then show ?thesis using Cons.prems(3,4) c z
      by (subst msg_part_decref.simps, subst (asm) msg_part_decref.simps) (auto simp: fun_upd_twist)
  next
    case False
    from Cons.prems(4) obtain h1 k h2 where 1: "\<not> mp_locked z" "mp_refcnt z = 1" "msg_buffer_decref (mp_part z) h = Some h1"
      "msg_part_decref (mp_next z) (h1\<lparr>mparts := (mparts h1)(c := None)\<rparr>) = Some (k, h')" "n = k + 1"
      using c z False by (subst (asm) msg_part_decref.simps) (auto simp: bind_eq_Some_conv)
    define h2 where "h2 = h1\<lparr>mparts := (mparts h1)(c := None)\<rparr>"
    have m1: "mparts h1 = mparts h" using buffer_decref_upd(2) [OF 1(3)] .
    have n2: "nxt h2 q = nxt h q" if "q \<noteq> c" for q using that m1 by (simp add: h2_def nxt_def)
    have "nxt h c = mp_next z" using z by (simp add: nxt_def)
    then have "chain (nxt h) (mp_next z) cs" "c \<notin> set cs"
      using Cons.prems(1) c chain_distinct [OF Cons.prems(1)] by simp_all
    then have ch: "chain (nxt h2) (mp_next z) cs" using chain_but n2 by metis
    have p2: "mparts h2 p = Some x" using Cons.prems(3) m1 c by (simp add: h2_def)
    have pc: "p \<notin> set cs" using Cons.prems(2) by simp
    have IH: "mparts h' p = Some x \<and>
        msg_part_decref (mp_next z) (h2\<lparr>mparts := (mparts h2)(p \<mapsto> y)\<rparr>) = Some (k, h'\<lparr>mparts := (mparts h')(p \<mapsto> y)\<rparr>)"
      by (rule Cons.IH [OF ch pc p2 1(4) [folded h2_def]])
    have "h2\<lparr>mparts := (mparts h2)(p \<mapsto> y)\<rparr> = (h1\<lparr>mparts := (mparts h)(p \<mapsto> y, c := None)\<rparr>)"
      using m1 c by (simp add: h2_def fun_upd_twist)
    then have "msg_part_decref r (h\<lparr>mparts := (mparts h)(p \<mapsto> y)\<rparr>) = Some (n, h'\<lparr>mparts := (mparts h')(p \<mapsto> y)\<rparr>)"
      using IH 1 c z unfolding c(1) by (subst msg_part_decref.simps) (simp add: buffer_decref_upd(1))
    then show ?thesis using IH by blast
  qed
qed simp

lemma trimmed_count:
  assumes t: "trimmed h h'" and H: "heap_ok h R L" and H': "heap_ok h' R' L'" and le: "R' q \<le> R q" and x': "mparts h' q = Some x'"
    and one: "mp_refcnt (prt h q) = 1"
  shows "mp_refcnt x' = 1"
proof -
  obtain x where x: "mparts h q = Some x" using trimmed_part [OF t x'] by blast
  have "preds h' q \<subseteq> preds h q"
  proof
    fix r
    assume "r \<in> preds h' q"
    then obtain z where z: "mparts h' r = Some z" "mp_next z = Some q" by (auto simp: preds_def nxt_Some)
    then show "r \<in> preds h q" using trimmed_part [OF t z(1)] by (auto simp: preds_def nxt_Some)
  qed
  then have "card (preds h' q) \<le> card (preds h q)" by (rule card_mono [OF finite_preds [OF H]])
  moreover have "R q + card (preds h q) = 1" using part_okD(6) [OF heap_okD(4) [OF H x]] one x by (simp add: prt_def)
  moreover have "mp_refcnt x' = int (R' q + card (preds h' q))" "mp_refcnt x' > 0" using part_okD(6,7) [OF heap_okD(4) [OF H' x']] by simp_all
  ultimately show ?thesis using le by simp
qed

text \<open>Parts that others can reach keep their end and their successor.\<close>

definition stable :: "msg_heap \<Rightarrow> (nat \<Rightarrow> nat) \<Rightarrow> msg_heap \<Rightarrow> bool" where
  "stable h R h' \<longleftrightarrow> (\<forall>q\<in>mreach h R. mp_next (prt h' q) = mp_next (prt h q) \<and> mp_data_end (prt h' q) = mp_data_end (prt h q))"

lemma stable_refl: "stable h R h"
  by (simp add: stable_def)

lemma stable_trans: "stable h R h' \<Longrightarrow> mframe h R h' \<Longrightarrow> stable h' R h'' \<Longrightarrow> stable h R h''"
  unfolding stable_def using frame_reach [of h R h'] by auto

lemma frame_alive: "mframe h R h' \<Longrightarrow> q \<in> mreach h R \<Longrightarrow> \<exists>x x'. mparts h q = Some x \<and> mparts h' q = Some x'"
  unfolding mframe_def same_view_def by blast

lemma trimmed_stable: "trimmed h h' \<Longrightarrow> mframe h R h' \<Longrightarrow> stable h R h'"
  unfolding stable_def prt_def using frame_alive [of h R h'] trimmed_part [of h h'] by fastforce

lemma stable_less: "stable h (plus_ref r R) h' \<Longrightarrow> stable h R h'"
  unfolding stable_def using reach_more by blast

text \<open>The last part of a message is cut off from what follows it.\<close>

lemma drop_tail_ok:
  assumes H: "heap_ok h (plus_ref (rm_first m) R) L" and L: "L \<subseteq> mreach h R" and M: "msg_ok h m (us @ [p])"
    and u: "p \<notin> mreach h R" and x: "mparts h p = Some x"
  shows "\<exists>n h2 h3. msg_part_decref (mp_next x) h = Some (n, h2) \<and> upd_part p (\<lambda>y. y\<lparr>mp_next := None\<rparr>) h2 = Some h3 \<and>
    heap_ok h3 (plus_ref (rm_first m) R) L \<and> msg_ok h3 m (us @ [p]) \<and> wins_bytes h3 m (us @ [p]) = wins_bytes h m (us @ [p]) \<and>
    mframe h R h3 \<and> (\<exists>x3. mparts h3 p = Some x3 \<and> mp_next x3 = None \<and> mp_data_end x3 = mp_data_end x) \<and>
    (\<forall>q x3. mparts h3 q = Some x3 \<longrightarrow> mp_offset x3 = mp_offset (prt h q) \<and> (mp_refcnt (prt h q) = 1 \<longrightarrow> mp_refcnt x3 = 1)) \<and>
    stable h R h3"
proof -
  let ?R = "plus_ref (rm_first m) R"
  define h1 where "h1 = h\<lparr>mparts := (mparts h)(p \<mapsto> x\<lparr>mp_next := None\<rparr>)\<rparr>"
  have p1: "mparts h1 p = Some (x\<lparr>mp_next := None\<rparr>)" by (simp add: h1_def)
  have H1: "heap_ok h1 (plus_ref (mp_next x) ?R) L"
    unfolding h1_def using relink_ok [of h None ?R L p x "mp_next x"] H x by simp
  have "msg_ok h1 m (us @ [p]) \<and> wins_bytes h1 m (us @ [p]) = wins_bytes h m (us @ [p])"
    unfolding h1_def using msg_okD(4,7) [OF M] x by (intro window_msg [OF M _ x]) (auto simp: prt_def hd_append split: if_split_asm)
  then have M1: "msg_ok h1 m (us @ [p])" "wins_bytes h1 m (us @ [p]) = wins_bytes h m (us @ [p])" by blast+
  have F1: "mframe h R h1" unfolding h1_def using frame_upd [OF H, of R p] plus_ref_le u by blast
  obtain n h2 where h2: "msg_part_decref (mp_next x) h1 = Some (n, h2)" "heap_ok h2 ?R L" "mframe h1 ?R h2" "trimmed h1 h2"
    using decref_frame [OF H1] locked_reach [OF L F1] by blast
  have M2: "msg_ok h2 m (us @ [p])" "wins_bytes h2 m (us @ [p]) = wins_bytes h m (us @ [p])"
    using frame_msg [OF H1 h2(3) M1(1)] M1(2) by auto
  have "mparts h p \<noteq> None" using x by simp
  then obtain cs where cs: "chain (nxt h) (Some p) cs" using heap_okD(7) [OF H] by blast
  then obtain ds where ds: "chain (nxt h) (mp_next x) ds" "p \<notin> set ds"
    using chain_distinct [OF cs] x by (auto simp: chain_Some nxt_def)
  have n1: "\<forall>q. q \<noteq> p \<longrightarrow> nxt h1 q = nxt h q" by (simp add: h1_def nxt_def)
  have d: "mparts h2 p = Some (x\<lparr>mp_next := None\<rparr>)" and
    dd: "msg_part_decref (mp_next x) (h1\<lparr>mparts := (mparts h1)(p \<mapsto> x)\<rparr>) = Some (n, h2\<lparr>mparts := (mparts h2)(p \<mapsto> x)\<rparr>)"
    using decref_upd [OF chain_but [OF ds n1] ds(2) p1 h2(1)] by blast+
  have "h1\<lparr>mparts := (mparts h1)(p \<mapsto> x)\<rparr> = h" using x by (simp add: h1_def fun_upd_idem)
  then have 1: "msg_part_decref (mp_next x) h = Some (n, h2\<lparr>mparts := (mparts h2)(p \<mapsto> x)\<rparr>)" using dd by simp
  have 2: "upd_part p (\<lambda>y. y\<lparr>mp_next := None\<rparr>) (h2\<lparr>mparts := (mparts h2)(p \<mapsto> x)\<rparr>) = Some h2"
    using d by (simp add: upd_part_def fun_upd_idem)
  have pr: "mp_refcnt (prt h1 q) = mp_refcnt (prt h q)" "mp_offset (prt h1 q) = mp_offset (prt h q)" for q
    using x by (auto simp: h1_def prt_def)
  have c: "mp_offset x3 = mp_offset (prt h q) \<and> (mp_refcnt (prt h q) = 1 \<longrightarrow> mp_refcnt x3 = 1)" if x3: "mparts h2 q = Some x3" for q x3
  proof -
    have "mp_offset x3 = mp_offset (prt h1 q)" using trimmed_part [OF h2(4) x3] by (auto simp: prt_def)
    then show ?thesis using trimmed_count [OF h2(4) H1 h2(2) plus_ref_le x3] by (simp add: pr)
  qed
  have "stable h R h1" using u by (auto simp: stable_def h1_def prt_def)
  then have st: "stable h R h2" using stable_trans F1 trimmed_stable [OF h2(4) frame_less [OF h2(3)]] by blast
  have "mframe h R h2" using frame_trans [OF F1 frame_less [OF h2(3)]] .
  then show ?thesis using 1 2 h2(2) M2 d c st by auto
qed

lemma reach_upd:
  assumes "mparts h p = Some x" "mp_next x' = mp_next x"
  shows "mreach (h\<lparr>mparts := (mparts h)(p \<mapsto> x')\<rparr>) R = mreach h R"
proof -
  have "nxt (h\<lparr>mparts := (mparts h)(p \<mapsto> x')\<rparr>) = nxt h" using assms by (auto simp: nxt_def fun_eq_iff)
  then show ?thesis
    using mreach_links [of _ h R "h\<lparr>mparts := (mparts h)(p \<mapsto> x')\<rparr>"] mreach_links [of _ "h\<lparr>mparts := (mparts h)(p \<mapsto> x')\<rparr>" R h] by auto
qed

lemma truncate_at_ok:
  assumes H: "heap_ok h (plus_ref (rm_first m) R) L" and L: "L \<subseteq> mreach h R" and M: "msg_ok h m (us @ p # vs)"
    and pos: "win_start h m p \<le> pos" "pos \<le> win_end h m p"
    and keep: "keep = (\<Sum>q\<leftarrow>us. win_size h m q) + (pos - win_start h m p)"
    and u: "unshared \<Longrightarrow> \<forall>u\<in>set (us @ [p]). mp_refcnt (prt h u) = 1"
  shows "\<exists>m' h'. truncate_at m p unshared pos keep h = Some (m', h') \<and>
    mholds h' R L m' (take (nat keep) (wins_bytes h m (us @ p # vs))) \<and> mframe h R h'"
proof (cases "keep = 0")
  case True
  have "mholds h R L m (wins_bytes h m (us @ p # vs))" using H M by (auto simp: mholds_def)
  from rwm_clear_ok [OF this L] show ?thesis using True by (auto simp: truncate_at_def)
next
  case False
  define m2 where "m2 = m\<lparr>rm_last := Some p, rm_last_offset := pos, rm_total_bytes := keep\<rparr>"
  let ?d = "take (nat keep) (wins_bytes h m (us @ p # vs))"
  have M2: "msg_ok h m2 (us @ [p])" "wins_bytes h m2 (us @ [p]) = ?d"
    using msg_prefix [OF H M pos keep] by (simp_all add: m2_def)
  have f2: "rm_first m2 = rm_first m" "rm_last_offset m2 = pos" by (simp_all add: m2_def)
  have e2: "m\<lparr>rm_total_bytes := keep, rm_last := Some p, rm_last_offset := pos\<rparr> = m2" by (simp add: m2_def)
  show ?thesis
  proof (cases unshared)
    case True
    have "hd (us @ [p]) = the (rm_first m)" "rm_first m \<noteq> None" using msg_okD(4) [OF M] by (cases us; simp)+
    then have np: "p \<notin> mreach h R"
      using unshared_unreached [of h "hd (us @ [p])" R L "us @ [p]" p] H u [OF True] msg_okD(5) [OF M2(1)] by auto
    obtain x where x: "mparts h p = Some x" using mpath_dom [OF msg_okD(5) [OF M], of p] by auto
    define h1 where "h1 = h\<lparr>mparts := (mparts h)(p \<mapsto> x\<lparr>mp_data_end := pos\<rparr>)\<rparr>"
    have h1: "upd_part p (\<lambda>y. y\<lparr>mp_data_end := pos\<rparr>) h = Some h1" "mparts h1 p = Some (x\<lparr>mp_data_end := pos\<rparr>)"
      "mreach h1 R = mreach h R"
      using x reach_upd [of h p x "x\<lparr>mp_data_end := pos\<rparr>"] by (simp_all add: upd_part_some h1_def)
    have c: "heap_ok h1 (plus_ref (rm_first m) R) L" "msg_ok h1 m2 (us @ [p])" "wins_bytes h1 m2 (us @ [p]) = ?d" "mframe h R h1"
      using cut_back [of h m2 R L us p] H M2 np h1(1) unfolding f2 by auto
    obtain n h2 h3 where h3: "msg_part_decref (mp_next x) h1 = Some (n, h2)" "upd_part p (\<lambda>y. y\<lparr>mp_next := None\<rparr>) h2 = Some h3"
      "heap_ok h3 (plus_ref (rm_first m) R) L" "msg_ok h3 m2 (us @ [p])" "wins_bytes h3 m2 (us @ [p]) = ?d" "mframe h1 R h3"
      using drop_tail_ok [of h1 m2 R L us p "x\<lparr>mp_data_end := pos\<rparr>"] h1 c L np unfolding f2 by auto
    have "truncate_at m p unshared pos keep h = Some (m2, h3)"
      using False True x h1(1) h3(1,2) by (simp add: truncate_at_def e2 Let_def)
    moreover have "mholds h3 R L m2 ?d" using h3 unfolding mholds_def f2 by blast
    ultimately show ?thesis using frame_trans [OF c(4) h3(6)] by blast
  next
    case ns: False
    have "mholds h R L m2 ?d" using H M2 unfolding mholds_def f2 by blast
    moreover have "truncate_at m p unshared pos keep h = Some (m2, h)" using False ns by (simp add: truncate_at_def e2 Let_def)
    ultimately show ?thesis using frame_self [OF H] by blast
  qed
qed

section \<open>Processing\<close>

lemma suffix_bytes:
  assumes H: "heap_ok h R L" and M: "msg_ok h m (us @ p # vs)" and pos: "win_start h m p \<le> pos" "pos \<le> win_end h m p"
    and gone: "gone = (\<Sum>q\<leftarrow>us. win_size h m q) + (pos - win_start h m p)"
  shows "drop (nat gone) (wins_bytes h m (us @ p # vs)) =
    mslice (bdata h (mp_part (prt h p))) pos (win_end h m p) @ wins_bytes h m vs"
proof -
  note bp = win_bounds [OF H M, of p]
  have "int (length (wins_bytes h m us)) = (\<Sum>q\<leftarrow>us. win_size h m q)" using length_wins_bytes [OF H M, of us] by auto
  then have n: "nat gone = length (wins_bytes h m us) + nat (pos - win_start h m p)" using gone pos(1) by linarith
  have "mslice (bdata h (mp_part (prt h p))) pos (win_end h m p) = drop (nat (pos - win_start h m p)) (win_bytes h m p)"
    using slice_drop [of "win_start h m p" pos "win_end h m p"] bp pos by (simp add: win_bytes_def)
  moreover have "nat (pos - win_start h m p) \<le> length (win_bytes h m p)" using length_win_bytes [OF H M, of p] pos by simp
  ultimately show ?thesis unfolding n by simp
qed

text \<open>What is left of the content.\<close>

definition after_process :: "nat \<Rightarrow> nat \<Rightarrow> nat \<Rightarrow> bytes \<Rightarrow> bytes" where
  "after_process flags off n d = (if flags = RMPF_ADVANCE then drop (off + n) d else if flags = RMPF_TRUNCATE then take off d else d)"

lemma flag_simps: "RMPF_ADVANCE = 1" "RMPF_TRUNCATE = 2" "0 AND n = (0::nat)" "(1::nat) AND 2 = 0" "(2::nat) AND 1 = 0"
  "(1::nat) AND 1 = 1" "(2::nat) AND 2 = 2"
  by (simp_all add: RMPF_ADVANCE_def RMPF_TRUNCATE_def)

lemma process_last_ok:
  assumes H: "heap_ok h (plus_ref (rm_first m) R) L" and L: "L \<subseteq> mreach h R" and M: "msg_ok h m (us @ [l])"
    and pb: "reads_blocks f pb" and fl: "flags \<in> {0, RMPF_ADVANCE, RMPF_TRUNCATE}"
    and off: "0 \<le> off" "rm_total_bytes m - off \<le> rm_last_offset m - mp_offset (prt h l)" "0 < bytes" "off + bytes \<le> rm_total_bytes m"
  defines "d \<equiv> wins_bytes h m (us @ [l])"
  shows "\<exists>m' h'. process_last m l bytes off flags pb e h = Some (bytes, m', f e (take (nat bytes) (drop (nat off) d)), h') \<and>
    mholds h' R L m' (after_process flags (nat off) (nat bytes) d) \<and> mframe h R h'"
proof -
  obtain y where y: "mparts h l = Some y" using mpath_dom [OF msg_okD(5) [OF M], of l] by auto
  note bl = win_bounds [OF H M, of l]
  have fl': "rm_last m = Some l" "rm_first m = Some (hd (us @ [l]))" using msg_okD(4) [OF M] by simp_all
  have we: "win_end h m l = rm_last_offset m" using fl' by (simp add: win_end_def part_end_def)
  have tot: "rm_total_bytes m = (\<Sum>q\<leftarrow>us. win_size h m q) + win_size h m l" using msg_okD(9) [OF M] by simp
  define pos where "pos = rm_last_offset m - (rm_total_bytes m - off)"
  have ws: "win_start h m l \<le> pos"
  proof (cases us)
    case Nil
    then show ?thesis using tot off(1) we by (simp add: pos_def)
  next
    case (Cons a as)
    then have "a \<noteq> l" using msg_okD(6) [OF M] by auto
    then have "win_start h m l = mp_offset (prt h l)" using fl' Cons by (simp add: win_start_def part_start_def)
    then show ?thesis using off(2) by (simp add: pos_def)
  qed
  have pe: "pos + bytes \<le> win_end h m l" using off(4) we by (simp add: pos_def)
  have keep: "off = (\<Sum>q\<leftarrow>us. win_size h m q) + (pos - win_start h m l)" using tot we by (simp add: pos_def)
  have dat: "drop (nat off) d = mslice (bdata h (mp_part y)) pos (win_end h m l)"
    using suffix_bytes [of h _ L m us l "[]" pos off] H M ws pe off(3) keep y by (simp add: d_def prt_def)
  have "get_bytes (mp_part y) pos bytes h = Some (mslice (bdata h (mp_part y)) pos (pos + bytes))"
    using get_bytes_win [OF H y, of pos bytes] ws bl pe off(3) y by (simp add: prt_def)
  moreover have "mslice (bdata h (mp_part y)) pos (pos + bytes) = take (nat bytes) (drop (nat off) d)"
    using slice_take [of pos "pos + bytes" "win_end h m l" "bdata h (mp_part y)"] ws bl pe off(3) by (simp add: dat)
  ultimately have g: "get_bytes (mp_part y) (rm_last_offset m - (rm_total_bytes m - off)) bytes h = Some (take (nat bytes) (drop (nat off) d))"
    by (simp add: pos_def)
  have cb: "pb e (take (nat bytes) (drop (nat off) d)) h = Some (0, f e (take (nat bytes) (drop (nat off) d)), h)"
    using pb by (simp add: reads_blocks_def)
  have mg: "rm_magic m = RM_INIT_MAGIC" using msg_okD(1) [OF M] .
  consider "flags = 0" | "flags = RMPF_ADVANCE" | "flags = RMPF_TRUNCATE" using fl by blast
  then show ?thesis
  proof cases
    case 1
    have "mholds h R L m d" using H M by (auto simp: mholds_def d_def)
    then show ?thesis using y g cb frame_self [OF H] 1
      by (simp add: process_last_def after_process_def flag_simps Let_def)
  next
    case 2
    have gone: "off + bytes = (\<Sum>q\<leftarrow>us. win_size h m q) + (pos + bytes - win_start h m l)" using keep by simp
    have nn: "nat (off + bytes) = nat off + nat bytes" using off by simp
    obtain h1 n h2 where h: "msg_part_incref l h = Some h1" "msg_part_decref (rm_first m) h1 = Some (n, h2)"
      and r: "heap_ok h2 (plus_ref (Some l) R) L" "msg_ok h2 (m\<lparr>rm_first := Some l, rm_first_offset := pos + bytes, rm_total_bytes := rm_total_bytes m - (off + bytes)\<rparr>) [l]"
        "wins_bytes h2 (m\<lparr>rm_first := Some l, rm_first_offset := pos + bytes, rm_total_bytes := rm_total_bytes m - (off + bytes)\<rparr>) [l] =
          drop (nat off + nat bytes) d" "mframe h R h2"
      using advance_part_ok [OF H L M _ pe gone, of True] ws off(3) unfolding nn d_def Let_def
      by (auto simp: bind_eq_Some_conv)
    have "mholds h2 R L (m\<lparr>rm_first := Some l, rm_first_offset := pos + bytes, rm_total_bytes := rm_total_bytes m - (off + bytes)\<rparr>) (drop (nat off + nat bytes) d)"
      using r unfolding mholds_def by auto
    then show ?thesis using y g cb h mg r(4) 2
      by (simp add: process_last_def after_process_def flag_simps Let_def pos_def)
  next
    case 3
    define m2 where "m2 = m\<lparr>rm_last := Some l, rm_last_offset := pos, rm_total_bytes := off\<rparr>"
    have "msg_ok h m2 (us @ [l]) \<and> wins_bytes h m2 (us @ [l]) = take (nat off) d"
      using msg_prefix [of h _ L m us l "[]" pos off] H M ws pe off(3) keep by (simp add: m2_def d_def)
    then have "mholds h R L m2 (take (nat off) d)" using H unfolding mholds_def by (auto simp: m2_def)
    moreover have "m\<lparr>rm_total_bytes := rm_total_bytes m - (rm_total_bytes m - off), rm_last_offset := rm_last_offset m - (rm_total_bytes m - off)\<rparr> = m2"
      using fl' by (cases m) (simp add: m2_def pos_def)
    ultimately show ?thesis using y g cb frame_self [OF H] 3
      by (simp add: process_last_def after_process_def flag_simps Let_def)
  qed
qed

lemma clear_empty_ok:
  assumes m: "mholds h R L m d" and L: "L \<subseteq> mreach h R"
  shows "\<exists>m' h'. (if rm_total_bytes m = 0 then rwm_clear m h else Some (m, h)) = Some (m', h') \<and> mholds h' R L m' d \<and> mframe h R h'"
proof (cases "rm_total_bytes m = 0")
  case True
  then have "d = []" using holds_total [OF m] by simp
  then show ?thesis using True rwm_clear_ok [OF m L] by auto
next
  case False
  then show ?thesis using m frame_self [of h "rm_first m" R L] by (auto simp: mholds_def)
qed

lemma process_chain_ok:
  assumes H: "heap_ok h (plus_ref (rm_first m) R) L" and L: "L \<subseteq> mreach h R" and M: "msg_ok h m ps" and ps: "ps \<noteq> []"
    and pb: "reads_blocks f pb" and fl: "flags \<in> {0, RMPF_ADVANCE, RMPF_TRUNCATE}"
    and off: "0 \<le> off" "0 < bytes" "off + bytes \<le> rm_total_bytes m"
  defines "d \<equiv> wins_bytes h m ps"
  shows "\<exists>m' h'. process_chain m bytes off flags pb e h = Some (bytes, m', f e (take (nat bytes) (drop (nat off) d)), h') \<and>
    mholds h' R L m' (after_process flags (nat off) (nat bytes) d) \<and> mframe h R h'"
proof -
  have first: "rm_first m = Some (hd ps)" using msg_okD(4) [OF M ps] by simp
  have "off \<le> (\<Sum>q\<leftarrow>ps. win_size h m q)" using off msg_okD(9) [OF M] by simp
  then obtain us p vs where s: "ps = us @ p # vs"
    "process_seek m (rm_first m) True off h = Some (p, True \<and> (\<forall>u\<in>set (us @ [p]). mp_refcnt (prt h u) = 1),
      win_start h m p + (off - (\<Sum>q\<leftarrow>us. win_size h m q)), win_size h m p - (off - (\<Sum>q\<leftarrow>us. win_size h m q)))"
    "0 \<le> off - (\<Sum>q\<leftarrow>us. win_size h m q)" "off - (\<Sum>q\<leftarrow>us. win_size h m q) \<le> win_size h m p"
    using process_seek_ok [of h m "[]" ps off True] M ps off(1) first by auto
  define start where "start = win_start h m p + (off - (\<Sum>q\<leftarrow>us. win_size h m q))"
  define un where "un = (\<forall>u\<in>set (us @ [p]). mp_refcnt (prt h u) = 1)"
  have M': "msg_ok h m (us @ p # vs)" using M s(1) by simp
  have st: "win_start h m p \<le> start" "start \<le> win_end h m p" using s(3,4) by (simp_all add: start_def)
  have keep: "off = (\<Sum>q\<leftarrow>us. win_size h m q) + (start - win_start h m p)" by (simp add: start_def)
  have seek: "process_seek m (rm_first m) True off h = Some (p, un, start, win_end h m p - start)"
    using s(2) by (simp add: start_def un_def algebra_simps)
  have "bytes \<le> (win_end h m p - start) + (\<Sum>q\<leftarrow>vs. win_size h m q)" using off(3) msg_okD(9) [OF M'] by (simp add: start_def)
  from process_blocks_ok [OF H M' pb st off(2) this, of un e] obtain us' p' vs' start' where
    b0: "p # vs = us' @ p' # vs'"
    "process_blocks pb m p un start (win_end h m p - start) bytes e h =
      Some (0, p', un \<and> (\<forall>u\<in>set (tl (us' @ [p'])). mp_refcnt (prt h u) = 1), start',
        bytes - ((\<Sum>q\<leftarrow>us'. win_size h m q) - (if us' = [] then 0 else start - win_start h m p)),
        f e (take (nat bytes) (mslice (bdata h (mp_part (prt h p))) start (win_end h m p) @ wins_bytes h m vs)), h)"
    "start' = (if us' = [] then start else win_start h m p')"
    "0 \<le> bytes - ((\<Sum>q\<leftarrow>us'. win_size h m q) - (if us' = [] then 0 else start - win_start h m p))"
    "start' + (bytes - ((\<Sum>q\<leftarrow>us'. win_size h m q) - (if us' = [] then 0 else start - win_start h m p))) \<le> win_end h m p'"
    by (elim exE conjE) (rule that)
  define n' where "n' = bytes - ((\<Sum>q\<leftarrow>us'. win_size h m q) - (if us' = [] then 0 else start - win_start h m p))"
  define un' where "un' = (un \<and> (\<forall>u\<in>set (tl (us' @ [p'])). mp_refcnt (prt h u) = 1))"
  note b = b0 [folded n'_def un'_def]
  let ?e = "f e (take (nat bytes) (drop (nat off) d))"
  have blocks: "process_blocks pb m p un start (win_end h m p - start) bytes e h = Some (0, p', un', start', n', ?e, h)"
    using b(2) suffix_bytes [OF H M' st keep] by (simp add: d_def s(1))
  have M2: "msg_ok h m ((us @ us') @ p' # vs')" using M' b(1) by simp
  have d2: "wins_bytes h m ((us @ us') @ p' # vs') = d" using s(1) b(1) by (simp add: d_def del: wins_bytes_simps)
  have pos: "win_start h m p' \<le> start' + n'" "start' + n' \<le> win_end h m p'" using b(1,3,4,5) st by (cases us'; auto)+
  have gone: "off + bytes = (\<Sum>q\<leftarrow>us @ us'. win_size h m q) + (start' + n' - win_start h m p')"
    using b(1,3) keep by (cases us') (auto simp: n'_def)
  have un: "\<forall>u\<in>set ((us @ us') @ [p']). mp_refcnt (prt h u) = 1" if un'
    using that b(1) by (cases us') (auto simp: un'_def un_def)
  have nn: "nat (off + bytes) = nat off + nat bytes" using off by simp
  let ?d' = "after_process flags (nat off) (nat bytes) d"
  have "\<exists>m1 h1 m2 h2. (if flags AND RMPF_ADVANCE \<noteq> 0 then advance_to m p' un' (start' + n') (off + bytes) h else Some (m, h)) = Some (m1, h1) \<and>
    (if flags AND RMPF_TRUNCATE \<noteq> 0 then truncate_at m1 p un start off h1 else Some (m1, h1)) = Some (m2, h2) \<and>
    mholds h2 R L m2 ?d' \<and> mframe h R h2"
  proof -
    consider "flags = 0" | "flags = RMPF_ADVANCE" | "flags = RMPF_TRUNCATE" using fl by blast
    then show ?thesis
    proof cases
      case 1
      then show ?thesis using H M frame_self [OF H] by (auto simp: mholds_def d_def after_process_def flag_simps)
    next
      case 2
      then show ?thesis using advance_to_ok [OF H L M2 pos gone un] unfolding d2 nn by (auto simp: after_process_def flag_simps)
    next
      case 3
      have "un \<Longrightarrow> \<forall>u\<in>set (us @ [p]). mp_refcnt (prt h u) = 1" by (simp add: un_def)
      then show ?thesis using 3 truncate_at_ok [OF H L M' st keep, of un] s(1) by (auto simp: after_process_def flag_simps d_def)
    qed
  qed
  then obtain m1 h1 m2 h2 where
    1: "(if flags AND RMPF_ADVANCE \<noteq> 0 then advance_to m p' un' (start' + n') (off + bytes) h else Some (m, h)) = Some (m1, h1)" and
    2: "(if flags AND RMPF_TRUNCATE \<noteq> 0 then truncate_at m1 p un start off h1 else Some (m1, h1)) = Some (m2, h2)" and
    m2: "mholds h2 R L m2 ?d'" "mframe h R h2" by blast
  have "L \<subseteq> mreach h2 R" using L frame_reach [OF m2(2)] by blast
  then obtain m3 h3 where 3: "(if rm_total_bytes m2 = 0 then rwm_clear m2 h2 else Some (m2, h2)) = Some (m3, h3)" "mholds h3 R L m3 ?d'" "mframe h2 R h3"
    using clear_empty_ok [OF m2(1)] by blast
  have "process_chain m bytes off flags pb e h = Some (bytes, m3, ?e, h3)"
    using seek blocks 1 2 3(1) by (simp add: process_chain_def)
  then show ?thesis using 3(2) frame_trans [OF m2(2) 3(3)] by blast
qed

lemma rwm_process_ex_ok:
  assumes m: "mholds h R L m d" and L: "L \<subseteq> mreach h R" and pb: "reads_blocks f pb" and fl: "flags \<in> {0, RMPF_ADVANCE, RMPF_TRUNCATE}"
    and n: "0 \<le> bytes" "0 \<le> off"
  defines "k \<equiv> min bytes (int (length d) - off)"
  shows "\<exists>m' h'. rwm_process_ex m bytes off flags pb e h =
      Some (max 0 k, m', f e (take (nat k) (drop (nat off) d)), h') \<and>
    mholds h' R L m' (if k \<le> 0 then d else after_process flags (nat off) (nat k) d) \<and> mframe h R h'"
proof -
  obtain ps where M: "msg_ok h m ps" "wins_bytes h m ps = d" and H: "heap_ok h (plus_ref (rm_first m) R) L"
    using m by (auto simp: mholds_def)
  have g: "rm_live m" using msg_okD(1) [OF M(1)] by (simp add: rm_live_def)
  have tot: "rm_total_bytes m = int (length d)" using holds_total [OF m] .
  have k: "(if bytes + off > rm_total_bytes m then rm_total_bytes m - off else bytes) = k" by (simp add: k_def tot min_def)
  show ?thesis
  proof (cases "k \<le> 0")
    case True
    have "f e [] = e" using pb by (simp add: reads_blocks_def)
    then show ?thesis using True g n m frame_self [OF H] by (simp add: rwm_process_ex_def k Let_def max_def)
  next
    case False
    have ps: "ps \<noteq> []" using False M(2) n(2) by (auto simp: k_def min_def split: if_split_asm)
    then obtain us l where ul: "ps = us @ [l]" by (metis rev_exhaust)
    have lst: "rm_last m = Some l" using msg_okD(4) [OF M(1) ps] ul by simp
    obtain y where y: "mparts h l = Some y" using mpath_dom [OF msg_okD(5) [OF M(1)], of l] ul by auto
    have le: "off + k \<le> rm_total_bytes m" "0 < k" using False by (auto simp: k_def tot)
    show ?thesis
    proof (cases "rm_total_bytes m - off \<le> rm_last_offset m - mp_offset y")
      case True
      then have t: "rm_total_bytes m - off \<le> rm_last_offset m - mp_offset (prt h l)" using y by (simp add: prt_def)
      have e1: "rwm_process_ex m bytes off flags pb e h = process_last m l k off flags pb e h"
        using True False g n lst y by (simp add: rwm_process_ex_def k Let_def)
      have e2: "max 0 k = k" using le by simp
      show ?thesis using process_last_ok [OF H L M(1) [unfolded ul] pb fl n(2) t le(2,1), of e] M(2) False unfolding e1 e2 ul by (simp del: wins_bytes_simps)
    next
      case nl: False
      have e1: "rwm_process_ex m bytes off flags pb e h = process_chain m k off flags pb e h"
        using nl False g n lst y by (simp add: rwm_process_ex_def k Let_def)
      have e2: "max 0 k = k" using le by simp
      show ?thesis using process_chain_ok [OF H L M(1) ps pb fl n(2) le(2,1), of e] M(2) False unfolding e1 e2 by simp
    qed
  qed
qed

section \<open>The operations that read\<close>

lemma rwm_fetch_data_ok:
  assumes "mholds h R L m d" "L \<subseteq> mreach h R" "0 \<le> n"
  shows "\<exists>m' h'. rwm_fetch_data m n h = Some (min n (int (length d)), m', take (nat n) d, h') \<and>
    mholds h' R L m' (drop (nat n) d) \<and> mframe h R h'"
  using rwm_process_ex_ok [OF assms(1,2) memcpy_reads, of RMPF_ADVANCE n 0 "[]"] assms(3)
  by (auto simp: rwm_fetch_data_def rwm_process_and_advance_def after_process_def min_def max_def split: if_split_asm)

lemma rwm_skip_data_ok:
  assumes "mholds h R L m d" "L \<subseteq> mreach h R" "0 \<le> n"
  shows "\<exists>m' h'. rwm_skip_data m n h = Some (min n (int (length d)), m', [], h') \<and>
    mholds h' R L m' (drop (nat n) d) \<and> mframe h R h'"
  using rwm_process_ex_ok [OF assms(1,2) nop_reads, of RMPF_ADVANCE n 0 "[]"] assms(3)
  by (auto simp: rwm_skip_data_def rwm_process_and_advance_def after_process_def min_def max_def split: if_split_asm)

lemma rwm_fetch_lookup_ok:
  assumes "mholds h R L m d" "L \<subseteq> mreach h R" "0 \<le> n"
  shows "\<exists>m' h'. rwm_fetch_lookup m n h = Some (min n (int (length d)), m', take (nat n) d, h') \<and>
    mholds h' R L m' d \<and> mframe h R h'"
  using rwm_process_ex_ok [OF assms(1,2) memcpy_reads, of 0 n 0 "[]"] assms(3)
  by (auto simp: rwm_fetch_lookup_def rwm_process_def after_process_def RMPF_ADVANCE_def RMPF_TRUNCATE_def min_def max_def split: if_split_asm)

lemma rwm_fetch_data_back_ok:
  assumes m: "mholds h R L m d" and L: "L \<subseteq> mreach h R" and n: "0 \<le> n" "n \<le> int (length d)"
  shows "\<exists>m' h'. rwm_fetch_data_back m n h = Some (n, m', drop (length d - nat n) d, h') \<and>
    mholds h' R L m' (take (length d - nat n) d) \<and> mframe h R h'"
proof -
  have g: "rm_live m" using holds_magic [OF m] by (simp add: rm_live_def)
  have t: "rm_total_bytes m = int (length d)" using holds_total [OF m] .
  show ?thesis
  proof (cases "n = 0")
    case True
    have "mframe h R h" using m frame_self by (auto simp: mholds_def)
    then show ?thesis using True g t m by (auto simp: rwm_fetch_data_back_def Let_def)
  next
    case False
    then have "nat (int (length d) - n) = length d - nat n" using n by simp
    then show ?thesis
      using rwm_process_ex_ok [OF m L memcpy_reads, of RMPF_TRUNCATE n "int (length d) - n" "[]"] n g t False
      by (auto simp: rwm_fetch_data_back_def after_process_def RMPF_ADVANCE_def RMPF_TRUNCATE_def Let_def)
  qed
qed

lemma rwm_trunc_ok:
  assumes m: "mholds h R L m d" and L: "L \<subseteq> mreach h R" and n: "0 \<le> n"
  shows "\<exists>m' h'. rwm_trunc m n h = Some (min n (int (length d)), m', h') \<and> mholds h' R L m' (take (nat n) d) \<and> mframe h R h'"
proof -
  have g: "rm_live m" using holds_magic [OF m] by (simp add: rm_live_def)
  have t: "rm_total_bytes m = int (length d)" using holds_total [OF m] .
  show ?thesis
  proof (cases "n \<ge> int (length d)")
    case True
    have "mframe h R h" using m frame_self by (auto simp: mholds_def)
    then show ?thesis using True g t m by (auto simp: rwm_trunc_def)
  next
    case False
    have e: "length d - nat (int (length d) - n) = nat n" using False n by simp
    obtain m' h' where r: "rwm_fetch_data_back m (int (length d) - n) h = Some (int (length d) - n, m', drop (nat n) d, h')"
      "mholds h' R L m' (take (nat n) d)" "mframe h R h'"
      using rwm_fetch_data_back_ok [OF m L, of "int (length d) - n"] False n unfolding e by auto
    then show ?thesis using False g t by (auto simp: rwm_trunc_def)
  qed
qed

section \<open>Splitting\<close>

lemma split_part_ok:
  assumes H: "heap_ok h (plus_ref (rm_first m) R) L" and M: "msg_ok h m (us @ p # vs)"
    and pos: "win_start h m p \<le> pos" "pos \<le> win_end h m p"
    and keep: "keep = (\<Sum>q\<leftarrow>us. win_size h m q) + (pos - win_start h m p)"
  defines "d \<equiv> wins_bytes h m (us @ p # vs)"
    and "m1 \<equiv> m\<lparr>rm_last := Some p, rm_last_offset := pos, rm_total_bytes := keep\<rparr>"
    and "m2 \<equiv> m\<lparr>rm_first := Some p, rm_first_offset := pos, rm_total_bytes := rm_total_bytes m - keep\<rparr>"
  shows "\<exists>h'. msg_part_incref p h = Some h' \<and> mholds h' (plus_ref (rm_first m2) R) L m1 (take (nat keep) d) \<and>
    mholds h' (plus_ref (rm_first m1) R) L m2 (drop (nat keep) d) \<and> mframe h R h'"
proof -
  have p: "mparts h p \<noteq> None" using mpath_dom [OF msg_okD(5) [OF M], of p] by simp
  have 1: "\<exists>ps. msg_ok h m1 ps \<and> wins_bytes h m1 ps = take (nat keep) d" using msg_prefix [OF H M pos keep] unfolding m1_def d_def by blast
  have 2: "\<exists>ps. msg_ok h m2 ps \<and> wins_bytes h m2 ps = drop (nat keep) d" using msg_suffix [OF H M pos keep] unfolding m2_def d_def by blast
  have f: "rm_first m1 = rm_first m" "rm_first m2 = Some p" by (simp_all add: m1_def m2_def)
  obtain h' where h': "msg_part_incref p h = Some h'" "heap_ok h' (plus_ref (Some p) (plus_ref (rm_first m) R)) L"
    "mframe h (plus_ref (Some p) (plus_ref (rm_first m) R)) h'"
    using incref_frame [OF H p] by blast
  have "mholds h' (plus_ref (Some p) R) L m1 (take (nat keep) d)"
    by (rule holds_frame [OF H 1 h'(3)]) (use h'(2) f plus_ref_commute [of "Some p" "rm_first m" R] in simp_all)
  moreover have "mholds h' (plus_ref (rm_first m) R) L m2 (drop (nat keep) d)"
    by (rule holds_frame [OF H 2 h'(3)]) (use h'(2) f in simp_all)
  ultimately show ?thesis using h'(1) frame_less [OF frame_less [OF h'(3)]] unfolding f by blast
qed

lemma rwm_split_ok:
  assumes m: "mholds h R L m d" and n: "0 < n \<or> n = 0 \<and> d = []"
  shows "\<exists>m1 m2 h'. rwm_split m t n h = Some (if n \<le> int (length d) then 0 else -1, m1, m2, h') \<and>
    mholds h' (plus_ref (rm_first m2) R) L m1 (take (nat n) d) \<and> mholds h' (plus_ref (rm_first m1) R) L m2 (drop (nat n) d) \<and> mframe h R h'"
proof -
  obtain ps where M: "msg_ok h m ps" "wins_bytes h m ps = d" and H: "heap_ok h (plus_ref (rm_first m) R) L"
    using m by (auto simp: mholds_def)
  have mg: "rm_magic m = RM_INIT_MAGIC" using holds_magic [OF m] .
  then have g: "rm_live m" by (simp add: rm_live_def)
  have tot: "rm_total_bytes m = int (length d)" using holds_total [OF m] .
  show ?thesis
  proof (cases "n \<ge> int (length d)")
    case True
    let ?t = "rwm_clean (t\<lparr>rm_magic := rm_magic m\<rparr>)"
    have "mholds h (plus_ref (rm_first m) R) L ?t []"
      using H mg by (intro holds_empty) (simp_all add: rwm_clean_def)
    moreover have "rm_first ?t = None" by (simp add: rwm_clean_def)
    ultimately show ?thesis
      using True n g m tot frame_self [OF H] by (auto simp: rwm_split_def Let_def)
  next
    case False
    have n: "0 < n" using n False by auto
    have ps: "ps \<noteq> []" using False M(2) n by auto
    then obtain us l where ul: "ps = us @ [l]" by (metis rev_exhaust)
    note Ml = M(1) [unfolded ul]
    have lst: "rm_last m = Some l" "rm_first m = Some (hd ps)" using msg_okD(4) [OF M(1) ps] ul by simp_all
    obtain y where y: "mparts h l = Some y" using mpath_dom [OF msg_okD(5) [OF Ml], of l] by auto
    show ?thesis
    proof (cases "rm_total_bytes m - n \<le> rm_last_offset m - mp_offset y")
      case True
      define pos where "pos = rm_last_offset m - (rm_total_bytes m - n)"
      have we: "win_end h m l = rm_last_offset m" using lst by (simp add: win_end_def part_end_def)
      have sum: "rm_total_bytes m = (\<Sum>q\<leftarrow>us. win_size h m q) + win_size h m l" using msg_okD(9) [OF Ml] by simp
      have ws: "win_start h m l \<le> pos"
      proof (cases us)
        case Nil
        then show ?thesis using sum n we by (auto simp: pos_def)
      next
        case (Cons a as)
        then have "a \<noteq> l" using msg_okD(6) [OF Ml] by auto
        then have "win_start h m l = mp_offset y" using lst ul Cons y by (simp add: win_start_def part_start_def prt_def)
        then show ?thesis using True by (simp add: pos_def)
      qed
      have pe: "pos \<le> win_end h m l" using False tot we by (simp add: pos_def)
      have keep: "n = (\<Sum>q\<leftarrow>us. win_size h m q) + (pos - win_start h m l)" using sum we by (simp add: pos_def)
      define m1 where "m1 = m\<lparr>rm_last := Some l, rm_last_offset := pos, rm_total_bytes := n\<rparr>"
      define m2 where "m2 = m\<lparr>rm_first := Some l, rm_first_offset := pos, rm_total_bytes := rm_total_bytes m - n\<rparr>"
      obtain h' where h': "msg_part_incref l h = Some h'" "mholds h' (plus_ref (rm_first m2) R) L m1 (take (nat n) d)"
        "mholds h' (plus_ref (rm_first m1) R) L m2 (drop (nat n) d)" "mframe h R h'"
        using split_part_ok [OF H Ml ws pe keep] M(2) ul unfolding m1_def m2_def by blast
      have "rwm_split m t n h = Some (0, m1, m2, h')"
        using True False n g mg tot lst y h'(1) by (cases m; cases t) (simp add: rwm_split_def Let_def m1_def m2_def pos_def)
      then show ?thesis using h'(2-4) False by auto
    next
      case nl: False
      have nn: "0 \<le> n" "n \<le> (\<Sum>q\<leftarrow>ps. win_size h m q)" using n False tot msg_okD(9) [OF M(1)] by simp_all
      obtain ws p vs where s: "ps = ws @ p # vs"
        "split_seek m (rm_first m) n h = Some (p, win_start h m p + (n - (\<Sum>q\<leftarrow>ws. win_size h m q)))"
        "0 \<le> n - (\<Sum>q\<leftarrow>ws. win_size h m q)" "n - (\<Sum>q\<leftarrow>ws. win_size h m q) \<le> win_size h m p"
        using split_seek_ok [of h m "[]" ps n] M(1) ps nn lst by auto
      define pos where "pos = win_start h m p + (n - (\<Sum>q\<leftarrow>ws. win_size h m q))"
      have bd: "win_start h m p \<le> pos" "pos \<le> win_end h m p" "n = (\<Sum>q\<leftarrow>ws. win_size h m q) + (pos - win_start h m p)"
        using s(3,4) by (simp_all add: pos_def)
      define m1 where "m1 = m\<lparr>rm_last := Some p, rm_last_offset := pos, rm_total_bytes := n\<rparr>"
      define m2 where "m2 = m\<lparr>rm_first := Some p, rm_first_offset := pos, rm_total_bytes := rm_total_bytes m - n\<rparr>"
      obtain h' where h': "msg_part_incref p h = Some h'" "mholds h' (plus_ref (rm_first m2) R) L m1 (take (nat n) d)"
        "mholds h' (plus_ref (rm_first m1) R) L m2 (drop (nat n) d)" "mframe h R h'"
        using split_part_ok [OF H M(1) [unfolded s(1)] bd] M(2) s(1) unfolding m1_def m2_def by blast
      have "rwm_split m t n h = Some (0, m1, m2, h')"
        using nl False n g mg tot lst y h'(1) s(2) by (cases m; cases t) (simp add: rwm_split_def Let_def m1_def m2_def pos_def)
      then show ?thesis using h'(2-4) False by auto
    qed
  qed
qed

end
