(* ===== verification/MsgWrite.thy ===== *)
theory MsgWrite
  imports MsgRead
begin

text \<open>
  Writing to messages. Parts are unshared before they are changed (\<open>fork_message_chain\<close>, \<open>rwm_lock_last_part\<close>,
  \<open>rwm_lock_first_part\<close>); data are appended, prepended and messages joined without a change to any other message, though parts and
  buffers stay shared.
\<close>

section \<open>Joining chains\<close>

lemma msg_join:
  assumes M: "msg_ok h m (us @ [l])" and S: "msg_ok h s ss" "ss \<noteq> []" and e: "rm_last_offset m = mp_data_end (prt h l)"
    and o: "rm_first_offset s = mp_offset (prt h (hd ss))" and n: "nxt h l = Some (hd ss)" and d: "set (us @ [l]) \<inter> set ss = {}"
  defines "m' \<equiv> m\<lparr>rm_last := rm_last s, rm_last_offset := rm_last_offset s, rm_total_bytes := rm_total_bytes m + rm_total_bytes s\<rparr>"
  shows "msg_ok h m' (us @ [l] @ ss) \<and> wins_bytes h m' (us @ [l] @ ss) = wins_bytes h m (us @ [l]) @ wins_bytes h s ss"
proof -
  note m = msg_okD [OF M] and s = msg_okD [OF S(1)]
  have f: "rm_first m = Some (hd (us @ [l]))" "rm_last m = Some l" "rm_first s = Some (hd ss)" "rm_last s = Some (last ss)"
    using m(4) s(4) S(2) by simp_all
  have lst: "last ss \<in> set ss" "hd (us @ [l]) \<in> set (us @ [l])" using S(2) by (simp, cases us) auto
  have 1: "win_start h m' q = win_start h m q \<and> win_end h m' q = win_end h m q \<and> win_bytes h m' q = win_bytes h m q"
    if q: "q \<in> set (us @ [l])" for q
  proof -
    have "q \<noteq> last ss" using q d lst by auto
    then have "win_end h m' q = win_end h m q" using f e by (auto simp: win_end_def part_end_def m'_def)
    moreover have "win_start h m' q = win_start h m q" by (simp add: win_start_def part_start_def m'_def)
    ultimately show ?thesis by (simp add: win_bytes_def)
  qed
  have 2: "win_start h m' q = win_start h s q \<and> win_end h m' q = win_end h s q \<and> win_bytes h m' q = win_bytes h s q"
    if q: "q \<in> set ss" for q
  proof -
    have "q \<noteq> hd (us @ [l])" using q d lst by auto
    then have "win_start h m' q = win_start h s q" using f o by (auto simp: win_start_def part_start_def m'_def)
    moreover have "win_end h m' q = win_end h s q" by (simp add: win_end_def part_end_def m'_def)
    ultimately show ?thesis by (simp add: win_bytes_def)
  qed
  note w1 = wins_cong [of "us @ [l]" h m' m, OF 1] and w2 = wins_cong [of ss h m' s, OF 2]
  obtain a as where ss: "ss = a # as" using S(2) by (cases ss) auto
  have "mpath h ((us @ [l]) @ ss)" using m(5) s(5) n unfolding ss mpath_append by simp
  moreover have "distinct ((us @ [l]) @ ss)" using m(6) s(6) d by auto
  moreover have "mp_offset (prt h (hd (us @ [l]))) \<le> rm_first_offset m" using m(7) by simp
  moreover have "rm_last_offset s \<le> mp_data_end (prt h (last ss))" using s(7) S(2) by simp
  moreover have "\<forall>q\<in>set ((us @ [l]) @ ss). win_start h m' q \<le> win_end h m' q"
    using 1 2 m(8) s(8) by (metis UnE set_append)
  moreover have "rm_total_bytes m' = (\<Sum>q\<leftarrow>(us @ [l]) @ ss. win_end h m' q - win_start h m' q)"
    unfolding map_append sum_list_append using w1 w2 m(9) s(9) by (simp add: m'_def)
  moreover have "hd (us @ [l]) = hd ((us @ [l]) @ ss)" "last ss = last ((us @ [l]) @ ss)" using S(2) by (cases us; simp)+
  ultimately have "msg_ok h m' ((us @ [l]) @ ss)" using m(1) f unfolding msg_ok_def by (auto simp: m'_def)
  moreover have "wins_bytes h m' ((us @ [l]) @ ss) = wins_bytes h m (us @ [l]) @ wins_bytes h s ss"
    using w1 w2 by (metis wins_bytes_simps(3))
  ultimately show ?thesis by simp
qed

definition one_part :: "nat \<Rightarrow> int \<Rightarrow> int \<Rightarrow> raw_message" where
  "one_part c s e = \<lparr>rm_first = Some c, rm_last = Some c, rm_total_bytes = e - s, rm_magic = RM_INIT_MAGIC, rm_first_offset = s, rm_last_offset = e\<rparr>"

lemma one_part_sel [simp]:
  "rm_first (one_part c s e) = Some c" "rm_last (one_part c s e) = Some c" "rm_total_bytes (one_part c s e) = e - s"
  "rm_magic (one_part c s e) = RM_INIT_MAGIC" "rm_first_offset (one_part c s e) = s" "rm_last_offset (one_part c s e) = e"
  by (simp_all add: one_part_def)

lemma one_part_ok:
  assumes "mparts h c = Some x" "mp_offset x \<le> s" "s \<le> e" "e \<le> mp_data_end x"
  shows "msg_ok h (one_part c s e) [c] \<and> wins_bytes h (one_part c s e) [c] = mslice (bdata h (mp_part x)) s e"
  using assms by (simp add: msg_ok_def win_bytes_def win_start_def win_end_def part_start_def part_end_def prt_def)

lemma all_same_frame:
  assumes "heap_ok h R L" "\<And>q. mparts h q \<noteq> None \<Longrightarrow> same_view h h' q"
  shows "mframe h R h'"
  unfolding mframe_def using mreach_dom [OF assms(1)] assms(2) by blast

text \<open>A new part behind the last one. What followed it before is left with a reference.\<close>

lemma append_part_ok:
  assumes H: "heap_ok h (plus_ref (rm_first m) R) L" and M: "msg_ok h m (us @ [l])" and e: "rm_last_offset m = mp_data_end y"
    and y: "mparts h l = Some y" and u: "mp_next y \<noteq> None \<Longrightarrow> l \<notin> mreach h R"
    and m: "mparts h' = (mparts h)(c \<mapsto> x, l \<mapsto> y\<lparr>mp_next := Some c\<rparr>)" "mparts h c = None" "c \<notin> L"
    and x: "mp_refcnt x = 1" "\<not> mp_locked x" "mp_next x = None" "mp_part x = X" "0 \<le> mp_offset x" "mp_offset x \<le> mp_data_end x"
    and B: "mbufs h' X = Some b" "mb_refcnt b = int (card (users h X)) + 1" "mp_data_end x \<le> buffer_size b"
      "\<And>y0. mbufs h X = Some y0 \<Longrightarrow> mb_data b = mb_data y0" "\<And>k. k \<noteq> X \<Longrightarrow> mbufs h' k = mbufs h k"
    and F: "c < mh_fresh h'" "X < mh_fresh h'" "mh_fresh h \<le> mh_fresh h'"
  defines "m' \<equiv> m\<lparr>rm_last := Some c, rm_last_offset := mp_data_end x, rm_total_bytes := rm_total_bytes m + (mp_data_end x - mp_offset x)\<rparr>"
  shows "heap_ok h' (plus_ref (mp_next y) (plus_ref (rm_first m) R)) L \<and> msg_ok h' m' (us @ [l, c]) \<and>
    wins_bytes h' m' (us @ [l, c]) = wins_bytes h m (us @ [l]) @ mslice (mb_data b) (mp_offset x) (mp_data_end x) \<and>
    mframe h R h' \<and> (\<forall>q. mparts h q \<noteq> None \<longrightarrow> q \<noteq> l \<longrightarrow> same_view h h' q)"
proof -
  define h1 where "h1 = h'\<lparr>mparts := (mparts h)(c \<mapsto> x)\<rparr>"
  have h1: "mparts h1 = (mparts h)(c \<mapsto> x)" "mbufs h1 = mbufs h'" "mh_fresh h1 = mh_fresh h'" by (simp_all add: h1_def)
  have cl: "c \<noteq> l" using m(2) y by auto
  have A: "heap_ok h1 (plus_ref (Some c) (plus_ref (rm_first m) R)) L" "\<And>q. mparts h q \<noteq> None \<Longrightarrow> same_view h h1 q"
    using add_part_ok [of h None "plus_ref (rm_first m) R" L h1 c x X b] H m(2,3) x B F unfolding h1 by auto
  have y1: "mparts h1 l = Some y" using h1 cl y by simp
  let ?y = "y\<lparr>mp_next := Some c\<rparr>"
  have h': "h' = h1\<lparr>mparts := (mparts h1)(l \<mapsto> ?y)\<rparr>" using m(1) h1(1) by (simp add: h1_def)
  have nc: "nxt h1 c = None" using h1 x(3) by (simp add: nxt_def)
  have "l \<notin> set cs" if "chain (nxt h1) (Some c) cs" for cs using that cl nc by (auto simp: chain_Some)
  then have H': "heap_ok h' (plus_ref (mp_next y) (plus_ref (rm_first m) R)) L"
    unfolding h' using relink_ok [OF A(1) y1 refl] by blast
  have F1: "mframe h (plus_ref (rm_first m) R) h1" using all_same_frame [OF H A(2)] .
  have M1: "msg_ok h1 m (us @ [l])" "wins_bytes h1 m (us @ [l]) = wins_bytes h m (us @ [l])"
    using frame_msg [OF H F1 M] by auto
  have "msg_ok h' m (us @ [l]) \<and> wins_bytes h' m (us @ [l]) = wins_bytes h1 m (us @ [l])"
    unfolding h' using msg_okD(4,7) [OF M1(1)] y1 by (intro window_msg [OF M1(1) _ y1]) (auto simp: prt_def hd_append split: if_split_asm)
  then have M2: "msg_ok h' m (us @ [l])" "wins_bytes h' m (us @ [l]) = wins_bytes h m (us @ [l])" using M1(2) by auto
  have px: "mparts h' c = Some x" "prt h' l = ?y" "prt h' c = x" using m(1) cl by (simp_all add: prt_def)
  have S: "msg_ok h' (one_part c (mp_offset x) (mp_data_end x)) [c]"
    "wins_bytes h' (one_part c (mp_offset x) (mp_data_end x)) [c] = mslice (mb_data b) (mp_offset x) (mp_data_end x)"
    using one_part_ok [OF px(1), of "mp_offset x" "mp_data_end x"] x(4,6) B(1) by (simp_all add: bdata_def)
  have "c \<notin> set (us @ [l])" using mpath_dom [OF msg_okD(5) [OF M]] m(2) by blast
  then have "msg_ok h' m' (us @ [l] @ [c]) \<and> wins_bytes h' m' (us @ [l] @ [c]) =
      wins_bytes h' m (us @ [l]) @ wins_bytes h' (one_part c (mp_offset x) (mp_data_end x)) [c]"
    using msg_join [OF M2(1) S(1)] e px by (simp add: m'_def nxt_def m(1) cl del: wins_bytes_simps)
  then have M': "msg_ok h' m' (us @ [l, c])"
    "wins_bytes h' m' (us @ [l, c]) = wins_bytes h m (us @ [l]) @ mslice (mb_data b) (mp_offset x) (mp_data_end x)"
    using M2(2) S(2) by (simp_all del: wins_bytes_simps)
  have V: "same_view h h' q" if q: "mparts h q \<noteq> None" "q \<noteq> l" for q
  proof -
    have "mparts h1 q \<noteq> None" using q h1 by simp
    then have "same_view h1 h' q" unfolding h' using same_view_other [OF A(1)] q(2) by blast
    then show ?thesis using same_view_trans [OF A(2) [OF q(1)]] by blast
  qed
  have Vl: "same_view h h' l" if "l \<in> mreach h R"
  proof -
    have nx: "mp_next y = None" using u that by blast
    obtain b1 where "mbufs h1 (mp_part y) = Some b1" using part_okD(4) [OF heap_okD(4) [OF A(1) y1]] by blast
    then have "same_view h1 h' l" unfolding h' same_view_def using y1 nx by simp
    then show ?thesis using same_view_trans [OF A(2)] y by blast
  qed
  have "mframe h R h'" unfolding mframe_def
    using V Vl mreach_dom [OF H] plus_ref_le by (metis (no_types, lifting))
  then show ?thesis using H' M' V by blast
qed

section \<open>Unsharing a chain\<close>

lemma fork_skip_ok:
  assumes H: "heap_ok h (plus_ref (rm_first m) R) L" and L: "L \<subseteq> mreach h R" and M: "msg_ok h m (us0 @ q # vs)"
    and u: "\<forall>u\<in>set us0. mp_refcnt (prt h u) = 1" and o: "rm_first_offset m = mp_offset (prt h (hd (us0 @ [q])))"
  shows "\<exists>us p ws. q # vs = us @ p # ws \<and>
    fork_skip (rm_last m) q mpl lft h = Some (p, if us = [] then mpl else Some (last us), lft - (\<Sum>q\<leftarrow>us. win_size h m q)) \<and>
    (\<forall>u\<in>set us. mp_refcnt (prt h u) = 1) \<and> (rm_last m = Some p \<or> mp_refcnt (prt h p) \<noteq> 1)"
  using M u o
proof (induction vs arbitrary: us0 q mpl lft)
  case Nil
  obtain x where x: "mparts h q = Some x" using mpath_dom [OF msg_okD(5) [OF Nil.prems(1)], of q] by auto
  have "rm_last m = Some q" using msg_okD(4) [OF Nil.prems(1)] by simp
  then show ?case using x by (rule_tac x = "[]" in exI, rule_tac x = q in exI, rule_tac x = "[]" in exI, subst fork_skip.simps) simp
next
  case (Cons q2 vs)
  obtain x where x: "mparts h q = Some x" using mpath_dom [OF msg_okD(5) [OF Cons.prems(1)], of q] by auto
  have nl: "rm_last m \<noteq> Some q" using msg_okD(4,6) [OF Cons.prems(1)] by auto
  have first: "rm_first m = Some (hd (us0 @ [q]))" using msg_okD(4) [OF Cons.prems(1)] by (cases us0) auto
  have nx: "mp_next x = Some q2" using mpath_next [of h us0 q q2 vs] msg_okD(5) [OF Cons.prems(1)] x by (simp add: nxt_def)
  have M': "msg_ok h m ((us0 @ [q]) @ q2 # vs)" using Cons.prems(1) by simp
  show ?case
  proof (cases "mp_refcnt x = 1")
    case True
    have path: "mpath h (us0 @ [q])" using msg_okD(5) [OF M'] unfolding mpath_append [of h "us0 @ [q]"] by blast
    have un: "\<forall>u\<in>set (us0 @ [q]). mp_refcnt (prt h u) = 1" using Cons.prems(2) True x by (auto simp: prt_def)
    have "q \<notin> mreach h R"
      using unshared_unreached [of h "hd (us0 @ [q])" R L "us0 @ [q]" q] H path un unfolding first by auto
    then have lk: "\<not> mp_locked x" using L part_okD(1) [OF heap_okD(4) [OF H x]] by blast
    have ws: "win_size h m q = mp_data_end x - mp_offset x"
      using nl first Cons.prems(3) x by (auto simp: win_start_def win_end_def part_start_def part_end_def prt_def)
    have o2: "rm_first_offset m = mp_offset (prt h (hd ((us0 @ [q]) @ [q2])))" using Cons.prems(3) by (cases us0) auto
    obtain us p ws' where r: "q2 # vs = us @ p # ws'"
      "fork_skip (rm_last m) q2 (Some q) (lft - win_size h m q) h =
        Some (p, if us = [] then Some q else Some (last us), lft - win_size h m q - (\<Sum>q\<leftarrow>us. win_size h m q))"
      "\<forall>u\<in>set us. mp_refcnt (prt h u) = 1" "rm_last m = Some p \<or> mp_refcnt (prt h p) \<noteq> 1"
      using Cons.IH [OF M' un o2, of "Some q" "lft - win_size h m q"] by blast
    have "fork_skip (rm_last m) q mpl lft h = fork_skip (rm_last m) q2 (Some q) (lft - win_size h m q) h"
      using x nl True lk nx by (subst fork_skip.simps) (simp add: ws)
    then show ?thesis using r un
      by (rule_tac x = "q # us" in exI, rule_tac x = p in exI, rule_tac x = ws' in exI) (auto simp: algebra_simps)
  next
    case False
    then show ?thesis using x
      by (rule_tac x = "[]" in exI, rule_tac x = q in exI, rule_tac x = "q2 # vs" in exI, subst fork_skip.simps) (simp add: prt_def)
  qed
qed

text \<open>One step of the copying loop.\<close>

definition copied :: "msg_part \<Rightarrow> raw_message \<Rightarrow> nat \<Rightarrow> msg_part" where
  "copied x raw p = \<lparr>mp_refcnt = 1, mp_locked = False, mp_next = None, mp_part = mp_part x,
     mp_offset = part_start raw p x, mp_data_end = part_end raw p x\<rparr>"

lemma fork_copy_step:
  assumes "mparts h p = Some x" "mbufs h (mp_part x) = Some b" "mparts h l = Some y" "mparts h (mh_fresh h) = None"
  shows "fork_copy (Some p) (Some l) raw lft res h =
    (let c = mh_fresh h; cx = copied x raw p;
         h' = h\<lparr>mh_fresh := Suc c, mbufs := (mbufs h)(mp_part x \<mapsto> b\<lparr>mb_refcnt := mb_refcnt b + 1\<rparr>),
                mparts := (mparts h)(c \<mapsto> cx, l \<mapsto> y\<lparr>mp_next := Some c\<rparr>)\<rparr>;
         lft' = lft - (mp_data_end cx - mp_offset cx) in
     if rm_last raw = Some p then Some (raw\<lparr>rm_last := Some c\<rparr>, lft', res + 1, h')
     else fork_copy (mp_next x) (Some c) raw lft' (res + 1) h')"
proof -
  have "l \<noteq> mh_fresh h" using assms by auto
  then show ?thesis using assms
    by (subst fork_copy.simps) (simp add: new_msg_part_def msg_buffer_incref_def upd_part_def set_next_def copied_def Let_def)
qed

lemma fork_copy_first:
  assumes "mparts h p = Some x" "mbufs h (mp_part x) = Some b"
  shows "fork_copy (Some p) None raw lft res h =
    (let c = mh_fresh h; cx = copied x raw p;
         h' = h\<lparr>mh_fresh := Suc c, mbufs := (mbufs h)(mp_part x \<mapsto> b\<lparr>mb_refcnt := mb_refcnt b + 1\<rparr>),
                mparts := (mparts h)(c \<mapsto> cx)\<rparr>;
         lft' = lft - (mp_data_end cx - mp_offset cx) in
     if rm_last raw = Some p then Some (raw\<lparr>rm_first := Some c, rm_last := Some c\<rparr>, lft', res + 1, h')
     else fork_copy (mp_next x) (Some c) (raw\<lparr>rm_first := Some c\<rparr>) lft' (res + 1) h')"
  using assms by (subst fork_copy.simps) (simp add: new_msg_part_def msg_buffer_incref_def upd_part_def set_next_def copied_def Let_def)

lemma fresh_parts:
  assumes H: "heap_ok h R L"
  shows "mparts h (mh_fresh h) = None" "mbufs h (mh_fresh h) = None"
  using heap_okD(2,3) [OF H, of "mh_fresh h"] by blast+

lemma reach_dom: "heap_ok h (plus_ref r R) L \<Longrightarrow> q \<in> mreach h R \<Longrightarrow> mparts h q \<noteq> None"
  by (rule mreach_dom) (auto intro: plus_ref_le)

lemma fresh_unlocked:
  assumes H: "heap_ok h (plus_ref r R) L" and L: "L \<subseteq> mreach h R"
  shows "mh_fresh h \<notin> L"
proof
  assume "mh_fresh h \<in> L"
  then have "mh_fresh h \<in> mreach h R" using L ..
  then have "mparts h (mh_fresh h) \<noteq> None" by (rule reach_dom [OF H])
  then show False using fresh_parts(1) [OF H] ..
qed

text \<open>What the copying loop keeps of the parts that were there.\<close>

definition kept :: "msg_heap \<Rightarrow> msg_heap \<Rightarrow> bool" where
  "kept h h' \<longleftrightarrow> (\<forall>q x. mparts h q = Some x \<longrightarrow> (\<exists>x'. mparts h' q = Some x' \<and> mp_refcnt x' = mp_refcnt x \<and> mp_offset x' = mp_offset x))"

lemma keptD:
  assumes "kept h h'" "mparts h q = Some x"
  shows "\<exists>x'. mparts h' q = Some x' \<and> mp_refcnt x' = mp_refcnt x \<and> mp_offset x' = mp_offset x"
  using assms unfolding kept_def by blast

lemma kept_trans: "kept h h' \<Longrightarrow> kept h' h'' \<Longrightarrow> kept h h''"
  unfolding kept_def by (metis (no_types, lifting))

lemma copy_step_ok:
  assumes H: "heap_ok h (plus_ref (rm_first m) R) L" and L: "L \<subseteq> mreach h R"
    and M: "msg_ok h m (us @ [l])" and y: "mparts h l = Some y" "rm_last_offset m = mp_data_end y" "mp_next y \<noteq> None \<Longrightarrow> l \<notin> mreach h R"
    and S: "msg_ok h s (p # vs)" and x: "mparts h p = Some x" and b: "mbufs h (mp_part x) = Some b"
    and raw: "part_start raw p x = win_start h s p" "part_end raw p x = win_end h s p"
  defines "c \<equiv> mh_fresh h"
  defines "h' \<equiv> h\<lparr>mh_fresh := Suc c, mbufs := (mbufs h)(mp_part x \<mapsto> b\<lparr>mb_refcnt := mb_refcnt b + 1\<rparr>),
      mparts := (mparts h)(c \<mapsto> copied x raw p, l \<mapsto> y\<lparr>mp_next := Some c\<rparr>)\<rparr>"
    and "m' \<equiv> m\<lparr>rm_last := Some c, rm_last_offset := win_end h s p, rm_total_bytes := rm_total_bytes m + win_size h s p\<rparr>"
  shows "heap_ok h' (plus_ref (mp_next y) (plus_ref (rm_first m) R)) L \<and> msg_ok h' m' (us @ [l, c]) \<and>
    wins_bytes h' m' (us @ [l, c]) = wins_bytes h m (us @ [l]) @ win_bytes h s p \<and>
    mframe h R h' \<and> (\<forall>q. mparts h q \<noteq> None \<longrightarrow> q \<noteq> l \<longrightarrow> same_view h h' q)"
proof -
  note bp = win_bounds [OF H S, of p]
  have cx: "mp_offset (copied x raw p) = win_start h s p" "mp_data_end (copied x raw p) = win_end h s p"
    "mp_part (copied x raw p) = mp_part x" "mp_refcnt (copied x raw p) = 1" "mp_next (copied x raw p) = None" "\<not> mp_locked (copied x raw p)"
    using raw by (simp_all add: copied_def)
  have h': "mparts h' = (mparts h)(c \<mapsto> copied x raw p, l \<mapsto> y\<lparr>mp_next := Some c\<rparr>)" "mh_fresh h' = Suc c"
    "mbufs h' = (mbufs h)(mp_part x \<mapsto> b\<lparr>mb_refcnt := mb_refcnt b + 1\<rparr>)" by (simp_all add: h'_def)
  have bd: "bdata h (mp_part x) = mb_data b" "prt h p = x" using b x by (simp_all add: bdata_def prt_def)
  have sz: "mp_data_end x \<le> buffer_size b" using bp bd by (simp add: buffer_size_def)
  have bl: "mp_part x < mh_fresh h" using heap_okD(3) [OF H, of "mp_part x"] b by blast
  have e1: "mp_data_end (copied x raw p) \<le> buffer_size (b\<lparr>mb_refcnt := mb_refcnt b + 1\<rparr>)"
    using cx(2) bp sz bd by (simp add: buffer_size_def)
  have "heap_ok h' (plus_ref (mp_next y) (plus_ref (rm_first m) R)) L \<and>
    msg_ok h' (m\<lparr>rm_last := Some c, rm_last_offset := mp_data_end (copied x raw p),
      rm_total_bytes := rm_total_bytes m + (mp_data_end (copied x raw p) - mp_offset (copied x raw p))\<rparr>) (us @ [l, c]) \<and>
    wins_bytes h' (m\<lparr>rm_last := Some c, rm_last_offset := mp_data_end (copied x raw p),
      rm_total_bytes := rm_total_bytes m + (mp_data_end (copied x raw p) - mp_offset (copied x raw p))\<rparr>) (us @ [l, c]) =
      wins_bytes h m (us @ [l]) @ mslice (mb_data (b\<lparr>mb_refcnt := mb_refcnt b + 1\<rparr>)) (mp_offset (copied x raw p)) (mp_data_end (copied x raw p)) \<and>
    mframe h R h' \<and> (\<forall>q. mparts h q \<noteq> None \<longrightarrow> q \<noteq> l \<longrightarrow> same_view h h' q)"
    by (rule append_part_ok [OF H M y(2,1,3) h'(1) fresh_parts(1) [OF H, folded c_def] fresh_unlocked [OF H L, folded c_def] cx(4,6,5,3)])
      (use cx(1,2) bp e1 heap_okD(5) [OF H b] h' bl b in \<open>auto simp: c_def\<close>)
  then show ?thesis unfolding cx m'_def by (simp add: win_bytes_def bd)
qed

lemma suffix_rest:
  assumes H: "heap_ok h R L" and S: "msg_ok h s (p # q # vs)"
  defines "s' \<equiv> s\<lparr>rm_first := Some q, rm_first_offset := mp_offset (prt h q), rm_total_bytes := rm_total_bytes s - win_size h s p\<rparr>"
  shows "msg_ok h s' (q # vs) \<and> wins_bytes h s' (q # vs) = wins_bytes h s (q # vs)"
proof -
  have "rm_first s = Some p" "p \<noteq> q" using msg_okD(4,6) [OF S] by auto
  then have w: "win_start h s q = mp_offset (prt h q)" by (simp add: win_start_def part_start_def)
  have S': "msg_ok h s ([p] @ q # vs)" using S by simp
  have "win_size h s p = (\<Sum>q\<leftarrow>[p]. win_size h s q) + (win_start h s q - win_start h s q)" by simp
  from msg_suffix [OF H S' _ _ this] have *: "msg_ok h s' (q # vs)" "wins_bytes h s' (q # vs) = drop (nat (win_size h s p)) (wins_bytes h s ([p] @ q # vs))"
    using win_bounds [OF H S, of q] by (auto simp: w s'_def)
  moreover have "nat (win_size h s p) = length (win_bytes h s p)" using length_win_bytes [OF H S, of p] by simp
  ultimately show ?thesis by simp
qed

lemma fork_copy_ok:
  assumes "heap_ok h (plus_ref (rm_first m) R) L" "L \<subseteq> mreach h R"
    and "msg_ok h m (us @ [l])" "mparts h l = Some y" "rm_last_offset m = mp_data_end y"
    and "mp_next y = None \<and> p \<in> mreach h R \<or> mp_next y = Some p \<and> l \<notin> mreach h R"
    and "msg_ok h s (p # vs)" "l \<notin> set (p # vs)" "rm_first_offset s = mp_offset (prt h p)"
    and "rm_first raw = rm_first m" "rm_last raw = rm_last s" "rm_last_offset raw = rm_last_offset s"
    and "\<forall>q\<in>set (p # vs). rm_first m \<noteq> Some q"
  shows "\<exists>cs h'. fork_copy (Some p) (Some l) raw lft res h =
      Some (raw\<lparr>rm_last := Some (last cs)\<rparr>, lft - rm_total_bytes s, res + int (length (p # vs)), h') \<and> cs \<noteq> [] \<and>
    heap_ok h' (plus_ref (mp_next y) (plus_ref (rm_first m) R)) L \<and>
    msg_ok h' (m\<lparr>rm_last := Some (last cs), rm_last_offset := rm_last_offset s, rm_total_bytes := rm_total_bytes m + rm_total_bytes s\<rparr>) (us @ l # cs) \<and>
    wins_bytes h' (m\<lparr>rm_last := Some (last cs), rm_last_offset := rm_last_offset s, rm_total_bytes := rm_total_bytes m + rm_total_bytes s\<rparr>) (us @ l # cs) =
      wins_bytes h m (us @ [l]) @ wins_bytes h s (p # vs) \<and> mframe h R h' \<and>
    mp_next (prt h' (last cs)) = None \<and> mp_data_end (prt h' (last cs)) = rm_last_offset s \<and>
    (\<forall>q\<in>set cs. mp_refcnt (prt h' q) = 1) \<and> kept h h'"
  using assms
proof (induction vs arbitrary: h m R us l y p s lft res)
  case Nil
  note A = Nil.prems
  obtain x where x: "mparts h p = Some x" using mpath_dom [OF msg_okD(5) [OF A(7)], of p] by auto
  obtain b where b: "mbufs h (mp_part x) = Some b" using part_okD(4) [OF heap_okD(4) [OF A(1) x]] by blast
  have sf: "rm_first s = Some p" "rm_last s = Some p" using msg_okD(4) [OF A(7)] by simp_all
  have ps: "part_start raw p x = win_start h s p" "part_end raw p x = win_end h s p"
    using A(9-13) x sf by (auto simp: part_start_def part_end_def win_start_def win_end_def prt_def)
  have e: "win_end h s p = rm_last_offset s" using sf by (simp add: win_end_def part_end_def)
  have tot: "win_size h s p = rm_total_bytes s" using msg_okD(9) [OF A(7)] by simp
  let ?c = "mh_fresh h"
  define h' where "h' = h\<lparr>mh_fresh := Suc ?c, mbufs := (mbufs h)(mp_part x \<mapsto> b\<lparr>mb_refcnt := mb_refcnt b + 1\<rparr>),
    mparts := (mparts h)(?c \<mapsto> copied x raw p, l \<mapsto> y\<lparr>mp_next := Some ?c\<rparr>)\<rparr>"
  have nl: "mp_next y \<noteq> None \<Longrightarrow> l \<notin> mreach h R" using A(6) by auto
  note st = copy_step_ok [OF A(1,2,3,4,5) nl A(7) x b ps, folded h'_def]
  have cl: "?c \<noteq> l" using fresh_parts(1) [OF A(1)] A(4) by auto
  have "fork_copy (Some p) (Some l) raw lft res h = Some (raw\<lparr>rm_last := Some ?c\<rparr>, lft - rm_total_bytes s, res + 1, h')"
    using fork_copy_step [OF x b A(4) fresh_parts(1) [OF A(1)], of raw lft res] A(11) sf tot ps
    by (simp add: h'_def copied_def Let_def)
  moreover have "prt h' ?c = copied x raw p" using cl by (simp add: h'_def prt_def)
  moreover have "kept h h'" using A(4) fresh_parts(1) [OF A(1)] by (auto simp: kept_def h'_def)
  ultimately show ?case using st ps e
    by (rule_tac x = "[?c]" in exI, rule_tac x = h' in exI) (simp add: e tot [symmetric] copied_def)
next
  case (Cons p2 vs)
  note A = Cons.prems
  obtain x where x: "mparts h p = Some x" using mpath_dom [OF msg_okD(5) [OF A(7)], of p] by auto
  obtain b where b: "mbufs h (mp_part x) = Some b" using part_okD(4) [OF heap_okD(4) [OF A(1) x]] by blast
  have sf: "rm_first s = Some p" "rm_last s \<noteq> Some p" "p \<noteq> p2" using msg_okD(4,6) [OF A(7)] by auto
  have ps: "part_start raw p x = win_start h s p" "part_end raw p x = win_end h s p"
    using A(9-13) x sf by (auto simp: part_start_def part_end_def win_start_def win_end_def prt_def)
  have nx: "mp_next x = Some p2" "nxt h p = Some p2" using mpath_next [of h "[]" p p2 vs] msg_okD(5) [OF A(7)] x by (auto simp: nxt_def)
  let ?c = "mh_fresh h"
  define h1 where "h1 = h\<lparr>mh_fresh := Suc ?c, mbufs := (mbufs h)(mp_part x \<mapsto> b\<lparr>mb_refcnt := mb_refcnt b + 1\<rparr>),
    mparts := (mparts h)(?c \<mapsto> copied x raw p, l \<mapsto> y\<lparr>mp_next := Some ?c\<rparr>)\<rparr>"
  define m1 where "m1 = m\<lparr>rm_last := Some ?c, rm_last_offset := win_end h s p, rm_total_bytes := rm_total_bytes m + win_size h s p\<rparr>"
  define s1 where "s1 = s\<lparr>rm_first := Some p2, rm_first_offset := mp_offset (prt h p2), rm_total_bytes := rm_total_bytes s - win_size h s p\<rparr>"
  have nl: "mp_next y \<noteq> None \<Longrightarrow> l \<notin> mreach h R" using A(6) by auto
  note st = copy_step_ok [OF A(1,2,3,4,5) nl A(7) x b ps, folded h1_def m1_def]
  have cl: "?c \<noteq> l" using fresh_parts(1) [OF A(1)] A(4) by auto
  have pc: "mparts h1 ?c = Some (copied x raw p)" using cl by (simp add: h1_def)
  have v: "same_view h h1 q" if "q \<in> set (p # p2 # vs)" for q
    using st that mpath_dom [OF msg_okD(5) [OF A(7)] that] A(8) by blast
  have S1: "msg_ok h s1 (p2 # vs)" "wins_bytes h s1 (p2 # vs) = wins_bytes h s (p2 # vs)"
    using suffix_rest [OF A(1,7)] by (auto simp: s1_def)
  have S2: "msg_ok h1 s1 (p2 # vs)" "wins_bytes h1 s1 (p2 # vs) = wins_bytes h s (p2 # vs)"
    using frame_reached [OF A(1) _ S1(1), of h1] v S1(2) by auto
  let ?R = "plus_ref (mp_next y) R"
  have H1: "heap_ok h1 (plus_ref (rm_first m1) ?R) L" using st plus_ref_commute [of "mp_next y" "rm_first m" R] by (simp add: m1_def)
  have F1: "mframe h R h1" using st by blast
  have "p \<in> mreach h1 ?R" using A(6) frame_reach [OF F1] by (auto intro: mreach.mreach_ref)
  moreover have "nxt h1 p = Some p2" using same_view_next [OF v nx(2)] by simp
  ultimately have re: "p2 \<in> mreach h1 ?R" by (rule mreach.mreach_next)
  have M1: "msg_ok h1 m1 ((us @ [l]) @ [?c])" using st by simp
  have off: "rm_first_offset s1 = mp_offset (prt h1 p2)" using v [of p2] by (auto simp: s1_def same_view_def prt_def)
  have cn: "?c \<notin> set (p2 # vs)" using mpath_dom [OF msg_okD(5) [OF A(7)], of ?c] fresh_parts(1) [OF A(1)] by auto
  obtain cs h' where r: "fork_copy (Some p2) (Some ?c) raw (lft - win_size h s p) (res + 1) h1 =
      Some (raw\<lparr>rm_last := Some (last cs)\<rparr>, lft - win_size h s p - rm_total_bytes s1, res + 1 + int (length (p2 # vs)), h')" "cs \<noteq> []"
    "heap_ok h' (plus_ref (mp_next (copied x raw p)) (plus_ref (rm_first m1) ?R)) L"
    "msg_ok h' (m1\<lparr>rm_last := Some (last cs), rm_last_offset := rm_last_offset s1, rm_total_bytes := rm_total_bytes m1 + rm_total_bytes s1\<rparr>) ((us @ [l]) @ ?c # cs)"
    "wins_bytes h' (m1\<lparr>rm_last := Some (last cs), rm_last_offset := rm_last_offset s1, rm_total_bytes := rm_total_bytes m1 + rm_total_bytes s1\<rparr>) ((us @ [l]) @ ?c # cs) =
      wins_bytes h1 m1 ((us @ [l]) @ [?c]) @ wins_bytes h1 s1 (p2 # vs)" "mframe h1 ?R h'"
    "mp_next (prt h' (last cs)) = None" "mp_data_end (prt h' (last cs)) = rm_last_offset s1"
    "\<forall>q\<in>set cs. mp_refcnt (prt h' q) = 1" "kept h1 h'"
    using Cons.IH [OF H1 locked_reach [OF A(2) F1] M1 pc _ _ S2(1) cn off, of "lft - win_size h s p" "res + 1"] re A(10-13) ps(2)
    by (auto simp: m1_def s1_def copied_def simp del: wins_bytes_simps)
  have "fork_copy (Some p) (Some l) raw lft res h = fork_copy (Some p2) (Some ?c) raw (lft - win_size h s p) (res + 1) h1"
    using fork_copy_step [OF x b A(4) fresh_parts(1) [OF A(1)], of raw lft res] A(11) sf ps nx
    by (simp add: h1_def copied_def Let_def)
  then have fc: "fork_copy (Some p) (Some l) raw lft res h =
      Some (raw\<lparr>rm_last := Some (last (?c # cs))\<rparr>, lft - rm_total_bytes s, res + int (length (p # p2 # vs)), h')"
    using r(1,2) by (simp add: s1_def)
  have mm: "m1\<lparr>rm_last := Some (last cs), rm_last_offset := rm_last_offset s1, rm_total_bytes := rm_total_bytes m1 + rm_total_bytes s1\<rparr> =
      m\<lparr>rm_last := Some (last (?c # cs)), rm_last_offset := rm_last_offset s, rm_total_bytes := rm_total_bytes m + rm_total_bytes s\<rparr>"
    using r(2) by (simp add: m1_def s1_def)
  have k: "kept h h1" using A(4) fresh_parts(1) [OF A(1)] by (auto simp: kept_def h1_def)
  have rc: "mp_refcnt (prt h' ?c) = 1" using keptD [OF r(10) pc] by (auto simp: prt_def copied_def)
  have hk: "heap_ok h' (plus_ref (mp_next y) (plus_ref (rm_first m) R)) L"
    using r(3) plus_ref_commute [of "mp_next y" "rm_first m" R] by (simp add: copied_def m1_def)
  have wb: "wins_bytes h1 m1 ((us @ [l]) @ [?c]) @ wins_bytes h1 s1 (p2 # vs) = wins_bytes h m (us @ [l]) @ wins_bytes h s (p # p2 # vs)"
    using st S2(2) by simp
  show ?case
    by (rule exI [of _ "?c # cs"], rule exI [of _ h'])
      (use fc hk r(4,5) [unfolded mm wb] frame_trans [OF F1 frame_less [OF r(6)]] r(2,7,8,9) rc kept_trans [OF k r(10)] in
        \<open>simp add: s1_def del: wins_bytes_simps\<close>)
qed

lemma upd_part_only: "upd_part p f h = Some h' \<Longrightarrow> mh_fresh h' = mh_fresh h \<and> (\<forall>q. q \<noteq> p \<longrightarrow> mparts h' q = mparts h q)"
  by (auto simp: upd_part_def bind_eq_Some_conv)

lemma set_next_only: "set_next r c raw h = Some (raw', h') \<Longrightarrow> mh_fresh h' = mh_fresh h \<and> (\<forall>q. r \<noteq> Some q \<longrightarrow> mparts h' q = mparts h q)"
  by (auto simp: set_next_def bind_eq_Some_conv dest: upd_part_only split: option.split_asm)

text \<open>The copying loop writes to new parts and to the part behind which it puts them.\<close>

lemma fork_copy_only:
  assumes "fork_copy mp mpl raw lft res h = Some y"
  shows "\<forall>q. q < mh_fresh h \<longrightarrow> mpl \<noteq> Some q \<longrightarrow> mparts (snd (snd (snd y))) q = mparts h q"
proof (rule fork_copy.raw_induct [where P = "\<lambda>mp mpl raw lft res h y. \<forall>q. q < mh_fresh h \<longrightarrow> mpl \<noteq> Some q \<longrightarrow> mparts (snd (snd (snd y))) q = mparts h q", OF _ assms])
  fix f :: "nat option \<Rightarrow> nat option \<Rightarrow> raw_message \<Rightarrow> int \<Rightarrow> int \<Rightarrow> msg_heap \<Rightarrow> (raw_message \<times> int \<times> int \<times> msg_heap) option" and mp mpl raw lft res h y
  assume IH: "\<And>mp mpl raw lft res h y. f mp mpl raw lft res h = Some y \<Longrightarrow>
      \<forall>q. q < mh_fresh h \<longrightarrow> mpl \<noteq> Some q \<longrightarrow> mparts (snd (snd (snd y))) q = mparts h q"
    and st: "do {
     p \<leftarrow> mp;
     x \<leftarrow> mparts h p;
     let (c, h) = new_msg_part (mp_part x) h;
     h \<leftarrow> msg_buffer_incref (mp_part x) h;
     let off = part_start raw p x;
     let data_end = part_end raw p x;
     let copy_last = (rm_last raw = Some p);
     h \<leftarrow> upd_part c (\<lambda>y. y\<lparr>mp_offset := off, mp_data_end := data_end\<rparr>) h;
     let raw = (if copy_last then raw\<lparr>rm_last := Some c\<rparr> else raw);
     (raw, h) \<leftarrow> set_next mpl c raw h;
     let left = lft - (data_end - off);
     if copy_last then Some (raw, left, res + 1, h)
     else f (mp_next x) (Some c) raw left (res + 1) h } = Some y"
  from st show "\<forall>q. q < mh_fresh h \<longrightarrow> mpl \<noteq> Some q \<longrightarrow> mparts (snd (snd (snd y))) q = mparts h q"
    apply (clarsimp simp: bind_eq_Some_conv new_msg_part_def Let_def)
    apply (drule upd_part_only, drule set_next_only)
    apply (auto simp: msg_buffer_incref_def bind_eq_Some_conv split: if_split_asm dest: IH)
    done
qed

lemma fork_copy_stable:
  assumes H: "heap_ok h (plus_ref r R) L" and f: "fork_copy mp mpl raw lft res h = Some (raw', k, j, h')" and u: "\<forall>l. mpl = Some l \<longrightarrow> l \<notin> mreach h R"
  shows "stable h R h'"
  unfolding stable_def
proof
  fix q
  assume q: "q \<in> mreach h R"
  then have "mparts h q \<noteq> None" using reach_dom [OF H] by blast
  then have "q < mh_fresh h" using heap_okD(2) [OF H] by blast
  moreover have "mpl \<noteq> Some q" using u q by blast
  ultimately have "mparts h' q = mparts h q" using fork_copy_only [OF f] by simp
  then show "mp_next (prt h' q) = mp_next (prt h q) \<and> mp_data_end (prt h' q) = mp_data_end (prt h q)" by (simp add: prt_def)
qed

text \<open>What \<open>fork_message_chain\<close> promises: only this message refers to its parts, and the parts end where the message ends.\<close>

definition unshared_msg :: "msg_heap \<Rightarrow> raw_message \<Rightarrow> nat list \<Rightarrow> bool" where
  "unshared_msg h m ps \<longleftrightarrow> (\<forall>p\<in>set ps. mp_refcnt (prt h p) = 1) \<and>
     (ps \<noteq> [] \<longrightarrow> rm_first_offset m = mp_offset (prt h (hd ps)) \<and> mp_next (prt h (last ps)) = None \<and>
        mp_data_end (prt h (last ps)) = rm_last_offset m)"

lemma fork_release_ok:
  assumes H: "heap_ok h (plus_ref (Some p) (plus_ref (rm_first m) R)) L" and L: "L \<subseteq> mreach h R"
    and M: "msg_ok h m ps" and u: "unshared_msg h m ps"
  shows "\<exists>n h'. msg_part_decref (Some p) h = Some (n, h') \<and> heap_ok h' (plus_ref (rm_first m) R) L \<and> msg_ok h' m ps \<and>
    wins_bytes h' m ps = wins_bytes h m ps \<and> unshared_msg h' m ps \<and> mframe h R h' \<and> stable h R h'"
proof -
  have "L \<subseteq> mreach h (plus_ref (rm_first m) R)" using L reach_more by blast
  then obtain n h' where h': "msg_part_decref (Some p) h = Some (n, h')" "heap_ok h' (plus_ref (rm_first m) R) L"
    "mframe h (plus_ref (rm_first m) R) h'" "trimmed h h'"
    using decref_frame [OF H] by blast
  have M': "msg_ok h' m ps" "wins_bytes h' m ps = wins_bytes h m ps" using frame_msg [OF H h'(3) M] by auto
  have q: "mp_refcnt (prt h' q) = 1 \<and> mp_offset (prt h' q) = mp_offset (prt h q) \<and> mp_next (prt h' q) = mp_next (prt h q) \<and>
      mp_data_end (prt h' q) = mp_data_end (prt h q)" if q: "q \<in> set ps" for q
  proof -
    obtain x' where x': "mparts h' q = Some x'" using mpath_dom [OF msg_okD(5) [OF M'(1)] q] by blast
    have "mp_refcnt x' = 1" using trimmed_count [OF h'(4) H h'(2) plus_ref_le x'] u q by (simp add: unshared_msg_def)
    then show ?thesis using trimmed_part [OF h'(4) x'] x' by (auto simp: prt_def)
  qed
  have "unshared_msg h' m ps"
    using u q [of "hd ps"] q [of "last ps"] q by (auto simp: unshared_msg_def)
  then show ?thesis using h'(1,2) M' frame_less [OF h'(3)] trimmed_stable [OF h'(4)] by blast
qed

text \<open>The copy of everything from a part on, behind parts of the message's own.\<close>

lemma fork_behind_ok:
  assumes H: "heap_ok h (plus_ref (rm_first m) R) L" and L: "L \<subseteq> mreach h R" and M: "msg_ok h m (us @ l # p # vs)"
    and u: "\<forall>u\<in>set (us @ [l]). mp_refcnt (prt h u) = 1" and o: "rm_first_offset m = mp_offset (prt h (hd (us @ [l])))"
  shows "\<exists>m' ps h'. fork_copy (Some p) (Some l) m lft res h =
      Some (m', lft - (rm_total_bytes m - (\<Sum>q\<leftarrow>us @ [l]. win_size h m q)), res + int (length (p # vs)), h') \<and>
    heap_ok h' (plus_ref (Some p) (plus_ref (rm_first m') R)) L \<and> msg_ok h' m' ps \<and>
    wins_bytes h' m' ps = wins_bytes h m (us @ l # p # vs) \<and> unshared_msg h' m' ps \<and> mframe h R h' \<and> ps \<noteq> [] \<and> stable h R h'"
proof -
  have first: "rm_first m = Some (hd (us @ [l]))" using msg_okD(4) [OF M] by (cases us) auto
  have lst: "rm_last m = Some (last (p # vs))" using msg_okD(4) [OF M] by simp
  have d: "distinct (us @ l # p # vs)" using msg_okD(6) [OF M] .
  have path: "mpath h (us @ [l])" using msg_okD(5) [OF M] mpath_dom [OF msg_okD(5) [OF M], of l] by (simp add: mpath_append)
  obtain y where y: "mparts h l = Some y" using mpath_dom [OF path, of l] by auto
  have ny: "mp_next y = Some p" using mpath_next [of h us l p vs] msg_okD(5) [OF M] y by (simp add: nxt_def)
  have nl: "l \<notin> mreach h R" using unshared_unreached [of h "hd (us @ [l])" R L "us @ [l]" l] H path u unfolding first by auto
  have ll: "last (p # vs) \<in> set (p # vs)" by (rule last_in_set) simp
  then have "rm_last m \<noteq> Some l" using d lst by auto
  then have wl: "win_end h m l = mp_data_end y" using y by (simp add: win_end_def part_end_def prt_def)
  define k where "k = (\<Sum>q\<leftarrow>us @ [l]. win_size h m q)"
  have kl: "k = (\<Sum>q\<leftarrow>us. win_size h m q) + (mp_data_end y - win_start h m l)" by (simp add: k_def wl)
  define m0 where "m0 = m\<lparr>rm_last := Some l, rm_last_offset := mp_data_end y, rm_total_bytes := k\<rparr>"
  have M0: "msg_ok h m0 (us @ [l])" "wins_bytes h m0 (us @ [l]) = take (nat k) (wins_bytes h m (us @ l # p # vs))"
    using msg_prefix [OF H M _ _ kl] win_bounds [OF H M, of l] wl by (simp_all add: m0_def)
  define s where "s = m\<lparr>rm_first := Some p, rm_first_offset := win_start h m p, rm_total_bytes := rm_total_bytes m - k\<rparr>"
  have M': "msg_ok h m ((us @ [l]) @ p # vs)" using M by simp
  have kp: "k = (\<Sum>q\<leftarrow>us @ [l]. win_size h m q) + (win_start h m p - win_start h m p)" by (simp add: k_def)
  have S: "msg_ok h s (p # vs)" "wins_bytes h s (p # vs) = drop (nat k) (wins_bytes h m (us @ l # p # vs))"
    using msg_suffix [OF H M' _ _ kp] win_bounds [OF H M, of p] by (simp_all add: s_def)
  have nf: "\<forall>q\<in>set (p # vs). rm_first m \<noteq> Some q" using first d by (cases us) auto
  have off: "rm_first_offset s = mp_offset (prt h p)" using nf by (auto simp: s_def win_start_def part_start_def)
  have lv: "l \<notin> set (p # vs)" using d by auto
  have H0: "heap_ok h (plus_ref (rm_first m0) R) L" using H by (simp add: m0_def)
  have e0: "rm_last_offset m0 = mp_data_end y" by (simp add: m0_def)
  have r0: "mp_next y = None \<and> p \<in> mreach h R \<or> mp_next y = Some p \<and> l \<notin> mreach h R" using ny nl by simp
  have f0: "rm_first m = rm_first m0" "rm_last m = rm_last s" "rm_last_offset m = rm_last_offset s" by (simp_all add: m0_def s_def)
  obtain cs h' where r: "fork_copy (Some p) (Some l) m lft res h =
      Some (m\<lparr>rm_last := Some (last cs)\<rparr>, lft - rm_total_bytes s, res + int (length (p # vs)), h')" "cs \<noteq> []"
    "heap_ok h' (plus_ref (mp_next y) (plus_ref (rm_first m0) R)) L"
    "msg_ok h' (m0\<lparr>rm_last := Some (last cs), rm_last_offset := rm_last_offset s, rm_total_bytes := rm_total_bytes m0 + rm_total_bytes s\<rparr>) (us @ l # cs)"
    "wins_bytes h' (m0\<lparr>rm_last := Some (last cs), rm_last_offset := rm_last_offset s, rm_total_bytes := rm_total_bytes m0 + rm_total_bytes s\<rparr>) (us @ l # cs) =
      wins_bytes h m0 (us @ [l]) @ wins_bytes h s (p # vs)" "mframe h R h'"
    "mp_next (prt h' (last cs)) = None" "mp_data_end (prt h' (last cs)) = rm_last_offset s"
    "\<forall>q\<in>set cs. mp_refcnt (prt h' q) = 1" "kept h h'"
    using fork_copy_ok [OF H0 L M0(1) y e0 r0 S(1) lv off f0 nf [unfolded f0(1)], of lft res] by blast
  have mm: "m0\<lparr>rm_last := Some (last cs), rm_last_offset := rm_last_offset s, rm_total_bytes := rm_total_bytes m0 + rm_total_bytes s\<rparr> = m\<lparr>rm_last := Some (last cs)\<rparr>"
    by (cases m) (simp add: m0_def s_def)
  have old: "mp_refcnt (prt h' q) = 1 \<and> mp_offset (prt h' q) = mp_offset (prt h q)" if q: "q \<in> set (us @ [l])" for q
  proof -
    obtain x where x: "mparts h q = Some x" using mpath_dom [OF path q] by blast
    show ?thesis using keptD [OF r(10) x] x u q by (auto simp: prt_def)
  qed
  have "unshared_msg h' (m\<lparr>rm_last := Some (last cs)\<rparr>) (us @ l # cs)"
    using old r(2,7,8,9) o old [of "hd (us @ [l])"] by (cases us) (auto simp: unshared_msg_def s_def)
  moreover have "stable h R h'" using fork_copy_stable [OF H r(1)] nl by simp
  ultimately show ?thesis
    using r(1,3,4,5,6) M0(2) S(2) ny unfolding mm
    by (rule_tac x = "m\<lparr>rm_last := Some (last cs)\<rparr>" in exI, rule_tac x = "us @ l # cs" in exI, rule_tac x = h' in exI)
      (simp add: m0_def s_def k_def del: wins_bytes_simps)
qed

text \<open>The copy of the whole message.\<close>

lemma fork_front_ok:
  assumes H: "heap_ok h (plus_ref (rm_first m) R) L" and L: "L \<subseteq> mreach h R" and M: "msg_ok h m (p # vs)"
  shows "\<exists>m' ps h'. fork_copy (Some p) None m lft res h = Some (m', lft - rm_total_bytes m, res + int (length (p # vs)), h') \<and>
    heap_ok h' (plus_ref (Some p) (plus_ref (rm_first m') R)) L \<and> msg_ok h' m' ps \<and>
    wins_bytes h' m' ps = wins_bytes h m (p # vs) \<and> unshared_msg h' m' ps \<and> mframe h R h' \<and> ps \<noteq> [] \<and> stable h R h'"
proof -
  have f: "rm_first m = Some p" "rm_last m = Some (last (p # vs))" "rm_magic m = RM_INIT_MAGIC" using msg_okD(1,4) [OF M] by auto
  note bp = win_bounds [OF H M, of p]
  obtain x where x: "mparts h p = Some x" using mpath_dom [OF msg_okD(5) [OF M], of p] by auto
  obtain b where b: "mbufs h (mp_part x) = Some b" using part_okD(4) [OF heap_okD(4) [OF H x]] by blast
  have px: "prt h p = x" "bdata h (mp_part x) = mb_data b" using x b by (simp_all add: prt_def bdata_def)
  have bl: "mp_part x < mh_fresh h" using heap_okD(3) [OF H, of "mp_part x"] b by blast
  let ?c = "mh_fresh h"
  define cx where "cx = copied x m p"
  have cx: "mp_offset cx = win_start h m p" "mp_data_end cx = win_end h m p" "mp_part cx = mp_part x" "mp_refcnt cx = 1" "mp_next cx = None" "\<not> mp_locked cx"
    using px by (simp_all add: cx_def copied_def win_start_def win_end_def)
  define h0 where "h0 = h\<lparr>mh_fresh := Suc ?c, mbufs := (mbufs h)(mp_part x \<mapsto> b\<lparr>mb_refcnt := mb_refcnt b + 1\<rparr>), mparts := (mparts h)(?c \<mapsto> cx)\<rparr>"
  have h0: "mparts h0 = (mparts h)(?c \<mapsto> cx)" "mbufs h0 = (mbufs h)(mp_part x \<mapsto> b\<lparr>mb_refcnt := mb_refcnt b + 1\<rparr>)" "mh_fresh h0 = Suc ?c"
    by (simp_all add: h0_def)
  let ?R = "plus_ref (Some p) R"
  have A: "heap_ok h0 (plus_ref (Some ?c) ?R) L" "\<And>q. mparts h q \<noteq> None \<Longrightarrow> same_view h h0 q"
    using add_part_ok [of h None ?R L h0 ?c cx "mp_part x" "b\<lparr>mb_refcnt := mb_refcnt b + 1\<rparr>"] H [unfolded f(1)]
      fresh_parts(1) [OF H] fresh_unlocked [OF H L] cx bp px h0 bl heap_okD(5) [OF H b] b
    by (auto simp: buffer_size_def)
  have F: "mframe h ?R h0" using all_same_frame [OF H [unfolded f(1)] A(2)] .
  define m0 where "m0 = one_part ?c (win_start h m p) (win_end h m p)"
  have pc: "mparts h0 ?c = Some cx" by (simp add: h0)
  have M0: "msg_ok h0 m0 [?c]" "wins_bytes h0 m0 [?c] = win_bytes h m p"
    using one_part_ok [OF pc, of "win_start h m p" "win_end h m p"] cx bp px h0(2) by (simp_all add: m0_def bdata_def win_bytes_def)
  show ?thesis
  proof (cases vs)
    case Nil
    have mm: "m\<lparr>rm_first := Some ?c, rm_last := Some ?c\<rparr> = m0"
      using f Nil msg_okD(9) [OF M] by (cases m) (simp add: m0_def one_part_def win_start_def win_end_def part_start_def part_end_def)
    have "fork_copy (Some p) None m lft res h = Some (m0, lft - rm_total_bytes m, res + 1, h0)"
      using fork_copy_first [OF x b, of m lft res] f Nil cx msg_okD(9) [OF M] mm by (simp add: h0_def cx_def [symmetric] Let_def)
    moreover have "unshared_msg h0 m0 [?c]" using pc cx by (simp add: unshared_msg_def prt_def m0_def)
    moreover have "heap_ok h0 (plus_ref (Some p) (plus_ref (rm_first m0) R)) L"
      using A(1) plus_ref_commute [of "Some p" "Some ?c" R] by (simp only: m0_def one_part_sel)
    ultimately show ?thesis using M0 Nil frame_less [OF F] fork_copy_stable [OF H] by fastforce
  next
    case (Cons p2 ws)
    have S0: "msg_ok h m (p # p2 # ws)" using M Cons by simp
    define s where "s = m\<lparr>rm_first := Some p2, rm_first_offset := mp_offset (prt h p2), rm_total_bytes := rm_total_bytes m - win_size h m p\<rparr>"
    have S: "msg_ok h s (p2 # ws)" "wins_bytes h s (p2 # ws) = wins_bytes h m (p2 # ws)"
      using suffix_rest [OF H S0] by (simp_all add: s_def)
    have v: "same_view h h0 q" if "q \<in> set (p # p2 # ws)" for q using A(2) mpath_dom [OF msg_okD(5) [OF S0] that] by blast
    have S2: "msg_ok h0 s (p2 # ws)" "wins_bytes h0 s (p2 # ws) = wins_bytes h m (p2 # ws)"
      using frame_reached [OF H _ S(1), of h0] v S(2) by auto
    have nx: "nxt h p = Some p2" "mp_next x = Some p2" using mpath_next [of h "[]" p p2 ws] msg_okD(5) [OF S0] x by (auto simp: nxt_def)
    have "p \<in> mreach h0 ?R" by (rule mreach.mreach_ref) simp
    then have re: "p2 \<in> mreach h0 ?R" using same_view_next [OF v nx(1)] by (auto intro: mreach.mreach_next)
    have cn: "?c \<notin> set (p2 # ws)" using mpath_dom [OF msg_okD(5) [OF S0], of ?c] fresh_parts(1) [OF H] by auto
    have off: "rm_first_offset s = mp_offset (prt h0 p2)" using v [of p2] by (auto simp: s_def same_view_def prt_def)
    have H0: "heap_ok h0 (plus_ref (rm_first m0) ?R) L" using A(1) by (simp add: m0_def)
    have e0: "rm_last_offset m0 = mp_data_end cx" by (simp add: m0_def cx)
    define raw where "raw = m\<lparr>rm_first := Some ?c\<rparr>"
    have f0: "rm_first raw = rm_first m0" "rm_last raw = rm_last s" "rm_last_offset raw = rm_last_offset s" by (simp_all add: raw_def m0_def s_def)
    have nf: "\<forall>q\<in>set (p2 # ws). rm_first m0 \<noteq> Some q" using cn by (auto simp: m0_def)
    obtain cs h' where r: "fork_copy (Some p2) (Some ?c) raw (lft - win_size h m p) (res + 1) h0 =
        Some (raw\<lparr>rm_last := Some (last cs)\<rparr>, lft - win_size h m p - rm_total_bytes s, res + 1 + int (length (p2 # ws)), h')" "cs \<noteq> []"
      "heap_ok h' (plus_ref (mp_next cx) (plus_ref (rm_first m0) ?R)) L"
      "msg_ok h' (m0\<lparr>rm_last := Some (last cs), rm_last_offset := rm_last_offset s, rm_total_bytes := rm_total_bytes m0 + rm_total_bytes s\<rparr>) ([] @ ?c # cs)"
      "wins_bytes h' (m0\<lparr>rm_last := Some (last cs), rm_last_offset := rm_last_offset s, rm_total_bytes := rm_total_bytes m0 + rm_total_bytes s\<rparr>) ([] @ ?c # cs) =
        wins_bytes h0 m0 ([] @ [?c]) @ wins_bytes h0 s (p2 # ws)" "mframe h0 ?R h'"
      "mp_next (prt h' (last cs)) = None" "mp_data_end (prt h' (last cs)) = rm_last_offset s"
      "\<forall>q\<in>set cs. mp_refcnt (prt h' q) = 1" "kept h0 h'"
      using fork_copy_ok [OF H0 locked_reach [OF L frame_less [OF F]] _ pc e0 _ S2(1) cn off f0 nf, of "[]" "lft - win_size h m p" "res + 1"] M0(1) cx(5) re by auto
    define m' where "m' = raw\<lparr>rm_last := Some (last cs)\<rparr>"
    have mm: "m0\<lparr>rm_last := Some (last cs), rm_last_offset := rm_last_offset s, rm_total_bytes := rm_total_bytes m0 + rm_total_bytes s\<rparr> = m'"
      using f by (cases m) (simp add: m'_def m0_def s_def raw_def one_part_def win_start_def part_start_def)
    have fc: "fork_copy (Some p) None m lft res h = Some (m', lft - rm_total_bytes m, res + int (length (p # vs)), h')"
      using fork_copy_first [OF x b, of m lft res] f msg_okD(6) [OF M] Cons cx nx r(1)
      by (auto simp: h0_def cx_def [symmetric] raw_def [symmetric] Let_def m'_def s_def)
    have "prt h' ?c = the (mparts h' ?c)" by (simp add: prt_def)
    then have pc': "mp_refcnt (prt h' ?c) = 1" "mp_offset (prt h' ?c) = win_start h m p" using keptD [OF r(10) pc] cx by auto
    have u: "unshared_msg h' m' (?c # cs)"
      using pc' r(2,7,8,9) f by (auto simp: unshared_msg_def m'_def raw_def s_def win_start_def part_start_def)
    have hk: "heap_ok h' (plus_ref (Some p) (plus_ref (rm_first m') R)) L"
      using r(3) plus_ref_commute [of "Some p" "Some ?c" R] by (simp add: cx(5) m0_def m'_def raw_def)
    have "wins_bytes h' m' (?c # cs) = wins_bytes h m (p # vs)" using r(5) M0(2) S2(2) Cons unfolding mm by simp
    then show ?thesis using fc hk r(4) u frame_trans [OF frame_less [OF F] frame_less [OF r(6)]] fork_copy_stable [OF H fc] unfolding mm by auto
  qed
qed

text \<open>The first part can be cut to the message when no other message refers to it, and need not be when it begins there.\<close>

lemma own_first_ok:
  assumes H: "heap_ok h (plus_ref (rm_first m) R) L" and L: "L \<subseteq> mreach h R" and M: "msg_ok h m (f # vs)" and x: "mparts h f = Some x"
    and own: "rm_first_offset m = mp_offset x \<or> mp_refcnt x = 1"
  shows "\<exists>h'. upd_part f (\<lambda>y. y\<lparr>mp_offset := rm_first_offset m\<rparr>) h = Some h' \<and> heap_ok h' (plus_ref (rm_first m) R) L \<and>
    msg_ok h' m (f # vs) \<and> wins_bytes h' m (f # vs) = wins_bytes h m (f # vs) \<and> mframe h R h' \<and> L \<subseteq> mreach h' R \<and>
    rm_first_offset m = mp_offset (prt h' f) \<and> (\<forall>q. mp_refcnt (prt h' q) = mp_refcnt (prt h q)) \<and>
    (\<forall>q. mp_next (prt h' q) = mp_next (prt h q) \<and> mp_data_end (prt h' q) = mp_data_end (prt h q)) \<and> mreach h' R = mreach h R"
proof (cases "rm_first_offset m = mp_offset x")
  case True
  then have "upd_part f (\<lambda>y. y\<lparr>mp_offset := rm_first_offset m\<rparr>) h = Some h" using x by (simp add: upd_part_def fun_upd_idem)
  then show ?thesis using H M L frame_self [OF H] True x by (auto simp: prt_def)
next
  case False
  then have one: "mp_refcnt x = 1" using own by blast
  have f: "rm_first m = Some f" using msg_okD(4) [OF M] by simp
  have nf: "f \<notin> mreach h R" using unshared_unreached [of h f R L "[f]" f] H f one x by (auto simp: prt_def)
  let ?h = "h\<lparr>mparts := (mparts h)(f \<mapsto> x\<lparr>mp_offset := rm_first_offset m\<rparr>)\<rparr>"
  have "upd_part f (\<lambda>y. y\<lparr>mp_offset := rm_first_offset m\<rparr>) h = Some ?h" using x by (simp add: upd_part_some)
  moreover from this have "heap_ok ?h (plus_ref (rm_first m) R) L" "msg_ok ?h m (f # vs)" "wins_bytes ?h m (f # vs) = wins_bytes h m (f # vs)" "mframe h R ?h"
    using cut_front [OF H M nf] by auto
  moreover have re: "mreach ?h R = mreach h R" using reach_upd [of h f x "x\<lparr>mp_offset := rm_first_offset m\<rparr>" R] x by simp
  ultimately show ?thesis using L x by (auto simp: prt_def)
qed

text \<open>The two ways in which \<open>fork_message_chain\<close> ends: copying from a part on, and cutting a chain of its own.\<close>

lemma fork_rest_ok:
  assumes H: "heap_ok h (plus_ref (rm_first m) R) L" and L: "L \<subseteq> mreach h R" and M: "msg_ok h m (us @ p # ws)"
    and u: "\<forall>u\<in>set us. mp_refcnt (prt h u) = 1" and o: "us \<noteq> [] \<Longrightarrow> rm_first_offset m = mp_offset (prt h (hd us))"
  shows "\<exists>m' qs h2 n h'. fork_copy (Some p) (if us = [] then None else Some (last us)) m (rm_total_bytes m - (\<Sum>q\<leftarrow>us. win_size h m q)) 0 h =
      Some (m', 0, int (length (p # ws)), h2) \<and> msg_part_decref (Some p) h2 = Some (n, h') \<and> heap_ok h' (plus_ref (rm_first m') R) L \<and>
    msg_ok h' m' qs \<and> wins_bytes h' m' qs = wins_bytes h m (us @ p # ws) \<and> unshared_msg h' m' qs \<and> mframe h R h' \<and> qs \<noteq> [] \<and> stable h R h'"
proof -
  let ?l = "rm_total_bytes m - (\<Sum>q\<leftarrow>us. win_size h m q)"
  have "\<exists>m' qs h2. fork_copy (Some p) (if us = [] then None else Some (last us)) m ?l 0 h = Some (m', 0, int (length (p # ws)), h2) \<and>
      heap_ok h2 (plus_ref (Some p) (plus_ref (rm_first m') R)) L \<and>
      msg_ok h2 m' qs \<and> wins_bytes h2 m' qs = wins_bytes h m (us @ p # ws) \<and> unshared_msg h2 m' qs \<and> mframe h R h2 \<and> qs \<noteq> [] \<and> stable h R h2"
  proof (cases us rule: rev_cases)
    case Nil
    then have "msg_ok h m (p # ws)" using M by simp
    from fork_front_ok [OF H L this, of ?l 0] show ?thesis using Nil by simp
  next
    case (snoc us1 l)
    then have Ml: "msg_ok h m (us1 @ l # p # ws)" using M by simp
    have "\<forall>u\<in>set (us1 @ [l]). mp_refcnt (prt h u) = 1" "rm_first_offset m = mp_offset (prt h (hd (us1 @ [l])))" using u o snoc by simp_all
    from fork_behind_ok [OF H L Ml this, of ?l 0] show ?thesis using snoc by simp
  qed
  then obtain m' qs h2 where r: "fork_copy (Some p) (if us = [] then None else Some (last us)) m ?l 0 h = Some (m', 0, int (length (p # ws)), h2)"
    "heap_ok h2 (plus_ref (Some p) (plus_ref (rm_first m') R)) L"
    "msg_ok h2 m' qs" "wins_bytes h2 m' qs = wins_bytes h m (us @ p # ws)" "unshared_msg h2 m' qs" "mframe h R h2" "qs \<noteq> []" "stable h R h2" by blast
  have "L \<subseteq> mreach h2 R" using L frame_reach [OF r(6)] by blast
  then obtain n h' where "msg_part_decref (Some p) h2 = Some (n, h')" "heap_ok h' (plus_ref (rm_first m') R) L"
    "msg_ok h' m' qs" "wins_bytes h' m' qs = wins_bytes h m (us @ p # ws)" "unshared_msg h' m' qs" "mframe h2 R h'" "stable h2 R h'"
    using fork_release_ok [OF r(2) _ r(3,5)] r(4) by auto
  then show ?thesis using r(1,7) frame_trans [OF r(6)] stable_trans [OF r(8,6)] by blast
qed

lemma fork_own_ok:
  assumes H: "heap_ok h (plus_ref (rm_first m) R) L" and L: "L \<subseteq> mreach h R" and M: "msg_ok h m (us @ [p])"
    and u: "\<forall>u\<in>set (us @ [p]). mp_refcnt (prt h u) = 1" and o: "rm_first_offset m = mp_offset (prt h (hd (us @ [p])))"
    and y: "mparts h p = Some y"
  shows "\<exists>h2 n h3 h4. \<not> mp_locked y \<and> upd_part p (\<lambda>z. z\<lparr>mp_data_end := rm_last_offset m\<rparr>) h = Some h2 \<and>
    msg_part_decref (mp_next y) h2 = Some (n, h3) \<and> upd_part p (\<lambda>z. z\<lparr>mp_next := None\<rparr>) h3 = Some h4 \<and>
    heap_ok h4 (plus_ref (rm_first m) R) L \<and> msg_ok h4 m (us @ [p]) \<and> wins_bytes h4 m (us @ [p]) = wins_bytes h m (us @ [p]) \<and>
    unshared_msg h4 m (us @ [p]) \<and> mframe h R h4 \<and> win_size h m p = rm_last_offset m - mp_offset y \<and> stable h R h4"
proof -
  have f: "rm_first m = Some (hd (us @ [p]))" "rm_last m = Some p" using msg_okD(4) [OF M] by simp_all
  have np: "p \<notin> mreach h R"
    using unshared_unreached [of h "hd (us @ [p])" R L "us @ [p]" p] H f msg_okD(5) [OF M] u by auto
  have lk: "\<not> mp_locked y" using np L part_okD(1) [OF heap_okD(4) [OF H y]] by blast
  define h2 where "h2 = h\<lparr>mparts := (mparts h)(p \<mapsto> y\<lparr>mp_data_end := rm_last_offset m\<rparr>)\<rparr>"
  have h2: "upd_part p (\<lambda>z. z\<lparr>mp_data_end := rm_last_offset m\<rparr>) h = Some h2" "mparts h2 p = Some (y\<lparr>mp_data_end := rm_last_offset m\<rparr>)"
    "mreach h2 R = mreach h R" "\<And>q. mp_refcnt (prt h2 q) = mp_refcnt (prt h q) \<and> mp_offset (prt h2 q) = mp_offset (prt h q)"
    using y reach_upd [of h p y "y\<lparr>mp_data_end := rm_last_offset m\<rparr>"] by (simp_all add: upd_part_some h2_def prt_def)
  have c: "heap_ok h2 (plus_ref (rm_first m) R) L" "msg_ok h2 m (us @ [p])" "wins_bytes h2 m (us @ [p]) = wins_bytes h m (us @ [p])" "mframe h R h2"
    using cut_back [OF H M np] h2(1) by auto
  obtain n h3 h4 z where h4: "msg_part_decref (mp_next y) h2 = Some (n, h3)" "upd_part p (\<lambda>y. y\<lparr>mp_next := None\<rparr>) h3 = Some h4"
    "heap_ok h4 (plus_ref (rm_first m) R) L" "msg_ok h4 m (us @ [p])" "wins_bytes h4 m (us @ [p]) = wins_bytes h m (us @ [p])" "mframe h2 R h4"
    "mparts h4 p = Some z" "mp_next z = None" "mp_data_end z = rm_last_offset m"
    "\<forall>q x3. mparts h4 q = Some x3 \<longrightarrow> mp_offset x3 = mp_offset (prt h2 q) \<and> (mp_refcnt (prt h2 q) = 1 \<longrightarrow> mp_refcnt x3 = 1)" "stable h2 R h4"
    using drop_tail_ok [of h2 m R L us p "y\<lparr>mp_data_end := rm_last_offset m\<rparr>"] c h2 L np by auto
  have "stable h R h2" using np by (auto simp: stable_def h2_def prt_def)
  then have st: "stable h R h4" using stable_trans c(4) h4(11) by blast
  have q: "mp_offset (prt h4 q) = mp_offset (prt h q) \<and> mp_refcnt (prt h4 q) = 1" if q: "q \<in> set (us @ [p])" for q
  proof -
    obtain x3 where "mparts h4 q = Some x3" using mpath_dom [OF msg_okD(5) [OF h4(4)] q] by blast
    then show ?thesis using h4(10) h2(4) [of q] u q by (auto simp: prt_def)
  qed
  have "hd (us @ [p]) \<in> set (us @ [p])" by (cases us) auto
  then have u4: "unshared_msg h4 m (us @ [p])"
    using q [of "hd (us @ [p])"] q o h4(7-9) by (auto simp: unshared_msg_def prt_def)
  have "win_size h m p = rm_last_offset m - mp_offset y"
    using f o y msg_okD(6) [OF M] by (cases us) (auto simp: win_start_def win_end_def part_start_def part_end_def prt_def)
  then show ?thesis using lk h2(1) h4(1-6) u4 frame_trans [OF c(4) h4(6)] c(3) st by blast
qed

lemma fork_message_chain_ok:
  assumes m: "mholds h R L m d" and L: "L \<subseteq> mreach h R"
  shows "\<exists>res m' ps h'. fork_message_chain m h = Some (res, m', h') \<and> heap_ok h' (plus_ref (rm_first m') R) L \<and>
    msg_ok h' m' ps \<and> wins_bytes h' m' ps = d \<and> unshared_msg h' m' ps \<and> mframe h R h' \<and> (ps = [] \<longleftrightarrow> rm_first m = None) \<and> stable h R h'"
proof -
  obtain ps where M: "msg_ok h m ps" "wins_bytes h m ps = d" and H: "heap_ok h (plus_ref (rm_first m) R) L"
    using m by (auto simp: mholds_def)
  have mg: "rm_magic m = RM_INIT_MAGIC" using msg_okD(1) [OF M(1)] .
  show ?thesis
  proof (cases "rm_first m")
    case None
    then have "ps = []" using msg_okD(2) [OF M(1)] by simp
    then show ?thesis using None mg M H frame_self [OF H] by (auto simp: fork_message_chain_def unshared_msg_def stable_refl)
  next
    case (Some f)
    then obtain vs where ps: "ps = f # vs" using msg_okD(2,4) [OF M(1)] by (cases ps) auto
    note Mf = M(1) [unfolded ps]
    obtain x where x: "mparts h f = Some x" using mpath_dom [OF msg_okD(5) [OF Mf], of f] by auto
    show ?thesis
    proof (cases "rm_first_offset m = mp_offset x \<or> mp_refcnt x = 1")
      case False
      obtain m' qs h2 n h' where r: "fork_copy (Some f) None m (rm_total_bytes m) 0 h = Some (m', 0, int (length (f # vs)), h2)"
        "msg_part_decref (Some f) h2 = Some (n, h')" "heap_ok h' (plus_ref (rm_first m') R) L"
        "msg_ok h' m' qs" "wins_bytes h' m' qs = d" "unshared_msg h' m' qs" "mframe h R h'" "qs \<noteq> []" "stable h R h'"
        using fork_rest_ok [of h m R L "[]" f vs] H L Mf M(2) ps by auto
      have "fork_message_chain m h = Some (int (length (f # vs)), m', h')"
        using False Some mg x r(1,2) by (simp add: fork_message_chain_def Let_def)
      then show ?thesis using r Some by auto
    next
      case True
      obtain h1 where h1: "upd_part f (\<lambda>y. y\<lparr>mp_offset := rm_first_offset m\<rparr>) h = Some h1" "heap_ok h1 (plus_ref (rm_first m) R) L"
        "msg_ok h1 m (f # vs)" "wins_bytes h1 m (f # vs) = d" "mframe h R h1" "L \<subseteq> mreach h1 R" "rm_first_offset m = mp_offset (prt h1 f)"
        "\<forall>q. mp_next (prt h1 q) = mp_next (prt h q) \<and> mp_data_end (prt h1 q) = mp_data_end (prt h q)"
        using own_first_ok [OF H L Mf x True] M(2) ps by (elim exE conjE) (rule that, auto)
      have st1: "stable h R h1" using h1(8) by (simp add: stable_def)
      obtain us p ws where s: "f # vs = us @ p # ws"
        "fork_skip (rm_last m) f None (rm_total_bytes m) h1 = Some (p, if us = [] then None else Some (last us), rm_total_bytes m - (\<Sum>q\<leftarrow>us. win_size h1 m q))"
        "\<forall>u\<in>set us. mp_refcnt (prt h1 u) = 1" "rm_last m = Some p \<or> mp_refcnt (prt h1 p) \<noteq> 1"
        using fork_skip_ok [of h1 m R L "[]" f vs None "rm_total_bytes m"] h1 by auto
      have M1: "msg_ok h1 m (us @ p # ws)" "wins_bytes h1 m (us @ p # ws) = d" using h1(3,4) s(1) by simp_all
      obtain y where y: "mparts h1 p = Some y" using mpath_dom [OF msg_okD(5) [OF M1(1)], of p] by auto
      have hd1: "hd (us @ [p]) = f" using s(1) by (cases us) auto
      show ?thesis
      proof (cases "mp_refcnt y \<noteq> 1 \<or> rm_last m \<noteq> Some p")
        case copy: True
        have o: "rm_first_offset m = mp_offset (prt h1 (hd us))" if "us \<noteq> []" using that hd1 h1(7) by simp
        obtain m' qs h2 n h' where r: "fork_copy (Some p) (if us = [] then None else Some (last us)) m (rm_total_bytes m - (\<Sum>q\<leftarrow>us. win_size h1 m q)) 0 h1 =
            Some (m', 0, int (length (p # ws)), h2)" "msg_part_decref (Some p) h2 = Some (n, h')" "heap_ok h' (plus_ref (rm_first m') R) L"
          "msg_ok h' m' qs" "wins_bytes h' m' qs = d" "unshared_msg h' m' qs" "mframe h1 R h'" "qs \<noteq> []" "stable h1 R h'"
          using fork_rest_ok [OF h1(2,6) M1(1) s(3) o] M1(2) by auto
        have "fork_message_chain m h = Some (int (length (p # ws)), m', h')"
          using True copy Some mg x h1(1) s(2) y r(1,2) by (auto simp: fork_message_chain_def Let_def)
        then show ?thesis using r frame_trans [OF h1(5) r(7)] stable_trans [OF st1 h1(5) r(9)] Some by auto
      next
        case last: False
        then have y1: "mp_refcnt y = 1" "rm_last m = Some p" by auto
        have ws: "ws = []" using msg_okD(4,6) [OF M1(1)] y1(2) by (cases ws rule: rev_cases) auto
        have Mp: "msg_ok h1 m (us @ [p])" "wins_bytes h1 m (us @ [p]) = d" using M1 ws by simp_all
        have un: "\<forall>u\<in>set (us @ [p]). mp_refcnt (prt h1 u) = 1" using s(3) y1(1) y by (auto simp: prt_def)
        obtain h2 n h3 h4 where r: "\<not> mp_locked y" "upd_part p (\<lambda>z. z\<lparr>mp_data_end := rm_last_offset m\<rparr>) h1 = Some h2"
          "msg_part_decref (mp_next y) h2 = Some (n, h3)" "upd_part p (\<lambda>z. z\<lparr>mp_next := None\<rparr>) h3 = Some h4"
          "heap_ok h4 (plus_ref (rm_first m) R) L" "msg_ok h4 m (us @ [p])" "wins_bytes h4 m (us @ [p]) = d"
          "unshared_msg h4 m (us @ [p])" "mframe h1 R h4" "win_size h1 m p = rm_last_offset m - mp_offset y" "stable h1 R h4"
          using fork_own_ok [OF h1(2,6) Mp(1) un _ y] h1(7) hd1 Mp(2) by auto
        have "rm_total_bytes m - (\<Sum>q\<leftarrow>us. win_size h1 m q) - (rm_last_offset m - mp_offset y) = 0"
          using msg_okD(9) [OF Mp(1)] r(10) by simp
        then have "fork_message_chain m h = Some (0, m, h4)"
          using True y1 Some mg x h1(1) s(2) y r(1-4) by (auto simp: fork_message_chain_def Let_def)
        then show ?thesis using r(5-8) frame_trans [OF h1(5) r(9)] stable_trans [OF st1 h1(5) r(11)] Some
          by (rule_tac x = 0 in exI, rule_tac x = m in exI, rule_tac x = "us @ [p]" in exI, rule_tac x = h4 in exI) simp
      qed
    qed
  qed
qed

section \<open>Locking the last part\<close>

definition closed_at :: "msg_heap \<Rightarrow> raw_message \<Rightarrow> nat \<Rightarrow> bool" where
  "closed_at h m l \<longleftrightarrow> mp_next (prt h l) = None \<and> mp_data_end (prt h l) = rm_last_offset m"

lemma lock_same_view:
  assumes H: "heap_ok h R L" and x: "mparts h l = Some x" and q: "mparts h q \<noteq> None"
  shows "same_view h (h\<lparr>mparts := (mparts h)(l \<mapsto> x\<lparr>mp_locked := v\<rparr>)\<rparr>) q"
proof (cases "q = l")
  case True
  then show ?thesis using x part_okD(4) [OF heap_okD(4) [OF H x]] by (auto simp: same_view_def)
next
  case False
  then show ?thesis using same_view_other [OF H False q] by simp
qed

lemma lock_ok:
  assumes H: "heap_ok h R L" and x: "mparts h l = Some x" and v: "L' = (if v then insert l L else L - {l})"
  shows "\<exists>h'. upd_part l (\<lambda>y. y\<lparr>mp_locked := v\<rparr>) h = Some h' \<and> heap_ok h' R L' \<and> (\<forall>q. mparts h q \<noteq> None \<longrightarrow> same_view h h' q) \<and>
    h' = h\<lparr>mparts := (mparts h)(l \<mapsto> x\<lparr>mp_locked := v\<rparr>)\<rparr>"
proof -
  have "heap_ok (h\<lparr>mparts := (mparts h)(l \<mapsto> x\<lparr>mp_locked := v\<rparr>)\<rparr>) R L'"
    using part_okD(2-4) [OF heap_okD(4) [OF H x]] v by (intro set_window_ok [OF H x]) auto
  then show ?thesis using x lock_same_view [OF H x] by (simp add: upd_part_some)
qed

lemma rwm_lock_last_part_ok:
  assumes m: "mholds h R L m d" and L: "L \<subseteq> mreach h R" and ne: "rm_first m \<noteq> None"
  shows "\<exists>lk m' us l h'. rwm_lock_last_part m h = Some (lk, m', h') \<and> mframe h R h' \<and>
    heap_ok h' (plus_ref (rm_first m') R) (set_option lk \<union> L) \<and> msg_ok h' m' (us @ [l]) \<and> wins_bytes h' m' (us @ [l]) = d \<and>
    closed_at h' m' l \<and> (lk = Some l \<and> l \<notin> L \<and> m' = m \<or> lk = None \<and> l \<notin> mreach h' R) \<and> stable h R h'"
proof -
  obtain ps where M: "msg_ok h m ps" "wins_bytes h m ps = d" and H: "heap_ok h (plus_ref (rm_first m) R) L"
    using m by (auto simp: mholds_def)
  have mg: "rm_magic m = RM_INIT_MAGIC" using msg_okD(1) [OF M(1)] .
  have "ps \<noteq> []" using msg_okD(2) [OF M(1)] ne by simp
  then obtain us l where ul: "ps = us @ [l]" by (metis rev_exhaust)
  have lst: "rm_last m = Some l" using msg_okD(4) [OF M(1)] ul by simp
  obtain x where x: "mparts h l = Some x" using mpath_dom [OF msg_okD(5) [OF M(1)], of l] ul by auto
  have le: "rm_last_offset m \<le> mp_data_end x" using msg_okD(7) [OF M(1)] ul x by (simp add: prt_def)
  show ?thesis
  proof (cases "mp_next x \<noteq> None \<or> rm_last_offset m \<noteq> mp_data_end x \<or> mp_locked x")
    case True
    obtain res m' qs h' where r: "fork_message_chain m h = Some (res, m', h')" "heap_ok h' (plus_ref (rm_first m') R) L"
      "msg_ok h' m' qs" "wins_bytes h' m' qs = d" "unshared_msg h' m' qs" "mframe h R h'" "qs = [] \<longleftrightarrow> rm_first m = None" "stable h R h'"
      using fork_message_chain_ok [OF m L] by (elim exE conjE) (rule that)
    have "qs \<noteq> []" using r(7) ne by simp
    then obtain vs k where vk: "qs = vs @ [k]" by (metis rev_exhaust)
    have "rm_first m' = Some (hd (vs @ [k]))" using msg_okD(4) [OF r(3)] vk by simp
    then have "k \<notin> mreach h' R"
      using unshared_unreached [of h' "hd (vs @ [k])" R L "vs @ [k]" k] r(2,5) msg_okD(5) [OF r(3)] vk by (auto simp: unshared_msg_def)
    moreover have "rwm_lock_last_part m h = Some (None, m', h')"
      using True mg ne lst x le r(1) by (auto simp: rwm_lock_last_part_def)
    moreover have "closed_at h' m' k" using r(5) vk by (simp add: closed_at_def unshared_msg_def)
    ultimately show ?thesis using r(2,3,4,6,8) vk by (rule_tac x = None in exI) auto
  next
    case False
    then have c: "mp_next x = None" "rm_last_offset m = mp_data_end x" "\<not> mp_locked x" by auto
    obtain h' where h': "upd_part l (\<lambda>y. y\<lparr>mp_locked := True\<rparr>) h = Some h'" "heap_ok h' (plus_ref (rm_first m) R) (insert l L)"
      "\<forall>q. mparts h q \<noteq> None \<longrightarrow> same_view h h' q" "h' = h\<lparr>mparts := (mparts h)(l \<mapsto> x\<lparr>mp_locked := True\<rparr>)\<rparr>"
      using lock_ok [OF H x, of "insert l L" True] by auto
    have "msg_ok h' m ps \<and> wins_bytes h' m ps = d"
      using frame_reached [OF H _ M(1), of h'] h'(3) mpath_dom [OF msg_okD(5) [OF M(1)]] M(2) by blast
    moreover have "mframe h R h'" using frame_less all_same_frame [OF H] h'(3) by blast
    moreover have "rwm_lock_last_part m h = Some (Some l, m, h')"
      using mg ne lst x c h'(1) by (auto simp: rwm_lock_last_part_def)
    moreover have "closed_at h' m l" using c by (simp add: closed_at_def prt_def h'(4))
    moreover have "l \<notin> L" using part_okD(1) [OF heap_okD(4) [OF H x]] c(3) by simp
    moreover have "stable h R h'" using x by (simp add: stable_def prt_def h'(4))
    ultimately show ?thesis using h'(2) ul by (rule_tac x = "Some l" in exI) auto
  qed
qed

section \<open>A first part of its own\<close>

lemma part_unreached:
  assumes H: "heap_ok h (plus_ref (Some c) R) L" and x: "mparts h c = Some x" and one: "mp_refcnt x = 1"
  shows "c \<notin> mreach h R"
  using unshared_unreached [of h c R L "[c]" c] H x one by (auto simp: prt_def)

text \<open>The new first part, in the place of one that is left with a reference.\<close>

lemma new_first_ok:
  assumes H: "heap_ok h (plus_ref (rm_first m) R) L" and L: "L \<subseteq> mreach h R" and M: "msg_ok h m (f # vs)"
    and x: "mparts h f = Some x" and b: "mbufs h (mp_part x) = Some b"
    and n: "mp_next cx = (if vs = [] then None else Some (hd vs))"
    and cx: "mp_offset cx = rm_first_offset m" "mp_data_end cx = win_end h m f" "mp_part cx = mp_part x" "mp_refcnt cx = 1" "\<not> mp_locked cx"
    and h1: "(if vs = [] then Some h else msg_part_incref (hd vs) h) = Some h1"
  defines "c \<equiv> mh_fresh h"
  defines "h2 \<equiv> h\<lparr>mbufs := (mbufs h)(mp_part x \<mapsto> b\<lparr>mb_refcnt := mb_refcnt b + 1\<rparr>), mh_fresh := Suc c, mparts := (mparts h1)(c \<mapsto> cx)\<rparr>"
    and "m' \<equiv> m\<lparr>rm_first := Some c, rm_last := (if vs = [] then Some c else rm_last m)\<rparr>"
  shows "heap_ok h2 (plus_ref (Some c) (plus_ref (rm_first m) R)) L \<and> msg_ok h2 m' (c # vs) \<and>
    wins_bytes h2 m' (c # vs) = wins_bytes h m (f # vs) \<and> mframe h R h2 \<and>
    (\<forall>q. q \<noteq> c \<longrightarrow> mp_next (prt h2 q) = mp_next (prt h q) \<and> mp_data_end (prt h2 q) = mp_data_end (prt h q))"
proof -
  have f: "rm_first m = Some f" "rm_last m = Some (last (f # vs))" "rm_magic m = RM_INIT_MAGIC" using msg_okD(1,4) [OF M] by auto
  note bf = win_bounds [OF H M, of f]
  have px: "prt h f = x" "bdata h (mp_part x) = mb_data b" using x b by (simp_all add: prt_def bdata_def)
  have ws: "win_start h m f = rm_first_offset m" using f by (simp add: win_start_def part_start_def)
  have bl: "mp_part x < mh_fresh h" using heap_okD(3) [OF H, of "mp_part x"] b by blast
  define n' where "n' = (if vs = [] then None else Some (hd vs))"
  have I: "heap_ok h1 (plus_ref n' (plus_ref (rm_first m) R)) L \<and> trimmed h h1 \<and> dom (mparts h1) = dom (mparts h) \<and> mbufs h1 = mbufs h \<and> mh_fresh h1 = mh_fresh h"
  proof (cases vs)
    case Nil
    then show ?thesis using H h1 by (simp add: n'_def trimmed_def)
  next
    case (Cons a as)
    obtain xa where xa: "mparts h a = Some xa" using mpath_dom [OF msg_okD(5) [OF M], of a] Cons by auto
    have "mbufs h1 = mbufs h \<and> mh_fresh h1 = mh_fresh h" using h1 Cons xa by (auto simp: msg_part_incref_def upd_part_def)
    then show ?thesis using msg_part_incref_ok [OF H xa] h1 Cons by (auto simp: n'_def)
  qed
  have c1: "mparts h1 c = None" using I fresh_parts(1) [OF H] by (metis c_def domIff)
  have h2: "mparts h2 = (mparts h1)(c \<mapsto> cx)" "mbufs h2 = (mbufs h1)(mp_part x \<mapsto> b\<lparr>mb_refcnt := mb_refcnt b + 1\<rparr>)" "mh_fresh h2 = Suc c"
    using I by (simp_all add: h2_def)
  have b1: "mbufs h1 (mp_part x) = Some b" using I b by simp
  have I1: "heap_ok h1 (plus_ref n' (plus_ref (rm_first m) R)) L" and fr: "mh_fresh h1 = mh_fresh h" using I by blast+
  have bc: "mb_refcnt b = int (card (users h1 (mp_part x)))" using heap_okD(5) [OF I1 b1] by simp
  have sz: "win_end h m f \<le> int (length (mb_data b))" using bf px by simp
  have "heap_ok h2 (plus_ref (Some c) (plus_ref (rm_first m) R)) L \<and> (\<forall>q. mparts h1 q \<noteq> None \<longrightarrow> same_view h1 h2 q)"
    by (rule add_part_ok [where y = "b\<lparr>mb_refcnt := mb_refcnt b + 1\<rparr>", OF I1 h2(1) c1 fresh_unlocked [OF H L, folded c_def] cx(4,5) n [folded n'_def] cx(3)])
      (use cx(1,2) bf ws h2(2,3) bc sz b1 bl fr in \<open>simp_all add: buffer_size_def c_def\<close>)
  then have A: "heap_ok h2 (plus_ref (Some c) (plus_ref (rm_first m) R)) L" "\<And>q. mparts h1 q \<noteq> None \<Longrightarrow> same_view h1 h2 q" by blast+
  have V: "same_view h h2 q" if q: "mparts h q \<noteq> None" for q
  proof -
    have q1: "mparts h1 q \<noteq> None" using I q by (metis domIff)
    have "same_view h h1 q" using trimmed_view [of h h1 "plus_ref n' (plus_ref (rm_first m) R)" L q] I q1 by blast
    then show ?thesis using same_view_trans A(2) [OF q1] by blast
  qed
  have pc: "mparts h2 c = Some cx" using h2 by simp
  have O: "msg_ok h2 (one_part c (rm_first_offset m) (win_end h m f)) [c]"
    "wins_bytes h2 (one_part c (rm_first_offset m) (win_end h m f)) [c] = win_bytes h m f"
    using one_part_ok [OF pc, of "rm_first_offset m" "win_end h m f"] cx bf ws px h2(2) by (simp_all add: bdata_def win_bytes_def)
  have M': "msg_ok h2 m' (c # vs) \<and> wins_bytes h2 m' (c # vs) = wins_bytes h m (f # vs)"
  proof (cases vs)
    case Nil
    have "one_part c (rm_first_offset m) (win_end h m f) = m'"
      using f Nil msg_okD(9) [OF M] ws by (cases m) (simp add: one_part_def m'_def win_end_def part_end_def)
    then show ?thesis using O Nil by simp
  next
    case (Cons a as)
    note S0 = M [unfolded Cons]
    define s where "s = m\<lparr>rm_first := Some a, rm_first_offset := mp_offset (prt h a), rm_total_bytes := rm_total_bytes m - win_size h m f\<rparr>"
    have S: "msg_ok h s (a # as)" "wins_bytes h s (a # as) = wins_bytes h m (a # as)"
      using suffix_rest [OF H S0] by (simp_all add: s_def)
    have S2: "msg_ok h2 s (a # as)" "wins_bytes h2 s (a # as) = wins_bytes h m (a # as)"
      using frame_reached [OF H _ S(1), of h2] V mpath_dom [OF msg_okD(5) [OF S(1)]] S(2) by auto
    have va: "same_view h h2 a" using V mpath_dom [OF msg_okD(5) [OF S(1)], of a] by auto
    have cn: "c \<notin> set (a # as)" using mpath_dom [OF msg_okD(5) [OF S(1)], of c] fresh_parts(1) [OF H] by (auto simp: c_def)
    have "rm_first_offset s = mp_offset (prt h2 a)" using va by (auto simp: s_def same_view_def prt_def)
    moreover have "nxt h2 c = Some a" using pc n Cons by (simp add: nxt_def)
    moreover have "(one_part c (rm_first_offset m) (win_end h m f))\<lparr>rm_last := rm_last s, rm_last_offset := rm_last_offset s,
        rm_total_bytes := rm_total_bytes (one_part c (rm_first_offset m) (win_end h m f)) + rm_total_bytes s\<rparr> = m'"
      using f Cons ws by (cases m) (simp add: one_part_def m'_def s_def)
    ultimately show ?thesis
      using msg_join [of h2 "one_part c (rm_first_offset m) (win_end h m f)" "[]" c s "a # as"] O S2 cn pc cx Cons by (simp add: prt_def)
  qed
  have "mp_next (prt h1 q) = mp_next (prt h q) \<and> mp_data_end (prt h1 q) = mp_data_end (prt h q)" for q
    using h1 by (cases vs) (auto simp: msg_part_incref_def upd_part_def prt_def bind_eq_Some_conv)
  then have "\<forall>q. q \<noteq> c \<longrightarrow> mp_next (prt h2 q) = mp_next (prt h q) \<and> mp_data_end (prt h2 q) = mp_data_end (prt h q)"
    using h2(1) by (simp add: prt_def)
  moreover have "mframe h R h2" using frame_less all_same_frame [OF H] V by blast
  ultimately show ?thesis using A(1) M' by blast
qed

lemma rwm_lock_first_part_ok:
  assumes m: "mholds h R L m d" and L: "L \<subseteq> mreach h R" and ne: "rm_first m \<noteq> None"
  shows "\<exists>m' ps h'. rwm_lock_first_part m h = Some (m', h') \<and> heap_ok h' (plus_ref (rm_first m') R) L \<and> msg_ok h' m' ps \<and> ps \<noteq> [] \<and>
    wins_bytes h' m' ps = d \<and> mframe h R h' \<and> rm_first_offset m' = mp_offset (prt h' (hd ps)) \<and>
    (\<forall>l. rm_last m = Some l \<longrightarrow> closed_at h m l \<longrightarrow> closed_at h' m' (last ps)) \<and>
    (rm_last m' = rm_last m \<or> last ps \<notin> mreach h' R) \<and> stable h R h'"
proof -
  obtain ps where M: "msg_ok h m ps" "wins_bytes h m ps = d" and H: "heap_ok h (plus_ref (rm_first m) R) L"
    using m by (auto simp: mholds_def)
  have mg: "rm_magic m = RM_INIT_MAGIC" using msg_okD(1) [OF M(1)] .
  obtain f where Some: "rm_first m = Some f" using ne by blast
  then obtain vs where ps: "ps = f # vs" using msg_okD(2,4) [OF M(1)] by (cases ps) auto
  note Mf = M(1) [unfolded ps] and df = M(2) [unfolded ps]
  have lst: "rm_last m = Some (last (f # vs))" using msg_okD(4) [OF Mf] by simp
  obtain x where x: "mparts h f = Some x" using mpath_dom [OF msg_okD(5) [OF Mf], of f] by auto
  show ?thesis
  proof (cases "rm_first_offset m = mp_offset x \<or> mp_refcnt x = 1")
    case True
    obtain h' where h': "upd_part f (\<lambda>y. y\<lparr>mp_offset := rm_first_offset m\<rparr>) h = Some h'" "heap_ok h' (plus_ref (rm_first m) R) L"
      "msg_ok h' m (f # vs)" "wins_bytes h' m (f # vs) = d" "mframe h R h'" "rm_first_offset m = mp_offset (prt h' f)"
      "\<forall>q. mp_next (prt h' q) = mp_next (prt h q) \<and> mp_data_end (prt h' q) = mp_data_end (prt h q)"
      using own_first_ok [OF H L Mf x True] unfolding df by (elim exE conjE) (rule that)
    have "rwm_lock_first_part m h = Some (m, h')"
    proof (cases "mp_refcnt x = 1")
      case one: True
      then show ?thesis using mg Some x h'(1) by (simp add: rwm_lock_first_part_def)
    next
      case False
      then have o: "rm_first_offset m = mp_offset x" using True by simp
      then have "h' = h" using h'(1) x by (simp add: upd_part_def fun_upd_idem)
      then show ?thesis using False o mg Some x by (simp add: rwm_lock_first_part_def)
    qed
    then show ?thesis using h' lst
      by (rule_tac x = m in exI, rule_tac x = "f # vs" in exI, rule_tac x = h' in exI) (auto simp: closed_at_def stable_def)
  next
    case False
    obtain b where b: "mbufs h (mp_part x) = Some b" using part_okD(4) [OF heap_okD(4) [OF H x]] by blast
    let ?c = "mh_fresh h"
    define cx where "cx = \<lparr>mp_refcnt = 1, mp_locked = False, mp_next = (if vs = [] then None else Some (hd vs)), mp_part = mp_part x,
      mp_offset = rm_first_offset m, mp_data_end = win_end h m f\<rparr>"
    have ex: "\<exists>h1. (if vs = [] then Some h else msg_part_incref (hd vs) h) = Some h1"
      using mpath_dom [OF msg_okD(5) [OF Mf], of "hd vs"] by (cases vs) (auto simp: msg_part_incref_def upd_part_def)
    then obtain h1 where h1: "(if vs = [] then Some h else msg_part_incref (hd vs) h) = Some h1" by blast
    define h2 where "h2 = h\<lparr>mbufs := (mbufs h)(mp_part x \<mapsto> b\<lparr>mb_refcnt := mb_refcnt b + 1\<rparr>), mh_fresh := Suc ?c, mparts := (mparts h1)(?c \<mapsto> cx)\<rparr>"
    define m' where "m' = m\<lparr>rm_first := Some ?c, rm_last := (if vs = [] then Some ?c else rm_last m)\<rparr>"
    have r: "heap_ok h2 (plus_ref (Some ?c) (plus_ref (rm_first m) R)) L" "msg_ok h2 m' (?c # vs)" "wins_bytes h2 m' (?c # vs) = d" "mframe h R h2"
      "\<forall>q. q \<noteq> ?c \<longrightarrow> mp_next (prt h2 q) = mp_next (prt h q) \<and> mp_data_end (prt h2 q) = mp_data_end (prt h q)"
      using new_first_ok [OF H L Mf x b _ _ _ _ _ _ h1, of cx] df by (auto simp: cx_def h2_def m'_def)
    have "L \<subseteq> mreach h2 (plus_ref (Some ?c) R)" using locked_reach [OF L r(4)] .
    then obtain n h' where d: "msg_part_decref (Some f) h2 = Some (n, h')" "heap_ok h' (plus_ref (Some ?c) R) L"
      "mframe h2 (plus_ref (Some ?c) R) h'" "trimmed h2 h'"
      using decref_frame [of h2 "Some f" "plus_ref (Some ?c) R" L] r(1) plus_ref_commute [of "Some ?c" "Some f" R] Some by metis
    have f': "rm_first m' = Some ?c" by (simp add: m'_def)
    have M': "msg_ok h' m' (?c # vs)" "wins_bytes h' m' (?c # vs) = d" using frame_msg [OF r(1) d(3) r(2)] r(3) f' by auto
    have tr: "mp_next (prt h' q) = mp_next (prt h2 q) \<and> mp_data_end (prt h' q) = mp_data_end (prt h2 q) \<and> mp_offset (prt h' q) = mp_offset (prt h2 q)"
      if q: "q \<in> set (?c # vs)" for q
    proof -
      obtain x' where "mparts h' q = Some x'" using mpath_dom [OF msg_okD(5) [OF M'(1)] q] by blast
      then show ?thesis using trimmed_part [OF d(4)] by (fastforce simp: prt_def)
    qed
    have pc: "prt h2 ?c = cx" by (simp add: h2_def prt_def)
    have o: "rm_first_offset m' = mp_offset (prt h' (hd (?c # vs)))" using tr [of ?c] pc by (simp add: m'_def cx_def)
    have cl: "closed_at h' m' (last (?c # vs))" if "closed_at h m (last (f # vs))"
    proof (cases vs)
      case Nil
      then show ?thesis using tr [of ?c] pc lst by (simp add: closed_at_def cx_def m'_def win_end_def part_end_def)
    next
      case (Cons a as)
      have "last vs \<in> set vs" using Cons by auto
      moreover have "?c \<notin> set vs" using mpath_dom [OF msg_okD(5) [OF Mf], of ?c] fresh_parts(1) [OF H] by auto
      ultimately have "last vs \<noteq> ?c" by metis
      then have "mp_next (prt h2 (last vs)) = mp_next (prt h (last vs))" "mp_data_end (prt h2 (last vs)) = mp_data_end (prt h (last vs))"
        using r(5) by blast+
      then show ?thesis using tr [of "last vs"] \<open>last vs \<in> set vs\<close> that Cons by (simp add: closed_at_def m'_def)
    qed
    have lu: "rm_last m' = rm_last m \<or> last (?c # vs) \<notin> mreach h' R"
    proof (cases vs)
      case Nil
      obtain x' where x': "mparts h' ?c = Some x'" using mpath_dom [OF msg_okD(5) [OF M'(1)], of ?c] by auto
      have "mp_refcnt x' = 1" using trimmed_count [OF d(4) r(1) d(2) _ x'] pc plus_ref_le [of R ?c "rm_first m"] by (simp add: cx_def)
      then show ?thesis using part_unreached [OF d(2) x'] Nil by simp
    qed (simp add: m'_def)
    have "mp_data_end x = win_end h m f" if "vs \<noteq> []"
      using that lst x msg_okD(6) [OF Mf] by (auto simp: win_end_def part_end_def prt_def)
    moreover have "mp_next x = Some (hd vs)" if "vs \<noteq> []"
      using that msg_okD(5) [OF Mf] x by (cases vs) (auto simp: nxt_def)
    moreover have "win_end h m f = rm_last_offset m" if "vs = []" using that lst by (simp add: win_end_def part_end_def)
    moreover have "rm_last m = rm_first m \<longleftrightarrow> vs = []" using lst Some msg_okD(6) [OF Mf] by (cases vs rule: rev_cases) auto
    moreover have "?c \<noteq> hd vs" if "vs \<noteq> []" using mpath_dom [OF msg_okD(5) [OF Mf], of "hd vs"] fresh_parts(1) [OF H] that by auto
    ultimately have "rwm_lock_first_part m h = Some (m', h')"
      using False mg Some x b h1 d(1) fresh_parts(1) [OF H]
      by (cases "vs = []")
        (auto simp: rwm_lock_first_part_def new_msg_part_def msg_buffer_incref_def upd_part_def msg_part_incref_def h2_def m'_def cx_def
          Let_def bind_eq_Some_conv fun_upd_twist)
    moreover have "stable h R h'"
    proof -
      have "q \<noteq> ?c" if "q \<in> mreach h R" for q using reach_dom [OF H that] fresh_parts(1) [OF H] by auto
      then have "stable h R h2" using r(5) by (simp add: stable_def)
      then show ?thesis using stable_trans r(4) trimmed_stable [OF d(4) frame_less [OF d(3)]] by blast
    qed
    ultimately show ?thesis using d(2) M' f' o cl lu lst frame_trans [OF r(4) frame_less [OF d(3)]]
      by (rule_tac x = m' in exI, rule_tac x = "?c # vs" in exI, rule_tac x = h' in exI) auto
  qed
qed

end
