(* ===== verification/MsgPush.thy ===== *)
theory MsgPush
  imports MsgWrite
begin

text \<open>
  Appending and prepending data, and joining messages.
\<close>

section \<open>Growing the first and the last window\<close>

lemma grow_last:
  assumes H: "heap_ok h R L" and M: "msg_ok h m (us @ [l])" and n: "0 \<le> n" "rm_last_offset m + n \<le> mp_data_end (prt h l)"
  defines "m' \<equiv> m\<lparr>rm_last_offset := rm_last_offset m + n, rm_total_bytes := rm_total_bytes m + n\<rparr>"
  shows "msg_ok h m' (us @ [l]) \<and> wins_bytes h m' (us @ [l]) =
    wins_bytes h m (us @ [l]) @ mslice (bdata h (mp_part (prt h l))) (rm_last_offset m) (rm_last_offset m + n)"
proof -
  note m = msg_okD [OF M]
  have f: "rm_last m = Some l" "rm_first m = Some (hd (us @ [l]))" using m(4) by simp_all
  have d: "l \<notin> set us" "distinct us" using m(6) by auto
  have w: "win_start h m' q = win_start h m q \<and> win_end h m' q = win_end h m q \<and> win_bytes h m' q = win_bytes h m q" if "q \<in> set us" for q
    using that d f by (intro win_cong) (auto simp: m'_def)
  have s: "win_start h m' l = win_start h m l" "win_end h m l = rm_last_offset m" "win_end h m' l = rm_last_offset m + n"
    using f by (simp_all add: m'_def win_start_def win_end_def part_start_def part_end_def)
  note b = win_bounds [OF H M, of l]
  have "win_bytes h m' l = win_bytes h m l @ mslice (bdata h (mp_part (prt h l))) (rm_last_offset m) (rm_last_offset m + n)"
    unfolding win_bytes_def s using slice_append [of "win_start h m l" "rm_last_offset m" "rm_last_offset m + n"] b s n(1) by simp
  moreover have "rm_total_bytes m' = (\<Sum>q\<leftarrow>us @ [l]. win_end h m' q - win_start h m' q)"
    using m(9) wins_cong [of us h m' m] w s by (simp add: m'_def)
  moreover have "\<forall>q\<in>set (us @ [l]). win_start h m' q \<le> win_end h m' q" using w s b m(8) n(1) by auto
  moreover have "mp_offset (prt h (hd (us @ [l]))) \<le> rm_first_offset m" using m(7) by simp
  ultimately show ?thesis using m(1,5,6) f n(2) wins_cong [of us h m' m] w unfolding msg_ok_def by (auto simp: m'_def)
qed

lemma grow_first:
  assumes H: "heap_ok h R L" and M: "msg_ok h m (f # vs)" and n: "0 \<le> n" "mp_offset (prt h f) \<le> rm_first_offset m - n"
  defines "m' \<equiv> m\<lparr>rm_first_offset := rm_first_offset m - n, rm_total_bytes := rm_total_bytes m + n\<rparr>"
  shows "msg_ok h m' (f # vs) \<and> wins_bytes h m' (f # vs) =
    mslice (bdata h (mp_part (prt h f))) (rm_first_offset m - n) (rm_first_offset m) @ wins_bytes h m (f # vs)"
proof -
  note m = msg_okD [OF M]
  have f: "rm_first m = Some f" "rm_last m = Some (last (f # vs))" using m(4) by simp_all
  have d: "f \<notin> set vs" "distinct vs" using m(6) by auto
  have w: "win_start h m' q = win_start h m q \<and> win_end h m' q = win_end h m q \<and> win_bytes h m' q = win_bytes h m q" if "q \<in> set vs" for q
    using that d f by (intro win_cong) (auto simp: m'_def)
  have s: "win_end h m' f = win_end h m f" "win_start h m f = rm_first_offset m" "win_start h m' f = rm_first_offset m - n"
    using f by (simp_all add: m'_def win_start_def win_end_def part_start_def part_end_def)
  note b = win_bounds [OF H M, of f]
  obtain x where x: "mparts h f = Some x" using mpath_dom [OF m(5), of f] by auto
  have o: "0 \<le> mp_offset (prt h f)" using part_okD(2) [OF heap_okD(4) [OF H x]] x by (simp add: prt_def)
  have "win_bytes h m' f = mslice (bdata h (mp_part (prt h f))) (rm_first_offset m - n) (rm_first_offset m) @ win_bytes h m f"
    unfolding win_bytes_def s using slice_append [of "rm_first_offset m - n" "rm_first_offset m" "win_end h m f"] b s n o by simp
  moreover have "rm_total_bytes m' = (\<Sum>q\<leftarrow>f # vs. win_end h m' q - win_start h m' q)"
    using m(9) wins_cong [of vs h m' m] w s by (simp add: m'_def)
  moreover have "\<forall>q\<in>set (f # vs). win_start h m' q \<le> win_end h m' q" using w s b n(1) m(8) by auto
  moreover have "rm_last_offset m \<le> mp_data_end (prt h (last (f # vs)))" using m(7) by simp
  ultimately show ?thesis using m(1,5,6) f n(2) wins_cong [of vs h m' m] w unfolding msg_ok_def by (auto simp: m'_def)
qed

section \<open>Writing into a buffer with one user\<close>

lemma one_user:
  assumes H: "heap_ok h R L" and x: "mparts h l = Some x" and b: "mbufs h (mp_part x) = Some b" and one: "mb_refcnt b = 1"
    and q: "mparts h q = Some z" "mp_part z = mp_part x"
  shows "q = l"
proof -
  have c: "card (users h (mp_part x)) = 1" using heap_okD(5) [OF H b] one by simp
  have "l \<in> users h (mp_part x)" "q \<in> users h (mp_part x)" using x q by (auto simp: users_def)
  then show ?thesis using card_1_singletonE [OF c] by (metis singletonD)
qed

lemma fill_ok:
  assumes H: "heap_ok h R L" and x: "mparts h l = Some x" and b: "mbufs h (mp_part x) = Some b" and one: "mb_refcnt b = 1"
    and x': "mp_refcnt x' = mp_refcnt x" "mp_next x' = mp_next x" "mp_part x' = mp_part x" "mp_locked x' = mp_locked x"
    and w: "0 \<le> mp_offset x'" "mp_offset x' \<le> mp_data_end x'" "mp_data_end x' \<le> buffer_size b"
    and b': "mb_refcnt b' = mb_refcnt b" "length (mb_data b') = length (mb_data b)"
  defines "h' \<equiv> h\<lparr>mbufs := (mbufs h)(mp_part x \<mapsto> b'), mparts := (mparts h)(l \<mapsto> x')\<rparr>"
  shows "heap_ok h' R L \<and> (\<forall>q. q \<noteq> l \<longrightarrow> mparts h q \<noteq> None \<longrightarrow> same_view h h' q)"
proof -
  define h1 where "h1 = h\<lparr>mbufs := (mbufs h)(mp_part x \<mapsto> b')\<rparr>"
  have H1: "heap_ok h1 R L" unfolding h1_def using write_ok [OF H b b'] .
  have x1: "mparts h1 l = Some x" using x by (simp add: h1_def)
  have h': "h' = h1\<lparr>mparts := (mparts h1)(l \<mapsto> x')\<rparr>" by (simp add: h'_def h1_def)
  have "heap_ok h' R L" unfolding h'
    by (rule set_window_ok [OF H1 x1 x'(1,2,3)])
      (use x'(4) w b'(2) part_okD(1) [OF heap_okD(4) [OF H x]] in \<open>auto simp: h1_def buffer_size_def\<close>)
  moreover have "same_view h h' q" if q: "q \<noteq> l" "mparts h q \<noteq> None" for q
  proof -
    obtain z where z: "mparts h q = Some z" using q(2) by blast
    have "mp_part z \<noteq> mp_part x" using one_user [OF H x b one z] q(1) by blast
    then show ?thesis using z q(1) part_okD(4) [OF heap_okD(4) [OF H z]] by (auto simp: same_view_def h'_def)
  qed
  ultimately show ?thesis by blast
qed

lemma put_slice: "length a = n \<Longrightarrow> mslice (a @ w @ c) (int n) (int (n + length w)) = w"
  by (simp add: mslice_def)

lemma put_slice_at:
  assumes "0 \<le> s" "s + int (length w) \<le> int (length xs)"
  shows "mslice (take (nat s) xs @ w @ drop (nat s + length w) xs) s (s + int (length w)) = w"
  using put_slice [of "take (nat s) xs" "nat s" w "drop (nat s + length w) xs"] assms by simp

section \<open>Room in the last part\<close>

text \<open>The bytes that are written: those given, or any when no data are given.\<close>

definition pushed :: "bytes option \<Rightarrow> int \<Rightarrow> bytes \<Rightarrow> bool" where
  "pushed data n w \<longleftrightarrow> int (length w) = n \<and> (\<forall>d. data = Some d \<longrightarrow> w = take (nat n) d)"

definition enough :: "bytes option \<Rightarrow> int \<Rightarrow> bool" where
  "enough data n \<longleftrightarrow> (\<forall>d. data = Some d \<longrightarrow> n \<le> int (length d))"

lemma pushed_append:
  assumes "pushed data n v" "pushed (data_advance n data) k w" "0 \<le> n" "0 \<le> k"
  shows "pushed data (n + k) (v @ w)"
proof -
  have "nat (n + k) = nat n + nat k" using assms(3,4) by simp
  then show ?thesis using assms(1,2) by (auto simp: pushed_def data_advance_def take_add)
qed

lemma enough_advance: "enough data n \<Longrightarrow> 0 \<le> k \<Longrightarrow> k \<le> n \<Longrightarrow> enough (data_advance k data) (n - k)"
  by (auto simp: enough_def data_advance_def)

lemma copy_in_ok:
  assumes b: "mbufs h X = Some b" and n: "0 \<le> pos" "0 \<le> n" "pos + n \<le> buffer_size b" and d: "enough data n"
  shows "\<exists>b' w. copy_in X pos data n h = Some (h\<lparr>mbufs := (mbufs h)(X \<mapsto> b')\<rparr>) \<and> mb_refcnt b' = mb_refcnt b \<and>
    length (mb_data b') = length (mb_data b) \<and> take (nat pos) (mb_data b') = take (nat pos) (mb_data b) \<and>
    mslice (mb_data b') pos (pos + n) = w \<and> pushed data n w"
proof (cases data)
  case None
  have "pushed None n (mslice (mb_data b) pos (pos + n))"
    using length_slice [of pos "pos + n" "mb_data b"] n by (simp add: pushed_def buffer_size_def)
  then show ?thesis using None b by (intro exI [of _ b]) (simp add: copy_in_def fun_upd_idem)
next
  case (Some dd)
  have len: "n \<le> int (length dd)" using d Some by (simp add: enough_def)
  let ?w = "take (nat n) dd"
  have lw: "int (length ?w) = n" using len n by simp
  let ?b = "b\<lparr>mb_data := take (nat pos) (mb_data b) @ ?w @ drop (nat pos + length ?w) (mb_data b)\<rparr>"
  have p: "pos + int (length ?w) \<le> int (length (mb_data b))" using lw n by (simp add: buffer_size_def)
  have "copy_in X pos data n h = Some (h\<lparr>mbufs := (mbufs h)(X \<mapsto> ?b)\<rparr>)"
    using put_bytes_some [OF b n(1), of ?w] Some n(2) len p by (simp add: copy_in_def buffer_size_def)
  moreover have "length (mb_data ?b) = length (mb_data b)" using put_length [OF n(1) p] by simp
  moreover have "mslice (mb_data ?b) pos (pos + n) = ?w" using put_slice_at [OF n(1) p] lw by simp
  moreover have "take (nat pos) (mb_data ?b) = take (nat pos) (mb_data b)" using p n(1) by simp
  ultimately show ?thesis using Some lw by (intro exI [of _ ?b] exI [of _ ?w]) (simp add: pushed_def)
qed

lemma push_room_ok:
  assumes H: "heap_ok h (plus_ref (rm_first m) R) L" and M: "msg_ok h m (us @ [l])" and c: "closed_at h m l"
    and n: "0 \<le> n" "enough data n"
  shows "\<exists>k m' h' w. push_room m data n h = Some (l, k, m', h') \<and> 0 \<le> k \<and> k \<le> n \<and> pushed data k w \<and>
    heap_ok h' (plus_ref (rm_first m) R) L \<and> rm_first m' = rm_first m \<and> msg_ok h' m' (us @ [l]) \<and> closed_at h' m' l \<and>
    wins_bytes h' m' (us @ [l]) = wins_bytes h m (us @ [l]) @ w \<and> mframe h R h' \<and> mh_fails h' = mh_fails h \<and> dom (mparts h') = dom (mparts h)"
proof -
  have lst: "rm_last m = Some l" using msg_okD(4) [OF M] by simp
  obtain x where x: "mparts h l = Some x" using mpath_dom [OF msg_okD(5) [OF M], of l] by auto
  have cx: "mp_next x = None" "rm_last_offset m = mp_data_end x" using c x by (simp_all add: closed_at_def prt_def)
  note part = part_okD [OF heap_okD(4) [OF H x]]
  obtain b where b: "mbufs h (mp_part x) = Some b" "mp_data_end x \<le> buffer_size b" using part(4) by blast
  have eo: "0 \<le> mp_data_end x" using part(2,3) by simp
  show ?thesis
  proof (cases "mb_refcnt b = 1")
    case False
    have "push_room m data n h = Some (l, 0, m, h)" using False lst x cx b by (simp add: push_room_def)
    moreover have "pushed data 0 []" by (simp add: pushed_def)
    ultimately show ?thesis using H M c n frame_self [OF H]
      by (rule_tac x = 0 in exI, rule_tac x = m in exI, rule_tac x = h in exI, rule_tac x = "[]" in exI) simp
  next
    case True
    define k where "k = (if buffer_size b - mp_data_end x \<ge> n then n else buffer_size b - mp_data_end x)"
    have k: "0 \<le> k" "k \<le> n" "mp_data_end x + k \<le> buffer_size b" using n b by (auto simp: k_def)
    have "enough data k" using n(2) k(2) by (auto simp: enough_def)
    then obtain b' w where w: "copy_in (mp_part x) (mp_data_end x) data k h = Some (h\<lparr>mbufs := (mbufs h)(mp_part x \<mapsto> b')\<rparr>)"
      "mb_refcnt b' = mb_refcnt b" "length (mb_data b') = length (mb_data b)"
      "take (nat (mp_data_end x)) (mb_data b') = take (nat (mp_data_end x)) (mb_data b)"
      "mslice (mb_data b') (mp_data_end x) (mp_data_end x + k) = w" "pushed data k w"
      using copy_in_ok [OF b(1) eo k(1,3)] by blast
    let ?x = "x\<lparr>mp_data_end := mp_data_end x + k\<rparr>"
    define h' where "h' = h\<lparr>mbufs := (mbufs h)(mp_part x \<mapsto> b'), mparts := (mparts h)(l \<mapsto> ?x)\<rparr>"
    have H': "heap_ok h' (plus_ref (rm_first m) R) L" "\<And>q. q \<noteq> l \<Longrightarrow> mparts h q \<noteq> None \<Longrightarrow> same_view h h' q"
      using fill_ok [OF H x b(1) True, of ?x b'] part(2,3) k w(2,3) unfolding h'_def by simp_all
    have vl: "same_view h h' l" using x cx b w(4) k(1) by (auto simp: same_view_def h'_def)
    have V: "same_view h h' q" if "mparts h q \<noteq> None" for q using H'(2) vl that by (cases "q = l") auto
    have M1: "msg_ok h' m (us @ [l])" "wins_bytes h' m (us @ [l]) = wins_bytes h m (us @ [l])"
      using frame_reached [OF H _ M, of h'] V mpath_dom [OF msg_okD(5) [OF M]] by auto
    have pl: "prt h' l = ?x" "bdata h' (mp_part x) = mb_data b'" by (simp_all add: h'_def prt_def bdata_def)
    define m' where "m' = m\<lparr>rm_last_offset := rm_last_offset m + k, rm_total_bytes := rm_total_bytes m + k\<rparr>"
    have M': "msg_ok h' m' (us @ [l])" "wins_bytes h' m' (us @ [l]) = wins_bytes h m (us @ [l]) @ w"
      using grow_last [OF H'(1) M1(1) k(1)] pl cx w(5) M1(2) unfolding m'_def by simp_all
    have "push_room m data n h = Some (l, k, m', h')"
      using True lst x cx b w(1) eo by (simp add: push_room_def Let_def k_def [symmetric] upd_part_def h'_def m'_def)
    moreover have "closed_at h' m' l" using pl cx by (simp add: closed_at_def m'_def)
    moreover have "mframe h R h'" using frame_less all_same_frame [OF H V] by blast
    moreover have "dom (mparts h') = dom (mparts h)" using x by (auto simp: h'_def)
    moreover have "rm_first m' = rm_first m" "mh_fails h' = mh_fails h" by (simp_all add: m'_def h'_def)
    ultimately show ?thesis using k(1,2) w(6) H'(1) M' by blast
  qed
qed

section \<open>New parts at the end\<close>

lemma buffer_size_for_pos: "0 < buffer_size_for k"
  by (simp add: buffer_size_for_def default_buffer_sizes_def)

definition new_buffer :: "msg_heap \<Rightarrow> int \<Rightarrow> msg_buffer" where
  "new_buffer h k = \<lparr>mb_refcnt = 1, mb_data = map (mh_junk h) [0 ..< nat (buffer_size_for k)]\<rparr>"

lemma new_buffer_size: "buffer_size (new_buffer h k) = buffer_size_for k" "mb_refcnt (new_buffer h k) = 1"
  using buffer_size_for_pos [of k] by (simp_all add: new_buffer_def buffer_size_def)

definition out_of_memory :: "msg_heap \<Rightarrow> bool" where
  "out_of_memory h \<longleftrightarrow> (case mh_fails h of True # fs \<Rightarrow> True | _ \<Rightarrow> False)"

lemma alloc_some:
  assumes "\<not> out_of_memory h"
  shows "alloc_msg_buffer k h = (Some (mh_fresh h),
    h\<lparr>mbufs := (mbufs h)(mh_fresh h \<mapsto> new_buffer h k), mh_fresh := Suc (mh_fresh h), mh_fails := drop 1 (mh_fails h)\<rparr>)"
  using assms by (auto simp: alloc_msg_buffer_def out_of_memory_def new_buffer_def split: list.splits bool.splits)

lemma alloc_none: "out_of_memory h \<Longrightarrow> alloc_msg_buffer k h = (None, h\<lparr>mh_fails := drop 1 (mh_fails h)\<rparr>)"
  by (auto simp: alloc_msg_buffer_def out_of_memory_def split: list.splits bool.splits)

lemma same_parts:
  assumes "mparts h' = mparts h" "mbufs h' = mbufs h" "mh_fresh h' = mh_fresh h"
  shows "heap_ok h' R L = heap_ok h R L" "msg_ok h' m ps = msg_ok h m ps" "wins_bytes h' m ps = wins_bytes h m ps"
    "closed_at h' m l = closed_at h m l" "heap_ok h R L \<Longrightarrow> (\<And>q. R' q \<le> R q) \<Longrightarrow> mframe h R' h'"
proof -
  have n: "nxt h' = nxt h" "preds h' = preds h" "users h' = users h" using assms by (auto simp: nxt_def preds_def users_def fun_eq_iff)
  have po: "part_ok h' R L = part_ok h R L" using assms n by (auto simp: part_ok_def fun_eq_iff)
  show "heap_ok h' R L = heap_ok h R L" unfolding heap_ok_def n po assms ..
  have p: "prt h' = prt h" "bdata h' = bdata h" using assms by (auto simp: prt_def bdata_def fun_eq_iff)
  have w: "win_start h' m = win_start h m" "win_end h' m = win_end h m" "win_bytes h' m = win_bytes h m"
    using p by (auto simp: win_start_def win_end_def win_bytes_def fun_eq_iff)
  have "mpath h' ps = mpath h ps"
  proof (induction ps)
    case (Cons a ps)
    then show ?case by (cases ps) (simp_all add: n assms)
  qed simp
  then show "msg_ok h' m ps = msg_ok h m ps" using p w by (simp add: msg_ok_def)
  show "wins_bytes h' m ps = wins_bytes h m ps" using w by (simp add: wins_bytes_def)
  show "closed_at h' m l = closed_at h m l" using p by (simp add: closed_at_def)
  show "mframe h R' h'" if H: "heap_ok h R L" and le: "\<And>q. R' q \<le> R q"
    unfolding mframe_def
  proof
    fix q
    assume "q \<in> mreach h R'"
    then obtain x where x: "mparts h q = Some x" using mreach_dom [OF H _ le] by blast
    then show "same_view h h' q" using part_okD(4) [OF heap_okD(4) [OF H x]] assms by (auto simp: same_view_def)
  qed
qed

lemma push_step:
  fixes m :: raw_message and st sm res :: int
  assumes y: "mparts h l = Some y" and fr: "mparts h (Suc (mh_fresh h)) = None" and mem: "\<not> out_of_memory h" and n: "0 < n" "enough data n"
  defines "hint \<equiv> if rm_total_bytes m + n \<ge> st then st else sm"
  defines "k \<equiv> if buffer_size_for hint \<ge> n then n else buffer_size_for hint" and "c \<equiv> Suc (mh_fresh h)"
  defines "m' \<equiv> m\<lparr>rm_last := Some c, rm_total_bytes := rm_total_bytes m + k, rm_last_offset := k\<rparr>"
  shows "\<exists>b' w h'. push_loop l m data n res sm st h =
      (if buffer_size_for hint \<ge> n then Some (res + k, m', h') else push_loop c m' (data_advance k data) (n - k) (res + k) sm st h') \<and>
    pushed data k w \<and> mslice (mb_data b') 0 k = w \<and> k \<le> buffer_size b' \<and> mb_refcnt b' = 1 \<and>
    mparts h' = (mparts h)(c \<mapsto> \<lparr>mp_refcnt = 1, mp_locked = False, mp_next = None, mp_part = mh_fresh h, mp_offset = 0, mp_data_end = k\<rparr>,
      l \<mapsto> y\<lparr>mp_next := Some c\<rparr>) \<and> mbufs h' = (mbufs h)(mh_fresh h \<mapsto> b') \<and> mh_fresh h' = Suc c \<and> mh_fails h' = drop 1 (mh_fails h)"
proof -
  let ?X = "mh_fresh h"
  define h2 where "h2 = h\<lparr>mbufs := (mbufs h)(?X \<mapsto> new_buffer h hint), mh_fails := drop 1 (mh_fails h), mh_fresh := Suc c,
    mparts := (mparts h)(c \<mapsto> \<lparr>mp_refcnt = 1, mp_locked = False, mp_next = None, mp_part = ?X, mp_offset = 0, mp_data_end = k\<rparr>, l \<mapsto> y\<lparr>mp_next := Some c\<rparr>)\<rparr>"
  have cl: "c \<noteq> l" using fr y by (auto simp: c_def)
  have k: "0 \<le> k" "k \<le> buffer_size (new_buffer h hint)" "k \<le> n" using n(1) buffer_size_for_pos [of hint] by (auto simp: k_def new_buffer_size)
  have "enough data k" using n(2) k(3) by (auto simp: enough_def)
  then obtain b' w where w: "copy_in ?X 0 data k h2 = Some (h2\<lparr>mbufs := (mbufs h2)(?X \<mapsto> b')\<rparr>)" "mb_refcnt b' = 1"
    "length (mb_data b') = length (mb_data (new_buffer h hint))" "mslice (mb_data b') 0 k = w" "pushed data k w"
    using copy_in_ok [of h2 ?X "new_buffer h hint" 0 k data] k by (auto simp: h2_def new_buffer_size)
  have "push_loop l m data n res sm st h =
      (if buffer_size_for hint \<ge> n then Some (res + k, m', h2\<lparr>mbufs := (mbufs h2)(?X \<mapsto> b')\<rparr>)
       else push_loop c m' (data_advance k data) (n - k) (res + k) sm st (h2\<lparr>mbufs := (mbufs h2)(?X \<mapsto> b')\<rparr>))"
  proof (cases "buffer_size_for hint \<ge> n")
    case True
    then have kn: "k = n" by (simp add: k_def)
    show ?thesis using n(1) cl y w(1) fr True
      by (subst push_loop.simps)
        (simp add: alloc_some [OF mem] hint_def [symmetric] new_msg_part_def upd_part_def new_buffer_size c_def [symmetric] h2_def m'_def Let_def
          kn fun_upd_twist)
  next
    case False
    then have kn: "k = buffer_size_for hint" by (simp add: k_def)
    show ?thesis using n(1) cl y w(1) fr False
      by (subst push_loop.simps)
        (simp add: alloc_some [OF mem] hint_def [symmetric] new_msg_part_def upd_part_def new_buffer_size c_def [symmetric] h2_def m'_def Let_def
          kn fun_upd_twist)
  qed
  moreover have "k \<le> buffer_size b'" using k(2) w(3) by (simp add: buffer_size_def)
  ultimately show ?thesis using w by (intro exI [of _ b'] exI [of _ w] exI [of _ "h2\<lparr>mbufs := (mbufs h2)(?X \<mapsto> b')\<rparr>"]) (simp add: h2_def)
qed

lemma users_fresh:
  assumes H: "heap_ok h R L"
  shows "users h (mh_fresh h) = {}"
proof -
  have "mp_part x \<noteq> mh_fresh h" if "mparts h p = Some x" for p x
    using part_okD(4) [OF heap_okD(4) [OF H that]] fresh_parts(2) [OF H] by auto
  then show ?thesis by (auto simp: users_def)
qed

lemma push_append_ok:
  assumes H: "heap_ok h (plus_ref (rm_first m) R) L" and D: "\<forall>q\<in>L. mparts h q \<noteq> None" and M: "msg_ok h m (us @ [l])" and c: "closed_at h m l"
    and y: "mparts h l = Some y" and k: "0 \<le> k" "k \<le> buffer_size b'" and b': "mb_refcnt b' = 1" "mslice (mb_data b') 0 k = w"
    and h': "mparts h' = (mparts h)(Suc (mh_fresh h) \<mapsto> \<lparr>mp_refcnt = 1, mp_locked = False, mp_next = None, mp_part = mh_fresh h, mp_offset = 0, mp_data_end = k\<rparr>,
      l \<mapsto> y\<lparr>mp_next := Some (Suc (mh_fresh h))\<rparr>)" "mbufs h' = (mbufs h)(mh_fresh h \<mapsto> b')" "mh_fresh h' = Suc (Suc (mh_fresh h))"
  defines "m' \<equiv> m\<lparr>rm_last := Some (Suc (mh_fresh h)), rm_total_bytes := rm_total_bytes m + k, rm_last_offset := k\<rparr>"
  shows "heap_ok h' (plus_ref (rm_first m) R) L \<and> (\<forall>q\<in>L. mparts h' q \<noteq> None) \<and> msg_ok h' m' ((us @ [l]) @ [Suc (mh_fresh h)]) \<and>
    closed_at h' m' (Suc (mh_fresh h)) \<and> wins_bytes h' m' ((us @ [l]) @ [Suc (mh_fresh h)]) = wins_bytes h m (us @ [l]) @ w \<and> mframe h R h'"
proof -
  let ?c = "Suc (mh_fresh h)"
  let ?x = "\<lparr>mp_refcnt = 1, mp_locked = False, mp_next = None, mp_part = mh_fresh h, mp_offset = 0, mp_data_end = k\<rparr>"
  have yc: "mp_next y = None" "rm_last_offset m = mp_data_end y" using c y by (simp_all add: closed_at_def prt_def)
  have nc: "mparts h ?c = None" using heap_okD(2) [OF H, of ?c] by (cases "mparts h ?c") auto
  have cL: "?c \<notin> L" using D nc by blast
  have B: "mbufs h' (mh_fresh h) = Some b'" "mb_refcnt b' = int (card (users h (mh_fresh h))) + 1"
    "\<And>y0. mbufs h (mh_fresh h) = Some y0 \<Longrightarrow> mb_data b' = mb_data y0" "\<And>j. j \<noteq> mh_fresh h \<Longrightarrow> mbufs h' j = mbufs h j"
    using h'(2) b'(1) users_fresh [OF H] fresh_parts(2) [OF H] by simp_all
  define m2 where "m2 = m\<lparr>rm_last := Some ?c, rm_last_offset := mp_data_end ?x, rm_total_bytes := rm_total_bytes m + (mp_data_end ?x - mp_offset ?x)\<rparr>"
  have "heap_ok h' (plus_ref (mp_next y) (plus_ref (rm_first m) R)) L \<and> msg_ok h' m2 (us @ [l, ?c]) \<and>
    wins_bytes h' m2 (us @ [l, ?c]) = wins_bytes h m (us @ [l]) @ mslice (mb_data b') (mp_offset ?x) (mp_data_end ?x) \<and>
    mframe h R h' \<and> (\<forall>q. mparts h q \<noteq> None \<longrightarrow> q \<noteq> l \<longrightarrow> same_view h h' q)"
    unfolding m2_def
    by (rule append_part_ok [OF H M yc(2) y _ h'(1) nc cL _ _ _ _ _ _ B(1,2) _ B(3,4)]) (use yc(1) k h'(3) in auto)
  moreover have "m2 = m'" by (simp add: m2_def m'_def)
  moreover have "closed_at h' m' ?c"
    using h'(1) y nc by (auto simp: closed_at_def prt_def m'_def)
  moreover have "\<forall>q\<in>L. mparts h' q \<noteq> None" using D h'(1) by simp
  ultimately show ?thesis using yc(1) b'(2) by simp
qed

lemma push_loop_ok:
  assumes "heap_ok h (plus_ref (rm_first m) R) L" "\<forall>q\<in>L. mparts h q \<noteq> None" "msg_ok h m (us @ [l])" "closed_at h m l"
    and "0 \<le> n" "enough data n"
  shows "\<exists>k m' us' l' h' w. push_loop l m data n res sm st h = Some (res + k, m', h') \<and> 0 \<le> k \<and> k \<le> n \<and> pushed data k w \<and>
    (mh_fails h = [] \<longrightarrow> k = n \<and> mh_fails h' = []) \<and> rm_first m' = rm_first m \<and>
    heap_ok h' (plus_ref (rm_first m) R) L \<and> msg_ok h' m' (us' @ [l']) \<and> closed_at h' m' l' \<and>
    wins_bytes h' m' (us' @ [l']) = wins_bytes h m (us @ [l]) @ w \<and> mframe h R h' \<and> (\<forall>q. mparts h q \<noteq> None \<longrightarrow> mparts h' q \<noteq> None)"
  using assms
proof (induction "nat n" arbitrary: n h m us l data res rule: less_induct)
  case less
  note A = less.prems
  show ?case
  proof (cases "n = 0")
    case True
    then show ?thesis using A frame_self [OF A(1)]
      by (rule_tac x = 0 in exI, rule_tac x = m in exI, rule_tac x = us in exI, rule_tac x = l in exI, rule_tac x = h in exI, rule_tac x = "[]" in exI,
          subst push_loop.simps) (simp add: pushed_def)
  next
    case False
    then have n: "0 < n" using A(5) by simp
    let ?hint = "if rm_total_bytes m + n \<ge> st then st else sm"
    show ?thesis
    proof (cases "out_of_memory h")
      case True
      define h' where "h' = h\<lparr>mh_fails := drop 1 (mh_fails h)\<rparr>"
      have p: "mparts h' = mparts h" "mbufs h' = mbufs h" "mh_fresh h' = mh_fresh h" by (simp_all add: h'_def)
      have "push_loop l m data n res sm st h = Some (res + 0, m, h')"
        using n by (subst push_loop.simps) (simp add: alloc_none [OF True] h'_def)
      moreover have "mh_fails h \<noteq> []" using True by (auto simp: out_of_memory_def)
      ultimately show ?thesis using n A(1,3,4) same_parts(5) [OF p A(1) plus_ref_le]
        by (rule_tac x = 0 in exI, rule_tac x = m in exI, rule_tac x = us in exI, rule_tac x = l in exI, rule_tac x = h' in exI, rule_tac x = "[]" in exI)
          (simp add: pushed_def same_parts(1-4) [OF p] p del: wins_bytes_simps)
    next
      case mem: False
      obtain y where y: "mparts h l = Some y" using mpath_dom [OF msg_okD(5) [OF A(3)], of l] by auto
      have nc: "mparts h (Suc (mh_fresh h)) = None" using heap_okD(2) [OF A(1), of "Suc (mh_fresh h)"] by (cases "mparts h (Suc (mh_fresh h))") auto
      define k where "k = (if buffer_size_for ?hint \<ge> n then n else buffer_size_for ?hint)"
      define m1 where "m1 = m\<lparr>rm_last := Some (Suc (mh_fresh h)), rm_total_bytes := rm_total_bytes m + k, rm_last_offset := k\<rparr>"
      have k: "0 < k" "k \<le> n" using n buffer_size_for_pos [of ?hint] by (auto simp: k_def)
      obtain b' w h1 where s: "push_loop l m data n res sm st h =
          (if buffer_size_for ?hint \<ge> n then Some (res + k, m1, h1) else push_loop (Suc (mh_fresh h)) m1 (data_advance k data) (n - k) (res + k) sm st h1)"
        "pushed data k w" "mslice (mb_data b') 0 k = w" "k \<le> buffer_size b'" "mb_refcnt b' = 1"
        "mparts h1 = (mparts h)(Suc (mh_fresh h) \<mapsto> \<lparr>mp_refcnt = 1, mp_locked = False, mp_next = None, mp_part = mh_fresh h, mp_offset = 0, mp_data_end = k\<rparr>,
          l \<mapsto> y\<lparr>mp_next := Some (Suc (mh_fresh h))\<rparr>)" "mbufs h1 = (mbufs h)(mh_fresh h \<mapsto> b')" "mh_fresh h1 = Suc (Suc (mh_fresh h))"
        "mh_fails h1 = drop 1 (mh_fails h)"
        using push_step [OF y nc mem n A(6), where m = m and st = st and sm = sm and res = res] unfolding k_def [symmetric] m1_def [symmetric] by blast
      have k0: "0 \<le> k" using k(1) by simp
      have P: "heap_ok h1 (plus_ref (rm_first m) R) L" "\<forall>q\<in>L. mparts h1 q \<noteq> None" "msg_ok h1 m1 ((us @ [l]) @ [Suc (mh_fresh h)])"
        "closed_at h1 m1 (Suc (mh_fresh h))" "wins_bytes h1 m1 ((us @ [l]) @ [Suc (mh_fresh h)]) = wins_bytes h m (us @ [l]) @ w" "mframe h R h1"
        using push_append_ok [OF A(1,2,3,4) y k0 s(4,5,3,6,7,8)] unfolding m1_def by blast+
      have f1: "rm_first m1 = rm_first m" by (simp add: m1_def)
      have dm: "\<forall>q. mparts h q \<noteq> None \<longrightarrow> mparts h1 q \<noteq> None" using s(6) by simp
      show ?thesis
      proof (cases "buffer_size_for ?hint \<ge> n")
        case True
        then have kn: "k = n" by (simp add: k_def)
        show ?thesis using s(1,2,9) True P f1 n kn dm
          by (rule_tac x = k in exI, rule_tac x = m1 in exI, rule_tac x = "us @ [l]" in exI, rule_tac x = "Suc (mh_fresh h)" in exI,
              rule_tac x = h1 in exI, rule_tac x = w in exI) (simp del: wins_bytes_simps)
      next
        case ns: False
        have dec: "nat (n - k) < nat n" using k by simp
        have e: "0 \<le> n - k" "enough (data_advance k data) (n - k)" using k enough_advance [OF A(6) k0 k(2)] by simp_all
        obtain j m' us' l' h' v where r: "push_loop (Suc (mh_fresh h)) m1 (data_advance k data) (n - k) (res + k) sm st h1 = Some (res + k + j, m', h')"
          "0 \<le> j" "j \<le> n - k" "pushed (data_advance k data) j v" "mh_fails h1 = [] \<longrightarrow> j = n - k \<and> mh_fails h' = []" "rm_first m' = rm_first m1"
          "heap_ok h' (plus_ref (rm_first m1) R) L" "msg_ok h' m' (us' @ [l'])" "closed_at h' m' l'"
          "wins_bytes h' m' (us' @ [l']) = wins_bytes h1 m1 ((us @ [l]) @ [Suc (mh_fresh h)]) @ v" "mframe h1 R h'" "\<forall>q. mparts h1 q \<noteq> None \<longrightarrow> mparts h' q \<noteq> None"
          using less.hyps [OF dec P(1) [folded f1] P(2,3,4) e, of "res + k"] by (elim exE conjE) (rule that)
        have pw: "pushed data (k + j) (w @ v)" using pushed_append [OF s(2) r(4) k0 r(2)] .
        have c: "res + (k + j) = res + k + j" by simp
        have wb: "wins_bytes h' m' (us' @ [l']) = wins_bytes h m (us @ [l]) @ w @ v" using r(10) P(5) by (metis append_assoc)
        show ?thesis
          using s(1,9) ns r(1-9,12) pw k wb frame_trans [OF P(6) r(11)] dm f1 unfolding c [symmetric]
          by (rule_tac x = "k + j" in exI, rule_tac x = m' in exI, rule_tac x = us' in exI, rule_tac x = l' in exI,
              rule_tac x = h' in exI, rule_tac x = "w @ v" in exI) (simp del: wins_bytes_simps)
      qed
    qed
  qed
qed

section \<open>Memory\<close>

text \<open>Only \<open>alloc_msg_buffer\<close> uses up memory.\<close>

lemma upd_part_fails: "upd_part p f h = Some h' \<Longrightarrow> mh_fails h' = mh_fails h"
  by (auto simp: upd_part_def bind_eq_Some_conv)

lemma incref_fails: "msg_part_incref p h = Some h' \<Longrightarrow> mh_fails h' = mh_fails h"
  "msg_buffer_incref b h = Some h' \<Longrightarrow> mh_fails h' = mh_fails h"
  "msg_buffer_decref b h = Some h' \<Longrightarrow> mh_fails h' = mh_fails h"
  by (auto simp: msg_part_incref_def msg_buffer_incref_def msg_buffer_decref_def upd_part_def bind_eq_Some_conv)

lemma decref_fails:
  assumes "msg_part_decref r h = Some (n, h')"
  shows "mh_fails h' = mh_fails h"
proof -
  have "mh_fails (snd (n, h')) = mh_fails h"
  proof (rule msg_part_decref.raw_induct [where P = "\<lambda>r h y. mh_fails (snd y) = mh_fails h", OF _ assms])
    fix f :: "nat option \<Rightarrow> msg_heap \<Rightarrow> (int \<times> msg_heap) option" and r h y
    assume IH: "\<And>r h y. f r h = Some y \<Longrightarrow> mh_fails (snd y) = mh_fails h"
      and "(case r of None \<Rightarrow> Some (0, h) | Some p \<Rightarrow> do {
        x \<leftarrow> mparts h p;
        if mp_refcnt x > 1 then Some (0, h\<lparr>mparts := (mparts h)(p \<mapsto> x\<lparr>mp_refcnt := mp_refcnt x - 1\<rparr>)\<rparr>)
        else do {
          cassert (\<not> mp_locked x \<and> mp_refcnt x = 1);
          h \<leftarrow> msg_buffer_decref (mp_part x) h;
          (cnt, h) \<leftarrow> f (mp_next x) (h\<lparr>mparts := (mparts h)(p := None)\<rparr>);
          Some (cnt + 1, h) } }) = Some y"
    then show "mh_fails (snd y) = mh_fails h"
      by (auto simp: bind_eq_Some_conv split: option.split_asm if_split_asm dest!: incref_fails(3) IH)
  qed
  then show ?thesis by simp
qed

lemma set_next_fails: "set_next q c raw h = Some (raw', h') \<Longrightarrow> mh_fails h' = mh_fails h"
  by (auto simp: set_next_def bind_eq_Some_conv dest: upd_part_fails split: option.split_asm)

lemma fork_copy_fails:
  assumes "fork_copy mp mpl raw lft res h = Some y"
  shows "mh_fails (snd (snd (snd y))) = mh_fails h"
proof (rule fork_copy.raw_induct [where P = "\<lambda>mp mpl raw lft res h y. mh_fails (snd (snd (snd y))) = mh_fails h", OF _ assms])
  fix f :: "nat option \<Rightarrow> nat option \<Rightarrow> raw_message \<Rightarrow> int \<Rightarrow> int \<Rightarrow> msg_heap \<Rightarrow> (raw_message \<times> int \<times> int \<times> msg_heap) option" and mp mpl raw lft res h y
  assume IH: "\<And>mp mpl raw lft res h y. f mp mpl raw lft res h = Some y \<Longrightarrow> mh_fails (snd (snd (snd y))) = mh_fails h"
    and st: "do {
     p \<leftarrow> mp;
     x \<leftarrow> mparts h p;
     let (c, h) = new_msg_part (mp_part x) h;
     h \<leftarrow> msg_buffer_incref (mp_part x) h;
     let off = part_start raw p x;
     let data_end = part_end raw p x;
     let copy_last = (rm_last raw = Some p);
     h \<leftarrow> upd_part c (\<lambda>y. y\<lparr>mp_offset := off, mp_data_end := data_end\<rparr>) h;
     let raw = (if copy_last then raw\<lparr>rm_last := Some c\<rparr> else raw);
     (raw, h) \<leftarrow> set_next mpl c raw h;
     let left = lft - (data_end - off);
     if copy_last then Some (raw, left, res + 1, h)
     else f (mp_next x) (Some c) raw left (res + 1) h } = Some y"
  from st show "mh_fails (snd (snd (snd y))) = mh_fails h"
    apply (clarsimp simp: bind_eq_Some_conv new_msg_part_def Let_def)
    apply (drule incref_fails(2), drule upd_part_fails, drule set_next_fails)
    apply (auto split: if_split_asm dest: IH)
    done
qed

lemma fork_fails: "fork_message_chain m h = Some (res, m', h') \<Longrightarrow> mh_fails h' = mh_fails h"
  by (auto simp: fork_message_chain_def bind_eq_Some_conv Let_def split: option.split_asm if_split_asm
    dest!: upd_part_fails decref_fails fork_copy_fails)

lemma lock_last_fails: "rwm_lock_last_part m h = Some (lk, m', h') \<Longrightarrow> mh_fails h' = mh_fails h"
  by (auto simp: rwm_lock_last_part_def bind_eq_Some_conv split: option.split_asm if_split_asm dest!: upd_part_fails fork_fails)

section \<open>Appending data\<close>

lemma new_part_ok:
  assumes H: "heap_ok h R L" and D: "\<forall>q\<in>L. mparts h q \<noteq> None" and k: "0 \<le> s" "0 \<le> k" "s + k \<le> buffer_size b" and b: "mb_refcnt b = 1" "mslice (mb_data b) s (s + k) = w"
    and h': "mparts h' = (mparts h)(Suc (mh_fresh h) \<mapsto> \<lparr>mp_refcnt = 1, mp_locked = False, mp_next = None, mp_part = mh_fresh h, mp_offset = s, mp_data_end = s + k\<rparr>)"
      "mbufs h' = (mbufs h)(mh_fresh h \<mapsto> b)" "mh_fresh h' = Suc (Suc (mh_fresh h))"
  shows "heap_ok h' (plus_ref (Some (Suc (mh_fresh h))) R) L \<and> msg_ok h' (one_part (Suc (mh_fresh h)) s (s + k)) [Suc (mh_fresh h)] \<and>
    closed_at h' (one_part (Suc (mh_fresh h)) s (s + k)) (Suc (mh_fresh h)) \<and>
    wins_bytes h' (one_part (Suc (mh_fresh h)) s (s + k)) [Suc (mh_fresh h)] = w \<and> mframe h R h' \<and> (\<forall>q\<in>L. mparts h' q \<noteq> None)"
proof -
  let ?c = "Suc (mh_fresh h)"
  let ?x = "\<lparr>mp_refcnt = 1, mp_locked = False, mp_next = None, mp_part = mh_fresh h, mp_offset = s, mp_data_end = s + k\<rparr>"
  have nc: "mparts h ?c = None" using heap_okD(2) [OF H, of ?c] by (cases "mparts h ?c") auto
  have cL: "?c \<notin> L" using D nc by blast
  have B: "mbufs h' (mh_fresh h) = Some b" "mb_refcnt b = int (card (users h (mh_fresh h))) + 1"
    "\<And>y0. mbufs h (mh_fresh h) = Some y0 \<Longrightarrow> mb_data b = mb_data y0" "\<And>j. j \<noteq> mh_fresh h \<Longrightarrow> mbufs h' j = mbufs h j"
    using h'(2) b(1) users_fresh [OF H] fresh_parts(2) [OF H] by simp_all
  have H0: "heap_ok h (plus_ref None R) L" using H by simp
  have A: "heap_ok h' (plus_ref (Some ?c) R) L \<and> (\<forall>q. mparts h q \<noteq> None \<longrightarrow> same_view h h' q)"
    by (rule add_part_ok [OF H0 h'(1) nc cL _ _ _ _ _ _ B(1,2) _ B(3,4)]) (use k h'(3) in auto)
  have c: "mparts h' ?c = Some ?x" using h'(1) by simp
  have "msg_ok h' (one_part ?c s (s + k)) [?c] \<and> wins_bytes h' (one_part ?c s (s + k)) [?c] = w"
    using one_part_ok [OF c, of s "s + k"] k B(1) b(2) by (simp add: bdata_def)
  moreover have "closed_at h' (one_part ?c s (s + k)) ?c" using c by (simp add: closed_at_def prt_def)
  moreover have "mframe h R h'" using all_same_frame [OF H] A by blast
  moreover have "\<forall>q\<in>L. mparts h' q \<noteq> None" using D h'(1) by simp
  ultimately show ?thesis using A by blast
qed

lemma push_first_ok:
  assumes H: "heap_ok h R L" and D: "\<forall>q\<in>L. mparts h q \<noteq> None" and m: "rm_magic m = RM_INIT_MAGIC"
    and n: "0 < n" "enough data n" and mem: "\<not> out_of_memory h"
    and pre: "0 \<le> pre" "pre \<le> buffer_size_for sm" "pre \<le> buffer_size_for st"
  shows "\<exists>k m' h' w c. push_first m data n pre sm st h = Some (Some (c, k, m'), h') \<and> 0 \<le> k \<and> k \<le> n \<and> pushed data k w \<and>
    heap_ok h' (plus_ref (Some c) R) L \<and> rm_first m' = Some c \<and> msg_ok h' m' [c] \<and> closed_at h' m' c \<and> wins_bytes h' m' [c] = w \<and>
    mframe h R h' \<and> mh_fails h' = drop 1 (mh_fails h) \<and> (\<forall>q\<in>L. mparts h' q \<noteq> None)"
proof -
  let ?X = "mh_fresh h"
  let ?c = "Suc ?X"
  define hint where "hint = (if n \<ge> sm - pre then st else sm)"
  define s where "s = (if n \<le> st \<and> pre > st - n then st - n else pre)"
  define k where "k = (if buffer_size_for hint - s \<ge> n then n else buffer_size_for hint - s)"
  have s: "0 \<le> s" "s \<le> buffer_size_for hint" using pre by (auto simp: s_def hint_def)
  have k: "0 \<le> k" "k \<le> n" "s + k \<le> buffer_size (new_buffer h hint)" using s n(1) by (auto simp: k_def new_buffer_size)
  define h2 where "h2 = h\<lparr>mbufs := (mbufs h)(?X \<mapsto> new_buffer h hint), mh_fails := drop 1 (mh_fails h), mh_fresh := Suc ?c,
    mparts := (mparts h)(?c \<mapsto> \<lparr>mp_refcnt = 1, mp_locked = False, mp_next = None, mp_part = ?X, mp_offset = s, mp_data_end = s + k\<rparr>)\<rparr>"
  have "enough data k" using n(2) k(2) by (auto simp: enough_def)
  then obtain b' w where w: "copy_in ?X s data k h2 = Some (h2\<lparr>mbufs := (mbufs h2)(?X \<mapsto> b')\<rparr>)" "mb_refcnt b' = 1"
    "length (mb_data b') = length (mb_data (new_buffer h hint))" "mslice (mb_data b') s (s + k) = w" "pushed data k w"
    using copy_in_ok [of h2 ?X "new_buffer h hint" s k data] k s by (auto simp: h2_def new_buffer_size)
  define h' where "h' = h2\<lparr>mbufs := (mbufs h2)(?X \<mapsto> b')\<rparr>"
  have h': "mparts h' = (mparts h)(?c \<mapsto> \<lparr>mp_refcnt = 1, mp_locked = False, mp_next = None, mp_part = ?X, mp_offset = s, mp_data_end = s + k\<rparr>)"
    "mbufs h' = (mbufs h)(?X \<mapsto> b')" "mh_fresh h' = Suc ?c" "mh_fails h' = drop 1 (mh_fails h)" by (simp_all add: h'_def h2_def)
  have sz: "s + k \<le> buffer_size b'" using k(3) w(3) by (simp add: buffer_size_def)
  define m' where "m' = m\<lparr>rm_first := Some ?c, rm_last := Some ?c, rm_first_offset := s, rm_total_bytes := k, rm_last_offset := k + s\<rparr>"
  have m': "m' = one_part ?c s (s + k)" using m by (cases m) (simp add: m'_def one_part_def)
  have "push_first m data n pre sm st h = Some (Some (?c, k, m'), h')"
  proof (cases "buffer_size_for hint - s \<ge> n")
    case True
    then have kn: "k = n" by (simp add: k_def)
    show ?thesis using w(1) True
      by (simp add: push_first_def alloc_some [OF mem] hint_def [symmetric] new_msg_part_def upd_part_def new_buffer_size s_def [symmetric]
          h2_def h'_def m'_def kn Let_def)
  next
    case False
    then have kn: "k = buffer_size_for hint - s" by (simp add: k_def)
    show ?thesis using w(1) False
      by (simp add: push_first_def alloc_some [OF mem] hint_def [symmetric] new_msg_part_def upd_part_def new_buffer_size s_def [symmetric]
          h2_def h'_def m'_def kn Let_def)
  qed
  then show ?thesis using new_part_ok [OF H D s(1) k(1) sz w(2,4) h'(1-3)] k(1,2) w(5) h'(4) unfolding m' [symmetric] by (auto simp: m'_def)
qed

lemma unlock_ok:
  assumes H: "heap_ok h (plus_ref (rm_first m) R) (set_option lk \<union> L)" and M: "msg_ok h m ps" and lk: "\<forall>l. lk = Some l \<longrightarrow> l \<notin> L \<and> mparts h l \<noteq> None"
  shows "\<exists>h'. unlock_part lk h = Some h' \<and> heap_ok h' (plus_ref (rm_first m) R) L \<and> msg_ok h' m ps \<and> wins_bytes h' m ps = wins_bytes h m ps \<and>
    mframe h R h' \<and> mh_fails h' = mh_fails h \<and> (\<forall>q. mp_next (prt h' q) = mp_next (prt h q) \<and> mp_data_end (prt h' q) = mp_data_end (prt h q))"
proof (cases lk)
  case None
  then show ?thesis using H M frame_self [of h "rm_first m" R L] by (simp add: unlock_part_def)
next
  case (Some l)
  obtain x where x: "mparts h l = Some x" using lk Some by blast
  have LL: "L = (set_option lk \<union> L) - {l}" using lk Some by auto
  obtain h' where h': "upd_part l (\<lambda>y. y\<lparr>mp_locked := False\<rparr>) h = Some h'" "heap_ok h' (plus_ref (rm_first m) R) L"
    "\<forall>q. mparts h q \<noteq> None \<longrightarrow> same_view h h' q" "h' = h\<lparr>mparts := (mparts h)(l \<mapsto> x\<lparr>mp_locked := False\<rparr>)\<rparr>"
    using lock_ok [OF H x, of L False] LL by auto
  have "msg_ok h' m ps \<and> wins_bytes h' m ps = wins_bytes h m ps"
    using frame_reached [OF H _ M, of h'] h'(3) mpath_dom [OF msg_okD(5) [OF M]] by blast
  moreover have "mframe h R h'" using frame_less all_same_frame [OF H] h'(3) by blast
  ultimately show ?thesis using h' Some x by (simp add: unlock_part_def prt_def)
qed

lemma rwm_push_data_ext_ok:
  assumes m: "mholds h R L m d" and L: "L \<subseteq> mreach h R" and n: "0 \<le> n" "enough data n"
    and pre: "0 \<le> pre" "pre \<le> buffer_size_for sm" "pre \<le> buffer_size_for st"
  shows "\<exists>k m' h' w. rwm_push_data_ext m data n pre sm st h = Some (k, m', h') \<and> 0 \<le> k \<and> k \<le> n \<and> pushed data k w \<and>
    (mh_fails h = [] \<longrightarrow> k = n \<and> mh_fails h' = []) \<and> mholds h' R L m' (d @ w) \<and> mframe h R h'"
proof -
  obtain ps where M: "msg_ok h m ps" "wins_bytes h m ps = d" and H: "heap_ok h (plus_ref (rm_first m) R) L"
    using m by (auto simp: mholds_def)
  have mg: "rm_magic m = RM_INIT_MAGIC" using msg_okD(1) [OF M(1)] .
  have D: "\<forall>q\<in>L. mparts h q \<noteq> None" using L reach_dom [OF H] by blast
  show ?thesis
  proof (cases "n = 0")
    case True
    then show ?thesis using m mg frame_self [OF H]
      by (rule_tac x = 0 in exI, rule_tac x = m in exI, rule_tac x = h in exI, rule_tac x = "[]" in exI) (simp add: rwm_push_data_ext_def pushed_def)
  next
    case False
    then have n0: "0 < n" using n(1) by simp
    show ?thesis
    proof (cases "rm_first m")
      case None
      have H0: "heap_ok h R L" using H None by simp
      have d: "d = []" using msg_okD(2) [OF M(1)] None M(2) by simp
      show ?thesis
      proof (cases "out_of_memory h")
        case True
        let ?h = "h\<lparr>mh_fails := drop 1 (mh_fails h)\<rparr>"
        have p: "mparts ?h = mparts h" "mbufs ?h = mbufs h" "mh_fresh ?h = mh_fresh h" by simp_all
        have "mh_fails h \<noteq> []" using True by (auto simp: out_of_memory_def)
        moreover have "mholds ?h R L m d" using m unfolding mholds_def same_parts(1-3) [OF p] .
        moreover have "mframe h R ?h" using same_parts(5) [OF p H0] by simp
        moreover have "rwm_push_data_ext m data n pre sm st h = Some (0, m, ?h)"
          using n0 None mg by (simp add: rwm_push_data_ext_def push_first_def alloc_none [OF True])
        ultimately show ?thesis using n0
          by (rule_tac x = 0 in exI, rule_tac x = m in exI, rule_tac x = ?h in exI, rule_tac x = "[]" in exI) (simp add: pushed_def)
      next
        case mem: False
        obtain k m1 h1 w c where f: "push_first m data n pre sm st h = Some (Some (c, k, m1), h1)" "0 \<le> k" "k \<le> n" "pushed data k w"
          "heap_ok h1 (plus_ref (Some c) R) L" "rm_first m1 = Some c" "msg_ok h1 m1 [c]" "closed_at h1 m1 c" "wins_bytes h1 m1 [c] = w"
          "mframe h R h1" "mh_fails h1 = drop 1 (mh_fails h)" "\<forall>q\<in>L. mparts h1 q \<noteq> None"
          using push_first_ok [OF H0 D mg n0 n(2) mem pre] by (elim exE conjE) (rule that)
        have e: "0 \<le> n - k" "enough (data_advance k data) (n - k)" using f(2,3) enough_advance [OF n(2) f(2,3)] by simp_all
        have M1: "msg_ok h1 m1 ([] @ [c])" using f(7) by simp
        obtain j m' us' l' h' v where r: "push_loop c m1 (data_advance k data) (n - k) k sm st h1 = Some (k + j, m', h')"
          "0 \<le> j" "j \<le> n - k" "pushed (data_advance k data) j v" "mh_fails h1 = [] \<longrightarrow> j = n - k \<and> mh_fails h' = []" "rm_first m' = rm_first m1"
          "heap_ok h' (plus_ref (rm_first m1) R) L" "msg_ok h' m' (us' @ [l'])"
          "wins_bytes h' m' (us' @ [l']) = wins_bytes h1 m1 ([] @ [c]) @ v" "mframe h1 R h'"
          using push_loop_ok [OF f(5) [folded f(6)] f(12) M1 f(8) e, of k sm st] by (elim exE conjE) (rule that)
        have "mholds h' R L m' (d @ w @ v)" using r(6-9) f(9) d unfolding mholds_def by auto
        moreover have "rwm_push_data_ext m data n pre sm st h = Some (k + j, m', h')"
          using n0 None mg f(1) r(1) by (simp add: rwm_push_data_ext_def)
        ultimately show ?thesis using pushed_append [OF f(4) r(4) f(2) r(2)] f(2,11) r(2,3,5) frame_trans [OF f(10) r(10)]
          by (rule_tac x = "k + j" in exI, rule_tac x = m' in exI, rule_tac x = h' in exI, rule_tac x = "w @ v" in exI) simp
      qed
    next
      case (Some f0)
      obtain lk m1 us l h1 where k: "rwm_lock_last_part m h = Some (lk, m1, h1)" "mframe h R h1"
        "heap_ok h1 (plus_ref (rm_first m1) R) (set_option lk \<union> L)" "msg_ok h1 m1 (us @ [l])" "wins_bytes h1 m1 (us @ [l]) = d"
        "closed_at h1 m1 l" "lk = Some l \<and> l \<notin> L \<and> m1 = m \<or> lk = None \<and> l \<notin> mreach h1 R" "stable h R h1"
        using rwm_lock_last_part_ok [OF m L] Some by (elim exE conjE meta_impE) (simp, rule that)
      have l1: "mparts h1 l \<noteq> None" using mpath_dom [OF msg_okD(5) [OF k(4)], of l] by simp
      have D1: "\<forall>q\<in>set_option lk \<union> L. mparts h1 q \<noteq> None"
        using k(7) l1 L frame_reach [OF k(2)] reach_dom [OF k(3)] by blast
      obtain j m2 h2 w where p: "push_room m1 data n h1 = Some (l, j, m2, h2)" "0 \<le> j" "j \<le> n" "pushed data j w"
        "heap_ok h2 (plus_ref (rm_first m1) R) (set_option lk \<union> L)" "rm_first m2 = rm_first m1" "msg_ok h2 m2 (us @ [l])" "closed_at h2 m2 l"
        "wins_bytes h2 m2 (us @ [l]) = wins_bytes h1 m1 (us @ [l]) @ w" "mframe h1 R h2" "mh_fails h2 = mh_fails h1" "dom (mparts h2) = dom (mparts h1)"
        using push_room_ok [OF k(3,4,6) n] by (elim exE conjE) (rule that)
      have D2: "\<forall>q\<in>set_option lk \<union> L. mparts h2 q \<noteq> None" using D1 p(12) by (metis domIff)
      have e: "0 \<le> n - j" "enough (data_advance j data) (n - j)" using p(2,3) enough_advance [OF n(2) p(2,3)] by simp_all
      obtain i m3 us' l' h3 v where r: "push_loop l m2 (data_advance j data) (n - j) j sm st h2 = Some (j + i, m3, h3)"
        "0 \<le> i" "i \<le> n - j" "pushed (data_advance j data) i v" "mh_fails h2 = [] \<longrightarrow> i = n - j \<and> mh_fails h3 = []" "rm_first m3 = rm_first m2"
        "heap_ok h3 (plus_ref (rm_first m2) R) (set_option lk \<union> L)" "msg_ok h3 m3 (us' @ [l'])"
        "wins_bytes h3 m3 (us' @ [l']) = wins_bytes h2 m2 (us @ [l]) @ v" "mframe h2 R h3" "\<forall>q. mparts h2 q \<noteq> None \<longrightarrow> mparts h3 q \<noteq> None"
        using push_loop_ok [OF p(5) [folded p(6)] D2 p(7,8) e, of j sm st] by (elim exE conjE) (rule that)
      have "\<forall>q. lk = Some q \<longrightarrow> q \<notin> L \<and> mparts h3 q \<noteq> None" using k(7) D2 r(11) by auto
      then obtain h4 where u: "unlock_part lk h3 = Some h4" "heap_ok h4 (plus_ref (rm_first m3) R) L" "msg_ok h4 m3 (us' @ [l'])"
        "wins_bytes h4 m3 (us' @ [l']) = wins_bytes h3 m3 (us' @ [l'])" "mframe h3 R h4" "mh_fails h4 = mh_fails h3"
        using unlock_ok [of h3 m3 R lk L "us' @ [l']"] r(6,7,8) by auto
      have "wins_bytes h4 m3 (us' @ [l']) = d @ w @ v" using u(4) r(9) p(9) k(5) by simp
      then have "mholds h4 R L m3 (d @ w @ v)" using u(2,3) unfolding mholds_def by blast
      moreover have "rwm_push_data_ext m data n pre sm st h = Some (j + i, m3, h4)"
        using n0 Some mg k(1) p(1) r(1) u(1) by (simp add: rwm_push_data_ext_def)
      moreover have "mh_fails h = [] \<longrightarrow> j + i = n \<and> mh_fails h4 = []" using lock_last_fails [OF k(1)] p(11) r(5) u(6) by simp
      moreover have "mframe h R h4" using frame_trans [OF k(2) frame_trans [OF p(10) frame_trans [OF r(10) u(5)]]] .
      ultimately show ?thesis using pushed_append [OF p(4) r(4) p(2) r(2)] p(2) r(2,3)
        by (rule_tac x = "j + i" in exI, rule_tac x = m3 in exI, rule_tac x = h4 in exI, rule_tac x = "w @ v" in exI) simp
    qed
  qed
qed

lemma rwm_push_data_ok:
  assumes "mholds h R L m d" "L \<subseteq> mreach h R"
  shows "\<exists>k m' h'. rwm_push_data m (Some w) (int (length w)) h = Some (int k, m', h') \<and> k \<le> length w \<and> (mh_fails h = [] \<longrightarrow> k = length w \<and> mh_fails h' = []) \<and>
    mholds h' R L m' (d @ take k w) \<and> mframe h R h'"
proof -
  have pre: "0 \<le> RM_PREPEND_RESERVE" "RM_PREPEND_RESERVE \<le> buffer_size_for MSG_SMALL_BUFFER" "RM_PREPEND_RESERVE \<le> buffer_size_for MSG_STD_BUFFER"
    by (simp_all add: RM_PREPEND_RESERVE_def MSG_SMALL_BUFFER_def MSG_STD_BUFFER_def buffer_size_for_def default_buffer_sizes_def)
  obtain k m' h' v where r: "rwm_push_data m (Some w) (int (length w)) h = Some (k, m', h')" "0 \<le> k" "k \<le> int (length w)" "pushed (Some w) k v"
    "mh_fails h = [] \<longrightarrow> k = int (length w) \<and> mh_fails h' = []" "mholds h' R L m' (d @ v)" "mframe h R h'"
    using rwm_push_data_ext_ok [OF assms _ _ pre, of "int (length w)" "Some w"] by (auto simp: rwm_push_data_def enough_def)
  then show ?thesis by (rule_tac x = "nat k" in exI, rule_tac x = m' in exI, rule_tac x = h' in exI) (auto simp: pushed_def)
qed

section \<open>Joining messages\<close>

lemma path_chain: "mpath h ps \<Longrightarrow> ps \<noteq> [] \<Longrightarrow> nxt h (last ps) = None \<Longrightarrow> chain (nxt h) (Some (hd ps)) ps"
  by (induction h ps rule: mpath.induct) auto

text \<open>Chains with different ends have no part in common.\<close>

lemma disjoint_paths:
  assumes "mpath h ps" "ps \<noteq> []" "nxt h (last ps) = None" "mpath h qs" "qs \<noteq> []" "nxt h (last qs) = None" "last ps \<noteq> last qs"
  shows "set ps \<inter> set qs = {}"
proof (rule ccontr)
  assume "set ps \<inter> set qs \<noteq> {}"
  then obtain r where r: "r \<in> set ps" "r \<in> set qs" by blast
  have from_r: "\<exists>cs. chain (nxt h) (Some r) cs \<and> last cs = last xs" if x: "mpath h xs" "nxt h (last xs) = None" "r \<in> set xs" for xs
  proof -
    obtain a b where ab: "xs = a @ r # b" using split_list [OF x(3)] by blast
    then have "mpath h (r # b)" "last (r # b) = last xs" using x(1) by (simp_all add: mpath_append)
    then show ?thesis using path_chain [of h "r # b"] x(2) by (metis list.distinct(1) list.sel(1))
  qed
  show False using from_r [OF assms(1,3) r(1)] from_r [OF assms(4,6) r(2)] assms(7) chain_det by metis
qed

text \<open>The link from the end of one message to the beginning of another, for the reference of the latter.\<close>

lemma link_ok:
  assumes H: "heap_ok h (plus_ref (rm_first s) (plus_ref (rm_first m) R)) L" and M: "msg_ok h m (us @ [l])" and c: "closed_at h m l"
    and S: "msg_ok h s ss" "ss \<noteq> []" "closed_at h s (last ss)" and o: "rm_first_offset s = mp_offset (prt h (hd ss))" and ne: "l \<noteq> last ss"
    and y: "mparts h l = Some y"
  defines "h' \<equiv> h\<lparr>mparts := (mparts h)(l \<mapsto> y\<lparr>mp_next := rm_first s\<rparr>)\<rparr>"
    and "m' \<equiv> m\<lparr>rm_last_offset := rm_last_offset s, rm_last := rm_last s, rm_total_bytes := rm_total_bytes m + rm_total_bytes s\<rparr>"
  shows "heap_ok h' (plus_ref (rm_first m) R) L \<and> msg_ok h' m' (us @ [l] @ ss) \<and>
    wins_bytes h' m' (us @ [l] @ ss) = wins_bytes h m (us @ [l]) @ wins_bytes h s ss \<and> mframe h R h'"
proof -
  have f: "rm_first s = Some (hd ss)" using msg_okD(4) [OF S(1,2)] by simp
  have yc: "mp_next y = None" "rm_last_offset m = mp_data_end y" using c y by (simp_all add: closed_at_def prt_def)
  have n: "nxt h l = None" "nxt h (last ss) = None"
    using y yc S(2,3) mpath_dom [OF msg_okD(5) [OF S(1)], of "last ss"] by (auto simp: nxt_def closed_at_def prt_def)
  have dj: "set (us @ [l]) \<inter> set ss = {}"
    using disjoint_paths [OF msg_okD(5) [OF M] _ _ msg_okD(5) [OF S(1)] S(2) n(2)] n(1) ne by simp
  have "chain (nxt h) (Some (hd ss)) ss" using path_chain [OF msg_okD(5) [OF S(1)] S(2) n(2)] .
  then have "l \<notin> set cs" if "chain (nxt h) (Some (hd ss)) cs" for cs using chain_det that dj by fastforce
  then have H': "heap_ok h' (plus_ref (rm_first m) R) L"
    unfolding h'_def using relink_ok [OF H y yc(1)] f by simp
  have "msg_ok h' m (us @ [l]) \<and> wins_bytes h' m (us @ [l]) = wins_bytes h m (us @ [l])"
    unfolding h'_def using msg_okD(4,7) [OF M] y by (intro window_msg [OF M _ y]) (auto simp: prt_def hd_append split: if_split_asm)
  then have M': "msg_ok h' m (us @ [l])" "wins_bytes h' m (us @ [l]) = wins_bytes h m (us @ [l])" by blast+
  have V: "same_view h h' q" if q: "mparts h q \<noteq> None" for q
  proof (cases "q = l")
    case True
    then show ?thesis using y yc part_okD(4) [OF heap_okD(4) [OF H y]] by (auto simp: same_view_def h'_def)
  next
    case False
    then show ?thesis unfolding h'_def using same_view_other [OF H False q] by simp
  qed
  have S': "msg_ok h' s ss" "wins_bytes h' s ss = wins_bytes h s ss"
    using frame_reached [OF H _ S(1), of h'] V mpath_dom [OF msg_okD(5) [OF S(1)]] by auto
  have pl: "mp_data_end (prt h' l) = mp_data_end y" "nxt h' l = Some (hd ss)" using f by (simp_all add: h'_def prt_def nxt_def)
  have "hd ss \<noteq> l" using dj S(2) by auto
  then have o': "rm_first_offset s = mp_offset (prt h' (hd ss))" using o by (simp add: h'_def prt_def)
  have "m' = m\<lparr>rm_last := rm_last s, rm_last_offset := rm_last_offset s, rm_total_bytes := rm_total_bytes m + rm_total_bytes s\<rparr>" by (simp add: m'_def)
  then have "msg_ok h' m' (us @ [l] @ ss) \<and> wins_bytes h' m' (us @ [l] @ ss) = wins_bytes h m (us @ [l]) @ wins_bytes h s ss"
    using msg_join [OF M'(1) S'(1) S(2) _ o' pl(2) dj] pl(1) yc(2) M'(2) S'(2) by simp
  moreover have "mframe h R h'" using all_same_frame [OF H V] frame_less by blast
  ultimately show ?thesis using H' by blast
qed

text \<open>The tail is made ready: its parts end where it ends, begin where it begins, and its last part is not that of the message before it.\<close>

lemma union_tail_ok:
  assumes t: "mholds h (plus_ref (rm_first m) R) (set_option lk \<union> L) t e" and M: "msg_ok h m (us @ [l])" and c: "closed_at h m l"
    and ne: "rm_first t \<noteq> None" and L: "L \<subseteq> mreach h R" and lk: "lk = Some l \<or> lk = None \<and> l \<notin> mreach h (plus_ref (rm_first t) R)"
  shows "\<exists>l2 t1 h1 h2 t2 ss h3. rwm_lock_last_part t h = Some (l2, t1, h1) \<and> unlock_part l2 h1 = Some h2 \<and> rwm_lock_first_part t1 h2 = Some (t2, h3) \<and>
    heap_ok h3 (plus_ref (rm_first t2) (plus_ref (rm_first m) R)) (set_option lk \<union> L) \<and> msg_ok h3 t2 ss \<and> ss \<noteq> [] \<and> wins_bytes h3 t2 ss = e \<and>
    closed_at h3 t2 (last ss) \<and> rm_first_offset t2 = mp_offset (prt h3 (hd ss)) \<and> l \<noteq> last ss \<and>
    msg_ok h3 m (us @ [l]) \<and> wins_bytes h3 m (us @ [l]) = wins_bytes h m (us @ [l]) \<and> closed_at h3 m l \<and> mframe h (plus_ref (rm_first m) R) h3"
proof -
  let ?R = "plus_ref (rm_first m) R" and ?L = "set_option lk \<union> L"
  have f: "rm_first m \<noteq> None" using msg_okD(2) [OF M] by auto
  obtain ts where T: "msg_ok h t ts" "wins_bytes h t ts = e" and H: "heap_ok h (plus_ref (rm_first t) ?R) ?L" using t by (auto simp: mholds_def)
  have Rm: "\<And>p. rm_first m = Some p \<Longrightarrow> ?R p > 0" by simp
  have lr: "l \<in> mreach h ?R" using msg_reached [OF M, of ?R] Rm by auto
  have LL: "?L \<subseteq> mreach h ?R" using lk lr L reach_more by auto
  obtain l2 t1 vs k h1 where 1: "rwm_lock_last_part t h = Some (l2, t1, h1)" "mframe h ?R h1" "heap_ok h1 (plus_ref (rm_first t1) ?R) (set_option l2 \<union> ?L)"
    "msg_ok h1 t1 (vs @ [k])" "wins_bytes h1 t1 (vs @ [k]) = e" "closed_at h1 t1 k" "l2 = Some k \<and> k \<notin> ?L \<and> t1 = t \<or> l2 = None \<and> k \<notin> mreach h1 ?R" "stable h ?R h1"
    using rwm_lock_last_part_ok [OF t LL ne] by (elim exE conjE) (rule that)
  have M1: "msg_ok h1 m (us @ [l])" "wins_bytes h1 m (us @ [l]) = wins_bytes h m (us @ [l])" using frame_msg [OF H 1(2) M] Rm by auto
  have c1: "closed_at h1 m l" using 1(8) lr c by (simp add: stable_def closed_at_def)
  have lr1: "l \<in> mreach h1 ?R" using frame_reach [OF 1(2)] lr by blast
  have kl: "k \<noteq> l"
  proof
    assume "k = l"
    then have "l2 = Some l" "l \<notin> ?L" "t1 = t" using 1(7) lr1 by auto
    moreover have "l \<in> mreach h (plus_ref (rm_first t) R)"
    proof -
      have "rm_last t = Some l" using msg_okD(4) [OF 1(4)] \<open>t1 = t\<close> \<open>k = l\<close> by simp
      then have "l \<in> set ts" using msg_okD(3,4) [OF T(1)] by (cases "ts = []") auto
      then show ?thesis using msg_reached [OF T(1), of "plus_ref (rm_first t) R"] by auto
    qed
    ultimately show False using lk by auto
  qed
  have k1: "mparts h1 k \<noteq> None" using mpath_dom [OF msg_okD(5) [OF 1(4)], of k] by simp
  have lk2: "\<forall>q. l2 = Some q \<longrightarrow> q \<notin> ?L \<and> mparts h1 q \<noteq> None" using 1(7) k1 by auto
  obtain h2 where 2: "unlock_part l2 h1 = Some h2" "heap_ok h2 (plus_ref (rm_first t1) ?R) ?L" "msg_ok h2 t1 (vs @ [k])"
    "wins_bytes h2 t1 (vs @ [k]) = e" "mframe h1 ?R h2" "\<forall>q. mp_next (prt h2 q) = mp_next (prt h1 q) \<and> mp_data_end (prt h2 q) = mp_data_end (prt h1 q)"
    using unlock_ok [OF 1(3,4) lk2] unfolding 1(5) by (elim exE conjE) (rule that)
  have F2: "mframe h ?R h2" using frame_trans [OF 1(2) 2(5)] .
  have t1: "mholds h2 ?R ?L t1 e" using 2(2-4) unfolding mholds_def by blast
  have LL2: "?L \<subseteq> mreach h2 ?R" using LL frame_reach [OF F2] by blast
  have ne1: "rm_first t1 \<noteq> None" using msg_okD(4) [OF 2(3)] by simp
  obtain t2 ss h3 where 3: "rwm_lock_first_part t1 h2 = Some (t2, h3)" "heap_ok h3 (plus_ref (rm_first t2) ?R) ?L" "msg_ok h3 t2 ss" "ss \<noteq> []"
    "wins_bytes h3 t2 ss = e" "mframe h2 ?R h3" "rm_first_offset t2 = mp_offset (prt h3 (hd ss))"
    "\<forall>l. rm_last t1 = Some l \<longrightarrow> closed_at h2 t1 l \<longrightarrow> closed_at h3 t2 (last ss)" "rm_last t2 = rm_last t1 \<or> last ss \<notin> mreach h3 ?R" "stable h2 ?R h3"
    using rwm_lock_first_part_ok [OF t1 LL2 ne1] by (elim exE conjE) (rule that)
  have lt: "rm_last t1 = Some k" using msg_okD(4) [OF 2(3)] by simp
  have "closed_at h2 t1 k" using 1(6) 2(6) by (simp add: closed_at_def)
  then have cl: "closed_at h3 t2 (last ss)" using 3(8) lt by blast
  have lr3: "l \<in> mreach h3 ?R" using frame_reach [OF 2(5)] frame_reach [OF 3(6)] lr1 by blast
  have "l \<noteq> last ss" using 3(9) lr3 msg_okD(4) [OF 3(3,4)] lt kl by auto
  moreover have F3: "mframe h1 ?R h3" using frame_trans [OF 2(5) 3(6)] .
  moreover have "msg_ok h3 m (us @ [l]) \<and> wins_bytes h3 m (us @ [l]) = wins_bytes h m (us @ [l])"
    using frame_msg [OF 1(3) F3 M1(1)] Rm M1(2) by auto
  moreover have "closed_at h3 m l"
  proof -
    have "l \<in> mreach h2 ?R" using frame_reach [OF 2(5)] lr1 by blast
    then show ?thesis using 3(10) 2(6) c1 by (simp add: stable_def closed_at_def)
  qed
  ultimately show ?thesis using 1(1) 2(1) 3(1-5,7) cl frame_trans [OF 1(2) F3] by blast
qed

text \<open>\<open>rwm_free\<close> of the tail gives back the reference that the link has taken over.\<close>

lemma union_link_ok:
  assumes H: "heap_ok h (plus_ref (rm_first s) (plus_ref (rm_first m) R)) (set_option lk \<union> L)" and M: "msg_ok h m (us @ [l])" and c: "closed_at h m l"
    and S: "msg_ok h s ss" "ss \<noteq> []" "closed_at h s (last ss)" and o: "rm_first_offset s = mp_offset (prt h (hd ss))" and ne: "l \<noteq> last ss"
    and L: "L \<subseteq> mreach h R" and lk: "lk = Some l \<and> l \<notin> L \<or> lk = None"
  defines "m' \<equiv> m\<lparr>rm_last_offset := rm_last_offset s, rm_last := rm_last s, rm_total_bytes := rm_total_bytes m + rm_total_bytes s\<rparr>"
  shows "\<exists>h1 h2 n h3 h4. upd_part l (\<lambda>y. y\<lparr>mp_next := Some (hd ss)\<rparr>) h = Some h1 \<and> msg_part_incref (hd ss) h1 = Some h2 \<and>
    msg_part_decref (Some (hd ss)) h2 = Some (n, h3) \<and> unlock_part lk h3 = Some h4 \<and>
    mholds h4 R L m' (wins_bytes h m (us @ [l]) @ wins_bytes h s ss) \<and> mframe h R h4"
proof -
  let ?R = "plus_ref (rm_first m) R" and ?L = "set_option lk \<union> L" and ?ps = "us @ [l] @ ss"
  obtain y where y: "mparts h l = Some y" using mpath_dom [OF msg_okD(5) [OF M], of l] by auto
  have f: "rm_first s = Some (hd ss)" using msg_okD(4) [OF S(1,2)] by simp
  define h1 where "h1 = h\<lparr>mparts := (mparts h)(l \<mapsto> y\<lparr>mp_next := rm_first s\<rparr>)\<rparr>"
  have 1: "heap_ok h1 ?R ?L" "msg_ok h1 m' ?ps" "wins_bytes h1 m' ?ps = wins_bytes h m (us @ [l]) @ wins_bytes h s ss" "mframe h R h1"
    using link_ok [OF H M c S o ne y] unfolding h1_def m'_def by blast+
  have u: "upd_part l (\<lambda>y. y\<lparr>mp_next := Some (hd ss)\<rparr>) h = Some h1" using y f by (simp add: upd_part_def h1_def)
  have "mparts h1 (hd ss) \<noteq> None" using mpath_dom [OF msg_okD(5) [OF 1(2)], of "hd ss"] S(2) by simp
  then obtain h2 where 2: "msg_part_incref (hd ss) h1 = Some h2" "heap_ok h2 (plus_ref (Some (hd ss)) ?R) ?L" "mframe h1 (plus_ref (Some (hd ss)) ?R) h2"
    using incref_frame [OF 1(1)] by blast
  have F2: "mframe h1 ?R h2" using frame_less [OF 2(3)] .
  have r: "rm_first m' = rm_first m" by (simp add: m'_def)
  have R: "\<And>p. rm_first m' = Some p \<Longrightarrow> ?R p > 0" by (simp add: r)
  have "l \<in> mreach h1 ?R" using msg_reached [OF 1(2), of ?R] R by auto
  then have "?L \<subseteq> mreach h1 ?R" using lk L frame_reach [OF 1(4)] reach_more by fastforce
  then have LL: "?L \<subseteq> mreach h2 ?R" using frame_reach [OF F2] by blast
  obtain n h3 where 3: "msg_part_decref (Some (hd ss)) h2 = Some (n, h3)" "heap_ok h3 ?R ?L" "mframe h2 ?R h3"
    using decref_frame [OF 2(2) LL] by blast
  have F3: "mframe h1 ?R h3" using frame_trans [OF F2 3(3)] .
  have M3: "msg_ok h3 m' ?ps" "wins_bytes h3 m' ?ps = wins_bytes h1 m' ?ps" using frame_msg [OF 1(1) F3 1(2)] R by auto
  have lk3: "\<forall>q. lk = Some q \<longrightarrow> q \<notin> L \<and> mparts h3 q \<noteq> None" using lk mpath_dom [OF msg_okD(5) [OF M3(1)], of l] by auto
  have H3: "heap_ok h3 (plus_ref (rm_first m') R) ?L" using 3(2) r by simp
  obtain h4 where 4: "unlock_part lk h3 = Some h4" "heap_ok h4 (plus_ref (rm_first m') R) L" "msg_ok h4 m' ?ps" "wins_bytes h4 m' ?ps = wins_bytes h3 m' ?ps"
    "mframe h3 R h4"
    using unlock_ok [OF H3 M3(1) lk3] by (elim exE conjE) (rule that)
  have "mframe h R h4" using frame_trans [OF frame_trans [OF 1(4) frame_less [OF F3]] 4(5)] .
  moreover have "mholds h4 R L m' (wins_bytes h m (us @ [l]) @ wins_bytes h s ss)"
    unfolding mholds_def using 4(2,3,4) M3(2) 1(3) by auto
  ultimately show ?thesis using u 2(1) 3(1) 4(1) by blast
qed

lemma union_parts_ok:
  assumes m: "mholds h (plus_ref (rm_first t) R) L m d" and t: "mholds h (plus_ref (rm_first m) R) L t e" and L: "L \<subseteq> mreach h R"
    and ne: "rm_first m \<noteq> None" "rm_first t \<noteq> None"
  shows "\<exists>m' h'. rwm_union m t h = Some (m', rm_zero, h') \<and> mholds h' R L m' (d @ e) \<and> mframe h R h'"
proof -
  let ?T = "plus_ref (rm_first t) R"
  have LT: "L \<subseteq> mreach h ?T" using L reach_more by blast
  obtain lk m1 us l h1 where 1: "rwm_lock_last_part m h = Some (lk, m1, h1)" "mframe h ?T h1" "heap_ok h1 (plus_ref (rm_first m1) ?T) (set_option lk \<union> L)"
    "msg_ok h1 m1 (us @ [l])" "wins_bytes h1 m1 (us @ [l]) = d" "closed_at h1 m1 l" "lk = Some l \<and> l \<notin> L \<and> m1 = m \<or> lk = None \<and> l \<notin> mreach h1 ?T" "stable h ?T h1"
    using rwm_lock_last_part_ok [OF m LT ne(1)] by (elim exE conjE) (rule that)
  have F1: "mframe h R h1" using frame_less [OF 1(2)] .
  have T: "heap_ok h (plus_ref (rm_first t) (plus_ref (rm_first m) R)) L" "\<exists>ts. msg_ok h t ts \<and> wins_bytes h t ts = e" using t unfolding mholds_def by blast+
  have H1: "heap_ok h1 (plus_ref (rm_first t) (plus_ref (rm_first m1) R)) (set_option lk \<union> L)" using 1(3) by (subst plus_ref_commute)
  have t1: "mholds h1 (plus_ref (rm_first m1) R) (set_option lk \<union> L) t e" using holds_frame [OF T 1(2) _ H1] by simp
  have lk': "lk = Some l \<or> lk = None \<and> l \<notin> mreach h1 ?T" using 1(7) by blast
  have L1: "L \<subseteq> mreach h1 R" using L frame_reach [OF F1] by blast
  obtain l2 t1 h2 h3 t2 ss h4 where 2: "rwm_lock_last_part t h1 = Some (l2, t1, h2)" "unlock_part l2 h2 = Some h3" "rwm_lock_first_part t1 h3 = Some (t2, h4)"
    "heap_ok h4 (plus_ref (rm_first t2) (plus_ref (rm_first m1) R)) (set_option lk \<union> L)" "msg_ok h4 t2 ss" "ss \<noteq> []" "wins_bytes h4 t2 ss = e"
    "closed_at h4 t2 (last ss)" "rm_first_offset t2 = mp_offset (prt h4 (hd ss))" "l \<noteq> last ss"
    "msg_ok h4 m1 (us @ [l])" "wins_bytes h4 m1 (us @ [l]) = wins_bytes h1 m1 (us @ [l])" "closed_at h4 m1 l" "mframe h1 (plus_ref (rm_first m1) R) h4"
    using union_tail_ok [OF t1 1(4) 1(6) ne(2) L1 lk'] by (elim exE conjE) (rule that)
  have F4: "mframe h1 R h4" using frame_less [OF 2(14)] .
  have L4: "L \<subseteq> mreach h4 R" using L1 frame_reach [OF F4] by blast
  have lk4: "lk = Some l \<and> l \<notin> L \<or> lk = None" using 1(7) by blast
  let ?m = "m1\<lparr>rm_last_offset := rm_last_offset t2, rm_last := rm_last t2, rm_total_bytes := rm_total_bytes m1 + rm_total_bytes t2\<rparr>"
  obtain h5 h6 n h7 h8 where 3: "upd_part l (\<lambda>y. y\<lparr>mp_next := Some (hd ss)\<rparr>) h4 = Some h5" "msg_part_incref (hd ss) h5 = Some h6"
    "msg_part_decref (Some (hd ss)) h6 = Some (n, h7)" "unlock_part lk h7 = Some h8"
    "mholds h8 R L ?m (wins_bytes h4 m1 (us @ [l]) @ wins_bytes h4 t2 ss)" "mframe h4 R h8"
    using union_link_ok [OF 2(4,11,13,5,6,8-10) L4 lk4] by (elim exE conjE) (rule that)
  have f: "rm_first t2 = Some (hd ss)" "rm_last m1 = Some l" "rm_last m \<noteq> None"
    using msg_okD(4) [OF 2(5,6)] msg_okD(4) [OF 2(11)] m ne(1) by (auto simp: mholds_def msg_ok_def split: if_splits)
  have mg: "rm_magic m = RM_INIT_MAGIC" "rm_magic t2 = RM_INIT_MAGIC" using holds_magic [OF m] msg_okD(1) [OF 2(5)] .
  have "rwm_union m t h = Some (?m, rm_zero, h8)"
    using ne(2) f mg 1(1) 2(1-3) 3(1-4) by (auto simp: rwm_union_def rwm_free_def rm_live_def)
  moreover have "mholds h8 R L ?m (d @ e)" using 3(5) unfolding 2(7,12) 1(5) .
  moreover have "mframe h R h8" using frame_trans [OF F1 frame_trans [OF F4 3(6)]] .
  ultimately show ?thesis by blast
qed

lemma rwm_union_ok:
  assumes m: "mholds h (plus_ref (rm_first t) R) L m d" and t: "mholds h (plus_ref (rm_first m) R) L t e" and L: "L \<subseteq> mreach h R"
  shows "\<exists>m' t' h'. rwm_union m t h = Some (m', t', h') \<and> mholds h' R L m' (d @ e) \<and> mframe h R h'"
proof (cases "rm_first m = None \<or> rm_first t = None")
  case False
  then show ?thesis using union_parts_ok [OF m t L] by blast
next
  case e: True
  have emp: "rm_last x = None \<and> b = []" if "mholds h r L x b" "rm_first x = None" for r x b
    using that by (auto simp: mholds_def msg_ok_def wins_bytes_def)
  have ml: "rm_last m = None \<longleftrightarrow> rm_first m = None" using m by (auto simp: mholds_def msg_ok_def split: if_splits)
  show ?thesis
  proof (cases "rm_first m")
    case None
    have "mholds h R L t e" using t None by simp
    moreover have "mframe h R h" using calculation frame_self unfolding mholds_def by blast
    ultimately show ?thesis using None ml emp [OF m] holds_magic [OF m] by (auto simp: rwm_union_def)
  next
    case (Some p)
    then have tn: "rm_first t = None" using e by simp
    have "mholds h R L m d" using m tn by simp
    moreover have "mframe h R h" using calculation frame_self unfolding mholds_def by blast
    ultimately show ?thesis
      using Some tn ml emp [OF t] holds_magic [OF m] holds_magic [OF t] by (auto simp: rwm_union_def rwm_free_def rm_live_def unlock_part_def)
  qed
qed

end
