(* ===== verification/MsgFront.thy ===== *)
theory MsgFront
  imports MsgPush
begin

text \<open>
  Putting data in front of a message: \<open>rwm_push_data_front\<close>.
\<close>

section \<open>A new part in front\<close>

lemma front_part_ok:
  assumes H: "heap_ok h (plus_ref (rm_first m) R) L" and L: "L \<subseteq> mreach h R" and M: "msg_ok h m ps"
    and o: "ps \<noteq> [] \<Longrightarrow> rm_first_offset m = mp_offset (prt h (hd ps))"
    and k: "0 \<le> s" "s \<le> e" "e \<le> buffer_size b" and b: "mb_refcnt b = 1" "mslice (mb_data b) s e = w"
    and h': "mparts h' = (mparts h)(Suc (mh_fresh h) \<mapsto>
        \<lparr>mp_refcnt = 1, mp_locked = False, mp_next = rm_first m, mp_part = mh_fresh h, mp_offset = s, mp_data_end = e\<rparr>)"
      "mbufs h' = (mbufs h)(mh_fresh h \<mapsto> b)" "mh_fresh h' = Suc (Suc (mh_fresh h))"
  defines "m' \<equiv> m\<lparr>rm_first := Some (Suc (mh_fresh h)), rm_total_bytes := rm_total_bytes m + (e - s), rm_first_offset := s,
      rm_last := (if rm_last m = None then Some (Suc (mh_fresh h)) else rm_last m), rm_last_offset := (if rm_last m = None then e else rm_last_offset m)\<rparr>"
  shows "heap_ok h' (plus_ref (Some (Suc (mh_fresh h))) R) L \<and> msg_ok h' m' (Suc (mh_fresh h) # ps) \<and>
    wins_bytes h' m' (Suc (mh_fresh h) # ps) = w @ wins_bytes h m ps \<and> mp_offset (prt h' (Suc (mh_fresh h))) = s \<and> mframe h R h'"
proof -
  let ?c = "Suc (mh_fresh h)"
  let ?x = "\<lparr>mp_refcnt = 1, mp_locked = False, mp_next = rm_first m, mp_part = mh_fresh h, mp_offset = s, mp_data_end = e\<rparr>"
  have nc: "mparts h ?c = None" using heap_okD(2) [OF H, of ?c] by (cases "mparts h ?c") auto
  have cL: "?c \<notin> L" using L nc reach_dom [OF H] by blast
  have B: "mbufs h' (mh_fresh h) = Some b" "mb_refcnt b = int (card (users h (mh_fresh h))) + 1"
    "\<And>y0. mbufs h (mh_fresh h) = Some y0 \<Longrightarrow> mb_data b = mb_data y0" "\<And>j. j \<noteq> mh_fresh h \<Longrightarrow> mbufs h' j = mbufs h j"
    using h'(2) b(1) users_fresh [OF H] fresh_parts(2) [OF H] by simp_all
  have A: "heap_ok h' (plus_ref (Some ?c) R) L \<and> (\<forall>q. mparts h q \<noteq> None \<longrightarrow> same_view h h' q)"
    by (rule add_part_ok [OF H h'(1) nc cL _ _ _ _ _ _ B(1,2) _ B(3,4)]) (use k h'(3) in auto)
  have c: "mparts h' ?c = Some ?x" using h'(1) by simp
  have O: "msg_ok h' (one_part ?c s e) [?c]" "wins_bytes h' (one_part ?c s e) [?c] = w"
    using one_part_ok [OF c, of s e] k B(1) b(2) by (simp_all add: bdata_def)
  have M1: "msg_ok h' m ps" "wins_bytes h' m ps = wins_bytes h m ps"
    using frame_reached [OF H _ M, of h'] A mpath_dom [OF msg_okD(5) [OF M]] by auto
  have "msg_ok h' m' (?c # ps) \<and> wins_bytes h' m' (?c # ps) = w @ wins_bytes h m ps"
  proof (cases "ps = []")
    case True
    have "rm_last m = None" "rm_total_bytes m = 0" "rm_magic m = RM_INIT_MAGIC" using msg_okD(1,3,9) [OF M] True by simp_all
    then have "m' = one_part ?c s e" by (cases m) (simp add: m'_def one_part_def)
    then show ?thesis using O True by (simp add: wins_bytes_def)
  next
    case False
    have f: "rm_first m = Some (hd ps)" "rm_last m \<noteq> None" using msg_okD(4) [OF M False] by simp_all
    have dj: "set ([] @ [?c]) \<inter> set ps = {}" using nc mpath_dom [OF msg_okD(5) [OF M], of ?c] by auto
    have "mparts h (hd ps) \<noteq> None" using mpath_dom [OF msg_okD(5) [OF M]] False by simp
    then have "hd ps \<noteq> ?c" using nc by auto
    then have o': "rm_first_offset m = mp_offset (prt h' (hd ps))" using o [OF False] h'(1) by (simp add: prt_def)
    have n: "rm_last_offset (one_part ?c s e) = mp_data_end (prt h' ?c)" "nxt h' ?c = Some (hd ps)" using c f by (simp_all add: prt_def nxt_def)
    define m2 where "m2 = (one_part ?c s e)\<lparr>rm_last := rm_last m, rm_last_offset := rm_last_offset m,
      rm_total_bytes := rm_total_bytes (one_part ?c s e) + rm_total_bytes m\<rparr>"
    have J: "msg_ok h' m2 ([] @ [?c] @ ps) \<and> wins_bytes h' m2 ([] @ [?c] @ ps) = wins_bytes h' (one_part ?c s e) ([] @ [?c]) @ wins_bytes h' m ps"
      unfolding m2_def by (rule msg_join [OF _ M1(1) False n(1) o' n(2) dj]) (use O(1) in simp)
    have "m' = m2" using f msg_okD(1) [OF M] by (cases m) (auto simp: m'_def m2_def one_part_def)
    then show ?thesis using J O(2) M1(2) by (simp del: wins_bytes_simps)
  qed
  moreover have "mframe h R h'" using frame_less all_same_frame [OF H] A by blast
  ultimately show ?thesis using A c by (simp add: prt_def)
qed

section \<open>The loop over new parts\<close>

lemma front_step:
  fixes m :: raw_message
  assumes mem: "\<not> out_of_memory h" and n: "0 < n" "n \<le> int (length d)" and nc: "mparts h (Suc (mh_fresh h)) = None"
  defines "sz \<equiv> buffer_size_for (if n \<ge> MSG_SMALL_BUFFER then MSG_STD_BUFFER else MSG_SMALL_BUFFER)"
  defines "k \<equiv> if n > sz then sz else n" and "c \<equiv> Suc (mh_fresh h)"
  defines "m' \<equiv> (if rm_last m = None then m\<lparr>rm_first := Some c, rm_total_bytes := rm_total_bytes m + k, rm_last := Some c, rm_last_offset := sz\<rparr>
      else m\<lparr>rm_first := Some c, rm_total_bytes := rm_total_bytes m + k\<rparr>)"
  shows "\<exists>b h'. push_front_loop m (\<lambda>_. d) n h =
      (if n > sz then push_front_loop m' (\<lambda>_. d) (n - k) h' else Some (m'\<lparr>rm_first_offset := sz - k\<rparr>, h')) \<and>
    mslice (mb_data b) (sz - k) sz = take (nat k) (drop (nat (n - k)) d) \<and> sz \<le> buffer_size b \<and> mb_refcnt b = 1 \<and>
    mparts h' = (mparts h)(c \<mapsto> \<lparr>mp_refcnt = 1, mp_locked = False, mp_next = rm_first m, mp_part = mh_fresh h, mp_offset = sz - k, mp_data_end = sz\<rparr>) \<and>
    mbufs h' = (mbufs h)(mh_fresh h \<mapsto> b) \<and> mh_fresh h' = Suc c \<and> mh_fails h' = drop 1 (mh_fails h)"
proof -
  define hint where "hint = (if n \<ge> MSG_SMALL_BUFFER then MSG_STD_BUFFER else MSG_SMALL_BUFFER)"
  let ?X = "mh_fresh h" and ?w = "take (nat k) (drop (nat (n - k)) d)" and ?b = "new_buffer h hint"
  have sz: "0 < sz" "buffer_size ?b = sz" using buffer_size_for_pos by (simp_all add: sz_def hint_def new_buffer_size)
  have k: "0 \<le> k" "k \<le> n" "k \<le> sz" using sz n(1) by (auto simp: k_def)
  have lw: "int (length ?w) = k" using k n(2) by simp
  define b where "b = ?b\<lparr>mb_data := take (nat (sz - k)) (mb_data ?b) @ ?w @ drop (nat (sz - k) + length ?w) (mb_data ?b)\<rparr>"
  define h' where "h' = h\<lparr>mh_fails := drop 1 (mh_fails h), mh_fresh := Suc c,
    mparts := (mparts h)(c \<mapsto> \<lparr>mp_refcnt = 1, mp_locked = False, mp_next = rm_first m, mp_part = ?X, mp_offset = sz - k, mp_data_end = sz\<rparr>),
    mbufs := (mbufs h)(?X \<mapsto> b)\<rparr>"
  have p: "0 \<le> sz - k" "sz - k + int (length ?w) \<le> int (length (mb_data ?b))" using k lw sz(2) by (simp_all add: buffer_size_def)
  have pb: "put_bytes ?X (sz - k) ?w h0 = Some (h0\<lparr>mbufs := (mbufs h0)(?X \<mapsto> b)\<rparr>)" if "mbufs h0 ?X = Some ?b" for h0
    using put_bytes_some [OF that p(1)] p(2) unfolding b_def by (simp add: buffer_size_def)
  have "push_front_loop m (\<lambda>_. d) n h =
      (if n > sz then push_front_loop m' (\<lambda>_. d) (n - k) h' else Some (m'\<lparr>rm_first_offset := sz - k\<rparr>, h'))"
  proof (cases "n > sz")
    case True
    then have kn: "k = sz" by (simp add: k_def)
    show ?thesis using n k pb True unfolding kn
      by (subst push_front_loop.simps)
        (simp add: alloc_some [OF mem] hint_def [symmetric] new_msg_part_def upd_part_def sz(2) c_def [symmetric] h'_def m'_def kn Let_def)
  next
    case False
    then have kn: "k = n" by (simp add: k_def)
    show ?thesis using n k pb False unfolding kn
      by (subst push_front_loop.simps)
        (simp add: alloc_some [OF mem] hint_def [symmetric] new_msg_part_def upd_part_def sz(2) c_def [symmetric] h'_def m'_def kn Let_def)
  qed
  moreover have "mslice (mb_data b) (sz - k) sz = ?w" using put_slice_at [OF p] lw by (simp add: b_def)
  moreover have "buffer_size b = sz" using put_length [OF p] sz(2) by (simp add: b_def buffer_size_def)
  moreover have "mb_refcnt b = 1" by (simp add: b_def new_buffer_def)
  ultimately show ?thesis by (intro exI [of _ b] exI [of _ h']) (simp add: h'_def)
qed

lemma push_front_loop_ok:
  assumes "heap_ok h (plus_ref (rm_first m) R) L" "L \<subseteq> mreach h R" "msg_ok h (m\<lparr>rm_first_offset := so\<rparr>) ps"
    "ps \<noteq> [] \<longrightarrow> so = mp_offset (prt h (hd ps))" "mh_fails h = []" "0 < n" "n \<le> int (length d)"
  shows "\<exists>m' h'. push_front_loop m (\<lambda>_. d) n h = Some (m', h') \<and> mh_fails h' = [] \<and>
    mholds h' R L m' (take (nat n) d @ wins_bytes h (m\<lparr>rm_first_offset := so\<rparr>) ps) \<and> mframe h R h'"
  using assms
proof (induction "nat n" arbitrary: n h m so ps rule: less_induct)
  case less
  note A = less.prems
  let ?m = "m\<lparr>rm_first_offset := so\<rparr>" and ?c = "Suc (mh_fresh h)"
  have mem: "\<not> out_of_memory h" using A(5) by (simp add: out_of_memory_def)
  have nc: "mparts h ?c = None" using heap_okD(2) [OF A(1), of ?c] by (cases "mparts h ?c") auto
  define sz where "sz = buffer_size_for (if n \<ge> MSG_SMALL_BUFFER then MSG_STD_BUFFER else MSG_SMALL_BUFFER)"
  define k where "k = (if n > sz then sz else n)"
  have sz: "0 < sz" using buffer_size_for_pos by (simp add: sz_def)
  have k: "0 < k" "k \<le> n" "k \<le> sz" using sz A(6) by (auto simp: k_def)
  define m1 where "m1 = (if rm_last m = None then m\<lparr>rm_first := Some ?c, rm_total_bytes := rm_total_bytes m + k, rm_last := Some ?c, rm_last_offset := sz\<rparr>
      else m\<lparr>rm_first := Some ?c, rm_total_bytes := rm_total_bytes m + k\<rparr>)"
  let ?w = "take (nat k) (drop (nat (n - k)) d)" and ?m1 = "m1\<lparr>rm_first_offset := sz - k\<rparr>"
  obtain b h1 where s: "push_front_loop m (\<lambda>_. d) n h = (if n > sz then push_front_loop m1 (\<lambda>_. d) (n - k) h1 else Some (?m1, h1))"
    "mslice (mb_data b) (sz - k) sz = ?w" "sz \<le> buffer_size b" "mb_refcnt b = 1"
    "mparts h1 = (mparts h)(?c \<mapsto> \<lparr>mp_refcnt = 1, mp_locked = False, mp_next = rm_first ?m, mp_part = mh_fresh h, mp_offset = sz - k, mp_data_end = sz\<rparr>)"
    "mbufs h1 = (mbufs h)(mh_fresh h \<mapsto> b)" "mh_fresh h1 = Suc ?c" "mh_fails h1 = drop 1 (mh_fails h)"
    using front_step [OF mem A(6,7) nc, where m = m] unfolding sz_def [symmetric] k_def [symmetric] m1_def [symmetric] by auto
  have o: "ps \<noteq> [] \<Longrightarrow> rm_first_offset ?m = mp_offset (prt h (hd ps))" and H: "heap_ok h (plus_ref (rm_first ?m) R) L" using A(1,4) by simp_all
  have sk: "0 \<le> sz - k" "sz - k \<le> sz" using k by simp_all
  have m1: "?m1 = ?m\<lparr>rm_first := Some ?c, rm_total_bytes := rm_total_bytes ?m + (sz - (sz - k)), rm_first_offset := sz - k,
      rm_last := (if rm_last ?m = None then Some ?c else rm_last ?m), rm_last_offset := (if rm_last ?m = None then sz else rm_last_offset ?m)\<rparr>"
    by (cases m) (simp add: m1_def)
  have P: "heap_ok h1 (plus_ref (Some ?c) R) L" "msg_ok h1 ?m1 (?c # ps)" "wins_bytes h1 ?m1 (?c # ps) = ?w @ wins_bytes h ?m ps"
    "mp_offset (prt h1 ?c) = sz - k" "mframe h R h1"
    using front_part_ok [OF H A(2,3) o sk s(3,4,2) s(5,6,7)] unfolding m1 [symmetric] by blast+
  have f1: "rm_first m1 = Some ?c" by (simp add: m1_def)
  have fl: "mh_fails h1 = []" using s(8) A(5) by simp
  have tk: "take (nat (n - k)) d @ ?w = take (nat n) d"
  proof -
    have "nat n = nat (n - k) + nat k" using k by simp
    then show ?thesis by (simp add: take_add)
  qed
  show ?case
  proof (cases "n > sz")
    case False
    then have "k = n" by (simp add: k_def)
    then have "mholds h1 R L ?m1 (take (nat n) d @ wins_bytes h ?m ps)" unfolding mholds_def using P(1-3) f1 by auto
    then show ?thesis using s(1) False fl P(5) by simp
  next
    case True
    have dec: "nat (n - k) < nat n" using k by simp
    have r: "0 < n - k" "n - k \<le> int (length d)" using True k A(7) by (auto simp: k_def)
    have L1: "L \<subseteq> mreach h1 R" using A(2) frame_reach [OF P(5)] by blast
    have "?c # ps \<noteq> [] \<longrightarrow> sz - k = mp_offset (prt h1 (hd (?c # ps)))" using P(4) by simp
    then obtain m' h' where i: "push_front_loop m1 (\<lambda>_. d) (n - k) h1 = Some (m', h')" "mh_fails h' = []"
      "mholds h' R L m' (take (nat (n - k)) d @ wins_bytes h1 ?m1 (?c # ps))" "mframe h1 R h'"
      using less.hyps [OF dec P(1) [folded f1] L1 P(2) _ fl r] by blast
    have "mholds h' R L m' (take (nat n) d @ wins_bytes h ?m ps)" using i(3) unfolding P(3) tk [symmetric] append_assoc .
    then show ?thesis using s(1) True i(1,2) frame_trans [OF P(5) i(4)] by simp
  qed
qed

section \<open>Room before the first part\<close>

lemma front_room_ok:
  assumes H: "heap_ok h (plus_ref (rm_first m) R) L" and L: "L \<subseteq> mreach h R" and M: "msg_ok h m (f # vs)"
    and o: "rm_first_offset m = mp_offset (prt h f)" and x: "mparts h f = Some x" and b: "mbufs h (mp_part x) = Some b"
    and one: "mb_refcnt b = 1" "mp_refcnt x = 1" and w: "int (length w) \<le> rm_first_offset m"
  defines "s \<equiv> rm_first_offset m - int (length w)"
  defines "m' \<equiv> m\<lparr>rm_first_offset := s, rm_total_bytes := rm_total_bytes m + int (length w)\<rparr>"
  shows "\<exists>h1 h'. put_bytes (mp_part x) s w h = Some h1 \<and> upd_part f (\<lambda>y. y\<lparr>mp_offset := s\<rparr>) h1 = Some h' \<and> mh_fails h' = mh_fails h \<and>
    heap_ok h' (plus_ref (rm_first m) R) L \<and> msg_ok h' m' (f # vs) \<and> wins_bytes h' m' (f # vs) = w @ wins_bytes h m (f # vs) \<and>
    mp_offset (prt h' f) = s \<and> mframe h R h'"
proof -
  have fm: "rm_first m = Some f" using msg_okD(4) [OF M] by simp
  note part = part_okD [OF heap_okD(4) [OF H x]]
  have ox: "rm_first_offset m = mp_offset x" using o x by (simp add: prt_def)
  have e: "mp_data_end x \<le> buffer_size b" using part(4) b by auto
  have sb: "0 \<le> s" "s \<le> mp_offset x" "s + int (length w) = mp_offset x" "s + int (length w) \<le> int (length (mb_data b))"
    using w ox part(2,3) e by (simp_all add: s_def buffer_size_def)
  let ?d = "take (nat s) (mb_data b) @ w @ drop (nat s + length w) (mb_data b)"
  let ?b = "b\<lparr>mb_data := ?d\<rparr>" and ?x = "x\<lparr>mp_offset := s\<rparr>"
  define h' where "h' = h\<lparr>mbufs := (mbufs h)(mp_part x \<mapsto> ?b), mparts := (mparts h)(f \<mapsto> ?x)\<rparr>"
  have ops: "put_bytes (mp_part x) s w h = Some (h\<lparr>mbufs := (mbufs h)(mp_part x \<mapsto> ?b)\<rparr>)"
    "upd_part f (\<lambda>y. y\<lparr>mp_offset := s\<rparr>) (h\<lparr>mbufs := (mbufs h)(mp_part x \<mapsto> ?b)\<rparr>) = Some h'"
    using put_bytes_some [OF b sb(1)] sb(4) x by (simp_all add: buffer_size_def upd_part_def h'_def)
  have len: "length ?d = length (mb_data b)" using put_length [OF sb(1,4)] .
  have H': "heap_ok h' (plus_ref (rm_first m) R) L" "\<And>q. q \<noteq> f \<Longrightarrow> mparts h q \<noteq> None \<Longrightarrow> same_view h h' q"
    using fill_ok [OF H x b one(1), of ?x ?b] part(2,3) sb e len unfolding h'_def by simp_all
  have nf: "f \<notin> mreach h R" using part_unreached [OF _ x one(2)] H fm by metis
  have F: "mframe h R h'" unfolding mframe_def using H'(2) nf reach_dom [OF H] by metis
  have keep: "mslice ?d p q = mslice (mb_data b) p q" if "mp_offset x \<le> p" for p q
  proof -
    have "drop (nat p) ?d = drop (nat p) (mb_data b)" using that sb len by (simp add: drop_append nat_le_iff)
    then show ?thesis by (simp add: mslice_def)
  qed
  have pf: "prt h' f = ?x" "bdata h' (mp_part x) = ?d" by (simp_all add: h'_def prt_def bdata_def)
  have w': "mparts h' q \<noteq> None \<and> win_start h' m q = win_start h m q \<and> win_end h' m q = win_end h m q \<and> win_bytes h' m q = win_bytes h m q"
    if q: "q \<in> set (f # vs)" for q
  proof (cases "q = f")
    case True
    then show ?thesis using x b fm ox keep by (simp add: win_bytes_def win_start_def win_end_def part_start_def part_end_def h'_def prt_def bdata_def)
  next
    case False
    obtain z where z: "mparts h q = Some z" using mpath_dom [OF msg_okD(5) [OF M] q] by blast
    have "mp_part z \<noteq> mp_part x" using one_user [OF H x b one(1) z] False by blast
    then show ?thesis using z False by (simp add: win_bytes_def win_start_def win_end_def h'_def prt_def bdata_def)
  qed
  have "rm_last_offset m \<le> mp_data_end (prt h' (last (f # vs)))" using msg_okD(7) [OF M] x by (auto simp: h'_def prt_def)
  then have M1: "msg_ok h' m (f # vs)" "wins_bytes h' m (f # vs) = wins_bytes h m (f # vs)"
    using msg_cong [OF M w'] x ox sb(2) pf(1) by (auto simp: h'_def nxt_def)
  have "msg_ok h' m' (f # vs) \<and> wins_bytes h' m' (f # vs) = mslice (bdata h' (mp_part (prt h' f))) s (rm_first_offset m) @ wins_bytes h' m (f # vs)"
    unfolding m'_def s_def by (rule grow_first [OF H'(1) M1(1)]) (simp_all add: pf s_def)
  moreover have "mslice ?d s (rm_first_offset m) = w" using put_slice_at [OF sb(1,4)] sb(3) ox by simp
  moreover have "mh_fails h' = mh_fails h" by (simp add: h'_def)
  ultimately show ?thesis using ops H'(1) F M1(2) pf by (simp del: wins_bytes_simps)
qed

section \<open>The operation\<close>

lemma lock_first_fails: "rwm_lock_first_part m h = Some (m', h') \<Longrightarrow> mh_fails h' = mh_fails h"
  by (auto simp: rwm_lock_first_part_def new_msg_part_def Let_def bind_eq_Some_conv split: option.split_asm if_split_asm
    dest!: upd_part_fails incref_fails decref_fails)

lemma front_parts_ok:
  assumes H: "heap_ok h (plus_ref (rm_first m) R) L" and L: "L \<subseteq> mreach h R" and M: "msg_ok h m ps" "wins_bytes h m ps = b"
    and o: "ps \<noteq> [] \<Longrightarrow> rm_first_offset m = mp_offset (prt h (hd ps))" and mem: "mh_fails h = []" and n: "0 < n" "n \<le> int (length d)"
  shows "\<exists>m' h'. push_front_loop m (\<lambda>_. d) n h = Some (m', h') \<and> mh_fails h' = [] \<and> mholds h' R L m' (take (nat n) d @ b) \<and> mframe h R h'"
proof -
  have m: "m\<lparr>rm_first_offset := rm_first_offset m\<rparr> = m" by (cases m) simp
  have M0: "msg_ok h (m\<lparr>rm_first_offset := rm_first_offset m\<rparr>) ps" using M(1) unfolding m .
  have o0: "ps \<noteq> [] \<longrightarrow> rm_first_offset m = mp_offset (prt h (hd ps))" using o by blast
  show ?thesis using push_front_loop_ok [OF H L M0 o0 mem n] unfolding m M(2) .
qed

lemma front_lock_room_ok:
  assumes m: "rm_magic m = RM_INIT_MAGIC" "rm_first m \<noteq> None" and 1: "rwm_lock_first_part m h = Some (m1, h1)"
    and H: "heap_ok h1 (plus_ref (rm_first m1) R) L" and L: "L \<subseteq> mreach h1 R" and M: "msg_ok h1 m1 (f # vs)" "wins_bytes h1 m1 (f # vs) = b"
    and o: "rm_first_offset m1 = mp_offset (prt h1 f)" and x: "mparts h1 f = Some x" and y: "mbufs h1 (mp_part x) = Some y"
    and one: "mb_refcnt y = 1" "mp_refcnt x = 1" and mem: "mh_fails h1 = []" and n: "0 < n" "n \<le> int (length d)"
  shows "\<exists>m' h'. rwm_push_data_front m (\<lambda>_. d) n h = Some (n, m', h') \<and> mh_fails h' = [] \<and> mholds h' R L m' (take (nat n) d @ b) \<and> mframe h1 R h'"
proof -
  have f: "rm_first m1 = Some f" using msg_okD(4) [OF M(1)] by simp
  have ox: "rm_first_offset m1 = mp_offset x" using o x by (simp add: prt_def)
  have sz0: "0 \<le> rm_first_offset m1" using part_okD(2) [OF heap_okD(4) [OF H x]] ox by simp
  define sz where "sz = rm_first_offset m1"
  define k where "k = (if n > sz then sz else n)"
  define w where "w = take (nat k) (drop (nat (n - k)) d)"
  have k: "0 \<le> k" "k \<le> n" "k \<le> sz" using n(1) sz0 by (auto simp: k_def sz_def)
  have lw: "int (length w) = k" using k n(2) by (simp add: w_def)
  have nk: "nat n = nat (n - k) + nat k" using k by simp
  have tk: "take (nat (n - k)) d @ w = take (nat n) d" unfolding w_def nk take_add ..
  define m2 where "m2 = m1\<lparr>rm_first_offset := sz - k, rm_total_bytes := rm_total_bytes m1 + k\<rparr>"
  have wl: "int (length w) \<le> rm_first_offset m1" using lw k sz_def by simp
  obtain h2 h3 where 2: "put_bytes (mp_part x) (sz - k) w h1 = Some h2" "upd_part f (\<lambda>y. y\<lparr>mp_offset := sz - k\<rparr>) h2 = Some h3" "mh_fails h3 = mh_fails h1"
    "heap_ok h3 (plus_ref (rm_first m1) R) L" "msg_ok h3 m2 (f # vs)" "wins_bytes h3 m2 (f # vs) = w @ wins_bytes h1 m1 (f # vs)"
    "mp_offset (prt h3 f) = sz - k" "mframe h1 R h3"
    using front_room_ok [OF H L M(1) o x y one wl] unfolding lw sz_def [symmetric] m2_def [symmetric] by (elim exE conjE) (rule that)
  have H3: "heap_ok h3 (plus_ref (rm_first m2) R) L" using 2(4) by (simp add: m2_def)
  have op: "rwm_push_data_front m (\<lambda>_. d) n h = (if n > sz then do { (raw, h) \<leftarrow> push_front_loop m2 (\<lambda>_. d) (n - k) h3; Some (n, raw, h) } else Some (n, m2, h3))"
  proof (cases "n > sz")
    case True
    then have kn: "k = sz" by (simp add: k_def)
    show ?thesis using m 1 n k(1) f x y one 2(1,2) True unfolding kn
      by (auto simp: rwm_push_data_front_def Let_def sz_def [symmetric] w_def kn m2_def)
  next
    case False
    then have kn: "k = n" "mp_offset x = sz" using ox by (simp_all add: k_def sz_def)
    show ?thesis using m 1 n k(1) f x y one 2(1,2) False unfolding kn(1)
      by (auto simp: rwm_push_data_front_def Let_def sz_def [symmetric] w_def kn m2_def)
  qed
  show ?thesis
  proof (cases "n > sz")
    case False
    then have "take (nat n) d = w" using tk by (simp add: k_def)
    then have "mholds h3 R L m2 (take (nat n) d @ b)" unfolding mholds_def using H3 2(5,6) M(2) by auto
    then show ?thesis using op False 2(3,8) mem by simp
  next
    case True
    then have r: "0 < n - k" "n - k \<le> int (length d)" using k n(2) by (auto simp: k_def)
    have o3: "rm_first_offset m2 = mp_offset (prt h3 (hd (f # vs)))" using 2(7) by (simp add: m2_def)
    have L3: "L \<subseteq> mreach h3 R" using L frame_reach [OF 2(8)] by blast
    have mem3: "mh_fails h3 = []" using 2(3) mem by simp
    obtain m' h' where r: "push_front_loop m2 (\<lambda>_. d) (n - k) h3 = Some (m', h')" "mh_fails h' = []"
      "mholds h' R L m' (take (nat (n - k)) d @ w @ wins_bytes h1 m1 (f # vs))" "mframe h3 R h'"
      using front_parts_ok [OF H3 L3 2(5,6) o3 mem3 r] by (elim exE conjE) (rule that)
    have "mholds h' R L m' (take (nat n) d @ b)" using r(3) unfolding M(2) tk [symmetric] append_assoc .
    then show ?thesis using op True r(1,2) frame_trans [OF 2(8) r(4)] by simp
  qed
qed

lemma rwm_push_data_front_ok:
  assumes m: "mholds h R L m b" and L: "L \<subseteq> mreach h R" and n: "0 \<le> n" "n \<le> int (length d)" and mem: "mh_fails h = []"
  shows "\<exists>m' h'. rwm_push_data_front m (\<lambda>_. d) n h = Some (n, m', h') \<and> mh_fails h' = [] \<and> mholds h' R L m' (take (nat n) d @ b) \<and> mframe h R h'"
proof -
  obtain ps where H: "heap_ok h (plus_ref (rm_first m) R) L" and M: "msg_ok h m ps" "wins_bytes h m ps = b" using m by (auto simp: mholds_def)
  have mg: "rm_magic m = RM_INIT_MAGIC" using holds_magic [OF m] .
  consider "n = 0" | "0 < n" "rm_first m = None" | "0 < n" "rm_first m \<noteq> None" using n(1) by linarith
  then show ?thesis
  proof cases
    case 1
    then show ?thesis using m mg mem frame_self [OF H] by (simp add: rwm_push_data_front_def)
  next
    case 2
    have o: "ps \<noteq> [] \<Longrightarrow> rm_first_offset m = mp_offset (prt h (hd ps))" using msg_okD(2) [OF M(1)] 2(2) by simp
    show ?thesis using front_parts_ok [OF H L M o mem 2(1) n(2)] 2 mg by (auto simp: rwm_push_data_front_def)
  next
    case 3
    obtain m1 ps1 h1 where 1: "rwm_lock_first_part m h = Some (m1, h1)" "heap_ok h1 (plus_ref (rm_first m1) R) L" "msg_ok h1 m1 ps1" "ps1 \<noteq> []"
      "wins_bytes h1 m1 ps1 = b" "mframe h R h1" "rm_first_offset m1 = mp_offset (prt h1 (hd ps1))"
      using rwm_lock_first_part_ok [OF m L 3(2)] by (elim exE conjE) (rule that)
    have fl: "mh_fails h1 = []" using lock_first_fails [OF 1(1)] mem by simp
    have L1: "L \<subseteq> mreach h1 R" using L frame_reach [OF 1(6)] by blast
    obtain f vs where fv: "ps1 = f # vs" using 1(4) by (cases ps1) auto
    have f: "rm_first m1 = Some f" using msg_okD(4) [OF 1(3)] fv by simp
    obtain x where x: "mparts h1 f = Some x" using mpath_dom [OF msg_okD(5) [OF 1(3)], of f] fv by auto
    obtain y where y: "mbufs h1 (mp_part x) = Some y" using part_okD(4) [OF heap_okD(4) [OF 1(2) x]] by blast
    have o1: "rm_first_offset m1 = mp_offset (prt h1 f)" using 1(7) fv by simp
    have "\<exists>m' h'. rwm_push_data_front m (\<lambda>_. d) n h = Some (n, m', h') \<and> mh_fails h' = [] \<and> mholds h' R L m' (take (nat n) d @ b) \<and> mframe h1 R h'"
    proof (cases "mb_refcnt y = 1 \<and> mp_refcnt x = 1")
      case True
      then show ?thesis using front_lock_room_ok [OF mg 3(2) 1(1,2) L1 1(3,5) [unfolded fv] o1 x y _ _ fl 3(1) n(2)] by blast
    next
      case False
      then show ?thesis using front_parts_ok [OF 1(2) L1 1(3,5,7) fl 3(1) n(2)] 3 mg 1(1) f x y by (auto simp: rwm_push_data_front_def)
    qed
    then show ?thesis using frame_trans [OF 1(6)] by blast
  qed
qed

end
