(* ===== verification/MsgStore.thy ===== *)
theory MsgStore
  imports MsgFront
begin

text \<open>
  The raw messages of a program: any sequence of operations on any number of messages, whatever parts and buffers they share,
  acts on each message as on a byte string of its own; no assertion of the code fails and no freed part is used. When the
  last message has been freed, no part and no buffer is left.
\<close>

section \<open>A contract for operations on a store\<close>

fun run_ops :: "('o \<Rightarrow> 's \<Rightarrow> ('r \<times> 's) option) \<Rightarrow> 'o list \<Rightarrow> 's \<Rightarrow> ('r list \<times> 's) option" where
  "run_ops exec [] s = Some ([], s)"
| "run_ops exec (c # cs) s = do { (r, s) \<leftarrow> exec c s; (rs, s) \<leftarrow> run_ops exec cs s; Some (r # rs, s) }"

text \<open>What a sequence of operations may return and leave, and that each of them may be called where it is.\<close>

fun spec_run :: "('o \<Rightarrow> 'a \<Rightarrow> 'r \<Rightarrow> 'a \<Rightarrow> bool) \<Rightarrow> 'o list \<Rightarrow> 'a \<Rightarrow> 'r list \<Rightarrow> 'a \<Rightarrow> bool" where
  "spec_run spec [] a rs a' \<longleftrightarrow> rs = [] \<and> a' = a"
| "spec_run spec (c # cs) a rs a' \<longleftrightarrow> (\<exists>r rs1 a1. rs = r # rs1 \<and> spec c a r a1 \<and> spec_run spec cs a1 rs1 a')"

fun allowed :: "('o \<Rightarrow> 'a \<Rightarrow> bool) \<Rightarrow> ('o \<Rightarrow> 'a \<Rightarrow> 'r \<Rightarrow> 'a \<Rightarrow> bool) \<Rightarrow> 'o list \<Rightarrow> 'a \<Rightarrow> bool" where
  "allowed pre spec [] a \<longleftrightarrow> True"
| "allowed pre spec (c # cs) a \<longleftrightarrow> pre c a \<and> (\<forall>r a'. spec c a r a' \<longrightarrow> allowed pre spec cs a')"

locale store_refinement =
  fixes sim :: "'s \<Rightarrow> 'a \<Rightarrow> bool" and exec :: "'o \<Rightarrow> 's \<Rightarrow> ('r \<times> 's) option" and pre :: "'o \<Rightarrow> 'a \<Rightarrow> bool"
    and spec :: "'o \<Rightarrow> 'a \<Rightarrow> 'r \<Rightarrow> 'a \<Rightarrow> bool"
  assumes step: "sim s a \<Longrightarrow> pre c a \<Longrightarrow> \<exists>r s' a'. exec c s = Some (r, s') \<and> spec c a r a' \<and> sim s' a'"
begin

lemma run:
  assumes "sim s a" "allowed pre spec cs a"
  shows "\<exists>rs s' a'. run_ops exec cs s = Some (rs, s') \<and> spec_run spec cs a rs a' \<and> sim s' a'"
  using assms
proof (induction cs arbitrary: s a)
  case (Cons c cs)
  have "pre c a" using Cons.prems(2) by simp
  then obtain r s1 a1 where 1: "exec c s = Some (r, s1)" "spec c a r a1" "sim s1 a1" using step [OF Cons.prems(1)] by blast
  moreover obtain rs s' a' where "run_ops exec cs s1 = Some (rs, s')" "spec_run spec cs a1 rs a'" "sim s' a'"
    using Cons.IH [OF 1(3)] Cons.prems(2) 1(2) by auto
  ultimately show ?case by auto
qed simp

end

section \<open>Messages in variables\<close>

text \<open>The variables of type \<open>struct raw_message\<close> that are in use, and how many of them refer to a part.\<close>

type_synonym msg_vars = "nat \<Rightarrow> raw_message option"
type_synonym contents = "nat \<Rightarrow> bytes option"

definition refs :: "msg_vars \<Rightarrow> nat \<Rightarrow> nat" where
  "refs ms p = card {v. \<exists>m. ms v = Some m \<and> rm_first m = Some p}"

definition displays :: "msg_heap \<Rightarrow> raw_message \<Rightarrow> bytes \<Rightarrow> bool" where
  "displays h m d \<longleftrightarrow> (\<exists>ps. msg_ok h m ps \<and> wins_bytes h m ps = d)"

definition vars_ok :: "msg_heap \<Rightarrow> msg_vars \<Rightarrow> contents \<Rightarrow> bool" where
  "vars_ok h ms ds \<longleftrightarrow> finite (dom ms) \<and> dom ds = dom ms \<and> (\<forall>v m d. ms v = Some m \<longrightarrow> ds v = Some d \<longrightarrow> displays h m d)"

definition store_ok :: "msg_vars \<times> msg_heap \<Rightarrow> contents \<Rightarrow> bool" where
  "store_ok = (\<lambda>(ms, h) ds. heap_ok h (refs ms) {} \<and> vars_ok h ms ds)"

lemma holds_displays: "mholds h R L m d \<longleftrightarrow> heap_ok h (plus_ref (rm_first m) R) L \<and> displays h m d"
  by (simp add: mholds_def displays_def)

lemma refs_put:
  assumes "finite (dom ms)" "ms v = None"
  shows "refs (ms(v \<mapsto> m)) = plus_ref (rm_first m) (refs ms)"
proof
  fix p
  let ?S = "{v. \<exists>m. ms v = Some m \<and> rm_first m = Some p}"
  have fin: "finite ?S" using assms(1) by (rule finite_subset [rotated]) auto
  have "{w. \<exists>x. (ms(v \<mapsto> m)) w = Some x \<and> rm_first x = Some p} = (if rm_first m = Some p then insert v ?S else ?S)"
    using assms(2) by auto
  moreover have "v \<notin> ?S" using assms(2) by simp
  ultimately show "refs (ms(v \<mapsto> m)) p = plus_ref (rm_first m) (refs ms) p"
    using fin by (auto simp: refs_def plus_ref_def split: option.split)
qed

lemma refs_pos: "finite (dom ms) \<Longrightarrow> ms v = Some m \<Longrightarrow> rm_first m = Some p \<Longrightarrow> refs ms p > 0"
  by (auto simp: refs_def card_gt_0_iff intro: finite_subset [of _ "dom ms"])

lemma refs_take:
  assumes "finite (dom ms)" "ms v = Some m"
  shows "refs ms = plus_ref (rm_first m) (refs (ms(v := None)))"
proof -
  have "ms = (ms(v := None))(v \<mapsto> m)" using assms(2) by (auto simp: fun_eq_iff)
  then show ?thesis using refs_put [of "ms(v := None)" v m] assms(1) by auto
qed

lemma vars_frame:
  assumes V: "vars_ok h ms ds" and H: "heap_ok h R L" and F: "mframe h (refs ms) h'"
  shows "vars_ok h' ms ds"
proof -
  have fin: "finite (dom ms)" using V by (simp add: vars_ok_def)
  have "displays h' m d" if "ms v = Some m" "displays h m d" for v m d
    using frame_msg [OF H F] refs_pos [OF fin that(1)] that(2) unfolding displays_def by blast
  then show ?thesis using V unfolding vars_ok_def by blast
qed

lemma vars_put: "vars_ok h ms ds \<Longrightarrow> displays h m d \<Longrightarrow> vars_ok h (ms(v \<mapsto> m)) (ds(v \<mapsto> d))"
  by (simp add: vars_ok_def)

lemma vars_drop: "vars_ok h ms ds \<Longrightarrow> vars_ok h (ms(v := None)) (ds(v := None))"
  by (auto simp: vars_ok_def)

lemma store_take:
  assumes S: "store_ok (ms, h) ds" and v: "ds v = Some d"
  shows "\<exists>m. ms v = Some m \<and> mholds h (refs (ms(v := None))) {} m d \<and> vars_ok h (ms(v := None)) (ds(v := None)) \<and>
    heap_ok h (refs ms) {}"
proof -
  have V: "vars_ok h ms ds" and H: "heap_ok h (refs ms) {}" using S by (simp_all add: store_ok_def)
  have "v \<in> dom ms" using V v by (auto simp: vars_ok_def)
  then obtain m where m: "ms v = Some m" by blast
  have "displays h m d" using V m v by (simp add: vars_ok_def)
  then show ?thesis using m H refs_take [of ms v m] V vars_drop [OF V, of v] by (auto simp: holds_displays vars_ok_def)
qed

text \<open>What an operation on one message gives back.\<close>

lemma store_put:
  assumes V: "vars_ok h ms ds" "ms v = None" and H: "heap_ok h R0 L0" and F: "mframe h (refs ms) h'" and m: "mholds h' (refs ms) {} m d"
  shows "store_ok (ms(v \<mapsto> m), h') (ds(v \<mapsto> d))"
  using vars_put [OF vars_frame [OF V(1) H F], of m d v] m refs_put [of ms v m] V by (simp add: store_ok_def holds_displays vars_ok_def)

lemma store_put2:
  assumes V: "vars_ok h ms ds" "ms v = None" "ms w = None" "v \<noteq> w" and H: "heap_ok h R0 L0" and F: "mframe h (refs ms) h'"
    and m: "mholds h' (plus_ref (rm_first m2) (refs ms)) {} m1 d1" "displays h' m2 d2"
  shows "store_ok (ms(v \<mapsto> m1, w \<mapsto> m2), h') (ds(v \<mapsto> d1, w \<mapsto> d2))"
proof -
  have fin: "finite (dom ms)" using V(1) by (simp add: vars_ok_def)
  have "refs (ms(v \<mapsto> m1, w \<mapsto> m2)) = plus_ref (rm_first m1) (plus_ref (rm_first m2) (refs ms))"
    using refs_put [of "ms(v \<mapsto> m1)" w m2] refs_put [OF fin V(2), of m1] fin V(3,4) by (simp add: plus_ref_commute)
  then show ?thesis using vars_put [OF vars_put [OF vars_frame [OF V(1) H F]], of m1 d1 m2 d2] m by (simp add: store_ok_def holds_displays)
qed

section \<open>The operations\<close>

text \<open>An operation names the variables that hold its messages.\<close>

datatype msg_op = Create nat bytes | Clone nat nat | Free nat | Clear nat | Fetch nat int | Skip nat int | Lookup nat int | Fetch_Back nat int
  | Trunc nat int | Push nat bytes | Split nat nat int | Split_Head nat nat int | Union nat nat

definition on_msg :: "nat \<Rightarrow> (raw_message \<Rightarrow> msg_heap \<Rightarrow> (int \<times> bytes \<times> raw_message \<times> msg_heap) option) \<Rightarrow> msg_vars \<times> msg_heap \<Rightarrow>
    ((int \<times> bytes) \<times> msg_vars \<times> msg_heap) option" where
  "on_msg v f = (\<lambda>(ms, h). do { m \<leftarrow> ms v; (r, d, m, h) \<leftarrow> f m h; Some ((r, d), ms(v \<mapsto> m), h) })"

fun msg_exec :: "msg_op \<Rightarrow> msg_vars \<times> msg_heap \<Rightarrow> ((int \<times> bytes) \<times> msg_vars \<times> msg_heap) option" where
  "msg_exec (Create v d) (ms, h) = do { (r, m, h) \<leftarrow> rwm_create (Some d) (int (length d)) h; Some ((r, []), ms(v \<mapsto> m), h) }"
| "msg_exec (Clone w v) (ms, h) = do { m \<leftarrow> ms v; (c, h) \<leftarrow> rwm_clone m h; Some ((0, []), ms(w \<mapsto> c), h) }"
| "msg_exec (Free v) (ms, h) = do { m \<leftarrow> ms v; (r, m, h) \<leftarrow> rwm_free m h; Some ((0, []), ms(v := None), h) }"
| "msg_exec (Clear v) s = on_msg v (\<lambda>m h. do { (m, h) \<leftarrow> rwm_clear m h; Some (0, [], m, h) }) s"
| "msg_exec (Fetch v n) s = on_msg v (\<lambda>m h. do { (r, m, d, h) \<leftarrow> rwm_fetch_data m n h; Some (r, d, m, h) }) s"
| "msg_exec (Skip v n) s = on_msg v (\<lambda>m h. do { (r, m, d, h) \<leftarrow> rwm_skip_data m n h; Some (r, d, m, h) }) s"
| "msg_exec (Lookup v n) s = on_msg v (\<lambda>m h. do { (r, m, d, h) \<leftarrow> rwm_fetch_lookup m n h; Some (r, d, m, h) }) s"
| "msg_exec (Fetch_Back v n) s = on_msg v (\<lambda>m h. do { (r, m, d, h) \<leftarrow> rwm_fetch_data_back m n h; Some (r, d, m, h) }) s"
| "msg_exec (Trunc v n) s = on_msg v (\<lambda>m h. do { (r, m, h) \<leftarrow> rwm_trunc m n h; Some (r, [], m, h) }) s"
| "msg_exec (Push v d) s = on_msg v (\<lambda>m h. do { (r, m, h) \<leftarrow> rwm_push_data m (Some d) (int (length d)) h; Some (r, [], m, h) }) s"
| "msg_exec (Split v w n) (ms, h) = do { m \<leftarrow> ms v; (r, m, t, h) \<leftarrow> rwm_split m rm_zero n h; Some ((r, []), ms(v \<mapsto> m, w \<mapsto> t), h) }"
| "msg_exec (Split_Head w v n) (ms, h) = do { m \<leftarrow> ms v; (r, t, m, h) \<leftarrow> rwm_split_head m n h; Some ((r, []), ms(w \<mapsto> t, v \<mapsto> m), h) }"
| "msg_exec (Union v w) (ms, h) = do { m \<leftarrow> ms v; t \<leftarrow> ms w; (m, t, h) \<leftarrow> rwm_union m t h; Some ((0, []), ms(v \<mapsto> m, w := None), h) }"

text \<open>
  When an operation may be called. The lengths of messages and the counts are values of type \<^verbatim>\<open>int\<close>: with these conditions no message
  reaches $2^{31}$ bytes, so that the sums and differences of the code do not wrap. A message that is not empty is not split at 0 (the
  section on splitting off nothing shows what happens then).
\<close>

definition c_count :: "int \<Rightarrow> bool" where
  "c_count n \<longleftrightarrow> 0 \<le> n \<and> n < 2 ^ 31"

definition splits_at :: "int \<Rightarrow> bytes option \<Rightarrow> bool" where
  "splits_at n d \<longleftrightarrow> d \<noteq> None \<and> c_count n \<and> (0 < n \<or> the d = [])"

fun msg_pre :: "msg_op \<Rightarrow> contents \<Rightarrow> bool" where
  "msg_pre (Create v d) ds \<longleftrightarrow> ds v = None \<and> length d < 2 ^ 31"
| "msg_pre (Clone w v) ds \<longleftrightarrow> ds v \<noteq> None \<and> ds w = None"
| "msg_pre (Free v) ds \<longleftrightarrow> ds v \<noteq> None"
| "msg_pre (Clear v) ds \<longleftrightarrow> ds v \<noteq> None"
| "msg_pre (Fetch v n) ds \<longleftrightarrow> ds v \<noteq> None \<and> c_count n"
| "msg_pre (Skip v n) ds \<longleftrightarrow> ds v \<noteq> None \<and> c_count n"
| "msg_pre (Lookup v n) ds \<longleftrightarrow> ds v \<noteq> None \<and> c_count n"
| "msg_pre (Fetch_Back v n) ds \<longleftrightarrow> ds v \<noteq> None \<and> c_count n \<and> n \<le> int (length (the (ds v)))"
| "msg_pre (Trunc v n) ds \<longleftrightarrow> ds v \<noteq> None \<and> c_count n"
| "msg_pre (Push v d) ds \<longleftrightarrow> ds v \<noteq> None \<and> length (the (ds v)) + length d < 2 ^ 31"
| "msg_pre (Split v w n) ds \<longleftrightarrow> splits_at n (ds v) \<and> ds w = None"
| "msg_pre (Split_Head w v n) ds \<longleftrightarrow> splits_at n (ds v) \<and> ds w = None"
| "msg_pre (Union v w) ds \<longleftrightarrow> ds v \<noteq> None \<and> ds w \<noteq> None \<and> v \<noteq> w \<and> length (the (ds v)) + length (the (ds w)) < 2 ^ 31"

text \<open>The same on byte strings. New data are appended as far as there is memory for them.\<close>

fun msg_spec :: "msg_op \<Rightarrow> contents \<Rightarrow> int \<times> bytes \<Rightarrow> contents \<Rightarrow> bool" where
  "msg_spec (Create v d) ds (r, out) ds' \<longleftrightarrow> (\<exists>k\<le>length d. r = int k \<and> out = [] \<and> ds' = ds(v \<mapsto> take k d))"
| "msg_spec (Clone w v) ds (r, out) ds' \<longleftrightarrow> r = 0 \<and> out = [] \<and> ds' = ds(w := ds v)"
| "msg_spec (Free v) ds (r, out) ds' \<longleftrightarrow> r = 0 \<and> out = [] \<and> ds' = ds(v := None)"
| "msg_spec (Clear v) ds (r, out) ds' \<longleftrightarrow> r = 0 \<and> out = [] \<and> ds' = ds(v \<mapsto> [])"
| "msg_spec (Fetch v n) ds (r, out) ds' \<longleftrightarrow> r = int (length out) \<and> out = take (nat n) (the (ds v)) \<and> ds' = ds(v \<mapsto> drop (nat n) (the (ds v)))"
| "msg_spec (Skip v n) ds (r, out) ds' \<longleftrightarrow> r = min n (int (length (the (ds v)))) \<and> out = [] \<and> ds' = ds(v \<mapsto> drop (nat n) (the (ds v)))"
| "msg_spec (Lookup v n) ds (r, out) ds' \<longleftrightarrow> r = int (length out) \<and> out = take (nat n) (the (ds v)) \<and> ds' = ds"
| "msg_spec (Fetch_Back v n) ds (r, out) ds' \<longleftrightarrow> r = n \<and> out = drop (length (the (ds v)) - nat n) (the (ds v)) \<and>
     ds' = ds(v \<mapsto> take (length (the (ds v)) - nat n) (the (ds v)))"
| "msg_spec (Trunc v n) ds (r, out) ds' \<longleftrightarrow> r = min n (int (length (the (ds v)))) \<and> out = [] \<and> ds' = ds(v \<mapsto> take (nat n) (the (ds v)))"
| "msg_spec (Push v d) ds (r, out) ds' \<longleftrightarrow> (\<exists>k\<le>length d. r = int k \<and> out = [] \<and> ds' = ds(v \<mapsto> the (ds v) @ take k d))"
| "msg_spec (Split v w n) ds (r, out) ds' \<longleftrightarrow> r = (if n \<le> int (length (the (ds v))) then 0 else -1) \<and> out = [] \<and>
     ds' = ds(v \<mapsto> take (nat n) (the (ds v)), w \<mapsto> drop (nat n) (the (ds v)))"
| "msg_spec (Split_Head w v n) ds (r, out) ds' \<longleftrightarrow> r = (if n \<le> int (length (the (ds v))) then 0 else -1) \<and> out = [] \<and>
     ds' = ds(w \<mapsto> take (nat n) (the (ds v)), v \<mapsto> drop (nat n) (the (ds v)))"
| "msg_spec (Union v w) ds (r, out) ds' \<longleftrightarrow> r = 0 \<and> out = [] \<and> ds' = ds(v \<mapsto> the (ds v) @ the (ds w), w := None)"

text \<open>An operation on one message that keeps its promise on bytes keeps it in a store.\<close>

lemma on_msg_ok:
  assumes S: "store_ok (ms, h) ds" and v: "ds v = Some d"
    and f: "\<And>m R. mholds h R {} m d \<Longrightarrow> \<exists>r out m' h' d'. f m h = Some (r, out, m', h') \<and> P r out d' \<and> mholds h' R {} m' d' \<and> mframe h R h'"
  shows "\<exists>r out s' d'. on_msg v f (ms, h) = Some ((r, out), s') \<and> P r out d' \<and> store_ok s' (ds(v \<mapsto> d'))"
proof -
  obtain m where m: "ms v = Some m" "mholds h (refs (ms(v := None))) {} m d" "vars_ok h (ms(v := None)) (ds(v := None))" "heap_ok h (refs ms) {}"
    using store_take [OF S v] by blast
  obtain r out m' h' d' where r: "f m h = Some (r, out, m', h')" "P r out d'" "mholds h' (refs (ms(v := None))) {} m' d'" "mframe h (refs (ms(v := None))) h'"
    using f [OF m(2)] by blast
  have "(ms(v := None)) v = None" by simp
  from store_put [OF m(3) this m(4) r(4,3)] have "store_ok (ms(v \<mapsto> m'), h') (ds(v \<mapsto> d'))" by simp
  then show ?thesis using m(1) r(1,2) by (auto simp: on_msg_def)
qed

lemma store_none:
  assumes "store_ok (ms, h) ds" "ds v = None"
  shows "ms v = None" "vars_ok h ms ds" "heap_ok h (refs ms) {}"
  using assms by (auto simp: store_ok_def vars_ok_def)

lemma create_ok:
  assumes S: "store_ok (ms, h) ds" and v: "ds v = None"
  shows "\<exists>r s' ds'. msg_exec (Create v d) (ms, h) = Some (r, s') \<and> msg_spec (Create v d) ds r ds' \<and> store_ok s' ds'"
proof -
  note n = store_none [OF S v]
  let ?m = "rm_zero\<lparr>rm_magic := RM_INIT_MAGIC\<rparr>"
  have E: "mholds h (refs ms) {} ?m []" using n(3) by (intro holds_empty) (simp_all add: rm_zero_def)
  obtain k m' h' where r: "rwm_push_data ?m (Some d) (int (length d)) h = Some (int k, m', h')" "k \<le> length d" "mholds h' (refs ms) {} m' (take k d)" "mframe h (refs ms) h'"
    using rwm_push_data_ok [OF E, of d] by auto
  then show ?thesis using store_put [OF n(2,1,3) r(4,3)] by (auto simp: rwm_create_def)
qed

lemma clone_ok:
  assumes S: "store_ok (ms, h) ds" and v: "ds v = Some d" and w: "ds w = None"
  shows "\<exists>r s' ds'. msg_exec (Clone w v) (ms, h) = Some (r, s') \<and> msg_spec (Clone w v) ds r ds' \<and> store_ok s' ds'"
proof -
  obtain m where m: "ms v = Some m" "mholds h (refs (ms(v := None))) {} m d" using store_take [OF S v] by blast
  note n = store_none [OF S w]
  have fin: "finite (dom ms)" using n(2) by (simp add: vars_ok_def)
  obtain h' where h': "rwm_clone m h = Some (m, h')" "mholds h' (refs ms) {} m d" "mframe h (refs ms) h'"
    using rwm_clone_ok [OF m(2)] refs_take [OF fin m(1)] by auto
  have "store_ok (ms(w \<mapsto> m), h') (ds(w \<mapsto> d))" using store_put [OF n(2,1,3) h'(3,2)] .
  then show ?thesis using m(1) h'(1) v by auto
qed

lemma free_ok:
  assumes S: "store_ok (ms, h) ds" and v: "ds v = Some d"
  shows "\<exists>r s' ds'. msg_exec (Free v) (ms, h) = Some (r, s') \<and> msg_spec (Free v) ds r ds' \<and> store_ok s' ds'"
proof -
  obtain m where m: "ms v = Some m" "mholds h (refs (ms(v := None))) {} m d" "vars_ok h (ms(v := None)) (ds(v := None))" "heap_ok h (refs ms) {}"
    using store_take [OF S v] by blast
  obtain n h' where r: "rwm_free m h = Some (n, rm_zero, h')" "heap_ok h' (refs (ms(v := None))) {}" "mframe h (refs (ms(v := None))) h'"
    using rwm_free_ok [OF m(2)] by auto
  have "store_ok (ms(v := None), h') (ds(v := None))" using r(2) vars_frame [OF m(3,4) r(3)] by (simp add: store_ok_def)
  then show ?thesis using m(1) r(1) by auto
qed

lemma split_ok:
  assumes S: "store_ok (ms, h) ds" and v: "ds v = Some d" and w: "ds w = None" and n: "0 < n \<or> n = 0 \<and> d = []"
  shows "\<exists>r s' ds'. msg_exec (Split v w n) (ms, h) = Some (r, s') \<and> msg_spec (Split v w n) ds r ds' \<and> store_ok s' ds'"
proof -
  obtain m where m: "ms v = Some m" "mholds h (refs (ms(v := None))) {} m d" "vars_ok h (ms(v := None)) (ds(v := None))" "heap_ok h (refs ms) {}"
    using store_take [OF S v] by blast
  have vw: "v \<noteq> w" and mw: "(ms(v := None)) w = None" using v w store_none(1) [OF S w] by auto
  let ?R = "refs (ms(v := None))"
  obtain m1 m2 h' where r: "rwm_split m rm_zero n h = Some (if n \<le> int (length d) then 0 else -1, m1, m2, h')"
    "mholds h' (plus_ref (rm_first m2) ?R) {} m1 (take (nat n) d)" "displays h' m2 (drop (nat n) d)" "mframe h ?R h'"
    using rwm_split_ok [OF m(2) n, of rm_zero] unfolding holds_displays by blast
  have "store_ok (ms(v \<mapsto> m1, w \<mapsto> m2), h') (ds(v \<mapsto> take (nat n) d, w \<mapsto> drop (nat n) d))"
    using store_put2 [OF m(3) _ mw vw m(4) r(4,2,3)] by simp
  then show ?thesis using m(1) r(1) v by auto
qed

lemma split_head_ok:
  assumes S: "store_ok (ms, h) ds" and v: "ds v = Some d" and w: "ds w = None" and n: "0 < n \<or> n = 0 \<and> d = []"
  shows "\<exists>r s' ds'. msg_exec (Split_Head w v n) (ms, h) = Some (r, s') \<and> msg_spec (Split_Head w v n) ds r ds' \<and> store_ok s' ds'"
proof -
  obtain m where m: "ms v = Some m" "mholds h (refs (ms(v := None))) {} m d" "vars_ok h (ms(v := None)) (ds(v := None))" "heap_ok h (refs ms) {}"
    using store_take [OF S v] by blast
  have wv: "w \<noteq> v" and mw: "(ms(v := None)) w = None" "(ms(v := None)) v = None" using v w store_none(1) [OF S w] by auto
  let ?R = "refs (ms(v := None))"
  obtain m1 m2 h' where r: "rwm_split m m n h = Some (if n \<le> int (length d) then 0 else -1, m1, m2, h')"
    "mholds h' (plus_ref (rm_first m2) ?R) {} m1 (take (nat n) d)" "displays h' m2 (drop (nat n) d)" "mframe h ?R h'"
    using rwm_split_ok [OF m(2) n, of m] unfolding holds_displays by blast
  have "rm_live m" using holds_magic [OF m(2)] by (simp add: rm_live_def)
  then have "rwm_split_head m n h = Some (if n \<le> int (length d) then 0 else -1, m1, m2, h')" using r(1) by (simp add: rwm_split_head_def)
  moreover have "store_ok (ms(w \<mapsto> m1, v \<mapsto> m2), h') (ds(w \<mapsto> take (nat n) d, v \<mapsto> drop (nat n) d))"
    using store_put2 [OF m(3) mw wv m(4) r(4,2,3)] wv by (simp add: fun_upd_twist)
  ultimately show ?thesis using m(1) v by auto
qed

lemma union_ok:
  assumes S: "store_ok (ms, h) ds" and v: "ds v = Some d" and w: "ds w = Some e" and vw: "v \<noteq> w"
  shows "\<exists>r s' ds'. msg_exec (Union v w) (ms, h) = Some (r, s') \<and> msg_spec (Union v w) ds r ds' \<and> store_ok s' ds'"
proof -
  obtain m where m: "ms v = Some m" "displays h m d" "vars_ok h (ms(v := None)) (ds(v := None))" "heap_ok h (refs ms) {}"
    using store_take [OF S v] unfolding holds_displays by blast
  obtain t where t: "ms w = Some t" "displays h t e" using store_take [OF S w] unfolding holds_displays by blast
  define rest where "rest = ms(v := None, w := None)"
  have V: "vars_ok h rest (ds(v := None, w := None))" using vars_drop [OF m(3), of w] by (simp add: rest_def)
  have fin: "finite (dom ms)" "finite (dom (ms(v := None)))" using m(3) by (auto simp: vars_ok_def)
  have R: "refs ms = plus_ref (rm_first m) (plus_ref (rm_first t) (refs rest))"
    using refs_take [OF fin(1) m(1)] refs_take [OF fin(2), of w t] t(1) vw by (simp add: rest_def)
  have "mholds h (plus_ref (rm_first t) (refs rest)) {} m d" "mholds h (plus_ref (rm_first m) (refs rest)) {} t e"
    using m(2,4) t(2) R by (simp_all add: holds_displays plus_ref_commute)
  then obtain m' t' h' where r: "rwm_union m t h = Some (m', t', h')" "mholds h' (refs rest) {} m' (d @ e)" "mframe h (refs rest) h'"
    using rwm_union_ok [of h t "refs rest" "{}" m d e] by auto
  have "rest v = None" by (simp add: rest_def)
  from store_put [OF V this m(4) r(3,2)] have "store_ok (rest(v \<mapsto> m'), h') (ds(v := None, w := None, v \<mapsto> d @ e))" .
  moreover have "rest(v \<mapsto> m') = ms(v \<mapsto> m', w := None)" "ds(v := None, w := None, v \<mapsto> d @ e) = ds(v \<mapsto> d @ e, w := None)"
    using vw by (auto simp: rest_def fun_eq_iff)
  ultimately show ?thesis using m(1) t(1) r(1) v w by auto
qed

lemma exec_on_msg:
  assumes S: "store_ok (ms, h) ds" and v: "ds v = Some d"
    and e: "msg_exec c (ms, h) = on_msg v f (ms, h)" and sp: "\<And>r out d'. P r out d' \<Longrightarrow> msg_spec c ds (r, out) (ds(v \<mapsto> d'))"
    and f: "\<And>m R. mholds h R {} m d \<Longrightarrow> \<exists>r out m' h' d'. f m h = Some (r, out, m', h') \<and> P r out d' \<and> mholds h' R {} m' d' \<and> mframe h R h'"
  shows "\<exists>r s' ds'. msg_exec c (ms, h) = Some (r, s') \<and> msg_spec c ds r ds' \<and> store_ok s' ds'"
proof -
  have "\<exists>r out s' d'. on_msg v f (ms, h) = Some ((r, out), s') \<and> P r out d' \<and> store_ok s' (ds(v \<mapsto> d'))"
    using S v f by (rule on_msg_ok)
  then show ?thesis using e sp by fastforce
qed

lemma msg_exec_ok:
  assumes S: "store_ok (ms, h) ds" and p: "msg_pre c ds"
  shows "\<exists>r s' ds'. msg_exec c (ms, h) = Some (r, s') \<and> msg_spec c ds r ds' \<and> store_ok s' ds'"
proof (cases c)
  case (Create v d)
  then show ?thesis using create_ok [OF S] p by auto
next
  case (Clone w v)
  then show ?thesis using clone_ok [OF S] p by auto
next
  case (Free v)
  then show ?thesis using free_ok [OF S] p by auto
next
  case (Clear v)
  then obtain d where d: "ds v = Some d" using p by auto
  show ?thesis unfolding Clear
    by (rule exec_on_msg [OF S d msg_exec.simps(4), where P = "\<lambda>r out d'. r = 0 \<and> out = [] \<and> d' = []"])
      (use rwm_clear_ok [of h _ "{}" _ d] in \<open>fastforce+\<close>)
next
  case (Fetch v n)
  then obtain d where d: "ds v = Some d" "0 \<le> n" using p by (auto simp: c_count_def)
  show ?thesis unfolding Fetch
    by (rule exec_on_msg [OF S d(1) msg_exec.simps(5), where P = "\<lambda>r out d'. r = int (length out) \<and> out = take (nat n) d \<and> d' = drop (nat n) d"])
      (use d rwm_fetch_data_ok [of h _ "{}" _ d n] in \<open>fastforce simp: min_def\<close>)+
next
  case (Skip v n)
  then obtain d where d: "ds v = Some d" "0 \<le> n" using p by (auto simp: c_count_def)
  show ?thesis unfolding Skip
    by (rule exec_on_msg [OF S d(1) msg_exec.simps(6), where P = "\<lambda>r out d'. r = min n (int (length d)) \<and> out = [] \<and> d' = drop (nat n) d"])
      (use d rwm_skip_data_ok [of h _ "{}" _ d n] in \<open>fastforce\<close>)+
next
  case (Lookup v n)
  then obtain d where d: "ds v = Some d" "0 \<le> n" using p by (auto simp: c_count_def)
  have u: "ds(v \<mapsto> d) = ds" using d by auto
  show ?thesis unfolding Lookup
    by (rule exec_on_msg [OF S d(1) msg_exec.simps(7), where P = "\<lambda>r out d'. r = int (length out) \<and> out = take (nat n) d \<and> d' = d"])
      (use d u rwm_fetch_lookup_ok [of h _ "{}" _ d n] in \<open>fastforce simp: min_def\<close>)+
next
  case (Fetch_Back v n)
  then obtain d where d: "ds v = Some d" "0 \<le> n" "n \<le> int (length d)" using p by (auto simp: c_count_def)
  show ?thesis unfolding Fetch_Back
    by (rule exec_on_msg [OF S d(1) msg_exec.simps(8),
        where P = "\<lambda>r out d'. r = n \<and> out = drop (length d - nat n) d \<and> d' = take (length d - nat n) d"])
      (use d rwm_fetch_data_back_ok [of h _ "{}" _ d n] in \<open>fastforce\<close>)+
next
  case (Trunc v n)
  then obtain d where d: "ds v = Some d" "0 \<le> n" using p by (auto simp: c_count_def)
  show ?thesis unfolding Trunc
    by (rule exec_on_msg [OF S d(1) msg_exec.simps(9), where P = "\<lambda>r out d'. r = min n (int (length d)) \<and> out = [] \<and> d' = take (nat n) d"])
      (use d rwm_trunc_ok [of h _ "{}" _ d n] in \<open>fastforce\<close>)+
next
  case (Push v w)
  then obtain d where d: "ds v = Some d" using p by auto
  show ?thesis unfolding Push
    by (rule exec_on_msg [OF S d msg_exec.simps(10), where P = "\<lambda>r out d'. \<exists>k\<le>length w. r = int k \<and> out = [] \<and> d' = d @ take k w"])
      (use d rwm_push_data_ok [of h _ "{}" _ d w] in \<open>fastforce\<close>)+
next
  case (Split v w n)
  then obtain d where v: "ds v = Some d" "ds w = None" using p by (auto simp: splits_at_def)
  have "0 < n \<or> n = 0 \<and> d = []" using p v \<open>c = _\<close> by (auto simp: splits_at_def c_count_def)
  note d = v this
  show ?thesis unfolding Split by (rule split_ok [OF S d])
next
  case (Split_Head w v n)
  then obtain d where v: "ds v = Some d" "ds w = None" using p by (auto simp: splits_at_def)
  have "0 < n \<or> n = 0 \<and> d = []" using p v \<open>c = _\<close> by (auto simp: splits_at_def c_count_def)
  note d = v this
  show ?thesis unfolding Split_Head by (rule split_head_ok [OF S d])
next
  case (Union v w)
  then show ?thesis using union_ok [OF S] p by auto
qed

interpretation raw_messages: store_refinement store_ok msg_exec msg_pre msg_spec
proof unfold_locales
  fix s ds c
  assume "store_ok s ds" "msg_pre c ds"
  then show "\<exists>r s' ds'. msg_exec c s = Some (r, s') \<and> msg_spec c ds r ds' \<and> store_ok s' ds'"
    using msg_exec_ok by (cases s) blast
qed

section \<open>The empty store\<close>

definition empty_heap :: "bool list \<Rightarrow> (nat \<Rightarrow> u8) \<Rightarrow> msg_heap" where
  "empty_heap fails junk = \<lparr>mparts = \<lambda>_. None, mbufs = \<lambda>_. None, mh_fresh = 0, mh_fails = fails, mh_junk = junk\<rparr>"

lemma empty_store: "store_ok (\<lambda>_. None, empty_heap fails junk) (\<lambda>_. None)"
  by (simp add: store_ok_def vars_ok_def heap_ok_def empty_heap_def refs_def dom_def)

text \<open>Following the links backwards from a part that no message refers to never ends.\<close>

lemma long_chain:
  assumes H: "heap_ok h (\<lambda>_. 0) L" and p: "mparts h p \<noteq> None"
  shows "\<exists>q cs. mparts h q \<noteq> None \<and> chain (nxt h) (Some q) cs \<and> n \<le> length cs"
proof (induction n)
  case 0
  then show ?case using H p unfolding heap_ok_def by blast
next
  case (Suc n)
  then obtain q cs where q: "mparts h q \<noteq> None" "chain (nxt h) (Some q) cs" "n \<le> length cs" by blast
  then obtain x where "mparts h q = Some x" by blast
  then have "card (preds h q) > 0" using part_okD(6,7) [OF heap_okD(4) [OF H]] by fastforce
  then obtain r where r: "nxt h r = Some q" by (auto simp: card_gt_0_iff preds_def)
  then have "mparts h r \<noteq> None" by (auto simp: nxt_Some)
  moreover have "chain (nxt h) (Some r) (r # cs)" using q(2) r by simp
  ultimately show ?case using q(3) by fastforce
qed

lemma no_parts:
  assumes H: "heap_ok h (\<lambda>_. 0) L"
  shows "mparts h = (\<lambda>_. None)" "mbufs h = (\<lambda>_. None)"
proof -
  have np: "mparts h p = None" for p
  proof (rule ccontr)
    assume p: "mparts h p \<noteq> None"
    obtain q cs where q: "mparts h q \<noteq> None" "chain (nxt h) (Some q) cs" "card (dom (mparts h)) + 1 \<le> length cs"
      using long_chain [OF H p] by blast
    have "set cs \<subseteq> dom (mparts h)" using chain_in_dom [OF H q(2,1)] by blast
    then have "card (set cs) \<le> card (dom (mparts h))" using heap_okD(1) [OF H] by (rule card_mono [rotated])
    then show False using q(3) distinct_card [OF chain_distinct [OF q(2)]] by simp
  qed
  then show "mparts h = (\<lambda>_. None)" by blast
  have "users h b = {}" for b using np by (simp add: users_def)
  then show "mbufs h = (\<lambda>_. None)" using heap_okD(5) [OF H] by fastforce
qed

section \<open>Programs\<close>

text \<open>The lengths of the messages stay values of type \<^verbatim>\<open>int\<close>.\<close>

definition short :: "contents \<Rightarrow> bool" where
  "short ds \<longleftrightarrow> (\<forall>v d. ds v = Some d \<longrightarrow> length d < 2 ^ 31)"

lemma short_upd: "short ds \<Longrightarrow> length d < 2 ^ 31 \<Longrightarrow> short (ds(v \<mapsto> d))" "short ds \<Longrightarrow> short (ds(v := None))"
  by (simp_all add: short_def)

lemma msg_spec_short:
  assumes S: "short ds" and p: "msg_pre c ds" and r: "msg_spec c ds (r, out) ds'"
  shows "short ds'"
proof -
  have l: "length (take k (the (ds v))) < 2 ^ 31" "length (drop k (the (ds v))) < 2 ^ 31" if "ds v \<noteq> None" for k v
  proof -
    have "length (the (ds v)) < 2 ^ 31" using S that unfolding short_def by auto
    then show "length (take k (the (ds v))) < 2 ^ 31" "length (drop k (the (ds v))) < 2 ^ 31" by (simp_all del: power_numeral_even power_numeral_odd)
  qed
  show ?thesis
  proof (cases c)
    case (Clone w v)
    then obtain d where "ds v = Some d" using p by auto
    then show ?thesis using Clone r short_upd(1) [OF S, of d w] S by (auto simp: short_def)
  next
    case (Create v d)
    then show ?thesis using p r short_upd(1) [OF S] by auto
  next
    case (Push v d)
    then show ?thesis using p r short_upd(1) [OF S] by auto
  next
    case (Union v w)
    then show ?thesis using p r short_upd(2) [OF short_upd(1) [OF S]] by auto
  next
    case (Split v w n)
    then have "ds v \<noteq> None" using p by (simp add: splits_at_def)
    then show ?thesis using Split r short_upd(1) [OF short_upd(1) [OF S]] l [of v "nat n"] by simp
  next
    case (Split_Head w v n)
    then have "ds v \<noteq> None" using p by (simp add: splits_at_def)
    then show ?thesis using Split_Head r short_upd(1) [OF short_upd(1) [OF S]] l [of v "nat n"] by simp
  qed (use p r short_upd [OF S] l S in auto)
qed

lemma run_short:
  assumes "allowed msg_pre msg_spec cs ds" "spec_run msg_spec cs ds rs ds'" "short ds"
  shows "short ds'"
  using assms
proof (induction cs arbitrary: ds rs)
  case (Cons c cs)
  obtain r out rs1 ds1 where c: "msg_spec c ds (r, out) ds1" "spec_run msg_spec cs ds1 rs1 ds'" using Cons.prems(2) by auto
  then show ?case using Cons.IH [of ds1 rs1] Cons.prems(1,3) msg_spec_short [OF Cons.prems(3) _ c(1)] by auto
qed simp

lemma store_total: "store_ok (ms, h) ds \<Longrightarrow> ms v = Some m \<Longrightarrow> \<exists>d. ds v = Some d \<and> rm_total_bytes m = int (length d)"
proof -
  assume S: "store_ok (ms, h) ds" and m: "ms v = Some m"
  then have "v \<in> dom ds" by (auto simp: store_ok_def vars_ok_def)
  then obtain d where d: "ds v = Some d" by blast
  then show ?thesis using store_take [OF S d] m holds_total by auto
qed

text \<open>
  C3. A program that uses raw messages, \<open>cs\<close>, calls the operations with variables that hold a message where they take one and
  that hold none where they make one, and with counts that are not negative; it makes no message of $2^{31}$ bytes or more, and splits
  no message at 0 that is not empty (the code does not handle this). Then it runs to its end,
  whatever \<open>alloc_msg_buffer\<close> answers: no assertion fails and no part is used after it has been freed. Each operation returns
  what it returns on byte strings, and each message stays what its own operations made of it, even though messages share parts and
  buffers. The lengths kept in the messages are those of the strings and are values of type \<^verbatim>\<open>int\<close>.
\<close>

theorem raw_messages_refine:
  assumes "allowed msg_pre msg_spec cs (\<lambda>_. None)"
  shows "\<exists>rs ms h ds. run_ops msg_exec cs (\<lambda>_. None, empty_heap fails junk) = Some (rs, ms, h) \<and>
    spec_run msg_spec cs (\<lambda>_. None) rs ds \<and> store_ok (ms, h) ds \<and>
    (\<forall>v m. ms v = Some m \<longrightarrow> (\<exists>d. ds v = Some d \<and> rm_total_bytes m = int (length d) \<and> rm_total_bytes m < 2 ^ 31))"
proof -
  obtain rs ms h ds where r: "run_ops msg_exec cs (\<lambda>_. None, empty_heap fails junk) = Some (rs, ms, h)"
    "spec_run msg_spec cs (\<lambda>_. None) rs ds" "store_ok (ms, h) ds"
    using raw_messages.run [OF empty_store assms, of fails junk] by auto
  have "short ds" using run_short [OF assms r(2)] by (simp add: short_def)
  then show ?thesis using r store_total [OF r(3)] by (fastforce simp: short_def)
qed

definition sample_ops :: "msg_op list" where
  "sample_ops = [Create 0 [1, 2, 3], Clone 1 0, Split 0 2 1, Split_Head 3 1 2, Free 3, Push 2 [7], Union 1 2, Free 0, Lookup 1 9, Trunc 1 1, Free 1]"

lemma sample_allowed: "allowed msg_pre msg_spec sample_ops (\<lambda>_. None)"
  by (auto simp: sample_ops_def c_count_def splits_at_def)

theorem raw_messages_refine_witness:
  "\<exists>rs ms h ds. run_ops msg_exec sample_ops (\<lambda>_. None, empty_heap [False, True] (\<lambda>_. 0)) = Some (rs, ms, h) \<and>
    spec_run msg_spec sample_ops (\<lambda>_. None) rs ds \<and> store_ok (ms, h) ds \<and>
    (\<forall>v m. ms v = Some m \<longrightarrow> (\<exists>d. ds v = Some d \<and> rm_total_bytes m = int (length d) \<and> rm_total_bytes m < 2 ^ 31))"
  using raw_messages_refine [OF sample_allowed] .

text \<open>A program with one message.\<close>

definition first_msg :: bytes where
  "first_msg = [1, 2, 3]"

lemma one_message:
  "\<exists>m h. msg_exec (Create 0 first_msg) (\<lambda>_. None, empty_heap [] junk) = Some ((3, []), [0 \<mapsto> m], h) \<and>
    store_ok ([0 \<mapsto> m], h) [0 \<mapsto> first_msg] \<and> mh_fails h = [] \<and> (\<exists>p. rm_first m = Some p)"
proof -
  let ?m = "rm_zero\<lparr>rm_magic := RM_INIT_MAGIC\<rparr>" and ?h = "empty_heap [] junk"
  note n = store_none [OF empty_store [of "[]" junk] refl]
  have E: "mholds ?h (refs (\<lambda>_. None)) {} ?m []" using n(3) by (intro holds_empty) (simp_all add: rm_zero_def)
  obtain k m h where r: "rwm_push_data ?m (Some first_msg) (int (length first_msg)) ?h = Some (int k, m, h)" "mh_fails ?h = [] \<longrightarrow> k = length first_msg \<and> mh_fails h = []"
    "mholds h (refs (\<lambda>_. None)) {} m (take k first_msg)" "mframe ?h (refs (\<lambda>_. None)) h"
    using rwm_push_data_ok [OF E empty_subsetI, of first_msg] by auto
  have k: "k = 3" "mh_fails h = []" using r(2) by (simp_all add: empty_heap_def first_msg_def)
  then have "store_ok ([0 \<mapsto> m], h) [0 \<mapsto> first_msg]" using store_put [OF n(2,1,3) r(4,3)] by (simp add: first_msg_def)
  moreover have "rm_first m \<noteq> None" using r(3) k by (auto simp: mholds_def msg_ok_def wins_bytes_def first_msg_def split: if_split_asm)
  ultimately show ?thesis using r(1) k by (auto simp: rwm_create_def first_msg_def)
qed

lemma run_store:
  assumes "allowed msg_pre msg_spec cs (\<lambda>_. None)" "run_ops msg_exec cs (\<lambda>_. None, empty_heap fails junk) = Some (rs, s)"
  shows "\<exists>ds. store_ok s ds"
  using raw_messages.run [OF empty_store [of fails junk] assms(1)] assms(2) by auto

lemma store_parts:
  assumes S: "store_ok (ms, h) ds" and x: "mparts h p = Some x"
  shows "mp_refcnt x = int (refs ms p + card (preds h p)) \<and> mp_refcnt x > 0 \<and> \<not> mp_locked x \<and>
    (\<exists>b. mbufs h (mp_part x) = Some b \<and> mb_refcnt b = int (card (users h (mp_part x))) \<and> 0 \<le> mp_offset x \<and> mp_offset x \<le> mp_data_end x \<and> mp_data_end x \<le> buffer_size b)"
proof -
  have H: "heap_ok h (refs ms) {}" using S by (simp add: store_ok_def)
  note P = part_okD [OF heap_okD(4) [OF H x]]
  obtain b where "mbufs h (mp_part x) = Some b" "mp_data_end x \<le> buffer_size b" using P(4) by blast
  then show ?thesis using P heap_okD(5) [OF H] by auto
qed

text \<open>
  C13. However a program has used its messages, within the conditions of \<open>msg_pre\<close> (messages of less than $2^{31}$ bytes, and no split at
  0 of a message that is not empty, which would break this property), the reference count of every part is the number of messages that begin with it and
  of parts that are followed by it, and not 0; no lock is left behind; the data of a part lie in its buffer, and the
  reference count of the buffer is the number of its parts.
\<close>

theorem raw_messages_counts:
  assumes "allowed msg_pre msg_spec cs (\<lambda>_. None)" "run_ops msg_exec cs (\<lambda>_. None, empty_heap fails junk) = Some (rs, ms, h)" "mparts h p = Some x"
  shows "mp_refcnt x = int (refs ms p + card (preds h p)) \<and> mp_refcnt x > 0 \<and> \<not> mp_locked x \<and>
    (\<exists>b. mbufs h (mp_part x) = Some b \<and> mb_refcnt b = int (card (users h (mp_part x))) \<and> 0 \<le> mp_offset x \<and> mp_offset x \<le> mp_data_end x \<and> mp_data_end x \<le> buffer_size b)"
proof -
  obtain ds where "store_ok (ms, h) ds" using run_store [OF assms(1,2)] ..
  then show ?thesis using store_parts assms(3) by blast
qed

lemma first_part: "\<exists>m h p x. run_ops msg_exec [Create 0 first_msg] (\<lambda>_. None, empty_heap [] junk) = Some ([(3, [])], [0 \<mapsto> m], h) \<and>
    rm_first m = Some p \<and> mparts h p = Some x"
proof -
  obtain m h p where m: "msg_exec (Create 0 first_msg) (\<lambda>_. None, empty_heap [] junk) = Some ((3, []), [0 \<mapsto> m], h)"
    "store_ok ([0 \<mapsto> m], h) [0 \<mapsto> first_msg]" "rm_first m = Some p"
    using one_message [of junk] by auto
  then have "refs [0 \<mapsto> m] p > 0" by (intro refs_pos [of _ 0 m]) auto
  then have "mparts h p \<noteq> None" using m(2) by (auto simp: store_ok_def heap_ok_def)
  then show ?thesis using m by auto
qed

theorem raw_messages_counts_witness:
  "\<exists>m h p x. run_ops msg_exec [Create 0 first_msg] (\<lambda>_. None, empty_heap [] (\<lambda>_. 0)) = Some ([(3, [])], [0 \<mapsto> m], h) \<and> mparts h p = Some x \<and>
    mp_refcnt x = int (refs [0 \<mapsto> m] p + card (preds h p)) \<and> \<not> mp_locked x"
proof -
  obtain m h p x where r: "run_ops msg_exec [Create 0 first_msg] (\<lambda>_. None, empty_heap [] (\<lambda>_. 0)) = Some ([(3, [])], [0 \<mapsto> m], h)" "mparts h p = Some x"
    using first_part by blast
  have "allowed msg_pre msg_spec [Create 0 first_msg] (\<lambda>_. None)" by (simp add: first_msg_def)
  from raw_messages_counts [OF this r] show ?thesis using r by blast
qed

text \<open>
  C12. When a program that keeps to the conditions of \<open>msg_pre\<close> has freed all its messages, every part and every buffer has been freed.
\<close>

theorem raw_messages_no_leak:
  assumes "allowed msg_pre msg_spec cs (\<lambda>_. None)" "run_ops msg_exec cs (\<lambda>_. None, empty_heap fails junk) = Some (rs, \<lambda>_. None, h)"
  shows "mparts h = (\<lambda>_. None) \<and> mbufs h = (\<lambda>_. None)"
proof -
  obtain ds where "store_ok (\<lambda>_. None, h) ds" using run_store [OF assms] ..
  moreover have "refs (\<lambda>_. None) = (\<lambda>_. 0)" by (simp add: refs_def fun_eq_iff)
  ultimately have "heap_ok h (\<lambda>_. 0) {}" by (simp add: store_ok_def)
  then show ?thesis using no_parts by blast
qed

theorem raw_messages_no_leak_witness:
  "\<exists>rs h. run_ops msg_exec sample_ops (\<lambda>_. None, empty_heap [] (\<lambda>_. 0)) = Some (rs, \<lambda>_. None, h) \<and> mparts h = (\<lambda>_. None) \<and> mbufs h = (\<lambda>_. None)"
proof -
  obtain rs ms h ds where r: "run_ops msg_exec sample_ops (\<lambda>_. None, empty_heap [] (\<lambda>_. 0)) = Some (rs, ms, h)" "spec_run msg_spec sample_ops (\<lambda>_. None) rs ds"
    "store_ok (ms, h) ds" using raw_messages.run [OF empty_store sample_allowed] by force
  have "ds = (\<lambda>_. None)" using r(2) by (auto simp: sample_ops_def fun_eq_iff)
  then have "ms = (\<lambda>_. None)" using r(3) by (auto simp: store_ok_def vars_ok_def fun_eq_iff)
  then show ?thesis using raw_messages_no_leak [OF sample_allowed] r(1) by blast
qed

section \<open>Adding data and forking\<close>

lemma store_put_back:
  assumes S: "store_ok (ms, h) ds" and v: "ds v = Some d"
    and f: "\<And>m. ms v = Some m \<Longrightarrow> mholds h (refs (ms(v := None))) {} m d \<Longrightarrow>
      \<exists>m' h' d'. Q m m' h' d' \<and> mholds h' (refs (ms(v := None))) {} m' d' \<and> mframe h (refs (ms(v := None))) h'"
  shows "\<exists>m m' h' d'. ms v = Some m \<and> Q m m' h' d' \<and> store_ok (ms(v \<mapsto> m'), h') (ds(v \<mapsto> d'))"
proof -
  obtain m where m: "ms v = Some m" "mholds h (refs (ms(v := None))) {} m d" "vars_ok h (ms(v := None)) (ds(v := None))" "heap_ok h (refs ms) {}"
    using store_take [OF S v] by blast
  obtain m' h' d' where r: "Q m m' h' d'" "mholds h' (refs (ms(v := None))) {} m' d'" "mframe h (refs (ms(v := None))) h'"
    using f [OF m(1,2)] by blast
  have "(ms(v := None)) v = None" by simp
  from store_put [OF m(3) this m(4) r(3,2)] show ?thesis using m(1) r(1) by auto
qed

text \<open>
  C23. When there is memory, \<open>rwm_push_data\<close> adds all of its data behind the message, and returns their number; no other message
  changes.
\<close>

theorem rwm_push_data_all:
  assumes S: "store_ok (ms, h) ds" and v: "ds v = Some d" and mem: "mh_fails h = []"
  shows "\<exists>m m' h'. ms v = Some m \<and> rwm_push_data m (Some w) (int (length w)) h = Some (int (length w), m', h') \<and>
    store_ok (ms(v \<mapsto> m'), h') (ds(v \<mapsto> d @ w)) \<and> mh_fails h' = []"
proof -
  have "\<exists>m' h' d'. (rwm_push_data m (Some w) (int (length w)) h = Some (int (length w), m', h') \<and> mh_fails h' = [] \<and> d' = d @ w) \<and>
      mholds h' R {} m' d' \<and> mframe h R h'" if "mholds h R {} m d" for m R
    using rwm_push_data_ok [OF that empty_subsetI, of w] mem by auto
  then show ?thesis
    using store_put_back [OF S v, where Q = "\<lambda>m m' h' d'. rwm_push_data m (Some w) (int (length w)) h = Some (int (length w), m', h') \<and> mh_fails h' = [] \<and> d' = d @ w"]
    by auto
qed

theorem rwm_push_data_all_witness:
  "\<exists>ms h m m' h'. mh_fails h = [] \<and> ms 0 = Some m \<and> rwm_push_data m (Some [4, 5]) 2 h = Some (2, m', h') \<and>
    store_ok (ms(0 \<mapsto> m'), h') [0 \<mapsto> first_msg @ [4, 5]]"
proof -
  obtain m h where m: "store_ok ([0 \<mapsto> m], h) [0 \<mapsto> first_msg]" "mh_fails h = []" using one_message by blast
  have v: "[0 \<mapsto> first_msg] 0 = Some first_msg" by simp
  note rwm_push_data_all [of "[0 \<mapsto> m]" h "[0 \<mapsto> first_msg]" 0 first_msg "[4, 5]", OF m(1) v m(2)]
  then obtain m' h' where
    "rwm_push_data m (Some [4, 5]) 2 h = Some (2, m', h')" "store_ok ([0 \<mapsto> m, 0 \<mapsto> m'], h') [0 \<mapsto> first_msg, 0 \<mapsto> first_msg @ [4, 5]]" by auto
  then show ?thesis using m(2)
    by (intro exI [of _ "[0 \<mapsto> m]"] exI [of _ h] exI [of _ m] exI [of _ m'] exI [of _ h']) simp
qed

text \<open>
  C24. When there is memory, \<open>rwm_push_data_front\<close> puts its data before the message: the last bytes into the room before
  its first part if no one else uses it, the others into new parts. No other message changes.
\<close>

theorem rwm_push_data_front_all:
  assumes S: "store_ok (ms, h) ds" and v: "ds v = Some d" and mem: "mh_fails h = []"
  shows "\<exists>m m' h'. ms v = Some m \<and> rwm_push_data_front m (\<lambda>_. w) (int (length w)) h = Some (int (length w), m', h') \<and>
    store_ok (ms(v \<mapsto> m'), h') (ds(v \<mapsto> w @ d)) \<and> mh_fails h' = []"
proof -
  have "\<exists>m' h' d'. (rwm_push_data_front m (\<lambda>_. w) (int (length w)) h = Some (int (length w), m', h') \<and> mh_fails h' = [] \<and> d' = w @ d) \<and>
      mholds h' R {} m' d' \<and> mframe h R h'" if "mholds h R {} m d" for m R
    using rwm_push_data_front_ok [OF that empty_subsetI, of "int (length w)" w] mem by auto
  then show ?thesis
    using store_put_back [OF S v, where Q = "\<lambda>m m' h' d'. rwm_push_data_front m (\<lambda>_. w) (int (length w)) h = Some (int (length w), m', h') \<and> mh_fails h' = [] \<and> d' = w @ d"]
    by auto
qed

theorem rwm_push_data_front_all_witness:
  "\<exists>ms h m m' h'. mh_fails h = [] \<and> ms 0 = Some m \<and> rwm_push_data_front m (\<lambda>_. [4, 5]) 2 h = Some (2, m', h') \<and>
    store_ok (ms(0 \<mapsto> m'), h') [0 \<mapsto> [4, 5] @ first_msg]"
proof -
  obtain m h where m: "store_ok ([0 \<mapsto> m], h) [0 \<mapsto> first_msg]" "mh_fails h = []" using one_message by blast
  have v: "[0 \<mapsto> first_msg] 0 = Some first_msg" by simp
  note rwm_push_data_front_all [of "[0 \<mapsto> m]" h "[0 \<mapsto> first_msg]" 0 first_msg "[4, 5]", OF m(1) v m(2)]
  then obtain m' h' where
    "rwm_push_data_front m (\<lambda>_. [4, 5]) 2 h = Some (2, m', h')" "store_ok ([0 \<mapsto> m, 0 \<mapsto> m'], h') [0 \<mapsto> first_msg, 0 \<mapsto> [4, 5] @ first_msg]" by auto
  then show ?thesis using m(2)
    by (intro exI [of _ "[0 \<mapsto> m]"] exI [of _ h] exI [of _ m] exI [of _ m'] exI [of _ h']) simp
qed

text \<open>
  After \<open>fork_message_chain\<close> a message has the same bytes, in parts that no one else refers to, beginning and
  ending where the message does; no other message changes.
\<close>

theorem fork_message_chain_own:
  assumes S: "store_ok (ms, h) ds" and v: "ds v = Some d"
  shows "\<exists>m res m' h' ps. ms v = Some m \<and> fork_message_chain m h = Some (res, m', h') \<and> store_ok (ms(v \<mapsto> m'), h') ds \<and>
    msg_ok h' m' ps \<and> wins_bytes h' m' ps = d \<and> unshared_msg h' m' ps"
proof -
  have "\<exists>m' h' d'. ((\<exists>res ps. fork_message_chain m h = Some (res, m', h') \<and> msg_ok h' m' ps \<and> wins_bytes h' m' ps = d \<and> unshared_msg h' m' ps) \<and> d' = d) \<and>
      mholds h' R {} m' d' \<and> mframe h R h'" if "mholds h R {} m d" for m R
    using fork_message_chain_ok [OF that empty_subsetI] unfolding mholds_def by blast
  then have "\<exists>m m' h' d'. ms v = Some m \<and>
      ((\<exists>res ps. fork_message_chain m h = Some (res, m', h') \<and> msg_ok h' m' ps \<and> wins_bytes h' m' ps = d \<and> unshared_msg h' m' ps) \<and> d' = d) \<and>
      store_ok (ms(v \<mapsto> m'), h') (ds(v \<mapsto> d'))"
    by (intro store_put_back [OF S v])
  moreover have "ds(v \<mapsto> d) = ds" using v by auto
  ultimately show ?thesis by force
qed

theorem fork_message_chain_own_witness:
  "\<exists>m h res m' h' ps. fork_message_chain m h = Some (res, m', h') \<and> msg_ok h' m' ps \<and> wins_bytes h' m' ps = first_msg \<and> unshared_msg h' m' ps"
proof -
  obtain m h where m: "store_ok ([0 \<mapsto> m], h) [0 \<mapsto> first_msg]" using one_message by blast
  have "[0 \<mapsto> first_msg] 0 = Some first_msg" by simp
  from fork_message_chain_own [OF m this] show ?thesis by blast
qed

section \<open>Splitting off nothing\<close>

text \<open>
  \<open>rwm_split_head\<close> with 0 bytes, on a message of several parts, takes no reference: the head, of length 0, and the rest both keep the
  first part, which is counted once.
\<close>

lemma rwm_split_head_zero:
  assumes "rm_live m" "rm_last m = Some l" "mparts h l = Some y" "rm_last_offset m - mp_offset y < rm_total_bytes m" "0 < rm_total_bytes m"
  shows "rwm_split_head m 0 h = Some (0, m\<lparr>rm_total_bytes := 0\<rparr>, m, h)"
  using assms by (cases m) (simp add: rwm_split_head_def rwm_split_def)

end
