(* ===== verification/CryptoDh.thy ===== *)
theory CryptoDh
  imports RpcFrame
begin

text \<open>
  Key exchange between RPC servers (\<^verbatim>\<open>net/net-crypto-dh.c\<close>). The big numbers of OpenSSL are natural numbers, its
  \<open>BN_mod_exp\<close> is a power modulo the prime, \<open>BN_bin2bn\<close> and \<open>BN_bn2bin\<close> convert from and to big-endian bytes. What \<open>RAND_bytes\<close>
  returns is a list of byte strings of length 256, one for each call.
\<close>

section \<open>Big numbers\<close>

fun BN_bin2bn :: "bytes \<Rightarrow> nat" where
  "BN_bin2bn [] = 0"
| "BN_bin2bn (b # bs) = unat b * 256 ^ length bs + BN_bin2bn bs"

fun BN_num_bytes :: "nat \<Rightarrow> nat" where
  "BN_num_bytes n = (if n = 0 then 0 else Suc (BN_num_bytes (n div 256)))"

fun BN_bn2bin :: "nat \<Rightarrow> bytes" where
  "BN_bn2bin n = (if n = 0 then [] else BN_bn2bin (n div 256) @ [of_nat n])"

declare BN_num_bytes.simps [simp del] BN_bn2bin.simps [simp del]

definition BN_mod_exp :: "nat \<Rightarrow> nat \<Rightarrow> nat \<Rightarrow> nat" where
  "BN_mod_exp a p m = a ^ p mod m"

section \<open>The group\<close>

definition rpc_dh_prime_bin :: bytes where
  "rpc_dh_prime_bin = [
   0x89, 0x52, 0x13, 0x1b, 0x1e, 0x3a, 0x69, 0xba, 0x5f, 0x85, 0xcf, 0x8b, 0xd2, 0x66, 0xc1, 0x2b,
   0x13, 0x83, 0x16, 0x13, 0xbd, 0x2a, 0x4e, 0xf8, 0x35, 0xa4, 0xd5, 0x3f, 0x9d, 0xbb, 0x42, 0x48,
   0x2d, 0xbd, 0x46, 0x2b, 0x31, 0xd8, 0x6c, 0x81, 0x6c, 0x59, 0x77, 0x52, 0x0f, 0x11, 0x70, 0x73,
   0x9e, 0xd2, 0xdd, 0xd6, 0xd8, 0x1b, 0x9e, 0xb6, 0x5f, 0xaa, 0xac, 0x14, 0x87, 0x53, 0xc9, 0xe4,
   0xf0, 0x72, 0xdc, 0x11, 0xa4, 0x92, 0x73, 0x06, 0x83, 0xfa, 0x00, 0x67, 0x82, 0x6b, 0x18, 0xc5,
   0x1d, 0x7e, 0xcb, 0xa5, 0x2b, 0x82, 0x60, 0x75, 0xc0, 0xb9, 0x55, 0xe5, 0xac, 0xaf, 0xdd, 0x74,
   0xc3, 0x79, 0x5f, 0xd9, 0x52, 0x0b, 0x48, 0x0f, 0x3b, 0xe3, 0xba, 0x06, 0x65, 0x33, 0x8a, 0x49,
   0x8c, 0xa5, 0xda, 0xf1, 0x01, 0x76, 0x05, 0x09, 0xa3, 0x8c, 0x49, 0xe3, 0x00, 0x74, 0x64, 0x08,
   0x77, 0x4b, 0xb3, 0xed, 0x26, 0x18, 0x1a, 0x64, 0x55, 0x76, 0x6a, 0xe9, 0x49, 0x7b, 0xb9, 0xc3,
   0xa3, 0xad, 0x5c, 0xba, 0xf7, 0x6b, 0x73, 0x84, 0x5f, 0xbb, 0x96, 0xbb, 0x6d, 0x0f, 0x68, 0x4f,
   0x95, 0xd2, 0xd3, 0x9c, 0xcb, 0xb4, 0xa9, 0x04, 0xfa, 0xb1, 0xde, 0x43, 0x49, 0xce, 0x1c, 0x20,
   0x87, 0xb6, 0xc9, 0x51, 0xed, 0x99, 0xf9, 0x52, 0xe3, 0x4f, 0xd1, 0xa3, 0xfd, 0x14, 0x83, 0x35,
   0x75, 0x41, 0x47, 0x29, 0xa3, 0x8b, 0xe8, 0x68, 0xa4, 0xf9, 0xec, 0x62, 0x3a, 0x5d, 0x24, 0x62,
   0x1a, 0xba, 0x01, 0xb2, 0x55, 0xc7, 0xe8, 0x38, 0x5d, 0x16, 0xac, 0x93, 0xb0, 0x2d, 0x2a, 0x54,
   0x0a, 0x76, 0x42, 0x98, 0x2d, 0x22, 0xad, 0xa3, 0xcc, 0xde, 0x5c, 0x8d, 0x26, 0x6f, 0xaa, 0x25,
   0xdd, 0x2d, 0xe9, 0xf6, 0xd4, 0x91, 0x04, 0x16, 0x2f, 0x68, 0x5c, 0x45, 0xfe, 0x34, 0xdd, 0xab]"

definition RPC_DH_GEN :: nat where "RPC_DH_GEN = 3"
definition RPC_PARAM_HASH :: u32 where "RPC_PARAM_HASH = 0x00620b93"

definition rpc_dh_prime :: nat where
  "rpc_dh_prime = BN_bin2bn rpc_dh_prime_bin"

text \<open>The two loops of \<open>is_good_rpc_dh_bin\<close>.\<close>

fun below_prime :: "bytes \<Rightarrow> bytes \<Rightarrow> bool" where
  "below_prime (d # ds) (p # ps) = (if d > p then False else if d < p then True else below_prime ds ps)"
| "below_prime _ _ = False"

definition is_good_rpc_dh_bin :: "bytes \<Rightarrow> bool option" where
  "is_good_rpc_dh_bin data = do {
     cassert (8 \<le> length data);
     if \<forall>b\<in>set (take 8 data). b = 0 then Some False
     else Some (below_prime (take 8 data) (take 8 rpc_dh_prime_bin)) }"

text \<open>\<open>init_dh_params\<close>: the hash of the parameters, which is asserted to be the known one.\<close>

definition init_dh_params :: "(bytes \<Rightarrow> bytes) \<Rightarrow> u32 \<Rightarrow> u32 option" where
  "init_dh_params sha1 dh_params_select =
     (if dh_params_select \<noteq> 0 then Some dh_params_select
      else do {
        let h = le32 (sha1 (bytes32 3 @ bytes32 0x000100fe @ rpc_dh_prime_bin));
        cassert (h = RPC_PARAM_HASH);
        Some h })"

section \<open>The rounds\<close>

text \<open>A number as 256 bytes, as \<open>create_g_a\<close> and \<open>dh_inner_round\<close> write it.\<close>

definition bn_256 :: "nat \<Rightarrow> bytes option" where
  "bn_256 v = do {
     let len = BN_num_bytes v;
     cassert (len > 240 \<and> len \<le> 256);
     Some (replicate (256 - len) 0 @ BN_bn2bin v) }"

fun create_g_a :: "bytes list \<Rightarrow> (bytes \<times> bytes \<times> bytes list) option" where
  "create_g_a [] = None"
| "create_g_a (a # rnd) = do {
     g_a \<leftarrow> bn_256 (BN_mod_exp RPC_DH_GEN (BN_bin2bn a) rpc_dh_prime);
     good \<leftarrow> is_good_rpc_dh_bin g_a;
     if good then Some (g_a, a, rnd) else create_g_a rnd }"

record crypto_temp_dh_params =
  tmp_dh_params_select :: u32
  tmp_a :: bytes

definition dh_first_round :: "u32 \<Rightarrow> bytes list \<Rightarrow> (bytes \<times> crypto_temp_dh_params \<times> bytes list) option" where
  "dh_first_round dh_params_select rnd = do {
     (g_a, a, rnd) \<leftarrow> create_g_a rnd;
     Some (g_a, \<lparr>tmp_dh_params_select = dh_params_select, tmp_a = a\<rparr>, rnd) }"

definition dh_inner_round :: "bytes \<Rightarrow> bytes \<Rightarrow> bytes option" where
  "dh_inner_round g_b a = bn_256 (BN_mod_exp (BN_bin2bn g_b) (BN_bin2bn a) rpc_dh_prime)"

text \<open>The result is the length of the key with the key and the own part, which are missing when it is 0.\<close>

definition dh_second_round :: "bytes \<Rightarrow> bytes list \<Rightarrow> (int \<times> bytes \<times> bytes \<times> bytes list) option" where
  "dh_second_round g_b rnd = do {
     good \<leftarrow> is_good_rpc_dh_bin g_b;
     if \<not> good then Some (0, [], [], rnd)
     else do {
       (g_a, a, rnd) \<leftarrow> create_g_a rnd;
       g_ab \<leftarrow> dh_inner_round g_b a;
       Some (256, g_ab, g_a, rnd) } }"

definition dh_third_round :: "bytes \<Rightarrow> crypto_temp_dh_params \<Rightarrow> (int \<times> bytes) option" where
  "dh_third_round g_b dh_params = do {
     good \<leftarrow> is_good_rpc_dh_bin g_b;
     if \<not> good then Some (0, [])
     else do {
       g_ab \<leftarrow> dh_inner_round g_b (tmp_a dh_params);
       Some (256, g_ab) } }"

section \<open>Conversions\<close>

lemma bn_0 [simp]: "BN_bn2bin 0 = []" "BN_num_bytes 0 = 0"
  by (simp_all add: BN_bn2bin.simps BN_num_bytes.simps)

lemma bin2bn_append: "BN_bin2bn (xs @ ys) = BN_bin2bn xs * 256 ^ length ys + BN_bin2bn ys"
  by (induction xs) (simp_all add: algebra_simps power_add)

lemma bin2bn_zeros [simp]: "BN_bin2bn (replicate n 0) = 0"
  by (induction n) simp_all

lemma bin2bn_less: "BN_bin2bn bs < 256 ^ length bs"
proof (induction bs)
  case (Cons b bs)
  have "unat b * 256 ^ length bs + BN_bin2bn bs < (unat b + 1) * 256 ^ length bs" using Cons by simp
  also have "\<dots> \<le> 256 * 256 ^ length bs"
    using unat_u8_less [of b] by (intro mult_right_mono) linarith+
  finally show ?case by simp
qed simp

lemma bn2bin_bin2bn [simp]: "BN_bin2bn (BN_bn2bin n) = n"
proof (induction n rule: BN_bn2bin.induct)
  case (1 n)
  have "unat (of_nat n :: u8) = n mod 256" by (simp add: unat_of_nat)
  then show ?case using 1 by (cases "n = 0") (simp_all add: BN_bn2bin.simps [of n] bin2bn_append)
qed

lemma length_bn2bin [simp]: "length (BN_bn2bin n) = BN_num_bytes n"
proof (induction n rule: BN_bn2bin.induct)
  case (1 n)
  then show ?case by (cases "n = 0") (simp_all add: BN_bn2bin.simps [of n] BN_num_bytes.simps [of n])
qed

lemma bn_256_ok:
  assumes "bn_256 v = Some d"
  shows "length d = 256" "BN_bin2bn d = v"
  using assms by (auto simp: bn_256_def Let_def bin2bn_append bind_eq_Some_conv)

lemma create_g_a_ok:
  assumes "create_g_a rnd = Some (g_a, a, rnd')"
  shows "length g_a = 256" "BN_bin2bn g_a = 3 ^ BN_bin2bn a mod rpc_dh_prime" "is_good_rpc_dh_bin g_a = Some True"
  using assms
  by (induction rnd) (auto simp: bind_eq_Some_conv BN_mod_exp_def RPC_DH_GEN_def bn_256_ok split: if_split_asm)

text \<open>Both sides compute the same key.\<close>

lemma same_inner_round:
  assumes a: "create_g_a rnd = Some (g_a, a, rnd')" and b: "create_g_a rnd2 = Some (g_b, b, rnd2')"
  shows "dh_inner_round g_a b = dh_inner_round g_b a"
proof -
  have "(3 ^ x mod m) ^ y mod m = (3 ^ y mod m) ^ x mod m" for x y m :: nat
    by (simp add: power_mod power_mult [symmetric] mult.commute)
  then show ?thesis using create_g_a_ok(2) [OF a] create_g_a_ok(2) [OF b] by (simp add: dh_inner_round_def BN_mod_exp_def)
qed

lemma dh_agree:
  assumes "dh_first_round sel rnd = Some (g_a, t, rnd')" "dh_second_round g_a rnd2 = Some (n, k, g_b, rnd2')"
  shows "n = 256 \<and> dh_third_round g_b t = Some (256, k) \<and> length g_a = 256 \<and> length g_b = 256 \<and> length k = 256"
proof -
  obtain a where a: "create_g_a rnd = Some (g_a, a, rnd')" "tmp_a t = a" using assms(1) by (auto simp: dh_first_round_def bind_eq_Some_conv)
  obtain b where b: "create_g_a rnd2 = Some (g_b, b, rnd2')" "dh_inner_round g_a b = Some k" "n = 256"
    using assms(2) create_g_a_ok(3) [OF a(1)] by (auto simp: dh_second_round_def bind_eq_Some_conv)
  have k: "dh_inner_round g_b a = Some k" using same_inner_round [OF a(1) b(1)] b(2) by simp
  have "length k = 256" using b(2) by (auto simp: dh_inner_round_def dest: bn_256_ok)
  then show ?thesis
    using create_g_a_ok(1,3) [OF b(1)] create_g_a_ok(1) [OF a(1)] k a(2) b(3) by (simp add: dh_third_round_def)
qed

end
