(* ===== verification/AesKeys.thy ===== *)
theory AesKeys
  imports RpcFrame
begin

text \<open>
  Keys of encrypted connections between RPC servers (\<^verbatim>\<open>net/net-crypto-aes.c\<close>, \<open>select_best_key_signature\<close> of
  \<^verbatim>\<open>net/net-config.c\<close>). The hash functions are parameters. Theorem: the two sides of a connection derive the same keys, each the
  one for writing that the other has for reading.
\<close>

section \<open>The secret\<close>

definition MIN_PWD_LEN :: nat where "MIN_PWD_LEN = 32"
definition MAX_PWD_LEN :: nat where "MAX_PWD_LEN = 256"

text \<open>The first \<open>secret_len\<close> bytes of \<open>secret\<close>; the rest of the array is 0. The signature is its first integer.\<close>

record aes_secret =
  as_secret :: bytes

definition key_signature :: "aes_secret \<Rightarrow> u32" where
  "key_signature s = le32 (as_secret s @ [0, 0, 0, 0])"

definition get_crypto_key_id :: "aes_secret \<Rightarrow> u32" where
  "get_crypto_key_id main_secret = (if length (as_secret main_secret) \<ge> 4 then key_signature main_secret else 0)"

definition is_valid_crypto_key_id :: "aes_secret \<Rightarrow> u32 \<Rightarrow> bool" where
  "is_valid_crypto_key_id main_secret x \<longleftrightarrow> x \<noteq> 0 \<and> x = key_signature main_secret \<and> length (as_secret main_secret) \<ge> 4"

definition select_best_key_signature :: "aes_secret \<Rightarrow> u32 \<Rightarrow> u32 list \<Rightarrow> u32 option" where
  "select_best_key_signature main_secret sig extra = do {
     cassert (length extra \<le> 16);
     if length (as_secret main_secret) < 4 then Some 0
     else if key_signature main_secret = sig then Some sig
     else if key_signature main_secret \<in> set extra then Some (key_signature main_secret)
     else Some 0 }"

section \<open>Deriving the keys\<close>

record aes_key_data =
  read_key :: bytes
  read_iv :: bytes
  write_key :: bytes
  write_iv :: bytes

definition bytes16 :: "u16 \<Rightarrow> bytes" where
  "bytes16 w = [ucast w, ucast (drop_bit 8 w)]"

text \<open>The loops that mix in the temporary key.\<close>

fun xor_pad :: "bytes \<Rightarrow> bytes \<Rightarrow> bytes" where
  "xor_pad [] t = t"
| "xor_pad s [] = s"
| "xor_pad (a # s) (b # t) = (a XOR b) # xor_pad s t"

definition role_name :: "bool \<Rightarrow> bytes" where
  "role_name am_client = (if am_client then [0x43, 0x4c, 0x49, 0x45, 0x4e, 0x54] else [0x53, 0x45, 0x52, 0x56, 0x45, 0x52])"

definition swap_role :: "bytes \<Rightarrow> bytes" where
  "swap_role str = take 42 str @
     map2 (XOR) (take 6 (drop 42 str)) [0x43 XOR 0x53, 0x4c XOR 0x45, 0x49 XOR 0x52, 0x45 XOR 0x56, 0x4e XOR 0x45, 0x54 XOR 0x52] @ drop 48 str"

text \<open>An IPv4 or an IPv6 address (the former is not 0) and a port.\<close>

record host =
  h_ip :: u32
  h_ipv6 :: bytes
  h_port :: u16

definition key_string :: "bool \<Rightarrow> bytes \<Rightarrow> bytes \<Rightarrow> u32 \<Rightarrow> host \<Rightarrow> host \<Rightarrow> bytes \<Rightarrow> bytes \<Rightarrow> bytes option" where
  "key_string am_client nonce_server nonce_client client_timestamp server client secret temp_key = do {
     let str = nonce_server @ nonce_client @ bytes32 client_timestamp @ bytes32 (h_ip server) @ bytes16 (h_port client) @
       role_name am_client @ bytes32 (h_ip client) @ bytes16 (h_port server) @ secret @ nonce_server;
     str \<leftarrow> (if h_ip server = 0 then do { cassert (h_ip client = 0); Some (str @ h_ipv6 client @ h_ipv6 server) }
       else do { cassert (h_ip client \<noteq> 0); Some str });
     Some (xor_pad (str @ nonce_client) (take 634 temp_key)) }"

definition key_of :: "(bytes \<Rightarrow> bytes) \<Rightarrow> (bytes \<Rightarrow> bytes) \<Rightarrow> bytes \<Rightarrow> bytes" where
  "key_of md5 sha1 str = take 12 (md5 (drop 1 str)) @ sha1 str"

text \<open>\<open>aes_create_keys\<close>: \<open>Inl\<close> for the result -1.\<close>

definition aes_create_keys :: "(bytes \<Rightarrow> bytes) \<Rightarrow> (bytes \<Rightarrow> bytes) \<Rightarrow> bool \<Rightarrow> bytes \<Rightarrow> bytes \<Rightarrow> u32 \<Rightarrow> host \<Rightarrow> host \<Rightarrow> aes_secret \<Rightarrow> bytes \<Rightarrow>
    (int + aes_key_data) option" where
  "aes_create_keys md5 sha1 am_client nonce_server nonce_client client_timestamp server client key temp_key =
     (if as_secret key = [] then Some (Inl (-1))
      else do {
        cassert (MIN_PWD_LEN \<le> length (as_secret key) \<and> length (as_secret key) \<le> MAX_PWD_LEN);
        cassert (length nonce_server = 16 \<and> length nonce_client = 16);
        str \<leftarrow> key_string am_client nonce_server nonce_client client_timestamp server client (as_secret key) temp_key;
        let str' = swap_role str;
        Some (Inr \<lparr>read_key = key_of md5 sha1 str', read_iv = md5 (drop 2 str'), write_key = key_of md5 sha1 str, write_iv = md5 (drop 2 str)\<rparr>) })"

section \<open>Both sides have the same keys\<close>

lemma length_xor_pad [simp]: "length (xor_pad s t) = max (length s) (length t)"
  by (induction s t rule: xor_pad.induct) simp_all

lemma nth_xor_pad:
  "i < length s \<Longrightarrow> xor_pad s t ! i = (if i < length t then s ! i XOR t ! i else s ! i)"
  "length s \<le> i \<Longrightarrow> i < length t \<Longrightarrow> xor_pad s t ! i = t ! i"
  by (induction s t arbitrary: i rule: xor_pad.induct) (auto simp: nth_Cons')

lemma role_swap: "map2 (XOR) (role_name b) [0x43 XOR 0x53, 0x4c XOR 0x45, 0x49 XOR 0x52, 0x45 XOR 0x56, 0x4e XOR 0x45, 0x54 XOR 0x52] = role_name (\<not> b)"
  by (simp add: role_name_def)

lemma length_role [simp]: "length (role_name b) = 6"
  by (simp add: role_name_def)

lemma swap_role_xor:
  assumes "length a = 42"
  shows "swap_role (xor_pad (a @ role_name b @ c) t) = xor_pad (a @ role_name (\<not> b) @ c) t"
proof (rule nth_equalityI)
  show "length (swap_role (xor_pad (a @ role_name b @ c) t)) = length (xor_pad (a @ role_name (\<not> b) @ c) t)"
    using assms by (simp add: swap_role_def)
next
  fix i
  assume i: "i < length (swap_role (xor_pad (a @ role_name b @ c) t))"
  let ?m = "[0x43 XOR 0x53, 0x4c XOR 0x45, 0x49 XOR 0x52, 0x45 XOR 0x56, 0x4e XOR 0x45, 0x54 XOR 0x52] :: u8 list"
  let ?s = "xor_pad (a @ role_name b @ c) t"
  have len: "48 \<le> length ?s" using assms by simp
  have "i < 42 \<or> i = 42 + (i - 42) \<and> i - 42 < 6 \<or> 48 \<le> i" by linarith
  then consider "i < 42" | j where "i = 42 + j" "j < 6" | "48 \<le> i" by blast
  then show "swap_role ?s ! i = xor_pad (a @ role_name (\<not> b) @ c) t ! i"
  proof cases
    case 1
    then show ?thesis using len assms by (simp add: swap_role_def nth_append nth_xor_pad)
  next
    case (2 j)
    have r: "role_name (\<not> b) ! j = role_name b ! j XOR ?m ! j" using 2(2) arg_cong [OF role_swap [of b], of "\<lambda>xs. xs ! j"] by simp
    show ?thesis using len assms 2 r by (simp add: swap_role_def nth_append nth_xor_pad xor.assoc xor.commute xor.left_commute)
  next
    case 3
    have il: "i < length ?s" using i len by (simp add: swap_role_def)
    have "swap_role ?s ! i = ?s ! i" using 3 len il by (auto simp: swap_role_def nth_append)
    moreover have "?s ! i = xor_pad (a @ role_name (\<not> b) @ c) t ! i"
    proof (cases "i < 48 + length c")
      case True
      then show ?thesis using 3 assms by (auto simp: nth_xor_pad nth_append)
    next
      case False
      then show ?thesis using il assms by (simp add: nth_xor_pad)
    qed
    ultimately show ?thesis by simp
  qed
qed

lemma length_bytes16 [simp]: "length (bytes16 w) = 2"
  by (simp add: bytes16_def)

lemma key_string_swap:
  assumes "length nonce_server = 16" "length nonce_client = 16"
  shows "key_string (\<not> b) nonce_server nonce_client ts server client sec tk = map_option swap_role (key_string b nonce_server nonce_client ts server client sec tk)"
proof -
  let ?a = "nonce_server @ nonce_client @ bytes32 ts @ bytes32 (h_ip server) @ bytes16 (h_port client)"
  have a: "length ?a = 42" using assms by simp
  show ?thesis using swap_role_xor [OF a, of b] by (cases "h_ip server = 0") (simp_all add: key_string_def cassert_def)
qed

lemma aes_keys_match:
  assumes "aes_create_keys md5 sha1 b ns nc ts server client key tk = Some (Inr k)"
  shows "aes_create_keys md5 sha1 (\<not> b) ns nc ts server client key tk =
    Some (Inr \<lparr>read_key = write_key k, read_iv = write_iv k, write_key = read_key k, write_iv = read_iv k\<rparr>)"
proof -
  have g: "as_secret key \<noteq> []" "MIN_PWD_LEN \<le> length (as_secret key)" "length (as_secret key) \<le> MAX_PWD_LEN" "length ns = 16" "length nc = 16"
    using assms by (auto simp: aes_create_keys_def bind_eq_Some_conv split: if_split_asm)
  obtain str where s: "key_string b ns nc ts server client (as_secret key) tk = Some str"
    "k = \<lparr>read_key = key_of md5 sha1 (swap_role str), read_iv = md5 (drop 2 (swap_role str)), write_key = key_of md5 sha1 str, write_iv = md5 (drop 2 str)\<rparr>"
    using assms g by (auto simp: aes_create_keys_def bind_eq_Some_conv Let_def)
  have s': "key_string (\<not> b) ns nc ts server client (as_secret key) tk = Some (swap_role str)" using key_string_swap [OF g(4,5), of b] s(1) by simp
  then have "swap_role (swap_role str) = str" using key_string_swap [OF g(4,5), of "\<not> b"] s(1) by simp
  then show ?thesis using g s s' by (simp add: aes_create_keys_def Let_def)
qed

end
