(* ===== verification/RpcPeer.thy ===== *)
theory RpcPeer
  imports RpcFrame CryptoDh AesKeys
begin

text \<open>
  Connections between RPC servers: identifiers of processes (\<^verbatim>\<open>common/pid.c\<close>), the state of a connection and the sending of packets
  (\<^verbatim>\<open>net/net-tcp-rpc-common.c\<close>). The client and the server side of the handshake are in \<open>RpcClient\<close> and \<open>RpcServer\<close>.

  What is the same for all connections of a process, times, random numbers, checksums and hashes are the fields of an
  environment.
\<close>

section \<open>Process identifiers\<close>

record process_id =
  pid_ip :: u32
  pid_port :: u16
  pid_pid :: u16
  pid_utime :: u32

definition no_pid :: process_id where
  "no_pid = \<lparr>pid_ip = 0, pid_port = 0, pid_pid = 0, pid_utime = 0\<rparr>"

definition init_common_PID :: "u32 \<Rightarrow> u32 \<Rightarrow> process_id \<Rightarrow> process_id" where
  "init_common_PID p time PID =
     (let PID = (if pid_pid PID = 0 then
                   let pid16 = ucast (p AND 0xffff) XOR ucast (drop_bit 16 p)
                   in PID\<lparr>pid_pid := (if pid16 \<noteq> 0 then pid16 else 1)\<rparr>
                 else PID)
      in if pid_utime PID = 0 then PID\<lparr>pid_utime := time\<rparr> else PID)"

definition init_client_PID :: "u32 \<Rightarrow> u32 \<Rightarrow> u32 \<Rightarrow> process_id \<Rightarrow> process_id" where
  "init_client_PID p time ip PID =
     init_common_PID p time (if ip \<noteq> 0 \<and> ip \<noteq> 0x7f000001 then PID\<lparr>pid_ip := ip\<rparr> else PID)"

definition init_server_PID :: "u32 \<Rightarrow> u32 \<Rightarrow> u32 \<Rightarrow> u16 \<Rightarrow> process_id \<Rightarrow> process_id" where
  "init_server_PID p time ip port PID =
     (let PID = (if ip \<noteq> 0 \<and> ip \<noteq> 0x7f000001 then PID\<lparr>pid_ip := ip\<rparr> else PID)
      in init_common_PID p time (if pid_port PID = 0 then PID\<lparr>pid_port := port\<rparr> else PID))"

definition matches_pid :: "process_id \<Rightarrow> process_id \<Rightarrow> int" where
  "matches_pid X Y =
     (if X = Y then 2
      else if (pid_ip Y = 0 \<or> pid_ip X = pid_ip Y) \<and> (pid_port Y = 0 \<or> pid_port X = pid_port Y) \<and>
              (pid_pid Y = 0 \<or> pid_pid X = pid_pid Y) \<and> (pid_utime Y = 0 \<or> pid_utime X = pid_utime Y) then 1
      else 0)"

definition process_id_is_newer :: "process_id \<Rightarrow> process_id \<Rightarrow> bool option" where
  "process_id_is_newer a b = do {
     cassert (pid_ip a = pid_ip b \<and> pid_port a = pid_port b);
     if sint (pid_utime a) < sint (pid_utime b) then Some False
     else if sint (pid_utime a) > sint (pid_utime b) then Some True
     else let x = (ucast (pid_pid a) - ucast (pid_pid b) :: u32) AND 0x7fff in Some (x \<noteq> 0 \<and> x \<le> 0x3fff) }"

section \<open>Packets of the handshake\<close>

definition RPC_NONCE :: u32 where "RPC_NONCE = 0x7acb87aa"
definition RPC_HANDSHAKE :: u32 where "RPC_HANDSHAKE = 0x7682eef5"
definition RPC_HANDSHAKE_ERROR :: u32 where "RPC_HANDSHAKE_ERROR = 0x6a27beda"
definition RPC_CRYPTO_NONE :: u32 where "RPC_CRYPTO_NONE = 0"
definition RPC_CRYPTO_AES :: u32 where "RPC_CRYPTO_AES = 1"
definition RPC_CRYPTO_AES_EXT :: u32 where "RPC_CRYPTO_AES_EXT = 2"
definition RPC_CRYPTO_AES_DH :: u32 where "RPC_CRYPTO_AES_DH = 3"
definition RPC_MAX_EXTRA_KEYS :: nat where "RPC_MAX_EXTRA_KEYS = 8"

text \<open>Bits of \<open>crypto_flags\<close>.\<close>

definition RPCF_ALLOW_UNENC :: u32 where "RPCF_ALLOW_UNENC = 1"
definition RPCF_ALLOW_ENC :: u32 where "RPCF_ALLOW_ENC = 2"
definition RPCF_REQ_DH :: u32 where "RPCF_REQ_DH = 4"
definition RPCF_ALLOW_SKIP_DH :: u32 where "RPCF_ALLOW_SKIP_DH = 8"
definition RPCF_ENC_SENT :: u32 where "RPCF_ENC_SENT = 16"
definition RPCF_SEQNO_HOLES :: u32 where "RPCF_SEQNO_HOLES = 256"
definition RPCF_QUICKACK :: u32 where "RPCF_QUICKACK = 512"
definition RPCF_USE_CRC32C :: u32 where "RPCF_USE_CRC32C = 2048"

lemmas rpcf_defs = RPCF_ALLOW_UNENC_def RPCF_ALLOW_ENC_def RPCF_REQ_DH_def RPCF_ALLOW_SKIP_DH_def RPCF_ENC_SENT_def
  RPCF_SEQNO_HOLES_def RPCF_QUICKACK_def RPCF_USE_CRC32C_def

lemmas rpc_crypto_defs = RPC_CRYPTO_NONE_def RPC_CRYPTO_AES_def RPC_CRYPTO_AES_EXT_def RPC_CRYPTO_AES_DH_def

text \<open>
  A nonce packet of any of the three sizes. In the short form \<open>np_extra\<close> is empty and \<open>np_dh\<close> missing.
\<close>

record nonce_packet =
  np_key_select :: u32
  np_crypto_schema :: u32
  np_crypto_ts :: u32
  np_crypto_nonce :: bytes
  np_extra :: "u32 list"
  np_dh :: "(u32 \<times> bytes) option"

definition nonce_packet_bytes :: "nonce_packet \<Rightarrow> bytes" where
  "nonce_packet_bytes p = bytes32 RPC_NONCE @ bytes32 (np_key_select p) @ bytes32 (np_crypto_schema p) @ bytes32 (np_crypto_ts p) @ np_crypto_nonce p @
     (if np_crypto_schema p = RPC_CRYPTO_AES_EXT \<or> np_crypto_schema p = RPC_CRYPTO_AES_DH
      then bytes32 (word_of_nat (length (np_extra p))) @ concat (map bytes32 (np_extra p)) else []) @
     (case np_dh p of Some (sel, g_a) \<Rightarrow> bytes32 sel @ g_a | None \<Rightarrow> [])"

text \<open>The checks of sizes that begin \<open>tcp_rpcc_process_nonce_packet\<close> and \<open>tcp_rpcs_process_nonce_packet\<close>, on the bytes of the packet.\<close>

definition extra_keys_count :: "bytes \<Rightarrow> int" where
  "extra_keys_count P = sint (le32 (drop 32 P))"

definition nonce_size_ok :: "bytes \<Rightarrow> bool" where
  "nonce_size_ok P = (let schema = le32 (drop 8 P); packet_len = int (length P) in
     if packet_len < 32 \<or> packet_len > 328 then False
     else if schema = RPC_CRYPTO_NONE then packet_len = 32
     else if schema = RPC_CRYPTO_AES then packet_len = 32
     else if schema = RPC_CRYPTO_AES_EXT then
       packet_len \<ge> 68 - 32 \<and> 0 \<le> extra_keys_count P \<and> extra_keys_count P \<le> 8 \<and> packet_len = 68 + 4 * (extra_keys_count P - 8)
     else if schema = RPC_CRYPTO_AES_DH then
       packet_len \<ge> 328 - 32 \<and> 0 \<le> extra_keys_count P \<and> extra_keys_count P \<le> 8 \<and> packet_len = 328 + 4 * (extra_keys_count P - 8)
     else False)"

text \<open>The integers behind the count, and what follows them.\<close>

definition extra_key_select :: "bytes \<Rightarrow> u32 list" where
  "extra_key_select P = map (\<lambda>i. le32 (drop (36 + 4 * i) P)) [0 ..< nat (extra_keys_count P)]"

definition dh_part :: "bytes \<Rightarrow> u32 \<times> bytes" where
  "dh_part P = (let i = nat (36 + 4 * extra_keys_count P) in (le32 (drop i P), take 256 (drop (i + 4) P)))"

definition pid_bytes :: "process_id \<Rightarrow> bytes" where
  "pid_bytes p = bytes32 (pid_ip p) @ bytes16 (pid_port p) @ bytes16 (pid_pid p) @ bytes32 (pid_utime p)"

definition le16 :: "bytes \<Rightarrow> u16" where
  "le16 bs = ucast (bs ! 0) OR push_bit 8 (ucast (bs ! 1))"

definition pid_of :: "bytes \<Rightarrow> process_id" where
  "pid_of bs = \<lparr>pid_ip = le32 bs, pid_port = le16 (drop 4 bs), pid_pid = le16 (drop 6 bs), pid_utime = le32 (drop 8 bs)\<rparr>"

definition handshake_bytes :: "u32 \<Rightarrow> process_id \<Rightarrow> process_id \<Rightarrow> bytes" where
  "handshake_bytes flags sender peer = bytes32 RPC_HANDSHAKE @ bytes32 flags @ pid_bytes sender @ pid_bytes peer"

definition handshake_error_bytes :: "int \<Rightarrow> process_id \<Rightarrow> bytes" where
  "handshake_error_bytes code sender = bytes32 RPC_HANDSHAKE_ERROR @ bytes32 (word_of_int code) @ pid_bytes sender"

section \<open>Connections\<close>

record rpc_env =
  e_secret :: aes_secret
  e_flags :: u32
  e_time :: u32
  e_precise_now :: rat
  e_getpid :: u32
  e_my_ipv4 :: u32
  e_nonce :: bytes
  e_rnd :: "bytes list"
  e_max_dh_accept_rate :: rat
  e_nat :: "u32 \<Rightarrow> u32"
  e_crc32 :: "bytes \<Rightarrow> u32"
  e_crc32c :: "bytes \<Rightarrow> u32"
  e_md5 :: "bytes \<Rightarrow> bytes"
  e_sha1 :: "bytes \<Rightarrow> bytes"
  e_max_packet_len :: int
  e_ignore_pid :: bool

text \<open>\<open>struct tcp_rpc_data\<close>; \<open>rd_crc32c\<close> says which checksum \<open>custom_crc_partial\<close> is.\<close>

record tcp_rpc_data =
  rd_flags :: u32
  in_packet_num :: u32
  out_packet_num :: u32
  crypto_flags :: u32
  remote_pid :: process_id
  rd_nonce :: bytes
  nonce_time :: u32
  rd_crc32c :: bool

datatype conn_status = Conn_connecting | Conn_working | Conn_error
datatype conn_ready = Cr_notyet | Cr_ok | Cr_failed

text \<open>
  The fields of \<open>struct connection_info\<close> that the handshake uses: the queue \<open>out_queue\<close> of packets that are still to be framed, the
  output \<open>out\<close>, the packets given to the socket directly. \<open>rc_PID\<close> and \<open>rc_dh_select\<close> are the variables \<open>PID\<close> and
  \<open>dh_params_select\<close> of the process, \<open>rc_notified\<close> counts
  calls of \<open>notification_event_insert_tcp_conn_ready\<close>; the two fields of \<open>tcp_add_dh_accept\<close> belong to the thread.
\<close>

record rpc_connection =
  rc_data :: tcp_rpc_data
  rc_out_queue :: "bytes list"
  rc_out :: bytes
  rc_out_p :: bytes
  rc_socket :: "bytes list"
  rc_crypto :: "aes_key_data option"
  rc_crypto_temp :: "crypto_temp_dh_params option"
  rc_isdh :: bool
  rc_error_flag :: bool
  rc_stopparse :: bool
  rc_error :: int
  rc_status :: conn_status
  rc_our :: host
  rc_remote :: host
  rc_last_query_sent_time :: rat
  rc_last_response_time :: rat
  rc_PID :: process_id
  rc_dh_select :: u32
  rc_notified :: nat
  rc_dh_remaining :: rat
  rc_dh_time :: rat

definition fail_rpc_connection :: "int \<Rightarrow> rpc_connection \<Rightarrow> rpc_connection" where
  "fail_rpc_connection err c =
     (if rc_error_flag c then c
      else let c = c\<lparr>rc_error_flag := True, rc_status := Conn_error\<rparr>
           in if rc_error c \<ge> 0 then c\<lparr>rc_error := err\<rparr> else c)"

definition upd_data :: "(tcp_rpc_data \<Rightarrow> tcp_rpc_data) \<Rightarrow> rpc_connection \<Rightarrow> rpc_connection" where
  "upd_data f c = c\<lparr>rc_data := f (rc_data c)\<rparr>"

definition has_crypto_flag :: "rpc_connection \<Rightarrow> u32 \<Rightarrow> bool" where
  "has_crypto_flag c f \<longleftrightarrow> crypto_flags (rc_data c) AND f \<noteq> 0"

definition custom_crc :: "rpc_env \<Rightarrow> rpc_connection \<Rightarrow> bytes \<Rightarrow> u32" where
  "custom_crc E c = (if rd_crc32c (rc_data c) then e_crc32c E else e_crc32 E)"

definition ensure_dh :: "rpc_env \<Rightarrow> rpc_connection \<Rightarrow> rpc_connection option" where
  "ensure_dh E c = do {
     sel \<leftarrow> init_dh_params (e_sha1 E) (rc_dh_select c);
     Some (c\<lparr>rc_dh_select := sel\<rparr>) }"

text \<open>\<open>C\<close>'s \<open>abs\<close>.\<close>

definition c_abs :: "u32 \<Rightarrow> u32" where
  "c_abs x = (if sint x < 0 then - x else x)"

section \<open>Sending\<close>

text \<open>The frame that \<open>tcp_rpc_conn_send_init\<close>, \<open>tcp_rpc_conn_send_im\<close> and \<open>tcp_rpc_write_packet\<close> put around a packet.\<close>

definition send_frame :: "rpc_env \<Rightarrow> bytes \<Rightarrow> rpc_connection \<Rightarrow> bytes \<times> rpc_connection" where
  "send_frame E raw c =
     (let n = out_packet_num (rc_data c); r = bytes32 (word_of_nat (length raw + 12)) @ bytes32 n @ raw
      in (r @ bytes32 (custom_crc E c r), upd_data (\<lambda>d. d\<lparr>out_packet_num := n + 1\<rparr>) c))"

definition tcp_rpc_conn_send_init :: "rpc_env \<Rightarrow> bytes \<Rightarrow> rpc_connection \<Rightarrow> rpc_connection option" where
  "tcp_rpc_conn_send_init E raw c = do {
     cassert (length raw mod 4 = 0);
     let (r, c) = send_frame E raw c;
     Some (c\<lparr>rc_socket := rc_socket c @ [r]\<rparr>) }"

definition tcp_rpc_conn_send_im :: "rpc_env \<Rightarrow> bytes \<Rightarrow> rpc_connection \<Rightarrow> rpc_connection option" where
  "tcp_rpc_conn_send_im E raw c = do {
     cassert (length raw mod 4 = 0);
     let (r, c) = send_frame E raw c;
     Some (c\<lparr>rc_out := rc_out c @ r\<rparr>) }"

definition tcp_rpc_conn_send :: "bytes \<Rightarrow> rpc_connection \<Rightarrow> rpc_connection option" where
  "tcp_rpc_conn_send raw c = do {
     cassert (length raw mod 4 = 0);
     Some (c\<lparr>rc_out_queue := rc_out_queue c @ [raw]\<rparr>) }"

definition tcp_rpc_conn_send_data :: "bytes \<Rightarrow> rpc_connection \<Rightarrow> rpc_connection option" where
  "tcp_rpc_conn_send_data Q c = do { cassert (length Q mod 4 = 0); tcp_rpc_conn_send Q c }"

definition tcp_rpc_conn_send_data_init :: "rpc_env \<Rightarrow> bytes \<Rightarrow> rpc_connection \<Rightarrow> rpc_connection option" where
  "tcp_rpc_conn_send_data_init E Q c = do { cassert (length Q mod 4 = 0); tcp_rpc_conn_send_init E Q c }"

definition tcp_rpc_conn_send_data_im :: "rpc_env \<Rightarrow> bytes \<Rightarrow> rpc_connection \<Rightarrow> rpc_connection option" where
  "tcp_rpc_conn_send_data_im E Q c = do { cassert (length Q mod 4 = 0); tcp_rpc_conn_send_im E Q c }"

text \<open>\<open>write_packet\<close> for the packets of the queue, in order.\<close>

fun write_queue :: "rpc_env \<Rightarrow> bytes list \<Rightarrow> rpc_connection \<Rightarrow> rpc_connection" where
  "write_queue E [] c = c"
| "write_queue E (raw # q) c =
     (let (n, r) = tcp_rpc_write_packet (custom_crc E c) (rd_flags (rc_data c)) (out_packet_num (rc_data c)) raw
      in write_queue E q (upd_data (\<lambda>d. d\<lparr>out_packet_num := n\<rparr>) c\<lparr>rc_out := rc_out c @ r\<rparr>))"

definition flush_queue :: "rpc_env \<Rightarrow> rpc_connection \<Rightarrow> rpc_connection" where
  "flush_queue E c = write_queue E (rc_out_queue c) (c\<lparr>rc_out_queue := []\<rparr>)"

definition tcp_rpc_default_execute :: "rpc_env \<Rightarrow> u32 \<Rightarrow> bytes \<Rightarrow> rpc_connection \<Rightarrow> (int \<times> rpc_connection) option" where
  "tcp_rpc_default_execute E op raw c =
     (if op = RPC_PING \<and> length raw = 12 then do {
        c \<leftarrow> tcp_rpc_conn_send_data (bytes32 RPC_PONG @ drop 4 raw) (c\<lparr>rc_last_response_time := e_precise_now E\<rparr>);
        Some (0, c) }
      else Some (0, c\<lparr>rc_last_response_time := e_precise_now E\<rparr>))"

definition tcp_rpc_send_ping :: "bytes \<Rightarrow> rpc_connection \<Rightarrow> rpc_connection option" where
  "tcp_rpc_send_ping ping_id c = tcp_rpc_conn_send_data (bytes32 RPC_PING @ ping_id) c"

definition tcp_set_default_rpc_flags :: "u32 \<Rightarrow> u32 \<Rightarrow> rpc_env \<Rightarrow> rpc_env" where
  "tcp_set_default_rpc_flags and_flags or_flags E = E\<lparr>e_flags := (e_flags E AND and_flags) OR or_flags\<rparr>"

definition tcp_add_dh_accept :: "rpc_env \<Rightarrow> rpc_connection \<Rightarrow> int \<times> rpc_connection" where
  "tcp_add_dh_accept E c =
     (let rate = e_max_dh_accept_rate E in
      if rate \<noteq> 0 then
        let rem = min rate (rc_dh_remaining c + (e_precise_now E - rc_dh_time c) * rate);
            c = c\<lparr>rc_dh_remaining := rem, rc_dh_time := e_precise_now E\<rparr>
        in if rem < 1 then (-1, c) else (0, c\<lparr>rc_dh_remaining := rem - 1\<rparr>)
      else (0, c))"

end
