(* ===== verification/RpcClient.thy ===== *)
theory RpcClient
  imports RpcPeer
begin

text \<open>
  The client side of a connection between RPC servers, which the proxy uses towards middle proxies
  (\<^verbatim>\<open>net/net-tcp-rpc-client.c\<close>).
\<close>

section \<open>Starting encryption\<close>

definition tcp_rpcc_init_fake_crypto :: "rpc_connection \<Rightarrow> (int \<times> rpc_connection) option" where
  "tcp_rpcc_init_fake_crypto c =
     (if \<not> has_crypto_flag c RPCF_ALLOW_UNENC then Some (-1, c)
      else do {
        c \<leftarrow> tcp_rpc_conn_send_data
          (nonce_packet_bytes \<lparr>np_key_select = 0, np_crypto_schema = RPC_CRYPTO_NONE, np_crypto_ts = 0, np_crypto_nonce = replicate 16 0,
             np_extra = [], np_dh = None\<rparr>) c;
        cassert (crypto_flags (rc_data c) AND (RPCF_ALLOW_ENC OR RPCF_ENC_SENT) = 0);
        Some (1, upd_data (\<lambda>d. d\<lparr>crypto_flags := crypto_flags d OR RPCF_ENC_SENT\<rparr>) c) })"

definition tcp_rpcc_init_crypto :: "rpc_env \<Rightarrow> rpc_connection \<Rightarrow> (int \<times> rpc_connection) option" where
  "tcp_rpcc_init_crypto E c =
     (if \<not> has_crypto_flag c RPCF_ALLOW_ENC then tcp_rpcc_init_fake_crypto c
      else do {
        let c = upd_data (\<lambda>d. d\<lparr>nonce_time := e_time E, rd_nonce := e_nonce E\<rparr>) c;
        c \<leftarrow> ensure_dh E c;
        let sel = rc_dh_select c;
        cassert (sel \<noteq> 0);
        let buf = \<lparr>np_key_select = key_signature (e_secret E), np_crypto_schema = RPC_CRYPTO_AES, np_crypto_ts = e_time E,
             np_crypto_nonce = e_nonce E, np_extra = [], np_dh = None\<rparr>;
        (buf, c) \<leftarrow> (if has_crypto_flag c RPCF_REQ_DH then do {
            cassert (rc_crypto_temp c = None);
            (g_a, t, rnd) \<leftarrow> dh_first_round sel (e_rnd E);
            Some (buf\<lparr>np_crypto_schema := RPC_CRYPTO_AES_DH, np_dh := Some (sel, g_a)\<rparr>, c\<lparr>rc_crypto_temp := Some t\<rparr>) }
          else Some (buf, c));
        c \<leftarrow> tcp_rpc_conn_send_data (nonce_packet_bytes buf) c;
        cassert (crypto_flags (rc_data c) AND (RPCF_ALLOW_ENC OR RPCF_ENC_SENT) = RPCF_ALLOW_ENC);
        let c = upd_data (\<lambda>d. d\<lparr>crypto_flags := crypto_flags d OR RPCF_ENC_SENT\<rparr>) c;
        cassert (rc_crypto c = None);
        Some (1, c) })"

text \<open>\<open>in_len\<close> is \<open>in.total_bytes\<close>, what is left of the input behind the packet being processed.\<close>

definition tcp_rpcc_start_crypto :: "rpc_env \<Rightarrow> nat \<Rightarrow> bytes \<Rightarrow> u32 \<Rightarrow> bytes \<Rightarrow> rpc_connection \<Rightarrow> (int \<times> rpc_connection) option" where
  "tcp_rpcc_start_crypto E in_len nonce key_select temp_key c =
     (if rc_crypto c \<noteq> None then Some (-1, c)
      else if in_len \<noteq> 0 \<or> rc_out c \<noteq> [] \<or> nonce_time (rc_data c) = 0 then Some (-1, c)
      else if key_select = 0 then Some (-1, c)
      else do {
        r \<leftarrow> aes_create_keys (e_md5 E) (e_sha1 E) True nonce (rd_nonce (rc_data c)) (nonce_time (rc_data c))
          ((rc_remote c)\<lparr>h_ip := e_nat E (h_ip (rc_remote c))\<rparr>) ((rc_our c)\<lparr>h_ip := e_nat E (h_ip (rc_our c))\<rparr>) (e_secret E) temp_key;
        case r of Inl e \<Rightarrow> Some (-1, c) | Inr k \<Rightarrow> Some (1, c\<lparr>rc_crypto := Some k\<rparr>) })"

section \<open>The nonce packet of the server\<close>

text \<open>The part of \<open>tcp_rpcc_process_nonce_packet\<close> for encryption; \<open>dh\<close> is the pointer of this name, with what it points to.\<close>

definition rpcc_nonce_aes :: "rpc_env \<Rightarrow> nat \<Rightarrow> bytes \<Rightarrow> u32 \<Rightarrow> (u32 \<times> bytes) option \<Rightarrow> rpc_connection \<Rightarrow> (int \<times> rpc_connection) option" where
  "rpcc_nonce_aes E in_len P key_select dh c = do {
     best \<leftarrow> select_best_key_signature (e_secret E) key_select [];
     if key_select = 0 \<or> best = 0 then Some (-3, c)
     else if \<not> has_crypto_flag c RPCF_ALLOW_ENC then Some (-5, c)
     else if sint (c_abs (le32 (drop 12 P) - nonce_time (rc_data c))) > 30 then Some (-6, c)
     else if crypto_flags (rc_data c) AND (RPCF_REQ_DH OR RPCF_ALLOW_SKIP_DH) = RPCF_REQ_DH \<and> dh = None then Some (-7, c)
     else do {
       r \<leftarrow> (case dh of
           None \<Rightarrow> Some (Inr ([], c))
         | Some (sel, g_a) \<Rightarrow> do {
             t \<leftarrow> rc_crypto_temp c;
             (n, k) \<leftarrow> dh_third_round g_a t;
             if n \<noteq> 256 then Some (Inl (-8 :: int)) else Some (Inr (k, c\<lparr>rc_isdh := True\<rparr>)) });
       case r of
         Inl e \<Rightarrow> Some (e, c)
       | Inr (temp_dh, c) \<Rightarrow> do {
           (res, c) \<leftarrow> tcp_rpcc_start_crypto E in_len (take 16 (drop 16 P)) key_select temp_dh (c\<lparr>rc_crypto_temp := None\<rparr>);
           Some (if res < 0 then -6 else 0, c) } } }"

definition tcp_rpcc_process_nonce_packet :: "rpc_env \<Rightarrow> nat \<Rightarrow> bytes \<Rightarrow> rpc_connection \<Rightarrow> (int \<times> rpc_connection) option" where
  "tcp_rpcc_process_nonce_packet E in_len P c = do {
     cassert (4 \<le> length P);
     if in_packet_num (rc_data c) - 1 \<noteq> -2 \<or> le32 P \<noteq> RPC_NONCE then Some (-2, c)
     else if \<not> nonce_size_ok P then Some (-3, c)
     else do {
       let key_select = le32 (drop 4 P);
       let schema = le32 (drop 8 P);
       if schema = RPC_CRYPTO_NONE then
         if key_select \<noteq> 0 then Some (-3, c)
         else if has_crypto_flag c RPCF_ALLOW_UNENC then do {
           cassert (has_crypto_flag c RPCF_ALLOW_ENC \<longrightarrow> rc_out_p c = []);
           Some (0, upd_data (\<lambda>d. d\<lparr>crypto_flags := RPCF_ALLOW_UNENC\<rparr>) c) }
         else Some (-5, c)
       else if schema = RPC_CRYPTO_AES_DH then do {
         c \<leftarrow> ensure_dh E c;
         let (dsel, g_a) = dh_part P;
         if dsel = 0 \<or> dsel \<noteq> rc_dh_select c then Some (-7, c)
         else if \<not> has_crypto_flag c RPCF_REQ_DH \<or> rc_crypto_temp c = None then Some (-7, c)
         else do {
           ks \<leftarrow> select_best_key_signature (e_secret E) key_select (extra_key_select P);
           rpcc_nonce_aes E in_len P ks (Some (dsel, g_a)) c } }
       else if schema = RPC_CRYPTO_AES_EXT then do {
         ks \<leftarrow> select_best_key_signature (e_secret E) key_select (extra_key_select P);
         rpcc_nonce_aes E in_len P ks None c }
       else rpcc_nonce_aes E in_len P key_select None c } }"

section \<open>The handshake packets\<close>

definition tcp_rpcc_send_handshake_packet :: "rpc_env \<Rightarrow> rpc_connection \<Rightarrow> (int \<times> rpc_connection) option" where
  "tcp_rpcc_send_handshake_packet E c = do {
     let c = (if pid_ip (rc_PID c) = 0 then c\<lparr>rc_PID := init_client_PID (e_getpid E) (e_time E) (h_ip (rc_our c)) (rc_PID c)\<rparr> else c);
     let c = (if pid_port (remote_pid (rc_data c)) = 0 then
         upd_data (\<lambda>d. d\<lparr>remote_pid := (remote_pid d)\<lparr>pid_ip := (if h_ip (rc_remote c) = 0x7f000001 then 0 else h_ip (rc_remote c)),
           pid_port := h_port (rc_remote c)\<rparr>\<rparr>) c else c);
     c \<leftarrow> tcp_rpc_conn_send_data (handshake_bytes (e_flags E AND RPCF_USE_CRC32C) (rc_PID c) (remote_pid (rc_data c))) c;
     Some (0, c) }"

definition tcp_rpcc_send_handshake_error_packet :: "rpc_env \<Rightarrow> int \<Rightarrow> rpc_connection \<Rightarrow> rpc_connection option" where
  "tcp_rpcc_send_handshake_error_packet E code c = do {
     let c = (if pid_pid (rc_PID c) = 0 then c\<lparr>rc_PID := init_client_PID (e_getpid E) (e_time E) (h_ip (rc_our c)) (rc_PID c)\<rparr> else c);
     tcp_rpc_conn_send_data (handshake_error_bytes code (rc_PID c)) c }"

definition rpcc_refuse :: "rpc_env \<Rightarrow> int \<Rightarrow> rpc_connection \<Rightarrow> (int \<times> rpc_connection) option" where
  "rpcc_refuse E code c = do { c \<leftarrow> tcp_rpcc_send_handshake_error_packet E code c; Some (code, c) }"

definition tcp_rpcc_process_handshake_packet :: "rpc_env \<Rightarrow> bytes \<Rightarrow> rpc_connection \<Rightarrow> (int \<times> rpc_connection) option" where
  "tcp_rpcc_process_handshake_packet E P c = do {
     cassert (4 \<le> length P);
     if in_packet_num (rc_data c) - 1 \<noteq> -1 \<or> le32 P \<noteq> RPC_HANDSHAKE then Some (-2, c)
     else if length P \<noteq> 32 then rpcc_refuse E (-3) c
     else do {
       let flags = le32 (drop 4 P);
       let sender = pid_of (drop 8 P);
       let peer = pid_of (drop 20 P);
       if matches_pid sender (remote_pid (rc_data c)) = 0 \<and> \<not> e_ignore_pid E then rpcc_refuse E (-6) c
       else do {
         let sender = (if pid_ip sender = 0 then sender\<lparr>pid_ip := pid_ip (remote_pid (rc_data c))\<rparr> else sender);
         let c = upd_data (\<lambda>d. d\<lparr>remote_pid := sender\<rparr>) c;
         if matches_pid (rc_PID c) peer = 0 then rpcc_refuse E (-4) c
         else if flags AND 0xff \<noteq> 0 then rpcc_refuse E (-7) c
         else if flags AND RPCF_USE_CRC32C \<noteq> 0 then
           if e_flags E AND RPCF_USE_CRC32C = 0 then rpcc_refuse E (-8) c
           else Some (0, upd_data (\<lambda>d. d\<lparr>crypto_flags := crypto_flags d OR RPCF_USE_CRC32C, rd_crc32c := True\<rparr>) c)
         else Some (0, c) } } }"

section \<open>Reading packets\<close>

text \<open>
  The packets numbered -2 and -1 are those of the handshake. The handler \<open>rpc_ready\<close> is there, as in \<open>default_tcp_rpc_client\<close>. The operation \<open>execute\<close> gets the type and the bytes of a
  packet.
\<close>

definition rpcc_system_packet :: "rpc_env \<Rightarrow> nat \<Rightarrow> u32 \<Rightarrow> bytes \<Rightarrow> rpc_connection \<Rightarrow> (int \<times> rpc_connection) option" where
  "rpcc_system_packet E in_len packet_num msg c =
     (if packet_num = -2 then do {
        (res, c) \<leftarrow> tcp_rpcc_process_nonce_packet E in_len msg c;
        if res \<ge> 0 then tcp_rpcc_send_handshake_packet E c else Some (res, c) }
      else if packet_num = -1 then do {
        (res, c) \<leftarrow> tcp_rpcc_process_handshake_packet E msg c;
        Some (res, if res \<ge> 0 then c\<lparr>rc_notified := rc_notified c + 1\<rparr> else c) }
      else Some (-5, c))"

type_synonym rpc_execute = "u32 \<Rightarrow> bytes \<Rightarrow> rpc_connection \<Rightarrow> (int \<times> rpc_connection) option"

function (sequential) tcp_rpcc_parse_execute :: "rpc_env \<Rightarrow> rpc_execute \<Rightarrow> bytes \<Rightarrow> rpc_connection \<Rightarrow> (int \<times> bytes \<times> rpc_connection) option" where
  "tcp_rpcc_parse_execute E execute inp c =
     (let len = length inp; packet_len = le32 inp; n = unat packet_len in
      if len = 0 then Some (0, inp, c)
      else if len < 4 then Some (4 - int len, inp, c)
      else if sint packet_len \<le> 0 \<or> packet_len AND 3 \<noteq> 0 \<or> sint packet_len > e_max_packet_len E \<and> e_max_packet_len E > 0 then
        Some (0, inp, fail_rpc_connection (-1) c)
      else if packet_len = 4 then tcp_rpcc_parse_execute E execute (drop 4 inp) c
      else if n < 16 then Some (0, inp, fail_rpc_connection (-2) c)
      else if len < n then Some (int n - int len, inp, c)
      else let msg = take (n - 4) inp; rest = drop n inp in
        if le32 (drop (n - 4) inp) \<noteq> custom_crc E c msg then Some (0, rest, fail_rpc_connection (-3) c)
        else let packet_num = le32 (drop 4 msg); msg = drop 8 msg; packet_type = le32 msg in
          if packet_num \<noteq> in_packet_num (rc_data c) then Some (0, rest, fail_rpc_connection (-4) c)
          else let c = upd_data (\<lambda>d. d\<lparr>in_packet_num := in_packet_num d + 1\<rparr>) c in
            if sint packet_num < 0 then do {
              (res, c) \<leftarrow> rpcc_system_packet E (length rest) packet_num msg c;
              if res < 0 then Some (0, rest, fail_rpc_connection res c)
              else tcp_rpcc_parse_execute E execute rest c }
            else do {
              (res, c) \<leftarrow> (if packet_type = RPC_PING then tcp_rpc_default_execute E packet_type msg c else execute packet_type msg c);
              tcp_rpcc_parse_execute E execute rest c })"
  by pat_completeness auto
termination
  by (relation "measure (\<lambda>(E, execute, inp, c). length inp)") auto

declare tcp_rpcc_parse_execute.simps [simp del]

section \<open>Connecting\<close>

text \<open>What \<open>rpc_check_perm\<close> returns; \<open>None\<close> if there is no such function.\<close>

definition tcp_rpcc_default_check_perm :: "rpc_env \<Rightarrow> u32" where
  "tcp_rpcc_default_check_perm E = RPCF_ALLOW_ENC OR e_flags E"

definition perm_mask :: u32 where
  "perm_mask = RPCF_ALLOW_UNENC OR RPCF_ALLOW_ENC OR RPCF_REQ_DH OR RPCF_ALLOW_SKIP_DH"

definition tcp_rpcc_init_outbound :: "rpc_env \<Rightarrow> u32 option \<Rightarrow> rpc_connection \<Rightarrow> int \<times> rpc_connection" where
  "tcp_rpcc_init_outbound E perm c =
     (let c = upd_data (\<lambda>d. d\<lparr>rd_crc32c := False\<rparr>) (c\<lparr>rc_last_query_sent_time := e_precise_now E\<rparr>);
          ready = (\<lambda>f c. (0, upd_data (\<lambda>d. d\<lparr>crypto_flags := f, in_packet_num := -2\<rparr>) c)) in
      case perm of
        None \<Rightarrow> ready RPCF_ALLOW_UNENC c
      | Some res \<Rightarrow>
          if sint res < 0 then (sint res, c)
          else let res = res AND perm_mask in
            if res AND (RPCF_ALLOW_UNENC OR RPCF_ALLOW_ENC) = 0 then (-1, c)
            else if res AND RPCF_REQ_DH \<noteq> 0 then
              let (r, c) = tcp_add_dh_accept E c in if r < 0 then (-1, c) else ready res c
            else ready res c)"

definition tcp_rpcc_connected :: "rpc_env \<Rightarrow> u32 option \<Rightarrow> rpc_connection \<Rightarrow> (int \<times> rpc_connection) option" where
  "tcp_rpcc_connected E perm c =
     (let c = upd_data (\<lambda>d. d\<lparr>out_packet_num := -2\<rparr>) (c\<lparr>rc_last_query_sent_time := e_precise_now E\<rparr>);
          start = (\<lambda>c. do {
            (res, c) \<leftarrow> tcp_rpcc_init_crypto E c;
            if res > 0 then do { cassert (has_crypto_flag c RPCF_ENC_SENT); Some (0, c) }
            else Some (-1, c) }) in
      case perm of
        None \<Rightarrow> start (upd_data (\<lambda>d. d\<lparr>crypto_flags := RPCF_ALLOW_ENC OR RPCF_ALLOW_UNENC\<rparr>) c)
      | Some res \<Rightarrow>
          if sint res < 0 then Some (sint res, c)
          else let res = res AND perm_mask in
            if res AND (RPCF_ALLOW_UNENC OR RPCF_ALLOW_ENC) = 0 then Some (-1, c)
            else start (upd_data (\<lambda>d. d\<lparr>crypto_flags := res\<rparr>) c))"

definition tcp_rpcc_default_check_ready :: "rpc_env \<Rightarrow> rpc_connection \<Rightarrow> (conn_ready \<times> rpc_connection) option" where
  "tcp_rpcc_default_check_ready E c =
     (if rc_error_flag c then Some (Cr_failed, c)
      else if rc_status c = Conn_connecting \<or> sint (in_packet_num (rc_data c)) < 0 then do {
        cassert (rc_last_query_sent_time c \<noteq> 0);
        if rc_last_query_sent_time c < e_precise_now E - 3 then Some (Cr_failed, fail_rpc_connection (-6) c)
        else Some (Cr_notyet, c) }
      else if rc_status c = Conn_working then Some (Cr_ok, c)
      else Some (Cr_failed, fail_rpc_connection (-7) c))"

end
