(* ===== verification/RpcServer.thy ===== *)
theory RpcServer
  imports RpcClient
begin

text \<open>
  The server side of a connection between RPC servers, which answers the engine's clients (\<^verbatim>\<open>net/net-tcp-rpc-server.c\<close>).
\<close>

section \<open>Starting encryption\<close>

definition tcp_rpcs_init_fake_crypto :: "rpc_env \<Rightarrow> rpc_connection \<Rightarrow> (int \<times> rpc_connection) option" where
  "tcp_rpcs_init_fake_crypto E c =
     (if \<not> has_crypto_flag c RPCF_ALLOW_UNENC then Some (-1, c)
      else do {
        cassert (crypto_flags (rc_data c) AND (RPCF_ALLOW_ENC OR RPCF_ENC_SENT) = 0);
        c \<leftarrow> tcp_rpc_conn_send_data_init E
          (nonce_packet_bytes \<lparr>np_key_select = 0, np_crypto_schema = RPC_CRYPTO_NONE, np_crypto_ts = 0, np_crypto_nonce = replicate 16 0,
             np_extra = [], np_dh = None\<rparr>) (upd_data (\<lambda>d. d\<lparr>crypto_flags := crypto_flags d OR RPCF_ENC_SENT\<rparr>) c);
        Some (1, c) })"

text \<open>
  The key exchange, when it is required: \<open>Inl\<close> for the result -1 of \<open>tcp_rpcs_init_crypto\<close>, else the key and the part of the
  server, which are missing without it. \<open>P\<close> is the packet of the client, with the key that was selected.
\<close>

definition rpcs_dh :: "rpc_env \<Rightarrow> bytes \<Rightarrow> rpc_connection \<Rightarrow> ((bytes \<times> (u32 \<times> bytes) option) option \<times> rpc_connection) option" where
  "rpcs_dh E P c =
     (if \<not> has_crypto_flag c RPCF_REQ_DH then Some (Some ([], None), c)
      else if le32 (drop 8 P) \<noteq> RPC_CRYPTO_AES_DH then Some (None, c)
      else let (sel, g_a) = dh_part P in
        if sel \<noteq> rc_dh_select c \<or> rc_dh_select c = 0 then Some (None, c)
        else let (r, c) = tcp_add_dh_accept E c in
          if r < 0 then Some (None, c)
          else do {
            (n, key, g_b, rnd) \<leftarrow> dh_second_round g_a (e_rnd E);
            cassert (n = 256);
            Some (Some (key, Some (rc_dh_select c, g_b)), c\<lparr>rc_isdh := True\<rparr>) })"

text \<open>The keys, and the answer of the server.\<close>

definition rpcs_make_keys :: "rpc_env \<Rightarrow> bytes \<Rightarrow> bytes \<Rightarrow> (u32 \<times> bytes) option \<Rightarrow> rpc_connection \<Rightarrow> (int \<times> rpc_connection) option" where
  "rpcs_make_keys E P temp_dh new_dh c = do {
     let c = upd_data (\<lambda>d. d\<lparr>rd_nonce := e_nonce E\<rparr>) c;
     k \<leftarrow> aes_create_keys (e_md5 E) (e_sha1 E) False (e_nonce E) (take 16 (drop 16 P)) (le32 (drop 12 P))
       ((rc_our c)\<lparr>h_ip := e_nat E (h_ip (rc_our c))\<rparr>) ((rc_remote c)\<lparr>h_ip := e_nat E (h_ip (rc_remote c))\<rparr>) (e_secret E) temp_dh;
     case k of Inl e \<Rightarrow> Some (-1, c) | Inr k \<Rightarrow> do {
       let buf = \<lparr>np_key_select = key_signature (e_secret E), np_crypto_schema = (if new_dh = None then RPC_CRYPTO_AES else RPC_CRYPTO_AES_DH),
         np_crypto_ts = nonce_time (rc_data c), np_crypto_nonce = e_nonce E, np_extra = [], np_dh = new_dh\<rparr>;
       cassert (crypto_flags (rc_data c) AND (RPCF_ALLOW_ENC OR RPCF_ENC_SENT) = RPCF_ALLOW_ENC);
       c \<leftarrow> tcp_rpc_conn_send_data_init E (nonce_packet_bytes buf)
         (upd_data (\<lambda>d. d\<lparr>crypto_flags := crypto_flags d OR RPCF_ENC_SENT\<rparr>) (c\<lparr>rc_crypto := Some k\<rparr>));
       Some (1, c) } }"

definition tcp_rpcs_init_crypto :: "rpc_env \<Rightarrow> bytes \<Rightarrow> u32 \<Rightarrow> rpc_connection \<Rightarrow> (int \<times> rpc_connection) option" where
  "tcp_rpcs_init_crypto E P key_select c =
     (let enc = crypto_flags (rc_data c) AND (RPCF_ALLOW_ENC OR RPCF_ALLOW_UNENC) in
      if rc_crypto c \<noteq> None then Some (-1, c)
      else if enc = RPCF_ALLOW_UNENC then tcp_rpcs_init_fake_crypto E c
      else if enc \<noteq> RPCF_ALLOW_ENC then Some (-1, c)
      else if key_signature (e_secret E) \<noteq> key_select then Some (-1, c)
      else do {
        (r, c) \<leftarrow> rpcs_dh E P c;
        case r of None \<Rightarrow> Some (-1, c) | Some (temp_dh, new_dh) \<Rightarrow> rpcs_make_keys E P temp_dh new_dh c })"

section \<open>The nonce packet of the client\<close>

text \<open>
  What the second \<^verbatim>\<open>switch\<close> of \<open>tcp_rpcs_process_nonce_packet\<close> does for a packet with a key: the result 0 goes on with the
  connection as returned.
\<close>

definition rpcs_unencrypted :: "int \<Rightarrow> rpc_connection \<Rightarrow> int \<times> rpc_connection" where
  "rpcs_unencrypted err c =
     (if has_crypto_flag c RPCF_ALLOW_UNENC then (0, upd_data (\<lambda>d. d\<lparr>crypto_flags := RPCF_ALLOW_UNENC\<rparr>) c) else (err, c))"

definition rpcs_nonce_aes :: "rpc_env \<Rightarrow> bytes \<Rightarrow> u32 \<Rightarrow> rpc_connection \<Rightarrow> (int \<times> rpc_connection) option" where
  "rpcs_nonce_aes E P key_select c = do {
     best \<leftarrow> select_best_key_signature (e_secret E) key_select [];
     if key_select = 0 \<or> best = 0 then Some (rpcs_unencrypted (-3) c)
     else if \<not> has_crypto_flag c RPCF_ALLOW_ENC then Some (rpcs_unencrypted (-5) c)
     else let c = upd_data (\<lambda>d. d\<lparr>nonce_time := e_time E\<rparr>) c in
       if sint (c_abs (le32 (drop 12 P) - nonce_time (rc_data c))) > 30 then Some (-6, c)
       else Some (0, upd_data (\<lambda>d. d\<lparr>crypto_flags := crypto_flags d AND NOT RPCF_ALLOW_UNENC\<rparr>) c) }"

text \<open>The end of \<open>tcp_rpcs_process_nonce_packet\<close>; \<open>dh\<close> says whether the pointer of this name is not null.\<close>

definition rpcs_finish_nonce :: "rpc_env \<Rightarrow> bytes \<Rightarrow> u32 \<Rightarrow> bool \<Rightarrow> rpc_connection \<Rightarrow> (int \<times> rpc_connection) option" where
  "rpcs_finish_nonce E P key_select dh c =
     (let need = (crypto_flags (rc_data c) AND (RPCF_REQ_DH OR RPCF_ALLOW_ENC) = RPCF_REQ_DH OR RPCF_ALLOW_ENC \<and> \<not> dh) in
      if need \<and> \<not> has_crypto_flag c RPCF_ALLOW_SKIP_DH then Some (-7, c)
      else do {
        let c = (if need then upd_data (\<lambda>d. d\<lparr>crypto_flags := crypto_flags d AND NOT (RPCF_REQ_DH OR RPCF_ALLOW_SKIP_DH)\<rparr>) c else c);
        (res, c) \<leftarrow> tcp_rpcs_init_crypto E P key_select c;
        Some (if res < 0 then -6 else 0, c) })"

definition tcp_rpcs_process_nonce_packet :: "rpc_env \<Rightarrow> bytes \<Rightarrow> rpc_connection \<Rightarrow> (int \<times> rpc_connection) option" where
  "tcp_rpcs_process_nonce_packet E P c = do {
     cassert (4 \<le> length P);
     if in_packet_num (rc_data c) \<noteq> -2 \<or> le32 P \<noteq> RPC_NONCE then Some (-2, c)
     else if \<not> nonce_size_ok P then Some (-3, c)
     else do {
       let key_select = le32 (drop 4 P);
       let schema = le32 (drop 8 P);
       if schema = RPC_CRYPTO_NONE then
         if key_select \<noteq> 0 then Some (-3, c)
         else case rpcs_unencrypted (-5) c of (res, c) \<Rightarrow>
           if res < 0 then Some (res, c) else rpcs_finish_nonce E P key_select False c
       else do {
         (dh, c) \<leftarrow> (if schema = RPC_CRYPTO_AES_DH then do {
             c \<leftarrow> ensure_dh E c;
             Some (fst (dh_part P) \<noteq> 0 \<and> fst (dh_part P) = rc_dh_select c, c) }
           else Some (False, c));
         key_select \<leftarrow> (if schema = RPC_CRYPTO_AES then Some key_select
           else select_best_key_signature (e_secret E) key_select (extra_key_select P));
         (res, c) \<leftarrow> rpcs_nonce_aes E P key_select c;
         if res < 0 then Some (res, c) else rpcs_finish_nonce E P key_select dh c } } }"

section \<open>The handshake packets\<close>

definition tcp_rpcs_send_handshake_packet :: "rpc_env \<Rightarrow> rpc_connection \<Rightarrow> (int \<times> rpc_connection) option" where
  "tcp_rpcs_send_handshake_packet E c = do {
     cassert (pid_ip (rc_PID c) \<noteq> 0);
     c \<leftarrow> tcp_rpc_conn_send_data_im E (handshake_bytes (crypto_flags (rc_data c) AND RPCF_USE_CRC32C) (rc_PID c) (remote_pid (rc_data c))) c;
     Some (0, c) }"

definition rpcs_refuse :: "int \<Rightarrow> rpc_connection \<Rightarrow> (int \<times> rpc_connection) option" where
  "rpcs_refuse code c = do {
     cassert (pid_pid (rc_PID c) \<noteq> 0);
     c \<leftarrow> tcp_rpc_conn_send_data (handshake_error_bytes code (rc_PID c)) c;
     Some (code, c) }"

definition tcp_rpcs_process_handshake_packet :: "rpc_env \<Rightarrow> bytes \<Rightarrow> rpc_connection \<Rightarrow> (int \<times> rpc_connection) option" where
  "tcp_rpcs_process_handshake_packet E P c = do {
     let c = (if pid_ip (rc_PID c) = 0 then
         let PID = init_server_PID (e_getpid E) (e_time E) (h_ip (rc_our c)) (h_port (rc_our c)) (rc_PID c)
         in c\<lparr>rc_PID := (if pid_ip PID = 0 then PID\<lparr>pid_ip := e_my_ipv4 E\<rparr> else PID)\<rparr>
       else c);
     cassert (4 \<le> length P);
     if in_packet_num (rc_data c) \<noteq> -1 \<or> le32 P \<noteq> RPC_HANDSHAKE then Some (-2, c)
     else if length P \<noteq> 32 then rpcs_refuse (-3) c
     else do {
       let flags = le32 (drop 4 P);
       let peer = pid_of (drop 20 P);
       let c = upd_data (\<lambda>d. d\<lparr>remote_pid := pid_of (drop 8 P)\<rparr>) c;
       if matches_pid (rc_PID c) peer = 0 \<and> \<not> e_ignore_pid E then rpcs_refuse (-4) c
       else if flags AND 0xff \<noteq> 0 then rpcs_refuse (-7) c
       else Some (0, if flags AND e_flags E AND RPCF_USE_CRC32C \<noteq> 0
         then upd_data (\<lambda>d. d\<lparr>crypto_flags := crypto_flags d OR RPCF_USE_CRC32C\<rparr>) c else c) } }"

section \<open>Reading packets\<close>

definition is_http_word :: "u32 \<Rightarrow> bool" where
  "is_http_word w \<longleftrightarrow> w \<in> {le32 [0x48, 0x45, 0x41, 0x44], le32 [0x50, 0x4f, 0x53, 0x54], le32 [0x47, 0x45, 0x54, 0x20], le32 [0x4f, 0x50, 0x54, 0x49]}"

definition rpcs_system_packet :: "rpc_env \<Rightarrow> u32 \<Rightarrow> bytes \<Rightarrow> rpc_connection \<Rightarrow> (int \<times> rpc_connection) option" where
  "rpcs_system_packet E packet_num msg c =
     (if packet_num = -2 then tcp_rpcs_process_nonce_packet E msg c
      else if packet_num = -1 then do {
        (res, c) \<leftarrow> tcp_rpcs_process_handshake_packet E msg c;
        if res < 0 then Some (res, c)
        else do {
          (res, c) \<leftarrow> tcp_rpcs_send_handshake_packet E c;
          let c = (if has_crypto_flag c RPCF_USE_CRC32C then upd_data (\<lambda>d. d\<lparr>rd_crc32c := True\<rparr>) c else c);
          Some (res, c\<lparr>rc_notified := rc_notified c + 1\<rparr>) } }
      else Some (-1, c))"

definition tcp_rpcs_default_execute :: "rpc_env \<Rightarrow> u32 \<Rightarrow> bytes \<Rightarrow> rpc_connection \<Rightarrow> (int \<times> rpc_connection) option" where
  "tcp_rpcs_default_execute E op raw c =
     (if op = RPC_PING \<and> length raw = 12 then do {
        c \<leftarrow> tcp_rpc_conn_send_data (bytes32 RPC_PONG @ drop 4 raw) (c\<lparr>rc_last_response_time := e_precise_now E\<rparr>);
        Some (0, c) }
      else Some (0, c))"

text \<open>\<open>fallback\<close> is what the type for HTTP does with the connection, if there is one.\<close>

type_synonym rpc_fallback = "bytes \<Rightarrow> rpc_connection \<Rightarrow> (int \<times> bytes \<times> rpc_connection) option"

function (sequential) tcp_rpcs_parse_execute :: "rpc_env \<Rightarrow> rpc_execute \<Rightarrow> rpc_fallback option \<Rightarrow> bytes \<Rightarrow> rpc_connection \<Rightarrow> (int \<times> bytes \<times> rpc_connection) option" where
  "tcp_rpcs_parse_execute E execute fallback inp c =
     (let len = length inp; w = le32 inp; quick = has_crypto_flag c RPCF_QUICKACK in
      if rc_error_flag c \<or> rc_stopparse c \<or> len = 0 then Some (NEED_MORE_BYTES, inp, c)
      else if len < 4 then Some (4 - int len, inp, c)
      else let c = (if quick then upd_data (\<lambda>d. d\<lparr>rd_flags := (rd_flags d AND NOT RPC_F_QUICKACK) OR (w AND RPC_F_QUICKACK)\<rparr>) c else c);
          packet_len = (if quick then w AND NOT RPC_F_QUICKACK else w); n = unat packet_len in
        if sint packet_len \<le> 0 \<or> packet_len AND 0xc0000003 \<noteq> 0 then
          if sint (in_packet_num (rc_data c)) \<le> -2 \<and> is_http_word packet_len \<and> fallback \<noteq> None then (the fallback) inp c
          else Some (0, inp, fail_rpc_connection (-1) c)
        else if sint packet_len > e_max_packet_len E \<and> e_max_packet_len E > 0 then Some (0, inp, fail_rpc_connection (-1) c)
        else if packet_len = 4 then tcp_rpcs_parse_execute E execute fallback (drop 4 inp) c
        else if n < 16 then Some (0, inp, fail_rpc_connection (-1) c)
        else if len < n then Some (int n - int len, inp, c)
        else let msg = take (n - 4) inp; rest = drop n inp in
          if le32 (drop (n - 4) inp) \<noteq> custom_crc E c msg then Some (0, rest, fail_rpc_connection (-1) c)
          else let packet_num = le32 (drop 4 msg); msg = drop 8 msg; packet_type = le32 msg;
              c = (if in_packet_num (rc_data c) = -3 then upd_data (\<lambda>d. d\<lparr>in_packet_num := 0\<rparr>) c else c);
              next = upd_data (\<lambda>d. d\<lparr>in_packet_num := in_packet_num d + 1\<rparr>) in
            if \<not> has_crypto_flag c RPCF_SEQNO_HOLES \<and> packet_num \<noteq> in_packet_num (rc_data c) then Some (0, rest, fail_rpc_connection (-1) c)
            else if sint packet_num < 0 then do {
              (res, c) \<leftarrow> rpcs_system_packet E packet_num msg c;
              if res < 0 then Some (0, rest, fail_rpc_connection res c)
              else tcp_rpcs_parse_execute E execute fallback rest (next c) }
            else do {
              let c = c\<lparr>rc_last_response_time := e_precise_now E\<rparr>;
              (res, c) \<leftarrow> (if packet_type = RPC_PING then tcp_rpcs_default_execute E packet_type msg c else execute packet_type msg c);
              tcp_rpcs_parse_execute E execute fallback rest (next c) })"
  by pat_completeness auto
termination
  by (relation "measure (\<lambda>(E, execute, fallback, inp, c). length inp)") (auto simp: Let_def)

declare tcp_rpcs_parse_execute.simps [simp del]

section \<open>Accepting a connection\<close>

definition tcp_rpcs_default_check_perm :: "rpc_env \<Rightarrow> u32" where
  "tcp_rpcs_default_check_perm E = RPCF_ALLOW_ENC OR RPCF_REQ_DH OR e_flags E"

definition tcp_rpcs_init_accepted :: "rpc_env \<Rightarrow> u32 option \<Rightarrow> rpc_connection \<Rightarrow> int \<times> rpc_connection" where
  "tcp_rpcs_init_accepted E perm c =
     (let c = upd_data (\<lambda>d. d\<lparr>rd_crc32c := False\<rparr>) (c\<lparr>rc_last_query_sent_time := e_precise_now E\<rparr>);
          ready = (\<lambda>f. (0, upd_data (\<lambda>d. d\<lparr>crypto_flags := f, in_packet_num := -2, out_packet_num := -2\<rparr>) c)) in
      case perm of
        None \<Rightarrow> ready RPCF_ALLOW_UNENC
      | Some res \<Rightarrow>
          if sint res < 0 then (sint res, c)
          else let res = res AND perm_mask in
            if res AND (RPCF_ALLOW_UNENC OR RPCF_ALLOW_ENC) = 0 then (-1, c) else ready res)"

definition tcp_rpcs_init_accepted_nohs :: "bool \<Rightarrow> rpc_connection \<Rightarrow> int \<times> rpc_connection" where
  "tcp_rpcs_init_accepted_nohs has_rpc_ready c =
     (let c = upd_data (\<lambda>d. d\<lparr>crypto_flags := RPCF_QUICKACK OR RPCF_ALLOW_UNENC, in_packet_num := -3, rd_crc32c := False\<rparr>) c
      in (0, if has_rpc_ready then c\<lparr>rc_notified := rc_notified c + 1\<rparr> else c))"

end
