(* ===== verification/RpcHandshake.thy ===== *)
theory RpcHandshake
  imports RpcServer "HOL-Library.Sublist"
begin

text \<open>
  The two sides of the handshake together: what one writes the other reads, both derive the same keys, and a connection that must
  be encrypted is.
\<close>

section \<open>Packets\<close>

lemma le16_bytes16 [simp]: "le16 (bytes16 w @ r) = w"
proof (rule bit_word_eqI)
  fix n assume "n < LENGTH(16)"
  then consider "n < 8" | "8 \<le> n" "n < 16" by fastforce
  then show "bit (le16 (bytes16 w @ r)) n = bit w n" by cases (auto simp: le16_def bytes16_def bit_simps)
qed

lemma le32_bytes32_only [simp]: "le32 (bytes32 w) = w"
  using le32_bytes32 [of w "[]"] by simp

lemma pid_bytes_length [simp]: "length (pid_bytes p) = 12"
  by (simp add: pid_bytes_def)

lemma pid_of_bytes [simp]: "pid_of (pid_bytes p @ r) = p"
  by (simp add: pid_of_def pid_bytes_def)

lemma handshake_fields:
  "length (handshake_bytes f a b) = 32" "le32 (handshake_bytes f a b) = RPC_HANDSHAKE" "le32 (drop 4 (handshake_bytes f a b)) = f"
  "pid_of (drop 8 (handshake_bytes f a b)) = a" "pid_of (drop 20 (handshake_bytes f a b)) = b"
  using pid_of_bytes [of b "[]"] by (simp_all add: handshake_bytes_def)

text \<open>A nonce packet without extra keys.\<close>

definition plain_nonce :: "nonce_packet \<Rightarrow> bool" where
  "plain_nonce p \<longleftrightarrow> length (np_crypto_nonce p) = 16 \<and> np_extra p = [] \<and>
     (np_crypto_schema p = RPC_CRYPTO_AES \<and> np_dh p = None \<or>
      np_crypto_schema p = RPC_CRYPTO_AES_DH \<and> (\<exists>sel g. np_dh p = Some (sel, g) \<and> length g = 256))"

lemma nonce_fields:
  assumes "plain_nonce p"
  shows "length (nonce_packet_bytes p) = (if np_dh p = None then 32 else 296)" "le32 (nonce_packet_bytes p) = RPC_NONCE"
    "le32 (drop 4 (nonce_packet_bytes p)) = np_key_select p" "le32 (drop 8 (nonce_packet_bytes p)) = np_crypto_schema p"
    "le32 (drop 12 (nonce_packet_bytes p)) = np_crypto_ts p" "take 16 (drop 16 (nonce_packet_bytes p)) = np_crypto_nonce p"
    "nonce_size_ok (nonce_packet_bytes p)" "np_crypto_schema p = RPC_CRYPTO_AES_DH \<Longrightarrow> Some (dh_part (nonce_packet_bytes p)) = np_dh p"
    "np_crypto_schema p = RPC_CRYPTO_AES_DH \<Longrightarrow> extra_key_select (nonce_packet_bytes p) = []"
  using assms
  by (auto simp: plain_nonce_def nonce_packet_bytes_def nonce_size_ok_def rpc_crypto_defs extra_keys_count_def dh_part_def extra_key_select_def Let_def)

section \<open>Frames\<close>

definition rpc_frame :: "(bytes \<Rightarrow> u32) \<Rightarrow> u32 \<Rightarrow> bytes \<Rightarrow> bytes" where
  "rpc_frame crc num raw = (let r = bytes32 (word_of_nat (length raw + 12)) @ bytes32 num @ raw in r @ bytes32 (crc r))"

text \<open>Packets that may be sent.\<close>

definition packet_size_ok :: "rpc_env \<Rightarrow> bytes \<Rightarrow> bool" where
  "packet_size_ok E raw \<longleftrightarrow> length raw mod 4 = 0 \<and> 4 \<le> length raw \<and> length raw + 12 < 2 ^ 26 \<and>
     (e_max_packet_len E \<le> 0 \<or> int (length raw) + 12 \<le> e_max_packet_len E)"

lemma frame_len:
  assumes "packet_size_ok E raw"
  defines "w \<equiv> word_of_nat (length raw + 12) :: u32"
  shows "unat w = length raw + 12" "sint w = int (length raw) + 12" "w AND 0xc0000003 = 0" "w AND 3 = 0" "w \<noteq> 4"
proof -
  have b: "length raw + 12 < 2 ^ 26" "(length raw + 12) mod 4 = 0" "4 \<le> length raw"
    using assms(1) unfolding packet_size_ok_def by (simp_all, presburger)
  show u: "unat w = length raw + 12" unfolding w_def using unat_len [OF b(1)] .
  show "sint w = int (length raw) + 12" using sint_len [of w] u b(1) by simp
  show "w \<noteq> 4" using u b(3) by auto
  have "unat (w AND 3) = 0" using and_3_mod [of w] u b(2) by simp
  then show 3: "w AND 3 = 0" by (simp add: unat_eq_0)
  have "unat w < 2 ^ 26" using u b(1) by simp
  then have "w AND 0xc0000000 = 0" by (rule and_high_zero)
  moreover have "(0xc0000003 :: u32) = 0xc0000000 OR 3" by simp
  then have "w AND 0xc0000003 = (w AND 0xc0000000) OR (w AND 3)" by (simp only: bit.conj_disj_distrib)
  ultimately show "w AND 0xc0000003 = 0" using 3 by simp
qed

lemma frame_fields:
  fixes raw rest :: bytes and crc :: "bytes \<Rightarrow> u32" and num :: u32
  assumes "packet_size_ok E raw"
  defines "inp \<equiv> rpc_frame crc num raw @ rest" and "n \<equiv> length raw + 12" and "r \<equiv> bytes32 (word_of_nat (length raw + 12)) @ bytes32 num @ raw"
  shows "length inp = n + length rest" "le32 inp = word_of_nat n" "take (n - 4) inp = r" "drop n inp = rest" "le32 (drop (n - 4) inp) = crc r"
    "le32 (drop 4 r) = num" "drop 8 r = raw"
  using assms by (simp_all add: rpc_frame_def Let_def)

text \<open>A frame with the expected number is taken off the input.\<close>

lemma rpcc_frame:
  assumes sz: "packet_size_ok E raw" and num: "num = in_packet_num (rc_data c)"
  shows "tcp_rpcc_parse_execute E execute (rpc_frame (custom_crc E c) num raw @ rest) c =
    (let c = upd_data (\<lambda>d. d\<lparr>in_packet_num := in_packet_num d + 1\<rparr>) c in
     if sint num < 0 then do {
       (res, c) \<leftarrow> rpcc_system_packet E (length rest) num raw c;
       if res < 0 then Some (0, rest, fail_rpc_connection res c) else tcp_rpcc_parse_execute E execute rest c }
     else do {
       (res, c) \<leftarrow> (if le32 raw = RPC_PING then tcp_rpc_default_execute E (le32 raw) raw c else execute (le32 raw) raw c);
       tcp_rpcc_parse_execute E execute rest c })"
proof -
  let ?w = "word_of_nat (length raw + 12) :: u32"
  note f = frame_fields(1-5) [OF sz, where crc = "custom_crc E c" and num = num and rest = rest] frame_fields(6,7) [OF sz, where num = num] and w = frame_len [OF sz]
  have m: "0 < e_max_packet_len E \<longrightarrow> \<not> e_max_packet_len E < int (length raw) + 12" "\<not> length raw < 4"
    using sz by (auto simp: packet_size_ok_def)
  show ?thesis
    unfolding tcp_rpcc_parse_execute.simps [of E execute "rpc_frame (custom_crc E c) num raw @ rest" c] f Let_def w(1)
    using w m num f by (cases "0 < e_max_packet_len E") simp_all
qed

lemma rpcs_frame:
  assumes sz: "packet_size_ok E raw" and num: "num = in_packet_num (rc_data c)" "num \<noteq> -3"
    and c: "\<not> rc_error_flag c" "\<not> rc_stopparse c" "\<not> has_crypto_flag c RPCF_QUICKACK"
  shows "tcp_rpcs_parse_execute E execute fallback (rpc_frame (custom_crc E c) num raw @ rest) c =
    (let next = upd_data (\<lambda>d. d\<lparr>in_packet_num := in_packet_num d + 1\<rparr>) in
     if sint num < 0 then do {
       (res, c) \<leftarrow> rpcs_system_packet E num raw c;
       if res < 0 then Some (0, rest, fail_rpc_connection res c) else tcp_rpcs_parse_execute E execute fallback rest (next c) }
     else do {
       let c = c\<lparr>rc_last_response_time := e_precise_now E\<rparr>;
       (res, c) \<leftarrow> (if le32 raw = RPC_PING then tcp_rpcs_default_execute E (le32 raw) raw c else execute (le32 raw) raw c);
       tcp_rpcs_parse_execute E execute fallback rest (next c) })"
proof -
  let ?w = "word_of_nat (length raw + 12) :: u32"
  note f = frame_fields(1-5) [OF sz, where crc = "custom_crc E c" and num = num and rest = rest] frame_fields(6,7) [OF sz, where num = num] and w = frame_len [OF sz]
  have m: "0 < e_max_packet_len E \<longrightarrow> \<not> e_max_packet_len E < int (length raw) + 12" "\<not> length raw < 4"
    using sz by (auto simp: packet_size_ok_def)
  have q: "has_crypto_flag c RPCF_QUICKACK = False" using c(3) by simp
  show ?thesis
    unfolding tcp_rpcs_parse_execute.simps [of E execute fallback "rpc_frame (custom_crc E c) num raw @ rest" c] q Let_def if_False f w(1)
    using w m num f c by (cases "0 < e_max_packet_len E") simp_all
qed

lemma parse_empty [simp]:
  "tcp_rpcc_parse_execute E execute [] c = Some (0, [], c)"
  "tcp_rpcs_parse_execute E execute fallback [] c = Some (NEED_MORE_BYTES, [], c)"
  by (simp_all add: tcp_rpcc_parse_execute.simps tcp_rpcs_parse_execute.simps)

section \<open>Encryption that is required\<close>

lemma flag_or: "((f :: u32) OR g) AND m = 0 \<longleftrightarrow> f AND m = 0 \<and> g AND m = 0"
  by (simp add: bit.conj_disj_distrib2 or_eq_0_iff)

lemma flag_and: "(f :: u32) AND m = 0 \<Longrightarrow> (f AND g) AND m = 0"
  by (metis and.assoc and.commute and_zero_eq)

lemma flag_or_other: "(g :: u32) AND m = 0 \<Longrightarrow> (f OR g) AND m = f AND m"
  by (simp add: bit.conj_disj_distrib2)

lemma flag_not_other: "NOT (g :: u32) AND m = m \<Longrightarrow> (f AND NOT g) AND m = f AND m"
  by (simp add: and.assoc)

text \<open>
  Keys made from the secret of this server, from its nonce and from the nonce packet \<open>P\<close> of the client, whose time is not more
  than 30 seconds away. The temporary key is the one of the key exchange with the value that \<open>P\<close> carries, or there is none, if
  \<open>opt\<close> says that the key exchange is optional.
\<close>

definition dh_key :: "rpc_env \<Rightarrow> bytes \<Rightarrow> bytes \<Rightarrow> bool" where
  "dh_key E P t \<longleftrightarrow> (\<exists>g_b rnd. dh_second_round (snd (dh_part P)) (e_rnd E) = Some (256, t, g_b, rnd))"

definition keys_made :: "rpc_env \<Rightarrow> host \<Rightarrow> host \<Rightarrow> bool \<Rightarrow> bytes \<Rightarrow> aes_key_data \<Rightarrow> bool" where
  "keys_made E our remote opt P k \<longleftrightarrow> sint (c_abs (le32 (drop 12 P) - e_time E)) \<le> 30 \<and>
     (\<exists>t. (opt \<and> t = [] \<or> dh_key E P t) \<and>
       aes_create_keys (e_md5 E) (e_sha1 E) False (e_nonce E) (take 16 (drop 16 P)) (le32 (drop 12 P)) (our\<lparr>h_ip := e_nat E (h_ip our)\<rparr>)
         (remote\<lparr>h_ip := e_nat E (h_ip remote)\<rparr>) (e_secret E) t = Some (Inr k))"

definition dh_required :: "rpc_connection \<Rightarrow> bool" where
  "dh_required c \<longleftrightarrow> has_crypto_flag c RPCF_REQ_DH \<and> \<not> has_crypto_flag c RPCF_ALLOW_SKIP_DH"

text \<open>The invariant; \<open>S\<close> is the stream of bytes from the client.\<close>

definition enc_inv :: "rpc_env \<Rightarrow> host \<Rightarrow> host \<Rightarrow> bool \<Rightarrow> bytes \<Rightarrow> rpc_connection \<Rightarrow> bool" where
  "enc_inv E our remote opt S c \<longleftrightarrow> \<not> has_crypto_flag c RPCF_ALLOW_UNENC \<and> \<not> has_crypto_flag c RPCF_SEQNO_HOLES \<and> \<not> has_crypto_flag c RPCF_QUICKACK \<and>
     rc_our c = our \<and> rc_remote c = remote \<and> (opt \<or> dh_required c) \<and>
     (in_packet_num (rc_data c) = -2 \<and> rc_crypto c = None \<or>
      in_packet_num (rc_data c) \<noteq> -3 \<and> (\<exists>k P. rc_crypto c = Some k \<and> sublist P S \<and> keys_made E our remote opt P k))"

lemma send_init_keeps:
  assumes "tcp_rpc_conn_send_data_init E Q c = Some c'"
  shows "crypto_flags (rc_data c') = crypto_flags (rc_data c)" "in_packet_num (rc_data c') = in_packet_num (rc_data c)" "rc_crypto c' = rc_crypto c"
    "rc_our c' = rc_our c" "rc_remote c' = rc_remote c"
  using assms by (auto simp: tcp_rpc_conn_send_data_init_def tcp_rpc_conn_send_init_def send_frame_def upd_data_def Let_def bind_eq_Some_conv)

text \<open>What a step of the handshake leaves as it is. Of the flags, it sets none of those that were not agreed on, and a key exchange that is
  required stays so.\<close>

definition hs_keeps :: "rpc_connection \<Rightarrow> rpc_connection \<Rightarrow> bool" where
  "hs_keeps c c' \<longleftrightarrow> rc_our c' = rc_our c \<and> rc_remote c' = rc_remote c \<and> in_packet_num (rc_data c') = in_packet_num (rc_data c) \<and>
     (\<forall>m\<in>{RPCF_ALLOW_UNENC, RPCF_SEQNO_HOLES, RPCF_QUICKACK}. \<not> has_crypto_flag c m \<longrightarrow> \<not> has_crypto_flag c' m) \<and>
     (dh_required c \<longrightarrow> dh_required c')"

lemma hs_keeps_refl [simp]: "hs_keeps c c"
  by (simp add: hs_keeps_def)

lemma hs_keeps_trans: "hs_keeps a b \<Longrightarrow> hs_keeps b c \<Longrightarrow> hs_keeps a c"
  by (auto simp: hs_keeps_def)

lemma hs_keeps_same: "rc_our c' = rc_our c \<Longrightarrow> rc_remote c' = rc_remote c \<Longrightarrow> in_packet_num (rc_data c') = in_packet_num (rc_data c) \<Longrightarrow>
    crypto_flags (rc_data c') = crypto_flags (rc_data c) \<Longrightarrow> hs_keeps c c'"
  by (simp add: hs_keeps_def has_crypto_flag_def dh_required_def)

lemmas dh_flags = dh_required_def has_crypto_flag_def upd_data_def flag_or_other flag_not_other rpcf_defs

lemma dh_accept_keeps: "tcp_add_dh_accept E c = (r, c') \<Longrightarrow> rc_data c' = rc_data c \<and> rc_our c' = rc_our c \<and> rc_remote c' = rc_remote c \<and>
    rc_crypto c' = rc_crypto c \<and> rc_dh_select c' = rc_dh_select c"
  by (auto simp: tcp_add_dh_accept_def Let_def split: if_split_asm)

lemma rpcs_dh_keeps:
  assumes "rpcs_dh E P c = Some (r, c')"
  shows "rc_data c' = rc_data c \<and> rc_our c' = rc_our c \<and> rc_remote c' = rc_remote c \<and> rc_crypto c' = rc_crypto c"
  using assms dh_accept_keeps [of E c]
  by (auto simp: rpcs_dh_def Let_def bind_eq_Some_conv split: if_split_asm prod.split_asm)

lemma rpcs_dh_result:
  assumes "rpcs_dh E P c = Some (Some (t, nd), c')" "opt \<or> has_crypto_flag c RPCF_REQ_DH"
  shows "opt \<and> t = [] \<or> dh_key E P t"
proof (cases "has_crypto_flag c RPCF_REQ_DH")
  case True
  then obtain g_b rnd where "dh_second_round (snd (dh_part P)) (e_rnd E) = Some (256, t, g_b, rnd)"
    using assms(1) by (auto simp: rpcs_dh_def Let_def bind_eq_Some_conv split: if_split_asm prod.split_asm)
  then show ?thesis unfolding dh_key_def by blast
next
  case False
  then show ?thesis using assms by (auto simp: rpcs_dh_def)
qed

lemma rpcs_make_keys_inv:
  assumes "rpcs_make_keys E P t nd c = Some (res, c')" "sint (c_abs (le32 (drop 12 P) - e_time E)) \<le> 30" "opt \<and> t = [] \<or> dh_key E P t"
  shows "hs_keeps c c' \<and> (res < 0 \<and> rc_crypto c' = rc_crypto c \<or> (\<exists>k. rc_crypto c' = Some k \<and> keys_made E (rc_our c) (rc_remote c) opt P k))"
proof -
  let ?c = "upd_data (\<lambda>d. d\<lparr>rd_nonce := e_nonce E\<rparr>) c"
  obtain k where k: "aes_create_keys (e_md5 E) (e_sha1 E) False (e_nonce E) (take 16 (drop 16 P)) (le32 (drop 12 P))
       ((rc_our c)\<lparr>h_ip := e_nat E (h_ip (rc_our c))\<rparr>) ((rc_remote c)\<lparr>h_ip := e_nat E (h_ip (rc_remote c))\<rparr>) (e_secret E) t = Some k"
    using assms(1) by (auto simp: rpcs_make_keys_def upd_data_def bind_eq_Some_conv)
  show ?thesis
  proof (cases k)
    case (Inl e)
    then have "res = -1" "c' = ?c" using assms(1) k by (auto simp: rpcs_make_keys_def upd_data_def)
    then show ?thesis by (auto intro: hs_keeps_same simp: upd_data_def)
  next
    case (Inr k')
    let ?c3 = "upd_data (\<lambda>d. d\<lparr>crypto_flags := crypto_flags d OR RPCF_ENC_SENT\<rparr>) (?c\<lparr>rc_crypto := Some k'\<rparr>)"
    obtain Q where Q: "tcp_rpc_conn_send_data_init E Q ?c3 = Some c'"
      using assms(1) k Inr by (auto simp: rpcs_make_keys_def upd_data_def bind_eq_Some_conv Let_def)
    have "hs_keeps c ?c3" by (auto simp: hs_keeps_def dh_flags flag_or)
    moreover have "hs_keeps ?c3 c'" using send_init_keeps [OF Q] by (intro hs_keeps_same) auto
    moreover have "rc_crypto c' = Some k'" using send_init_keeps(3) [OF Q] by (simp add: upd_data_def)
    ultimately show ?thesis using k Inr assms(2,3) hs_keeps_trans unfolding keys_made_def by blast
  qed
qed

lemma rpcs_init_crypto_inv:
  assumes r: "tcp_rpcs_init_crypto E P ks c = Some (res, c')" and u: "\<not> has_crypto_flag c RPCF_ALLOW_UNENC"
    and ts: "sint (c_abs (le32 (drop 12 P) - e_time E)) \<le> 30" and o: "opt \<or> has_crypto_flag c RPCF_REQ_DH"
  shows "hs_keeps c c' \<and> (res < 0 \<and> rc_crypto c' = rc_crypto c \<or> (\<exists>k. rc_crypto c' = Some k \<and> keys_made E (rc_our c) (rc_remote c) opt P k))"
proof -
  have nu: "crypto_flags (rc_data c) AND (RPCF_ALLOW_ENC OR RPCF_ALLOW_UNENC) \<noteq> RPCF_ALLOW_UNENC"
  proof
    assume a: "crypto_flags (rc_data c) AND (RPCF_ALLOW_ENC OR RPCF_ALLOW_UNENC) = RPCF_ALLOW_UNENC"
    have "crypto_flags (rc_data c) AND RPCF_ALLOW_UNENC = (crypto_flags (rc_data c) AND (RPCF_ALLOW_ENC OR RPCF_ALLOW_UNENC)) AND RPCF_ALLOW_UNENC"
      by (simp add: and.assoc rpcf_defs)
    also have "\<dots> = RPCF_ALLOW_UNENC" unfolding a by simp
    finally show False using u by (simp add: has_crypto_flag_def rpcf_defs)
  qed
  consider "res < 0" "c' = c" | r1 c1 where "rpcs_dh E P c = Some (r1, c1)"
      "(case r1 of None \<Rightarrow> Some (-1, c1) | Some (temp_dh, new_dh) \<Rightarrow> rpcs_make_keys E P temp_dh new_dh c1) = Some (res, c')"
    using r nu by (auto simp: tcp_rpcs_init_crypto_def Let_def bind_eq_Some_conv split: if_split_asm)
  then show ?thesis
  proof cases
    case (2 r1 c1)
    note d = rpcs_dh_keeps [OF 2(1)]
    have k: "hs_keeps c c1" using d by (intro hs_keeps_same) auto
    show ?thesis
    proof (cases r1)
      case None
      then show ?thesis using 2(2) d k by simp
    next
      case (Some p)
      then obtain t nd where m: "rpcs_make_keys E P t nd c1 = Some (res, c')" "r1 = Some (t, nd)" using 2(2) by (cases p) auto
      have "opt \<and> t = [] \<or> dh_key E P t" using rpcs_dh_result [OF 2(1) [unfolded m(2)] o] .
      from rpcs_make_keys_inv [OF m(1) ts this] show ?thesis using d hs_keeps_trans [OF k] by fastforce
    qed
  qed simp
qed

lemma rpcs_nonce_aes_inv:
  assumes r: "rpcs_nonce_aes E P ks c = Some (res, c')" and u: "\<not> has_crypto_flag c RPCF_ALLOW_UNENC"
  shows "hs_keeps c c' \<and> rc_crypto c' = rc_crypto c \<and> (res < 0 \<or> sint (c_abs (le32 (drop 12 P) - e_time E)) \<le> 30)"
proof -
  have un: "rpcs_unencrypted err c = (err, c)" for err using u by (simp add: rpcs_unencrypted_def)
  let ?c1 = "upd_data (\<lambda>d. d\<lparr>nonce_time := e_time E\<rparr>) c"
  let ?c2 = "upd_data (\<lambda>d. d\<lparr>crypto_flags := crypto_flags d AND NOT RPCF_ALLOW_UNENC\<rparr>) ?c1"
  have t: "nonce_time (rc_data ?c1) = e_time E" by (simp add: upd_data_def)
  consider "res < 0" "c' = c" | "res < 0" "c' = ?c1" | "c' = ?c2" "sint (c_abs (le32 (drop 12 P) - e_time E)) \<le> 30"
    using r un t by (auto simp: rpcs_nonce_aes_def bind_eq_Some_conv Let_def split: if_split_asm)
  moreover have "hs_keeps c ?c1" by (rule hs_keeps_same) (simp_all add: upd_data_def)
  moreover have "(f AND NOT RPCF_ALLOW_UNENC) AND m = f AND m" if "m \<in> {RPCF_REQ_DH, RPCF_ALLOW_SKIP_DH}" for f m
    using that by (intro flag_not_other) (auto simp: rpcf_defs)
  then have "hs_keeps c ?c2" using flag_and by (auto simp: hs_keeps_def dh_required_def has_crypto_flag_def upd_data_def)
  moreover have "rc_crypto ?c1 = rc_crypto c" "rc_crypto ?c2 = rc_crypto c" by (simp_all add: upd_data_def)
  ultimately show ?thesis by cases auto
qed

lemma ensure_dh_keeps:
  assumes "ensure_dh E c = Some c'"
  shows "rc_data c' = rc_data c \<and> rc_our c' = rc_our c \<and> rc_remote c' = rc_remote c \<and> rc_crypto c' = rc_crypto c"
  using assms by (auto simp: ensure_dh_def bind_eq_Some_conv)

lemma rpcs_finish_inv:
  assumes r: "rpcs_finish_nonce E P ks dh c = Some (res, c')" and u: "\<not> has_crypto_flag c RPCF_ALLOW_UNENC"
    and ts: "sint (c_abs (le32 (drop 12 P) - e_time E)) \<le> 30" and o: "opt \<or> dh_required c"
  shows "hs_keeps c c' \<and> (res < 0 \<and> rc_crypto c' = rc_crypto c \<or> (\<exists>k. rc_crypto c' = Some k \<and> keys_made E (rc_our c) (rc_remote c) opt P k))"
proof -
  define need where "need = (crypto_flags (rc_data c) AND (RPCF_REQ_DH OR RPCF_ALLOW_ENC) = RPCF_REQ_DH OR RPCF_ALLOW_ENC \<and> \<not> dh)"
  define c1 where "c1 = (if need then upd_data (\<lambda>d. d\<lparr>crypto_flags := crypto_flags d AND NOT (RPCF_REQ_DH OR RPCF_ALLOW_SKIP_DH)\<rparr>) c else c)"
  show ?thesis
  proof (cases "need \<and> \<not> has_crypto_flag c RPCF_ALLOW_SKIP_DH")
    case True
    then have "res = -7" "c' = c" using r by (auto simp: rpcs_finish_nonce_def Let_def need_def [symmetric])
    then show ?thesis by simp
  next
    case False
    then obtain r1 where i: "tcp_rpcs_init_crypto E P ks c1 = Some (r1, c')" "res = (if r1 < 0 then -6 else 0)"
      using r by (cases need) (auto simp: rpcs_finish_nonce_def Let_def need_def [symmetric] c1_def bind_eq_Some_conv)
    have k: "hs_keeps c c1" "rc_crypto c1 = rc_crypto c"
      using False flag_and by (auto simp: c1_def hs_keeps_def dh_required_def has_crypto_flag_def upd_data_def)
    then have "\<not> has_crypto_flag c1 RPCF_ALLOW_UNENC" "rc_our c1 = rc_our c" "rc_remote c1 = rc_remote c" using u by (auto simp: hs_keeps_def)
    moreover have "opt \<or> has_crypto_flag c1 RPCF_REQ_DH" using o k(1) by (auto simp: hs_keeps_def dh_required_def)
    ultimately show ?thesis using rpcs_init_crypto_inv [OF i(1) _ ts] i(2) k hs_keeps_trans [OF k(1)] by auto
  qed
qed

lemma rpcs_nonce_inv:
  assumes r: "tcp_rpcs_process_nonce_packet E P c = Some (res, c')" and u: "\<not> has_crypto_flag c RPCF_ALLOW_UNENC" and o: "opt \<or> dh_required c"
  shows "hs_keeps c c' \<and> (res < 0 \<and> rc_crypto c' = rc_crypto c \<or> (\<exists>k. rc_crypto c' = Some k \<and> keys_made E (rc_our c) (rc_remote c) opt P k))"
proof -
  have un: "rpcs_unencrypted err c = (err, c)" for err using u by (simp add: rpcs_unencrypted_def)
  consider "res < 0" "c' = c" | dh c1 ks r1 c2 where "rc_data c1 = rc_data c" "rc_our c1 = rc_our c" "rc_remote c1 = rc_remote c" "rc_crypto c1 = rc_crypto c"
      "rpcs_nonce_aes E P ks c1 = Some (r1, c2)" "(if r1 < 0 then Some (r1, c2) else rpcs_finish_nonce E P ks dh c2) = Some (res, c')"
  proof (cases "in_packet_num (rc_data c) \<noteq> -2 \<or> le32 P \<noteq> RPC_NONCE \<or> \<not> nonce_size_ok P \<or> le32 (drop 8 P) = RPC_CRYPTO_NONE")
    case True
    then have "res < 0 \<and> c' = c" using r un by (auto simp: tcp_rpcs_process_nonce_packet_def Let_def bind_eq_Some_conv split: if_split_asm)
    then show ?thesis using that(1) by blast
  next
    case False
    then obtain dh c1 ks r1 c2 where "(if le32 (drop 8 P) = RPC_CRYPTO_AES_DH then do {
             c \<leftarrow> ensure_dh E c;
             Some (fst (dh_part P) \<noteq> 0 \<and> fst (dh_part P) = rc_dh_select c, c) }
           else Some (False, c)) = Some (dh, c1)" "rpcs_nonce_aes E P ks c1 = Some (r1, c2)"
        "(if r1 < 0 then Some (r1, c2) else rpcs_finish_nonce E P ks dh c2) = Some (res, c')"
      using r by (simp add: tcp_rpcs_process_nonce_packet_def Let_def bind_eq_Some_conv split_beta) (elim exE conjE, rule that, auto)
    moreover from this(1) have "rc_data c1 = rc_data c" "rc_our c1 = rc_our c" "rc_remote c1 = rc_remote c" "rc_crypto c1 = rc_crypto c"
      using ensure_dh_keeps [of E c] by (auto simp: bind_eq_Some_conv split: if_split_asm)
    ultimately show ?thesis using that(2) by blast
  qed
  then show ?thesis
  proof cases
    case (2 dh c1 ks r1 c2)
    have k1: "hs_keeps c c1" using 2(1-4) by (intro hs_keeps_same) auto
    have u1: "\<not> has_crypto_flag c1 RPCF_ALLOW_UNENC" using u 2(1) by (simp add: has_crypto_flag_def)
    note a = rpcs_nonce_aes_inv [OF 2(5) u1]
    have k2: "hs_keeps c c2" using hs_keeps_trans [OF k1] a by blast
    then have s: "\<not> has_crypto_flag c2 RPCF_ALLOW_UNENC" "rc_our c2 = rc_our c" "rc_remote c2 = rc_remote c" "opt \<or> dh_required c2" using u o by (auto simp: hs_keeps_def)
    show ?thesis
    proof (cases "r1 < 0")
      case True
      then show ?thesis using 2(4,6) a k2 by auto
    next
      case False
      then have "rpcs_finish_nonce E P ks dh c2 = Some (res, c')" "sint (c_abs (le32 (drop 12 P) - e_time E)) \<le> 30" using 2(6) a by auto
      from rpcs_finish_inv [OF this(1) s(1) this(2) s(4)] show ?thesis using hs_keeps_trans [OF k2] a 2(4) s by auto
    qed
  qed simp
qed

lemma send_data_keeps:
  assumes "tcp_rpc_conn_send_data Q c = Some c'"
  shows "rc_data c' = rc_data c" "rc_crypto c' = rc_crypto c" "rc_our c' = rc_our c" "rc_remote c' = rc_remote c"
  using assms by (auto simp: tcp_rpc_conn_send_data_def tcp_rpc_conn_send_def bind_eq_Some_conv)

lemma send_im_keeps:
  assumes "tcp_rpc_conn_send_data_im E Q c = Some c'"
  shows "crypto_flags (rc_data c') = crypto_flags (rc_data c)" "in_packet_num (rc_data c') = in_packet_num (rc_data c)" "rc_crypto c' = rc_crypto c"
    "rc_our c' = rc_our c" "rc_remote c' = rc_remote c"
  using assms by (auto simp: tcp_rpc_conn_send_data_im_def tcp_rpc_conn_send_im_def send_frame_def upd_data_def Let_def bind_eq_Some_conv)

lemma rpcs_refuse_keeps: "rpcs_refuse code c = Some (res, c') \<Longrightarrow> hs_keeps c c' \<and> rc_crypto c' = rc_crypto c \<and> res = code"
  using send_data_keeps [of _ c] by (auto simp: rpcs_refuse_def bind_eq_Some_conv intro!: hs_keeps_same)

lemma rpcs_handshake_keeps:
  assumes "tcp_rpcs_process_handshake_packet E P c = Some (res, c')"
  shows "hs_keeps c c' \<and> rc_crypto c' = rc_crypto c"
proof -
  define c1 where "c1 = (if pid_ip (rc_PID c) = 0 then
         let PID = init_server_PID (e_getpid E) (e_time E) (h_ip (rc_our c)) (h_port (rc_our c)) (rc_PID c)
         in c\<lparr>rc_PID := (if pid_ip PID = 0 then PID\<lparr>pid_ip := e_my_ipv4 E\<rparr> else PID)\<rparr>
       else c)"
  have k1: "rc_data c1 = rc_data c" "rc_crypto c1 = rc_crypto c" "rc_our c1 = rc_our c" "rc_remote c1 = rc_remote c" by (simp_all add: c1_def Let_def)
  let ?c2 = "upd_data (\<lambda>d. d\<lparr>remote_pid := pid_of (drop 8 P)\<rparr>) c1"
  let ?c3 = "upd_data (\<lambda>d. d\<lparr>crypto_flags := crypto_flags d OR RPCF_USE_CRC32C\<rparr>) ?c2"
  have k: "hs_keeps c c1" "hs_keeps c ?c2" "hs_keeps c ?c3" using k1 by (auto simp: hs_keeps_def dh_flags flag_or)
  have x: "rc_crypto ?c2 = rc_crypto c" "rc_crypto ?c3 = rc_crypto c" using k1 by (simp_all add: upd_data_def)
  consider "c' = c1" | "c' = ?c2" | "c' = ?c3" | code where "rpcs_refuse code c1 = Some (res, c')" | code where "rpcs_refuse code ?c2 = Some (res, c')"
    using assms by (auto simp: tcp_rpcs_process_handshake_packet_def c1_def [symmetric] Let_def bind_eq_Some_conv split: if_split_asm)
  then show ?thesis using k k1(2) x by cases (auto dest!: rpcs_refuse_keeps intro: hs_keeps_trans)
qed

lemma rpcs_system_inv:
  assumes r: "rpcs_system_packet E num msg c = Some (res, c')" and u: "\<not> has_crypto_flag c RPCF_ALLOW_UNENC" and o: "opt \<or> dh_required c"
  shows "hs_keeps c c' \<and> (rc_crypto c' = rc_crypto c \<and> (res < 0 \<or> num = -1) \<or> (\<exists>k. rc_crypto c' = Some k \<and> keys_made E (rc_our c) (rc_remote c) opt msg k)) \<and>
    (0 \<le> res \<longrightarrow> num = -2 \<or> num = -1)"
proof -
  consider "num = -2" | "num = -1" | "num \<noteq> -2" "num \<noteq> -1" by blast
  then show ?thesis
  proof cases
    case 1
    then show ?thesis using rpcs_nonce_inv [OF _ u o] r by (auto simp: rpcs_system_packet_def)
  next
    case 2
    then obtain r1 c1 where 1: "tcp_rpcs_process_handshake_packet E msg c = Some (r1, c1)" using r by (auto simp: rpcs_system_packet_def bind_eq_Some_conv)
    note k = rpcs_handshake_keeps [OF 1]
    show ?thesis
    proof (cases "r1 < 0")
      case True
      then show ?thesis using r 1 2 k by (auto simp: rpcs_system_packet_def)
    next
      case False
      then obtain r2 c2 where 3: "tcp_rpcs_send_handshake_packet E c1 = Some (r2, c2)"
        "c' = (if has_crypto_flag c2 RPCF_USE_CRC32C then upd_data (\<lambda>d. d\<lparr>rd_crc32c := True\<rparr>) c2 else c2)\<lparr>rc_notified := rc_notified c2 + 1\<rparr>"
        using r 1 2 by (auto simp: rpcs_system_packet_def bind_eq_Some_conv Let_def upd_data_def split: if_split_asm)
      have 4: "hs_keeps c1 c2" "rc_crypto c2 = rc_crypto c1"
        using 3(1) send_im_keeps [of E _ c1] by (auto simp: tcp_rpcs_send_handshake_packet_def bind_eq_Some_conv intro!: hs_keeps_same)
      have 5: "hs_keeps c2 c'" "rc_crypto c' = rc_crypto c2" using 3(2) by (auto simp: upd_data_def intro!: hs_keeps_same)
      have "hs_keeps c c'" using hs_keeps_trans [OF hs_keeps_trans [OF _ 4(1)] 5(1)] k by blast
      then show ?thesis using k 2 4(2) 5(2) by simp
    qed
  next
    case 3
    then show ?thesis using r by (simp add: rpcs_system_packet_def)
  qed
qed

text \<open>One round of the loop, on a connection without the flags for other modes.\<close>

definition next_packet :: "rpc_connection \<Rightarrow> rpc_connection" where
  "next_packet = upd_data (\<lambda>d. d\<lparr>in_packet_num := in_packet_num d + 1\<rparr>)"

lemma if_eqE: "(if P then x else y) = z \<Longrightarrow> (P \<Longrightarrow> x = z \<Longrightarrow> R) \<Longrightarrow> (\<not> P \<Longrightarrow> y = z \<Longrightarrow> R) \<Longrightarrow> R"
  by (cases P) auto

lemma rpcs_parse_step:
  assumes r: "tcp_rpcs_parse_execute E execute None inp c = Some (r, rest, c')"
    and c: "\<not> has_crypto_flag c RPCF_QUICKACK" "\<not> has_crypto_flag c RPCF_SEQNO_HOLES" "in_packet_num (rc_data c) \<noteq> -3"
  shows "c' = c \<and> suffix rest inp \<or> (\<exists>e. c' = fail_rpc_connection e c \<and> suffix rest inp) \<or>
    (\<exists>inp1. length inp1 < length inp \<and> suffix inp1 inp \<and>
      (tcp_rpcs_parse_execute E execute None inp1 c = Some (r, rest, c') \<or>
       (\<exists>msg res c1. sublist msg inp \<and> sint (in_packet_num (rc_data c)) < 0 \<and> rpcs_system_packet E (in_packet_num (rc_data c)) msg c = Some (res, c1) \<and>
         (res < 0 \<and> c' = fail_rpc_connection res c1 \<and> suffix rest inp \<or> 0 \<le> res \<and> tcp_rpcs_parse_execute E execute None inp1 (next_packet c1) = Some (r, rest, c'))) \<or>
       (\<exists>op msg res c1. \<not> sint (in_packet_num (rc_data c)) < 0 \<and>
         (tcp_rpcs_default_execute E op msg (c\<lparr>rc_last_response_time := e_precise_now E\<rparr>) = Some (res, c1) \<or>
          execute op msg (c\<lparr>rc_last_response_time := e_precise_now E\<rparr>) = Some (res, c1)) \<and>
         tcp_rpcs_parse_execute E execute None inp1 (next_packet c1) = Some (r, rest, c'))))"
proof -
  have q: "has_crypto_flag c RPCF_QUICKACK = False" "has_crypto_flag c RPCF_SEQNO_HOLES = False" "(in_packet_num (rc_data c) = -3) = False" using c by simp_all
  define n where "n = unat (le32 inp)"
  define msg where "msg = drop 8 (take (n - 4) inp)"
  note eq0 = r [unfolded tcp_rpcs_parse_execute.simps [of E execute None inp c] q Let_def if_False, folded next_packet_def n_def, folded msg_def]
  have sub: "sublist msg inp"
    unfolding msg_def using sublist_order.order_trans [OF sublist_drop [of 8 "take (n - 4) inp"] sublist_take] .
  consider "c' = c" "suffix rest inp" | e where "c' = fail_rpc_connection e c" "suffix rest inp" | "4 \<le> length inp" "tcp_rpcs_parse_execute E execute None (drop 4 inp) c = Some (r, rest, c')"
    | res c1 where "16 \<le> n" "n \<le> length inp" "sint (in_packet_num (rc_data c)) < 0" "rpcs_system_packet E (in_packet_num (rc_data c)) msg c = Some (res, c1)"
       "(if res < 0 then Some (0, drop n inp, fail_rpc_connection res c1) else tcp_rpcs_parse_execute E execute None (drop n inp) (next_packet c1)) = Some (r, rest, c')"
    | res c1 where "16 \<le> n" "n \<le> length inp" "\<not> sint (in_packet_num (rc_data c)) < 0"
       "(if le32 msg = RPC_PING then tcp_rpcs_default_execute E (le32 msg) msg (c\<lparr>rc_last_response_time := e_precise_now E\<rparr>)
         else execute (le32 msg) msg (c\<lparr>rc_last_response_time := e_precise_now E\<rparr>)) = Some (res, c1)"
       "tcp_rpcs_parse_execute E execute None (drop n inp) (next_packet c1) = Some (r, rest, c')"
    using eq0
    apply (elim if_eqE)
    subgoal by (rule that(1)) auto
    subgoal by (rule that(1)) auto
    subgoal by simp
    subgoal by (rule that(2) [of "-1"]) auto
    subgoal by (rule that(2) [of "-1"]) auto
    subgoal by (rule that(3)) auto
    subgoal by (rule that(2) [of "-1"]) auto
    subgoal by (rule that(1)) auto
    subgoal by (rule that(2) [of "-1"]) (auto simp: suffix_drop)
    subgoal by (rule that(2) [of "-1"]) (auto simp: suffix_drop)
    subgoal using that(4) by (auto simp: bind_eq_Some_conv)
    subgoal using that(5) by (auto simp: bind_eq_Some_conv)
    done
  then show ?thesis
  proof cases
    case 3
    then show ?thesis by (intro disjI2 exI [of _ "drop 4 inp"]) (auto simp: suffix_drop)
  next
    case (4 res c1)
    then show ?thesis using sub by (intro disjI2 exI [of _ "drop n inp"]) (auto simp: suffix_drop split: if_split_asm)
  next
    case (5 res c1)
    then show ?thesis by (intro disjI2 exI [of _ "drop n inp"]) (auto simp: suffix_drop split: if_split_asm)
  qed auto
qed

text \<open>An operation that leaves the state of the handshake alone.\<close>

definition leaves_alone :: "rpc_execute \<Rightarrow> bool" where
  "leaves_alone execute \<longleftrightarrow> (\<forall>op raw c res c'. execute op raw c = Some (res, c') \<longrightarrow>
     rc_data c' = rc_data c \<and> rc_crypto c' = rc_crypto c \<and> rc_our c' = rc_our c \<and> rc_remote c' = rc_remote c)"

lemma enc_inv_same: "enc_inv E our remote opt S c \<Longrightarrow> rc_data c' = rc_data c \<Longrightarrow> rc_crypto c' = rc_crypto c \<Longrightarrow> rc_our c' = rc_our c \<Longrightarrow>
    rc_remote c' = rc_remote c \<Longrightarrow> enc_inv E our remote opt S c'"
  by (simp add: enc_inv_def has_crypto_flag_def dh_required_def)

lemma fail_keeps: "rc_data (fail_rpc_connection e c) = rc_data c" "rc_crypto (fail_rpc_connection e c) = rc_crypto c"
    "rc_our (fail_rpc_connection e c) = rc_our c" "rc_remote (fail_rpc_connection e c) = rc_remote c"
  by (simp_all add: fail_rpc_connection_def Let_def)

lemma enc_inv_fail: "enc_inv E our remote opt S c \<Longrightarrow> enc_inv E our remote opt S (fail_rpc_connection e c)"
  by (rule enc_inv_same) (simp_all add: fail_keeps)

lemma enc_inv_system:
  assumes I: "enc_inv E our remote opt S c" and r: "rpcs_system_packet E (in_packet_num (rc_data c)) msg c = Some (res, c1)" and m: "sublist msg S"
  shows "enc_inv E our remote opt S c1 \<and> (0 \<le> res \<longrightarrow> enc_inv E our remote opt S (next_packet c1))"
proof -
  have u: "\<not> has_crypto_flag c RPCF_ALLOW_UNENC" "opt \<or> dh_required c" using I by (simp_all add: enc_inv_def)
  note s = rpcs_system_inv [OF r u]
  have "in_packet_num (rc_data c) + 1 \<noteq> -3" if "0 \<le> res" using s that by auto
  moreover have "enc_inv E our remote opt S c1" using I s m unfolding enc_inv_def hs_keeps_def by auto
  moreover have "\<exists>k P. rc_crypto c1 = Some k \<and> sublist P S \<and> keys_made E our remote opt P k" if "0 \<le> res"
    using I s m that unfolding enc_inv_def hs_keeps_def by auto
  moreover have "in_packet_num (rc_data c1) = in_packet_num (rc_data c)" using s by (simp add: hs_keeps_def)
  ultimately show ?thesis by (auto simp: enc_inv_def next_packet_def upd_data_def has_crypto_flag_def dh_required_def)
qed

lemma enc_inv_data:
  assumes I: "enc_inv E our remote opt S c" and n: "\<not> sint (in_packet_num (rc_data c)) < 0"
    and s: "rc_data c1 = rc_data c" "rc_crypto c1 = rc_crypto c" "rc_our c1 = rc_our c" "rc_remote c1 = rc_remote c"
  shows "enc_inv E our remote opt S (next_packet c1)"
proof -
  have "in_packet_num (rc_data c) \<noteq> -2" using n by auto
  moreover have "in_packet_num (rc_data c) + 1 \<noteq> -3"
  proof
    assume "in_packet_num (rc_data c) + 1 = -3"
    then have "in_packet_num (rc_data c) = -4" by (simp add: eq_neg_iff_add_eq_0 add.commute)
    then show False using n by simp
  qed
  ultimately show ?thesis using I s by (auto simp: enc_inv_def next_packet_def upd_data_def has_crypto_flag_def dh_required_def)
qed

lemma rpcs_parse_inv:
  assumes "leaves_alone execute" "enc_inv E our remote opt S c" "sublist inp S" "tcp_rpcs_parse_execute E execute None inp c = Some (r, rest, c')"
  shows "enc_inv E our remote opt S c' \<and> suffix rest inp"
  using assms(2-4)
proof (induction "length inp" arbitrary: inp c rule: less_induct)
  case less
  have c: "\<not> has_crypto_flag c RPCF_QUICKACK" "\<not> has_crypto_flag c RPCF_SEQNO_HOLES" "in_packet_num (rc_data c) \<noteq> -3"
    using less.prems(1) by (auto simp: enc_inv_def)
  have sub: "sublist i S" if "suffix i inp" for i using sublist_order.order_trans [OF suffix_imp_sublist [OF that] less.prems(2)] .
  have suf: "suffix j inp" if "suffix j i" "suffix i inp" for i j using suffix_order.order_trans [OF that] .
  show ?case
    using rpcs_parse_step [OF less.prems(3) c]
  proof (elim disjE exE conjE)
    fix inp1 op msg res c1
    let ?c = "c\<lparr>rc_last_response_time := e_precise_now E\<rparr>"
    assume l: "length inp1 < length inp" "suffix inp1 inp" and n: "\<not> sint (in_packet_num (rc_data c)) < 0"
      and p: "tcp_rpcs_parse_execute E execute None inp1 (next_packet c1) = Some (r, rest, c')"
    have go: "enc_inv E our remote opt S c' \<and> suffix rest inp"
      if "rc_data c1 = rc_data c \<and> rc_crypto c1 = rc_crypto c \<and> rc_our c1 = rc_our c \<and> rc_remote c1 = rc_remote c"
      using less.hyps [OF l(1) _ sub [OF l(2)] p] enc_inv_data [OF less.prems(1) n, of c1] that suf [OF _ l(2)] by blast
    {
      assume "execute op msg ?c = Some (res, c1)"
      then have "rc_data c1 = rc_data ?c \<and> rc_crypto c1 = rc_crypto ?c \<and> rc_our c1 = rc_our ?c \<and> rc_remote c1 = rc_remote ?c"
        using assms(1) unfolding leaves_alone_def by blast
      then show ?thesis using go by simp
    next
      assume "tcp_rpcs_default_execute E op msg ?c = Some (res, c1)"
      then have "rc_data c1 = rc_data c \<and> rc_crypto c1 = rc_crypto c \<and> rc_our c1 = rc_our c \<and> rc_remote c1 = rc_remote c"
        using send_data_keeps by (fastforce simp: tcp_rpcs_default_execute_def bind_eq_Some_conv split: if_split_asm)
      then show ?thesis by (rule go)
    }
  next
    fix inp1
    assume l: "length inp1 < length inp" "suffix inp1 inp" and p: "tcp_rpcs_parse_execute E execute None inp1 c = Some (r, rest, c')"
    show ?thesis using less.hyps [OF l(1) less.prems(1) sub [OF l(2)] p] suf [OF _ l(2)] by blast
  next
    fix inp1 msg res c1
    assume l: "length inp1 < length inp" "suffix inp1 inp" and m: "sublist msg inp"
      and y: "rpcs_system_packet E (in_packet_num (rc_data c)) msg c = Some (res, c1)"
    note i = enc_inv_system [OF less.prems(1) y sublist_order.order_trans [OF m less.prems(2)]]
    {
      assume "c' = fail_rpc_connection res c1" "suffix rest inp"
      then show ?thesis using i enc_inv_fail by blast
    next
      assume "0 \<le> res" and p: "tcp_rpcs_parse_execute E execute None inp1 (next_packet c1) = Some (r, rest, c')"
      then show ?thesis using less.hyps [OF l(1) _ sub [OF l(2)] p] i suf [OF _ l(2)] by blast
    }
  qed (use less enc_inv_fail in \<open>blast+\<close>)
qed

section \<open>Both sides together\<close>

definition fresh_conn :: "rpc_connection \<Rightarrow> bool" where
  "fresh_conn c \<longleftrightarrow> rc_out_queue c = [] \<and> rc_out c = [] \<and> rc_socket c = [] \<and> rc_crypto c = None \<and> rc_crypto_temp c = None \<and>
     \<not> rc_error_flag c \<and> \<not> rc_stopparse c \<and> rd_flags (rc_data c) = 0 \<and> remote_pid (rc_data c) = no_pid"

text \<open>The flags of a connection that is to be encrypted, with or without the key exchange.\<close>

definition enc_flags :: "bool \<Rightarrow> u32" where
  "enc_flags dh = (if dh then RPCF_ALLOW_ENC OR RPCF_REQ_DH else RPCF_ALLOW_ENC)"

definition our_nonce :: "rpc_env \<Rightarrow> u32 \<Rightarrow> (u32 \<times> bytes) option \<Rightarrow> nonce_packet" where
  "our_nonce E ts dh = \<lparr>np_key_select = key_signature (e_secret E), np_crypto_schema = (if dh = None then RPC_CRYPTO_AES else RPC_CRYPTO_AES_DH),
     np_crypto_ts = ts, np_crypto_nonce = e_nonce E, np_extra = [], np_dh = dh\<rparr>"

lemma our_nonce_plain: "length (e_nonce E) = 16 \<Longrightarrow> (\<And>sel g. dh = Some (sel, g) \<Longrightarrow> length g = 256) \<Longrightarrow> plain_nonce (our_nonce E ts dh)"
  by (auto simp: plain_nonce_def our_nonce_def)

text \<open>The client has sent its nonce.\<close>

definition nonce_sent :: "rpc_env \<Rightarrow> bool \<Rightarrow> crypto_temp_dh_params option \<Rightarrow> rpc_connection \<Rightarrow> rpc_connection \<Rightarrow> bool" where
  "nonce_sent E dh t c0 c \<longleftrightarrow> rc_out_queue c = [] \<and> rc_crypto c = None \<and> rc_crypto_temp c = t \<and> \<not> rc_error_flag c \<and>
     rc_our c = rc_our c0 \<and> rc_remote c = rc_remote c0 \<and> rc_PID c = rc_PID c0 \<and> rc_dh_select c = rc_dh_select c0 \<and> rc_notified c = rc_notified c0 \<and>
     rc_data c = (rc_data c0)\<lparr>in_packet_num := -2, out_packet_num := -1, crypto_flags := enc_flags dh OR RPCF_ENC_SENT, rd_nonce := e_nonce E,
       nonce_time := e_time E, rd_crc32c := False\<rparr>"

lemma nonce_mod4: "plain_nonce p \<Longrightarrow> length (nonce_packet_bytes p) mod 4 = 0"
  using nonce_fields(1) [of p] by simp

lemma client_start:
  assumes F: "fresh_conn c0" and perm: "0 \<le> sint perm" "perm AND perm_mask = enc_flags dh" and n: "length (e_nonce E) = 16"
    and sel: "rc_dh_select c0 \<noteq> 0" and rate: "e_max_dh_accept_rate E = 0"
    and g: "dh \<longrightarrow> dh_first_round (rc_dh_select c0) (e_rnd E) = Some (g_a, t, rnd)"
  shows "\<exists>c1 c2. tcp_rpcc_init_outbound E (Some perm) c0 = (0, c1) \<and> tcp_rpcc_connected E (Some perm) c1 = Some (0, c2) \<and>
    rc_out (flush_queue E c2) = rpc_frame (e_crc32 E) (-2) (nonce_packet_bytes (our_nonce E (e_time E) (if dh then Some (rc_dh_select c0, g_a) else None))) \<and>
    nonce_sent E dh (if dh then Some t else None) c0 (flush_queue E c2)"
proof -
  let ?p = "our_nonce E (e_time E) (if dh then Some (rc_dh_select c0, g_a) else None)"
  have lg: "length g_a = 256" if dh using g that by (auto simp: dh_first_round_def bind_eq_Some_conv dest: create_g_a_ok)
  have m: "length (nonce_packet_bytes ?p) mod 4 = 0" using n lg by (intro nonce_mod4 our_nonce_plain) (auto split: if_splits)
  note defs = tcp_rpcc_init_outbound_def tcp_rpcc_connected_def tcp_rpcc_init_crypto_def Let_def upd_data_def tcp_add_dh_accept_def ensure_dh_def
    init_dh_params_def has_crypto_flag_def enc_flags_def rpcf_defs tcp_rpc_conn_send_data_def tcp_rpc_conn_send_def flush_queue_def tcp_rpc_write_packet_def
    custom_crc_def rpc_frame_def nonce_sent_def has_flag_def
  show ?thesis
  proof (cases dh)
    case True
    then show ?thesis using F perm m sel rate g by (simp add: defs fresh_conn_def our_nonce_def)
  next
    case False
    then show ?thesis using F perm m sel rate g by (simp add: defs fresh_conn_def our_nonce_def)
  qed
qed

definition nat_host :: "rpc_env \<Rightarrow> host \<Rightarrow> host" where
  "nat_host E a = a\<lparr>h_ip := e_nat E (h_ip a)\<rparr>"

text \<open>The server has answered the nonce.\<close>

definition nonce_answered :: "rpc_env \<Rightarrow> bool \<Rightarrow> aes_key_data \<Rightarrow> rpc_connection \<Rightarrow> rpc_connection \<Rightarrow> bool" where
  "nonce_answered E dh k c0 c \<longleftrightarrow> rc_out_queue c = [] \<and> rc_out c = [] \<and> rc_crypto c = Some k \<and> \<not> rc_error_flag c \<and> \<not> rc_stopparse c \<and>
     rc_our c = rc_our c0 \<and> rc_remote c = rc_remote c0 \<and> rc_PID c = rc_PID c0 \<and> rc_notified c = rc_notified c0 \<and>
     rc_data c = (rc_data c0)\<lparr>in_packet_num := -1, out_packet_num := -1, crypto_flags := enc_flags dh OR RPCF_ENC_SENT, rd_nonce := e_nonce E,
       nonce_time := e_time E, rd_crc32c := False\<rparr>"

lemma key_select_ok:
  assumes "4 \<le> length (as_secret s)"
  shows "select_best_key_signature s (key_signature s) [] = Some (key_signature s)"
  using assms by (simp add: select_best_key_signature_def)

text \<open>A server that has accepted a connection, before the first packet.\<close>

definition conn_accepted :: "bool \<Rightarrow> rpc_connection \<Rightarrow> rpc_connection \<Rightarrow> bool" where
  "conn_accepted dh c0 c \<longleftrightarrow> rc_data c = (rc_data c0)\<lparr>rd_crc32c := False, crypto_flags := enc_flags dh, in_packet_num := -2, out_packet_num := -2\<rparr> \<and>
    rc_crypto c = None \<and> \<not> rc_error_flag c \<and> \<not> rc_stopparse c \<and> rc_our c = rc_our c0 \<and> rc_remote c = rc_remote c0 \<and> rc_dh_select c = rc_dh_select c0 \<and>
    rc_out_queue c = [] \<and> rc_out c = [] \<and> rc_socket c = [] \<and> rc_PID c = rc_PID c0 \<and> rc_notified c = rc_notified c0"

lemma server_nonce_packet:
  assumes d: "conn_accepted dh c0 c" and n: "length (e_nonce E) = 16"
    and p: "plain_nonce p" "np_dh p = (if dh then Some (rc_dh_select c0, g_a) else None)" "np_key_select p = key_signature (e_secret E)"
    and sec: "4 \<le> length (as_secret (e_secret E))" "key_signature (e_secret E) \<noteq> 0" and ts: "sint (c_abs (np_crypto_ts p - e_time E)) \<le> 30"
    and sel: "rc_dh_select c0 \<noteq> 0" and rate: "e_max_dh_accept_rate E = 0"
    and g: "dh \<longrightarrow> dh_second_round g_a (e_rnd E) = Some (256, t, g_b, rnd)" and lg: "dh \<longrightarrow> length g_b = 256"
    and k: "aes_create_keys (e_md5 E) (e_sha1 E) False (e_nonce E) (np_crypto_nonce p) (np_crypto_ts p)
      (nat_host E (rc_our c0)) (nat_host E (rc_remote c0)) (e_secret E) (if dh then t else []) = Some (Inr k)"
  shows "\<exists>c2. tcp_rpcs_process_nonce_packet E (nonce_packet_bytes p) c = Some (0, c2) \<and>
    rc_socket c2 = [rpc_frame (e_crc32 E) (-2) (nonce_packet_bytes (our_nonce E (e_time E) (if dh then Some (rc_dh_select c0, g_b) else None)))] \<and>
    nonce_answered E dh k c0 (next_packet c2)"
proof -
  let ?q = "our_nonce E (e_time E) (if dh then Some (rc_dh_select c0, g_b) else None)"
  let ?P = "nonce_packet_bytes p"
  have m: "length (nonce_packet_bytes ?q) mod 4 = 0" using n lg by (intro nonce_mod4 our_nonce_plain) (auto split: if_splits)
  note f = nonce_fields [OF p(1)]
  note steps = tcp_rpcs_process_nonce_packet_def rpcs_nonce_aes_def rpcs_finish_nonce_def tcp_rpcs_init_crypto_def rpcs_dh_def rpcs_make_keys_def
    tcp_add_dh_accept_def ensure_dh_def init_dh_params_def tcp_rpc_conn_send_data_init_def tcp_rpc_conn_send_init_def send_frame_def
    upd_data_def has_crypto_flag_def enc_flags_def rpcf_defs rpc_crypto_defs key_select_ok [OF sec(1)]
  have s: "np_crypto_schema p = (if dh then RPC_CRYPTO_AES_DH else RPC_CRYPTO_AES)" using p(1,2) by (auto simp: plain_nonce_def split: if_split_asm)
  show ?thesis
  proof (cases dh)
    case True
    have dp: "dh_part ?P = (rc_dh_select c0, g_a)" "extra_key_select ?P = []" using f(8,9) s True p(2) by simp_all
    show ?thesis using d True f s dp p(3) ts sec sel rate g k m
      by (simp add: steps conn_accepted_def nat_host_def nonce_answered_def next_packet_def our_nonce_def rpc_frame_def custom_crc_def Let_def)
  next
    case False
    then show ?thesis using d f s p(3) ts sec k m
      by (simp add: steps conn_accepted_def nat_host_def nonce_answered_def next_packet_def our_nonce_def rpc_frame_def custom_crc_def Let_def)
  qed
qed

lemma server_nonce:
  assumes F: "fresh_conn c0" and perm: "0 \<le> sint perm" "perm AND perm_mask = enc_flags dh" and n: "length (e_nonce E) = 16"
    and p: "plain_nonce p" "np_dh p = (if dh then Some (rc_dh_select c0, g_a) else None)" "np_key_select p = key_signature (e_secret E)"
    and sec: "4 \<le> length (as_secret (e_secret E))" "key_signature (e_secret E) \<noteq> 0" and ts: "sint (c_abs (np_crypto_ts p - e_time E)) \<le> 30"
    and sel: "rc_dh_select c0 \<noteq> 0" and rate: "e_max_dh_accept_rate E = 0" and max: "e_max_packet_len E \<le> 0"
    and g: "dh \<longrightarrow> dh_second_round g_a (e_rnd E) = Some (256, t, g_b, rnd)" and lg: "dh \<longrightarrow> length g_b = 256"
    and k: "aes_create_keys (e_md5 E) (e_sha1 E) False (e_nonce E) (np_crypto_nonce p) (np_crypto_ts p)
      (nat_host E (rc_our c0)) (nat_host E (rc_remote c0)) (e_secret E) (if dh then t else []) = Some (Inr k)"
  shows "\<exists>c1 c2. tcp_rpcs_init_accepted E (Some perm) c0 = (0, c1) \<and>
    tcp_rpcs_parse_execute E execute fallback (rpc_frame (e_crc32 E) (-2) (nonce_packet_bytes p)) c1 = Some (NEED_MORE_BYTES, [], c2) \<and>
    rc_socket c2 = [rpc_frame (e_crc32 E) (-2) (nonce_packet_bytes (our_nonce E (e_time E) (if dh then Some (rc_dh_select c0, g_b) else None)))] \<and>
    nonce_answered E dh k c0 c2"
proof -
  let ?P = "nonce_packet_bytes p" and ?q = "our_nonce E (e_time E) (if dh then Some (rc_dh_select c0, g_b) else None)"
  define c1 where "c1 = upd_data (\<lambda>d. d\<lparr>crypto_flags := enc_flags dh, in_packet_num := -2, out_packet_num := -2\<rparr>)
    (upd_data (\<lambda>d. d\<lparr>rd_crc32c := False\<rparr>) (c0\<lparr>rc_last_query_sent_time := e_precise_now E\<rparr>))"
  have i: "tcp_rpcs_init_accepted E (Some perm) c0 = (0, c1)" using perm by (simp add: tcp_rpcs_init_accepted_def c1_def Let_def enc_flags_def rpcf_defs)
  have d: "conn_accepted dh c0 c1" using F by (simp add: conn_accepted_def c1_def upd_data_def fresh_conn_def)
  have sz: "packet_size_ok E ?P" using nonce_fields(1) [OF p(1)] max by (simp add: packet_size_ok_def)
  have crc: "custom_crc E c1 = e_crc32 E" using d by (simp add: custom_crc_def conn_accepted_def)
  obtain c2 where 2: "tcp_rpcs_process_nonce_packet E ?P c1 = Some (0, c2)" "rc_socket c2 = [rpc_frame (e_crc32 E) (-2) (nonce_packet_bytes ?q)]"
    "nonce_answered E dh k c0 (next_packet c2)"
    using server_nonce_packet [OF d n p sec ts sel rate g lg k] by blast
  have "tcp_rpcs_parse_execute E execute fallback (rpc_frame (e_crc32 E) (-2) ?P) c1 = Some (NEED_MORE_BYTES, [], next_packet c2)"
    using rpcs_frame [OF sz, of "-2" c1 execute fallback "[]"] d 2(1) crc
    by (simp add: conn_accepted_def rpcs_system_packet_def next_packet_def has_crypto_flag_def enc_flags_def rpcf_defs)
  then show ?thesis using i 2(2,3) by (auto simp: next_packet_def upd_data_def)
qed

text \<open>What the client sends once it has the keys, and its state then.\<close>

definition expected_peer :: "rpc_connection \<Rightarrow> process_id" where
  "expected_peer c = \<lparr>pid_ip = (if h_ip (rc_remote c) = 0x7f000001 then 0 else h_ip (rc_remote c)), pid_port = h_port (rc_remote c), pid_pid = 0, pid_utime = 0\<rparr>"

definition handshake_sent :: "rpc_env \<Rightarrow> bool \<Rightarrow> aes_key_data \<Rightarrow> rpc_connection \<Rightarrow> rpc_connection \<Rightarrow> bool" where
  "handshake_sent E dh k c0 c \<longleftrightarrow> rc_crypto c = Some k \<and> \<not> rc_error_flag c \<and> rc_PID c = rc_PID c0 \<and> rc_notified c = rc_notified c0 \<and>
     rc_data c = (rc_data c0)\<lparr>in_packet_num := -1, out_packet_num := 0, crypto_flags := enc_flags dh OR RPCF_ENC_SENT, rd_nonce := e_nonce E,
       nonce_time := e_time E, rd_crc32c := False, remote_pid := expected_peer c0\<rparr>"

text \<open>The client has read the nonce of the server.\<close>

definition keys_set :: "rpc_env \<Rightarrow> bool \<Rightarrow> aes_key_data \<Rightarrow> rpc_connection \<Rightarrow> rpc_connection \<Rightarrow> bool" where
  "keys_set E dh k c0 c \<longleftrightarrow> rc_crypto c = Some k \<and> \<not> rc_error_flag c \<and> rc_PID c = rc_PID c0 \<and> rc_notified c = rc_notified c0 \<and> rc_remote c = rc_remote c0 \<and>
     rc_out_queue c = [] \<and> rc_out c = [] \<and>
     rc_data c = (rc_data c0)\<lparr>in_packet_num := -1, out_packet_num := -1, crypto_flags := enc_flags dh OR RPCF_ENC_SENT, rd_nonce := e_nonce E,
       nonce_time := e_time E, rd_crc32c := False\<rparr>"

lemma start_crypto_ok:
  assumes c: "rc_crypto c = None" "rc_out c = []" "nonce_time (rc_data c) \<noteq> 0" "sel \<noteq> 0"
    and k: "aes_create_keys (e_md5 E) (e_sha1 E) True nonce (rd_nonce (rc_data c)) (nonce_time (rc_data c))
      (nat_host E (rc_remote c)) (nat_host E (rc_our c)) (e_secret E) tk = Some (Inr k)"
  shows "tcp_rpcc_start_crypto E 0 nonce sel tk c = Some (1, c\<lparr>rc_crypto := Some k\<rparr>)"
  using assms by (simp add: tcp_rpcc_start_crypto_def nat_host_def)

lemma nonce_aes_ok:
  assumes c: "rc_crypto c = None" "rc_out c = []" "nonce_time (rc_data c) \<noteq> 0" "sel \<noteq> 0" "has_crypto_flag c RPCF_ALLOW_ENC"
    and ts: "sint (c_abs (le32 (drop 12 P) - nonce_time (rc_data c))) \<le> 30" and sel: "select_best_key_signature (e_secret E) sel [] = Some sel"
    and d: "dh = None \<and> \<not> has_crypto_flag c RPCF_REQ_DH \<and> tk = [] \<or>
      dh = Some (ds, g_b) \<and> rc_crypto_temp c = Some t \<and> dh_third_round g_b t = Some (256, tk)"
    and k: "aes_create_keys (e_md5 E) (e_sha1 E) True (take 16 (drop 16 P)) (rd_nonce (rc_data c)) (nonce_time (rc_data c))
      (nat_host E (rc_remote c)) (nat_host E (rc_our c)) (e_secret E) tk = Some (Inr k)"
  shows "\<exists>i. rpcc_nonce_aes E 0 P sel dh c = Some (0, c\<lparr>rc_crypto := Some k, rc_crypto_temp := None, rc_isdh := i\<rparr>)"
  using d
proof (elim disjE conjE)
  assume e: "dh = None" "\<not> has_crypto_flag c RPCF_REQ_DH" "tk = []"
  have "crypto_flags (rc_data c) AND (RPCF_REQ_DH OR RPCF_ALLOW_SKIP_DH) \<noteq> RPCF_REQ_DH"
  proof
    assume a: "crypto_flags (rc_data c) AND (RPCF_REQ_DH OR RPCF_ALLOW_SKIP_DH) = RPCF_REQ_DH"
    have "crypto_flags (rc_data c) AND RPCF_REQ_DH = (crypto_flags (rc_data c) AND (RPCF_REQ_DH OR RPCF_ALLOW_SKIP_DH)) AND RPCF_REQ_DH"
      by (simp add: rpcf_defs and.assoc)
    then show False using e(2) a by (simp add: has_crypto_flag_def rpcf_defs)
  qed
  moreover have "tcp_rpcc_start_crypto E 0 (take 16 (drop 16 P)) sel [] (c\<lparr>rc_crypto_temp := None\<rparr>) = Some (1, c\<lparr>rc_crypto_temp := None, rc_crypto := Some k\<rparr>)"
    by (rule start_crypto_ok) (use c k e in simp_all)
  ultimately show ?thesis using e c ts sel by (intro exI [of _ "rc_isdh c"]) (simp add: rpcc_nonce_aes_def)
next
  assume e: "dh = Some (ds, g_b)" "rc_crypto_temp c = Some t" "dh_third_round g_b t = Some (256, tk)"
  have "tcp_rpcc_start_crypto E 0 (take 16 (drop 16 P)) sel tk (c\<lparr>rc_isdh := True, rc_crypto_temp := None\<rparr>) =
      Some (1, c\<lparr>rc_isdh := True, rc_crypto_temp := None, rc_crypto := Some k\<rparr>)"
    by (rule start_crypto_ok) (use c k e in simp_all)
  then show ?thesis using e c ts sel by (intro exI [of _ True]) (simp add: rpcc_nonce_aes_def)
qed

lemma client_nonce_packet:
  assumes c: "nonce_sent E dh (if dh then Some t else None) c0 c1" "rc_out c1 = []"
    and p: "plain_nonce p" "np_dh p = (if dh then Some (rc_dh_select c0, g_b) else None)" "np_key_select p = key_signature (e_secret E)"
    and sec: "4 \<le> length (as_secret (e_secret E))" "key_signature (e_secret E) \<noteq> 0"
    and ts: "sint (c_abs (np_crypto_ts p - e_time E)) \<le> 30" "e_time E \<noteq> 0"
    and sel: "rc_dh_select c0 \<noteq> 0" and g: "dh \<longrightarrow> dh_third_round g_b t = Some (256, tk)"
    and k: "aes_create_keys (e_md5 E) (e_sha1 E) True (np_crypto_nonce p) (e_nonce E) (e_time E)
      (nat_host E (rc_remote c0)) (nat_host E (rc_our c0)) (e_secret E) (if dh then tk else []) = Some (Inr k)"
  shows "\<exists>c2. tcp_rpcc_process_nonce_packet E 0 (nonce_packet_bytes p) (next_packet c1) = Some (0, c2) \<and> keys_set E dh k c0 c2"
proof -
  note f = nonce_fields [OF p(1)]
  let ?P = "nonce_packet_bytes p" and ?ks = "key_signature (e_secret E)" and ?c = "next_packet c1"
  let ?d = "if dh then Some (rc_dh_select c0, g_b) else None"
  have s: "np_crypto_schema p = (if dh then RPC_CRYPTO_AES_DH else RPC_CRYPTO_AES)" using p(1,2) by (auto simp: plain_nonce_def split: if_split_asm)
  have fl: "has_crypto_flag ?c RPCF_ALLOW_ENC" "has_crypto_flag ?c RPCF_REQ_DH \<longleftrightarrow> dh" 
    using c(1) by (simp_all add: next_packet_def upd_data_def nonce_sent_def has_crypto_flag_def enc_flags_def rpcf_defs)
  have r: "rc_crypto ?c = None" "rc_out ?c = []" "nonce_time (rc_data ?c) = e_time E" "rd_nonce (rc_data ?c) = e_nonce E" "rc_remote ?c = rc_remote c0"
    "rc_our ?c = rc_our c0" "rc_dh_select ?c = rc_dh_select c0" "rc_crypto_temp ?c = (if dh then Some t else None)" "in_packet_num (rc_data ?c) = -1"
    using c by (simp_all add: next_packet_def upd_data_def nonce_sent_def)
  have "\<exists>i. rpcc_nonce_aes E 0 ?P ?ks ?d ?c = Some (0, ?c\<lparr>rc_crypto := Some k, rc_crypto_temp := None, rc_isdh := i\<rparr>)"
    by (rule nonce_aes_ok [where ds = "rc_dh_select c0" and g_b = g_b and t = t and tk = "if dh then tk else []"])
      (use r fl sec ts g k f key_select_ok [OF sec(1)] in \<open>auto\<close>)
  then obtain i where i: "rpcc_nonce_aes E 0 ?P ?ks ?d ?c = Some (0, ?c\<lparr>rc_crypto := Some k, rc_crypto_temp := None, rc_isdh := i\<rparr>)" by blast
  have "tcp_rpcc_process_nonce_packet E 0 ?P ?c = Some (0, ?c\<lparr>rc_crypto := Some k, rc_crypto_temp := None, rc_isdh := i\<rparr>)"
  proof (cases dh)
    case True
    have dp: "dh_part ?P = (rc_dh_select c0, g_b)" "extra_key_select ?P = []" using f(8,9) s True p(2) by simp_all
    have ed: "ensure_dh E ?c = Some ?c" using r(7) sel by (simp add: ensure_dh_def init_dh_params_def)
    show ?thesis using i True f s dp ed r fl p(3) sel key_select_ok [OF sec(1)] by (simp add: tcp_rpcc_process_nonce_packet_def rpc_crypto_defs Let_def)
  next
    case False
    then show ?thesis using i f s r p(3) by (simp add: tcp_rpcc_process_nonce_packet_def rpc_crypto_defs Let_def)
  qed
  moreover have "keys_set E dh k c0 (?c\<lparr>rc_crypto := Some k, rc_crypto_temp := None, rc_isdh := i\<rparr>)"
    using c by (simp add: keys_set_def nonce_sent_def next_packet_def upd_data_def)
  ultimately show ?thesis by blast
qed

lemma client_sends_handshake:
  assumes F: "fresh_conn c0" and c: "keys_set E dh k c0 c" and pid: "pid_ip (rc_PID c0) \<noteq> 0"
  shows "\<exists>c1. tcp_rpcc_send_handshake_packet E c = Some (0, c1) \<and>
    rc_out (flush_queue E c1) = rpc_frame (e_crc32 E) (-1) (handshake_bytes (e_flags E AND RPCF_USE_CRC32C) (rc_PID c0) (expected_peer c0)) \<and>
    handshake_sent E dh k c0 (flush_queue E c1)"
proof -
  have e: "remote_pid (rc_data c0) = no_pid" "rd_flags (rc_data c0) = 0" using F by (simp_all add: fresh_conn_def)
  have l: "\<And>x a b. length (handshake_bytes x a b) mod 4 = 0" by (simp add: handshake_fields)
  show ?thesis using c e l pid
    by (simp add: tcp_rpcc_send_handshake_packet_def tcp_rpc_conn_send_data_def tcp_rpc_conn_send_def upd_data_def flush_queue_def tcp_rpc_write_packet_def
      custom_crc_def rpc_frame_def has_flag_def handshake_sent_def keys_set_def expected_peer_def no_pid_def Let_def)
qed

lemma client_nonce:
  assumes F: "fresh_conn c0" and c: "nonce_sent E dh (if dh then Some t else None) c0 c1" "rc_out c1 = []" and pid: "pid_ip (rc_PID c0) \<noteq> 0" and max: "e_max_packet_len E \<le> 0"
    and p: "plain_nonce p" and n: "\<exists>c2. tcp_rpcc_process_nonce_packet E 0 (nonce_packet_bytes p) (next_packet c1) = Some (0, c2) \<and> keys_set E dh k c0 c2"
  shows "\<exists>c2. tcp_rpcc_parse_execute E execute (rpc_frame (e_crc32 E) (-2) (nonce_packet_bytes p)) c1 = Some (0, [], c2) \<and>
    rc_out (flush_queue E c2) = rpc_frame (e_crc32 E) (-1) (handshake_bytes (e_flags E AND RPCF_USE_CRC32C) (rc_PID c0) (expected_peer c0)) \<and>
    handshake_sent E dh k c0 (flush_queue E c2)"
proof -
  obtain c2 where 2: "tcp_rpcc_process_nonce_packet E 0 (nonce_packet_bytes p) (next_packet c1) = Some (0, c2)" "keys_set E dh k c0 c2" using n by blast
  obtain c3 where 3: "tcp_rpcc_send_handshake_packet E c2 = Some (0, c3)"
    "rc_out (flush_queue E c3) = rpc_frame (e_crc32 E) (-1) (handshake_bytes (e_flags E AND RPCF_USE_CRC32C) (rc_PID c0) (expected_peer c0))"
    "handshake_sent E dh k c0 (flush_queue E c3)"
    using client_sends_handshake [OF F 2(2) pid] by blast
  have sz: "packet_size_ok E (nonce_packet_bytes p)" using nonce_fields(1) [OF p] max by (simp add: packet_size_ok_def)
  have d: "in_packet_num (rc_data c1) = -2" "custom_crc E c1 = e_crc32 E" using c by (simp_all add: nonce_sent_def custom_crc_def)
  have "tcp_rpcc_parse_execute E execute (rpc_frame (e_crc32 E) (-2) (nonce_packet_bytes p)) c1 = Some (0, [], c3)"
    using rpcc_frame [OF sz, of "-2" c1 execute "[]"] d 2(1) 3(1) by (simp add: rpcc_system_packet_def next_packet_def [symmetric])
  then show ?thesis using 3(2,3) by blast
qed

section \<open>The end of the handshake\<close>

text \<open>
  A side that is ready: packets are numbered from 0, the checksum is the one agreed on, the peer is known, and the connection was
  reported once.
\<close>

definition handshake_done :: "bool \<Rightarrow> process_id \<Rightarrow> aes_key_data \<Rightarrow> rpc_connection \<Rightarrow> rpc_connection \<Rightarrow> bool" where
  "handshake_done crc peer k c0 c \<longleftrightarrow> rc_crypto c = Some k \<and> \<not> rc_error_flag c \<and> rc_notified c = rc_notified c0 + 1 \<and>
     in_packet_num (rc_data c) = 0 \<and> out_packet_num (rc_data c) = 0 \<and> rd_crc32c (rc_data c) = crc \<and> remote_pid (rc_data c) = peer"

definition both_crc32c :: "u32 \<Rightarrow> u32 \<Rightarrow> bool" where
  "both_crc32c a b \<longleftrightarrow> a AND b AND RPCF_USE_CRC32C \<noteq> 0"

lemma crc_flag:
  "(f AND RPCF_USE_CRC32C) AND 0xff = (0 :: u32)"
  "(enc_flags dh OR RPCF_ENC_SENT) AND RPCF_USE_CRC32C = 0"
  "((enc_flags dh OR RPCF_ENC_SENT) OR RPCF_USE_CRC32C) AND RPCF_USE_CRC32C = RPCF_USE_CRC32C"
  by (simp_all add: rpcf_defs enc_flags_def and.assoc)

lemma handshake_size [simp]: "e_max_packet_len E \<le> 0 \<Longrightarrow> packet_size_ok E (handshake_bytes f a b)"
  by (simp add: packet_size_ok_def handshake_fields)

lemma server_handshake:
  assumes s: "nonce_answered E dh k s0 s" and max: "e_max_packet_len E \<le> 0" and F: "fresh_conn s0"
    and pid: "pid_ip (rc_PID s0) \<noteq> 0" "matches_pid (rc_PID s0) peer \<noteq> 0"
  shows "\<exists>s1. tcp_rpcs_parse_execute E execute fallback (rpc_frame (e_crc32 E) (-1) (handshake_bytes (f AND RPCF_USE_CRC32C) PID peer)) s = Some (NEED_MORE_BYTES, [], s1) \<and>
    rc_out s1 = rpc_frame (e_crc32 E) (-1) (handshake_bytes (if both_crc32c f (e_flags E) then RPCF_USE_CRC32C else 0) (rc_PID s0) PID) \<and>
    handshake_done (both_crc32c f (e_flags E)) PID k s0 s1"
proof -
  let ?H = "handshake_bytes (f AND RPCF_USE_CRC32C) PID peer" and ?crc = "both_crc32c f (e_flags E)"
  let ?fl = "enc_flags dh OR RPCF_ENC_SENT"
  have b: "?crc \<longleftrightarrow> (f AND RPCF_USE_CRC32C) AND e_flags E AND RPCF_USE_CRC32C \<noteq> 0"
    by (simp add: both_crc32c_def and.assoc and.left_commute and.commute)
  define s1 where "s1 = upd_data (\<lambda>d. d\<lparr>remote_pid := PID\<rparr>) s"
  define s2 where "s2 = (if ?crc then upd_data (\<lambda>d. d\<lparr>crypto_flags := crypto_flags d OR RPCF_USE_CRC32C\<rparr>) s1 else s1)"
  have 1: "tcp_rpcs_process_handshake_packet E ?H s = Some (0, s2)"
    using s pid by (simp add: tcp_rpcs_process_handshake_packet_def handshake_fields nonce_answered_def crc_flag s1_def s2_def b upd_data_def Let_def)
  have 2: "rc_PID s2 = rc_PID s0" "rc_out s2 = []" "out_packet_num (rc_data s2) = -1" "in_packet_num (rc_data s2) = -1" "remote_pid (rc_data s2) = PID"
    "\<not> rd_crc32c (rc_data s2)" "rc_crypto s2 = Some k" "\<not> rc_error_flag s2" "rc_notified s2 = rc_notified s0"
    "crypto_flags (rc_data s2) = (if ?crc then ?fl OR RPCF_USE_CRC32C else ?fl)"
    using s by (simp_all add: s1_def s2_def upd_data_def nonce_answered_def)
  have fl: "crypto_flags (rc_data s2) AND RPCF_USE_CRC32C = (if ?crc then RPCF_USE_CRC32C else 0)" using 2(10) crc_flag(2,3) by simp
  let ?R = "handshake_bytes (if ?crc then RPCF_USE_CRC32C else 0) (rc_PID s0) PID"
  define s3 where "s3 = upd_data (\<lambda>d. d\<lparr>out_packet_num := 0\<rparr>) s2\<lparr>rc_out := rpc_frame (e_crc32 E) (-1) ?R\<rparr>"
  have 3: "tcp_rpcs_send_handshake_packet E s2 = Some (0, s3)"
    using 2 fl pid(1) by (simp add: tcp_rpcs_send_handshake_packet_def tcp_rpc_conn_send_data_im_def tcp_rpc_conn_send_im_def send_frame_def handshake_fields(1)
      custom_crc_def rpc_frame_def s3_def upd_data_def Let_def)
  define s4 where "s4 = (if ?crc then upd_data (\<lambda>d. d\<lparr>rd_crc32c := True\<rparr>) s3 else s3)\<lparr>rc_notified := rc_notified s0 + 1\<rparr>"
  have "has_crypto_flag s3 RPCF_USE_CRC32C \<longleftrightarrow> ?crc" using fl by (simp add: has_crypto_flag_def s3_def upd_data_def rpcf_defs)
  moreover have "rc_notified s3 = rc_notified s0" using 2(9) by (simp add: s3_def upd_data_def)
  ultimately have 4: "rpcs_system_packet E (-1) ?H s = Some (0, s4)" using 1 3 by (simp add: rpcs_system_packet_def s4_def upd_data_def)
  have d: "in_packet_num (rc_data s) = -1" "custom_crc E s = e_crc32 E" "\<not> rc_error_flag s" "\<not> rc_stopparse s" "\<not> has_crypto_flag s RPCF_QUICKACK"
    using s by (simp_all add: nonce_answered_def custom_crc_def has_crypto_flag_def enc_flags_def rpcf_defs)
  have "tcp_rpcs_parse_execute E execute fallback (rpc_frame (e_crc32 E) (-1) ?H) s = Some (NEED_MORE_BYTES, [], next_packet s4)"
    using rpcs_frame [OF handshake_size [OF max], of "-1" s execute fallback _ _ _ "[]"] d 4 by (simp add: next_packet_def)
  moreover have "handshake_done ?crc PID k s0 (next_packet s4)" "rc_out (next_packet s4) = rpc_frame (e_crc32 E) (-1) ?R"
    using 2 by (simp_all add: handshake_done_def next_packet_def s4_def s3_def upd_data_def)
  ultimately show ?thesis by blast
qed

lemma client_handshake:
  assumes c: "handshake_sent E dh k c0 c" and max: "e_max_packet_len E \<le> 0"
    and pid: "matches_pid sender (expected_peer c0) \<noteq> 0" "pid_ip sender \<noteq> 0"
  shows "\<exists>c1. tcp_rpcc_parse_execute E execute
      (rpc_frame (e_crc32 E) (-1) (handshake_bytes (if both_crc32c (e_flags E) g then RPCF_USE_CRC32C else 0) sender (rc_PID c0))) c = Some (0, [], c1) \<and>
    handshake_done (both_crc32c (e_flags E) g) sender k c0 c1"
proof -
  let ?crc = "both_crc32c (e_flags E) g"
  let ?H = "handshake_bytes (if ?crc then RPCF_USE_CRC32C else 0) sender (rc_PID c0)"
  have fl: "e_flags E AND RPCF_USE_CRC32C \<noteq> 0" if ?crc using that flag_and [of "e_flags E" RPCF_USE_CRC32C g] by (auto simp: both_crc32c_def and.assoc)
  define c1 where "c1 = upd_data (\<lambda>d. d\<lparr>remote_pid := sender\<rparr>) (next_packet c)"
  define c2 where "c2 = (if ?crc then upd_data (\<lambda>d. d\<lparr>crypto_flags := crypto_flags d OR RPCF_USE_CRC32C, rd_crc32c := True\<rparr>) c1 else c1)"
  have "matches_pid (rc_PID c0) (rc_PID c0) = 2" by (simp add: matches_pid_def)
  then have "tcp_rpcc_process_handshake_packet E ?H (next_packet c) = Some (0, c2)"
    using c pid fl by (simp add: tcp_rpcc_process_handshake_packet_def handshake_fields handshake_sent_def c1_def c2_def next_packet_def upd_data_def Let_def
      RPCF_USE_CRC32C_def)
  then have 1: "rpcc_system_packet E 0 (-1) ?H (next_packet c) = Some (0, c2\<lparr>rc_notified := rc_notified c2 + 1\<rparr>)"
    by (simp add: rpcc_system_packet_def)
  have d: "in_packet_num (rc_data c) = -1" "custom_crc E c = e_crc32 E" using c by (simp_all add: handshake_sent_def custom_crc_def)
  have "tcp_rpcc_parse_execute E execute (rpc_frame (e_crc32 E) (-1) ?H) c = Some (0, [], c2\<lparr>rc_notified := rc_notified c2 + 1\<rparr>)"
    using rpcc_frame [OF handshake_size [OF max], of "-1" c execute _ _ _ "[]"] d 1 by (simp add: next_packet_def)
  moreover have "handshake_done ?crc sender k c0 (c2\<lparr>rc_notified := rc_notified c2 + 1\<rparr>)"
    using c by (simp add: handshake_done_def handshake_sent_def c1_def c2_def next_packet_def upd_data_def)
  ultimately show ?thesis by blast
qed

end
