(* ===== verification/RpcSession.thy ===== *)
theory RpcSession
  imports RpcHandshake
begin

text \<open>
  Theorems on connections between RPC servers: the handshake of two sides with the same secret ends with matching keys; a server
  that requires encryption never works without it; and a bad value in the key exchange makes the server abort.
\<close>

section \<open>Both sides complete the handshake\<close>

text \<open>The packets go back and forth. What is in \<open>rc_out\<close> after a step is taken by the network.\<close>

definition rpc_handshake :: "rpc_env \<Rightarrow> rpc_env \<Rightarrow> u32 \<Rightarrow> u32 \<Rightarrow> rpc_execute \<Rightarrow> rpc_execute \<Rightarrow> rpc_connection \<Rightarrow> rpc_connection \<Rightarrow> (rpc_connection \<times> rpc_connection) option" where
  "rpc_handshake Ec Es pc ps exc exs c0 s0 = do {
     (_, c) \<leftarrow> Some (tcp_rpcc_init_outbound Ec (Some pc) c0);
     (_, s) \<leftarrow> Some (tcp_rpcs_init_accepted Es (Some ps) s0);
     (_, c) \<leftarrow> tcp_rpcc_connected Ec (Some pc) c;
     let c = flush_queue Ec c;
     (_, _, s) \<leftarrow> tcp_rpcs_parse_execute Es exs None (rc_out c) s;
     (_, _, c) \<leftarrow> tcp_rpcc_parse_execute Ec exc (concat (rc_socket s)) (c\<lparr>rc_out := []\<rparr>);
     let c = flush_queue Ec c;
     (_, _, s) \<leftarrow> tcp_rpcs_parse_execute Es exs None (rc_out c) s;
     (_, _, c) \<leftarrow> tcp_rpcc_parse_execute Ec exc (rc_out s) (c\<lparr>rc_out := []\<rparr>);
     Some (c, s) }"

text \<open>Two sides that can talk to each other.\<close>

definition same_setup :: "rpc_env \<Rightarrow> rpc_env \<Rightarrow> bool" where
  "same_setup Ec Es \<longleftrightarrow> e_secret Es = e_secret Ec \<and> e_md5 Es = e_md5 Ec \<and> e_sha1 Es = e_sha1 Ec \<and> e_crc32 Es = e_crc32 Ec \<and>
     e_max_packet_len Ec \<le> 0 \<and> e_max_packet_len Es \<le> 0 \<and> e_max_dh_accept_rate Ec = 0 \<and> e_max_dh_accept_rate Es = 0"

definition good_secret :: "aes_secret \<Rightarrow> bool" where
  "good_secret s \<longleftrightarrow> MIN_PWD_LEN \<le> length (as_secret s) \<and> length (as_secret s) \<le> MAX_PWD_LEN \<and> key_signature s \<noteq> 0"

definition clocks_close :: "rpc_env \<Rightarrow> rpc_env \<Rightarrow> bool" where
  "clocks_close Ec Es \<longleftrightarrow> e_time Ec \<noteq> 0 \<and> sint (c_abs (e_time Ec - e_time Es)) \<le> 30 \<and> sint (c_abs (e_time Es - e_time Ec)) \<le> 30"

definition addresses_match :: "rpc_env \<Rightarrow> rpc_env \<Rightarrow> rpc_connection \<Rightarrow> rpc_connection \<Rightarrow> bool" where
  "addresses_match Ec Es c0 s0 \<longleftrightarrow> nat_host Es (rc_our s0) = nat_host Ec (rc_remote c0) \<and> nat_host Es (rc_remote s0) = nat_host Ec (rc_our c0) \<and>
     (h_ip (nat_host Ec (rc_our c0)) = 0 \<longleftrightarrow> h_ip (nat_host Ec (rc_remote c0)) = 0)"

definition names_known :: "rpc_connection \<Rightarrow> rpc_connection \<Rightarrow> bool" where
  "names_known c0 s0 \<longleftrightarrow> pid_ip (rc_PID c0) \<noteq> 0 \<and> pid_ip (rc_PID s0) \<noteq> 0 \<and> matches_pid (rc_PID s0) (expected_peer c0) \<noteq> 0"

definition dh_possible :: "bool \<Rightarrow> rpc_env \<Rightarrow> rpc_env \<Rightarrow> rpc_connection \<Rightarrow> rpc_connection \<Rightarrow> bool" where
  "dh_possible dh Ec Es c0 s0 \<longleftrightarrow> rc_dh_select c0 \<noteq> 0 \<and> rc_dh_select s0 = rc_dh_select c0 \<and>
     (dh \<longrightarrow> (case dh_first_round (rc_dh_select c0) (e_rnd Ec) of None \<Rightarrow> False | Some (g_a, _) \<Rightarrow> dh_second_round g_a (e_rnd Es) \<noteq> None))"

lemma dh_possible_rounds:
  assumes "dh_possible dh Ec Es c0 s0" dh
  shows "\<exists>g_a t rnd k g_b rnd2. dh_first_round (rc_dh_select c0) (e_rnd Ec) = Some (g_a, t, rnd) \<and>
    dh_second_round g_a (e_rnd Es) = Some (256, k, g_b, rnd2) \<and> dh_third_round g_b t = Some (256, k) \<and> length g_a = 256 \<and> length g_b = 256"
proof -
  obtain g_a t rnd where a: "dh_first_round (rc_dh_select c0) (e_rnd Ec) = Some (g_a, t, rnd)" "dh_second_round g_a (e_rnd Es) \<noteq> None"
    using assms by (auto simp: dh_possible_def split: option.split_asm)
  obtain n k g_b rnd2 where b: "dh_second_round g_a (e_rnd Es) = Some (n, k, g_b, rnd2)" using a(2) by (metis option.exhaust prod.exhaust)
  show ?thesis using dh_agree [OF a(1) b] a(1) b by blast
qed

definition other_keys :: "aes_key_data \<Rightarrow> aes_key_data" where
  "other_keys k = \<lparr>read_key = write_key k, read_iv = write_iv k, write_key = read_key k, write_iv = read_iv k\<rparr>"

lemma aes_create_ok:
  assumes "good_secret key" "length ns = 16" "length nc = 16" "h_ip server = 0 \<longleftrightarrow> h_ip client = 0"
  shows "\<exists>k. aes_create_keys md5 sha1 b ns nc ts server client key tk = Some (Inr k)"
  using assms by (auto simp: aes_create_keys_def key_string_def good_secret_def MIN_PWD_LEN_def Let_def)

lemma handshake_keys:
  assumes "same_setup Ec Es" "good_secret (e_secret Ec)" "addresses_match Ec Es c0 s0" "length (e_nonce Ec) = 16" "length (e_nonce Es) = 16"
  shows "\<exists>k. aes_create_keys (e_md5 Ec) (e_sha1 Ec) True (e_nonce Es) (e_nonce Ec) (e_time Ec)
      (nat_host Ec (rc_remote c0)) (nat_host Ec (rc_our c0)) (e_secret Ec) tk = Some (Inr k) \<and>
    aes_create_keys (e_md5 Es) (e_sha1 Es) False (e_nonce Es) (e_nonce Ec) (e_time Ec)
      (nat_host Es (rc_our s0)) (nat_host Es (rc_remote s0)) (e_secret Es) tk = Some (Inr (other_keys k))"
proof -
  have a: "nat_host Es (rc_our s0) = nat_host Ec (rc_remote c0)" "nat_host Es (rc_remote s0) = nat_host Ec (rc_our c0)"
    "h_ip (nat_host Ec (rc_remote c0)) = 0 \<longleftrightarrow> h_ip (nat_host Ec (rc_our c0)) = 0" using assms(3) by (auto simp: addresses_match_def)
  obtain k where k: "aes_create_keys (e_md5 Ec) (e_sha1 Ec) True (e_nonce Es) (e_nonce Ec) (e_time Ec)
      (nat_host Ec (rc_remote c0)) (nat_host Ec (rc_our c0)) (e_secret Ec) tk = Some (Inr k)"
    using aes_create_ok [OF assms(2,5,4) a(3)] by blast
  show ?thesis using aes_keys_match [OF k] k assms(1) a(1,2) by (auto simp: same_setup_def other_keys_def)
qed

text \<open>
  C5. The handshake completes: between a client and a server with the same secret, clocks at most 30 seconds apart and
  matching addresses, with or without the key exchange, no assertion fails and both sides end ready. Each has the keys for reading
  that the other has for writing, both use the same checksum, each knows the other's identifier, and each reports the connection
  once.
\<close>

theorem rpc_handshake_completes:
  assumes env: "same_setup Ec Es" "good_secret (e_secret Ec)" "clocks_close Ec Es" "length (e_nonce Ec) = 16" "length (e_nonce Es) = 16"
    and conns: "fresh_conn c0" "fresh_conn s0" "addresses_match Ec Es c0 s0" "names_known c0 s0" "dh_possible dh Ec Es c0 s0"
    and perm: "0 \<le> sint pc" "pc AND perm_mask = enc_flags dh" "0 \<le> sint ps" "ps AND perm_mask = enc_flags dh"
  shows "\<exists>c s k. rpc_handshake Ec Es pc ps exc exs c0 s0 = Some (c, s) \<and>
    handshake_done (both_crc32c (e_flags Ec) (e_flags Es)) (rc_PID s0) k c0 c \<and>
    handshake_done (both_crc32c (e_flags Ec) (e_flags Es)) (rc_PID c0) (other_keys k) s0 s"
proof -
  obtain g_a t rnd tk g_b rnd2 where dh: "dh \<longrightarrow> dh_first_round (rc_dh_select c0) (e_rnd Ec) = Some (g_a, t, rnd)"
    "dh \<longrightarrow> dh_second_round g_a (e_rnd Es) = Some (256, tk, g_b, rnd2)" "dh \<longrightarrow> dh_third_round g_b t = Some (256, tk)"
    "dh \<longrightarrow> length g_a = 256" "dh \<longrightarrow> length g_b = 256"
    using dh_possible_rounds [OF conns(5)] by (cases dh) auto
  have sel: "rc_dh_select c0 \<noteq> 0" "rc_dh_select s0 \<noteq> 0" "rc_dh_select s0 = rc_dh_select c0" using conns(5) by (auto simp: dh_possible_def)
  have st: "e_secret Es = e_secret Ec" "e_crc32 Es = e_crc32 Ec" "e_max_packet_len Ec \<le> 0" "e_max_packet_len Es \<le> 0" "e_max_dh_accept_rate Ec = 0" "e_max_dh_accept_rate Es = 0"
    using env(1) by (auto simp: same_setup_def)
  have sec: "4 \<le> length (as_secret (e_secret Ec))" "key_signature (e_secret Ec) \<noteq> 0" using env(2) by (auto simp: good_secret_def MIN_PWD_LEN_def)
  have nm: "pid_ip (rc_PID c0) \<noteq> 0" "pid_ip (rc_PID s0) \<noteq> 0" "matches_pid (rc_PID s0) (expected_peer c0) \<noteq> 0" using conns(4) by (auto simp: names_known_def)
  obtain k where k: "aes_create_keys (e_md5 Ec) (e_sha1 Ec) True (e_nonce Es) (e_nonce Ec) (e_time Ec)
      (nat_host Ec (rc_remote c0)) (nat_host Ec (rc_our c0)) (e_secret Ec) (if dh then tk else []) = Some (Inr k)"
    "aes_create_keys (e_md5 Es) (e_sha1 Es) False (e_nonce Es) (e_nonce Ec) (e_time Ec)
      (nat_host Es (rc_our s0)) (nat_host Es (rc_remote s0)) (e_secret Es) (if dh then tk else []) = Some (Inr (other_keys k))"
    using handshake_keys [OF env(1,2) conns(3) env(4,5)] by blast
  define p where "p = our_nonce Ec (e_time Ec) (if dh then Some (rc_dh_select c0, g_a) else None)"
  define q where "q = our_nonce Es (e_time Es) (if dh then Some (rc_dh_select s0, g_b) else None)"
  have P: "plain_nonce p" "np_dh p = (if dh then Some (rc_dh_select s0, g_a) else None)" "np_key_select p = key_signature (e_secret Es)"
    "np_crypto_ts p = e_time Ec" "np_crypto_nonce p = e_nonce Ec"
    using our_nonce_plain [OF env(4), of "if dh then Some (rc_dh_select c0, g_a) else None" "e_time Ec"] dh(4) sel(3) st(1) by (auto simp: p_def our_nonce_def split: if_split_asm)
  have Q: "plain_nonce q" "np_dh q = (if dh then Some (rc_dh_select c0, g_b) else None)" "np_key_select q = key_signature (e_secret Ec)"
    "np_crypto_ts q = e_time Es" "np_crypto_nonce q = e_nonce Es"
    using our_nonce_plain [OF env(5), of "if dh then Some (rc_dh_select s0, g_b) else None" "e_time Es"] dh(5) sel(3) st(1) by (auto simp: q_def our_nonce_def split: if_split_asm)
  have ts: "sint (c_abs (np_crypto_ts p - e_time Es)) \<le> 30" "sint (c_abs (np_crypto_ts q - e_time Ec)) \<le> 30" "e_time Ec \<noteq> 0"
    using env(3) P(4) Q(4) by (auto simp: clocks_close_def)
  obtain c1 c2 where 1: "tcp_rpcc_init_outbound Ec (Some pc) c0 = (0, c1)" "tcp_rpcc_connected Ec (Some pc) c1 = Some (0, c2)"
    "rc_out (flush_queue Ec c2) = rpc_frame (e_crc32 Ec) (-2) (nonce_packet_bytes p)" "nonce_sent Ec dh (if dh then Some t else None) c0 (flush_queue Ec c2)"
    using client_start [OF conns(1) perm(1,2) env(4) sel(1) st(5) dh(1)] unfolding p_def by blast
  obtain s1 s2 where 2: "tcp_rpcs_init_accepted Es (Some ps) s0 = (0, s1)"
    "tcp_rpcs_parse_execute Es exs None (rpc_frame (e_crc32 Es) (-2) (nonce_packet_bytes p)) s1 = Some (NEED_MORE_BYTES, [], s2)"
    "rc_socket s2 = [rpc_frame (e_crc32 Es) (-2) (nonce_packet_bytes q)]" "nonce_answered Es dh (other_keys k) s0 s2"
    using server_nonce [OF conns(2) perm(3,4) env(5) P(1-3) sec [folded st(1)] ts(1) sel(2) st(6,4) dh(2,5), of "other_keys k" exs None] k(2) P(4,5)
    unfolding q_def by auto
  define c3 where "c3 = flush_queue Ec c2\<lparr>rc_out := []\<rparr>"
  have c3: "nonce_sent Ec dh (if dh then Some t else None) c0 c3" "rc_out c3 = []" using 1(4) by (simp_all add: c3_def nonce_sent_def)
  obtain c4 where 3: "tcp_rpcc_parse_execute Ec exc (rpc_frame (e_crc32 Ec) (-2) (nonce_packet_bytes q)) c3 = Some (0, [], c4)"
    "rc_out (flush_queue Ec c4) = rpc_frame (e_crc32 Ec) (-1) (handshake_bytes (e_flags Ec AND RPCF_USE_CRC32C) (rc_PID c0) (expected_peer c0))"
    "handshake_sent Ec dh k c0 (flush_queue Ec c4)"
    using client_nonce [OF conns(1) c3 nm(1) st(3) Q(1) client_nonce_packet [OF c3 Q(1-3) sec ts(2,3) sel(1) dh(3)], of k] k(1) Q(5) by auto
  obtain s3 where 4: "tcp_rpcs_parse_execute Es exs None (rc_out (flush_queue Ec c4)) s2 = Some (NEED_MORE_BYTES, [], s3)"
    "rc_out s3 = rpc_frame (e_crc32 Es) (-1) (handshake_bytes (if both_crc32c (e_flags Ec) (e_flags Es) then RPCF_USE_CRC32C else 0) (rc_PID s0) (rc_PID c0))"
    "handshake_done (both_crc32c (e_flags Ec) (e_flags Es)) (rc_PID c0) (other_keys k) s0 s3"
    using server_handshake [OF 2(4) st(4) conns(2) nm(2,3), of exs None "e_flags Ec" "rc_PID c0"] 3(2) st(2) by auto
  have c5: "handshake_sent Ec dh k c0 (flush_queue Ec c4\<lparr>rc_out := []\<rparr>)" using 3(3) by (simp add: handshake_sent_def)
  obtain c6 where 5: "tcp_rpcc_parse_execute Ec exc (rc_out s3) (flush_queue Ec c4\<lparr>rc_out := []\<rparr>) = Some (0, [], c6)"
    "handshake_done (both_crc32c (e_flags Ec) (e_flags Es)) (rc_PID s0) k c0 c6"
    using client_handshake [OF c5 st(3) nm(3,2), of exc "e_flags Es"] 4(2) st(2) by auto
  have "rpc_handshake Ec Es pc ps exc exs c0 s0 = Some (c6, s3)"
    using 1(1-3) 2(1-3) 3(1) 4(1) 5(1) st(2) by (simp add: rpc_handshake_def Let_def c3_def)
  then show ?thesis using 4(3) 5(2) by blast
qed

text \<open>A client and a server for examples: both with the secret 1, 2, 3, ... of 32 bytes, on 10.0.0.1 and 10.0.0.2.\<close>

definition example_env :: "u32 \<Rightarrow> rpc_env" where
  "example_env time = \<lparr>e_secret = \<lparr>as_secret = map word_of_nat [1 ..< 33]\<rparr>, e_flags = RPCF_USE_CRC32C, e_time = time, e_precise_now = 0, e_getpid = 77,
     e_my_ipv4 = 0x0a000002, e_nonce = replicate 16 5, e_rnd = [], e_max_dh_accept_rate = 0, e_nat = (\<lambda>x. x),
     e_crc32 = (\<lambda>bs. word_of_nat (length bs)), e_crc32c = (\<lambda>bs. word_of_nat (length bs + 1)), e_md5 = (\<lambda>bs. replicate 16 (word_of_nat (length bs))),
     e_sha1 = (\<lambda>bs. replicate 20 (word_of_nat (length bs))), e_max_packet_len = 0, e_ignore_pid = False\<rparr>"

definition example_conn :: "u32 \<Rightarrow> u16 \<Rightarrow> u32 \<Rightarrow> u16 \<Rightarrow> rpc_connection" where
  "example_conn our our_port remote remote_port = \<lparr>
     rc_data = \<lparr>rd_flags = 0, in_packet_num = 0, out_packet_num = 0, crypto_flags = 0, remote_pid = no_pid, rd_nonce = [], nonce_time = 0, rd_crc32c = False\<rparr>,
     rc_out_queue = [], rc_out = [], rc_out_p = [], rc_socket = [], rc_crypto = None, rc_crypto_temp = None, rc_isdh = False, rc_error_flag = False,
     rc_stopparse = False, rc_error = 0, rc_status = Conn_working, rc_our = \<lparr>h_ip = our, h_ipv6 = [], h_port = our_port\<rparr>,
     rc_remote = \<lparr>h_ip = remote, h_ipv6 = [], h_port = remote_port\<rparr>, rc_last_query_sent_time = 0, rc_last_response_time = 0,
     rc_PID = \<lparr>pid_ip = our, pid_port = our_port, pid_pid = 7, pid_utime = 1000\<rparr>, rc_dh_select = RPC_PARAM_HASH, rc_notified = 0,
     rc_dh_remaining = 0, rc_dh_time = 0\<rparr>"

lemma example_secret: "good_secret (e_secret (example_env t))"
  by (simp add: good_secret_def example_env_def MIN_PWD_LEN_def MAX_PWD_LEN_def key_signature_def upt_conv_Cons le32_def)

lemma example_fresh: "fresh_conn (example_conn a b c d)"
  by (simp add: fresh_conn_def example_conn_def)

theorem rpc_handshake_completes_witness:
  "\<exists>c s k. rpc_handshake (example_env 1010) (example_env 1000) 2 2 (\<lambda>_ _ c. Some (0, c)) (\<lambda>_ _ c. Some (0, c))
      (example_conn 0x0a000001 4000 0x0a000002 443) (example_conn 0x0a000002 443 0x0a000001 4000) = Some (c, s) \<and>
    handshake_done True \<lparr>pid_ip = 0x0a000002, pid_port = 443, pid_pid = 7, pid_utime = 1000\<rparr> k (example_conn 0x0a000001 4000 0x0a000002 443) c \<and>
    handshake_done True \<lparr>pid_ip = 0x0a000001, pid_port = 4000, pid_pid = 7, pid_utime = 1000\<rparr> (other_keys k) (example_conn 0x0a000002 443 0x0a000001 4000) s"
proof -
  let ?Ec = "example_env 1010" and ?Es = "example_env 1000"
  let ?c0 = "example_conn 0x0a000001 4000 0x0a000002 443" and ?s0 = "example_conn 0x0a000002 443 0x0a000001 4000"
  have "same_setup ?Ec ?Es" "clocks_close ?Ec ?Es" "length (e_nonce ?Ec) = 16" "length (e_nonce ?Es) = 16"
    by (simp_all add: same_setup_def clocks_close_def example_env_def c_abs_def)
  moreover have "addresses_match ?Ec ?Es ?c0 ?s0" "names_known ?c0 ?s0" "dh_possible False ?Ec ?Es ?c0 ?s0"
    by (simp_all add: addresses_match_def names_known_def dh_possible_def nat_host_def example_env_def example_conn_def expected_peer_def matches_pid_def RPC_PARAM_HASH_def)
  moreover have "0 \<le> sint (2 :: u32)" "2 AND perm_mask = enc_flags False" by (simp_all add: perm_mask_def enc_flags_def rpcf_defs)
  moreover have "both_crc32c (e_flags ?Ec) (e_flags ?Es)" by (simp add: both_crc32c_def example_env_def rpcf_defs)
  ultimately show ?thesis
    using rpc_handshake_completes [of ?Ec ?Es ?c0 ?s0 False 2 2 "\<lambda>_ _ c. Some (0, c)" "\<lambda>_ _ c. Some (0, c)"] example_secret example_fresh
    by (simp add: example_conn_def)
qed

section \<open>Encryption is enforced\<close>

text \<open>
  A stream of bytes reaches a parser in pieces; what the parser leaves is kept for the next call. A property of the connection
  and of the bytes received that each call keeps is kept by all of them.
\<close>

fun feed :: "(bytes \<Rightarrow> rpc_connection \<Rightarrow> (int \<times> bytes \<times> rpc_connection) option) \<Rightarrow> bytes \<Rightarrow> bytes list \<Rightarrow> rpc_connection \<Rightarrow> rpc_connection option" where
  "feed parse buf [] c = Some c"
| "feed parse buf (x # xs) c = do { (_, rest, c) \<leftarrow> parse (buf @ x) c; feed parse rest xs c }"

locale stream_parser =
  fixes parse :: "bytes \<Rightarrow> rpc_connection \<Rightarrow> (int \<times> bytes \<times> rpc_connection) option" and inv :: "bytes \<Rightarrow> rpc_connection \<Rightarrow> bool"
  assumes parse_inv: "inv S c \<Longrightarrow> sublist inp S \<Longrightarrow> parse inp c = Some (r, rest, c') \<Longrightarrow> inv S c' \<and> suffix rest inp"
begin

lemma feed_inv:
  assumes "inv S c" "sublist (buf @ concat xs) S" "feed parse buf xs c = Some c'"
  shows "inv S c'"
  using assms
proof (induction xs arbitrary: buf c)
  case (Cons x xs)
  obtain r rest c1 where p: "parse (buf @ x) c = Some (r, rest, c1)" "feed parse rest xs c1 = Some c'"
    using Cons.prems(3) by (auto simp: bind_eq_Some_conv)
  have "sublist (buf @ x) S" using sublist_order.order_trans [OF sublist_append_rightI [of "buf @ x" "concat xs"]] Cons.prems(2) by simp
  note i = parse_inv [OF Cons.prems(1) this p(1)]
  obtain zs where "buf @ x = zs @ rest" using i by (auto simp: suffix_def)
  then have e: "buf @ concat (x # xs) = zs @ rest @ concat xs" by (metis append.assoc concat.simps(2))
  have "sublist (rest @ concat xs) S"
    using sublist_order.order_trans [OF sublist_append_leftI [of "rest @ concat xs" zs] Cons.prems(2) [unfolded e]] .
  then show ?case using Cons.IH [OF _ _ p(2)] i by blast
qed simp

end

interpretation pings: stream_parser "tcp_rpcs_parse_execute E (tcp_rpcs_default_execute E) None" "enc_inv E our remote opt" for E our remote opt
proof unfold_locales
  have "leaves_alone (tcp_rpcs_default_execute E)" using send_data_keeps
    by (fastforce simp: leaves_alone_def tcp_rpcs_default_execute_def bind_eq_Some_conv split: if_split_asm)
  then show "enc_inv E our remote opt S c \<Longrightarrow> sublist inp S \<Longrightarrow> tcp_rpcs_parse_execute E (tcp_rpcs_default_execute E) None inp c = Some (r, rest, c') \<Longrightarrow>
      enc_inv E our remote opt S c' \<and> suffix rest inp" for S inp c r rest c'
    by (rule rpcs_parse_inv)
qed

definition dh_optional :: "u32 \<Rightarrow> bool" where
  "dh_optional perm \<longleftrightarrow> perm AND RPCF_REQ_DH = 0 \<or> perm AND RPCF_ALLOW_SKIP_DH \<noteq> 0"

lemma accepted_inv:
  assumes i: "tcp_rpcs_init_accepted E (Some perm) c0 = (0, c1)" and p: "perm AND RPCF_ALLOW_UNENC = 0" and c: "rc_crypto c0 = None"
  shows "enc_inv E (rc_our c0) (rc_remote c0) (dh_optional perm) S c1"
proof -
  have "(perm AND perm_mask) AND RPCF_ALLOW_UNENC = 0" using flag_and [OF p] .
  moreover have "(perm AND perm_mask) AND RPCF_SEQNO_HOLES = 0" "(perm AND perm_mask) AND RPCF_QUICKACK = 0"
    "(perm AND perm_mask) AND RPCF_REQ_DH = perm AND RPCF_REQ_DH" "(perm AND perm_mask) AND RPCF_ALLOW_SKIP_DH = perm AND RPCF_ALLOW_SKIP_DH"
    by (simp_all add: perm_mask_def rpcf_defs and.assoc)
  ultimately show ?thesis using i c
    by (auto simp: tcp_rpcs_init_accepted_def Let_def enc_inv_def dh_required_def dh_optional_def has_crypto_flag_def upd_data_def split: if_split_asm)
qed

text \<open>
  C4. A server that does not permit unencrypted connections never works on one: whatever bytes arrive, in whatever pieces, the
  connection is still waiting for the first packet of the handshake or has keys made by \<open>aes_create_keys\<close> from the secret of this
  server, its nonce, the addresses of both sides and a packet \<open>P\<close> among the bytes that arrived, whose time passes the comparison with the
  clock. The temporary key that is mixed in is the one of the key exchange with the value in \<open>P\<close>; it is missing only if the
  permissions of the server make the exchange optional. The server has no type for HTTP to fall back to (with one, a connection whose
  first bytes are an HTTP request stops being an RPC connection), and the handler of packets may be any that leaves the state
  of the handshake alone.
\<close>

theorem rpc_server_encrypted:
  assumes "tcp_rpcs_init_accepted E (Some perm) c0 = (0, c1)" "perm AND RPCF_ALLOW_UNENC = 0" "rc_crypto c0 = None"
    and "leaves_alone execute" "feed (tcp_rpcs_parse_execute E execute None) [] pieces c1 = Some c"
  shows "in_packet_num (rc_data c) = -2 \<and> rc_crypto c = None \<or>
    (\<exists>k P. rc_crypto c = Some k \<and> sublist P (concat pieces) \<and> keys_made E (rc_our c0) (rc_remote c0) (dh_optional perm) P k)"
proof -
  have "stream_parser (tcp_rpcs_parse_execute E execute None) (enc_inv E (rc_our c0) (rc_remote c0) (dh_optional perm))"
    by unfold_locales (rule rpcs_parse_inv [OF assms(4)])
  from stream_parser.feed_inv [OF this accepted_inv [OF assms(1-3)] _ assms(5), of "concat pieces"]
  have "enc_inv E (rc_our c0) (rc_remote c0) (dh_optional perm) (concat pieces) c" by simp
  then show ?thesis by (auto simp: enc_inv_def)
qed

theorem rpc_server_encrypted_witness:
  "case tcp_rpcs_init_accepted (example_env 1000) (Some 6) (example_conn 0x0a000002 443 0x0a000001 4000) of (r, c1) \<Rightarrow>
     r = 0 \<and> (\<exists>c. feed (tcp_rpcs_parse_execute (example_env 1000) (\<lambda>_ _ c. Some (0, c)) None) [] [[1, 2], [3, 4]] c1 = Some c \<and>
     (in_packet_num (rc_data c) = -2 \<and> rc_crypto c = None \<or>
      (\<exists>k P. rc_crypto c = Some k \<and> sublist P (concat [[1, 2], [3, 4]]) \<and>
        keys_made (example_env 1000) (rc_our (example_conn 0x0a000002 443 0x0a000001 4000)) (rc_remote (example_conn 0x0a000002 443 0x0a000001 4000)) (dh_optional 6) P k)))"
proof -
  let ?E = "example_env 1000" and ?c0 = "example_conn 0x0a000002 443 0x0a000001 4000" and ?ex = "\<lambda>_ _ c. Some (0 :: int, c) :: (int \<times> rpc_connection) option"
  obtain c1 where 1: "tcp_rpcs_init_accepted ?E (Some 6) ?c0 = (0, c1)" "rc_error_flag c1 = False" "rc_stopparse c1 = False" "crypto_flags (rc_data c1) = 6"
    by (simp add: tcp_rpcs_init_accepted_def perm_mask_def rpcf_defs upd_data_def example_conn_def)
  have 2: "feed (tcp_rpcs_parse_execute ?E ?ex None) [] [[1, 2], [3, 4]] c1 = Some (fail_rpc_connection (-1) c1)"
    using 1 by (simp add: tcp_rpcs_parse_execute.simps has_crypto_flag_def rpcf_defs le32_def)
  have "leaves_alone ?ex" by (simp add: leaves_alone_def)
  then have "in_packet_num (rc_data (fail_rpc_connection (-1) c1)) = -2 \<and> rc_crypto (fail_rpc_connection (-1) c1) = None \<or>
      (\<exists>k P. rc_crypto (fail_rpc_connection (-1) c1) = Some k \<and> sublist P (concat [[1, 2], [3, 4]]) \<and>
        keys_made ?E (rc_our ?c0) (rc_remote ?c0) (dh_optional 6) P k)"
    by (intro rpc_server_encrypted [OF 1(1) _ _ _ 2]) (simp_all add: rpcf_defs example_conn_def)
  then show ?thesis using 1(1) 2 by auto
qed

section \<open>A bad value in the key exchange\<close>

text \<open>
  C40. A nonce packet with the right key signature, a current time and a value of the key exchange that \<open>is_good_rpc_dh_bin\<close> rejects
  (all zeros, say) makes a server that requires the exchange fail its assertion that the key has 256 bytes. The signature is the
  first four bytes of the secret, and every nonce packet carries it in clear.
\<close>

theorem rpcs_bad_dh_aborts:
  assumes c0: "fresh_conn c0" "0 \<le> sint perm" "perm AND perm_mask = enc_flags True" "rc_dh_select c0 \<noteq> 0"
    and E: "4 \<le> length (as_secret (e_secret E))" "key_signature (e_secret E) \<noteq> 0" "e_max_dh_accept_rate E = 0" "e_max_packet_len E \<le> 0"
    and p: "plain_nonce p" "np_key_select p = key_signature (e_secret E)" "np_dh p = Some (rc_dh_select c0, g_a)"
      "sint (c_abs (np_crypto_ts p - e_time E)) \<le> 30" "is_good_rpc_dh_bin g_a = Some False"
  shows "tcp_rpcs_parse_execute E execute fallback (rpc_frame (e_crc32 E) (-2) (nonce_packet_bytes p)) (snd (tcp_rpcs_init_accepted E (Some perm) c0)) = None"
proof -
  let ?P = "nonce_packet_bytes p"
  define c1 where "c1 = snd (tcp_rpcs_init_accepted E (Some perm) c0)"
  have a: "conn_accepted True c0 c1" using c0 by (simp add: c1_def tcp_rpcs_init_accepted_def Let_def enc_flags_def rpcf_defs conn_accepted_def upd_data_def fresh_conn_def)
  have sz: "packet_size_ok E ?P" using nonce_fields(1) [OF p(1)] E(4) by (simp add: packet_size_ok_def)
  have s: "np_crypto_schema p = RPC_CRYPTO_AES_DH" using p(1,3) by (auto simp: plain_nonce_def)
  have dp: "dh_part ?P = (rc_dh_select c0, g_a)" "extra_key_select ?P = []" using nonce_fields(8,9) [OF p(1) s] p(3) by simp_all
  have "dh_second_round g_a (e_rnd E) = Some (0, [], [], e_rnd E)" using p(5) by (simp add: dh_second_round_def)
  then have "tcp_rpcs_process_nonce_packet E ?P c1 = None"
    using a nonce_fields [OF p(1)] s dp c0(4) E p(2,4)
    by (simp add: tcp_rpcs_process_nonce_packet_def rpcs_nonce_aes_def rpcs_finish_nonce_def tcp_rpcs_init_crypto_def rpcs_dh_def
      tcp_add_dh_accept_def ensure_dh_def init_dh_params_def upd_data_def has_crypto_flag_def enc_flags_def rpcf_defs rpc_crypto_defs key_select_ok [OF E(1)]
      conn_accepted_def cassert_def Let_def)
  moreover have "custom_crc E c1 = e_crc32 E" using a by (simp add: custom_crc_def conn_accepted_def)
  ultimately show ?thesis
    using rpcs_frame [OF sz, of "-2" c1 execute fallback "[]"] a
    by (simp add: conn_accepted_def rpcs_system_packet_def has_crypto_flag_def enc_flags_def rpcf_defs c1_def [symmetric])
qed

theorem rpcs_bad_dh_aborts_witness:
  "tcp_rpcs_parse_execute (example_env 1000) (\<lambda>_ _ c. Some (0, c)) None
     (rpc_frame (e_crc32 (example_env 1000)) (-2) (nonce_packet_bytes
       \<lparr>np_key_select = key_signature (e_secret (example_env 1000)), np_crypto_schema = RPC_CRYPTO_AES_DH, np_crypto_ts = 1000,
         np_crypto_nonce = replicate 16 9, np_extra = [], np_dh = Some (RPC_PARAM_HASH, replicate 256 0)\<rparr>))
     (snd (tcp_rpcs_init_accepted (example_env 1000) (Some 6) (example_conn 0x0a000002 443 0x0a000001 4000))) = None"
proof -
  have "rc_dh_select (example_conn 0x0a000002 443 0x0a000001 4000) = RPC_PARAM_HASH" by (simp add: example_conn_def)
  moreover have "4 \<le> length (as_secret (e_secret (example_env 1000)))" "key_signature (e_secret (example_env 1000)) \<noteq> 0" "e_time (example_env 1000) = 1000"
    "e_max_dh_accept_rate (example_env 1000) = 0" "e_max_packet_len (example_env 1000) \<le> 0"
    using example_secret [of 1000] by (simp_all add: good_secret_def MIN_PWD_LEN_def) (simp_all add: example_env_def)
  ultimately show ?thesis
    by (intro rpcs_bad_dh_aborts [OF example_fresh, where g_a = "replicate 256 0"])
      (simp_all add: plain_nonce_def perm_mask_def enc_flags_def rpcf_defs RPC_PARAM_HASH_def c_abs_def is_good_rpc_dh_bin_def)
qed

end
