(* ===== verification/Crc32.thy ===== *)
theory Crc32
  imports CrcTables
begin

text \<open>
  Checksums of packets (\<^verbatim>\<open>common/crc32.c\<close>, \<^verbatim>\<open>common/crc32c.c\<close>, \<open>compute_crc32\<close> and \<open>compute_crc64\<close> of \<^verbatim>\<open>common/crc32.h\<close>): the
  functions that work with tables compute the checksum bit by bit, and \<open>compute_crc32_combine_generic\<close> gives the checksum of a
  concatenation. The variants for processors with special instructions are not modelled.
\<close>

section \<open>Reference\<close>

text \<open>The checksum one bit at a time, the least significant bit of each byte first.\<close>

definition crc_bit :: "'a::len word \<Rightarrow> 'a word \<Rightarrow> bool \<Rightarrow> 'a word" where
  "crc_bit p c b = mulx p (if b then c XOR 1 else c)"

definition bits_of :: "bytes \<Rightarrow> bool list" where
  "bits_of data = concat (map (\<lambda>b. map (bit b) [0 ..< 8]) data)"

definition crc_ref :: "'a::len word \<Rightarrow> 'a word \<Rightarrow> bytes \<Rightarrow> 'a word" where
  "crc_ref p c data = foldl (crc_bit p) c (bits_of data)"

section \<open>Four tables\<close>

text \<open>The macros \<open>DO_ONE\<close> and \<open>DO_FOUR\<close>, on the integers at the beginning of \<open>p\<close>; \<open>T\<close> has the tables for the bytes of an integer.\<close>

record crc_tables =
  tab0 :: "u32 list"
  tab1 :: "u32 list"
  tab2 :: "u32 list"
  tab3 :: "u32 list"

definition DO_ONE :: "crc_tables \<Rightarrow> u32 \<Rightarrow> u32 \<Rightarrow> u32" where
  "DO_ONE T v crc = (let crc = crc XOR v in
     tab0 T ! unat (crc AND 0xff) XOR tab1 T ! unat (drop_bit 8 (crc AND 0xff00)) XOR tab2 T ! unat (drop_bit 16 (crc AND 0xff0000)) XOR
     tab3 T ! unat (drop_bit 24 crc))"

definition DO_FOUR :: "crc_tables \<Rightarrow> bytes \<Rightarrow> u32 \<Rightarrow> u32" where
  "DO_FOUR T p crc = DO_ONE T (le32 (drop 12 p)) (DO_ONE T (le32 (drop 8 p)) (DO_ONE T (le32 (drop 4 p)) (DO_ONE T (le32 p) crc)))"

primrec do_blocks :: "crc_tables \<Rightarrow> nat \<Rightarrow> bytes \<Rightarrow> u32 \<Rightarrow> bytes \<times> u32" where
  "do_blocks T 0 p crc = (p, crc)"
| "do_blocks T (Suc x) p crc = do_blocks T x (drop 32 p) (DO_FOUR T (drop 16 p) (DO_FOUR T p crc))"

definition do_byte :: "u32 list \<Rightarrow> u8 \<Rightarrow> u32 \<Rightarrow> u32" where
  "do_byte t b crc = t ! unat ((crc XOR scast b) AND 0xff) XOR drop_bit 8 crc"

text \<open>The body that both functions have; \<open>x\<close> is the number of iterations of the loop, a \<^verbatim>\<open>long\<close> in one and an \<^verbatim>\<open>int\<close> in the other.\<close>

definition partial_tables :: "crc_tables \<Rightarrow> nat \<Rightarrow> bytes \<Rightarrow> u32 \<Rightarrow> u32" where
  "partial_tables T x data crc =
     (let len = length data;
          (p, crc) = do_blocks T x data crc;
          (p, crc) = (if bit len 4 then (drop 16 p, DO_FOUR T p crc) else (p, crc));
          (p, crc) = (if bit len 3 then (drop 8 p, DO_ONE T (le32 (drop 4 p)) (DO_ONE T (le32 p) crc)) else (p, crc));
          (q, crc) = (if bit len 2 then (drop 4 p, DO_ONE T (le32 p) crc) else (p, crc));
          (q, crc) = (if bit len 1 then (drop 2 q, do_byte (tab3 T) (q ! 1) (do_byte (tab3 T) (q ! 0) crc)) else (q, crc))
      in if bit len 0 then do_byte (tab3 T) (q ! 0) crc else crc)"

definition crc32_partial_generic :: "bytes \<Rightarrow> u32 \<Rightarrow> u32" where
  "crc32_partial_generic data =
     partial_tables \<lparr>tab0 = crc32_table0, tab1 = crc32_table1, tab2 = crc32_table2, tab3 = crc32_table\<rparr> (length data div 32) data"

definition crc32c_partial_four_tables :: "bytes \<Rightarrow> u32 \<Rightarrow> u32" where
  "crc32c_partial_four_tables data =
     partial_tables \<lparr>tab0 = crc32c_table0, tab1 = crc32c_table1, tab2 = crc32c_table2, tab3 = crc32c_table\<rparr>
       (nat (sint (word_of_nat (length data div 32) :: u32))) data"

definition crc64_feed_byte :: "u64 \<Rightarrow> u8 \<Rightarrow> u64" where
  "crc64_feed_byte crc b = crc64_table ! unat ((crc XOR ucast b) AND 0xff) XOR drop_bit 8 crc"

fun crc64_partial_one_table :: "bytes \<Rightarrow> u64 \<Rightarrow> u64" where
  "crc64_partial_one_table [] crc = crc"
| "crc64_partial_one_table (b # p) crc = crc64_partial_one_table p (crc64_table ! unat ((crc XOR scast b) AND 0xff) XOR drop_bit 8 crc)"

definition compute_crc32 :: "bytes \<Rightarrow> u32" where
  "compute_crc32 data = crc32_partial_generic data (-1) XOR -1"

definition compute_crc32c :: "bytes \<Rightarrow> u32" where
  "compute_crc32c data = crc32c_partial_four_tables data (-1) XOR -1"

definition compute_crc64 :: "bytes \<Rightarrow> u64" where
  "compute_crc64 data = crc64_partial_one_table data (-1) XOR -1"

section \<open>Bytes and bits\<close>

definition crc_step :: "'a::len word \<Rightarrow> 'a word \<Rightarrow> u8 \<Rightarrow> 'a word" where
  "crc_step p c b = (mulx p ^^ 8) (c XOR ucast b)"

text \<open>The bits that are still to come are exclusive-or-ed into the register.\<close>

lemma bits_serial:
  fixes c w :: "'a::len word"
  shows "foldl (crc_bit p) (c XOR drop_bit i w) (map (bit w) [i ..< i + n]) = (mulx p ^^ n) c XOR drop_bit (i + n) w"
proof (induction n arbitrary: c)
  case (Suc n)
  have "mulx p (drop_bit j w XOR (if bit w j then 1 else 0)) = drop_bit (Suc j) w" for j
  proof (rule bit_word_eqI)
    fix k
    have "\<not> bit (drop_bit j w XOR (if bit w j then 1 else 0)) 0" by (simp add: bit_simps)
    then show "bit (mulx p (drop_bit j w XOR (if bit w j then 1 else 0))) k = bit (drop_bit (Suc j) w) k"
      by (simp add: mulx_def bit_simps)
  qed
  moreover have "crc_bit p (a XOR drop_bit j w) (bit w j) = mulx p a XOR mulx p (drop_bit j w XOR (if bit w j then 1 else 0))" for a j
    by (simp add: crc_bit_def mulx_xor [symmetric] xor.assoc)
  ultimately have "crc_bit p ((mulx p ^^ n) c XOR drop_bit (i + n) w) (bit w (i + n)) = (mulx p ^^ Suc n) c XOR drop_bit (i + Suc n) w" by simp
  then show ?case using Suc by simp
qed simp

lemma crc_byte_bits: "8 \<le> LENGTH('a) \<Longrightarrow> foldl (crc_bit p) c (map (bit b) [0 ..< 8]) = crc_step (p :: 'a::len word) c b"
proof -
  assume l: "8 \<le> LENGTH('a)"
  let ?w = "ucast b :: 'a word"
  have m: "map (bit b) [0 ..< 8] = map (bit ?w) [0 ..< 8]" using l by (auto simp: bit_simps)
  have "drop_bit 8 ?w = 0" by (rule bit_word_eqI) (auto simp: bit_simps dest: bit_imp_le_length)
  then show ?thesis unfolding m using bits_serial [of p "c XOR ?w" 0 ?w 8] by (simp add: crc_step_def xor.assoc)
qed

lemma crc_ref_bytes: "8 \<le> LENGTH('a) \<Longrightarrow> crc_ref p c data = foldl (crc_step (p :: 'a::len word)) c data"
  by (induction data arbitrary: c) (simp_all add: crc_ref_def bits_of_def crc_byte_bits del: upt_Suc)

lemma crc_step_xor: "crc_step p (a XOR c) b = (mulx p ^^ 8) a XOR crc_step p c b"
  by (simp add: crc_step_def mulx_n_xor xor.assoc)

section \<open>The tables give the checksum\<close>

lemma unat_and_ff: "unat ((w :: 'a::len word) AND 0xff) < 256" if "8 < LENGTH('a)"
proof -
  have "(w AND 0xff) = take_bit 8 w" by (simp add: take_bit_eq_mask mask_eq_exp_minus_1)
  then have "unat (w AND 0xff) = take_bit 8 (unat w)" by (simp add: unsigned_take_bit_eq)
  then show ?thesis using take_bit_nat_less_exp [of 8 "unat w"] by simp
qed

lemma table_byte:
  fixes t :: "'a::len word list"
  assumes t: "shift_table p 8 t" and l: "8 < LENGTH('a)" and w: "w AND 0xff = ucast b"
  shows "t ! unat ((crc XOR w) AND 0xff) XOR drop_bit 8 crc = crc_step p crc b"
proof -
  define lo where "lo = (crc XOR ucast b) AND 0xff"
  have ff: "x AND 0xff = take_bit 8 x" for x :: "'a word" by (simp add: take_bit_eq_mask mask_eq_exp_minus_1)
  have "(crc XOR w) AND 0xff = (crc AND 0xff) XOR (w AND 0xff)" by (simp add: ff take_bit_xor)
  also have "\<dots> = lo" unfolding lo_def ff w by (simp add: take_bit_xor) (auto simp: bit_eq_iff bit_simps w [unfolded ff] dest: bit_imp_le_length)
  finally have lo: "(crc XOR w) AND 0xff = lo" .
  have "t ! unat lo = (mulx p ^^ 8) lo"
    using shift_table_nth [OF t unat_and_ff [OF l, of "crc XOR ucast b", folded lo_def]] l by simp
  moreover have s: "crc XOR ucast b = lo XOR push_bit 8 (drop_bit 8 crc)"
    unfolding lo_def ff by (rule bit_word_eqI) (auto simp: bit_simps dest: bit_imp_le_length)
  have u: "unat (drop_bit 8 crc) < 2 ^ (LENGTH('a) - 8)"
  proof -
    have "unat crc < 2 ^ (LENGTH('a) - 8) * 2 ^ 8" using unsigned_less [of crc, where 'a = nat] l by (simp add: power_add [symmetric] del: power_numeral)
    then have "unat crc div 2 ^ 8 < 2 ^ (LENGTH('a) - 8)" by (rule less_mult_imp_div_less)
    moreover have "unat (drop_bit 8 crc) = drop_bit 8 (unat crc)"
      using unsigned_less [of crc, where 'a = nat] by (simp add: unsigned_drop_bit_eq take_bit_nat_eq_self)
    ultimately show ?thesis by (simp only: drop_bit_eq_div)
  qed
  have "(mulx p ^^ 8) (push_bit 8 (drop_bit 8 crc)) = drop_bit 8 crc" by (rule mulx_n_push [OF _ u]) (use l in simp)
  ultimately show ?thesis unfolding lo crc_step_def s by (simp add: mulx_n_xor)
qed

definition good_tables :: "u32 \<Rightarrow> crc_tables \<Rightarrow> bool" where
  "good_tables p T \<longleftrightarrow> shift_table p 32 (tab0 T) \<and> shift_table p 24 (tab1 T) \<and> shift_table p 16 (tab2 T) \<and> shift_table p 8 (tab3 T)"

lemma byte_of_word:
  fixes c :: u32
  shows "c AND 0xff = ucast (ucast c :: u8)" "drop_bit 8 (c AND 0xff00) = ucast (ucast (drop_bit 8 c) :: u8)"
    "drop_bit 16 (c AND 0xff0000) = ucast (ucast (drop_bit 16 c) :: u8)" "drop_bit 24 c = ucast (ucast (drop_bit 24 c) :: u8)"
proof -
  have m: "(0xff :: u32) = mask 8" "(0xff00 :: u32) = push_bit 8 (mask 8)" "(0xff0000 :: u32) = push_bit 16 (mask 8)"
    by (simp_all add: mask_eq_exp_minus_1)
  show "c AND 0xff = ucast (ucast c :: u8)" "drop_bit 8 (c AND 0xff00) = ucast (ucast (drop_bit 8 c) :: u8)"
    "drop_bit 16 (c AND 0xff0000) = ucast (ucast (drop_bit 16 c) :: u8)" "drop_bit 24 c = ucast (ucast (drop_bit 24 c) :: u8)"
    unfolding m by (auto simp: bit_eq_iff bit_simps dest: bit_imp_le_length)
qed

lemma word_of_bytes:
  fixes c :: u32
  shows "c = ucast (ucast c :: u8) XOR push_bit 8 (ucast (ucast (drop_bit 8 c) :: u8)) XOR push_bit 16 (ucast (ucast (drop_bit 16 c) :: u8)) XOR
    push_bit 24 (ucast (ucast (drop_bit 24 c) :: u8))"
proof (rule bit_word_eqI)
  fix n assume "n < LENGTH(32)"
  then consider "n < 8" | "8 \<le> n" "n < 16" | "16 \<le> n" "n < 24" | "24 \<le> n" "n < 32" by fastforce
  then show "bit c n = bit (ucast (ucast c :: u8) XOR push_bit 8 (ucast (ucast (drop_bit 8 c) :: u8)) XOR push_bit 16 (ucast (ucast (drop_bit 16 c) :: u8)) XOR
    push_bit 24 (ucast (ucast (drop_bit 24 c) :: u8)) :: u32) n"
    by cases (auto simp: bit_simps)
qed

lemma unat_ucast_u8: "unat (ucast (b :: u8) :: u32) < 256"
  using unat_u8_less [of b] le_less_trans [OF take_bit_nat_less_eq_self [of 32 "unat b"]] by (simp add: unsigned_ucast_eq)

lemma mulx_32_push:
  assumes "k \<le> 24"
  shows "(mulx p ^^ 32) (push_bit k (ucast (b :: u8) :: u32)) = (mulx p ^^ (32 - k)) (ucast b)"
proof -
  have "unat (ucast b :: u32) < 2 ^ 8" using unat_ucast_u8 [of b] by simp
  then have "(mulx p ^^ k) (push_bit k (ucast b)) = (ucast b :: u32)" by (rule mulx_n_push [rotated]) (use assms in simp)
  then show ?thesis using mulx_n_add [of "32 - k" p k "push_bit k (ucast b)"] assms by simp
qed

lemma DO_ONE_ok:
  assumes "good_tables p T"
  shows "DO_ONE T v crc = (mulx p ^^ 32) (crc XOR v)"
proof -
  define c where "c = crc XOR v"
  define b0 b1 b2 b3 :: u8 where b: "b0 = ucast c" "b1 = ucast (drop_bit 8 c)" "b2 = ucast (drop_bit 16 c)" "b3 = ucast (drop_bit 24 c)"
  have t: "t ! unat (ucast b :: u32) = (mulx p ^^ n) (ucast b)" if "shift_table p n t" for n t and b :: u8
    using shift_table_nth [OF that unat_ucast_u8] by simp
  have "DO_ONE T v crc = tab0 T ! unat (ucast b0 :: u32) XOR tab1 T ! unat (ucast b1 :: u32) XOR tab2 T ! unat (ucast b2 :: u32) XOR tab3 T ! unat (ucast b3 :: u32)"
    by (simp only: DO_ONE_def Let_def c_def [symmetric] b byte_of_word(1-3) byte_of_word(4) [symmetric])
  also have "\<dots> = (mulx p ^^ 32) (ucast b0) XOR (mulx p ^^ 24) (ucast b1) XOR (mulx p ^^ 16) (ucast b2) XOR (mulx p ^^ 8) (ucast b3)"
    using assms t [of 32 "tab0 T" b0] t [of 24 "tab1 T" b1] t [of 16 "tab2 T" b2] t [of 8 "tab3 T" b3] by (simp add: good_tables_def)
  also have "\<dots> = (mulx p ^^ 32) (ucast b0 XOR push_bit 8 (ucast b1) XOR push_bit 16 (ucast b2) XOR push_bit 24 (ucast b3))"
    using mulx_32_push [of 8 p b1] mulx_32_push [of 16 p b2] mulx_32_push [of 24 p b3] by (simp add: mulx_n_xor)
  also have "\<dots> = (mulx p ^^ 32) c" unfolding b using word_of_bytes [of c] by simp
  finally show ?thesis by (simp add: c_def)
qed

lemma steps_word:
  "foldl (crc_step p) crc [a, b, c, d] = (mulx p ^^ 32) (crc XOR le32 ([a, b, c, d] @ r))"
proof -
  have m: "(mulx p ^^ n) x XOR ucast y = (mulx p ^^ n) (x XOR push_bit n (ucast y))" if "n \<le> 24" for n x and y :: u8
  proof -
    have "unat (ucast y :: u32) < 2 ^ 8" using unat_ucast_u8 [of y] by simp
    then have "(mulx p ^^ n) (push_bit n (ucast y)) = (ucast y :: u32)" by (rule mulx_n_push [rotated]) (use that in simp)
    then show ?thesis by (simp add: mulx_n_xor)
  qed
  have l: "le32 ([a, b, c, d] @ r) = ucast a XOR push_bit 8 (ucast b) XOR push_bit 16 (ucast c) XOR push_bit 24 (ucast d)"
  proof (rule bit_word_eqI)
    fix n assume "n < LENGTH(32)"
    then consider "n < 8" | "8 \<le> n" "n < 16" | "16 \<le> n" "n < 24" | "24 \<le> n" "n < 32" by fastforce
    then show "bit (le32 ([a, b, c, d] @ r)) n = bit (ucast a XOR push_bit 8 (ucast b) XOR push_bit 16 (ucast c) XOR push_bit 24 (ucast d) :: u32) n"
      by cases (auto simp: le32_def bit_simps dest: bit_imp_le_length)
  qed
  have "foldl (crc_step p) crc [a, b] = (mulx p ^^ 16) (crc XOR ucast a XOR push_bit 8 (ucast b))"
    using m [of 8] by (simp add: crc_step_def mulx_n_add xor.assoc)
  then have "foldl (crc_step p) crc [a, b, c] = (mulx p ^^ 24) (crc XOR ucast a XOR push_bit 8 (ucast b) XOR push_bit 16 (ucast c))"
    using m [of 16] by (simp add: crc_step_def mulx_n_add xor.assoc)
  then have "foldl (crc_step p) crc [a, b, c, d] = (mulx p ^^ 32) (crc XOR ucast a XOR push_bit 8 (ucast b) XOR push_bit 16 (ucast c) XOR push_bit 24 (ucast d))"
    using m [of 24] by (simp add: crc_step_def mulx_n_add xor.assoc)
  then show ?thesis by (simp only: l xor.assoc)
qed

lemma DO_ONE_bytes:
  assumes "good_tables p T" "4 \<le> length q"
  shows "DO_ONE T (le32 q) crc = foldl (crc_step p) crc (take 4 q)"
proof -
  obtain a b c d r where q: "q = [a, b, c, d] @ r"
    using assms(2) by (auto simp: numeral_eq_Suc Suc_le_length_iff)
  show ?thesis unfolding DO_ONE_ok [OF assms(1)] q steps_word [symmetric] by simp
qed

text \<open>Reading some bytes and then others.\<close>

lemma foldl_take_drop: "foldl f (foldl f c (take m xs)) (take n (drop m xs)) = foldl f c (take (m + n) xs)"
  by (simp add: take_add)

lemma DO_TWO_bytes:
  assumes "good_tables p T" "8 \<le> length q"
  shows "DO_ONE T (le32 (drop 4 q)) (DO_ONE T (le32 q) crc) = foldl (crc_step p) crc (take 8 q)"
  using assms foldl_take_drop [of "crc_step p" crc 4 q 4] by (simp add: DO_ONE_bytes)

lemma DO_FOUR_bytes:
  assumes "good_tables p T" "16 \<le> length q"
  shows "DO_FOUR T q crc = foldl (crc_step p) crc (take 16 q)"
proof -
  have "DO_FOUR T q crc = foldl (crc_step p) (foldl (crc_step p) crc (take 8 q)) (take 8 (drop 8 q))"
    using assms DO_TWO_bytes [OF assms(1), of "drop 8 q"] DO_TWO_bytes [OF assms(1), of q] by (simp add: DO_FOUR_def add.commute)
  then show ?thesis by (simp add: foldl_take_drop)
qed

lemma do_blocks_bytes:
  assumes "good_tables p T" "32 * x \<le> length q"
  shows "do_blocks T x q crc = (drop (32 * x) q, foldl (crc_step p) crc (take (32 * x) q))"
  using assms(2)
proof (induction x arbitrary: q crc)
  case (Suc x)
  have "DO_FOUR T (drop 16 q) (DO_FOUR T q crc) = foldl (crc_step p) crc (take 32 q)"
    using Suc.prems DO_FOUR_bytes [OF assms(1)] foldl_take_drop [of "crc_step p" crc 16 q 16] by simp
  then show ?case using Suc foldl_take_drop [of "crc_step p" crc 32 q "32 * x"] by (simp add: add.commute)
qed simp

lemma do_byte_step:
  assumes "good_tables p T"
  shows "do_byte (tab3 T) b crc = crc_step p crc b"
proof -
  have m: "(0xff :: u32) = mask 8" by (simp add: mask_eq_exp_minus_1)
  have "(scast b :: u32) AND 0xff = ucast b" unfolding m
  proof (rule bit_word_eqI)
    fix n
    have "n < 8 \<Longrightarrow> min 7 n = n" for n :: nat by simp
    then show "bit ((scast b :: u32) AND mask 8) n = bit (ucast b :: u32) n" by (cases "n < 8") (auto simp: bit_simps dest: bit_imp_le_length)
  qed
  then show ?thesis using table_byte [of p "tab3 T" "scast b" b crc] assms by (simp add: do_byte_def good_tables_def)
qed

lemma mod_bit:
  fixes l :: nat
  shows "l mod 2 ^ Suc k = (if bit l k then 2 ^ k else 0) + l mod 2 ^ k"
  using take_bit_Suc_from_most [of k l] by (simp add: take_bit_eq_mod)

text \<open>One conditional of the function: it reads the bytes that the bit of the length says.\<close>

lemma tail_step:
  assumes "foldl f c q = R" "length q = l mod 2 ^ Suc k"
    and "(q', c') = (if bit l k then (drop (2 ^ k) q, g c) else (q, c))" "2 ^ k \<le> length q \<Longrightarrow> g c = foldl f c (take (2 ^ k) q)"
  shows "foldl f c' q' = R" "length q' = l mod 2 ^ k"
proof -
  have "foldl f (foldl f c (take (2 ^ k) q)) (drop (2 ^ k) q) = R" using assms(1) by (simp flip: foldl_append)
  then show "foldl f c' q' = R" "length q' = l mod 2 ^ k" using assms(2-) mod_bit [of l k] by (auto split: if_split_asm)
qed

lemma partial_tables_ok:
  assumes T: "good_tables p T"
  shows "partial_tables T (length data div 32) data crc = foldl (crc_step p) crc data"
proof -
  define R l where "R = foldl (crc_step p) crc data" and "l = length data"
  obtain p5 c5 where 5: "(p5, c5) = do_blocks T (l div 32) data crc" by (metis surj_pair)
  obtain p4 c4 where 4: "(p4, c4) = (if bit l 4 then (drop 16 p5, DO_FOUR T p5 c5) else (p5, c5))" by (metis surj_pair)
  obtain p3 c3 where 3: "(p3, c3) = (if bit l 3 then (drop 8 p4, DO_ONE T (le32 (drop 4 p4)) (DO_ONE T (le32 p4) c4)) else (p4, c4))" by (metis surj_pair)
  obtain p2 c2 where 2: "(p2, c2) = (if bit l 2 then (drop 4 p3, DO_ONE T (le32 p3) c3) else (p3, c3))" by (metis surj_pair)
  obtain p1 c1 where 1: "(p1, c1) = (if bit l 1 then (drop 2 p2, do_byte (tab3 T) (p2 ! 1) (do_byte (tab3 T) (p2 ! 0) c2)) else (p2, c2))" by (metis surj_pair)
  have "32 * (l div 32) \<le> length data" by (simp add: l_def)
  from do_blocks_bytes [OF T this] have "p5 = drop (32 * (l div 32)) data" "c5 = foldl (crc_step p) crc (take (32 * (l div 32)) data)" using 5 by simp_all
  then have a5: "foldl (crc_step p) c5 p5 = R" "length p5 = l mod 2 ^ Suc 4"
    by (simp_all add: R_def l_def minus_mult_div_eq_mod [symmetric] flip: foldl_append)
  note a4 = tail_step [OF a5, where g = "DO_FOUR T p5" and q' = p4 and c' = c4]
  have a4: "foldl (crc_step p) c4 p4 = R" "length p4 = l mod 2 ^ Suc 3" using a4 4 DO_FOUR_bytes [OF T, of p5 c5] by simp_all
  note a3 = tail_step [OF a4, where g = "\<lambda>c. DO_ONE T (le32 (drop 4 p4)) (DO_ONE T (le32 p4) c)" and q' = p3 and c' = c3]
  have a3: "foldl (crc_step p) c3 p3 = R" "length p3 = l mod 2 ^ Suc 2" using a3 3 DO_TWO_bytes [OF T, of p4 c4] by simp_all
  note a2 = tail_step [OF a3, where g = "DO_ONE T (le32 p3)" and q' = p2 and c' = c2]
  have a2: "foldl (crc_step p) c2 p2 = R" "length p2 = l mod 2 ^ Suc 1" using a2 2 DO_ONE_bytes [OF T, of p3 c3] by simp_all
  note a1 = tail_step [OF a2, where g = "\<lambda>c. do_byte (tab3 T) (p2 ! 1) (do_byte (tab3 T) (p2 ! 0) c)" and q' = p1 and c' = c1]
  have "do_byte (tab3 T) (p2 ! 1) (do_byte (tab3 T) (p2 ! 0) c2) = foldl (crc_step p) c2 (take 2 p2)" if "2 \<le> length p2"
    using that by (auto simp: do_byte_step [OF T] numeral_eq_Suc Suc_le_length_iff)
  then have a1: "foldl (crc_step p) c1 p1 = R" "length p1 = l mod 2 ^ Suc 0" using a1 1 by simp_all
  have "(if bit l 0 then do_byte (tab3 T) (p1 ! 0) c1 else c1) = R"
    using a1 by (cases p1) (auto simp: do_byte_step [OF T] bit_0 odd_iff_mod_2_eq_one)
  then show ?thesis using 1 2 3 4 5 unfolding partial_tables_def l_def [symmetric] R_def Let_def by (auto split: prod.split)
qed

lemma tables_good:
  "good_tables CRC32_REFLECTED_POLY \<lparr>tab0 = crc32_table0, tab1 = crc32_table1, tab2 = crc32_table2, tab3 = crc32_table\<rparr>"
  "good_tables CRC32C_REFLECTED_POLY \<lparr>tab0 = crc32c_table0, tab1 = crc32c_table1, tab2 = crc32c_table2, tab3 = crc32c_table\<rparr>"
  by (simp_all add: good_tables_def crc32_table_ok crc32_table2_ok crc32_table1_ok crc32_table0_ok crc32c_table_ok crc32c_table2_ok crc32c_table1_ok crc32c_table0_ok)

lemma crc64_one_table: "crc64_partial_one_table data crc = foldl (crc_step CRC64_REFLECTED_POLY) crc data"
proof (induction data arbitrary: crc)
  case (Cons b data)
  have m: "(0xff :: u64) = mask 8" by (simp add: mask_eq_exp_minus_1)
  have "(scast b :: u64) AND 0xff = ucast b" unfolding m
  proof (rule bit_word_eqI)
    fix n
    have "n < 8 \<Longrightarrow> min 7 n = n" for n :: nat by simp
    then show "bit ((scast b :: u64) AND mask 8) n = bit (ucast b :: u64) n" by (cases "n < 8") (auto simp: bit_simps dest: bit_imp_le_length)
  qed
  then show ?case using Cons table_byte [OF crc64_table_ok, of "scast b" b crc] by simp
qed simp

lemma crc32c_steps:
  assumes "length data < 2 ^ 36"
  shows "crc32c_partial_four_tables data crc = foldl (crc_step CRC32C_REFLECTED_POLY) crc data"
proof -
  have "length data div 32 < 2 ^ 31" using assms by simp
  then have "nat (sint (word_of_nat (length data div 32) :: u32)) = length data div 32" by (simp add: signed_of_nat signed_take_bit_int_eq_self)
  then show ?thesis by (simp add: crc32c_partial_four_tables_def partial_tables_ok [OF tables_good(2)])
qed

lemma crc32_steps: "crc32_partial_generic data crc = foldl (crc_step CRC32_REFLECTED_POLY) crc data"
  by (simp add: crc32_partial_generic_def partial_tables_ok [OF tables_good(1)])

text \<open>
  C32. The functions with tables compute the checksum that is defined bit by bit, for every initial value: the CRC-32 and the
  CRC-32C with four tables, four bytes at a time, and the CRC-64 with one. The CRC-32C counts its blocks in an \<^verbatim>\<open>int\<close> and
  needs inputs shorter than $2^{36}$ bytes.
\<close>

theorem crc_tables_correct:
  "crc32_partial_generic data c = crc_ref CRC32_REFLECTED_POLY c data \<and>
   (length data < 2 ^ 36 \<longrightarrow> crc32c_partial_four_tables data c = crc_ref CRC32C_REFLECTED_POLY c data) \<and>
   crc64_partial_one_table data d = crc_ref CRC64_REFLECTED_POLY d data"
  by (simp_all add: crc32c_steps crc64_one_table crc32_steps crc_ref_bytes)

theorem crc_tables_correct_witness: "crc32c_partial_four_tables [1, 2, 3] 0 = crc_ref CRC32C_REFLECTED_POLY 0 [1, 2, 3]"
  using crc_tables_correct [of "[1, 2, 3]" 0 0] by simp

section \<open>Checksum of a concatenation\<close>

definition gf32_mulx :: "u32 \<Rightarrow> u32 \<Rightarrow> u32" where
  "gf32_mulx a poly = (let r = drop_bit 1 a in if a AND 1 \<noteq> 0 then r XOR poly else r)"

text \<open>The product of a matrix, given by the images of the bits, and a vector; it reads the matrix only where the vector has a bit.\<close>

function gf32_matrix_loop :: "u32 list \<Rightarrow> u32 \<Rightarrow> u32 \<Rightarrow> u32 option" where
  "gf32_matrix_loop matrix vector acc =
     (if vector = 0 then Some acc
      else do {
        acc \<leftarrow> (if vector AND 1 \<noteq> 0 then do { m \<leftarrow> aget matrix 0; Some (acc XOR m) } else Some acc);
        gf32_matrix_loop (drop 1 matrix) (drop_bit 1 vector) acc })"
  by pat_completeness auto
termination
proof (relation "measure (\<lambda>(matrix, vector, acc). unat vector)")
  fix matrix :: "u32 list" and vector acc x :: u32
  assume "vector \<noteq> 0"
  then have "unat vector div 2 < unat vector" by (simp add: unat_gt_0)
  moreover have "unat (drop_bit 1 vector) = unat vector div 2"
    using unsigned_less [of vector, where 'a = nat] by (simp add: drop_bit_Suc unat_div_distrib)
  ultimately show "((drop 1 matrix, drop_bit 1 vector, x), matrix, vector, acc) \<in> measure (\<lambda>(matrix, vector, acc). unat vector)"
    by simp
qed simp

declare gf32_matrix_loop.simps [simp del]

definition gf32_matrix_times :: "u32 list \<Rightarrow> u32 \<Rightarrow> u32 option" where
  "gf32_matrix_times matrix vector = gf32_matrix_loop matrix vector 0"

fun matrix_square_loop :: "u32 list \<Rightarrow> nat list \<Rightarrow> u32 list option" where
  "matrix_square_loop matrix [] = Some []"
| "matrix_square_loop matrix (n # ns) = do {
     m \<leftarrow> aget matrix n;
     v \<leftarrow> gf32_matrix_times matrix m;
     vs \<leftarrow> matrix_square_loop matrix ns;
     Some (v # vs) }"

definition gf32_matrix_square :: "u32 list \<Rightarrow> u32 list option" where
  "gf32_matrix_square matrix = matrix_square_loop matrix [0 ..< 32]"

text \<open>The array is what has been written of it. A size below 32 would make the first writes leave the array.\<close>

primrec compute_powers_loop :: "nat \<Rightarrow> u32 list option \<Rightarrow> u32 list option" where
  "compute_powers_loop 0 P = P"
| "compute_powers_loop (Suc k) P = do {
     P \<leftarrow> compute_powers_loop k P;
     square \<leftarrow> gf32_matrix_square (drop (32 * k) P);
     Some (P @ square) }"

definition gf32_compute_powers_generic :: "nat \<Rightarrow> u32 \<Rightarrow> u32 list option" where
  "gf32_compute_powers_generic sz poly = do {
     cassert (sz mod 32 = 0 \<and> 32 \<le> sz);
     P \<leftarrow> compute_powers_loop (sz div 32 - 1) (Some (poly # map (\<lambda>n. push_bit n 1) [0 ..< 31]));
     l \<leftarrow> aget P (sz - 1);
     cassert (l \<noteq> 0);
     Some P }"

function combine_loop :: "u32 list \<Rightarrow> u32 \<Rightarrow> nat \<Rightarrow> u32 option" where
  "combine_loop p crc1 len2 = do {
     let p = drop 32 p;
     crc1 \<leftarrow> (if odd len2 then gf32_matrix_times p crc1 else Some crc1);
     if len2 div 2 \<noteq> 0 then combine_loop p crc1 (len2 div 2) else Some crc1 }"
  by pat_completeness auto
termination
  by (relation "measure (\<lambda>(p, crc1, len2). len2)") auto

declare combine_loop.simps [simp del]

definition gf32_combine_generic :: "u32 list \<Rightarrow> u32 \<Rightarrow> nat \<Rightarrow> u32 option" where
  "gf32_combine_generic powers crc1 len2 = combine_loop (drop 64 powers) crc1 len2"

text \<open>The arrays of powers are computed in the first call and kept; the model computes them in each.\<close>

definition compute_crc32_combine_generic :: "u32 \<Rightarrow> u32 \<Rightarrow> int \<Rightarrow> u32 option" where
  "compute_crc32_combine_generic crc1 crc2 len2 =
     (if len2 \<le> 0 then Some crc1
      else do {
        crc32_powers \<leftarrow> gf32_compute_powers_generic (32 * 67) CRC32_REFLECTED_POLY;
        crc \<leftarrow> gf32_combine_generic crc32_powers crc1 (nat len2);
        Some (crc XOR crc2) })"

definition crc32c_combine_generic :: "u32 \<Rightarrow> u32 \<Rightarrow> int \<Rightarrow> u32 option" where
  "crc32c_combine_generic crc1 crc2 len2 =
     (if len2 \<le> 0 then Some crc1
      else do {
        crc32c_powers \<leftarrow> gf32_compute_powers_generic (32 * 67) CRC32C_REFLECTED_POLY;
        crc \<leftarrow> gf32_combine_generic crc32c_powers crc1 (nat len2);
        Some (crc XOR crc2) })"

subsection \<open>Matrices of linear functions\<close>

definition matrix_of :: "(u32 \<Rightarrow> u32) \<Rightarrow> u32 list" where
  "matrix_of f = map (\<lambda>j. f (push_bit j 1)) [0 ..< 32]"

lemma length_matrix [simp]: "length (matrix_of f) = 32"
  by (simp add: matrix_of_def)

lemma matrix_loop_linear:
  assumes lin: "\<And>a b. f (a XOR b) = f a XOR f b" and "n \<le> 32" "unat w < 2 ^ n"
  shows "gf32_matrix_loop (map (\<lambda>j. f (push_bit j 1)) [32 - n ..< 32] @ rest) w acc = Some (acc XOR f (push_bit (32 - n) w))"
  using assms(2,3)
proof (induction n arbitrary: w acc)
  case 0
  have "f 0 = 0" using lin [of 0 0] by simp
  then show ?case using 0 by (simp add: gf32_matrix_loop.simps unat_eq_0)
next
  case (Suc n)
  have z: "f 0 = 0" using lin [of 0 0] by simp
  define i where "i = 32 - Suc n"
  have i: "32 - n = Suc i" "i < 32" "[i ..< 32] = i # [Suc i ..< 32]" using Suc.prems(1) by (auto simp: i_def upt_conv_Cons)
  let ?m = "map (\<lambda>j. f (push_bit j 1)) [Suc i ..< 32] @ rest" and ?b = "if odd w then push_bit i 1 else 0 :: u32"
  have "unat (drop_bit 1 w) < 2 ^ n" using Suc.prems(2) by (simp add: drop_bit_Suc unat_div_distrib less_mult_imp_div_less)
  then have ih: "gf32_matrix_loop ?m (drop_bit 1 w) a = Some (a XOR f (push_bit (Suc i) (drop_bit 1 w)))" for a
    using Suc.IH [of "drop_bit 1 w" a] Suc.prems(1) i(1) by simp
  have s: "push_bit i w = ?b XOR push_bit (Suc i) (drop_bit 1 w)"
  proof (rule bit_word_eqI)
    fix k
    have "bit (push_bit (Suc i) (drop_bit 1 w)) k \<longleftrightarrow> Suc i \<le> k \<and> k < 32 \<and> bit w (k - i)" 
      by (auto simp: bit_push_bit_iff bit_drop_bit_eq Suc_diff_Suc Suc_le_eq simp del: push_bit_Suc)
    moreover have "bit ?b k \<longleftrightarrow> odd w \<and> k = i" using i(2) by (auto simp: bit_simps)
    moreover have "bit (push_bit i w) k \<longleftrightarrow> i \<le> k \<and> k < 32 \<and> bit w (k - i)" by (auto simp: bit_push_bit_iff)
    moreover have "k = i \<Longrightarrow> bit w (k - i) \<longleftrightarrow> odd w" by (simp add: bit_0)
    ultimately show "bit (push_bit i w) k = bit (?b XOR push_bit (Suc i) (drop_bit 1 w)) k"
      unfolding bit_xor_iff using i(2) by (cases "k = i"; cases "i \<le> k") auto
  qed
  have "gf32_matrix_loop (map (\<lambda>j. f (push_bit j 1)) [i ..< 32] @ rest) w acc = Some (acc XOR f ?b XOR f (push_bit (Suc i) (drop_bit 1 w)))"
  proof (cases "w = 0")
    case True
    then show ?thesis using z by (simp add: gf32_matrix_loop.simps)
  next
    case False
    have "w AND 1 \<noteq> 0 \<longleftrightarrow> odd w" by (simp add: and_one_eq odd_iff_mod_2_eq_one)
    then show ?thesis using False ih z i(3) by (subst gf32_matrix_loop.simps) (simp add: xor.assoc del: push_bit_Suc)
  qed
  then show ?case using s lin unfolding i_def [symmetric] by simp
qed

lemma matrix_times_linear:
  assumes "\<And>a b. f (a XOR b) = f a XOR f b"
  shows "gf32_matrix_times (matrix_of f @ rest) v = Some (f v)"
  using matrix_loop_linear [OF assms, of 32 v rest 0] unsigned_less [of v, where 'a = nat] by (simp add: gf32_matrix_times_def matrix_of_def)

lemma matrix_square_linear:
  assumes lin: "\<And>a b. f (a XOR b) = f a XOR f b"
  shows "gf32_matrix_square (matrix_of f @ rest) = Some (matrix_of (\<lambda>v. f (f v)))"
proof -
  have "matrix_square_loop (matrix_of f @ rest) ns = Some (map (\<lambda>j. f (f (push_bit j 1))) ns)" if "\<forall>n\<in>set ns. n < 32" for ns
    using that by (induction ns) (simp_all add: matrix_times_linear [OF lin] aget_def nth_append, simp add: matrix_of_def)
  then show ?thesis by (simp add: gf32_matrix_square_def matrix_of_def)
qed

definition power_matrix :: "u32 \<Rightarrow> nat \<Rightarrow> u32 list" where
  "power_matrix p k = matrix_of (mulx p ^^ (2 ^ k))"

lemma power_matrix_0: "poly # map (\<lambda>n. push_bit n 1) [0 ..< 31] = power_matrix poly 0"
proof -
  have u: "[0 ..< 32] = 0 # map Suc [0 ..< 31]" by (simp add: map_Suc_upt upt_conv_Cons)
  have "mulx poly (push_bit (Suc j) 1) = push_bit j 1" if "j < 31" for j
  proof -
    have "push_bit (Suc j) (1 :: u32) = push_bit 1 (push_bit j 1)" by (simp add: push_bit_push_bit)
    moreover have "unat (push_bit j (1 :: u32)) < 2 ^ 31"
    proof -
      have "push_bit j (1 :: u32) = word_of_nat (2 ^ j)" by simp
      then have "unat (push_bit j (1 :: u32)) = 2 ^ j mod 2 ^ 32" by (simp only: unat_of_nat) simp
      then have "unat (push_bit j (1 :: u32)) \<le> 2 ^ j" by simp
      also have "\<dots> < 2 ^ 31" using that by (intro power_strict_increasing) auto
      finally show ?thesis .
    qed
    then have "(mulx poly ^^ 1) (push_bit 1 (push_bit j 1)) = push_bit j (1 :: u32)" by (rule mulx_n_push [rotated]) simp
    ultimately show ?thesis by (simp add: mult.commute)
  qed
  then have "map (\<lambda>j. mulx poly (push_bit (Suc j) 1)) [0 ..< 31] = map (\<lambda>n. push_bit n 1) [0 ..< 31]" by (simp del: push_bit_Suc)
  moreover have "mulx poly 1 = poly" by (simp add: mulx_def)
  ultimately show ?thesis by (simp add: power_matrix_def matrix_of_def u comp_def del: push_bit_Suc)
qed

lemma powers_loop:
  "compute_powers_loop k (Some (power_matrix p 0)) = Some (concat (map (power_matrix p) [0 ..< Suc k]))"
proof (induction k)
  case (Suc k)
  have d: "drop (32 * k) (concat (map (power_matrix p) [0 ..< k])) = []" "length (concat (map (power_matrix p) [0 ..< k])) = 32 * k"
    by (induction k) (simp_all add: power_matrix_def)
  have "gf32_matrix_square (power_matrix p k @ []) = Some (matrix_of (\<lambda>v. (mulx p ^^ (2 ^ k)) ((mulx p ^^ (2 ^ k)) v)))"
    unfolding power_matrix_def by (rule matrix_square_linear) (rule mulx_n_xor)
  then have "gf32_matrix_square (power_matrix p k) = Some (power_matrix p (Suc k))"
    by (simp add: power_matrix_def mulx_n_add mult_2)
  then show ?case using Suc d by simp
qed simp

lemma mulx_zero:
  fixes a p :: u32
  assumes "bit p 31" "mulx p a = 0"
  shows "a = 0"
proof (rule bit_word_eqI)
  fix n
  have e: "bit (mulx p a) k = False" for k using assms(2) by simp
  have "\<not> bit a 0"
    using e [of 31] assms(1) bit_imp_le_length [of a 32] by (auto simp: mulx_def bit_simps split: if_split_asm)
  moreover from this have "\<not> bit a (Suc k)" for k using e [of k] bit_imp_le_length [of a "Suc k"] by (auto simp: mulx_def bit_simps)
  ultimately show "bit a n = bit 0 n" by (cases n) simp_all
qed

lemma mulx_n_zero: "bit (p :: u32) 31 \<Longrightarrow> (mulx p ^^ n) a = 0 \<Longrightarrow> a = 0"
  by (induction n) (auto dest: mulx_zero)

lemma powers_ok:
  assumes "bit p 31"
  shows "gf32_compute_powers_generic (32 * 67) p = Some (concat (map (power_matrix p) [0 ..< 67]))"
proof -
  let ?P = "concat (map (power_matrix p) [0 ..< 67])"
  have l: "length (concat (map (power_matrix p) [0 ..< k])) = 32 * k" for k by (induction k) (simp_all add: power_matrix_def)
  have s: "?P = concat (map (power_matrix p) [0 ..< 66]) @ power_matrix p 66" by (simp add: upt_rec [of 66 67] upt_add_eq_append [of 0 66 1, simplified])
  have "?P ! (32 * 67 - 1) = power_matrix p 66 ! 31" unfolding s using l [of 66] by (simp add: nth_append)
  moreover have "power_matrix p 66 ! 31 \<noteq> 0"
  proof
    assume "power_matrix p 66 ! 31 = 0"
    then have "(mulx p ^^ (2 ^ 66)) (push_bit 31 1) = 0" by (simp only: power_matrix_def matrix_of_def nth_map nth_upt length_upt) simp
    from mulx_n_zero [OF assms this] show False by simp
  qed
  ultimately show ?thesis
    unfolding gf32_compute_powers_generic_def power_matrix_0 using powers_loop [of 66 p] l [of 67] by (simp add: aget_def del: upt_Suc)
qed

lemma combine_loop_ok:
  assumes "k < 66" "len2 < 2 ^ (66 - k)"
  shows "combine_loop (concat (map (power_matrix p) [k ..< 67])) c len2 = Some ((mulx p ^^ (2 ^ Suc k * len2)) c)"
  using assms
proof (induction len2 arbitrary: k c rule: less_induct)
  case (less len2)
  have m: "[k ..< 67] = k # [Suc k ..< 67]" "[Suc k ..< 67] = Suc k # [Suc (Suc k) ..< 67]" using less.prems(1) by (simp_all add: upt_conv_Cons)
  let ?p = "concat (map (power_matrix p) [Suc k ..< 67])"
  have d: "drop 32 (concat (map (power_matrix p) [k ..< 67])) = ?p" unfolding m(1) by (simp add: power_matrix_def)
  have t: "gf32_matrix_times ?p c = Some ((mulx p ^^ (2 ^ Suc k)) c)" for c
    unfolding m(2) using matrix_times_linear [where f = "mulx p ^^ (2 ^ Suc k)", OF mulx_n_xor] by (simp add: power_matrix_def)
  define c' where "c' = (if odd len2 then (mulx p ^^ (2 ^ Suc k)) c else c)"
  have c': "(if odd len2 then gf32_matrix_times ?p c else Some c) = Some c'" by (simp add: c'_def t)
  have s: "(mulx p ^^ (2 ^ Suc (Suc k) * (len2 div 2))) c' = (mulx p ^^ (2 ^ Suc k * len2)) c"
  proof -
    have "2 ^ Suc k * len2 = 2 ^ Suc (Suc k) * (len2 div 2) + (if odd len2 then 2 ^ Suc k else 0)"
      by (cases "odd len2") (auto simp: algebra_simps elim!: evenE oddE)
    then show ?thesis by (simp add: c'_def mulx_n_add)
  qed
  show ?case
  proof (cases "len2 div 2 = 0")
    case True
    then show ?thesis using s c' d by (subst combine_loop.simps) simp
  next
    case False
    have l: "len2 div 2 < len2" "len2 div 2 < 2 ^ (66 - Suc k)" using False less.prems by (auto simp: less_mult_imp_div_less simp flip: power_Suc2 Suc_diff_le)
    have "Suc k < 66"
    proof (rule ccontr)
      assume "\<not> Suc k < 66"
      then have "66 - Suc k = 0" by simp
      then show False using l(2) False by simp
    qed
    from less.IH [OF l(1) this l(2)] have "combine_loop ?p c' (len2 div 2) = Some ((mulx p ^^ (2 ^ Suc k * len2)) c)" using s by simp
    then show ?thesis using False c' d by (subst combine_loop.simps) simp
  qed
qed

definition powers_from :: "u32 \<Rightarrow> nat \<Rightarrow> u32 list" where
  "powers_from p k = concat (map (power_matrix p) [k ..< 67])"

lemma combine_ok:
  assumes "bit p 31" "n < 2 ^ 64"
  shows "(do { powers \<leftarrow> gf32_compute_powers_generic (32 * 67) p; gf32_combine_generic powers c n }) = Some ((mulx p ^^ (8 * n)) c)"
proof -
  have u: "[0 ..< 67] = 0 # 1 # [2 ..< 67 :: nat]" by (simp only: upt_conv_Cons [of 0 67] upt_conv_Cons [of 1 67] One_nat_def [symmetric] Suc_1 [symmetric])
  have d: "drop 64 (powers_from p 0) = powers_from p 2" unfolding powers_from_def u by (simp add: power_matrix_def)
  have "combine_loop (powers_from p 2) c n = Some ((mulx p ^^ (8 * n)) c)" using combine_loop_ok [of 2 n p c, folded powers_from_def] assms(2) by simp
  then show ?thesis unfolding powers_ok [OF assms(1), folded powers_from_def] gf32_combine_generic_def by (simp add: d)
qed

text \<open>The checksum is affine in the initial value.\<close>

lemma steps_affine: "foldl (crc_step p) (a XOR b) data = (mulx p ^^ (8 * length data)) a XOR foldl (crc_step p) b data"
  by (induction data arbitrary: a b) (simp_all add: crc_step_xor mulx_n_add add.commute)

lemma combine_steps:
  assumes "bit p 31" "length B < 2 ^ 64"
  shows "(do { powers \<leftarrow> gf32_compute_powers_generic (32 * 67) p;
      crc \<leftarrow> gf32_combine_generic powers (foldl (crc_step p) c A XOR c) (length B); Some (crc XOR (foldl (crc_step p) c B XOR c)) }) =
    Some (foldl (crc_step p) c (A @ B) XOR c)"
proof -
  let ?M = "mulx p ^^ (8 * length B)"
  have "foldl (crc_step p) c B = ?M c XOR foldl (crc_step p) 0 B" using steps_affine [of p c 0 B] by simp
  moreover have "foldl (crc_step p) (foldl (crc_step p) c A) B = ?M (foldl (crc_step p) c A) XOR foldl (crc_step p) 0 B"
    using steps_affine [of p "foldl (crc_step p) c A" 0 B] by simp
  ultimately have "?M (foldl (crc_step p) c A XOR c) XOR (foldl (crc_step p) c B XOR c) = foldl (crc_step p) c (A @ B) XOR c"
    by (simp add: mulx_n_xor xor.assoc xor.left_commute)
  then show ?thesis using combine_ok [OF assms, of "foldl (crc_step p) c A XOR c"] by (auto simp: bind_eq_Some_conv)
qed

text \<open>
  C33. Combining checksums: from the CRC-32 of two strings and the length of the second, \<open>compute_crc32_combine_generic\<close> gives the
  CRC-32 of their concatenation, without leaving its array of powers and without failing an assertion, and
  \<open>crc32c_combine_generic\<close> does so for the CRC-32C, whose lengths are of type \<^verbatim>\<open>int\<close>.
\<close>

theorem crc32_combine_correct:
  assumes "length B < 2 ^ 63"
  shows "compute_crc32_combine_generic (compute_crc32 A) (compute_crc32 B) (int (length B)) = Some (compute_crc32 (A @ B)) \<and>
    (length (A @ B) < 2 ^ 31 \<longrightarrow>
      crc32c_combine_generic (compute_crc32c A) (compute_crc32c B) (int (length B)) = Some (compute_crc32c (A @ B)))"
proof (cases "B = []")
  case True
  then show ?thesis by (simp add: compute_crc32_combine_generic_def crc32c_combine_generic_def)
next
  case False
  have "bit CRC32_REFLECTED_POLY 31" by (simp add: CRC32_REFLECTED_POLY_def)
  from combine_steps [OF this, of B "-1" A]
  have "compute_crc32_combine_generic (compute_crc32 A) (compute_crc32 B) (int (length B)) = Some (compute_crc32 (A @ B))"
    using False assms by (simp add: compute_crc32_combine_generic_def compute_crc32_def crc32_steps)
  moreover have "bit CRC32C_REFLECTED_POLY 31" by (simp add: CRC32C_REFLECTED_POLY_def)
  from combine_steps [OF this, of B "-1" A]
  have "length (A @ B) < 2 ^ 31 \<longrightarrow>
      crc32c_combine_generic (compute_crc32c A) (compute_crc32c B) (int (length B)) = Some (compute_crc32c (A @ B))"
    using False assms by (simp add: crc32c_combine_generic_def compute_crc32c_def crc32c_steps)
  ultimately show ?thesis by simp
qed

theorem crc32_combine_correct_witness:
  "compute_crc32_combine_generic (compute_crc32 [1, 2, 3]) (compute_crc32 [4, 5]) 2 = Some (compute_crc32 [1, 2, 3, 4, 5]) \<and>
   crc32c_combine_generic (compute_crc32c [1, 2, 3]) (compute_crc32c [4, 5]) 2 = Some (compute_crc32c [1, 2, 3, 4, 5])"
  using crc32_combine_correct [of "[4, 5]" "[1, 2, 3]"] by simp

end
