(* ===== verification/CrcField.thy ===== *)
theory CrcField
  imports Crc32
begin

text \<open>
  The field of $2^{32}$ elements of the CRC-32 (\<open>gf32_mul\<close> and \<open>gf32_pow\<close> of \<^verbatim>\<open>common/crc32.c\<close>): multiplication is
  commutative and commutes with multiplication by the variable, and the order of the variable is at least $2^{31}$, so that
  powers with different exponents below are different.
\<close>

section \<open>Operations\<close>

text \<open>\<open>b\<close> bit by bit.\<close>

primrec gf32_mul_loop :: "nat \<Rightarrow> u32 \<Rightarrow> u32 \<Rightarrow> u32 \<Rightarrow> u32 \<Rightarrow> u32" where
  "gf32_mul_loop 0 a b poly x = x"
| "gf32_mul_loop (Suc n) a b poly x =
     (let x = gf32_mulx x poly;
          x = (if b AND 1 \<noteq> 0 then x XOR a else x)
      in gf32_mul_loop n a (drop_bit 1 b) poly x)"

definition gf32_mul :: "u32 \<Rightarrow> u32 \<Rightarrow> u32 \<Rightarrow> u32" where
  "gf32_mul a b poly = gf32_mul_loop 32 a b poly 0"

fun gf32_pow :: "u32 \<Rightarrow> nat \<Rightarrow> u32 \<Rightarrow> u32" where
  "gf32_pow a k poly =
     (if k = 0 then 0x80000000
      else let x = gf32_pow (gf32_mul a a poly) (k div 2) poly in if odd k then gf32_mul x a poly else x)"

declare gf32_pow.simps [simp del]

text \<open>Evaluation, one bit at a time.\<close>

definition mul_step :: "u32 \<Rightarrow> u32 \<Rightarrow> u32 \<Rightarrow> u32 \<Rightarrow> u32" where
  "mul_step a b poly x = (if b AND 1 \<noteq> 0 then gf32_mulx x poly XOR a else gf32_mulx x poly)"

lemma mul_loop_Suc: "gf32_mul_loop (Suc n) a b poly x = gf32_mul_loop n a (drop_bit 1 b) poly (mul_step a b poly x)"
  by (simp add: mul_step_def Let_def)

lemma mul_loop_numeral: "gf32_mul_loop (numeral k) a b poly x = gf32_mul_loop (pred_numeral k) a (drop_bit 1 b) poly (mul_step a b poly x)"
  by (simp only: numeral_eq_Suc mul_loop_Suc)

declare gf32_mul_loop.simps(2) [simp del]

section \<open>Multiplication\<close>

lemma gf32_mulx_eq: "gf32_mulx a p = mulx p a"
  by (simp add: gf32_mulx_def mulx_def and_one_eq bit_0 odd_iff_mod_2_eq_one Let_def)

lemma and_1_bit: "(b :: u32) AND 1 \<noteq> 0 \<longleftrightarrow> bit b 0"
  by (simp add: and_one_eq bit_0 odd_iff_mod_2_eq_one)

lemma mul_step_eq: "mul_step a b p x = mulx p x XOR (if bit b 0 then a else 0)"
  by (simp add: mul_step_def gf32_mulx_eq and_1_bit)

lemma mul_loop_xor_left: "gf32_mul_loop n (a XOR a') b p (x XOR x') = gf32_mul_loop n a b p x XOR gf32_mul_loop n a' b p x'"
proof (induction n arbitrary: b x x')
  case (Suc n)
  have "mul_step (a XOR a') b p (x XOR x') = mul_step a b p x XOR mul_step a' b p x'"
    by (simp add: mul_step_eq mulx_xor xor.assoc xor.left_commute)
  then show ?case using Suc by (simp add: mul_loop_Suc)
qed simp

lemma mul_loop_xor_right: "gf32_mul_loop n a (b XOR b') p (x XOR x') = gf32_mul_loop n a b p x XOR gf32_mul_loop n a b' p x'"
proof (induction n arbitrary: b b' x x')
  case (Suc n)
  have "mul_step a (b XOR b') p (x XOR x') = mul_step a b p x XOR mul_step a b' p x'"
    by (cases "bit b 0"; cases "bit b' 0") (simp_all add: mul_step_eq mulx_xor xor.assoc xor.left_commute xor.commute bit_xor_iff)
  then show ?case using Suc [of "drop_bit 1 b" "drop_bit 1 b'"] by (simp add: mul_loop_Suc drop_bit_xor)
qed simp

lemma mul_loop_mulx: "gf32_mul_loop n (mulx p a) b p (mulx p x) = mulx p (gf32_mul_loop n a b p x)"
proof (induction n arbitrary: b x)
  case (Suc n)
  have "mul_step (mulx p a) b p (mulx p x) = mulx p (mul_step a b p x)" by (simp add: mul_step_eq mulx_xor)
  then show ?case using Suc by (simp add: mul_loop_Suc)
qed simp

lemma mul_loop_zero: "gf32_mul_loop n a 0 p x = (mulx p ^^ n) x"
proof (induction n arbitrary: x)
  case (Suc n)
  then show ?case by (simp add: mul_loop_Suc mul_step_eq funpow_swap1)
qed simp

lemma mul_loop_bit: "i + m < 32 \<Longrightarrow> gf32_mul_loop (Suc (i + m)) a (push_bit i 1) p 0 = (mulx p ^^ m) a"
proof (induction i)
  case 0
  have "drop_bit 1 (1 :: u32) = 0" by simp
  then show ?case by (simp add: mul_loop_Suc mul_step_eq mul_loop_zero)
next
  case (Suc i)
  have "bit (push_bit (Suc i) (1 :: u32)) 0 = False" by (simp only: bit_push_bit_iff) simp
  moreover have "drop_bit 1 (push_bit (Suc i) (1 :: u32)) = push_bit i 1"
  proof (rule bit_word_eqI)
    fix k
    have b: "bit (push_bit j (1 :: u32)) k \<longleftrightarrow> j = k \<and> k < 32" for j k
      by (simp only: bit_push_bit_iff) (auto simp: bit_1_iff)
    show "bit (drop_bit 1 (push_bit (Suc i) (1 :: u32))) k = bit (push_bit i (1 :: u32)) k"
      unfolding bit_drop_bit_eq b o_apply using Suc.prems by auto
  qed
  ultimately show ?case using Suc by (simp add: mul_loop_Suc [of "Suc (i + m)"] mul_step_eq del: push_bit_Suc)
qed

lemma mul_xor_left: "gf32_mul (a XOR a') b p = gf32_mul a b p XOR gf32_mul a' b p"
  using mul_loop_xor_left [of 32 a a' b p 0 0] by (simp add: gf32_mul_def)

lemma mul_xor_right: "gf32_mul a (b XOR b') p = gf32_mul a b p XOR gf32_mul a b' p"
  using mul_loop_xor_right [of 32 a b b' p 0 0] by (simp add: gf32_mul_def)

lemma mul_mulx_left: "gf32_mul (mulx p a) b p = mulx p (gf32_mul a b p)"
  using mul_loop_mulx [of 32 p a b 0] by (simp add: gf32_mul_def)

lemma mul_mulx_n_left: "gf32_mul ((mulx p ^^ n) a) b p = (mulx p ^^ n) (gf32_mul a b p)"
  by (induction n) (simp_all add: mul_mulx_left)

lemma mul_bit: "i < 32 \<Longrightarrow> gf32_mul a (push_bit i 1) p = (mulx p ^^ (31 - i)) a"
proof -
  assume i: "i < 32"
  then have e: "Suc (i + (31 - i)) = 32" and l: "i + (31 - i) < 32" by simp_all
  show ?thesis using mul_loop_bit [OF l, of a p] unfolding gf32_mul_def e .
qed

text \<open>Linear functions that agree on single bits are equal.\<close>

lemma linear_eq:
  fixes f g :: "u32 \<Rightarrow> u32"
  assumes "\<And>a b. f (a XOR b) = f a XOR f b" "\<And>a b. g (a XOR b) = g a XOR g b" "\<And>i. i < 32 \<Longrightarrow> f (push_bit i 1) = g (push_bit i 1)"
  shows "f v = g v"
proof -
  have "matrix_of f = matrix_of g" using assms(3) by (simp add: matrix_of_def)
  then show ?thesis using matrix_times_linear [of f "[]" v] matrix_times_linear [of g "[]" v] assms(1,2) by simp
qed

definition gf_one :: u32 where
  "gf_one = 0x80000000"

lemma one_push: "gf_one = push_bit 31 1"
  by (simp add: gf_one_def)

lemma mulx_one: "i < 32 \<Longrightarrow> (mulx p ^^ (31 - i)) gf_one = push_bit i 1"
proof -
  assume i: "i < 32"
  have "push_bit 31 (1 :: u32) = push_bit (31 - i) (push_bit i 1)" unfolding push_bit_push_bit using i by simp
  moreover have "unat (push_bit i (1 :: u32)) < 2 ^ Suc i"
  proof -
    have "push_bit i (1 :: u32) = word_of_nat (2 ^ i)" by simp
    then have "unat (push_bit i (1 :: u32)) = 2 ^ i mod 2 ^ 32" by (simp only: unat_of_nat) simp
    then have "unat (push_bit i (1 :: u32)) \<le> 2 ^ i" by simp
    then show ?thesis by (simp add: less_le_trans [of _ "2 ^ i + 1"])
  qed
  ultimately show ?thesis using mulx_n_push [of "31 - i" "Suc i" "push_bit i 1" p] i by (simp add: one_push)
qed

lemma mul_one_left: "gf32_mul gf_one b p = b"
proof (rule linear_eq [where g = "\<lambda>b. b"])
  show "gf32_mul gf_one (push_bit i 1) p = push_bit i 1" if "i < 32" for i using mul_bit [OF that] mulx_one [OF that] by simp
qed (simp_all add: mul_xor_right)

lemma mul_commute: "gf32_mul a b p = gf32_mul b a p"
proof (rule linear_eq [where f = "\<lambda>a. gf32_mul a b p"])
  show "gf32_mul (push_bit i 1) b p = gf32_mul b (push_bit i 1) p" if "i < 32" for i
    using mul_mulx_n_left [of "31 - i" p gf_one b] mulx_one [OF that, of p] mul_bit [OF that] mul_one_left by simp
qed (simp_all add: mul_xor_left mul_xor_right)

lemma mul_mulx_n_right: "gf32_mul a ((mulx p ^^ n) b) p = (mulx p ^^ n) (gf32_mul a b p)"
  by (simp add: mul_commute [of a] mul_mulx_n_left)

lemma mulx_n_mul: "(mulx p ^^ (m + n)) (gf32_mul a b p) = gf32_mul ((mulx p ^^ m) a) ((mulx p ^^ n) b) p"
  by (simp add: mul_mulx_n_left mul_mulx_n_right mulx_n_add add.commute)

text \<open>Powers of an inverse.\<close>

lemma pow_inverse:
  assumes "(mulx p ^^ m) a = gf_one"
  shows "(mulx p ^^ (m * k)) (gf32_pow a k p) = gf_one"
  using assms
proof (induction k arbitrary: a m rule: less_induct)
  case (less k)
  show ?case
  proof (cases "k = 0")
    case True
    then show ?thesis by (simp add: gf32_pow.simps gf_one_def)
  next
    case False
    let ?x = "gf32_pow (gf32_mul a a p) (k div 2) p"
    have "(mulx p ^^ (m + m)) (gf32_mul a a p) = gf_one" using less.prems by (simp add: mulx_n_mul mul_one_left)
    then have x: "(mulx p ^^ ((m + m) * (k div 2))) ?x = gf_one" using less.IH False by simp
    show ?thesis
    proof (cases "odd k")
      case True
      then have "m * k = (m + m) * (k div 2) + m" by (auto elim!: oddE simp: algebra_simps)
      then have "(mulx p ^^ (m * k)) (gf32_mul ?x a p) = gf_one" using x less.prems by (simp only: mulx_n_mul mul_one_left)
      then show ?thesis using False True by (subst gf32_pow.simps) (simp add: Let_def)
    next
      case False
      then have "m * k = (m + m) * (k div 2)" by (auto elim!: evenE simp: algebra_simps)
      then show ?thesis using x \<open>k \<noteq> 0\<close> False by (subst gf32_pow.simps) (simp add: Let_def)
    qed
  qed
qed

section \<open>The order of the variable\<close>

abbreviation mx :: "nat \<Rightarrow> u32 \<Rightarrow> u32" where
  "mx n \<equiv> mulx CRC32_REFLECTED_POLY ^^ n"

lemma poly_top: "bit CRC32_REFLECTED_POLY 31"
  by (simp add: CRC32_REFLECTED_POLY_def)

lemma mx_inject: "mx n a = mx n b \<longleftrightarrow> a = b"
proof
  assume "mx n a = mx n b"
  then have "mx n (a XOR b) = 0" by (simp add: mulx_n_xor)
  then have "a XOR b = 0" by (rule mulx_n_zero [OF poly_top])
  moreover have "a XOR (a XOR b) = b" by (auto simp: bit_eq_iff bit_xor_iff)
  ultimately show "a = b" by simp
qed simp

lemma mx_add: "mx m gf_one = a \<Longrightarrow> mx n gf_one = b \<Longrightarrow> mx (m + n) gf_one = gf32_mul a b CRC32_REFLECTED_POLY"
  using mulx_n_mul [of m n CRC32_REFLECTED_POLY gf_one gf_one] by (simp add: mul_one_left)

fun square_chain :: "u32 list \<Rightarrow> bool" where
  "square_chain (a # b # xs) \<longleftrightarrow> b = gf32_mul a a CRC32_REFLECTED_POLY \<and> square_chain (b # xs)"
| "square_chain _ \<longleftrightarrow> True"

lemma square_chain_nth: "square_chain xs \<Longrightarrow> k < length xs \<Longrightarrow> xs ! 0 = mx m gf_one \<Longrightarrow> xs ! k = mx (m * 2 ^ k) gf_one"
proof (induction xs arbitrary: k m rule: square_chain.induct)
  case (1 a b xs)
  have b: "b = gf32_mul a a CRC32_REFLECTED_POLY" "square_chain (b # xs)" using 1(2) by auto
  have a: "mx m gf_one = a" using 1(4) by simp
  have m: "(b # xs) ! 0 = mx (m + m) gf_one" unfolding nth_Cons_0 b(1) mx_add [OF a a] ..
  show ?case
  proof (cases k)
    case 0
    then show ?thesis using a by simp
  next
    case (Suc j)
    then have "(b # xs) ! j = mx ((m + m) * 2 ^ j) gf_one" using 1(1) [OF b(2) _ m, of j] 1(3) by simp
    moreover have "m * 2 ^ k = (m + m) * 2 ^ j" using Suc by simp
    ultimately show ?thesis using Suc by (simp only: nth_Cons_Suc)
  qed
qed auto

text \<open>Repeated squares of the variable, and of its powers 65537, 65537 * 257, 65537 * 257 * 17 and 65537 * 257 * 17 * 5.\<close>

definition squares :: "u32 list" where
  "squares = [
    0x40000000, 0x20000000, 0x08000000, 0x00800000, 0x00008000, 0xedb88320, 0xb1e6b092, 0xa06a2517,
    0xed627dae, 0x88d14467, 0xd7bbfe6a, 0xec447f11, 0x8e7ea170, 0x6427800e, 0x4d47bae0, 0x09fe548f,
    0x83852d0f]"

definition squares_high :: "u32 list" where
  "squares_high = [
    0x83852d0f, 0x30362f1a, 0x7b5a9cc3, 0x31fec169, 0x9fec022a, 0x6c8dedc4, 0x15d6874d, 0x5fde7a4e,
    0xbad90e37, 0x2e4e5eef, 0x4eaba214, 0xa8a472c0, 0x429a969e, 0x148d302a, 0xc40ba6d0, 0xc4e22c3c,
    0x40000000]"

definition squares_257 :: "u32 list" where
  "squares_257 = [
    0xac7a15a7, 0xe1b508e6, 0x216c9960, 0x345f273d, 0x816532e8, 0x923cf1d7, 0x934ee480, 0x2eb63450,
    0x4630d51a]"

definition squares_17 :: "u32 list" where
  "squares_17 = [
    0x316b5ba1, 0x5b219b1c, 0xaebf57a4, 0x7db7e260, 0x0c283ca0]"

definition squares_5 :: "u32 list" where
  "squares_5 = [
    0x3d436701, 0xfa758c53, 0xbd436701]"

definition squares_3 :: "u32 list" where
  "squares_3 = [
    0xc736eb52, 0x4736eb52]"

lemmas mul_eval = gf32_mul_def mul_loop_numeral mul_loop_Suc gf32_mulx_def mul_step_def CRC32_REFLECTED_POLY_def

lemma squares_parts_ok: "square_chain squares_257" "square_chain squares_17" "square_chain squares_5" "square_chain squares_3"
  by (simp_all add: squares_257_def squares_17_def squares_5_def squares_3_def mul_eval)

lemma squares_ok: "square_chain squares"
  by (simp add: squares_def mul_eval)

lemma squares_high_ok: "square_chain squares_high"
  by (simp add: squares_high_def mul_eval)

lemma square_links:
  "gf32_mul (squares ! 16) (squares ! 0) CRC32_REFLECTED_POLY = squares_257 ! 0"
  "gf32_mul (squares_257 ! 8) (squares_257 ! 0) CRC32_REFLECTED_POLY = squares_17 ! 0"
  "gf32_mul (squares_17 ! 4) (squares_17 ! 0) CRC32_REFLECTED_POLY = squares_5 ! 0"
  "gf32_mul (squares_5 ! 2) (squares_5 ! 0) CRC32_REFLECTED_POLY = squares_3 ! 0"
  by (simp_all add: squares_def squares_257_def squares_17_def squares_5_def squares_3_def mul_eval)

text \<open>The exponents of 1.\<close>

definition unit_exp :: "nat \<Rightarrow> bool" where
  "unit_exp d \<longleftrightarrow> mx d gf_one = gf_one"

lemma unit_exp_diff:
  assumes "mx (m + d) gf_one = mx m gf_one"
  shows "unit_exp d"
  using assms mx_inject [of m "mx d gf_one" gf_one] by (simp add: unit_exp_def mulx_n_add)

lemma unit_exp_mult: "unit_exp a \<Longrightarrow> unit_exp (a * k)"
  by (induction k) (simp_all add: unit_exp_def flip: mulx_n_add)

lemma unit_exp_mod:
  assumes "unit_exp a" "unit_exp b"
  shows "unit_exp (a mod b)"
proof -
  have "mx (a mod b) (mx (b * (a div b)) gf_one) = gf_one" using assms(1) by (simp add: unit_exp_def mulx_n_add)
  then show ?thesis using unit_exp_mult [OF assms(2), of "a div b"] by (simp add: unit_exp_def)
qed

lemma unit_exp_gcd: "unit_exp a \<Longrightarrow> unit_exp b \<Longrightarrow> unit_exp (gcd a b)"
proof (induction a b rule: gcd_nat_induct)
  case (step m n)
  then show ?case using unit_exp_mod by (simp add: gcd_red_nat [of m n])
qed simp

lemma exp_facts:
  "unit_exp (2 ^ 32 - 1)" "\<not> unit_exp 65535" "\<not> unit_exp (65537 * 255)" "\<not> unit_exp (65537 * 257 * 15)" "\<not> unit_exp (65537 * 257 * 17 * 3)"
  "\<not> unit_exp (65537 * 257 * 17 * 5)"
proof -
  have x: "squares ! 0 = mx 1 gf_one" by (simp add: squares_def gf_one_def mulx_def CRC32_REFLECTED_POLY_def)
  note s = square_chain_nth [OF squares_ok _ x]
  have s16: "squares ! 16 = mx 65536 gf_one" using s [of 16] by (simp add: squares_def)
  have y: "squares_257 ! 0 = mx 65537 gf_one" using mx_add [OF s16 [symmetric] x [symmetric]] square_links(1) by simp
  note sy = square_chain_nth [OF squares_parts_ok(1) _ y]
  have y8: "squares_257 ! 8 = mx (65537 * 256) gf_one" using sy [of 8] by (simp add: squares_257_def)
  have z: "squares_17 ! 0 = mx (65537 * 257) gf_one" using mx_add [OF y8 [symmetric] y [symmetric]] square_links(2) by simp
  note sz = square_chain_nth [OF squares_parts_ok(2) _ z]
  have z4: "squares_17 ! 4 = mx (65537 * 257 * 16) gf_one" using sz [of 4] by (simp add: squares_17_def)
  have w: "squares_5 ! 0 = mx (65537 * 257 * 17) gf_one" using mx_add [OF z4 [symmetric] z [symmetric]] square_links(3) by simp
  note sw = square_chain_nth [OF squares_parts_ok(3) _ w]
  have w2: "squares_5 ! 2 = mx (65537 * 257 * 17 * 4) gf_one" using sw [of 2] by (simp add: squares_5_def)
  have v: "squares_3 ! 0 = mx (65537 * 257 * 17 * 5) gf_one" using mx_add [OF w2 [symmetric] w [symmetric]] square_links(4) by simp
  note sv = square_chain_nth [OF squares_parts_ok(4) _ v]
  have v1: "squares_3 ! 1 = mx (65537 * 257 * 17 * 5 * 2) gf_one" using sv [of 1] by (simp add: squares_3_def)
  have d: "mx (m + d) gf_one = mx m gf_one" if "unit_exp d" for m d using that by (simp add: unit_exp_def flip: mulx_n_add)
  have h: "squares_high ! 0 = mx 65536 gf_one" using s16 by (simp add: squares_def squares_high_def)
  have "squares_high ! 16 = mx (2 ^ 32) gf_one" using square_chain_nth [OF squares_high_ok _ h, of 16] by (simp add: squares_high_def)
  then show "unit_exp (2 ^ 32 - 1)" using x by (intro unit_exp_diff [of 1]) (simp add: squares_def squares_high_def)
  show "\<not> unit_exp 65535" using d [of 65535 1] s16 x by (auto simp: squares_def)
  show "\<not> unit_exp (65537 * 255)" using d [of "65537 * 255" 65537] y y8 by (auto simp: squares_257_def)
  show "\<not> unit_exp (65537 * 257 * 15)" using d [of "65537 * 257 * 15" "65537 * 257"] z z4 by (auto simp: squares_17_def)
  show "\<not> unit_exp (65537 * 257 * 17 * 3)" using d [of "65537 * 257 * 17 * 3" "65537 * 257 * 17"] w w2 by (auto simp: squares_5_def)
  show "\<not> unit_exp (65537 * 257 * 17 * 5)" using d [of "65537 * 257 * 17 * 5" "65537 * 257 * 17 * 5"] v v1 by (auto simp: squares_3_def)
qed

text \<open>The exponents 3, 5, 17, 257 and 65537 have no divisors.\<close>

definition no_divisors :: "nat \<Rightarrow> bool" where
  "no_divisors q \<longleftrightarrow> (\<forall>c. c dvd q \<longrightarrow> c = 1 \<or> c = q)"

lemma no_divisors_check:
  assumes "list_all (\<lambda>c. q mod c \<noteq> 0) [2 ..< n]" "q < n * n" "1 < q"
  shows "no_divisors q"
  unfolding no_divisors_def
proof (intro allI impI)
  fix c assume c: "c dvd q"
  then obtain e where e: "q = c * e" by blast
  have small: "d = 1" if "d dvd q" "d < n" for d
  proof (rule ccontr)
    assume "d \<noteq> 1"
    moreover have "d \<noteq> 0" using that(1) assms(3) by (cases "d = 0") auto
    ultimately have "d \<in> set [2 ..< n]" using that(2) by auto
    then have "q mod d \<noteq> 0" using assms(1) unfolding list_all_iff by blast
    then show False using that(1) by auto
  qed
  have "c < n \<or> e < n" using e assms(2) mult_le_mono [of n c n e] by (metis not_less)
  then show "c = 1 \<or> c = q" using small [of c] small [of e] e by auto
qed

lemma no_divisors_orders: "no_divisors 3" "no_divisors 5" "no_divisors 17" "no_divisors 257" "no_divisors 65537"
proof -
  have "list_all (\<lambda>c. 65537 mod c \<noteq> 0) [2 ..< 257 :: nat]" by simp
  then show "no_divisors 65537" by (rule no_divisors_check) simp_all
  show "no_divisors 257" by (rule no_divisors_check [of _ 17]) (code_simp, simp_all)
  show "no_divisors 17" by (rule no_divisors_check [of _ 5]) (code_simp, simp_all)
  show "no_divisors 5" by (rule no_divisors_check [of _ 3]) (code_simp, simp_all)
  show "no_divisors 3" by (rule no_divisors_check [of _ 2]) simp_all
qed

lemma unit_exp_large:
  assumes "0 < d" "d < 2 ^ 31"
  shows "\<not> unit_exp d"
proof
  assume u: "unit_exp d"
  let ?N = "2 ^ 32 - 1 :: nat"
  define g where "g = gcd d ?N"
  have g: "unit_exp g" "g dvd ?N" "g \<le> d" "g \<noteq> 0" using unit_exp_gcd [OF u exp_facts(1)] assms(1) by (auto simp: g_def intro: gcd_le1_nat)
  have q: "q dvd g" if "no_divisors q" "q * m = ?N" "\<not> unit_exp m" for q m
  proof (rule ccontr)
    assume "\<not> q dvd g"
    moreover have "gcd q g = 1 \<or> gcd q g = q" using that(1) unfolding no_divisors_def by blast
    ultimately have "coprime g q" by (metis coprime_iff_gcd_eq_1 gcd.commute gcd_dvd2)
    moreover have "g dvd q * m" using g(2) that(2) by simp
    ultimately have "g dvd m" by (simp add: coprime_dvd_mult_right_iff)
    then show False using unit_exp_mult [OF g(1)] that(3) by (auto elim: dvdE)
  qed
  have "3 dvd g" "5 dvd g" "17 dvd g" "257 dvd g" "65537 dvd g"
    using q [OF no_divisors_orders(1), of "65537 * 257 * 17 * 5"] q [OF no_divisors_orders(2), of "65537 * 257 * 17 * 3"]
      q [OF no_divisors_orders(3), of "65537 * 257 * 15"] q [OF no_divisors_orders(4), of "65537 * 255"] q [OF no_divisors_orders(5), of 65535] exp_facts(2-)
    by simp_all
  moreover have "coprime 3 (5 :: nat)" "coprime 17 (257 :: nat)" "coprime (3 * 5) (17 * 257 :: nat)" "coprime (3 * 5 * (17 * 257)) (65537 :: nat)"
    by (simp_all add: coprime_iff_gcd_eq_1 gcd_non_0_nat)
  ultimately have "3 * 5 * (17 * 257) * 65537 dvd g" by (intro divides_mult) 
  then have "3 * 5 * (17 * 257) * 65537 \<le> g" using g(4) by (auto dest: dvd_imp_le)
  then show False using g(3) assms(2) by simp
qed

text \<open>Different exponents below $2^{31}$ give different powers.\<close>

lemma mx_exp_inject:
  assumes "mx a gf_one = mx b gf_one" "a < 2 ^ 31" "b < 2 ^ 31"
  shows "a = b"
proof -
  have "\<not> a < b" if "mx a gf_one = mx b gf_one" "b < 2 ^ 31" for a b
    using unit_exp_diff [of a "b - a"] unit_exp_large [of "b - a"] that by (auto simp: less_imp_diff_less)
  then show ?thesis using assms by (metis linorder_neqE_nat)
qed

end
