(* ===== verification/CrcRepair.thy ===== *)
theory CrcRepair
  imports CrcField
begin

text \<open>
  Repair of single-bit errors with the CRC-32 (\<^verbatim>\<open>common/crc32.c\<close>): the position of the bit is a discrete logarithm in the
  field of $2^{32}$ elements, found with a table of small powers and binary search. Theorem: every single flipped bit of the data
  or of the checksum is repaired. Sizes are numbers without bound; the theorem is for those whose eightfold is an \<^verbatim>\<open>int\<close>.
\<close>

section \<open>Operations\<close>

text \<open>\<open>(int) (sqrt (n) + 0.5)\<close>: the first number whose half above is greater than the root.\<close>

function round_sqrt_from :: "nat \<Rightarrow> nat \<Rightarrow> nat" where
  "round_sqrt_from r n = (if 4 * n < (2 * r + 1) * (2 * r + 1) then r else round_sqrt_from (Suc r) n)"
  by pat_completeness auto
termination
proof (relation "measure (\<lambda>(r, n). Suc n - r)")
  fix r n :: nat
  assume a: "\<not> 4 * n < (2 * r + 1) * (2 * r + 1)"
  have "r < Suc n"
  proof (rule ccontr)
    assume "\<not> r < Suc n"
    then have "4 * n < 4 * r" by simp
    also have "\<dots> \<le> (2 * r + 1) * (2 * r + 1)" by (simp add: algebra_simps)
    finally show False using a by simp
  qed
  then show "((Suc r, n), r, n) \<in> measure (\<lambda>(r, n). Suc n - r)" by simp
qed simp

declare round_sqrt_from.simps [simp del]

definition round_sqrt :: "nat \<Rightarrow> nat" where
  "round_sqrt n = round_sqrt_from 0 n"

record fcb_table_entry =
  fcb_p :: u32
  fcb_i :: nat

primrec fcb_table :: "nat \<Rightarrow> nat \<Rightarrow> u32 \<Rightarrow> fcb_table_entry list" where
  "fcb_table 0 i p = []"
| "fcb_table (Suc n) i p = \<lparr>fcb_p = p, fcb_i = i\<rparr> # fcb_table n (Suc i) (gf32_mulx p CRC32_REFLECTED_POLY)"

primrec fill_down :: "nat \<Rightarrow> u32 \<Rightarrow> u32 list \<Rightarrow> u32 list" where
  "fill_down 0 v A = A"
| "fill_down (Suc n) v A = fill_down n (gf32_mulx v CRC32_REFLECTED_POLY) (v # A)"

function fcb_search :: "fcb_table_entry list \<Rightarrow> u32 \<Rightarrow> int \<Rightarrow> int \<Rightarrow> int" where
  "fcb_search T x a b =
     (if b - a > 1 then
        let c = (a + b) div 2 in if fcb_p (T ! nat c) \<le> x then fcb_search T x c b else fcb_search T x a c
      else a)"
  by pat_completeness auto
termination
  by (relation "measure (\<lambda>(T, x, a, b). nat (b - a))") auto

declare fcb_search.simps [simp del]

function find_loop :: "fcb_table_entry list \<Rightarrow> u32 list \<Rightarrow> nat \<Rightarrow> nat \<Rightarrow> nat \<Rightarrow> u32 \<Rightarrow> int option" where
  "find_loop T A r max_j j x =
     (if j \<le> max_j then
        let a = fcb_search T x (-1) (int r) in
        if 0 \<le> a \<and> fcb_p (T ! nat a) = x then Some (int (fcb_i (T ! nat a) + r * j))
        else do { x \<leftarrow> gf32_matrix_times A x; find_loop T A r max_j (Suc j) x }
      else Some (-1))"
  by pat_completeness auto
termination
  by (relation "measure (\<lambda>(T, A, r, max_j, j, x). Suc max_j - j)") auto

declare find_loop.simps [simp del]

text \<open>
  \<open>qsort\<close> orders by power and then by index, as a stable sort by power does. The number of bits is an \<^verbatim>\<open>int\<close> in the code, so that this is
  the function for messages of less than $2^{28} - 4$ bytes.
\<close>

definition crc32_find_corrupted_bit :: "nat \<Rightarrow> u32 \<Rightarrow> int option" where
  "crc32_find_corrupted_bit size0 d = do {
     let n = (size0 + 4) * 8;
     let r = round_sqrt n;
     let T = fcb_table r 0 0x80000000;
     cassert (gf32_mulx 0xdb710641 CRC32_REFLECTED_POLY = 0x80000000);
     let T = sort_key fcb_p T;
     let q = gf32_pow 0xdb710641 r CRC32_REFLECTED_POLY;
     find_loop T (fill_down 32 q []) r (n div r) 0 d }"

function repair_pos :: "int \<Rightarrow> int \<Rightarrow> int \<times> int" where
  "repair_pos i bt = (if bt \<ge> 8 then repair_pos (i - 1) (bt - 8) else (i, bt))"
  by pat_completeness auto
termination
  by (relation "measure (\<lambda>(i, bt). nat bt)") auto

declare repair_pos.simps [simp del]

definition crc32_repair_bit :: "bytes \<Rightarrow> int \<Rightarrow> int \<times> bytes" where
  "crc32_repair_bit input k =
     (let l = int (length input) in
      if k < 0 then (-1, input)
      else let (i, bt) = repair_pos ((l - 1) - (k div 32 - 1) * 4) (k mod 32) in
        if i < 0 then (-2, input)
        else if i \<ge> l then (-3, input)
        else (0, input[nat i := input ! nat i XOR push_bit (nat (7 - bt)) 1]))"

text \<open>The result with the data and the checksum.\<close>

definition crc32_check_and_repair :: "bytes \<Rightarrow> u32 \<Rightarrow> bool \<Rightarrow> (int \<times> bytes \<times> u32) option" where
  "crc32_check_and_repair input input_crc32 force_exit = do {
     let computed_crc32 = compute_crc32 input;
     let crc32_diff = computed_crc32 XOR input_crc32;
     if crc32_diff = 0 then Some (0, input, input_crc32)
     else do {
       k \<leftarrow> crc32_find_corrupted_bit (length input) crc32_diff;
       let (r, input) = crc32_repair_bit input k;
       if r = 0 then do {
         cassert (compute_crc32 input = input_crc32);
         Some (1, input, input_crc32) }
       else if crc32_diff AND (crc32_diff - 1) = 0 then Some (2, input, computed_crc32)
       else do {
         cassert (\<not> force_exit);
         Some (-1, input, computed_crc32) } } }"

section \<open>The position of the bit\<close>

lemma round_sqrt_bounds: "(r = 0 \<or> (2 * r - 1) * (2 * r - 1) \<le> 4 * n) \<Longrightarrow> round_sqrt_from r n = q \<Longrightarrow>
    4 * n < (2 * q + 1) * (2 * q + 1) \<and> (q = 0 \<or> (2 * q - 1) * (2 * q - 1) \<le> 4 * n)"
proof (induction r n rule: round_sqrt_from.induct)
  case (1 r n)
  show ?case
  proof (cases "4 * n < (2 * r + 1) * (2 * r + 1)")
    case True
    then show ?thesis using 1(2,3) by (simp add: round_sqrt_from.simps [of r n])
  next
    case False
    moreover have "round_sqrt_from (Suc r) n = q" using 1(3) False by (simp add: round_sqrt_from.simps [of r n])
    ultimately show ?thesis using 1(1) by simp
  qed
qed

text \<open>The rounded root is the one that floating point gives.\<close>

lemma round_sqrt_real: "int (round_sqrt n) = \<lfloor>sqrt (real n) + 1 / 2\<rfloor>"
proof -
  define q where "q = round_sqrt n"
  have b: "4 * n < (2 * q + 1) * (2 * q + 1)" "q = 0 \<or> (2 * q - 1) * (2 * q - 1) \<le> 4 * n"
    using round_sqrt_bounds [of 0 n q] by (simp_all add: round_sqrt_def q_def)
  have "real (4 * n) < real ((2 * q + 1) * (2 * q + 1))" using b(1) of_nat_less_iff by blast
  then have "real n < (real q + 1 / 2)\<^sup>2" by (simp add: power2_eq_square algebra_simps)
  then have "sqrt (real n) < real q + 1 / 2" by (intro real_less_lsqrt) auto
  moreover have "real q - 1 / 2 \<le> sqrt (real n)"
  proof (cases "q = 0")
    case False
    then obtain p where p: "q = Suc p" using not0_implies_Suc by blast
    moreover have "2 * Suc p - 1 = 2 * p + 1" by simp
    ultimately have "(2 * p + 1) * (2 * p + 1) \<le> 4 * n" using b(2) False by simp
    then have "real ((2 * p + 1) * (2 * p + 1)) \<le> real (4 * n)" using of_nat_le_iff by blast
    then have "(real q - 1 / 2)\<^sup>2 \<le> real n" unfolding p by (simp add: power2_eq_square algebra_simps)
    then show ?thesis by (rule real_le_rsqrt)
  qed (simp add: order_trans [of _ 0])
  ultimately show ?thesis unfolding q_def [symmetric] by linarith
qed

lemma round_sqrt_range:
  assumes "0 < n" "n < 2 ^ 31"
  shows "0 < round_sqrt n" "round_sqrt n \<le> 2 ^ 16"
proof -
  have b: "4 * n < (2 * round_sqrt n + 1) * (2 * round_sqrt n + 1)" "round_sqrt n = 0 \<or> (2 * round_sqrt n - 1) * (2 * round_sqrt n - 1) \<le> 4 * n"
    using round_sqrt_bounds [of 0 n "round_sqrt n"] by (simp_all add: round_sqrt_def)
  show "0 < round_sqrt n" using b(1) assms(1) by (cases "round_sqrt n = 0") auto
  show "round_sqrt n \<le> 2 ^ 16"
  proof (rule ccontr)
    assume "\<not> round_sqrt n \<le> 2 ^ 16"
    then have "2 ^ 17 \<le> 2 * round_sqrt n - 1" "round_sqrt n \<noteq> 0" by auto
    then have "2 ^ 17 * 2 ^ 17 \<le> 4 * n" using b(2) mult_le_mono [of "2 ^ 17" "2 * round_sqrt n - 1" "2 ^ 17" "2 * round_sqrt n - 1"] by linarith
    then show False using assms(2) by simp
  qed
qed

lemma fcb_table_eq: "fcb_table n i p = map (\<lambda>j. \<lparr>fcb_p = mx j p, fcb_i = i + j\<rparr>) [0 ..< n]"
proof (induction n arbitrary: i p)
  case (Suc n)
  have "[0 ..< Suc n] = 0 # map Suc [0 ..< n]" by (simp add: map_Suc_upt upt_conv_Cons)
  then show ?case using Suc by (simp add: gf32_mulx_eq comp_def funpow_swap1 del: upt_Suc)
qed simp

lemma fill_down_eq: "n \<le> 32 \<Longrightarrow> A = map (\<lambda>i. mx (31 - i) q) [n ..< 32] \<Longrightarrow> fill_down n (mx (32 - n) q) A = map (\<lambda>i. mx (31 - i) q) [0 ..< 32]"
proof (induction n arbitrary: A)
  case (Suc n)
  have "[n ..< 32] = n # [Suc n ..< 32]" using Suc.prems by (simp add: upt_conv_Cons)
  then have "mx (32 - Suc n) q # A = map (\<lambda>i. mx (31 - i) q) [n ..< 32]" using Suc.prems by simp
  moreover have "32 - n = Suc (31 - n)" using Suc.prems by simp
  then have "gf32_mulx (mx (32 - Suc n) q) CRC32_REFLECTED_POLY = mx (32 - n) q" by (simp add: gf32_mulx_eq)
  ultimately show ?case using Suc by simp
qed simp

lemma inverse_matrix: "fill_down 32 q [] = matrix_of (\<lambda>v. gf32_mul q v CRC32_REFLECTED_POLY)"
  using fill_down_eq [of 32 "[]" q] mul_bit by (simp add: matrix_of_def)

text \<open>The last entry that is not greater.\<close>

definition last_le :: "fcb_table_entry list \<Rightarrow> u32 \<Rightarrow> int \<Rightarrow> bool" where
  "last_le T x a \<longleftrightarrow> -1 \<le> a \<and> a < int (length T) \<and> (0 \<le> a \<longrightarrow> fcb_p (T ! nat a) \<le> x) \<and> (a + 1 < int (length T) \<longrightarrow> x < fcb_p (T ! nat (a + 1)))"

lemma fcb_search_ok:
  assumes "-1 \<le> a" "a < b" "b \<le> int (length T)" "0 \<le> a \<longrightarrow> fcb_p (T ! nat a) \<le> x" "b < int (length T) \<longrightarrow> x < fcb_p (T ! nat b)"
  shows "last_le T x (fcb_search T x a b)"
  using assms
proof (induction T x a b rule: fcb_search.induct)
  case (1 T x a b)
  show ?case
  proof (cases "b - a > 1")
    case True
    define c where "c = (a + b) div 2"
    have c: "a < c" "c < b" using True by (auto simp: c_def)
    show ?thesis
    proof (cases "fcb_p (T ! nat c) \<le> x")
      case le: True
      have "last_le T x (fcb_search T x c b)" using 1(1) [OF True c_def le] 1 c le by simp
      then show ?thesis using True le by (simp add: fcb_search.simps [of T x a b] c_def [symmetric] Let_def)
    next
      case False
      then have "last_le T x (fcb_search T x a c)" using 1(2) [OF True c_def] 1 c by (simp add: not_le)
      then show ?thesis using True False by (simp add: fcb_search.simps [of T x a b] c_def [symmetric] Let_def)
    qed
  next
    case False
    then have "b = a + 1" using 1(4) by simp
    then show ?thesis using 1(3-7) by (simp add: fcb_search.simps [of T x a "a + 1"] last_le_def)
  qed
qed

lemma fcb_search_finds:
  assumes "sorted (map fcb_p T)" "x \<in> fcb_p ` set T"
  defines "a \<equiv> fcb_search T x (-1) (int (length T))"
  shows "0 \<le> a \<and> a < int (length T) \<and> fcb_p (T ! nat a) = x"
proof -
  obtain i where i: "i < length T" "fcb_p (T ! i) = x" using assms(2) by (auto simp: in_set_conv_nth)
  have "T \<noteq> []" using i by auto
  then have l: "last_le T x a" unfolding a_def by (intro fcb_search_ok) auto
  have m: "fcb_p (T ! j) \<le> fcb_p (T ! k)" if "j \<le> k" "k < length T" for j k
    using sorted_nth_mono [OF assms(1), of j k] that by simp
  have "\<not> a < int i"
  proof
    assume "a < int i"
    moreover from this have "x < fcb_p (T ! nat (a + 1))" using l i(1) by (simp add: last_le_def)
    moreover have "fcb_p (T ! nat (a + 1)) \<le> x" using m [of "nat (a + 1)" i] i calculation(1) by (simp add: nat_le_iff)
    ultimately show False by simp
  qed
  then have a: "0 \<le> a" "a < int (length T)" "i \<le> nat a" using l by (auto simp: last_le_def)
  then have "x \<le> fcb_p (T ! nat a)" using m [of i "nat a"] i by auto
  then show ?thesis using a l by (auto simp: last_le_def)
qed

text \<open>The search with the sorted table of the first powers and the matrix of division.\<close>

definition bit_table :: "nat \<Rightarrow> fcb_table_entry list" where
  "bit_table r = sort_key fcb_p (fcb_table r 0 gf_one)"

lemma bit_table_set: "set (bit_table r) = (\<lambda>j. \<lparr>fcb_p = mx j gf_one, fcb_i = j\<rparr>) ` {..< r}"
  by (auto simp: bit_table_def fcb_table_eq)

lemma bit_table_facts: "length (bit_table r) = r" "sorted (map fcb_p (bit_table r))"
  by (simp_all add: bit_table_def fcb_table_eq)

lemma bit_table_nth: "i < r \<Longrightarrow> fcb_p (bit_table r ! i) = mx (fcb_i (bit_table r ! i)) gf_one \<and> fcb_i (bit_table r ! i) < r"
  using nth_mem [of i "bit_table r"] by (auto simp: bit_table_set bit_table_facts)

definition division :: "nat \<Rightarrow> u32 \<Rightarrow> u32" where
  "division r v = gf32_mul (gf32_pow 0xdb710641 r CRC32_REFLECTED_POLY) v CRC32_REFLECTED_POLY"

lemma division_ok: "mx r (division r v) = v"
proof -
  have "mx 1 0xdb710641 = gf_one" by (simp add: gf_one_def mulx_def CRC32_REFLECTED_POLY_def)
  from pow_inverse [OF this, of r] show ?thesis by (simp add: division_def mul_one_left flip: mul_mulx_n_left)
qed

lemma find_loop_ok:
  assumes "mx (r * j) x = d" "0 < r"
  shows "\<exists>k. find_loop (bit_table r) (matrix_of (division r)) r max_j j x = Some k \<and>
    (k = -1 \<and> (\<forall>e. r * j \<le> e \<and> e < r * Suc max_j \<longrightarrow> mx e gf_one \<noteq> d) \<or>
     0 \<le> k \<and> mx (nat k) gf_one = d \<and> nat k < r * Suc max_j)"
  using assms
proof (induction "Suc max_j - j" arbitrary: j x)
  case 0
  then have "max_j < j" by simp
  then have "r * Suc max_j \<le> r * j" by (intro mult_le_mono) auto
  then show ?case using \<open>max_j < j\<close> by (auto simp: find_loop.simps)
next
  case (Suc n)
  let ?T = "bit_table r" and ?A = "matrix_of (division r)"
  have j: "j \<le> max_j" using Suc.hyps(2) by simp
  define a where "a = fcb_search ?T x (-1) (int r)"
  have lin: "division r (u XOR v) = division r u XOR division r v" for u v by (simp add: division_def mul_xor_right)
  show ?case
  proof (cases "0 \<le> a \<and> fcb_p (?T ! nat a) = x")
    case True
    have "last_le ?T x a" unfolding a_def using Suc.prems(2) bit_table_facts(1) [of r] by (intro fcb_search_ok) auto
    then have "nat a < r" using True bit_table_facts(1) [of r] by (auto simp: last_le_def)
    note t = bit_table_nth [OF this]
    define m where "m = fcb_i (?T ! nat a) + r * j"
    have "mx m gf_one = d" using t True Suc.prems(1) mulx_n_add [of "r * j" CRC32_REFLECTED_POLY "fcb_i (?T ! nat a)" gf_one] by (simp add: m_def add.commute)
    moreover have "m < r * Suc max_j" using add_less_le_mono [OF conjunct2 [OF t] mult_le_mono2 [OF j, of r]] by (simp add: m_def)
    moreover have "find_loop ?T ?A r max_j j x = Some (int m)" unfolding m_def using j True by (subst find_loop.simps) (simp add: a_def Let_def)
    ultimately show ?thesis by auto
  next
    case False
    have s: "find_loop ?T ?A r max_j j x = find_loop ?T ?A r max_j (Suc j) (division r x)"
      using j False matrix_times_linear [OF lin, where rest = "[]"] by (subst find_loop.simps) (auto simp: a_def [symmetric] Let_def)
    have h: "n = Suc max_j - Suc j" using Suc.hyps(2) by simp
    have "mx (r * Suc j) (division r x) = d" using Suc.prems(1) division_ok [of r x] mulx_n_add [of "r * j" CRC32_REFLECTED_POLY r "division r x"] by (simp add: add.commute)
    from Suc.hyps(1) [OF h this Suc.prems(2)] obtain k where k: "find_loop ?T ?A r max_j (Suc j) (division r x) = Some k"
      "k = -1 \<and> (\<forall>e. r * Suc j \<le> e \<and> e < r * Suc max_j \<longrightarrow> mx e gf_one \<noteq> d) \<or> 0 \<le> k \<and> mx (nat k) gf_one = d \<and> nat k < r * Suc max_j"
      by (elim exE conjE) (rule that)
    have "mx e gf_one \<noteq> d" if "r * j \<le> e" "e < r * Suc j" for e
    proof
      assume "mx e gf_one = d"
      then have "mx (r * j) (mx (e - r * j) gf_one) = mx (r * j) x" using that(1) Suc.prems(1) by (simp add: mulx_n_add)
      then have "x = mx (e - r * j) gf_one" by (simp add: mx_inject)
      moreover have "e - r * j < r" using that by auto
      ultimately have "x \<in> fcb_p ` set ?T" unfolding bit_table_set by force
      from fcb_search_finds [OF bit_table_facts(2) this] show False using False bit_table_facts(1) [of r] by (simp add: a_def)
    qed
    then have "k = -1 \<and> (\<forall>e. r * j \<le> e \<and> e < r * Suc max_j \<longrightarrow> mx e gf_one \<noteq> d) \<or> 0 \<le> k \<and> mx (nat k) gf_one = d \<and> nat k < r * Suc max_j"
      using k(2) by (metis not_less)
    then show ?thesis using k(1) s by simp
  qed
qed

lemma find_corrupted_ok:
  assumes "l < 2 ^ 27"
  shows "\<exists>k. crc32_find_corrupted_bit l d = Some k \<and>
    (k = -1 \<and> (\<forall>e < 8 * l + 32. mx e gf_one \<noteq> d) \<or> 0 \<le> k \<and> mx (nat k) gf_one = d \<and> nat k < 2 ^ 31)"
proof -
  define n r where "n = (l + 4) * 8" and "r = round_sqrt n"
  have r: "0 < r" "r \<le> 2 ^ 16" using round_sqrt_range [of n] assms by (simp_all add: n_def r_def)
  have b: "n < r * Suc (n div r)" "r * Suc (n div r) \<le> n + r"
    using r(1) by (auto simp: dividend_less_times_div)
  have A: "matrix_of (division r) = fill_down 32 (gf32_pow 0xdb710641 r CRC32_REFLECTED_POLY) []"
    unfolding inverse_matrix by (simp add: division_def [abs_def])
  have "gf32_mulx 0xdb710641 CRC32_REFLECTED_POLY = 0x80000000" by (simp add: gf32_mulx_def CRC32_REFLECTED_POLY_def)
  then have f: "crc32_find_corrupted_bit l d = find_loop (bit_table r) (matrix_of (division r)) r (n div r) 0 d"
    unfolding A by (simp add: crc32_find_corrupted_bit_def Let_def n_def r_def bit_table_def gf_one_def)
  have "n + r < 2 ^ 31" using assms r(2) by (simp add: n_def)
  then have "e < 2 ^ 31" if "e < r * Suc (n div r)" for e using that b(2) by linarith
  moreover have "e < r * Suc (n div r)" if "e < 8 * l + 32" for e using that b(1) by (simp add: n_def)
  ultimately show ?thesis unfolding f using find_loop_ok [of r 0 d d "n div r"] r(1) by fastforce
qed

section \<open>Flipping a bit\<close>

definition flip :: "bytes \<Rightarrow> nat \<Rightarrow> nat \<Rightarrow> bytes" where
  "flip data i j = data[i := data ! i XOR push_bit j 1]"

lemma flip_flip: "i < length data \<Longrightarrow> flip (flip data i j) i j = data"
proof -
  have "(b XOR c) XOR c = b" for b c :: u8 by (simp add: xor.assoc)
  then show "i < length data \<Longrightarrow> flip (flip data i j) i j = data" by (simp add: flip_def)
qed

lemma flip_crc:
  assumes "i < length data" "j < 8"
  shows "compute_crc32 (flip data i j) = compute_crc32 data XOR mx (8 * (length data - i) + (31 - j)) gf_one"
proof -
  let ?s = "crc_step CRC32_REFLECTED_POLY" and ?b = "data ! i"
  define A B where "A = take i data" and "B = drop (Suc i) data"
  have d: "data = A @ ?b # B" "flip data i j = A @ (?b XOR push_bit j 1) # B" "length B = length data - Suc i"
    using assms(1) by (simp_all add: A_def B_def id_take_nth_drop flip_def upd_conv_take_nth_drop)
  have u: "(ucast (b XOR push_bit j 1 :: u8) :: u32) = ucast b XOR push_bit j 1" for b
    using assms(2) by (intro bit_word_eqI) (auto simp: bit_simps dest: bit_imp_le_length)
  have s: "?s c (?b XOR push_bit j 1) = mx 8 (push_bit j 1) XOR ?s c ?b" for c
    unfolding crc_step_def u mulx_n_xor by (simp only: xor.assoc xor.left_commute xor.commute)
  have "foldl ?s c (A @ (?b XOR push_bit j 1) # B) = mx (8 * length B) (mx 8 (push_bit j 1)) XOR foldl ?s c (A @ ?b # B)" for c
    unfolding foldl_append foldl.simps s by (rule steps_affine)
  moreover have "mx (8 * length B) (mx 8 (push_bit j 1)) = mx (8 * (length data - i) + (31 - j)) gf_one"
  proof -
    have "8 * length B + 8 = 8 * (length data - i)" using d(3) assms(1) by simp
    moreover have "push_bit j 1 = mx (31 - j) gf_one" using mulx_one [of j CRC32_REFLECTED_POLY] assms(2) by simp
    ultimately show ?thesis by (simp only: mulx_n_add add.assoc [symmetric])
  qed
  ultimately show ?thesis using d(1,2) by (simp add: compute_crc32_def crc32_steps xor.assoc xor.left_commute xor.commute)
qed

lemma repair_pos_eq: "0 \<le> bt \<Longrightarrow> repair_pos i bt = (i - bt div 8, bt mod 8)"
proof (induction i bt rule: repair_pos.induct)
  case (1 i bt)
  show ?case
  proof (cases "bt \<ge> 8")
    case True
    have "(bt - 8) div 8 = bt div 8 - 1" "(bt - 8) mod 8 = bt mod 8"
      using div_mult_self1 [of 8 bt "-1"] mod_mult_self1 [of bt "-1" 8] by simp_all
    then show ?thesis using 1 True by (simp add: repair_pos.simps [of i bt])
  qed (use 1 in \<open>simp add: repair_pos.simps [of i bt]\<close>)
qed

lemma repair_bit_eq:
  assumes "0 \<le> k"
  shows "crc32_repair_bit data k = (let i = int (length data) + 3 - k div 8 in
    if i < 0 then (-2, data) else if i \<ge> int (length data) then (-3, data) else (0, flip data (nat i) (nat (7 - k mod 8))))"
proof -
  have "repair_pos ((int (length data) - 1) - (k div 32 - 1) * 4) (k mod 32) = (int (length data) + 3 - k div 8, k mod 8)"
  proof -
    have m: "k mod 32 = 8 * (k div 8 mod 4) + k mod 8" using zmod_zmult2_eq [of 4 k 8] by simp
    have "k mod 32 div 8 = k div 8 mod 4" unfolding m by (simp add: div_add1_eq)
    also have "\<dots> = k div 8 - 4 * (k div 32)" using zdiv_zmult2_eq [of 4 k 8] by (simp add: minus_mult_div_eq_mod [symmetric])
    finally have "(int (length data) - 1) - (k div 32 - 1) * 4 - k mod 32 div 8 = int (length data) + 3 - k div 8" by (simp add: algebra_simps)
    moreover have "k mod 32 mod 8 = k mod 8" unfolding m by simp
    ultimately show ?thesis using repair_pos_eq [of "k mod 32"] by simp
  qed
  then show ?thesis using assms by (simp add: crc32_repair_bit_def flip_def Let_def)
qed

section \<open>Repair\<close>

text \<open>A position that the search returns is that of a bit that changes the checksum as observed.\<close>

lemma repair_effect:
  assumes "0 \<le> k" "crc32_repair_bit data k = (0, data')"
  shows "compute_crc32 data' = compute_crc32 data XOR mx (nat k) gf_one"
proof -
  define i where "i = int (length data) + 3 - k div 8"
  have i: "0 \<le> i" "i < int (length data)" "data' = flip data (nat i) (nat (7 - k mod 8))"
    using assms by (auto simp: repair_bit_eq i_def [symmetric] Let_def split: if_split_asm)
  have "8 * (length data - nat i) + (31 - nat (7 - k mod 8)) = nat k"
  proof -
    have "int (8 * (length data - nat i) + (31 - nat (7 - k mod 8))) = 8 * (int (length data) - i) + (31 - (7 - k mod 8))" using i(1,2) by (simp add: of_nat_diff nat_le_iff)
    also have "\<dots> = k" unfolding i_def using mult_div_mod_eq [of 8 k] by simp
    finally show ?thesis by (metis nat_int)
  qed
  then show ?thesis using flip_crc [of "nat i" data "nat (7 - k mod 8)"] i by (simp add: nat_less_iff)
qed

lemma xor_move: "(a :: u32) XOR b = c \<longleftrightarrow> b = a XOR c"
proof -
  have "a XOR (a XOR x) = x" for x :: u32 by (simp add: xor.assoc [symmetric])
  then show ?thesis by metis
qed

lemma single_bit_and: "m < 32 \<Longrightarrow> push_bit m (1 :: u32) AND (push_bit m 1 - 1) = 0"
proof (rule bit_word_eqI)
  fix n assume "m < 32"
  have "push_bit m (1 :: u32) - 1 = mask m" by (simp add: mask_eq_exp_minus_1)
  moreover have "bit (push_bit m (1 :: u32)) n \<Longrightarrow> m \<le> n" by (simp only: bit_push_bit_iff)
  ultimately show "bit (push_bit m (1 :: u32) AND (push_bit m 1 - 1)) n = bit (0 :: u32) n" by (auto simp: bit_and_iff bit_mask_iff)
qed

lemma repair_flipped:
  assumes l: "length data < 2 ^ 27" and i: "i < length data" "j < 8"
  shows "crc32_check_and_repair (flip data i j) (compute_crc32 data) force_exit = Some (1, data, compute_crc32 data)"
proof -
  define e where "e = 8 * (length data - i) + (31 - j)"
  let ?f = "flip data i j"
  have len: "length ?f = length data" by (simp add: flip_def)
  have d: "compute_crc32 ?f XOR compute_crc32 data = mx e gf_one" using flip_crc [OF i] by (simp add: e_def xor_move xor.commute)
  have e: "e < 2 ^ 31" "e < 8 * length data + 32" using l i by (simp_all add: e_def)
  obtain k where k: "crc32_find_corrupted_bit (length data) (mx e gf_one) = Some k"
    "k = -1 \<and> (\<forall>e' < 8 * length data + 32. mx e' gf_one \<noteq> mx e gf_one) \<or> 0 \<le> k \<and> mx (nat k) gf_one = mx e gf_one \<and> nat k < 2 ^ 31"
    using find_corrupted_ok [OF l] by blast
  then have "0 \<le> k" "nat k = e" using e mx_exp_inject [of "nat k" e] by blast+
  then have "k = int e" by simp
  have "int e div 8 = int (length data) - int i + 3" "int e mod 8 = 7 - int j"
    using i by (simp_all add: e_def of_nat_diff) presburger+
  then have "crc32_repair_bit ?f k = (0, flip ?f i j)" using i unfolding \<open>k = int e\<close> by (simp add: repair_bit_eq len Let_def)
  moreover have "mx e gf_one \<noteq> 0" using mulx_n_zero [OF poly_top, of e gf_one] by (auto simp: gf_one_def)
  ultimately show ?thesis using k(1) d len flip_flip [OF i(1)] by (simp add: crc32_check_and_repair_def Let_def)
qed

lemma repair_checksum:
  assumes l: "length data < 2 ^ 27" and m: "m < 32"
  shows "crc32_check_and_repair data (compute_crc32 data XOR push_bit m 1) force_exit = Some (2, data, compute_crc32 data)"
proof -
  have p: "push_bit m 1 = mx (31 - m) gf_one" using mulx_one [OF m, of CRC32_REFLECTED_POLY] by simp
  obtain k where k: "crc32_find_corrupted_bit (length data) (push_bit m 1) = Some k"
    "k = -1 \<and> (\<forall>e < 8 * length data + 32. mx e gf_one \<noteq> push_bit m 1) \<or> 0 \<le> k \<and> mx (nat k) gf_one = push_bit m 1 \<and> nat k < 2 ^ 31"
    using find_corrupted_ok [OF l] by blast
  have "31 - m < 8 * length data + 32" by simp
  then have "0 \<le> k" "nat k = 31 - m" using k(2) mx_exp_inject [of "nat k" "31 - m"] unfolding p by auto
  then have "k div 8 \<le> 3" by auto
  then have "crc32_repair_bit data k = (-3, data)" using \<open>0 \<le> k\<close> by (simp add: repair_bit_eq Let_def)
  moreover have "push_bit m (1 :: u32) \<noteq> 0" using mulx_n_zero [OF poly_top, of "31 - m" gf_one] unfolding p by (auto simp: gf_one_def)
  ultimately show ?thesis using k(1) single_bit_and [OF m] by (simp add: crc32_check_and_repair_def Let_def xor.assoc [symmetric] del: push_bit_of_1)
qed

lemma repair_returns:
  assumes l: "length data < 2 ^ 27"
  shows "\<exists>r. crc32_check_and_repair data crc False = Some r"
proof -
  let ?d = "compute_crc32 data XOR crc"
  obtain k where k: "crc32_find_corrupted_bit (length data) ?d = Some k" "k = -1 \<or> 0 \<le> k \<and> mx (nat k) gf_one = ?d"
    using find_corrupted_ok [OF l] by blast
  obtain r data' where r: "crc32_repair_bit data k = (r, data')" by (metis surj_pair)
  have "compute_crc32 data' = crc" if "r = 0"
  proof -
    have "0 \<le> k" using that r k(2) by (auto simp: crc32_repair_bit_def)
    then show ?thesis using repair_effect [of k data data'] that r k(2) by (auto simp: xor.assoc [symmetric])
  qed
  then show ?thesis using k(1) r by (simp add: crc32_check_and_repair_def Let_def)
qed

text \<open>
  C34. \<open>crc32_check_and_repair\<close> repairs single-bit errors. If one bit of the data was flipped, it restores the data and returns 1; if
  one bit of the checksum was flipped, it restores the checksum and returns 2; and it never fails an assertion when it is not
  told to exit.
\<close>

theorem crc32_repair_single_bit:
  assumes "length data < 2 ^ 27"
  shows "(\<forall>i < length data. \<forall>j < 8. crc32_check_and_repair (data[i := data ! i XOR push_bit j 1]) (compute_crc32 data) force_exit =
      Some (1, data, compute_crc32 data)) \<and>
    (\<forall>m < 32. crc32_check_and_repair data (compute_crc32 data XOR push_bit m 1) force_exit = Some (2, data, compute_crc32 data)) \<and>
    (\<exists>r. crc32_check_and_repair data crc False = Some r)"
  using repair_flipped [OF assms] repair_checksum [OF assms] repair_returns [OF assms] unfolding flip_def by blast

theorem crc32_repair_single_bit_witness:
  "crc32_check_and_repair [1, 2, 7] (compute_crc32 [1, 2, 3]) True = Some (1, [1, 2, 3], compute_crc32 [1, 2, 3])"
proof -
  have "(7 :: u8) = 3 XOR push_bit 2 1" by simp
  then show ?thesis using crc32_repair_single_bit [of "[1, 2, 3]" True 0] by (auto dest!: spec [of _ 2])
qed

end
