(* ===== verification/HttpDate.thy ===== *)
theory HttpDate
  imports Forward
begin

text \<open>
  Dates of the HTTP server (\<^verbatim>\<open>net/net-http-server.c\<close>): \<open>gen_http_date\<close> prints a time, \<open>gen_http_time\<close> reads it back. The format
  of \<^verbatim>\<open>sscanf\<close> is modelled directive by directive. The main theorem is that every time that is printed is read back.
\<close>

section \<open>Printing\<close>

definition HTTP_DATE_LEN :: nat where
  "HTTP_DATE_LEN = 29"

definition months :: bytes where
  "months = text_bytes ''JanFebMarAprMayJunJulAugSepOctNovDecGlk''"

definition dows :: bytes where
  "dows = text_bytes ''SunMonTueWedThuFriSatEar''"

text \<open>The array \<open>dd\<close> with the days of February that the functions put in it.\<close>

definition dd_days :: "int \<Rightarrow> int list" where
  "dd_days feb = [31, feb, 31, 30, 31, 30, 31, 31, 30, 31, 30, 31]"

text \<open>The format \<^verbatim>\<open>%.2d\<close>.\<close>

definition dec2 :: "int \<Rightarrow> bytes" where
  "dec2 n = (if n < 10 then 48 # dec_digits (nat n) else dec_digits (nat n))"

fun month_loop :: "int list \<Rightarrow> nat \<Rightarrow> int \<Rightarrow> nat \<times> int" where
  "month_loop [] i xd = (i, xd)"
| "month_loop (d # ds) i xd = (if xd < d then (i, xd) else month_loop ds (Suc i) (xd - d))"

text \<open>The year in a period of four years, and the days that remain.\<close>

definition period_year :: "int \<Rightarrow> int \<Rightarrow> int \<times> int" where
  "period_year year xd =
     (if xd \<ge> 365 then
        let year = year + 1; xd = xd - 365 in
        if xd \<ge> 365 then
          let year = year + 1; xd = xd - 365 in
          if xd \<ge> 366 then (year + 1, xd - 366) else (year, xd)
        else (year, xd)
      else (year, xd))"

definition gen_http_date :: "int \<Rightarrow> bytes option" where
  "gen_http_date time = do {
     let time = (if time < 0 then 0 else time);
     let sec = time mod 60;
     let time = time div 60;
     let minute = time mod 60;
     let time = time div 60;
     let hour = time mod 24;
     let time = time div 24;
     let dow = (time + 4) mod 7;
     let xd = time mod (365 * 3 + 366);
     let time = time div (365 * 3 + 366);
     let (year, xd) = period_year (time * 4 + 1970) xd;
     let (mon, xd) = month_loop (dd_days (if year mod 4 \<noteq> 0 then 28 else 29)) 0 xd;
     let day = xd + 1;
     cassert (day \<ge> 1 \<and> day \<le> 31 \<and> mon \<le> 11 \<and> year \<ge> 1970 \<and> year \<le> 2039);
     let date_buffer = take 3 (drop (nat dow * 3) dows) @ text_bytes '', '' @ dec2 day @ text_bytes '' '' @
       take 3 (drop (mon * 3) months) @ text_bytes '' '' @ dec_digits (nat year) @ text_bytes '' '' @
       dec2 hour @ text_bytes '':'' @ dec2 minute @ text_bytes '':'' @ dec2 sec @ text_bytes '' GM'';
     cassert (length date_buffer + 1 \<le> HTTP_DATE_LEN);
     aset (date_buffer @ [0]) 28 (word_of_nat (of_char (CHR ''T''))) }"

section \<open>Reading\<close>

text \<open>
  The directives of \<^verbatim>\<open>sscanf\<close>: white space, a character, \<^verbatim>\<open>%ns\<close> and \<^verbatim>\<open>%d\<close>, which returns the number (one that does not fit is
  undefined in C). The result is \<open>None\<close> where the function stops.
\<close>

definition is_space :: "u8 \<Rightarrow> bool" where
  "is_space c \<longleftrightarrow> c = 32 \<or> 9 \<le> c \<and> c \<le> 13"

definition is_digit :: "u8 \<Rightarrow> bool" where
  "is_digit c \<longleftrightarrow> 48 \<le> c \<and> c \<le> 57"

definition scan_space :: "bytes \<Rightarrow> bytes" where
  "scan_space s = dropWhile is_space s"

definition scan_char :: "u8 \<Rightarrow> bytes \<Rightarrow> bytes option" where
  "scan_char c s = (case s of [] \<Rightarrow> None | d # s \<Rightarrow> if c = d then Some s else None)"

definition scan_word :: "nat \<Rightarrow> bytes \<Rightarrow> (bytes \<times> bytes) option" where
  "scan_word n s =
     (let s = scan_space s; w = takeWhile (\<lambda>c. \<not> is_space c) (take n s)
      in if w = [] then None else Some (w, drop (length w) s))"

definition digits_value :: "bytes \<Rightarrow> int" where
  "digits_value ds = foldl (\<lambda>v d. 10 * v + (uint d - 48)) 0 ds"

definition scan_int :: "bytes \<Rightarrow> (int \<times> bytes) option" where
  "scan_int s =
     (let s = scan_space s;
          neg = (s \<noteq> [] \<and> hd s = 45);
          s = (if s \<noteq> [] \<and> (hd s = 43 \<or> hd s = 45) then tl s else s);
          ds = takeWhile is_digit s
      in if ds = [] then None else Some (if neg then - digits_value ds else digits_value ds, drop (length ds) s))"

text \<open>The conversions before the first that fails are counted.\<close>

definition conversion :: "nat \<Rightarrow> ('a \<times> bytes) option \<Rightarrow> ('a \<Rightarrow> bytes \<Rightarrow> nat + 'b) \<Rightarrow> nat + 'b" where
  "conversion argc r f = (case r of None \<Rightarrow> Inl argc | Some (v, s) \<Rightarrow> f v s)"

definition literal :: "nat \<Rightarrow> bytes option \<Rightarrow> (bytes \<Rightarrow> nat + 'b) \<Rightarrow> nat + 'b" where
  "literal argc r f = (case r of None \<Rightarrow> Inl argc | Some s \<Rightarrow> f s)"

definition scan_date :: "bytes \<Rightarrow> nat + (int \<times> bytes \<times> int \<times> int \<times> int \<times> int \<times> bytes)" where
  "scan_date s =
     conversion 0 (scan_word 3 s) (\<lambda>dow s.
     literal 1 (scan_char 44 s) (\<lambda>s.
     conversion 1 (scan_int (scan_space s)) (\<lambda>day s.
     conversion 2 (scan_word 3 (scan_space s)) (\<lambda>month s.
     conversion 3 (scan_int (scan_space s)) (\<lambda>year s.
     conversion 4 (scan_int (scan_space s)) (\<lambda>hour s.
     literal 5 (scan_char 58 s) (\<lambda>s.
     conversion 5 (scan_int s) (\<lambda>minute s.
     literal 6 (scan_char 58 s) (\<lambda>s.
     conversion 6 (scan_int s) (\<lambda>sec s.
     conversion 7 (scan_word 15 (scan_space s)) (\<lambda>tz s.
     Inr (day, month, year, hour, minute, sec, tz))))))))))))"

text \<open>The buffer of the month ends with a zero byte.\<close>

fun find_month :: "bytes \<Rightarrow> nat list \<Rightarrow> nat" where
  "find_month month [] = 12"
| "find_month month (mon # ms) = (if take 3 (drop (mon * 3) months) = take 3 (month @ [0]) then mon else find_month month ms)"

text \<open>The result, with the time where it is stored. The time is computed modulo $2^{32}$.\<close>

definition gen_http_time :: "bytes \<Rightarrow> int \<times> int option" where
  "gen_http_time date_buffer =
     (case scan_date date_buffer of
        Inl argc \<Rightarrow> (if argc > 0 then - int argc else -8, None)
      | Inr (day, month, year, hour, minute, sec, tz) \<Rightarrow>
          let mon = find_month month [0 ..< 12] in
          if mon = 12 then (-11, None)
          else if year < 1970 \<or> year > 2039 then (-12, None)
          else if hour < 0 \<or> hour \<ge> 24 then (-13, None)
          else if minute < 0 \<or> minute \<ge> 60 then (-14, None)
          else if sec < 0 \<or> sec \<ge> 60 then (-15, None)
          else if tz \<noteq> text_bytes ''GMT'' then (-16, None)
          else
            let d = (year - 1970) * 365 + (year - 1969) div 4 + (day - 1);
                d = (if year mod 4 = 0 \<and> mon \<ge> 2 then d + 1 else d);
                d = d + sum_list (take mon (dd_days 28))
            in (0, Some (sint (word_of_int (((d * 24 + hour) * 60 + minute) * 60 + sec) :: u32))))"


section \<open>Round trip\<close>

definition digit :: "nat \<Rightarrow> u8" where
  "digit d = word_of_nat (48 + d)"

lemma dec_digits_Suc: "10 \<le> n \<Longrightarrow> dec_digits n = dec_digits (n div 10) @ [digit (n mod 10)]"
  by (simp add: dec_digits.simps [of n] digit_def)

lemma dec_digits_1: "n < 10 \<Longrightarrow> dec_digits n = [digit n]"
  by (simp add: dec_digits.simps [of n] digit_def)

lemma dec2_eq:
  assumes "n < 100"
  shows "dec2 (int n) = [digit (n div 10), digit (n mod 10)]"
proof -
  have "n div 10 < 10" using assms by simp
  then show ?thesis by (cases "n < 10") (simp_all add: dec2_def dec_digits_Suc dec_digits_1 digit_def)
qed

lemma length_dec2: "0 \<le> n \<Longrightarrow> n < 100 \<Longrightarrow> length (dec2 n) = 2"
  using dec2_eq [of "nat n"] by (simp add: nat_less_iff)

lemma dec_digits_4:
  assumes "1000 \<le> n" "n < 10000"
  shows "dec_digits n = [digit (n div 1000), digit (n div 100 mod 10), digit (n div 10 mod 10), digit (n mod 10)]"
proof -
  have "n div 10 div 10 = n div 100" "n div 10 div 10 div 10 = n div 1000" by (simp_all add: div_mult2_eq [symmetric])
  moreover have "100 \<le> n div 10" "10 \<le> n div 10 div 10" "n div 10 div 10 div 10 < 10" using assms by simp_all
  ultimately show ?thesis using assms by (simp add: dec_digits_Suc dec_digits_1)
qed

lemma uint_digit: "d < 10 \<Longrightarrow> uint (digit d) = 48 + int d"
proof -
  assume "d < 10"
  then have "unat (digit d) = 48 + d" unfolding digit_def by (simp only: unat_of_nat) simp
  then show ?thesis by (metis of_nat_add of_nat_numeral uint_nat)
qed

lemma digit_facts:
  assumes "d < 10"
  shows "is_digit (digit d)" "\<not> is_space (digit d)" "digit d \<noteq> 43" "digit d \<noteq> 45"
proof -
  have "uint (digit d) = 48 + int d" using assms by (rule uint_digit)
  then show "is_digit (digit d)" "\<not> is_space (digit d)" "digit d \<noteq> 43" "digit d \<noteq> 45"
    using assms by (auto simp: is_digit_def is_space_def word_le_def)
qed

lemma scan_int_digits:
  assumes "ds \<noteq> []" "\<forall>d\<in>set ds. d < 10" "s = [] \<or> \<not> is_digit (hd s)"
  shows "scan_int (map digit ds @ s) = Some (foldl (\<lambda>v d. 10 * v + int d) 0 ds, s)"
proof -
  obtain d ds' where d: "ds = d # ds'" using assms(1) by (cases ds) auto
  have "takeWhile is_digit (map digit ds @ s) = map digit ds"
    using assms(2,3) by (cases s) (auto simp: takeWhile_append digit_facts)
  moreover have "digits_value (map digit ds) = foldl (\<lambda>v d. 10 * v + int d) 0 ds"
  proof -
    have "foldl (\<lambda>v d. 10 * v + (uint d - 48)) a (map digit ds) = foldl (\<lambda>v d. 10 * v + int d) a ds" for a
      using assms(2) by (induction ds arbitrary: a) (simp_all add: uint_digit)
    then show ?thesis by (simp add: digits_value_def)
  qed
  moreover have "scan_space (map digit ds @ s) = map digit ds @ s" using assms(2) by (simp add: d scan_space_def digit_facts)
  ultimately show ?thesis using assms(2) by (simp add: scan_int_def d digit_facts)
qed


lemma scan_word_exact:
  assumes "w \<noteq> []" "\<forall>c\<in>set w. \<not> is_space c" "n = length w \<or> n > length w \<and> s = []"
  shows "scan_word n (w @ s) = Some (w, s)"
proof -
  have "scan_space (w @ s) = w @ s" using assms(1,2) by (cases w) (simp_all add: scan_space_def)
  moreover have "takeWhile (\<lambda>c. \<not> is_space c) (take n (w @ s)) = w" using assms(2,3) by (auto simp: takeWhile_eq_all_conv)
  ultimately show ?thesis using assms(1) by (simp add: scan_word_def)
qed

lemma months_eq: "months = [74, 97, 110, 70, 101, 98, 77, 97, 114, 65, 112, 114, 77, 97, 121, 74, 117, 110, 74, 117, 108, 65, 117, 103, 83, 101, 112, 79, 99, 116, 78, 111, 118, 68, 101, 99, 71, 108, 107]"
  by (simp add: months_def text_bytes_def)

lemma dows_eq: "dows = [83, 117, 110, 77, 111, 110, 84, 117, 101, 87, 101, 100, 84, 104, 117, 70, 114, 105, 83, 97, 116, 69, 97, 114]"
  by (simp add: dows_def text_bytes_def)

definition month_name :: "nat \<Rightarrow> bytes" where
  "month_name mon = take 3 (drop (mon * 3) months)"

definition dow_name :: "nat \<Rightarrow> bytes" where
  "dow_name dow = take 3 (drop (dow * 3) dows)"

lemma less_12_cases: "(n :: nat) < 12 \<Longrightarrow> n \<in> {0, 1, 2, 3, 4, 5, 6, 7, 8, 9, 10, 11}"
  unfolding insert_iff empty_iff by presburger

lemma month_name_facts:
  assumes "mon < 12"
  shows "length (month_name mon) = 3" "\<forall>c\<in>set (month_name mon). \<not> is_space c" "find_month (month_name mon) [0 ..< 12] = mon"
proof -
  have u: "[0 ..< 12] = [0, 1, 2, 3, 4, 5, 6, 7, 8, 9, 10, 11 :: nat]" by (simp add: upt_rec)
  have "list_all (\<lambda>mon. length (month_name mon) = 3 \<and> list_all (\<lambda>c. \<not> is_space c) (month_name mon) \<and> find_month (month_name mon) [0 ..< 12] = mon)
    [0, 1, 2, 3, 4, 5, 6, 7, 8, 9, 10, 11]"
    unfolding u by (simp add: month_name_def months_eq is_space_def)
  then show "length (month_name mon) = 3" "\<forall>c\<in>set (month_name mon). \<not> is_space c" "find_month (month_name mon) [0 ..< 12] = mon"
    using less_12_cases [OF assms] by (auto simp: list_all_iff)
qed

lemma dow_name_facts:
  assumes "dow < 7"
  shows "length (dow_name dow) = 3" "\<forall>c\<in>set (dow_name dow). \<not> is_space c"
proof -
  have "dow \<in> {0, 1, 2, 3, 4, 5, 6}" using assms by auto
  then show "length (dow_name dow) = 3" "\<forall>c\<in>set (dow_name dow). \<not> is_space c"
    by (auto simp: dow_name_def dows_eq is_space_def)
qed

lemma month_loop_spec:
  assumes "0 \<le> xd" "xd < sum_list ds"
  shows "\<exists>k < length ds. month_loop ds i xd = (i + k, xd - sum_list (take k ds)) \<and> 0 \<le> xd - sum_list (take k ds) \<and> xd - sum_list (take k ds) < ds ! k"
  using assms
proof (induction ds arbitrary: i xd)
  case (Cons d ds)
  show ?case
  proof (cases "xd < d")
    case False
    then obtain k where "k < length ds" "month_loop ds (Suc i) (xd - d) = (Suc i + k, xd - d - sum_list (take k ds))"
      "0 \<le> xd - d - sum_list (take k ds)" "xd - d - sum_list (take k ds) < ds ! k"
      using Cons.IH [of "xd - d" "Suc i"] Cons.prems by auto
    then show ?thesis using False by (intro exI [of _ "Suc k"]) (simp add: algebra_simps)
  qed (use Cons.prems in \<open>auto intro!: exI [of _ 0]\<close>)
qed simp

lemma period_year_spec:
  assumes "0 \<le> xd" "xd < 1461" "period_year (q * 4 + 1970) xd = (y, x)"
  shows "q * 4 + 1970 \<le> y" "y \<le> q * 4 + 1973" "0 \<le> x" "x < (if y mod 4 \<noteq> 0 then 365 else 366)"
    "(y - 1970) * 365 + (y - 1969) div 4 + x = q * 1461 + xd"
proof -
  have m: "(q * 4 + 1970) mod 4 = 2" "(q * 4 + 1971) mod 4 = 3" "(q * 4 + 1972) mod 4 = 0" "(q * 4 + 1973) mod 4 = 1"
    "(q * 4 + 1) div 4 = q" "(q * 4 + 2) div 4 = q" "(q * 4 + 3) div 4 = q" "(q * 4 + 4) div 4 = q + 1"
    by (simp_all add: mod_add_eq [symmetric] div_add1_eq)
  consider "xd < 365" | "365 \<le> xd" "xd < 730" | "730 \<le> xd" "xd < 1096" | "1096 \<le> xd" by linarith
  then have "q * 4 + 1970 \<le> y \<and> y \<le> q * 4 + 1973 \<and> 0 \<le> x \<and> x < (if y mod 4 \<noteq> 0 then 365 else 366) \<and>
    (y - 1970) * 365 + (y - 1969) div 4 + x = q * 1461 + xd"
    by cases (use assms m in \<open>auto simp: period_year_def Let_def algebra_simps\<close>)
  then show "q * 4 + 1970 \<le> y" "y \<le> q * 4 + 1973" "0 \<le> x" "x < (if y mod 4 \<noteq> 0 then 365 else 366)"
    "(y - 1970) * 365 + (y - 1969) div 4 + x = q * 1461 + xd" by simp_all
qed

lemma dd_leap: "sum_list (take mon (dd_days (28 + l))) = sum_list (take mon (dd_days 28)) + (if mon \<ge> 2 then l else 0)"
  by (cases mon; cases "mon - 1") (simp_all add: dd_days_def)


lemma scan_space_digit: "d < 10 \<Longrightarrow> scan_space (digit d # s) = digit d # s" "scan_space (32 # s) = scan_space s"
  by (simp_all add: scan_space_def digit_facts) (simp add: is_space_def)

lemma scan_dec2:
  assumes "n < 100" "s = [] \<or> \<not> is_digit (hd s)"
  shows "scan_int (digit (n div 10) # digit (n mod 10) # s) = Some (int n, s)"
proof -
  have e: "10 * int (n div 10) + int (n mod 10) = int n" by (simp add: zdiv_int zmod_int)
  have "scan_int (map digit [n div 10, n mod 10] @ s) = Some (foldl (\<lambda>v d. 10 * v + int d) 0 [n div 10, n mod 10], s)"
    by (rule scan_int_digits) (use assms in auto)
  then show ?thesis by (simp only: list.map append.simps foldl_Cons foldl_Nil mult_zero_right add_0 e)
qed

lemma scan_year:
  assumes "1000 \<le> n" "n < 10000" "s = [] \<or> \<not> is_digit (hd s)"
  shows "scan_int (digit (n div 1000) # digit (n div 100 mod 10) # digit (n div 10 mod 10) # digit (n mod 10) # s) = Some (int n, s)"
proof -
  have "10 * (10 * (10 * (n div 1000) + n div 100 mod 10) + n div 10 mod 10) + n mod 10 = n"
  proof -
    have "n div 100 = n div 10 div 10" "n div 1000 = n div 10 div 10 div 10" by (simp_all add: div_mult2_eq [symmetric])
    then show ?thesis by simp
  qed
  from arg_cong [where f = int, OF this]
  have e: "10 * (10 * (10 * int (n div 1000) + int (n div 100 mod 10)) + int (n div 10 mod 10)) + int (n mod 10) = int n"
    by (simp only: of_nat_add of_nat_mult of_nat_numeral)
  have "n div 1000 < 10" using assms by simp
  then have "scan_int (map digit [n div 1000, n div 100 mod 10, n div 10 mod 10, n mod 10] @ s) =
      Some (foldl (\<lambda>v d. 10 * v + int d) 0 [n div 1000, n div 100 mod 10, n div 10 mod 10, n mod 10], s)"
    by (intro scan_int_digits) (use assms in auto)
  then show ?thesis by (simp only: list.map append.simps foldl_Cons foldl_Nil mult_zero_right add_0 e)
qed

lemma scan_date_printed:
  assumes "w < 7" "day < 100" "mon < 12" "1000 \<le> year" "year < 10000" "hour < 100" "mi < 100" "sec < 100"
  shows "scan_date (dow_name w @ [44, 32] @ dec2 (int day) @ [32] @ month_name mon @ [32] @ dec_digits year @ [32] @
      dec2 (int hour) @ [58] @ dec2 (int mi) @ [58] @ dec2 (int sec) @ [32, 71, 77, 84]) =
    Inr (int day, month_name mon, int year, int hour, int mi, int sec, text_bytes ''GMT'')"
proof -
  have w: "scan_word 3 (dow_name w @ s) = Some (dow_name w, s)" for s
    by (rule scan_word_exact) (use dow_name_facts [OF assms(1)] in auto)
  have m: "scan_word 3 (month_name mon @ s) = Some (month_name mon, s)" "scan_space (month_name mon @ s) = month_name mon @ s" for s
  proof -
    show "scan_word 3 (month_name mon @ s) = Some (month_name mon, s)" by (rule scan_word_exact) (use month_name_facts [OF assms(3)] in auto)
    show "scan_space (month_name mon @ s) = month_name mon @ s" using month_name_facts [OF assms(3)]
      by (cases "month_name mon") (auto simp: scan_space_def)
  qed
  have t: "scan_word 15 (scan_space [71, 77, 84]) = Some (text_bytes ''GMT'', [])"
    using scan_word_exact [of "text_bytes ''GMT''" 15 "[]"] by (simp add: text_bytes_def is_space_def scan_space_def)
  have y: "year div 1000 < 10" using assms(5) by simp
  show ?thesis
    using assms y by (simp add: scan_date_def conversion_def literal_def scan_char_def w m t scan_space_digit dec2_eq dec_digits_4 scan_dec2 scan_year is_digit_def)
qed


section \<open>The theorem\<close>

lemma time_parts: "60 * a + s = u \<Longrightarrow> 60 * b + m = a \<Longrightarrow> 24 * d + h = b \<Longrightarrow> ((d * 24 + h) * 60 + m) * 60 + s = (u :: int)"
  by simp

text \<open>The day of the calendar of a number of days, and its number as \<open>gen_http_time\<close> computes it.\<close>

definition february :: "int \<Rightarrow> int" where
  "february y = (if y mod 4 \<noteq> 0 then 28 else 29)"

lemma calendar_day:
  assumes "0 \<le> days" "days < 24856"
  obtains y x mon day where "period_year (days div 1461 * 4 + 1970) (days mod 1461) = (y, x)"
    "month_loop (dd_days (february y)) 0 x = (mon, day - 1)" "mon < 12" "1 \<le> day" "day \<le> 31" "1970 \<le> y" "y \<le> 2039"
    "(y - 1970) * 365 + (y - 1969) div 4 + (day - 1) + (if y mod 4 = 0 \<and> mon \<ge> 2 then 1 else 0) + sum_list (take mon (dd_days 28)) = days"
proof -
  obtain y x where yx: "period_year (days div 1461 * 4 + 1970) (days mod 1461) = (y, x)" by (cases "period_year (days div 1461 * 4 + 1970) (days mod 1461)")
  have p: "days div 1461 * 4 + 1970 \<le> y" "y \<le> days div 1461 * 4 + 1973" "0 \<le> x" "x < (if y mod 4 \<noteq> 0 then 365 else 366)"
    "(y - 1970) * 365 + (y - 1969) div 4 + x = days"
    using period_year_spec [OF _ _ yx] by (simp_all only: div_mult_mod_eq pos_mod_sign pos_mod_bound)
  have y0: "1970 \<le> y" using p(1) pos_imp_zdiv_nonneg_iff [of 1461 days] assms(1) by simp
  then have "0 \<le> (y - 1969) div 4" by (simp add: pos_imp_zdiv_nonneg_iff)
  then have "(y - 1970) * 365 < 24856" using p(3,5) assms(2) by linarith
  then have y: "1970 \<le> y" "y \<le> 2039" using y0 by simp_all
  define feb where "feb = february y"
  have feb: "feb = 28 + (if y mod 4 \<noteq> 0 then 0 else 1)" by (simp add: feb_def february_def)
  have "x < sum_list (dd_days feb)" using p(4) by (auto simp: dd_days_def feb)
  then obtain mon where mon: "mon < 12" "month_loop (dd_days feb) 0 x = (mon, x - sum_list (take mon (dd_days feb)))"
    "0 \<le> x - sum_list (take mon (dd_days feb))" "x - sum_list (take mon (dd_days feb)) < dd_days feb ! mon"
    using month_loop_spec [OF p(3), of "dd_days feb" 0] by (auto simp: dd_days_def)
  define day where "day = x - sum_list (take mon (dd_days feb)) + 1"
  have "dd_days feb ! mon \<le> 31" using less_12_cases [OF mon(1)] by (auto simp: dd_days_def feb)
  then have day: "1 \<le> day" "day \<le> 31" using mon(3,4) by (auto simp: day_def)
  show ?thesis
    by (rule that [OF yx _ mon(1) day y]) (use mon(2) p(5) in \<open>simp_all add: day_def feb dd_leap flip: feb_def\<close>)
qed

lemma http_date_read:
  assumes "t < 2 ^ 31"
  shows "\<exists>date. gen_http_date t = Some date \<and> length date = HTTP_DATE_LEN \<and> gen_http_time date = (0, Some (max 0 t))"
proof -
  define u where "u = max 0 t"
  define days sec mi hour where "days = u div 86400" and "sec = u mod 60" and "mi = u div 60 mod 60" and "hour = u div 60 div 60 mod 24"
  have b: "0 \<le> sec" "sec < 60" "0 \<le> mi" "mi < 60" "0 \<le> hour" "hour < 24" "0 \<le> days" "days < 24856"
    using assms by (auto simp: u_def days_def sec_def mi_def hour_def max_def)
  have dv: "u div 60 div 60 div 24 = days" by (simp add: days_def zdiv_zmult2_eq [symmetric])
  have u: "((days * 24 + hour) * 60 + mi) * 60 + sec = u"
    unfolding hour_def mi_def sec_def dv [symmetric] by (rule time_parts) (rule mult_div_mod_eq)+
  obtain y x mon day where yx: "period_year (days div 1461 * 4 + 1970) (days mod 1461) = (y, x)"
    and m: "month_loop (dd_days (february y)) 0 x = (mon, day - 1)" and mon: "mon < 12" and day: "1 \<le> day" "day \<le> 31"
    and y: "1970 \<le> y" "y \<le> 2039"
    and d: "(y - 1970) * 365 + (y - 1969) div 4 + (day - 1) + (if y mod 4 = 0 \<and> mon \<ge> 2 then 1 else 0) + sum_list (take mon (dd_days 28)) = days"
    by (rule calendar_day [OF b(7,8)])
  define w where "w = nat ((days + 4) mod 7)"
  have w: "w < 7" by (simp add: w_def nat_less_iff)
  define date where "date = dow_name w @ [44, 32] @ dec2 (int (nat day)) @ [32] @ month_name mon @ [32] @ dec_digits (nat y) @ [32] @
      dec2 (int (nat hour)) @ [58] @ dec2 (int (nat mi)) @ [58] @ dec2 (int (nat sec)) @ [32, 71, 77, 84]"
  have "scan_date date = Inr (int (nat day), month_name mon, int (nat y), int (nat hour), int (nat mi), int (nat sec), text_bytes ''GMT'')"
    unfolding date_def by (rule scan_date_printed) (use w day mon y b in auto)
  then have scan: "scan_date date = Inr (day, month_name mon, y, hour, mi, sec, text_bytes ''GMT'')" using day y b by simp
  have "gen_http_time date = (0, Some (sint (word_of_int (((days * 24 + hour) * 60 + mi) * 60 + sec) :: u32)))"
    using d mon y b by (auto simp: gen_http_time_def scan month_name_facts Let_def)
  then have "gen_http_time date = (0, Some (sint (word_of_int u :: u32)))" unfolding u .
  moreover have "sint (word_of_int u :: u32) = u" using assms by (simp add: u_def signed_of_int signed_take_bit_int_eq_self)
  moreover have len: "length date = HTTP_DATE_LEN"
    using w mon day y b by (simp add: date_def dow_name_facts month_name_facts length_dec2 nat_less_iff dec_digits_4 HTTP_DATE_LEN_def)
  moreover have "gen_http_date t = Some date"
  proof -
    define front where "front = butlast date"
    have front: "date = front @ [84]" "length front = 28" using len by (simp_all add: front_def date_def HTTP_DATE_LEN_def butlast_append)
    have c: "day \<ge> 1 \<and> day \<le> 31 \<and> mon \<le> 11 \<and> y \<ge> 1970 \<and> y \<le> 2039" using day mon y by simp
    have e: "(if t < 0 then 0 else t) = u" "(365 :: int) * 3 + 366 = 1461" by (simp_all add: u_def)
    have f: "take 3 (drop (w * 3) dows) @ text_bytes '', '' @ dec2 day @ text_bytes '' '' @
       take 3 (drop (mon * 3) months) @ text_bytes '' '' @ dec_digits (nat y) @ text_bytes '' '' @
       dec2 hour @ text_bytes '':'' @ dec2 mi @ text_bytes '':'' @ dec2 sec @ text_bytes '' GM'' = front"
      using day b by (simp add: front_def date_def text_bytes_def butlast_append dow_name_def month_name_def)
    show ?thesis
      unfolding gen_http_date_def Let_def e
      unfolding sec_def [symmetric] mi_def [symmetric] hour_def [symmetric] dv yx prod.case february_def [symmetric] m diff_add_cancel w_def [symmetric] f
      using c by (simp add: front abort_simps HTTP_DATE_LEN_def aset_def list_update_append)
  qed
  ultimately show ?thesis using u_def by simp
qed

lemma gen_http_date_ok: "t < 2 ^ 31 \<Longrightarrow> \<exists>date. gen_http_date t = Some date \<and> length date = 29"
  using http_date_read [of t] by (auto simp: HTTP_DATE_LEN_def)

text \<open>
  C35. Every time that \<open>gen_http_date\<close> is given is printed as a date of 29 characters, without failing its assertion, and
  \<open>gen_http_time\<close> reads the date back as the same time; times before 1970 are printed as the first second of 1970.
\<close>

theorem http_date_roundtrip:
  assumes "t < 2 ^ 31"
  shows "\<exists>date. gen_http_date t = Some date \<and> length date = HTTP_DATE_LEN \<and> gen_http_time date = (0, Some (max 0 t))"
  using assms by (rule http_date_read)

theorem http_date_roundtrip_witness: "\<exists>date. gen_http_date 951782400 = Some date \<and> gen_http_time date = (0, Some 951782400)"
  using http_date_roundtrip [of 951782400] by auto

end
