(* ===== verification/HttpReply.thy ===== *)
theory HttpReply
  imports HttpDate
begin

text \<open>
  Headers and answers of the HTTP server (\<^verbatim>\<open>net/net-http-server.c\<close>): the state of a query, the header and error page the
  server writes, and \<open>get_http_header\<close>, which finds a header of a request. The theorems say that the buffers are large enough
  and that looking up a header of a request gives its value.
\<close>

section \<open>State of a query\<close>

definition MAX_HTTP_HEADER_SIZE :: nat where "MAX_HTTP_HEADER_SIZE = 16384"
definition HTTP_V09 :: nat where "HTTP_V09 = 9"
definition HTTP_V10 :: nat where "HTTP_V10 = 0x100"
definition HTTP_V11 :: nat where "HTTP_V11 = 0x101"

datatype hts_query_type = htqt_none | htqt_head | htqt_get | htqt_post | htqt_options | htqt_error | htqt_empty

text \<open>The bits of \<open>query_flags\<close>; the word is the set of them.\<close>

datatype query_flag = QF_ERROR | QF_HOST | QF_DATASIZE | QF_CONNECTION | QF_KEEPALIVE | QF_EXTRA_HEADERS

text \<open>\<open>htqp_closed\<close> is the value \<open>-1\<close>, which stands for no state.\<close>

datatype http_query_parse_state =
  htqp_start | htqp_readtospace | htqp_readtocolon | htqp_readint | htqp_skipspc | htqp_skiptoeoln | htqp_skipspctoeoln |
  htqp_eoln | htqp_wantlf | htqp_wantlastlf | htqp_linestart | htqp_fatal | htqp_done | htqp_closed

record hts_data =
  query_type :: hts_query_type
  query_flags :: "query_flag set"
  query_words :: nat
  header_size :: nat
  first_line_size :: nat
  data_size :: int
  host_offset :: nat
  host_size :: nat
  uri_offset :: nat
  uri_size :: nat
  http_ver :: nat
  wlen :: nat
  word :: bytes
  parse_state :: http_query_parse_state
  query_seqno :: nat

text \<open>The global variables.\<close>

record hts_globals =
  http_connections :: int
  http_queries :: int
  http_bad_headers :: int
  http_queries_size :: int
  now_date_string :: bytes
  now_date_utime :: int
  extra_http_response_headers :: bytes

section \<open>Answers\<close>

definition SERVER_VERSION :: string where
  "SERVER_VERSION = ''MTProxy/1.0''"

definition http_get_error_msg_text :: "int \<Rightarrow> string \<times> int" where
  "http_get_error_msg_text code =
     (if code = 200 then (''OK'', code)
      else if code = 201 then (''Created'', code)
      else if code = 202 then (''Accepted'', code)
      else if code = 204 then (''No Content'', code)
      else if code = 206 then (''Partial Content'', code)
      else if code = 301 then (''Moved Permanently'', code)
      else if code = 302 then (''Found'', code)
      else if code = 303 then (''See Other'', code)
      else if code = 304 then (''Not Modified'', code)
      else if code = 307 then (''Temporary Redirect'', code)
      else if code = 400 then (''Bad Request'', code)
      else if code = 403 then (''Forbidden'', code)
      else if code = 404 then (''Not Found'', code)
      else if code = 405 then (''Method Not Allowed'', code)
      else if code = 406 then (''Not Acceptable'', code)
      else if code = 408 then (''Request Timeout'', code)
      else if code = 411 then (''Length Required'', code)
      else if code = 413 then (''Request Entity Too Large'', code)
      else if code = 414 then (''Request URI Too Long'', code)
      else if code = 418 then (''I'' @ [CHR 0x27] @ ''m a teapot'', code)
      else if code = 429 then (''Too Many Requests'', code)
      else if code = 501 then (''Not Implemented'', code)
      else if code = 502 then (''Bad Gateway'', code)
      else if code = 503 then (''Service Unavailable'', code)
      else (''Internal Server Error'', 500))"

definition cur_http_date :: "int \<Rightarrow> hts_globals \<Rightarrow> (bytes \<times> hts_globals) option" where
  "cur_http_date now G =
     (if now_date_utime G \<noteq> now then do {
        date \<leftarrow> gen_http_date now;
        Some (date, G\<lparr>now_date_string := date, now_date_utime := now\<rparr>) }
      else Some (now_date_string G, G))"

text \<open>The format \<^verbatim>\<open>%d\<close> of a code or a length, which are not negative.\<close>

definition format_d :: "int \<Rightarrow> bytes" where
  "format_d n = dec_digits (nat n)"

definition header_pattern :: "int \<Rightarrow> string \<Rightarrow> bytes \<Rightarrow> bytes \<Rightarrow> string \<Rightarrow> bytes \<Rightarrow> bytes \<Rightarrow> bytes" where
  "header_pattern code error_message date content_type conn extra add_header =
     text_bytes ''HTTP/1.1 '' @ format_d code @ text_bytes '' '' @ text_bytes error_message @ crlf @
     text_bytes ''Server: '' @ text_bytes SERVER_VERSION @ crlf @
     text_bytes ''Date: '' @ date @ crlf @
     text_bytes ''Content-Type: '' @ take 256 content_type @ crlf @
     text_bytes ''Connection: '' @ text_bytes conn @ crlf @ take 1024 extra @ take 1024 add_header"

text \<open>
  The bytes are those pushed to the message; strings that may be null are optional. \<open>B_SZ\<close> is 4096.
\<close>

definition write_basic_http_header_raw ::
  "int \<Rightarrow> int \<Rightarrow> int \<Rightarrow> int \<Rightarrow> bytes option \<Rightarrow> bytes option \<Rightarrow> hts_data \<Rightarrow> hts_globals \<Rightarrow> (bytes \<times> hts_data \<times> hts_globals) option" where
  "write_basic_http_header_raw now code date len add_header content_type D G =
     (if http_ver D \<ge> HTTP_V10 \<or> http_ver D = 0 then do {
        let (error_message, code) = http_get_error_msg_text code;
        (d, G) \<leftarrow> (if date \<noteq> 0 then do { d \<leftarrow> gen_http_date date; Some (d, G) } else cur_http_date now G);
        let buff = header_pattern code error_message d
          (case content_type of Some t \<Rightarrow> t | None \<Rightarrow> text_bytes ''text/html'')
          (if QF_KEEPALIVE \<in> query_flags D then ''keep-alive'' else ''close'')
          (if QF_EXTRA_HEADERS \<in> query_flags D then extra_http_response_headers G else [])
          (case add_header of Some h \<Rightarrow> h | None \<Rightarrow> []);
        let D = D\<lparr>query_flags := query_flags D - {QF_EXTRA_HEADERS}\<rparr>;
        cassert (length buff < 4096 - 64);
        let buff = buff @ (if len \<ge> 0 then text_bytes ''Content-Length: '' @ format_d len @ crlf else []) @ crlf;
        cassert (length buff < 4096);
        Some (buff, D, G) }
      else Some ([], D, G))"

definition error_text_pattern :: "int \<Rightarrow> string \<Rightarrow> bytes" where
  "error_text_pattern code error_message =
     text_bytes ''<html>'' @ crlf @
     text_bytes ''<head><title>'' @ format_d code @ text_bytes '' '' @ text_bytes error_message @ text_bytes ''</title></head>'' @ crlf @
     text_bytes ''<body bgcolor='' @ [34] @ text_bytes ''white'' @ [34] @ text_bytes ''>'' @ crlf @
     text_bytes ''<center><h1>'' @ format_d code @ text_bytes '' '' @ text_bytes error_message @ text_bytes ''</h1></center>'' @ crlf @
     text_bytes ''<hr><center>'' @ text_bytes SERVER_VERSION @ text_bytes ''</center>'' @ crlf @
     text_bytes ''</body>'' @ crlf @ text_bytes ''</html>'' @ crlf"

definition write_http_error_raw :: "int \<Rightarrow> int \<Rightarrow> hts_data \<Rightarrow> hts_globals \<Rightarrow> (bytes \<times> hts_data \<times> hts_globals) option" where
  "write_http_error_raw now code D G =
     (if code = 204 then write_basic_http_header_raw now code 0 (-1) None None D G
      else do {
        let (error_message, code) = http_get_error_msg_text code;
        let buff = error_text_pattern code error_message;
        cassert (length buff < 1024);
        (header, D, G) \<leftarrow> write_basic_http_header_raw now code 0 (int (length buff)) None None D G;
        Some (header @ buff, D, G) })"

section \<open>Lookup of a header\<close>

definition to_lower :: "u8 \<Rightarrow> u8" where
  "to_lower c = (if 65 \<le> c \<and> c \<le> 90 then c + 32 else c)"

text \<open>\<^verbatim>\<open>strncasecmp\<close> returns zero; both strings have that many bytes and the first has no zero byte.\<close>

definition case_eq :: "bytes \<Rightarrow> bytes \<Rightarrow> bool" where
  "case_eq a b \<longleftrightarrow> map to_lower a = map to_lower b"

definition skip_line :: "bytes \<Rightarrow> bytes" where
  "skip_line s = drop 1 (dropWhile (\<lambda>c. c \<noteq> 10) s)"

definition trim_right :: "bytes \<Rightarrow> bytes" where
  "trim_right s = rev (dropWhile (\<lambda>c. c = 32 \<or> c = 9) (rev s))"

lemma skip_line_less: "s \<noteq> [] \<Longrightarrow> length (skip_line s) < length s"
proof -
  assume "s \<noteq> []"
  then have "0 < length s" by simp
  then show ?thesis using length_dropWhile_le [of "\<lambda>c. c \<noteq> 10" s] unfolding skip_line_def length_drop by linarith
qed

lemma skip_line_le: "length (skip_line s) \<le> length s"
  using skip_line_less [of s] by (cases s) (auto simp: skip_line_def)

text \<open>The result and the contents of the buffer, whose size \<open>b_len\<close> is positive.\<close>

function get_http_header :: "bytes \<Rightarrow> nat \<Rightarrow> bytes \<Rightarrow> int \<times> bytes" where
  "get_http_header p b_len arg_name =
     (if p = [] then (-1, [0])
      else
        let start = takeWhile (\<lambda>c. c \<noteq> 58 \<and> c \<noteq> 10) p;
            p = drop (length start) p
        in if p = [] then (-1, [0])
           else if hd p = 58 then
             if length arg_name = length start \<and> case_eq arg_name start then
               let p = dropWhile (\<lambda>c. c = 9 \<or> c = 32) (tl p);
                   val = trim_right (takeWhile (\<lambda>c. c \<noteq> 13 \<and> c \<noteq> 10) p);
                   b_len = min (length val) (b_len - 1)
               in (int b_len, take b_len val @ [0])
             else get_http_header (skip_line (tl p)) b_len arg_name
           else get_http_header (skip_line p) b_len arg_name)"
  by pat_completeness auto

termination
proof (relation "measure (\<lambda>(p, b_len, arg_name). length p)")
  fix p b_len arg_name s and p' :: bytes
  assume p': "p' = drop (length s) p" "p' \<noteq> []"
  have "length (skip_line (tl p')) \<le> length (tl p')" "length (skip_line p') < length p'" using skip_line_le skip_line_less p'(2) by blast+
  moreover have "length p' \<le> length p" "length (tl p') < length p'" using p' by simp_all
  ultimately show "((skip_line (tl p'), b_len, arg_name), p, b_len, arg_name) \<in> measure (\<lambda>(p, b_len, arg_name). length p)"
    "((skip_line p', b_len, arg_name), p, b_len, arg_name) \<in> measure (\<lambda>(p, b_len, arg_name). length p)" by simp_all
qed simp

declare get_http_header.simps [simp del]


section \<open>Answers fit into their buffers\<close>

lemma msg_text: "http_get_error_msg_text code = (m, c) \<Longrightarrow> length m \<le> 24 \<and> 200 \<le> c \<and> c \<le> 503"
  by (auto simp: http_get_error_msg_text_def split: if_split_asm)

lemma length_text_bytes [simp]: "length (text_bytes s) = length s"
  by (simp add: text_bytes_def)

lemma length_crlf [simp]: "length crlf = 2"
  by (simp add: crlf_def)

lemma length_format_d_3: "200 \<le> c \<Longrightarrow> c \<le> 503 \<Longrightarrow> length (format_d c) = 3"
proof -
  assume c: "200 \<le> c" "c \<le> 503"
  then have "10 \<le> nat c" "10 \<le> nat c div 10" "nat c div 10 div 10 < 10" by simp_all
  then show ?thesis by (simp add: format_d_def dec_digits_Suc dec_digits_1)
qed

lemma length_dec_digits_less: "n < 10 ^ Suc k \<Longrightarrow> length (dec_digits n) \<le> Suc k"
proof (induction k arbitrary: n)
  case 0
  then show ?case by (simp add: dec_digits_1)
next
  case (Suc k)
  then show ?case by (cases "n < 10") (simp_all add: dec_digits_1 dec_digits_Suc less_mult_imp_div_less mult.commute)
qed

lemma length_error_text: "http_get_error_msg_text code = (m, c) \<Longrightarrow> length (error_text_pattern c m) \<le> 230"
  using msg_text [of code m c] length_format_d_3 [of c] by (simp add: error_text_pattern_def SERVER_VERSION_def)

lemma length_header:
  assumes "http_get_error_msg_text code = (m, c)" "length date \<le> 29" "length conn \<le> 10"
  shows "length (header_pattern c m date ct conn extra add) \<le> 2450"
proof -
  have m: "length m \<le> 24" "length (format_d c) = 3" using msg_text [OF assms(1)] length_format_d_3 [of c] by simp_all
  have "length (header_pattern c m date ct conn extra add) =
      74 + length m + length date + length conn + min (length ct) 256 + min (length extra) 1024 + min (length add) 1024"
    by (simp add: header_pattern_def SERVER_VERSION_def m(2))
  moreover have "min (length ct) 256 \<le> 256" "min (length extra) 1024 \<le> 1024" "min (length add) 1024 \<le> 1024" by simp_all
  ultimately show ?thesis using m(1) assms(2,3) by linarith
qed


text \<open>The date that is kept is the date of the time that is kept.\<close>

definition date_kept :: "hts_globals \<Rightarrow> bool" where
  "date_kept G \<longleftrightarrow> gen_http_date (now_date_utime G) = Some (now_date_string G)"

lemma cur_http_date_ok:
  assumes "date_kept G" "now < 2 ^ 31"
  obtains date where "cur_http_date now G = Some (date, G\<lparr>now_date_string := date, now_date_utime := now\<rparr>)"
    "gen_http_date now = Some date" "length date = 29" "date_kept (G\<lparr>now_date_string := date, now_date_utime := now\<rparr>)"
proof -
  obtain date where d: "gen_http_date now = Some date" "length date = 29"
    using gen_http_date_ok [OF assms(2)] by auto
  then show ?thesis
    using that [of date] assms(1) by (cases "now_date_utime G = now") (auto simp: cur_http_date_def date_kept_def)
qed


text \<open>The header that is written, where the protocol has one.\<close>

definition http_header :: "int \<Rightarrow> int \<Rightarrow> bytes option \<Rightarrow> bytes option \<Rightarrow> bytes \<Rightarrow> hts_data \<Rightarrow> hts_globals \<Rightarrow> bytes" where
  "http_header code len add_header content_type date D G =
     (let (m, c) = http_get_error_msg_text code in
      header_pattern c m date (case content_type of Some t \<Rightarrow> t | None \<Rightarrow> text_bytes ''text/html'')
        (if QF_KEEPALIVE \<in> query_flags D then ''keep-alive'' else ''close'')
        (if QF_EXTRA_HEADERS \<in> query_flags D then extra_http_response_headers G else [])
        (case add_header of Some h \<Rightarrow> h | None \<Rightarrow> []) @
      (if len \<ge> 0 then text_bytes ''Content-Length: '' @ format_d len @ crlf else []) @ crlf)"

lemma write_basic_ok:
  assumes "date_kept G" "now < 2 ^ 31" "len < 2 ^ 31"
  obtains out G' date where "write_basic_http_header_raw now code 0 len add_header content_type D G =
      Some (out, if http_ver D \<ge> HTTP_V10 \<or> http_ver D = 0 then D\<lparr>query_flags := query_flags D - {QF_EXTRA_HEADERS}\<rparr> else D, G')"
    "date_kept G'" "gen_http_date now = Some date" "http_queries G' = http_queries G"
    "out = (if http_ver D \<ge> HTTP_V10 \<or> http_ver D = 0 then http_header code len add_header content_type date D G else [])"
proof -
  obtain m c where mc: "http_get_error_msg_text code = (m, c)" by (cases "http_get_error_msg_text code")
  obtain date where d: "cur_http_date now G = Some (date, G\<lparr>now_date_string := date, now_date_utime := now\<rparr>)"
    "gen_http_date now = Some date" "length date = 29" "date_kept (G\<lparr>now_date_string := date, now_date_utime := now\<rparr>)"
    by (rule cur_http_date_ok [OF assms(1,2)])
  define conn where "conn = (if QF_KEEPALIVE \<in> query_flags D then ''keep-alive'' else ''close'')"
  have conn: "length conn \<le> 10" by (simp add: conn_def)
  have h: "length (header_pattern c m date ct conn extra add) \<le> 2450" for ct extra add by (rule length_header [OF mc]) (use d(3) conn in auto)
  have l: "length (format_d len) \<le> 10" if "0 \<le> len" unfolding format_d_def using length_dec_digits_less [of "nat len" 9] that assms(3) by simp
  have n: "length (header_pattern c m date ct conn extra add) < 4096 - 64" for ct extra add using h [of ct extra add] by simp
  have "length (header_pattern c m date ct conn extra add @ (if len \<ge> 0 then text_bytes ''Content-Length: '' @ format_d len @ crlf else []) @ crlf) < 4096" for ct extra add
    using h [of ct extra add] l by (cases "0 \<le> len") simp_all
  note n = n this
  show ?thesis
  proof (cases "http_ver D \<ge> HTTP_V10 \<or> http_ver D = 0")
    case True
    show ?thesis
      by (rule that [OF _ d(4) d(2) _ refl], unfold if_P [OF True] write_basic_http_header_raw_def Let_def mc prod.case http_header_def conn_def [symmetric])
        (use d(1) n in \<open>simp_all add: mc\<close>)
  next
    case False
    show ?thesis by (rule that [OF _ assms(1) d(2) refl refl]) (use False in \<open>simp add: write_basic_http_header_raw_def\<close>)
  qed
qed


lemma write_http_error_ok:
  assumes "date_kept G" "now < 2 ^ 31"
  obtains out D' G' where "write_http_error_raw now code D G = Some (out, D', G')" "date_kept G'"
    "D' = D\<lparr>query_flags := query_flags D'\<rparr>" "query_flags D' \<union> {QF_EXTRA_HEADERS} = query_flags D \<union> {QF_EXTRA_HEADERS}"
    "http_queries G' = http_queries G"
proof (cases "code = 204")
  case True
  obtain out G' date where "write_basic_http_header_raw now code 0 (-1) None None D G =
      Some (out, if http_ver D \<ge> HTTP_V10 \<or> http_ver D = 0 then D\<lparr>query_flags := query_flags D - {QF_EXTRA_HEADERS}\<rparr> else D, G')"
    "date_kept G'" "http_queries G' = http_queries G"
    by (rule write_basic_ok [OF assms, of "-1"]) auto
  then show ?thesis using that True by (auto simp: write_http_error_raw_def split: if_split_asm)
next
  case False
  obtain m c where mc: "http_get_error_msg_text code = (m, c)" by (cases "http_get_error_msg_text code")
  define buff where "buff = error_text_pattern c m"
  have b: "length buff < 1024" "int (length buff) < 2 ^ 31" using length_error_text [OF mc] by (simp_all add: buff_def)
  obtain out G' date where "write_basic_http_header_raw now c 0 (int (length buff)) None None D G =
      Some (out, if http_ver D \<ge> HTTP_V10 \<or> http_ver D = 0 then D\<lparr>query_flags := query_flags D - {QF_EXTRA_HEADERS}\<rparr> else D, G')"
    "date_kept G'" "http_queries G' = http_queries G"
    by (rule write_basic_ok [OF assms b(2)]) auto
  then show ?thesis
    using that False b(1) by (auto simp: write_http_error_raw_def mc Let_def buff_def [symmetric] split: if_split_asm)
qed

section \<open>Lookup in a list of headers\<close>

definition print_headers :: "(bytes \<times> bytes) list \<Rightarrow> bytes" where
  "print_headers hs = concat (map (\<lambda>(n, v). n @ [58, 32] @ v @ crlf) hs) @ crlf"

definition proper_name :: "bytes \<Rightarrow> bool" where
  "proper_name n \<longleftrightarrow> 58 \<notin> set n \<and> 10 \<notin> set n"

definition proper_value :: "bytes \<Rightarrow> bool" where
  "proper_value v \<longleftrightarrow> 13 \<notin> set v \<and> 10 \<notin> set v \<and> (v = [] \<or> hd v \<notin> {9, 32} \<and> last v \<notin> {9, 32})"

definition lookup_result :: "nat \<Rightarrow> bytes \<Rightarrow> (bytes \<times> bytes) list \<Rightarrow> int \<times> bytes" where
  "lookup_result b_len arg_name hs =
     (case find (\<lambda>(n, v). case_eq arg_name n) hs of
        Some (n, v) \<Rightarrow> (int (min (length v) (b_len - 1)), take (b_len - 1) v @ [0])
      | None \<Rightarrow> (-1, [0]))"

lemma name_takeWhile: "proper_name n \<Longrightarrow> takeWhile (\<lambda>c. c \<noteq> 58 \<and> c \<noteq> 10) (n @ 58 # s) = n"
  by (simp add: proper_name_def takeWhile_append takeWhile_eq_all_conv) auto

lemma value_read:
  assumes "proper_value v"
  shows "trim_right (takeWhile (\<lambda>c. c \<noteq> 13 \<and> c \<noteq> 10) (dropWhile (\<lambda>c. c = 9 \<or> c = 32) (v @ 13 # s))) = v"
proof -
  have "dropWhile (\<lambda>c. c = 9 \<or> c = 32) (v @ 13 # s) = v @ 13 # s" using assms by (cases v) (auto simp: proper_value_def)
  moreover have "takeWhile (\<lambda>c. c \<noteq> 13 \<and> c \<noteq> 10) (v @ 13 # s) = v" using assms by (auto simp: proper_value_def takeWhile_append takeWhile_eq_all_conv)
  moreover have "trim_right v = v" using assms by (cases v rule: rev_cases) (auto simp: proper_value_def trim_right_def)
  ultimately show ?thesis by simp
qed

lemma skip_value: "proper_value v \<Longrightarrow> skip_line (32 # v @ 13 # 10 # s) = s"
  by (auto simp: skip_line_def proper_value_def dropWhile_append)

text \<open>
  C36. Looking up a header: in the headers of a request, a list of names and values, \<open>get_http_header\<close> finds the value of the
  first header with the name, whatever the case of letters, cut to what fits into the buffer with a zero byte at the end, or
  returns -1.
\<close>

theorem get_http_header_correct:
  assumes "\<forall>(n, v)\<in>set hs. proper_name n \<and> proper_value v" "0 < b_len"
  shows "get_http_header (print_headers hs) b_len arg_name = lookup_result b_len arg_name hs \<and> length (snd (lookup_result b_len arg_name hs)) \<le> b_len"
proof -
  have "get_http_header (print_headers hs) b_len arg_name = lookup_result b_len arg_name hs"
    using assms(1)
  proof (induction hs)
    case Nil
    show ?case by (simp add: print_headers_def crlf_def get_http_header.simps [of "[13, 10]"] get_http_header.simps [of "[]"] skip_line_def lookup_result_def)
  next
    case (Cons h hs)
    obtain n v where h: "h = (n, v)" by (cases h)
    have nv: "proper_name n" "proper_value v" using Cons.prems h by auto
    let ?p = "n @ 58 # 32 # v @ 13 # 10 # print_headers hs"
    have p: "print_headers (h # hs) = ?p" by (simp add: h print_headers_def crlf_def)
    have "take (min (length v) k) v = take k v" for k by (simp add: min_def)
    then show ?case
      unfolding p using Cons nv
      by (subst get_http_header.simps) (auto simp: h name_takeWhile value_read skip_value lookup_result_def Let_def case_eq_def dest: map_eq_imp_length_eq)
  qed
  then show ?thesis using assms(2) by (auto simp: lookup_result_def split: option.split)
qed

theorem get_http_header_correct_witness:
  "get_http_header (print_headers [(text_bytes ''Host'', text_bytes ''a.b''), (text_bytes ''Origin'', text_bytes ''xyz'')]) 3 (text_bytes ''ORIGIN'') =
     (2, text_bytes ''xy'' @ [0])"
  using get_http_header_correct [of "[(text_bytes ''Host'', text_bytes ''a.b''), (text_bytes ''Origin'', text_bytes ''xyz'')]" 3 "text_bytes ''ORIGIN''"]
  by (simp add: text_bytes_def proper_name_def proper_value_def lookup_result_def case_eq_def to_lower_def)

end
