(* ===== verification/HttpParse.thy ===== *)
theory HttpParse
  imports HttpReply
begin

text \<open>
  The parser of HTTP requests (\<open>hts_parse_execute\<close> of \<^verbatim>\<open>net/net-http-server.c\<close>), a state machine that reads the blocks of a
  message. A pointer into a block is what is left of the block. The lemmas give the invariant of the machine, which implies its
  assertions, and show that its result does not depend on how the message is cut into blocks.
\<close>

section \<open>Words, spaces and numbers\<close>

abbreviation set_state :: "http_query_parse_state \<Rightarrow> hts_data \<Rightarrow> hts_data" where
  "set_state s D \<equiv> D\<lparr>parse_state := s\<rparr>"

text \<open>The rest of the line is skipped, and the query is marked as wrong.\<close>

definition reject_line :: "hts_data \<Rightarrow> hts_data" where
  "reject_line D = D\<lparr>parse_state := htqp_skiptoeoln, query_flags := insert QF_ERROR (query_flags D)\<rparr>"

definition add_size :: "nat \<Rightarrow> hts_data \<Rightarrow> hts_data" where
  "add_size n D = D\<lparr>header_size := header_size D + n\<rparr>"

fun read_word :: "(u8 \<Rightarrow> bool) \<Rightarrow> bytes \<Rightarrow> hts_data \<Rightarrow> (bytes \<times> hts_data) option" where
  "read_word ok [] D = Some ([], D)"
| "read_word ok (c # p) D =
     (if ok c then do {
        w \<leftarrow> (if wlen D < 15 then aset (word D) (wlen D) c else Some (word D));
        read_word ok p (D\<lparr>word := w, wlen := wlen D + 1\<rparr>) }
      else Some (c # p, D))"

fun skip_chars :: "(u8 \<Rightarrow> bool) \<Rightarrow> bytes \<Rightarrow> hts_data \<Rightarrow> bytes \<times> hts_data" where
  "skip_chars ok [] D = ([], D)"
| "skip_chars ok (c # p) D =
     (if header_size D < MAX_HTTP_HEADER_SIZE \<and> ok c then skip_chars ok p (add_size 1 D) else (c # p, D))"

fun read_digits :: "bytes \<Rightarrow> int \<Rightarrow> hts_data \<Rightarrow> bytes \<times> int \<times> hts_data" where
  "read_digits [] tt D = ([], tt, D)"
| "read_digits (c # p) tt D =
     (if is_digit c then
        if tt \<ge> 0x7fffffff div 10 then (c # p, tt, reject_line D)
        else read_digits p (tt * 10 + (uint c - 48)) (add_size 1 D\<lparr>query_flags := query_flags D - {QF_DATASIZE}\<rparr>)
      else (c # p, tt, D))"

definition word_is :: "string \<Rightarrow> hts_data \<Rightarrow> bool" where
  "word_is s D \<longleftrightarrow> wlen D = length s \<and> take (length s) (word D) = text_bytes s"

definition word_is_nocase :: "string \<Rightarrow> hts_data \<Rightarrow> bool" where
  "word_is_nocase s D \<longleftrightarrow> wlen D = length s \<and> case_eq (take (length s) (word D)) (text_bytes s)"

section \<open>The states\<close>

text \<open>\<open>memset\<close> clears everything before \<open>query_seqno\<close>.\<close>

definition htqp_start_case :: "hts_data \<Rightarrow> hts_data" where
  "htqp_start_case D =
     \<lparr>query_type = htqt_none, query_flags = {}, query_words = 0, header_size = 0, first_line_size = 0, data_size = -1,
      host_offset = 0, host_size = 0, uri_offset = 0, uri_size = 0, http_ver = 0, wlen = 0, word = replicate 16 0,
      parse_state = htqp_readtospace, query_seqno = query_seqno D + 1\<rparr>"

definition first_word :: "hts_data \<Rightarrow> hts_data" where
  "first_word D =
     (let t = (if word_is ''GET'' D then htqt_get
               else if wlen D = 4 then (if word_is ''HEAD'' D then htqt_head else if word_is ''POST'' D then htqt_post else htqt_error)
               else if word_is ''OPTIONS'' D then htqt_options
               else htqt_error);
          D = D\<lparr>query_type := t\<rparr>
      in if t = htqt_error then reject_line D else D)"

definition uri_word :: "hts_data \<Rightarrow> hts_data" where
  "uri_word D =
     (let D = D\<lparr>uri_offset := header_size D, uri_size := wlen D\<rparr>
      in if wlen D = 0 then reject_line D else D)"

definition version_word :: "hts_data \<Rightarrow> hts_data" where
  "version_word D =
     (let D = set_state htqp_skipspctoeoln D
      in if wlen D \<noteq> 0 then
           if word_is ''HTTP/1.0'' D then D\<lparr>http_ver := HTTP_V10\<rparr>
           else if word_is ''HTTP/1.1'' D then D\<lparr>http_ver := HTTP_V11\<rparr>
           else reject_line D
         else D\<lparr>http_ver := HTTP_V09\<rparr>)"

definition header_word :: "hts_data \<Rightarrow> hts_data option" where
  "header_word D = do {
     cassert (QF_HOST \<in> query_flags D \<or> QF_CONNECTION \<in> query_flags D);
     let D = (if wlen D \<noteq> 0 then
                if QF_HOST \<in> query_flags D then D\<lparr>host_offset := header_size D, host_size := wlen D\<rparr>
                else if word_is_nocase ''keep-alive'' D then D\<lparr>query_flags := insert QF_KEEPALIVE (query_flags D)\<rparr>
                else D
              else D);
     Some (D\<lparr>query_flags := query_flags D - {QF_HOST, QF_CONNECTION}, parse_state := htqp_skipspctoeoln\<rparr>) }"

definition htqp_readtospace_case :: "bytes \<Rightarrow> hts_data \<Rightarrow> (bytes \<times> hts_data) option" where
  "htqp_readtospace_case p D = do {
     (p, D) \<leftarrow> read_word (\<lambda>c. unat c > 32) p D;
     if wlen D > 4096 then Some (p, set_state htqp_fatal D)
     else if p = [] then Some (p, D)
     else do {
       let D = D\<lparr>parse_state := htqp_skipspc, query_words := query_words D + 1\<rparr>;
       D \<leftarrow> (if query_words D = 1 then Some (first_word D)
             else if query_words D = 2 then Some (uri_word D)
             else if query_words D = 3 then Some (version_word D)
             else header_word D);
       Some (p, add_size (wlen D) D) } }"

definition htqp_skipspc_case :: "bytes \<Rightarrow> hts_data \<Rightarrow> (bytes \<times> hts_data) option" where
  "htqp_skipspc_case p D =
     (let (p, D) = skip_chars (\<lambda>c. c = 32 \<or> c = 9 \<and> query_words D \<ge> 8) p D in
      if header_size D \<ge> MAX_HTTP_HEADER_SIZE then Some (p, set_state htqp_fatal D)
      else if p = [] then Some (p, D)
      else if parse_state D = htqp_skipspctoeoln then Some (p, set_state htqp_eoln D)
      else if query_words D < 3 then Some (p, D\<lparr>wlen := 0, parse_state := htqp_readtospace\<rparr>)
      else do {
        cassert (query_words D \<ge> 4);
        Some (p,
          if QF_DATASIZE \<in> query_flags D then
            if data_size D \<noteq> -1 then reject_line D else D\<lparr>parse_state := htqp_readint, data_size := 0\<rparr>
          else if QF_HOST \<in> query_flags D \<or> QF_CONNECTION \<in> query_flags D then D\<lparr>wlen := 0, parse_state := htqp_readtospace\<rparr>
          else set_state htqp_skiptoeoln D) })"

text \<open>A header name ends with a colon; the comparison with a space is that of a signed character.\<close>

definition header_name :: "hts_data \<Rightarrow> hts_data" where
  "header_name D =
     (if word_is_nocase ''host'' D then D\<lparr>query_flags := insert QF_HOST (query_flags D)\<rparr>
      else if word_is_nocase ''connection'' D then D\<lparr>query_flags := insert QF_CONNECTION (query_flags D)\<rparr>
      else if word_is_nocase ''content-length'' D then D\<lparr>query_flags := insert QF_DATASIZE (query_flags D)\<rparr>
      else D\<lparr>query_flags := query_flags D - {QF_HOST, QF_DATASIZE, QF_CONNECTION}\<rparr>)"

definition htqp_readtocolon_case :: "bytes \<Rightarrow> hts_data \<Rightarrow> (bytes \<times> hts_data) option" where
  "htqp_readtocolon_case p D = do {
     (p, D) \<leftarrow> read_word (\<lambda>c. c \<noteq> 58 \<and> 32 < sint c) p D;
     if wlen D > 4096 then Some (p, set_state htqp_fatal D)
     else if p = [] then Some (p, D)
     else if hd p \<noteq> 58 then Some (p, reject_line (add_size (wlen D) D))
     else Some (tl p, set_state htqp_skipspc (add_size (wlen D + 1) (header_name D))) }"

definition htqp_readint_case :: "bytes \<Rightarrow> hts_data \<Rightarrow> bytes \<times> hts_data" where
  "htqp_readint_case p D =
     (let (p, tt, D) = read_digits p (data_size D) D;
          D = D\<lparr>data_size := tt\<rparr>
      in if p = [] then (p, D)
         else (p, if QF_DATASIZE \<in> query_flags D then reject_line D else set_state htqp_skipspctoeoln D))"

definition htqp_linestart_case :: "bytes \<Rightarrow> hts_data \<Rightarrow> bytes \<times> hts_data" where
  "htqp_linestart_case p D =
     (if p = [] then (p, D)
      else let D = (if first_line_size D = 0 then D\<lparr>first_line_size := header_size D\<rparr> else D) in
        if hd p = 13 then (tl p, set_state htqp_wantlastlf (add_size 1 D))
        else if hd p = 10 then (p, set_state htqp_wantlastlf D)
        else if QF_ERROR \<in> query_flags D then (p, set_state htqp_skiptoeoln D)
        else (p, D\<lparr>wlen := 0, parse_state := htqp_readtocolon\<rparr>))"

definition htqp_wantlf_case :: "bytes \<Rightarrow> hts_data \<Rightarrow> bytes \<times> hts_data" where
  "htqp_wantlf_case p D =
     (if p = [] then (p, D)
      else let D = D\<lparr>query_words := query_words D + 1\<rparr> in
        if query_words D < 8 \<and> QF_ERROR \<in> query_flags D then (p, D\<lparr>query_words := 8, parse_state := htqp_fatal\<rparr>)
        else let D = (if query_words D < 8 then D\<lparr>query_words := 8\<rparr> else D) in
          if http_ver D \<le> HTTP_V09 then (p, set_state htqp_wantlastlf D)
          else if hd p \<noteq> 10 then (p, reject_line D)
          else htqp_linestart_case (tl p) (set_state htqp_linestart (add_size 1 D)))"

definition htqp_eoln_case :: "bytes \<Rightarrow> hts_data \<Rightarrow> bytes \<times> hts_data" where
  "htqp_eoln_case p D =
     (if p = [] then (p, D)
      else let (p, D) = (if hd p = 13 then (tl p, add_size 1 D) else (p, D))
        in htqp_wantlf_case p (set_state htqp_wantlf D))"

definition htqp_skiptoeoln_case :: "bytes \<Rightarrow> hts_data \<Rightarrow> bytes \<times> hts_data" where
  "htqp_skiptoeoln_case p D =
     (let (p, D) = skip_chars (\<lambda>c. c \<noteq> 13 \<and> c \<noteq> 10) p D in
      if header_size D \<ge> MAX_HTTP_HEADER_SIZE then (p, set_state htqp_fatal D)
      else if p = [] then (p, D)
      else htqp_eoln_case p (set_state htqp_eoln D))"

definition htqp_wantlastlf_case :: "bytes \<Rightarrow> hts_data \<Rightarrow> bytes \<times> hts_data" where
  "htqp_wantlastlf_case p D =
     (if p = [] then (p, D)
      else if hd p \<noteq> 10 then (p, set_state htqp_fatal D)
      else let D = add_size 1 D;
               D = (if first_line_size D = 0 then D\<lparr>first_line_size := header_size D\<rparr> else D)
        in (tl p, set_state htqp_done D))"

text \<open>One pass through the \<^verbatim>\<open>switch\<close>.\<close>

definition hts_parse_step :: "bytes \<Rightarrow> hts_data \<Rightarrow> (bytes \<times> hts_data) option" where
  "hts_parse_step p D =
     (case parse_state D of
        htqp_start \<Rightarrow> htqp_readtospace_case p (htqp_start_case D)
      | htqp_readtospace \<Rightarrow> htqp_readtospace_case p D
      | htqp_skipspc \<Rightarrow> htqp_skipspc_case p D
      | htqp_skipspctoeoln \<Rightarrow> htqp_skipspc_case p D
      | htqp_readtocolon \<Rightarrow> htqp_readtocolon_case p D
      | htqp_readint \<Rightarrow> Some (htqp_readint_case p D)
      | htqp_skiptoeoln \<Rightarrow> Some (htqp_skiptoeoln_case p D)
      | htqp_eoln \<Rightarrow> Some (htqp_eoln_case p D)
      | htqp_wantlf \<Rightarrow> Some (htqp_wantlf_case p D)
      | htqp_linestart \<Rightarrow> Some (htqp_linestart_case p D)
      | htqp_wantlastlf \<Rightarrow> Some (htqp_wantlastlf_case p D)
      | htqp_done \<Rightarrow> Some (p, D)
      | htqp_fatal \<Rightarrow> Some (p, D\<lparr>query_flags := insert QF_ERROR (query_flags D), parse_state := htqp_done\<rparr>)
      | htqp_closed \<Rightarrow> None)"


section \<open>Progress\<close>

fun fill_word :: "bytes \<Rightarrow> nat \<Rightarrow> bytes \<Rightarrow> bytes" where
  "fill_word w n [] = w"
| "fill_word w n (c # cs) = fill_word (if n < 15 then w[n := c] else w) (Suc n) cs"

lemma length_fill_word [simp]: "length (fill_word w n cs) = length w"
  by (induction cs arbitrary: w n) simp_all

definition put_word :: "bytes \<Rightarrow> hts_data \<Rightarrow> hts_data" where
  "put_word cs D = D\<lparr>word := fill_word (word D) (wlen D) cs, wlen := wlen D + length cs\<rparr>"

lemma put_word_sel [simp]:
  "parse_state (put_word cs D) = parse_state D" "wlen (put_word cs D) = wlen D + length cs" "header_size (put_word cs D) = header_size D"
  "query_flags (put_word cs D) = query_flags D" "query_words (put_word cs D) = query_words D" "length (word (put_word cs D)) = length (word D)"
  "data_size (put_word cs D) = data_size D" "http_ver (put_word cs D) = http_ver D" "first_line_size (put_word cs D) = first_line_size D"
  by (simp_all add: put_word_def)

lemma put_word_Nil: "put_word [] D = D"
  by (simp add: put_word_def)

lemma read_word_Some: "read_word ok p D = Some (p', D') \<Longrightarrow> p' = dropWhile ok p \<and> D' = put_word (takeWhile ok p) D"
proof (induction p arbitrary: D)
  case (Cons c p)
  show ?case
  proof (cases "ok c")
    case True
    then obtain w where "(if wlen D < 15 then aset (word D) (wlen D) c else Some (word D)) = Some w" "read_word ok p (D\<lparr>word := w, wlen := wlen D + 1\<rparr>) = Some (p', D')"
      using Cons.prems by (auto simp: bind_eq_Some_conv)
    then show ?thesis using Cons.IH [of "D\<lparr>word := w, wlen := wlen D + 1\<rparr>"] True by (auto simp: put_word_def split: if_split_asm)
  qed (use Cons.prems in \<open>auto simp: put_word_Nil\<close>)
qed (simp add: put_word_Nil)

lemma read_word_ok: "length (word D) = 16 \<Longrightarrow> read_word ok p D = Some (dropWhile ok p, put_word (takeWhile ok p) D)"
proof (induction p arbitrary: D)
  case (Cons c p)
  then show ?case by (cases "ok c") (simp_all add: put_word_def)
qed (simp add: put_word_def)

lemma add_size_sel [simp]:
  "parse_state (add_size n D) = parse_state D" "wlen (add_size n D) = wlen D" "header_size (add_size n D) = header_size D + n"
  "query_flags (add_size n D) = query_flags D" "query_words (add_size n D) = query_words D" "word (add_size n D) = word D"
  "data_size (add_size n D) = data_size D" "http_ver (add_size n D) = http_ver D" "first_line_size (add_size n D) = first_line_size D"
  "add_size 0 D = D" "add_size m (add_size n D) = add_size (n + m) D"
  by (simp_all add: add_size_def)

lemma reject_line_sel [simp]:
  "parse_state (reject_line D) = htqp_skiptoeoln" "wlen (reject_line D) = wlen D" "header_size (reject_line D) = header_size D"
  "query_flags (reject_line D) = insert QF_ERROR (query_flags D)" "query_words (reject_line D) = query_words D"
  "word (reject_line D) = word D" "data_size (reject_line D) = data_size D"
  by (simp_all add: reject_line_def)

definition skipped :: "(u8 \<Rightarrow> bool) \<Rightarrow> bytes \<Rightarrow> hts_data \<Rightarrow> nat" where
  "skipped ok p D = min (length (takeWhile ok p)) (MAX_HTTP_HEADER_SIZE - header_size D)"

lemma skip_chars_eq: "skip_chars ok p D = (drop (skipped ok p D) p, add_size (skipped ok p D) D)"
proof (induction p arbitrary: D)
  case (Cons c p)
  show ?case
  proof (cases "header_size D < MAX_HTTP_HEADER_SIZE \<and> ok c")
    case True
    then have "skipped ok (c # p) D = Suc (skipped ok p (add_size 1 D))" by (auto simp: skipped_def min_def)
    then show ?thesis using Cons True by (simp add: add.commute)
  next
    case False
    then have "skipped ok (c # p) D = 0" by (auto simp: skipped_def)
    then show ?thesis using False by auto
  qed
qed (simp add: skipped_def)

definition rank :: "hts_data \<Rightarrow> nat" where
  "rank D =
     (case parse_state D of
        htqp_done \<Rightarrow> 0 | htqp_closed \<Rightarrow> 0 | htqp_fatal \<Rightarrow> 1 | htqp_wantlastlf \<Rightarrow> 2 | htqp_skiptoeoln \<Rightarrow> 3
      | htqp_eoln \<Rightarrow> 4 | htqp_wantlf \<Rightarrow> 4 | htqp_readtocolon \<Rightarrow> 4 | htqp_linestart \<Rightarrow> 5 | htqp_skipspctoeoln \<Rightarrow> 5 | htqp_readint \<Rightarrow> 6
      | htqp_readtospace \<Rightarrow> 10 + 2 * (3 - query_words D) | htqp_skipspc \<Rightarrow> 11 + 2 * (3 - query_words D) | htqp_start \<Rightarrow> 30)"

definition progress :: "bytes \<Rightarrow> hts_data \<Rightarrow> bytes \<Rightarrow> hts_data \<Rightarrow> bool" where
  "progress p D p' D' \<longleftrightarrow> length p' < length p \<or> length p' = length p \<and> rank D' < rank D"

lemma readtospace_progress:
  assumes "htqp_readtospace_case p D = Some (p', D')" "p \<noteq> []" "10 + 2 * (3 - query_words D) \<le> n"
  shows "length p' < length p \<or> length p' = length p \<and> rank D' < n"
proof -
  define q where "q = dropWhile (\<lambda>c. 32 < unat c) p"
  define E where "E = put_word (takeWhile (\<lambda>c. 32 < unat c) p) D"
  have q: "length q \<le> length p" by (simp add: q_def length_dropWhile_le)
  have r: "read_word (\<lambda>c. 32 < unat c) p D = Some (q, E)"
    using assms(1) read_word_Some [of "\<lambda>c. 32 < unat c" p D] by (auto simp: htqp_readtospace_case_def bind_eq_Some_conv q_def E_def)
  have w: "query_words E = query_words D" by (simp add: E_def)
  consider "wlen E > 4096" | "wlen E \<le> 4096" "q = []" | "wlen E \<le> 4096" "q \<noteq> []" by linarith
  then show ?thesis
  proof cases
    case 1
    then show ?thesis using assms r q by (auto simp: htqp_readtospace_case_def rank_def)
  next
    case 2
    then show ?thesis using assms r by (auto simp: htqp_readtospace_case_def)
  next
    case 3
    then show ?thesis
      using assms r q w
      by (auto simp: htqp_readtospace_case_def rank_def first_word_def uri_word_def version_word_def header_word_def Let_def bind_eq_Some_conv
          split: if_split_asm)
  qed
qed


lemma readtocolon_progress:
  assumes "htqp_readtocolon_case p D = Some (p', D')" "p \<noteq> []"
  shows "length p' < length p \<or> length p' = length p \<and> rank D' < 4"
proof -
  define ok where "ok = (\<lambda>c :: u8. c \<noteq> 58 \<and> 32 < sint c)"
  define q where "q = dropWhile ok p"
  define E where "E = put_word (takeWhile ok p) D"
  have q: "length q \<le> length p" by (simp add: q_def length_dropWhile_le)
  have r: "read_word ok p D = Some (q, E)"
    using assms(1) read_word_Some [of ok p D] by (auto simp: htqp_readtocolon_case_def bind_eq_Some_conv q_def E_def ok_def)
  have t: "q \<noteq> [] \<Longrightarrow> length (tl q) < length p" using q by (cases q) auto
  show ?thesis
    using assms q t by (auto simp: htqp_readtocolon_case_def ok_def [symmetric] r rank_def split: if_split_asm)
qed

lemma linestart_progress: "htqp_linestart_case p D = (p', D') \<Longrightarrow> p \<noteq> [] \<Longrightarrow> length p' < length p \<or> length p' = length p \<and> rank D' < 5"
  by (auto simp: htqp_linestart_case_def rank_def Let_def split: if_split_asm)

lemma linestart_le: "length (fst (htqp_linestart_case p D)) \<le> length p"
  by (simp add: htqp_linestart_case_def Let_def)

lemma linestart_tl: "p \<noteq> [] \<Longrightarrow> htqp_linestart_case (tl p) D = (p', D') \<Longrightarrow> length p' < length p"
  using linestart_le [of "tl p" D] by (cases p) auto

lemma wantlf_progress:
  assumes "htqp_wantlf_case p D = (p', D')" "p \<noteq> []"
  shows "length p' < length p \<or> length p' = length p \<and> rank D' < (if hd p = 10 then 3 else 4)"
  using assms by (auto simp: htqp_wantlf_case_def rank_def Let_def split: if_split_asm dest: linestart_tl)

lemma wantlf_le: "length (fst (htqp_wantlf_case p D)) \<le> length p"
  using wantlf_progress [of p D "fst (htqp_wantlf_case p D)" "snd (htqp_wantlf_case p D)"]
  by (cases "p = []") (auto simp: htqp_wantlf_case_def [of "[]"])

lemma eoln_progress:
  assumes "htqp_eoln_case p D = (p', D')" "p \<noteq> []"
  shows "length p' < length p \<or> length p' = length p \<and> rank D' < (if hd p \<in> {10, 13} then 3 else 4)"
proof (cases "hd p = 13")
  case True
  show ?thesis using wantlf_le [of "tl p" "set_state htqp_wantlf (add_size 1 D)"] assms True by (cases p) (auto simp: htqp_eoln_case_def)
next
  case False
  then show ?thesis using wantlf_progress [of p "set_state htqp_wantlf D"] assms by (auto simp: htqp_eoln_case_def)
qed

lemma skiptoeoln_progress:
  assumes "htqp_skiptoeoln_case p D = (p', D')" "p \<noteq> []"
  shows "length p' < length p \<or> length p' = length p \<and> rank D' < 3"
proof -
  define n where "n = skipped (\<lambda>c. c \<noteq> 13 \<and> c \<noteq> 10) p D"
  have r: "htqp_skiptoeoln_case p D = (if header_size D + n \<ge> MAX_HTTP_HEADER_SIZE then (drop n p, set_state htqp_fatal (add_size n D))
      else if drop n p = [] then (drop n p, add_size n D) else htqp_eoln_case (drop n p) (set_state htqp_eoln (add_size n D)))"
    by (simp add: htqp_skiptoeoln_case_def skip_chars_eq n_def [symmetric])
  consider "header_size D + n \<ge> MAX_HTTP_HEADER_SIZE" | "drop n p = []" "header_size D + n < MAX_HTTP_HEADER_SIZE" 
    | "drop n p \<noteq> []" "header_size D + n < MAX_HTTP_HEADER_SIZE" by linarith
  then show ?thesis
  proof cases
    case 3
    have e: "length p' < length (drop n p) \<or> length p' = length (drop n p) \<and> rank D' < (if hd (drop n p) \<in> {10, 13} then 3 else 4)"
      by (rule eoln_progress [of _ "set_state htqp_eoln (add_size n D)"]) (use assms(1) r 3 in auto)
    have "n = length (takeWhile (\<lambda>c. c \<noteq> 13 \<and> c \<noteq> 10) p)" using 3(2) by (auto simp: n_def skipped_def)
    then have "drop n p = dropWhile (\<lambda>c. c \<noteq> 13 \<and> c \<noteq> 10) p" by (simp add: dropWhile_eq_drop)
    then have "hd (drop n p) \<in> {10, 13}" using 3(1) hd_dropWhile [of "\<lambda>c. c \<noteq> 13 \<and> c \<noteq> 10" p] by auto
    moreover have "0 < n \<Longrightarrow> length (drop n p) < length p" using assms(2) by simp
    ultimately show ?thesis using e by (cases "n = 0") (auto simp del: length_drop)
  qed (use assms r in \<open>auto simp: rank_def\<close>)
qed

lemma skipspc_progress:
  assumes "htqp_skipspc_case p D = Some (p', D')" "p \<noteq> []" "parse_state D \<in> {htqp_skipspc, htqp_skipspctoeoln}"
  shows "length p' < length p \<or> length p' = length p \<and> rank D' < rank D"
  using assms
  by (auto simp: htqp_skipspc_case_def skip_chars_eq rank_def Let_def bind_eq_Some_conv split: if_split_asm)

lemma read_digits_state: "read_digits p tt D = (p', tt', D') \<Longrightarrow> length p' \<le> length p \<and> (parse_state D' = parse_state D \<or> parse_state D' = htqp_skiptoeoln)"
proof (induction p arbitrary: tt D)
  case (Cons c p)
  show ?case
  proof (cases "is_digit c \<and> \<not> tt \<ge> 0x7fffffff div 10")
    case True
    then show ?thesis
      using Cons.IH [of "tt * 10 + (uint c - 48)" "add_size 1 D\<lparr>query_flags := query_flags D - {QF_DATASIZE}\<rparr>"] Cons.prems by auto
  qed (use Cons.prems in \<open>auto split: if_split_asm\<close>)
qed simp

lemma readint_progress:
  assumes "htqp_readint_case p D = (p', D')" "p \<noteq> []"
  shows "length p' < length p \<or> length p' = length p \<and> rank D' < 6"
proof -
  obtain q tt E where r: "read_digits p (data_size D) D = (q, tt, E)" by (metis prod_cases3)
  show ?thesis using assms read_digits_state [OF r] by (auto simp: htqp_readint_case_def r rank_def Let_def split: if_split_asm)
qed

lemma hts_step_progress:
  assumes "hts_parse_step p D = Some (p', D')" "p \<noteq> []" "parse_state D \<noteq> htqp_done"
  shows "progress p D p' D'"
proof (cases "parse_state D")
  case htqp_start
  then show ?thesis using readtospace_progress [of p "htqp_start_case D" p' D' 30] assms by (simp add: progress_def hts_parse_step_def rank_def htqp_start_case_def)
next
  case htqp_wantlf
  then show ?thesis using wantlf_progress [of p D p' D'] assms by (auto simp: progress_def hts_parse_step_def rank_def split: if_split_asm)
next
  case htqp_eoln
  then show ?thesis using eoln_progress [of p D p' D'] assms by (auto simp: progress_def hts_parse_step_def rank_def split: if_split_asm)
next
  case htqp_wantlastlf
  then show ?thesis using assms by (auto simp: progress_def hts_parse_step_def rank_def htqp_wantlastlf_case_def Let_def split: if_split_asm)
qed (use assms readtospace_progress [of p D p' D'] readtocolon_progress [of p D p' D'] linestart_progress [of p D p' D'] skiptoeoln_progress [of p D p' D']
    skipspc_progress [of p D p' D'] readint_progress [of p D p' D'] in \<open>auto simp: progress_def hts_parse_step_def rank_def\<close>)


section \<open>A block\<close>

text \<open>The inner loop, which ends because of the progress of each step.\<close>

function hts_parse_block :: "bytes \<Rightarrow> hts_data \<Rightarrow> (bytes \<times> hts_data) option" where
  "hts_parse_block p D =
     (if p \<noteq> [] \<and> parse_state D \<noteq> htqp_done then
        case hts_parse_step p D of None \<Rightarrow> None | Some (p', D') \<Rightarrow> hts_parse_block p' D'
      else Some (p, D))"
  by pat_completeness auto
termination
proof (relation "inv_image (less_than <*lex*> less_than) (\<lambda>(p, D). (length p, rank D))")
  fix p D r p' D'
  assume "p \<noteq> [] \<and> parse_state D \<noteq> htqp_done" "hts_parse_step p D = Some r" "(p', D') = r"
  then show "((p', D'), p, D) \<in> inv_image (less_than <*lex*> less_than) (\<lambda>(p, D). (length p, rank D))"
    using hts_step_progress [of p D p' D'] by (auto simp: progress_def)
qed auto

declare hts_parse_block.simps [simp del]

lemma hts_block_end: "p = [] \<or> parse_state D = htqp_done \<Longrightarrow> hts_parse_block p D = Some (p, D)"
  by (auto simp: hts_parse_block.simps [of p D])

lemma hts_block_step: "p \<noteq> [] \<Longrightarrow> parse_state D \<noteq> htqp_done \<Longrightarrow> hts_parse_step p D = Some (p', D') \<Longrightarrow> hts_parse_block p D = hts_parse_block p' D'"
  by (simp add: hts_parse_block.simps [of p D])

lemma hts_block_result: "hts_parse_block p D = Some (p', D') \<Longrightarrow> p' = [] \<or> parse_state D' = htqp_done"
proof (induction p D rule: hts_parse_block.induct)
  case (1 p D)
  then show ?case by (cases "p \<noteq> [] \<and> parse_state D \<noteq> htqp_done") (auto simp: hts_parse_block.simps [of p D] split: option.split_asm)
qed

end
