(* ===== verification/HttpBlocks.thy ===== *)
theory HttpBlocks
  imports HttpParse
begin

text \<open>
  The parser of \<open>HttpParse\<close> on a stream of blocks: its invariant, which implies its assertions and that the size of the header is
  the number of bytes read; and that what it finds in a message does not depend on how the message is cut into blocks.
\<close>

section \<open>The invariant of the parser\<close>

text \<open>\<open>n\<close> bytes have been read since the start of the query.\<close>

definition pending_word :: "hts_data \<Rightarrow> nat" where
  "pending_word D = (if parse_state D \<in> {htqp_readtospace, htqp_readtocolon} then wlen D else 0)"

definition size_ok :: "nat \<Rightarrow> hts_data \<Rightarrow> bool" where
  "size_ok n D \<longleftrightarrow>
     (if parse_state D = htqp_fatal \<or> parse_state D = htqp_done \<and> QF_ERROR \<in> query_flags D then header_size D \<le> n
      else header_size D + pending_word D = n \<and> (parse_state D = htqp_done \<longrightarrow> 0 < n))"

definition words_ok :: "hts_data \<Rightarrow> bool" where
  "words_ok D \<longleftrightarrow>
     (parse_state D = htqp_skipspc \<longrightarrow> query_words D < 3 \<or> 4 \<le> query_words D) \<and>
     (parse_state D = htqp_readtospace \<longrightarrow> query_words D < 3 \<or> QF_HOST \<in> query_flags D \<or> QF_CONNECTION \<in> query_flags D) \<and>
     (parse_state D \<in> {htqp_readtocolon, htqp_linestart} \<longrightarrow> 4 \<le> query_words D)"

definition hts_inv :: "nat \<Rightarrow> hts_data \<Rightarrow> bool" where
  "hts_inv n D \<longleftrightarrow> parse_state D \<noteq> htqp_closed \<and>
     (if parse_state D = htqp_start then n = 0 else length (word D) = 16 \<and> words_ok D \<and> size_ok n D)"

lemmas inv_defs = hts_inv_def words_ok_def size_ok_def pending_word_def

text \<open>What a step keeps.\<close>

definition steps_to :: "nat \<Rightarrow> bytes \<Rightarrow> (bytes \<times> hts_data) option \<Rightarrow> bool" where
  "steps_to n p r \<longleftrightarrow> (\<exists>p' D'. r = Some (p', D') \<and> length p' \<le> length p \<and> hts_inv (n + length p - length p') D' \<and> parse_state D' \<noteq> htqp_start)"

lemma steps_toI: "length p' \<le> length p \<Longrightarrow> hts_inv (n + length p - length p') D' \<Longrightarrow> parse_state D' \<noteq> htqp_start \<Longrightarrow> steps_to n p (Some (p', D'))"
  by (auto simp: steps_to_def)

lemma word_case_sel [simp]:
  "header_size (first_word D) = header_size D" "wlen (first_word D) = wlen D" "word (first_word D) = word D" "query_words (first_word D) = query_words D"
  "header_size (uri_word D) = header_size D" "wlen (uri_word D) = wlen D" "word (uri_word D) = word D" "query_words (uri_word D) = query_words D"
  "header_size (version_word D) = header_size D" "wlen (version_word D) = wlen D" "word (version_word D) = word D" "query_words (version_word D) = query_words D"
  by (simp_all add: first_word_def uri_word_def version_word_def Let_def)

lemma word_case_state:
  "parse_state D = htqp_skipspc \<Longrightarrow> parse_state (first_word D) \<in> {htqp_skipspc, htqp_skiptoeoln}"
  "parse_state D = htqp_skipspc \<Longrightarrow> parse_state (uri_word D) \<in> {htqp_skipspc, htqp_skiptoeoln}"
  "parse_state (version_word D) \<in> {htqp_skipspctoeoln, htqp_skiptoeoln}"
  by (auto simp: first_word_def uri_word_def version_word_def Let_def)

lemma header_word_ok:
  assumes "QF_HOST \<in> query_flags D \<or> QF_CONNECTION \<in> query_flags D"
  obtains D' where "header_word D = Some D'" "header_size D' = header_size D" "wlen D' = wlen D" "word D' = word D" "parse_state D' = htqp_skipspctoeoln"
  using assms by (simp add: header_word_def Let_def)


lemma readtospace_inv:
  assumes "parse_state D = htqp_readtospace" "hts_inv n D" "p \<noteq> []"
  shows "steps_to n p (htqp_readtospace_case p D)"
proof -
  define ok where "ok = (\<lambda>c :: u8. 32 < unat c)"
  define q where "q = dropWhile ok p"
  define E where "E = put_word (takeWhile ok p) D"
  have D: "length (word D) = 16" "header_size D + wlen D = n" "query_words D < 3 \<or> QF_HOST \<in> query_flags D \<or> QF_CONNECTION \<in> query_flags D"
    using assms(1,2) by (auto simp: inv_defs)
  have r: "read_word ok p D = Some (q, E)" using read_word_ok [OF D(1)] by (simp add: q_def E_def)
  have "length (takeWhile ok p) + length q = length p" unfolding q_def by (metis length_append takeWhile_dropWhile_id)
  then have q: "length q \<le> length p" "header_size E + wlen E = n + length p - length q" using D(2) by (simp_all add: E_def)
  have E: "length (word E) = 16" "query_words E = query_words D" "query_flags E = query_flags D" "parse_state E = htqp_readtospace"
    using D(1) assms(1) by (simp_all add: E_def)
  consider "wlen E > 4096" | "wlen E \<le> 4096" "q = []" | "wlen E \<le> 4096" "q \<noteq> []" by linarith
  then show ?thesis
  proof cases
    case 3
    define F where "F = E\<lparr>parse_state := htqp_skipspc, query_words := query_words E + 1\<rparr>"
    have F: "query_words F = query_words D + 1" "query_flags F = query_flags D" "wlen F = wlen E" "word F = word E" "header_size F = header_size E"
      "parse_state F = htqp_skipspc" by (simp_all add: F_def E)
    have s: "htqp_readtospace_case p D = do {
        D' \<leftarrow> (if query_words F = 1 then Some (first_word F) else if query_words F = 2 then Some (uri_word F)
              else if query_words F = 3 then Some (version_word F) else header_word F);
        Some (q, add_size (wlen D') D') }"
      using 3 by (simp add: htqp_readtospace_case_def ok_def [symmetric] r F_def)
    consider "query_words F = 1" | "query_words F = 2" | "query_words F = 3" | "query_words F \<ge> 4" using F(1) by linarith
    then show ?thesis
    proof cases
      case 4
      have "QF_HOST \<in> query_flags F \<or> QF_CONNECTION \<in> query_flags F" using 4 D(3) F(1,2) by auto
      then obtain G where "header_word F = Some G" "header_size G = header_size F" "wlen G = wlen F" "word G = word F" "parse_state G = htqp_skipspctoeoln"
        by (rule header_word_ok)
      then show ?thesis using 4 s q F E by (auto intro!: steps_toI simp: inv_defs)
    qed (use s q F E word_case_state [of F] in \<open>auto intro!: steps_toI simp: inv_defs\<close>)
  qed (use r q E D(3) in \<open>auto intro!: steps_toI simp: inv_defs htqp_readtospace_case_def ok_def [symmetric]\<close>)
qed

lemma readtocolon_inv:
  assumes "parse_state D = htqp_readtocolon" "hts_inv n D" "p \<noteq> []"
  shows "steps_to n p (htqp_readtocolon_case p D)"
proof -
  define ok where "ok = (\<lambda>c :: u8. c \<noteq> 58 \<and> 32 < sint c)"
  define q where "q = dropWhile ok p"
  define E where "E = put_word (takeWhile ok p) D"
  have D: "length (word D) = 16" "header_size D + wlen D = n" "4 \<le> query_words D" using assms(1,2) by (auto simp: inv_defs)
  have r: "read_word ok p D = Some (q, E)" using read_word_ok [OF D(1)] by (simp add: q_def E_def)
  have "length (takeWhile ok p) + length q = length p" unfolding q_def by (metis length_append takeWhile_dropWhile_id)
  then have q: "length q \<le> length p" "header_size E + wlen E = n + length p - length q" using D(2) by (simp_all add: E_def)
  have E: "length (word E) = 16" "query_words E = query_words D" "parse_state E = htqp_readtocolon" using D(1) assms(1) by (simp_all add: E_def)
  have h: "header_size (header_name E) = header_size E" "wlen (header_name E) = wlen E" "word (header_name E) = word E" "query_words (header_name E) = query_words E"
    by (simp_all add: header_name_def)
  have t: "q \<noteq> [] \<Longrightarrow> n + length p - length (tl q) = Suc (n + length p - length q)" using q(1) by (cases q) auto
  show ?thesis
    using q E D(3) h t by (auto intro!: steps_toI simp: htqp_readtocolon_case_def ok_def [symmetric] r inv_defs simp del: length_tl)
qed

lemma skipspc_inv:
  assumes "parse_state D \<in> {htqp_skipspc, htqp_skipspctoeoln}" "hts_inv n D" "p \<noteq> []"
  shows "steps_to n p (htqp_skipspc_case p D)"
proof -
  define k where "k = skipped (\<lambda>c. c = 32 \<or> c = 9 \<and> query_words D \<ge> 8) p D"
  have k: "k \<le> length p" using length_takeWhile_le [of "\<lambda>c. c = 32 \<or> c = 9 \<and> query_words D \<ge> 8" p] by (simp add: k_def skipped_def)
  define E where "E = add_size k D"
  have E: "parse_state E = htqp_skipspc \<Longrightarrow> query_words E < 3 \<or> 4 \<le> query_words E" "length (word E) = 16" "header_size E = n + length p - length (drop k p)"
    "parse_state E \<in> {htqp_skipspc, htqp_skipspctoeoln}"
    using assms(1,2) k by (auto simp: inv_defs E_def)
  have r: "skip_chars (\<lambda>c. c = 32 \<or> c = 9 \<and> query_words D \<ge> 8) p D = (drop k p, E)" by (simp add: skip_chars_eq k_def E_def)
  have l: "length (drop k p) \<le> length p" by simp
  consider "header_size E \<ge> MAX_HTTP_HEADER_SIZE" | "header_size E < MAX_HTTP_HEADER_SIZE" "drop k p = []"
    | "header_size E < MAX_HTTP_HEADER_SIZE" "drop k p \<noteq> []" "parse_state E = htqp_skipspctoeoln"
    | "header_size E < MAX_HTTP_HEADER_SIZE" "drop k p \<noteq> []" "parse_state E = htqp_skipspc" "query_words E < 3"
    | "header_size E < MAX_HTTP_HEADER_SIZE" "drop k p \<noteq> []" "parse_state E = htqp_skipspc" "4 \<le> query_words E"
    using E(1,4) by force
  then show ?thesis
    by cases (use E l in \<open>auto intro!: steps_toI simp: htqp_skipspc_case_def r inv_defs simp del: drop_eq_Nil length_drop\<close>)
qed


lemma linestart_inv:
  assumes "parse_state D = htqp_linestart" "hts_inv n D"
  shows "steps_to n p (Some (htqp_linestart_case p D))"
proof (cases p)
  case (Cons c q)
  then show ?thesis using assms by (auto intro!: steps_toI simp: htqp_linestart_case_def inv_defs Let_def split: prod.split)
qed (use assms in \<open>auto intro!: steps_toI simp: htqp_linestart_case_def\<close>)

lemma steps_to_Cons: "steps_to (Suc n) p r \<Longrightarrow> steps_to n (c # p) r"
  unfolding steps_to_def by (auto simp: le_SucI)

lemma wantlf_inv:
  assumes "parse_state D = htqp_wantlf" "hts_inv n D"
  shows "steps_to n p (Some (htqp_wantlf_case p D))"
proof (cases p)
  case (Cons c q)
  define E where "E = D\<lparr>query_words := query_words D + 1\<rparr>"
  define F where "F = (if query_words E < 8 then E\<lparr>query_words := 8\<rparr> else E)"
  have D: "length (word D) = 16" "header_size D = n" using assms by (auto simp: inv_defs)
  have F: "length (word F) = 16" "header_size F = n" "query_words F \<ge> 8" "parse_state F = htqp_wantlf" using D assms(1) by (auto simp: F_def E_def)
  have s: "htqp_wantlf_case p D =
      (if query_words E < 8 \<and> QF_ERROR \<in> query_flags E then (p, E\<lparr>query_words := 8, parse_state := htqp_fatal\<rparr>)
       else if http_ver F \<le> HTTP_V09 then (p, set_state htqp_wantlastlf F)
       else if c \<noteq> 10 then (p, reject_line F)
       else htqp_linestart_case q (set_state htqp_linestart (add_size 1 F)))"
    by (simp add: htqp_wantlf_case_def Cons E_def F_def Let_def)
  have "steps_to (Suc n) q (Some (htqp_linestart_case q (set_state htqp_linestart (add_size 1 F))))"
    by (rule linestart_inv) (use F in \<open>auto simp: inv_defs\<close>)
  then have "steps_to n p (Some (htqp_linestart_case q (set_state htqp_linestart (add_size 1 F))))" unfolding Cons by (rule steps_to_Cons)
  then show ?thesis unfolding s using F D by (auto intro!: steps_toI simp: inv_defs E_def)
qed (use assms in \<open>auto intro!: steps_toI simp: htqp_wantlf_case_def\<close>)

lemma eoln_inv:
  assumes "parse_state D = htqp_eoln" "hts_inv n D"
  shows "steps_to n p (Some (htqp_eoln_case p D))"
proof (cases p)
  case (Cons c q)
  show ?thesis
  proof (cases "c = 13")
    case True
    have "steps_to (Suc n) q (Some (htqp_wantlf_case q (set_state htqp_wantlf (add_size 1 D))))"
      by (rule wantlf_inv) (use assms in \<open>auto simp: inv_defs\<close>)
    then show ?thesis unfolding Cons using True by (auto simp: htqp_eoln_case_def intro: steps_to_Cons)
  next
    case False
    have "steps_to n p (Some (htqp_wantlf_case p (set_state htqp_wantlf D)))" by (rule wantlf_inv) (use assms in \<open>auto simp: inv_defs\<close>)
    then show ?thesis using False Cons by (simp add: htqp_eoln_case_def)
  qed
qed (use assms in \<open>auto intro!: steps_toI simp: htqp_eoln_case_def\<close>)

lemma steps_to_drop: "k \<le> length p \<Longrightarrow> steps_to (n + k) (drop k p) r \<Longrightarrow> steps_to n p r"
  unfolding steps_to_def by (auto simp: add.commute)

lemma skiptoeoln_inv:
  assumes "parse_state D = htqp_skiptoeoln" "hts_inv n D"
  shows "steps_to n p (Some (htqp_skiptoeoln_case p D))"
proof -
  define k where "k = skipped (\<lambda>c. c \<noteq> 13 \<and> c \<noteq> 10) p D"
  have k: "k \<le> length p" using length_takeWhile_le [of "\<lambda>c. c \<noteq> 13 \<and> c \<noteq> 10" p] by (simp add: k_def skipped_def)
  have D: "length (word D) = 16" "header_size D = n" using assms by (auto simp: inv_defs)
  have "steps_to (n + k) (drop k p) (Some (htqp_eoln_case (drop k p) (set_state htqp_eoln (add_size k D))))"
    by (rule eoln_inv) (use D in \<open>auto simp: inv_defs\<close>)
  then have "steps_to n p (Some (htqp_eoln_case (drop k p) (set_state htqp_eoln (add_size k D))))" using k by (rule steps_to_drop [rotated])
  then show ?thesis
    using D k assms(1) by (auto intro!: steps_toI simp: htqp_skiptoeoln_case_def skip_chars_eq k_def [symmetric] inv_defs)
qed

lemma read_digits_sizes:
  "read_digits p tt D = (p', tt', D') \<Longrightarrow> length p' \<le> length p \<and> header_size D' = header_size D + (length p - length p') \<and> word D' = word D"
proof (induction p arbitrary: tt D)
  case (Cons c p)
  show ?case
  proof (cases "is_digit c \<and> \<not> tt \<ge> 0x7fffffff div 10")
    case True
    then show ?thesis
      using Cons.IH [of "tt * 10 + (uint c - 48)" "add_size 1 D\<lparr>query_flags := query_flags D - {QF_DATASIZE}\<rparr>"] Cons.prems by auto
  qed (use Cons.prems in \<open>auto split: if_split_asm\<close>)
qed simp

lemma readint_inv:
  assumes "parse_state D = htqp_readint" "hts_inv n D" "p \<noteq> []"
  shows "steps_to n p (Some (htqp_readint_case p D))"
proof -
  obtain q tt E where r: "read_digits p (data_size D) D = (q, tt, E)" by (metis prod_cases3)
  have D: "length (word D) = 16" "header_size D = n" using assms(1,2) by (auto simp: inv_defs)
  have "length q \<le> length p" "header_size E = n + length p - length q" "length (word E) = 16" "parse_state E \<in> {htqp_readint, htqp_skiptoeoln}"
    using read_digits_sizes [OF r] read_digits_state [OF r] D assms(1) by auto
  then show ?thesis by (auto intro!: steps_toI simp: htqp_readint_case_def r Let_def inv_defs)
qed

lemma hts_step_inv:
  assumes "hts_inv n D" "p \<noteq> []" "parse_state D \<noteq> htqp_done"
  shows "steps_to n p (hts_parse_step p D)"
proof (cases "parse_state D")
  case htqp_start
  have "steps_to n p (htqp_readtospace_case p (htqp_start_case D))"
    by (rule readtospace_inv) (use assms htqp_start in \<open>auto simp: inv_defs htqp_start_case_def\<close>)
  then show ?thesis by (simp add: hts_parse_step_def htqp_start)
next
  case htqp_wantlastlf
  then show ?thesis using assms by (cases p) (auto intro!: steps_toI simp: hts_parse_step_def htqp_wantlastlf_case_def inv_defs Let_def)
next
  case htqp_fatal
  then show ?thesis using assms by (auto intro!: steps_toI simp: hts_parse_step_def inv_defs)
qed (use assms readtospace_inv [of D n p] readtocolon_inv [of D n p] skipspc_inv [of D n p] readint_inv [of D n p] skiptoeoln_inv [of D n p]
    eoln_inv [of D n p] wantlf_inv [of D n p] linestart_inv [of D n p] in \<open>auto simp: hts_parse_step_def hts_inv_def\<close>)

lemma hts_block_inv:
  assumes "hts_inv n D"
  shows "\<exists>p' D'. hts_parse_block p D = Some (p', D') \<and> length p' \<le> length p \<and> hts_inv (n + length p - length p') D' \<and> (p' = [] \<or> parse_state D' = htqp_done)"
  using assms
proof (induction p D arbitrary: n rule: hts_parse_block.induct)
  case (1 p D)
  show ?case
  proof (cases "p \<noteq> [] \<and> parse_state D \<noteq> htqp_done")
    case True
    obtain q E where s: "hts_parse_step p D = Some (q, E)" "length q \<le> length p" "hts_inv (n + length p - length q) E"
      using hts_step_inv [of n D p] True 1(2) by (auto simp: steps_to_def)
    obtain p' D' where b: "hts_parse_block q E = Some (p', D')" "length p' \<le> length q" "hts_inv (n + length p - length q + length q - length p') D'"
      "p' = [] \<or> parse_state D' = htqp_done"
      using 1(1) [OF True s(1) refl s(3)] by blast
    have "hts_parse_block p D = Some (p', D')" using True s(1) b(1) by (simp add: hts_parse_block.simps [of p D])
    moreover have "n + length p - length q + length q - length p' = n + length p - length p'" using s(2) by simp
    ultimately show ?thesis using b s(2) by auto
  qed (use 1(2) in \<open>auto simp: hts_parse_block.simps [of p D]\<close>)
qed

section \<open>Cutting a message\<close>

lemma fill_word_append: "fill_word w n (a @ b) = fill_word (fill_word w n a) (n + length a) b"
  by (induction a arbitrary: w n) simp_all

lemma put_word_append: "put_word (a @ b) D = put_word b (put_word a D)"
  by (simp add: put_word_def fill_word_append)

lemma skipped_append:
  "skipped ok p D < length p \<Longrightarrow> skipped ok (p @ q) D = skipped ok p D"
  "\<not> skipped ok p D < length p \<Longrightarrow> skipped ok (p @ q) D = length p + skipped ok q (add_size (length p) D)"
proof -
  show "skipped ok p D < length p \<Longrightarrow> skipped ok (p @ q) D = skipped ok p D"
  proof -
    assume a: "skipped ok p D < length p"
    show ?thesis
    proof (cases "length (takeWhile ok p) < length p")
      case True
      then have "takeWhile ok (p @ q) = takeWhile ok p" by (metis takeWhile_append1 takeWhile_eq_all_conv less_irrefl)
      then show ?thesis by (simp add: skipped_def)
    next
      case False
      then have t: "takeWhile ok p = p" using takeWhile_eq_take [of ok p] by simp
      then have e: "takeWhile ok (p @ q) = p @ takeWhile ok q" by (metis takeWhile_append2 takeWhile_eq_all_conv)
      show ?thesis using a unfolding skipped_def e t length_append by (auto simp: min_def split: if_split_asm)
    qed
  qed
  assume a: "\<not> skipped ok p D < length p"
  then have p: "length p \<le> length (takeWhile ok p)" "length p \<le> MAX_HTTP_HEADER_SIZE - header_size D" by (simp_all add: skipped_def)
  have "takeWhile ok p = p" using takeWhile_eq_take [of ok p] p(1) by simp
  then have e: "takeWhile ok (p @ q) = p @ takeWhile ok q" by (metis takeWhile_append2 takeWhile_eq_all_conv)
  show "skipped ok (p @ q) D = length p + skipped ok q (add_size (length p) D)"
    using p(2) unfolding skipped_def e length_append min_add_distrib_right by simp
qed

lemma read_digits_append:
  "read_digits p tt D = (p', tt', D') \<Longrightarrow> read_digits (p @ q) tt D = (if p' \<noteq> [] then (p' @ q, tt', D') else read_digits q tt' D')"
proof (induction p arbitrary: tt D)
  case (Cons c p)
  show ?case
  proof (cases "is_digit c \<and> \<not> tt \<ge> 0x7fffffff div 10")
    case True
    then show ?thesis
      using Cons.IH [of "tt * 10 + (uint c - 48)" "add_size 1 D\<lparr>query_flags := query_flags D - {QF_DATASIZE}\<rparr>"] Cons.prems by auto
  qed (use Cons.prems in \<open>auto split: if_split_asm\<close>)
qed simp

text \<open>What a step on a longer input does, if the step on its beginning leaves \<open>p'\<close>.\<close>

definition step_extends :: "bytes \<Rightarrow> bytes \<times> hts_data \<Rightarrow> (bytes \<times> hts_data) option \<Rightarrow> bool" where
  "step_extends q r r' \<longleftrightarrow> (case r of (p', D') \<Rightarrow>
     if p' \<noteq> [] then r' = Some (p' @ q, D')
     else if parse_state D' = htqp_fatal then \<exists>p2 D2. r' = Some (p2, D2) \<and> parse_state D2 = htqp_fatal
     else r' = Some (q, D') \<or> parse_state D' \<noteq> htqp_done \<and> r' = hts_parse_step q D')"

lemma linestart_append:
  assumes "parse_state D = htqp_linestart" "q \<noteq> []"
  shows "step_extends q (htqp_linestart_case p D) (Some (htqp_linestart_case (p @ q) D))"
proof (cases p)
  case Nil
  then show ?thesis using assms by (simp add: step_extends_def htqp_linestart_case_def [of "[]"] hts_parse_step_def)
next
  case (Cons c p)
  then show ?thesis by (auto simp: step_extends_def htqp_linestart_case_def Let_def)
qed

lemma wantlf_append:
  assumes "parse_state D = htqp_wantlf" "q \<noteq> []"
  shows "step_extends q (htqp_wantlf_case p D) (Some (htqp_wantlf_case (p @ q) D))"
proof (cases p)
  case Nil
  then show ?thesis using assms by (simp add: step_extends_def htqp_wantlf_case_def [of "[]"] hts_parse_step_def)
next
  case (Cons c p')
  define E where "E = (if query_words D + 1 < 8 then D\<lparr>query_words := 8\<rparr> else D\<lparr>query_words := query_words D + 1\<rparr>)"
  have "step_extends q (htqp_linestart_case p' (set_state htqp_linestart (add_size 1 E))) (Some (htqp_linestart_case (p' @ q) (set_state htqp_linestart (add_size 1 E))))"
    by (rule linestart_append) (use assms in auto)
  then show ?thesis unfolding Cons by (auto simp: htqp_wantlf_case_def Let_def E_def step_extends_def split: if_split_asm)
qed

lemma eoln_append:
  assumes "parse_state D = htqp_eoln" "q \<noteq> []"
  shows "step_extends q (htqp_eoln_case p D) (Some (htqp_eoln_case (p @ q) D))"
proof (cases p)
  case Nil
  then show ?thesis using assms by (simp add: step_extends_def htqp_eoln_case_def [of "[]"] hts_parse_step_def)
next
  case (Cons c p')
  show ?thesis
    using wantlf_append [OF _ assms(2), of "set_state htqp_wantlf (add_size 1 D)" p'] wantlf_append [OF _ assms(2), of "set_state htqp_wantlf D" p]
    by (auto simp: htqp_eoln_case_def Cons)
qed


lemma skiptoeoln_append:
  assumes "parse_state D = htqp_skiptoeoln" "p \<noteq> []" "q \<noteq> []"
  shows "step_extends q (htqp_skiptoeoln_case p D) (Some (htqp_skiptoeoln_case (p @ q) D))"
proof -
  define ok where "ok = (\<lambda>c :: u8. c \<noteq> 13 \<and> c \<noteq> 10)"
  define k where "k = skipped ok p D"
  define E where "E = add_size k D"
  have r: "htqp_skiptoeoln_case x D = (let n = skipped ok x D; F = add_size n D in
      if header_size F \<ge> MAX_HTTP_HEADER_SIZE then (drop n x, set_state htqp_fatal F)
      else if drop n x = [] then (drop n x, F) else htqp_eoln_case (drop n x) (set_state htqp_eoln F))" for x
    by (simp add: htqp_skiptoeoln_case_def skip_chars_eq ok_def Let_def)
  show ?thesis
  proof (cases "k < length p")
    case True
    then have "skipped ok (p @ q) D = k" using skipped_append(1) by (simp add: k_def)
    then show ?thesis
      using True eoln_append [of "set_state htqp_eoln E" q "drop k p"] assms(3) by (auto simp: r k_def [symmetric] E_def Let_def step_extends_def)
  next
    case False
    then have k: "k = length p" using length_takeWhile_le [of ok p] by (simp add: k_def skipped_def)
    have a: "skipped ok (p @ q) D = k + skipped ok q E" using skipped_append(2) [of ok p D q] k by (simp add: k_def [symmetric] E_def)
    show ?thesis
    proof (cases "header_size E \<ge> MAX_HTTP_HEADER_SIZE")
      case True
      then have "skipped ok q E = 0" by (simp add: skipped_def)
      then show ?thesis using True a k by (simp add: r k_def [symmetric] E_def step_extends_def Let_def)
    next
      case False
      have "htqp_skiptoeoln_case (p @ q) D = htqp_skiptoeoln_case q E"
        using a k by (simp add: r Let_def E_def) (simp add: htqp_skiptoeoln_case_def skip_chars_eq ok_def E_def)
      then show ?thesis
        using False k assms(1) by (simp add: r [of p] k_def [symmetric] E_def [symmetric] step_extends_def Let_def hts_parse_step_def) (simp add: E_def)
    qed
  qed
qed

lemma skipspc_append:
  assumes "parse_state D \<in> {htqp_skipspc, htqp_skipspctoeoln}" "htqp_skipspc_case p D = Some r" "p \<noteq> []" "q \<noteq> []"
  shows "step_extends q r (htqp_skipspc_case (p @ q) D)"
proof -
  define ok where "ok = (\<lambda>c :: u8. c = 32 \<or> c = 9 \<and> query_words D \<ge> 8)"
  define k where "k = skipped ok p D"
  define E where "E = add_size k D"
  have s: "skip_chars ok x D = (drop (skipped ok x D) x, add_size (skipped ok x D) D)" for x by (rule skip_chars_eq)
  have E: "query_words E = query_words D" "parse_state E = parse_state D" by (simp_all add: E_def)
  show ?thesis
  proof (cases "k < length p")
    case True
    then have "skipped ok (p @ q) D = k" using skipped_append(1) by (simp add: k_def)
    then have e: "skip_chars ok (p @ q) D = (drop k p @ q, E)" "skip_chars ok p D = (drop k p, E)" and n: "drop k p \<noteq> []"
      using True by (simp_all add: s k_def [symmetric] E_def)
    define x where "x = drop k p"
    note u = htqp_skipspc_case_def ok_def [symmetric] e x_def [symmetric] prod.case Let_def step_extends_def
    consider "header_size E \<ge> MAX_HTTP_HEADER_SIZE" | "header_size E < MAX_HTTP_HEADER_SIZE" "parse_state E = htqp_skipspctoeoln"
      | "header_size E < MAX_HTTP_HEADER_SIZE" "parse_state E \<noteq> htqp_skipspctoeoln" "query_words E < 3"
      | "header_size E < MAX_HTTP_HEADER_SIZE" "parse_state E \<noteq> htqp_skipspctoeoln" "query_words E \<ge> 3" by linarith
    then show ?thesis
      by cases (use assms(2) n in \<open>auto simp: u bind_eq_Some_conv cassert_bind split: if_split_asm\<close>)
  next
    case False
    then have k: "k = length p" using length_takeWhile_le [of ok p] by (simp add: k_def skipped_def)
    have a: "skipped ok (p @ q) D = k + skipped ok q E" using skipped_append(2) [of ok p D q] k by (simp add: k_def [symmetric] E_def)
    have p: "skip_chars ok p D = ([], E)" by (simp add: s k_def [symmetric] k [symmetric] E_def)
    have pq: "skip_chars ok (p @ q) D = skip_chars ok q E" using a k by (simp add: s) (simp add: skip_chars_eq E_def)
    show ?thesis
    proof (cases "header_size E \<ge> MAX_HTTP_HEADER_SIZE")
      case True
      then have "skipped ok q E = 0" by (simp add: skipped_def)
      then have "skip_chars ok q E = (q, E)" by (simp add: skip_chars_eq)
      then show ?thesis using True assms(2) p pq by (auto simp: htqp_skipspc_case_def ok_def [symmetric] step_extends_def)
    next
      case False
      have "r = ([], E)" using False assms(2) p by (simp add: htqp_skipspc_case_def ok_def [symmetric])
      moreover have "htqp_skipspc_case (p @ q) D = htqp_skipspc_case q E" by (simp add: htqp_skipspc_case_def ok_def [symmetric] pq E(1))
      ultimately show ?thesis using assms(1) E by (auto simp: step_extends_def hts_parse_step_def)
    qed
  qed
qed

lemma readint_append:
  assumes "parse_state D = htqp_readint" "p \<noteq> []" "q \<noteq> []"
  shows "step_extends q (htqp_readint_case p D) (Some (htqp_readint_case (p @ q) D))"
proof -
  obtain p' tt E where r: "read_digits p (data_size D) D = (p', tt, E)" by (metis prod_cases3)
  have e: "read_digits (p @ q) (data_size D) D = (if p' \<noteq> [] then (p' @ q, tt, E) else read_digits q tt E)" by (rule read_digits_append [OF r])
  show ?thesis
  proof (cases "p' = []")
    case True
    have c: "(add_size n (F\<lparr>data_size := u\<rparr>))\<lparr>query_flags := f\<rparr> = (add_size n F\<lparr>query_flags := f\<rparr>)\<lparr>data_size := u\<rparr>"
      "reject_line (F\<lparr>data_size := u\<rparr>) = reject_line F\<lparr>data_size := u\<rparr>" for F :: hts_data and u f n
      by (simp_all add: add_size_def reject_line_def)
    have s: "read_digits x t (F\<lparr>data_size := u\<rparr>) = (let (a, b, c) = read_digits x t F in (a, b, c\<lparr>data_size := u\<rparr>))" for x t F u
      by (induction x arbitrary: t F) (simp_all add: c Let_def)
    have "parse_state E = htqp_readint" if "read_digits x t F = ([], tt, E)" "parse_state F = htqp_readint" for x t F
      using that by (induction x arbitrary: t F) (auto simp: add_size_def split: if_split_asm)
    then have "parse_state E = htqp_readint" using r True assms(1) by blast
    then show ?thesis
      using True by (cases "read_digits q tt E") (auto simp: htqp_readint_case_def r e step_extends_def hts_parse_step_def s Let_def)
  next
    case False
    then show ?thesis by (auto simp: htqp_readint_case_def r e step_extends_def Let_def)
  qed
qed


lemma readtospace_append:
  assumes "parse_state D = htqp_readtospace" "length (word D) = 16" "htqp_readtospace_case p D = Some r" "q \<noteq> []"
  shows "step_extends q r (htqp_readtospace_case (p @ q) D)"
proof -
  define ok where "ok = (\<lambda>c :: u8. 32 < unat c)"
  define E where "E = put_word (takeWhile ok p) D"
  have w: "read_word ok x F = Some (dropWhile ok x, put_word (takeWhile ok x) F)" if "length (word F) = 16" for x F using read_word_ok [OF that] .
  show ?thesis
  proof (cases "dropWhile ok p = []")
    case False
    then have d: "dropWhile ok (p @ q) = dropWhile ok p @ q" "takeWhile ok (p @ q) = takeWhile ok p"
      by (auto simp: dropWhile_eq_Nil_conv dropWhile_append takeWhile_append)
    show ?thesis
      using assms(3) False by (auto simp: htqp_readtospace_case_def ok_def [symmetric] w [OF assms(2)] d step_extends_def bind_eq_Some_conv Let_def split: if_split_asm)
  next
    case True
    then have a: "takeWhile ok p = p" "\<forall>c\<in>set p. ok c" by (auto simp: takeWhile_eq_all_conv)
    have d: "dropWhile ok (p @ q) = dropWhile ok q" "takeWhile ok (p @ q) = p @ takeWhile ok q" using a(2) by (simp_all add: dropWhile_append takeWhile_append)
    have E: "E = put_word p D" "length (word E) = 16" "parse_state E = htqp_readtospace" using assms(1,2) by (simp_all add: E_def a(1))
    have "read_word ok (p @ q) D = read_word ok q E" using w [OF assms(2), of "p @ q"] w [OF E(2), of q] by (simp only: d put_word_append E(1))
    then have c: "htqp_readtospace_case (p @ q) D = htqp_readtospace_case q E" by (simp only: htqp_readtospace_case_def ok_def [symmetric])
    show ?thesis
    proof (cases "wlen E > 4096")
      case True
      then have "r = ([], set_state htqp_fatal E)"
        using assms(3) \<open>dropWhile ok p = []\<close> by (simp add: htqp_readtospace_case_def ok_def [symmetric] w [OF assms(2)] E_def)
      moreover have "htqp_readtospace_case q E = Some (dropWhile ok q, set_state htqp_fatal (put_word (takeWhile ok q) E))"
        using True by (simp add: htqp_readtospace_case_def ok_def [symmetric] w [OF E(2)])
      ultimately show ?thesis using c by (simp add: step_extends_def)
    next
      case False
      then have "r = ([], E)" using assms(3) \<open>dropWhile ok p = []\<close> by (simp add: htqp_readtospace_case_def ok_def [symmetric] w [OF assms(2)] E_def)
      then show ?thesis using c E(3) by (simp add: step_extends_def hts_parse_step_def)
    qed
  qed
qed

lemma readtocolon_append:
  assumes "parse_state D = htqp_readtocolon" "length (word D) = 16" "htqp_readtocolon_case p D = Some r" "q \<noteq> []"
  shows "step_extends q r (htqp_readtocolon_case (p @ q) D)"
proof -
  define ok where "ok = (\<lambda>c :: u8. c \<noteq> 58 \<and> 32 < sint c)"
  define E where "E = put_word (takeWhile ok p) D"
  have w: "read_word ok x F = Some (dropWhile ok x, put_word (takeWhile ok x) F)" if "length (word F) = 16" for x F using read_word_ok [OF that] .
  show ?thesis
  proof (cases "dropWhile ok p = []")
    case False
    then have d: "dropWhile ok (p @ q) = dropWhile ok p @ q" "takeWhile ok (p @ q) = takeWhile ok p"
      by (auto simp: dropWhile_eq_Nil_conv dropWhile_append takeWhile_append)
    show ?thesis
      using assms(3) False by (auto simp: htqp_readtocolon_case_def ok_def [symmetric] w [OF assms(2)] d step_extends_def split: if_split_asm)
  next
    case True
    then have a: "takeWhile ok p = p" "\<forall>c\<in>set p. ok c" by (auto simp: takeWhile_eq_all_conv)
    have d: "dropWhile ok (p @ q) = dropWhile ok q" "takeWhile ok (p @ q) = p @ takeWhile ok q" using a(2) by (simp_all add: dropWhile_append takeWhile_append)
    have E: "E = put_word p D" "length (word E) = 16" "parse_state E = htqp_readtocolon" using assms(1,2) by (simp_all add: E_def a(1))
    have "read_word ok (p @ q) D = read_word ok q E" using w [OF assms(2), of "p @ q"] w [OF E(2), of q] by (simp only: d put_word_append E(1))
    then have c: "htqp_readtocolon_case (p @ q) D = htqp_readtocolon_case q E" by (simp only: htqp_readtocolon_case_def ok_def [symmetric])
    show ?thesis
    proof (cases "wlen E > 4096")
      case True
      then have "r = ([], set_state htqp_fatal E)"
        using assms(3) \<open>dropWhile ok p = []\<close> by (simp add: htqp_readtocolon_case_def ok_def [symmetric] w [OF assms(2)] E_def)
      moreover have "htqp_readtocolon_case q E = Some (dropWhile ok q, set_state htqp_fatal (put_word (takeWhile ok q) E))"
        using True by (simp add: htqp_readtocolon_case_def ok_def [symmetric] w [OF E(2)])
      ultimately show ?thesis using c by (simp add: step_extends_def)
    next
      case False
      then have "r = ([], E)" using assms(3) \<open>dropWhile ok p = []\<close> by (simp add: htqp_readtocolon_case_def ok_def [symmetric] w [OF assms(2)] E_def)
      then show ?thesis using c E(3) by (simp add: step_extends_def hts_parse_step_def)
    qed
  qed
qed

lemma step_append:
  assumes "hts_inv n D" "p \<noteq> []" "q \<noteq> []" "parse_state D \<noteq> htqp_done" "hts_parse_step p D = Some r"
  shows "step_extends q r (hts_parse_step (p @ q) D)"
proof (cases "parse_state D")
  case htqp_start
  have "step_extends q r (htqp_readtospace_case (p @ q) (htqp_start_case D))"
    by (rule readtospace_append) (use assms htqp_start in \<open>auto simp: hts_parse_step_def htqp_start_case_def\<close>)
  then show ?thesis by (simp add: hts_parse_step_def htqp_start)
next
  case htqp_wantlastlf
  then show ?thesis using assms by (cases p) (auto simp: hts_parse_step_def htqp_wantlastlf_case_def step_extends_def Let_def)
next
  case htqp_fatal
  then show ?thesis using assms by (auto simp: hts_parse_step_def step_extends_def)
qed (use assms readtospace_append [of D p r q] readtocolon_append [of D p r q] skipspc_append [of D p r q] readint_append [of D p q]
    skiptoeoln_append [of D p q] eoln_append [of D q p] wantlf_append [of D q p] linestart_append [of D q p] in \<open>auto simp: hts_parse_step_def hts_inv_def\<close>)


lemma fatal_block: "parse_state D = htqp_fatal \<Longrightarrow> \<exists>p' D'. hts_parse_block p D = Some (p', D') \<and> (parse_state D' = htqp_fatal \<or> parse_state D' = htqp_done \<and> QF_ERROR \<in> query_flags D')"
  by (cases "p = []") (auto simp: hts_block_end hts_block_step [of p D p "D\<lparr>query_flags := insert QF_ERROR (query_flags D), parse_state := htqp_done\<rparr>"] hts_parse_step_def)

lemma block_append:
  assumes "hts_inv n D" "hts_parse_block p D = Some (p', D')"
  shows "(parse_state D' = htqp_done \<longrightarrow> hts_parse_block (p @ q) D = Some (p' @ q, D')) \<and>
    (parse_state D' \<notin> {htqp_done, htqp_fatal} \<longrightarrow> hts_parse_block (p @ q) D = hts_parse_block q D') \<and>
    (parse_state D' = htqp_fatal \<longrightarrow> (\<exists>p2 D2. hts_parse_block (p @ q) D = Some (p2, D2) \<and> (parse_state D2 = htqp_fatal \<or> parse_state D2 = htqp_done \<and> QF_ERROR \<in> query_flags D2)))"
  using assms
proof (induction p D arbitrary: n rule: hts_parse_block.induct)
  case (1 p D)
  show ?case
  proof (cases "p \<noteq> [] \<and> parse_state D \<noteq> htqp_done \<and> q \<noteq> []")
    case False
    have "parse_state D' = htqp_done \<or> p' = []" using hts_block_result [OF 1(3)] by blast
    then show ?thesis using False 1(3) fatal_block [of D q] by (auto simp: hts_block_end)
  next
    case True
    obtain p1 E where s: "hts_parse_step p D = Some (p1, E)" "hts_inv (n + length p - length p1) E"
      using hts_step_inv [OF 1(2), of p] True by (auto simp: steps_to_def)
    have b: "hts_parse_block p1 E = Some (p', D')" using 1(3) True s(1) by (simp add: hts_block_step)
    have e: "step_extends q (p1, E) (hts_parse_step (p @ q) D)" by (rule step_append [OF 1(2)]) (use True s(1) in auto)
    have n: "p @ q \<noteq> []" "parse_state D \<noteq> htqp_done" using True by auto
    show ?thesis
    proof (cases "p1 = []")
      case False
      then have "hts_parse_block (p @ q) D = hts_parse_block (p1 @ q) E" using e n by (simp add: step_extends_def hts_block_step)
      then show ?thesis using 1(1) [OF _ s(1) refl s(2) b] True by simp
    next
      case p1: True
      then have E: "p' = []" "D' = E" using b by (simp_all add: hts_block_end)
      consider "parse_state E = htqp_fatal" | "parse_state E \<noteq> htqp_fatal" "hts_parse_step (p @ q) D = Some (q, E)"
        | "parse_state E \<notin> {htqp_fatal, htqp_done}" "hts_parse_step (p @ q) D = hts_parse_step q E"
        using e p1 by (auto simp: step_extends_def split: if_split_asm)
      then show ?thesis
      proof cases
        case 1
        then obtain p2 D2 where "hts_parse_step (p @ q) D = Some (p2, D2)" "parse_state D2 = htqp_fatal" using e p1 by (auto simp: step_extends_def)
        then show ?thesis using 1 E n fatal_block [of D2 p2] by (simp add: hts_block_step)
      next
        case 2
        then show ?thesis using E n by (simp add: hts_block_step hts_block_end)
      next
        case 3
        have "hts_parse_block (p @ q) D = hts_parse_block q E"
          using 3 n True by (simp add: hts_parse_block.simps [of "p @ q" D] hts_parse_block.simps [of q E])
        then show ?thesis using 3 E by simp
      qed
    qed
  qed
qed

end
