(* ===== verification/HttpServer.thy ===== *)
theory HttpServer
  imports HttpBlocks
begin

text \<open>
  Handling of requests (\<open>hts_parse_execute\<close> of \<^verbatim>\<open>net/net-http-server.c\<close>): the loop over requests, with the handlers of the server.
\<close>

section \<open>The loop over requests\<close>

text \<open>
  The part of a connection that the server reads and changes: the status, the flags \<^verbatim>\<open>C_ERROR\<close>, \<^verbatim>\<open>C_STOPPARSE\<close> and
  \<^verbatim>\<open>C_STOPREAD\<close>, the blocks of the input, none of which is empty, and the messages put into the output queue.
\<close>

datatype hts_status = conn_working | conn_error | conn_write_close

record hts_conn =
  hc_conn :: rpc_conn
  hc_status :: hts_status
  hc_error :: bool
  hc_stopparse :: bool
  hc_stopread :: bool
  hc_pending_queries :: int
  hc_remote_ip :: u32
  hc_used_bytes :: int
  hc_in :: "bytes list"
  hc_out :: "bytes list"

text \<open>A handler gets the message and the type of the query.\<close>

type_synonym hts_answer = "int \<times> hts_data \<times> hts_conn \<times> hts_globals"
type_synonym hts_handler = "bytes \<Rightarrow> hts_query_type \<Rightarrow> hts_data \<Rightarrow> hts_conn \<Rightarrow> hts_globals \<Rightarrow> hts_answer option"

definition hts_total :: "bytes list \<Rightarrow> nat" where
  "hts_total bs = length (concat bs)"

text \<open>\<open>rwm_skip_data\<close> on blocks; \<open>hts_skip\<close> with the assertion that there are as many bytes.\<close>

fun skip_data :: "nat \<Rightarrow> bytes list \<Rightarrow> bytes list" where
  "skip_data n [] = []"
| "skip_data n (b # bs) = (if length b \<le> n then skip_data (n - length b) bs else drop n b # bs)"

definition hts_skip :: "nat \<Rightarrow> hts_conn \<Rightarrow> hts_conn option" where
  "hts_skip n C = do {
     cassert (n \<le> hts_total (hc_in C));
     Some (C\<lparr>hc_in := skip_data n (hc_in C)\<rparr>) }"

definition connection_write_close :: "hts_conn \<Rightarrow> hts_conn" where
  "connection_write_close C = (if hc_status C = conn_working then C\<lparr>hc_stopread := True, hc_status := conn_write_close\<rparr> else C)"

definition hts_fail_connection :: "hts_conn \<Rightarrow> hts_conn" where
  "hts_fail_connection C = (if \<not> hc_error C then C\<lparr>hc_error := True, hc_status := conn_error\<rparr> else C)"

definition write_http_error :: "int \<Rightarrow> int \<Rightarrow> hts_data \<Rightarrow> hts_conn \<Rightarrow> hts_globals \<Rightarrow> (hts_data \<times> hts_conn \<times> hts_globals) option" where
  "write_http_error now code D C G = do {
     (raw, D, G) \<leftarrow> write_http_error_raw now code D G;
     Some (D, C\<lparr>hc_out := hc_out C @ [raw]\<rparr>, G) }"

text \<open>\<open>rwm_trunc\<close> on the bytes of a message, with the assertion of \<open>rwm_fetch_data_back\<close>.\<close>

definition trunc_msg :: "int \<Rightarrow> bytes \<Rightarrow> bytes option" where
  "trunc_msg len msg =
     (let total = int (length msg) in
      if len \<ge> total then Some msg
      else do {
        let bytes = int32 (total - len);
        let bytes = (if bytes > total then total else bytes);
        cassert (bytes \<ge> 0);
        Some (take (length msg - nat bytes) msg) })"

text \<open>The call of the handler. The sum of the sizes is an \<^verbatim>\<open>int\<close>.\<close>

definition hts_query :: "hts_handler \<Rightarrow> hts_data \<Rightarrow> hts_conn \<Rightarrow> hts_globals \<Rightarrow> hts_answer option" where
  "hts_query execute D C G =
     (if query_type D = htqt_post \<and> data_size D < 0 then Some (-411, D, C, G)
      else if query_type D \<noteq> htqt_post \<and> data_size D > 0 then Some (-413, D, C, G)
      else do {
        let bytes = (if query_type D = htqt_post then int32 (int (header_size D) + data_size D) else int (header_size D));
        r \<leftarrow> (if bytes < int (hts_total (hc_in C)) then trunc_msg bytes (concat (hc_in C)) else Some (concat (hc_in C)));
        execute r (query_type D) D C G })"

text \<open>What follows a request that was parsed: the function returns, or goes on.\<close>

definition hts_answered :: "int \<Rightarrow> int \<Rightarrow> hts_data \<Rightarrow> hts_conn \<Rightarrow> hts_globals \<Rightarrow> (hts_answer + hts_data \<times> hts_conn \<times> hts_globals) option" where
  "hts_answered now res D C G = do {
     let G = G\<lparr>http_queries := http_queries G + 1, http_queries_size := http_queries_size G + int32 (int (header_size D) + data_size D)\<rparr>;
     if res > 0 then Some (Inl (res, D, C, G))
     else do {
       C \<leftarrow> hts_skip (header_size D) C;
       if res = SKIP_ALL_BYTES \<or> res = 0 then
         if data_size D > 0 then do {
           let x = int (hts_total (hc_in C));
           let y = (if x > data_size D then data_size D else x);
           C \<leftarrow> hts_skip (nat y) C;
           Some (if y < x then Inl (y - x, set_state htqp_start D, C, G) else Inr (D, C, G)) }
         else Some (Inr (D, C, G))
       else do {
         let D = (if res = -413 then D\<lparr>query_flags := query_flags D - {QF_KEEPALIVE}\<rparr> else D);
         (D, C, G) \<leftarrow> write_http_error now (- res) D C G;
         Some (Inr (D\<lparr>query_flags := query_flags D - {QF_ERROR}\<rparr>, C, G)) } } }"

definition hts_finish :: "int \<Rightarrow> hts_data \<Rightarrow> hts_conn \<Rightarrow> hts_globals \<Rightarrow> (hts_answer + hts_data \<times> hts_conn \<times> hts_globals) option" where
  "hts_finish now D C G = do {
     (D, C, G) \<leftarrow> (if QF_ERROR \<in> query_flags D then write_http_error now 400 (D\<lparr>query_flags := query_flags D - {QF_KEEPALIVE}\<rparr>) C G else Some (D, C, G));
     Some (if hc_pending_queries C = 0 \<and> QF_KEEPALIVE \<notin> query_flags D then
             Inl (0, set_state htqp_closed D, connection_write_close C, G)
           else Inr (set_state htqp_start D, C, G)) }"

definition hts_done :: "hts_handler \<Rightarrow> int \<Rightarrow> hts_data \<Rightarrow> hts_conn \<Rightarrow> hts_globals \<Rightarrow> (hts_answer + hts_data \<times> hts_conn \<times> hts_globals) option" where
  "hts_done execute now D C G = do {
     let D = (if header_size D \<ge> MAX_HTTP_HEADER_SIZE then D\<lparr>query_flags := insert QF_ERROR (query_flags D)\<rparr> else D);
     r \<leftarrow> (if QF_ERROR \<notin> query_flags D then do {
             (res, D, C, G) \<leftarrow> hts_query execute D C G;
             hts_answered now res D C G }
           else do {
             C \<leftarrow> hts_skip (header_size D) C;
             Some (Inr (D, C, G\<lparr>http_bad_headers := http_bad_headers G + 1\<rparr>)) });
     case r of Inl a \<Rightarrow> Some (Inl a) | Inr (D, C, G) \<Rightarrow> hts_finish now D C G }"

partial_function (option) hts_loop :: "hts_handler \<Rightarrow> int \<Rightarrow> bytes list \<Rightarrow> hts_data \<Rightarrow> hts_conn \<Rightarrow> hts_globals \<Rightarrow> hts_answer option" where
  "hts_loop execute now raw D C G =
     (if hc_status C = conn_working \<and> hc_pending_queries C = 0 \<and> raw \<noteq> [] \<and> \<not> hc_error C \<and> \<not> hc_stopparse C then do {
        cassert (hd raw \<noteq> []);
        (p, D) \<leftarrow> hts_parse_block (hd raw) D;
        let raw = skip_data (length (hd raw) - length p) raw;
        if parse_state D = htqp_done then do {
          r \<leftarrow> hts_done execute now D C G;
          case r of Inl a \<Rightarrow> Some a | Inr (D, C, G) \<Rightarrow> hts_loop execute now (hc_in C) D C G }
        else hts_loop execute now raw D C G }
      else Some (NEED_MORE_BYTES, D, C, G))"

definition hts_parse_execute :: "hts_handler \<Rightarrow> int \<Rightarrow> hts_data \<Rightarrow> hts_conn \<Rightarrow> hts_globals \<Rightarrow> hts_answer option" where
  "hts_parse_execute execute now D C G = hts_loop execute now (hc_in C) (set_state htqp_start D) C G"


section \<open>Every request is handled\<close>

lemma int32_id: "- (2 ^ 31) \<le> i \<Longrightarrow> i < 2 ^ 31 \<Longrightarrow> int32 i = i"
  by (simp add: int32_def signed_of_int signed_take_bit_int_eq_self)

lemma int32_wraps:
  assumes "2 ^ 31 \<le> i" "i < 2 ^ 32"
  shows "int32 i = i - 2 ^ 32"
proof -
  have "(word_of_int i :: u32) = word_of_int (i - 2 ^ 32)" by simp
  then have "int32 i = int32 (i - 2 ^ 32)" unfolding int32_def by (simp only:)
  also have "\<dots> = i - 2 ^ 32" using assms by (intro int32_id) simp_all
  finally show ?thesis .
qed

text \<open>
  The size of a request with its body is an \<^verbatim>\<open>int\<close>, or it is not: \<open>long_body s\<close> says that the stream \<open>s\<close> begins with a \<^verbatim>\<open>POST\<close> request whose header and
  announced body have $2^{31}$ bytes or more.
\<close>

definition body_fits :: "hts_data \<Rightarrow> bool" where
  "body_fits D \<longleftrightarrow> (query_type D = htqt_post \<longrightarrow> int (header_size D) + data_size D < 2 ^ 31)"

definition long_body :: "bytes \<Rightarrow> bool" where
  "long_body s \<longleftrightarrow> (\<exists>D0 p D. parse_state D0 = htqp_start \<and> hts_parse_block s D0 = Some (p, D) \<and> parse_state D = htqp_done \<and>
     QF_ERROR \<notin> query_flags D \<and> \<not> body_fits D)"

lemma trunc_msg_ok: "0 \<le> n \<Longrightarrow> length msg < 2 ^ 31 \<Longrightarrow> trunc_msg n msg = Some (take (nat n) msg)"
  by (auto simp: trunc_msg_def Let_def int32_id nat_diff_distrib' cassert_def)

lemma total_skip: "n \<le> hts_total bs \<Longrightarrow> hts_total (skip_data n bs) = hts_total bs - n"
  by (induction n bs rule: skip_data.induct) (auto simp: hts_total_def)

lemma concat_skip: "concat (skip_data n bs) = drop n (concat bs)"
  by (induction n bs rule: skip_data.induct) simp_all

lemma skip_nonempty: "[] \<notin> set bs \<Longrightarrow> [] \<notin> set (skip_data n bs)"
  by (induction n bs rule: skip_data.induct) auto

definition blocks_ok :: "hts_conn \<Rightarrow> bool" where
  "blocks_ok C \<longleftrightarrow> [] \<notin> set (hc_in C)"

text \<open>At least \<open>n\<close> bytes of the input are gone.\<close>

definition advanced :: "nat \<Rightarrow> hts_conn \<Rightarrow> hts_conn \<Rightarrow> bool" where
  "advanced n C C' \<longleftrightarrow> (\<exists>k \<ge> n. concat (hc_in C') = drop k (concat (hc_in C))) \<and> (blocks_ok C \<longrightarrow> blocks_ok C')"

lemma advanced_same: "hc_in C' = hc_in C \<Longrightarrow> advanced 0 C C'"
  by (auto simp: advanced_def blocks_ok_def intro: exI [of _ 0])

lemma advanced_trans: "advanced m A B \<Longrightarrow> advanced n B C \<Longrightarrow> advanced (m + n) A C"
  unfolding advanced_def by (metis add.commute add_le_mono drop_drop)

lemma advanced_keep: "advanced n A B \<Longrightarrow> hc_in C = hc_in B \<Longrightarrow> advanced n A C"
  using advanced_trans [of n A B 0 C] advanced_same by simp

lemma advanced_mono: "advanced n A B \<Longrightarrow> m \<le> n \<Longrightarrow> advanced m A B"
  unfolding advanced_def by (meson le_trans)

lemma advanced_less: "advanced 1 A B \<Longrightarrow> 0 < hts_total (hc_in A) \<Longrightarrow> hts_total (hc_in B) < hts_total (hc_in A)"
  by (auto simp: advanced_def hts_total_def intro!: diff_less simp del: length_concat)

lemma hts_skip_ok: "n \<le> hts_total (hc_in C) \<Longrightarrow> hts_skip n C = Some (C\<lparr>hc_in := skip_data n (hc_in C)\<rparr>) \<and> advanced n C (C\<lparr>hc_in := skip_data n (hc_in C)\<rparr>)"
  by (auto simp: hts_skip_def advanced_def concat_skip blocks_ok_def skip_nonempty)

lemma write_http_error_result:
  assumes "date_kept G" "now < 2 ^ 31"
  obtains out D' G' where "write_http_error now code D C G = Some (D', C\<lparr>hc_out := hc_out C @ [out]\<rparr>, G')" "date_kept G'"
    "header_size D' = header_size D" "query_flags D' \<union> {QF_EXTRA_HEADERS} = query_flags D \<union> {QF_EXTRA_HEADERS}"
proof -
  obtain out D' G' where w: "write_http_error_raw now code D G = Some (out, D', G')" "date_kept G'" "D' = D\<lparr>query_flags := query_flags D'\<rparr>"
    "query_flags D' \<union> {QF_EXTRA_HEADERS} = query_flags D \<union> {QF_EXTRA_HEADERS}"
    by (rule write_http_error_ok [OF assms, of code D])
  have "header_size D' = header_size D" by (subst w(3)) simp
  then show ?thesis using that w by (simp add: write_http_error_def)
qed

lemma answered_ok:
  assumes "date_kept G" "now < 2 ^ 31" "header_size D \<le> hts_total (hc_in C)"
  shows "\<exists>r. hts_answered now res D C G = Some r \<and> (case r of Inl (_, _, C', _) \<Rightarrow> advanced 0 C C' | Inr (D', C', G') \<Rightarrow> advanced (header_size D) C C' \<and> date_kept G')"
proof -
  define H where "H = G\<lparr>http_queries := http_queries G + 1, http_queries_size := http_queries_size G + int32 (int (header_size D) + data_size D)\<rparr>"
  have H: "date_kept H" using assms(1) by (simp add: H_def date_kept_def)
  define B where "B = C\<lparr>hc_in := skip_data (header_size D) (hc_in C)\<rparr>"
  have B: "hts_skip (header_size D) C = Some B" "advanced (header_size D) C B" using hts_skip_ok [OF assms(3)] by (simp_all add: B_def)
  define y where "y = (if int (hts_total (hc_in B)) > data_size D then data_size D else int (hts_total (hc_in B)))"
  define A where "A = B\<lparr>hc_in := skip_data (nat y) (hc_in B)\<rparr>"
  have "nat y \<le> hts_total (hc_in B)" by (simp add: y_def nat_le_iff)
  then have A: "hts_skip (nat y) B = Some A" "advanced (nat y) B A" using hts_skip_ok [of "nat y" B] by (simp_all add: A_def)
  have A': "advanced (header_size D) C A" using advanced_trans [OF B(2) A(2)] by (rule advanced_mono) simp
  note unf = hts_answered_def Let_def H_def [symmetric] B(1) y_def [symmetric]
  consider "res > 0" | "res \<le> 0" "res = SKIP_ALL_BYTES \<or> res = 0" "data_size D > 0" | "res \<le> 0" "res = SKIP_ALL_BYTES \<or> res = 0" "\<not> data_size D > 0"
    | "res \<le> 0" "\<not> (res = SKIP_ALL_BYTES \<or> res = 0)" by linarith
  then show ?thesis
  proof cases
    case 1
    then show ?thesis by (simp add: unf advanced_same)
  next
    case 2
    then show ?thesis using A(1) A' H advanced_mono [OF A'] by (auto simp: unf)
  next
    case 3
    then show ?thesis using B(2) H by (auto simp: unf)
  next
    case 4
    define E where "E = (if res = -413 then D\<lparr>query_flags := query_flags D - {QF_KEEPALIVE}\<rparr> else D)"
    obtain out D' G' where "write_http_error now (- res) E B H = Some (D', B\<lparr>hc_out := hc_out B @ [out]\<rparr>, G')" "date_kept G'"
      by (rule write_http_error_result [OF H assms(2), of "- res" E B])
    then show ?thesis using 4 advanced_keep [OF B(2), of "B\<lparr>hc_out := hc_out B @ [out]\<rparr>"] by (simp add: unf E_def [symmetric])
  qed
qed

lemma finish_ok:
  assumes "date_kept G" "now < 2 ^ 31"
  shows "\<exists>r. hts_finish now D C G = Some r \<and> (case r of Inl (_, _, C', _) \<Rightarrow> advanced 0 C C'
    | Inr (D', C', G') \<Rightarrow> advanced 0 C C' \<and> date_kept G' \<and> parse_state D' = htqp_start \<and> (QF_ERROR \<in> query_flags D \<longrightarrow> hc_pending_queries C' \<noteq> 0))"
proof (cases "QF_ERROR \<in> query_flags D")
  case True
  obtain out D' G' where w: "write_http_error now 400 (D\<lparr>query_flags := query_flags D - {QF_KEEPALIVE}\<rparr>) C G = Some (D', C\<lparr>hc_out := hc_out C @ [out]\<rparr>, G')"
    "date_kept G'" "query_flags D' \<union> {QF_EXTRA_HEADERS} = (query_flags D - {QF_KEEPALIVE}) \<union> {QF_EXTRA_HEADERS}"
    by (rule write_http_error_result [OF assms, of 400 "D\<lparr>query_flags := query_flags D - {QF_KEEPALIVE}\<rparr>" C]) auto
  have "QF_KEEPALIVE \<notin> query_flags D'" using w(3) by blast
  then show ?thesis using True w(1,2) by (auto simp: hts_finish_def connection_write_close_def intro!: advanced_same)
next
  case False
  then show ?thesis using assms(1) by (auto simp: hts_finish_def connection_write_close_def intro!: advanced_same)
qed

text \<open>The parser has read the part of \<open>s\<close> before \<open>rest\<close> and is in the state \<open>D\<close>.\<close>

definition parsed :: "bytes \<Rightarrow> bytes \<Rightarrow> hts_data \<Rightarrow> bool" where
  "parsed s rest D \<longleftrightarrow> (\<exists>D0. parse_state D0 = htqp_start \<and> hts_parse_block s D0 = hts_parse_block rest D)"

lemma parsed_block:
  assumes "parse_state D = htqp_fatal \<or> parsed s (b @ rest) D" "hts_inv n D" "b \<noteq> []" "hts_parse_block b D = Some (p, E)"
  shows "parse_state E \<noteq> htqp_done \<Longrightarrow> parse_state E = htqp_fatal \<or> parsed s rest E"
    "parse_state E = htqp_done \<Longrightarrow> QF_ERROR \<notin> query_flags E \<Longrightarrow> \<not> long_body s \<Longrightarrow> body_fits E"
proof -
  let ?F = "D\<lparr>query_flags := insert QF_ERROR (query_flags D), parse_state := htqp_done\<rparr>"
  have f: "E = ?F" if "parse_state D = htqp_fatal"
    using assms(3,4) that hts_block_step [of b D b ?F] hts_block_end [of b ?F] by (simp add: hts_parse_step_def)
  note a = block_append [OF assms(2,4), of rest]
  show "parse_state E = htqp_fatal \<or> parsed s rest E" if "parse_state E \<noteq> htqp_done"
    using assms(1) f a that unfolding parsed_def by auto
  assume d: "parse_state E = htqp_done" "QF_ERROR \<notin> query_flags E" "\<not> long_body s"
  obtain D0 where "parse_state D0 = htqp_start" "hts_parse_block s D0 = Some (p @ rest, E)"
    using assms(1) f a d(1,2) unfolding parsed_def by auto
  then show "body_fits E" using d unfolding long_body_def by blast
qed

text \<open>What a handler promises: it returns, keeps the size of the header and the input, and the date that is kept.\<close>

locale http_handler =
  fixes execute :: hts_handler
  assumes execute_ok: "date_kept G \<Longrightarrow> header_size D < MAX_HTTP_HEADER_SIZE \<Longrightarrow> length msg \<ge> header_size D \<Longrightarrow>
    \<exists>res D' C' G'. execute msg op D C G = Some (res, D', C', G') \<and> header_size D' = header_size D \<and> hc_in C' = hc_in C \<and> date_kept G'"
begin

lemma query_ok:
  assumes "date_kept G" "header_size D < MAX_HTTP_HEADER_SIZE" "header_size D \<le> hts_total (hc_in C)" "hts_total (hc_in C) < 2 ^ 31" "body_fits D"
  obtains res D' C' G' where "hts_query execute D C G = Some (res, D', C', G')" "header_size D' = header_size D" "hc_in C' = hc_in C" "date_kept G'"
proof -
  define b where "b = header_size D + (if query_type D = htqt_post then nat (data_size D) else 0)"
  have l: "length (concat (hc_in C)) < 2 ^ 31" using assms(4) by (simp only: hts_total_def)
  have "header_size D \<le> length (take b (concat (hc_in C)))" using assms(3) by (simp add: hts_total_def b_def)
  from execute_ok [OF assms(1,2) this] obtain res D' C' G' where e:
    "execute (take b (concat (hc_in C))) (query_type D) D C G = Some (res, D', C', G')" "header_size D' = header_size D" "hc_in C' = hc_in C" "date_kept G'"
    by blast
  show ?thesis
  proof (cases "query_type D = htqt_post \<and> data_size D < 0 \<or> query_type D \<noteq> htqt_post \<and> data_size D > 0")
    case True
    then show ?thesis using that [of "-411" D C G] that [of "-413" D C G] assms(1) by (auto simp: hts_query_def)
  next
    case False
    have i: "(if query_type D = htqt_post then int32 (int (header_size D) + data_size D) else int (header_size D)) = int b"
      using False assms(5) by (auto simp: body_fits_def b_def int32_id)
    have "(if int b < int (hts_total (hc_in C)) then trunc_msg (int b) (concat (hc_in C)) else Some (concat (hc_in C))) = Some (take b (concat (hc_in C)))"
      using trunc_msg_ok [OF _ l, of "int b"] by (auto simp: hts_total_def simp del: length_concat)
    then have "hts_query execute D C G = execute (take b (concat (hc_in C))) (query_type D) D C G"
      using False by (auto simp: hts_query_def Let_def i)
    then show ?thesis using that e by simp
  qed
qed

lemma done_ok:
  assumes "date_kept G" "now < 2 ^ 31" "size_ok n D" "parse_state D = htqp_done" "n \<le> hts_total (hc_in C)"
    and fit: "hts_total (hc_in C) < 2 ^ 31" "QF_ERROR \<notin> query_flags D \<Longrightarrow> body_fits D"
  shows "\<exists>r. hts_done execute now D C G = Some r \<and> (case r of Inl (_, _, C', _) \<Rightarrow> advanced 0 C C'
    | Inr (D', C', G') \<Rightarrow> advanced 0 C C' \<and> date_kept G' \<and> parse_state D' = htqp_start \<and> (advanced 1 C C' \<or> hc_pending_queries C' \<noteq> 0))"
proof -
  define E where "E = (if header_size D \<ge> MAX_HTTP_HEADER_SIZE then D\<lparr>query_flags := insert QF_ERROR (query_flags D)\<rparr> else D)"
  have h: "header_size E \<le> hts_total (hc_in C)" using assms(3,4,5) by (auto simp: size_ok_def pending_word_def E_def split: if_split_asm)
  define r where "r = (if QF_ERROR \<notin> query_flags E then do { (res, D, C, G) \<leftarrow> hts_query execute E C G; hts_answered now res D C G }
     else do { C \<leftarrow> hts_skip (header_size E) C; Some (Inr (E, C, G\<lparr>http_bad_headers := http_bad_headers G + 1\<rparr>)) })"
  have "\<exists>a. r = Some a \<and> (case a of Inl (_, _, C', _) \<Rightarrow> advanced 0 C C'
    | Inr (D', C', G') \<Rightarrow> date_kept G' \<and> advanced 0 C C' \<and> (QF_ERROR \<in> query_flags D' \<or> advanced 1 C C'))"
  proof (cases "QF_ERROR \<in> query_flags E")
    case True
    then show ?thesis
      using hts_skip_ok [OF h] assms(1) by (auto simp: r_def date_kept_def dest: advanced_mono)
  next
    case False
    have m: "header_size E < MAX_HTTP_HEADER_SIZE" "1 \<le> header_size E"
      using False assms(3,4) by (auto simp: E_def size_ok_def pending_word_def split: if_split_asm)
    obtain res F A H where q: "hts_query execute E C G = Some (res, F, A, H)" "header_size F = header_size E" "hc_in A = hc_in C" "date_kept H"
      by (rule query_ok [OF assms(1) m(1) h fit(1)]) (use False fit(2) in \<open>auto simp: E_def split: if_split_asm\<close>)
    obtain a where a: "hts_answered now res F A H = Some a" "case a of Inl (_, _, C', _) \<Rightarrow> advanced 0 A C'
      | Inr (D', C', G') \<Rightarrow> advanced (header_size F) A C' \<and> date_kept G'"
      using answered_ok [OF q(4) assms(2), of F A res] h q(2,3) by auto
    have t: "advanced k C B" if "advanced k A B" for k B using advanced_trans [OF advanced_same [OF q(3)] that] by simp
    have "advanced 1 C B \<and> advanced 0 C B" if "advanced (header_size F) A B" for B
      using advanced_mono [OF t [OF that]] m(2) q(2) by simp
    then show ?thesis using False q(1) a t by (auto simp: r_def split: sum.split_asm)
  qed
  then obtain a where a: "r = Some a" "case a of Inl (_, _, C', _) \<Rightarrow> advanced 0 C C'
    | Inr (D', C', G') \<Rightarrow> date_kept G' \<and> advanced 0 C C' \<and> (QF_ERROR \<in> query_flags D' \<or> advanced 1 C C')" by blast
  have d: "hts_done execute now D C G = do { a \<leftarrow> r; case a of Inl b \<Rightarrow> Some (Inl b) | Inr (D, C, G) \<Rightarrow> hts_finish now D C G }"
    by (simp add: hts_done_def r_def Let_def E_def)
  show ?thesis
  proof (cases a)
    case (Inl b)
    then show ?thesis using d a by simp
  next
    case (Inr x)
    obtain F A H where x: "x = (F, A, H)" by (metis prod_cases3)
    have i: "date_kept H" "advanced 0 C A" "QF_ERROR \<in> query_flags F \<or> advanced 1 C A" using a(2) Inr x by auto
    have t: "advanced k C B" if "advanced k C A" "advanced 0 A B" for k B using advanced_trans [OF that] by simp
    obtain f where "hts_finish now F A H = Some f" "case f of Inl (_, _, C', _) \<Rightarrow> advanced 0 A C'
      | Inr (D', C', G') \<Rightarrow> advanced 0 A C' \<and> date_kept G' \<and> parse_state D' = htqp_start \<and> (QF_ERROR \<in> query_flags F \<longrightarrow> hc_pending_queries C' \<noteq> 0)"
      using finish_ok [OF i(1) assms(2), of F A] by blast
    then show ?thesis using d a(1) Inr x t [OF i(2)] i(3) t [of 1] by (cases f) auto
  qed
qed

lemma loop_ok:
  assumes "date_kept G" "now < 2 ^ 31" "blocks_ok C" "[] \<notin> set raw" "hts_inv n D" "parse_state D \<noteq> htqp_done" "n + hts_total raw = hts_total (hc_in C)"
    and "hts_total (hc_in C) < 2 ^ 31" "\<And>k. \<not> long_body (drop k (concat (hc_in C)))" "parse_state D = htqp_fatal \<or> parsed (concat (hc_in C)) (concat raw) D"
  shows "\<exists>res D' C' G'. hts_loop execute now raw D C G = Some (res, D', C', G') \<and> advanced 0 C C'"
  using assms
proof (induction "(hts_total (hc_in C), hts_total raw)" arbitrary: raw D C G n rule: wf_induct_rule [OF wf_lex_prod [OF wf_less_than wf_less_than]])
  case 1
  show ?case
  proof (cases "hc_status C = conn_working \<and> hc_pending_queries C = 0 \<and> raw \<noteq> [] \<and> \<not> hc_error C \<and> \<not> hc_stopparse C")
    case False
    then show ?thesis by (subst hts_loop.simps) (auto intro: advanced_same)
  next
    case True
    obtain b bs where raw: "raw = b # bs" "b \<noteq> []" using True 1(5) by (cases raw) auto
    obtain p E where b: "hts_parse_block b D = Some (p, E)" "length p \<le> length b" "hts_inv (n + length b - length p) E" "p = [] \<or> parse_state E = htqp_done"
      using hts_block_inv [OF 1(6), of b] by blast
    have u: "hts_loop execute now raw D C G = (if parse_state E = htqp_done then do {
          r \<leftarrow> hts_done execute now E C G;
          case r of Inl a \<Rightarrow> Some a | Inr (D, C, G) \<Rightarrow> hts_loop execute now (hc_in C) D C G }
        else hts_loop execute now (skip_data (length b - length p) raw) E C G)"
      using True raw b(1) by (subst hts_loop.simps) simp
    have pd: "parse_state D = htqp_fatal \<or> parsed (concat (hc_in C)) (b @ concat bs) D" using 1(11) raw(1) by simp
    show ?thesis
    proof (cases "parse_state E = htqp_done")
      case False
      then have "p = []" using b(4) by simp
      then have s: "skip_data (length b - length p) raw = bs" by (cases bs) (use 1(5) raw in auto)
      have "\<exists>res D' C' G'. hts_loop execute now bs E C G = Some (res, D', C', G') \<and> advanced 0 C C'"
        by (rule 1(1) [OF _ 1(2,3,4) _ _ False, of _ "n + length b"])
          (use 1(5,8,9,10) raw b(3) \<open>p = []\<close> parsed_block(1) [OF pd 1(6) raw(2) b(1) False] in \<open>auto simp: hts_total_def\<close>)
      then show ?thesis using False u s by simp
    next
      case True
      have "size_ok (n + length b - length p) E" using b(3) True by (simp add: hts_inv_def)
      moreover have "n + length b - length p \<le> hts_total (hc_in C)" using 1(8) raw by (simp add: hts_total_def)
      moreover have "body_fits E" if "QF_ERROR \<notin> query_flags E" using parsed_block(2) [OF pd 1(6) raw(2) b(1) True that] 1(10) [of 0] by simp
      ultimately obtain r where r: "hts_done execute now E C G = Some r" "case r of Inl (_, _, C', _) \<Rightarrow> advanced 0 C C'
        | Inr (D', C', G') \<Rightarrow> advanced 0 C C' \<and> date_kept G' \<and> parse_state D' = htqp_start \<and> (advanced 1 C C' \<or> hc_pending_queries C' \<noteq> 0)"
        using done_ok [OF 1(2,3) _ True _ 1(9)] by blast
      show ?thesis
      proof (cases r)
        case (Inl a)
        then show ?thesis using r u True by (cases a) auto
      next
        case (Inr x)
        obtain F A H where x: "x = (F, A, H)" by (metis prod_cases3)
        have i: "advanced 0 C A" "date_kept H" "parse_state F = htqp_start" "advanced 1 C A \<or> hc_pending_queries A \<noteq> 0" using r(2) Inr x by auto
        have l: "hts_loop execute now raw D C G = hts_loop execute now (hc_in A) F A H" using u True r(1) Inr x by simp
        show ?thesis
        proof (cases "hc_pending_queries A = 0")
          case False
          then have "hts_loop execute now (hc_in A) F A H = Some (NEED_MORE_BYTES, F, A, H)" by (subst hts_loop.simps) simp
          then show ?thesis using l i(1) by auto
        next
          case True
          have k: "blocks_ok A" using i(1) 1(4) by (simp add: advanced_def)
          have "0 < length b" using raw(2) by simp
          moreover have "hts_total (hc_in C) = n + length b + length (concat bs)" using raw(1) 1(8) by (simp add: hts_total_def)
          ultimately have "0 < hts_total (hc_in C)" by linarith
          then have "hts_total (hc_in A) < hts_total (hc_in C)" using i(4) True by (auto intro: advanced_less)
          moreover have nl: "\<not> long_body (drop j (concat (hc_in A)))" for j
          proof -
            obtain m where "concat (hc_in A) = drop m (concat (hc_in C))" using i(1) unfolding advanced_def by blast
            then show ?thesis using 1(10) [of "j + m"] by (simp add: drop_drop)
          qed
          ultimately have "\<exists>res D' C' G'. hts_loop execute now (hc_in A) F A H = Some (res, D', C', G') \<and> advanced 0 A C'"
            by (intro 1(1) [OF _ i(2) 1(3) k, of _ 0]) (use i(3) k 1(9) nl in \<open>auto simp: hts_inv_def blocks_ok_def parsed_def\<close>)
          then show ?thesis using l advanced_trans [OF i(1)] by auto
        qed
      qed
    qed
  qed
qed

lemma parse_execute_ok:
  assumes "date_kept G" "now < 2 ^ 31" "blocks_ok C" "hts_total (hc_in C) < 2 ^ 31" "\<And>k. \<not> long_body (drop k (concat (hc_in C)))"
  shows "\<exists>res D' C' G'. hts_parse_execute execute now D C G = Some (res, D', C', G') \<and> advanced 0 C C'"
  unfolding hts_parse_execute_def
  by (rule loop_ok [OF assms(1-3) _ _ _ _ assms(4,5)]) (use assms(3) in \<open>auto simp: blocks_ok_def hts_inv_def parsed_def intro: exI [of _ "set_state htqp_start D"]\<close>)

end

section \<open>The handlers\<close>

definition hts_default_execute :: hts_handler where
  "hts_default_execute raw op D C G =
     (let D = (if op = htqt_empty then D else D\<lparr>query_flags := insert QF_ERROR (query_flags D)\<rparr>)
      in Some (if data_size D \<ge> 0 then -413 else -501, D, C, G))"

text \<open>What the clients' handler does before it returns; the rest of its body is never reached.\<close>

definition hts_execute :: hts_handler where
  "hts_execute msg op D C G = Some (0, D, hts_fail_connection C, G)"

text \<open>\<open>stats\<close> is what \<open>mtfront_prepare_stats\<close> writes into its buffer of $2^{20}$ bytes.\<close>

definition hts_stats_execute :: "int \<Rightarrow> bytes \<Rightarrow> hts_handler" where
  "hts_stats_execute now stats msg op D C G =
     (if snd (check_conn_buffers (hc_conn C) (hc_used_bytes C)) < 0 then Some (-429, D, hts_fail_connection C, G)
      else if op \<noteq> htqt_get \<or> data_size D \<noteq> -1 then Some (-501, D\<lparr>query_flags := query_flags D - {QF_KEEPALIVE}\<rparr>, C, G)
      else if hc_remote_ip C \<noteq> 0x7f000001 then Some (-404, D, C, G)
      else if uri_size D \<noteq> 6 then Some (-404, D, C, G)
      else do {
        cassert (header_size D \<le> length msg \<and> header_size D \<le> MAX_HTTP_HEADER_SIZE);
        let ReqHdr = take (header_size D) msg;
        if take 6 (drop (uri_offset D) ReqHdr) \<noteq> text_bytes ''/stats'' then Some (-404, D, C, G)
        else do {
          let sb = take (2 ^ 20) stats;
          (raw, D, G) \<leftarrow> write_basic_http_header_raw now 200 0 (int (length sb)) None (Some (text_bytes ''text/plain'')) D G;
          Some (0, D, C\<lparr>hc_out := hc_out C @ [raw @ sb]\<rparr>, G) } })"

interpretation default_handler: http_handler hts_default_execute
  by unfold_locales (auto simp: hts_default_execute_def Let_def)

interpretation client_handler: http_handler hts_execute
  by unfold_locales (auto simp: hts_execute_def hts_fail_connection_def)

interpretation stats_handler: http_handler "hts_stats_execute (sint now) stats" for now :: u32 and stats :: bytes
proof unfold_locales
  fix G :: hts_globals and D :: hts_data and msg :: bytes and op C
  assume a: "date_kept G" "header_size D < MAX_HTTP_HEADER_SIZE" "header_size D \<le> length msg"
  have "sint now < 2 ^ 31" using sint_lt [of now] by simp
  moreover have "int (length (take (2 ^ 20) stats)) < 2 ^ 31" by simp
  ultimately obtain out G' where "write_basic_http_header_raw (sint now) 200 0 (int (length (take (2 ^ 20) stats))) None (Some (text_bytes ''text/plain'')) D G =
      Some (out, if http_ver D \<ge> HTTP_V10 \<or> http_ver D = 0 then D\<lparr>query_flags := query_flags D - {QF_EXTRA_HEADERS}\<rparr> else D, G')" "date_kept G'"
    by (rule write_basic_ok [OF a(1)]) auto
  then show "\<exists>res D' C' G'. hts_stats_execute (sint now) stats msg op D C G = Some (res, D', C', G') \<and>
      header_size D' = header_size D \<and> hc_in C' = hc_in C \<and> date_kept G'"
    using a by (auto simp: hts_stats_execute_def hts_fail_connection_def Let_def)
qed

text \<open>
  C9. The HTTP server handles any input of less than $2^{31}$ bytes but one kind. However the bytes are cut into blocks,
  \<open>hts_parse_execute\<close> returns with each of the handlers, and what is left of the input is a suffix of it: no assertion fails, in the parser,
  in the handlers or when an error page is written, and the loop over the requests ends. The exception is an input with, at some position,
  a \<^verbatim>\<open>POST\<close> request whose header and announced body have $2^{31}$ bytes or more, for which the sum of the sizes wraps.
\<close>

theorem hts_parse_execute_returns:
  assumes "date_kept G" "[] \<notin> set (hc_in C)" "hts_total (hc_in C) < 2 ^ 31"
    and "execute \<in> {hts_default_execute, hts_execute, hts_stats_execute (sint (now :: u32)) stats}"
  shows "(\<exists>res D' C' G' k. hts_parse_execute execute (sint now) D C G = Some (res, D', C', G') \<and> concat (hc_in C') = drop k (concat (hc_in C))) \<or>
    (\<exists>k. long_body (drop k (concat (hc_in C))))"
proof (cases "\<exists>k. long_body (drop k (concat (hc_in C)))")
  case False
  have n: "sint now < 2 ^ 31" using sint_lt [of now] by simp
  have b: "blocks_ok C" using assms(2) by (simp add: blocks_ok_def)
  have l: "\<not> long_body (drop k (concat (hc_in C)))" for k using False by blast
  show ?thesis
    using assms(4) default_handler.parse_execute_ok [OF assms(1) n b assms(3) l, of D] client_handler.parse_execute_ok [OF assms(1) n b assms(3) l, of D]
      stats_handler.parse_execute_ok [OF assms(1) n b assms(3) l, of now stats D]
    unfolding advanced_def by blast
qed blast

definition sample_globals :: hts_globals where
  "sample_globals = \<lparr>http_connections = 1, http_queries = 0, http_bad_headers = 0, http_queries_size = 0,
     now_date_string = text_bytes ''Thu, 01 Jan 1970 00:00:00 GMT'', now_date_utime = 0, extra_http_response_headers = []\<rparr>"

definition sample_hts_conn :: "bytes list \<Rightarrow> hts_conn" where
  "sample_hts_conn blocks = \<lparr>hc_conn = \<lparr>conn_fd = 7, conn_generation = 1, conn_extra_int = 0\<rparr>, hc_status = conn_working, hc_error = False,
     hc_stopparse = False, hc_stopread = False, hc_pending_queries = 0, hc_remote_ip = 0x7f000001, hc_used_bytes = 0, hc_in = blocks, hc_out = []\<rparr>"

definition sample_query :: hts_data where
  "sample_query =
     \<lparr>query_type = htqt_none, query_flags = {}, query_words = 0, header_size = 0, first_line_size = 0, data_size = 0,
      host_offset = 0, host_size = 0, uri_offset = 0, uri_size = 0, http_ver = 0, wlen = 0, word = replicate 16 0,
      parse_state = htqp_start, query_seqno = 0\<rparr>"

lemma word_not_long:
  assumes "\<forall>c\<in>set s. 32 < unat c" "length s \<le> 4096"
  shows "\<not> long_body s"
proof -
  have "parse_state E \<noteq> htqp_done" if d: "parse_state D = htqp_start" "hts_parse_block s D = Some (p, E)" for D p E
  proof (cases "s = []")
    case True
    then show ?thesis using d by (simp add: hts_block_end)
  next
    case False
    let ?A = "htqp_start_case D"
    have t: "takeWhile (\<lambda>c. 32 < unat c) s = s" "dropWhile (\<lambda>c. 32 < unat c) s = []"
      using assms(1) by simp_all
    have "length (word ?A) = 16" by (simp add: htqp_start_case_def)
    from read_word_ok [OF this, of "\<lambda>c. 32 < unat c" s] have "read_word (\<lambda>c. 32 < unat c) s ?A = Some ([], put_word s ?A)" unfolding t .
    then have "hts_parse_step s D = Some ([], put_word s ?A)"
      using d(1) assms(2) by (simp add: hts_parse_step_def htqp_readtospace_case_def) (simp add: htqp_start_case_def)
    then have "hts_parse_block s D = Some ([], put_word s ?A)" using False d(1) by (simp add: hts_block_step hts_block_end)
    then show ?thesis using d(2) by (auto simp: htqp_start_case_def)
  qed
  then show ?thesis unfolding long_body_def by blast
qed

theorem hts_parse_execute_returns_witness:
  "\<exists>r. hts_parse_execute (hts_stats_execute 5 []) 5 sample_query (sample_hts_conn [text_bytes ''GE'', text_bytes ''T'']) sample_globals = Some r"
proof -
  let ?C = "sample_hts_conn [text_bytes ''GE'', text_bytes ''T'']"
  have "date_kept sample_globals"
    by (simp add: date_kept_def sample_globals_def gen_http_date_def period_year_def dd_days_def dec2_eq [of 0, simplified] dec2_def
        dows_def months_def text_bytes_def dec_digits.simps HTTP_DATE_LEN_def aset_def)
  moreover have i: "concat (hc_in ?C) = [71, 69, 84]" by (simp add: sample_hts_conn_def text_bytes_def)
  moreover have "[] \<notin> set (hc_in ?C)" by (simp add: sample_hts_conn_def text_bytes_def)
  moreover have "\<not> long_body (drop k (concat (hc_in ?C)))" for k
  proof -
    have "\<forall>c\<in>set (concat (hc_in ?C)). 32 < unat c" unfolding i by simp
    then have "\<forall>c\<in>set (drop k (concat (hc_in ?C))). 32 < unat c" using set_drop_subset by fast
    moreover have "length (drop k (concat (hc_in ?C))) \<le> 4096" unfolding i by simp
    ultimately show ?thesis by (rule word_not_long)
  qed
  moreover have "hts_total (hc_in ?C) < 2 ^ 31" unfolding hts_total_def i by simp
  ultimately show ?thesis
    using hts_parse_execute_returns [of sample_globals ?C "hts_stats_execute 5 []" 5 "[]" sample_query] by fastforce
qed

end
