(* ===== verification/HttpRequest.thy ===== *)
theory HttpRequest
  imports HttpServer
begin

text \<open>
  Requests that are printed are parsed back, however they are cut into blocks: the fields of the query describe the parts of the request.
\<close>

section \<open>A request in blocks\<close>

lemma loop_blocks:
  assumes "hts_inv n D" "parse_state D \<noteq> htqp_done" "[] \<notin> set raw"
    and "hts_parse_block (concat raw) D = Some (p, D')" "parse_state D' = htqp_done" "QF_ERROR \<notin> query_flags D'"
    and C: "hc_status C = conn_working" "hc_pending_queries C = 0" "\<not> hc_error C" "\<not> hc_stopparse C"
  shows "hts_loop execute now raw D C G = do {
      r \<leftarrow> hts_done execute now D' C G;
      case r of Inl a \<Rightarrow> Some a | Inr (D, C, G) \<Rightarrow> hts_loop execute now (hc_in C) D C G }"
  using assms(1-6)
proof (induction raw arbitrary: n D)
  case Nil
  then show ?case by (simp add: hts_block_end)
next
  case (Cons b bs)
  have b: "b \<noteq> []" using Cons.prems(3) by auto
  obtain p1 E where s: "hts_parse_block b D = Some (p1, E)" "length p1 \<le> length b" "hts_inv (n + length b - length p1) E" "p1 = [] \<or> parse_state E = htqp_done"
    using hts_block_inv [OF Cons.prems(1), of b] by blast
  note a = block_append [OF Cons.prems(1) s(1), of "concat bs"]
  have u: "hts_loop execute now (b # bs) D C G = (if parse_state E = htqp_done then do {
        r \<leftarrow> hts_done execute now E C G;
        case r of Inl a \<Rightarrow> Some a | Inr (D, C, G) \<Rightarrow> hts_loop execute now (hc_in C) D C G }
      else hts_loop execute now (skip_data (length b - length p1) (b # bs)) E C G)"
    using C b s(1) by (subst hts_loop.simps) simp
  show ?case
  proof (cases "parse_state E = htqp_done")
    case True
    then show ?thesis using a u Cons.prems(4) by simp
  next
    case False
    have "parse_state E \<noteq> htqp_fatal" using a Cons.prems(4,5,6) by auto
    then have "hts_parse_block (concat bs) E = Some (p, D')" using a False Cons.prems(4) by simp
    then have "hts_loop execute now bs E C G = do {
      r \<leftarrow> hts_done execute now D' C G;
      case r of Inl a \<Rightarrow> Some a | Inr (D, C, G) \<Rightarrow> hts_loop execute now (hc_in C) D C G }"
      using Cons.IH [OF s(3) False _ _ Cons.prems(5,6)] Cons.prems(3) by simp
    moreover have "skip_data (length b - length p1) (b # bs) = bs" using s(4) False Cons.prems(3) by (cases bs) auto
    ultimately show ?thesis using u False by simp
  qed
qed


section \<open>Requests\<close>

text \<open>A header line changes what the server knows about a request: the place of the host, the length of the body, whether to keep the connection.\<close>

record request_info =
  ri_host_offset :: nat
  ri_host_size :: nat
  ri_data_size :: int
  ri_keepalive :: bool
  ri_size :: nat

definition is_name :: "string \<Rightarrow> bytes \<Rightarrow> bool" where
  "is_name s n \<longleftrightarrow> case_eq n (text_bytes s)"

definition header_effect :: "bytes \<times> bytes \<Rightarrow> request_info \<Rightarrow> request_info" where
  "header_effect h r = (case h of (n, v) \<Rightarrow>
     (if is_name ''host'' n then r\<lparr>ri_host_offset := ri_size r + length n + 2, ri_host_size := length v\<rparr>
      else if is_name ''connection'' n then r\<lparr>ri_keepalive := ri_keepalive r \<or> is_name ''keep-alive'' v\<rparr>
      else if is_name ''content-length'' n then r\<lparr>ri_data_size := digits_value v\<rparr>
      else r)\<lparr>ri_size := ri_size r + length n + length v + 4\<rparr>)"

text \<open>
  A header as it may follow others: a name of characters; a host and a connection type of one word; a length that fits, once;
  any other value without the end of a line.
\<close>

definition word_char :: "u8 \<Rightarrow> bool" where
  "word_char c \<longleftrightarrow> 32 < unat c"

definition name_char :: "u8 \<Rightarrow> bool" where
  "name_char c \<longleftrightarrow> c \<noteq> 58 \<and> 32 < sint c"

definition proper_header :: "request_info \<Rightarrow> bytes \<times> bytes \<Rightarrow> bool" where
  "proper_header r h \<longleftrightarrow> (case h of (n, v) \<Rightarrow>
     n \<noteq> [] \<and> list_all name_char n \<and> length n \<le> 4096 \<and>
     (if is_name ''host'' n \<or> is_name ''connection'' n then v \<noteq> [] \<and> list_all word_char v \<and> length v \<le> 4096
      else if is_name ''content-length'' n then ri_data_size r = -1 \<and> (\<exists>k < 2147483640. v = dec_digits k)
      else 13 \<notin> set v \<and> 10 \<notin> set v))"

fun proper_headers :: "request_info \<Rightarrow> (bytes \<times> bytes) list \<Rightarrow> bool" where
  "proper_headers r [] \<longleftrightarrow> True"
| "proper_headers r (h # hs) \<longleftrightarrow> proper_header r h \<and> proper_headers (header_effect h r) hs"

definition print_header :: "bytes \<times> bytes \<Rightarrow> bytes" where
  "print_header h = (case h of (n, v) \<Rightarrow> n @ [58, 32] @ v @ crlf)"

section \<open>A line of a request\<close>

text \<open>Between two lines.\<close>

definition between_lines :: "hts_data \<Rightarrow> bool" where
  "between_lines D \<longleftrightarrow> parse_state D = htqp_linestart \<and> length (word D) = 16 \<and> query_flags D \<subseteq> {QF_KEEPALIVE} \<and> 8 \<le> query_words D \<and>
     http_ver D > HTTP_V09 \<and> header_size D \<noteq> 0"

definition info_of :: "hts_data \<Rightarrow> request_info" where
  "info_of D = \<lparr>ri_host_offset = host_offset D, ri_host_size = host_size D, ri_data_size = data_size D,
     ri_keepalive = (QF_KEEPALIVE \<in> query_flags D), ri_size = header_size D\<rparr>"

definition same_request :: "hts_data \<Rightarrow> hts_data \<Rightarrow> bool" where
  "same_request D D' \<longleftrightarrow> query_type D' = query_type D \<and> uri_offset D' = uri_offset D \<and> uri_size D' = uri_size D \<and> http_ver D' = http_ver D \<and>
     query_seqno D' = query_seqno D"

definition new_line :: "nat \<Rightarrow> hts_data \<Rightarrow> hts_data" where
  "new_line n D = D\<lparr>query_words := max 8 (query_words D + 1), header_size := header_size D + n, parse_state := htqp_linestart\<rparr>"

lemma new_line_add: "new_line n (set_state s (add_size m D)) = new_line (m + n) D" "new_line n (set_state s D) = new_line n D" "new_line n (add_size m D) = new_line (m + n) D"
  by (cases D; simp add: new_line_def add_size_def)+

lemma block_eoln:
  assumes "parse_state D = htqp_eoln" "rest \<noteq> []" "QF_ERROR \<notin> query_flags D" "http_ver D > HTTP_V09"
  shows "hts_parse_block (13 # 10 # rest) D =
    hts_parse_block rest (new_line 2 D)"
proof -
  let ?E = "new_line 2 D"
  have "set_state htqp_linestart (add_size 1 (if query_words D + 1 < 8 then (set_state htqp_wantlf (add_size 1 D))\<lparr>query_words := 8\<rparr>
      else (set_state htqp_wantlf (add_size 1 D))\<lparr>query_words := query_words D + 1\<rparr>)) = ?E"
    by (cases D) (simp add: new_line_def add_size_def max_def)
  then have "hts_parse_step (13 # 10 # rest) D = Some (htqp_linestart_case rest ?E)"
    using assms by (auto simp: hts_parse_step_def htqp_eoln_case_def htqp_wantlf_case_def Let_def)
  moreover have "hts_parse_step rest ?E = Some (htqp_linestart_case rest ?E)" by (simp add: hts_parse_step_def new_line_def)
  ultimately show ?thesis using assms(1,2) by (simp add: hts_parse_block.simps [of "13 # 10 # rest" D] hts_parse_block.simps [of rest ?E]) (simp add: new_line_def)
qed

lemma block_skiptoeoln:
  assumes "parse_state D = htqp_skiptoeoln" "rest \<noteq> []" "QF_ERROR \<notin> query_flags D" "http_ver D > HTTP_V09"
    "13 \<notin> set v" "10 \<notin> set v" "header_size D + length v < MAX_HTTP_HEADER_SIZE"
  shows "hts_parse_block (v @ 13 # 10 # rest) D =
    hts_parse_block rest (new_line (length v + 2) D)"
proof -
  have "takeWhile (\<lambda>c. c \<noteq> 13 \<and> c \<noteq> 10) (v @ 13 # 10 # rest) = v" using assms(5,6) by (auto simp: takeWhile_append takeWhile_eq_all_conv)
  then have k: "skipped (\<lambda>c. c \<noteq> 13 \<and> c \<noteq> 10) (v @ 13 # 10 # rest) D = length v" using assms(7) by (simp add: skipped_def)
  let ?E = "set_state htqp_eoln (add_size (length v) D)"
  have "hts_parse_step (v @ 13 # 10 # rest) D = Some (htqp_eoln_case (13 # 10 # rest) ?E)"
    using assms k by (simp add: hts_parse_step_def htqp_skiptoeoln_case_def skip_chars_eq)
  moreover have "hts_parse_step (13 # 10 # rest) ?E = Some (htqp_eoln_case (13 # 10 # rest) ?E)" by (simp add: hts_parse_step_def)
  ultimately have "hts_parse_block (v @ 13 # 10 # rest) D = hts_parse_block (13 # 10 # rest) ?E"
    using assms(1) by (simp add: hts_parse_block.simps [of "v @ 13 # 10 # rest" D] hts_parse_block.simps [of "13 # 10 # rest" ?E])
  then show ?thesis using block_eoln [of ?E rest] assms by (simp add: new_line_add)
qed

lemma block_skipspctoeoln:
  assumes "parse_state D = htqp_skipspctoeoln" "rest \<noteq> []" "QF_ERROR \<notin> query_flags D" "http_ver D > HTTP_V09" "header_size D < MAX_HTTP_HEADER_SIZE"
  shows "hts_parse_block (13 # 10 # rest) D =
    hts_parse_block rest (new_line 2 D)"
proof -
  have "hts_parse_step (13 # 10 # rest) D = Some (13 # 10 # rest, set_state htqp_eoln D)"
    using assms by (simp add: hts_parse_step_def htqp_skipspc_case_def)
  then have "hts_parse_block (13 # 10 # rest) D = hts_parse_block (13 # 10 # rest) (set_state htqp_eoln D)" using assms(1) by (simp add: hts_block_step)
  then show ?thesis using block_eoln [of "set_state htqp_eoln D" rest] assms by (simp add: new_line_add)
qed


lemma new_line_sel [simp]:
  "parse_state (new_line n D) = htqp_linestart" "word (new_line n D) = word D" "query_flags (new_line n D) = query_flags D"
  "query_words (new_line n D) = max 8 (query_words D + 1)" "http_ver (new_line n D) = http_ver D" "header_size (new_line n D) = header_size D + n"
  "host_offset (new_line n D) = host_offset D" "host_size (new_line n D) = host_size D" "data_size (new_line n D) = data_size D"
  "query_type (new_line n D) = query_type D" "uri_offset (new_line n D) = uri_offset D" "uri_size (new_line n D) = uri_size D"
  "query_seqno (new_line n D) = query_seqno D" "first_line_size (new_line n D) = first_line_size D"
  by (simp_all add: new_line_def)

lemma more_sel [simp]:
  "host_offset (add_size n D) = host_offset D" "host_size (add_size n D) = host_size D" "query_type (add_size n D) = query_type D"
  "uri_offset (add_size n D) = uri_offset D" "uri_size (add_size n D) = uri_size D" "query_seqno (add_size n D) = query_seqno D"
  "host_offset (put_word w D) = host_offset D" "host_size (put_word w D) = host_size D" "query_type (put_word w D) = query_type D"
  "uri_offset (put_word w D) = uri_offset D" "uri_size (put_word w D) = uri_size D" "query_seqno (put_word w D) = query_seqno D"
  by (simp_all add: add_size_def put_word_def)

lemma fill_word_take: "n + length cs \<le> 15 \<Longrightarrow> length w = 16 \<Longrightarrow> take (n + length cs) (fill_word w n cs) = take n w @ cs"
proof (induction cs arbitrary: w n)
  case (Cons c cs)
  then have "take (Suc n + length cs) (fill_word (w[n := c]) (Suc n) cs) = take (Suc n) (w[n := c]) @ cs"
    using Cons.IH [of "Suc n" "w[n := c]"] by simp
  then show ?case using Cons.prems by (simp add: take_Suc_conv_app_nth)
qed simp

lemma word_read:
  assumes "wlen D = 0" "length (word D) = 16" "length s \<le> 15"
  shows "word_is_nocase s (put_word w D) \<longleftrightarrow> is_name s w" "word_is s (put_word w D) \<longleftrightarrow> w = text_bytes s"
proof -
  have t: "take (length s) (fill_word (word D) 0 w) = w" if "length w = length s" using fill_word_take [of 0 w "word D"] assms that by simp
  then show "word_is_nocase s (put_word w D) \<longleftrightarrow> is_name s w"
    using assms map_eq_imp_length_eq [of to_lower w to_lower "text_bytes s"]
    by (cases "length w = length s") (auto simp: word_is_nocase_def is_name_def case_eq_def put_word_def)
  show "word_is s (put_word w D) \<longleftrightarrow> w = text_bytes s"
    using t assms by (auto simp: word_is_def put_word_def)
qed

text \<open>The name of a header.\<close>

definition name_read :: "bytes \<Rightarrow> hts_data \<Rightarrow> hts_data" where
  "name_read n D = set_state htqp_skipspc (add_size (length n + 1) (header_name (put_word n
     ((if first_line_size D = 0 then D\<lparr>first_line_size := header_size D\<rparr> else D)\<lparr>wlen := 0, parse_state := htqp_readtocolon\<rparr>))))"

lemma block_name:
  assumes "between_lines D" "n \<noteq> []" "list_all name_char n" "length n \<le> 4096"
  shows "hts_parse_block (n @ 58 # p) D = hts_parse_block p (name_read n D)"
proof -
  define E where "E = (if first_line_size D = 0 then D\<lparr>first_line_size := header_size D\<rparr> else D)\<lparr>wlen := 0, parse_state := htqp_readtocolon\<rparr>"
  have E: "parse_state E = htqp_readtocolon" "length (word E) = 16" "wlen E = 0" using assms(1) by (auto simp: E_def between_lines_def)
  obtain c m where n: "n = c # m" using assms(2) by (cases n) auto
  have c: "c \<noteq> 13" "c \<noteq> 10" using assms(3) by (auto simp: n name_char_def)
  have "hts_parse_step (n @ 58 # p) D = Some (n @ 58 # p, E)"
    using assms(1) c by (auto simp: hts_parse_step_def htqp_linestart_case_def n E_def between_lines_def Let_def)
  then have 1: "hts_parse_block (n @ 58 # p) D = hts_parse_block (n @ 58 # p) E" using assms(1) by (simp add: hts_block_step between_lines_def)
  have w: "takeWhile name_char (n @ 58 # p) = n" "dropWhile name_char (n @ 58 # p) = 58 # p"
    using assms(3) by (auto simp: takeWhile_append dropWhile_append list_all_iff name_char_def)
  have "read_word name_char (n @ 58 # p) E = Some (58 # p, put_word n E)" unfolding read_word_ok [OF E(2)] w ..
  moreover have "name_char = (\<lambda>c. c \<noteq> 58 \<and> 32 < sint c)" by (auto simp: name_char_def)
  ultimately have "hts_parse_step (n @ 58 # p) E = Some (p, name_read n D)"
    using assms(4) E(1,3) by (simp add: hts_parse_step_def htqp_readtocolon_case_def name_read_def E_def)
  then show ?thesis using 1 E(1) by (simp add: hts_block_step)
qed

lemma header_name_sel [simp]:
  "parse_state (header_name D) = parse_state D" "word (header_name D) = word D" "query_words (header_name D) = query_words D"
  "http_ver (header_name D) = http_ver D" "header_size (header_name D) = header_size D" "host_offset (header_name D) = host_offset D"
  "host_size (header_name D) = host_size D" "data_size (header_name D) = data_size D" "query_type (header_name D) = query_type D"
  "uri_offset (header_name D) = uri_offset D" "uri_size (header_name D) = uri_size D" "query_seqno (header_name D) = query_seqno D"
  "first_line_size (header_name D) = first_line_size D"
  by (simp_all add: header_name_def)

lemma name_read_sel:
  assumes "between_lines D"
  shows "parse_state (name_read n D) = htqp_skipspc" "length (word (name_read n D)) = 16" "8 \<le> query_words (name_read n D)"
    "http_ver (name_read n D) = http_ver D" "header_size (name_read n D) = header_size D + length n + 1"
    "host_offset (name_read n D) = host_offset D" "host_size (name_read n D) = host_size D" "data_size (name_read n D) = data_size D"
    "query_type (name_read n D) = query_type D" "uri_offset (name_read n D) = uri_offset D" "uri_size (name_read n D) = uri_size D"
    "query_seqno (name_read n D) = query_seqno D"
    "first_line_size (name_read n D) = (if first_line_size D = 0 then header_size D else first_line_size D)"
    "query_flags (name_read n D) = (if is_name ''host'' n then insert QF_HOST (query_flags D) else if is_name ''connection'' n then insert QF_CONNECTION (query_flags D)
      else if is_name ''content-length'' n then insert QF_DATASIZE (query_flags D) else query_flags D)"
proof -
  define E where "E = (if first_line_size D = 0 then D\<lparr>first_line_size := header_size D\<rparr> else D)\<lparr>wlen := 0, parse_state := htqp_readtocolon\<rparr>"
  have E: "wlen E = 0" "length (word E) = 16" "query_flags E = query_flags D" using assms by (auto simp: E_def between_lines_def)
  have r: "name_read n D = set_state htqp_skipspc (add_size (length n + 1) (header_name (put_word n E)))" by (simp add: name_read_def E_def)
  have "query_flags D - {QF_HOST, QF_DATASIZE, QF_CONNECTION} = query_flags D" using assms by (auto simp: between_lines_def)
  then show "query_flags (name_read n D) = (if is_name ''host'' n then insert QF_HOST (query_flags D) else if is_name ''connection'' n then insert QF_CONNECTION (query_flags D)
      else if is_name ''content-length'' n then insert QF_DATASIZE (query_flags D) else query_flags D)"
    using word_read(1) [OF E(1,2), where w = n] E(3) by (simp add: r header_name_def)
qed (use assms in \<open>auto simp: name_read_def between_lines_def\<close>)


text \<open>What a line does.\<close>

definition line_result :: "bytes \<times> bytes \<Rightarrow> bytes \<Rightarrow> hts_data \<Rightarrow> bool" where
  "line_result h rest D \<longleftrightarrow> (\<exists>D'. hts_parse_block (print_header h @ rest) D = hts_parse_block rest D' \<and> between_lines D' \<and>
     info_of D' = header_effect h (info_of D) \<and> same_request D D' \<and>
     first_line_size D' = (if first_line_size D = 0 then header_size D else first_line_size D))"

lemma between_linesD:
  "between_lines D \<Longrightarrow> query_flags D \<subseteq> {QF_KEEPALIVE}" "between_lines D \<Longrightarrow> http_ver D > HTTP_V09" "between_lines D \<Longrightarrow> header_size D \<noteq> 0"
  by (simp_all add: between_lines_def)

lemma line_other:
  assumes D: "between_lines D" "n \<noteq> []" "list_all name_char n" "length n \<le> 4096"
    and k: "\<not> is_name ''host'' n" "\<not> is_name ''connection'' n" "\<not> is_name ''content-length'' n" "13 \<notin> set v" "10 \<notin> set v"
    and l: "header_size D + length n + length v + 4 < MAX_HTTP_HEADER_SIZE" "rest \<noteq> []"
  shows "line_result (n, v) rest D"
proof -
  define E where "E = name_read n D"
  note E = name_read_sel [OF D(1), of n, folded E_def]
  let ?p = "32 # v @ 13 # 10 # rest"
  define ok where "ok = (\<lambda>c :: u8. c = 32 \<or> c = 9)"
  define j where "j = length (takeWhile ok v)"
  have v: "takeWhile ok ?p = 32 # takeWhile ok v" by (simp add: ok_def takeWhile_tail)
  have j1: "j \<le> length v" by (simp add: j_def length_takeWhile_le)
  have "length (takeWhile ok ?p) = Suc j" unfolding v by (simp add: j_def)
  then have j: "j \<le> length v" "skipped ok ?p E = Suc j" unfolding skipped_def using j1 l E(5) by simp_all
  define F where "F = set_state htqp_skiptoeoln (add_size (Suc j) E)"
  have f: "QF_HOST \<notin> query_flags E" "QF_CONNECTION \<notin> query_flags E" "QF_DATASIZE \<notin> query_flags E" "QF_ERROR \<notin> query_flags E" "query_flags E = query_flags D"
    using E(14) k between_linesD(1) [OF D(1)] by auto
  have h: "header_size E + Suc j < MAX_HTTP_HEADER_SIZE" using j l E(5) by simp
  have "hts_parse_step ?p E = Some (drop j v @ 13 # 10 # rest, F)"
    using E(1,3) f h j
    by (simp add: hts_parse_step_def htqp_skipspc_case_def skip_chars_eq ok_def [symmetric] F_def)
  then have "hts_parse_block ?p E = hts_parse_block (drop j v @ 13 # 10 # rest) F" using E(1) by (simp add: hts_block_step)
  also have "\<dots> = hts_parse_block rest (new_line (length (drop j v) + 2) F)"
    by (rule block_skiptoeoln) (use f h j l E(4,5) k(4,5) between_linesD(2) [OF D(1)] in \<open>auto simp: F_def dest: in_set_dropD\<close>)
  also have "new_line (length (drop j v) + 2) F = new_line (length v + 3) E" unfolding F_def new_line_add using j(1) by (simp add: numeral_3_eq_3)
  finally have "hts_parse_block (n @ 58 # ?p) D = hts_parse_block rest (new_line (length v + 3) E)" using block_name [OF D] by (simp add: E_def)
  moreover have "print_header (n, v) @ rest = n @ 58 # ?p" by (simp add: print_header_def crlf_def)
  ultimately show ?thesis
    unfolding line_result_def
    by (intro exI [of _ "new_line (length v + 3) E"]) (use E f k D(1) in \<open>auto simp: between_lines_def info_of_def header_effect_def same_request_def\<close>)
qed

text \<open>The first space.\<close>

lemma block_space:
  assumes "parse_state E = htqp_skipspc" "8 \<le> query_words E" "header_size E + 1 < MAX_HTTP_HEADER_SIZE" "c \<noteq> 32" "c \<noteq> 9" 
    and "QF_DATASIZE \<in> query_flags E \<Longrightarrow> data_size E = -1"
    and F: "F = (if QF_DATASIZE \<in> query_flags E then (add_size 1 E)\<lparr>parse_state := htqp_readint, data_size := 0\<rparr>
        else (add_size 1 E)\<lparr>wlen := 0, parse_state := htqp_readtospace\<rparr>)"
    and "QF_DATASIZE \<in> query_flags E \<or> QF_HOST \<in> query_flags E \<or> QF_CONNECTION \<in> query_flags E"
  shows "hts_parse_block (32 # c # p) E = hts_parse_block (c # p) F"
proof -
  define ok where "ok = (\<lambda>c :: u8. c = 32 \<or> c = 9)"
  have "skipped ok (32 # c # p) E = 1" using assms(3,4,5) by (simp add: skipped_def ok_def)
  then have e: "skip_chars ok (32 # c # p) E = (c # p, add_size 1 E)" by (simp add: skip_chars_eq)
  have "hts_parse_step (32 # c # p) E = Some (c # p, F)"
  proof (cases "QF_DATASIZE \<in> query_flags E")
    case True
    then show ?thesis using assms(1,2,3,6) e by (simp add: hts_parse_step_def htqp_skipspc_case_def ok_def [symmetric] F del: skip_chars.simps)
  next
    case False
    then show ?thesis using assms(1,2,3,8) e by (simp add: hts_parse_step_def htqp_skipspc_case_def ok_def [symmetric] F del: skip_chars.simps)
  qed
  then show ?thesis using assms(1) by (simp add: hts_block_step)
qed

lemma line_word:
  assumes D: "between_lines D" "n \<noteq> []" "list_all name_char n" "length n \<le> 4096"
    and k: "is_name ''host'' n \<or> is_name ''connection'' n" "v \<noteq> []" "list_all word_char v" "length v \<le> 4096"
    and l: "header_size D + length n + length v + 4 < MAX_HTTP_HEADER_SIZE" "rest \<noteq> []"
  shows "line_result (n, v) rest D"
proof -
  define E where "E = name_read n D"
  note E = name_read_sel [OF D(1), of n, folded E_def]
  obtain c w where v: "v = c # w" using k(2) by (cases v) auto
  have c: "c \<noteq> 32" "c \<noteq> 9" using k(3) by (auto simp: v word_char_def)
  have fd: "query_flags D \<subseteq> {QF_KEEPALIVE}" by (rule between_linesD(1) [OF D(1)])
  have f: "QF_DATASIZE \<notin> query_flags E" "QF_HOST \<in> query_flags E \<or> QF_CONNECTION \<in> query_flags E" "QF_ERROR \<notin> query_flags E"
    "QF_HOST \<in> query_flags E \<longleftrightarrow> is_name ''host'' n" "query_flags E - {QF_HOST, QF_CONNECTION} = query_flags D"
    using E(14) k(1) fd by auto
  define F where "F = (add_size 1 E)\<lparr>wlen := 0, parse_state := htqp_readtospace\<rparr>"
  have s: "hts_parse_block (32 # v @ 13 # 10 # rest) E = hts_parse_block (v @ 13 # 10 # rest) F"
    unfolding v append_Cons by (rule block_space) (use E(1,3,5) l c f F_def in auto)
  have F: "length (word F) = 16" "wlen F = 0" "parse_state F = htqp_readtospace" "query_words F \<ge> 8" "query_flags F = query_flags E"
    using E(2,3) by (simp_all add: F_def)
  define G where "G = (put_word v F)\<lparr>parse_state := htqp_skipspc, query_words := query_words F + 1\<rparr>"
  define H where "H = (if is_name ''host'' n then G\<lparr>host_offset := header_size G, host_size := wlen G\<rparr>
      else if is_name ''keep-alive'' v then G\<lparr>query_flags := insert QF_KEEPALIVE (query_flags G)\<rparr> else G)"
  define J where "J = add_size (length v) (H\<lparr>query_flags := query_flags H - {QF_HOST, QF_CONNECTION}, parse_state := htqp_skipspctoeoln\<rparr>)"
  have G: "query_flags G = query_flags E" "wlen G = length v" "header_size G = header_size E + 1" using F by (simp_all add: G_def F_def)
  have G': "set_state htqp_skipspc (put_word v F)\<lparr>query_words := Suc (query_words F)\<rparr> = G" by (simp add: G_def)
  have gw: "query_words G \<noteq> Suc 0" "query_words G \<noteq> 2" "query_words G \<noteq> 3" using F(4) by (simp_all add: G_def)
  have wk: "word_is_nocase ''keep-alive'' G \<longleftrightarrow> is_name ''keep-alive'' v"
    using word_read(1) [OF F(2,1), of "''keep-alive''" v] by (simp add: word_is_nocase_def G_def)
  have hw: "header_word G = Some (H\<lparr>query_flags := query_flags H - {QF_HOST, QF_CONNECTION}, parse_state := htqp_skipspctoeoln\<rparr>)"
    using f(2,4) G(1,2) k(2) by (auto simp: header_word_def Let_def wk H_def)
  have hl: "wlen H = length v" using G(2) by (simp add: H_def)
  have ok: "(\<lambda>c. 32 < unat c) = word_char" by (auto simp: word_char_def)
  have w: "takeWhile word_char (v @ 13 # 10 # rest) = v" "dropWhile word_char (v @ 13 # 10 # rest) = 13 # 10 # rest"
    using k(3) by (auto simp: takeWhile_append dropWhile_append list_all_iff word_char_def)
  have "read_word word_char (v @ 13 # 10 # rest) F = Some (13 # 10 # rest, put_word v F)" unfolding read_word_ok [OF F(1)] w ..
  then have "hts_parse_step (v @ 13 # 10 # rest) F = Some (13 # 10 # rest, J)"
    using F(2,3,4) k(4) hw hl gw by (simp add: hts_parse_step_def htqp_readtospace_case_def ok G' J_def)
  then have "hts_parse_block (v @ 13 # 10 # rest) F = hts_parse_block (13 # 10 # rest) J" using F(3) by (simp add: hts_block_step)
  also have "\<dots> = hts_parse_block rest (new_line 2 J)"
    by (rule block_skipspctoeoln) (use f G l E(4,5) between_linesD(2) [OF D(1)] in \<open>auto simp: J_def H_def G_def F_def\<close>)
  finally have "hts_parse_block (n @ 58 # 32 # v @ 13 # 10 # rest) D = hts_parse_block rest (new_line 2 J)" using s block_name [OF D] by (simp add: E_def)
  moreover have "print_header (n, v) @ rest = n @ 58 # 32 # v @ 13 # 10 # rest" by (simp add: print_header_def crlf_def)
  moreover have J: "header_size J = header_size D + length n + length v + 2" "length (word J) = 16" "8 \<le> query_words J"
    using E(2,3,5) by (simp_all add: J_def H_def G_def F_def)
  moreover have "query_flags J = (if \<not> is_name ''host'' n \<and> is_name ''keep-alive'' v then insert QF_KEEPALIVE (query_flags D) else query_flags D)"
    using f(5) by (auto simp: J_def H_def G(1))
  moreover have "host_offset J = (if is_name ''host'' n then header_size D + length n + 2 else host_offset D)"
    "host_size J = (if is_name ''host'' n then length v else host_size D)"
    using E(5,6,7) G by (simp_all add: J_def H_def) (simp_all add: G_def F_def)
  moreover have "data_size J = data_size D" "http_ver J = http_ver D" "query_type J = query_type D" "uri_offset J = uri_offset D" "uri_size J = uri_size D"
    "query_seqno J = query_seqno D" "first_line_size J = (if first_line_size D = 0 then header_size D else first_line_size D)"
    using E by (simp_all add: J_def H_def G_def F_def)
  ultimately show ?thesis
    unfolding line_result_def
    by (intro exI [of _ "new_line 2 J"]) (use k(1) D(1) fd in \<open>auto simp: between_lines_def info_of_def header_effect_def same_request_def\<close>)
qed


lemma digit_value: "d < 10 \<Longrightarrow> uint (digit d) - 48 = int d"
  by (simp add: uint_digit)

lemma digits_value_dec: "digits_value (dec_digits k) = int k"
proof (induction k rule: less_induct)
  case (less k)
  show ?case
  proof (cases "k < 10")
    case True
    then show ?thesis by (simp add: dec_digits_1 digits_value_def digit_value)
  next
    case False
    have "digits_value (dec_digits (k div 10)) = int (k div 10)" using less False by simp
    moreover have "10 * int (k div 10) + int (k mod 10) = int k" by (simp add: zdiv_int zmod_int)
    ultimately show ?thesis using False by (simp add: dec_digits_Suc digits_value_def digit_value)
  qed
qed

lemma read_digits_dec:
  "k < 2147483640 \<Longrightarrow> read_digits (dec_digits k @ s) 0 D =
    read_digits s (int k) ((add_size (length (dec_digits k)) D)\<lparr>query_flags := query_flags D - {QF_DATASIZE}\<rparr>)"
proof (induction k arbitrary: s rule: less_induct)
  case (less k)
  have a: "(add_size (Suc 0) ((add_size m D)\<lparr>query_flags := g\<rparr>))\<lparr>query_flags := g\<rparr> = (add_size (Suc m) D)\<lparr>query_flags := g\<rparr>" for m g
    by (cases D) (simp add: add_size_def)
  show ?case
  proof (cases "k < 10")
    case True
    then show ?thesis by (simp add: dec_digits_1 digit_facts digit_value)
  next
    case False
    let ?E = "(add_size (length (dec_digits (k div 10))) D)\<lparr>query_flags := query_flags D - {QF_DATASIZE}\<rparr>"
    have "read_digits (dec_digits k @ s) 0 D = read_digits (digit (k mod 10) # s) (int (k div 10)) ?E"
      using less.IH [of "k div 10" "digit (k mod 10) # s"] less.prems False by (simp add: dec_digits_Suc)
    also have "\<dots> = read_digits s (int (k div 10) * 10 + int (k mod 10)) (add_size 1 ?E\<lparr>query_flags := query_flags ?E - {QF_DATASIZE}\<rparr>)"
    proof -
      have "\<not> int (k div 10) \<ge> 0x7fffffff div 10" using less.prems by simp
      then show ?thesis by (simp add: digit_facts digit_value del: of_nat_div of_nat_mod zdiv_int zmod_int)
    qed
    also have "int (k div 10) * 10 + int (k mod 10) = int k" by (simp add: zdiv_int zmod_int)
    finally show ?thesis using False by (simp add: a dec_digits_Suc)
  qed
qed

lemma dec_digits_nonempty: "dec_digits k \<noteq> []"
  by (simp add: dec_digits.simps [of k])

lemma dec_digits_hd: "is_digit (hd (dec_digits k))"
proof (induction k rule: less_induct)
  case (less k)
  then show ?case by (cases "k < 10") (simp_all add: dec_digits_1 dec_digits_Suc digit_facts dec_digits_nonempty)
qed

lemma line_length:
  assumes D: "between_lines D" "n \<noteq> []" "list_all name_char n" "length n \<le> 4096"
    and k: "\<not> is_name ''host'' n" "\<not> is_name ''connection'' n" "is_name ''content-length'' n" "data_size D = -1" "m < 2147483640" "v = dec_digits m"
    and l: "header_size D + length n + length v + 4 < MAX_HTTP_HEADER_SIZE" "rest \<noteq> []"
  shows "line_result (n, v) rest D"
proof -
  define E where "E = name_read n D"
  note E = name_read_sel [OF D(1), of n, folded E_def]
  obtain c w where v: "v = c # w" using dec_digits_nonempty [of m] k(6) by (metis neq_Nil_conv)
  have "is_digit c" using dec_digits_hd [of m] k(6) v by (metis list.sel(1))
  then have c: "c \<noteq> 32" "c \<noteq> 9" by (auto simp: is_digit_def)
  have fd: "query_flags D \<subseteq> {QF_KEEPALIVE}" by (rule between_linesD(1) [OF D(1)])
  have f: "QF_DATASIZE \<in> query_flags E" "query_flags E - {QF_DATASIZE} = query_flags D" using E(14) k fd by auto
  define F where "F = (add_size 1 E)\<lparr>parse_state := htqp_readint, data_size := 0\<rparr>"
  have s: "hts_parse_block (32 # v @ 13 # 10 # rest) E = hts_parse_block (v @ 13 # 10 # rest) F"
    unfolding v append_Cons by (rule block_space) (use E(1,3,5,8) k(4) l c f F_def in auto)
  define G where "G = (add_size (length v) F)\<lparr>query_flags := query_flags F - {QF_DATASIZE}\<rparr>"
  have r: "read_digits (v @ 13 # 10 # rest) 0 F = (13 # 10 # rest, int m, G)"
    using read_digits_dec [OF k(5), of "13 # 10 # rest" F] k(6) by (simp add: G_def is_digit_def)
  define J where "J = set_state htqp_skipspctoeoln (G\<lparr>data_size := int m\<rparr>)"
  have g: "QF_DATASIZE \<notin> query_flags G" "data_size F = 0" "parse_state F = htqp_readint" by (simp_all add: G_def F_def)
  have "hts_parse_step (v @ 13 # 10 # rest) F = Some (13 # 10 # rest, J)"
    using r g by (simp add: hts_parse_step_def htqp_readint_case_def J_def Let_def)
  then have "hts_parse_block (v @ 13 # 10 # rest) F = hts_parse_block (13 # 10 # rest) J" using g(3) by (simp add: hts_block_step)
  also have "\<dots> = hts_parse_block rest (new_line 2 J)"
    by (rule block_skipspctoeoln) (use f fd l E(4,5) between_linesD(2) [OF D(1)] in \<open>auto simp: J_def G_def F_def\<close>)
  finally have "hts_parse_block (n @ 58 # 32 # v @ 13 # 10 # rest) D = hts_parse_block rest (new_line 2 J)" using s block_name [OF D] by (simp add: E_def)
  moreover have "print_header (n, v) @ rest = n @ 58 # 32 # v @ 13 # 10 # rest" by (simp add: print_header_def crlf_def)
  moreover have "header_size J = header_size D + length n + length v + 2" "length (word J) = 16" "8 \<le> query_words J" "query_flags J = query_flags D"
    using E(2,3,5) f by (simp_all add: J_def G_def F_def)
  moreover have "data_size J = digits_value v" using k(6) by (simp add: J_def digits_value_dec)
  moreover have "host_offset J = host_offset D" "host_size J = host_size D" "http_ver J = http_ver D" "query_type J = query_type D" "uri_offset J = uri_offset D"
    "uri_size J = uri_size D" "query_seqno J = query_seqno D" "first_line_size J = (if first_line_size D = 0 then header_size D else first_line_size D)"
    using E by (simp_all add: J_def G_def F_def)
  ultimately show ?thesis
    unfolding line_result_def
    by (intro exI [of _ "new_line 2 J"]) (use k D(1) fd in \<open>auto simp: between_lines_def info_of_def header_effect_def same_request_def\<close>)
qed

lemma block_header:
  assumes "between_lines D" "proper_header (info_of D) h" "header_size D + length (print_header h) < MAX_HTTP_HEADER_SIZE" "rest \<noteq> []"
  shows "line_result h rest D"
proof -
  obtain n v where h: "h = (n, v)" by (cases h)
  have p: "n \<noteq> []" "list_all name_char n" "length n \<le> 4096"
    "if is_name ''host'' n \<or> is_name ''connection'' n then v \<noteq> [] \<and> list_all word_char v \<and> length v \<le> 4096
      else if is_name ''content-length'' n then data_size D = -1 \<and> (\<exists>k < 2147483640. v = dec_digits k)
      else 13 \<notin> set v \<and> 10 \<notin> set v"
    using assms(2) by (auto simp: proper_header_def h info_of_def)
  have l: "header_size D + length n + length v + 4 < MAX_HTTP_HEADER_SIZE" using assms(3) by (simp add: print_header_def h)
  show ?thesis
    unfolding h using p(4) line_word [OF assms(1) p(1-3) _ _ _ _ l assms(4)] line_length [OF assms(1) p(1-3) _ _ _ _ _ _ l assms(4)]
      line_other [OF assms(1) p(1-3) _ _ _ _ _ l assms(4)] by (auto split: if_split_asm)
qed


lemma block_headers:
  assumes "between_lines D" "proper_headers (info_of D) hs" "header_size D + length (concat (map print_header hs)) < MAX_HTTP_HEADER_SIZE" "rest \<noteq> []"
  shows "\<exists>D'. hts_parse_block (concat (map print_header hs) @ rest) D = hts_parse_block rest D' \<and> between_lines D' \<and>
    info_of D' = fold header_effect hs (info_of D) \<and> same_request D D' \<and>
    (if first_line_size D' = 0 then header_size D' else first_line_size D') = (if first_line_size D = 0 then header_size D else first_line_size D)"
  using assms(1-3)
proof (induction hs arbitrary: D)
  case Nil
  then show ?case by (auto simp: same_request_def)
next
  case (Cons h hs)
  have l: "header_size D + length (print_header h) < MAX_HTTP_HEADER_SIZE" using Cons.prems(3) by simp
  have "line_result h (concat (map print_header hs) @ rest) D" by (rule block_header) (use Cons.prems l assms(4) in auto)
  then obtain E where E: "hts_parse_block (print_header h @ concat (map print_header hs) @ rest) D = hts_parse_block (concat (map print_header hs) @ rest) E"
    "between_lines E" "info_of E = header_effect h (info_of D)" "same_request D E"
    "first_line_size E = (if first_line_size D = 0 then header_size D else first_line_size D)"
    by (auto simp: line_result_def)
  have "header_size E = header_size D + length (print_header h)"
    using arg_cong [OF E(3), of ri_size] by (cases h) (simp add: info_of_def header_effect_def print_header_def)
  then obtain D' where "hts_parse_block (concat (map print_header hs) @ rest) E = hts_parse_block rest D'" "between_lines D'"
    "info_of D' = fold header_effect hs (info_of E)" "same_request E D'"
    "(if first_line_size D' = 0 then header_size D' else first_line_size D') = (if first_line_size E = 0 then header_size E else first_line_size E)"
    using Cons.IH [OF E(2)] Cons.prems(2,3) E(3) by auto
  moreover have "first_line_size E \<noteq> 0" using E(5) between_linesD(3) [OF Cons.prems(1)] by simp
  ultimately show ?case using E by (intro exI [of _ D']) (auto simp: same_request_def)
qed

lemma block_end:
  assumes "between_lines D"
  shows "\<exists>D'. hts_parse_block (13 # 10 # rest) D = Some (rest, D') \<and> parse_state D' = htqp_done \<and> query_flags D' = query_flags D \<and>
    info_of D' = (info_of D)\<lparr>ri_size := ri_size (info_of D) + 2\<rparr> \<and> same_request D D' \<and>
    first_line_size D' = (if first_line_size D = 0 then header_size D else first_line_size D)"
proof -
  define E where "E = (if first_line_size D = 0 then D\<lparr>first_line_size := header_size D\<rparr> else D)"
  define F where "F = set_state htqp_wantlastlf (add_size 1 E)"
  have s: "parse_state D = htqp_linestart" "first_line_size E \<noteq> 0" using assms by (auto simp: between_lines_def E_def)
  have "hts_parse_step (13 # 10 # rest) D = Some (10 # rest, F)"
    using s(1) by (simp add: hts_parse_step_def htqp_linestart_case_def F_def E_def Let_def)
  then have "hts_parse_block (13 # 10 # rest) D = hts_parse_block (10 # rest) F" using s(1) by (simp add: hts_block_step)
  moreover have "hts_parse_step (10 # rest) F = Some (rest, set_state htqp_done (add_size 1 F))"
    using s(2) by (simp add: hts_parse_step_def htqp_wantlastlf_case_def F_def Let_def)
  ultimately have "hts_parse_block (13 # 10 # rest) D = Some (rest, set_state htqp_done (add_size 1 F))"
    by (simp add: hts_block_step hts_block_end F_def)
  then show ?thesis by (intro exI [of _ "set_state htqp_done (add_size 1 F)"]) (auto simp: F_def E_def info_of_def same_request_def)
qed

section \<open>The first line\<close>

lemma block_word:
  assumes "parse_state F = htqp_readtospace" "length (word F) = 16" "wlen F = 0" "list_all word_char w" "length w \<le> 4096" "\<not> word_char c" "w \<noteq> []"
    and G: "G = (put_word w F)\<lparr>parse_state := htqp_skipspc, query_words := query_words F + 1\<rparr>"
    and H: "(if query_words G = 1 then Some (first_word G) else if query_words G = 2 then Some (uri_word G)
      else if query_words G = 3 then Some (version_word G) else header_word G) = Some H"
  shows "hts_parse_block (w @ c # p) F = hts_parse_block (c # p) (add_size (wlen H) H)"
proof -
  have ok: "(\<lambda>c. 32 < unat c) = word_char" by (auto simp: word_char_def)
  have w: "takeWhile word_char (w @ c # p) = w" "dropWhile word_char (w @ c # p) = c # p"
    using assms(4,6) by (auto simp: takeWhile_tail list_all_iff dropWhile_append takeWhile_eq_all_conv)
  have "read_word word_char (w @ c # p) F = Some (c # p, put_word w F)" unfolding read_word_ok [OF assms(2)] w ..
  moreover have "(put_word w F)\<lparr>parse_state := htqp_skipspc, query_words := query_words (put_word w F) + 1\<rparr> = G" by (simp add: G)
  ultimately have "htqp_readtospace_case (w @ c # p) F = Some (c # p, add_size (wlen H) H)"
    using assms(3,5) H unfolding htqp_readtospace_case_def ok Let_def by (auto split: if_split_asm)
  then show ?thesis using assms(1,7) by (intro hts_block_step) (simp_all add: hts_parse_step_def)
qed

lemma block_space1:
  assumes "parse_state E = htqp_skipspc" "query_words E < 3" "header_size E + 1 < MAX_HTTP_HEADER_SIZE" "c \<noteq> 32"
  shows "hts_parse_block (32 # c # p) E = hts_parse_block (c # p) ((add_size 1 E)\<lparr>wlen := 0, parse_state := htqp_readtospace\<rparr>)"
proof -
  have "skip_chars (\<lambda>c. c = 32 \<or> c = 9 \<and> query_words E \<ge> 8) (32 # c # p) E = (c # p, add_size 1 E)" using assms by simp
  then have "hts_parse_step (32 # c # p) E = Some (c # p, (add_size 1 E)\<lparr>wlen := 0, parse_state := htqp_readtospace\<rparr>)"
    using assms unfolding hts_parse_step_def htqp_skipspc_case_def by simp
  then show ?thesis using assms(1) by (simp add: hts_block_step)
qed

fun method_text :: "hts_query_type \<Rightarrow> string" where
  "method_text htqt_get = ''GET''"
| "method_text htqt_head = ''HEAD''"
| "method_text htqt_post = ''POST''"
| "method_text htqt_options = ''OPTIONS''"
| "method_text _ = ''''"

definition version_text :: "nat \<Rightarrow> string" where
  "version_text v = (if v = HTTP_V10 then ''HTTP/1.0'' else ''HTTP/1.1'')"

definition first_line :: "hts_query_type \<Rightarrow> bytes \<Rightarrow> nat \<Rightarrow> bytes" where
  "first_line t u v = text_bytes (method_text t) @ 32 # u @ 32 # text_bytes (version_text v) @ crlf"

lemma version_versions: "HTTP_V10 \<noteq> HTTP_V11" "HTTP_V10 > HTTP_V09" "HTTP_V11 > HTTP_V09"
  by (simp_all add: HTTP_V10_def HTTP_V11_def HTTP_V09_def)

lemma text_bytes_inj: "text_bytes x = text_bytes y \<longleftrightarrow> x = y"
proof -
  have "inj (\<lambda>c. word_of_nat (of_char c) :: u8)"
  proof (rule injI)
    fix c d :: char
    assume "word_of_nat (of_char c) = (word_of_nat (of_char d) :: u8)"
    then have "unat (word_of_nat (of_char c) :: u8) = unat (word_of_nat (of_char d) :: u8)" by simp
    then have "of_char c mod 256 = (of_char d mod 256 :: nat)" by (simp add: unat_of_nat)
    then show "c = d" by simp
  qed
  then show ?thesis by (simp add: text_bytes_def inj_map_eq_map)
qed

lemma method_word:
  assumes "t \<in> {htqt_get, htqt_head, htqt_post, htqt_options}" "wlen F = 0" "length (word F) = 16"
    and G: "G = (put_word (text_bytes (method_text t)) F)\<lparr>parse_state := s, query_words := n\<rparr>"
  shows "first_word G = G\<lparr>query_type := t\<rparr>"
proof -
  have w: "word_is x G \<longleftrightarrow> method_text t = x" if "length x \<le> 15" for x
    using word_read(2) [OF assms(2,3) that, of "text_bytes (method_text t)"] by (simp add: G word_is_def text_bytes_inj)
  have l: "wlen G = length (method_text t)" using assms(2) by (simp add: G)
  show ?thesis using assms(1) by (elim insertE emptyE) (simp_all add: first_word_def w l Let_def)
qed

lemma version_word_read:
  assumes "v \<in> {HTTP_V10, HTTP_V11}" "wlen F = 0" "length (word F) = 16"
    and G: "G = (put_word (text_bytes (version_text v)) F)\<lparr>parse_state := s, query_words := n\<rparr>"
  shows "version_word G = (set_state htqp_skipspctoeoln G)\<lparr>http_ver := v\<rparr>"
proof -
  have w: "word_is x (set_state z G) \<longleftrightarrow> version_text v = x" if "length x \<le> 15" for x z
    using word_read(2) [OF assms(2,3) that, of "text_bytes (version_text v)"] by (simp add: G word_is_def text_bytes_inj)
  have l: "wlen G = 8" using assms(2) by (simp add: G version_text_def)
  show ?thesis using assms(1) version_versions(1) by (elim insertE emptyE) (simp_all add: version_word_def w l Let_def version_text_def)
qed

lemma text_bytes_length: "length (text_bytes x) = length x"
  by (simp add: text_bytes_def)

lemma text_bytes_Nil: "text_bytes x = [] \<longleftrightarrow> x = []"
  by (simp add: text_bytes_def)

lemma method_chars: "t \<in> {htqt_get, htqt_head, htqt_post, htqt_options} \<Longrightarrow> list_all word_char (text_bytes (method_text t)) \<and> method_text t \<noteq> [] \<and> length (method_text t) \<le> 7"
  by (auto simp: text_bytes_def word_char_def)

lemma version_chars: "list_all word_char (text_bytes (version_text v))" "length (version_text v) = 8" "hd (text_bytes (version_text v)) = 72"
  by (auto simp: version_text_def text_bytes_def word_char_def)

lemma word_char_32: "\<not> word_char 32" "\<not> word_char 13"
  by (simp_all add: word_char_def)

lemma block_start:
  assumes "parse_state D = htqp_start" "p \<noteq> []"
  shows "hts_parse_block p D = hts_parse_block p (htqp_start_case D)"
proof -
  have s: "parse_state (htqp_start_case D) = htqp_readtospace" by (simp add: htqp_start_case_def)
  have "hts_parse_step p D = hts_parse_step p (htqp_start_case D)" by (simp add: hts_parse_step_def assms(1) s)
  then show ?thesis unfolding hts_parse_block.simps [of p D] hts_parse_block.simps [of p "htqp_start_case D"] using assms s by simp
qed

lemma block_first_line:
  assumes t: "t \<in> {htqt_get, htqt_head, htqt_post, htqt_options}" and u: "u \<noteq> []" "list_all word_char u" "length u \<le> 4096"
    and v: "v \<in> {HTTP_V10, HTTP_V11}" and D: "parse_state D = htqp_start" and "rest \<noteq> []" "length (first_line t u v) < MAX_HTTP_HEADER_SIZE"
  obtains D' where "hts_parse_block (first_line t u v @ rest) D = hts_parse_block rest D'" "between_lines D'" "query_type D' = t" "http_ver D' = v"
    "uri_offset D' = length (method_text t) + 1" "uri_size D' = length u" "first_line_size D' = 0"
    "info_of D' = \<lparr>ri_host_offset = 0, ri_host_size = 0, ri_data_size = -1, ri_keepalive = False, ri_size = length (first_line t u v)\<rparr>"
proof -
  define m where "m = text_bytes (method_text t)"
  define w where "w = text_bytes (version_text v)"
  have mw: "list_all word_char m" "m \<noteq> []" "length m \<le> 7" "length m = length (method_text t)"
    using method_chars [OF t] by (simp_all only: m_def text_bytes_length text_bytes_Nil simp_thms)
  have ww: "list_all word_char w" "length w = 8" "hd w = 72" using version_chars by (auto simp: w_def)
  obtain c u' where uc: "u = c # u'" using u(1) by (cases u) auto
  have c32: "c \<noteq> 32" using u(2) uc word_char_32 by auto
  obtain w' where wc: "w = 72 # w'" using ww(2,3) by (cases w) auto
  note sp = word_char_32
  have l: "length m + length u + 12 < MAX_HTTP_HEADER_SIZE" using assms(8) mw(4) ww(2) by (simp add: first_line_def w_def [symmetric])
  let ?r = "13 # 10 # rest"
  define A where "A = htqp_start_case D"
  have A: "parse_state A = htqp_readtospace" "length (word A) = 16" "wlen A = 0" "query_words A = 0" "header_size A = 0" "query_flags A = {}" "data_size A = -1"
    "host_offset A = 0" "host_size A = 0" "first_line_size A = 0" by (simp_all add: A_def htqp_start_case_def)
  have p: "first_line t u v @ rest = m @ 32 # u @ 32 # w @ ?r" by (simp add: first_line_def m_def w_def crlf_def)
  have 0: "hts_parse_block (m @ 32 # u @ 32 # w @ ?r) D = hts_parse_block (m @ 32 # u @ 32 # w @ ?r) A"
    unfolding A_def by (rule block_start) (use D in simp_all)
  define B where "B = add_size (length m) (((put_word m A)\<lparr>parse_state := htqp_skipspc, query_words := 1\<rparr>)\<lparr>query_type := t\<rparr>)"
  define G1 where "G1 = (put_word m A)\<lparr>parse_state := htqp_skipspc, query_words := query_words A + 1\<rparr>"
  have g1: "first_word G1 = G1\<lparr>query_type := t\<rparr>" by (rule method_word [OF t A(3,2)]) (simp add: G1_def m_def)
  have 1: "hts_parse_block (m @ 32 # u @ 32 # w @ ?r) A = hts_parse_block (32 # u @ 32 # w @ ?r) B"
    by (subst block_word [OF A(1-3) mw(1) _ sp(1) mw(2) G1_def, of "first_word G1"]) (use mw A(3,4) g1 in \<open>simp_all add: G1_def B_def\<close>)
  define B' where "B' = (add_size 1 B)\<lparr>wlen := 0, parse_state := htqp_readtospace\<rparr>"
  have 2: "hts_parse_block (32 # u @ 32 # w @ ?r) B = hts_parse_block (u @ 32 # w @ ?r) B'"
    unfolding uc append_Cons B'_def by (rule block_space1) (use c32 l A(5) in \<open>simp_all add: B_def\<close>)
  have B': "parse_state B' = htqp_readtospace" "length (word B') = 16" "wlen B' = 0" "query_words B' = 1" using A(2) by (simp_all add: B'_def B_def)
  define G2 where "G2 = (put_word u B')\<lparr>parse_state := htqp_skipspc, query_words := query_words B' + 1\<rparr>"
  define E where "E = add_size (length u) (G2\<lparr>uri_offset := length m + 1, uri_size := length u\<rparr>)"
  have g2: "uri_word G2 = G2\<lparr>uri_offset := length m + 1, uri_size := length u\<rparr>"
    using u(1) B'(3) A(5) by (simp add: uri_word_def G2_def) (simp add: B'_def B_def)
  have 3: "hts_parse_block (u @ 32 # w @ ?r) B' = hts_parse_block (32 # w @ ?r) E"
    by (subst block_word [OF B'(1-3) u(2,3) sp(1) u(1) G2_def, of "uri_word G2"]) (use B'(3,4) g2 in \<open>simp_all add: E_def G2_def\<close>)
  define E' where "E' = (add_size 1 E)\<lparr>wlen := 0, parse_state := htqp_readtospace\<rparr>"
  have 4: "hts_parse_block (32 # w @ ?r) E = hts_parse_block (w @ ?r) E'"
    unfolding wc append_Cons E'_def by (rule block_space1) (use B'(4) l A(5) in \<open>simp_all add: E_def G2_def B'_def B_def\<close>)
  have E': "parse_state E' = htqp_readtospace" "length (word E') = 16" "wlen E' = 0" "query_words E' = 2" using B'(2,4) by (simp_all add: E'_def E_def G2_def)
  define G3 where "G3 = (put_word w E')\<lparr>parse_state := htqp_skipspc, query_words := query_words E' + 1\<rparr>"
  define F where "F = add_size (length w) ((set_state htqp_skipspctoeoln G3)\<lparr>http_ver := v\<rparr>)"
  have g3: "version_word G3 = (set_state htqp_skipspctoeoln G3)\<lparr>http_ver := v\<rparr>" by (rule version_word_read [OF v E'(3,2)]) (simp add: G3_def w_def)
  have 5: "hts_parse_block (w @ ?r) E' = hts_parse_block ?r F"
    by (subst block_word [OF E'(1-3) ww(1) _ sp(2) _ G3_def, of "version_word G3"]) (use ww(2) wc E'(3,4) g3 in \<open>simp_all add: F_def G3_def\<close>)
  have 6: "hts_parse_block ?r F = hts_parse_block rest (new_line 2 F)"
    by (rule block_skipspctoeoln) (use assms(7) v version_versions l ww(2) A(5,6) in \<open>auto simp: F_def G3_def E'_def E_def G2_def B'_def B_def\<close>)
  have "hts_parse_block (first_line t u v @ rest) D = hts_parse_block rest (new_line 2 F)" unfolding p 0 1 2 3 4 5 6 ..
  moreover have h: "header_size (new_line 2 F) = length (first_line t u v)"
    using mw(4) ww(2) A(5) by (simp add: F_def G3_def E'_def E_def G2_def B'_def B_def first_line_def w_def [symmetric])
  moreover have f: "parse_state (new_line 2 F) = htqp_linestart" "length (word (new_line 2 F)) = 16" "query_flags (new_line 2 F) = {}" "8 \<le> query_words (new_line 2 F)"
    "query_type (new_line 2 F) = t" "http_ver (new_line 2 F) = v" "uri_offset (new_line 2 F) = length (method_text t) + 1" "uri_size (new_line 2 F) = length u"
    "first_line_size (new_line 2 F) = 0" "host_offset (new_line 2 F) = 0" "host_size (new_line 2 F) = 0" "data_size (new_line 2 F) = -1"
    using A mw(4) E'(2) by (simp_all add: F_def G3_def E'_def E_def G2_def B'_def B_def)
  moreover have "http_ver (new_line 2 F) > HTTP_V09" using v version_versions f(6) by auto
  moreover have "length (first_line t u v) \<noteq> 0" by (simp add: first_line_def)
  ultimately show ?thesis
    by (intro that [of "new_line 2 F"]) (simp_all add: between_lines_def info_of_def)
qed

section \<open>A request\<close>

definition print_request :: "hts_query_type \<Rightarrow> bytes \<Rightarrow> nat \<Rightarrow> (bytes \<times> bytes) list \<Rightarrow> bytes" where
  "print_request t u v hs = first_line t u v @ concat (map print_header hs) @ crlf"

definition start_info :: "hts_query_type \<Rightarrow> bytes \<Rightarrow> nat \<Rightarrow> request_info" where
  "start_info t u v = \<lparr>ri_host_offset = 0, ri_host_size = 0, ri_data_size = -1, ri_keepalive = False, ri_size = length (first_line t u v)\<rparr>"

definition proper_request :: "hts_query_type \<Rightarrow> bytes \<Rightarrow> nat \<Rightarrow> (bytes \<times> bytes) list \<Rightarrow> bool" where
  "proper_request t u v hs \<longleftrightarrow> t \<in> {htqt_get, htqt_head, htqt_post, htqt_options} \<and> u \<noteq> [] \<and> list_all word_char u \<and> length u \<le> 4096 \<and>
     v \<in> {HTTP_V10, HTTP_V11} \<and> proper_headers (start_info t u v) hs \<and> length (print_request t u v hs) < MAX_HTTP_HEADER_SIZE"

text \<open>What the parser has to find out about a request.\<close>

definition describes :: "hts_query_type \<Rightarrow> bytes \<Rightarrow> nat \<Rightarrow> (bytes \<times> bytes) list \<Rightarrow> hts_data \<Rightarrow> bool" where
  "describes t u v hs Q \<longleftrightarrow> parse_state Q = htqp_done \<and> QF_ERROR \<notin> query_flags Q \<and> query_type Q = t \<and> http_ver Q = v \<and>
     take (uri_size Q) (drop (uri_offset Q) (print_request t u v hs)) = u \<and> first_line_size Q = length (first_line t u v) \<and>
     header_size Q = length (print_request t u v hs) \<and>
     info_of Q = (fold header_effect hs (start_info t u v))\<lparr>ri_size := header_size Q\<rparr>"

lemma size_effects: "ri_size (fold header_effect hs r) = ri_size r + length (concat (map print_header hs))"
  by (induction hs arbitrary: r) (auto simp: header_effect_def print_header_def crlf_def)

lemma request_parsed:
  assumes r: "proper_request t u v hs" and D: "parse_state D = htqp_start"
  shows "\<exists>Q. hts_parse_block (print_request t u v hs @ rest) D = Some (rest, Q) \<and> describes t u v hs Q"
proof -
  let ?h = "concat (map print_header hs)"
  have len: "length (first_line t u v) + length ?h + 2 < MAX_HTTP_HEADER_SIZE" using r by (simp add: proper_request_def print_request_def crlf_def)
  have p: "print_request t u v hs @ rest = first_line t u v @ ?h @ 13 # 10 # rest" by (simp add: print_request_def crlf_def)
  obtain A where A: "hts_parse_block (first_line t u v @ ?h @ 13 # 10 # rest) D = hts_parse_block (?h @ 13 # 10 # rest) A" "between_lines A" "query_type A = t"
    "http_ver A = v" "uri_offset A = length (method_text t) + 1" "uri_size A = length u" "first_line_size A = 0" "info_of A = start_info t u v"
    using block_first_line [of t u v D "?h @ 13 # 10 # rest"] r D len unfolding proper_request_def start_info_def by auto
  have hA: "header_size A = length (first_line t u v)" using arg_cong [OF A(8), of ri_size] by (simp add: info_of_def start_info_def)
  obtain B where B: "hts_parse_block (?h @ 13 # 10 # rest) A = hts_parse_block (13 # 10 # rest) B" "between_lines B"
    "info_of B = fold header_effect hs (info_of A)" "same_request A B" "(if first_line_size B = 0 then header_size B else first_line_size B) = header_size A"
    using block_headers [OF A(2), of hs "13 # 10 # rest"] r len A(7,8) hA by (auto simp: proper_request_def)
  obtain Q where Q: "hts_parse_block (13 # 10 # rest) B = Some (rest, Q)" "parse_state Q = htqp_done" "query_flags Q = query_flags B"
    "info_of Q = (info_of B)\<lparr>ri_size := ri_size (info_of B) + 2\<rparr>" "same_request B Q" "first_line_size Q = (if first_line_size B = 0 then header_size B else first_line_size B)"
    using block_end [OF B(2), of rest] by blast
  have i: "ri_size (info_of X) = header_size X" for X by (simp add: info_of_def)
  have "header_size B = header_size A + length ?h" using arg_cong [OF B(3), of ri_size] unfolding size_effects i .
  then have s: "header_size Q = length (print_request t u v hs)"
    using arg_cong [OF Q(4), of ri_size] hA by (simp add: i print_request_def crlf_def)
  have "QF_ERROR \<notin> query_flags Q" using between_linesD(1) [OF B(2)] Q(3) by auto
  moreover have "info_of Q = (fold header_effect hs (start_info t u v))\<lparr>ri_size := header_size Q\<rparr>"
  proof -
    have "ri_size (info_of B) + 2 = header_size Q" using arg_cong [OF Q(4), of ri_size] by (simp add: info_of_def)
    then show ?thesis using Q(4) B(3) A(8) by simp
  qed
  moreover have "uri_size Q = length u" "uri_offset Q = length (method_text t) + 1" "query_type Q = t" "http_ver Q = v"
    using A(3-6) B(4) Q(5) by (simp_all add: same_request_def)
  moreover have "take (length u) (drop (length (method_text t) + 1) (print_request t u v hs)) = u" by (simp add: print_request_def first_line_def)
  ultimately have "describes t u v hs Q" using Q(2,6) B(5) hA s by (simp add: describes_def)
  then show ?thesis using p A(1) B(1) Q(1) by auto
qed

definition idle :: "hts_conn \<Rightarrow> bool" where
  "idle C \<longleftrightarrow> hc_status C = conn_working \<and> hc_pending_queries C = 0 \<and> \<not> hc_error C \<and> \<not> hc_stopparse C \<and> [] \<notin> set (hc_in C)"

lemma request_handled:
  assumes "proper_request t u v hs" "idle C" "concat (hc_in C) = print_request t u v hs @ rest"
  shows "\<exists>Q. describes t u v hs Q \<and> hts_parse_execute execute now D C G = do {
      r \<leftarrow> hts_done execute now Q C G;
      case r of Inl a \<Rightarrow> Some a | Inr (D, C, G) \<Rightarrow> hts_loop execute now (hc_in C) D C G }"
proof -
  obtain Q where Q: "hts_parse_block (concat (hc_in C)) (set_state htqp_start D) = Some (rest, Q)" "describes t u v hs Q"
    using request_parsed [OF assms(1), of "set_state htqp_start D" rest] assms(3) by auto
  have "hts_parse_execute execute now D C G = do {
      r \<leftarrow> hts_done execute now Q C G;
      case r of Inl a \<Rightarrow> Some a | Inr (D, C, G) \<Rightarrow> hts_loop execute now (hc_in C) D C G }"
    unfolding hts_parse_execute_def
    by (rule loop_blocks [of 0 _ _ rest]) (use assms(2) Q in \<open>auto simp: idle_def describes_def hts_inv_def\<close>)
  then show ?thesis using Q(2) by blast
qed

text \<open>A sample request: \<^verbatim>\<open>POST /api HTTP/1.1\<close> with a length of the body.\<close>

definition sample_uri :: bytes where
  "sample_uri = [47, 97, 112, 105]"

definition sample_headers :: "nat \<Rightarrow> (bytes \<times> bytes) list" where
  "sample_headers k = [(text_bytes ''Host'', [97, 98]), (text_bytes ''Content-Length'', dec_digits k)]"

lemma sample_names: "is_name ''host'' (text_bytes ''Host'')" "\<not> is_name ''host'' (text_bytes ''Content-Length'')"
  "\<not> is_name ''connection'' (text_bytes ''Content-Length'')" "is_name ''content-length'' (text_bytes ''Content-Length'')"
  by (simp_all add: is_name_def case_eq_def to_lower_def text_bytes_def)

lemma sample_proper:
  assumes "k < 2147483640" "length (dec_digits k) \<le> 10"
  shows "proper_request htqt_post sample_uri HTTP_V11 (sample_headers k)"
proof -
  have "list_all name_char (text_bytes ''Host'')" "list_all name_char (text_bytes ''Content-Length'')" "list_all word_char sample_uri" "list_all word_char [97, 98]"
    by (simp_all add: name_char_def word_char_def text_bytes_def sample_uri_def)
  moreover have "\<exists>j<2147483640. dec_digits k = dec_digits j" using assms(1) by blast
  moreover have "text_bytes ''Host'' \<noteq> []" "text_bytes ''Content-Length'' \<noteq> []" by (simp_all add: text_bytes_Nil)
  ultimately have "proper_headers (start_info htqt_post sample_uri HTTP_V11) (sample_headers k)"
    using sample_names by (simp add: sample_headers_def proper_header_def header_effect_def start_info_def)
  moreover have "length (print_request htqt_post sample_uri HTTP_V11 (sample_headers k)) < MAX_HTTP_HEADER_SIZE"
    using assms(2) by (simp add: print_request_def first_line_def sample_headers_def print_header_def crlf_def sample_uri_def version_text_def MAX_HTTP_HEADER_SIZE_def)
  ultimately show ?thesis using \<open>list_all word_char sample_uri\<close> by (simp add: proper_request_def sample_uri_def)
qed

text \<open>
  C39. A request that is printed is parsed back. When the input of a connection begins with a request line and header lines, as a
  client writes them, in blocks of any sizes, \<open>hts_parse_execute\<close> arrives at the handling of a query (\<open>hts_done\<close>) that describes it: the
  method, the version, the place of the URI in the header, the place of the host, the length of the body, whether the connection
  is to be kept, and the size of the first line and of the header, which ends exactly behind the empty line.
\<close>

theorem http_request_parsed:
  assumes "proper_request t u v hs" "idle C" "concat (hc_in C) = print_request t u v hs @ rest"
  shows "\<exists>Q. describes t u v hs Q \<and> hts_parse_execute execute now D C G = do {
      r \<leftarrow> hts_done execute now Q C G;
      case r of Inl a \<Rightarrow> Some a | Inr (D, C, G) \<Rightarrow> hts_loop execute now (hc_in C) D C G }"
  using assms by (rule request_handled)

definition sample_input :: "nat \<Rightarrow> bytes list" where
  "sample_input k = (let s = print_request htqt_post sample_uri HTTP_V11 (sample_headers k) in [take 7 s, drop 7 s, [1, 2, 3]])"

lemma sample_idle: "idle (sample_hts_conn (sample_input k))" "concat (hc_in (sample_hts_conn (sample_input k))) =
    print_request htqt_post sample_uri HTTP_V11 (sample_headers k) @ [1, 2, 3]"
proof -
  let ?s = "print_request htqt_post sample_uri HTTP_V11 (sample_headers k)"
  have "7 < length ?s" by (simp add: print_request_def first_line_def version_text_def)
  then have "take 7 ?s \<noteq> []" "drop 7 ?s \<noteq> []" by auto
  then show "idle (sample_hts_conn (sample_input k))" by (simp add: idle_def sample_hts_conn_def sample_input_def Let_def)
  show "concat (hc_in (sample_hts_conn (sample_input k))) = ?s @ [1, 2, 3]" by (simp add: sample_hts_conn_def sample_input_def Let_def)
qed

theorem http_request_parsed_witness:
  "\<exists>Q. describes htqt_post sample_uri HTTP_V11 (sample_headers 3) Q \<and>
    hts_parse_execute hts_execute 5 sample_query (sample_hts_conn (sample_input 3)) sample_globals = do {
      r \<leftarrow> hts_done hts_execute 5 Q (sample_hts_conn (sample_input 3)) sample_globals;
      case r of Inl a \<Rightarrow> Some a | Inr (D, C, G) \<Rightarrow> hts_loop hts_execute 5 (hc_in C) D C G }"
proof -
  have "proper_request htqt_post sample_uri HTTP_V11 (sample_headers 3)" by (rule sample_proper) (simp_all add: dec_digits.simps)
  then show ?thesis using http_request_parsed sample_idle by blast
qed

section \<open>A body that is too long\<close>

lemma data_size_bound: "proper_headers r hs \<Longrightarrow> ri_data_size r < 2147483640 \<Longrightarrow> ri_data_size (fold header_effect hs r) < 2147483640"
proof (induction hs arbitrary: r)
  case (Cons h hs)
  have "ri_data_size (header_effect h r) < 2147483640"
    using Cons.prems by (cases h) (auto simp: header_effect_def proper_header_def digits_value_dec split: if_split_asm)
  then show ?case using Cons by simp
qed simp

text \<open>
  When the header and the announced body of a \<^verbatim>\<open>POST\<close> request have $2^{31}$ bytes or more, the sum of their sizes wraps to a negative
  number, \<open>rwm_trunc\<close> is called with it although the message is longer, and the assertion of \<open>rwm_fetch_data_back\<close> fails: a
  request of less than a hundred bytes stops the server.
\<close>

theorem hts_long_body_aborts:
  assumes "proper_request htqt_post u v hs" "idle C" "concat (hc_in C) = print_request htqt_post u v hs @ rest" "hts_total (hc_in C) < 2 ^ 31"
    and long: "2 ^ 31 \<le> int (length (print_request htqt_post u v hs)) + ri_data_size (fold header_effect hs (start_info htqt_post u v))"
  shows "hts_parse_execute execute now D C G = None"
proof -
  let ?n = "length (print_request htqt_post u v hs)" and ?d = "ri_data_size (fold header_effect hs (start_info htqt_post u v))"
  obtain Q where Q: "describes htqt_post u v hs Q" "hts_parse_execute execute now D C G = do {
      r \<leftarrow> hts_done execute now Q C G;
      case r of Inl a \<Rightarrow> Some a | Inr (D, C, G) \<Rightarrow> hts_loop execute now (hc_in C) D C G }"
    using request_handled [OF assms(1-3)] by blast
  have q: "header_size Q = ?n" "query_type Q = htqt_post" "QF_ERROR \<notin> query_flags Q"
    and i: "info_of Q = (fold header_effect hs (start_info htqt_post u v))\<lparr>ri_size := header_size Q\<rparr>"
    using Q(1) by (simp_all add: describes_def)
  have ds: "data_size Q = ?d" using arg_cong [OF i, of ri_data_size] by (simp add: info_of_def)
  have n: "?n < MAX_HTTP_HEADER_SIZE" using assms(1) by (simp add: proper_request_def)
  have d: "?d < 2147483640" using assms(1) by (intro data_size_bound) (simp_all add: proper_request_def start_info_def)
  have t: "int ?n \<le> int (hts_total (hc_in C))" "int (hts_total (hc_in C)) < 2 ^ 31" using assms(3,4) by (simp_all add: hts_total_def del: length_concat)
  have b: "int32 (int ?n + ?d) = int ?n + ?d - 2 ^ 32" using long n d by (intro int32_wraps) (simp_all add: MAX_HTTP_HEADER_SIZE_def)
  have "int32 (int (hts_total (hc_in C)) - (int ?n + ?d - 2 ^ 32)) = int (hts_total (hc_in C)) - (int ?n + ?d - 2 ^ 32) - 2 ^ 32"
    using t long d by (intro int32_wraps) simp_all
  then have "trunc_msg (int ?n + ?d - 2 ^ 32) (concat (hc_in C)) = None"
    using t long d n by (simp add: trunc_msg_def Let_def hts_total_def cassert_def MAX_HTTP_HEADER_SIZE_def del: length_concat)
  then have "hts_query execute Q C G = None"
    using q ds b t d n long by (simp add: hts_query_def Let_def MAX_HTTP_HEADER_SIZE_def)
  then show ?thesis using Q(2) q n by (simp add: hts_done_def)
qed

theorem hts_long_body_aborts_witness:
  "hts_parse_execute hts_execute 5 sample_query (sample_hts_conn (sample_input 2147483639)) sample_globals = None"
proof -
  have l: "length (dec_digits 2147483639) = 10" by (simp add: dec_digits.simps)
  have p: "proper_request htqt_post sample_uri HTTP_V11 (sample_headers 2147483639)" by (rule sample_proper) (simp_all add: l)
  have n: "length (print_request htqt_post sample_uri HTTP_V11 (sample_headers 2147483639)) = 60"
    by (simp add: print_request_def first_line_def sample_headers_def print_header_def crlf_def sample_uri_def version_text_def l)
  have "ri_data_size (fold header_effect (sample_headers 2147483639) (start_info htqt_post sample_uri HTTP_V11)) = 2147483639"
    using sample_names by (simp add: sample_headers_def header_effect_def digits_value_dec)
  moreover have "hts_total (hc_in (sample_hts_conn (sample_input 2147483639))) < 2 ^ 31" unfolding hts_total_def sample_idle(2) length_append n by simp
  ultimately show ?thesis using hts_long_body_aborts [OF p sample_idle] n by simp
qed

end
