(* ===== verification/Spec2Isabelle.thy ===== *)
theory Spec2Isabelle
  imports Timers ProbeHello ExtServer ProxyRun MsgStore RpcSession CrcRepair HttpRequest
begin

text \<open>
  \<^bold>\<open>MTProxy.\<close> The program (\<^verbatim>\<open>src/c-original\<close>) is a proxy between Telegram clients and middle proxies. A client connects
  over TCP, possibly disguised as a TLS client of a well-known domain, or over HTTP; its packets are decrypted, framed
  as MTProto packets and forwarded, with a connection number, to a middle proxy over an RPC connection; answers carry
  the number and are sent back to the client.

  \<^bold>\<open>Conventions.\<close> A function of the program that can fail an assertion, dereference a null pointer or read outside an
  array is a function to \<open>option\<close>, with \<open>None\<close> for the failure, so that the equation \<open>f x = Some y\<close> of a theorem says
  that it does not fail. State is passed explicitly as a record. Machine integers are words where the width matters.
  Random numbers, times, addresses of new objects, connections found by number, hashes and ciphers are arguments.
  Messages and buffers are lists of bytes, but in the
  theories on raw messages. Each handler is one step, as jobs of one class never run in parallel.

  \<^bold>\<open>Theories.\<close>

  \<^item> \<open>Prelude\<close>: checked array access, the failing operations of the option monad, shared lemmas and types.
  \<^item> \<open>Timers\<close> (\<^verbatim>\<open>net/net-timers.c\<close>): the binary heap of timers with the back pointers of its elements. The heap is
    shown to be kept in order and consistent with the pointers by all operations, and \<open>thread_run_timers\<close> to run exactly
    the timers that are due. Overflow of the heap is an error that is proved to be reachable.
  \<^item> \<open>ClientRandom\<close>, \<open>TlsBuffers\<close>, \<open>Domains\<close>, \<open>ProbeHello\<close>, \<open>ServerHello\<close>, \<open>ExtServer\<close>
    (\<^verbatim>\<open>net/net-tcp-rpc-ext-server.c\<close>): the cache of client randoms (the interface of a replay cache is the locale
    \<open>replay_cache\<close>), the table of domains, the ClientHello sent to probe a domain, the check of a ServerHello and the
    ServerHello the proxy sends, and the parser of a client's stream. Theorems: a hello is accepted at most once, a
    connection that does not authenticate sees the domain it asked for, and packets are delivered in order.
  \<^item> \<open>TlsRecord\<close> (\<^verbatim>\<open>net/net-tcp-connections.c\<close>): encryption of the stream and its TLS records; what is sent is
    received, however the network cuts the stream. The loop over records is a partial function that is shown to end.
  \<^item> \<open>RpcFrame\<close> (\<^verbatim>\<open>net/net-tcp-rpc-ext-server.c\<close>, \<^verbatim>\<open>net/net-tcp-rpc-common.c\<close>): length prefixes of packets.
  \<^item> \<open>SecretTrack\<close> (\<^verbatim>\<open>mtproto/mtproto-proxy.c\<close>): reference counts of keys and addresses per secret; both hash tables
    are instances of the locale \<open>ref_counting\<close>, and the counters are shown to be exact.
  \<^item> \<open>LinkRings\<close>, \<open>ExtConn\<close>: circular lists with two links per element, and the table of external connections (hash
    table, slots of connection numbers, lists per connection and by time of use) with its invariant.
  \<^item> \<open>ProxyConn\<close>: connections that come and go, and the connections failed when buffers run short. The loops take
    bounds on their iterations, one more than the number of objects, which is shown to be enough.
  \<^item> \<open>TlParse\<close> (\<^verbatim>\<open>common/tl-parse.c\<close>, \<^verbatim>\<open>common/tl-parse.h\<close>): reading and writing of TL values, query headers. No sequence
    of reads leaves the message; loops over headers are partial functions, one of which is shown not to return.
  \<^item> \<open>NetMsg\<close> (\<^verbatim>\<open>net/net-msg.c\<close>, \<^verbatim>\<open>net/net-msg-buffers.c\<close>): raw messages, chains of parts in shared buffers on a heap of parts and
    buffers. An operation on a part or buffer that is not in the heap is a failure. \<open>MsgHeap\<close> holds the invariant of the heap
    (reference counts, links that end, windows in buffers) and what each change of the heap keeps of the parts that others can
    reach; \<open>MsgRep\<close> the bytes a message stands for; \<open>MsgRead\<close>, \<open>MsgWrite\<close>, \<open>MsgPush\<close> and \<open>MsgFront\<close> what each operation
    does to them; \<open>MsgStore\<close> that programs with any number of messages refine programs on byte strings (the locale
    \<open>store_refinement\<close>) and leak nothing, as long as no message reaches $2^{31}$ bytes and no message is split at 0 that is not empty. The loops are partial functions, and their theorems say that they return.
  \<^item> \<open>CryptoDh\<close> (\<^verbatim>\<open>net/net-crypto-dh.c\<close>), \<open>AesKeys\<close> (\<^verbatim>\<open>net/net-crypto-aes.c\<close>), \<open>RpcPeer\<close> (\<^verbatim>\<open>common/pid.c\<close>,
    \<^verbatim>\<open>net/net-tcp-rpc-common.c\<close>), \<open>RpcClient\<close> and \<open>RpcServer\<close> (\<^verbatim>\<open>net/net-tcp-rpc-client.c\<close>,
    \<^verbatim>\<open>net/net-tcp-rpc-server.c\<close>): connections to middle proxies, with the key exchange, the derivation of keys and the handshake.
    \<open>RpcHandshake\<close> has the steps of the handshake and the invariant of a server that requires encryption; \<open>RpcSession\<close> the
    theorems that the handshake completes, that encryption with keys made from the secret and the packet of the client is enforced, and that a bad value in the key exchange is fatal. Bytes on
    these connections are those before encryption.
  \<^item> \<open>CrcTables\<close>, \<open>Crc32\<close>, \<open>CrcField\<close>, \<open>CrcRepair\<close> (\<^verbatim>\<open>common/crc32.c\<close>, \<^verbatim>\<open>common/crc32c.c\<close>): checksums. The nine tables are
    those of the source and are shown to hold multiples of the polynomials; the functions that use them compute the checksum that
    is defined bit by bit; the checksum of a concatenation is combined from those of its parts; and a single wrong bit
    is found, because the order of the variable in the field is at least $2^{31}$.
  \<^item> \<open>HttpDate\<close>, \<open>HttpReply\<close>, \<open>HttpParse\<close>, \<open>HttpBlocks\<close>, \<open>HttpServer\<close>, \<open>HttpRequest\<close> (\<^verbatim>\<open>net/net-http-server.c\<close>, handlers of
    \<^verbatim>\<open>mtproto/mtproto-proxy.c\<close>): the HTTP server. Dates that are printed are read back, answers fit into their buffers, headers
    are found by their names, and the state machine that parses requests makes progress with each step. The handlers are
    instances of the locale \<open>http_handler\<close>; with each of them the server returns for every input without a request whose size does
    not fit into an \<^verbatim>\<open>int\<close>, for which it is shown to fail an assertion. The loop over requests is a
    partial function that is shown to return. What the parser finds does not depend on the blocks that arrive, and a request
    that is printed is parsed back.
  \<^item> \<open>Forward\<close>: forwarding of a packet to a middle proxy and of an answer to the client.
  \<^item> \<open>ProxySafety\<close>, \<open>ProxyRun\<close>: both handlers never fail an assertion and keep the invariant of the table; over all runs
    of the proxy connection numbers are never reused and an answer reaches only the client its number belongs to.

  \<^bold>\<open>Not modelled.\<close> The job system, sockets and the event loop (threads and system calls); the
  allocation of buffers in chunks (\<open>alloc_msg_buffer\<close> gives a new buffer or none); the choice of connections to a process (\<^verbatim>\<open>net/net-rpc-targets.c\<close>); the configuration file; checksums by special instructions of the processor and the combination of CRC-64; the
  engine's start-up; logging and statistics output; OpenSSL, which is not part of the repository. The port in Go and
  the scripts are not part of the program in C.
\<close>

end
